(* ===== verification/Prelude.thy ===== *)
theory Prelude
  imports Main "HOL-Library.Word" "HOL-Library.Monad_Syntax" "HOL-Library.Multiset"
begin

text \<open>
  Shared material of the development: the collections the components put their facts
  into, generic lemmas on lists and options, the reachable states of a transition system,
  and the interface locales that more than one component provides or uses.

  An operation whose C++ code would dereference a null or dangling pointer returns
  \<open>None\<close>; every other operation returns its result (in the option monad where it calls
  a partial one).
\<close>

named_theorems model_simps "unfolding rules of the small accessors of the model"
named_theorems inv_intros "preservation lemmas of the component invariants"

section \<open>Options\<close>

lemma bind_SomeD: "Option.bind m f = Some y \<Longrightarrow> \<exists>x. m = Some x \<and> f x = Some y"
  by (cases m) auto

lemma bind_SomeE:
  assumes "Option.bind m f = Some y"
  obtains x where "m = Some x" "f x = Some y"
  using assms by (cases m) auto

fun foldM :: "('s \<Rightarrow> 'a \<Rightarrow> 's option) \<Rightarrow> 's \<Rightarrow> 'a list \<Rightarrow> 's option" where
  "foldM f s [] = Some s"
| "foldM f s (x # xs) = (case f s x of None \<Rightarrow> None | Some s' \<Rightarrow> foldM f s' xs)"

lemma foldM_append:
  "foldM f s (xs @ ys) = Option.bind (foldM f s xs) (\<lambda>s'. foldM f s' ys)"
  by (induction xs arbitrary: s) (auto split: option.splits)

lemma foldM_inv:
  assumes "foldM f s xs = Some t" "P s"
    and "\<And>s x s'. x \<in> set xs \<Longrightarrow> P s \<Longrightarrow> f s x = Some s' \<Longrightarrow> P s'"
  shows "P t"
  using assms
proof (induction xs arbitrary: s)
  case Nil
  then show ?case by simp
next
  case (Cons x xs)
  from Cons.prems(1) obtain s' where s': "f s x = Some s'" "foldM f s' xs = Some t"
    by (auto split: option.splits)
  have "P s'" using Cons.prems(2,3) s'(1) by auto
  then show ?case using Cons.IH [OF s'(2)] Cons.prems(3) by auto
qed

lemma foldM_total:
  assumes "P s"
    and "\<And>s x. x \<in> set xs \<Longrightarrow> P s \<Longrightarrow> \<exists>s'. f s x = Some s' \<and> P s'"
  shows "\<exists>t. foldM f s xs = Some t \<and> P t"
  using assms
proof (induction xs arbitrary: s)
  case Nil
  then show ?case by simp
next
  case (Cons x xs)
  from Cons.prems obtain s' where "f s x = Some s'" "P s'" by (meson list.set_intros(1))
  then show ?case using Cons.IH [of s'] Cons.prems(2) by auto
qed

section \<open>Lists\<close>

lemma mset_update_mset:
  "i < length xs \<Longrightarrow> mset (xs[i := y]) + {#xs ! i#} = mset xs + {#y#}"
  by (simp add: mset_update nth_mem_mset)

section \<open>Reachable states\<close>

inductive reach :: "('s \<Rightarrow> bool) \<Rightarrow> ('s \<Rightarrow> 's \<Rightarrow> bool) \<Rightarrow> 's \<Rightarrow> bool"
  for init :: "'s \<Rightarrow> bool" and step :: "'s \<Rightarrow> 's \<Rightarrow> bool" where
  reach_init: "init s \<Longrightarrow> reach init step s"
| reach_step: "reach init step s \<Longrightarrow> step s t \<Longrightarrow> reach init step t"

locale invariant_system =
  fixes init :: "'s \<Rightarrow> bool" and step :: "'s \<Rightarrow> 's \<Rightarrow> bool" and inv :: "'s \<Rightarrow> bool"
  assumes inv_init: "init s \<Longrightarrow> inv s"
    and inv_step: "inv s \<Longrightarrow> step s t \<Longrightarrow> inv t"
begin

lemma reach_inv: "reach init step s \<Longrightarrow> inv s"
  by (induction rule: reach.induct) (auto intro: inv_init inv_step)

lemma steps_inv: "step\<^sup>*\<^sup>* s t \<Longrightarrow> inv s \<Longrightarrow> inv t"
  by (induction rule: rtranclp_induct) (auto intro: inv_step)

end

section \<open>First-in first-out queues\<close>

text \<open>
  The contract of a queue: an abstraction to the list of its elements, oldest first. The
  client lemma is the loop that takes the front until the queue is empty.
\<close>

locale fifo =
  fixes push :: "'q \<Rightarrow> 'a \<Rightarrow> 'q" and front :: "'q \<Rightarrow> 'a" and pop :: "'q \<Rightarrow> 'q"
    and is_empty :: "'q \<Rightarrow> bool" and elems :: "'q \<Rightarrow> 'a list" and ok :: "'q \<Rightarrow> bool"
  assumes ok_push: "ok q \<Longrightarrow> ok (push q x)"
    and elems_push: "ok q \<Longrightarrow> elems (push q x) = elems q @ [x]"
    and is_empty_iff: "ok q \<Longrightarrow> is_empty q \<longleftrightarrow> elems q = []"
    and front_hd: "ok q \<Longrightarrow> elems q \<noteq> [] \<Longrightarrow> front q = hd (elems q)"
    and ok_pop: "ok q \<Longrightarrow> elems q \<noteq> [] \<Longrightarrow> ok (pop q)"
    and elems_pop: "ok q \<Longrightarrow> elems q \<noteq> [] \<Longrightarrow> elems (pop q) = tl (elems q)"
begin

lemma push_list: "ok q \<Longrightarrow> ok (foldl push q xs) \<and> elems (foldl push q xs) = elems q @ xs"
  by (induction xs arbitrary: q) (auto simp: ok_push elems_push)

lemma pop_push_list:
  assumes "ok q" "elems q = x # xs"
  shows "front q = x" "elems (pop q) = xs" "ok (pop q)"
    "elems (foldl push (pop q) ys) = xs @ ys"
  using assms front_hd elems_pop ok_pop push_list by auto

lemma nth_pop:
  assumes "ok q" "n < length (elems q)"
  shows "\<not> is_empty ((pop ^^ n) q) \<and> front ((pop ^^ n) q) = elems q ! n"
proof -
  have *: "n \<le> length (elems q) \<Longrightarrow> ok ((pop ^^ n) q) \<and> elems ((pop ^^ n) q) = drop n (elems q)" for n
  proof (induction n)
    case (Suc n)
    then have "ok ((pop ^^ n) q)" and e: "elems ((pop ^^ n) q) = drop n (elems q)" by auto
    moreover have "drop n (elems q) \<noteq> []" using Suc.prems by simp
    ultimately show ?case by (simp add: ok_pop elems_pop drop_Suc tl_drop)
  qed (use assms in simp)
  show ?thesis using * [of n] assms(2) by (auto simp: is_empty_iff front_hd hd_drop_conv_nth)
qed

end

section \<open>The first error wins\<close>

text \<open>
  An accumulator of a status that keeps the first value that is not ok, as
  \<open>Status::Update\<close> and the executor's \<open>status_\<close> do.
\<close>

locale first_error =
  fixes is_ok :: "'s \<Rightarrow> bool" and upd :: "'s \<Rightarrow> 's \<Rightarrow> 's"
  assumes upd_ok: "is_ok s \<Longrightarrow> upd s e = e"
    and upd_keep: "\<not> is_ok s \<Longrightarrow> upd s e = s"
begin

lemma foldl_keep: "\<not> is_ok s \<Longrightarrow> foldl upd s es = s"
  by (induction es) (auto simp: upd_keep)

lemma foldl_first:
  assumes "is_ok s" "\<forall>e\<in>set as. is_ok e" "\<not> is_ok b"
  shows "foldl upd s (as @ b # bs) = b"
  using assms
proof (induction as arbitrary: s)
  case Nil
  then show ?case by (simp add: upd_ok foldl_keep)
next
  case (Cons a as)
  then show ?case by (simp add: upd_ok)
qed

lemma foldl_all_ok: "is_ok s \<Longrightarrow> \<forall>e\<in>set es. is_ok e \<Longrightarrow> is_ok (foldl upd s es)"
  by (induction es arbitrary: s) (auto simp: upd_ok)

lemma foldl_ok_iff: "is_ok (foldl upd s es) \<longleftrightarrow> is_ok s \<and> (\<forall>e\<in>set es. is_ok e)"
proof (induction es arbitrary: s)
  case (Cons e es)
  then show ?case by (cases "is_ok s") (auto simp: upd_ok upd_keep foldl_keep)
qed simp

end

section \<open>Functional simulation\<close>

text \<open>
  A detailed machine and an abstract one that read the same inputs and give the same
  outputs. \<open>ok\<close> says of an abstract state and an input that the code may see it. The
  client's lemma lifts the step to whole runs.
\<close>

fun run :: "('s \<Rightarrow> 'i \<Rightarrow> 's \<times> 'o) \<Rightarrow> 's \<Rightarrow> 'i list \<Rightarrow> 's \<times> 'o list" where
  "run step s [] = (s, [])"
| "run step s (i # is) = (let (s', r) = step s i; (t, rs) = run step s' is in (t, r # rs))"

lemma run_append:
  "run step s (xs @ ys) = (let (s', r) = run step s xs; (t, r') = run step s' ys in (t, r @ r'))"
  by (induction xs arbitrary: s) (auto simp: Let_def split: prod.splits)

lemma run_snoc:
  "run step s (xs @ [x]) = (let (s', r) = run step s xs; (t, o1) = step s' x in (t, r @ [o1]))"
  by (simp add: run_append Let_def split: prod.splits)

lemma length_run: "length (snd (run step s xs)) = length xs"
  by (induction xs arbitrary: s) (simp_all add: Let_def split_beta)

fun run_ok :: "('a \<Rightarrow> 'i \<Rightarrow> 'a \<times> 'o) \<Rightarrow> ('a \<Rightarrow> 'i \<Rightarrow> bool) \<Rightarrow> 'a \<Rightarrow> 'i list \<Rightarrow> bool" where
  "run_ok step ok a [] = True"
| "run_ok step ok a (i # is) = (ok a i \<and> run_ok step ok (fst (step a i)) is)"

lemma run_ok_append:
  "run_ok step ok a (xs @ ys) \<longleftrightarrow> run_ok step ok a xs \<and> run_ok step ok (fst (run step a xs)) ys"
  by (induction xs arbitrary: a) (auto simp: Let_def split: prod.splits)

locale simulation =
  fixes abs :: "'c \<Rightarrow> 'a" and cstep :: "'c \<Rightarrow> 'i \<Rightarrow> 'c \<times> 'o"
    and astep :: "'a \<Rightarrow> 'i \<Rightarrow> 'a \<times> 'o" and wf :: "'c \<Rightarrow> bool" and ok :: "'a \<Rightarrow> 'i \<Rightarrow> bool"
  assumes sim_step: "wf c \<Longrightarrow> ok (abs c) i \<Longrightarrow>
      (abs (fst (cstep c i)), snd (cstep c i)) = astep (abs c) i"
    and sim_wf: "wf c \<Longrightarrow> ok (abs c) i \<Longrightarrow> wf (fst (cstep c i))"
begin

lemma sim_run:
  assumes "wf c" "run_ok astep ok (abs c) is"
  shows "(abs (fst (run cstep c is)), snd (run cstep c is)) = run astep (abs c) is
     \<and> wf (fst (run cstep c is))"
  using assms
proof (induction "is" arbitrary: c)
  case (Cons i "is")
  obtain c' r where c': "cstep c i = (c', r)" by (cases "cstep c i")
  from Cons.prems have ok: "ok (abs c) i" and oks: "run_ok astep ok (fst (astep (abs c) i)) is" by auto
  have a: "astep (abs c) i = (abs c', r)" using sim_step [OF Cons.prems(1) ok] c' by simp
  have "wf c'" using sim_wf [OF Cons.prems(1) ok] c' by simp
  with Cons.IH [of c'] oks a show ?case by (auto simp: c' Let_def split: prod.splits)
qed simp

lemma sim_outputs:
  "wf c \<Longrightarrow> run_ok astep ok (abs c) is \<Longrightarrow> snd (run cstep c is) = snd (run astep (abs c) is)"
  using sim_run [of c "is"] by (cases "run astep (abs c) is") auto

lemma sim_state:
  "wf c \<Longrightarrow> run_ok astep ok (abs c) is \<Longrightarrow> abs (fst (run cstep c is)) = fst (run astep (abs c) is)"
  using sim_run [of c "is"] by (cases "run astep (abs c) is") auto

end

end
