(* ===== verification/Status_Model.thy ===== *)
theory Status_Model
  imports Prelude
begin

text \<open>
  The error values every other component returns: \<open>Status\<close> and \<open>StatusGroup\<close> of
  core/platform/status.h and status.cc, and the log sink that feeds a group its recent log
  lines. A \<open>Status\<close> is its \<open>state_\<close> pointer: null (\<open>None\<close>) is the success status.
  Strings are lists of bytes, as \<open>std::string\<close>.
\<close>

section \<open>Error codes and status values\<close>

datatype error_code =
    OK | CANCELLED | UNKNOWN | INVALID_ARGUMENT | DEADLINE_EXCEEDED | NOT_FOUND
  | ALREADY_EXISTS | PERMISSION_DENIED | RESOURCE_EXHAUSTED | FAILED_PRECONDITION | ABORTED
  | OUT_OF_RANGE | UNIMPLEMENTED | INTERNAL | UNAVAILABLE | DATA_LOSS | UNAUTHENTICATED
  | OTHER_CODE int

record status_state =
  st_code :: error_code
  st_msg :: string

type_synonym status = "status_state option"

abbreviation (input) ok_status :: status where "ok_status \<equiv> None"

definition mk_status :: "error_code \<Rightarrow> string \<Rightarrow> status" where
  "mk_status c m = Some \<lparr>st_code = c, st_msg = m\<rparr>"

definition status_ok :: "status \<Rightarrow> bool" where
  "status_ok s = (s = None)"

definition status_code :: "status \<Rightarrow> error_code" where
  "status_code s = (case s of None \<Rightarrow> OK | Some st \<Rightarrow> st_code st)"

definition error_message :: "status \<Rightarrow> string" where
  "error_message s = (case s of None \<Rightarrow> [] | Some st \<Rightarrow> st_msg st)"

definition status_update :: "status \<Rightarrow> status \<Rightarrow> status" where
  "status_update s new_status = (if status_ok s then new_status else s)"

lemmas status_simps [model_simps] = mk_status_def status_ok_def status_code_def error_message_def

section \<open>Printing\<close>

definition digit_char :: "nat \<Rightarrow> char" where
  "digit_char d = char_of (48 + d)"

fun show_nat :: "nat \<Rightarrow> string" where
  "show_nat n = (if n < 10 then [digit_char n]
                 else show_nat (n div 10) @ [digit_char (n mod 10)])"

declare show_nat.simps [simp del]

definition show_int :: "int \<Rightarrow> string" where
  "show_int i = (if i < 0 then CHR ''-'' # show_nat (nat (- i)) else show_nat (nat i))"

fun error_name :: "error_code \<Rightarrow> string" where
  "error_name OK = ''OK''"
| "error_name CANCELLED = ''Cancelled''"
| "error_name UNKNOWN = ''Unknown''"
| "error_name INVALID_ARGUMENT = ''Invalid argument''"
| "error_name DEADLINE_EXCEEDED = ''Deadline exceeded''"
| "error_name NOT_FOUND = ''Not found''"
| "error_name ALREADY_EXISTS = ''Already exists''"
| "error_name PERMISSION_DENIED = ''Permission denied''"
| "error_name UNAUTHENTICATED = ''Unauthenticated''"
| "error_name RESOURCE_EXHAUSTED = ''Resource exhausted''"
| "error_name FAILED_PRECONDITION = ''Failed precondition''"
| "error_name ABORTED = ''Aborted''"
| "error_name OUT_OF_RANGE = ''Out of range''"
| "error_name UNIMPLEMENTED = ''Unimplemented''"
| "error_name INTERNAL = ''Internal''"
| "error_name UNAVAILABLE = ''Unavailable''"
| "error_name DATA_LOSS = ''Data loss''"
| "error_name (OTHER_CODE n) = take 29 (''Unknown code('' @ show_int n @ '')'')"

definition status_to_string :: "status \<Rightarrow> string" where
  "status_to_string s = (case s of None \<Rightarrow> ''OK''
     | Some st \<Rightarrow> error_name (st_code st) @ '': '' @ st_msg st)"

definition status_equal :: "status \<Rightarrow> status \<Rightarrow> bool" where
  "status_equal s x = ((s = None \<and> x = None) \<or> status_to_string s = status_to_string x)"

section \<open>Derived statuses\<close>

definition kDerivedMarker :: string where
  "kDerivedMarker = ''[_Derived_]''"

fun str_contains :: "string \<Rightarrow> string \<Rightarrow> bool" where
  "str_contains pat [] = (pat = [])"
| "str_contains pat (c # cs) = (take (length pat) (c # cs) = pat \<or> str_contains pat cs)"

definition is_derived :: "status \<Rightarrow> bool" where
  "is_derived s = str_contains kDerivedMarker (error_message s)"

definition make_derived :: "status \<Rightarrow> status" where
  "make_derived s = (if is_derived s then s
                     else mk_status (status_code s) (kDerivedMarker @ error_message s))"

section \<open>Groups of statuses\<close>

record status_group =
  sg_ok :: bool
  sg_num_ok :: nat
  sg_children :: "status list"
  sg_recent_logs :: "string list"

definition new_status_group :: status_group where
  "new_status_group = \<lparr>sg_ok = True, sg_num_ok = 0, sg_children = [], sg_recent_logs = []\<rparr>"

definition sg_update :: "status_group \<Rightarrow> status \<Rightarrow> status_group" where
  "sg_update g s = (if status_ok s then g\<lparr>sg_num_ok := sg_num_ok g + 1\<rparr>
                    else g\<lparr>sg_ok := False, sg_children := sg_children g @ [s]\<rparr>)"

fun get_non_derived :: "status list \<Rightarrow> status list" where
  "get_non_derived [] = []"
| "get_non_derived (s # ss) = (if is_derived s then get_non_derived ss
                               else s # get_non_derived ss)"

definition kMaxAggregatedStatusMessageSize :: nat where
  "kMaxAggregatedStatusMessageSize = 8 * 1024"

definition kMaxAttachedLogMessageSize :: nat where
  "kMaxAttachedLogMessageSize = 512"

abbreviation (input) newline :: char where "newline \<equiv> CHR 0x0A"

text \<open>
  \<open>absl::StrJoin\<close> is not part of the repository: it is the parameter \<open>join\<close>, from the lines
  and the separator to the text.
\<close>

definition get_recent_logs :: "(string list \<Rightarrow> string \<Rightarrow> string) \<Rightarrow> status_group \<Rightarrow> string" where
  "get_recent_logs join g = (if sg_recent_logs g = [] then []
     else join ((newline # ''Recent warning and error logs:'')
            # map (\<lambda>log. ''  '' @ take kMaxAttachedLogMessageSize log) (sg_recent_logs g))
          [newline])"

text \<open>The loop over the root errors: the running code and the formatted lines.\<close>

fun summary_loop :: "error_code \<Rightarrow> nat \<Rightarrow> status list \<Rightarrow> error_code \<times> string list" where
  "summary_loop code index [] = (code, [])"
| "summary_loop code index (s # ss) =
     (let code' = (if code = CANCELLED \<and> status_code s \<noteq> CANCELLED then status_code s else code);
          (c, fmt) = summary_loop code' (index + 1) ss
      in (c, (''  ('' @ show_nat index @ '') '' @ status_to_string s) # fmt))"

definition as_summary_status :: "(string list \<Rightarrow> string \<Rightarrow> string) \<Rightarrow> status_group \<Rightarrow> status option" where
  "as_summary_status join g =
     (if sg_ok g then Some ok_status
      else
        let roots = get_non_derived (sg_children g) in
        case roots of
          [s] \<Rightarrow> Some (mk_status (status_code s) (error_message s @ get_recent_logs join g))
        | [] \<Rightarrow> (case sg_children g of [] \<Rightarrow> None | c # _ \<Rightarrow> Some c)
        | _ \<Rightarrow>
            let (code, lines) = summary_loop CANCELLED 0 roots;
                fmt = (show_nat (length roots) @ '' root error(s) found.'') # lines
                  @ [show_nat (sg_num_ok g) @ '' successful operations.'',
                     show_nat (length (sg_children g) - length roots)
                       @ '' derived errors ignored.''];
                error_msg = take kMaxAggregatedStatusMessageSize (join fmt [newline])
            in Some (mk_status code (error_msg @ get_recent_logs join g)))"

definition as_concatenated_status :: "(string list \<Rightarrow> string \<Rightarrow> string) \<Rightarrow> status_group \<Rightarrow> status option" where
  "as_concatenated_status join g =
     (if sg_ok g then Some ok_status
      else
        let roots = get_non_derived (sg_children g) in
        case roots of
          [s] \<Rightarrow> Some s
        | [] \<Rightarrow> (case sg_children g of [] \<Rightarrow> None | c # _ \<Rightarrow> Some c)
        | s # _ \<Rightarrow>
            let fmt = (newline # ''====================='') # map status_to_string roots
                  @ [''====================='' @ [newline]]
            in Some (mk_status (status_code s)
                 (take kMaxAggregatedStatusMessageSize (join fmt [newline]))))"

text \<open>
  \<open>children_[0]\<close> of an empty vector is written \<open>None\<close>: it is out of range in C++.
\<close>

section \<open>The log sink\<close>

record log_sink =
  ls_registered :: bool
  ls_enabled :: bool
  ls_num_messages :: int
  ls_messages :: "string list"

definition new_log_sink :: log_sink where
  "new_log_sink = \<lparr>ls_registered = False, ls_enabled = False, ls_num_messages = 0, ls_messages = []\<rparr>"

text \<open>
  \<open>enable\<close>: the body runs once. \<open>env\<close> is the value of the environment variable
  (\<open>None\<close> when it is not set) and \<open>atoi\<close> is \<open>absl::SimpleAtoi\<close>, which is not part of
  the repository: it gives whether the text parses and the value it stores in its output.
\<close>

definition ls_enable :: "(string \<Rightarrow> bool \<times> int) \<Rightarrow> string option \<Rightarrow> log_sink \<Rightarrow> log_sink" where
  "ls_enable atoi env s = (if ls_enabled s then s else
     let n = (case env of None \<Rightarrow> 5 | Some v \<Rightarrow> snd (atoi v))
     in s\<lparr>ls_enabled := True, ls_num_messages := n, ls_registered := (n > 0)\<rparr>)"

text \<open>
  \<open>Send\<close>: \<open>warning\<close> says whether the severity is at least a warning. The comparison
  \<open>messages_.size() > num_messages_\<close> is one of 64-bit unsigned values.
\<close>

definition ls_send :: "bool \<Rightarrow> string \<Rightarrow> log_sink \<Rightarrow> log_sink" where
  "ls_send warning entry s = (if \<not> warning then s else
     let ms = ls_messages s @ [entry]
     in s\<lparr>ls_messages := (if (word_of_int (ls_num_messages s) :: 64 word) < of_nat (length ms)
                          then tl ms else ms)\<rparr>)"

definition ls_get_messages :: "log_sink \<Rightarrow> string list \<Rightarrow> string list" where
  "ls_get_messages s logs = logs @ ls_messages s"

definition attach_log_messages :: "log_sink \<Rightarrow> status_group \<Rightarrow> status_group" where
  "attach_log_messages sink g = g\<lparr>sg_recent_logs := ls_get_messages sink []\<rparr>"

section \<open>Properties\<close>

interpretation st: first_error status_ok status_update
  by unfold_locales (auto simp: status_update_def)

text \<open>A chain of updates returns the first error, and is ok only when all were.\<close>

lemma status_update_chain:
  "foldl status_update None ss =
     (case dropWhile status_ok ss of [] \<Rightarrow> None | s # _ \<Rightarrow> s)"
proof (cases "\<forall>s\<in>set ss. status_ok s")
  case True
  then have "status_ok (foldl status_update None ss)"
    by (intro st.foldl_all_ok) (auto simp: status_ok_def)
  then have "foldl status_update None ss = None" by (simp add: status_ok_def)
  moreover have dw: "dropWhile status_ok ss = []" using True by simp
  ultimately show ?thesis unfolding dw by simp
next
  case False
  then obtain as b bs where ss: "ss = as @ b # bs" "\<forall>s\<in>set as. status_ok s" "\<not> status_ok b"
    using split_list_first_prop [of ss "\<lambda>s. \<not> status_ok s"] by blast
  then have "foldl status_update None ss = b"
    using st.foldl_first [of None as b bs] by (simp add: status_ok_def)
  moreover have "dropWhile status_ok ss = b # bs"
    unfolding ss(1) using ss(2,3) by (subst dropWhile_append2) auto
  ultimately show ?thesis by simp
qed

lemma str_contains_append1: "str_contains pat (pat @ s)"
proof (cases pat)
  case Nil
  then show ?thesis by (cases s) auto
next
  case (Cons a list)
  then show ?thesis by simp
qed

lemma str_contains_append2: "str_contains pat s \<Longrightarrow> str_contains pat (t @ s)"
  by (induction t) auto

lemma str_contains_iff: "str_contains pat s \<longleftrightarrow> (\<exists>u v. s = u @ pat @ v)"
proof
  show "str_contains pat s \<Longrightarrow> \<exists>u v. s = u @ pat @ v"
  proof (induction s)
    case (Cons c cs)
    show ?case
    proof (cases "take (length pat) (c # cs) = pat")
      case True
      then have "c # cs = [] @ pat @ drop (length pat) (c # cs)"
        by (metis append_Nil append_take_drop_id)
      then show ?thesis by blast
    next
      case False
      with Cons obtain u v where "cs = u @ pat @ v" by auto
      then have "c # cs = (c # u) @ pat @ v" by simp
      then show ?thesis by blast
    qed
  qed simp
qed (auto intro: str_contains_append1 str_contains_append2)

lemma is_derived_make_derived: "is_derived (make_derived s)"
  by (auto simp: make_derived_def is_derived_def status_simps str_contains_append1)

lemma make_derived_idem: "make_derived (make_derived s) = make_derived s"
  using is_derived_make_derived [of s] by (simp add: make_derived_def [of "make_derived s"])

lemma make_derived_code: "status_code (make_derived s) = status_code s"
  by (simp add: make_derived_def status_simps)

lemma not_derived_ok: "\<not> is_derived None"
  by (simp add: is_derived_def kDerivedMarker_def error_message_def)

lemma get_non_derived_eq: "get_non_derived ss = filter (\<lambda>s. \<not> is_derived s) ss"
  by (induction ss) auto

definition sg_wf :: "status_group \<Rightarrow> bool" where
  "sg_wf g \<longleftrightarrow> (sg_ok g \<longleftrightarrow> sg_children g = []) \<and> (\<forall>s\<in>set (sg_children g). \<not> status_ok s)"

lemma sg_wf_new: "sg_wf new_status_group"
  by (simp add: sg_wf_def new_status_group_def)

lemma sg_wf_update [inv_intros]: "sg_wf g \<Longrightarrow> sg_wf (sg_update g s)"
  by (auto simp: sg_wf_def sg_update_def)

lemma sg_wf_attach [inv_intros]: "sg_wf g \<Longrightarrow> sg_wf (attach_log_messages k g)"
  by (simp add: sg_wf_def attach_log_messages_def)

lemma sg_updates:
  "sg_wf (foldl sg_update new_status_group ss) \<and>
   sg_children (foldl sg_update new_status_group ss) = filter (\<lambda>s. \<not> status_ok s) ss \<and>
   sg_num_ok (foldl sg_update new_status_group ss) = length (filter status_ok ss) \<and>
   sg_recent_logs (foldl sg_update new_status_group ss) = []"
proof (induction ss rule: rev_induct)
  case Nil
  then show ?case by (simp add: sg_wf_new) (simp add: new_status_group_def)
next
  case (snoc s ss)
  obtain g where g: "g = foldl sg_update new_status_group ss" by simp
  have "sg_wf (sg_update g s)" using snoc by (simp add: g sg_wf_update)
  with snoc show ?case unfolding foldl_append foldl.simps g [symmetric]
    by (simp add: sg_update_def)
qed

lemma summary_loop_code:
  "fst (summary_loop c i ss) = (if c \<noteq> CANCELLED then c else
     case filter (\<lambda>s. status_code s \<noteq> CANCELLED) ss of [] \<Rightarrow> CANCELLED | s # _ \<Rightarrow> status_code s)"
  by (induction c i ss rule: summary_loop.induct) (auto simp: Let_def split: prod.splits list.splits)

lemma summary_loop_lines: "length (snd (summary_loop c i ss)) = length ss"
  by (induction c i ss rule: summary_loop.induct) (auto simp: Let_def split: prod.splits)

text \<open>
  The summary of a group: defined whenever the group was filled by \<open>Update\<close>, ok exactly
  when every child was, a root error (not one marked as derived) when there is one, and
  with code CANCELLED only when every root error is.
\<close>

lemma as_summary_status_defined: "sg_wf g \<Longrightarrow> \<exists>s. as_summary_status join g = Some s"
  by (auto simp: as_summary_status_def sg_wf_def Let_def split: list.splits prod.splits)

lemma as_summary_status_code:
  assumes "sg_wf g" "as_summary_status join g = Some s" "get_non_derived (sg_children g) \<noteq> []"
  shows "status_code s = (case filter (\<lambda>s. status_code s \<noteq> CANCELLED) (get_non_derived (sg_children g))
                          of [] \<Rightarrow> CANCELLED | r # _ \<Rightarrow> status_code r)"
proof -
  let ?roots = "get_non_derived (sg_children g)"
  have "sg_children g \<noteq> []" using assms(3) by auto
  then have nok: "\<not> sg_ok g" using assms(1) by (simp add: sg_wf_def)
  obtain r rs where r: "?roots = r # rs" using assms(3) by (cases ?roots) auto
  show ?thesis
  proof (cases rs)
    case Nil
    then show ?thesis using assms(2) nok r
      by (auto simp: as_summary_status_def status_simps split: if_splits)
  next
    case (Cons q qs)
    then show ?thesis using assms(2) nok r summary_loop_code [of CANCELLED 0 ?roots]
      by (auto simp: as_summary_status_def Let_def status_simps split: prod.splits)
  qed
qed

lemma ls_send_bound:
  assumes "0 < ls_num_messages s" "ls_num_messages s < 2 ^ 31"
    "int (length (ls_messages s)) \<le> ls_num_messages s"
  shows "int (length (ls_messages (ls_send w e s))) \<le> ls_num_messages s"
proof -
  let ?n = "nat (ls_num_messages s)" and ?m = "Suc (length (ls_messages s))"
  have n: "(word_of_int (ls_num_messages s) :: 64 word) = of_nat ?n" using assms(1) by simp
  have b: "?n < 2 ^ 64" "?m < 2 ^ 64" using assms by auto
  then have "unat (of_nat ?n :: 64 word) = ?n" "unat (of_nat ?m :: 64 word) = ?m"
    by (simp_all only: unat_of_nat len_of_numeral_defs) simp_all
  then have "(of_nat ?n :: 64 word) < of_nat ?m \<longleftrightarrow> ?n < ?m"
    by (simp only: word_less_nat_alt)
  then show ?thesis using assms unfolding ls_send_def Let_def n by auto
qed


text \<open>
  The summary of a group filled by \<open>Update\<close> is defined and is ok exactly when every
  status was; when some error is not derived, its code is that of the first such error that
  is not a cancellation, and CANCELLED only when all of them are cancellations; when all
  errors are derived, the summary is the first of them.
\<close>

theorem summary_of_updates:
  assumes "g = foldl sg_update new_status_group ss"
  shows "\<exists>s. as_summary_status join g = Some s
    \<and> ((\<forall>x\<in>set ss. status_ok x) \<longrightarrow> s = ok_status)
    \<and> (filter (\<lambda>x. \<not> status_ok x \<and> \<not> is_derived x) ss \<noteq> [] \<longrightarrow>
        status_code s =
          (case filter (\<lambda>x. \<not> status_ok x \<and> \<not> is_derived x \<and> status_code x \<noteq> CANCELLED) ss of
             [] \<Rightarrow> CANCELLED | r # _ \<Rightarrow> status_code r))
    \<and> (filter (\<lambda>x. \<not> status_ok x \<and> \<not> is_derived x) ss = [] \<and> (\<exists>x\<in>set ss. \<not> status_ok x) \<longrightarrow>
        s = hd (filter (\<lambda>x. \<not> status_ok x) ss))"
proof -
  have wf: "sg_wf g" and ch: "sg_children g = filter (\<lambda>s. \<not> status_ok s) ss"
    using sg_updates [of ss] by (simp_all add: assms)
  obtain s where s: "as_summary_status join g = Some s" using as_summary_status_defined [OF wf] by blast
  have roots: "get_non_derived (sg_children g) = filter (\<lambda>x. \<not> status_ok x \<and> \<not> is_derived x) ss"
    by (simp add: get_non_derived_eq ch conj_commute)
  have "s = ok_status" if "\<forall>x\<in>set ss. status_ok x"
  proof -
    have "sg_ok g" using wf that by (simp add: sg_wf_def ch filter_empty_conv)
    then show ?thesis using s by (simp add: as_summary_status_def)
  qed
  moreover have "status_code s = (case filter (\<lambda>x. \<not> status_ok x \<and> \<not> is_derived x \<and> status_code x \<noteq> CANCELLED) ss of
             [] \<Rightarrow> CANCELLED | r # _ \<Rightarrow> status_code r)"
    if "filter (\<lambda>x. \<not> status_ok x \<and> \<not> is_derived x) ss \<noteq> []"
    using as_summary_status_code [OF wf s] that unfolding roots by (simp add: conj_commute conj_left_commute)
  moreover have "s = hd (filter (\<lambda>x. \<not> status_ok x) ss)"
    if "filter (\<lambda>x. \<not> status_ok x \<and> \<not> is_derived x) ss = []" "\<exists>x\<in>set ss. \<not> status_ok x"
  proof -
    have ne: "sg_children g \<noteq> []" using that(2) by (auto simp: ch filter_empty_conv)
    then have "\<not> sg_ok g" using wf by (simp add: sg_wf_def)
    then show ?thesis using s that(1) ne roots
      by (auto simp: as_summary_status_def ch split: list.splits)
  qed
  ultimately show ?thesis using s by blast
qed

theorem summary_of_updates_witness:
  "\<exists>s. as_summary_status (\<lambda>ls sep. concat ls) (foldl sg_update new_status_group
       [ok_status, mk_status CANCELLED ''b'', mk_status INTERNAL ''a'']) = Some s
     \<and> status_code s = INTERNAL"
proof -
  have "\<not> is_derived (mk_status CANCELLED ''b'')" "\<not> is_derived (mk_status INTERNAL ''a'')"
    by (simp_all add: is_derived_def kDerivedMarker_def status_simps)
  then show ?thesis using summary_of_updates [OF refl, of "\<lambda>ls sep. concat ls" "[ok_status, mk_status CANCELLED ''b'', mk_status INTERNAL ''a'']"]
    by (auto simp: status_simps)
qed

text \<open>
  Marking an error as derived keeps its code, is recognised, happens once however often
  the error is passed on, and takes the error out of the roots of a group.
\<close>

theorem derived_marking:
  "status_code (make_derived s) = status_code s
    \<and> is_derived (make_derived s) \<and> make_derived (make_derived s) = make_derived s
    \<and> get_non_derived (xs @ make_derived s # ys) = get_non_derived xs @ get_non_derived ys"
  by (simp add: make_derived_code is_derived_make_derived make_derived_idem get_non_derived_eq)

lemma ls_send_step:
  assumes "0 < ls_num_messages s" "ls_num_messages s < 2 ^ 31"
    "int (length (ls_messages s)) \<le> ls_num_messages s"
  shows "ls_messages (ls_send True e s) = drop (Suc (length (ls_messages s)) - nat (ls_num_messages s)) (ls_messages s @ [e])"
proof -
  let ?n = "nat (ls_num_messages s)" and ?m = "Suc (length (ls_messages s))"
  have n: "(word_of_int (ls_num_messages s) :: 64 word) = of_nat ?n" using assms(1) by simp
  have "?n < 2 ^ 64" "?m < 2 ^ 64" using assms by auto
  then have "unat (of_nat ?n :: 64 word) = ?n" "unat (of_nat ?m :: 64 word) = ?m"
    by (simp_all only: unat_of_nat len_of_numeral_defs) simp_all
  then have c: "(of_nat ?n :: 64 word) < of_nat ?m \<longleftrightarrow> ?n < ?m"
    by (simp only: word_less_nat_alt)
  have le: "length (ls_messages s) \<le> ?n" using assms(3) by linarith
  show ?thesis
  proof (cases "?n < ?m")
    case True
    then have "?m - ?n = 1" using le by linarith
    then have "drop (?m - ?n) (ls_messages s @ [e]) = tl (ls_messages s @ [e])"
      by (simp only: drop_Suc One_nat_def drop_0)
    moreover have "ls_messages (ls_send True e s) = tl (ls_messages s @ [e])"
      unfolding ls_send_def Let_def n length_append_singleton c using True by simp
    ultimately show ?thesis by simp
  next
    case False
    then have "?m - ?n = 0" by simp
    moreover have "ls_messages (ls_send True e s) = ls_messages s @ [e]"
      unfolding ls_send_def Let_def n length_append_singleton c using False by simp
    ultimately show ?thesis by (simp only: drop_0)
  qed
qed

text \<open>
  The log sink of an enabled group keeps exactly the last \<open>num_messages_\<close> warnings and
  errors, in order, and drops everything below a warning.
\<close>

theorem log_sink_keeps_last:
  assumes "ls_messages s = []" "0 < ls_num_messages s" "ls_num_messages s < 2 ^ 31"
  shows "ls_messages (foldl (\<lambda>s e. ls_send (fst e) (snd e) s) s es) =
     (let ws = map snd (filter fst es) in drop (length ws - nat (ls_num_messages s)) ws)"
proof -
  let ?n = "ls_num_messages s"
  have "ls_num_messages (foldl (\<lambda>s e. ls_send (fst e) (snd e) s) s es) = ?n
    \<and> ls_messages (foldl (\<lambda>s e. ls_send (fst e) (snd e) s) s es)
       = (let ws = map snd (filter fst es) in drop (length ws - nat ?n) ws)" for es
  proof (induction es rule: rev_induct)
    case Nil
    then show ?case using assms(1) by simp
  next
    case (snoc e es)
    define t where "t = foldl (\<lambda>s e. ls_send (fst e) (snd e) s) s es"
    define ws where "ws = map snd (filter fst es)"
    have IH: "ls_num_messages t = ?n" "ls_messages t = drop (length ws - nat ?n) ws"
      using snoc by (simp_all add: t_def ws_def Let_def)
    have len: "length (ls_messages t) = min (length ws) (nat ?n)" using IH(2) by simp
    have num: "ls_num_messages (ls_send b m t) = ?n" for b m using IH(1) by (simp add: ls_send_def Let_def)
    show ?case
    proof (cases "fst e")
      case True
      have "ls_messages (ls_send True (snd e) t)
          = drop (Suc (length (ls_messages t)) - nat ?n) (ls_messages t @ [snd e])"
        using ls_send_step [of t "snd e"] assms IH(1) len by simp
      also have "\<dots> = drop (Suc (length ws) - nat ?n) (ws @ [snd e])"
      proof -
        define k where "k = length ws - nat ?n"
        have "0 < nat ?n" using assms(2) by simp
        then have "Suc (length ws) - nat ?n = Suc (length (drop k ws)) - nat ?n + k"
          by (simp add: k_def)
        moreover have "drop k ws @ [snd e] = drop k (ws @ [snd e])" by (simp add: k_def)
        ultimately show ?thesis unfolding IH(2) k_def [symmetric] by (simp only: drop_drop)
      qed
      finally show ?thesis using True num by (simp add: t_def ws_def Let_def)
    next
      case False
      then show ?thesis using snoc num by (simp add: t_def [symmetric] ls_send_def Let_def)
    qed
  qed
  then show ?thesis by blast
qed

theorem log_sink_keeps_last_witness:
  "ls_messages (foldl (\<lambda>s e. ls_send (fst e) (snd e) s) (new_log_sink\<lparr>ls_num_messages := 2\<rparr>)
     [(True, ''a''), (False, ''b''), (True, ''c''), (True, ''d'')]) = [''c'', ''d'']"
  using log_sink_keeps_last [of "new_log_sink\<lparr>ls_num_messages := 2\<rparr>"
      "[(True, ''a''), (False, ''b''), (True, ''c''), (True, ''d'')]"]
  by (simp add: new_log_sink_def Let_def)

end
