(* ===== verification/Pending_Counts.thy ===== *)
theory Pending_Counts
  imports Prelude
begin

unbundle bit_operations_syntax

text \<open>
  core/common_runtime/pending_counts.h: the pending and dead input counts of the nodes of
  one frame iteration. The counts of a node live in a byte array at a precomputed offset
  (its handle), either packed in one byte (3 bits pending, 3 bits dead, 1 bit started) or,
  for nodes with larger counts, in an eight-byte record (32, 31 and 1 bits).

  The bit-fields are words of their width, so every assignment truncates as in C++. The
  array is modelled by the records that start at each offset, one function for each of the
  two representations; \<open>handles_disjoint\<close> shows that the handles a layout hands out never
  share a byte, which is what makes this separation sound.
\<close>

section \<open>The data structure\<close>

datatype node_state = PENDING_NOTREADY | PENDING_READY | STARTED | COMPLETED

record (overloaded) ('p, 'd) counts_rep =
  cr_pending :: "'p word"
  cr_dead_count :: "'d word"
  cr_has_started :: bool

type_synonym packed_counts = "(3, 3) counts_rep"
type_synonym large_counts = "(32, 31) counts_rep"

record handle =
  byte_offset :: int
  is_large :: bool

record layout =
  next_offset :: int

record counts =
  num_bytes :: int
  packed_at :: "int \<Rightarrow> packed_counts"
  large_at :: "int \<Rightarrow> large_counts"

definition kMaxCountForPackedCounts :: nat where
  "kMaxCountForPackedCounts = 7"

definition sizeof_PackedCounts :: int where "sizeof_PackedCounts = 1"
definition sizeof_LargeCounts :: int where "sizeof_LargeCounts = 8"

definition new_layout :: layout where
  "new_layout = \<lparr>next_offset = 0\<rparr>"

text \<open>
  \<open>Layout::CreateHandle\<close>. \<open>byte_offset_\<close> is a signed bit-field of 31 bits and
  \<open>next_offset_\<close> an \<open>int\<close>, hence the two truncations.
\<close>

definition create_handle :: "layout \<Rightarrow> nat \<Rightarrow> nat \<Rightarrow> handle \<times> layout" where
  "create_handle l max_pending_count max_dead_count =
     (if max_pending_count > kMaxCountForPackedCounts
         \<or> max_dead_count > kMaxCountForPackedCounts
      then let B = sizeof_LargeCounts;
               offset = ((next_offset l + B - 1) div B) * B;
               result = \<lparr>byte_offset = signed_take_bit 30 offset, is_large = True\<rparr>
           in (result, l\<lparr>next_offset := signed_take_bit 31 (byte_offset result + B)\<rparr>)
      else let result = \<lparr>byte_offset = signed_take_bit 30 (next_offset l), is_large = False\<rparr>
           in (result, l\<lparr>next_offset := signed_take_bit 31 (next_offset l + sizeof_PackedCounts)\<rparr>))"

text \<open>
  The constructor leaves the bytes as the allocator returns them (\<open>junk\<close>); the copy
  constructor copies them all.
\<close>

definition new_counts :: "counts \<Rightarrow> layout \<Rightarrow> counts" where
  "new_counts junk l = junk\<lparr>num_bytes := next_offset l\<rparr>"

definition copy_counts :: "counts \<Rightarrow> counts" where
  "copy_counts other = other"

definition node_state_for_struct :: "('p::len, 'd::len) counts_rep \<Rightarrow> node_state" where
  "node_state_for_struct c =
     (if cr_has_started c then (if cr_pending c = 0 then STARTED else COMPLETED)
      else (if cr_pending c = 0 then PENDING_READY else PENDING_NOTREADY))"

definition put_large :: "counts \<Rightarrow> handle \<Rightarrow> large_counts \<Rightarrow> counts" where
  "put_large s h c = s\<lparr>large_at := (large_at s)(byte_offset h := c)\<rparr>"

definition put_packed :: "counts \<Rightarrow> handle \<Rightarrow> packed_counts \<Rightarrow> counts" where
  "put_packed s h c = s\<lparr>packed_at := (packed_at s)(byte_offset h := c)\<rparr>"

abbreviation Large :: "counts \<Rightarrow> handle \<Rightarrow> large_counts" where
  "Large s h \<equiv> large_at s (byte_offset h)"

abbreviation Packed :: "counts \<Rightarrow> handle \<Rightarrow> packed_counts" where
  "Packed s h \<equiv> packed_at s (byte_offset h)"

section \<open>Operations\<close>

definition set_initial_count :: "counts \<Rightarrow> handle \<Rightarrow> nat \<Rightarrow> counts" where
  "set_initial_count s h pending_count =
     (if is_large h
      then put_large s h \<lparr>cr_pending = of_nat pending_count, cr_dead_count = 0, cr_has_started = False\<rparr>
      else put_packed s h \<lparr>cr_pending = of_nat pending_count, cr_dead_count = 0, cr_has_started = False\<rparr>)"

definition node_state :: "counts \<Rightarrow> handle \<Rightarrow> node_state" where
  "node_state s h = (if is_large h then node_state_for_struct (Large s h)
                     else node_state_for_struct (Packed s h))"

definition mark_started :: "counts \<Rightarrow> handle \<Rightarrow> counts" where
  "mark_started s h =
     (if is_large h then put_large s h ((Large s h)\<lparr>cr_has_started := True\<rparr>)
      else put_packed s h ((Packed s h)\<lparr>cr_has_started := True\<rparr>))"

definition mark_completed :: "counts \<Rightarrow> handle \<Rightarrow> counts" where
  "mark_completed s h =
     (if is_large h then put_large s h ((Large s h)\<lparr>cr_pending := 1\<rparr>)
      else put_packed s h ((Packed s h)\<lparr>cr_pending := 1\<rparr>))"

text \<open>Counts are read as \<open>int\<close>: a 32-bit field is converted, a 3-bit field promoted.\<close>

definition pending :: "counts \<Rightarrow> handle \<Rightarrow> int" where
  "pending s h =
     (if is_large h
      then (if node_state_for_struct (Large s h) = PENDING_NOTREADY
            then sint (cr_pending (Large s h)) else 0)
      else (if node_state_for_struct (Packed s h) = PENDING_NOTREADY
            then uint (cr_pending (Packed s h)) else 0))"

definition decrement_pending :: "counts \<Rightarrow> handle \<Rightarrow> int \<Rightarrow> counts \<times> int" where
  "decrement_pending s h v =
     (if is_large h
      then let p = cr_pending (Large s h) - word_of_int v
           in (put_large s h ((Large s h)\<lparr>cr_pending := p\<rparr>), sint p)
      else let p = cr_pending (Packed s h) - word_of_int v
           in (put_packed s h ((Packed s h)\<lparr>cr_pending := p\<rparr>), uint p))"

definition mark_live :: "counts \<Rightarrow> handle \<Rightarrow> counts" where
  "mark_live s h =
     (if is_large h
      then (if node_state_for_struct (Large s h) = PENDING_NOTREADY
            then put_large s h ((Large s h)\<lparr>cr_pending := cr_pending (Large s h) AND NOT 1\<rparr>)
            else s)
      else (if node_state_for_struct (Packed s h) = PENDING_NOTREADY
            then put_packed s h ((Packed s h)\<lparr>cr_pending := cr_pending (Packed s h) AND 6\<rparr>)
            else s))"

definition dead_count :: "counts \<Rightarrow> handle \<Rightarrow> int" where
  "dead_count s h = (if is_large h then uint (cr_dead_count (Large s h))
                     else uint (cr_dead_count (Packed s h)))"

definition increment_dead_count :: "counts \<Rightarrow> handle \<Rightarrow> counts" where
  "increment_dead_count s h =
     (if is_large h
      then (if node_state_for_struct (Large s h) = PENDING_NOTREADY
            then put_large s h ((Large s h)\<lparr>cr_dead_count := cr_dead_count (Large s h) + 1\<rparr>)
            else s)
      else (if node_state_for_struct (Packed s h) = PENDING_NOTREADY
            then put_packed s h ((Packed s h)\<lparr>cr_dead_count := cr_dead_count (Packed s h) + 1\<rparr>)
            else s))"

definition adjust_for_activation_shared ::
  "('p::len, 'd::len) counts_rep \<Rightarrow> bool \<Rightarrow> ('p, 'd) counts_rep" where
  "adjust_for_activation_shared c increment_dead =
     (let c1 = (if increment_dead \<and> node_state_for_struct c = PENDING_NOTREADY
                then c\<lparr>cr_dead_count := cr_dead_count c + 1\<rparr> else c)
      in c1\<lparr>cr_pending := cr_pending c1 - 1\<rparr>)"

text \<open>The result is the new state with \<open>*pending_result\<close> and \<open>*dead_result\<close>.\<close>

definition adjust_for_activation :: "counts \<Rightarrow> handle \<Rightarrow> bool \<Rightarrow> counts \<times> int \<times> int" where
  "adjust_for_activation s h increment_dead =
     (if is_large h
      then let c = adjust_for_activation_shared (Large s h) increment_dead
           in (put_large s h c, sint (cr_pending c), uint (cr_dead_count c))
      else let c = adjust_for_activation_shared (Packed s h) increment_dead
           in (put_packed s h c, uint (cr_pending c), uint (cr_dead_count c)))"

lemmas counts_ops = set_initial_count_def node_state_def mark_started_def mark_completed_def
  pending_def decrement_pending_def mark_live_def dead_count_def increment_dead_count_def
  adjust_for_activation_def

section \<open>The counts of a node as numbers\<close>

text \<open>
  \<open>view s h\<close> reads the three fields of a node as natural numbers. Within the capacity of
  the handle (\<open>cap_pending\<close>, \<open>cap_dead\<close>) every operation acts on this view as plain
  arithmetic, and on the view of every other handle not at all.
\<close>

definition view :: "counts \<Rightarrow> handle \<Rightarrow> nat \<times> nat \<times> bool" where
  "view s h = (if is_large h
     then (unat (cr_pending (Large s h)), unat (cr_dead_count (Large s h)), cr_has_started (Large s h))
     else (unat (cr_pending (Packed s h)), unat (cr_dead_count (Packed s h)), cr_has_started (Packed s h)))"

definition capacity :: "handle \<Rightarrow> nat" where
  "capacity h = (if is_large h then 2 ^ 31 - 1 else kMaxCountForPackedCounts)"

lemmas view_simps = view_def counts_ops put_large_def put_packed_def node_state_for_struct_def
  adjust_for_activation_shared_def Let_def

lemma unat_small_word:
  "n < 2 ^ LENGTH('a) \<Longrightarrow> unat (of_nat n :: 'a::len word) = n"
  by (simp add: unat_of_nat take_bit_nat_eq_self)

lemma unat_minus_small:
  fixes w :: "'a::len word"
  assumes "v \<le> unat w"
  shows "unat (w - of_nat v) = unat w - v"
proof -
  have "v < 2 ^ LENGTH('a)" using assms by (meson le_less_trans of_nat_unat unsigned_less)
  then have "unat (of_nat v :: 'a word) = v" by (rule unat_small_word)
  with assms show ?thesis by (simp add: unat_sub word_le_nat_alt)
qed

lemma sint_small:
  assumes "unat (w :: 32 word) < 2 ^ 31"
  shows "sint w = int (unat w)"
proof -
  have "int (unat w) < 2 ^ 31" using assms by (simp only: of_nat_less_numeral_power_cancel_iff)
  moreover have "- (2 ^ 31) \<le> int (unat w)" by (rule order_trans [of _ 0]) simp_all
  ultimately have "signed_take_bit 31 (int (unat w)) = int (unat w)"
    by (simp only: signed_take_bit_int_eq_self_iff)
  then show ?thesis unfolding sint_uint by simp
qed

lemma unat_clear_bit0: "unat ((w :: 'a::len word) AND NOT 1) = unat w - unat w mod 2"
proof -
  have "w AND NOT 1 = unset_bit 0 w" by (simp add: unset_bit_eq_and_not)
  moreover have "unat (unset_bit 0 w) = unset_bit 0 (unat w)"
    by (rule bit_eqI) (simp add: bit_unsigned_iff bit_unset_bit_iff)
  ultimately show ?thesis by (simp add: unset_bit_0 minus_mod_eq_mult_div)
qed

lemma sint_le_capacity:
  "unat w \<le> capacity h \<Longrightarrow> is_large h \<Longrightarrow> sint (w :: 32 word) = int (unat w)"
  by (intro sint_small) (simp add: capacity_def)

lemma handle_eqI: "byte_offset h = byte_offset h' \<Longrightarrow> is_large h = is_large h' \<Longrightarrow> h = (h' :: handle)"
  by simp

lemma view_set_initial_count:
  "n \<le> capacity h \<Longrightarrow> view (set_initial_count s h n) h = (n, 0, False)"
  by (auto simp: view_simps capacity_def kMaxCountForPackedCounts_def unat_small_word)

lemma view_other:
  assumes "h' \<noteq> h"
  shows "view (set_initial_count s h n) h' = view s h'"
    "view (mark_started s h) h' = view s h'"
    "view (mark_completed s h) h' = view s h'"
    "view (fst (decrement_pending s h v)) h' = view s h'"
    "view (mark_live s h) h' = view s h'"
    "view (increment_dead_count s h) h' = view s h'"
    "view (fst (adjust_for_activation s h b)) h' = view s h'"
  using assms by (auto simp: view_simps dest: handle_eqI)

lemma view_eq:
  "view s h = (p, d, b) \<longleftrightarrow> (if is_large h
     then unat (cr_pending (Large s h)) = p \<and> unat (cr_dead_count (Large s h)) = d
        \<and> cr_has_started (Large s h) = b
     else unat (cr_pending (Packed s h)) = p \<and> unat (cr_dead_count (Packed s h)) = d
        \<and> cr_has_started (Packed s h) = b)"
  by (auto simp: view_def)

lemma unat_zero_iff: "(w = 0) = (unat w = 0)" for w :: "'a::len word"
  by (simp add: unat_eq_0)

lemma view_pending:
  assumes "view s h = (p, d, b)" "p \<le> capacity h"
  shows "pending s h = (if b then 0 else int p)"
  using assms sint_le_capacity [of "cr_pending (Large s h)" h]
  by (cases "is_large h") (auto simp: view_eq pending_def node_state_for_struct_def)

lemma view_dead_count: "view s h = (p, d, b) \<Longrightarrow> dead_count s h = int d"
  by (auto simp: view_eq dead_count_def split: if_splits)

lemma view_node_state:
  "view s h = (p, d, b) \<Longrightarrow> node_state s h =
     (if b then (if p = 0 then STARTED else COMPLETED)
      else (if p = 0 then PENDING_READY else PENDING_NOTREADY))"
  by (auto simp: view_eq node_state_def node_state_for_struct_def unat_zero_iff split: if_splits)

lemma view_mark_started: "view s h = (p, d, b) \<Longrightarrow> view (mark_started s h) h = (p, d, True)"
  by (auto simp: view_eq mark_started_def put_large_def put_packed_def split: if_splits)

lemma view_mark_completed: "view s h = (p, d, b) \<Longrightarrow> view (mark_completed s h) h = (1, d, b)"
  by (auto simp: view_eq mark_completed_def put_large_def put_packed_def split: if_splits)

lemma view_decrement_pending:
  assumes "view s h = (p, d, b)" "v \<le> p"
  shows "view (fst (decrement_pending s h (int v))) h = (p - v, d, b)"
    and "p \<le> capacity h \<Longrightarrow> snd (decrement_pending s h (int v)) = int (p - v)"
proof -
  show "view (fst (decrement_pending s h (int v))) h = (p - v, d, b)"
    using assms by (cases "is_large h") (simp_all add: view_eq decrement_pending_def
        put_large_def put_packed_def Let_def unat_minus_small)
  assume c: "p \<le> capacity h"
  show "snd (decrement_pending s h (int v)) = int (p - v)"
  proof (cases "is_large h")
    case True
    let ?w = "cr_pending (Large s h) - of_nat v"
    have w: "unat ?w = p - v" using assms True by (simp add: view_eq unat_minus_small)
    moreover have "sint ?w = int (unat ?w)"
      using c True w by (intro sint_le_capacity [of _ h]) simp_all
    ultimately show ?thesis using True by (simp add: decrement_pending_def)
  next
    case False
    let ?w = "cr_pending (Packed s h) - of_nat v"
    have w: "unat ?w = p - v" using assms False by (simp add: view_eq unat_minus_small)
    moreover have "uint ?w = int (unat ?w)" by simp
    ultimately show ?thesis using False by (simp only: decrement_pending_def Let_def if_False snd_conv) simp
  qed
qed

lemma six_not_one: "(6 :: 3 word) = NOT 1"
  by code_simp

lemma view_mark_live:
  "view s h = (p, d, b) \<Longrightarrow> view (mark_live s h) h = (if b then p else p - p mod 2, d, b)"
  by (cases "is_large h") (auto simp: view_eq mark_live_def node_state_for_struct_def
      put_large_def put_packed_def six_not_one unat_clear_bit0 [simplified])

lemma unat_plus1: "Suc (unat w) < 2 ^ LENGTH('a) \<Longrightarrow> unat (w + 1) = Suc (unat (w :: 'a::len word))"
  by (simp add: unat_word_ariths)

lemma view_increment_dead_count:
  assumes "view s h = (p, d, b)" "d < capacity h"
  shows "view (increment_dead_count s h) h = (p, if b \<or> p = 0 then d else Suc d, b)"
  using assms
  by (cases "is_large h") (auto simp: view_eq increment_dead_count_def node_state_for_struct_def
      put_large_def put_packed_def unat_zero_iff unat_plus1 capacity_def kMaxCountForPackedCounts_def)

text \<open>
  The streamlined \<open>adjust_for_activation\<close> does what its comment says it is equivalent to,
  on a node that has not started and still has an input to come.
\<close>

lemma adjust_for_activation_split:
  assumes "1 \<le> pending s h"
    and v: "view s h = (p, d, b)" and "p \<le> capacity h" and "d < capacity h"
  shows "adjust_for_activation s h inc =
    (let s1 = (if inc then increment_dead_count s h else s);
         s2 = fst (decrement_pending s1 h 1)
     in (s2, pending s2 h, dead_count s2 h))"
proof -
  from assms(1,3) v have nb: "\<not> b" "1 \<le> p" by (auto simp: view_pending split: if_splits)
  let ?s1 = "if inc then increment_dead_count s h else s"
  let ?s2 = "fst (decrement_pending ?s1 h 1)"
  have v1: "view ?s1 h = (p, if inc then Suc d else d, b)"
    using view_increment_dead_count [OF v assms(4)] nb v by simp
  then have v2: "view ?s2 h = (p - 1, if inc then Suc d else d, b)"
    using view_decrement_pending(1) [OF v1, of 1] nb by simp
  have res: "fst (adjust_for_activation s h inc) = ?s2"
    using v nb by (cases "is_large h") (auto simp: view_eq adjust_for_activation_def
        adjust_for_activation_shared_def decrement_pending_def increment_dead_count_def
        node_state_for_struct_def put_large_def put_packed_def Let_def unat_zero_iff)
  have "pending ?s2 h = int (p - 1)" "dead_count ?s2 h = int (if inc then Suc d else d)"
    using view_pending [OF v2] view_dead_count [OF v2] assms(3) nb by auto
  moreover have "snd (adjust_for_activation s h inc) =
      (int (fst (view ?s2 h)), int (fst (snd (view ?s2 h))))"
  proof (cases "is_large h")
    case True
    let ?c = "adjust_for_activation_shared (Large s h) inc"
    have "view ?s2 h = (unat (cr_pending ?c), unat (cr_dead_count ?c), cr_has_started ?c)"
      using True by (simp flip: res) (simp add: adjust_for_activation_def view_def put_large_def Let_def)
    moreover from this v2 have "sint (cr_pending ?c) = int (unat (cr_pending ?c))"
      using True assms(3) by (intro sint_le_capacity [of _ h]) auto
    ultimately show ?thesis using True by (simp add: adjust_for_activation_def Let_def)
  next
    case False
    then show ?thesis
      by (simp flip: res) (simp add: adjust_for_activation_def view_def put_packed_def Let_def)
  qed
  ultimately show ?thesis using v2 res by (auto simp: Let_def prod_eq_iff)
qed

lemma view_adjust_for_activation:
  assumes "view s h = (p, d, False)" "1 \<le> p" "p \<le> capacity h" "d < capacity h"
  shows "view (fst (adjust_for_activation s h inc)) h = (p - 1, if inc then Suc d else d, False)"
    "snd (adjust_for_activation s h inc) = (int (p - 1), int (if inc then Suc d else d))"
proof -
  have "1 \<le> pending s h" using view_pending [OF assms(1)] assms(2,3) by simp
  note eq = adjust_for_activation_split [OF this assms(1,3,4), of inc]
  let ?s1 = "if inc then increment_dead_count s h else s"
  have v1: "view ?s1 h = (p, if inc then Suc d else d, False)"
    using view_increment_dead_count [OF assms(1,4)] assms(1,2) by simp
  from view_decrement_pending(1) [OF v1, of 1] assms(2)
  have v2: "view (fst (decrement_pending ?s1 h 1)) h = (p - 1, if inc then Suc d else d, False)" by simp
  then show "view (fst (adjust_for_activation s h inc)) h = (p - 1, if inc then Suc d else d, False)"
    by (simp add: eq Let_def)
  show "snd (adjust_for_activation s h inc) = (int (p - 1), int (if inc then Suc d else d))"
    using view_pending [OF v2] view_dead_count [OF v2] assms(3) by (simp add: eq Let_def)
qed

section \<open>Handles do not overlap\<close>

definition handle_bytes :: "handle \<Rightarrow> int set" where
  "handle_bytes h = {byte_offset h ..< byte_offset h
     + (if is_large h then sizeof_LargeCounts else sizeof_PackedCounts)}"

text \<open>The handles of a list of requests, as \<open>ExecutorImpl::Initialize\<close> creates them.\<close>

fun create_handles :: "layout \<Rightarrow> (nat \<times> nat) list \<Rightarrow> handle list \<times> layout" where
  "create_handles l [] = ([], l)"
| "create_handles l ((mp, md) # rs) =
     (let (h, l1) = create_handle l mp md; (hs, l2) = create_handles l1 rs in (h # hs, l2))"

lemma create_handle_bounds:
  assumes "0 \<le> next_offset l" "next_offset l + 16 < 2 ^ 30" "create_handle l mp md = (h, l')"
  shows "next_offset l \<le> byte_offset h" "handle_bytes h \<subseteq> {next_offset l ..< next_offset l'}"
    "next_offset l' \<le> next_offset l + 15"
    "is_large h \<Longrightarrow> byte_offset h mod sizeof_LargeCounts = 0"
    "is_large h \<longleftrightarrow> mp > 7 \<or> md > 7"
proof -
  let ?n = "next_offset l"
  let ?o = "((?n + 8 - 1) div 8) * 8"
  have o: "?n \<le> ?o" "?o \<le> ?n + 7" by presburger+
  have st30: "signed_take_bit 30 x = x" if "0 \<le> x" "x < 2 ^ 30" for x :: int
    using that by (intro iffD2 [OF signed_take_bit_int_eq_self_iff]) auto
  have st31: "signed_take_bit 31 x = x" if "0 \<le> x" "x < 2 ^ 31" for x :: int
    using that by (intro iffD2 [OF signed_take_bit_int_eq_self_iff]) auto
  have n: "signed_take_bit 30 ?n = ?n" "signed_take_bit 31 (?n + 1) = ?n + 1"
    using assms(1,2) by (auto intro!: st30 st31)
  have "(2 :: int) ^ 31 = 2 * 2 ^ 30" by simp
  then have "0 \<le> ?o" "?o < 2 ^ 30" "0 \<le> ?o + 8" "?o + 8 < 2 ^ 31"
    using assms(1,2) o by linarith+
  then have m: "signed_take_bit 30 ?o = ?o" "signed_take_bit 31 (?o + 8) = ?o + 8"
    by (simp_all only: st30 st31)
  note d = create_handle_def kMaxCountForPackedCounts_def sizeof_LargeCounts_def
    sizeof_PackedCounts_def Let_def handle_bytes_def
  have c: "(mp > 7 \<or> md > 7) \<and> h = \<lparr>byte_offset = ?o, is_large = True\<rparr> \<and> next_offset l' = ?o + 8
     \<or> \<not> (mp > 7 \<or> md > 7) \<and> h = \<lparr>byte_offset = ?n, is_large = False\<rparr> \<and> next_offset l' = ?n + 1"
    using assms(3) m n by (auto simp: d split: if_splits)
  then show "next_offset l \<le> byte_offset h" "handle_bytes h \<subseteq> {next_offset l ..< next_offset l'}"
    "next_offset l' \<le> next_offset l + 15"
    "is_large h \<Longrightarrow> byte_offset h mod sizeof_LargeCounts = 0" "is_large h \<longleftrightarrow> mp > 7 \<or> md > 7"
    using o by (auto simp: d)
qed

lemma create_handles_bounds:
  assumes "0 \<le> next_offset l" "next_offset l + 16 * (int (length rs) + 1) < 2 ^ 30"
    "create_handles l rs = (hs, l')"
  shows "length hs = length rs \<and> next_offset l \<le> next_offset l'
    \<and> next_offset l' \<le> next_offset l + 15 * int (length rs)
    \<and> (\<forall>h\<in>set hs. handle_bytes h \<subseteq> {next_offset l ..< next_offset l'}
          \<and> (is_large h \<longrightarrow> byte_offset h mod sizeof_LargeCounts = 0))
    \<and> (\<forall>i j. i < j \<and> j < length hs \<longrightarrow> handle_bytes (hs ! i) \<inter> handle_bytes (hs ! j) = {})"
  using assms
proof (induction rs arbitrary: l hs)
  case Nil
  then show ?case by simp
next
  case (Cons r rs)
  obtain mp md where r: "r = (mp, md)" by (cases r)
  obtain h l1 hs' where h: "create_handle l mp md = (h, l1)" and hs': "create_handles l1 rs = (hs', l')"
    and hs: "hs = h # hs'"
    using Cons.prems(3) by (auto simp: r Let_def split: prod.splits)
  have b: "next_offset l + 16 < 2 ^ 30" using Cons.prems(2) by simp
  note B = create_handle_bounds [OF Cons.prems(1) b h]
  have "handle_bytes h \<noteq> {}" by (auto simp: handle_bytes_def sizeof_LargeCounts_def sizeof_PackedCounts_def)
  with B(2) have lt: "next_offset l < next_offset l1" by (auto simp: subset_iff)
  have IH: "length hs' = length rs \<and> next_offset l1 \<le> next_offset l'
    \<and> next_offset l' \<le> next_offset l1 + 15 * int (length rs)
    \<and> (\<forall>h\<in>set hs'. handle_bytes h \<subseteq> {next_offset l1 ..< next_offset l'}
          \<and> (is_large h \<longrightarrow> byte_offset h mod sizeof_LargeCounts = 0))
    \<and> (\<forall>i j. i < j \<and> j < length hs' \<longrightarrow> handle_bytes (hs' ! i) \<inter> handle_bytes (hs' ! j) = {})"
    using Cons.prems(1,2) lt B(3) by (intro Cons.IH [OF _ _ hs']) auto
  have disj: "handle_bytes h \<inter> handle_bytes h' = {}" if "h' \<in> set hs'" for h'
    using that IH B(2) by fastforce
  have "handle_bytes (hs ! i) \<inter> handle_bytes (hs ! j) = {}" if "i < j" "j < length hs" for i j
    using that IH disj unfolding hs by (cases i; cases j) auto
  moreover have "handle_bytes h \<subseteq> {next_offset l ..< next_offset l'}" using B(2) IH by fastforce
  moreover have "handle_bytes x \<subseteq> {next_offset l ..< next_offset l'}" if "x \<in> set hs'" for x
    using IH that lt by fastforce
  ultimately show ?case using IH B lt by (auto simp: hs)
qed


section \<open>Properties of the counts\<close>

text \<open>
  \<open>adjust_for_activation\<close> is what its comment says it is equivalent to: an optional
  \<open>increment_dead_count\<close>, then \<open>decrement_pending(h, 1)\<close>, then reads of both counts.
\<close>

theorem adjust_is_increment_then_decrement:
  assumes "1 \<le> pending s h" "view s h = (p, d, b)" "p \<le> capacity h" "d < capacity h"
  shows "adjust_for_activation s h inc =
    (let s1 = (if inc then increment_dead_count s h else s);
         s2 = fst (decrement_pending s1 h 1)
     in (s2, pending s2 h, dead_count s2 h))"
  by (rule adjust_for_activation_split [OF assms])

theorem adjust_is_increment_then_decrement_witness:
  "\<exists>s :: counts. view s \<lparr>byte_offset = 3, is_large = False\<rparr> = (2, 0, False)
    \<and> adjust_for_activation s \<lparr>byte_offset = 3, is_large = False\<rparr> True
       = (let s2 = fst (decrement_pending (increment_dead_count s \<lparr>byte_offset = 3, is_large = False\<rparr>)
                          \<lparr>byte_offset = 3, is_large = False\<rparr> 1)
          in (s2, pending s2 \<lparr>byte_offset = 3, is_large = False\<rparr>,
              dead_count s2 \<lparr>byte_offset = 3, is_large = False\<rparr>))"
proof -
  let ?h = "\<lparr>byte_offset = 3, is_large = False\<rparr>"
  let ?s = "set_initial_count (undefined :: counts) ?h 2"
  have c: "capacity ?h = 7" by (simp add: capacity_def kMaxCountForPackedCounts_def)
  have v: "view ?s ?h = (2, 0, False)" using view_set_initial_count [of 2 ?h] c by simp
  have "1 \<le> pending ?s ?h" using view_pending [OF v] c by simp
  from adjust_is_increment_then_decrement [OF this v, of True] v c
  show ?thesis by (intro exI [of _ ?s]) simp
qed

lemma create_handles_large:
  "create_handles l rs = (hs, l') \<Longrightarrow> length hs = length rs
     \<and> (\<forall>i < length hs. is_large (hs ! i) \<longleftrightarrow> fst (rs ! i) > 7 \<or> snd (rs ! i) > 7)"
proof (induction rs arbitrary: l hs)
  case (Cons r rs)
  obtain mp md where r: "r = (mp, md)" by (cases r)
  obtain h l1 hs' where h: "create_handle l mp md = (h, l1)" and hs': "create_handles l1 rs = (hs', l')"
    and hs: "hs = h # hs'"
    using Cons.prems by (auto simp: r Let_def split: prod.splits)
  have "is_large h \<longleftrightarrow> mp > 7 \<or> md > 7"
    using h by (auto simp: create_handle_def kMaxCountForPackedCounts_def Let_def split: if_splits)
  then show ?case using Cons.IH [OF hs'] by (auto simp: hs r nth_Cons split: nat.splits)
qed simp

text \<open>
  The handles a layout gives out never share a byte, lie within the bytes it has given
  out, are aligned when they hold the large form, and hold the large form exactly when one
  of the requested maxima does not fit three bits.
\<close>

theorem layout_handles_disjoint:
  assumes "16 * (int (length rs) + 1) < 2 ^ 30" "create_handles new_layout rs = (hs, l)"
  shows "length hs = length rs
    \<and> (\<forall>i < length hs. handle_bytes (hs ! i) \<subseteq> {0 ..< next_offset l}
         \<and> (is_large (hs ! i) \<longrightarrow> byte_offset (hs ! i) mod sizeof_LargeCounts = 0)
         \<and> (is_large (hs ! i) \<longleftrightarrow> fst (rs ! i) > 7 \<or> snd (rs ! i) > 7))
    \<and> (\<forall>i j. i < j \<and> j < length hs \<longrightarrow> handle_bytes (hs ! i) \<inter> handle_bytes (hs ! j) = {})"
proof -
  have z: "next_offset new_layout = 0" by (simp add: new_layout_def)
  have "\<forall>h\<in>set hs. handle_bytes h \<subseteq> {0 ..< next_offset l}
      \<and> (is_large h \<longrightarrow> byte_offset h mod sizeof_LargeCounts = 0)"
    "length hs = length rs"
    "\<forall>i j. i < j \<and> j < length hs \<longrightarrow> handle_bytes (hs ! i) \<inter> handle_bytes (hs ! j) = {}"
    using create_handles_bounds [of new_layout rs hs l] assms z by simp_all
  then show ?thesis using create_handles_large [OF assms(2)] by simp
qed

theorem layout_handles_disjoint_witness:
  "\<exists>hs l. create_handles new_layout [(3, 2), (9, 2), (1, 1)] = (hs, l) \<and> length hs = 3
    \<and> is_large (hs ! 1) \<and> handle_bytes (hs ! 0) \<inter> handle_bytes (hs ! 1) = {}"
proof -
  obtain hs l where h: "create_handles new_layout [(3, 2), (9, 2), (1, 1)] = (hs, l)" by fastforce
  have "16 * (int (length [(3::nat, 2::nat), (9, 2), (1, 1)]) + 1) < 2 ^ 30" by simp
  from layout_handles_disjoint [OF this h] h show ?thesis by (auto simp: nth_Cons)
qed

end
