(* ===== verification/Graph_Model.thy ===== *)
theory Graph_Model
  imports Status_Model
begin

unbundle bit_operations_syntax

text \<open>
  The static graph an executor runs: node classes and edges of core/graph/graph.h and
  graph.cc, and the allocator attributes of core/framework/allocator.h. A node is its index
  in the graph's node vector; a removed node is \<open>None\<close>. An edge set is the list of its
  edges in iteration order.
\<close>

section \<open>Node classes\<close>

datatype node_class =
    NC_UNINITIALIZED | NC_SWITCH | NC_MERGE | NC_ENTER | NC_EXIT | NC_NEXT_ITERATION
  | NC_LOOP_COND | NC_CONTROL_TRIGGER | NC_SEND | NC_HOST_SEND | NC_RECV | NC_HOST_RECV
  | NC_CONSTANT | NC_VARIABLE | NC_IDENTITY | NC_GET_SESSION_HANDLE | NC_GET_SESSION_TENSOR
  | NC_DELETE_SESSION_TENSOR | NC_METADATA | NC_SCOPED_ALLOCATOR | NC_COLLECTIVE
  | NC_FAKE_PARAM | NC_PARTITIONED_CALL | NC_FUNCTION_OP | NC_SYMBOLIC_GRADIENT | NC_IF
  | NC_WHILE | NC_ARG | NC_RETVAL | NC_OTHER

text \<open>\<open>REF_CLASS(key, value)\<close> adds the key and the key prefixed with "Ref".\<close>

definition ref_class :: "string \<Rightarrow> node_class \<Rightarrow> (string \<times> node_class) list" where
  "ref_class key v = [(key, v), (''Ref'' @ key, v)]"

definition kNodeClassTable :: "(string \<times> node_class) list" where
  "kNodeClassTable =
     ref_class ''Switch'' NC_SWITCH @ ref_class ''_SwitchN'' NC_SWITCH
     @ ref_class ''Merge'' NC_MERGE @ ref_class ''Enter'' NC_ENTER
     @ ref_class ''Exit'' NC_EXIT @ ref_class ''NextIteration'' NC_NEXT_ITERATION
     @ [(''LoopCond'', NC_LOOP_COND), (''ControlTrigger'', NC_CONTROL_TRIGGER),
        (''_Send'', NC_SEND), (''_HostSend'', NC_HOST_SEND),
        (''_Recv'', NC_RECV), (''_HostRecv'', NC_HOST_RECV),
        (''Const'', NC_CONSTANT), (''HostConst'', NC_CONSTANT),
        (''Variable'', NC_VARIABLE), (''VariableV2'', NC_VARIABLE)]
     @ ref_class ''Identity'' NC_IDENTITY
     @ [(''GetSessionHandle'', NC_GET_SESSION_HANDLE), (''GetSessionHandleV2'', NC_GET_SESSION_HANDLE),
        (''GetSessionTensor'', NC_GET_SESSION_TENSOR), (''DeleteSessionTensor'', NC_DELETE_SESSION_TENSOR),
        (''Size'', NC_METADATA), (''Shape'', NC_METADATA), (''Rank'', NC_METADATA),
        (''_ScopedAllocator'', NC_SCOPED_ALLOCATOR), (''CollectiveReduce'', NC_COLLECTIVE),
        (''CollectiveBcastSend'', NC_COLLECTIVE), (''CollectiveBcastRecv'', NC_COLLECTIVE),
        (''CollectiveGather'', NC_COLLECTIVE), (''FakeParam'', NC_FAKE_PARAM),
        (''PartitionedCall'', NC_PARTITIONED_CALL), (''StatefulPartitionedCall'', NC_PARTITIONED_CALL),
        (''SymbolicGradient'', NC_SYMBOLIC_GRADIENT), (''If'', NC_IF), (''StatelessIf'', NC_IF),
        (''While'', NC_WHILE), (''StatelessWhile'', NC_WHILE),
        (''_Arg'', NC_ARG), (''_DeviceArg'', NC_ARG),
        (''_Retval'', NC_RETVAL), (''_DeviceRetval'', NC_RETVAL), (''_XlaMerge'', NC_MERGE)]"

definition get_node_class_for_op :: "string \<Rightarrow> node_class" where
  "get_node_class_for_op ts = (case map_of kNodeClassTable ts of Some c \<Rightarrow> c | None \<Rightarrow> NC_OTHER)"

section \<open>Nodes, edges and graphs\<close>

definition kControlSlot :: int where "kControlSlot = -1"
definition kSourceId :: nat where "kSourceId = 0"
definition kSinkId :: nat where "kSinkId = 1"

record edge =
  e_src :: nat
  e_dst :: nat
  e_src_output :: int
  e_dst_input :: int

definition is_control_edge :: "edge \<Rightarrow> bool" where
  "is_control_edge e = (e_src_output e = kControlSlot)"

datatype attr_value = AttrString string | AttrBool bool | AttrInt int | AttrIntList "int list"

record gnode =
  n_id :: nat
  n_name :: string
  n_op :: string
  n_class :: node_class
  n_in_edges :: "edge list"
  n_out_edges :: "edge list"
  n_input_types :: "nat list"
  n_output_types :: "nat list"
  n_attrs :: "(string \<times> attr_value) list"
  n_allows_uninitialized_input :: bool

type_synonym graph = "gnode option list"

definition num_node_ids :: "graph \<Rightarrow> nat" where
  "num_node_ids g = length g"

definition graph_node :: "graph \<Rightarrow> nat \<Rightarrow> gnode option" where
  "graph_node g i = (if i < length g then g ! i else None)"

text \<open>\<open>nodes()\<close> iterates over the node vector and skips the null entries.\<close>

definition graph_nodes :: "graph \<Rightarrow> gnode list" where
  "graph_nodes g = List.map_filter id g"

definition n_num_inputs :: "gnode \<Rightarrow> nat" where "n_num_inputs n = length (n_input_types n)"
definition n_num_outputs :: "gnode \<Rightarrow> nat" where "n_num_outputs n = length (n_output_types n)"

definition IsSource :: "gnode \<Rightarrow> bool" where "IsSource n = (n_id n = kSourceId)"
definition IsSink :: "gnode \<Rightarrow> bool" where "IsSink n = (n_id n = kSinkId)"
definition IsOp :: "gnode \<Rightarrow> bool" where "IsOp n = (n_id n > 1)"
definition IsSwitch :: "gnode \<Rightarrow> bool" where "IsSwitch n = (n_class n = NC_SWITCH)"
definition IsMerge :: "gnode \<Rightarrow> bool" where "IsMerge n = (n_class n = NC_MERGE)"
definition IsEnter :: "gnode \<Rightarrow> bool" where "IsEnter n = (n_class n = NC_ENTER)"
definition IsExit :: "gnode \<Rightarrow> bool" where "IsExit n = (n_class n = NC_EXIT)"
definition IsNextIteration :: "gnode \<Rightarrow> bool" where "IsNextIteration n = (n_class n = NC_NEXT_ITERATION)"
definition IsLoopCond :: "gnode \<Rightarrow> bool" where "IsLoopCond n = (n_class n = NC_LOOP_COND)"
definition IsControlTrigger :: "gnode \<Rightarrow> bool" where "IsControlTrigger n = (n_class n = NC_CONTROL_TRIGGER)"
definition IsSend :: "gnode \<Rightarrow> bool" where "IsSend n = (n_class n = NC_SEND \<or> n_class n = NC_HOST_SEND)"
definition IsRecv :: "gnode \<Rightarrow> bool" where "IsRecv n = (n_class n = NC_RECV \<or> n_class n = NC_HOST_RECV)"
definition IsScopedAllocator :: "gnode \<Rightarrow> bool" where "IsScopedAllocator n = (n_class n = NC_SCOPED_ALLOCATOR)"
definition IsControlFlow :: "gnode \<Rightarrow> bool" where
  "IsControlFlow n = (n_class n \<noteq> NC_OTHER
     \<and> (IsSwitch n \<or> IsMerge n \<or> IsEnter n \<or> IsExit n \<or> IsNextIteration n))"
definition IsTransferNode :: "gnode \<Rightarrow> bool" where "IsTransferNode n = (IsSend n \<or> IsRecv n)"
definition IsInitializationOp :: "gnode \<Rightarrow> bool" where
  "IsInitializationOp n = n_allows_uninitialized_input n"

lemmas node_class_simps [model_simps] = IsSwitch_def IsMerge_def IsEnter_def IsExit_def
  IsNextIteration_def IsLoopCond_def IsControlTrigger_def IsSend_def IsRecv_def
  IsScopedAllocator_def IsTransferNode_def IsInitializationOp_def IsControlFlow_def

section \<open>Attributes\<close>

text \<open>
  \<open>AttachDef\<close> adds the node to an error message: \<open>{{node name}}\<close>, or the bare name when
  the message has such a tag already. Nodes here have no original-node debug information.
\<close>

definition format_node_name_for_error :: "string \<Rightarrow> string" where
  "format_node_name_for_error name = ''{{node '' @ name @ ''}}''"

definition attach_def :: "status \<Rightarrow> string \<Rightarrow> bool \<Rightarrow> status" where
  "attach_def s name allow_multiple_formatted_node =
     (let node_error = (if \<not> allow_multiple_formatted_node \<and> str_contains ''{{node '' (error_message s)
                        then name else format_node_name_for_error name)
      in mk_status (status_code s)
           (error_message s @ [CHR 0x0A, CHR 0x09] @ '' [['' @ node_error @ '']]''))"

fun starts_with :: "string \<Rightarrow> string \<Rightarrow> bool" where
  "starts_with s [] = True"
| "starts_with [] (p # ps) = False"
| "starts_with (c # cs) (p # ps) = (c = p \<and> starts_with cs ps)"

definition find_attr :: "gnode \<Rightarrow> string \<Rightarrow> status + attr_value" where
  "find_attr n attr_name =
     (case map_of (n_attrs n) attr_name of
        Some v \<Rightarrow> Inr v
      | None \<Rightarrow>
          (let s = mk_status NOT_FOUND (''No attr named '' @ [CHR 0x27] @ attr_name @ [CHR 0x27] @ '' in NodeDef:'')
           in Inl (if \<not> starts_with attr_name ''_'' then attach_def s (n_name n) False else s)))"

definition attr_type_name :: "attr_value \<Rightarrow> string" where
  "attr_type_name v = (case v of AttrString _ \<Rightarrow> ''string'' | AttrBool _ \<Rightarrow> ''bool''
     | AttrInt _ \<Rightarrow> ''int'' | AttrIntList _ \<Rightarrow> ''list(int)'')"

text \<open>\<open>AttrValueHasType\<close>, for the kinds of values above. An empty list has any list type.\<close>

definition attr_value_has_type :: "attr_value \<Rightarrow> string \<Rightarrow> status" where
  "attr_value_has_type v type =
     (if v = AttrIntList [] then
        (if starts_with type ''list('' then ok_status
         else mk_status INVALID_ARGUMENT (''AttrValue missing value with expected type ''
                @ [CHR 0x27] @ type @ [CHR 0x27]))
      else if attr_type_name v = type then ok_status
      else mk_status INVALID_ARGUMENT (''AttrValue had value with type '' @ [CHR 0x27]
             @ attr_type_name v @ [CHR 0x27] @ '' when '' @ [CHR 0x27] @ type @ [CHR 0x27] @ '' expected''))"

text \<open>\<open>GetNodeAttr\<close>: find the attribute, check its type, return its value.\<close>

definition get_node_attr :: "string \<Rightarrow> gnode \<Rightarrow> string \<Rightarrow> status + attr_value" where
  "get_node_attr type n attr_name =
     (case find_attr n attr_name of
        Inl s \<Rightarrow> Inl s
      | Inr v \<Rightarrow> (let s = attr_value_has_type v type in if status_ok s then Inr v else Inl s))"

definition get_attr_string :: "gnode \<Rightarrow> string \<Rightarrow> status + string" where
  "get_attr_string n name = map_sum id (\<lambda>v. case v of AttrString x \<Rightarrow> x | _ \<Rightarrow> []) (get_node_attr ''string'' n name)"

definition get_attr_bool :: "gnode \<Rightarrow> string \<Rightarrow> status + bool" where
  "get_attr_bool n name = map_sum id (\<lambda>v. case v of AttrBool x \<Rightarrow> x | _ \<Rightarrow> False) (get_node_attr ''bool'' n name)"

definition get_attr_int :: "gnode \<Rightarrow> string \<Rightarrow> status + int" where
  "get_attr_int n name = map_sum id (\<lambda>v. case v of AttrInt x \<Rightarrow> x | _ \<Rightarrow> 0) (get_node_attr ''int'' n name)"

definition get_attr_int_list :: "gnode \<Rightarrow> string \<Rightarrow> status + int list" where
  "get_attr_int_list n name =
     map_sum id (\<lambda>v. case v of AttrIntList x \<Rightarrow> x | _ \<Rightarrow> []) (get_node_attr ''list(int)'' n name)"

section \<open>Allocator attributes\<close>

record alloc_attrs =
  aa_value :: "32 word"
  aa_scope_id :: int

definition new_alloc_attrs :: alloc_attrs where
  "new_alloc_attrs = \<lparr>aa_value = 0, aa_scope_id = 0\<rparr>"

definition set_on_host :: "bool \<Rightarrow> alloc_attrs \<Rightarrow> alloc_attrs" where
  "set_on_host v a = a\<lparr>aa_value := aa_value a OR of_bool v\<rparr>"

definition on_host :: "alloc_attrs \<Rightarrow> bool" where
  "on_host a = (aa_value a AND 1 \<noteq> 0)"

definition set_nic_compatible :: "bool \<Rightarrow> alloc_attrs \<Rightarrow> alloc_attrs" where
  "set_nic_compatible v a = a\<lparr>aa_value := aa_value a OR push_bit 1 (of_bool v)\<rparr>"

definition nic_compatible :: "alloc_attrs \<Rightarrow> bool" where
  "nic_compatible a = (aa_value a AND push_bit 1 1 \<noteq> 0)"

definition set_gpu_compatible :: "bool \<Rightarrow> alloc_attrs \<Rightarrow> alloc_attrs" where
  "set_gpu_compatible v a = a\<lparr>aa_value := aa_value a OR push_bit 2 (of_bool v)\<rparr>"

definition gpu_compatible :: "alloc_attrs \<Rightarrow> bool" where
  "gpu_compatible a = (aa_value a AND push_bit 2 1 \<noteq> 0)"

text \<open>\<open>Merge\<close>: \<open>None\<close> is the failed \<open>CHECK\<close> on two different non-zero scope ids.\<close>

definition aa_merge :: "alloc_attrs \<Rightarrow> alloc_attrs \<Rightarrow> alloc_attrs option" where
  "aa_merge this other =
     (let a = this\<lparr>aa_value := aa_value this OR aa_value other\<rparr> in
      if aa_scope_id this \<noteq> aa_scope_id other
      then (if aa_scope_id this = 0 \<or> aa_scope_id other = 0
            then Some (a\<lparr>aa_scope_id := (if aa_scope_id this = 0 then aa_scope_id other
                                          else aa_scope_id this)\<rparr>)
            else None)
      else Some a)"

definition aa_less_restrictive :: "alloc_attrs \<Rightarrow> alloc_attrs \<Rightarrow> bool" where
  "aa_less_restrictive this other = (aa_value this OR aa_value other = aa_value other)"

section \<open>Properties\<close>

lemma get_node_class_control_flow:
  "get_node_class_for_op ''Merge'' = NC_MERGE \<and> get_node_class_for_op ''RefMerge'' = NC_MERGE
   \<and> get_node_class_for_op ''_XlaMerge'' = NC_MERGE \<and> get_node_class_for_op ''RefEnter'' = NC_ENTER
   \<and> get_node_class_for_op ''NextIteration'' = NC_NEXT_ITERATION \<and> get_node_class_for_op ''MatMul'' = NC_OTHER"
  by (simp add: get_node_class_for_op_def kNodeClassTable_def ref_class_def)

lemma kNodeClassTable_distinct: "distinct (map fst kNodeClassTable)"
  by (simp add: kNodeClassTable_def ref_class_def)

lemma graph_nodes_member:
  "n \<in> set (graph_nodes g) \<longleftrightarrow> (\<exists>i<length g. g ! i = Some n)"
  by (force simp: graph_nodes_def map_filter_def in_set_conv_nth)

text \<open>Merging takes the union of the flags and keeps the one scope id there is.\<close>

lemma aa_merge_spec:
  assumes "aa_merge a b = Some c"
  shows "aa_value c = aa_value a OR aa_value b"
    and "aa_less_restrictive a c" and "aa_less_restrictive b c"
    and "aa_scope_id a \<noteq> 0 \<Longrightarrow> aa_scope_id c = aa_scope_id a"
    and "aa_scope_id b \<noteq> 0 \<Longrightarrow> aa_scope_id c = aa_scope_id b"
  using assms
  by (auto simp: aa_merge_def aa_less_restrictive_def Let_def or.assoc or.left_commute
      split: if_splits)

lemma aa_merge_commute: "aa_merge a b = aa_merge b a"
  by (cases a; cases b) (auto simp: aa_merge_def Let_def or.commute)

end
