(* ===== verification/Node_Items.thy ===== *)
theory Node_Items
  imports Graph_Model Pending_Counts
begin

text \<open>
  The static half of the executor (core/common_runtime/executor.cc): the compact node
  items of \<open>GraphView\<close>, the frames of the graph (\<open>BuildControlFlowInfo\<close>), and
  \<open>ExecutorImpl::Initialize\<close>, which computes for each node its input slots in the frame's
  input vector, its handle in the frame's pending counts, and the counts a fresh iteration
  starts with.
\<close>

section \<open>Node items\<close>

record edge_info =
  dst_id :: nat
  output_slot :: int
  is_last :: bool
  input_slot :: int

text \<open>
  What the executor reads of an \<open>OpKernel\<close>: its node definition, the names of its inputs,
  and whether it is asynchronous or expensive. The computation itself is a parameter.
\<close>

record kernel =
  k_def :: gnode
  k_requested_inputs :: "string list"
  k_is_async :: bool
  k_is_expensive :: bool

record node_item =
  node_id :: int
  kernel_is_async :: bool
  is_merge :: bool
  is_enter :: bool
  is_constant_enter :: bool
  is_exit :: bool
  is_control_trigger :: bool
  is_source :: bool
  is_sink :: bool
  is_enter_exit_or_next_iter :: bool
  is_transfer_node :: bool
  is_initialization_op :: bool
  is_recv_or_switch :: bool
  is_next_iteration :: bool
  ni_kernel :: "kernel option"
  num_inputs :: nat
  num_outputs :: nat
  input_start :: nat
  pending_id :: handle
  output_edges :: "edge_info list"
  output_attrs :: "alloc_attrs list"
  forward_from :: "int list"
  input_types :: "nat list"
  output_types :: "nat list"

definition kNoReservation :: int where "kNoReservation = -1"
definition kNeverForward :: int where "kNeverForward = -2"

section \<open>Sizes in the node space\<close>

text \<open>
  The sizes of the C++ types are a parameter: they depend on the platform's ABI.
\<close>

record abi =
  sizeof_NodeItem :: nat
  sizeof_EdgeInfo :: nat
  sizeof_AllocatorAttributes :: nat
  sizeof_int :: nat
  sizeof_ptr :: nat

definition NodeItemBytes :: "abi \<Rightarrow> gnode \<Rightarrow> nat" where
  "NodeItemBytes a n =
     (let num_output_edges = length (n_out_edges n);
          raw_bytes = sizeof_NodeItem a
            + num_output_edges * sizeof_EdgeInfo a
            + n_num_outputs n * sizeof_AllocatorAttributes a
            + n_num_outputs n * sizeof_int a
            + n_num_inputs n * 1
            + n_num_outputs n * 1;
          kItemAlignment = sizeof_ptr a
      in ((raw_bytes + kItemAlignment - 1) div kItemAlignment) * kItemAlignment)"

section \<open>Initialising one node item\<close>

text \<open>
  The loop over the out edges: each gets an \<open>EdgeInfo\<close> with \<open>is_last\<close> clear, and
  \<open>last_indices\<close> remembers, per output slot, the index of the last one filled.
\<close>

definition edge_info_of :: "edge \<Rightarrow> edge_info" where
  "edge_info_of e = \<lparr>dst_id = e_dst e, output_slot = e_src_output e, is_last = False,
                     input_slot = e_dst_input e\<rparr>"

fun fill_edges :: "edge list \<Rightarrow> edge_info list \<Rightarrow> nat option list \<Rightarrow> edge_info list \<times> nat option list" where
  "fill_edges [] dst_edges last_indices = (dst_edges, last_indices)"
| "fill_edges (e # es) dst_edges last_indices =
     (let last' = (if e_src_output e \<ge> 0
                   then last_indices[nat (e_src_output e) := Some (length dst_edges)]
                   else last_indices)
      in fill_edges es (dst_edges @ [edge_info_of e]) last')"

fun mark_last :: "nat option list \<Rightarrow> edge_info list \<Rightarrow> edge_info list" where
  "mark_last [] dst_edges = dst_edges"
| "mark_last (None # ls) dst_edges = mark_last ls dst_edges"
| "mark_last (Some i # ls) dst_edges =
     mark_last ls (dst_edges[i := (dst_edges ! i)\<lparr>is_last := True\<rparr>])"

definition init_edges :: "gnode \<Rightarrow> edge_info list" where
  "init_edges n = (let (es, last_indices) =
       fill_edges (n_out_edges n) [] (replicate (n_num_outputs n) None)
     in mark_last last_indices es)"

text \<open>
  The scan of the \<open>_scoped_allocator\<close> attribute for output \<open>i\<close>: pairs of an output
  index and a scope id. Every matching pair overwrites.
\<close>

fun scan_scoped :: "nat \<Rightarrow> int list \<Rightarrow> int \<Rightarrow> alloc_attrs \<Rightarrow> int \<times> alloc_attrs" where
  "scan_scoped i (a # b # rest) fwd attrs =
     (if a = int i then scan_scoped i rest kNeverForward (attrs\<lparr>aa_scope_id := b\<rparr>)
      else scan_scoped i rest fwd attrs)"
| "scan_scoped i _ fwd attrs = (fwd, attrs)"

text \<open>The scan of \<open>_forward_input\<close>: the first pair whose second part is \<open>i\<close>.\<close>

fun scan_forward :: "nat \<Rightarrow> int list \<Rightarrow> int \<Rightarrow> int" where
  "scan_forward i (a # b # rest) fwd = (if b = int i then a else scan_forward i rest fwd)"
| "scan_forward i _ fwd = fwd"

definition init_output :: "gnode \<Rightarrow> nat \<Rightarrow> int \<times> alloc_attrs" where
  "init_output n i =
     (let (fwd, attrs) =
        (case get_attr_int_list n ''_scoped_allocator'' of
           Inr sa \<Rightarrow> scan_scoped i sa kNoReservation new_alloc_attrs
         | Inl _ \<Rightarrow> (kNoReservation, new_alloc_attrs));
        fwd' = (case get_attr_int_list n ''_forward_input'' of
           Inr fi \<Rightarrow> (if fwd = kNoReservation then scan_forward i fi fwd else fwd)
         | Inl _ \<Rightarrow> fwd)
      in (fwd', attrs))"

definition InitializeNode :: "gnode \<Rightarrow> node_item" where
  "InitializeNode n =
     (let outs = map (init_output n) [0..<n_num_outputs n] in
      \<lparr>node_id = -1, kernel_is_async = False, is_merge = False, is_enter = False,
       is_constant_enter = False, is_exit = False, is_control_trigger = False,
       is_source = False, is_sink = False, is_enter_exit_or_next_iter = False,
       is_transfer_node = False, is_initialization_op = False, is_recv_or_switch = False,
       is_next_iteration = False, ni_kernel = None,
       num_inputs = n_num_inputs n, num_outputs = n_num_outputs n, input_start = 0,
       pending_id = \<lparr>byte_offset = 0, is_large = False\<rparr>,
       output_edges = init_edges n, output_attrs = map snd outs, forward_from = map fst outs,
       input_types = n_input_types n, output_types = n_output_types n\<rparr>)"

text \<open>
  \<open>GraphView::Initialize\<close>: the items are laid out one after the other in \<open>space_\<close>;
  \<open>node_offsets_\<close> maps a node id to its byte offset (\<open>kuint32max\<close>, here \<open>None\<close>,
  for an id with no node). The final \<open>CHECK_EQ(ptr, space_ + total_bytes)\<close> compares the
  two results.
\<close>

record graph_view =
  gv_num_nodes :: nat
  gv_offsets :: "nat option list"
  gv_items :: "nat \<Rightarrow> node_item option"
  gv_total_bytes :: nat

fun layout_nodes :: "abi \<Rightarrow> gnode list \<Rightarrow> nat \<Rightarrow> nat option list \<Rightarrow> nat \<times> nat option list" where
  "layout_nodes a [] ptr offs = (ptr, offs)"
| "layout_nodes a (n # ns) ptr offs =
     layout_nodes a ns (ptr + NodeItemBytes a n) (offs[n_id n := Some ptr])"

definition GraphView_Initialize :: "abi \<Rightarrow> graph \<Rightarrow> graph_view \<times> nat" where
  "GraphView_Initialize a g =
     (let total = sum_list (map (NodeItemBytes a) (graph_nodes g));
          (ptr, offs) = layout_nodes a (graph_nodes g) 0 (replicate (num_node_ids g) None)
      in (\<lparr>gv_num_nodes = num_node_ids g, gv_offsets = offs,
           gv_items = (\<lambda>i. map_option InitializeNode (graph_node g i)),
           gv_total_bytes = total\<rparr>, ptr))"

section \<open>Initial counts\<close>

definition count_control_edges :: "edge list \<Rightarrow> nat" where
  "count_control_edges es = length (filter is_control_edge es)"

text \<open>
  The pair of the pending count a fresh iteration starts with and the largest dead count.
  For a merge, bit 0 says that no live data input has arrived.
\<close>

definition GetMaxPendingCounts :: "gnode \<Rightarrow> nat \<times> nat" where
  "GetMaxPendingCounts n =
     (let num_in_edges = length (n_in_edges n);
          initial_count = (if IsMerge n then 1 + count_control_edges (n_in_edges n) * 2
                           else num_in_edges)
      in (initial_count, num_in_edges))"

section \<open>Frames of the graph\<close>

record control_flow_info =
  unique_frame_names :: "string list"
  frame_names :: "string list"

definition set_insert :: "'a \<Rightarrow> 'a list \<Rightarrow> 'a list" where
  "set_insert x xs = (if x \<in> set xs then xs else xs @ [x])"

text \<open>
  The state of the breadth-first walk: the queue, the visited flags, the parent node of
  each node, the result, and \<open>frame_name\<close>, which is declared outside the loop.
\<close>

record cf_walk =
  cw_ready :: "nat list"
  cw_visited :: "bool list"
  cw_parent :: "nat option list"
  cw_frame_names :: "string list"
  cw_unique :: "string list"

text \<open>
  \<open>None\<close> as a result is the dereference of a null parent at an Exit that has no Enter.
  \<open>Some (Inl s)\<close> is the error of an Enter with no frame name.
\<close>

definition cf_node_context ::
  "graph \<Rightarrow> cf_walk \<Rightarrow> nat \<Rightarrow> (status + (nat option \<times> string)) option" where
  "cf_node_context g w curr_id =
     (case graph_node g curr_id of
        None \<Rightarrow> None
      | Some n \<Rightarrow>
          if IsEnter n then
            Some (case get_attr_string n ''frame_name'' of
                    Inl s \<Rightarrow> Inl s | Inr name \<Rightarrow> Inr (Some curr_id, name))
          else if IsExit n then
            (case cw_parent w ! curr_id of
               None \<Rightarrow> None
             | Some p \<Rightarrow> Some (Inr (cw_parent w ! p, cw_frame_names w ! p)))
          else Some (Inr (cw_parent w ! curr_id, cw_frame_names w ! curr_id)))"

definition cf_visit_edge :: "nat option \<Rightarrow> string \<Rightarrow> cf_walk \<Rightarrow> edge \<Rightarrow> cf_walk" where
  "cf_visit_edge parent frame_name w e =
     (let out_id = e_dst e in
      if cw_visited w ! out_id then w
      else w\<lparr>cw_ready := cw_ready w @ [out_id],
             cw_visited := (cw_visited w)[out_id := True],
             cw_frame_names := (cw_frame_names w)[out_id := frame_name],
             cw_parent := (cw_parent w)[out_id := parent],
             cw_unique := set_insert frame_name (cw_unique w)\<rparr>)"

definition cf_step :: "graph \<Rightarrow> cf_walk \<Rightarrow> (status + cf_walk) option" where
  "cf_step g w =
     (case cw_ready w of
        [] \<Rightarrow> Some (Inr w)
      | curr_id # rest \<Rightarrow>
          (case cf_node_context g w curr_id of
             None \<Rightarrow> None
           | Some (Inl s) \<Rightarrow> Some (Inl s)
           | Some (Inr (parent, frame_name)) \<Rightarrow>
               (case graph_node g curr_id of
                  None \<Rightarrow> None
                | Some n \<Rightarrow> Some (Inr (foldl (cf_visit_edge parent frame_name)
                                          (w\<lparr>cw_ready := rest\<rparr>) (n_out_edges n))))))"

text \<open>
  The loop: every iteration takes one node off the queue and a node enters it once, so as
  many iterations as there are node ids suffice (\<open>cf_loop_enough\<close>).
\<close>

fun cf_loop :: "nat \<Rightarrow> graph \<Rightarrow> cf_walk \<Rightarrow> (status + cf_walk) option" where
  "cf_loop fuel g w =
     (if cw_ready w = [] then Some (Inr w)
      else case fuel of
        0 \<Rightarrow> None
      | Suc fuel' \<Rightarrow>
          (case cf_step g w of
             None \<Rightarrow> None
           | Some (Inl s) \<Rightarrow> Some (Inl s)
           | Some (Inr w') \<Rightarrow> cf_loop fuel' g w'))"

declare cf_loop.simps [simp del]

definition cf_roots :: "graph \<Rightarrow> cf_walk" where
  "cf_roots g = foldl (\<lambda>w n. if n_in_edges n = []
        then w\<lparr>cw_visited := (cw_visited w)[n_id n := True],
               cw_unique := set_insert [] (cw_unique w),
               cw_ready := cw_ready w @ [n_id n]\<rparr>
        else w)
     \<lparr>cw_ready = [], cw_visited = replicate (num_node_ids g) False,
      cw_parent = replicate (num_node_ids g) None,
      cw_frame_names = replicate (num_node_ids g) [], cw_unique = []\<rparr>
     (graph_nodes g)"

definition BuildControlFlowInfo :: "graph \<Rightarrow> (status + control_flow_info) option" where
  "BuildControlFlowInfo g =
     (case cf_loop (num_node_ids g) g (cf_roots g) of
        None \<Rightarrow> None
      | Some (Inl s) \<Rightarrow> Some (Inl s)
      | Some (Inr w) \<Rightarrow> Some (Inr \<lparr>unique_frame_names = cw_unique w,
                                   frame_names = cw_frame_names w\<rparr>))"

section \<open>Initialising the executor\<close>

record frame_info =
  fi_input_count :: int
  fi_total_inputs :: nat
  fi_layout :: layout
  fi_pending_counts :: "counts option"
  fi_nodes :: "nat list"

definition new_frame_info :: frame_info where
  "new_frame_info = \<lparr>fi_input_count = 0, fi_total_inputs = 0, fi_layout = new_layout,
                     fi_pending_counts = None, fi_nodes = []\<rparr>"

record exec_impl =
  im_gview :: "nat \<Rightarrow> node_item option"
  im_frame_info :: "string \<Rightarrow> frame_info option"
  im_root_nodes :: "nat list"

definition EnsureFrameInfo :: "string \<Rightarrow> exec_impl \<Rightarrow> exec_impl" where
  "EnsureFrameInfo fname im =
     (case im_frame_info im fname of
        None \<Rightarrow> im\<lparr>im_frame_info := (im_frame_info im)(fname \<mapsto> new_frame_info)\<rparr>
      | Some _ \<Rightarrow> im)"

definition frame_info_of :: "exec_impl \<Rightarrow> string \<Rightarrow> frame_info" where
  "frame_info_of im fname = (case im_frame_info im fname of None \<Rightarrow> new_frame_info | Some fi \<Rightarrow> fi)"

definition upd_frame_info :: "string \<Rightarrow> (frame_info \<Rightarrow> frame_info) \<Rightarrow> exec_impl \<Rightarrow> exec_impl" where
  "upd_frame_info fname f im =
     im\<lparr>im_frame_info := (im_frame_info im)(fname \<mapsto> f (frame_info_of im fname))\<rparr>"

text \<open>
  The body of the loop over the nodes of \<open>ExecutorImpl::Initialize\<close>. \<open>create_kernel\<close>
  is the kernel factory of the executor's parameters.
\<close>

definition init_node_step ::
  "(gnode \<Rightarrow> status + kernel) \<Rightarrow> string \<Rightarrow> gnode \<Rightarrow> exec_impl \<Rightarrow> status + exec_impl" where
  "init_node_step create_kernel frame_name n im0 =
     (let im = EnsureFrameInfo frame_name im0;
          fi = frame_info_of im frame_name;
          item0 = InitializeNode n
      in case create_kernel n of
        Inl s \<Rightarrow> Inl (attach_def s (n_name n) False)
      | Inr k \<Rightarrow>
        (case (if IsEnter n then get_attr_bool n ''is_constant'' else Inr False) of
           Inl s \<Rightarrow> Inl s
         | Inr const_enter \<Rightarrow>
           (let (max_pending, max_dead) = GetMaxPendingCounts n;
                (h, lay) = create_handle (fi_layout fi) max_pending max_dead;
                item = item0\<lparr>node_id := int (n_id n), input_start := fi_total_inputs fi,
                  ni_kernel := Some k, kernel_is_async := k_is_async k,
                  is_merge := IsMerge n, is_enter := IsEnter n,
                  is_constant_enter := const_enter, is_exit := IsExit n,
                  is_control_trigger := IsControlTrigger n, is_source := IsSource n,
                  is_sink := IsSink n,
                  is_enter_exit_or_next_iter := (IsEnter n \<or> IsExit n \<or> IsNextIteration n),
                  is_transfer_node := IsTransferNode n,
                  is_initialization_op := IsInitializationOp n,
                  is_recv_or_switch := (IsRecv n \<or> IsSwitch n),
                  is_next_iteration := IsNextIteration n,
                  pending_id := h\<rparr>;
                im1 = upd_frame_info frame_name (\<lambda>fi. fi\<lparr>
                  fi_total_inputs := fi_total_inputs fi + n_num_inputs n,
                  fi_layout := lay, fi_nodes := fi_nodes fi @ [n_id n]\<rparr>) im;
                im2 = im1\<lparr>im_gview := (im_gview im1)(n_id n \<mapsto> item),
                          im_root_nodes := (if n_in_edges n = [] then im_root_nodes im1 @ [n_id n]
                                            else im_root_nodes im1)\<rparr>
            in if IsEnter n then
                 (case get_attr_string n ''frame_name'' of
                    Inl s \<Rightarrow> Inl s
                  | Inr enter_name \<Rightarrow>
                      Inr (upd_frame_info enter_name
                             (\<lambda>fi. fi\<lparr>fi_input_count := fi_input_count fi + 1\<rparr>) im2))
               else Inr im2)))"

fun init_nodes ::
  "(gnode \<Rightarrow> status + kernel) \<Rightarrow> string list \<Rightarrow> gnode list \<Rightarrow> exec_impl \<Rightarrow> status + exec_impl" where
  "init_nodes ck names [] im = Inr im"
| "init_nodes ck names (n # ns) im =
     (case init_node_step ck (names ! n_id n) n im of
        Inl s \<Rightarrow> Inl s | Inr im' \<Rightarrow> init_nodes ck names ns im')"

text \<open>\<open>InitializePending\<close>; \<open>junk\<close> is the content of freshly allocated bytes.\<close>

definition init_pending_frame :: "counts \<Rightarrow> exec_impl \<Rightarrow> string \<Rightarrow> exec_impl" where
  "init_pending_frame junk im name =
     upd_frame_info name (\<lambda>fi. fi\<lparr>fi_pending_counts := Some (new_counts junk (fi_layout fi))\<rparr>) im"

definition init_pending_node :: "string list \<Rightarrow> exec_impl \<Rightarrow> gnode \<Rightarrow> exec_impl option" where
  "init_pending_node names im n =
     (case (im_gview im (n_id n), fi_pending_counts (frame_info_of im (names ! n_id n))) of
        (Some item, Some c) \<Rightarrow>
          Some (upd_frame_info (names ! n_id n)
            (\<lambda>fi. fi\<lparr>fi_pending_counts :=
               Some (set_initial_count c (pending_id item) (fst (GetMaxPendingCounts n)))\<rparr>) im)
      | _ \<Rightarrow> None)"

definition InitializePending :: "counts \<Rightarrow> graph \<Rightarrow> control_flow_info \<Rightarrow> exec_impl \<Rightarrow> exec_impl option" where
  "InitializePending junk g cf im =
     foldM (init_pending_node (frame_names cf))
       (foldl (init_pending_frame junk) im (unique_frame_names cf)) (graph_nodes g)"

definition ExecutorImpl_Initialize ::
  "abi \<Rightarrow> counts \<Rightarrow> (gnode \<Rightarrow> status + kernel) \<Rightarrow> graph \<Rightarrow> (status + exec_impl) option" where
  "ExecutorImpl_Initialize a junk create_kernel g =
     (let gv = fst (GraphView_Initialize a g);
          im0 = \<lparr>im_gview = gv_items gv, im_frame_info = Map.empty, im_root_nodes = []\<rparr>
      in case BuildControlFlowInfo g of
           None \<Rightarrow> None
         | Some (Inl s) \<Rightarrow> Some (Inl s)
         | Some (Inr cf) \<Rightarrow>
             (let im1 = foldl (\<lambda>im f. EnsureFrameInfo f im) im0 (unique_frame_names cf) in
              case init_nodes create_kernel (frame_names cf) (graph_nodes g) im1 of
                Inl s \<Rightarrow> Some (Inl s)
              | Inr im2 \<Rightarrow> map_option Inr (InitializePending junk g cf im2)))"

end
