(* ===== verification/Frames.thy ===== *)
theory Frames
  imports Node_Items
begin

text \<open>
  Iterations and frames of the executor (\<open>ExecutorState::Entry\<close>, \<open>IterationState\<close>,
  \<open>FrameState\<close> in core/common_runtime/executor.cc). A frame keeps the states of its live
  iterations in a ring of \<open>max_parallel_iterations + 1\<close> pointers; the states themselves
  are in a heap of the frame (\<open>fs_heap\<close>), so that the aliasing of \<open>iterations_first\<close> with
  slot 0 is explicit. Deleting an iteration removes it from the heap, and every operation
  that would follow a null or dangling pointer is \<open>None\<close>.
\<close>

section \<open>Values on the edges\<close>

record tensor =
  t_dtype :: nat
  t_initialized :: bool
  t_buffer :: nat

text \<open>
  \<open>en_val\<close> is \<open>Some\<close> exactly when \<open>val_field_is_set\<close>; \<open>en_ref\<close> and \<open>en_ref_mu\<close> are
  the addresses of a reference and of its mutex.
\<close>

record entry =
  en_val :: "tensor option"
  en_ref :: "nat option"
  en_ref_mu :: "nat option"
  en_has_value :: bool
  en_alloc_attr :: alloc_attrs

definition new_entry :: entry where
  "new_entry = \<lparr>en_val = None, en_ref = None, en_ref_mu = None, en_has_value = False,
                en_alloc_attr = new_alloc_attrs\<rparr>"

text \<open>The move of a tensor takes its buffer and leaves the source uninitialised.\<close>

definition moved_tensor :: "tensor \<Rightarrow> tensor" where
  "moved_tensor t = t\<lparr>t_initialized := False, t_buffer := 0\<rparr>"

definition entry_copy :: "entry \<Rightarrow> entry" where
  "entry_copy other = other"

definition entry_move :: "entry \<Rightarrow> entry \<times> entry" where
  "entry_move other = (other, other\<lparr>en_val := map_option moved_tensor (en_val other)\<rparr>)"

definition clear_val :: "entry \<Rightarrow> entry" where
  "clear_val e = (case en_val e of None \<Rightarrow> e
     | Some _ \<Rightarrow> e\<lparr>en_val := None, en_has_value := False\<rparr>)"

section \<open>States\<close>

record iteration_state =
  is_input_tensors :: "entry list"
  is_outstanding_ops :: int
  is_outstanding_frame_count :: int
  is_counts :: counts

definition new_iteration_state :: "counts \<Rightarrow> nat \<Rightarrow> iteration_state" where
  "new_iteration_state pending_counts total_input_tensors =
     \<lparr>is_input_tensors = replicate total_input_tensors new_entry,
      is_outstanding_ops = 0, is_outstanding_frame_count = 0,
      is_counts = copy_counts pending_counts\<rparr>"

record tagged_node =
  tn_item :: nat
  tn_frame :: nat
  tn_iter :: nat
  tn_is_dead :: bool

record frame_state =
  fs_frame_name :: string
  fs_frame_id :: nat
  fs_parent_iter :: int
  fs_parent_frame :: "nat option"
  fs_max_parallel_iterations :: nat
  fs_num_pending_inputs :: int
  fs_iteration_count :: nat
  fs_num_outstanding_iterations :: int
  fs_iterations :: "nat option list"
  fs_iterations_first :: "nat option"
  fs_heap :: "nat \<Rightarrow> iteration_state option"
  fs_next_addr :: nat
  fs_next_iter_roots :: "(nat \<times> entry) list"
  fs_inv_values :: "(nat \<times> entry) list"
  fs_dead_exits :: "nat list"
  fs_pending_counts :: counts
  fs_total_input_tensors :: nat
  fs_nodes :: "nat list"

text \<open>
  The constructor and \<open>InitializeFrameInfo\<close> together: the static information comes from
  the frame info of the enter name (\<open>None\<close> when it, or its counts, are missing).
\<close>

definition new_frame_state :: "frame_info \<Rightarrow> nat \<Rightarrow> frame_state option" where
  "new_frame_state finfo parallel_iters =
     (case fi_pending_counts finfo of
        None \<Rightarrow> None
      | Some c \<Rightarrow> Some
         \<lparr>fs_frame_name = [], fs_frame_id = 0, fs_parent_iter = -1, fs_parent_frame = None,
          fs_max_parallel_iterations = parallel_iters,
          fs_num_pending_inputs = fi_input_count finfo,
          fs_iteration_count = 0, fs_num_outstanding_iterations = 1,
          fs_iterations = replicate (parallel_iters + 1) None, fs_iterations_first = None,
          fs_heap = Map.empty, fs_next_addr = 0,
          fs_next_iter_roots = [], fs_inv_values = [], fs_dead_exits = [],
          fs_pending_counts = c, fs_total_input_tensors = fi_total_inputs finfo,
          fs_nodes = fi_nodes finfo\<rparr>)"

section \<open>The ring of iterations\<close>

definition ring_index :: "frame_state \<Rightarrow> nat \<Rightarrow> nat" where
  "ring_index f iter = iter mod (fs_max_parallel_iterations f + 1)"

definition GetIteration :: "frame_state \<Rightarrow> nat \<Rightarrow> nat option" where
  "GetIteration f iter = (if iter = 0 then fs_iterations_first f
                          else fs_iterations f ! ring_index f iter)"

definition SetIteration :: "nat \<Rightarrow> nat option \<Rightarrow> frame_state \<Rightarrow> frame_state" where
  "SetIteration iter st f =
     (let index = ring_index f iter;
          f1 = f\<lparr>fs_iterations := (fs_iterations f)[index := st]\<rparr>
      in if index = 0 then f1\<lparr>fs_iterations_first := st\<rparr> else f1)"

text \<open>Reading and writing an iteration state through the pointer \<open>GetIteration\<close> returns.\<close>

definition iter_state :: "frame_state \<Rightarrow> nat \<Rightarrow> iteration_state option" where
  "iter_state f iter = (case GetIteration f iter of None \<Rightarrow> None | Some a \<Rightarrow> fs_heap f a)"

definition put_iter_state :: "nat \<Rightarrow> iteration_state \<Rightarrow> frame_state \<Rightarrow> frame_state" where
  "put_iter_state iter s f = (case GetIteration f iter of None \<Rightarrow> f
     | Some a \<Rightarrow> f\<lparr>fs_heap := (fs_heap f)(a \<mapsto> s)\<rparr>)"

definition alloc_iteration :: "frame_state \<Rightarrow> nat \<times> frame_state" where
  "alloc_iteration f =
     (fs_next_addr f, f\<lparr>fs_heap := (fs_heap f)(fs_next_addr f \<mapsto>
         new_iteration_state (fs_pending_counts f) (fs_total_input_tensors f)),
       fs_next_addr := fs_next_addr f + 1\<rparr>)"

text \<open>\<open>delete GetIteration(iter)\<close>; deleting a null pointer does nothing.\<close>

definition delete_iteration :: "nat \<Rightarrow> frame_state \<Rightarrow> frame_state" where
  "delete_iteration iter f = (case GetIteration f iter of None \<Rightarrow> f
     | Some a \<Rightarrow> f\<lparr>fs_heap := (fs_heap f)(a := None)\<rparr>)"

section \<open>Activating the successors of a node\<close>

definition entry_at :: "entry list \<Rightarrow> int \<Rightarrow> entry option" where
  "entry_at outputs slot = (if 0 \<le> slot \<and> nat slot < length outputs
                            then Some (outputs ! nat slot) else None)"

text \<open>
  What one edge does to the counts of its destination, and whether the destination becomes
  ready, is dead, and takes the value: the part of the body of \<open>ActivateNodes\<close> before
  \<open>if (dst_need_input)\<close>. \<open>has_value\<close> is \<open>(*outputs)[src_slot].has_value\<close>.
\<close>

record activation =
  av_counts :: counts
  av_ready :: bool
  av_dead :: bool
  av_need_input :: bool

definition activate_counts ::
  "node_item \<Rightarrow> bool \<Rightarrow> bool \<Rightarrow> bool \<Rightarrow> bool \<Rightarrow> counts \<Rightarrow> activation" where
  "activate_counts dst_item item_is_enter is_dead ctl_edge has_value c =
     (let h = pending_id dst_item in
      if is_merge dst_item then
        if ctl_edge then
          (let c1 = fst (decrement_pending c h 2);
               count = pending c1 h;
               dead_cnt = dead_count c1 h;
               dst_dead = (dead_cnt = int (num_inputs dst_item))
           in \<lparr>av_counts = c1, av_ready = (count = 0 \<or> (count = 1 \<and> dst_dead)),
               av_dead = dst_dead, av_need_input = False\<rparr>)
        else if has_value then
          (let count = pending c h;
               c1 = mark_live c h
           in \<lparr>av_counts = c1, av_ready = (count = 1), av_dead = False,
               av_need_input = (count mod 2 = 1)\<rparr>)
        else
          (let c1 = increment_dead_count c h;
               dead_cnt = dead_count c1 h;
               dst_dead = (dead_cnt = int (num_inputs dst_item) \<or> item_is_enter)
           in \<lparr>av_counts = c1, av_ready = (pending c1 h = 1 \<and> dst_dead),
               av_dead = dst_dead, av_need_input = False\<rparr>)
      else
        (let increment_dead = (is_dead \<or> (\<not> ctl_edge \<and> \<not> has_value));
             (c1, pend, dead) = adjust_for_activation c h increment_dead
         in \<lparr>av_counts = c1, av_ready = (pend = 0), av_dead = (dead > 0),
             av_need_input = \<not> ctl_edge\<rparr>))"

text \<open>
  One iteration of the loop over the out edges, on the state of the iteration, the outputs
  (a moved-from output stays behind) and the ready sequence. An index outside a vector is
  \<open>None\<close>.
\<close>

definition activate_edge ::
  "(nat \<Rightarrow> node_item option) \<Rightarrow> nat \<Rightarrow> nat \<Rightarrow> bool \<Rightarrow> bool
     \<Rightarrow> iteration_state \<times> entry list \<times> tagged_node list \<Rightarrow> edge_info
     \<Rightarrow> (iteration_state \<times> entry list \<times> tagged_node list) option" where
  "activate_edge gview this iter item_is_enter is_dead st e =
     (case st of (s, outputs, ready) \<Rightarrow>
      (case gview (dst_id e) of
         None \<Rightarrow> None
       | Some dst_item \<Rightarrow>
         if is_sink dst_item then Some st
         else
           (let ctl_edge = (output_slot e = kControlSlot);
                src = entry_at outputs (output_slot e)
            in if \<not> ctl_edge \<and> src = None then None
            else
              (let has_value = (case src of None \<Rightarrow> False | Some x \<Rightarrow> en_has_value x);
                   av = activate_counts dst_item item_is_enter is_dead ctl_edge
                          has_value (is_counts s);
                   s1 = s\<lparr>is_counts := av_counts av\<rparr>;
                   dst_loc = int (input_start dst_item) + input_slot e
               in if av_need_input av \<and> \<not> (0 \<le> dst_loc \<and> nat dst_loc < length (is_input_tensors s))
               then None
               else
                 (let (s2, outputs2) =
                    (if av_need_input av then
                       (let (v, rest) = (if is_last e then entry_move (the src)
                                         else (entry_copy (the src), the src))
                        in (s1\<lparr>is_input_tensors := (is_input_tensors s1)[nat dst_loc := v]\<rparr>,
                            outputs[nat (output_slot e) := rest]))
                     else (s1, outputs))
                  in if av_ready av then
                       Some (s2\<lparr>is_outstanding_ops := is_outstanding_ops s2 + 1\<rparr>, outputs2,
                             ready @ [\<lparr>tn_item = dst_id e, tn_frame = this, tn_iter = iter,
                                       tn_is_dead = (if is_control_trigger dst_item then False
                                                     else av_dead av)\<rparr>])
                     else Some (s2, outputs2, ready))))))"

definition ActivateNodes ::
  "(nat \<Rightarrow> node_item option) \<Rightarrow> nat \<Rightarrow> nat \<Rightarrow> bool \<Rightarrow> nat \<Rightarrow> entry list \<Rightarrow> tagged_node list
     \<Rightarrow> frame_state \<Rightarrow> (frame_state \<times> entry list \<times> tagged_node list) option" where
  "ActivateNodes gview this item is_dead iter outputs ready f =
     (case gview item of
        None \<Rightarrow> None
      | Some ni \<Rightarrow>
        (case iter_state f iter of
           None \<Rightarrow> None
         | Some s \<Rightarrow>
           (case foldM (activate_edge gview this iter (is_enter ni) is_dead)
                   (s, outputs, ready) (output_edges ni) of
              None \<Rightarrow> None
            | Some (s', outputs', ready') \<Rightarrow>
                Some (put_iter_state iter s' f, outputs', ready'))))"

text \<open>
  \<open>ActivateNexts\<close> and \<open>ActivateLoopInvs\<close>: each remembered value is copied into a fresh
  one-element vector and propagated into the iteration.
\<close>

definition activate_saved ::
  "(nat \<Rightarrow> node_item option) \<Rightarrow> nat \<Rightarrow> nat \<Rightarrow> frame_state \<times> tagged_node list \<Rightarrow> nat \<times> entry
     \<Rightarrow> (frame_state \<times> tagged_node list) option" where
  "activate_saved gview this iter st node_entry =
     (case st of (f, ready) \<Rightarrow>
      (case ActivateNodes gview this (fst node_entry) (\<not> en_has_value (snd node_entry)) iter
              [entry_copy (snd node_entry)] ready f of
         None \<Rightarrow> None
       | Some (f', _, ready') \<Rightarrow> Some (f', ready')))"

definition ActivateNexts ::
  "(nat \<Rightarrow> node_item option) \<Rightarrow> nat \<Rightarrow> nat \<Rightarrow> frame_state \<times> tagged_node list
     \<Rightarrow> (frame_state \<times> tagged_node list) option" where
  "ActivateNexts gview this iter st =
     (case foldM (activate_saved gview this iter) st (fs_next_iter_roots (fst st)) of
        None \<Rightarrow> None
      | Some (f, ready) \<Rightarrow> Some (f\<lparr>fs_next_iter_roots := []\<rparr>, ready))"

definition ActivateLoopInvs ::
  "(nat \<Rightarrow> node_item option) \<Rightarrow> nat \<Rightarrow> nat \<Rightarrow> frame_state \<times> tagged_node list
     \<Rightarrow> (frame_state \<times> tagged_node list) option" where
  "ActivateLoopInvs gview this iter st =
     foldM (activate_saved gview this iter) st (fs_inv_values (fst st))"

definition AddLoopInv ::
  "(nat \<Rightarrow> node_item option) \<Rightarrow> nat \<Rightarrow> nat \<Rightarrow> entry \<Rightarrow> frame_state \<times> tagged_node list
     \<Rightarrow> (frame_state \<times> tagged_node list) option" where
  "AddLoopInv gview this item entry st =
     (case st of (f, ready) \<Rightarrow>
        foldM (\<lambda>st i. activate_saved gview this i st (item, entry))
          (f\<lparr>fs_inv_values := fs_inv_values f @ [(item, entry)]\<rparr>, ready)
          [0..<fs_iteration_count f + 1])"

section \<open>Starting and finishing iterations\<close>

definition IncrementIteration ::
  "(nat \<Rightarrow> node_item option) \<Rightarrow> nat \<Rightarrow> frame_state \<times> tagged_node list
     \<Rightarrow> (frame_state \<times> tagged_node list) option" where
  "IncrementIteration gview this st =
     (case st of (f, ready) \<Rightarrow>
      (let f1 = f\<lparr>fs_iteration_count := fs_iteration_count f + 1\<rparr>;
           next_iter = fs_iteration_count f1;
           (a, f2) = alloc_iteration f1;
           f3 = SetIteration next_iter (Some a) f2;
           f4 = f3\<lparr>fs_num_outstanding_iterations := fs_num_outstanding_iterations f3 + 1,
                   fs_dead_exits := []\<rparr>
       in case ActivateNexts gview this next_iter (f4, ready) of
            None \<Rightarrow> None
          | Some st' \<Rightarrow> ActivateLoopInvs gview this next_iter st'))"

definition IsFrameDone :: "frame_state \<Rightarrow> bool" where
  "IsFrameDone f = (fs_num_pending_inputs f = 0 \<and> fs_num_outstanding_iterations f = 0)"

definition IsIterationDone :: "frame_state \<Rightarrow> nat \<Rightarrow> bool option" where
  "IsIterationDone f iter =
     (case iter_state f iter of
        None \<Rightarrow> None
      | Some s \<Rightarrow>
          Some (if is_outstanding_ops s = 0 \<and> is_outstanding_frame_count s = 0
                then (if iter = 0 then fs_num_pending_inputs f = 0
                      else GetIteration f (iter - 1) = None)
                else False))"

text \<open>
  The loop of \<open>CleanupIterations\<close>, with fuel. The number of iterations the loop can take
  is bounded: every turn deletes one live iteration, and a deferred root is started at
  most once (\<open>cleanup_loop_ok\<close> in Frame_Props).
\<close>

fun cleanup_loop ::
  "nat \<Rightarrow> (nat \<Rightarrow> node_item option) \<Rightarrow> nat \<Rightarrow> nat \<Rightarrow> frame_state \<times> tagged_node list
     \<Rightarrow> (frame_state \<times> tagged_node list) option" where
  "cleanup_loop fuel gview this curr_iter (f, ready) =
     (if \<not> curr_iter \<le> fs_iteration_count f then Some (f, ready)
      else case IsIterationDone f curr_iter of
        None \<Rightarrow> None
      | Some False \<Rightarrow> Some (f, ready)
      | Some True \<Rightarrow>
         (case fuel of
            0 \<Rightarrow> None
          | Suc fuel' \<Rightarrow>
            (let f1 = SetIteration curr_iter None (delete_iteration curr_iter f);
                 f2 = f1\<lparr>fs_num_outstanding_iterations := fs_num_outstanding_iterations f1 - 1\<rparr>
             in if fs_next_iter_roots f2 \<noteq> []
                then (case IncrementIteration gview this (f2, ready) of
                        None \<Rightarrow> None
                      | Some st' \<Rightarrow> cleanup_loop fuel' gview this (curr_iter + 1) st')
                else cleanup_loop fuel' gview this (curr_iter + 1) (f2, ready))))"

declare cleanup_loop.simps [simp del]

definition cleanup_fuel :: "frame_state \<Rightarrow> nat" where
  "cleanup_fuel f = fs_max_parallel_iterations f + 2"

definition CleanupIterations ::
  "(nat \<Rightarrow> node_item option) \<Rightarrow> nat \<Rightarrow> nat \<Rightarrow> frame_state \<times> tagged_node list
     \<Rightarrow> (frame_state \<times> tagged_node list \<times> bool) option" where
  "CleanupIterations gview this iter st =
     (case cleanup_loop (cleanup_fuel (fst st)) gview this iter st of
        None \<Rightarrow> None
      | Some (f, ready) \<Rightarrow> Some (f, ready, IsFrameDone f))"

definition DecrementOutstandingOps ::
  "(nat \<Rightarrow> node_item option) \<Rightarrow> nat \<Rightarrow> nat \<Rightarrow> frame_state \<times> tagged_node list
     \<Rightarrow> (frame_state \<times> tagged_node list \<times> bool) option" where
  "DecrementOutstandingOps gview this iter st =
     (case st of (f, ready) \<Rightarrow>
      (case iter_state f iter of
         None \<Rightarrow> None
       | Some s \<Rightarrow>
          (let s1 = s\<lparr>is_outstanding_ops := is_outstanding_ops s - 1\<rparr>;
               f1 = put_iter_state iter s1 f
           in if is_outstanding_ops s1 \<noteq> 0 then Some (f1, ready, False)
              else CleanupIterations gview this iter (f1, ready))))"

section \<open>A new frame\<close>

text \<open>
  Both the constructor of \<open>ExecutorState\<close> and \<open>FindOrCreateChildFrame\<close> give a new frame
  the state of iteration 0.
\<close>

definition first_iteration :: "frame_state \<Rightarrow> frame_state" where
  "first_iteration f = (let (a, f1) = alloc_iteration f in SetIteration 0 (Some a) f1)"

end
