(* ===== verification/Samples.thy ===== *)
theory Samples
  imports Frames
begin

text \<open>
  Small concrete inputs: counts, node items and frames on which the properties that have
  hypotheses are applied.
\<close>

definition sample_counts :: counts where
  "sample_counts = \<lparr>num_bytes = 64,
     packed_at = (\<lambda>_. \<lparr>cr_pending = 0, cr_dead_count = 0, cr_has_started = False\<rparr>),
     large_at = (\<lambda>_. \<lparr>cr_pending = 0, cr_dead_count = 0, cr_has_started = False\<rparr>)\<rparr>"

definition mk_gnode ::
  "nat \<Rightarrow> string \<Rightarrow> edge list \<Rightarrow> edge list \<Rightarrow> nat list \<Rightarrow> nat list \<Rightarrow> gnode" where
  "mk_gnode i op ins outs input_ts output_ts =
     \<lparr>n_id = i, n_name = op, n_op = op, n_class = get_node_class_for_op op,
      n_in_edges = ins, n_out_edges = outs, n_input_types = input_ts,
      n_output_types = output_ts, n_attrs = [], n_allows_uninitialized_input = False\<rparr>"

text \<open>A merge with two data inputs, and a node with two inputs that is not a merge.\<close>

definition sample_merge :: node_item where
  "sample_merge = (InitializeNode (mk_gnode 7 ''Merge'' [] [] [1, 1] [1, 3]))\<lparr>is_merge := True\<rparr>"

definition sample_add :: node_item where
  "sample_add = InitializeNode (mk_gnode 8 ''Add'' [] [] [1, 1] [1])"

definition merge_counts :: counts where
  "merge_counts = set_initial_count sample_counts (pending_id sample_merge) 3"

definition add_counts :: counts where
  "add_counts = set_initial_count sample_counts (pending_id sample_add) 2"

lemma sample_items:
  "is_merge sample_merge" "num_inputs sample_merge = 2" "\<not> is_merge sample_add"
  "num_inputs sample_add = 2" "capacity (pending_id sample_merge) = 7"
  "capacity (pending_id sample_add) = 7"
  by (simp_all add: sample_merge_def sample_add_def InitializeNode_def mk_gnode_def Let_def
      n_num_inputs_def capacity_def kMaxCountForPackedCounts_def)

lemma sample_views:
  "view merge_counts (pending_id sample_merge) = (3, 0, False)"
  "view add_counts (pending_id sample_add) = (2, 0, False)"
  using view_set_initial_count [of 3 "pending_id sample_merge" sample_counts]
    view_set_initial_count [of 2 "pending_id sample_add" sample_counts]
  by (simp_all add: merge_counts_def add_counts_def sample_items)

text \<open>A frame that may run two iterations at a time.\<close>

definition sample_frame_info :: frame_info where
  "sample_frame_info = new_frame_info\<lparr>fi_pending_counts := Some sample_counts, fi_total_inputs := 2\<rparr>"

definition sample_frame :: frame_state where
  "sample_frame = first_iteration (the (new_frame_state sample_frame_info 2))"

lemma sample_frame_new:
  "\<exists>f. new_frame_state sample_frame_info 2 = Some f \<and> sample_frame = first_iteration f"
  by (simp add: sample_frame_def new_frame_state_def sample_frame_info_def)

end
