(* ===== verification/Activation.thy ===== *)
theory Activation
  imports Samples
begin

text \<open>
  What the arrival of an input does to a node: the part of
  \<open>ExecutorState::FrameState::ActivateNodes\<close> that decides readiness, related to two small
  abstract machines over plain numbers (one for merges, one for every other node) by the
  interface \<open>simulation\<close>. The theorems state when a node is started, in every order of
  arrival.
\<close>

section \<open>Arrivals\<close>

text \<open>
  An arrival at a node: on a control edge, on a data edge with a value, or on a data edge
  without one (with whether it comes from an Enter). \<open>Control_Arrival\<close> carries whether the
  source is dead, which only matters to nodes that are not merges.
\<close>

datatype arrival = Control_Arrival bool | Live_Arrival | Dead_Arrival bool

fun is_ctl :: "arrival \<Rightarrow> bool" where
  "is_ctl (Control_Arrival _) = True" | "is_ctl _ = False"

fun is_dead_data :: "arrival \<Rightarrow> bool" where
  "is_dead_data (Dead_Arrival _) = True" | "is_dead_data _ = False"

definition arrive :: "node_item \<Rightarrow> counts \<Rightarrow> arrival \<Rightarrow> counts \<times> bool \<times> bool \<times> bool" where
  "arrive ni c a =
     (let av = activate_counts ni (a = Dead_Arrival True) (a = Control_Arrival True)
                 (is_ctl a) (a = Live_Arrival) c
      in (av_counts av, av_ready av, av_dead av, av_need_input av))"

definition pend_dead :: "handle \<Rightarrow> counts \<Rightarrow> nat \<times> nat" where
  "pend_dead h c = (fst (view c h), fst (snd (view c h)))"

definition counts_wf :: "handle \<Rightarrow> counts \<Rightarrow> bool" where
  "counts_wf h c = (case view c h of (p, d, b) \<Rightarrow> \<not> b \<and> p \<le> capacity h \<and> d \<le> capacity h)"

section \<open>Merges\<close>

text \<open>
  The abstract merge: \<open>p\<close> is twice the number of control inputs still to come, plus one
  while no live data input has arrived; \<open>d\<close> counts dead data inputs.
\<close>

fun merge_step :: "nat \<Rightarrow> nat \<times> nat \<Rightarrow> arrival \<Rightarrow> (nat \<times> nat) \<times> bool \<times> bool \<times> bool" where
  "merge_step n (p, d) (Control_Arrival _) =
     ((p - 2, d), p - 2 = 0 \<or> (p - 2 = 1 \<and> d = n), d = n, False)"
| "merge_step n (p, d) Live_Arrival = ((p - p mod 2, d), p = 1, False, p mod 2 = 1)"
| "merge_step n (p, d) (Dead_Arrival enter) =
     (let d' = (if p = 0 then d else d + 1); dst_dead = (d' = n \<or> enter)
      in ((p, d'), p = 1 \<and> dst_dead, dst_dead, False))"

fun merge_ok :: "handle \<Rightarrow> nat \<times> nat \<Rightarrow> arrival \<Rightarrow> bool" where
  "merge_ok h (p, d) (Control_Arrival _) = (2 \<le> p)"
| "merge_ok h (p, d) Live_Arrival = True"
| "merge_ok h (p, d) (Dead_Arrival _) = (d < capacity h)"

lemma arrive_merge:
  assumes "is_merge ni" "counts_wf (pending_id ni) c"
    and "merge_ok (pending_id ni) (pend_dead (pending_id ni) c) a"
  shows "(pend_dead (pending_id ni) (fst (arrive ni c a)), snd (arrive ni c a))
       = merge_step (num_inputs ni) (pend_dead (pending_id ni) c) a
     \<and> counts_wf (pending_id ni) (fst (arrive ni c a))"
proof -
  let ?h = "pending_id ni"
  obtain p d b where v: "view c ?h = (p, d, b)" by (cases "view c ?h") auto
  with assms(2) have b: "\<not> b" and cap: "p \<le> capacity ?h" "d \<le> capacity ?h"
    by (auto simp: counts_wf_def)
  note v = v [unfolded eq_False [THEN iffD2, OF b]]
  note pd = pend_dead_def counts_wf_def v
  show ?thesis
  proof (cases a)
    case (Control_Arrival x)
    with assms(3) have p: "2 \<le> p" by (simp add: pd)
    note v' = view_decrement_pending(1) [OF v p, simplified]
    have "pending (fst (decrement_pending c ?h 2)) ?h = int (p - 2)"
      using view_pending [OF v'] cap by simp
    then show ?thesis using assms(1) Control_Arrival cap v' view_dead_count [OF v']
      by (auto simp: arrive_def activate_counts_def pd Let_def)
  next
    case Live_Arrival
    have "pending c ?h = int p" using view_pending [OF v cap(1)] by simp
    then show ?thesis using assms(1) Live_Arrival cap view_mark_live [OF v]
      by (auto simp: arrive_def activate_counts_def pd Let_def) presburger+
  next
    case (Dead_Arrival e)
    with assms(3) have d: "d < capacity ?h" by (simp add: pd)
    note v' = view_increment_dead_count [OF v d, simplified]
    have "pending (increment_dead_count c ?h) ?h = int p"
      using view_pending [OF v'] cap by simp
    then show ?thesis using assms(1) Dead_Arrival cap d v' view_dead_count [OF v']
      by (auto simp: arrive_def activate_counts_def pd Let_def)
  qed
qed

interpretation merge: simulation "pend_dead (pending_id ni)" "arrive ni"
    "merge_step (num_inputs ni)" "\<lambda>c. is_merge ni \<and> counts_wf (pending_id ni) c"
    "merge_ok (pending_id ni)" for ni
  by unfold_locales (auto simp: arrive_merge)

text \<open>
  \<open>merge_fires\<close> is the rule in the comment of the source: all control inputs have arrived,
  and a live data input has or all data inputs are dead.
\<close>

definition merge_fires :: "nat \<Rightarrow> nat \<Rightarrow> arrival list \<Rightarrow> bool" where
  "merge_fires n c xs = (length (filter is_ctl xs) = c
     \<and> (Live_Arrival \<in> set xs \<or> length (filter is_dead_data xs) = n))"

text \<open>
  The one exception is a dead Enter: with all control inputs there and no live input, it starts
  the merge by itself.
\<close>

definition enter_fires :: "nat \<Rightarrow> arrival list \<Rightarrow> arrival \<Rightarrow> bool" where
  "enter_fires c xs a = (a = Dead_Arrival True \<and> length (filter is_ctl xs) = c \<and> Live_Arrival \<notin> set xs)"

text \<open>The arrivals at a merge with \<open>n\<close> data and \<open>c\<close> control inputs, each at most once.\<close>

definition merge_arrivals :: "nat \<Rightarrow> nat \<Rightarrow> arrival list \<Rightarrow> bool" where
  "merge_arrivals n c xs = (length (filter is_ctl xs) \<le> c
     \<and> length (filter (\<lambda>a. \<not> is_ctl a) xs) \<le> n)"

definition merge_rel :: "nat \<Rightarrow> nat \<Rightarrow> arrival list \<Rightarrow> nat \<times> nat \<Rightarrow> bool" where
  "merge_rel n c xs s = (case s of (p, d) \<Rightarrow>
     p = 2 * (c - length (filter is_ctl xs)) + of_bool (Live_Arrival \<notin> set xs)
     \<and> d \<le> length (filter is_dead_data xs)
     \<and> (Live_Arrival \<notin> set xs \<longrightarrow> d = length (filter is_dead_data xs)))"

lemma data_arrivals:
  "length (filter (\<lambda>a. \<not> is_ctl a) xs)
     = length (filter is_dead_data xs) + length (filter (\<lambda>a. a = Live_Arrival) xs)"
proof (induction xs)
  case (Cons x xs)
  then show ?case by (cases x) auto
qed simp

lemma live_count: "length (filter (\<lambda>a. a = Live_Arrival) xs) = 0 \<longleftrightarrow> Live_Arrival \<notin> set xs"
  by (auto simp: filter_empty_conv)

lemma merge_rel_init: "merge_rel n c [] (1 + 2 * c, 0)"
  by (simp add: merge_rel_def)

text \<open>One arrival after \<open>xs\<close>: the new state, and the three decisions.\<close>

lemma merge_rel_step:
  assumes "merge_rel n c xs s" "merge_arrivals n c (xs @ [a])"
    and "merge_step n s a = (s', ready, dead, need)"
  shows "merge_rel n c (xs @ [a]) s'"
    and "ready \<longleftrightarrow> merge_fires n c (xs @ [a]) \<and> \<not> merge_fires n c xs \<or> enter_fires c xs a"
    and "ready \<Longrightarrow> dead \<longleftrightarrow> Live_Arrival \<notin> set (xs @ [a])"
    and "need \<longleftrightarrow> a = Live_Arrival \<and> Live_Arrival \<notin> set xs"
proof -
  obtain p d where s: "s = (p, d)" by (cases s)
  let ?ctl = "length (filter is_ctl xs)" and ?dd = "length (filter is_dead_data xs)"
  let ?live = "length (filter (\<lambda>a. a = Live_Arrival) xs)"
  note lc = live_count [of xs] and da = data_arrivals [of xs]
  have R: "p = 2 * (c - ?ctl) + of_bool (Live_Arrival \<notin> set xs)" "d \<le> ?dd"
    "Live_Arrival \<notin> set xs \<Longrightarrow> d = ?dd"
    using assms(1) by (auto simp: merge_rel_def s)
  have A: "?ctl \<le> c" "?dd + ?live \<le> n"
    using assms(2) da by (auto simp: merge_arrivals_def split: if_splits)
  have lv: "?dd < n" if "Live_Arrival \<in> set xs" using A(2) lc that by linarith
  have "merge_rel n c (xs @ [a]) s' \<and> (ready \<longleftrightarrow> merge_fires n c (xs @ [a]) \<and> \<not> merge_fires n c xs \<or> enter_fires c xs a)
     \<and> (ready \<longrightarrow> (dead \<longleftrightarrow> Live_Arrival \<notin> set (xs @ [a])))
     \<and> (need \<longleftrightarrow> a = Live_Arrival \<and> Live_Arrival \<notin> set xs)"
  proof (cases a)
    case (Control_Arrival x)
    then have "?ctl + 1 \<le> c" using assms(2) by (simp add: merge_arrivals_def)
    with R A lc lv show ?thesis using assms(3) Control_Arrival
      by (cases "Live_Arrival \<in> set xs")
        (auto simp: merge_rel_def merge_fires_def enter_fires_def s)
  next
    case Live_Arrival
    then have "?dd + ?live + 1 \<le> n" using assms(2) da by (simp add: merge_arrivals_def)
    with R A lc show ?thesis using assms(3) Live_Arrival
      by (cases "Live_Arrival \<in> set xs")
        (auto simp: merge_rel_def merge_fires_def enter_fires_def s)
  next
    case (Dead_Arrival e)
    then have "?dd + ?live + 1 \<le> n" using assms(2) da by (auto simp: merge_arrivals_def)
    with R A lc show ?thesis using assms(3) Dead_Arrival
      by (cases "Live_Arrival \<in> set xs"; cases "?ctl = c"; cases e)
        (auto simp: merge_rel_def merge_fires_def enter_fires_def s Let_def split: if_splits)
  qed
  then show "merge_rel n c (xs @ [a]) s'"
    "ready \<longleftrightarrow> merge_fires n c (xs @ [a]) \<and> \<not> merge_fires n c xs \<or> enter_fires c xs a"
    "ready \<Longrightarrow> dead \<longleftrightarrow> Live_Arrival \<notin> set (xs @ [a])"
    "need \<longleftrightarrow> a = Live_Arrival \<and> Live_Arrival \<notin> set xs" by auto
qed

lemma merge_arrivals_prefix: "merge_arrivals n c (xs @ ys) \<Longrightarrow> merge_arrivals n c xs"
  by (auto simp: merge_arrivals_def)

lemma merge_runs:
  assumes "merge_arrivals n c xs" "n \<le> capacity h"
  shows "run_ok (merge_step n) (merge_ok h) (1 + 2 * c, 0) xs
     \<and> merge_rel n c xs (fst (run (merge_step n) (1 + 2 * c, 0) xs))"
  using assms(1)
proof (induction xs rule: rev_induct)
  case Nil
  then show ?case by (simp add: merge_rel_init [simplified])
next
  case (snoc a xs)
  obtain p d r where s: "run (merge_step n) (1 + 2 * c, 0) xs = ((p, d), r)"
    by (metis prod.exhaust)
  note IH = snoc.IH [OF merge_arrivals_prefix [OF snoc.prems]]
  have rel: "merge_rel n c xs (p, d)" using IH s by simp
  obtain s' ready dead need where st: "merge_step n (p, d) a = (s', ready, dead, need)"
    by (metis prod.exhaust)
  have ok: "merge_ok h (p, d) a"
  proof (cases a)
    case (Control_Arrival x)
    then show ?thesis using rel snoc.prems by (auto simp: merge_rel_def merge_arrivals_def)
  next
    case (Dead_Arrival x)
    have "length (filter is_dead_data xs) + 1 \<le> n"
      using snoc.prems data_arrivals [of "xs @ [a]"] Dead_Arrival by (simp add: merge_arrivals_def)
    then show ?thesis using rel Dead_Arrival assms(2) by (auto simp: merge_rel_def)
  qed simp
  show ?case using IH ok merge_rel_step(1) [OF rel snoc.prems st] s st
    by (simp add: run_ok_append run_snoc)
qed

text \<open>The same on the counts themselves.\<close>

lemma merge_counts_run:
  assumes "is_merge ni" "num_inputs ni = n"
    and v: "view cs (pending_id ni) = (1 + 2 * c, 0, False)"
    and cap: "1 + 2 * c \<le> capacity (pending_id ni)" "n \<le> capacity (pending_id ni)"
    and xs: "merge_arrivals n c xs"
  shows "pend_dead (pending_id ni) (fst (run (arrive ni) cs xs))
      = fst (run (merge_step n) (1 + 2 * c, 0) xs)"
    and "counts_wf (pending_id ni) (fst (run (arrive ni) cs xs))"
    and "snd (run (arrive ni) cs xs) = snd (run (merge_step n) (1 + 2 * c, 0) xs)"
proof -
  let ?h = "pending_id ni"
  have i: "pend_dead ?h cs = (1 + 2 * c, 0)" and w: "is_merge ni \<and> counts_wf ?h cs"
    using assms(1) v cap by (simp_all add: pend_dead_def counts_wf_def)
  have "run_ok (merge_step (num_inputs ni)) (merge_ok ?h) (pend_dead ?h cs) xs"
    using merge_runs [OF xs cap(2)] unfolding i assms(2) by (rule conjunct1)
  note R = merge.sim_run [OF w this]
  from R show "pend_dead ?h (fst (run (arrive ni) cs xs)) = fst (run (merge_step n) (1 + 2 * c, 0) xs)"
    unfolding i assms(2) by (metis fst_conv)
  from R show "counts_wf ?h (fst (run (arrive ni) cs xs))" by simp
  from R show "snd (run (arrive ni) cs xs) = snd (run (merge_step n) (1 + 2 * c, 0) xs)"
    unfolding i assms(2) by (metis snd_conv)
qed

lemma merge_fires_mono: "merge_fires n c xs \<Longrightarrow> merge_arrivals n c (xs @ [a]) \<Longrightarrow> merge_fires n c (xs @ [a])"
  using data_arrivals [of xs] live_count [of xs]
  by (cases a) (auto simp: merge_fires_def merge_arrivals_def)

lemma merge_step_count:
  assumes "merge_arrivals n c xs" "n \<le> capacity h" "0 < n + c" "Dead_Arrival True \<notin> set xs"
  shows "length (filter fst (snd (run (merge_step n) (1 + 2 * c, 0) xs))) = of_bool (merge_fires n c xs)"
  using assms(1,4)
proof (induction xs rule: rev_induct)
  case Nil
  then show ?case using assms(3) by (auto simp: merge_fires_def)
next
  case (snoc a xs)
  note pre = merge_arrivals_prefix [OF snoc.prems(1)]
  have no_enter: "Dead_Arrival True \<notin> set xs" "\<not> enter_fires c xs a" using snoc.prems(2) by (auto simp: enter_fires_def)
  obtain s r where s: "run (merge_step n) (1 + 2 * c, 0) xs = (s, r)" by fastforce
  obtain s' ready dead need where st: "merge_step n s a = (s', ready, dead, need)"
    by (metis prod.exhaust)
  have "merge_rel n c xs s" using merge_runs [OF pre assms(2)] s by simp
  from merge_rel_step(2) [OF this snoc.prems(1) st] snoc.IH [OF pre no_enter(1)] merge_fires_mono [OF _ snoc.prems(1)] no_enter(2)
  show ?case by (auto simp: run_snoc s [simplified] st)
qed

section \<open>Nodes that are not merges\<close>

fun counts_dead :: "arrival \<Rightarrow> bool" where
  "counts_dead (Control_Arrival dead) = dead"
| "counts_dead Live_Arrival = False"
| "counts_dead (Dead_Arrival _) = True"

definition plain_step :: "nat \<times> nat \<Rightarrow> arrival \<Rightarrow> (nat \<times> nat) \<times> bool \<times> bool \<times> bool" where
  "plain_step s a = (case s of (p, d) \<Rightarrow> let d' = d + of_bool (counts_dead a)
     in ((p - 1, d'), p - 1 = 0, 0 < d', \<not> is_ctl a))"

definition plain_ok :: "handle \<Rightarrow> nat \<times> nat \<Rightarrow> arrival \<Rightarrow> bool" where
  "plain_ok h s a = (1 \<le> fst s \<and> snd s < capacity h)"

lemma arrive_plain:
  assumes "\<not> is_merge ni" "counts_wf (pending_id ni) c"
    and "plain_ok (pending_id ni) (pend_dead (pending_id ni) c) a"
  shows "(pend_dead (pending_id ni) (fst (arrive ni c a)), snd (arrive ni c a))
       = plain_step (pend_dead (pending_id ni) c) a
     \<and> counts_wf (pending_id ni) (fst (arrive ni c a))"
proof -
  let ?h = "pending_id ni"
  obtain p d b where v: "view c ?h = (p, d, b)" by (cases "view c ?h") auto
  with assms(2) have b: "\<not> b" and cap: "p \<le> capacity ?h" "d \<le> capacity ?h"
    by (auto simp: counts_wf_def)
  note v = v [unfolded eq_False [THEN iffD2, OF b]]
  note pd = pend_dead_def counts_wf_def v
  have p: "1 \<le> p" "d < capacity ?h" using assms(3) by (simp_all add: plain_ok_def pd)
  let ?inc = "a = Control_Arrival True \<or> \<not> is_ctl a \<and> a \<noteq> Live_Arrival"
  have inc: "?inc \<longleftrightarrow> counts_dead a" by (cases a) auto
  note A = view_adjust_for_activation [OF v p(1) cap(1) p(2), of ?inc]
  obtain c' where c': "adjust_for_activation c ?h ?inc
      = (c', int (p - 1), int (if ?inc then Suc d else d))"
    using A(2) by (metis prod.collapse)
  then have "view c' ?h = (p - 1, if ?inc then Suc d else d, False)" using A(1) by simp
  then show ?thesis using assms(1) cap p c' unfolding arrive_def activate_counts_def plain_step_def
    by (simp add: pd Let_def inc split: if_splits)
qed

interpretation plain: simulation "pend_dead (pending_id ni)" "arrive ni" plain_step
    "\<lambda>c. \<not> is_merge ni \<and> counts_wf (pending_id ni) c" "plain_ok (pending_id ni)" for ni
  by unfold_locales (auto simp: arrive_plain)

lemma plain_runs:
  assumes "length xs \<le> n" "n \<le> capacity h"
  shows "run_ok plain_step (plain_ok h) (n, 0) xs
    \<and> fst (run plain_step (n, 0) xs) = (n - length xs, length (filter counts_dead xs))"
  using assms(1)
proof (induction xs rule: rev_induct)
  case Nil
  then show ?case by simp
next
  case (snoc a xs)
  have "Suc (length xs) \<le> n" using snoc.prems by simp
  then have "length (filter counts_dead xs) < capacity h"
    using length_filter_le [of counts_dead xs] assms(2) by linarith
  with snoc show ?case
    by (auto simp: run_ok_append run_snoc plain_step_def plain_ok_def Let_def split_beta)
qed

section \<open>When a node is started\<close>

text \<open>
  C13: a merge becomes ready at an arrival in exactly two cases, after any sequence of arrivals
  that has no more control or data arrivals than the merge has inputs, when its counts are within
  the capacity of its handle: the arrival completes the
  rule of \<open>merge_fires\<close>, or it is a data input without a value from a dead Enter, all control
  inputs have come before it and no live input has. A dead Enter that comes before the last
  control input counts like any other dead input, so that here the order matters. A merge made
  ready is dead exactly when no live input has arrived, and the one input it keeps is its
  first live one.
\<close>

theorem merge_ready_rule:
  assumes "is_merge ni" "num_inputs ni = n"
    and "view cs (pending_id ni) = (1 + 2 * c, 0, False)"
    and "1 + 2 * c \<le> capacity (pending_id ni)" "n \<le> capacity (pending_id ni)"
    and "merge_arrivals n c (xs @ [a])"
    and "arrive ni (fst (run (arrive ni) cs xs)) a = (cs', ready, dead, need)"
  shows "(ready \<longleftrightarrow> merge_fires n c (xs @ [a]) \<and> \<not> merge_fires n c xs \<or> enter_fires c xs a)
    \<and> (ready \<longrightarrow> (dead \<longleftrightarrow> Live_Arrival \<notin> set (xs @ [a])))
    \<and> (need \<longleftrightarrow> a = Live_Arrival \<and> Live_Arrival \<notin> set xs)"
proof -
  let ?h = "pending_id ni" and ?cs = "fst (run (arrive ni) cs xs)"
  note pre = merge_arrivals_prefix [OF assms(6)]
  note R = merge_counts_run [OF assms(1-5) pre]
  note rel = conjunct2 [OF merge_runs [OF pre assms(5)], folded R(1)]
  have "merge_ok ?h (pend_dead ?h ?cs) a"
    using merge_runs [OF assms(6,5)] by (simp add: run_ok_append R(1))
  then have "merge_step n (pend_dead ?h ?cs) a = (pend_dead ?h cs', ready, dead, need)"
    using merge.sim_step [of ni ?cs a] R(2) assms(1,2,7) by simp
  from merge_rel_step(2-4) [OF rel assms(6) this] show ?thesis by blast
qed

theorem merge_ready_rule_witness:
  "fst (snd (arrive sample_merge (fst (run (arrive sample_merge) merge_counts [Control_Arrival False])) Live_Arrival))"
proof -
  obtain c r d n where a: "arrive sample_merge
      (fst (run (arrive sample_merge) merge_counts [Control_Arrival False])) Live_Arrival = (c, r, d, n)"
    by (metis prod.exhaust)
  have "merge_arrivals 2 1 ([Control_Arrival False] @ [Live_Arrival])" by (simp add: merge_arrivals_def)
  then have "r \<longleftrightarrow> merge_fires 2 1 ([Control_Arrival False] @ [Live_Arrival])
      \<and> \<not> merge_fires 2 1 [Control_Arrival False]"
    using merge_ready_rule [of sample_merge 2 merge_counts 1 "[Control_Arrival False]" Live_Arrival] a
    by (simp add: sample_items sample_views enter_fires_def)
  then show ?thesis unfolding a by (simp add: merge_fires_def)
qed

text \<open>
  Over a whole run without a dead Enter a merge with at least one input becomes ready once if
  the rule is met at the end, and never otherwise.
\<close>

theorem merge_starts_once:
  assumes "is_merge ni" "num_inputs ni = n"
    and "view cs (pending_id ni) = (1 + 2 * c, 0, False)"
    and "1 + 2 * c \<le> capacity (pending_id ni)" "n \<le> capacity (pending_id ni)"
    and "merge_arrivals n c xs" "0 < n + c" "Dead_Arrival True \<notin> set xs"
  shows "length (filter fst (snd (run (arrive ni) cs xs))) = of_bool (merge_fires n c xs)"
proof -
  have "length (filter fst (snd (run (merge_step n) (1 + 2 * c, 0) xs))) = of_bool (merge_fires n c xs)"
    by (rule merge_step_count [OF assms(6,5,7,8)])
  then show ?thesis using merge_counts_run(3) [OF assms(1-6)] by simp
qed

theorem merge_starts_once_witness:
  "length (filter fst (snd (run (arrive sample_merge) merge_counts
     [Dead_Arrival False, Control_Arrival False, Dead_Arrival False]))) = 1"
  using merge_starts_once [of sample_merge 2 merge_counts 1
      "[Dead_Arrival False, Control_Arrival False, Dead_Arrival False]"]
  by (simp add: sample_items sample_views merge_arrivals_def merge_fires_def)

text \<open>
  Any other node becomes ready at its last arrival and at no other, and is then dead
  exactly when one of its inputs was.
\<close>

theorem plain_ready_rule:
  assumes "\<not> is_merge ni" "view cs (pending_id ni) = (n, 0, False)"
    and "n \<le> capacity (pending_id ni)" "length (xs @ [a]) \<le> n"
    and "arrive ni (fst (run (arrive ni) cs xs)) a = (cs', ready, dead, need)"
  shows "(ready \<longleftrightarrow> length (xs @ [a]) = n) \<and> (dead \<longleftrightarrow> (\<exists>x\<in>set (xs @ [a]). counts_dead x))
    \<and> (need \<longleftrightarrow> \<not> is_ctl a)"
proof -
  let ?h = "pending_id ni" and ?cs = "fst (run (arrive ni) cs xs)"
  have i: "pend_dead ?h cs = (n, 0)" and w: "\<not> is_merge ni \<and> counts_wf ?h cs"
    using assms(1-3) by (simp_all add: pend_dead_def counts_wf_def)
  have le: "length xs \<le> n" using assms(4) by simp
  note P = plain_runs [OF assms(4,3)] and Q = plain_runs [OF le assms(3)]
  have "run_ok plain_step (plain_ok ?h) (pend_dead ?h cs) xs" unfolding i by (rule conjunct1 [OF Q])
  note R = plain.sim_run [OF w this]
  then have pd: "pend_dead ?h ?cs = (n - length xs, length (filter counts_dead xs))"
    using conjunct2 [OF Q] unfolding i by (metis fst_conv)
  have "plain_ok ?h (pend_dead ?h ?cs) a" using P by (simp add: run_ok_append pd conjunct2 [OF Q])
  then have "plain_step (pend_dead ?h ?cs) a = (pend_dead ?h cs', ready, dead, need)"
    using plain.sim_step [of ni ?cs a] R assms(1,5) by simp
  then show ?thesis using assms(4)
    by (auto simp: pd plain_step_def Let_def filter_empty_conv split: if_splits)
qed

theorem plain_ready_rule_witness:
  "fst (snd (arrive sample_add (fst (run (arrive sample_add) add_counts [Live_Arrival])) Live_Arrival))"
proof -
  obtain c r d n where a: "arrive sample_add
      (fst (run (arrive sample_add) add_counts [Live_Arrival])) Live_Arrival = (c, r, d, n)"
    by (metis prod.exhaust)
  then show ?thesis
    using plain_ready_rule [of sample_add add_counts 2 "[Live_Arrival]" Live_Arrival]
    by (simp add: sample_items sample_views)
qed

text \<open>
  A dead Enter makes a merge dead only if it comes after the control inputs. The same
  two arrivals at a merge with a control input and at least two data inputs start it in one
  order and never in the other.
\<close>

theorem dead_enter_order_matters:
  assumes "is_merge ni" "2 \<le> num_inputs ni" "view cs (pending_id ni) = (3, 0, False)"
  shows "map fst (snd (run (arrive ni) cs [Control_Arrival b, Dead_Arrival True])) = [False, True]
    \<and> map fst (snd (run (arrive ni) cs [Dead_Arrival True, Control_Arrival b])) = [False, False]"
proof -
  let ?h = "pending_id ni"
  have cap: "7 \<le> capacity ?h" by (simp add: capacity_def kMaxCountForPackedCounts_def)
  then have i: "pend_dead ?h cs = (3, 0)" and w: "is_merge ni \<and> counts_wf ?h cs"
    using assms by (simp_all add: pend_dead_def counts_wf_def)
  have "run_ok (merge_step (num_inputs ni)) (merge_ok ?h) (3, 0) [Control_Arrival b, Dead_Arrival True]"
    "run_ok (merge_step (num_inputs ni)) (merge_ok ?h) (3, 0) [Dead_Arrival True, Control_Arrival b]"
    using cap by (auto simp: Let_def)
  note R = this [folded i, THEN merge.sim_run [OF w], THEN conjunct1, THEN arg_cong [where f = snd],
      unfolded snd_conv i]
  show ?thesis unfolding R using assms(2) by (auto simp: Let_def)
qed

theorem dead_enter_order_matters_witness:
  "map fst (snd (run (arrive sample_merge) merge_counts [Dead_Arrival True, Control_Arrival False]))
     = [False, False]"
  using dead_enter_order_matters [of sample_merge merge_counts False]
  by (simp add: sample_items sample_views)

end
