(* ===== verification/Frame_Props.thy ===== *)
theory Frame_Props
  imports Samples
begin

text \<open>
  The ring of iterations of a frame: its invariant, that every operation keeps it and never
  follows a null or dangling pointer, and what \<open>CleanupIterations\<close> leaves behind.
\<close>

section \<open>The invariant\<close>

text \<open>The live iterations are the last \<open>num_outstanding_iterations\<close> up to the count.\<close>

definition oldest :: "frame_state \<Rightarrow> nat" where
  "oldest f = nat (int (fs_iteration_count f) + 1 - fs_num_outstanding_iterations f)"

definition window :: "frame_state \<Rightarrow> nat set" where
  "window f = {oldest f .. fs_iteration_count f}"

definition heap_ok :: "frame_state \<Rightarrow> bool" where
  "heap_ok f = ((\<forall>a. fs_heap f a \<noteq> None \<longrightarrow> a < fs_next_addr f)
     \<and> (\<forall>j<length (fs_iterations f). \<forall>a. fs_iterations f ! j = Some a \<longrightarrow> fs_heap f a \<noteq> None)
     \<and> (\<forall>j<length (fs_iterations f). \<forall>k<length (fs_iterations f). \<forall>a.
          fs_iterations f ! j = Some a \<and> fs_iterations f ! k = Some a \<longrightarrow> j = k)
     \<and> (\<forall>a. fs_heap f a \<noteq> None \<longrightarrow> Some a \<in> set (fs_iterations f))
     \<and> (\<forall>a s. fs_heap f a = Some s \<longrightarrow> length (is_input_tensors s) = fs_total_input_tensors f))"

definition frame_ring :: "frame_state \<Rightarrow> bool" where
  "frame_ring f = (
       length (fs_iterations f) = fs_max_parallel_iterations f + 1
     \<and> 0 \<le> fs_num_outstanding_iterations f
     \<and> fs_num_outstanding_iterations f \<le> int (fs_max_parallel_iterations f)
     \<and> fs_num_outstanding_iterations f \<le> int (fs_iteration_count f) + 1
     \<and> fs_iterations_first f = fs_iterations f ! 0
     \<and> (\<forall>j<length (fs_iterations f).
          fs_iterations f ! j \<noteq> None \<longleftrightarrow> (\<exists>i\<in>window f. ring_index f i = j))
     \<and> heap_ok f)"

lemma heap_okD:
  assumes "heap_ok f"
  shows "fs_heap f a \<noteq> None \<Longrightarrow> a < fs_next_addr f"
    "j < length (fs_iterations f) \<Longrightarrow> fs_iterations f ! j = Some a \<Longrightarrow> fs_heap f a \<noteq> None"
    "j < length (fs_iterations f) \<Longrightarrow> k < length (fs_iterations f) \<Longrightarrow> fs_iterations f ! j = Some a
      \<Longrightarrow> fs_iterations f ! k = Some a \<Longrightarrow> j = k"
    "fs_heap f a \<noteq> None \<Longrightarrow> Some a \<in> set (fs_iterations f)"
    "fs_heap f a = Some s \<Longrightarrow> length (is_input_tensors s) = fs_total_input_tensors f"
  using assms unfolding heap_ok_def by blast+

text \<open>
  NextIteration roots are only kept back while the frame has as many iterations as it may,
  and iteration 0 lives until all inputs of the frame have entered.
\<close>

definition frame_wf :: "frame_state \<Rightarrow> bool" where
  "frame_wf f = (frame_ring f \<and> (fs_next_iter_roots f \<noteq> [] \<longrightarrow>
      fs_num_outstanding_iterations f = int (fs_max_parallel_iterations f))
     \<and> (fs_num_pending_inputs f \<noteq> 0 \<longrightarrow> oldest f = 0))"

lemma ring_index_less: "frame_ring f \<Longrightarrow> ring_index f i < length (fs_iterations f)"
  by (simp add: frame_ring_def ring_index_def)

lemma window_card: "frame_ring f \<Longrightarrow> card (window f) = nat (fs_num_outstanding_iterations f)"
  by (auto simp: window_def oldest_def frame_ring_def)

lemma window_size:
  "frame_ring f \<Longrightarrow> fs_iteration_count f + 1 \<le> oldest f + fs_max_parallel_iterations f"
  by (auto simp: oldest_def frame_ring_def)

lemma mod_inj_window:
  fixes i j :: nat
  assumes "i mod (P + 1) = j mod (P + 1)" "i \<le> j" "j \<le> i + P"
  shows "i = j"
proof -
  have "(j - i) mod (P + 1) = 0" using assms(1,2) by (metis mod_eq_dvd_iff_nat dvd_imp_mod_0)
  moreover have "j - i < P + 1" using assms(3) by linarith
  ultimately show ?thesis using assms(2) by simp
qed

text \<open>
  With one more slot than live iterations, the slot just before the oldest is free: this is
  what makes \<open>GetIteration(iter - 1) == nullptr\<close> a test for being the oldest.
\<close>

lemma slot_live_iff:
  assumes "frame_ring f" "oldest f \<le> i + 1" "i \<le> fs_iteration_count f"
  shows "fs_iterations f ! ring_index f i \<noteq> None \<longleftrightarrow> i \<in> window f"
proof -
  let ?P = "fs_max_parallel_iterations f"
  have len: "length (fs_iterations f) = ?P + 1" using assms(1) by (simp add: frame_ring_def)
  have iff: "fs_iterations f ! ring_index f i \<noteq> None
      \<longleftrightarrow> (\<exists>k\<in>window f. ring_index f k = ring_index f i)"
    using assms(1) ring_index_less [OF assms(1), of i] by (simp add: frame_ring_def)
  have w: "fs_iteration_count f + 1 \<le> oldest f + ?P" using assms(1) by (rule window_size)
  have "k = i" if k: "k \<in> window f" "ring_index f k = ring_index f i" for k
  proof (cases "i \<le> k")
    case True
    then show ?thesis using k w assms(2,3) mod_inj_window [of i ?P k]
      by (auto simp: window_def ring_index_def)
  next
    case False
    then show ?thesis using k w assms(2,3) mod_inj_window [of k ?P i]
      by (auto simp: window_def ring_index_def)
  qed
  then show ?thesis using iff by auto
qed

lemma get_iteration_eq:
  assumes "frame_ring f"
  shows "GetIteration f i = fs_iterations f ! ring_index f i"
  using assms by (auto simp: GetIteration_def frame_ring_def ring_index_def)

lemma get_iteration_live:
  assumes "frame_ring f" "oldest f \<le> i + 1" "i \<le> fs_iteration_count f"
  shows "GetIteration f i \<noteq> None \<longleftrightarrow> i \<in> window f"
  using slot_live_iff [OF assms] get_iteration_eq [OF assms(1)] by simp

lemma iter_state_live:
  assumes "frame_ring f" "i \<in> window f"
  obtains a s where "GetIteration f i = Some a" "fs_heap f a = Some s" "iter_state f i = Some s"
    "length (is_input_tensors s) = fs_total_input_tensors f"
proof -
  from assms have "GetIteration f i \<noteq> None"
    using get_iteration_live [of f i] by (auto simp: window_def)
  then obtain a where a: "GetIteration f i = Some a" by auto
  moreover from a have "fs_iterations f ! ring_index f i = Some a"
    using get_iteration_eq [OF assms(1)] by simp
  then have "fs_heap f a \<noteq> None"
    using assms(1) ring_index_less [OF assms(1), of i] by (auto simp: frame_ring_def heap_ok_def)
  then obtain s where "fs_heap f a = Some s" by auto
  moreover from this have "length (is_input_tensors s) = fs_total_input_tensors f"
    using assms(1) by (auto simp: frame_ring_def heap_ok_def)
  ultimately show thesis using that by (simp add: iter_state_def)
qed

lemma get_iteration_inj:
  assumes "frame_ring f" "i \<in> window f" "j \<in> window f" "GetIteration f i = GetIteration f j"
  shows "i = j"
proof -
  let ?P = "fs_max_parallel_iterations f"
  obtain a where a: "GetIteration f i = Some a" using iter_state_live [OF assms(1,2)] by metis
  then have "fs_iterations f ! ring_index f i = Some a" "fs_iterations f ! ring_index f j = Some a"
    using assms(4) by (simp_all add: get_iteration_eq [OF assms(1)])
  then have "ring_index f i = ring_index f j"
    using assms(1) ring_index_less [OF assms(1)] by (simp add: frame_ring_def heap_ok_def)
  moreover have "fs_iteration_count f + 1 \<le> oldest f + ?P" using assms(1) by (rule window_size)
  ultimately show ?thesis
    using mod_inj_window [of i ?P j] mod_inj_window [of j ?P i] assms(2,3)
    by (cases "i \<le> j") (auto simp: window_def ring_index_def)
qed

section \<open>Activation keeps the ring\<close>

text \<open>
  What the graph and the outputs of a node must satisfy for its activation to stay inside
  the vectors it indexes.
\<close>

definition edge_fits :: "(nat \<Rightarrow> node_item option) \<Rightarrow> nat \<Rightarrow> nat \<Rightarrow> edge_info \<Rightarrow> bool" where
  "edge_fits gview tot nout e = (case gview (dst_id e) of
       None \<Rightarrow> False
     | Some d \<Rightarrow> is_sink d \<or> output_slot e = kControlSlot
         \<or> (0 \<le> output_slot e \<and> nat (output_slot e) < nout
            \<and> 0 \<le> int (input_start d) + input_slot e
            \<and> nat (int (input_start d) + input_slot e) < tot))"

definition edges_fit :: "(nat \<Rightarrow> node_item option) \<Rightarrow> nat \<Rightarrow> nat \<Rightarrow> nat \<Rightarrow> bool" where
  "edges_fit gview tot nout item = (case gview item of
       None \<Rightarrow> False | Some ni \<Rightarrow> (\<forall>e\<in>set (output_edges ni). edge_fits gview tot nout e))"

lemma av_need_input_control [simp]:
  "\<not> av_need_input (activate_counts d en dead True hv c)"
  by (auto simp: activate_counts_def Let_def split: prod.splits)

text \<open>What one edge changes: the counts, one input, and one outstanding op if it starts a node.\<close>

lemma activate_edge_spec:
  assumes "activate_edge gview this iter en dead (s, outs, ready) e = Some (s', outs', ready')"
  shows "length (is_input_tensors s') = length (is_input_tensors s) \<and> length outs' = length outs
    \<and> is_outstanding_frame_count s' = is_outstanding_frame_count s
    \<and> (\<exists>new. ready' = ready @ new \<and> (\<forall>t\<in>set new. tn_frame t = this \<and> tn_iter t = iter)
         \<and> is_outstanding_ops s' = is_outstanding_ops s + int (length new))"
  using assms
  by (auto simp: activate_edge_def Let_def split: option.splits if_splits prod.splits)

lemma activate_edge_total:
  assumes "edge_fits gview (length (is_input_tensors s)) (length outs) e"
  shows "\<exists>r. activate_edge gview this iter en dead (s, outs, ready) e = Some r"
proof -
  from assms obtain d where d: "gview (dst_id e) = Some d"
    by (auto simp: edge_fits_def split: option.splits)
  show ?thesis
  proof (cases "is_sink d \<or> output_slot e = kControlSlot")
    case True
    then show ?thesis using d
      by (auto simp: activate_edge_def Let_def split: prod.splits)
  next
    case False
    with assms d have "0 \<le> output_slot e" "nat (output_slot e) < length outs"
      "0 \<le> int (input_start d) + input_slot e"
      "nat (int (input_start d) + input_slot e) < length (is_input_tensors s)"
      by (auto simp: edge_fits_def)
    then show ?thesis using d False
      by (auto simp: activate_edge_def Let_def entry_at_def split: prod.splits)
  qed
qed

definition istate_next :: "nat \<Rightarrow> nat \<Rightarrow> iteration_state \<times> entry list \<times> tagged_node list
    \<Rightarrow> iteration_state \<times> entry list \<times> tagged_node list \<Rightarrow> bool" where
  "istate_next this iter x y = (case x of (s, outs, ready) \<Rightarrow> case y of (s', outs', ready') \<Rightarrow>
     length (is_input_tensors s') = length (is_input_tensors s) \<and> length outs' = length outs
    \<and> is_outstanding_frame_count s' = is_outstanding_frame_count s
    \<and> (\<exists>new. ready' = ready @ new \<and> (\<forall>t\<in>set new. tn_frame t = this \<and> tn_iter t = iter)
         \<and> is_outstanding_ops s' = is_outstanding_ops s + int (length new)))"

lemma istate_next_refl: "istate_next this iter x x"
  by (auto simp: istate_next_def split: prod.splits)

lemma istate_next_trans:
  assumes "istate_next this iter x y" "istate_next this iter y z"
  shows "istate_next this iter x z"
proof -
  obtain s o1 r s' o' r' s'' o'' r'' where
    xyz: "x = (s, o1, r)" "y = (s', o', r')" "z = (s'', o'', r'')"
    by (metis prod.exhaust)
  from assms(1) obtain n1 where "r' = r @ n1" "\<forall>t\<in>set n1. tn_frame t = this \<and> tn_iter t = iter"
    "is_outstanding_ops s' = is_outstanding_ops s + int (length n1)"
    by (auto simp: istate_next_def xyz)
  moreover from assms(2) obtain n2 where "r'' = r' @ n2"
    "\<forall>t\<in>set n2. tn_frame t = this \<and> tn_iter t = iter"
    "is_outstanding_ops s'' = is_outstanding_ops s' + int (length n2)"
    by (auto simp: istate_next_def xyz)
  ultimately show ?thesis using assms by (auto simp: istate_next_def xyz intro!: exI [of _ "n1 @ n2"])
qed

lemma activate_edges_spec:
  assumes "foldM (activate_edge gview this iter en dead) x es = Some y"
  shows "istate_next this iter x y"
  using assms
proof (rule foldM_inv [where P = "istate_next this iter x"])
  show "istate_next this iter x x" by (rule istate_next_refl)
  fix z e z'
  assume "istate_next this iter x z" "activate_edge gview this iter en dead z e = Some z'"
  moreover obtain s o1 r where "z = (s, o1, r)" by (metis prod.exhaust)
  ultimately show "istate_next this iter x z'"
    using activate_edge_spec [of gview this iter en dead s o1 r e]
    by (intro istate_next_trans [of this iter x z z']) (auto simp: istate_next_def split: prod.splits)
qed

lemma activate_edges_total:
  assumes "\<forall>e\<in>set es. edge_fits gview (length (is_input_tensors s)) (length outs) e"
  shows "\<exists>y. foldM (activate_edge gview this iter en dead) (s, outs, ready) es = Some y"
proof -
  let ?P = "istate_next this iter (s, outs, ready)"
  have "\<exists>y. foldM (activate_edge gview this iter en dead) (s, outs, ready) es = Some y \<and> ?P y"
  proof (rule foldM_total)
    show "?P (s, outs, ready)" by (rule istate_next_refl)
    fix z e assume e: "e \<in> set es" and P: "?P z"
    obtain s' o' r' where z: "z = (s', o', r')" by (metis prod.exhaust)
    from P z assms e have "edge_fits gview (length (is_input_tensors s')) (length o') e"
      by (auto simp: istate_next_def)
    from activate_edge_total [OF this] obtain z' where
      z': "activate_edge gview this iter en dead z e = Some z'" unfolding z by blast
    then have "foldM (activate_edge gview this iter en dead) z [e] = Some z'" by simp
    then have "?P z'" using P activate_edges_spec istate_next_trans by metis
    with z' show "\<exists>z'. activate_edge gview this iter en dead z e = Some z' \<and> ?P z'" by blast
  qed
  then show ?thesis by blast
qed

definition iter_ops :: "frame_state \<Rightarrow> nat \<Rightarrow> int" where
  "iter_ops f i = (case iter_state f i of None \<Rightarrow> 0 | Some s \<Rightarrow> is_outstanding_ops s)"

definition iter_frames :: "frame_state \<Rightarrow> nat \<Rightarrow> int" where
  "iter_frames f i = (case iter_state f i of None \<Rightarrow> 0 | Some s \<Rightarrow> is_outstanding_frame_count s)"

text \<open>
  What an activation may do to a frame and to the ready sequence: only the states of its
  live iterations change, and each iteration counts exactly the nodes made ready in it.
\<close>

definition frame_next :: "nat \<Rightarrow> frame_state \<times> tagged_node list \<Rightarrow> frame_state \<times> tagged_node list \<Rightarrow> bool" where
  "frame_next this x y = (case x of (f, ready) \<Rightarrow> case y of (f', ready') \<Rightarrow>
     f' = f\<lparr>fs_heap := fs_heap f'\<rparr> \<and> dom (fs_heap f') = dom (fs_heap f)
     \<and> (\<forall>a s s'. fs_heap f a = Some s \<and> fs_heap f' a = Some s'
          \<longrightarrow> length (is_input_tensors s') = length (is_input_tensors s))
     \<and> (\<forall>i\<in>window f. iter_frames f' i = iter_frames f i)
     \<and> (\<exists>new. ready' = ready @ new
         \<and> (\<forall>t\<in>set new. tn_frame t = this \<and> tn_iter t \<in> window f)
         \<and> (\<forall>i\<in>window f. iter_ops f' i
              = iter_ops f i + int (length (filter (\<lambda>t. tn_iter t = i) new)))))"

lemma frame_nextD:
  assumes "frame_next this (f, ready) (f', ready')"
  shows "f' = f\<lparr>fs_heap := fs_heap f'\<rparr>" "dom (fs_heap f') = dom (fs_heap f)"
    "fs_heap f a = Some s \<Longrightarrow> fs_heap f' a = Some s'
       \<Longrightarrow> length (is_input_tensors s') = length (is_input_tensors s)"
    "i \<in> window f \<Longrightarrow> iter_frames f' i = iter_frames f i"
    "\<exists>new. ready' = ready @ new \<and> (\<forall>t\<in>set new. tn_frame t = this \<and> tn_iter t \<in> window f)
       \<and> (\<forall>i\<in>window f. iter_ops f' i = iter_ops f i + int (length (filter (\<lambda>t. tn_iter t = i) new)))"
  using assms unfolding frame_next_def prod.case by blast+

lemma frame_next_refl: "frame_next this x x"
  by (auto simp: frame_next_def split: prod.splits)

lemma same_window: "f' = f\<lparr>fs_heap := h\<rparr> \<Longrightarrow> window f' = window f"
  by (simp add: window_def oldest_def)

lemma frame_next_same:
  assumes "frame_next this (f, ready) (f', ready')"
  shows "window f' = window f" "oldest f' = oldest f"
    "fs_iteration_count f' = fs_iteration_count f"
    "fs_num_outstanding_iterations f' = fs_num_outstanding_iterations f"
    "fs_max_parallel_iterations f' = fs_max_parallel_iterations f"
    "fs_next_iter_roots f' = fs_next_iter_roots f" "fs_inv_values f' = fs_inv_values f"
    "fs_total_input_tensors f' = fs_total_input_tensors f"
    "fs_num_pending_inputs f' = fs_num_pending_inputs f" "fs_dead_exits f' = fs_dead_exits f"
    "GetIteration f' i = GetIteration f i"
proof -
  from assms have f': "f' = f\<lparr>fs_heap := fs_heap f'\<rparr>" by (simp add: frame_next_def)
  show "window f' = window f" "oldest f' = oldest f"
    "fs_iteration_count f' = fs_iteration_count f"
    "fs_num_outstanding_iterations f' = fs_num_outstanding_iterations f"
    "fs_max_parallel_iterations f' = fs_max_parallel_iterations f"
    "fs_next_iter_roots f' = fs_next_iter_roots f" "fs_inv_values f' = fs_inv_values f"
    "fs_total_input_tensors f' = fs_total_input_tensors f"
    "fs_num_pending_inputs f' = fs_num_pending_inputs f" "fs_dead_exits f' = fs_dead_exits f"
    "GetIteration f' i = GetIteration f i"
    by (subst f', simp add: window_def oldest_def GetIteration_def ring_index_def)+
qed

lemma heap_upd_ring:
  assumes "frame_ring f" "dom h = dom (fs_heap f)"
    and l: "\<And>a s s'. fs_heap f a = Some s \<Longrightarrow> h a = Some s'
        \<Longrightarrow> length (is_input_tensors s') = length (is_input_tensors s)"
  shows "frame_ring (f\<lparr>fs_heap := h\<rparr>)"
proof -
  have eq: "h a = None \<longleftrightarrow> fs_heap f a = None" for a using assms(2) by (metis domIff)
  have len: "length (is_input_tensors s) = fs_total_input_tensors f" if "h a = Some s" for a s
  proof -
    from that eq [of a] obtain s0 where "fs_heap f a = Some s0" by auto
    with l [OF this that] assms(1) show ?thesis by (simp add: frame_ring_def heap_ok_def)
  qed
  have "heap_ok f" using assms(1) by (simp add: frame_ring_def)
  then have "heap_ok (f\<lparr>fs_heap := h\<rparr>)" using len by (simp add: heap_ok_def eq)
  moreover have "window (f\<lparr>fs_heap := h\<rparr>) = window f" by (simp add: window_def oldest_def)
  ultimately show ?thesis using assms(1) by (simp add: frame_ring_def ring_index_def)
qed

lemma frame_next_ring:
  assumes "frame_next this (f, ready) (f', ready')" "frame_ring f"
  shows "frame_ring f'"
proof -
  have "frame_ring (f\<lparr>fs_heap := fs_heap f'\<rparr>)"
    by (rule heap_upd_ring [OF assms(2)]) (use frame_nextD(2,3) [OF assms(1)] in blast)+
  then show ?thesis using frame_nextD(1) [OF assms(1)] by argo
qed

lemma heap_upd_trans:
  "f' = f\<lparr>fs_heap := h\<rparr> \<Longrightarrow> f'' = f'\<lparr>fs_heap := k\<rparr> \<Longrightarrow> f'' = f\<lparr>fs_heap := k\<rparr>"
  by simp

lemma frame_next_trans:
  assumes "frame_next this (f, r) (f', r')" "frame_next this (f', r') (f'', r'')"
  shows "frame_next this (f, r) (f'', r'')"
proof -
  note same = frame_next_same [OF assms(1)]
  from assms(1) obtain n1 where n1: "r' = r @ n1" "\<forall>t\<in>set n1. tn_frame t = this \<and> tn_iter t \<in> window f"
    "\<forall>i\<in>window f. iter_ops f' i = iter_ops f i + int (length (filter (\<lambda>t. tn_iter t = i) n1))"
    using frame_nextD(5) by blast
  from assms(2) obtain n2 where n2: "r'' = r' @ n2" "\<forall>t\<in>set n2. tn_frame t = this \<and> tn_iter t \<in> window f"
    "\<forall>i\<in>window f. iter_ops f'' i = iter_ops f' i + int (length (filter (\<lambda>t. tn_iter t = i) n2))"
    using frame_nextD(5) same(1) by metis
  have A: "f'' = f\<lparr>fs_heap := fs_heap f''\<rparr>"
  proof -
    have "f' = f\<lparr>fs_heap := fs_heap f'\<rparr>" "f'' = f'\<lparr>fs_heap := fs_heap f''\<rparr>"
      using frame_nextD(1) assms by blast+
    then show ?thesis by (rule heap_upd_trans)
  qed
  have B: "dom (fs_heap f'') = dom (fs_heap f)"
    using frame_nextD(2) assms by metis
  have D: "\<forall>i\<in>window f. iter_frames f'' i = iter_frames f i"
    using frame_nextD(4) [OF assms(1)] frame_nextD(4) [OF assms(2)] by (simp add: same)
  have C: "length (is_input_tensors s'') = length (is_input_tensors s)"
    if "fs_heap f a = Some s" "fs_heap f'' a = Some s''" for a s s''
  proof -
    have "a \<in> dom (fs_heap f')" unfolding frame_nextD(2) [OF assms(1)] using that(1) by (rule domI)
    then obtain s' where "fs_heap f' a = Some s'" by blast
    then show ?thesis using frame_nextD(3) [OF assms(1) that(1)] frame_nextD(3) [OF assms(2) _ that(2)]
      by simp
  qed
  have E: "\<exists>new. r'' = r @ new \<and> (\<forall>t\<in>set new. tn_frame t = this \<and> tn_iter t \<in> window f)
     \<and> (\<forall>i\<in>window f. iter_ops f'' i = iter_ops f i + int (length (filter (\<lambda>t. tn_iter t = i) new)))"
    using n1 n2 by (intro exI [of _ "n1 @ n2"]) auto
  show ?thesis unfolding frame_next_def prod.case using A B C D E by blast
qed

lemma put_iter_state_next:
  assumes "frame_ring f" "iter \<in> window f" "iter_state f iter = Some s"
    and "length (is_input_tensors s') = length (is_input_tensors s)"
    and "is_outstanding_frame_count s' = is_outstanding_frame_count s"
    and "\<forall>t\<in>set new. tn_frame t = this \<and> tn_iter t = iter"
    and "is_outstanding_ops s' = is_outstanding_ops s + int (length new)"
  shows "frame_next this (f, ready) (put_iter_state iter s' f, ready @ new)"
proof -
  obtain a where a: "GetIteration f iter = Some a" "fs_heap f a = Some s"
    using iter_state_live [OF assms(1,2)] assms(3) by metis
  let ?f = "f\<lparr>fs_heap := (fs_heap f)(a \<mapsto> s')\<rparr>"
  have f: "put_iter_state iter s' f = ?f" using a by (simp add: put_iter_state_def)
  have gi: "GetIteration ?f i = GetIteration f i" for i
    by (simp add: GetIteration_def ring_index_def)
  have same: "iter_state ?f iter = Some s'" using a gi by (simp add: iter_state_def)
  have other: "iter_state ?f i = iter_state f i" if "i \<in> window f" "i \<noteq> iter" for i
  proof -
    have "GetIteration f i \<noteq> Some a"
      using get_iteration_inj [OF assms(1) that(1) assms(2)] that(2) a(1) by auto
    then show ?thesis by (auto simp: iter_state_def gi split: option.splits)
  qed
  have none: "filter (\<lambda>t. tn_iter t = i) new = (if i = iter then new else [])" for i
    using assms(6) by (auto simp: filter_id_conv filter_empty_conv)
  have ops: "iter_ops ?f i = iter_ops f i + int (length (filter (\<lambda>t. tn_iter t = i) new))"
    if "i \<in> window f" for i
    using that same other [of i] assms(3,7) by (cases "i = iter") (auto simp: iter_ops_def none)
  have fr: "iter_frames ?f i = iter_frames f i" if "i \<in> window f" for i
    using that same other [of i] assms(3,5) by (cases "i = iter") (auto simp: iter_frames_def)
  show ?thesis unfolding f frame_next_def prod.case
    using ops fr assms(2,4,6) a(2)
    by (intro conjI exI [of _ new]) auto
qed

lemma ActivateNodes_next:
  assumes "frame_ring f" "iter \<in> window f"
    and "ActivateNodes gview this item dead iter outs ready f = Some (f', outs', ready')"
  shows "frame_next this (f, ready) (f', ready')"
proof -
  from assms(3) obtain ni s s' where s: "iter_state f iter = Some s" and ni: "gview item = Some ni"
    and m: "foldM (activate_edge gview this iter (is_enter ni) dead) (s, outs, ready) (output_edges ni)
       = Some (s', outs', ready')" and f': "f' = put_iter_state iter s' f"
    by (auto simp: ActivateNodes_def split: option.splits)
  from activate_edges_spec [OF m] obtain new where "ready' = ready @ new"
    "\<forall>t\<in>set new. tn_frame t = this \<and> tn_iter t = iter"
    "is_outstanding_ops s' = is_outstanding_ops s + int (length new)"
    "length (is_input_tensors s') = length (is_input_tensors s)"
    "is_outstanding_frame_count s' = is_outstanding_frame_count s"
    by (auto simp: istate_next_def)
  then show ?thesis using put_iter_state_next [OF assms(1,2) s, of s' new this ready] f' by simp
qed

lemma ActivateNodes_total:
  assumes "frame_ring f" "iter \<in> window f"
    and "edges_fit gview (fs_total_input_tensors f) (length outs) item"
  shows "\<exists>f' outs' ready'. ActivateNodes gview this item dead iter outs ready f = Some (f', outs', ready')"
proof -
  obtain s where s: "iter_state f iter = Some s" "length (is_input_tensors s) = fs_total_input_tensors f"
    using iter_state_live [OF assms(1,2)] by metis
  from assms(3) obtain ni where ni: "gview item = Some ni"
    "\<forall>e\<in>set (output_edges ni). edge_fits gview (length (is_input_tensors s)) (length outs) e"
    unfolding s(2) by (auto simp: edges_fit_def split: option.splits)
  from activate_edges_total [OF ni(2), of this iter "is_enter ni" dead ready] show ?thesis
    using s ni(1) by (auto simp: ActivateNodes_def)
qed

text \<open>The remembered values (deferred roots, loop invariants) have one output.\<close>

definition saved_fit :: "(nat \<Rightarrow> node_item option) \<Rightarrow> nat \<Rightarrow> (nat \<times> entry) list \<Rightarrow> bool" where
  "saved_fit gview tot xs = (\<forall>x\<in>set xs. edges_fit gview tot 1 (fst x))"

lemma activate_saved_ok:
  assumes "frame_ring f" "iter \<in> window f" "edges_fit gview (fs_total_input_tensors f) 1 (fst ne)"
  shows "\<exists>f' ready'. activate_saved gview this iter (f, ready) ne = Some (f', ready')
     \<and> frame_next this (f, ready) (f', ready')"
proof -
  have "edges_fit gview (fs_total_input_tensors f) (length [entry_copy (snd ne)]) (fst ne)"
    using assms(3) by simp
  from ActivateNodes_total [OF assms(1,2) this, of this "\<not> en_has_value (snd ne)" ready]
  obtain f' o' r' where r: "ActivateNodes gview this (fst ne) (\<not> en_has_value (snd ne)) iter
      [entry_copy (snd ne)] ready f = Some (f', o', r')" by blast
  from ActivateNodes_next [OF assms(1,2) r] r show ?thesis by (auto simp: activate_saved_def)
qed

lemma activate_list_ok:
  assumes "frame_ring f" "\<forall>(i, ne)\<in>set xs. i \<in> window f \<and> edges_fit gview (fs_total_input_tensors f) 1 (fst ne)"
  shows "\<exists>f' ready'. foldM (\<lambda>st (i, ne). activate_saved gview this i st ne) (f, ready) xs = Some (f', ready')
     \<and> frame_next this (f, ready) (f', ready')"
  using assms
proof (induction xs arbitrary: f ready)
  case Nil
  then show ?case by (simp add: frame_next_refl)
next
  case (Cons x xs)
  obtain i ne where x: "x = (i, ne)" by (cases x)
  obtain f1 r1 where 1: "activate_saved gview this i (f, ready) ne = Some (f1, r1)"
    "frame_next this (f, ready) (f1, r1)"
    using activate_saved_ok [OF Cons.prems(1), of i gview ne this ready] Cons.prems(2) x by auto
  have "\<forall>(i, ne)\<in>set xs. i \<in> window f1 \<and> edges_fit gview (fs_total_input_tensors f1) 1 (fst ne)"
    using Cons.prems(2) by (auto simp: frame_next_same [OF 1(2)])
  from Cons.IH [OF frame_next_ring [OF 1(2) Cons.prems(1)] this, of r1]
  obtain f2 r2 where "foldM (\<lambda>st (i, ne). activate_saved gview this i st ne) (f1, r1) xs = Some (f2, r2)"
    "frame_next this (f1, r1) (f2, r2)" by blast
  then show ?case using frame_next_trans [OF 1(2), of f2 r2] 1(1) x by auto
qed

lemma foldM_map: "foldM f s (map g xs) = foldM (\<lambda>s x. f s (g x)) s xs"
  by (induction xs arbitrary: s) (auto split: option.splits)

lemma ActivateLoopInvs_ok:
  assumes "frame_ring f" "iter \<in> window f" "saved_fit gview (fs_total_input_tensors f) (fs_inv_values f)"
  shows "\<exists>f' ready'. ActivateLoopInvs gview this iter (f, ready) = Some (f', ready')
     \<and> frame_next this (f, ready) (f', ready')"
  using activate_list_ok [OF assms(1), of "map (Pair iter) (fs_inv_values f)" gview this ready] assms(2,3)
  by (auto simp: ActivateLoopInvs_def foldM_map saved_fit_def)

lemma ActivateNexts_ok:
  assumes "frame_ring f" "iter \<in> window f" "saved_fit gview (fs_total_input_tensors f) (fs_next_iter_roots f)"
  shows "\<exists>f' ready'. ActivateNexts gview this iter (f, ready) = Some (f'\<lparr>fs_next_iter_roots := []\<rparr>, ready')
     \<and> frame_next this (f, ready) (f', ready')"
  using activate_list_ok [OF assms(1), of "map (Pair iter) (fs_next_iter_roots f)" gview this ready] assms(2,3)
  by (auto simp: ActivateNexts_def foldM_map saved_fit_def)

lemma AddLoopInv_ok:
  assumes "frame_ring f" "oldest f = 0" "edges_fit gview (fs_total_input_tensors f) 1 item"
  shows "\<exists>f' ready'. AddLoopInv gview this item entry (f, ready) = Some (f', ready')
     \<and> frame_next this (f\<lparr>fs_inv_values := fs_inv_values f @ [(item, entry)]\<rparr>, ready) (f', ready')"
proof -
  let ?f = "f\<lparr>fs_inv_values := fs_inv_values f @ [(item, entry)]\<rparr>"
  have w: "window ?f = {0..fs_iteration_count f}"
    using assms(2) by (simp add: window_def oldest_def)
  have r: "frame_ring ?f" using assms(1)
    by (simp add: frame_ring_def heap_ok_def window_def oldest_def ring_index_def)
  have "\<forall>(i, ne)\<in>set (map (\<lambda>i. (i, item, entry)) [0..<fs_iteration_count f + 1]).
      i \<in> window ?f \<and> edges_fit gview (fs_total_input_tensors ?f) 1 (fst ne)"
    using assms(3) by (auto simp: w simp del: upt_Suc)
  from activate_list_ok [OF r this, of this ready] show ?thesis
    by (auto simp: AddLoopInv_def foldM_map simp del: upt_Suc)
qed

section \<open>Starting an iteration\<close>

definition start_iteration :: "frame_state \<Rightarrow> frame_state" where
  "start_iteration f =
     (let f1 = f\<lparr>fs_iteration_count := fs_iteration_count f + 1\<rparr>;
          (a, f2) = alloc_iteration f1;
          f3 = SetIteration (fs_iteration_count f1) (Some a) f2
      in f3\<lparr>fs_num_outstanding_iterations := fs_num_outstanding_iterations f3 + 1,
            fs_dead_exits := []\<rparr>)"

lemma IncrementIteration_eq:
  "IncrementIteration gview this (f, ready) =
     (case ActivateNexts gview this (fs_iteration_count f + 1) (start_iteration f, ready) of
        None \<Rightarrow> None
      | Some st' \<Rightarrow> ActivateLoopInvs gview this (fs_iteration_count f + 1) st')"
  by (simp add: IncrementIteration_def start_iteration_def alloc_iteration_def SetIteration_def Let_def
      cong: option.case_cong)

lemma start_iteration_fields:
  "fs_iteration_count (start_iteration f) = fs_iteration_count f + 1"
  "fs_num_outstanding_iterations (start_iteration f) = fs_num_outstanding_iterations f + 1"
  "fs_max_parallel_iterations (start_iteration f) = fs_max_parallel_iterations f"
  "fs_next_iter_roots (start_iteration f) = fs_next_iter_roots f"
  "fs_inv_values (start_iteration f) = fs_inv_values f"
  "fs_total_input_tensors (start_iteration f) = fs_total_input_tensors f"
  "fs_num_pending_inputs (start_iteration f) = fs_num_pending_inputs f"
  "fs_dead_exits (start_iteration f) = []"
  "oldest (start_iteration f) = oldest f"
  "fs_heap (start_iteration f) = (fs_heap f)(fs_next_addr f \<mapsto>
      new_iteration_state (fs_pending_counts f) (fs_total_input_tensors f))"
  "fs_next_addr (start_iteration f) = fs_next_addr f + 1"
  "fs_iterations (start_iteration f)
      = (fs_iterations f)[ring_index f (fs_iteration_count f + 1) := Some (fs_next_addr f)]"
  "fs_iterations_first (start_iteration f) = (if ring_index f (fs_iteration_count f + 1) = 0
      then Some (fs_next_addr f) else fs_iterations_first f)"
  by (auto simp: start_iteration_def alloc_iteration_def SetIteration_def Let_def oldest_def
      ring_index_def)

lemma start_iteration_ring:
  assumes "frame_ring f" "fs_num_outstanding_iterations f < int (fs_max_parallel_iterations f)"
  shows "frame_ring (start_iteration f)" "window (start_iteration f) = insert (fs_iteration_count f + 1) (window f)"
    "fs_iterations f ! ring_index f (fs_iteration_count f + 1) = None"
proof -
  let ?g = "start_iteration f" and ?P = "fs_max_parallel_iterations f" and ?n = "fs_iteration_count f + 1"
  let ?j = "ring_index f ?n" and ?a = "fs_next_addr f"
  note F = start_iteration_fields [of f]
  have ring: "ring_index ?g i = ring_index f i" for i by (simp add: ring_index_def F)
  have lo: "oldest f \<le> ?n" using assms(1) by (auto simp: frame_ring_def oldest_def)
  then show w: "window ?g = insert ?n (window f)" by (auto simp: window_def F)
  have size: "?n < oldest f + ?P" using assms by (auto simp: frame_ring_def oldest_def)
  have ne: "ring_index f k \<noteq> ?j" if "k \<in> window f" for k
    using that size mod_inj_window [of k ?P ?n] by (auto simp: window_def ring_index_def)
  then show free: "fs_iterations f ! ?j = None"
    using assms(1) ring_index_less [OF assms(1), of ?n] unfolding frame_ring_def by blast
  have len: "length (fs_iterations f) = ?P + 1" and j: "?j < ?P + 1"
    using assms(1) ring_index_less [OF assms(1), of ?n] by (auto simp: frame_ring_def)
  have H: "heap_ok f" using assms(1) by (simp add: frame_ring_def)
  note h = heap_okD [OF H]
  have fresh: "fs_heap f ?a = None" using h(1) by fastforce
  then have its: "fs_iterations f ! k \<noteq> Some ?a" if "k < length (fs_iterations f)" for k
    using h(2) that by metis
  have g: "fs_iterations ?g ! k = (if k = ?j then Some ?a else fs_iterations f ! k)"
    if "k < length (fs_iterations f)" for k using that by (auto simp: F nth_list_update)
  have gl: "length (fs_iterations ?g) = length (fs_iterations f)" by (simp add: F)
  have gh: "fs_heap ?g a \<noteq> None \<longleftrightarrow> a = ?a \<or> fs_heap f a \<noteq> None" for a by (simp add: F)
  have "heap_ok ?g" unfolding heap_ok_def gl
  proof (intro conjI allI impI)
    fix a assume "fs_heap ?g a \<noteq> None"
    then show "a < fs_next_addr ?g" using h(1) [of a] unfolding gh by (auto simp: F)
  next
    fix k a assume "k < length (fs_iterations f)" "fs_iterations ?g ! k = Some a"
    then show "fs_heap ?g a \<noteq> None" using h(2) [of k a] g [of k] unfolding gh by (auto split: if_splits)
  next
    fix k l a assume "k < length (fs_iterations f)" "l < length (fs_iterations f)"
      "fs_iterations ?g ! k = Some a \<and> fs_iterations ?g ! l = Some a"
    then show "k = l" using h(3) [of k l a] its g by (auto split: if_splits)
  next
    fix a assume "fs_heap ?g a \<noteq> None"
    then obtain k where "k < length (fs_iterations f)" "fs_iterations ?g ! k = Some a"
    proof (cases "a = ?a")
      case True
      then show ?thesis using j len g [of ?j] that [of ?j] by simp
    next
      case False
      then obtain k where "k < length (fs_iterations f)" "fs_iterations f ! k = Some a"
        using h(4) [of a] \<open>fs_heap ?g a \<noteq> None\<close> unfolding gh by (auto simp: in_set_conv_nth)
      moreover from this have "k \<noteq> ?j" using free by auto
      ultimately show ?thesis using g [of k] that [of k] by simp
    qed
    then show "Some a \<in> set (fs_iterations ?g)" using gl by (metis nth_mem)
  next
    fix a s assume "fs_heap ?g a = Some s"
    then show "length (is_input_tensors s) = fs_total_input_tensors ?g"
      using h(5) [of a s] by (auto simp: F new_iteration_state_def split: if_splits)
  qed
  moreover have "fs_iterations ?g ! k \<noteq> None \<longleftrightarrow> (\<exists>i\<in>window ?g. ring_index ?g i = k)"
    if "k < length (fs_iterations ?g)" for k
    using that assms(1) ne unfolding w ring
    by (cases "k = ?j") (auto simp: F frame_ring_def)
  ultimately show "frame_ring ?g" using assms len unfolding frame_ring_def
    by (auto simp: F nth_list_update)
qed

lemma roots_clear_ring: "frame_ring f \<Longrightarrow> frame_ring (f\<lparr>fs_next_iter_roots := []\<rparr>)"
  by (simp add: frame_ring_def heap_ok_def window_def oldest_def ring_index_def)

text \<open>
  What \<open>IncrementIteration\<close> does to a frame that may start one more iteration: the next
  number becomes live, the roots and dead exits are forgotten, and the iterations that were
  live keep their outstanding frames.
\<close>

lemma IncrementIteration_ok:
  assumes "frame_ring f" "fs_num_outstanding_iterations f < int (fs_max_parallel_iterations f)"
    and "saved_fit gview (fs_total_input_tensors f) (fs_next_iter_roots f)"
    and "saved_fit gview (fs_total_input_tensors f) (fs_inv_values f)"
  shows "\<exists>f' new. IncrementIteration gview this (f, ready) = Some (f', ready @ new)
     \<and> frame_ring f' \<and> fs_next_iter_roots f' = [] \<and> fs_dead_exits f' = []
     \<and> window f' = insert (fs_iteration_count f + 1) (window f) \<and> oldest f' = oldest f
     \<and> fs_iteration_count f' = fs_iteration_count f + 1
     \<and> fs_num_outstanding_iterations f' = fs_num_outstanding_iterations f + 1
     \<and> fs_max_parallel_iterations f' = fs_max_parallel_iterations f
     \<and> fs_total_input_tensors f' = fs_total_input_tensors f
     \<and> fs_inv_values f' = fs_inv_values f \<and> fs_num_pending_inputs f' = fs_num_pending_inputs f"
proof -
  let ?g = "start_iteration f" and ?n = "fs_iteration_count f + 1"
  note F = start_iteration_fields [of f]
  note g = start_iteration_ring [OF assms(1,2)]
  have n: "?n \<in> window ?g" by (simp add: g(2))
  have fit: "saved_fit gview (fs_total_input_tensors ?g) (fs_next_iter_roots ?g)"
    using assms(3) by (simp add: F)
  from ActivateNexts_ok [OF g(1) n fit, of this ready] obtain f1 r1 where
    1: "ActivateNexts gview this ?n (?g, ready) = Some (f1\<lparr>fs_next_iter_roots := []\<rparr>, r1)"
      "frame_next this (?g, ready) (f1, r1)" by blast
  let ?f1 = "f1\<lparr>fs_next_iter_roots := []\<rparr>"
  note S1 = frame_next_same [OF 1(2)]
  have w1: "window ?f1 = window ?g" "oldest ?f1 = oldest ?g"
    using S1(1,2) by (simp_all add: window_def oldest_def)
  have n1: "?n \<in> window ?f1" using n w1 by simp
  have fit1: "saved_fit gview (fs_total_input_tensors ?f1) (fs_inv_values ?f1)"
    using assms(4) by (simp add: S1 F)
  from ActivateLoopInvs_ok [OF roots_clear_ring [OF frame_next_ring [OF 1(2) g(1)]] n1 fit1, of this r1]
  obtain f2 r2 where 2: "ActivateLoopInvs gview this ?n (?f1, r1) = Some (f2, r2)"
    "frame_next this (?f1, r1) (f2, r2)" by blast
  note S2 = frame_next_same [OF 2(2)]
  have "frame_ring f2"
    by (rule frame_next_ring [OF 2(2) roots_clear_ring [OF frame_next_ring [OF 1(2) g(1)]]])
  moreover obtain n1 where "r1 = ready @ n1" using frame_nextD(5) [OF 1(2)] by blast
  moreover obtain n2 where "r2 = r1 @ n2" using frame_nextD(5) [OF 2(2)] by blast
  ultimately show ?thesis unfolding IncrementIteration_eq 1(1) option.case 2(1)
    by (intro exI [of _ f2] exI [of _ "n1 @ n2"]) (simp add: S1 S2 w1 g(2) F)
qed

section \<open>Finishing iterations\<close>

lemma IsIterationDone_eq:
  assumes "frame_ring f" "i \<in> window f"
  shows "IsIterationDone f i = Some (iter_ops f i = 0 \<and> iter_frames f i = 0
     \<and> (if i = 0 then fs_num_pending_inputs f = 0 else i = oldest f))"
proof -
  obtain s where s: "iter_state f i = Some s" using iter_state_live [OF assms] by metis
  have "GetIteration f (i - 1) = None \<longleftrightarrow> i = oldest f" if "i \<noteq> 0"
  proof -
    have "oldest f \<le> i - 1 + 1" "i - 1 \<le> fs_iteration_count f" using assms(2) that
      by (auto simp: window_def)
    from get_iteration_live [OF assms(1) this] have "GetIteration f (i - 1) = None \<longleftrightarrow> i - 1 \<notin> window f"
      by blast
    also have "\<dots> \<longleftrightarrow> i = oldest f" using assms(2) that by (auto simp: window_def)
    finally show ?thesis .
  qed
  then show ?thesis using s by (auto simp: IsIterationDone_def iter_ops_def iter_frames_def)
qed

definition end_iteration :: "nat \<Rightarrow> frame_state \<Rightarrow> frame_state" where
  "end_iteration iter f =
     (let f1 = SetIteration iter None (delete_iteration iter f)
      in f1\<lparr>fs_num_outstanding_iterations := fs_num_outstanding_iterations f1 - 1\<rparr>)"

lemma end_iteration_fields:
  "fs_iteration_count (end_iteration i f) = fs_iteration_count f"
  "fs_num_outstanding_iterations (end_iteration i f) = fs_num_outstanding_iterations f - 1"
  "fs_max_parallel_iterations (end_iteration i f) = fs_max_parallel_iterations f"
  "fs_next_iter_roots (end_iteration i f) = fs_next_iter_roots f"
  "fs_inv_values (end_iteration i f) = fs_inv_values f"
  "fs_total_input_tensors (end_iteration i f) = fs_total_input_tensors f"
  "fs_num_pending_inputs (end_iteration i f) = fs_num_pending_inputs f"
  "fs_dead_exits (end_iteration i f) = fs_dead_exits f"
  "fs_heap (end_iteration i f) = (case GetIteration f i of None \<Rightarrow> fs_heap f
      | Some a \<Rightarrow> (fs_heap f)(a := None))"
  "fs_next_addr (end_iteration i f) = fs_next_addr f"
  "fs_iterations (end_iteration i f) = (fs_iterations f)[ring_index f i := None]"
  "fs_iterations_first (end_iteration i f) = (if ring_index f i = 0 then None else fs_iterations_first f)"
  by (auto simp: end_iteration_def delete_iteration_def SetIteration_def Let_def ring_index_def
      split: option.splits)

lemma end_iteration_ring:
  assumes "frame_ring f" "oldest f \<in> window f"
  shows "frame_ring (end_iteration (oldest f) f)"
    "window (end_iteration (oldest f) f) = window f - {oldest f}"
    "oldest (end_iteration (oldest f) f) = oldest f + 1"
proof -
  let ?o = "oldest f" and ?g = "end_iteration (oldest f) f"
  let ?j = "ring_index f ?o"
  note F = end_iteration_fields [of ?o f]
  obtain a0 where a0: "GetIteration f ?o = Some a0" using iter_state_live [OF assms] by metis
  then have j: "fs_iterations f ! ?j = Some a0" using get_iteration_eq [OF assms(1)] by simp
  have jl: "?j < length (fs_iterations f)" by (rule ring_index_less [OF assms(1)])
  have pos: "1 \<le> fs_num_outstanding_iterations f"
    using assms by (auto simp: window_def oldest_def frame_ring_def)
  have "fs_num_outstanding_iterations f \<le> int (fs_iteration_count f) + 1"
    using assms(1) by (simp add: frame_ring_def)
  then show o: "oldest ?g = ?o + 1" using pos
    by (simp add: oldest_def end_iteration_fields(1,2))
  then show w: "window ?g = window f - {?o}" by (auto simp: window_def F)
  have ring: "ring_index ?g i = ring_index f i" for i by (simp add: ring_index_def F)
  have H: "heap_ok f" using assms(1) by (simp add: frame_ring_def)
  note h = heap_okD [OF H]
  have g: "fs_iterations ?g ! k = (if k = ?j then None else fs_iterations f ! k)"
    if "k < length (fs_iterations f)" for k using that by (auto simp: F nth_list_update)
  have gl: "length (fs_iterations ?g) = length (fs_iterations f)" by (simp add: F)
  have gh: "fs_heap ?g = (fs_heap f)(a0 := None)" by (simp add: F a0)
  have "heap_ok ?g" unfolding heap_ok_def gl
  proof (intro conjI allI impI)
    fix a assume "fs_heap ?g a \<noteq> None"
    then show "a < fs_next_addr ?g" using h(1) [of a] by (auto simp: gh F split: if_splits)
  next
    fix k a assume "k < length (fs_iterations f)" "fs_iterations ?g ! k = Some a"
    then show "fs_heap ?g a \<noteq> None" using h(2) [of k a] h(3) [of k ?j a] g [of k] j jl
      by (auto simp: gh split: if_splits)
  next
    fix k l a assume "k < length (fs_iterations f)" "l < length (fs_iterations f)"
      "fs_iterations ?g ! k = Some a \<and> fs_iterations ?g ! l = Some a"
    then show "k = l" using h(3) [of k l a] g by (auto split: if_splits)
  next
    fix a assume a: "fs_heap ?g a \<noteq> None"
    then have ne: "a \<noteq> a0" "fs_heap f a \<noteq> None" by (auto simp: gh split: if_splits)
    then obtain k where k: "k < length (fs_iterations f)" "fs_iterations f ! k = Some a"
      using h(4) [of a] by (auto simp: in_set_conv_nth)
    then have "k \<noteq> ?j" using j ne by auto
    with k g have "fs_iterations ?g ! k = Some a" by simp
    then show "Some a \<in> set (fs_iterations ?g)" using k gl by (metis nth_mem)
  next
    fix a s assume "fs_heap ?g a = Some s"
    then show "length (is_input_tensors s) = fs_total_input_tensors ?g"
      using h(5) [of a s] by (auto simp: gh F split: if_splits)
  qed
  moreover have "fs_iterations ?g ! k \<noteq> None \<longleftrightarrow> (\<exists>i\<in>window ?g. ring_index ?g i = k)"
    if k: "k < length (fs_iterations f)" for k
  proof -
    have iff: "fs_iterations f ! k \<noteq> None \<longleftrightarrow> (\<exists>i\<in>window f. ring_index f i = k)"
      using assms(1) k by (simp add: frame_ring_def)
    have inj: "i = ?o" if "i \<in> window f" "ring_index f i = ?j" for i
      using that get_iteration_inj [OF assms(1) that(1) assms(2)] get_iteration_eq [OF assms(1)] by simp
    show ?thesis
    proof (cases "k = ?j")
      case True
      then show ?thesis using inj g [OF k] unfolding w ring by auto
    next
      case False
      then have "(\<exists>i\<in>window f - {?o}. ring_index f i = k) \<longleftrightarrow> (\<exists>i\<in>window f. ring_index f i = k)"
        by auto
      with False iff g [OF k] show ?thesis unfolding w ring by simp
    qed
  qed
  moreover have "fs_iterations_first ?g = fs_iterations ?g ! 0"
    using assms(1) jl by (auto simp: F frame_ring_def nth_list_update)
  ultimately show "frame_ring ?g" using assms pos unfolding frame_ring_def gl
    by (simp add: F)
qed

lemma cleanup_loop_eq:
  "cleanup_loop fuel gview this curr_iter (f, ready) =
     (if \<not> curr_iter \<le> fs_iteration_count f then Some (f, ready)
      else case IsIterationDone f curr_iter of
        None \<Rightarrow> None
      | Some False \<Rightarrow> Some (f, ready)
      | Some True \<Rightarrow>
         (case fuel of
            0 \<Rightarrow> None
          | Suc fuel' \<Rightarrow>
              if fs_next_iter_roots f \<noteq> []
              then (case IncrementIteration gview this (end_iteration curr_iter f, ready) of
                      None \<Rightarrow> None
                    | Some st' \<Rightarrow> cleanup_loop fuel' gview this (curr_iter + 1) st')
              else cleanup_loop fuel' gview this (curr_iter + 1) (end_iteration curr_iter f, ready)))"
proof -
  have e: "(let f1 = SetIteration curr_iter None (delete_iteration curr_iter f);
        f2 = f1\<lparr>fs_num_outstanding_iterations := fs_num_outstanding_iterations f1 - 1\<rparr>
      in G f2) = G (end_iteration curr_iter f)" for G :: "frame_state \<Rightarrow> 'a"
    by (simp add: end_iteration_def Let_def)
  show ?thesis unfolding cleanup_loop.simps [of fuel] e end_iteration_fields(4) by (rule refl)
qed

text \<open>
  The frame is settled when its oldest live iteration still has work to do, or none is left.
\<close>

definition settled :: "frame_state \<Rightarrow> bool" where
  "settled f = (fs_num_outstanding_iterations f = 0 \<or> IsIterationDone f (oldest f) = Some False)"

definition frame_fit :: "(nat \<Rightarrow> node_item option) \<Rightarrow> frame_state \<Rightarrow> bool" where
  "frame_fit gview f = (saved_fit gview (fs_total_input_tensors f) (fs_next_iter_roots f)
     \<and> saved_fit gview (fs_total_input_tensors f) (fs_inv_values f))"

text \<open>What the cleanup keeps: everything static, the invariant, and the ready nodes so far.\<close>

definition cleaned :: "frame_state \<Rightarrow> tagged_node list \<Rightarrow> frame_state \<Rightarrow> tagged_node list \<Rightarrow> bool" where
  "cleaned f ready f' ready' = (frame_wf f' \<and> (\<exists>new. ready' = ready @ new)
     \<and> oldest f \<le> oldest f' \<and> fs_iteration_count f \<le> fs_iteration_count f'
     \<and> fs_max_parallel_iterations f' = fs_max_parallel_iterations f
     \<and> fs_total_input_tensors f' = fs_total_input_tensors f
     \<and> fs_inv_values f' = fs_inv_values f \<and> fs_num_pending_inputs f' = fs_num_pending_inputs f
     \<and> (fs_next_iter_roots f' = [] \<or> fs_next_iter_roots f' = fs_next_iter_roots f))"

lemma cleaned_trans: "cleaned f r f1 r1 \<Longrightarrow> cleaned f1 r1 f2 r2 \<Longrightarrow> cleaned f r f2 r2"
  by (auto simp: cleaned_def)

lemma cleaned_fit: "cleaned f r f' r' \<Longrightarrow> frame_fit gview f \<Longrightarrow> frame_fit gview f'"
  by (auto simp: cleaned_def frame_fit_def saved_fit_def)

definition cleanup_work :: "frame_state \<Rightarrow> nat" where
  "cleanup_work f = nat (fs_num_outstanding_iterations f) + of_bool (fs_next_iter_roots f \<noteq> [])"

text \<open>One turn of the loop on the oldest iteration.\<close>

lemma cleanup_turn:
  assumes "frame_wf f" "frame_fit gview f" "oldest f \<in> window f" "IsIterationDone f (oldest f) = Some True"
  shows "\<exists>f' ready'. (if fs_next_iter_roots f \<noteq> []
       then IncrementIteration gview this (end_iteration (oldest f) f, ready)
       else Some (end_iteration (oldest f) f, ready)) = Some (f', ready')
     \<and> cleaned f ready f' ready' \<and> oldest f' = oldest f + 1 \<and> cleanup_work f' < cleanup_work f"
proof -
  let ?g = "end_iteration (oldest f) f"
  note E = end_iteration_fields [of "oldest f" f]
  have r: "frame_ring f" using assms(1) by (simp add: frame_wf_def)
  note g = end_iteration_ring [OF r assms(3)]
  have pos: "1 \<le> fs_num_outstanding_iterations f"
    using r assms(3) by (auto simp: window_def oldest_def frame_ring_def)
  have p0: "fs_num_pending_inputs f = 0"
    using assms(1,4) IsIterationDone_eq [OF r assms(3)] by (auto simp: frame_wf_def split: if_splits)
  show ?thesis
  proof (cases "fs_next_iter_roots f = []")
    case True
    then have "cleaned f ready ?g ready" using g p0 by (simp add: cleaned_def frame_wf_def E)
    then show ?thesis using True g(3) pos by (simp add: cleanup_work_def E)
  next
    case False
    have lt: "fs_num_outstanding_iterations ?g < int (fs_max_parallel_iterations ?g)"
      using r by (simp add: E frame_ring_def)
    have n: "fs_num_outstanding_iterations f = int (fs_max_parallel_iterations f)"
      using assms(1) False by (simp add: frame_wf_def)
    from IncrementIteration_ok [OF g(1) lt, of gview this ready] assms(2)
    obtain f' new where i: "IncrementIteration gview this (?g, ready) = Some (f', ready @ new)"
      "frame_ring f'" "fs_next_iter_roots f' = []" "oldest f' = oldest ?g"
      "fs_iteration_count f' = fs_iteration_count ?g + 1"
      "fs_num_outstanding_iterations f' = fs_num_outstanding_iterations ?g + 1"
      "fs_max_parallel_iterations f' = fs_max_parallel_iterations ?g"
      "fs_total_input_tensors f' = fs_total_input_tensors ?g"
      "fs_inv_values f' = fs_inv_values ?g" "fs_num_pending_inputs f' = fs_num_pending_inputs ?g"
      by (auto simp: frame_fit_def E)
    then have "cleaned f ready f' (ready @ new)" using p0 by (simp add: cleaned_def frame_wf_def E g(3))
    then show ?thesis using False i g(3) by (simp add: cleanup_work_def E)
  qed
qed

lemma cleanup_loop_ok:
  assumes "frame_wf f" "frame_fit gview f" "cleanup_work f \<le> fuel"
  shows "\<exists>f' ready'. cleanup_loop fuel gview this (oldest f) (f, ready) = Some (f', ready')
     \<and> cleaned f ready f' ready' \<and> settled f'"
  using assms
proof (induction fuel arbitrary: f ready)
  case (0 f ready)
  have "fs_num_outstanding_iterations f = 0"
    using 0 by (simp add: cleanup_work_def frame_wf_def frame_ring_def)
  moreover from this have "oldest f = fs_iteration_count f + 1" by (simp add: oldest_def)
  ultimately show ?case using 0(1) by (simp add: cleanup_loop_eq [of 0] settled_def cleaned_def)
next
  case (Suc fuel)
  have r: "frame_ring f" using Suc.prems(1) by (simp add: frame_wf_def)
  have self: "cleaned f ready f ready" using Suc.prems(1) by (simp add: cleaned_def)
  show ?case
  proof (cases "oldest f \<in> window f")
    case False
    then have "\<not> oldest f \<le> fs_iteration_count f" by (simp add: window_def)
    moreover from this have "fs_num_outstanding_iterations f = 0"
      using r by (auto simp: oldest_def frame_ring_def)
    ultimately show ?thesis using self by (simp add: cleanup_loop_eq [of "Suc fuel"] settled_def)
  next
    case True
    obtain b where b: "IsIterationDone f (oldest f) = Some b"
      using IsIterationDone_eq [OF r True] by blast
    have le: "oldest f \<le> fs_iteration_count f" using True by (simp add: window_def)
    show ?thesis
    proof (cases b)
      case False
      then show ?thesis using b le self by (simp add: cleanup_loop_eq [of "Suc fuel"] settled_def)
    next
      case d: True
      have "IsIterationDone f (oldest f) = Some True" using b d by simp
      from cleanup_turn [OF Suc.prems(1,2) True this, of this ready] obtain f1 r1 where
        t: "(if fs_next_iter_roots f \<noteq> []
           then IncrementIteration gview this (end_iteration (oldest f) f, ready)
           else Some (end_iteration (oldest f) f, ready)) = Some (f1, r1)"
        "cleaned f ready f1 r1" "oldest f1 = oldest f + 1" "cleanup_work f1 < cleanup_work f" by blast
      have wf: "frame_wf f1" using t(2) by (simp add: cleaned_def)
      have "cleanup_work f1 \<le> fuel" using t(4) Suc.prems(3) by simp
      from Suc.IH [OF wf cleaned_fit [OF t(2) Suc.prems(2)] this, of r1] obtain f2 r2 where
        i: "cleanup_loop fuel gview this (oldest f1) (f1, r1) = Some (f2, r2)"
          "cleaned f1 r1 f2 r2" "settled f2" by blast
      have "cleanup_loop (Suc fuel) gview this (oldest f) (f, ready)
          = cleanup_loop fuel gview this (oldest f1) (f1, r1)"
        using b d le t(1,3) by (subst cleanup_loop_eq) (auto split: if_splits)
      then show ?thesis using i cleaned_trans [OF t(2) i(2)] by auto
    qed
  qed
qed

lemma cleanup_fuel_enough: "frame_wf f \<Longrightarrow> cleanup_work f \<le> cleanup_fuel f"
  by (auto simp: frame_wf_def frame_ring_def cleanup_work_def cleanup_fuel_def)

lemma CleanupIterations_ok:
  assumes "frame_wf f" "frame_fit gview f" "iter \<in> window f"
  shows "\<exists>f' ready'. CleanupIterations gview this iter (f, ready) = Some (f', ready', IsFrameDone f')
     \<and> cleaned f ready f' ready' \<and> (iter = oldest f \<longrightarrow> settled f')
     \<and> (iter \<noteq> oldest f \<longrightarrow> f' = f \<and> ready' = ready)"
proof (cases "iter = oldest f")
  case True
  from cleanup_loop_ok [OF assms(1,2) cleanup_fuel_enough [OF assms(1)], of this ready]
  show ?thesis using True by (auto simp: CleanupIterations_def)
next
  case False
  have r: "frame_ring f" using assms(1) by (simp add: frame_wf_def)
  have "iter \<noteq> 0" using assms(3) False by (auto simp: window_def)
  then have "IsIterationDone f iter = Some False" using IsIterationDone_eq [OF r assms(3)] False by simp
  moreover have "iter \<le> fs_iteration_count f" using assms(3) by (simp add: window_def)
  ultimately show ?thesis using False assms(1)
    by (simp add: CleanupIterations_def cleanup_loop_eq cleaned_def)
qed

lemma put_iter_state_ring:
  assumes "frame_ring f" "iter \<in> window f" "iter_state f iter = Some s"
    "length (is_input_tensors s') = length (is_input_tensors s)"
  shows "frame_ring (put_iter_state iter s' f)"
    "\<exists>h. put_iter_state iter s' f = f\<lparr>fs_heap := h\<rparr>"
    "iter_state (put_iter_state iter s' f) iter = Some s'"
proof -
  obtain a where a: "GetIteration f iter = Some a" "fs_heap f a = Some s"
    using iter_state_live [OF assms(1,2)] assms(3) by metis
  have f: "put_iter_state iter s' f = f\<lparr>fs_heap := (fs_heap f)(a \<mapsto> s')\<rparr>"
    using a by (simp add: put_iter_state_def)
  then show "\<exists>h. put_iter_state iter s' f = f\<lparr>fs_heap := h\<rparr>" by blast
  show "frame_ring (put_iter_state iter s' f)" unfolding f
    by (rule heap_upd_ring [OF assms(1)]) (use a assms(4) in \<open>auto split: if_splits\<close>)
  have "GetIteration (f\<lparr>fs_heap := h\<rparr>) iter = GetIteration f iter" for h
    by (simp add: GetIteration_def ring_index_def)
  then show "iter_state (put_iter_state iter s' f) iter = Some s'"
    using a by (simp add: f iter_state_def)
qed

text \<open>An operation that finishes: the count goes down, and the last one cleans up.\<close>

lemma DecrementOutstandingOps_ok:
  assumes "frame_wf f" "frame_fit gview f" "iter \<in> window f"
  shows "\<exists>f' ready' done. DecrementOutstandingOps gview this iter (f, ready) = Some (f', ready', done)
     \<and> cleaned f ready f' ready' \<and> (done \<longrightarrow> IsFrameDone f')
     \<and> (iter_ops f iter \<noteq> 1 \<longrightarrow> \<not> done \<and> iter_ops f' iter = iter_ops f iter - 1 \<and> ready' = ready)
     \<and> (iter_ops f iter = 1 \<longrightarrow> done = IsFrameDone f' \<and> (iter = oldest f \<longrightarrow> settled f'))"
proof -
  have r: "frame_ring f" using assms(1) by (simp add: frame_wf_def)
  obtain s where s: "iter_state f iter = Some s" using iter_state_live [OF r assms(3)] by metis
  let ?s = "s\<lparr>is_outstanding_ops := is_outstanding_ops s - 1\<rparr>"
  let ?g = "put_iter_state iter ?s f"
  have "length (is_input_tensors ?s) = length (is_input_tensors s)" by simp
  note P = put_iter_state_ring [OF r assms(3) s this]
  from P(2) obtain h where h: "?g = f\<lparr>fs_heap := h\<rparr>" by blast
  have w: "window ?g = window f" "oldest ?g = oldest f" unfolding h by (simp_all add: window_def oldest_def)
  have wf: "frame_wf ?g" using assms(1) P(1) w unfolding h by (simp add: frame_wf_def)
  have fit: "frame_fit gview ?g" using assms(2) unfolding h by (simp add: frame_fit_def)
  have c: "cleaned f ready ?g ready" using wf w unfolding cleaned_def by (simp add: h)
  have ops: "iter_ops f iter = is_outstanding_ops s" "iter_ops ?g iter = is_outstanding_ops s - 1"
    using s P(3) by (simp_all add: iter_ops_def)
  show ?thesis
  proof (cases "is_outstanding_ops s = 1")
    case False
    then have "DecrementOutstandingOps gview this iter (f, ready) = Some (?g, ready, False)"
      using s by (simp add: DecrementOutstandingOps_def Let_def)
    then show ?thesis using c ops False by auto
  next
    case True
    have iw: "iter \<in> window ?g" using assms(3) w by simp
    from CleanupIterations_ok [OF wf fit iw, of this ready] obtain f' r' where
      C: "CleanupIterations gview this iter (?g, ready) = Some (f', r', IsFrameDone f')"
        "cleaned ?g ready f' r'" "iter = oldest ?g \<longrightarrow> settled f'" by blast
    then have "DecrementOutstandingOps gview this iter (f, ready) = Some (f', r', IsFrameDone f')"
      using s True by (simp add: DecrementOutstandingOps_def Let_def)
    then show ?thesis using C cleaned_trans [OF c C(2)] ops True w(2) by auto
  qed
qed

section \<open>Every history of a frame\<close>

text \<open>
  The steps the executor takes on one frame: nodes of the frame (or Enter nodes of its
  parent) are activated in a live iteration, operations finish, child frames start and end,
  inputs enter, loop invariants are added, and NextIteration nodes start an iteration or
  are kept back. The guards are those of \<open>PropagateOutputs\<close>.
\<close>

inductive frame_step ::
  "(nat \<Rightarrow> node_item option) \<Rightarrow> nat \<Rightarrow> frame_state \<times> tagged_node list
     \<Rightarrow> frame_state \<times> tagged_node list \<Rightarrow> bool"
  for gview :: "nat \<Rightarrow> node_item option" and this :: nat where
  fs_take: "frame_step gview this (f, ready) (f, [])"
| fs_activate: "i \<in> window f \<Longrightarrow> ActivateNodes gview this item dead i outs ready f = Some (f', outs', ready')
    \<Longrightarrow> frame_step gview this (f, ready) (f', ready')"
| fs_finish_op: "i \<in> window f \<Longrightarrow> DecrementOutstandingOps gview this i (f, ready) = Some (f', ready', d)
    \<Longrightarrow> frame_step gview this (f, ready) (f', ready')"
| fs_child: "i \<in> window f \<Longrightarrow> iter_state f i = Some s
    \<Longrightarrow> frame_step gview this (f, ready) (put_iter_state i (s\<lparr>is_outstanding_frame_count := c\<rparr>) f, ready)"
| fs_cleanup: "i \<in> window f \<Longrightarrow> CleanupIterations gview this i (f, ready) = Some (f', ready', d)
    \<Longrightarrow> frame_step gview this (f, ready) (f', ready')"
| fs_enter: "fs_num_pending_inputs f > 0
    \<Longrightarrow> frame_step gview this (f, ready) (f\<lparr>fs_num_pending_inputs := fs_num_pending_inputs f - 1\<rparr>, ready)"
| fs_loop_inv: "fs_num_pending_inputs f > 0 \<Longrightarrow> edges_fit gview (fs_total_input_tensors f) 1 item
    \<Longrightarrow> AddLoopInv gview this item entry (f, ready) = Some (f', ready')
    \<Longrightarrow> frame_step gview this (f, ready) (f', ready')"
| fs_next_defer: "fs_num_outstanding_iterations f = int (fs_max_parallel_iterations f)
    \<Longrightarrow> edges_fit gview (fs_total_input_tensors f) 1 item
    \<Longrightarrow> frame_step gview this (f, ready)
         (f\<lparr>fs_next_iter_roots := fs_next_iter_roots f @ [(item, entry)]\<rparr>, ready)"
| fs_next_start: "fs_num_outstanding_iterations f \<noteq> int (fs_max_parallel_iterations f)
    \<Longrightarrow> IncrementIteration gview this (f, ready) = Some (f', ready')
    \<Longrightarrow> frame_step gview this (f, ready) (f', ready')"
| fs_dead_exit: "frame_step gview this (f, ready) (f\<lparr>fs_dead_exits := fs_dead_exits f @ [item]\<rparr>, ready)"

inductive_cases frame_stepE: "frame_step gview this (f, ready) (f', ready')"

definition frame_start :: "frame_state \<times> tagged_node list \<Rightarrow> bool" where
  "frame_start x = (\<exists>finfo P f. 1 \<le> P \<and> 0 \<le> fi_input_count finfo
      \<and> new_frame_state finfo P = Some f \<and> x = (first_iteration f, []))"

definition frame_inv :: "(nat \<Rightarrow> node_item option) \<Rightarrow> frame_state \<times> tagged_node list \<Rightarrow> bool" where
  "frame_inv gview x = (frame_wf (fst x) \<and> frame_fit gview (fst x) \<and> 0 \<le> fs_num_pending_inputs (fst x))"

lemma frame_inv_fields:
  assumes "frame_ring f" "window f' = window f" "oldest f' = oldest f"
    "fs_iterations f' = fs_iterations f" "fs_max_parallel_iterations f' = fs_max_parallel_iterations f"
    "fs_num_outstanding_iterations f' = fs_num_outstanding_iterations f"
    "fs_iteration_count f' = fs_iteration_count f" "fs_iterations_first f' = fs_iterations_first f"
    "fs_heap f' = fs_heap f" "fs_next_addr f' = fs_next_addr f"
    "fs_total_input_tensors f' = fs_total_input_tensors f"
  shows "frame_ring f'"
  using assms by (simp add: frame_ring_def heap_ok_def ring_index_def)

lemma frame_start_inv:
  assumes "frame_start x"
  shows "frame_inv gview x"
proof -
  obtain finfo P f where P: "1 \<le> P" "0 \<le> fi_input_count finfo" and f: "new_frame_state finfo P = Some f"
    and x: "x = (first_iteration f, [])" using assms by (auto simp: frame_start_def)
  have F: "fs_iterations f = replicate (P + 1) None" "fs_iteration_count f = 0" "fs_next_addr f = 0"
    "fs_num_outstanding_iterations f = 1" "fs_max_parallel_iterations f = P" "fs_heap f = Map.empty"
    "fs_next_iter_roots f = []" "fs_inv_values f = []" "fs_num_pending_inputs f = fi_input_count finfo"
    using f by (auto simp: new_frame_state_def split: option.splits)
  let ?g = "first_iteration f"
  have G: "fs_iterations ?g = (replicate (P + 1) None)[0 := Some 0]" "fs_iterations_first ?g = Some 0"
    "fs_iteration_count ?g = 0" "fs_num_outstanding_iterations ?g = 1" "fs_max_parallel_iterations ?g = P"
    "fs_heap ?g = [0 \<mapsto> new_iteration_state (fs_pending_counts f) (fs_total_input_tensors f)]"
    "fs_next_addr ?g = 1" "fs_next_iter_roots ?g = []" "fs_inv_values ?g = []"
    "fs_total_input_tensors ?g = fs_total_input_tensors f" "fs_num_pending_inputs ?g = fi_input_count finfo"
    by (simp_all add: first_iteration_def alloc_iteration_def SetIteration_def ring_index_def F)
  have w: "oldest ?g = 0" "window ?g = {0}" by (auto simp: oldest_def window_def G)
  have n: "fs_iterations ?g ! j = (if j = 0 then Some 0 else None)" if "j < P + 1" for j
    using that by (simp add: G nth_list_update)
  have l: "length (fs_iterations ?g) = P + 1" by (simp add: G)
  have "heap_ok ?g" unfolding heap_ok_def l
    by (auto simp: n G(2-) new_iteration_state_def in_set_conv_nth l intro!: exI [of _ 0]
        split: if_splits)
  then have "frame_ring ?g" unfolding frame_ring_def l using P(1) n
    by (auto simp: G(2-) w ring_index_def)
  then show ?thesis using P(2) by (simp add: x frame_inv_def frame_wf_def frame_fit_def saved_fit_def G w)
qed

lemma frame_next_inv:
  assumes "frame_next this (f, ready) (f', ready')" "frame_inv gview (f, r)"
  shows "frame_inv gview (f', r')"
  using assms frame_next_ring [OF assms(1)]
  by (simp add: frame_inv_def frame_wf_def frame_fit_def frame_next_same [OF assms(1)])

lemma cleaned_inv: "cleaned f ready f' ready' \<Longrightarrow> frame_inv gview (f, r) \<Longrightarrow> frame_inv gview (f', r')"
  using cleaned_fit [of f ready f' ready' gview] by (simp add: frame_inv_def) (simp add: cleaned_def)

lemma frame_step_inv:
  assumes "frame_inv gview (f, ready)" "frame_step gview this (f, ready) (f', ready')"
  shows "frame_inv gview (f', ready')"
  using assms(2)
proof (cases rule: frame_stepE [consumes 1, case_names fs_take fs_activate fs_finish_op fs_child fs_cleanup
    fs_enter fs_loop_inv fs_next_defer fs_next_start fs_dead_exit])
  case fs_take
  then show ?thesis using assms(1) by (simp add: frame_inv_def)
next
  case (fs_activate i item dead outs outs')
  then show ?thesis using assms(1) frame_next_inv ActivateNodes_next
    by (metis frame_inv_def frame_wf_def fst_conv)
next
  case (fs_finish_op i d)
  from assms(1) have "frame_wf f" "frame_fit gview f" by (auto simp: frame_inv_def)
  from DecrementOutstandingOps_ok [OF this fs_finish_op(1), of this ready] fs_finish_op(2)
  have "cleaned f ready f' ready'" by auto
  then show ?thesis using cleaned_inv assms(1) by blast
next
  case (fs_child i s c)
  let ?s = "s\<lparr>is_outstanding_frame_count := c\<rparr>"
  have r: "frame_ring f" using assms(1) by (simp add: frame_inv_def frame_wf_def)
  have "length (is_input_tensors ?s) = length (is_input_tensors s)" by simp
  note P = put_iter_state_ring [OF r fs_child(1,2) this]
  from P(2) obtain h where h: "put_iter_state i ?s f = f\<lparr>fs_heap := h\<rparr>" by blast
  then show ?thesis using assms(1) P(1) fs_child(3)
    by (simp add: frame_inv_def frame_wf_def frame_fit_def oldest_def)
next
  case (fs_cleanup i d)
  from assms(1) have "frame_wf f" "frame_fit gview f" by (auto simp: frame_inv_def)
  from CleanupIterations_ok [OF this fs_cleanup(1), of this ready] fs_cleanup(2)
  have "cleaned f ready f' ready'" by auto
  then show ?thesis using cleaned_inv assms(1) by blast
next
  case fs_enter
  have "oldest f' = oldest f" "window f' = window f" by (simp_all add: fs_enter oldest_def window_def)
  moreover from this have "frame_ring f'" using assms(1) fs_enter
    by (intro frame_inv_fields [of f f']) (simp_all add: frame_inv_def frame_wf_def)
  ultimately show ?thesis using assms(1) fs_enter
    by (auto simp: frame_inv_def frame_wf_def frame_fit_def)
next
  case (fs_loop_inv item entry)
  from assms(1) have wf: "frame_wf f" "frame_fit gview f" by (auto simp: frame_inv_def)
  then have o: "oldest f = 0" "frame_ring f" using fs_loop_inv(1) by (auto simp: frame_wf_def)
  let ?f = "f\<lparr>fs_inv_values := fs_inv_values f @ [(item, entry)]\<rparr>"
  have "edges_fit gview (fs_total_input_tensors f) 1 item" using fs_loop_inv(2) by simp
  from AddLoopInv_ok [OF o(2,1) this, of this entry ready] fs_loop_inv(3)
  have n: "frame_next this (?f, ready) (f', ready')" by auto
  have "oldest ?f = oldest f" "window ?f = window f" by (simp_all add: oldest_def window_def)
  moreover from this have "frame_ring ?f" using o(2)
    by (intro frame_inv_fields [of f ?f]) simp_all
  ultimately have "frame_inv gview (?f, ready)" using assms(1) fs_loop_inv(2) wf
    by (auto simp: frame_inv_def frame_wf_def frame_fit_def saved_fit_def)
  then show ?thesis by (rule frame_next_inv [OF n])
next
  case (fs_next_defer item entry)
  have "oldest f' = oldest f" "window f' = window f" by (simp_all add: fs_next_defer oldest_def window_def)
  moreover from this have "frame_ring f'" using assms(1) fs_next_defer
    by (intro frame_inv_fields [of f f']) (simp_all add: frame_inv_def frame_wf_def)
  ultimately show ?thesis using assms(1) fs_next_defer
    by (auto simp: frame_inv_def frame_wf_def frame_fit_def saved_fit_def)
next
  case fs_next_start
  have r: "frame_ring f" using assms(1) by (simp add: frame_inv_def frame_wf_def)
  have lt: "fs_num_outstanding_iterations f < int (fs_max_parallel_iterations f)"
    using r fs_next_start(1) by (simp add: frame_ring_def)
  from IncrementIteration_ok [OF r lt, of gview this ready] assms(1) fs_next_start(2) show ?thesis
    by (auto simp: frame_inv_def frame_wf_def frame_fit_def saved_fit_def)
next
  case (fs_dead_exit item)
  have "oldest f' = oldest f" "window f' = window f" by (simp_all add: fs_dead_exit oldest_def window_def)
  moreover from this have "frame_ring f'" using assms(1) fs_dead_exit
    by (intro frame_inv_fields [of f f']) (simp_all add: frame_inv_def frame_wf_def)
  ultimately show ?thesis using assms(1) fs_dead_exit
    by (auto simp: frame_inv_def frame_wf_def frame_fit_def)
qed

interpretation frame: invariant_system frame_start "frame_step gview this" "frame_inv gview"
  for gview this
  by unfold_locales (use frame_start_inv frame_step_inv in \<open>auto split: prod.splits\<close>)

section \<open>Properties\<close>

lemma reach_frame_wf:
  "reach frame_start (frame_step gview this) (f, ready) \<Longrightarrow> frame_wf f \<and> frame_fit gview f"
  using frame.reach_inv [of gview this "(f, ready)"] by (simp add: frame_inv_def)

text \<open>
  C14: in every state a frame can reach, at most \<open>max_parallel_iterations\<close> iterations are
  live, they are the last ones up to the count, each has a state of its own that no pointer
  of another iteration aliases, and the slot of the iteration just before them is null.
\<close>

theorem frame_ring_safe:
  assumes "reach frame_start (frame_step gview this) (f, ready)"
  shows "fs_num_outstanding_iterations f \<le> int (fs_max_parallel_iterations f)
    \<and> int (oldest f) + fs_num_outstanding_iterations f = int (fs_iteration_count f) + 1
    \<and> (\<forall>i. i \<in> window f \<longrightarrow> iter_state f i \<noteq> None)
    \<and> inj_on (GetIteration f) (window f)
    \<and> (\<forall>i. i + 1 = oldest f \<longrightarrow> GetIteration f i = None)"
proof -
  have wf: "frame_wf f" using reach_frame_wf [OF assms] by simp
  then have r: "frame_ring f" by (simp add: frame_wf_def)
  have "iter_state f i \<noteq> None" if "i \<in> window f" for i using iter_state_live [OF r that] by auto
  moreover have "inj_on (GetIteration f) (window f)"
    using get_iteration_inj [OF r] by (auto simp: inj_on_def)
  moreover have "GetIteration f i = None" if "i + 1 = oldest f" for i
  proof -
    have "i \<le> fs_iteration_count f" using that r by (auto simp: frame_ring_def oldest_def)
    with get_iteration_live [OF r, of i] that show ?thesis by (auto simp: window_def)
  qed
  ultimately show ?thesis using r by (auto simp: frame_ring_def oldest_def)
qed

lemma sample_reach: "reach frame_start (frame_step Map.empty 0) (sample_frame, [])"
proof (rule reach_init)
  obtain f where "new_frame_state sample_frame_info 2 = Some f" "sample_frame = first_iteration f"
    using sample_frame_new by blast
  moreover have "0 \<le> fi_input_count sample_frame_info"
    by (simp add: sample_frame_info_def new_frame_info_def)
  moreover have "(1 :: nat) \<le> 2" by simp
  ultimately show "frame_start (sample_frame, [])" unfolding frame_start_def by blast
qed

lemma sample_frame_fields:
  "fs_num_outstanding_iterations sample_frame = 1" "fs_iteration_count sample_frame = 0"
  "fs_max_parallel_iterations sample_frame = 2" "oldest sample_frame = 0" "window sample_frame = {0}"
  by (auto simp: sample_frame_def first_iteration_def alloc_iteration_def SetIteration_def Let_def
      new_frame_state_def sample_frame_info_def new_frame_info_def ring_index_def oldest_def window_def)

theorem frame_ring_safe_witness:
  "iter_state sample_frame 0 \<noteq> None"
  using frame_ring_safe [OF sample_reach] by (simp add: sample_frame_fields)

text \<open>
  An iteration that is live is done exactly when no operation and no child frame of it
  is outstanding and it is the oldest one; for iteration 0 the inputs of the frame must have
  entered as well. The code asks whether the slot of the previous iteration is null.
\<close>

theorem iteration_done_iff_oldest:
  assumes "reach frame_start (frame_step gview this) (f, ready)" "i \<in> window f"
  shows "IsIterationDone f i = Some (iter_ops f i = 0 \<and> iter_frames f i = 0 \<and> i = oldest f
     \<and> (i = 0 \<longrightarrow> fs_num_pending_inputs f = 0))"
proof -
  have r: "frame_ring f" using reach_frame_wf [OF assms(1)] by (simp add: frame_wf_def)
  have "i = 0 \<Longrightarrow> i = oldest f" using assms(2) by (simp add: window_def)
  then show ?thesis using IsIterationDone_eq [OF r assms(2)] by auto
qed

theorem iteration_done_iff_oldest_witness:
  "IsIterationDone sample_frame 0 = Some (iter_ops sample_frame 0 = 0 \<and> iter_frames sample_frame 0 = 0
     \<and> fs_num_pending_inputs sample_frame = 0)"
  using iteration_done_iff_oldest [OF sample_reach, of 0] by (simp add: sample_frame_fields)

text \<open>
  C15: in a reachable state no operation of the frame follows a null or dangling pointer.
  \<open>CleanupIterations\<close> ends, returns whether the frame is done, and when it starts at the
  oldest iteration leaves no finished iteration behind.
\<close>

theorem frame_cleanup_total:
  assumes "reach frame_start (frame_step gview this) (f, ready)" "i \<in> window f"
  shows "\<exists>f' ready'. CleanupIterations gview this i (f, ready) = Some (f', ready', IsFrameDone f')
     \<and> (i = oldest f \<longrightarrow> fs_num_outstanding_iterations f' = 0 \<or> IsIterationDone f' (oldest f') = Some False)
     \<and> (i \<noteq> oldest f \<longrightarrow> f' = f \<and> ready' = ready)"
  using CleanupIterations_ok [of f gview i this ready] reach_frame_wf [OF assms(1)] assms(2)
  unfolding settled_def by blast

theorem frame_cleanup_total_witness:
  "\<exists>f' ready'. CleanupIterations Map.empty 0 0 (sample_frame, []) = Some (f', ready', IsFrameDone f')
     \<and> (fs_num_outstanding_iterations f' = 0 \<or> IsIterationDone f' (oldest f') = Some False)"
  using frame_cleanup_total [OF sample_reach, of 0] by (simp add: sample_frame_fields)

text \<open>
  An operation that finishes takes one from the count of its iteration; the frame is
  reported done only when it is, and the last operation of the oldest iteration leaves the
  frame settled.
\<close>

theorem frame_finish_op:
  assumes "reach frame_start (frame_step gview this) (f, ready)" "i \<in> window f"
  shows "\<exists>f' ready' done. DecrementOutstandingOps gview this i (f, ready) = Some (f', ready', done)
     \<and> (done \<longrightarrow> IsFrameDone f' \<and> fs_num_outstanding_iterations f' = 0)
     \<and> (iter_ops f i \<noteq> 1 \<longrightarrow> \<not> done \<and> iter_ops f' i = iter_ops f i - 1 \<and> ready' = ready)
     \<and> (iter_ops f i = 1 \<and> i = oldest f \<longrightarrow> settled f')"
  using DecrementOutstandingOps_ok [of f gview i this ready] reach_frame_wf [OF assms(1)] assms(2)
  unfolding IsFrameDone_def by blast

theorem frame_finish_op_witness:
  "\<exists>f' ready' done. DecrementOutstandingOps Map.empty 0 0 (sample_frame, []) = Some (f', ready', done)
     \<and> (done \<longrightarrow> IsFrameDone f' \<and> fs_num_outstanding_iterations f' = 0)
     \<and> (iter_ops sample_frame 0 \<noteq> 1 \<longrightarrow> \<not> done \<and> iter_ops f' 0 = iter_ops sample_frame 0 - 1 \<and> ready' = [])"
  using frame_finish_op [OF sample_reach, of 0] by (simp add: sample_frame_fields) blast

text \<open>
  NextIteration. A frame that is not at its limit can start an iteration; it becomes
  live under the next number, the kept-back values are delivered and forgotten, and the
  oldest iteration is still the same. A loop invariant can be added while inputs are
  pending.
\<close>

theorem frame_next_iteration:
  assumes "reach frame_start (frame_step gview this) (f, ready)"
    and "fs_num_outstanding_iterations f \<noteq> int (fs_max_parallel_iterations f)"
  shows "\<exists>f' new. IncrementIteration gview this (f, ready) = Some (f', ready @ new)
     \<and> window f' = insert (fs_iteration_count f + 1) (window f) \<and> oldest f' = oldest f
     \<and> fs_iteration_count f' = fs_iteration_count f + 1
     \<and> fs_next_iter_roots f' = [] \<and> fs_dead_exits f' = []"
proof -
  have wf: "frame_wf f" "frame_fit gview f" using reach_frame_wf [OF assms(1)] by simp_all
  then have r: "frame_ring f" by (simp add: frame_wf_def)
  moreover have "fs_num_outstanding_iterations f < int (fs_max_parallel_iterations f)"
    using r assms(2) by (simp add: frame_ring_def)
  ultimately show ?thesis using IncrementIteration_ok [of f gview this ready] wf
    unfolding frame_fit_def by blast
qed

theorem frame_next_iteration_witness:
  "\<exists>f' new. IncrementIteration Map.empty 0 (sample_frame, []) = Some (f', new) \<and> window f' = {0, 1}"
  using frame_next_iteration [OF sample_reach] by (simp add: sample_frame_fields insert_commute) blast

text \<open>
  Activating a node in a live iteration keeps the ring, counts in each iteration exactly
  the nodes it made ready there, and never leaves the vectors when its edges fit.
\<close>

theorem activate_conserves_ops:
  assumes "reach frame_start (frame_step gview this) (f, ready)" "i \<in> window f"
    and "edges_fit gview (fs_total_input_tensors f) (length outs) item"
  shows "\<exists>f' outs' new. ActivateNodes gview this item dead i outs ready f = Some (f', outs', ready @ new)
     \<and> window f' = window f
     \<and> (\<forall>t\<in>set new. tn_frame t = this \<and> tn_iter t \<in> window f)
     \<and> (\<forall>j\<in>window f. iter_ops f' j = iter_ops f j + int (length (filter (\<lambda>t. tn_iter t = j) new)))"
proof -
  have r: "frame_ring f" using reach_frame_wf [OF assms(1)] by (simp add: frame_wf_def)
  from ActivateNodes_total [OF r assms(2,3)] obtain f' outs' ready' where
    a: "ActivateNodes gview this item dead i outs ready f = Some (f', outs', ready')" by blast
  note n = ActivateNodes_next [OF r assms(2) a]
  from frame_nextD(5) [OF n] a frame_next_same(1) [OF n] show ?thesis by blast
qed

theorem activate_conserves_ops_witness:
  "\<exists>f' outs' new. ActivateNodes [8 \<mapsto> sample_add] 0 8 False 0 [] [] sample_frame = Some (f', outs', new)
     \<and> window f' = {0}"
proof -
  obtain f where "new_frame_state sample_frame_info 2 = Some f" "sample_frame = first_iteration f"
    using sample_frame_new by blast
  moreover have "0 \<le> fi_input_count sample_frame_info"
    by (simp add: sample_frame_info_def new_frame_info_def)
  moreover have "(1 :: nat) \<le> 2" by simp
  ultimately have "frame_start (sample_frame, [])" unfolding frame_start_def by blast
  then have "reach frame_start (frame_step [8 \<mapsto> sample_add] 0) (sample_frame, [])" by (rule reach_init)
  moreover have "edges_fit [8 \<mapsto> sample_add] (fs_total_input_tensors sample_frame) (length []) 8"
    by (simp add: edges_fit_def sample_add_def InitializeNode_def mk_gnode_def init_edges_def Let_def
        n_num_outputs_def)
  ultimately show ?thesis
    using activate_conserves_ops [of "[8 \<mapsto> sample_add]" 0 sample_frame "[]" 0 "[]" 8 False]
    by (simp add: sample_frame_fields) blast
qed

end
