(* ===== verification/Ready_Queue.thy ===== *)
theory Ready_Queue
  imports Prelude
begin

text \<open>
  \<open>ExecutorState::TaggedNodeReadyQueue\<close> (core/common_runtime/executor.cc): a vector with a
  front index, which the thread of a \<open>Process\<close> call uses as its queue of inlined nodes.
  It provides the interface \<open>fifo\<close>.
\<close>

record 'a ready_queue =
  rq_ready :: "'a list"
  rq_front_index :: nat

definition new_ready_queue :: "'a ready_queue" where
  "new_ready_queue = \<lparr>rq_ready = [], rq_front_index = 0\<rparr>"

definition rq_push_back :: "'a ready_queue \<Rightarrow> 'a \<Rightarrow> 'a ready_queue" where
  "rq_push_back q node = q\<lparr>rq_ready := rq_ready q @ [node]\<rparr>"

definition rq_front :: "'a ready_queue \<Rightarrow> 'a" where
  "rq_front q = rq_ready q ! rq_front_index q"

definition rq_pop_front :: "'a ready_queue \<Rightarrow> 'a ready_queue" where
  "rq_pop_front q =
     (let front_index = rq_front_index q + 1 in
      if front_index = length (rq_ready q) \<or> front_index > 16384
      then (if front_index = length (rq_ready q)
            then q\<lparr>rq_ready := [], rq_front_index := 0\<rparr>
            else q\<lparr>rq_ready := drop front_index (rq_ready q), rq_front_index := 0\<rparr>)
      else q\<lparr>rq_front_index := front_index\<rparr>)"

definition rq_size :: "'a ready_queue \<Rightarrow> nat" where
  "rq_size q = length (rq_ready q)"

definition rq_empty :: "'a ready_queue \<Rightarrow> bool" where
  "rq_empty q = (rq_ready q = [])"

text \<open>\<open>begin()\<close> to \<open>end()\<close>: the elements still to be taken, oldest first.\<close>

definition rq_elems :: "'a ready_queue \<Rightarrow> 'a list" where
  "rq_elems q = drop (rq_front_index q) (rq_ready q)"

definition rq_wf :: "'a ready_queue \<Rightarrow> bool" where
  "rq_wf q = ((if rq_ready q = [] then rq_front_index q = 0
               else rq_front_index q < length (rq_ready q)) \<and> rq_front_index q \<le> 16384)"

lemma rq_wf_new [inv_intros]: "rq_wf new_ready_queue"
  by (simp add: rq_wf_def new_ready_queue_def)

lemma rq_elems_new [simp]: "rq_elems new_ready_queue = []"
  by (simp add: rq_elems_def new_ready_queue_def)

lemma rq_empty_iff: "rq_wf q \<Longrightarrow> rq_empty q \<longleftrightarrow> rq_elems q = []"
  by (auto simp: rq_wf_def rq_empty_def rq_elems_def split: if_splits)

lemma rq_elems_push: "rq_wf q \<Longrightarrow> rq_elems (rq_push_back q x) = rq_elems q @ [x]"
  by (auto simp: rq_wf_def rq_elems_def rq_push_back_def split: if_splits)

lemma rq_elems_pop: "rq_wf q \<Longrightarrow> rq_elems q \<noteq> [] \<Longrightarrow> rq_elems (rq_pop_front q) = tl (rq_elems q)"
  by (auto simp: rq_wf_def rq_elems_def rq_pop_front_def Let_def drop_Suc tl_drop split: if_splits)

interpretation rq: fifo rq_push_back rq_front rq_pop_front rq_empty rq_elems rq_wf
proof
  fix q :: "'a ready_queue" and x :: 'a
  assume q: "rq_wf q"
  show "rq_wf (rq_push_back q x)" using q by (auto simp: rq_wf_def rq_push_back_def split: if_splits)
  show "rq_elems (rq_push_back q x) = rq_elems q @ [x]" by (rule rq_elems_push [OF q])
  show "rq_empty q \<longleftrightarrow> rq_elems q = []" by (rule rq_empty_iff [OF q])
  assume ne: "rq_elems q \<noteq> []"
  show "rq_front q = hd (rq_elems q)"
    using q ne by (auto simp: rq_front_def rq_elems_def rq_wf_def hd_drop_conv_nth split: if_splits)
  show "rq_wf (rq_pop_front q)"
    using q ne by (auto simp: rq_wf_def rq_elems_def rq_pop_front_def Let_def split: if_splits)
  show "rq_elems (rq_pop_front q) = tl (rq_elems q)" by (rule rq_elems_pop [OF q ne])
qed

text \<open>
  The vector with a front index behaves as a first-in first-out queue: what is pushed
  comes out in order, and the queue says it is empty exactly when everything was taken.
\<close>

theorem ready_queue_fifo:
  assumes "rq_wf q"
  shows "rq_elems (foldl rq_push_back q xs) = rq_elems q @ xs \<and> rq_wf (foldl rq_push_back q xs)
    \<and> (\<forall>n < length (rq_elems q). \<not> rq_empty ((rq_pop_front ^^ n) q)
         \<and> rq_front ((rq_pop_front ^^ n) q) = rq_elems q ! n)"
  using rq.push_list [OF assms] rq.nth_pop [OF assms] by blast

theorem ready_queue_fifo_witness:
  "rq_front (rq_pop_front (foldl rq_push_back new_ready_queue [1::nat, 2, 3])) = 2"
proof -
  have wf: "rq_wf (foldl rq_push_back new_ready_queue [1::nat, 2, 3])"
    and el: "rq_elems (foldl rq_push_back new_ready_queue [1::nat, 2, 3]) = [1, 2, 3]"
    using ready_queue_fifo [OF rq_wf_new, of "[1::nat, 2, 3]"] by simp_all
  have "1 < length (rq_elems (foldl rq_push_back new_ready_queue [1::nat, 2, 3]))" unfolding el by simp
  then have "rq_front ((rq_pop_front ^^ 1) (foldl rq_push_back new_ready_queue [1::nat, 2, 3]))
      = rq_elems (foldl rq_push_back new_ready_queue [1::nat, 2, 3]) ! 1"
    using ready_queue_fifo [OF wf, of "[]"] by blast
  then show ?thesis unfolding el by simp
qed

end
