(* ===== verification/Malleability.thy ===== *)
theory Malleability
  imports Prelude
begin

text \<open>
  The elastic part of the executor (core/common_runtime/executor.cc): a signal asks for
  fewer or more active threads, and the request is honoured when a counter reaches a
  threshold taken from the environment. There are two copies of the mechanism, one for the
  inter-op pool (counted in \<open>ScheduleReady\<close>) and one for the intra-op pool (counted in the
  loop of \<open>Process\<close>).

  The pool itself (\<open>ChangeMaxActivesThreads\<close>, \<open>CheckSleep\<close>) is the patched Eigen pool,
  which is not part of the repository: the model returns the argument of every call the
  executor makes to it, in order.
\<close>

section \<open>Signals\<close>

definition SIGUSR1 :: int where "SIGUSR1 = 10"
definition SIGUSR2 :: int where "SIGUSR2 = 12"

text \<open>
  The static \<open>signal_inter_value_\<close> and \<open>signal_intra_value_\<close>: -1 for none, 0 for a
  request to decrement, 1 for a request to increment.
\<close>

record signals =
  sg_inter :: int
  sg_intra :: int

definition new_signals :: signals where
  "new_signals = \<lparr>sg_inter = -1, sg_intra = -1\<rparr>"

definition handler_inter :: "int \<Rightarrow> signals \<Rightarrow> signals" where
  "handler_inter signum s =
     (let s1 = (if signum = SIGUSR1 then s\<lparr>sg_inter := 0\<rparr> else s)
      in if signum = SIGUSR2 then s1\<lparr>sg_inter := 1\<rparr> else s1)"

definition handler_intra :: "int \<Rightarrow> signals \<Rightarrow> signals" where
  "handler_intra signum s =
     (let s1 = (if signum = 16 then s\<lparr>sg_intra := 0\<rparr> else s)
      in if signum = 17 then s1\<lparr>sg_intra := 1\<rparr> else s1)"

definition changeSignalInter :: "signals \<Rightarrow> signals" where
  "changeSignalInter s = s\<lparr>sg_inter := -1\<rparr>"

definition changeSignalIntra :: "signals \<Rightarrow> signals" where
  "changeSignalIntra s = s\<lparr>sg_intra := -1\<rparr>"

text \<open>The handlers the constructor installs: the signal number to the handler.\<close>

definition deliver :: "int \<Rightarrow> signals \<Rightarrow> signals" where
  "deliver signum s =
     (if signum = SIGUSR1 \<or> signum = SIGUSR2 then handler_inter signum s
      else if signum = 16 \<or> signum = 17 then handler_intra signum s
      else s)"

section \<open>Thresholds\<close>

record thresholds =
  th_max_threads :: int
  th_min_threads :: int
  th_iteration_down :: int
  th_iteration_up :: int

text \<open>
  The start of \<open>RunAsync\<close>. \<open>atoi\<close> is called on the result of \<open>getenv\<close> without a test
  for null: an unset variable is \<open>None\<close>.
\<close>

definition read_thresholds :: "(string \<Rightarrow> int) \<Rightarrow> (string \<Rightarrow> string option) \<Rightarrow> thresholds option" where
  "read_thresholds atoi getenv =
     (case (getenv ''MAX_ENV_THREADS'', getenv ''MIN_ENV_THREADS'',
            getenv ''ITERATION_DOWN'', getenv ''ITERATION_UP'') of
        (Some mx, Some mn, Some dn, Some up) \<Rightarrow>
          Some \<lparr>th_max_threads = atoi mx, th_min_threads = atoi mn,
                th_iteration_down = atoi dn, th_iteration_up = atoi up\<rparr>
      | _ \<Rightarrow> None)"

section \<open>The counters\<close>

text \<open>
  One pass through the counter block of \<open>ScheduleReady\<close>: the new counter and signals, and
  the arguments of the calls to \<open>ChangeMaxActivesThreads\<close>. Counters are \<open>int\<close>.
\<close>

definition inter_tick :: "thresholds \<Rightarrow> 32 word \<times> signals \<Rightarrow> (32 word \<times> signals) \<times> int list" where
  "inter_tick th st =
     (case st of (counter0, s) \<Rightarrow>
      (let counter = counter0 + 1;
           (s1, calls1) =
             (if sint counter = th_iteration_down th \<and> sg_inter s = 0
              then (changeSignalInter s, [th_min_threads th]) else (s, []));
           (s2, calls2) =
             (if sint counter = th_iteration_up th \<and> sg_inter s1 = 1
              then (changeSignalInter s1, [th_max_threads th]) else (s1, []))
       in ((counter, s2), calls1 @ calls2)))"

text \<open>The same at the head of the loop of \<open>Process\<close>, on the intra-op pool.\<close>

definition intra_tick :: "thresholds \<Rightarrow> 32 word \<times> signals \<Rightarrow> (32 word \<times> signals) \<times> int list" where
  "intra_tick th st =
     (case st of (counter0, s) \<Rightarrow>
      (let counter = counter0 + 1;
           (s1, calls1) =
             (if sint counter = th_iteration_down th \<and> sg_intra s = 0
              then (changeSignalIntra s, [th_min_threads th]) else (s, []));
           (s2, calls2) =
             (if sint counter = th_iteration_up th \<and> sg_intra s1 = 1
              then (changeSignalIntra s1, [th_max_threads th]) else (s1, []))
       in ((counter, s2), calls1 @ calls2)))"

section \<open>Histories\<close>

text \<open>
  A history interleaves deliveries of signals with passes through the counter block (the
  mutexes make each of them one step). The signal values belong to the process: \<open>Taken\<close> is
  the moment at which the executor of another step honours the request and resets it.
\<close>

datatype event = Signal int | Tick | Taken

definition inter_event :: "thresholds \<Rightarrow> 32 word \<times> signals \<Rightarrow> event \<Rightarrow> (32 word \<times> signals) \<times> int list" where
  "inter_event th st e = (case e of Signal n \<Rightarrow> ((fst st, deliver n (snd st)), []) | Tick \<Rightarrow> inter_tick th st
     | Taken \<Rightarrow> ((fst st, changeSignalInter (snd st)), []))"

definition intra_event :: "thresholds \<Rightarrow> 32 word \<times> signals \<Rightarrow> event \<Rightarrow> (32 word \<times> signals) \<times> int list" where
  "intra_event th st e = (case e of Signal n \<Rightarrow> ((fst st, deliver n (snd st)), []) | Tick \<Rightarrow> intra_tick th st
     | Taken \<Rightarrow> ((fst st, changeSignalIntra (snd st)), []))"

text \<open>
  The two mechanisms are the same machine up to which request they read. The abstract
  machine: a counter as a number and the one pending request.
\<close>

datatype request = Fewer | More

record elastic =
  el_count :: int
  el_request :: "request option"

fun elastic_event :: "thresholds \<Rightarrow> (int \<Rightarrow> request option) \<Rightarrow> elastic \<Rightarrow> event \<Rightarrow> elastic \<times> int list" where
  "elastic_event th req m (Signal n) =
     (case req n of None \<Rightarrow> (m, []) | Some r \<Rightarrow> (m\<lparr>el_request := Some r\<rparr>, []))"
| "elastic_event th req m Taken = (m\<lparr>el_request := None\<rparr>, [])"
| "elastic_event th req m Tick =
     (let k = el_count m + 1 in
      if k = th_iteration_down th \<and> el_request m = Some Fewer
      then (\<lparr>el_count = k, el_request = None\<rparr>, [th_min_threads th])
      else if k = th_iteration_up th \<and> el_request m = Some More
      then (\<lparr>el_count = k, el_request = None\<rparr>, [th_max_threads th])
      else (m\<lparr>el_count := k\<rparr>, []))"

definition request_of :: "int \<Rightarrow> request option" where
  "request_of v = (if v = 0 then Some Fewer else if v = 1 then Some More else None)"

definition req_inter :: "int \<Rightarrow> request option" where
  "req_inter n = (if n = SIGUSR1 then Some Fewer else if n = SIGUSR2 then Some More else None)"

definition req_intra :: "int \<Rightarrow> request option" where
  "req_intra n = (if n = 16 then Some Fewer else if n = 17 then Some More else None)"

definition elastic_ok :: "elastic \<Rightarrow> event \<Rightarrow> bool" where
  "elastic_ok m e = (el_count m + 1 < 2 ^ 31)"

definition inter_abs :: "32 word \<times> signals \<Rightarrow> elastic" where
  "inter_abs st = \<lparr>el_count = sint (fst st), el_request = request_of (sg_inter (snd st))\<rparr>"

definition intra_abs :: "32 word \<times> signals \<Rightarrow> elastic" where
  "intra_abs st = \<lparr>el_count = sint (fst st), el_request = request_of (sg_intra (snd st))\<rparr>"

lemma count_step:
  assumes "sint (w :: 32 word) + 1 < 2 ^ 31"
  shows "sint (w + 1) = sint w + 1"
proof -
  have "- (2 ^ 31) \<le> sint w" using sint_greater_eq [of w] by simp
  then have "- (2 ^ 31) \<le> sint w + 1" by simp
  then have "signed_take_bit 31 (sint w + 1) = sint w + 1" using assms by (simp only: signed_take_bit_int_eq_self_iff)
  then show ?thesis by (simp add: sint_word_ariths)
qed

lemma inter_sim:
  assumes "elastic_ok (inter_abs st) e"
  shows "(inter_abs (fst (inter_event th st e)), snd (inter_event th st e))
     = elastic_event th req_inter (inter_abs st) e"
proof -
  obtain w s where st: "st = (w, s)" by (cases st)
  show ?thesis
  proof (cases e)
    case (Signal n)
    then show ?thesis
      by (auto simp: st inter_event_def inter_abs_def deliver_def handler_inter_def handler_intra_def
          Let_def req_inter_def request_of_def SIGUSR1_def SIGUSR2_def)
  next
    case Taken
    then show ?thesis by (simp add: st inter_event_def inter_abs_def changeSignalInter_def request_of_def)
  next
    case Tick
    have "sint w + 1 < 2 ^ 31" using assms by (simp add: elastic_ok_def inter_abs_def st)
    note c = count_step [OF this]
    show ?thesis using c unfolding Tick
      by (auto simp: st inter_event_def inter_tick_def inter_abs_def changeSignalInter_def Let_def
          request_of_def split: if_splits)
  qed
qed

lemma intra_sim:
  assumes "elastic_ok (intra_abs st) e"
  shows "(intra_abs (fst (intra_event th st e)), snd (intra_event th st e))
     = elastic_event th req_intra (intra_abs st) e"
proof -
  obtain w s where st: "st = (w, s)" by (cases st)
  show ?thesis
  proof (cases e)
    case (Signal n)
    then show ?thesis
      by (auto simp: st intra_event_def intra_abs_def deliver_def handler_inter_def handler_intra_def
          Let_def req_intra_def request_of_def SIGUSR1_def SIGUSR2_def)
  next
    case Taken
    then show ?thesis by (simp add: st intra_event_def intra_abs_def changeSignalIntra_def request_of_def)
  next
    case Tick
    have "sint w + 1 < 2 ^ 31" using assms by (simp add: elastic_ok_def intra_abs_def st)
    note c = count_step [OF this]
    show ?thesis using c unfolding Tick
      by (auto simp: st intra_event_def intra_tick_def intra_abs_def changeSignalIntra_def Let_def
          request_of_def split: if_splits)
  qed
qed

interpretation inter: simulation inter_abs "inter_event th" "elastic_event th req_inter"
    "\<lambda>_. True" elastic_ok for th
  by unfold_locales (auto simp: inter_sim)

interpretation intra: simulation intra_abs "intra_event th" "elastic_event th req_intra"
    "\<lambda>_. True" elastic_ok for th
  by unfold_locales (auto simp: intra_sim)

section \<open>Which requests are honoured\<close>

definition ticks :: "event list \<Rightarrow> nat" where
  "ticks es = length (filter (\<lambda>e. e = Tick) es)"

text \<open>The request pending after a history: \<open>r0\<close> at its start, then the last signal not taken.\<close>

definition last_request :: "(int \<Rightarrow> request option) \<Rightarrow> request option \<Rightarrow> event list \<Rightarrow> request option" where
  "last_request req r0 es = foldl (\<lambda>r e. case e of Tick \<Rightarrow> r | Taken \<Rightarrow> None
      | Signal n \<Rightarrow> (case req n of None \<Rightarrow> r | Some q \<Rightarrow> Some q)) r0 es"

definition elastic_rel :: "thresholds \<Rightarrow> (int \<Rightarrow> request option) \<Rightarrow> elastic \<Rightarrow> event list \<Rightarrow> elastic \<Rightarrow> bool" where
  "elastic_rel th req m0 es m =
     (let k = el_count m0 + int (ticks es); r = last_request req (el_request m0) es in
      el_count m = k
      \<and> (el_request m = r
         \<or> (el_request m = None \<and> (r = Some Fewer \<longrightarrow> th_iteration_down th \<le> k) \<and> (r = Some More \<longrightarrow> th_iteration_up th \<le> k))))"

text \<open>
  What the pass after the history \<open>es\<close> asks of the pool, when the counter was \<open>k0\<close> and the
  pending request \<open>r0\<close> at its start.
\<close>

definition honoured :: "thresholds \<Rightarrow> (int \<Rightarrow> request option) \<Rightarrow> int \<Rightarrow> request option \<Rightarrow> event list \<Rightarrow> event \<Rightarrow> int list" where
  "honoured th req k0 r0 es e =
     (let k = k0 + int (ticks es) + 1; r = last_request req r0 es in
      if e = Tick \<and> k = th_iteration_down th \<and> r = Some Fewer then [th_min_threads th]
      else if e = Tick \<and> k = th_iteration_up th \<and> r = Some More then [th_max_threads th] else [])"

lemma elastic_rel_step:
  assumes "elastic_rel th req m0 es m"
  shows "elastic_rel th req m0 (es @ [e]) (fst (elastic_event th req m e))"
    and "snd (elastic_event th req m e) = honoured th req (el_count m0) (el_request m0) es e"
proof -
  have "elastic_rel th req m0 (es @ [e]) (fst (elastic_event th req m e))
     \<and> snd (elastic_event th req m e) = honoured th req (el_count m0) (el_request m0) es e"
  proof (cases e)
    case (Signal n)
    then show ?thesis using assms
      by (cases "req n") (auto simp: elastic_rel_def honoured_def ticks_def last_request_def Let_def)
  next
    case Tick
    then show ?thesis using assms
      by (cases "last_request req (el_request m0) es"; cases "the (last_request req (el_request m0) es)")
        (auto simp: elastic_rel_def honoured_def ticks_def last_request_def Let_def)
  next
    case Taken
    then show ?thesis using assms by (auto simp: elastic_rel_def honoured_def ticks_def last_request_def Let_def)
  qed
  then show "elastic_rel th req m0 (es @ [e]) (fst (elastic_event th req m e))"
    "snd (elastic_event th req m e) = honoured th req (el_count m0) (el_request m0) es e" by auto
qed

lemma elastic_run:
  assumes "el_count m0 + int (ticks es) + 1 < 2 ^ 31"
  shows "elastic_rel th req m0 es (fst (run (elastic_event th req) m0 es))
    \<and> snd (run (elastic_event th req) m0 es)
        = map (\<lambda>i. honoured th req (el_count m0) (el_request m0) (take i es) (es ! i)) [0..<length es]
    \<and> run_ok (elastic_event th req) elastic_ok m0 es"
  using assms
proof (induction es rule: rev_induct)
  case Nil
  then show ?case by (simp add: elastic_rel_def ticks_def last_request_def)
next
  case (snoc e es)
  let ?h = "honoured th req (el_count m0) (el_request m0)"
  have "ticks es \<le> ticks (es @ [e])" by (simp add: ticks_def)
  then have lt: "el_count m0 + int (ticks es) + 1 < 2 ^ 31" using snoc.prems by linarith
  note IH = snoc.IH [OF lt]
  obtain m r where m: "run (elastic_event th req) m0 es = (m, r)" by fastforce
  have rel: "elastic_rel th req m0 es m" using IH m by simp
  note st = elastic_rel_step [OF rel, of e]
  have outs: "map (\<lambda>i. ?h (take i (es @ [e])) ((es @ [e]) ! i)) [0..<length (es @ [e])]
      = map (\<lambda>i. ?h (take i es) (es ! i)) [0..<length es] @ [?h es e]"
    by (auto simp: nth_append)
  have ok: "elastic_ok m e" using lt rel by (simp add: elastic_rel_def elastic_ok_def Let_def)
  show ?case using IH st m outs ok
    by (simp add: run_snoc run_ok_append split_beta del: upt_Suc)
qed

section \<open>Properties\<close>

text \<open>
  C23: whatever the counter and the signal value of the process are when a step starts (the
  code sets neither), over any history of signals, scheduling passes and requests taken by other
  steps, short of an overflow of the counter: the inter-op pool is asked for
  \<open>MIN_ENV_THREADS\<close> exactly at the pass at which the counter becomes \<open>ITERATION_DOWN\<close>, if the
  pending request is that of SIGUSR1, for \<open>MAX_ENV_THREADS\<close> exactly at the pass at which it
  becomes \<open>ITERATION_UP\<close>, if the pending request is that of SIGUSR2, and for nothing else.
\<close>

theorem inter_requests_honoured:
  assumes "sint counter + int (ticks es) + 1 < 2 ^ 31"
  shows "snd (run (inter_event th) (counter, signals) es)
     = map (\<lambda>i. honoured th req_inter (sint counter) (request_of (sg_inter signals)) (take i es) (es ! i)) [0..<length es]"
proof -
  have i: "inter_abs (counter, signals) = \<lparr>el_count = sint counter, el_request = request_of (sg_inter signals)\<rparr>"
    by (simp add: inter_abs_def)
  then have "el_count (inter_abs (counter, signals)) + int (ticks es) + 1 < 2 ^ 31" using assms by simp
  note elastic_run [OF this, of th req_inter]
  then show ?thesis using inter.sim_outputs [of th "(counter, signals)" es] i by simp
qed

theorem inter_requests_honoured_witness:
  "snd (run (inter_event \<lparr>th_max_threads = 8, th_min_threads = 2, th_iteration_down = 2, th_iteration_up = 4\<rparr>)
      (-1, new_signals\<lparr>sg_inter := 0\<rparr>) [Tick, Tick, Tick, Signal 12, Taken, Signal 12, Tick, Tick]) = [[], [], [2], [], [], [], [], [8]]"
proof -
  have "sint (-1 :: 32 word) + int (ticks [Tick, Tick, Tick, Signal 12, Taken, Signal 12, Tick, Tick]) + 1 < 2 ^ 31" by (simp add: ticks_def)
  from inter_requests_honoured [OF this] show ?thesis
    by (simp add: honoured_def ticks_def last_request_def req_inter_def request_of_def SIGUSR1_def SIGUSR2_def)
qed

text \<open>
  The same for the intra-op pool, whose requests are the signals 16 and 17 and whose
  counter counts the nodes processed.
\<close>

theorem intra_requests_honoured:
  assumes "sint counter + int (ticks es) + 1 < 2 ^ 31"
  shows "snd (run (intra_event th) (counter, signals) es)
     = map (\<lambda>i. honoured th req_intra (sint counter) (request_of (sg_intra signals)) (take i es) (es ! i)) [0..<length es]"
proof -
  have i: "intra_abs (counter, signals) = \<lparr>el_count = sint counter, el_request = request_of (sg_intra signals)\<rparr>"
    by (simp add: intra_abs_def)
  then have "el_count (intra_abs (counter, signals)) + int (ticks es) + 1 < 2 ^ 31" using assms by simp
  note elastic_run [OF this, of th req_intra]
  then show ?thesis using intra.sim_outputs [of th "(counter, signals)" es] i by simp
qed

theorem intra_requests_honoured_witness:
  "snd (run (intra_event \<lparr>th_max_threads = 8, th_min_threads = 2, th_iteration_down = 1, th_iteration_up = 2\<rparr>)
      (0, new_signals) [Signal 16, Tick, Signal 17, Tick]) = [[], [2], [], [8]]"
proof -
  have "sint (0 :: 32 word) + int (ticks [Signal 16, Tick, Signal 17, Tick]) + 1 < 2 ^ 31" by (simp add: ticks_def)
  from intra_requests_honoured [OF this] show ?thesis
    by (simp add: honoured_def ticks_def last_request_def req_intra_def new_signals_def request_of_def)
qed

text \<open>
  A request that arrives when both thresholds have been passed is never honoured: the
  rest of the step makes no call to the pool, whatever signals come.
\<close>

theorem late_requests_lost:
  assumes "sint counter + int (ticks (es @ fs)) + 1 < 2 ^ 31"
    and "th_iteration_down th \<le> sint counter + int (ticks es)" "th_iteration_up th \<le> sint counter + int (ticks es)"
  shows "concat (drop (length es) (snd (run (inter_event th) (counter, signals) (es @ fs)))) = []"
proof -
  let ?h = "honoured th req_inter (sint counter) (request_of (sg_inter signals))"
  have i: "inter_abs (counter, signals) = \<lparr>el_count = sint counter, el_request = request_of (sg_inter signals)\<rparr>"
    by (simp add: inter_abs_def)
  then have "el_count (inter_abs (counter, signals)) + int (ticks (es @ fs)) + 1 < 2 ^ 31" using assms(1) by simp
  note R = elastic_run [OF this, of th req_inter]
  have outs: "snd (run (inter_event th) (counter, signals) (es @ fs))
     = map (\<lambda>i. ?h (take i (es @ fs)) ((es @ fs) ! i)) [0..<length (es @ fs)]"
    using inter.sim_outputs [of th "(counter, signals)" "es @ fs"] R i by simp
  have "?h (take i (es @ fs)) e = []" if "length es \<le> i" for i e
  proof -
    have "ticks es \<le> ticks (take i (es @ fs))" using that by (simp add: ticks_def)
    then show ?thesis using assms(2,3) by (auto simp: honoured_def Let_def)
  qed
  then show ?thesis unfolding outs by (auto simp: drop_map)
qed

theorem late_requests_lost_witness:
  "concat (drop 3 (snd (run
      (inter_event \<lparr>th_max_threads = 8, th_min_threads = 2, th_iteration_down = 1, th_iteration_up = 2\<rparr>)
      (0, new_signals) ([Tick, Tick, Tick] @ [Signal 10, Tick, Signal 12, Tick])))) = []"
proof -
  have "sint (0 :: 32 word) + int (ticks ([Tick, Tick, Tick] @ [Signal 10, Tick, Signal 12, Tick])) + 1 < 2 ^ 31" by (simp add: ticks_def)
  from late_requests_lost [OF this, of "\<lparr>th_max_threads = 8, th_min_threads = 2,
      th_iteration_down = 1, th_iteration_up = 2\<rparr>" new_signals] show ?thesis
    by (simp add: ticks_def numeral_3_eq_3 del: run.simps append.simps concat_eq_Nil_conv)
qed

end
