(* ===== verification/Data_Types.thy ===== *)
theory Data_Types
  imports Status_Model
begin

text \<open>
  core/framework/types.cc and types.h: data types as numbers (those of types.proto, a
  reference type being its value type plus 100), their names, and parsing of names.
\<close>

definition kDataTypeRefOffset :: nat where "kDataTypeRefOffset = 100"

definition DT_STRING :: nat where "DT_STRING = 7"
definition DT_STRING_REF :: nat where "DT_STRING_REF = 107"
definition DT_RESOURCE :: nat where "DT_RESOURCE = 20"

definition IsRefType :: "nat \<Rightarrow> bool" where
  "IsRefType dtype = (dtype > kDataTypeRefOffset)"

definition MakeRefType :: "nat \<Rightarrow> nat" where
  "MakeRefType dtype = dtype + kDataTypeRefOffset"

definition RemoveRefType :: "nat \<Rightarrow> nat" where
  "RemoveRefType dtype = dtype - kDataTypeRefOffset"

definition BaseType :: "nat \<Rightarrow> nat" where
  "BaseType dtype = (if IsRefType dtype then RemoveRefType dtype else dtype)"

definition TypesCompatible :: "nat \<Rightarrow> nat \<Rightarrow> bool" where
  "TypesCompatible expected actual = (expected = actual \<or> expected = BaseType actual)"

text \<open>The switch of \<open>DataTypeStringInternal\<close>, in the order of the enum values.\<close>

definition data_type_names :: "string list" where
  "data_type_names =
     [''INVALID'', ''float'', ''double'', ''int32'', ''uint8'', ''int16'', ''int8'', ''string'',
      ''complex64'', ''int64'', ''bool'', ''qint8'', ''quint8'', ''qint32'', ''bfloat16'',
      ''qint16'', ''quint16'', ''uint16'', ''complex128'', ''half'', ''resource'', ''variant'',
      ''uint32'', ''uint64'']"

definition DataTypeStringInternal :: "nat \<Rightarrow> string" where
  "DataTypeStringInternal dtype =
     (if dtype < length data_type_names then data_type_names ! dtype
      else ''unknown dtype enum ('' @ show_nat dtype @ '')'')"

definition DataTypeString :: "nat \<Rightarrow> string" where
  "DataTypeString dtype =
     (if IsRefType dtype then DataTypeStringInternal (dtype - kDataTypeRefOffset) @ ''_ref''
      else DataTypeStringInternal dtype)"

text \<open>The chain of comparisons of \<open>DataTypeFromString\<close>, after the suffix was handled.\<close>

definition base_type_from_string :: "string \<Rightarrow> nat option" where
  "base_type_from_string sp =
     map_of [(''float'', 1), (''float32'', 1), (''double'', 2), (''float64'', 2), (''int32'', 3),
       (''uint32'', 22), (''uint8'', 4), (''uint16'', 17), (''int16'', 5), (''int8'', 6),
       (''string'', 7), (''complex64'', 8), (''complex128'', 18), (''int64'', 9), (''uint64'', 23),
       (''bool'', 10), (''qint8'', 11), (''quint8'', 12), (''qint16'', 15), (''quint16'', 16),
       (''qint32'', 13), (''bfloat16'', 14), (''half'', 19), (''float16'', 19),
       (''resource'', 20), (''variant'', 21)] sp"

text \<open>
  The suffix test is \<open>absl::EndsWith\<close>, which is not part of the repository: the parameter
  \<open>ends_with\<close>, with its documented meaning as \<open>ends_with_spec\<close>. Removing four characters from
  a shorter string is undefined, here \<open>None\<close>.
\<close>

definition ends_with_spec :: "(string \<Rightarrow> string \<Rightarrow> bool) \<Rightarrow> bool" where
  "ends_with_spec ends_with = (\<forall>s suffix. ends_with s suffix \<longleftrightarrow>
     length suffix \<le> length s \<and> drop (length s - length suffix) s = suffix)"

function DataTypeFromString :: "(string \<Rightarrow> string \<Rightarrow> bool) \<Rightarrow> string \<Rightarrow> nat option" where
  "DataTypeFromString ends_with sp =
     (if ends_with sp ''_ref'' then
        (if length sp < 4 then None
         else case DataTypeFromString ends_with (take (length sp - 4) sp) of
           None \<Rightarrow> None
         | Some non_ref \<Rightarrow> if \<not> IsRefType non_ref then Some (non_ref + kDataTypeRefOffset) else None)
      else base_type_from_string sp)"
  by pat_completeness auto
termination
  by (relation "measure (length \<circ> snd)") auto

declare DataTypeFromString.simps [simp del]

definition DataTypeAlwaysOnHost :: "nat \<Rightarrow> bool" where
  "DataTypeAlwaysOnHost dt = (dt = DT_STRING \<or> dt = DT_STRING_REF \<or> dt = DT_RESOURCE)"

fun DataTypeSliceString :: "nat list \<Rightarrow> string" where
  "DataTypeSliceString [] = []"
| "DataTypeSliceString [t] = DataTypeString t"
| "DataTypeSliceString (t # ts) = DataTypeString t @ '', '' @ DataTypeSliceString ts"

section \<open>Names and types\<close>

definition valid_type :: "nat \<Rightarrow> bool" where
  "valid_type dt = (1 \<le> BaseType dt \<and> BaseType dt \<le> 23)"

lemma valid_base_cases:
  assumes "1 \<le> (n::nat)" "n \<le> 23"
  shows "n \<in> {1, 2, 3, 4, 5, 6, 7, 8, 9, 10, 11, 12, 13, 14, 15, 16, 17, 18, 19, 20, 21, 22, 23}"
  using assms by simp presburger

lemma base_name_parses:
  assumes "1 \<le> n" "n \<le> 23"
  shows "base_type_from_string (DataTypeStringInternal n) = Some n"
    "drop (length (DataTypeStringInternal n) - 4) (DataTypeStringInternal n) \<noteq> ''_ref''"
proof -
  have "base_type_from_string (DataTypeStringInternal n) = Some n
      \<and> drop (length (DataTypeStringInternal n) - 4) (DataTypeStringInternal n) \<noteq> ''_ref''"
    using valid_base_cases [OF assms]
    by (elim insertE emptyE; simp only:; code_simp)
  then show "base_type_from_string (DataTypeStringInternal n) = Some n"
    "drop (length (DataTypeStringInternal n) - 4) (DataTypeStringInternal n) \<noteq> ''_ref''" by auto
qed

lemma parse_base:
  "ends_with_spec ends \<Longrightarrow> 1 \<le> n \<Longrightarrow> n \<le> 23 \<Longrightarrow>
     DataTypeFromString ends (DataTypeStringInternal n) = Some n"
  using base_name_parses [of n]
  by (subst DataTypeFromString.simps) (simp add: ends_with_spec_def numeral_eq_Suc)

text \<open>
  The name of every type, reference types included, parses back to the type.
\<close>

theorem data_type_name_roundtrip:
  assumes "ends_with_spec ends_with" "valid_type dt"
  shows "DataTypeFromString ends_with (DataTypeString dt) = Some dt"
proof (cases "IsRefType dt")
  case False
  then show ?thesis using assms parse_base [OF assms(1), of dt]
    by (simp add: DataTypeString_def valid_type_def BaseType_def)
next
  case True
  let ?n = "dt - kDataTypeRefOffset"
  have n: "1 \<le> ?n" "?n \<le> 23" using assms True by (simp_all add: valid_type_def BaseType_def RemoveRefType_def)
  have e: "ends_with (DataTypeStringInternal ?n @ ''_ref'') ''_ref''" using assms(1) by (simp add: ends_with_spec_def)
  have "\<not> IsRefType ?n" using n by (simp add: IsRefType_def kDataTypeRefOffset_def)
  then have "DataTypeFromString ends_with (DataTypeStringInternal ?n @ ''_ref'') = Some (?n + kDataTypeRefOffset)"
    using parse_base [OF assms(1) n] e by (subst DataTypeFromString.simps) simp
  then show ?thesis using True by (simp add: DataTypeString_def IsRefType_def)
qed

theorem data_type_name_roundtrip_witness:
  "DataTypeFromString (\<lambda>s suffix. length suffix \<le> length s \<and> drop (length s - length suffix) s = suffix)
     (DataTypeString 107) = Some 107"
  by (rule data_type_name_roundtrip)
    (simp_all add: ends_with_spec_def valid_type_def BaseType_def IsRefType_def RemoveRefType_def kDataTypeRefOffset_def)

end
