(* ===== verification/Executor.thy ===== *)
theory Executor
  imports Frames Data_Types Ready_Queue Malleability
begin

text \<open>
  The operations of \<open>ExecutorState\<close> (core/common_runtime/executor.cc) that run one node:
  its inputs are prepared, its outputs collected and propagated through the frames, the
  frames that are done deleted, and the nodes that became ready scheduled.

  Frames are in a heap (\<open>xs_frames\<close>); a parent pointer is an address. \<open>None\<close> is, as in the
  theory of frames, a null or dangling pointer or an index outside a vector.
\<close>

section \<open>Preparing inputs\<close>

text \<open>A \<open>TensorValue\<close>: nothing, a value, or a reference with its mutex.\<close>

datatype tensor_value = TV_None | TV_Val tensor | TV_Ref nat nat

text \<open>\<open>kEmptyTensor\<close>: a default tensor, of type float and not initialised.\<close>

definition kEmptyTensor :: tensor where
  "kEmptyTensor = \<lparr>t_dtype = 1, t_initialized = False, t_buffer = 0\<rparr>"

text \<open>
  The body of the loop of \<open>PrepareInputs\<close> for input \<open>i\<close>: the status (an error leaves the
  loop), the entry as it is left behind, the input of the kernel, and whether the input was
  found dead. \<open>store\<close> holds the tensors that references point to.
\<close>

definition prepare_input ::
  "(nat \<Rightarrow> tensor) \<Rightarrow> node_item \<Rightarrow> kernel \<Rightarrow> nat \<Rightarrow> entry \<Rightarrow> status \<times> entry \<times> tensor_value \<times> bool" where
  "prepare_input store item k i entry =
     (let expect_ref = IsRefType (input_types item ! i);
          val = (case en_val entry of None \<Rightarrow> kEmptyTensor | Some t \<Rightarrow> t)
      in if \<not> en_has_value entry then
           (if \<not> is_merge item
            then (ok_status, entry\<lparr>en_has_value := True, en_val := Some kEmptyTensor\<rparr>,
                  TV_Val kEmptyTensor, True)
            else (ok_status, entry, TV_None, False))
         else (case en_ref entry of
           None \<Rightarrow>
             (if expect_ref
              then (attach_def (mk_status INVALID_ARGUMENT (show_nat i @ ''-th input expects a ref type''))
                      (n_name (k_def k)) False, entry, TV_None, False)
              else (ok_status, entry, TV_Val val, False))
         | Some r \<Rightarrow>
             (if \<not> t_initialized (store r) \<and> \<not> is_initialization_op item
              then (attach_def (mk_status FAILED_PRECONDITION
                      (''Attempting to use uninitialized value '' @ k_requested_inputs k ! i))
                      (n_name (k_def k)) False, entry, TV_None, False)
              else if expect_ref
              then (ok_status, entry, TV_Ref r (case en_ref_mu entry of None \<Rightarrow> 0 | Some m \<Rightarrow> m), False)
              else
                (let t = store r;
                     entry' = entry\<lparr>en_val := Some t, en_ref := None, en_ref_mu := None\<rparr>
                 in if input_types item ! i \<noteq> t_dtype t
                    then (attach_def (mk_status INVALID_ARGUMENT
                            (show_nat i @ ''-th input expects type ''
                             @ DataTypeString (input_types item ! i)
                             @ '' but automatically dereferenced input tensor has type ''
                             @ DataTypeString (t_dtype t)))
                            (n_name (k_def k)) False, entry', TV_None, False)
                    else (ok_status, entry', TV_Val t, False)))))"

fun prepare_loop ::
  "(nat \<Rightarrow> tensor) \<Rightarrow> node_item \<Rightarrow> kernel \<Rightarrow> nat \<Rightarrow> entry list
     \<Rightarrow> status \<times> entry list \<times> tensor_value list \<times> bool" where
  "prepare_loop store item k i [] = (ok_status, [], [], False)"
| "prepare_loop store item k i (e # es) =
     (let (s, e', inp, dead) = prepare_input store item k i e in
      if \<not> status_ok s then (s, e' # es, [inp], dead)
      else let (s', es', inps, dead') = prepare_loop store item k (i + 1) es
           in (s', e' # es', inp # inps, dead \<or> dead'))"

text \<open>
  \<open>PrepareInputs\<close> on the entries \<open>first_input\<close> to \<open>first_input + num_inputs\<close>, with the
  allocator attributes of the inputs.
\<close>

definition PrepareInputs ::
  "(nat \<Rightarrow> tensor) \<Rightarrow> node_item \<Rightarrow> kernel \<Rightarrow> entry list
     \<Rightarrow> status \<times> entry list \<times> tensor_value list \<times> alloc_attrs list \<times> bool" where
  "PrepareInputs store item k first_input =
     (let entries = take (num_inputs item) first_input;
          (s, es, inputs, dead) = prepare_loop store item k 0 entries
      in (s, es @ drop (num_inputs item) first_input, inputs, map en_alloc_attr entries, dead))"

text \<open>The calls of \<open>ClearVal\<close> on the inputs once the node has run.\<close>

definition clear_inputs :: "node_item \<Rightarrow> entry list \<Rightarrow> entry list" where
  "clear_inputs item first_input =
     map clear_val (take (num_inputs item) first_input) @ drop (num_inputs item) first_input"

section \<open>Collecting outputs\<close>

text \<open>
  One iteration of the loop of \<open>ProcessOutputs\<close>: the entry for output \<open>i\<close> and the status
  so far. \<open>attr\<close> is the allocator attribute the context reports.
\<close>

definition process_output ::
  "(nat \<Rightarrow> tensor) \<Rightarrow> node_item \<Rightarrow> kernel \<Rightarrow> nat \<Rightarrow> tensor_value \<Rightarrow> alloc_attrs \<Rightarrow> status \<Rightarrow> entry \<times> status" where
  "process_output store item k i val attr s =
     (case val of
        TV_None \<Rightarrow>
          (new_entry,
           if \<not> is_recv_or_switch item
           then status_update s (mk_status INTERNAL (''Missing '' @ show_nat i @ ''-th output from ''
                  @ format_node_name_for_error (n_name (k_def k))))
           else s)
      | _ \<Rightarrow>
          (let out = new_entry\<lparr>en_alloc_attr := attr\<rparr>;
               dtype = (case val of TV_Val t \<Rightarrow> t_dtype t | TV_Ref r _ \<Rightarrow> MakeRefType (t_dtype (store r))
                          | TV_None \<Rightarrow> 0)
           in if dtype = output_types item ! i
              then (case val of
                      TV_Ref r mu \<Rightarrow> (out\<lparr>en_has_value := True, en_ref := Some r, en_ref_mu := Some mu\<rparr>, s)
                    | TV_Val t \<Rightarrow> (out\<lparr>en_has_value := True, en_val := Some t\<rparr>, s)
                    | TV_None \<Rightarrow> (out, s))
              else (out, status_update s (mk_status INTERNAL
                     (''Output '' @ show_nat i @ '' of type '' @ DataTypeString dtype
                      @ '' does not match declared output type '' @ DataTypeString (output_types item ! i)
                      @ '' for node '' @ format_node_name_for_error (n_name (k_def k)))))))"

fun process_outputs_loop ::
  "(nat \<Rightarrow> tensor) \<Rightarrow> node_item \<Rightarrow> kernel \<Rightarrow> nat \<Rightarrow> (tensor_value \<times> alloc_attrs) list \<Rightarrow> status
     \<Rightarrow> entry list \<times> status" where
  "process_outputs_loop store item k i [] s = ([], s)"
| "process_outputs_loop store item k i ((v, attr) # vs) s =
     (let (e, s1) = process_output store item k i v attr s;
          (es, s2) = process_outputs_loop store item k (i + 1) vs s1
      in (e # es, s2))"

text \<open>
  \<open>ProcessOutputs\<close>: \<open>ctx_status\<close> and \<open>vals\<close> are what the kernel left in its context (one
  value per output). \<open>report\<close> is the allocation report of a statistics collector, when
  there is one.
\<close>

definition oom_hint :: string where
  "oom_hint = [CHR 0x0A] @ ''Hint: If you want to see a list of allocated tensors when '' @
     ''OOM happens, add report_tensor_allocations_upon_oom '' @
     ''to RunOptions for current allocation info.'' @ [CHR 0x0A]"

definition ProcessOutputs ::
  "(nat \<Rightarrow> tensor) \<Rightarrow> (string \<Rightarrow> string) option \<Rightarrow> node_item \<Rightarrow> kernel \<Rightarrow> status
     \<Rightarrow> (tensor_value \<times> alloc_attrs) list \<Rightarrow> status \<times> entry list" where
  "ProcessOutputs store report item k ctx_status vals =
     (if \<not> status_ok ctx_status then
        (let s = attach_def ctx_status (n_name (k_def k)) False;
             s' = (if status_code s = RESOURCE_EXHAUSTED
                   then mk_status (status_code s) (error_message s @
                          (case report of Some r \<Rightarrow> r (error_message s) | None \<Rightarrow> oom_hint))
                   else s)
         in (s', replicate (num_outputs item) new_entry))
      else (let (es, s) = process_outputs_loop store item k 0 (take (num_outputs item) vals) ok_status
            in (s, es)))"

section \<open>The state of a step\<close>

text \<open>
  What does not change during a step: the graph view, the frame infos, and the fingerprint
  function of frame names.
\<close>

record exec_config =
  xc_gview :: "nat \<Rightarrow> node_item option"
  xc_frame_info :: "string \<Rightarrow> frame_info option"
  xc_hash64 :: "string \<Rightarrow> nat"

record exec_state =
  xs_frames :: "nat \<Rightarrow> frame_state option"
  xs_next_frame :: nat
  xs_outstanding_frames :: "string \<Rightarrow> nat option"
  xs_root_frame :: nat
  xs_status :: status
  xs_num_outstanding_ops :: int
  xs_num_deferred_ops :: int
  xs_finish_when_deferred_ops_done :: bool

definition put_frame :: "nat \<Rightarrow> frame_state \<Rightarrow> exec_state \<Rightarrow> exec_state" where
  "put_frame a f xs = xs\<lparr>xs_frames := (xs_frames xs)(a \<mapsto> f)\<rparr>"

text \<open>An operation on the frame at address \<open>a\<close>, with the sequence of ready nodes.\<close>

definition on_frame ::
  "nat \<Rightarrow> (frame_state \<times> tagged_node list \<Rightarrow> (frame_state \<times> tagged_node list \<times> 'a) option)
     \<Rightarrow> exec_state \<times> tagged_node list \<Rightarrow> (exec_state \<times> tagged_node list \<times> 'a) option" where
  "on_frame a oper st =
     (case st of (xs, ready) \<Rightarrow>
       (case xs_frames xs a of
          None \<Rightarrow> None
        | Some f \<Rightarrow> (case oper (f, ready) of
             None \<Rightarrow> None
           | Some (f', ready', r) \<Rightarrow> Some (put_frame a f' xs, ready', r))))"

text \<open>The constructor: the root frame, with room for one iteration, and its iteration 0.\<close>

definition new_exec_state :: "exec_config \<Rightarrow> exec_state option" where
  "new_exec_state cfg =
     (case xc_frame_info cfg [] of
        None \<Rightarrow> None
      | Some finfo \<Rightarrow>
        (case new_frame_state finfo 1 of
           None \<Rightarrow> None
         | Some f \<Rightarrow> Some
            \<lparr>xs_frames = [0 \<mapsto> first_iteration f], xs_next_frame = 1,
             xs_outstanding_frames = [[] \<mapsto> 0], xs_root_frame = 0, xs_status = ok_status,
             xs_num_outstanding_ops = 0, xs_num_deferred_ops = 0,
             xs_finish_when_deferred_ops_done = False\<rparr>))"

section \<open>Child frames\<close>

definition MakeFrameName :: "frame_state \<Rightarrow> nat \<Rightarrow> string \<Rightarrow> string" where
  "MakeFrameName frame iter_id name = fs_frame_name frame @ '';'' @ show_nat iter_id @ '';'' @ name"

text \<open>
  The part of \<open>FindOrCreateChildFrame\<close> that runs without a lock: the new frame, or
  \<open>None\<close> when a lookup it relies on fails.
\<close>

definition make_child_frame ::
  "exec_config \<Rightarrow> nat \<Rightarrow> nat \<Rightarrow> string \<Rightarrow> gnode \<Rightarrow> frame_state option" where
  "make_child_frame cfg frame iter child_name def =
     (case (get_attr_string def ''frame_name'', get_attr_int def ''parallel_iterations'') of
        (Inr enter_name, Inr parallel_iters) \<Rightarrow>
          (case xc_frame_info cfg enter_name of
             None \<Rightarrow> None
           | Some finfo \<Rightarrow>
             (if parallel_iters < 0 then None else
              case new_frame_state finfo (nat parallel_iters) of
                None \<Rightarrow> None
              | Some temp \<Rightarrow> Some (first_iteration
                  (temp\<lparr>fs_frame_name := child_name, fs_frame_id := xc_hash64 cfg child_name,
                        fs_parent_frame := Some frame, fs_parent_iter := int iter\<rparr>))))
      | _ \<Rightarrow> None)"

text \<open>
  The second critical section: another thread may have published the frame since the first
  lookup; then \<open>temp\<close> is dropped.
\<close>

definition publish_child_frame ::
  "nat \<Rightarrow> nat \<Rightarrow> frame_state \<Rightarrow> exec_state \<Rightarrow> (exec_state \<times> nat) option" where
  "publish_child_frame frame iter temp xs =
     (case xs_outstanding_frames xs (fs_frame_name temp) of
        Some child \<Rightarrow> Some (xs, child)
      | None \<Rightarrow>
         (case xs_frames xs frame of
            None \<Rightarrow> None
          | Some f \<Rightarrow>
            (case iter_state f iter of
               None \<Rightarrow> None
             | Some s \<Rightarrow>
               (let a = xs_next_frame xs;
                    f' = put_iter_state iter
                           (s\<lparr>is_outstanding_frame_count := is_outstanding_frame_count s + 1\<rparr>) f;
                    xs1 = put_frame frame f' xs
                in Some (xs1\<lparr>xs_frames := (xs_frames xs1)(a \<mapsto> temp),
                             xs_next_frame := a + 1,
                             xs_outstanding_frames :=
                               (xs_outstanding_frames xs1)(fs_frame_name temp \<mapsto> a)\<rparr>, a)))))"

definition FindOrCreateChildFrame ::
  "exec_config \<Rightarrow> nat \<Rightarrow> nat \<Rightarrow> gnode \<Rightarrow> exec_state \<Rightarrow> (exec_state \<times> nat) option" where
  "FindOrCreateChildFrame cfg frame iter def xs =
     (case (xs_frames xs frame, get_attr_string def ''frame_name'') of
        (Some f, Inr enter_name) \<Rightarrow>
          (let child_name = MakeFrameName f iter enter_name in
           case xs_outstanding_frames xs child_name of
             Some child \<Rightarrow> Some (xs, child)
           | None \<Rightarrow>
             (case make_child_frame cfg frame iter child_name def of
                None \<Rightarrow> None
              | Some temp \<Rightarrow> publish_child_frame frame iter temp xs))
      | _ \<Rightarrow> None)"

section \<open>Deleting frames\<close>

text \<open>
  The inner body of the loop of \<open>DeleteFrame\<close>: a dead exit reaches one of its successors
  in the parent frame.
\<close>

definition delete_edge ::
  "(nat \<Rightarrow> node_item option) \<Rightarrow> nat \<Rightarrow> nat \<Rightarrow> iteration_state \<times> tagged_node list \<Rightarrow> edge_info
     \<Rightarrow> (iteration_state \<times> tagged_node list) option" where
  "delete_edge gview parent_frame parent_iter st e =
     (case st of (s, ready) \<Rightarrow>
      (case gview (dst_id e) of
         None \<Rightarrow> None
       | Some dst_item \<Rightarrow>
         if is_sink dst_item then Some st
         else
           (let h = pending_id dst_item;
                (c, dst_dead, dst_ready) =
                  (if is_merge dst_item then
                     (if output_slot e = kControlSlot then
                        (let c1 = fst (decrement_pending (is_counts s) h 2);
                             count = pending c1 h;
                             dead_cnt = dead_count c1 h;
                             dst_dead = (dead_cnt = int (num_inputs dst_item))
                         in (c1, dst_dead, count = 0 \<or> (count = 1 \<and> dst_dead)))
                      else
                        (let c1 = increment_dead_count (is_counts s) h;
                             dead_cnt = dead_count c1 h;
                             dst_dead = (dead_cnt = int (num_inputs dst_item))
                         in (c1, dst_dead, pending c1 h = 1 \<and> dst_dead)))
                   else
                     (let c1 = increment_dead_count (is_counts s) h;
                          (c2, p) = decrement_pending c1 h 1
                      in (c2, True, p = 0)));
                s1 = s\<lparr>is_counts := c\<rparr>
            in if dst_ready then
                 Some (s1\<lparr>is_outstanding_ops := is_outstanding_ops s1 + 1\<rparr>,
                       ready @ [\<lparr>tn_item = dst_id e, tn_frame = parent_frame, tn_iter = parent_iter,
                                 tn_is_dead = (if is_control_trigger dst_item then False else dst_dead)\<rparr>])
               else Some (s1, ready))))"

definition delete_exit ::
  "(nat \<Rightarrow> node_item option) \<Rightarrow> nat \<Rightarrow> nat \<Rightarrow> frame_state \<times> tagged_node list \<Rightarrow> nat
     \<Rightarrow> (frame_state \<times> tagged_node list) option" where
  "delete_exit gview parent_frame parent_iter st item =
     (case st of (pf, ready) \<Rightarrow>
      (case (gview item, iter_state pf parent_iter) of
         (Some ni, Some s) \<Rightarrow>
           (case foldM (delete_edge gview parent_frame parent_iter) (s, ready) (output_edges ni) of
              None \<Rightarrow> None
            | Some (s', ready') \<Rightarrow> Some (put_iter_state parent_iter s' pf, ready'))
       | _ \<Rightarrow> None))"

definition DeleteFrame ::
  "exec_config \<Rightarrow> nat \<Rightarrow> exec_state \<times> tagged_node list \<Rightarrow> (exec_state \<times> tagged_node list) option" where
  "DeleteFrame cfg frame st =
     (case st of (xs, ready) \<Rightarrow>
      (case xs_frames xs frame of
         None \<Rightarrow> None
       | Some f \<Rightarrow>
         (case (case fs_parent_frame f of
                  None \<Rightarrow> Some (xs, ready)
                | Some p \<Rightarrow>
                   (case xs_frames xs p of
                      None \<Rightarrow> None
                    | Some pf \<Rightarrow>
                       (case foldM (delete_exit (xc_gview cfg) p (nat (fs_parent_iter f))) (pf, ready)
                               (fs_dead_exits f) of
                          None \<Rightarrow> None
                        | Some (pf', ready') \<Rightarrow> Some (put_frame p pf' xs, ready'))))
          of None \<Rightarrow> None
           | Some (xs1, ready1) \<Rightarrow>
               Some (xs1\<lparr>xs_outstanding_frames := (xs_outstanding_frames xs1)(fs_frame_name f := None),
                         xs_frames := (xs_frames xs1)(frame := None)\<rparr>, ready1))))"

text \<open>
  \<open>CleanupFramesIterations\<close>: recursion up the chain of parents, with fuel. A parent frame
  is allocated before its child, so the address of the first frame plus one is enough.
\<close>

fun cleanup_frames ::
  "nat \<Rightarrow> exec_config \<Rightarrow> nat \<Rightarrow> nat \<Rightarrow> exec_state \<times> tagged_node list
     \<Rightarrow> (exec_state \<times> tagged_node list) option" where
  "cleanup_frames 0 cfg frame iter st = None"
| "cleanup_frames (Suc fuel) cfg frame iter st =
     (case on_frame frame (\<lambda>(f, ready).
         (case iter_state f iter of
            None \<Rightarrow> None
          | Some s \<Rightarrow> CleanupIterations (xc_gview cfg) frame iter
              (put_iter_state iter
                 (s\<lparr>is_outstanding_frame_count := is_outstanding_frame_count s - 1\<rparr>) f, ready))) st of
        None \<Rightarrow> None
      | Some (xs1, ready1, is_frame_done) \<Rightarrow>
         (if \<not> is_frame_done then Some (xs1, ready1)
          else case xs_frames xs1 frame of
            None \<Rightarrow> None
          | Some f \<Rightarrow>
             (case DeleteFrame cfg frame (xs1, ready1) of
                None \<Rightarrow> None
              | Some st2 \<Rightarrow>
                 (case fs_parent_frame f of
                    None \<Rightarrow> Some st2
                  | Some p \<Rightarrow> cleanup_frames fuel cfg p (nat (fs_parent_iter f)) st2))))"

definition CleanupFramesIterations ::
  "exec_config \<Rightarrow> nat \<Rightarrow> nat \<Rightarrow> exec_state \<times> tagged_node list
     \<Rightarrow> (exec_state \<times> tagged_node list) option" where
  "CleanupFramesIterations cfg frame iter st = cleanup_frames (frame + 1) cfg frame iter st"

section \<open>Propagating outputs\<close>

text \<open>
  The four cases of \<open>PropagateOutputs\<close>. Each returns whether the input frame is done. A
  node is passed by its id; \<open>(*outputs)[0]\<close> of an empty vector is \<open>None\<close>.
\<close>

definition activate_in ::
  "exec_config \<Rightarrow> nat \<Rightarrow> nat \<Rightarrow> bool \<Rightarrow> nat \<Rightarrow> entry list \<Rightarrow> frame_state \<times> tagged_node list
     \<Rightarrow> (frame_state \<times> tagged_node list) option" where
  "activate_in cfg frame item is_dead iter outputs st =
     (case ActivateNodes (xc_gview cfg) frame item is_dead iter outputs (snd st) (fst st) of
        None \<Rightarrow> None | Some (f, _, ready) \<Rightarrow> Some (f, ready))"

definition finish_op ::
  "exec_config \<Rightarrow> nat \<Rightarrow> nat \<Rightarrow> frame_state \<times> tagged_node list
     \<Rightarrow> (frame_state \<times> tagged_node list \<times> bool) option" where
  "finish_op cfg frame iter st = DecrementOutstandingOps (xc_gview cfg) frame iter st"

definition then_finish ::
  "exec_config \<Rightarrow> nat \<Rightarrow> nat \<Rightarrow> (frame_state \<times> tagged_node list) option
     \<Rightarrow> (frame_state \<times> tagged_node list \<times> bool) option" where
  "then_finish cfg frame iter r = (case r of None \<Rightarrow> None | Some st \<Rightarrow> finish_op cfg frame iter st)"

definition propagate_normal ::
  "exec_config \<Rightarrow> tagged_node \<Rightarrow> entry list \<Rightarrow> exec_state \<times> tagged_node list
     \<Rightarrow> (exec_state \<times> tagged_node list \<times> bool) option" where
  "propagate_normal cfg tn outputs st =
     on_frame (tn_frame tn) (\<lambda>fr. then_finish cfg (tn_frame tn) (tn_iter tn)
       (activate_in cfg (tn_frame tn) (tn_item tn) (tn_is_dead tn) (tn_iter tn) outputs fr)) st"

text \<open>The child frame's part of an Enter: deliver the value, and one input fewer to come.\<close>

definition enter_child ::
  "exec_config \<Rightarrow> node_item \<Rightarrow> tagged_node \<Rightarrow> entry list \<Rightarrow> nat \<Rightarrow> frame_state \<times> tagged_node list
     \<Rightarrow> (frame_state \<times> tagged_node list \<times> unit) option" where
  "enter_child cfg item tn outputs child st =
     (case (if is_constant_enter item
            then (case outputs of [] \<Rightarrow> None
                  | v # _ \<Rightarrow> AddLoopInv (xc_gview cfg) child (tn_item tn) v st)
            else activate_in cfg child (tn_item tn) (tn_is_dead tn) 0 outputs st) of
        None \<Rightarrow> None
      | Some (f, ready) \<Rightarrow> Some (f\<lparr>fs_num_pending_inputs := fs_num_pending_inputs f - 1\<rparr>, ready, ()))"

definition propagate_enter ::
  "exec_config \<Rightarrow> node_item \<Rightarrow> tagged_node \<Rightarrow> entry list \<Rightarrow> exec_state \<times> tagged_node list
     \<Rightarrow> (exec_state \<times> tagged_node list \<times> bool) option" where
  "propagate_enter cfg item tn outputs st =
     (case st of (xs, ready) \<Rightarrow>
      (case ni_kernel item of
         None \<Rightarrow> None
       | Some k \<Rightarrow>
        (case FindOrCreateChildFrame cfg (tn_frame tn) (tn_iter tn) (k_def k) xs of
           None \<Rightarrow> None
         | Some (xs1, child) \<Rightarrow>
            (case on_frame child (enter_child cfg item tn outputs child) (xs1, ready) of
               None \<Rightarrow> None
             | Some (xs2, ready2, _) \<Rightarrow>
                 on_frame (tn_frame tn) (finish_op cfg (tn_frame tn) (tn_iter tn)) (xs2, ready2)))))"

definition propagate_exit ::
  "exec_config \<Rightarrow> tagged_node \<Rightarrow> entry list \<Rightarrow> exec_state \<times> tagged_node list
     \<Rightarrow> (exec_state \<times> tagged_node list \<times> bool) option" where
  "propagate_exit cfg tn outputs st =
     (if tn_is_dead tn then
        on_frame (tn_frame tn) (\<lambda>(f, ready). finish_op cfg (tn_frame tn) (tn_iter tn)
          (if tn_iter tn = fs_iteration_count f
           then f\<lparr>fs_dead_exits := fs_dead_exits f @ [tn_item tn]\<rparr> else f, ready)) st
      else
        (case st of (xs, ready) \<Rightarrow>
         (case xs_frames xs (tn_frame tn) of
            None \<Rightarrow> None
          | Some f \<Rightarrow>
            (case fs_parent_frame f of
               None \<Rightarrow> None
             | Some p \<Rightarrow>
               (case on_frame p (\<lambda>fr. map_option (\<lambda>(f, ready). (f, ready, ()))
                       (activate_in cfg p (tn_item tn) False (nat (fs_parent_iter f)) outputs fr)) st of
                  None \<Rightarrow> None
                | Some (xs1, ready1, _) \<Rightarrow>
                    on_frame (tn_frame tn) (finish_op cfg (tn_frame tn) (tn_iter tn)) (xs1, ready1))))))"

definition propagate_next ::
  "exec_config \<Rightarrow> tagged_node \<Rightarrow> entry list \<Rightarrow> exec_state \<times> tagged_node list
     \<Rightarrow> (exec_state \<times> tagged_node list \<times> bool) option" where
  "propagate_next cfg tn outputs st =
     on_frame (tn_frame tn) (\<lambda>(f, ready). then_finish cfg (tn_frame tn) (tn_iter tn)
       (if tn_is_dead tn then Some (f, ready)
        else if tn_iter tn = fs_iteration_count f
             \<and> fs_num_outstanding_iterations f = int (fs_max_parallel_iterations f)
        then (case outputs of [] \<Rightarrow> None
              | v # _ \<Rightarrow> Some (f\<lparr>fs_next_iter_roots := fs_next_iter_roots f @ [(tn_item tn, v)]\<rparr>, ready))
        else
          (case (if tn_iter tn = fs_iteration_count f
                 then IncrementIteration (xc_gview cfg) (tn_frame tn) (f, ready)
                 else Some (f, ready)) of
             None \<Rightarrow> None
           | Some fr \<Rightarrow> activate_in cfg (tn_frame tn) (tn_item tn) False (tn_iter tn + 1) outputs fr))) st"

definition PropagateOutputs ::
  "exec_config \<Rightarrow> tagged_node \<Rightarrow> entry list \<Rightarrow> exec_state \<Rightarrow> (exec_state \<times> tagged_node list) option" where
  "PropagateOutputs cfg tn outputs xs =
     (case xc_gview cfg (tn_item tn) of
        None \<Rightarrow> None
      | Some item \<Rightarrow>
        (case (if \<not> is_enter_exit_or_next_iter item then propagate_normal cfg tn outputs (xs, [])
               else if is_enter item then propagate_enter cfg item tn outputs (xs, [])
               else if is_exit item then propagate_exit cfg tn outputs (xs, [])
               else propagate_next cfg tn outputs (xs, [])) of
           None \<Rightarrow> None
         | Some (xs1, ready1, is_frame_done) \<Rightarrow>
            (if \<not> is_frame_done then Some (xs1, ready1)
             else case xs_frames xs1 (tn_frame tn) of
               None \<Rightarrow> None
             | Some f \<Rightarrow>
                (case DeleteFrame cfg (tn_frame tn) (xs1, ready1) of
                   None \<Rightarrow> None
                 | Some st2 \<Rightarrow>
                    (case fs_parent_frame f of
                       None \<Rightarrow> Some st2
                     | Some p \<Rightarrow> CleanupFramesIterations cfg p (nat (fs_parent_iter f)) st2)))))"

section \<open>Scheduling\<close>

text \<open>
  The dispatch part of \<open>ScheduleReady\<close>. \<open>inline_ready\<close> is the queue of the calling
  thread, \<open>None\<close> when it is null; the result adds the nodes handed to the runner, in order.
  \<open>not_sleep\<close> is the answer of \<open>CheckSleep\<close>: a thread that must sleep keeps no work.
\<close>

fun schedule_loop ::
  "(tagged_node \<Rightarrow> bool) \<Rightarrow> bool \<Rightarrow> tagged_node option \<Rightarrow> tagged_node ready_queue
     \<Rightarrow> tagged_node list \<Rightarrow> tagged_node list
     \<Rightarrow> tagged_node option \<times> tagged_node ready_queue \<times> tagged_node list" where
  "schedule_loop is_expensive not_sleep curr_expensive_node inline_ready runner [] =
     (curr_expensive_node, inline_ready, runner)"
| "schedule_loop is_expensive not_sleep curr_expensive_node inline_ready runner (t # ts) =
     (if (tn_is_dead t \<or> \<not> is_expensive t) \<and> not_sleep
      then schedule_loop is_expensive not_sleep curr_expensive_node (rq_push_back inline_ready t) runner ts
      else if not_sleep
      then schedule_loop is_expensive not_sleep (Some t) inline_ready
             (case curr_expensive_node of None \<Rightarrow> runner | Some c \<Rightarrow> runner @ [c]) ts
      else schedule_loop is_expensive not_sleep curr_expensive_node inline_ready (runner @ [t]) ts)"

definition schedule_nodes ::
  "(tagged_node \<Rightarrow> bool) \<Rightarrow> bool \<Rightarrow> tagged_node list \<Rightarrow> tagged_node ready_queue option
     \<Rightarrow> tagged_node ready_queue option \<times> tagged_node list" where
  "schedule_nodes is_expensive not_sleep ready inline_ready =
     (if ready = [] then (inline_ready, [])
      else case inline_ready of
        None \<Rightarrow> (None, ready)
      | Some q \<Rightarrow>
         (let (curr, q1, runner) = schedule_loop is_expensive not_sleep None q [] ready in
          case curr of
            None \<Rightarrow> (Some q1, runner)
          | Some c \<Rightarrow>
              if not_sleep then
                (if rq_empty q1 then (Some (rq_push_back q1 c), runner) else (Some q1, runner @ [c]))
              else (Some q1, runner @ [c])))"

text \<open>
  All of \<open>ScheduleReady\<close>: with an inter-op pool (\<open>pool\<close> is the answer of its
  \<open>CheckSleep\<close>), first one pass through the counter block.
\<close>

definition ScheduleReady ::
  "thresholds \<Rightarrow> bool option \<Rightarrow> (tagged_node \<Rightarrow> bool) \<Rightarrow> tagged_node list
     \<Rightarrow> tagged_node ready_queue option \<Rightarrow> 32 word \<times> signals
     \<Rightarrow> tagged_node ready_queue option \<times> tagged_node list \<times> (32 word \<times> signals) \<times> int list" where
  "ScheduleReady th pool is_expensive ready inline_ready elastic =
     (let not_sleep_thread = (case pool of None \<Rightarrow> True | Some b \<Rightarrow> b);
          (elastic', calls) = (case pool of None \<Rightarrow> (elastic, []) | Some _ \<Rightarrow> inter_tick th elastic);
          (inline', runner) = schedule_nodes is_expensive not_sleep_thread ready inline_ready
      in (inline', runner, elastic', calls))"

section \<open>Finishing a node\<close>

text \<open>
  \<open>NodeDone\<close> without the statistics: the status and the number of outstanding operations,
  whether the step is aborted by this call (then the rendezvous, the collective executor and
  the cancellation manager are told), whether this was the last operation, and the
  scheduling of the ready nodes. \<open>cancelled\<close> is the answer of the cancellation manager.
  The code has separate critical sections for the status, the count and the queue of the pool;
  here they are one step.
\<close>

definition record_status :: "bool \<Rightarrow> status \<Rightarrow> exec_state \<Rightarrow> exec_state \<times> bool" where
  "record_status cancelled s xs =
     (if \<not> status_ok s \<and> status_ok (xs_status xs)
      then (xs\<lparr>xs_status := (if cancelled then make_derived s else s)\<rparr>, True)
      else (xs, False))"

definition count_done :: "status \<Rightarrow> nat \<Rightarrow> exec_state \<Rightarrow> exec_state \<times> bool" where
  "count_done s ready_size xs =
     (if ready_size = 0 \<or> \<not> status_ok s
      then (xs\<lparr>xs_num_outstanding_ops := xs_num_outstanding_ops xs - 1\<rparr>,
            xs_num_outstanding_ops xs = 1)
      else if ready_size > 1
      then (xs\<lparr>xs_num_outstanding_ops := xs_num_outstanding_ops xs + int (ready_size - 1)\<rparr>, False)
      else (xs, False))"

definition NodeDone ::
  "thresholds \<Rightarrow> bool option \<Rightarrow> (tagged_node \<Rightarrow> bool) \<Rightarrow> bool \<Rightarrow> status \<Rightarrow> tagged_node list
     \<Rightarrow> tagged_node ready_queue option \<Rightarrow> exec_state \<times> 32 word \<times> signals
     \<Rightarrow> (exec_state \<times> 32 word \<times> signals) \<times> tagged_node ready_queue option \<times> tagged_node list
         \<times> bool \<times> bool" where
  "NodeDone th pool is_expensive cancelled s ready inline_ready st =
     (case st of (xs, elastic) \<Rightarrow>
      (let (xs1, abort_run) = record_status cancelled s xs;
           (xs2, completed) = count_done s (length ready) xs1
       in if status_ok s
          then (let (inline', runner, elastic', calls) =
                      ScheduleReady th pool is_expensive ready inline_ready elastic
                in ((xs2, elastic'), inline', runner, abort_run, completed))
          else ((xs2, elastic), inline_ready, [], abort_run, completed)))"

section \<open>Starting and ending a step\<close>

text \<open>
  The second half of \<open>RunAsync\<close>: the root nodes in the root frame. \<open>Some None\<close> when there
  is nothing to run; otherwise the state with its two counts, and the ready nodes.
\<close>

definition start_roots :: "nat list \<Rightarrow> exec_state \<Rightarrow> (exec_state \<times> tagged_node list) option option" where
  "start_roots root_nodes xs =
     (let ready = map (\<lambda>item. \<lparr>tn_item = item, tn_frame = xs_root_frame xs, tn_iter = 0,
                              tn_is_dead = False\<rparr>) root_nodes
      in if ready = [] then Some None
         else case xs_frames xs (xs_root_frame xs) of
           None \<Rightarrow> None
         | Some f \<Rightarrow>
            (case iter_state f 0 of
               None \<Rightarrow> None
             | Some s \<Rightarrow> Some (Some
                 (put_frame (xs_root_frame xs)
                    (put_iter_state 0 (s\<lparr>is_outstanding_ops := int (length ready)\<rparr>) f)
                    (xs\<lparr>xs_num_outstanding_ops := int (length ready)\<rparr>), ready))))"

text \<open>
  What \<open>RunAsync\<close> does: it may crash (a null environment variable is given to \<open>atoi\<close>, or a
  null iteration), call the callback at once, or start the step. The thresholds are read
  only when there is an inter-op pool; without one they stay \<open>uninit\<close>, which is what the
  constructor left in the fields.
\<close>

datatype run_outcome =
    Run_Crash
  | Run_Done status
  | Run_Started exec_state "32 word \<times> signals" "tagged_node list" "int list"

definition RunAsync ::
  "(string \<Rightarrow> int) \<Rightarrow> (string \<Rightarrow> string option) \<Rightarrow> thresholds \<Rightarrow> bool option \<Rightarrow> (tagged_node \<Rightarrow> bool)
     \<Rightarrow> status \<Rightarrow> nat list \<Rightarrow> exec_state \<times> 32 word \<times> signals \<Rightarrow> run_outcome" where
  "RunAsync atoi getenv uninit pool is_expensive get_context_status root_nodes st =
     (case st of (xs, elastic) \<Rightarrow>
      (case (if pool = None then Some uninit else read_thresholds atoi getenv) of
         None \<Rightarrow> Run_Crash
       | Some th \<Rightarrow>
         if \<not> status_ok get_context_status then Run_Done get_context_status
         else (case start_roots root_nodes xs of
             None \<Rightarrow> Run_Crash
           | Some None \<Rightarrow> Run_Done ok_status
           | Some (Some (xs1, ready)) \<Rightarrow>
              (let (inline', runner, elastic', calls) =
                     ScheduleReady th pool is_expensive ready None elastic
               in Run_Started xs1 elastic' runner calls))))"

text \<open>
  Deferred operations. Each of these is one critical section; the result says whether
  \<open>Finish\<close> is called.
\<close>

definition inc_num_deferred_ops :: "exec_state \<Rightarrow> exec_state" where
  "inc_num_deferred_ops xs = xs\<lparr>xs_num_deferred_ops := xs_num_deferred_ops xs + 1\<rparr>"

definition dec_num_deferred_ops :: "exec_state \<Rightarrow> exec_state \<times> bool" where
  "dec_num_deferred_ops xs =
     (let xs1 = xs\<lparr>xs_num_deferred_ops := xs_num_deferred_ops xs - 1\<rparr>
      in (xs1, if xs_num_deferred_ops xs1 = 0 then xs_finish_when_deferred_ops_done xs1 else False))"

definition ScheduleFinish :: "exec_state \<Rightarrow> exec_state \<times> bool" where
  "ScheduleFinish xs =
     (if xs_num_deferred_ops xs > 0
      then (xs\<lparr>xs_finish_when_deferred_ops_done := True\<rparr>, False)
      else (xs, True))"

text \<open>
  The status \<open>Finish\<close> gives to the callback, and whether it aborts the rest of the step.
  \<open>allows_sync\<close>, \<open>refresh\<close> and \<open>sync_status\<close> are the device's answers, the last one of
  \<open>Sync\<close>, which is called only when \<open>sync_on_finish\<close> is set and all went well.
\<close>

definition Finish :: "bool \<Rightarrow> status \<Rightarrow> bool \<Rightarrow> status \<Rightarrow> exec_state \<Rightarrow> status \<times> bool" where
  "Finish allows_sync refresh sync_on_finish sync_status xs =
     (let status = xs_status xs in
      if \<not> allows_sync then
        (let status' = status_update status refresh in (status', \<not> status_ok status'))
      else if sync_on_finish \<and> status_ok status
      then (status_update status sync_status, False)
      else (status, False))"

section \<open>Processing a node\<close>

text \<open>
  The local variables of a call of \<open>Process\<close>, and what it shares: the step, the two
  counters, the signals, and the tensors behind references. The status is declared outside
  the loop and keeps its value for a dead node, which does not assign it.
\<close>

record thread_state =
  ts_status :: status
  ts_ready :: "tagged_node list"
  ts_inline :: "tagged_node ready_queue"
  ts_completed :: bool

record shared_state =
  sh_exec :: exec_state
  sh_inter_count :: "32 word"
  sh_intra_count :: "32 word"
  sh_signals :: signals
  sh_store :: "nat \<Rightarrow> tensor"

text \<open>
  What a step needs from outside: the thresholds, the pools' answers, whether verbose
  logging is on, and the kernels. A kernel gets its inputs and whether one of them was dead,
  and leaves a status, its output values, and the store.
\<close>

record step_env =
  se_config :: exec_config
  se_thresholds :: thresholds
  se_check_sleep :: "bool option"
  se_cancelled :: bool
  se_vlog :: bool
  se_report :: "(string \<Rightarrow> string) option"
  se_compute :: "kernel \<Rightarrow> tensor_value list \<Rightarrow> bool \<Rightarrow> (nat \<Rightarrow> tensor)
     \<Rightarrow> status \<times> (tensor_value \<times> alloc_attrs) list \<times> (nat \<Rightarrow> tensor)"

definition is_expensive_node :: "exec_config \<Rightarrow> tagged_node \<Rightarrow> bool" where
  "is_expensive_node cfg t = (case xc_gview cfg (tn_item t) of
     Some item \<Rightarrow> (case ni_kernel item of Some k \<Rightarrow> k_is_expensive k | None \<Rightarrow> False)
   | None \<Rightarrow> False)"

text \<open>The inputs of a node, from \<open>input_tensors + input_start\<close>, and writing them back.\<close>

definition input_entries :: "tagged_node \<Rightarrow> node_item \<Rightarrow> exec_state \<Rightarrow> (frame_state \<times> iteration_state \<times> entry list) option" where
  "input_entries tn item xs =
     (case xs_frames xs (tn_frame tn) of
        None \<Rightarrow> None
      | Some f \<Rightarrow>
        (case iter_state f (tn_iter tn) of
           None \<Rightarrow> None
         | Some s \<Rightarrow> Some (f, s, drop (input_start item) (is_input_tensors s))))"

definition put_entries :: "tagged_node \<Rightarrow> node_item \<Rightarrow> entry list \<Rightarrow> exec_state \<Rightarrow> exec_state" where
  "put_entries tn item es xs =
     (case input_entries tn item xs of
        None \<Rightarrow> xs
      | Some (f, s, _) \<Rightarrow> put_frame (tn_frame tn) (put_iter_state (tn_iter tn)
          (s\<lparr>is_input_tensors := take (input_start item) (is_input_tensors s) @ es\<rparr>) f) xs)"

definition mark_node ::
  "bool \<Rightarrow> (counts \<Rightarrow> handle \<Rightarrow> counts) \<Rightarrow> tagged_node \<Rightarrow> node_item \<Rightarrow> exec_state \<Rightarrow> exec_state" where
  "mark_node vlog mark tn item xs =
     (if vlog then (case input_entries tn item xs of
        None \<Rightarrow> xs
      | Some (f, s, _) \<Rightarrow> put_frame (tn_frame tn) (put_iter_state (tn_iter tn)
          (s\<lparr>is_counts := mark (is_counts s) (pending_id item)\<rparr>) f) xs)
      else xs)"

definition MaybeMarkCompleted :: "bool \<Rightarrow> tagged_node \<Rightarrow> node_item \<Rightarrow> exec_state \<Rightarrow> exec_state" where
  "MaybeMarkCompleted vlog tn item xs = mark_node vlog mark_completed tn item xs"

text \<open>The common end of a node: clear the inputs, mark it, propagate if all went well.\<close>

definition finish_node ::
  "step_env \<Rightarrow> tagged_node \<Rightarrow> node_item \<Rightarrow> status \<Rightarrow> entry list \<Rightarrow> exec_state
     \<Rightarrow> (exec_state \<times> tagged_node list option) option" where
  "finish_node env tn item s outputs xs =
     (case input_entries tn item xs of
        None \<Rightarrow> None
      | Some (_, _, es) \<Rightarrow>
         (let xs1 = put_entries tn item (clear_inputs item es) xs;
              xs2 = MaybeMarkCompleted (se_vlog env) tn item xs1
          in if status_ok s then
               (case PropagateOutputs (se_config env) tn outputs xs2 of
                  None \<Rightarrow> None | Some (xs3, ready) \<Rightarrow> Some (xs3, Some ready))
             else Some (xs2, None)))"

text \<open>\<open>NodeDone\<close> with the shared state; a null queue is that of an asynchronous kernel.\<close>

definition node_done ::
  "step_env \<Rightarrow> status \<Rightarrow> tagged_node list \<Rightarrow> tagged_node ready_queue option \<Rightarrow> shared_state
     \<Rightarrow> shared_state \<times> tagged_node ready_queue option \<times> tagged_node list \<times> bool \<times> bool" where
  "node_done env s ready inline sh =
     (let ((xs, cnt, sig), inline', runner, abort_run, completed) =
        NodeDone (se_thresholds env) (se_check_sleep env) (is_expensive_node (se_config env))
          (se_cancelled env) s ready inline (sh_exec sh, sh_inter_count sh, sh_signals sh)
      in (sh\<lparr>sh_exec := xs, sh_inter_count := cnt, sh_signals := sig\<rparr>, inline', runner, abort_run, completed))"

text \<open>
  One iteration of the loop of \<open>Process\<close>. The result adds the nodes given to the runner and
  the asynchronous kernel that was started, if any, with the inputs it was given.
\<close>

definition process_step ::
  "step_env \<Rightarrow> thread_state \<times> shared_state
     \<Rightarrow> ((thread_state \<times> shared_state) \<times> tagged_node list
          \<times> (tagged_node \<times> tensor_value list \<times> bool) option) option" where
  "process_step env st =
     (case st of (ts, sh0) \<Rightarrow>
      (let ((intra, sig), calls) = intra_tick (se_thresholds env) (sh_intra_count sh0, sh_signals sh0);
           sh = sh0\<lparr>sh_intra_count := intra, sh_signals := sig\<rparr>;
           tn = rq_front (ts_inline ts);
           inline = rq_pop_front (ts_inline ts)
       in case xc_gview (se_config env) (tn_item tn) of
         None \<Rightarrow> None
       | Some item \<Rightarrow>
         (let xs0 = mark_node (se_vlog env) mark_started tn item (sh_exec sh) in
          case (input_entries tn item xs0, ni_kernel item) of
            (Some (_, _, es), Some k) \<Rightarrow>
              (if tn_is_dead tn \<and> \<not> is_transfer_node item then
                 (case finish_node env tn item (ts_status ts)
                         (replicate (num_outputs item) new_entry) xs0 of
                    None \<Rightarrow> None
                  | Some (xs1, r) \<Rightarrow>
                     (let ready = (case r of None \<Rightarrow> ts_ready ts | Some rd \<Rightarrow> rd);
                          (sh', inline', runner, _, completed) =
                            node_done env (ts_status ts) ready (Some inline) (sh\<lparr>sh_exec := xs1\<rparr>)
                      in Some ((ts\<lparr>ts_ready := ready, ts_inline := the inline',
                                   ts_completed := completed\<rparr>, sh'), runner, None)))
               else
                 (let (s, es', inputs, attrs, dead) = PrepareInputs (sh_store sh) item k es in
                  if \<not> status_ok s then
                    (let xs1 = MaybeMarkCompleted (se_vlog env) tn item
                                 (put_entries tn item (clear_inputs item es') xs0);
                         (sh', inline', runner, _, completed) =
                           node_done env s (ts_ready ts) (Some inline) (sh\<lparr>sh_exec := xs1\<rparr>)
                     in Some ((ts\<lparr>ts_status := s, ts_inline := the inline',
                                  ts_completed := completed\<rparr>, sh'), runner, None))
                  else
                    (let xs1 = put_entries tn item es' xs0 in
                     if kernel_is_async item then
                       Some ((ts\<lparr>ts_status := s, ts_inline := inline\<rparr>, sh\<lparr>sh_exec := xs1\<rparr>), [],
                             Some (tn, inputs, dead))
                     else
                       (let (ctx_status, vals, store) = se_compute env k inputs dead (sh_store sh);
                            (s2, outputs) = ProcessOutputs store (se_report env) item k ctx_status vals
                        in case finish_node env tn item s2 outputs xs1 of
                          None \<Rightarrow> None
                        | Some (xs2, r) \<Rightarrow>
                           (let ready = (case r of None \<Rightarrow> ts_ready ts | Some rd \<Rightarrow> rd);
                                (sh', inline', runner, _, completed) =
                                  node_done env s2 ready (Some inline)
                                    (sh\<lparr>sh_exec := xs2, sh_store := store\<rparr>)
                            in Some ((ts\<lparr>ts_status := s2, ts_ready := ready, ts_inline := the inline',
                                         ts_completed := completed\<rparr>, sh'), runner, None))))))
          | _ \<Rightarrow> None)))"

text \<open>
  The loop, with fuel: a thread takes nodes from its own queue until it is empty, and then
  calls \<open>ScheduleFinish\<close> if its last node was the last one of the step. A loop of the graph
  can keep a thread busy for ever, so no bound is enough in general: \<open>None\<close> is either a
  crash or too little fuel. The second component is what it gave to the runner, the third
  the asynchronous kernels it started, the last whether \<open>Finish\<close> is called.
\<close>

fun process_loop ::
  "nat \<Rightarrow> step_env \<Rightarrow> thread_state \<times> shared_state \<Rightarrow> tagged_node list
     \<Rightarrow> (tagged_node \<times> tensor_value list \<times> bool) list
     \<Rightarrow> ((thread_state \<times> shared_state) \<times> tagged_node list
          \<times> (tagged_node \<times> tensor_value list \<times> bool) list) option" where
  "process_loop fuel env st runner launched =
     (if rq_empty (ts_inline (fst st)) then Some (st, runner, launched)
      else case fuel of
        0 \<Rightarrow> None
      | Suc fuel' \<Rightarrow>
         (case process_step env st of
            None \<Rightarrow> None
          | Some (st', r, l) \<Rightarrow>
              process_loop fuel' env st' (runner @ r)
                (launched @ (case l of None \<Rightarrow> [] | Some a \<Rightarrow> [a]))))"

declare process_loop.simps [simp del]

definition new_thread_state :: "tagged_node \<Rightarrow> thread_state" where
  "new_thread_state tn = \<lparr>ts_status = ok_status, ts_ready = [],
     ts_inline = rq_push_back new_ready_queue tn, ts_completed = False\<rparr>"

definition Process ::
  "nat \<Rightarrow> step_env \<Rightarrow> tagged_node \<Rightarrow> shared_state
     \<Rightarrow> (shared_state \<times> tagged_node list \<times> (tagged_node \<times> tensor_value list \<times> bool) list \<times> bool) option" where
  "Process fuel env tn sh =
     (case process_loop fuel env (new_thread_state tn, sh) [] [] of
        None \<Rightarrow> None
      | Some ((ts, sh1), runner, launched) \<Rightarrow>
         (if ts_completed ts
          then (let (xs, finish) = ScheduleFinish (sh_exec sh1)
                in Some (sh1\<lparr>sh_exec := xs\<rparr>, runner, launched, finish))
          else Some (sh1, runner, launched, False)))"

text \<open>The callback of an asynchronous kernel, run when the kernel has left its context.\<close>

definition async_done ::
  "step_env \<Rightarrow> tagged_node \<Rightarrow> status \<Rightarrow> (tensor_value \<times> alloc_attrs) list \<Rightarrow> shared_state
     \<Rightarrow> (shared_state \<times> tagged_node list \<times> bool) option" where
  "async_done env tn ctx_status vals sh =
     (case xc_gview (se_config env) (tn_item tn) of
        None \<Rightarrow> None
      | Some item \<Rightarrow>
        (case ni_kernel item of
           None \<Rightarrow> None
         | Some k \<Rightarrow>
           (let (s, outputs) = ProcessOutputs (sh_store sh) (se_report env) item k ctx_status vals in
            case finish_node env tn item s outputs (sh_exec sh) of
              None \<Rightarrow> None
            | Some (xs1, r) \<Rightarrow>
               (let ready = (case r of None \<Rightarrow> [] | Some rd \<Rightarrow> rd);
                    (sh', _, runner, _, completed) = node_done env s ready None (sh\<lparr>sh_exec := xs1\<rparr>)
                in Some (sh', runner, completed)))))"

end
