(* ===== verification/Scheduling_Props.thy ===== *)
theory Scheduling_Props
  imports Executor Samples
begin

text \<open>
  What the scheduling half of \<open>ExecutorState\<close> guarantees: no ready node is lost or run
  twice, the outstanding operations are counted exactly, the step ends exactly once, and the
  first error is the one reported.
\<close>

section \<open>Dispatching ready nodes\<close>

text \<open>The loop as a partition: a thread that must sleep hands everything over, any other
  keeps the inexpensive nodes and all but the last expensive one go to the runner.\<close>

definition keeps_inline :: "(tagged_node \<Rightarrow> bool) \<Rightarrow> tagged_node \<Rightarrow> bool" where
  "keeps_inline ex t = (tn_is_dead t \<or> \<not> ex t)"

definition opt_list :: "'a option \<Rightarrow> 'a list" where
  "opt_list x = (case x of None \<Rightarrow> [] | Some a \<Rightarrow> [a])"

definition last_opt :: "'a list \<Rightarrow> 'a option" where
  "last_opt xs = (if xs = [] then None else Some (last xs))"

lemma schedule_loop_sleep:
  "schedule_loop ex False c q runner ts = (c, q, runner @ ts)"
  by (induction ts arbitrary: runner) auto

lemma schedule_loop_awake:
  "schedule_loop ex True c q runner ts =
     (let xs = opt_list c @ filter (\<lambda>t. \<not> keeps_inline ex t) ts
      in (last_opt xs, foldl rq_push_back q (filter (keeps_inline ex) ts), runner @ butlast xs))"
proof (induction ts arbitrary: c q runner)
  case Nil
  then show ?case by (cases c) (auto simp: opt_list_def last_opt_def)
next
  case (Cons t ts)
  then show ?case
    by (cases c) (auto simp: keeps_inline_def opt_list_def last_opt_def Let_def)
qed

lemma mset_opt_last: "mset (butlast xs) + mset (opt_list (last_opt xs)) = mset xs"
  by (cases xs rule: rev_cases) (auto simp: opt_list_def last_opt_def)

lemma mset_partition: "mset (filter P xs) + mset (filter (\<lambda>x. \<not> P x) xs) = mset xs"
  by (induction xs) auto

lemma schedule_nodes_spec:
  assumes "rq_wf q" "schedule_nodes ex ns ready (Some q) = (r, runner)"
  shows "\<exists>q' add. r = Some q' \<and> rq_wf q' \<and> rq_elems q' = rq_elems q @ add
    \<and> mset add + mset runner = mset ready
    \<and> (\<not> ns \<longrightarrow> q' = q \<and> runner = ready)
    \<and> (ns \<longrightarrow> (\<forall>t\<in>set runner. \<not> tn_is_dead t \<and> ex t))
    \<and> (ns \<and> ready \<noteq> [] \<and> rq_elems q = [] \<longrightarrow> add \<noteq> [])"
proof (cases "ready = []")
  case True
  then show ?thesis using assms by (auto simp: schedule_nodes_def)
next
  case ne: False
  show ?thesis
  proof (cases ns)
    case False
    then show ?thesis using assms ne
      by (auto simp: schedule_nodes_def schedule_loop_sleep split: option.splits)
  next
    case tr: True
    let ?in = "filter (keeps_inline ex) ready" and ?xs = "filter (\<lambda>t. \<not> keeps_inline ex t) ready"
    let ?q = "foldl rq_push_back q ?in"
    have q: "rq_wf ?q" "rq_elems ?q = rq_elems q @ ?in" using rq.push_list [OF assms(1)] by auto
    have emp: "rq_empty ?q \<longleftrightarrow> rq_elems q @ ?in = []" using rq.is_empty_iff [OF q(1)] q(2) by simp
    have part: "mset ?in + mset ?xs = mset ready" by (rule mset_partition)
    have xs: "\<forall>t\<in>set ?xs. \<not> tn_is_dead t \<and> ex t" by (simp add: keeps_inline_def)
    show ?thesis
    proof (cases ?xs rule: rev_cases)
      case Nil
      then have "r = Some ?q" "runner = []"
        using assms(2) ne tr by (auto simp: schedule_nodes_def schedule_loop_awake opt_list_def last_opt_def Let_def)
      moreover have "?in \<noteq> []" using Nil ne by (cases ready) (auto split: if_splits)
      ultimately show ?thesis using q part Nil tr by (intro exI [of _ ?q] exI [of _ ?in]) auto
    next
      case (snoc ys c)
      let ?p = "rq_push_back ?q c"
      have p: "rq_wf ?p" "rq_elems ?p = rq_elems q @ (?in @ [c])"
        using rq.ok_push [OF q(1)] rq.elems_push [OF q(1)] q(2) by auto
      have c: "mset ?in + (mset ys + {#c#}) = mset ready" using part snoc by simp
      have res: "(r, runner) = (if rq_empty ?q then (Some ?p, ys) else (Some ?q, ys @ [c]))"
        using assms(2) ne tr snoc
        by (simp add: schedule_nodes_def schedule_loop_awake opt_list_def last_opt_def Let_def)
      have ys: "\<forall>t\<in>set (ys @ [c]). \<not> tn_is_dead t \<and> ex t" using xs unfolding snoc .
      show ?thesis
      proof (cases "rq_empty ?q")
        case True
        with res have "r = Some ?p" "runner = ys" by simp_all
        then show ?thesis using p c ys tr by (intro exI [of _ ?p] exI [of _ "?in @ [c]"]) auto
      next
        case False
        with res have "r = Some ?q" "runner = ys @ [c]" by simp_all
        then show ?thesis using q c ys False emp tr by (intro exI [of _ ?q] exI [of _ ?in]) auto
      qed
    qed
  qed
qed

lemma schedule_nodes_none: "schedule_nodes ex ns ready None = (None, ready)"
  by (auto simp: schedule_nodes_def)

text \<open>
  C3: \<open>ScheduleReady\<close> neither loses nor duplicates a ready node, whether the calling
  thread may go on or must sleep. A thread that must sleep keeps nothing; a thread that goes
  on hands over live expensive nodes only, and always has something to run itself.
\<close>

theorem schedule_ready_exact:
  assumes "rq_wf q"
    and "ScheduleReady th pool ex ready (Some q) elastic = (r, runner, elastic', calls)"
  shows "\<exists>q'. r = Some q' \<and> rq_wf q'
    \<and> mset (rq_elems q') + mset runner = mset (rq_elems q) + mset ready
    \<and> (pool = Some False \<longrightarrow> q' = q \<and> runner = ready)
    \<and> (pool \<noteq> Some False \<longrightarrow> (\<forall>t\<in>set runner. \<not> tn_is_dead t \<and> ex t)
         \<and> (ready \<noteq> [] \<longrightarrow> rq_elems q' \<noteq> []))"
proof -
  let ?ns = "case pool of None \<Rightarrow> True | Some b \<Rightarrow> b"
  have s: "schedule_nodes ex ?ns ready (Some q) = (r, runner)"
    using assms(2) by (simp add: ScheduleReady_def Let_def split: prod.splits)
  have ns: "?ns \<longleftrightarrow> pool \<noteq> Some False" by (auto split: option.splits)
  from schedule_nodes_spec [OF assms(1) s] obtain q' add where
    "r = Some q'" "rq_wf q'" "rq_elems q' = rq_elems q @ add" "mset add + mset runner = mset ready"
    "\<not> ?ns \<longrightarrow> q' = q \<and> runner = ready"
    "?ns \<longrightarrow> (\<forall>t\<in>set runner. \<not> tn_is_dead t \<and> ex t)"
    "?ns \<and> ready \<noteq> [] \<and> rq_elems q = [] \<longrightarrow> add \<noteq> []" by blast
  then show ?thesis unfolding ns by (intro exI [of _ q']) (auto simp: ac_simps)
qed

theorem schedule_ready_exact_witness:
  "\<exists>q' runner. ScheduleReady \<lparr>th_max_threads = 8, th_min_threads = 2, th_iteration_down = 2, th_iteration_up = 4\<rparr>
       (Some False) (\<lambda>t. True) [\<lparr>tn_item = 7, tn_frame = 0, tn_iter = 0, tn_is_dead = False\<rparr>]
       (Some new_ready_queue) (0, new_signals) = (Some q', runner, (1, new_signals), [])
     \<and> q' = new_ready_queue \<and> length runner = 1"
proof -
  obtain r runner elastic' calls where a: "ScheduleReady
       \<lparr>th_max_threads = 8, th_min_threads = 2, th_iteration_down = 2, th_iteration_up = 4\<rparr>
       (Some False) (\<lambda>t. True) [\<lparr>tn_item = 7, tn_frame = 0, tn_iter = 0, tn_is_dead = False\<rparr>]
       (Some new_ready_queue) (0, new_signals) = (r, runner, elastic', calls)"
    by (metis prod.exhaust)
  then have "elastic' = (1, new_signals)" "calls = []"
    by (simp_all add: ScheduleReady_def inter_tick_def new_signals_def Let_def split: prod.splits)
  then show ?thesis using schedule_ready_exact [OF rq_wf_new a] a by auto
qed

section \<open>Counting outstanding operations\<close>

text \<open>
  The threads of a step. A closure in the runner waits for a thread; a thread that runs
  \<open>Process\<close> has its inline queue, may be in the middle of a node, and has its local flag
  \<open>completed\<close>; asynchronous kernels are in flight. What a node does to the frames, its
  status and the nodes it makes ready are arbitrary (\<open>st0\<close> is the state it leaves, with the
  count unchanged), the accounting is that of \<open>NodeDone\<close>. The theory of \<open>Process\<close> shows that
  the code of a thread takes exactly these steps.
\<close>

record process_thread =
  pt_busy :: bool
  pt_inline :: "tagged_node ready_queue"
  pt_completed :: bool

type_synonym elastic_exec = "exec_state \<times> 32 word \<times> signals"

definition ops_of :: "elastic_exec \<Rightarrow> int" where
  "ops_of st = xs_num_outstanding_ops (fst st)"

record machine =
  mc_runner :: "tagged_node multiset"
  mc_threads :: "process_thread list"
  mc_async :: nat
  mc_state :: elastic_exec
  mc_finishes :: nat

inductive machine_step :: "thresholds \<Rightarrow> (tagged_node \<Rightarrow> bool) \<Rightarrow> machine \<Rightarrow> machine \<Rightarrow> bool"
  for th :: thresholds and ex :: "tagged_node \<Rightarrow> bool" where
  ms_start: "t \<in># mc_runner m \<Longrightarrow> machine_step th ex m
     (m\<lparr>mc_runner := mc_runner m - {#t#},
        mc_threads := mc_threads m @ [\<lparr>pt_busy = False, pt_inline = rq_push_back new_ready_queue t,
                                       pt_completed = False\<rparr>]\<rparr>)"
| ms_take: "i < length (mc_threads m) \<Longrightarrow> mc_threads m ! i = p \<Longrightarrow> \<not> pt_busy p
     \<Longrightarrow> \<not> rq_empty (pt_inline p) \<Longrightarrow> machine_step th ex m
     (m\<lparr>mc_threads := (mc_threads m)[i := p\<lparr>pt_busy := True, pt_inline := rq_pop_front (pt_inline p)\<rparr>]\<rparr>)"
| ms_launch: "i < length (mc_threads m) \<Longrightarrow> mc_threads m ! i = p \<Longrightarrow> pt_busy p
     \<Longrightarrow> ops_of st0 = ops_of (mc_state m)
     \<Longrightarrow> machine_step th ex m
     (m\<lparr>mc_threads := (mc_threads m)[i := p\<lparr>pt_busy := False\<rparr>], mc_async := mc_async m + 1,
        mc_state := st0\<rparr>)"
| ms_done: "i < length (mc_threads m) \<Longrightarrow> mc_threads m ! i = p \<Longrightarrow> pt_busy p
     \<Longrightarrow> ops_of st0 = ops_of (mc_state m)
     \<Longrightarrow> NodeDone th pool ex cancelled s ready (Some (pt_inline p)) st0
         = (st', Some q', runner', abort, completed)
     \<Longrightarrow> machine_step th ex m
     (m\<lparr>mc_threads := (mc_threads m)[i := \<lparr>pt_busy = False, pt_inline = q', pt_completed = completed\<rparr>],
        mc_runner := mc_runner m + mset runner', mc_state := st'\<rparr>)"
| ms_async_done: "0 < mc_async m
     \<Longrightarrow> ops_of st0 = ops_of (mc_state m)
     \<Longrightarrow> NodeDone th pool ex cancelled s ready None st0 = (st', q', runner', abort, completed)
     \<Longrightarrow> machine_step th ex m
     (m\<lparr>mc_async := mc_async m - 1, mc_runner := mc_runner m + mset runner', mc_state := st',
        mc_finishes := mc_finishes m + of_bool completed\<rparr>)"
| ms_exit: "mc_threads m = ps @ p # qs \<Longrightarrow> \<not> pt_busy p \<Longrightarrow> rq_empty (pt_inline p)
     \<Longrightarrow> machine_step th ex m
     (m\<lparr>mc_threads := ps @ qs, mc_finishes := mc_finishes m + of_bool (pt_completed p)\<rparr>)"

definition thread_work :: "process_thread \<Rightarrow> nat" where
  "thread_work p = of_bool (pt_busy p) + length (rq_elems (pt_inline p))"

definition machine_work :: "machine \<Rightarrow> nat" where
  "machine_work m = size (mc_runner m) + sum_list (map thread_work (mc_threads m)) + mc_async m"

definition completions :: "machine \<Rightarrow> nat" where
  "completions m = mc_finishes m + sum_list (map (\<lambda>p. of_bool (pt_completed p)) (mc_threads m))"

definition machine_inv :: "machine \<Rightarrow> bool" where
  "machine_inv m = ((\<forall>p\<in>set (mc_threads m). rq_wf (pt_inline p))
     \<and> xs_num_outstanding_ops (fst (mc_state m)) = int (machine_work m)
     \<and> completions m = of_bool (machine_work m = 0))"

text \<open>The step starts when \<open>RunAsync\<close> has handed at least one root node to the runner.\<close>

definition machine_start :: "machine \<Rightarrow> bool" where
  "machine_start m = (\<exists>roots xs xs' ready. start_roots roots xs = Some (Some (xs', ready))
     \<and> mc_runner m = mset ready \<and> mc_threads m = [] \<and> mc_async m = 0
     \<and> fst (mc_state m) = xs' \<and> mc_finishes m = 0)"

lemma start_roots_count:
  assumes "start_roots roots xs = Some (Some (xs', ready))"
  shows "xs_num_outstanding_ops xs' = int (length ready)" "ready \<noteq> []"
    "\<exists>f. xs_frames xs' (xs_root_frame xs) = Some f"
  using assms by (auto simp: start_roots_def Let_def put_frame_def split: if_splits option.splits)

lemma machine_start_inv: "machine_start m \<Longrightarrow> machine_inv m"
  using start_roots_count
  by (fastforce simp: machine_start_def machine_inv_def machine_work_def completions_def)

lemma sum_list_update_nat:
  "i < length xs \<Longrightarrow> sum_list (map f (xs[i := y])) + f (xs ! i) = sum_list (map f xs) + (f y :: nat)"
proof (induction xs arbitrary: i)
  case (Cons x xs)
  then show ?case by (cases i) auto
qed simp

text \<open>What \<open>NodeDone\<close> does to the count, the queue and the runner.\<close>

lemma NodeDone_count:
  assumes "NodeDone th pool ex cancelled s ready inline (xs, el) = (st', inline', runner, abort, completed)"
    and "\<forall>q. inline = Some q \<longrightarrow> rq_wf q"
  shows "xs_num_outstanding_ops (fst st') + 1 = xs_num_outstanding_ops xs
        + int (size (mset runner)) + int (length (case inline' of None \<Rightarrow> [] | Some q \<Rightarrow> rq_elems q))
        - int (length (case inline of None \<Rightarrow> [] | Some q \<Rightarrow> rq_elems q))"
    and "completed \<longleftrightarrow> xs_num_outstanding_ops (fst st') = 0 \<and> (ready = [] \<or> \<not> status_ok s)"
    and "(inline' = None) = (inline = None)" "\<forall>q. inline' = Some q \<longrightarrow> rq_wf q"
proof -
  obtain xs1 ab where 1: "record_status cancelled s xs = (xs1, ab)" by fastforce
  obtain xs2 cp where 2: "count_done s (length ready) xs1 = (xs2, cp)" by fastforce
  have same: "xs_num_outstanding_ops xs1 = xs_num_outstanding_ops xs"
    using 1 by (auto simp: record_status_def split: if_splits)
  obtain i' rn e' cl where 3: "ScheduleReady th pool ex ready inline el = (i', rn, e', cl)"
    by (metis prod.exhaust)
  have res: "st' = (xs2, if status_ok s then e' else el)"
    "inline' = (if status_ok s then i' else inline)" "runner = (if status_ok s then rn else [])"
    "completed = cp"
    using assms(1) 1 2 3 by (auto simp: NodeDone_def Let_def split: if_splits)
  have sched: "size (mset rn) + length (case i' of None \<Rightarrow> [] | Some q \<Rightarrow> rq_elems q)
      = length ready + length (case inline of None \<Rightarrow> [] | Some q \<Rightarrow> rq_elems q)
     \<and> (i' = None) = (inline = None) \<and> (\<forall>q. i' = Some q \<longrightarrow> rq_wf q)"
  proof (cases inline)
    case None
    then show ?thesis using 3
      by (auto simp: ScheduleReady_def schedule_nodes_none Let_def split: prod.splits)
  next
    case (Some q)
    then have "rq_wf q" using assms(2) by simp
    obtain q' where q': "i' = Some q'" "rq_wf q'"
      "mset (rq_elems q') + mset rn = mset (rq_elems q) + mset ready"
    proof -
      have "schedule_nodes ex (case pool of None \<Rightarrow> True | Some b \<Rightarrow> b) ready (Some q) = (i', rn)"
        using 3 Some by (simp add: ScheduleReady_def Let_def split: prod.splits)
      from schedule_nodes_spec [OF \<open>rq_wf q\<close> this] show thesis by (auto simp: ac_simps intro: that)
    qed
    have "size (mset (rq_elems q') + mset rn) = size (mset (rq_elems q) + mset ready)" by (simp only: q'(3))
    then show ?thesis using q'(1,2) Some by simp
  qed
  show "xs_num_outstanding_ops (fst st') + 1 = xs_num_outstanding_ops xs
        + int (size (mset runner)) + int (length (case inline' of None \<Rightarrow> [] | Some q \<Rightarrow> rq_elems q))
        - int (length (case inline of None \<Rightarrow> [] | Some q \<Rightarrow> rq_elems q))"
  proof -
    have one: "length ready = 1" if "ready \<noteq> []" "\<not> 1 < length ready" using that by (cases ready) auto
    have n: "xs_num_outstanding_ops xs2 + 1 = xs_num_outstanding_ops xs
        + (if status_ok s then int (length ready) else 0)"
      using 2 same one by (auto simp: count_done_def split: if_splits)
    have "int (size (mset rn)) + int (length (case i' of None \<Rightarrow> [] | Some q \<Rightarrow> rq_elems q))
      = int (length ready) + int (length (case inline of None \<Rightarrow> [] | Some q \<Rightarrow> rq_elems q))"
      using sched by linarith
    with n show ?thesis by (simp add: res)
  qed
  show "completed \<longleftrightarrow> xs_num_outstanding_ops (fst st') = 0 \<and> (ready = [] \<or> \<not> status_ok s)"
    using 2 same by (auto simp: res count_done_def split: if_splits)
  show "(inline' = None) = (inline = None)" "\<forall>q. inline' = Some q \<longrightarrow> rq_wf q"
    using sched assms(2) by (auto simp: res)
qed

lemma machine_step_inv:
  assumes "machine_inv m" "machine_step th ex m m'"
  shows "machine_inv m'"
  using assms(2,1)
proof (cases rule: machine_step.cases)
  case (ms_start t)
  let ?q = "rq_push_back new_ready_queue t"
  have q: "rq_wf ?q" "rq_elems ?q = [t]" using rq.ok_push [OF rq_wf_new] rq.elems_push [OF rq_wf_new] by auto
  have "size (mc_runner m) = size (mc_runner m - {#t#}) + 1" using ms_start(2) by (simp add: size_Suc_Diff1)
  then have "machine_work m' = machine_work m"
    using q by (simp add: ms_start(1) machine_work_def thread_work_def)
  moreover have "completions m' = completions m" by (simp add: ms_start(1) completions_def)
  ultimately show ?thesis using assms(1) q by (auto simp: machine_inv_def ms_start(1))
next
  case (ms_take i p)
  let ?p = "p\<lparr>pt_busy := True, pt_inline := rq_pop_front (pt_inline p)\<rparr>"
  have wf: "rq_wf (pt_inline p)" using assms(1) ms_take by (auto simp: machine_inv_def)
  then have ne: "rq_elems (pt_inline p) \<noteq> []" using ms_take(5) rq.is_empty_iff by blast
  have "thread_work ?p = thread_work p"
    using rq.elems_pop [OF wf ne] ne ms_take(4) by (simp add: thread_work_def)
  then have "machine_work m' = machine_work m"
    using sum_list_update_nat [OF ms_take(2), of thread_work ?p] ms_take(1,3) by (simp add: machine_work_def)
  moreover have "completions m' = completions m"
    using sum_list_update_nat [OF ms_take(2), of "\<lambda>p. of_bool (pt_completed p)" ?p] ms_take(1,3)
    by (simp add: completions_def)
  ultimately show ?thesis using assms(1) rq.ok_pop [OF wf ne]
    by (auto simp: machine_inv_def ms_take(1) dest!: set_update_subset_insert [THEN subsetD])
next
  case (ms_launch i p st0)
  let ?p = "p\<lparr>pt_busy := False\<rparr>"
  have "thread_work p = thread_work ?p + 1" using ms_launch(4) by (simp add: thread_work_def)
  then have "machine_work m' = machine_work m"
    using sum_list_update_nat [OF ms_launch(2), of thread_work ?p] ms_launch(1,3)
    by (simp add: machine_work_def)
  moreover have "completions m' = completions m"
    using sum_list_update_nat [OF ms_launch(2), of "\<lambda>p. of_bool (pt_completed p)" ?p] ms_launch(1,3)
    by (simp add: completions_def)
  moreover have "rq_wf (pt_inline p)" using assms(1) ms_launch by (auto simp: machine_inv_def)
  moreover have "ops_of (mc_state m') = ops_of (mc_state m)" using ms_launch(1,5) by simp
  ultimately show ?thesis using assms(1)
    by (auto simp: machine_inv_def ops_of_def ms_launch(1) dest!: set_update_subset_insert [THEN subsetD])
next
  case (ms_done i p st0 pool cancelled s ready st' q' runner' abort completed)
  let ?p = "\<lparr>pt_busy = False, pt_inline = q', pt_completed = completed\<rparr>"
  obtain xs el where st: "st0 = (xs, el)" by (cases st0)
  have wf: "\<forall>q. Some (pt_inline p) = Some q \<longrightarrow> rq_wf q" using assms(1) ms_done by (auto simp: machine_inv_def)
  note N = NodeDone_count [OF ms_done(6) [unfolded st] wf]
  have w: "machine_work m' + thread_work p = machine_work m + thread_work ?p + size (mset runner')"
    using sum_list_update_nat [OF ms_done(2), of thread_work ?p] ms_done(1,3) by (simp add: machine_work_def)
  have cnt: "xs_num_outstanding_ops xs = int (machine_work m)"
    using assms(1) st ms_done(5) by (simp add: machine_inv_def ops_of_def)
  have n': "xs_num_outstanding_ops (fst st') = int (machine_work m')"
    using N(1) w cnt ms_done(4) by (simp add: thread_work_def)
  have pos: "0 < machine_work m"
  proof -
    have "thread_work p \<le> sum_list (map thread_work (mc_threads m))"
      using ms_done(2,3) by (metis elem_le_sum_list length_map nth_map)
    then show ?thesis using ms_done(4) by (simp add: machine_work_def thread_work_def)
  qed
  have z: "completions m = 0" using assms(1) pos by (simp add: machine_inv_def)
  then have "\<not> pt_completed p"
    using ms_done(2,3) by (auto simp: completions_def dest!: nth_mem)
  then have "completions m' = of_bool completed"
    using sum_list_update_nat [OF ms_done(2), of "\<lambda>p. of_bool (pt_completed p)" ?p] ms_done(1,3) z
    by (simp add: completions_def)
  moreover have "completed \<longleftrightarrow> machine_work m' = 0"
  proof -
    have "ready = [] \<or> \<not> status_ok s" if "machine_work m' = 0"
    proof (rule ccontr)
      assume r: "\<not> ?thesis"
      have "xs_num_outstanding_ops (fst st') \<ge> xs_num_outstanding_ops xs"
        using ms_done(6) r unfolding st
        by (auto simp: NodeDone_def count_done_def record_status_def Let_def split: prod.splits if_splits)
      then show False using that n' cnt pos by simp
    qed
    then show ?thesis using N(2) n' by auto
  qed
  moreover have "\<forall>p\<in>set (mc_threads m'). rq_wf (pt_inline p)"
  proof
    fix a assume "a \<in> set (mc_threads m')"
    then have "a \<in> set ((mc_threads m)[i := ?p])" by (simp add: ms_done(1))
    then have "a = ?p \<or> a \<in> set (mc_threads m)" using set_update_subset_insert by fastforce
    then show "rq_wf (pt_inline a)" using N(4) assms(1) by (auto simp: machine_inv_def)
  qed
  moreover have "fst (mc_state m') = fst st'" by (simp add: ms_done(1))
  ultimately show ?thesis using n' unfolding machine_inv_def by simp
next
  case (ms_async_done st0 pool cancelled s ready st' q' runner' abort completed)
  obtain xs el where st: "st0 = (xs, el)" by (cases st0)
  note N = NodeDone_count [OF ms_async_done(4) [unfolded st]]
  have w: "machine_work m' + 1 = machine_work m + size (mset runner')"
    using ms_async_done(1,2) by (simp add: machine_work_def)
  have cnt: "xs_num_outstanding_ops xs = int (machine_work m)"
    using assms(1) st ms_async_done(3) by (simp add: machine_inv_def ops_of_def)
  have q': "q' = None" using N(3) by simp
  have n': "xs_num_outstanding_ops (fst st') = int (machine_work m')"
    using N(1) w cnt q' by simp
  have pos: "0 < machine_work m" using ms_async_done(2) by (simp add: machine_work_def)
  have z: "completions m = 0" using assms(1) pos by (simp add: machine_inv_def)
  then have c: "completions m' = of_bool completed" by (simp add: completions_def ms_async_done(1))
  have "completed \<longleftrightarrow> machine_work m' = 0"
  proof -
    have "ready = [] \<or> \<not> status_ok s" if "machine_work m' = 0"
    proof (rule ccontr)
      assume r: "\<not> ?thesis"
      have "xs_num_outstanding_ops (fst st') \<ge> xs_num_outstanding_ops xs"
        using ms_async_done(4) r unfolding st
        by (auto simp: NodeDone_def count_done_def record_status_def Let_def split: prod.splits if_splits)
      then show False using that n' cnt pos by simp
    qed
    then show ?thesis using N(2) n' by auto
  qed
  moreover have "mc_threads m' = mc_threads m" "fst (mc_state m') = fst st'" by (simp_all add: ms_async_done(1))
  ultimately show ?thesis using assms(1) n' c unfolding machine_inv_def by simp
next
  case (ms_exit ps p qs)
  have "rq_wf (pt_inline p)" using assms(1) ms_exit(2) by (simp add: machine_inv_def)
  then have "thread_work p = 0" using ms_exit(3,4) rq.is_empty_iff [of "pt_inline p"] by (simp add: thread_work_def)
  then have "machine_work m' = machine_work m" by (simp add: ms_exit(1,2) machine_work_def)
  moreover have "completions m' = completions m" by (simp add: ms_exit(1,2) completions_def)
  ultimately show ?thesis using assms(1) by (auto simp: machine_inv_def ms_exit(1,2))
qed

interpretation machine: invariant_system machine_start "machine_step th ex" machine_inv for th ex
  by unfold_locales (auto intro: machine_start_inv machine_step_inv)

lemma reach_accounts:
  assumes "reach machine_start (machine_step th ex) m"
  shows "xs_num_outstanding_ops (fst (mc_state m)) = int (machine_work m)"
    "completions m = of_bool (machine_work m = 0)"
    "p \<in> set (mc_threads m) \<Longrightarrow> rq_wf (pt_inline p)"
  using machine.reach_inv [OF assms] by (simp_all add: machine_inv_def)

text \<open>
  C2: in every interleaving of the threads, the asynchronous kernels and the runner,
  \<open>num_outstanding_ops_\<close> is exactly the number of nodes that are waiting in the runner, in
  an inline queue, being processed, or in flight. \<open>ScheduleFinish\<close> is called at most once,
  and only when nothing is left; when nothing is left and all threads have returned, it has
  been called.
\<close>

theorem finish_exactly_once:
  assumes "reach machine_start (machine_step th ex) m"
  shows "xs_num_outstanding_ops (fst (mc_state m)) = int (machine_work m)
    \<and> mc_finishes m \<le> 1
    \<and> (mc_finishes m = 1 \<longrightarrow> machine_work m = 0)
    \<and> (machine_work m = 0 \<and> mc_threads m = [] \<longrightarrow> mc_finishes m = 1)"
proof -
  have "mc_finishes m \<le> completions m" by (simp add: completions_def)
  then show ?thesis using reach_accounts(1,2) [OF assms]
    by (cases "machine_work m = 0") (auto simp: completions_def)
qed

text \<open>A step with one root node, in a frame as the constructor makes it.\<close>

definition sample_config :: exec_config where
  "sample_config = \<lparr>xc_gview = (\<lambda>_. None),
     xc_frame_info = (\<lambda>_. Some sample_frame_info), xc_hash64 = (\<lambda>s. length s)\<rparr>"

definition sample_exec :: exec_state where
  "sample_exec = the (new_exec_state sample_config)"

lemma iter_state_first_iteration:
  "iter_state (first_iteration f) 0 =
     Some (new_iteration_state (fs_pending_counts f) (fs_total_input_tensors f))"
  by (simp add: iter_state_def GetIteration_def first_iteration_def alloc_iteration_def SetIteration_def
      ring_index_def)

lemma sample_exec_run:
  "\<exists>xs. start_roots [i] sample_exec =
     Some (Some (xs, [\<lparr>tn_item = i, tn_frame = 0, tn_iter = 0, tn_is_dead = False\<rparr>]))"
  by (simp add: sample_exec_def sample_config_def new_exec_state_def new_frame_state_def
      sample_frame_info_def start_roots_def iter_state_first_iteration Let_def)

theorem finish_exactly_once_witness:
  "\<exists>th m. reach machine_start (machine_step th (\<lambda>_. False)) m \<and> mc_threads m = []
     \<and> machine_work m = 0 \<and> mc_finishes m = 1"
proof -
  let ?t = "\<lparr>tn_item = 3, tn_frame = 0, tn_iter = 0, tn_is_dead = False\<rparr>"
  let ?th = "\<lparr>th_max_threads = 8, th_min_threads = 2, th_iteration_down = 2, th_iteration_up = 4\<rparr>"
  let ?R = "reach machine_start (machine_step ?th (\<lambda>_. False))"
  obtain xs where run: "start_roots [3] sample_exec = Some (Some (xs, [?t]))"
    using sample_exec_run by blast
  define m0 where "m0 = \<lparr>mc_runner = mset [?t], mc_threads = [], mc_async = 0,
     mc_state = (xs, 0, new_signals), mc_finishes = 0\<rparr>"
  have "machine_start m0" using run unfolding machine_start_def m0_def by fastforce
  then have 0: "?R m0" by (rule reach_init)
  define p where "p = \<lparr>pt_busy = False, pt_inline = rq_push_back new_ready_queue ?t, pt_completed = False\<rparr>"
  define m1 where "m1 = m0\<lparr>mc_runner := mc_runner m0 - {#?t#}, mc_threads := mc_threads m0 @ [p]\<rparr>"
  have 1: "?R m1" unfolding m1_def p_def
    by (rule reach_step [OF 0], rule ms_start) (simp add: m0_def)
  define p' where "p' = p\<lparr>pt_busy := True, pt_inline := rq_pop_front (pt_inline p)\<rparr>"
  have th1: "mc_threads m1 = [p]" by (simp add: m1_def m0_def)
  define m2 where "m2 = m1\<lparr>mc_threads := (mc_threads m1)[0 := p']\<rparr>"
  have 2: "?R m2" unfolding m2_def p'_def
    by (rule reach_step [OF 1], rule ms_take)
      (simp_all add: th1 p_def rq_push_back_def new_ready_queue_def rq_empty_def)
  have th2: "mc_threads m2 = [p']" by (simp add: m2_def th1)
  have n: "xs_num_outstanding_ops xs = 1" using start_roots_count(1) [OF run] by simp
  obtain st' q' r' ab c where nd: "NodeDone ?th None (\<lambda>_. False) False ok_status [] (Some (pt_inline p')) (mc_state m2)
      = (st', Some q', r', ab, c)" and c: "c" "q' = pt_inline p'" "r' = []"
    using n by (simp add: m2_def m1_def m0_def NodeDone_def record_status_def count_done_def
        ScheduleReady_def schedule_nodes_def status_ok_def) blast
  define p3 where "p3 = \<lparr>pt_busy = False, pt_inline = q', pt_completed = c\<rparr>"
  define m3 where "m3 = m2\<lparr>mc_threads := (mc_threads m2)[0 := p3],
        mc_runner := mc_runner m2 + mset r', mc_state := st'\<rparr>"
  have 3: "?R m3" unfolding m3_def p3_def
    by (rule reach_step [OF 2], rule ms_done [OF _ _ _ refl nd]) (simp_all add: th2 p'_def)
  have th3: "mc_threads m3 = [] @ p3 # []" by (simp add: m3_def th2)
  define m4 where "m4 = m3\<lparr>mc_threads := [] @ [], mc_finishes := mc_finishes m3 + of_bool (pt_completed p3)\<rparr>"
  have 4: "?R m4" unfolding m4_def
    by (rule reach_step [OF 3], rule ms_exit [OF th3])
      (simp_all add: p3_def c p'_def p_def rq_push_back_def new_ready_queue_def rq_empty_def rq_pop_front_def)
  have "mc_threads m4 = []" "machine_work m4 = 0"
    by (simp_all add: m4_def m3_def m2_def m1_def m0_def c machine_work_def)
  then show ?thesis using finish_exactly_once [OF 4] 4 by blast
qed

end
