(* ===== verification/Process_Props.thy ===== *)
theory Process_Props
  imports Scheduling_Props
begin

text \<open>
  The frame operations leave the accounts of the step alone, so one turn of the loop of
  \<open>Process\<close> is two steps of the machine of outstanding operations: the node is taken, and it
  is done or its asynchronous kernel started.
\<close>

section \<open>What the frame operations do not touch\<close>

definition same_accounts :: "exec_state \<Rightarrow> exec_state \<Rightarrow> bool" where
  "same_accounts xs xs' = (xs_num_outstanding_ops xs' = xs_num_outstanding_ops xs
     \<and> xs_status xs' = xs_status xs \<and> xs_num_deferred_ops xs' = xs_num_deferred_ops xs
     \<and> xs_finish_when_deferred_ops_done xs' = xs_finish_when_deferred_ops_done xs
     \<and> xs_root_frame xs' = xs_root_frame xs)"

named_theorems accounts

lemma same_refl [accounts, simp]: "same_accounts xs xs"
  by (simp add: same_accounts_def)

lemma same_trans [trans]: "same_accounts a b \<Longrightarrow> same_accounts b c \<Longrightarrow> same_accounts a c"
  by (simp add: same_accounts_def)

lemma same_put_frame [accounts, simp]: "same_accounts xs (put_frame a f xs)"
  by (simp add: same_accounts_def put_frame_def)

lemma same_on_frame [accounts]:
  "on_frame a oper (xs, ready) = Some (xs', ready', r) \<Longrightarrow> same_accounts xs xs'"
  by (auto simp: on_frame_def split: option.splits prod.splits)

lemma same_child_frame [accounts]:
  "FindOrCreateChildFrame cfg frame iter def xs = Some (xs', child) \<Longrightarrow> same_accounts xs xs'"
  by (auto simp: FindOrCreateChildFrame_def publish_child_frame_def Let_def same_accounts_def put_frame_def
      split: option.splits sum.splits prod.splits)

lemma same_DeleteFrame [accounts]:
  assumes "DeleteFrame cfg frame (xs, ready) = Some (xs', ready')"
  shows "same_accounts xs xs'"
  using assms
  by (auto simp: DeleteFrame_def same_accounts_def put_frame_def split: option.splits prod.splits)

lemma same_cleanup_frames:
  "cleanup_frames fuel cfg frame iter (xs, ready) = Some (xs', ready') \<Longrightarrow> same_accounts xs xs'"
proof (induction fuel arbitrary: frame iter xs ready)
  case (Suc fuel)
  from Suc.prems obtain xs1 ready1 d where
    1: "on_frame frame (\<lambda>(f, ready).
         (case iter_state f iter of
            None \<Rightarrow> None
          | Some s \<Rightarrow> CleanupIterations (xc_gview cfg) frame iter
              (put_iter_state iter
                 (s\<lparr>is_outstanding_frame_count := is_outstanding_frame_count s - 1\<rparr>) f, ready)))
          (xs, ready) = Some (xs1, ready1, d)"
    by (auto split: option.splits prod.splits)
  note s1 = same_on_frame [OF 1]
  show ?case
  proof (cases d)
    case False
    then show ?thesis using Suc.prems 1 s1 by simp
  next
    case True
    then obtain f xs2 ready2 where 2: "xs_frames xs1 frame = Some f"
      "DeleteFrame cfg frame (xs1, ready1) = Some (xs2, ready2)"
      using Suc.prems 1 by (auto split: option.splits)
    note s2 = same_trans [OF s1 same_DeleteFrame [OF 2(2)]]
    show ?thesis
    proof (cases "fs_parent_frame f")
      case None
      then show ?thesis using Suc.prems 1 2 True s2 by simp
    next
      case (Some p)
      then have "cleanup_frames fuel cfg p (nat (fs_parent_iter f)) (xs2, ready2) = Some (xs', ready')"
        using Suc.prems 1 2 True by simp
      from same_trans [OF s2 Suc.IH [OF this]] show ?thesis .
    qed
  qed
qed simp

lemma same_propagate:
  "propagate_normal cfg tn outputs (xs, ready) = Some (xs', ready', d) \<Longrightarrow> same_accounts xs xs'"
  "propagate_enter cfg item tn outputs (xs, ready) = Some (xs', ready', d) \<Longrightarrow> same_accounts xs xs'"
  "propagate_exit cfg tn outputs (xs, ready) = Some (xs', ready', d) \<Longrightarrow> same_accounts xs xs'"
  "propagate_next cfg tn outputs (xs, ready) = Some (xs', ready', d) \<Longrightarrow> same_accounts xs xs'"
  unfolding propagate_normal_def propagate_enter_def propagate_exit_def propagate_next_def
  by (auto split: option.splits prod.splits if_splits dest!: same_on_frame same_child_frame intro: same_trans)

lemma same_PropagateOutputs [accounts]:
  assumes "PropagateOutputs cfg tn outputs xs = Some (xs', ready')"
  shows "same_accounts xs xs'"
proof -
  obtain item xs1 ready1 d where 1: "xc_gview cfg (tn_item tn) = Some item"
    "(if \<not> is_enter_exit_or_next_iter item then propagate_normal cfg tn outputs (xs, [])
               else if is_enter item then propagate_enter cfg item tn outputs (xs, [])
               else if is_exit item then propagate_exit cfg tn outputs (xs, [])
               else propagate_next cfg tn outputs (xs, [])) = Some (xs1, ready1, d)"
    using assms unfolding PropagateOutputs_def by (auto split: option.splits prod.splits simp del: split_paired_Ex)
  have s1: "same_accounts xs xs1" using 1(2) by (auto split: if_splits dest: same_propagate)
  show ?thesis
  proof (cases d)
    case False
    then show ?thesis using assms 1 s1 by (simp add: PropagateOutputs_def)
  next
    case True
    then obtain f st2 where 2: "xs_frames xs1 (tn_frame tn) = Some f"
      "DeleteFrame cfg (tn_frame tn) (xs1, ready1) = Some st2"
      "(case fs_parent_frame f of None \<Rightarrow> Some st2
         | Some p \<Rightarrow> CleanupFramesIterations cfg p (nat (fs_parent_iter f)) st2) = Some (xs', ready')"
      using assms 1 by (simp add: PropagateOutputs_def split: option.splits)
    obtain xs2 ready2 where st2: "st2 = (xs2, ready2)" by (cases st2)
    note s2 = same_trans [OF s1 same_DeleteFrame [OF 2(2) [unfolded st2]]]
    show ?thesis
    proof (cases "fs_parent_frame f")
      case None
      then show ?thesis using 2(3) s2 by (simp add: st2)
    next
      case (Some p)
      then have "cleanup_frames (p + 1) cfg p (nat (fs_parent_iter f)) (xs2, ready2) = Some (xs', ready')"
        using 2(3) unfolding CleanupFramesIterations_def st2 by (simp only: option.case)
      from same_trans [OF s2 same_cleanup_frames [OF this]] show ?thesis .
    qed
  qed
qed

lemma same_put_entries [accounts, simp]: "same_accounts xs (put_entries tn item es xs)"
  by (auto simp: put_entries_def split: option.splits)

lemma same_mark_node [accounts, simp]: "same_accounts xs (mark_node v mark tn item xs)"
  by (auto simp: mark_node_def split: option.splits)

lemma same_MaybeMarkCompleted [accounts, simp]: "same_accounts xs (MaybeMarkCompleted v tn item xs)"
  by (simp add: MaybeMarkCompleted_def)

lemma same_finish_node [accounts]:
  assumes "finish_node env tn item s outputs xs = Some (xs', r)"
  shows "same_accounts xs xs'"
proof -
  obtain g i es where in_es: "input_entries tn item xs = Some (g, i, es)"
    using assms by (auto simp: finish_node_def split: option.splits)
  let ?xs2 = "MaybeMarkCompleted (se_vlog env) tn item (put_entries tn item (clear_inputs item es) xs)"
  have s2: "same_accounts xs ?xs2" by (rule same_trans [OF same_put_entries same_MaybeMarkCompleted])
  show ?thesis
  proof (cases "status_ok s")
    case True
    then obtain ready where "PropagateOutputs (se_config env) tn outputs ?xs2 = Some (xs', ready)"
      using assms in_es by (auto simp: finish_node_def Let_def split: option.splits)
    from same_trans [OF s2 same_PropagateOutputs [OF this]] show ?thesis .
  next
    case False
    then show ?thesis using assms in_es s2 by (simp add: finish_node_def Let_def)
  qed
qed

section \<open>A turn of the loop\<close>

definition thread_of :: "thread_state \<Rightarrow> process_thread" where
  "thread_of ts = \<lparr>pt_busy = False, pt_inline = ts_inline ts, pt_completed = ts_completed ts\<rparr>"

definition shared_of :: "shared_state \<Rightarrow> elastic_exec" where
  "shared_of sh = (sh_exec sh, sh_inter_count sh, sh_signals sh)"

text \<open>The two ways a turn ends, as the steps of the machine see them.\<close>

definition turn_done :: "step_env \<Rightarrow> thread_state \<times> shared_state \<Rightarrow> thread_state \<times> shared_state
     \<Rightarrow> tagged_node list \<Rightarrow> bool" where
  "turn_done env st st' runner = (\<exists>sh1 s ready q abort c.
     same_accounts (sh_exec (snd st)) (sh_exec sh1)
     \<and> node_done env s ready (Some (rq_pop_front (ts_inline (fst st)))) sh1
         = (snd st', q, runner, abort, c)
     \<and> ts_inline (fst st') = the q \<and> ts_completed (fst st') = c)"

definition turn_launched :: "thread_state \<times> shared_state \<Rightarrow> thread_state \<times> shared_state \<Rightarrow> bool" where
  "turn_launched st st' = (same_accounts (sh_exec (snd st)) (sh_exec (snd st'))
     \<and> ts_inline (fst st') = rq_pop_front (ts_inline (fst st))
     \<and> ts_completed (fst st') = ts_completed (fst st))"

lemma turn_doneI:
  assumes "same_accounts (sh_exec sh) (sh_exec sh1)"
    and "node_done env s ready (Some (rq_pop_front (ts_inline ts))) sh1 = (sh', q, runner, abort, c)"
    and "ts_inline ts' = the q" "ts_completed ts' = c"
  shows "turn_done env (ts, sh) (ts', sh') runner"
  using assms unfolding turn_done_def by fastforce

lemma process_step_turn:
  assumes "process_step env st = Some (st', runner, launch)"
  shows "(launch = None \<longrightarrow> turn_done env st st' runner)
    \<and> (launch \<noteq> None \<longrightarrow> turn_launched st st' \<and> runner = [])"
proof -
  obtain ts sh0 where st: "st = (ts, sh0)" by (cases st)
  obtain intra sig calls where it: "intra_tick (se_thresholds env) (sh_intra_count sh0, sh_signals sh0)
      = ((intra, sig), calls)" by (metis prod.exhaust)
  let ?sh = "sh0\<lparr>sh_intra_count := intra, sh_signals := sig\<rparr>"
  let ?tn = "rq_front (ts_inline ts)" and ?q = "rq_pop_front (ts_inline ts)"
  obtain item where item: "xc_gview (se_config env) (tn_item ?tn) = Some item"
    using assms by (auto simp: process_step_def st it Let_def split: option.splits)
  let ?xs0 = "mark_node (se_vlog env) mark_started ?tn item (sh_exec sh0)"
  obtain f s es k where ek: "input_entries ?tn item ?xs0 = Some (f, s, es)" "ni_kernel item = Some k"
    using assms by (auto simp: process_step_def st it item Let_def split: option.splits)
  note unf = process_step_def st it item ek Let_def
  show ?thesis
  proof (cases "tn_is_dead ?tn \<and> \<not> is_transfer_node item")
    case True
    then obtain xs1 r where fn: "finish_node env ?tn item (ts_status ts)
        (replicate (num_outputs item) new_entry) ?xs0 = Some (xs1, r)"
      using assms by (auto simp: unf split: option.splits)
    have same: "same_accounts (sh_exec sh0) xs1"
      using same_mark_node same_finish_node [OF fn] by (rule same_trans)
    show ?thesis using assms True fn same
      by (auto simp: unf st split: prod.splits intro!: turn_doneI)
  next
    case nd: False
    obtain sp es' inputs attrs dead where pi: "PrepareInputs (sh_store sh0) item k es = (sp, es', inputs, attrs, dead)"
      by (metis prod.exhaust)
    show ?thesis
    proof (cases "status_ok sp")
      case False
      have "same_accounts (sh_exec sh0) (MaybeMarkCompleted (se_vlog env) ?tn item
              (put_entries ?tn item (clear_inputs item es') ?xs0))"
        by (rule same_trans [OF same_trans [OF same_mark_node same_put_entries] same_MaybeMarkCompleted])
      then show ?thesis using assms nd False pi
        by (auto simp: unf st split: prod.splits intro!: turn_doneI)
    next
      case ok: True
      let ?xs1 = "put_entries ?tn item es' ?xs0"
      have s1: "same_accounts (sh_exec sh0) ?xs1"
        by (rule same_trans [OF same_mark_node same_put_entries])
      show ?thesis
      proof (cases "kernel_is_async item")
        case True
        then show ?thesis using assms nd ok pi s1 by (auto simp: unf turn_launched_def)
      next
        case False
        obtain cs vals store where cp: "se_compute env k inputs dead (sh_store sh0) = (cs, vals, store)"
          by (metis prod.exhaust)
        obtain s2 outputs where po: "ProcessOutputs store (se_report env) item k cs vals = (s2, outputs)"
          by (metis prod.exhaust)
        obtain xs2 r where fn: "finish_node env ?tn item s2 outputs ?xs1 = Some (xs2, r)"
          using assms nd ok pi False cp po by (auto simp: unf split: option.splits)
        have same: "same_accounts (sh_exec sh0) xs2" using s1 same_finish_node [OF fn] by (rule same_trans)
        show ?thesis using assms nd ok pi False cp po fn same
          by (auto simp: unf st split: prod.splits intro!: turn_doneI)
      qed
    qed
  qed
qed


lemma process_turn:
  assumes "process_step env (ts, sh) = Some ((ts', sh'), runner, launch)" "\<not> rq_empty (ts_inline ts)"
    and "mc_threads m = ps @ [thread_of ts]" "mc_state m = shared_of sh"
    and reach: "reach I (machine_step (se_thresholds env) (is_expensive_node (se_config env))) m"
    and wf: "rq_wf (ts_inline ts)"
  shows "\<exists>m'. reach I (machine_step (se_thresholds env) (is_expensive_node (se_config env))) m'
    \<and> mc_threads m' = ps @ [thread_of ts'] \<and> mc_runner m' = mc_runner m + mset runner
    \<and> mc_async m' = mc_async m + of_bool (launch \<noteq> None) \<and> mc_finishes m' = mc_finishes m
    \<and> mc_state m' = shared_of sh'"
proof -
  let ?S = "machine_step (se_thresholds env) (is_expensive_node (se_config env))"
  let ?p = "(thread_of ts)\<lparr>pt_busy := True, pt_inline := rq_pop_front (ts_inline ts)\<rparr>"
  define m1 where "m1 = m\<lparr>mc_threads := (mc_threads m)[length ps := ?p]\<rparr>"
  have i: "length ps < length (mc_threads m)" "mc_threads m ! length ps = thread_of ts" using assms(3) by auto
  have "?S m m1" using ms_take [OF i, of "se_thresholds env"] assms(2)
    unfolding m1_def by (simp add: thread_of_def)
  with reach have 1: "reach I ?S m1" by (rule reach_step)
  have m1: "mc_threads m1 = ps @ [?p]" "mc_runner m1 = mc_runner m" "mc_async m1 = mc_async m"
    "mc_finishes m1 = mc_finishes m" "mc_state m1 = shared_of sh"
    using assms(3,4) by (simp_all add: m1_def)
  then have i1: "length ps < length (mc_threads m1)" "mc_threads m1 ! length ps = ?p" "pt_busy ?p" by auto
  note turn = process_step_turn [OF assms(1)]
  show ?thesis
  proof (cases launch)
    case None
    with turn obtain sh1 s ready q abort c where
      same: "same_accounts (sh_exec sh) (sh_exec sh1)"
      and nd: "node_done env s ready (Some (rq_pop_front (ts_inline ts))) sh1 = (sh', q, runner, abort, c)"
      and ts': "ts_inline ts' = the q" "ts_completed ts' = c"
      unfolding turn_done_def by auto
    obtain st' where N: "NodeDone (se_thresholds env) (se_check_sleep env) (is_expensive_node (se_config env))
        (se_cancelled env) s ready (Some (pt_inline ?p)) (shared_of sh1) = (st', q, runner, abort, c)"
      and sh': "shared_of sh' = st'"
      using nd by (auto simp: node_done_def shared_of_def Let_def split: prod.splits)
    have wf': "\<forall>q. Some (pt_inline ?p) = Some q \<longrightarrow> rq_wf q"
      using assms(2) wf rq.ok_pop rq.is_empty_iff [OF wf] by simp
    obtain q' where q': "q = Some q'"
      using NodeDone_count(3) [OF N [unfolded shared_of_def] wf'] by auto
    have ops: "ops_of (shared_of sh1) = ops_of (mc_state m1)"
      using same m1(5) by (simp add: ops_of_def shared_of_def same_accounts_def)
    from reach_step [OF 1 ms_done [OF i1 ops N [unfolded q']]]
    show ?thesis
      by - (intro exI conjI, assumption, simp_all add: m1 None ts' q' sh' thread_of_def)
  next
    case (Some l)
    with turn have t: "turn_launched (ts, sh) (ts', sh')" "runner = []" by auto
    have ops: "ops_of (shared_of sh') = ops_of (mc_state m1)"
      using t m1(5) by (simp add: ops_of_def shared_of_def same_accounts_def turn_launched_def)
    from reach_step [OF 1 ms_launch [OF i1 ops]]
    show ?thesis
      by - (intro exI conjI, assumption, use t in \<open>simp_all add: m1 Some thread_of_def turn_launched_def\<close>)
  qed
qed

lemma process_loop_reach:
  assumes "process_loop fuel env (ts, sh) runner launched = Some ((ts', sh'), runner', launched')"
    and "mc_threads m = ps @ [thread_of ts]" "mc_state m = shared_of sh"
    and "reach machine_start (machine_step (se_thresholds env) (is_expensive_node (se_config env))) m"
  shows "\<exists>m' r l. reach machine_start (machine_step (se_thresholds env) (is_expensive_node (se_config env))) m'
    \<and> mc_threads m' = ps @ [thread_of ts'] \<and> rq_empty (ts_inline ts')
    \<and> runner' = runner @ r \<and> launched' = launched @ l
    \<and> mc_runner m' = mc_runner m + mset r \<and> mc_async m' = mc_async m + length l
    \<and> mc_finishes m' = mc_finishes m \<and> mc_state m' = shared_of sh'"
  using assms
proof (induction fuel arbitrary: ts sh runner launched m)
  case 0
  then show ?case
    by (intro exI [of _ m] exI [of _ "[]"]) (auto simp: process_loop.simps [of 0] split: if_splits)
next
  case (Suc fuel)
  show ?case
  proof (cases "rq_empty (ts_inline ts)")
    case True
    then show ?thesis using Suc.prems
      by (intro exI [of _ m] exI [of _ "[]"]) (auto simp: process_loop.simps [of "Suc fuel"])
  next
    case False
    then obtain ts1 sh1 r l where 1: "process_step env (ts, sh) = Some ((ts1, sh1), r, l)"
      and rest: "process_loop fuel env (ts1, sh1) (runner @ r)
        (launched @ (case l of None \<Rightarrow> [] | Some a \<Rightarrow> [a])) = Some ((ts', sh'), runner', launched')"
      using Suc.prems(1) by (auto simp: process_loop.simps [of "Suc fuel"] split: option.splits)
    have wf: "rq_wf (ts_inline ts)"
      using reach_accounts(3) [OF Suc.prems(4), of "thread_of ts"] Suc.prems(2) by (simp add: thread_of_def)
    from process_turn [OF 1 False Suc.prems(2,3,4) wf] obtain m1 where
      m1: "reach machine_start (machine_step (se_thresholds env) (is_expensive_node (se_config env))) m1"
      "mc_threads m1 = ps @ [thread_of ts1]" "mc_runner m1 = mc_runner m + mset r"
      "mc_async m1 = mc_async m + of_bool (l \<noteq> None)" "mc_finishes m1 = mc_finishes m"
      "mc_state m1 = shared_of sh1" by blast
    from Suc.IH [OF rest m1(2,6,1)] obtain m' r' l' where
      m': "reach machine_start (machine_step (se_thresholds env) (is_expensive_node (se_config env))) m'"
      "mc_threads m' = ps @ [thread_of ts']" "rq_empty (ts_inline ts')"
      "runner' = (runner @ r) @ r'" "launched' = (launched @ (case l of None \<Rightarrow> [] | Some a \<Rightarrow> [a])) @ l'"
      "mc_runner m' = mc_runner m1 + mset r'" "mc_async m' = mc_async m1 + length l'"
      "mc_finishes m' = mc_finishes m1" "mc_state m' = shared_of sh'" by blast
    then show ?thesis using m1
      by (intro exI [of _ m'] exI [of _ "r @ r'"] exI [of _ "(case l of None \<Rightarrow> [] | Some a \<Rightarrow> [a]) @ l'"])
        (auto split: option.splits)
  qed
qed


text \<open>
  C1: the code of a thread is an implementation of the machine of outstanding operations. A
  call of \<open>Process\<close> on a node the runner was given, from any reachable state, that returns,
  leads to a reachable state in which the thread is gone, the runner and the asynchronous
  kernels have exactly what the call handed to them, and the counts are those of the call.
  If the call ends the step then no work of any kind is left, and nobody ended it before.
\<close>

theorem process_refines_machine:
  assumes "reach machine_start (machine_step (se_thresholds env) (is_expensive_node (se_config env))) m"
    and "tn \<in># mc_runner m" "mc_state m = shared_of sh"
    and "Process fuel env tn sh = Some (sh', runner, launched, finish)"
  shows "\<exists>m'. reach machine_start (machine_step (se_thresholds env) (is_expensive_node (se_config env))) m'
    \<and> mc_threads m' = mc_threads m \<and> mc_runner m' = mc_runner m - {#tn#} + mset runner
    \<and> mc_async m' = mc_async m + length launched
    \<and> xs_num_outstanding_ops (sh_exec sh') = int (machine_work m')
    \<and> (finish \<longrightarrow> machine_work m' = 0 \<and> mc_finishes m = 0 \<and> mc_finishes m' = 1)"
proof -
  let ?S = "machine_step (se_thresholds env) (is_expensive_node (se_config env))"
  let ?ts = "new_thread_state tn"
  define m1 where "m1 = m\<lparr>mc_runner := mc_runner m - {#tn#}, mc_threads := mc_threads m @ [thread_of ?ts]\<rparr>"
  have 1: "reach machine_start ?S m1" using reach_step [OF assms(1) ms_start [OF assms(2)]]
    by (simp add: m1_def thread_of_def new_thread_state_def)
  obtain ts sh1 where loop: "process_loop fuel env (?ts, sh) [] [] = Some ((ts, sh1), runner, launched)"
    and sh': "sh_exec sh' = (if ts_completed ts then fst (ScheduleFinish (sh_exec sh1)) else sh_exec sh1)"
    and fin: "finish \<longrightarrow> ts_completed ts"
    using assms(4) by (auto simp: Process_def split: option.splits prod.splits if_splits)
  from process_loop_reach [OF loop, of m1 "mc_threads m"] 1 assms(3) obtain m2 where
    m2: "reach machine_start ?S m2" "mc_threads m2 = mc_threads m @ [thread_of ts]"
    "rq_empty (ts_inline ts)" "mc_runner m2 = mc_runner m - {#tn#} + mset runner"
    "mc_async m2 = mc_async m + length launched" "mc_finishes m2 = mc_finishes m"
    "mc_state m2 = shared_of sh1"
    by (auto simp: m1_def)
  define m' where "m' = m2\<lparr>mc_threads := mc_threads m @ [], mc_finishes := mc_finishes m2 + of_bool (ts_completed ts)\<rparr>"
  have "mc_threads m2 = mc_threads m @ thread_of ts # []" using m2(2) by simp
  from ms_exit [OF this] m2(3) have "?S m2 m'" unfolding m'_def by (simp add: thread_of_def)
  with m2(1) have r: "reach machine_start ?S m'" by (rule reach_step)
  have ops: "xs_num_outstanding_ops (sh_exec sh') = int (machine_work m')"
    using reach_accounts(1) [OF r] m2(7) by (simp add: m'_def sh' shared_of_def ScheduleFinish_def)
  have "machine_work m' = 0 \<and> mc_finishes m = 0 \<and> mc_finishes m' = 1" if "finish"
  proof -
    have "mc_finishes m' \<le> completions m'" by (simp add: completions_def)
    then show ?thesis using reach_accounts(2) [OF r] fin that m2(6)
      by (cases "machine_work m' = 0") (auto simp: m'_def)
  qed
  moreover have "mc_threads m' = mc_threads m" "mc_runner m' = mc_runner m - {#tn#} + mset runner"
    "mc_async m' = mc_async m + length launched" using m2(4,5) by (simp_all add: m'_def)
  ultimately show ?thesis using r ops by blast
qed

text \<open>A step with one node without inputs whose kernel fails.\<close>

definition sample_noop :: node_item where
  "sample_noop = (InitializeNode (mk_gnode 3 ''NoOp'' [] [] [] []))
     \<lparr>ni_kernel := Some \<lparr>k_def = mk_gnode 3 ''NoOp'' [] [] [] [], k_requested_inputs = [],
                          k_is_async = False, k_is_expensive = False\<rparr>\<rparr>"

definition sample_env :: step_env where
  "sample_env = \<lparr>se_config = sample_config\<lparr>xc_gview := [3 \<mapsto> sample_noop]\<rparr>,
     se_thresholds = \<lparr>th_max_threads = 8, th_min_threads = 2, th_iteration_down = 2, th_iteration_up = 4\<rparr>,
     se_check_sleep = None, se_cancelled = False, se_vlog = False, se_report = None,
     se_compute = (\<lambda>_ _ _ store. (mk_status INTERNAL ''failed'', [], store))\<rparr>"

lemma sample_started:
  "\<exists>xs f s. start_roots [3] sample_exec =
      Some (Some (xs, [\<lparr>tn_item = 3, tn_frame = 0, tn_iter = 0, tn_is_dead = False\<rparr>]))
    \<and> xs_frames xs 0 = Some f \<and> iter_state f 0 = Some s \<and> xs_num_outstanding_ops xs = 1
    \<and> xs_num_deferred_ops xs = 0"
  by (simp add: sample_exec_def sample_config_def new_exec_state_def new_frame_state_def
      sample_frame_info_def start_roots_def iter_state_first_iteration Let_def put_frame_def
      put_iter_state_def iter_state_def GetIteration_def first_iteration_def alloc_iteration_def
      SetIteration_def ring_index_def)

lemma sample_noop_item:
  "num_inputs sample_noop = 0" "num_outputs sample_noop = 0" "\<not> is_transfer_node sample_noop"
  "\<not> kernel_is_async sample_noop" "input_start sample_noop = 0"
  "\<exists>k. ni_kernel sample_noop = Some k"
  by (simp_all add: sample_noop_def InitializeNode_def mk_gnode_def Let_def n_num_inputs_def
      n_num_outputs_def IsTransferNode_def IsSend_def IsRecv_def get_node_class_for_op_def)

lemma rq_single:
  "rq_front (rq_push_back new_ready_queue x) = x"
  "rq_pop_front (rq_push_back new_ready_queue x) = new_ready_queue"
  "\<not> rq_empty (rq_push_back new_ready_queue x)" "rq_empty new_ready_queue"
  by (simp_all add: rq_front_def rq_pop_front_def rq_push_back_def new_ready_queue_def rq_empty_def)

lemma sample_env_simps:
  "xc_gview (se_config sample_env) 3 = Some sample_noop" "\<not> se_vlog sample_env"
  "intra_tick (se_thresholds sample_env) (0, new_signals) = ((1, new_signals), [])"
  "se_compute sample_env k inputs d store = (mk_status INTERNAL ''failed'', [], store)"
  "se_cancelled sample_env = False"
  by (simp_all add: sample_env_def intra_tick_def new_signals_def)

theorem process_refines_machine_witness:
  "\<exists>m sh sh'. Process 1 sample_env \<lparr>tn_item = 3, tn_frame = 0, tn_iter = 0, tn_is_dead = False\<rparr> sh
       = Some (sh', [], [], True)
    \<and> reach machine_start (machine_step (se_thresholds sample_env)
          (is_expensive_node (se_config sample_env))) m
    \<and> machine_work m = 0 \<and> mc_finishes m = 1"
proof -
  let ?t = "\<lparr>tn_item = 3, tn_frame = 0, tn_iter = 0, tn_is_dead = False\<rparr>"
  obtain xs f s where run: "start_roots [3] sample_exec = Some (Some (xs, [?t]))"
    and fr: "xs_frames xs 0 = Some f" "iter_state f 0 = Some s" "xs_num_outstanding_ops xs = 1"
      "xs_num_deferred_ops xs = 0"
    using sample_started by blast
  define sh where "sh = \<lparr>sh_exec = xs, sh_inter_count = 0, sh_intra_count = 0, sh_signals = new_signals,
      sh_store = (\<lambda>_. kEmptyTensor)\<rparr>"
  define m where "m = \<lparr>mc_runner = mset [?t], mc_threads = [], mc_async = 0,
      mc_state = shared_of sh, mc_finishes = 0\<rparr>"
  have "machine_start m" using run unfolding machine_start_def m_def shared_of_def sh_def by fastforce
  then have m: "reach machine_start (machine_step (se_thresholds sample_env)
      (is_expensive_node (se_config sample_env))) m" by (rule reach_init)
  have step: "\<exists>ts sh1. process_step sample_env (new_thread_state ?t, sh) = Some ((ts, sh1), [], None)
      \<and> rq_empty (ts_inline ts) \<and> ts_completed ts \<and> xs_num_deferred_ops (sh_exec sh1) = 0"
  proof -
    obtain k where k: "ni_kernel sample_noop = Some k" using sample_noop_item(6) by blast
    have es: "input_entries ?t sample_noop xs = Some (f, s, is_input_tensors s)"
      using fr by (simp add: input_entries_def sample_noop_item)
    have mark: "mark_node False mk tn it y = y" for mk tn it y by (simp add: mark_node_def)
    have prep: "PrepareInputs st sample_noop k en = (ok_status, en, [], [], False)" for st en
      by (simp add: PrepareInputs_def sample_noop_item)
    let ?xs = "put_entries ?t sample_noop (is_input_tensors s) xs"
    let ?ys = "put_entries ?t sample_noop (clear_inputs sample_noop (is_input_tensors s)) ?xs"
    have es': "\<exists>a b. input_entries ?t sample_noop ?xs = Some (a, b, is_input_tensors s)"
      using fr by (simp add: input_entries_def put_entries_def sample_noop_item put_frame_def
          iter_state_def put_iter_state_def GetIteration_def split: option.splits if_splits)
    obtain s2 outs where po: "\<And>st. ProcessOutputs st (se_report sample_env) sample_noop k (mk_status INTERNAL ''failed'') []
        = (s2, outs)" and s2: "\<not> status_ok s2"
      by (simp add: ProcessOutputs_def sample_env_def attach_def_def status_ok_def mk_status_def Let_def
          status_code_def sample_noop_item)
    have fn: "finish_node sample_env ?t sample_noop s2 outs ?xs = Some (?ys, None)"
      using es' s2 by (auto simp: finish_node_def MaybeMarkCompleted_def mark sample_env_simps Let_def)
    have ops: "xs_num_outstanding_ops ?ys = 1" "xs_num_deferred_ops ?ys = 0"
      using same_trans [OF same_put_entries same_put_entries] fr(3,4) unfolding same_accounts_def by metis+
    have nd: "\<exists>sh1. node_done sample_env s2 [] (Some new_ready_queue) sh0 = (sh1, Some new_ready_queue, [], ab, True)
        \<and> xs_num_deferred_ops (sh_exec sh1) = 0"
      if "sh_exec sh0 = ?ys" "ab = status_ok (xs_status ?ys)" for sh0 ab
      using ops s2 that
      by (auto simp: node_done_def NodeDone_def record_status_def count_done_def Let_def)
    define sh0 where "sh0 = sh\<lparr>sh_intra_count := 1, sh_exec := ?ys\<rparr>"
    obtain sh1 where sh1: "node_done sample_env s2 [] (Some new_ready_queue) sh0
        = (sh1, Some new_ready_queue, [], status_ok (xs_status ?ys), True)"
      "xs_num_deferred_ops (sh_exec sh1) = 0"
      using nd [OF _ refl, of sh0] by (auto simp: sh0_def)
    have "process_step sample_env (new_thread_state ?t, sh)
        = Some (((new_thread_state ?t)\<lparr>ts_status := s2, ts_inline := new_ready_queue, ts_completed := True\<rparr>, sh1), [], None)"
      using s2 sh1(1)
      by (simp add: process_step_def new_thread_state_def rq_single sample_env_simps k es mark prep po fn
          Let_def status_ok_def sample_noop_item sh0_def sh_def)
    then show ?thesis using sh1(2) by (simp add: rq_single)
  qed
  then have "\<exists>sh'. Process 1 sample_env ?t sh = Some (sh', [], [], True)"
    by (auto simp: Process_def process_loop.simps ScheduleFinish_def new_thread_state_def rq_single)
  then obtain sh' where P: "Process 1 sample_env ?t sh = Some (sh', [], [], True)" by blast
  have "?t \<in># mc_runner m" "mc_state m = shared_of sh" by (simp_all add: m_def)
  from process_refines_machine [OF m this P] P show ?thesis by blast
qed

end
