(* ===== verification/Executor_Props.thy ===== *)
theory Executor_Props
  imports Scheduling_Props Frame_Props
begin

text \<open>
  Properties of the operations of \<open>ExecutorState\<close> on one node and of the end of a step:
  errors, deferred operations, child frames, dead exits, inputs and outputs.
\<close>

section \<open>The first error wins\<close>

text \<open>A completion as \<open>NodeDone\<close> sees it: whether the step was cancelled, and the status.\<close>

definition marked :: "bool \<times> status \<Rightarrow> status" where
  "marked e = (if fst e \<and> \<not> status_ok (snd e) then make_derived (snd e) else snd e)"

definition done_step ::
  "thresholds \<Rightarrow> bool option \<Rightarrow> (tagged_node \<Rightarrow> bool) \<Rightarrow> exec_state \<times> 32 word \<times> signals
     \<Rightarrow> (bool \<times> status) \<times> tagged_node list \<Rightarrow> (exec_state \<times> 32 word \<times> signals) \<times> bool" where
  "done_step th pool ex st d =
     (let (st', q, runner, abort_run, completed) =
            NodeDone th pool ex (fst (fst d)) (snd (fst d)) (snd d) None st
      in (st', abort_run))"

lemma make_derived_ok: "\<not> status_ok (make_derived s) \<or> make_derived s = s"
  by (auto simp: make_derived_def status_simps)

lemma marked_ok: "status_ok (marked e) \<longleftrightarrow> status_ok (snd e)"
  using make_derived_ok [of "snd e"] by (auto simp: marked_def)

lemma done_step_status:
  assumes "done_step th pool ex st d = (st', ab)"
  shows "xs_status (fst st') = status_update (xs_status (fst st)) (marked (fst d))"
    "ab \<longleftrightarrow> status_ok (xs_status (fst st)) \<and> \<not> status_ok (snd (fst d))"
proof -
  have ok: "s = None" if "status_ok s" for s using that by (simp add: status_ok_def)
  show "xs_status (fst st') = status_update (xs_status (fst st)) (marked (fst d))"
    "ab \<longleftrightarrow> status_ok (xs_status (fst st)) \<and> \<not> status_ok (snd (fst d))"
    using assms ok [of "snd (fst d)"] ok [of "xs_status (fst st)"]
    by (auto simp: done_step_def NodeDone_def record_status_def count_done_def Let_def status_update_def
        marked_def make_derived_ok status_ok_def split: prod.splits if_splits option.splits)
qed

lemma done_run_status:
  assumes "run (done_step th pool ex) st ds = (st', aborts)"
  shows "xs_status (fst st') = foldl status_update (xs_status (fst st)) (map (marked \<circ> fst) ds)
    \<and> (status_ok (xs_status (fst st)) \<longrightarrow>
         length (filter id aborts) = of_bool (\<exists>d\<in>set ds. \<not> status_ok (snd (fst d))))
    \<and> (\<not> status_ok (xs_status (fst st)) \<longrightarrow> filter id aborts = [])"
  using assms
proof (induction ds arbitrary: st aborts)
  case (Cons d ds)
  obtain st1 ab where 1: "done_step th pool ex st d = (st1, ab)" by fastforce
  obtain abs where 2: "run (done_step th pool ex) st1 ds = (st', abs)" "aborts = ab # abs"
    using Cons.prems 1 by (auto simp: Let_def split: prod.splits)
  note s = done_step_status [OF 1]
  have k: "status_ok (status_update a b) \<longleftrightarrow> status_ok a \<and> status_ok b" for a b
    by (auto simp: status_update_def)
  show ?case using Cons.IH [OF 2(1)] s 2(2) by (auto simp: k marked_ok)
qed simp

text \<open>
  C21: over any sequence of completed nodes, in any order, the step's status is the first
  error (marked as derived when the step had been cancelled by then), or ok when there was
  none, and the rest of the step is aborted exactly once if there was an error and never
  otherwise.
\<close>

theorem first_error_reported:
  assumes "run (done_step th pool ex) st ds = (st', aborts)" "status_ok (xs_status (fst st))"
  shows "xs_status (fst st') =
      (case filter (\<lambda>d. \<not> status_ok (snd (fst d))) ds of
         [] \<Rightarrow> ok_status
       | ((cancelled, s), _) # _ \<Rightarrow> (if cancelled then make_derived s else s))
    \<and> length (filter id aborts) = of_bool (\<exists>d\<in>set ds. \<not> status_ok (snd (fst d)))"
proof -
  have st: "xs_status (fst st) = None" using assms(2) by (simp add: status_ok_def)
  have "foldl status_update None (map (marked \<circ> fst) ds) =
      (case filter (\<lambda>d. \<not> status_ok (snd (fst d))) ds of
         [] \<Rightarrow> None | d # _ \<Rightarrow> marked (fst d))"
  proof (induction ds)
    case (Cons d ds)
    show ?case
    proof (cases "status_ok (snd (fst d))")
      case True
      then have "marked (fst d) = None" using marked_ok [of "fst d"] by (simp add: status_ok_def)
      then show ?thesis using Cons True by (simp add: status_update_def status_ok_def)
    next
      case False
      then have "\<not> status_ok (marked (fst d))" by (simp add: marked_ok)
      then have "foldl status_update (marked (fst d)) (map (marked \<circ> fst) ds) = marked (fst d)"
        by (rule st.foldl_keep)
      then show ?thesis using False by (simp add: status_update_def [of None] status_ok_def comp_def)
    qed
  qed simp
  then show ?thesis using done_run_status [OF assms(1)] assms(2) unfolding st
    by (auto simp: marked_def dest: filter_eq_ConsD split: list.splits)
qed

text \<open>Three nodes of a step that was cancelled before the second of them failed.\<close>

lemma sample_exec_fields:
  "xs_status sample_exec = ok_status" "xs_num_deferred_ops sample_exec = 0"
  "\<not> xs_finish_when_deferred_ops_done sample_exec" "xs_next_frame sample_exec = 1"
  "xs_frames sample_exec = [0 \<mapsto> first_iteration (the (new_frame_state sample_frame_info 1))]"
  "xs_outstanding_frames sample_exec = [[] \<mapsto> 0]"
  by (simp_all add: sample_exec_def sample_config_def new_exec_state_def new_frame_state_def
      sample_frame_info_def iter_state_first_iteration first_iteration_def alloc_iteration_def
      SetIteration_def ring_index_def Let_def)

theorem first_error_reported_witness:
  "\<exists>st' aborts. run (done_step \<lparr>th_max_threads = 8, th_min_threads = 2, th_iteration_down = 2,
        th_iteration_up = 4\<rparr> None (\<lambda>_. False)) (sample_exec, 0, new_signals)
      [((False, ok_status), []), ((True, mk_status INTERNAL ''a''), []),
       ((False, mk_status CANCELLED ''b''), [])] = (st', aborts)
    \<and> xs_status (fst st') = make_derived (mk_status INTERNAL ''a'')
    \<and> length (filter id aborts) = 1"
proof -
  let ?th = "\<lparr>th_max_threads = 8, th_min_threads = 2, th_iteration_down = 2, th_iteration_up = 4\<rparr>"
  let ?ds = "[((False, ok_status), []), ((True, mk_status INTERNAL ''a''), []),
       ((False, mk_status CANCELLED ''b''), [])]"
  obtain st' aborts where r: "run (done_step ?th None (\<lambda>_. False)) (sample_exec, 0, new_signals) ?ds
      = (st', aborts)" by (metis prod.exhaust)
  have "status_ok (xs_status (fst (sample_exec, (0::32 word), new_signals)))"
    by (simp add: sample_exec_fields status_ok_def)
  from first_error_reported [OF r this] r show ?thesis by (simp add: status_simps)
qed

section \<open>Deferred operations\<close>

text \<open>What happens to the counter of deferred operations, in the order of its mutex.\<close>

datatype deferred_event = Inc_Deferred | Dec_Deferred | Schedule_Finish

fun deferred_step :: "exec_state \<Rightarrow> deferred_event \<Rightarrow> exec_state \<times> bool" where
  "deferred_step xs Inc_Deferred = (inc_num_deferred_ops xs, False)"
| "deferred_step xs Dec_Deferred = dec_num_deferred_ops xs"
| "deferred_step xs Schedule_Finish = ScheduleFinish xs"

definition balance :: "deferred_event list \<Rightarrow> int" where
  "balance es = int (length (filter (\<lambda>e. e = Inc_Deferred) es))
     - int (length (filter (\<lambda>e. e = Dec_Deferred) es))"

lemma balance_simps [simp]:
  "balance [] = 0" "balance (Inc_Deferred # es) = balance es + 1"
  "balance (Dec_Deferred # es) = balance es - 1" "balance (Schedule_Finish # es) = balance es"
  "balance (xs @ ys) = balance xs + balance ys"
  by (simp_all add: balance_def)

lemma deferred_before:
  assumes "Schedule_Finish \<notin> set es" "\<not> xs_finish_when_deferred_ops_done xs"
    and "run deferred_step xs es = (xs', os)"
  shows "True \<notin> set os \<and> \<not> xs_finish_when_deferred_ops_done xs'
    \<and> xs_num_deferred_ops xs' = xs_num_deferred_ops xs + balance es"
  using assms
proof (induction es arbitrary: xs os)
  case (Cons e es)
  obtain xs1 b where 1: "deferred_step xs e = (xs1, b)" by fastforce
  obtain os' where 2: "run deferred_step xs1 es = (xs', os')" "os = b # os'"
    using Cons.prems(3) 1 by (auto simp: Let_def split: prod.splits)
  have "\<not> xs_finish_when_deferred_ops_done xs1 \<and> \<not> b
      \<and> xs_num_deferred_ops xs1 + balance es = xs_num_deferred_ops xs + balance (e # es)"
    using 1 Cons.prems(1,2)
    by (cases e) (auto simp: inc_num_deferred_ops_def dec_num_deferred_ops_def Let_def split: if_splits)
  then show ?case using Cons.IH [OF _ _ 2(1)] Cons.prems(1) 2(2) by auto
qed simp

lemma deferred_after:
  assumes "set es \<subseteq> {Dec_Deferred}" "xs_finish_when_deferred_ops_done xs"
    and "int (length es) \<le> xs_num_deferred_ops xs" "0 < xs_num_deferred_ops xs"
  shows "length (filter id (snd (run deferred_step xs es))) = of_bool (int (length es) = xs_num_deferred_ops xs)"
  using assms
proof (induction es arbitrary: xs)
  case (Cons e es)
  let ?x = "xs\<lparr>xs_num_deferred_ops := xs_num_deferred_ops xs - 1\<rparr>"
  have e: "deferred_step xs e = (?x, xs_num_deferred_ops xs = 1)"
    using Cons.prems by (auto simp: dec_num_deferred_ops_def Let_def)
  show ?case
  proof (cases es)
    case Nil
    then show ?thesis using e by simp
  next
    case (Cons e' es')
    then have "1 < xs_num_deferred_ops xs" using Cons.prems(3) by simp
    then show ?thesis using Cons.IH [of ?x] Cons.prems e
      by (auto simp: Let_def split: prod.splits)
  qed
qed simp

text \<open>
  C22: \<open>Finish\<close> is called exactly once, by \<open>ScheduleFinish\<close> or by the last deferred operation
  to end, whatever the order. Deferred operations only end after \<open>ScheduleFinish\<close>, since no
  kernel is running then to start one.
\<close>

theorem deferred_finish_once:
  assumes "xs_num_deferred_ops xs = 0" "\<not> xs_finish_when_deferred_ops_done xs"
    and "Schedule_Finish \<notin> set before" "set after \<subseteq> {Dec_Deferred}"
    and "int (length after) \<le> balance before"
  shows "length (filter id (snd (run deferred_step xs (before @ Schedule_Finish # after))))
     = of_bool (int (length after) = balance before)"
proof -
  obtain xs1 o1 where 1: "run deferred_step xs before = (xs1, o1)" by fastforce
  have b: "True \<notin> set o1" "\<not> xs_finish_when_deferred_ops_done xs1" "xs_num_deferred_ops xs1 = balance before"
    using deferred_before [OF assms(3,2) 1] assms(1) by simp_all
  have o1: "filter id o1 = []" using b(1) by (auto simp: filter_empty_conv)
  show ?thesis
  proof (cases "balance before = 0")
    case True
    then show ?thesis using assms(5) 1 b o1 by (simp add: run_append ScheduleFinish_def Let_def)
  next
    case False
    then have p: "0 < balance before" using assms(5) by linarith
    let ?x = "xs1\<lparr>xs_finish_when_deferred_ops_done := True\<rparr>"
    have "length (filter id (snd (run deferred_step ?x after)))
        = of_bool (int (length after) = balance before)"
      using deferred_after [OF assms(4), of ?x] assms(5) b(3) p by simp
    moreover obtain xs2 o2 where "run deferred_step ?x after = (xs2, o2)" by fastforce
    ultimately show ?thesis using 1 b o1 p by (simp add: run_append ScheduleFinish_def Let_def)
  qed
qed


theorem deferred_finish_once_witness:
  "length (filter id (snd (run deferred_step sample_exec
     ([Inc_Deferred, Dec_Deferred, Inc_Deferred, Inc_Deferred] @ Schedule_Finish # [Dec_Deferred, Dec_Deferred])))) = 1"
  using deferred_finish_once [of sample_exec "[Inc_Deferred, Dec_Deferred, Inc_Deferred, Inc_Deferred]"
      "[Dec_Deferred, Dec_Deferred]"]
  by (simp add: sample_exec_fields)

section \<open>Dead exits\<close>

lemma delete_counts_plain:
  assumes "view c h = (p, d, False)" "1 \<le> p" "p \<le> capacity h" "d < capacity h"
  shows "fst (adjust_for_activation c h True) = fst (decrement_pending (increment_dead_count c h) h 1)"
    "fst (snd (adjust_for_activation c h True)) = snd (decrement_pending (increment_dead_count c h) h 1)"
    "0 < snd (snd (adjust_for_activation c h True))"
proof -
  have "1 \<le> pending c h" using view_pending [OF assms(1,3)] assms(2) by simp
  note s = adjust_for_activation_split [OF this assms(1,3,4), of True]
  have v: "view (increment_dead_count c h) h = (p, Suc d, False)"
    using view_increment_dead_count [OF assms(1,4)] assms(2) by simp
  show "fst (adjust_for_activation c h True) = fst (decrement_pending (increment_dead_count c h) h 1)"
    by (simp add: s Let_def)
  show "fst (snd (adjust_for_activation c h True)) = snd (decrement_pending (increment_dead_count c h) h 1)"
    "0 < snd (snd (adjust_for_activation c h True))"
    using view_adjust_for_activation(2) [OF assms, of True] view_decrement_pending(2) [OF v, of 1] assms(2,3)
    by simp_all
qed

text \<open>
  The loop of \<open>DeleteFrame\<close> repeats by hand what \<open>ActivateNodes\<close> does for a dead node
  that is not an Enter and whose outputs have no value: along every edge the counts, the
  number of outstanding operations and the ready node are the same; only the input entry,
  which has no value to give, is not written.
\<close>

theorem delete_edge_is_dead_activation:
  assumes "gview (dst_id e) = Some dst" "\<not> is_sink dst"
    and "output_slot e = kControlSlot
      \<or> (0 \<le> output_slot e \<and> nat (output_slot e) < length outputs
          \<and> \<not> en_has_value (outputs ! nat (output_slot e))
          \<and> 0 \<le> int (input_start dst) + input_slot e
          \<and> nat (int (input_start dst) + input_slot e) < length (is_input_tensors s))"
    and "\<not> is_merge dst \<Longrightarrow> view (is_counts s) (pending_id dst) = (p, d, False)
          \<and> 1 \<le> p \<and> p \<le> capacity (pending_id dst) \<and> d < capacity (pending_id dst)"
  shows "\<exists>s1 s2 outputs' ready'.
      activate_edge gview frame iter False True (s, outputs, ready) e = Some (s1, outputs', ready')
    \<and> delete_edge gview frame iter (s, ready) e = Some (s2, ready')
    \<and> s2 = s1\<lparr>is_input_tensors := is_input_tensors s\<rparr>"
proof (cases "is_merge dst")
  case True
  then show ?thesis using assms(1,2,3)
    by (auto simp: activate_edge_def delete_edge_def activate_counts_def entry_at_def Let_def)
next
  case False
  note c = delete_counts_plain [of "is_counts s" "pending_id dst" p d]
  obtain c1 q dd where adj: "adjust_for_activation (is_counts s) (pending_id dst) True = (c1, q, dd)"
    by (metis prod.exhaust)
  obtain c2 q2 where dec: "decrement_pending (increment_dead_count (is_counts s) (pending_id dst)) (pending_id dst) 1
      = (c2, q2)" by fastforce
  have eq: "c1 = c2" "q = q2" "0 < dd" using c assms(4) False adj dec by auto
  show ?thesis using assms(1,2,3) False adj dec eq
    by (auto simp: activate_edge_def delete_edge_def activate_counts_def entry_at_def Let_def entry_move_def
        entry_copy_def)
qed


theorem delete_edge_is_dead_activation_witness:
  "\<exists>s2 ready'. delete_edge [8 \<mapsto> sample_add] 0 0
      ((new_iteration_state sample_counts 2)\<lparr>is_counts := add_counts\<rparr>, [])
      \<lparr>dst_id = 8, output_slot = 0, is_last = True, input_slot = 1\<rparr> = Some (s2, ready')
    \<and> view (is_counts s2) (pending_id sample_add) = (1, 1, False) \<and> ready' = []"
proof -
  let ?s = "(new_iteration_state sample_counts 2)\<lparr>is_counts := add_counts\<rparr>"
  let ?e = "\<lparr>dst_id = 8, output_slot = 0, is_last = True, input_slot = 1\<rparr>"
  have sink: "\<not> is_sink sample_add" "input_start sample_add = 0" "\<not> is_merge sample_add"
    by (simp_all add: sample_add_def InitializeNode_def Let_def)
  have fit: "length (is_input_tensors ?s) = 2" by (simp add: new_iteration_state_def)
  have v: "view (is_counts ?s) (pending_id sample_add) = (2, 0, False)" by (simp add: sample_views)
  obtain s1 s2 outputs' ready' where
    a: "activate_edge [8 \<mapsto> sample_add] 0 0 False True (?s, [new_entry], []) ?e = Some (s1, outputs', ready')"
    and d: "delete_edge [8 \<mapsto> sample_add] 0 0 (?s, []) ?e = Some (s2, ready')"
    and eq: "s2 = s1\<lparr>is_input_tensors := is_input_tensors ?s\<rparr>"
    using delete_edge_is_dead_activation [of "[8 \<mapsto> sample_add]" ?e sample_add "[new_entry]" ?s 2 0 0 0 "[]"]
      sink fit v by (auto simp: new_entry_def sample_items kControlSlot_def)
  obtain c1 q dd where adj: "adjust_for_activation (is_counts ?s) (pending_id sample_add) True = (c1, q, dd)"
    by (metis prod.exhaust)
  have "view c1 (pending_id sample_add) = (1, 1, False)" "q = 1"
    using view_adjust_for_activation [OF v, of True] adj by (simp_all add: sample_items)
  then have "view (is_counts s1) (pending_id sample_add) = (1, 1, False)" "ready' = []"
    using a adj sink by (auto simp: activate_edge_def activate_counts_def entry_at_def Let_def entry_move_def
        kControlSlot_def new_entry_def sample_items new_iteration_state_def split: if_splits)
  then show ?thesis using d eq by simp
qed

section \<open>Child frames\<close>

lemma make_child_frame_name:
  "make_child_frame cfg frame iter name def = Some temp \<Longrightarrow> fs_frame_name temp = name"
  by (auto simp: make_child_frame_def first_iteration_def alloc_iteration_def SetIteration_def Let_def
      split: sum.splits option.splits if_splits)

lemma put_iter_state_name [simp]: "fs_frame_name (put_iter_state i s f) = fs_frame_name f"
  by (simp add: put_iter_state_def split: option.splits)

definition frames_below :: "exec_state \<Rightarrow> bool" where
  "frames_below xs = (\<forall>a f. xs_frames xs a = Some f \<longrightarrow> a < xs_next_frame xs)"

lemma publish_child_frame_cases:
  assumes "publish_child_frame frame iter temp xs = Some (xs1, child)"
  shows "(xs_outstanding_frames xs (fs_frame_name temp) = Some child \<and> xs1 = xs)
    \<or> (\<exists>f s. xs_outstanding_frames xs (fs_frame_name temp) = None \<and> child = xs_next_frame xs
        \<and> xs_frames xs frame = Some f \<and> iter_state f iter = Some s
        \<and> xs_outstanding_frames xs1 = (xs_outstanding_frames xs)(fs_frame_name temp \<mapsto> child)
        \<and> xs_next_frame xs1 = child + 1
        \<and> xs_frames xs1 = (xs_frames xs)(frame \<mapsto> put_iter_state iter
             (s\<lparr>is_outstanding_frame_count := is_outstanding_frame_count s + 1\<rparr>) f, child \<mapsto> temp))"
  using assms by (auto simp: publish_child_frame_def put_frame_def Let_def split: option.splits)

text \<open>
  C29: two threads that enter the same child frame at the same time get the same frame,
  although the frame is built outside the lock. The second thread may have looked the name
  up before the first published its frame: whatever frame it built itself is dropped, the
  state is unchanged, and later look-ups find the published frame too. The parent iteration
  counts the child once.
\<close>

theorem child_frame_created_once:
  assumes "frames_below xs" "xs_frames xs frame = Some f"
    and "get_attr_string def ''frame_name'' = Inr enter_name"
    and "FindOrCreateChildFrame cfg frame iter def xs = Some (xs1, child)"
    and "fs_frame_name temp = MakeFrameName f iter enter_name"
  shows "publish_child_frame frame iter temp xs1 = Some (xs1, child)
    \<and> FindOrCreateChildFrame cfg frame iter def xs1 = Some (xs1, child)
    \<and> (xs_outstanding_frames xs (MakeFrameName f iter enter_name) = None \<longrightarrow>
        (\<exists>g. xs_frames xs1 child = Some g \<and> fs_parent_frame g = Some frame \<and> fs_parent_iter g = int iter)
        \<and> (\<exists>s f1. iter_state f iter = Some s \<and> xs_frames xs1 frame = Some f1
            \<and> iter_state f1 iter = Some (s\<lparr>is_outstanding_frame_count := is_outstanding_frame_count s + 1\<rparr>)))"
proof (cases "xs_outstanding_frames xs (MakeFrameName f iter enter_name)")
  case (Some c)
  then have "xs1 = xs" "child = c" using assms by (auto simp: FindOrCreateChildFrame_def)
  then show ?thesis using Some assms by (simp add: FindOrCreateChildFrame_def publish_child_frame_def)
next
  case None
  then obtain temp0 where t: "make_child_frame cfg frame iter (MakeFrameName f iter enter_name) def = Some temp0"
    and p: "publish_child_frame frame iter temp0 xs = Some (xs1, child)"
    using assms by (auto simp: FindOrCreateChildFrame_def split: option.splits)
  have name: "fs_frame_name temp0 = MakeFrameName f iter enter_name" by (rule make_child_frame_name [OF t])
  from publish_child_frame_cases [OF p] None name assms(2) obtain s where
    s: "child = xs_next_frame xs" "iter_state f iter = Some s"
      "xs_outstanding_frames xs1 = (xs_outstanding_frames xs)(MakeFrameName f iter enter_name \<mapsto> child)"
      "xs_frames xs1 = (xs_frames xs)(frame \<mapsto> put_iter_state iter
             (s\<lparr>is_outstanding_frame_count := is_outstanding_frame_count s + 1\<rparr>) f, child \<mapsto> temp0)"
    by auto
  have ne: "frame \<noteq> child" using assms(1,2) s(1) by (auto simp: frames_below_def)
  have par: "fs_parent_frame temp0 = Some frame" "fs_parent_iter temp0 = int iter"
    using t by (auto simp: make_child_frame_def first_iteration_def alloc_iteration_def SetIteration_def Let_def
        split: sum.splits option.splits if_splits)
  have g: "GetIteration (f\<lparr>fs_heap := h\<rparr>) iter = GetIteration f iter" for h
    by (simp add: GetIteration_def ring_index_def)
  have st: "iter_state (put_iter_state iter s' f) iter = Some s'" for s'
    using s(2) by (simp add: iter_state_def put_iter_state_def g split: option.splits)
  have "MakeFrameName (put_iter_state iter s' f) iter enter_name = MakeFrameName f iter enter_name" for s'
    by (simp add: MakeFrameName_def)
  then show ?thesis using s ne par st assms(3,5) name
    by (simp add: FindOrCreateChildFrame_def publish_child_frame_def)
qed


lemma show_nat_0: "show_nat 0 = ''0''"
  by code_simp

definition sample_enter :: gnode where
  "sample_enter = (mk_gnode 5 ''Enter'' [] [] [1] [1])
     \<lparr>n_attrs := [(''frame_name'', AttrString ''while''), (''parallel_iterations'', AttrInt 10)]\<rparr>"

lemma sample_enter_attrs:
  "get_attr_string sample_enter ''frame_name'' = Inr ''while''"
  "get_attr_int sample_enter ''parallel_iterations'' = Inr 10"
  by (simp_all add: sample_enter_def get_attr_string_def get_attr_int_def get_node_attr_def find_attr_def
      mk_gnode_def attr_value_has_type_def attr_type_name_def status_ok_def)

theorem child_frame_created_once_witness:
  "\<exists>xs1 temp. FindOrCreateChildFrame sample_config 0 0 sample_enter sample_exec = Some (xs1, 1)
     \<and> make_child_frame sample_config 0 0 '';0;while'' sample_enter = Some temp
     \<and> publish_child_frame 0 0 temp xs1 = Some (xs1, 1)"
proof -
  define f where "f = first_iteration (the (new_frame_state sample_frame_info 1))"
  have f: "xs_frames sample_exec = [0 \<mapsto> f]" "fs_frame_name f = []" "iter_state f 0 \<noteq> None"
    by (simp_all add: f_def sample_exec_fields iter_state_first_iteration)
      (simp add: first_iteration_def alloc_iteration_def SetIteration_def new_frame_state_def
        sample_frame_info_def Let_def)
  have name: "MakeFrameName f 0 ''while'' = '';0;while''" by (simp add: MakeFrameName_def f(2) show_nat_0)
  obtain temp where temp: "make_child_frame sample_config 0 0 '';0;while'' sample_enter = Some temp"
    by (simp add: make_child_frame_def sample_enter_attrs sample_config_def new_frame_state_def
        sample_frame_info_def)
  obtain xs1 where c: "FindOrCreateChildFrame sample_config 0 0 sample_enter sample_exec = Some (xs1, 1)"
    using f temp make_child_frame_name [OF temp]
    by (auto simp: FindOrCreateChildFrame_def sample_enter_attrs name publish_child_frame_def
        sample_exec_fields(4,6) Let_def put_frame_def)
  have "frames_below sample_exec" "xs_frames sample_exec 0 = Some f"
    using f(1) sample_exec_fields(4) by (simp_all add: frames_below_def)
  from child_frame_created_once [OF this sample_enter_attrs(1) c, of temp] make_child_frame_name [OF temp] name
  show ?thesis using c temp by auto
qed

section \<open>The chain of parents\<close>

text \<open>A parent is allocated before its children.\<close>

definition frames_ordered :: "exec_state \<Rightarrow> bool" where
  "frames_ordered xs = (\<forall>a f p. xs_frames xs a = Some f \<and> fs_parent_frame f = Some p \<longrightarrow> p < a)"

lemma put_iter_state_parent: "fs_parent_frame (put_iter_state i s f) = fs_parent_frame f"
  by (simp add: put_iter_state_def split: option.splits)

lemma foldM_keep:
  assumes "foldM g s xs = Some s'" "\<And>s x s'. g s x = Some s' \<Longrightarrow> P s' = P s"
  shows "P s' = P s"
  using assms(1)
proof (induction xs arbitrary: s)
  case (Cons x xs)
  then obtain s1 where 1: "g s x = Some s1" "foldM g s1 xs = Some s'" by (auto split: option.splits)
  then show ?case using Cons.IH [OF 1(2)] assms(2) [OF 1(1)] by simp
qed simp

lemma ActivateNodes_parent:
  "ActivateNodes gview this item d iter outputs ready f = Some (f', o', r') \<Longrightarrow> fs_parent_frame f' = fs_parent_frame f"
  by (auto simp: ActivateNodes_def put_iter_state_parent split: option.splits)

lemma activate_saved_parent:
  "activate_saved gview this iter st e = Some st' \<Longrightarrow> fs_parent_frame (fst st') = fs_parent_frame (fst st)"
  using ActivateNodes_parent by (cases st) (fastforce simp: activate_saved_def split: option.splits)

lemma iteration_parent:
  "fs_parent_frame (start_iteration f) = fs_parent_frame f"
  "fs_parent_frame (end_iteration i f) = fs_parent_frame f"
  by (auto simp: start_iteration_def end_iteration_def delete_iteration_def alloc_iteration_def
      SetIteration_def Let_def split: option.splits)

lemma IncrementIteration_parent:
  assumes "IncrementIteration gview this st = Some st'"
  shows "fs_parent_frame (fst st') = fs_parent_frame (fst st)"
proof -
  obtain f ready where st: "st = (f, ready)" by (cases st)
  let ?i = "fs_iteration_count f + 1"
  obtain st1 where 1: "ActivateNexts gview this ?i (start_iteration f, ready) = Some st1"
    and 2: "ActivateLoopInvs gview this ?i st1 = Some st'"
    using assms by (auto simp: st IncrementIteration_eq split: option.splits)
  have "fs_parent_frame (fst st1) = fs_parent_frame (start_iteration f)"
    using 1 foldM_keep [where P = "\<lambda>st. fs_parent_frame (fst st)", OF _ activate_saved_parent]
    by (fastforce simp: ActivateNexts_def split: option.splits)
  moreover have "fs_parent_frame (fst st') = fs_parent_frame (fst st1)"
    using foldM_keep [where P = "\<lambda>st. fs_parent_frame (fst st)", OF 2 [unfolded ActivateLoopInvs_def]]
      activate_saved_parent by blast
  ultimately show ?thesis by (simp add: st iteration_parent)
qed

lemma cleanup_loop_parent:
  "cleanup_loop fuel gview this iter (f, ready) = Some st' \<Longrightarrow> fs_parent_frame (fst st') = fs_parent_frame f"
proof (induction fuel arbitrary: iter f ready)
  case 0
  then show ?case by (auto simp: cleanup_loop_eq [of 0] split: if_splits option.splits bool.splits)
next
  case (Suc fuel)
  let ?e = "end_iteration iter f"
  consider "st' = (f, ready)"
    | st1 where "IncrementIteration gview this (?e, ready) = Some st1" "cleanup_loop fuel gview this (iter + 1) st1 = Some st'"
    | "cleanup_loop fuel gview this (iter + 1) (?e, ready) = Some st'"
  proof -
    have "iter \<le> fs_iteration_count f \<Longrightarrow> IsIterationDone f iter = Some True \<Longrightarrow>
        (if fs_next_iter_roots f \<noteq> []
         then (case IncrementIteration gview this (?e, ready) of
                 None \<Rightarrow> None | Some st' \<Rightarrow> cleanup_loop fuel gview this (iter + 1) st')
         else cleanup_loop fuel gview this (iter + 1) (?e, ready)) = Some st'"
      using Suc.prems by (simp add: cleanup_loop_eq [of "Suc fuel"])
    moreover have "\<not> (iter \<le> fs_iteration_count f \<and> IsIterationDone f iter = Some True) \<Longrightarrow> st' = (f, ready)"
      using Suc.prems unfolding cleanup_loop_eq [of "Suc fuel"] by (auto split: if_splits option.splits bool.splits)
    ultimately show thesis using that
      by (cases "iter \<le> fs_iteration_count f \<and> IsIterationDone f iter = Some True";
          cases "IncrementIteration gview this (?e, ready)") (auto split: if_splits)
  qed
  then show ?case
  proof cases
    case 2
    then show ?thesis using Suc.IH [of "iter + 1" "fst st1" "snd st1"] IncrementIteration_parent [OF 2(1)]
      by (simp add: iteration_parent)
  next
    case 3
    then show ?thesis using Suc.IH [of "iter + 1" ?e ready] by (simp add: iteration_parent)
  qed simp
qed

lemma CleanupIterations_parent:
  "CleanupIterations gview this iter (f, ready) = Some (f', ready', d) \<Longrightarrow> fs_parent_frame f' = fs_parent_frame f"
  using cleanup_loop_parent by (fastforce simp: CleanupIterations_def split: option.splits)

lemma put_frame_ordered:
  assumes "frames_ordered xs" "xs_frames xs a = Some f" "fs_parent_frame f' = fs_parent_frame f"
  shows "frames_ordered (put_frame a f' xs)"
  using assms by (auto simp: frames_ordered_def put_frame_def)

lemma on_frame_ordered:
  assumes "on_frame a oper (xs, ready) = Some (xs', ready', r)" "frames_ordered xs"
    and "\<And>f ready f' ready' r. oper (f, ready) = Some (f', ready', r) \<Longrightarrow> fs_parent_frame f' = fs_parent_frame f"
  shows "frames_ordered xs'"
proof -
  obtain f f' where "xs_frames xs a = Some f" "oper (f, ready) = Some (f', ready', r)" "xs' = put_frame a f' xs"
    using assms(1) by (auto simp: on_frame_def split: option.splits prod.splits)
  then show ?thesis using put_frame_ordered [OF assms(2)] assms(3) by blast
qed

lemma delete_exit_parent:
  "delete_exit gview p i st item = Some st' \<Longrightarrow> fs_parent_frame (fst st') = fs_parent_frame (fst st)"
  by (cases st) (auto simp: delete_exit_def put_iter_state_parent split: option.splits)

lemma DeleteFrame_ordered:
  assumes "DeleteFrame cfg frame (xs, ready) = Some (xs', ready')" "frames_ordered xs"
  shows "frames_ordered xs'"
proof -
  obtain f where f: "xs_frames xs frame = Some f" using assms(1) by (auto simp: DeleteFrame_def split: option.splits)
  have less: "frames_ordered (x\<lparr>xs_outstanding_frames := m, xs_frames := (xs_frames x)(frame := None)\<rparr>)"
    if "frames_ordered x" for x m using that by (auto simp: frames_ordered_def)
  show ?thesis
  proof (cases "fs_parent_frame f")
    case None
    then show ?thesis using assms f less by (auto simp: DeleteFrame_def)
  next
    case (Some p)
    then obtain pf pf' r' where p: "xs_frames xs p = Some pf"
      "foldM (delete_exit (xc_gview cfg) p (nat (fs_parent_iter f))) (pf, ready) (fs_dead_exits f) = Some (pf', r')"
      and xs': "xs' = (put_frame p pf' xs)\<lparr>xs_outstanding_frames :=
                   (xs_outstanding_frames (put_frame p pf' xs))(fs_frame_name f := None),
                 xs_frames := (xs_frames (put_frame p pf' xs))(frame := None)\<rparr>"
      using assms(1) f by (auto simp: DeleteFrame_def split: option.splits)
    have "fs_parent_frame pf' = fs_parent_frame pf"
      using foldM_keep [where P = "\<lambda>st. fs_parent_frame (fst st)", OF p(2)] delete_exit_parent by fastforce
    then show ?thesis unfolding xs' by (intro less put_frame_ordered [OF assms(2) p(1)])
  qed
qed

lemma cleanup_frames_fuel:
  assumes "frames_ordered xs" "frame < n"
  shows "cleanup_frames (n + k) cfg frame iter (xs, ready) = cleanup_frames n cfg frame iter (xs, ready)"
  using assms
proof (induction n arbitrary: frame iter xs ready)
  case (Suc n)
  let ?op = "\<lambda>(f, ready). (case iter_state f iter of
            None \<Rightarrow> None
          | Some s \<Rightarrow> CleanupIterations (xc_gview cfg) frame iter
              (put_iter_state iter
                 (s\<lparr>is_outstanding_frame_count := is_outstanding_frame_count s - 1\<rparr>) f, ready))"
  have op: "fs_parent_frame f' = fs_parent_frame f" if "?op (f, r) = Some (f', r', d)" for f r f' r' d
    using that by (auto simp: put_iter_state_parent dest!: CleanupIterations_parent split: option.splits)
  show ?case
  proof (cases "on_frame frame ?op (xs, ready)")
    case None
    then show ?thesis by simp
  next
    case (Some z)
    obtain xs1 ready1 d where z: "z = (xs1, ready1, d)" by (cases z)
    have o1: "frames_ordered xs1" using on_frame_ordered [OF Some [unfolded z] Suc.prems(1)] op by blast
    show ?thesis
    proof (cases "d \<and> xs_frames xs1 frame \<noteq> None")
      case False
      then show ?thesis using Some by (auto simp: z)
    next
      case True
      then obtain f where f: "xs_frames xs1 frame = Some f" by auto
      show ?thesis
      proof (cases "DeleteFrame cfg frame (xs1, ready1)")
        case None
        then show ?thesis using Some True f by (simp add: z)
      next
        case (Some st2)
        obtain xs2 ready2 where st2: "st2 = (xs2, ready2)" by (cases st2)
        have o2: "frames_ordered xs2" by (rule DeleteFrame_ordered [OF Some [unfolded st2] o1])
        have "p < n" if "fs_parent_frame f = Some p" for p
          using that f o1 Suc.prems(2) by (fastforce simp: frames_ordered_def)
        then show ?thesis
          using Suc.IH [OF o2] \<open>on_frame frame ?op (xs, ready) = Some z\<close> True f Some
          by (simp add: z st2 split: option.splits)
      qed
    qed
  qed
qed simp

text \<open>
  The recursion of \<open>CleanupFramesIterations\<close> up the chain of parents ends: as long as
  every frame was allocated after its parent, more fuel than the model gives never changes
  the result, so \<open>None\<close> there is a dangling pointer and never a lack of fuel. The order is
  kept, and a new child frame respects it.
\<close>

theorem parent_recursion_ends:
  assumes "frames_ordered xs"
  shows "cleanup_frames (frame + 1 + k) cfg frame iter (xs, ready)
       = CleanupFramesIterations cfg frame iter (xs, ready)"
  unfolding CleanupFramesIterations_def by (rule cleanup_frames_fuel [OF assms]) simp


theorem parent_recursion_ends_witness:
  "cleanup_frames 6 sample_config 0 0 (sample_exec, [])
     = CleanupFramesIterations sample_config 0 0 (sample_exec, [])"
proof -
  have "frames_ordered sample_exec"
    by (auto simp: frames_ordered_def sample_exec_fields(5) first_iteration_def alloc_iteration_def
        SetIteration_def new_frame_state_def sample_frame_info_def Let_def split: if_splits)
  from parent_recursion_ends [OF this, of 0 5] show ?thesis by (simp add: numeral_eq_Suc)
qed

section \<open>Inputs and outputs\<close>

text \<open>What the kernel may rely on for one input that was prepared without an error.\<close>

definition input_good :: "(nat \<Rightarrow> tensor) \<Rightarrow> node_item \<Rightarrow> nat \<Rightarrow> entry \<Rightarrow> tensor_value \<Rightarrow> bool" where
  "input_good store item i entry v =
     (if \<not> en_has_value entry then v = (if is_merge item then TV_None else TV_Val kEmptyTensor)
      else case en_ref entry of
        None \<Rightarrow> \<not> IsRefType (input_types item ! i)
                \<and> v = TV_Val (case en_val entry of None \<Rightarrow> kEmptyTensor | Some t \<Rightarrow> t)
      | Some r \<Rightarrow> (t_initialized (store r) \<or> is_initialization_op item)
                \<and> (if IsRefType (input_types item ! i)
                   then v = TV_Ref r (case en_ref_mu entry of None \<Rightarrow> 0 | Some m \<Rightarrow> m)
                   else v = TV_Val (store r) \<and> t_dtype (store r) = input_types item ! i))"

lemma attach_def_not_ok: "c \<noteq> OK \<Longrightarrow> \<not> status_ok (attach_def (mk_status c m) n b)"
  by (simp add: attach_def_def status_simps Let_def)

lemma prepare_input_good:
  assumes "prepare_input store item k i e = (s, e', v, dead)" "status_ok s"
  shows "input_good store item i e v" "dead \<longleftrightarrow> \<not> en_has_value e \<and> \<not> is_merge item"
    "en_alloc_attr e' = en_alloc_attr e"
    "en_has_value e' \<longleftrightarrow> en_has_value e \<or> \<not> is_merge item"
  using assms attach_def_not_ok
  by (auto simp: prepare_input_def input_good_def Let_def split: if_splits option.splits)

lemma prepare_loop_good:
  assumes "prepare_loop store item k i es = (s, es', inputs, dead)" "status_ok s"
  shows "length inputs = length es \<and> length es' = length es
    \<and> (\<forall>j < length es. input_good store item (i + j) (es ! j) (inputs ! j))
    \<and> (dead \<longleftrightarrow> (\<exists>e\<in>set es. \<not> en_has_value e \<and> \<not> is_merge item))"
  using assms
proof (induction es arbitrary: i es' inputs dead)
  case (Cons e es)
  obtain s1 e1 v d where 1: "prepare_input store item k i e = (s1, e1, v, d)" by (metis prod.exhaust)
  have ok: "status_ok s1" using Cons.prems 1 by (auto split: if_splits prod.splits)
  obtain es2 vs d2 where 2: "prepare_loop store item k (i + 1) es = (s, es2, vs, d2)"
    and res: "es' = e1 # es2" "inputs = v # vs" "dead \<longleftrightarrow> d \<or> d2"
    using Cons.prems(1) 1 ok by (auto split: prod.splits)
  note g = prepare_input_good [OF 1 ok] and IH = Cons.IH [OF 2 Cons.prems(2)]
  have "input_good store item (i + j) ((e # es) ! j) (inputs ! j)" if "j < length (e # es)" for j
    using that g(1) IH res(2) by (cases j) auto
  then show ?case using IH g(2) res by auto
qed simp

text \<open>
  C31: when \<open>PrepareInputs\<close> succeeds, the kernel gets one value per input: a reference exactly
  where one is expected, otherwise a value, whose type is the declared one if it was read
  through a reference; nothing read through a reference is uninitialised unless the node
  accepts that. Inputs without a value are what \<open>is_input_dead\<close> reports, except in a merge.
\<close>

theorem prepared_inputs_good:
  assumes "PrepareInputs store item k first_input = (s, es, inputs, attrs, dead)" "status_ok s"
    and "num_inputs item \<le> length first_input"
  shows "length inputs = num_inputs item \<and> length attrs = num_inputs item
    \<and> length es = length first_input
    \<and> (\<forall>i < num_inputs item. input_good store item i (first_input ! i) (inputs ! i)
          \<and> attrs ! i = en_alloc_attr (first_input ! i))
    \<and> (\<forall>i. num_inputs item \<le> i \<and> i < length first_input \<longrightarrow> es ! i = first_input ! i)
    \<and> (dead \<longleftrightarrow> (\<exists>i < num_inputs item. \<not> en_has_value (first_input ! i)) \<and> \<not> is_merge item)"
proof -
  let ?es = "take (num_inputs item) first_input"
  obtain es1 where 1: "prepare_loop store item k 0 ?es = (s, es1, inputs, dead)"
    and res: "es = es1 @ drop (num_inputs item) first_input" "attrs = map en_alloc_attr ?es"
    using assms(1) by (auto simp: PrepareInputs_def Let_def split: prod.splits)
  have l: "length ?es = num_inputs item" using assms(3) by simp
  note g = prepare_loop_good [OF 1 assms(2), unfolded l]
  have "(\<exists>e\<in>set ?es. \<not> en_has_value e) \<longleftrightarrow> (\<exists>i < num_inputs item. \<not> en_has_value (first_input ! i))"
    using l by (metis (no_types, lifting) in_set_conv_nth nth_take)
  then show ?thesis using g res assms(3) by (auto simp: nth_append)
qed


text \<open>A node with two inputs: a value and a reference to a tensor of type float.\<close>

definition sample_kernel :: kernel where
  "sample_kernel = \<lparr>k_def = mk_gnode 8 ''Add'' [] [] [1, 1] [1], k_requested_inputs = [''a'', ''b''],
     k_is_async = False, k_is_expensive = False\<rparr>"

definition sample_float :: "bool \<Rightarrow> nat \<Rightarrow> tensor" where
  "sample_float b n = \<lparr>t_dtype = 1, t_initialized = b, t_buffer = n\<rparr>"

lemma sample_add_types: "input_types sample_add = [1, 1]" "output_types sample_add = [1]"
  "num_outputs sample_add = 1" "\<not> is_recv_or_switch sample_add" "\<not> is_merge sample_add"
  by (simp_all add: sample_add_def InitializeNode_def mk_gnode_def Let_def n_num_outputs_def)

theorem prepared_inputs_good_witness:
  "\<exists>es. PrepareInputs (\<lambda>_. sample_float True 4) sample_add sample_kernel
       [new_entry\<lparr>en_val := Some (sample_float True 3), en_has_value := True\<rparr>,
        new_entry\<lparr>en_ref := Some 9, en_ref_mu := Some 2, en_has_value := True\<rparr>]
     = (ok_status, es, [TV_Val (sample_float True 3), TV_Val (sample_float True 4)],
        [new_alloc_attrs, new_alloc_attrs], False)
     \<and> input_good (\<lambda>_. sample_float True 4) sample_add 1
         (new_entry\<lparr>en_ref := Some 9, en_ref_mu := Some 2, en_has_value := True\<rparr>)
         (TV_Val (sample_float True 4))"
proof -
  let ?in = "[new_entry\<lparr>en_val := Some (sample_float True 3), en_has_value := True\<rparr>,
        new_entry\<lparr>en_ref := Some 9, en_ref_mu := Some 2, en_has_value := True\<rparr>]"
  obtain es where p: "PrepareInputs (\<lambda>_. sample_float True 4) sample_add sample_kernel ?in
     = (ok_status, es, [TV_Val (sample_float True 3), TV_Val (sample_float True 4)],
        [new_alloc_attrs, new_alloc_attrs], False)"
    by (simp add: PrepareInputs_def prepare_input_def sample_add_types sample_items new_entry_def
        IsRefType_def kDataTypeRefOffset_def sample_float_def status_ok_def Let_def)
  have "status_ok ok_status" "num_inputs sample_add \<le> length ?in" by (simp_all add: status_ok_def sample_items)
  from prepared_inputs_good [OF p this] p show ?thesis by (auto simp: sample_items less_2_cases_iff)
qed

definition output_good :: "(nat \<Rightarrow> tensor) \<Rightarrow> node_item \<Rightarrow> nat \<Rightarrow> tensor_value \<Rightarrow> entry \<Rightarrow> bool" where
  "output_good store item i v out =
     (case v of
        TV_None \<Rightarrow> out = new_entry
      | TV_Val t \<Rightarrow> if t_dtype t = output_types item ! i
                   then en_has_value out \<and> en_val out = Some t \<and> en_ref out = None
                   else \<not> en_has_value out
      | TV_Ref r mu \<Rightarrow> if MakeRefType (t_dtype (store r)) = output_types item ! i
                      then en_has_value out \<and> en_val out = None \<and> en_ref out = Some r \<and> en_ref_mu out = Some mu
                      else \<not> en_has_value out)"

definition output_error :: "(nat \<Rightarrow> tensor) \<Rightarrow> node_item \<Rightarrow> nat \<Rightarrow> tensor_value \<Rightarrow> bool" where
  "output_error store item i v =
     (case v of
        TV_None \<Rightarrow> \<not> is_recv_or_switch item
      | TV_Val t \<Rightarrow> t_dtype t \<noteq> output_types item ! i
      | TV_Ref r mu \<Rightarrow> MakeRefType (t_dtype (store r)) \<noteq> output_types item ! i)"

lemma process_output_good:
  assumes "process_output store item k i v attr s = (e, s1)"
  shows "output_good store item i v e" "v \<noteq> TV_None \<Longrightarrow> en_alloc_attr e = attr"
    "status_ok s1 \<longleftrightarrow> status_ok s \<and> \<not> output_error store item i v" "\<not> status_ok s \<Longrightarrow> s1 = s"
  using assms
  by (auto simp: process_output_def output_good_def output_error_def new_entry_def Let_def
      status_update_def status_simps split: tensor_value.splits if_splits)

lemma process_outputs_loop_good:
  assumes "process_outputs_loop store item k i vs s = (es, s')"
  shows "length es = length vs
    \<and> (\<forall>j < length vs. output_good store item (i + j) (fst (vs ! j)) (es ! j)
          \<and> (fst (vs ! j) \<noteq> TV_None \<longrightarrow> en_alloc_attr (es ! j) = snd (vs ! j)))
    \<and> (status_ok s' \<longleftrightarrow> status_ok s \<and> (\<forall>j < length vs. \<not> output_error store item (i + j) (fst (vs ! j))))"
  using assms
proof (induction vs arbitrary: i s es)
  case (Cons va vs)
  obtain v attr where va: "va = (v, attr)" by (cases va)
  obtain e s1 where 1: "process_output store item k i v attr s = (e, s1)" by fastforce
  obtain es1 where 2: "process_outputs_loop store item k (i + 1) vs s1 = (es1, s')" "es = e # es1"
    using Cons.prems 1 by (auto simp: va Let_def split: prod.splits)
  note g = process_output_good [OF 1] and IH = Cons.IH [OF 2(1)]
  have "output_good store item (i + j) (fst ((va # vs) ! j)) (es ! j)
      \<and> (fst ((va # vs) ! j) \<noteq> TV_None \<longrightarrow> en_alloc_attr (es ! j) = snd ((va # vs) ! j))"
    if "j < length (va # vs)" for j
    using that g(1,2) IH by (cases j) (auto simp: 2(2) va)
  moreover have "(\<forall>j < length (va # vs). \<not> output_error store item (i + j) (fst ((va # vs) ! j)))
      \<longleftrightarrow> \<not> output_error store item i v \<and> (\<forall>j < length vs. \<not> output_error store item (i + 1 + j) (fst (vs ! j)))"
    by (auto simp: va nth_Cons All_less_Suc2)
  ultimately show ?case using IH g(3) by (simp add: 2(2))
qed simp

text \<open>
  C32: \<open>ProcessOutputs\<close> succeeds exactly when the kernel did, every output that is present has
  its declared type, and no output is missing unless the node is a receive or a switch. A
  value is passed on as it is, with the attribute of the context; a value of the wrong type
  is never passed on.
\<close>

theorem processed_outputs_typed:
  assumes "ProcessOutputs store report item k ctx_status vals = (s, outs)"
    and "length vals = num_outputs item"
  shows "length outs = num_outputs item
    \<and> (status_ok s \<longleftrightarrow> status_ok ctx_status
         \<and> (\<forall>i < num_outputs item. \<not> output_error store item i (fst (vals ! i))))
    \<and> (status_ok ctx_status \<longrightarrow>
         (\<forall>i < num_outputs item. output_good store item i (fst (vals ! i)) (outs ! i)
           \<and> (fst (vals ! i) \<noteq> TV_None \<longrightarrow> en_alloc_attr (outs ! i) = snd (vals ! i))))"
proof (cases "status_ok ctx_status")
  case True
  then have "process_outputs_loop store item k 0 vals ok_status = (outs, s)"
    using assms by (auto simp: ProcessOutputs_def split: prod.splits)
  from process_outputs_loop_good [OF this] True assms(2) show ?thesis by (simp add: status_ok_def)
next
  case False
  then have "\<not> status_ok s"
    using assms(1) by (auto simp: ProcessOutputs_def Let_def attach_def_def status_simps split: if_splits option.splits)
  then show ?thesis using False assms(1) by (auto simp: ProcessOutputs_def Let_def)
qed

theorem processed_outputs_typed_witness:
  "\<exists>s out. ProcessOutputs (\<lambda>_. sample_float True 4) None sample_add sample_kernel ok_status
      [(TV_Val \<lparr>t_dtype = 3, t_initialized = True, t_buffer = 1\<rparr>, new_alloc_attrs)] = (s, [out])
    \<and> \<not> status_ok s \<and> \<not> en_has_value out"
proof -
  let ?v = "\<lparr>t_dtype = 3, t_initialized = True, t_buffer = 1\<rparr>"
  obtain s outs where p: "ProcessOutputs (\<lambda>_. sample_float True 4) None sample_add sample_kernel ok_status
      [(TV_Val ?v, new_alloc_attrs)] = (s, outs)" by fastforce
  from processed_outputs_typed [OF p] have "length outs = 1" "\<not> status_ok s" "\<not> en_has_value (outs ! 0)"
    by (auto simp: sample_add_types output_error_def output_good_def status_ok_def)
  then show ?thesis using p by (cases outs) auto
qed

end
