(* ===== verification/Device_Names.thy ===== *)
theory Device_Names
  imports Status_Model "HOL-Library.Sublist"
begin

text \<open>
  Device names (core/util/device_name_utils.cc and .h): parsing, printing, the order "is a
  specification of", completion and merging.

  \<open>absl::ConsumePrefix\<close> and \<open>absl::AsciiStrToLower\<close> are not part of the repository. The
  first removes a prefix that is there: its test is the parameter \<open>starts\<close>, whose
  documented meaning is \<open>starts_spec\<close>; the second is the parameter \<open>lower\<close>.
\<close>

definition starts_spec :: "(string \<Rightarrow> string \<Rightarrow> bool) \<Rightarrow> bool" where
  "starts_spec starts = (\<forall>s p. starts s p \<longleftrightarrow> prefix p s)"

definition consume_prefix :: "(string \<Rightarrow> string \<Rightarrow> bool) \<Rightarrow> string \<Rightarrow> string \<Rightarrow> string option" where
  "consume_prefix starts s expected = (if starts s expected then Some (drop (length expected) s) else None)"

section \<open>Characters and numbers\<close>

definition ascii :: "char \<Rightarrow> nat" where
  "ascii c = of_char c"

definition IsAlpha :: "char \<Rightarrow> bool" where
  "IsAlpha c = ((97 \<le> ascii c \<and> ascii c \<le> 122) \<or> (65 \<le> ascii c \<and> ascii c \<le> 90))"

definition is_digit :: "char \<Rightarrow> bool" where
  "is_digit c = (48 \<le> ascii c \<and> ascii c \<le> 57)"

definition IsAlphaNumOrUnderscore :: "char \<Rightarrow> bool" where
  "IsAlphaNumOrUnderscore c = (IsAlpha c \<or> is_digit c \<or> c = CHR ''_'')"

definition IsJobName :: "string \<Rightarrow> bool" where
  "IsJobName s = (s \<noteq> [] \<and> IsAlpha (hd s) \<and> list_all IsAlphaNumOrUnderscore s)"

text \<open>
  \<open>str_util::ConsumeLeadingDigits\<close>: 64-bit arithmetic with its own test for overflow. The
  result is the number and the rest.
\<close>

fun digits_loop :: "64 word \<Rightarrow> string \<Rightarrow> (64 word \<times> string) option" where
  "digits_loop v [] = Some (v, [])"
| "digits_loop v (c # cs) =
     (if \<not> is_digit c then Some (v, c # cs)
      else let new_v = v * 10 + of_nat (ascii c - 48)
           in if new_v div 8 < v then None else digits_loop new_v cs)"

definition ConsumeLeadingDigits :: "string \<Rightarrow> (64 word \<times> string) option" where
  "ConsumeLeadingDigits s =
     (case digits_loop 0 s of
        None \<Rightarrow> None
      | Some (v, rest) \<Rightarrow> if length rest < length s then Some (v, rest) else None)"

text \<open>\<open>*val = tmp\<close> converts a \<open>uint64\<close> to an \<open>int\<close>: the low 32 bits, signed.\<close>

definition ConsumeNumber :: "string \<Rightarrow> (int \<times> string) option" where
  "ConsumeNumber s = map_option (\<lambda>(v, rest). (signed_take_bit 31 (uint v), rest)) (ConsumeLeadingDigits s)"

definition ConsumeToken :: "string \<Rightarrow> string \<Rightarrow> (string \<times> string) option" where
  "ConsumeToken prefix_terminators s =
     (if s = [] \<or> \<not> IsAlpha (hd s) then None
      else let tok = takeWhile (\<lambda>c. c \<notin> set prefix_terminators) s
           in if \<not> list_all IsAlphaNumOrUnderscore tok then None
              else Some (tok, drop (length tok) s))"

definition ConsumeJobName :: "string \<Rightarrow> (string \<times> string) option" where
  "ConsumeJobName s = ConsumeToken ''/'' s"

definition ConsumeDeviceType :: "string \<Rightarrow> (string \<times> string) option" where
  "ConsumeDeviceType s = ConsumeToken ''/:'' s"

section \<open>Parsed names\<close>

record parsed_name =
  has_job :: bool
  pn_job :: string
  has_replica :: bool
  pn_replica :: int
  has_task :: bool
  pn_task :: int
  has_type :: bool
  pn_type :: string
  has_id :: bool
  pn_id :: int

definition cleared_name :: parsed_name where
  "cleared_name = \<lparr>has_job = False, pn_job = [], has_replica = False, pn_replica = 0,
     has_task = False, pn_task = 0, has_type = False, pn_type = [], has_id = False, pn_id = 0\<rparr>"

definition parsed_name_eq :: "parsed_name \<Rightarrow> parsed_name \<Rightarrow> bool" where
  "parsed_name_eq this other =
     ((if has_job this then has_job other \<and> pn_job this = pn_job other else \<not> has_job other)
      \<and> (if has_replica this then has_replica other \<and> pn_replica this = pn_replica other
         else \<not> has_replica other)
      \<and> (if has_task this then has_task other \<and> pn_task this = pn_task other else \<not> has_task other)
      \<and> (if has_type this then has_type other \<and> pn_type this = pn_type other else \<not> has_type other)
      \<and> (if has_id this then has_id other \<and> pn_id this = pn_id other else \<not> has_id other))"

section \<open>Parsing full names\<close>

text \<open>
  The body of the loop of \<open>ParseFullName\<close>, one definition per \<open>if\<close>. \<open>None\<close> is
  \<open>return false\<close>; the state is the rest of the name, the result and \<open>progress\<close>.
\<close>

type_synonym parse_state = "string \<times> parsed_name \<times> bool"

definition parse_job :: "(string \<Rightarrow> string \<Rightarrow> bool) \<Rightarrow> parse_state \<Rightarrow> parse_state option" where
  "parse_job starts st =
     (case st of (s, p, progress) \<Rightarrow>
      (case consume_prefix starts s ''/job:'' of
         None \<Rightarrow> Some st
       | Some s1 \<Rightarrow>
          (case consume_prefix starts s1 ''*'' of
             Some s2 \<Rightarrow> Some (s2, p\<lparr>has_job := False\<rparr>, True)
           | None \<Rightarrow>
              (case ConsumeJobName s1 of
                 None \<Rightarrow> None
               | Some (job, s2) \<Rightarrow> Some (s2, p\<lparr>has_job := True, pn_job := job\<rparr>, True)))))"

definition parse_replica :: "(string \<Rightarrow> string \<Rightarrow> bool) \<Rightarrow> parse_state \<Rightarrow> parse_state option" where
  "parse_replica starts st =
     (case st of (s, p, progress) \<Rightarrow>
      (case consume_prefix starts s ''/replica:'' of
         None \<Rightarrow> Some st
       | Some s1 \<Rightarrow>
          (case consume_prefix starts s1 ''*'' of
             Some s2 \<Rightarrow> Some (s2, p\<lparr>has_replica := False\<rparr>, True)
           | None \<Rightarrow>
              (case ConsumeNumber s1 of
                 None \<Rightarrow> None
               | Some (v, s2) \<Rightarrow> Some (s2, p\<lparr>has_replica := True, pn_replica := v\<rparr>, True)))))"

definition parse_task :: "(string \<Rightarrow> string \<Rightarrow> bool) \<Rightarrow> parse_state \<Rightarrow> parse_state option" where
  "parse_task starts st =
     (case st of (s, p, progress) \<Rightarrow>
      (case consume_prefix starts s ''/task:'' of
         None \<Rightarrow> Some st
       | Some s1 \<Rightarrow>
          (case consume_prefix starts s1 ''*'' of
             Some s2 \<Rightarrow> Some (s2, p\<lparr>has_task := False\<rparr>, True)
           | None \<Rightarrow>
              (case ConsumeNumber s1 of
                 None \<Rightarrow> None
               | Some (v, s2) \<Rightarrow> Some (s2, p\<lparr>has_task := True, pn_task := v\<rparr>, True)))))"

text \<open>The id after a type: a star, or a number.\<close>

definition parse_id :: "(string \<Rightarrow> string \<Rightarrow> bool) \<Rightarrow> string \<Rightarrow> parsed_name \<Rightarrow> (string \<times> parsed_name) option" where
  "parse_id starts s p =
     (case consume_prefix starts s ''*'' of
        Some s1 \<Rightarrow> Some (s1, p\<lparr>has_id := False\<rparr>)
      | None \<Rightarrow>
         (case ConsumeNumber s of
            None \<Rightarrow> None
          | Some (v, s1) \<Rightarrow> Some (s1, p\<lparr>has_id := True, pn_id := v\<rparr>)))"

definition parse_device :: "(string \<Rightarrow> string \<Rightarrow> bool) \<Rightarrow> parse_state \<Rightarrow> parse_state option" where
  "parse_device starts st =
     (case st of (s, p, progress) \<Rightarrow>
      (case consume_prefix starts s ''/device:'' of
         None \<Rightarrow> Some st
       | Some s1 \<Rightarrow>
          (case (case consume_prefix starts s1 ''*'' of
                   Some s2 \<Rightarrow> Some (s2, p\<lparr>has_type := False\<rparr>)
                 | None \<Rightarrow>
                    (case ConsumeDeviceType s1 of
                       None \<Rightarrow> None
                     | Some (ty, s2) \<Rightarrow> Some (s2, p\<lparr>has_type := True, pn_type := ty\<rparr>))) of
             None \<Rightarrow> None
           | Some (s2, p2) \<Rightarrow>
              (case consume_prefix starts s2 '':'' of
                 None \<Rightarrow> Some (s2, p2\<lparr>has_id := False\<rparr>, True)
               | Some s3 \<Rightarrow>
                  (case parse_id starts s3 p2 of
                     None \<Rightarrow> None
                   | Some (s4, p4) \<Rightarrow> Some (s4, p4, True))))))"

definition parse_legacy ::
  "(string \<Rightarrow> string \<Rightarrow> bool) \<Rightarrow> string \<Rightarrow> string \<Rightarrow> string \<Rightarrow> parse_state \<Rightarrow> parse_state option" where
  "parse_legacy starts lower_prefix upper_prefix ty st =
     (case st of (s, p, progress) \<Rightarrow>
      (case (case consume_prefix starts s lower_prefix of
               Some s1 \<Rightarrow> Some s1 | None \<Rightarrow> consume_prefix starts s upper_prefix) of
         None \<Rightarrow> Some st
       | Some s1 \<Rightarrow>
          (case parse_id starts s1 (p\<lparr>has_type := True, pn_type := ty\<rparr>) of
             None \<Rightarrow> None
           | Some (s2, p2) \<Rightarrow> Some (s2, p2, True))))"

definition parse_sections :: "(string \<Rightarrow> string \<Rightarrow> bool) \<Rightarrow> parse_state \<Rightarrow> parse_state option" where
  "parse_sections starts st =
     Option.bind (Option.bind (Option.bind (Option.bind (Option.bind (parse_job starts st)
       (parse_replica starts)) (parse_task starts)) (parse_device starts))
       (parse_legacy starts ''/cpu:'' ''/CPU:'' ''CPU'')) (parse_legacy starts ''/gpu:'' ''/GPU:'' ''GPU'')"

text \<open>Every section that makes progress takes a character off the name.\<close>

definition shorter :: "parse_state \<Rightarrow> parse_state \<Rightarrow> bool" where
  "shorter st st' = (length (fst st') \<le> length (fst st)
     \<and> (snd (snd st') \<longrightarrow> snd (snd st) \<or> length (fst st') < length (fst st) \<or> fst st = []))"

lemma shorter_trans: "shorter a b \<Longrightarrow> shorter b c \<Longrightarrow> shorter a c"
  by (auto simp: shorter_def)

lemma digits_loop_length: "digits_loop v s = Some (w, rest) \<Longrightarrow> length rest \<le> length s"
  by (induction v s rule: digits_loop.induct) (fastforce simp: Let_def split: if_splits)+

lemma consume_lengths:
  "consume_prefix starts s p = Some s1 \<Longrightarrow> length s1 = length s - length p"
  "ConsumeNumber s = Some (v, s1) \<Longrightarrow> length s1 < length s"
  "ConsumeToken ts s = Some (tok, s1) \<Longrightarrow> length s1 \<le> length s"
  by (auto simp: consume_prefix_def ConsumeNumber_def ConsumeLeadingDigits_def ConsumeToken_def Let_def
      split: if_splits option.splits prod.splits)

lemma parse_id_length: "parse_id starts s p = Some (s1, p1) \<Longrightarrow> length s1 \<le> length s"
  by (auto simp: parse_id_def dest!: consume_lengths split: option.splits)

lemma sections_shorter:
  "parse_job starts st = Some st' \<Longrightarrow> shorter st st'"
  "parse_replica starts st = Some st' \<Longrightarrow> shorter st st'"
  "parse_task starts st = Some st' \<Longrightarrow> shorter st st'"
  "parse_device starts st = Some st' \<Longrightarrow> shorter st st'"
  "lp \<noteq> [] \<Longrightarrow> up \<noteq> [] \<Longrightarrow> parse_legacy starts lp up ty st = Some st' \<Longrightarrow> shorter st st'"
proof -
  obtain s p b where st: "st = (s, p, b)" by (cases st)
  show "parse_job starts st = Some st' \<Longrightarrow> shorter st st'"
    by (cases s) (auto simp: st parse_job_def shorter_def ConsumeJobName_def dest!: consume_lengths split: option.splits)
  show "parse_replica starts st = Some st' \<Longrightarrow> shorter st st'"
    by (cases s) (auto simp: st parse_replica_def shorter_def dest!: consume_lengths split: option.splits)
  show "parse_task starts st = Some st' \<Longrightarrow> shorter st st'"
    by (cases s) (auto simp: st parse_task_def shorter_def dest!: consume_lengths split: option.splits)
  show "parse_device starts st = Some st' \<Longrightarrow> shorter st st'"
    by (cases s) (auto simp: st parse_device_def shorter_def ConsumeDeviceType_def
        dest!: consume_lengths parse_id_length split: option.splits)
  show "lp \<noteq> [] \<Longrightarrow> up \<noteq> [] \<Longrightarrow> parse_legacy starts lp up ty st = Some st' \<Longrightarrow> shorter st st'"
    by (cases s; cases lp; cases up) (auto simp: st parse_legacy_def shorter_def
        dest!: consume_lengths parse_id_length split: option.splits)
qed

lemma parse_sections_shorter:
  assumes "parse_sections starts (s, p, False) = Some (s', p', True)" "s \<noteq> []"
  shows "length s' < length s"
proof -
  obtain a b c d e where 1: "parse_job starts (s, p, False) = Some a" and 2: "parse_replica starts a = Some b"
    and 3: "parse_task starts b = Some c" and 4: "parse_device starts c = Some d"
    and 5: "parse_legacy starts ''/cpu:'' ''/CPU:'' ''CPU'' d = Some e"
    and 6: "parse_legacy starts ''/gpu:'' ''/GPU:'' ''GPU'' e = Some (s', p', True)"
    using assms(1) unfolding parse_sections_def bind_eq_Some_conv by blast
  note l = sections_shorter(5) [OF list.distinct(2) list.distinct(2)]
  have "shorter (s, p, False) (s', p', True)"
    by (rule shorter_trans [OF sections_shorter(1) [OF 1] shorter_trans [OF sections_shorter(2) [OF 2]
      shorter_trans [OF sections_shorter(3) [OF 3] shorter_trans [OF sections_shorter(4) [OF 4]
      shorter_trans [OF l [OF 5] l [OF 6]]]]]])
  then show ?thesis using assms(2) by (simp add: shorter_def)
qed

function parse_loop :: "(string \<Rightarrow> string \<Rightarrow> bool) \<Rightarrow> string \<Rightarrow> parsed_name \<Rightarrow> parsed_name option" where
  "parse_loop starts s p =
     (if s = [] then Some p
      else case parse_sections starts (s, p, False) of
        None \<Rightarrow> None
      | Some (s', p', progress) \<Rightarrow> if \<not> progress then None else parse_loop starts s' p')"
  by pat_completeness auto
termination
  by (relation "measure (\<lambda>(_, s, _). length s)") (auto dest: parse_sections_shorter)

declare parse_loop.simps [simp del]

definition ParseFullName :: "(string \<Rightarrow> string \<Rightarrow> bool) \<Rightarrow> string \<Rightarrow> parsed_name option" where
  "ParseFullName starts fullname =
     (if fullname = ''/'' then Some cleared_name else parse_loop starts fullname cleared_name)"


section \<open>Printing and completing\<close>

text \<open>
  \<open>DeviceName\<close>: the failing \<open>CHECK\<close>s are \<open>None\<close>. A non-negative \<open>int\<close> is printed as a
  decimal number.
\<close>

definition DeviceName :: "string \<Rightarrow> int \<Rightarrow> int \<Rightarrow> string \<Rightarrow> string \<Rightarrow> int \<Rightarrow> string option" where
  "DeviceName job replica task device_prefix device_type i =
     (if IsJobName job \<and> 0 \<le> replica \<and> 0 \<le> task \<and> device_type \<noteq> [] \<and> 0 \<le> i
      then Some (''/job:'' @ job @ ''/replica:'' @ show_int replica @ ''/task:'' @ show_int task
                 @ device_prefix @ device_type @ '':'' @ show_int i)
      else None)"

definition FullName :: "string \<Rightarrow> int \<Rightarrow> int \<Rightarrow> string \<Rightarrow> int \<Rightarrow> string option" where
  "FullName job replica task ty i = DeviceName job replica task ''/device:'' ty i"

definition LegacyName :: "(string \<Rightarrow> string) \<Rightarrow> string \<Rightarrow> int \<Rightarrow> int \<Rightarrow> string \<Rightarrow> int \<Rightarrow> string option" where
  "LegacyName lower job replica task ty i = DeviceName job replica task ''/'' (lower ty) i"

definition ParsedNameToString :: "parsed_name \<Rightarrow> string" where
  "ParsedNameToString pn =
     (if has_job pn then ''/job:'' @ pn_job pn else [])
     @ (if has_replica pn then ''/replica:'' @ show_int (pn_replica pn) else [])
     @ (if has_task pn then ''/task:'' @ show_int (pn_task pn) else [])
     @ (if has_type pn then ''/device:'' @ pn_type pn @ '':''
          @ (if has_id pn then show_int (pn_id pn) else ''*'') else [])"

definition CompleteName :: "parsed_name \<Rightarrow> parsed_name \<Rightarrow> parsed_name" where
  "CompleteName base p =
     (let p1 = (if \<not> has_job p then p\<lparr>pn_job := pn_job base, has_job := True\<rparr> else p);
          p2 = (if \<not> has_replica p1 then p1\<lparr>pn_replica := pn_replica base, has_replica := True\<rparr> else p1);
          p3 = (if \<not> has_task p2 then p2\<lparr>pn_task := pn_task base, has_task := True\<rparr> else p2);
          p4 = (if \<not> has_type p3 then p3\<lparr>pn_type := pn_type base, has_type := True\<rparr> else p3)
      in if \<not> has_id p4 then p4\<lparr>pn_id := pn_id base, has_id := True\<rparr> else p4)"

text \<open>\<open>ParseLocalName\<close> on a fresh name: the type, a colon and the id, and nothing after.\<close>

definition ParseLocalName :: "(string \<Rightarrow> string \<Rightarrow> bool) \<Rightarrow> string \<Rightarrow> parsed_name option" where
  "ParseLocalName starts name =
     (case ConsumeDeviceType name of
        None \<Rightarrow> None
      | Some (ty, s1) \<Rightarrow>
         (case consume_prefix starts s1 '':'' of
            None \<Rightarrow> None
          | Some s2 \<Rightarrow>
             (case ConsumeNumber s2 of
                None \<Rightarrow> None
              | Some (v, s3) \<Rightarrow>
                 if s3 = [] then Some (cleared_name\<lparr>has_type := True, pn_type := ty, has_id := True, pn_id := v\<rparr>)
                 else None)))"

definition fully_specified :: "parsed_name \<Rightarrow> bool" where
  "fully_specified p = (has_job p \<and> has_replica p \<and> has_task p \<and> has_type p \<and> has_id p)"

definition CanonicalizeDeviceName ::
  "(string \<Rightarrow> string \<Rightarrow> bool) \<Rightarrow> string \<Rightarrow> string \<Rightarrow> status \<times> string" where
  "CanonicalizeDeviceName starts fullname basename =
     (case ParseFullName starts basename of
        None \<Rightarrow> (mk_status INVALID_ARGUMENT (''Could not parse basename: '' @ basename
                   @ '' into a device specification.''), [])
      | Some base \<Rightarrow>
         if \<not> fully_specified base
         then (mk_status INVALID_ARGUMENT (''Basename: '' @ basename @ '' should be fully specified.''), [])
         else (case ParseLocalName starts fullname of
             Some p \<Rightarrow> (ok_status, ParsedNameToString (CompleteName base p))
           | None \<Rightarrow>
              (case ParseFullName starts fullname of
                 Some p \<Rightarrow> (ok_status, ParsedNameToString (CompleteName base p))
               | None \<Rightarrow> (mk_status INVALID_ARGUMENT (''Could not parse '' @ fullname
                           @ '' into a device specification.''), []))))"

section \<open>Specifications\<close>

definition HasSomeDetails :: "parsed_name \<Rightarrow> bool" where
  "HasSomeDetails n = (has_job n \<or> has_replica n \<or> has_task n \<or> has_type n \<or> has_id n)"

definition IsSpecification :: "parsed_name \<Rightarrow> parsed_name \<Rightarrow> bool" where
  "IsSpecification less_specific more_specific =
     (\<not> (has_job less_specific \<and> (\<not> has_job more_specific \<or> pn_job less_specific \<noteq> pn_job more_specific))
      \<and> \<not> (has_replica less_specific \<and> (\<not> has_replica more_specific \<or> pn_replica less_specific \<noteq> pn_replica more_specific))
      \<and> \<not> (has_task less_specific \<and> (\<not> has_task more_specific \<or> pn_task less_specific \<noteq> pn_task more_specific))
      \<and> \<not> (has_type less_specific \<and> (\<not> has_type more_specific \<or> pn_type less_specific \<noteq> pn_type more_specific))
      \<and> \<not> (has_id less_specific \<and> (\<not> has_id more_specific \<or> pn_id less_specific \<noteq> pn_id more_specific)))"

definition ensure_job :: "parsed_name \<Rightarrow> parsed_name \<Rightarrow> parsed_name" where
  "ensure_job m ls = (if has_job ls then m\<lparr>has_job := True, pn_job := pn_job ls\<rparr> else m)"

definition ensure_replica :: "parsed_name \<Rightarrow> parsed_name \<Rightarrow> parsed_name" where
  "ensure_replica m ls = (if has_replica ls then m\<lparr>has_replica := True, pn_replica := pn_replica ls\<rparr> else m)"

definition ensure_task :: "parsed_name \<Rightarrow> parsed_name \<Rightarrow> parsed_name" where
  "ensure_task m ls = (if has_task ls then m\<lparr>has_task := True, pn_task := pn_task ls\<rparr> else m)"

definition ensure_type :: "parsed_name \<Rightarrow> parsed_name \<Rightarrow> parsed_name" where
  "ensure_type m ls = (if has_type ls then m\<lparr>has_type := True, pn_type := pn_type ls\<rparr> else m)"

definition ensure_id :: "parsed_name \<Rightarrow> parsed_name \<Rightarrow> parsed_name" where
  "ensure_id m ls = (if has_id ls then m\<lparr>has_id := True, pn_id := pn_id ls\<rparr> else m)"

definition EnsureSpecification :: "parsed_name \<Rightarrow> parsed_name \<Rightarrow> parsed_name" where
  "EnsureSpecification more_specific less_specific =
     ensure_id (ensure_type (ensure_task (ensure_replica (ensure_job more_specific
       less_specific) less_specific) less_specific) less_specific) less_specific"

text \<open>The failing \<open>CHECK\<close> on an incomplete name is \<open>None\<close>.\<close>

definition IsCompleteSpecification :: "parsed_name \<Rightarrow> parsed_name \<Rightarrow> bool option" where
  "IsCompleteSpecification pattern name =
     (if fully_specified name then Some
        (\<not> (has_job pattern \<and> pn_job pattern \<noteq> pn_job name)
         \<and> \<not> (has_replica pattern \<and> pn_replica pattern \<noteq> pn_replica name)
         \<and> \<not> (has_task pattern \<and> pn_task pattern \<noteq> pn_task name)
         \<and> \<not> (has_type pattern \<and> pn_type pattern \<noteq> pn_type name)
         \<and> \<not> (has_id pattern \<and> pn_id pattern \<noteq> pn_id name))
      else None)"

definition AreCompatibleDevNames :: "parsed_name \<Rightarrow> parsed_name \<Rightarrow> bool" where
  "AreCompatibleDevNames a b = (IsSpecification a b \<or> IsSpecification b a)"

section \<open>Merging\<close>

definition incompatible :: "string \<Rightarrow> parsed_name \<Rightarrow> parsed_name \<Rightarrow> status" where
  "incompatible what target other = mk_status INVALID_ARGUMENT
     (''Cannot merge devices with incompatible '' @ what @ '': '' @ [CHR 0x27] @ ParsedNameToString target
      @ [CHR 0x27] @ '' and '' @ [CHR 0x27] @ ParsedNameToString other @ [CHR 0x27])"

text \<open>
  \<open>MergeDevNamesImpl\<close>, one definition per field. The result is the target, and \<open>Some\<close> of a
  status when the function returns there.
\<close>

definition merge_job :: "parsed_name \<Rightarrow> parsed_name \<Rightarrow> parsed_name \<times> status option" where
  "merge_job target other =
     (if has_job other then
        (if has_job target \<and> pn_job target \<noteq> pn_job other then (target, Some (incompatible ''jobs'' target other))
         else (target\<lparr>has_job := has_job other, pn_job := pn_job other\<rparr>, None))
      else (target, None))"

definition merge_replica :: "parsed_name \<Rightarrow> parsed_name \<Rightarrow> parsed_name \<times> status option" where
  "merge_replica target other =
     (if has_replica other then
        (if has_replica target \<and> pn_replica target \<noteq> pn_replica other
         then (target, Some (incompatible ''replicas'' target other))
         else (target\<lparr>has_replica := has_replica other, pn_replica := pn_replica other\<rparr>, None))
      else (target, None))"

definition merge_task :: "parsed_name \<Rightarrow> parsed_name \<Rightarrow> parsed_name \<times> status option" where
  "merge_task target other =
     (if has_task other then
        (if has_task target \<and> pn_task target \<noteq> pn_task other
         then (target, Some (incompatible ''tasks'' target other))
         else (target\<lparr>has_task := has_task other, pn_task := pn_task other\<rparr>, None))
      else (target, None))"

definition merge_type :: "bool \<Rightarrow> bool \<Rightarrow> parsed_name \<Rightarrow> parsed_name \<Rightarrow> parsed_name \<times> status option" where
  "merge_type soft override target other =
     (if has_type other then
        (if has_type target \<and> pn_type target \<noteq> pn_type other then
           (if \<not> soft then (target, Some (incompatible ''types'' target other))
            else if override then (target\<lparr>pn_type := pn_type other\<rparr>, None)
            else (target\<lparr>has_id := False, has_type := False\<rparr>, Some ok_status))
         else (target\<lparr>has_type := has_type other, pn_type := pn_type other\<rparr>, None))
      else (target, None))"

definition merge_id :: "bool \<Rightarrow> bool \<Rightarrow> parsed_name \<Rightarrow> parsed_name \<Rightarrow> parsed_name \<times> status option" where
  "merge_id soft override target other =
     (if has_id other then
        (if has_id target \<and> pn_id target \<noteq> pn_id other then
           (if \<not> soft then (target, Some (incompatible ''ids'' target other))
            else if override then (target\<lparr>pn_id := pn_id other\<rparr>, None)
            else (target\<lparr>has_id := False\<rparr>, Some ok_status))
         else (target\<lparr>has_id := has_id other, pn_id := pn_id other\<rparr>, None))
      else (target, None))"

definition and_then ::
  "parsed_name \<times> status option \<Rightarrow> (parsed_name \<Rightarrow> parsed_name \<times> status option) \<Rightarrow> parsed_name \<times> status option" where
  "and_then r k = (case r of (t, Some s) \<Rightarrow> (t, Some s) | (t, None) \<Rightarrow> k t)"

definition MergeDevNamesImpl :: "bool \<Rightarrow> bool \<Rightarrow> parsed_name \<Rightarrow> parsed_name \<Rightarrow> parsed_name \<times> status" where
  "MergeDevNamesImpl soft override target other =
     (let (t, r) = and_then (and_then (and_then (and_then (merge_job target other)
            (\<lambda>t. merge_replica t other)) (\<lambda>t. merge_task t other))
            (\<lambda>t. merge_type soft override t other)) (\<lambda>t. merge_id soft override t other)
      in (t, case r of None \<Rightarrow> ok_status | Some s \<Rightarrow> s))"

definition MergeDevNames :: "parsed_name \<Rightarrow> parsed_name \<Rightarrow> bool \<Rightarrow> parsed_name \<times> status" where
  "MergeDevNames target other soft = MergeDevNamesImpl soft False target other"

definition MergeOverrideDevNames :: "parsed_name \<Rightarrow> parsed_name \<Rightarrow> parsed_name \<times> status" where
  "MergeOverrideDevNames target other = MergeDevNamesImpl True True target other"

section \<open>Address spaces and local names\<close>

definition IsSameAddressSpace :: "parsed_name \<Rightarrow> parsed_name \<Rightarrow> bool" where
  "IsSameAddressSpace a b =
     ((has_job a \<and> has_job b \<and> pn_job a = pn_job b)
      \<and> (has_replica a \<and> has_replica b \<and> pn_replica a = pn_replica b)
      \<and> (has_task a \<and> has_task b \<and> pn_task a = pn_task b))"

definition IsSameAddressSpace_str :: "(string \<Rightarrow> string \<Rightarrow> bool) \<Rightarrow> string \<Rightarrow> string \<Rightarrow> bool" where
  "IsSameAddressSpace_str starts src dst =
     (case (ParseFullName starts src, ParseFullName starts dst) of
        (Some x, Some y) \<Rightarrow> IsSameAddressSpace x y | _ \<Rightarrow> False)"

definition IsDifferentAddressSpace :: "parsed_name \<Rightarrow> parsed_name \<Rightarrow> bool" where
  "IsDifferentAddressSpace a b =
     ((has_job a \<and> has_job b \<and> pn_job a \<noteq> pn_job b)
      \<or> (has_replica a \<and> has_replica b \<and> pn_replica a \<noteq> pn_replica b)
      \<or> (has_task a \<and> has_task b \<and> pn_task a \<noteq> pn_task b))"

definition AddressSpace :: "parsed_name \<Rightarrow> parsed_name" where
  "AddressSpace name = cleared_name\<lparr>has_job := has_job name, has_replica := has_replica name,
     has_task := has_task name, pn_job := pn_job name, pn_replica := pn_replica name, pn_task := pn_task name\<rparr>"

definition LocalName :: "string \<Rightarrow> int \<Rightarrow> string" where
  "LocalName ty i = ''/device:'' @ ty @ '':'' @ show_int i"

definition LegacyLocalName :: "string \<Rightarrow> int \<Rightarrow> string" where
  "LegacyLocalName ty i = ty @ '':'' @ show_int i"

text \<open>The failing \<open>CHECK\<close> on a name that does not parse is \<open>None\<close>.\<close>

definition LocalName_of_full :: "(string \<Rightarrow> string \<Rightarrow> bool) \<Rightarrow> string \<Rightarrow> string option" where
  "LocalName_of_full starts fullname = map_option (\<lambda>x. LocalName (pn_type x) (pn_id x)) (ParseFullName starts fullname)"

definition SplitDeviceName :: "(string \<Rightarrow> string \<Rightarrow> bool) \<Rightarrow> string \<Rightarrow> (string \<times> string) option" where
  "SplitDeviceName starts name =
     (case ParseFullName starts name of
        None \<Rightarrow> None
      | Some pn \<Rightarrow>
         if has_type pn \<and> has_id pn then Some
           ((if has_job pn then ''/job:'' @ pn_job pn else [])
            @ (if has_replica pn then ''/replica:'' @ show_int (pn_replica pn) else [])
            @ (if has_task pn then ''/task:'' @ show_int (pn_task pn) else []),
            pn_type pn @ '':'' @ show_int (pn_id pn))
         else None)"

definition GetTaskName :: "parsed_name \<Rightarrow> string option" where
  "GetTaskName pn =
     (if has_job pn \<and> has_replica pn \<and> has_task pn
      then Some (''/job:'' @ pn_job pn @ ''/replica:'' @ show_int (pn_replica pn)
                 @ ''/task:'' @ show_int (pn_task pn))
      else None)"

definition GetNamesForDeviceMappings :: "(string \<Rightarrow> string) \<Rightarrow> parsed_name \<Rightarrow> string option list" where
  "GetNamesForDeviceMappings lower pn =
     (if fully_specified pn
      then [FullName (pn_job pn) (pn_replica pn) (pn_task pn) (pn_type pn) (pn_id pn),
            LegacyName lower (pn_job pn) (pn_replica pn) (pn_task pn) (pn_type pn) (pn_id pn)]
      else [])"

definition GetLocalNamesForDeviceMappings :: "parsed_name \<Rightarrow> string list" where
  "GetLocalNamesForDeviceMappings pn =
     (if has_type pn \<and> has_id pn then [LocalName (pn_type pn) (pn_id pn), LegacyLocalName (pn_type pn) (pn_id pn)]
      else [])"

definition DeviceNameToCpuDeviceName :: "(string \<Rightarrow> string \<Rightarrow> bool) \<Rightarrow> string \<Rightarrow> status \<times> string option" where
  "DeviceNameToCpuDeviceName starts device_name =
     (case ParseFullName starts device_name of
        None \<Rightarrow> (mk_status INTERNAL (''Could not parse device name '' @ device_name), None)
      | Some device \<Rightarrow> (ok_status, Some (ParsedNameToString (device\<lparr>pn_type := ''CPU'', pn_id := 0\<rparr>))))"

end
