(* ===== verification/Device_Name_Props.thy ===== *)
theory Device_Name_Props
  imports Device_Names
begin

text \<open>
  Properties of device names: numbers are read exactly or rejected, a printed name parses
  back, "is a specification of" is an order, merging gives least upper bounds of it.
\<close>

section \<open>Numbers\<close>

definition dec_val :: "nat \<Rightarrow> string \<Rightarrow> nat" where
  "dec_val = foldl (\<lambda>a c. 10 * a + (ascii c - 48))"

lemma dec_val_simps [simp]:
  "dec_val a [] = a" "dec_val a (c # cs) = dec_val (10 * a + (ascii c - 48)) cs"
  "dec_val a (xs @ ys) = dec_val (dec_val a xs) ys"
  by (simp_all add: dec_val_def)

lemma dec_val_ge: "a \<le> dec_val a cs"
proof (induction cs arbitrary: a)
  case (Cons c cs)
  have "a \<le> 10 * a + (ascii c - 48)" by simp
  then show ?case using Cons [of "10 * a + (ascii c - 48)"] by simp
qed simp

text \<open>The test \<open>new_v / 8 < v\<close> is exactly the overflow of 64 bits.\<close>

lemma overflow_test:
  assumes "d < 10"
  shows "(v * 10 + of_nat d) div 8 < (v :: 64 word) \<longleftrightarrow> 2 ^ 64 \<le> unat v * 10 + d"
    and "unat v * 10 + d < 2 ^ 64 \<Longrightarrow> unat (v * 10 + of_nat d) = unat v * 10 + d"
proof -
  have v: "unat v < 2 ^ 64" using unsigned_less [of v] by simp
  have e: "unat (v * 10 + of_nat d) = (unat v * 10 + d) mod 2 ^ 64"
  proof -
    have "unat (of_nat d :: 64 word) = d" using assms by (simp add: unat_of_nat take_bit_nat_eq_self)
    then show ?thesis by (simp add: unat_word_ariths mod_add_left_eq)
  qed
  have lt: "(v * 10 + of_nat d) div 8 < v \<longleftrightarrow> unat (v * 10 + of_nat d) div 8 < unat v"
    by (simp add: word_less_nat_alt unat_div)
  show u: "unat (v * 10 + of_nat d) = unat v * 10 + d" if "unat v * 10 + d < 2 ^ 64"
    unfolding e using that by simp
  show "(v * 10 + of_nat d) div 8 < v \<longleftrightarrow> 2 ^ 64 \<le> unat v * 10 + d"
  proof (cases "unat v * 10 + d < 2 ^ 64")
    case True
    then show ?thesis unfolding lt u [OF True] by auto
  next
    case False
    let ?n = "(unat v * 10 + d) mod 2 ^ 64"
    have "?n div 8 < unat v"
    proof -
      have "unat v * 10 + d = 2 ^ 64 * ((unat v * 10 + d) div 2 ^ 64) + ?n" by simp
      moreover have "1 \<le> (unat v * 10 + d) div 2 ^ 64" using False by (simp add: div_greater_zero_iff Suc_le_eq)
      ultimately have "?n + 2 ^ 64 \<le> unat v * 10 + d" by (smt (verit) add.commute add_le_mono mult.right_neutral mult_le_mono2 order_refl)
      then show ?thesis using v assms by simp
    qed
    then show ?thesis unfolding lt e using False by simp
  qed
qed

lemma digits_loop_digits:
  assumes "list_all is_digit ds" "rest = [] \<or> \<not> is_digit (hd rest)"
  shows "digits_loop v (ds @ rest) =
     (if dec_val (unat v) ds < 2 ^ 64 then Some (of_nat (dec_val (unat v) ds), rest) else None)"
  using assms(1)
proof (induction ds arbitrary: v)
  case Nil
  have "unat v < 2 ^ 64" using unsigned_less [of v] by simp
  then show ?case using assms(2) by (cases rest) auto
next
  case (Cons d ds)
  let ?d = "ascii d - 48"
  have d: "is_digit d" "?d < 10" using Cons.prems by (auto simp: is_digit_def)
  note o = overflow_test [OF d(2), of v]
  show ?case
  proof (cases "unat v * 10 + ?d < 2 ^ 64")
    case True
    then show ?thesis using Cons d o by (simp add: Let_def mult.commute)
  next
    case False
    then have "2 ^ 64 \<le> dec_val (unat v * 10 + ?d) ds" using dec_val_ge [of "unat v * 10 + ?d" ds] by linarith
    then show ?thesis using False d o by (simp add: Let_def mult.commute)
  qed
qed

text \<open>
  \<open>ConsumeLeadingDigits\<close> reads the longest run of digits, exactly, and fails when there is
  no digit or when the number does not fit 64 bits: its overflow test never misfires.
\<close>

theorem leading_digits_exact:
  assumes "list_all is_digit ds" "rest = [] \<or> \<not> is_digit (hd rest)"
  shows "ConsumeLeadingDigits (ds @ rest) =
     (if ds \<noteq> [] \<and> dec_val 0 ds < 2 ^ 64 then Some (of_nat (dec_val 0 ds), rest) else None)"
  using digits_loop_digits [OF assms, of 0] by (auto simp: ConsumeLeadingDigits_def)

theorem leading_digits_exact_witness:
  "ConsumeLeadingDigits ''18446744073709551616x'' = None \<and> ConsumeLeadingDigits ''42/'' = Some (42, ''/'')"
  using leading_digits_exact [of "''18446744073709551616''" "''x''"] leading_digits_exact [of "''42''" "''/''"]
  by (simp add: is_digit_def ascii_def)


section \<open>Printing numbers\<close>

lemma digit_char_digit: "n < 10 \<Longrightarrow> is_digit (digit_char n) \<and> ascii (digit_char n) = 48 + n"
  by (simp add: is_digit_def ascii_def digit_char_def)

lemma show_nat_digits: "show_nat n \<noteq> [] \<and> list_all is_digit (show_nat n) \<and> dec_val 0 (show_nat n) = n"
proof (induction n rule: show_nat.induct)
  case (1 n)
  show ?case
  proof (cases "n < 10")
    case True
    then show ?thesis using digit_char_digit [of n] by (simp add: show_nat.simps [of n])
  next
    case False
    then show ?thesis using 1 digit_char_digit [of "n mod 10"] by (simp add: show_nat.simps [of n])
  qed
qed

lemma ConsumeNumber_show:
  assumes "0 \<le> v" "v < 2 ^ 31" "rest = [] \<or> \<not> is_digit (hd rest)"
  shows "ConsumeNumber (show_int v @ rest) = Some (v, rest)"
proof -
  let ?n = "nat v"
  have n: "int ?n = v" "?n < 2 ^ 64" using assms(1,2) by (simp_all add: nat_less_iff)
  have d: "digits_loop 0 (show_nat ?n @ rest) = Some (of_nat ?n, rest)"
    using digits_loop_digits [OF _ assms(3), of "show_nat ?n" 0] show_nat_digits [of ?n] n(2) by simp
  have "uint (of_nat ?n :: 64 word) = v" using n by (simp add: uint_nat unat_of_nat take_bit_nat_eq_self)
  moreover have "signed_take_bit 31 v = v" using assms(1,2) by (simp add: signed_take_bit_int_eq_self_iff)
  moreover have "show_int v = show_nat ?n" using assms(1) by (simp add: show_int_def)
  ultimately show ?thesis using d show_nat_digits [of ?n]
    by (simp add: ConsumeNumber_def ConsumeLeadingDigits_def)
qed

text \<open>
  A number that does not fit 32 bits is not rejected but wraps: the text of any number
  below 2 to the 64 is read as its low 32 bits, so two different names can denote the same
  device.
\<close>

theorem large_numbers_wrap:
  assumes "n < 2 ^ 64"
  shows "ConsumeNumber (show_nat n) = Some (signed_take_bit 31 (int n), [])"
proof -
  have "digits_loop 0 (show_nat n @ []) = Some (of_nat n, [])"
    using digits_loop_digits [of "show_nat n" "[]" 0] show_nat_digits [of n] assms by simp
  moreover have "uint (of_nat n :: 64 word) = int n"
    using assms by (simp add: uint_nat unat_of_nat take_bit_nat_eq_self)
  ultimately show ?thesis using show_nat_digits [of n]
    by (simp add: ConsumeNumber_def ConsumeLeadingDigits_def)
qed

theorem large_numbers_wrap_witness:
  "ConsumeNumber (show_nat 4294967297) = ConsumeNumber (show_nat 1)"
proof -
  have "signed_take_bit 31 (4294967297 :: int) = 1" by code_simp
  then show ?thesis using large_numbers_wrap [of 4294967297] large_numbers_wrap [of 1] by simp
qed

section \<open>Printed names parse back\<close>

definition is_type_name :: "string \<Rightarrow> bool" where
  "is_type_name = IsJobName"

definition is_int :: "int \<Rightarrow> bool" where
  "is_int v = (0 \<le> v \<and> v < 2 ^ 31)"

definition valid_name :: "parsed_name \<Rightarrow> bool" where
  "valid_name pn = ((has_job pn \<longrightarrow> IsJobName (pn_job pn)) \<and> (has_replica pn \<longrightarrow> is_int (pn_replica pn))
     \<and> (has_task pn \<longrightarrow> is_int (pn_task pn)) \<and> (has_type pn \<longrightarrow> is_type_name (pn_type pn))
     \<and> (has_id pn \<longrightarrow> has_type pn \<and> is_int (pn_id pn)))"

text \<open>The text after a component: nothing, or the slash of the next one.\<close>

definition at_slash :: "string \<Rightarrow> bool" where
  "at_slash s = (s = [] \<or> hd s = CHR ''/'')"

lemma not_token_chars: "\<not> IsAlphaNumOrUnderscore CHR ''/''" "\<not> IsAlphaNumOrUnderscore CHR '':''"
  "\<not> is_digit CHR ''/''" "\<not> is_digit CHR ''*''"
  by (simp_all add: IsAlphaNumOrUnderscore_def IsAlpha_def is_digit_def ascii_def)

lemma token_takeWhile:
  assumes "list_all IsAlphaNumOrUnderscore tok" "rest = [] \<or> hd rest \<in> set ts" "set ts \<subseteq> {CHR ''/'', CHR '':''}"
  shows "takeWhile (\<lambda>c. c \<notin> set ts) (tok @ rest) = tok"
proof -
  have "\<forall>c\<in>set tok. c \<notin> set ts" using assms(1,3) not_token_chars by (auto simp: list_all_iff)
  then show ?thesis using assms(2) by (cases rest) (auto simp: takeWhile_append2)
qed

lemma ConsumeToken_ok:
  assumes "IsJobName tok" "rest = [] \<or> hd rest \<in> set ts" "set ts \<subseteq> {CHR ''/'', CHR '':''}"
  shows "ConsumeToken ts (tok @ rest) = Some (tok, rest)"
proof -
  have t: "tok \<noteq> []" "IsAlpha (hd tok)" "list_all IsAlphaNumOrUnderscore tok"
    using assms(1) by (simp_all add: IsJobName_def)
  then show ?thesis using token_takeWhile [OF t(3) assms(2,3)] by (auto simp: ConsumeToken_def Let_def)
qed

lemma consume_eq:
  assumes "starts_spec starts"
  shows "consume_prefix starts s p = (if prefix p s then Some (drop (length p) s) else None)"
  using assms by (simp add: consume_prefix_def starts_spec_def)

lemma number_not_star: "0 \<le> v \<Longrightarrow> \<not> prefix ''*'' (show_int v @ rest)"
  using show_nat_digits [of "nat v"] not_token_chars(4)
  by (cases "show_nat (nat v)") (auto simp: show_int_def)

lemma token_not_star: "IsJobName tok \<Longrightarrow> \<not> prefix ''*'' (tok @ rest)"
  by (cases tok) (auto simp: IsJobName_def IsAlpha_def ascii_def)

definition job_str :: "parsed_name \<Rightarrow> string" where
  "job_str pn = (if has_job pn then ''/job:'' @ pn_job pn else [])"
definition replica_str :: "parsed_name \<Rightarrow> string" where
  "replica_str pn = (if has_replica pn then ''/replica:'' @ show_int (pn_replica pn) else [])"
definition task_str :: "parsed_name \<Rightarrow> string" where
  "task_str pn = (if has_task pn then ''/task:'' @ show_int (pn_task pn) else [])"
definition dev_str :: "parsed_name \<Rightarrow> string" where
  "dev_str pn = (if has_type pn then ''/device:'' @ pn_type pn @ '':''
     @ (if has_id pn then show_int (pn_id pn) else ''*'') else [])"

lemma slash_not_digit: "at_slash s \<Longrightarrow> s = [] \<or> \<not> is_digit (hd s)"
  using not_token_chars by (auto simp: at_slash_def)

lemma parse_job_printed:
  assumes "starts_spec starts" "has_job pn \<longrightarrow> IsJobName (pn_job pn)" "at_slash rest" "\<not> prefix ''/job:'' rest"
  shows "parse_job starts (job_str pn @ rest, p, b) =
     Some (rest, if has_job pn then p\<lparr>has_job := True, pn_job := pn_job pn\<rparr> else p, b \<or> has_job pn)"
proof (cases "has_job pn")
  case True
  have "ConsumeJobName (pn_job pn @ rest) = Some (pn_job pn, rest)"
    unfolding ConsumeJobName_def using assms(2,3) True by (intro ConsumeToken_ok) (auto simp: at_slash_def)
  then show ?thesis using True assms(2) token_not_star [of "pn_job pn" rest]
    by (simp add: parse_job_def job_str_def consume_eq [OF assms(1)])
next
  case False
  then show ?thesis using assms(4) by (simp add: parse_job_def job_str_def consume_eq [OF assms(1)])
qed

lemma parse_replica_printed:
  assumes "starts_spec starts" "has_replica pn \<longrightarrow> is_int (pn_replica pn)" "at_slash rest" "\<not> prefix ''/replica:'' rest"
  shows "parse_replica starts (replica_str pn @ rest, p, b) =
     Some (rest, if has_replica pn then p\<lparr>has_replica := True, pn_replica := pn_replica pn\<rparr> else p, b \<or> has_replica pn)"
proof (cases "has_replica pn")
  case True
  then have "ConsumeNumber (show_int (pn_replica pn) @ rest) = Some (pn_replica pn, rest)"
    using assms(2,3) by (intro ConsumeNumber_show slash_not_digit) (auto simp: is_int_def)
  then show ?thesis using True assms(2) number_not_star [of "pn_replica pn" rest]
    by (simp add: parse_replica_def replica_str_def consume_eq [OF assms(1)] is_int_def)
next
  case False
  then show ?thesis using assms(4) by (simp add: parse_replica_def replica_str_def consume_eq [OF assms(1)])
qed

lemma parse_task_printed:
  assumes "starts_spec starts" "has_task pn \<longrightarrow> is_int (pn_task pn)" "at_slash rest" "\<not> prefix ''/task:'' rest"
  shows "parse_task starts (task_str pn @ rest, p, b) =
     Some (rest, if has_task pn then p\<lparr>has_task := True, pn_task := pn_task pn\<rparr> else p, b \<or> has_task pn)"
proof (cases "has_task pn")
  case True
  then have "ConsumeNumber (show_int (pn_task pn) @ rest) = Some (pn_task pn, rest)"
    using assms(2,3) by (intro ConsumeNumber_show slash_not_digit) (auto simp: is_int_def)
  then show ?thesis using True assms(2) number_not_star [of "pn_task pn" rest]
    by (simp add: parse_task_def task_str_def consume_eq [OF assms(1)] is_int_def)
next
  case False
  then show ?thesis using assms(4) by (simp add: parse_task_def task_str_def consume_eq [OF assms(1)])
qed

lemma parse_device_printed:
  assumes "starts_spec starts" "has_type pn \<longrightarrow> is_type_name (pn_type pn)"
    "has_id pn \<longrightarrow> has_type pn \<and> is_int (pn_id pn)"
  shows "parse_device starts (dev_str pn, p, b) =
     Some ([], if has_type pn then (if has_id pn
         then p\<lparr>has_type := True, pn_type := pn_type pn, has_id := True, pn_id := pn_id pn\<rparr>
         else p\<lparr>has_type := True, pn_type := pn_type pn, has_id := False\<rparr>) else p, b \<or> has_type pn)"
proof (cases "has_type pn")
  case True
  let ?id = "if has_id pn then show_int (pn_id pn) else ''*''"
  have j: "IsJobName (pn_type pn)" using assms(2) True by (simp add: is_type_name_def)
  have ty: "ConsumeDeviceType (pn_type pn @ '':'' @ ?id) = Some (pn_type pn, '':'' @ ?id)"
    unfolding ConsumeDeviceType_def using j by (intro ConsumeToken_ok) auto
  have "parse_id starts ?id q = Some ([], if has_id pn then q\<lparr>has_id := True, pn_id := pn_id pn\<rparr>
      else q\<lparr>has_id := False\<rparr>)" for q
    using assms(3) number_not_star [of "pn_id pn" "[]"] ConsumeNumber_show [of "pn_id pn" "[]"]
    by (auto simp: parse_id_def consume_eq [OF assms(1)] is_int_def)
  then show ?thesis using True ty token_not_star [OF j, of "'':'' @ ?id"]
    by (auto simp: parse_device_def dev_str_def consume_eq [OF assms(1)])
next
  case False
  then show ?thesis using assms(3) by (simp add: parse_device_def dev_str_def consume_eq [OF assms(1)])
qed

lemma strings_at_slash:
  "at_slash (job_str pn @ r) = (has_job pn \<or> at_slash r)"
  "at_slash (replica_str pn @ r) = (has_replica pn \<or> at_slash r)"
  "at_slash (task_str pn @ r) = (has_task pn \<or> at_slash r)"
  "at_slash (dev_str pn)"
  by (auto simp: at_slash_def job_str_def replica_str_def task_str_def dev_str_def)

text \<open>The fields a parsed name does not have are cleared.\<close>

definition normal_name :: "parsed_name \<Rightarrow> parsed_name" where
  "normal_name pn = \<lparr>has_job = has_job pn, pn_job = (if has_job pn then pn_job pn else []),
     has_replica = has_replica pn, pn_replica = (if has_replica pn then pn_replica pn else 0),
     has_task = has_task pn, pn_task = (if has_task pn then pn_task pn else 0),
     has_type = has_type pn, pn_type = (if has_type pn then pn_type pn else []),
     has_id = has_id pn, pn_id = (if has_id pn then pn_id pn else 0)\<rparr>"

lemma parse_printed_sections:
  assumes "starts_spec starts" "valid_name pn"
  shows "parse_sections starts (job_str pn @ replica_str pn @ task_str pn @ dev_str pn, cleared_name, False)
     = Some ([], normal_name pn, has_job pn \<or> has_replica pn \<or> has_task pn \<or> has_type pn)"
proof -
  have v: "has_job pn \<longrightarrow> IsJobName (pn_job pn)" "has_replica pn \<longrightarrow> is_int (pn_replica pn)"
    "has_task pn \<longrightarrow> is_int (pn_task pn)" "has_type pn \<longrightarrow> is_type_name (pn_type pn)"
    "has_id pn \<longrightarrow> has_type pn \<and> is_int (pn_id pn)"
    using assms(2) by (simp_all add: valid_name_def)
  have p: "\<not> prefix ''/job:'' (replica_str pn @ task_str pn @ dev_str pn)"
    "\<not> prefix ''/replica:'' (task_str pn @ dev_str pn)" "\<not> prefix ''/task:'' (dev_str pn)"
    by (simp_all add: replica_str_def task_str_def dev_str_def)
  have l: "parse_legacy starts lp up ty ([], q, b) = Some ([], q, b)" if "lp \<noteq> []" "up \<noteq> []" for lp up ty q b
    using that by (auto simp: parse_legacy_def consume_eq [OF assms(1)])
  show ?thesis
    using v p
    by (simp add: parse_sections_def parse_job_printed [OF assms(1)] parse_replica_printed [OF assms(1)]
        parse_task_printed [OF assms(1)] parse_device_printed [OF assms(1)] strings_at_slash l)
      (auto simp: normal_name_def cleared_name_def)
qed

text \<open>
  C36: a name with valid components, an id only together with a type, parses back from its
  printed form, with the wildcards where they were.
\<close>

theorem device_name_roundtrip:
  assumes "starts_spec starts" "valid_name pn"
  shows "ParseFullName starts (ParsedNameToString pn) = Some (normal_name pn)
    \<and> parsed_name_eq (normal_name pn) pn"
proof -
  let ?s = "job_str pn @ replica_str pn @ task_str pn @ dev_str pn"
  have s: "ParsedNameToString pn = ?s"
    by (simp add: ParsedNameToString_def job_str_def replica_str_def task_str_def dev_str_def)
  have ne: "?s \<noteq> ''/''" by (auto simp: job_str_def replica_str_def task_str_def dev_str_def)
  have "parse_loop starts ?s cleared_name = Some (normal_name pn)"
  proof (cases "?s = []")
    case True
    then have "\<not> has_job pn" "\<not> has_replica pn" "\<not> has_task pn" "\<not> has_type pn"
      by (auto simp: job_str_def replica_str_def task_str_def dev_str_def split: if_splits)
    then show ?thesis using True assms(2)
      by (simp add: parse_loop.simps [of starts "[]"] normal_name_def cleared_name_def valid_name_def)
  next
    case False
    then have "has_job pn \<or> has_replica pn \<or> has_task pn \<or> has_type pn"
      by (auto simp: job_str_def replica_str_def task_str_def dev_str_def split: if_splits)
    with parse_printed_sections [OF assms]
    have "parse_sections starts (?s, cleared_name, False) = Some ([], normal_name pn, True)" by simp
    then have "parse_loop starts ?s cleared_name = parse_loop starts [] (normal_name pn)"
      by (subst parse_loop.simps) (simp only: False if_False option.case prod.case not_True_eq_False)
    then show ?thesis by (simp add: parse_loop.simps [of starts "[]"])
  qed
  then show ?thesis using s ne by (simp add: ParseFullName_def parsed_name_eq_def normal_name_def)
qed


definition sample_name :: parsed_name where
  "sample_name = \<lparr>has_job = True, pn_job = ''worker'', has_replica = False, pn_replica = 0, has_task = True,
     pn_task = 1, has_type = True, pn_type = ''GPU'', has_id = False, pn_id = 7\<rparr>"

theorem device_name_roundtrip_witness:
  "ParseFullName (\<lambda>s p. prefix p s) ''/job:worker/task:1/device:GPU:*'' = Some (sample_name\<lparr>pn_id := 0\<rparr>)"
proof -
  have v: "valid_name sample_name"
    by (simp add: valid_name_def sample_name_def IsJobName_def is_type_name_def is_int_def
        IsAlphaNumOrUnderscore_def IsAlpha_def ascii_def is_digit_def)
  have n: "show_int 1 = ''1''" by code_simp
  then have "ParsedNameToString sample_name = ''/job:worker/task:1/device:GPU:*''"
    by (simp add: ParsedNameToString_def sample_name_def)
  moreover have "normal_name sample_name = sample_name\<lparr>pn_id := 0\<rparr>"
    by (simp add: normal_name_def sample_name_def)
  ultimately show ?thesis using device_name_roundtrip [OF _ v, of "\<lambda>s p. prefix p s"]
    by (simp add: starts_spec_def)
qed

section \<open>The order of specifications\<close>

definition compatible :: "parsed_name \<Rightarrow> parsed_name \<Rightarrow> bool" where
  "compatible a b = ((has_job a \<and> has_job b \<longrightarrow> pn_job a = pn_job b)
     \<and> (has_replica a \<and> has_replica b \<longrightarrow> pn_replica a = pn_replica b)
     \<and> (has_task a \<and> has_task b \<longrightarrow> pn_task a = pn_task b)
     \<and> (has_type a \<and> has_type b \<longrightarrow> pn_type a = pn_type b)
     \<and> (has_id a \<and> has_id b \<longrightarrow> pn_id a = pn_id b))"

lemma IsSpecification_fields:
  "IsSpecification a b \<longleftrightarrow> (has_job a \<longrightarrow> has_job b \<and> pn_job a = pn_job b)
     \<and> (has_replica a \<longrightarrow> has_replica b \<and> pn_replica a = pn_replica b)
     \<and> (has_task a \<longrightarrow> has_task b \<and> pn_task a = pn_task b)
     \<and> (has_type a \<longrightarrow> has_type b \<and> pn_type a = pn_type b)
     \<and> (has_id a \<longrightarrow> has_id b \<and> pn_id a = pn_id b)"
  unfolding IsSpecification_def by blast

text \<open>The merged name field by field.\<close>

lemma ensure_fields:
  "has_job (ensure_job m b) = (has_job m \<or> has_job b)"
  "pn_job (ensure_job m b) = (if has_job b then pn_job b else pn_job m)"
  "has_replica (ensure_job m b) = has_replica m" "pn_replica (ensure_job m b) = pn_replica m"
  "has_task (ensure_job m b) = has_task m" "pn_task (ensure_job m b) = pn_task m"
  "has_type (ensure_job m b) = has_type m" "pn_type (ensure_job m b) = pn_type m"
  "has_id (ensure_job m b) = has_id m" "pn_id (ensure_job m b) = pn_id m"
  "has_job (ensure_replica m b) = has_job m" "pn_job (ensure_replica m b) = pn_job m"
  "has_replica (ensure_replica m b) = (has_replica m \<or> has_replica b)"
  "pn_replica (ensure_replica m b) = (if has_replica b then pn_replica b else pn_replica m)"
  "has_task (ensure_replica m b) = has_task m" "pn_task (ensure_replica m b) = pn_task m"
  "has_type (ensure_replica m b) = has_type m" "pn_type (ensure_replica m b) = pn_type m"
  "has_id (ensure_replica m b) = has_id m" "pn_id (ensure_replica m b) = pn_id m"
  "has_job (ensure_task m b) = has_job m" "pn_job (ensure_task m b) = pn_job m"
  "has_replica (ensure_task m b) = has_replica m" "pn_replica (ensure_task m b) = pn_replica m"
  "has_task (ensure_task m b) = (has_task m \<or> has_task b)"
  "pn_task (ensure_task m b) = (if has_task b then pn_task b else pn_task m)"
  "has_type (ensure_task m b) = has_type m" "pn_type (ensure_task m b) = pn_type m"
  "has_id (ensure_task m b) = has_id m" "pn_id (ensure_task m b) = pn_id m"
  "has_job (ensure_type m b) = has_job m" "pn_job (ensure_type m b) = pn_job m"
  "has_replica (ensure_type m b) = has_replica m" "pn_replica (ensure_type m b) = pn_replica m"
  "has_task (ensure_type m b) = has_task m" "pn_task (ensure_type m b) = pn_task m"
  "has_type (ensure_type m b) = (has_type m \<or> has_type b)"
  "pn_type (ensure_type m b) = (if has_type b then pn_type b else pn_type m)"
  "has_id (ensure_type m b) = has_id m" "pn_id (ensure_type m b) = pn_id m"
  "has_job (ensure_id m b) = has_job m" "pn_job (ensure_id m b) = pn_job m"
  "has_replica (ensure_id m b) = has_replica m" "pn_replica (ensure_id m b) = pn_replica m"
  "has_task (ensure_id m b) = has_task m" "pn_task (ensure_id m b) = pn_task m"
  "has_type (ensure_id m b) = has_type m" "pn_type (ensure_id m b) = pn_type m"
  "has_id (ensure_id m b) = (has_id m \<or> has_id b)"
  "pn_id (ensure_id m b) = (if has_id b then pn_id b else pn_id m)"
  by (simp_all add: ensure_job_def ensure_replica_def ensure_task_def ensure_type_def ensure_id_def)

lemma EnsureSpecification_fields:
  "has_job (EnsureSpecification a b) = (has_job a \<or> has_job b)"
  "pn_job (EnsureSpecification a b) = (if has_job b then pn_job b else pn_job a)"
  "has_replica (EnsureSpecification a b) = (has_replica a \<or> has_replica b)"
  "pn_replica (EnsureSpecification a b) = (if has_replica b then pn_replica b else pn_replica a)"
  "has_task (EnsureSpecification a b) = (has_task a \<or> has_task b)"
  "pn_task (EnsureSpecification a b) = (if has_task b then pn_task b else pn_task a)"
  "has_type (EnsureSpecification a b) = (has_type a \<or> has_type b)"
  "pn_type (EnsureSpecification a b) = (if has_type b then pn_type b else pn_type a)"
  "has_id (EnsureSpecification a b) = (has_id a \<or> has_id b)"
  "pn_id (EnsureSpecification a b) = (if has_id b then pn_id b else pn_id a)"
  by (simp_all add: EnsureSpecification_def ensure_fields)

lemma ensure_upper:
  assumes "compatible a b"
  shows "IsSpecification a (EnsureSpecification a b)" "IsSpecification b (EnsureSpecification a b)"
  unfolding IsSpecification_fields EnsureSpecification_fields
  by (intro conjI impI; use assms [unfolded compatible_def] in metis)+

lemma ensure_least:
  "IsSpecification a c \<Longrightarrow> IsSpecification b c \<Longrightarrow> IsSpecification (EnsureSpecification a b) c"
  unfolding IsSpecification_fields EnsureSpecification_fields by (intro conjI impI; metis)

lemma compatible_iff: "compatible a b \<longleftrightarrow> (\<exists>c. IsSpecification a c \<and> IsSpecification b c)"
proof
  assume "compatible a b"
  then show "\<exists>c. IsSpecification a c \<and> IsSpecification b c" using ensure_upper by blast
next
  assume "\<exists>c. IsSpecification a c \<and> IsSpecification b c"
  then obtain c where "IsSpecification a c" "IsSpecification b c" by blast
  then show "compatible a b" unfolding IsSpecification_fields compatible_def
    by (intro conjI impI; metis)
qed

lemma incompatible_status: "\<not> status_ok (incompatible w a b)"
  by (simp add: incompatible_def status_simps)

lemma merge_fields:
  "has_job t \<and> has_job b \<longrightarrow> pn_job t = pn_job b \<Longrightarrow> merge_job t b = (ensure_job t b, None)"
  "has_replica t \<and> has_replica b \<longrightarrow> pn_replica t = pn_replica b \<Longrightarrow> merge_replica t b = (ensure_replica t b, None)"
  "has_task t \<and> has_task b \<longrightarrow> pn_task t = pn_task b \<Longrightarrow> merge_task t b = (ensure_task t b, None)"
  "has_type t \<and> has_type b \<longrightarrow> pn_type t = pn_type b \<Longrightarrow> merge_type soft ov t b = (ensure_type t b, None)"
  "has_id t \<and> has_id b \<longrightarrow> pn_id t = pn_id b \<Longrightarrow> merge_id soft ov t b = (ensure_id t b, None)"
  by (auto simp: merge_job_def merge_replica_def merge_task_def merge_type_def merge_id_def
      ensure_job_def ensure_replica_def ensure_task_def ensure_type_def ensure_id_def)

lemma merge_compatible:
  assumes "compatible t b"
  shows "MergeDevNamesImpl soft ov t b = (EnsureSpecification t b, ok_status)"
proof -
  note c = assms [unfolded compatible_def]
  let ?m2 = "ensure_replica (ensure_job t b) b"
  let ?m4 = "ensure_type (ensure_task ?m2 b) b"
  have "merge_job t b = (ensure_job t b, None)" "merge_replica (ensure_job t b) b = (?m2, None)"
    "merge_task ?m2 b = (ensure_task ?m2 b, None)" "merge_type soft ov (ensure_task ?m2 b) b = (?m4, None)"
    "merge_id soft ov ?m4 b = (ensure_id ?m4 b, None)"
    using c by (simp_all add: merge_fields ensure_fields)
  then show ?thesis
    by (simp only: MergeDevNamesImpl_def and_then_def prod.case option.case Let_def EnsureSpecification_def)
qed

lemma merge_incompatible:
  assumes "\<not> compatible t b"
  shows "\<not> status_ok (snd (MergeDevNamesImpl False ov t b))"
proof -
  have keep: "merge_job t b = (x, None) \<Longrightarrow> has_job t \<and> has_job b \<longrightarrow> pn_job t = pn_job b"
    "merge_replica t b = (x, None) \<Longrightarrow> has_replica t \<and> has_replica b \<longrightarrow> pn_replica t = pn_replica b"
    "merge_task t b = (x, None) \<Longrightarrow> has_task t \<and> has_task b \<longrightarrow> pn_task t = pn_task b"
    "merge_type False ov t b = (x, None) \<Longrightarrow> has_type t \<and> has_type b \<longrightarrow> pn_type t = pn_type b"
    "merge_id False ov t b = (x, None) \<Longrightarrow> has_id t \<and> has_id b \<longrightarrow> pn_id t = pn_id b" for t x
    by (auto simp: merge_job_def merge_replica_def merge_task_def merge_type_def merge_id_def split: if_splits)
  have bad: "merge_job t b = (x, Some s) \<Longrightarrow> \<not> status_ok s" "merge_replica t b = (x, Some s) \<Longrightarrow> \<not> status_ok s"
    "merge_task t b = (x, Some s) \<Longrightarrow> \<not> status_ok s" "merge_type False ov t b = (x, Some s) \<Longrightarrow> \<not> status_ok s"
    "merge_id False ov t b = (x, Some s) \<Longrightarrow> \<not> status_ok s" for t x s
    using incompatible_status
    by (auto simp: merge_job_def merge_replica_def merge_task_def merge_type_def merge_id_def split: if_splits)
  show ?thesis
  proof (rule ccontr)
    assume ok: "\<not> ?thesis"
    obtain t1 r1 where 1: "merge_job t b = (t1, r1)" by fastforce
    have r1: "r1 = None" using ok bad(1) 1 by (cases r1) (auto simp: MergeDevNamesImpl_def and_then_def)
    obtain t2 r2 where 2: "merge_replica t1 b = (t2, r2)" by fastforce
    have r2: "r2 = None" using ok bad(2) 1 r1 2 by (cases r2) (auto simp: MergeDevNamesImpl_def and_then_def)
    obtain t3 r3 where 3: "merge_task t2 b = (t3, r3)" by fastforce
    have r3: "r3 = None" using ok bad(3) 1 r1 2 r2 3 by (cases r3) (auto simp: MergeDevNamesImpl_def and_then_def)
    obtain t4 r4 where 4: "merge_type False ov t3 b = (t4, r4)" by fastforce
    have r4: "r4 = None" using ok bad(4) 1 r1 2 r2 3 r3 4 by (cases r4) (auto simp: MergeDevNamesImpl_def and_then_def)
    obtain t5 r5 where 5: "merge_id False ov t4 b = (t5, r5)" by fastforce
    have r5: "r5 = None" using ok bad(5) 1 r1 2 r2 3 r3 4 r4 5
      by (cases r5) (auto simp: MergeDevNamesImpl_def and_then_def)
    note k = keep(1) [OF 1 [unfolded r1]] keep(2) [OF 2 [unfolded r2]] keep(3) [OF 3 [unfolded r3]]
      keep(4) [OF 4 [unfolded r4]] keep(5) [OF 5 [unfolded r5]]
    have "has_replica t1 = has_replica t" "pn_replica t1 = pn_replica t" "has_task t1 = has_task t"
      "pn_task t1 = pn_task t" "has_type t1 = has_type t" "pn_type t1 = pn_type t"
      "has_id t1 = has_id t" "pn_id t1 = pn_id t"
      using 1 by (auto simp: merge_job_def split: if_splits)
    moreover have "has_task t2 = has_task t1" "pn_task t2 = pn_task t1" "has_type t2 = has_type t1"
      "pn_type t2 = pn_type t1" "has_id t2 = has_id t1" "pn_id t2 = pn_id t1"
      using 2 by (auto simp: merge_replica_def split: if_splits)
    moreover have "has_type t3 = has_type t2" "pn_type t3 = pn_type t2" "has_id t3 = has_id t2" "pn_id t3 = pn_id t2"
      using 3 by (auto simp: merge_task_def split: if_splits)
    moreover have "has_id t4 = has_id t3" "pn_id t4 = pn_id t3"
      using 4 r4 by (auto simp: merge_type_def split: if_splits)
    ultimately have "compatible t b" using k by (simp add: compatible_def)
    with assms show False ..
  qed
qed

text \<open>
  C37: merging two device names, without soft placement, succeeds exactly when some device
  name is a specification of both, and then gives the least such name: everything that
  specifies both specifies the merged name.
\<close>

theorem merge_least_upper_bound:
  assumes "MergeDevNames target other False = (t, s)"
  shows "(status_ok s \<longleftrightarrow> (\<exists>c. IsSpecification target c \<and> IsSpecification other c))
    \<and> (status_ok s \<longrightarrow> IsSpecification target t \<and> IsSpecification other t
         \<and> (\<forall>c. IsSpecification target c \<and> IsSpecification other c \<longrightarrow> IsSpecification t c))"
proof (cases "compatible target other")
  case True
  then have "t = EnsureSpecification target other" "s = ok_status"
    using assms merge_compatible by (auto simp: MergeDevNames_def)
  then show ?thesis using True compatible_iff [of target other] ensure_upper [OF True] ensure_least
    by (auto simp: status_ok_def)
next
  case False
  then have "\<not> status_ok s" using assms merge_incompatible [OF False, of False] by (simp add: MergeDevNames_def)
  then show ?thesis using False compatible_iff by auto
qed

theorem merge_least_upper_bound_witness:
  "\<exists>t s. MergeDevNames sample_name (cleared_name\<lparr>has_replica := True, pn_replica := 2\<rparr>) False = (t, s)
    \<and> status_ok s \<and> IsSpecification sample_name t"
proof -
  let ?o = "cleared_name\<lparr>has_replica := True, pn_replica := 2\<rparr>"
  obtain t s where m: "MergeDevNames sample_name ?o False = (t, s)" by fastforce
  have "compatible sample_name ?o" by (simp add: compatible_def sample_name_def cleared_name_def)
  then have "\<exists>c. IsSpecification sample_name c \<and> IsSpecification ?o c" by (simp only: compatible_iff)
  then show ?thesis using merge_least_upper_bound [OF m] m by blast
qed

text \<open>
  \<open>AreCompatibleDevNames\<close> is not what its comment says. It implies that some complete
  name specifies both, but it is false for two names that constrain different components.
\<close>

theorem compatibility_too_strict:
  "(AreCompatibleDevNames a b \<longrightarrow> (\<exists>c. IsSpecification a c \<and> IsSpecification b c))
    \<and> (\<exists>x y c. fully_specified c \<and> IsSpecification x c \<and> IsSpecification y c \<and> \<not> AreCompatibleDevNames x y)"
proof -
  let ?x = "cleared_name\<lparr>has_job := True, pn_job := ''worker''\<rparr>"
  let ?y = "cleared_name\<lparr>has_task := True, pn_task := 1\<rparr>"
  let ?c = "\<lparr>has_job = True, pn_job = ''worker'', has_replica = True, pn_replica = 0, has_task = True,
     pn_task = 1, has_type = True, pn_type = ''CPU'', has_id = True, pn_id = 0\<rparr>"
  have "fully_specified ?c \<and> IsSpecification ?x ?c \<and> IsSpecification ?y ?c \<and> \<not> AreCompatibleDevNames ?x ?y"
    by (simp add: fully_specified_def IsSpecification_fields AreCompatibleDevNames_def cleared_name_def)
  moreover have "IsSpecification z z" for z by (simp add: IsSpecification_fields)
  ultimately show ?thesis unfolding AreCompatibleDevNames_def by blast
qed

theorem compatibility_too_strict_witness:
  "\<exists>c. IsSpecification cleared_name c \<and> IsSpecification sample_name c"
proof -
  have "AreCompatibleDevNames cleared_name sample_name"
    by (simp add: AreCompatibleDevNames_def IsSpecification_fields cleared_name_def)
  then show ?thesis using compatibility_too_strict by blast
qed

end
