(* ===== verification/Sharding.thy ===== *)
theory Sharding
  imports Prelude "HOL-Library.Signed_Division"
begin

text \<open>
  Sharding of a range of work over a thread pool: \<open>BlockingCounter\<close>
  (core/platform/blocking_counter.h), \<open>ThreadPool::ParallelFor\<close> with its two strategies
  (core/platform/threadpool.cc) and \<open>Shard\<close>, \<open>Sharder::Do\<close> (core/util/work_sharder.cc).

  The Eigen thread pool is not part of the repository: what it runs in parallel is any
  interleaving of the scheduled closures, and \<open>Eigen::ThreadPoolDevice::parallelFor\<close> is the
  parameter \<open>eigen_for\<close>, the list of ranges it calls the function on. An \<open>int64\<close> is an
  \<open>int\<close>: an operation that can overflow goes through \<open>i64\<close>, and its \<open>None\<close> is the
  undefined behaviour of C++; a failing \<open>CHECK\<close> is \<open>None\<close> too. A conversion to \<open>int\<close>
  keeps the low 32 bits.
\<close>

definition i64 :: "int \<Rightarrow> int option" where
  "i64 x = (if - (2 ^ 63) \<le> x \<and> x < 2 ^ 63 then Some x else None)"

definition to_int32 :: "int \<Rightarrow> int" where
  "to_int32 x = signed_take_bit 31 x"

section \<open>The blocking counter\<close>

text \<open>
  \<open>state_\<close> holds twice the count, and the waiter's flag in its low bit. The value of
  \<open>DecrementCount\<close> is \<open>True\<close> when the call goes on to take the lock and notify, which is
  \<open>bc_notify\<close>; the value of \<open>bc_wait\<close>, the first step of \<open>Wait\<close>, is \<open>True\<close> when the
  call returns at once and \<open>False\<close> when it waits for \<open>notified_\<close>.
\<close>

record blocking_counter =
  bc_state :: "32 word"
  bc_notified :: bool

definition new_counter :: "int \<Rightarrow> blocking_counter option" where
  "new_counter initial_count =
     (if 0 \<le> initial_count
      then Some \<lparr>bc_state = push_bit 1 (word_of_int initial_count), bc_notified = False\<rparr> else None)"

definition DecrementCount :: "blocking_counter \<Rightarrow> blocking_counter \<times> bool" where
  "DecrementCount c = (let v = bc_state c - 2 in (c\<lparr>bc_state := v\<rparr>, v = 1))"

definition bc_notify :: "blocking_counter \<Rightarrow> blocking_counter" where
  "bc_notify c = c\<lparr>bc_notified := True\<rparr>"

definition bc_wait :: "blocking_counter \<Rightarrow> blocking_counter \<times> bool" where
  "bc_wait c = (c\<lparr>bc_state := or (bc_state c) 1\<rparr>, drop_bit 1 (bc_state c) = 0)"

text \<open>\<open>WaitFor\<close>: \<open>in_time\<close> says whether \<open>notified_\<close> was seen set before the timeout.\<close>

definition bc_wait_for :: "blocking_counter \<Rightarrow> bool \<Rightarrow> blocking_counter \<times> bool" where
  "bc_wait_for c in_time = (let (c', returns) = bc_wait c in (c', returns \<or> in_time))"

section \<open>Blocks of a fixed size\<close>

definition NumShardsUsedByFixedBlockSizeScheduling :: "int \<Rightarrow> int \<Rightarrow> int \<Rightarrow> int option" where
  "NumShardsUsedByFixedBlockSizeScheduling num_threads units block_size =
     (if block_size \<le> 0 \<or> units \<le> 1 \<or> units \<le> block_size \<or> num_threads = 1 then Some 1
      else Option.bind (i64 (units + block_size))
             (\<lambda>s. Some (to_int32 ((s - 1) div block_size))))"

definition NumShardsUsedByTransformRangeConcurrently :: "int \<Rightarrow> int \<Rightarrow> int \<Rightarrow> int option" where
  "NumShardsUsedByTransformRangeConcurrently num_threads block_size units =
     NumShardsUsedByFixedBlockSizeScheduling num_threads units block_size"

text \<open>
  The closure \<open>handle_range\<close>. A worker is between two accesses to shared state: with a
  range still to split or to run, with the function done and the counter to decrement, or
  about to notify the waiter. One step gives what is left of the worker, the closure it
  schedules, the counter, and the range the function was called on.
\<close>

datatype worker = Range int int | Ran | Notifying

definition split_mid :: "int \<Rightarrow> int \<Rightarrow> int \<Rightarrow> int" where
  "split_mid block_size start limit =
     start + (((limit - start) div 2 + block_size) - 1) div block_size * block_size"

fun handle_range ::
  "int \<Rightarrow> worker \<Rightarrow> blocking_counter
     \<Rightarrow> worker option \<times> worker option \<times> blocking_counter \<times> (int \<times> int) option" where
  "handle_range block_size (Range start limit) c =
     (if limit - start > block_size
      then let mid = split_mid block_size start limit
           in (Some (Range start mid), Some (Range mid limit), c, None)
      else (Some Ran, None, c, Some (start, limit)))"
| "handle_range block_size Ran c =
     (let (c1, notify) = DecrementCount c in (if notify then Some Notifying else None, None, c1, None))"
| "handle_range block_size Notifying c = (None, None, bc_notify c, None)"

text \<open>
  The calling thread: it may run the root of the tree itself, then it waits for the counter.
  \<open>shard_state\<close> adds the closures of the pool, started or not, and the calls of the
  function so far.
\<close>

datatype caller = Working worker | Waiting | Blocked | Returned

record shard_state =
  ss_caller :: caller
  ss_workers :: "worker list"
  ss_counter :: blocking_counter
  ss_calls :: "(int \<times> int) list"

definition worker_list :: "worker option \<Rightarrow> worker list" where
  "worker_list w = (case w of None \<Rightarrow> [] | Some x \<Rightarrow> [x])"

definition call_list :: "(int \<times> int) option \<Rightarrow> (int \<times> int) list" where
  "call_list r = (case r of None \<Rightarrow> [] | Some x \<Rightarrow> [x])"

definition pool_step :: "int \<Rightarrow> nat \<Rightarrow> shard_state \<Rightarrow> shard_state option" where
  "pool_step block_size i s =
     (if i < length (ss_workers s)
      then let (w, spawned, c, call) = handle_range block_size (ss_workers s ! i) (ss_counter s)
           in Some (s\<lparr>ss_workers := take i (ss_workers s) @ worker_list w @ drop (Suc i) (ss_workers s)
                                     @ worker_list spawned,
                      ss_counter := c, ss_calls := ss_calls s @ call_list call\<rparr>)
      else None)"

definition caller_step :: "int \<Rightarrow> shard_state \<Rightarrow> shard_state option" where
  "caller_step block_size s =
     (case ss_caller s of
        Working w \<Rightarrow>
          (let (w', spawned, c, call) = handle_range block_size w (ss_counter s)
           in Some (s\<lparr>ss_caller := (case w' of None \<Rightarrow> Waiting | Some x \<Rightarrow> Working x),
                      ss_workers := ss_workers s @ worker_list spawned,
                      ss_counter := c, ss_calls := ss_calls s @ call_list call\<rparr>))
      | Waiting \<Rightarrow>
          (let (c, returns) = bc_wait (ss_counter s)
           in Some (s\<lparr>ss_caller := (if returns then Returned else Blocked), ss_counter := c\<rparr>))
      | Blocked \<Rightarrow> if bc_notified (ss_counter s) then Some (s\<lparr>ss_caller := Returned\<rparr>) else None
      | Returned \<Rightarrow> None)"

inductive shard_step :: "int \<Rightarrow> shard_state \<Rightarrow> shard_state \<Rightarrow> bool" for block_size where
  by_pool: "pool_step block_size i s = Some t \<Longrightarrow> shard_step block_size s t"
| by_caller: "caller_step block_size s = Some t \<Longrightarrow> shard_step block_size s t"

definition ParallelForFixedBlockSizeScheduling :: "int \<Rightarrow> int \<Rightarrow> int \<Rightarrow> shard_state option" where
  "ParallelForFixedBlockSizeScheduling num_threads units block_size =
     Option.bind (NumShardsUsedByFixedBlockSizeScheduling num_threads units block_size)
       (\<lambda>num_shards_used.
         if num_shards_used = 1
         then Some \<lparr>ss_caller = Returned, ss_workers = [],
                ss_counter = \<lparr>bc_state = 0, bc_notified = False\<rparr>, ss_calls = [(0, units)]\<rparr>
         else Option.bind (new_counter num_shards_used)
           (\<lambda>counter. Some
             (if num_shards_used \<le> num_threads
              then \<lparr>ss_caller = Working (Range 0 units), ss_workers = [], ss_counter = counter, ss_calls = []\<rparr>
              else \<lparr>ss_caller = Waiting, ss_workers = [Range 0 units], ss_counter = counter, ss_calls = []\<rparr>)))"

section \<open>Scheduling strategies\<close>

text \<open>
  What a call of \<open>ParallelFor\<close> does: nothing, the calls Eigen makes, or the fixed-size
  blocks, whose runs are the runs of \<open>shard_step\<close>.
\<close>

datatype scheduling_strategy = kAdaptive | kFixedBlockSize

record scheduling_params =
  strategy :: scheduling_strategy
  cost_per_unit :: "int option"
  block_size_param :: "int option"

datatype parallel_plan = No_Work | Eigen_Calls "(int \<times> int) list" | Fixed_Blocks shard_state

definition ParallelFor_cost ::
  "(int \<Rightarrow> int \<Rightarrow> (int \<times> int) list) \<Rightarrow> int \<Rightarrow> int \<Rightarrow> parallel_plan option" where
  "ParallelFor_cost eigen_for units cost = (if 0 \<le> units then Some (Eigen_Calls (eigen_for units cost)) else None)"

definition ParallelFor ::
  "(int \<Rightarrow> int \<Rightarrow> (int \<times> int) list) \<Rightarrow> int \<Rightarrow> int \<Rightarrow> scheduling_params \<Rightarrow> parallel_plan option" where
  "ParallelFor eigen_for num_threads units params =
     (case strategy params of
        kAdaptive \<Rightarrow>
          (case cost_per_unit params of
             Some cost \<Rightarrow> ParallelFor_cost eigen_for units cost
           | None \<Rightarrow> Some No_Work)
      | kFixedBlockSize \<Rightarrow>
          (case block_size_param params of
             Some block_size \<Rightarrow>
               map_option Fixed_Blocks (ParallelForFixedBlockSizeScheduling num_threads units block_size)
           | None \<Rightarrow> Some No_Work))"

definition TransformRangeConcurrently ::
  "(int \<Rightarrow> int \<Rightarrow> (int \<times> int) list) \<Rightarrow> int \<Rightarrow> int \<Rightarrow> int \<Rightarrow> parallel_plan option" where
  "TransformRangeConcurrently eigen_for num_threads block_size units =
     ParallelFor eigen_for num_threads units
       \<lparr>strategy = kFixedBlockSize, cost_per_unit = None, block_size_param = Some block_size\<rparr>"

text \<open>\<open>ParallelForWithWorkerId\<close> passes \<open>CurrentThreadId() + 1\<close>, which is 0 outside the pool.\<close>

definition worker_id :: "int \<Rightarrow> int" where
  "worker_id current_thread_id = current_thread_id + 1"

section \<open>Sharding by cost\<close>

text \<open>\<open>per_thread_max_parallelism\<close> is a thread-local variable, 1000000 at first.\<close>

definition initial_max_parallelism :: int where
  "initial_max_parallelism = 1000000"

definition SetPerThreadMaxParallelism :: "int \<Rightarrow> int \<Rightarrow> int option" where
  "SetPerThreadMaxParallelism max_parallelism per_thread =
     (if 0 \<le> max_parallelism then Some max_parallelism else None)"

definition kMinCostPerShard :: int where
  "kMinCostPerShard = 10000"

text \<open>
  The loop that dispatches the shards after the first. \<open>CHECK_GT(block_size, 0)\<close> has run
  before it; the guard on the block size only makes the recursion total.
\<close>

function dispatch_loop :: "int \<Rightarrow> int \<Rightarrow> int \<Rightarrow> (int \<times> int) list" where
  "dispatch_loop block_size units start =
     (if start < units \<and> 0 < block_size
      then (start, min (start + block_size) units) # dispatch_loop block_size units (start + block_size)
      else [])"
  by pat_completeness auto
termination
  by (relation "measure (\<lambda>(b, u, s). nat (u - s))") auto

declare dispatch_loop.simps [simp del]

text \<open>
  \<open>Sharder::Do\<close>: the ranges given to the runner, in order, the range the calling thread runs
  itself, and the initial count of the counter the caller then waits for.
\<close>

record shard_plan =
  sp_scheduled :: "(int \<times> int) list"
  sp_inline :: "int \<times> int"
  sp_count :: int

definition Sharder_Do :: "int \<Rightarrow> int \<Rightarrow> int \<Rightarrow> shard_plan option" where
  "Sharder_Do units cost0 max_parallelism =
     (let cost = max 1 cost0 in
      Option.bind (i64 (units * cost)) (\<lambda>units_cost.
        let num_shards = max 1 (to_int32 (min max_parallelism (units_cost sdiv kMinCostPerShard))) in
        Option.bind (i64 (units + num_shards)) (\<lambda>s.
          let block_size = (s - 1) sdiv num_shards in
          if block_size \<le> 0 then None
          else if block_size \<ge> units then Some \<lparr>sp_scheduled = [], sp_inline = (0, units), sp_count = 0\<rparr>
          else Option.bind (i64 (units + block_size)) (\<lambda>s2.
            let num_shards_used = to_int32 ((s2 - 1) sdiv block_size) in
            Option.bind (new_counter (num_shards_used - 1)) (\<lambda>counter.
              Some \<lparr>sp_scheduled = dispatch_loop block_size units block_size,
                    sp_inline = (0, min block_size units), sp_count = num_shards_used - 1\<rparr>)))))"

text \<open>\<open>Shard\<close>: nothing, one call inline, Eigen's calls, or the plan of \<open>Sharder::Do\<close>.\<close>

datatype shard_work = Nothing | Inline "int \<times> int" | Delegated "(int \<times> int) list" | Planned shard_plan

definition Shard ::
  "(int \<Rightarrow> int \<Rightarrow> (int \<times> int) list) \<Rightarrow> int \<Rightarrow> int \<Rightarrow> int \<Rightarrow> int \<Rightarrow> int \<Rightarrow> shard_work option" where
  "Shard eigen_for num_threads per_thread max_parallelism0 units cost =
     (if units < 0 then None
      else if units = 0 then Some Nothing
      else let max_parallelism = min max_parallelism0 per_thread in
        if max_parallelism \<le> 1 then Some (Inline (0, units))
        else if max_parallelism \<ge> num_threads then Some (Delegated (eigen_for units cost))
        else map_option Planned (Sharder_Do units cost max_parallelism))"

end
