(* ===== verification/Sharding_Props.thy ===== *)
theory Sharding_Props
  imports Sharding
begin

text \<open>
  What sharding promises: in every interleaving of the closures the function is called on
  blocks that partition the range, the caller returns when the last one is done and not
  before, and nothing runs on; the ranges \<open>Sharder::Do\<close> computes partition the range too.
\<close>

section \<open>Arithmetic of blocks\<close>

definition shards :: "int \<Rightarrow> int \<Rightarrow> int \<Rightarrow> int" where
  "shards b x y = (y - x + b - 1) div b"

lemma shards_pos: "0 < b \<Longrightarrow> x < y \<Longrightarrow> 0 < shards b x y"
  unfolding shards_def by (simp add: pos_imp_zdiv_pos_iff)

lemma shards_one: "0 < b \<Longrightarrow> x < y \<Longrightarrow> y - x \<le> b \<Longrightarrow> shards b x y = 1"
  unfolding shards_def by (rule int_div_pos_eq [where r = "y - x - 1"]) auto

lemma shards_add: "0 < b \<Longrightarrow> b dvd m - x \<Longrightarrow> shards b x m + shards b m y = shards b x y"
proof -
  assume b: "0 < b" and "b dvd m - x"
  then obtain q where q: "m - x = b * q" by (auto elim: dvdE)
  have "y - x + b - 1 = (y - m + b - 1) + b * q" using q by simp
  moreover have "((y - m + b - 1) + b * q) div b = (y - m + b - 1) div b + q" using b by simp
  ultimately have "shards b x y = shards b m y + q" by (simp only: shards_def)
  moreover have "shards b x m = q"
    unfolding shards_def by (rule int_div_pos_eq [where r = "b - 1"]) (use b q in auto)
  ultimately show ?thesis by simp
qed

lemma split_mid_props:
  assumes b: "0 < b" and d: "b < y - x"
  shows "b dvd split_mid b x y - x" "x < split_mid b x y" "split_mid b x y < y"
proof -
  let ?h = "(y - x) div 2"
  let ?q = "(?h + b - 1) div b"
  have m: "split_mid b x y = x + ?q * b" by (simp add: split_mid_def algebra_simps)
  then show "b dvd split_mid b x y - x" by simp
  have h: "1 \<le> ?h" "2 * ?h \<le> y - x" using b d by auto
  have lo: "?h \<le> ?q * b" and hi: "?q * b \<le> ?h + b - 1"
  proof -
    have "?h + b - 1 = ?q * b + (?h + b - 1) mod b" by simp
    moreover have "0 \<le> (?h + b - 1) mod b" "(?h + b - 1) mod b < b" using b by auto
    ultimately show "?h \<le> ?q * b" "?q * b \<le> ?h + b - 1" by linarith+
  qed
  show "x < split_mid b x y" using m lo h by linarith
  show "split_mid b x y < y"
  proof (cases "?q \<le> 1")
    case True
    then have "?q * b \<le> b" using b by (simp add: mult_le_cancel_right1)
    then show ?thesis using m d by linarith
  next
    case False
    then have "2 * b \<le> ?q * b" using b by simp
    then show ?thesis using m hi h by linarith
  qed
qed

section \<open>The work\<close>

fun worker_shards :: "int \<Rightarrow> worker \<Rightarrow> int" where
  "worker_shards b (Range x y) = shards b x y"
| "worker_shards b _ = 0"

definition within :: "int \<Rightarrow> int \<times> int \<Rightarrow> nat" where
  "within i r = (if fst r \<le> i \<and> i < snd r then 1 else 0)"

fun worker_hits :: "int \<Rightarrow> worker \<Rightarrow> nat" where
  "worker_hits i (Range x y) = within i (x, y)"
| "worker_hits i _ = 0"

definition good_range :: "int \<Rightarrow> int \<Rightarrow> int \<times> int \<Rightarrow> bool" where
  "good_range b n r = (0 \<le> fst r \<and> fst r < snd r \<and> snd r \<le> n \<and> b dvd fst r)"

fun good_worker :: "int \<Rightarrow> int \<Rightarrow> worker \<Rightarrow> bool" where
  "good_worker b n (Range x y) = good_range b n (x, y)"
| "good_worker b n _ = True"

definition work_inv :: "int \<Rightarrow> int \<Rightarrow> (int \<times> int) list \<Rightarrow> worker multiset \<Rightarrow> bool" where
  "work_inv b n calls W = ((\<forall>w\<in>#W. good_worker b n w)
     \<and> (\<forall>r\<in>set calls. good_range b n r \<and> snd r - fst r \<le> b)
     \<and> (\<forall>i. 0 \<le> i \<and> i < n \<longrightarrow> sum_list (map (within i) calls) + (\<Sum>w\<in>#W. worker_hits i w) = 1)
     \<and> int (length calls) + (\<Sum>w\<in>#W. worker_shards b w) = shards b 0 n)"

abbreviation after :: "worker option \<Rightarrow> worker option \<Rightarrow> worker multiset" where
  "after w spawned \<equiv> mset (worker_list w) + mset (worker_list spawned)"

lemma work_step:
  assumes b: "0 < b" and inv: "work_inv b n calls (add_mset w M)"
    and h: "handle_range b w c = (w', spawned, c', call)"
  shows "work_inv b n (calls @ call_list call) (M + after w' spawned)"
proof (cases w)
  case (Range x y)
  have g: "good_range b n (x, y)" using inv Range by (simp add: work_inv_def)
  show ?thesis
  proof (cases "b < y - x")
    case True
    define m where "m = split_mid b x y"
    have e: "w' = Some (Range x m)" "spawned = Some (Range m y)" "call = None"
      using h True Range by (auto simp: m_def Let_def)
    note sp = split_mid_props [OF b True, folded m_def]
    have sh: "shards b x y = shards b x m + shards b m y" using shards_add [OF b sp(1), of y] by simp
    have hit: "within i (x, y) = within i (x, m) + within i (m, y)" for i
      using sp(2,3) by (auto simp: within_def)
    have "b dvd m" using sp(1) g by (metis diff_add_cancel dvd_add good_range_def fst_conv)
    then have "good_range b n (x, m) \<and> good_range b n (m, y)" using g sp by (auto simp: good_range_def)
    then show ?thesis using inv Range
      by (simp add: work_inv_def e worker_list_def call_list_def sh hit algebra_simps)
  next
    case False
    then have e: "w' = Some Ran" "spawned = None" "call = Some (x, y)" using h Range by auto
    have "shards b x y = 1" using shards_one [OF b] g False by (auto simp: good_range_def)
    then show ?thesis using inv Range g False
      by (simp add: work_inv_def e worker_list_def call_list_def algebra_simps)
  qed
next
  case Ran
  then have "call = None" "spawned = None" "w' = Some Notifying \<or> w' = None"
    using h by (auto simp: Let_def split: prod.splits if_splits)
  then show ?thesis using inv Ran by (auto simp: work_inv_def worker_list_def call_list_def)
next
  case Notifying
  then show ?thesis using inv h by (auto simp: work_inv_def worker_list_def call_list_def)
qed

section \<open>The counter\<close>

fun worker_owes :: "int \<Rightarrow> worker \<Rightarrow> int" where
  "worker_owes b (Range x y) = shards b x y"
| "worker_owes b Ran = 1"
| "worker_owes b Notifying = 0"

definition owed :: "int \<Rightarrow> worker multiset \<Rightarrow> int" where
  "owed b W = (\<Sum>w\<in>#W. worker_owes b w)"

lemma owed_simps [simp]:
  "owed b {#} = 0" "owed b (add_mset w W) = worker_owes b w + owed b W" "owed b (V + W) = owed b V + owed b W"
  by (simp_all add: owed_def)

lemma worker_owes_nonneg:
  assumes "0 < b" "good_worker b n w"
  shows "0 \<le> worker_owes b w"
proof (cases w)
  case (Range x y)
  then show ?thesis using assms shards_pos [of b x y] by (simp add: good_range_def)
qed simp_all

lemma owed_nonneg: "0 < b \<Longrightarrow> \<forall>w\<in>#W. good_worker b n w \<Longrightarrow> 0 \<le> owed b W"
  by (induction W) (auto simp: worker_owes_nonneg intro!: add_nonneg_nonneg)

text \<open>
  \<open>held c k f\<close>: the counter stands at k, with the waiter's flag when f. A decrement takes
  one off and reports zero exactly when the waiter is waiting.
\<close>

definition held :: "blocking_counter \<Rightarrow> int \<Rightarrow> bool \<Rightarrow> bool" where
  "held c k f = (0 \<le> k \<and> k < 2 ^ 30 \<and> uint (bc_state c) = 2 * k + (if f then 1 else 0))"

lemma held_decrement:
  assumes "held c k f" "0 < k" "DecrementCount c = (c', notify)"
  shows "held c' (k - 1) f" "notify \<longleftrightarrow> f \<and> k = 1" "bc_notified c' = bc_notified c"
proof -
  have c': "c' = c\<lparr>bc_state := bc_state c - 2\<rparr>" "notify = (bc_state c - 2 = 1)"
    using assms(3) by (auto simp: DecrementCount_def Let_def)
  have u: "uint (bc_state c - 2) = 2 * (k - 1) + (if f then 1 else 0)"
  proof -
    have "uint (bc_state c - 2) = uint (bc_state c) - 2"
      using assms(1,2) by (simp add: held_def uint_sub_lem [THEN iffD1])
    then show ?thesis using assms(1) by (simp add: held_def)
  qed
  then show "held c' (k - 1) f" using assms(1,2) c' by (simp add: held_def)
  have "bc_state c - 2 = 1 \<longleftrightarrow> uint (bc_state c - 2) = 1" by (metis uint_1 word_uint_eqI)
  also have "\<dots> \<longleftrightarrow> f \<and> k = 1" unfolding u by (cases f) (auto, presburger)
  finally show "notify \<longleftrightarrow> f \<and> k = 1" using c' by simp
  show "bc_notified c' = bc_notified c" using c' by simp
qed

lemma held_wait:
  assumes "held c k False" "bc_wait c = (c', returns)"
  shows "held c' k True" "returns \<longleftrightarrow> k = 0" "bc_notified c' = bc_notified c"
proof -
  have c': "c' = c\<lparr>bc_state := or (bc_state c) 1\<rparr>" "returns = (drop_bit 1 (bc_state c) = 0)"
    using assms(2) by (auto simp: bc_wait_def)
  have u: "uint (bc_state c) = 2 * k" using assms(1) by (simp add: held_def)
  have "uint (or (bc_state c) 1) = or (uint (bc_state c)) 1" by (simp add: unsigned_or_eq)
  also have "\<dots> = 2 * k + 1" using u by (simp add: or_one_eq)
  finally show "held c' k True" using assms(1) c' by (simp add: held_def)
  have "drop_bit 1 (bc_state c) = 0 \<longleftrightarrow> uint (drop_bit 1 (bc_state c)) = 0" by (metis uint_0_iff)
  also have "uint (drop_bit 1 (bc_state c)) = k" using u by (simp add: uint_div drop_bit_Suc)
  finally show "returns \<longleftrightarrow> k = 0" using c' by simp
  show "bc_notified c' = bc_notified c" using c' by simp
qed

lemma held_new:
  assumes "new_counter k = Some c" "k < 2 ^ 30"
  shows "held c k False \<and> \<not> bc_notified c"
proof -
  have k: "0 \<le> k" and c: "c = \<lparr>bc_state = push_bit 1 (word_of_int k), bc_notified = False\<rparr>"
    using assms(1) by (auto simp: new_counter_def split: if_splits)
  have "push_bit 1 (word_of_int k) = (word_of_int (2 * k) :: 32 word)" by simp
  moreover have "uint (word_of_int (2 * k) :: 32 word) = 2 * k"
    using k assms(2) by (subst uint_word_of_int) simp
  ultimately have "uint (push_bit 1 (word_of_int k) :: 32 word) = 2 * k" by (simp only:)
  then show ?thesis using c k assms(2) by (simp add: held_def)
qed

section \<open>The protocol between the workers and the caller\<close>

datatype phase = Before | During | After

fun phase_of :: "caller \<Rightarrow> phase" where
  "phase_of (Working w) = Before"
| "phase_of Waiting = Before"
| "phase_of Blocked = During"
| "phase_of Returned = After"

fun caller_workers :: "caller \<Rightarrow> worker multiset" where
  "caller_workers (Working w) = {#w#}"
| "caller_workers _ = {#}"

definition all_workers :: "shard_state \<Rightarrow> worker multiset" where
  "all_workers s = mset (ss_workers s) + caller_workers (ss_caller s)"

definition protocol :: "int \<Rightarrow> phase \<Rightarrow> worker multiset \<Rightarrow> blocking_counter \<Rightarrow> bool" where
  "protocol b ph W c =
     (held c (owed b W) (ph \<noteq> Before)
      \<and> (case ph of
           Before \<Rightarrow> count W Notifying = 0 \<and> \<not> bc_notified c
         | During \<Rightarrow> (if owed b W = 0 then count W Notifying = (if bc_notified c then 0 else 1)
                     else count W Notifying = 0 \<and> \<not> bc_notified c)
         | After \<Rightarrow> owed b W = 0 \<and> count W Notifying = 0))"

lemma protocol_cong:
  assumes "owed b V = owed b W" "count V Notifying = count W Notifying"
  shows "protocol b ph V c = protocol b ph W c"
  unfolding protocol_def assms ..

lemma protocol_step:
  assumes b: "0 < b" and good: "\<forall>x\<in>#add_mset w M. good_worker b n x"
    and p: "protocol b ph (add_mset w M) c"
    and h: "handle_range b w c = (w', spawned, c', call)"
  shows "protocol b ph (M + after w' spawned) c'"
proof (cases w)
  case (Range x y)
  have g: "good_range b n (x, y)" using good Range by simp
  show ?thesis
  proof (cases "b < y - x")
    case True
    define m where "m = split_mid b x y"
    have e: "w' = Some (Range x m)" "spawned = Some (Range m y)" "c' = c"
      using h True Range by (auto simp: m_def Let_def)
    have sh: "shards b x y = shards b x m + shards b m y"
      using shards_add [OF b split_mid_props(1) [OF b True], folded m_def, of y] by simp
    have "owed b (M + after w' spawned) = owed b (add_mset w M)"
      "count (M + after w' spawned) Notifying = count (add_mset w M) Notifying"
      using Range by (simp_all add: e worker_list_def sh)
    then show ?thesis using p protocol_cong [of b "M + after w' spawned" "add_mset w M"] e(3) by blast
  next
    case False
    then have e: "w' = Some Ran" "spawned = None" "c' = c" using h Range by auto
    have "shards b x y = 1" using shards_one [OF b] g False by (auto simp: good_range_def)
    then have "owed b (M + after w' spawned) = owed b (add_mset w M)"
      "count (M + after w' spawned) Notifying = count (add_mset w M) Notifying"
      using Range by (simp_all add: e worker_list_def)
    then show ?thesis using p protocol_cong [of b "M + after w' spawned" "add_mset w M"] e(3) by blast
  qed
next
  case Ran
  obtain d notify where d: "DecrementCount c = (d, notify)" by fastforce
  have e: "w' = (if notify then Some Notifying else None)" "spawned = None" "c' = d"
    using h Ran d by auto
  have k: "owed b (add_mset w M) = owed b M + 1" using Ran by simp
  have pos: "0 < owed b (add_mset w M)" using owed_nonneg [OF b, of M n] good k by simp
  have hd: "held c (owed b (add_mset w M)) (ph \<noteq> Before)" using p by (simp add: protocol_def)
  have "held d (owed b M) (ph \<noteq> Before)" "notify \<longleftrightarrow> ph \<noteq> Before \<and> owed b M = 0"
    "bc_notified d = bc_notified c"
    using held_decrement [OF hd pos d] k by simp_all
  then show ?thesis using p Ran pos owed_nonneg [OF b, of M n] good
    by (cases ph) (auto simp: protocol_def e worker_list_def)
next
  case Notifying
  then have e: "w' = None" "spawned = None" "c' = bc_notify c" using h by auto
  show ?thesis using p Notifying
    by (cases ph) (auto simp: protocol_def e worker_list_def bc_notify_def held_def split: if_splits)
qed

definition shard_inv :: "int \<Rightarrow> int \<Rightarrow> shard_state \<Rightarrow> bool" where
  "shard_inv b n s = (work_inv b n (ss_calls s) (all_workers s)
     \<and> protocol b (phase_of (ss_caller s)) (all_workers s) (ss_counter s))"

lemma worker_at:
  assumes "i < length ws"
  shows "mset ws = add_mset (ws ! i) (mset (take i ws) + mset (drop (Suc i) ws))"
proof -
  have "mset ws = mset (take i ws @ ws ! i # drop (Suc i) ws)" using assms by (simp add: id_take_nth_drop [symmetric])
  then show ?thesis by simp
qed

lemma pool_step_inv:
  assumes b: "0 < b" and inv: "shard_inv b n s" and st: "pool_step b i s = Some t"
  shows "shard_inv b n t"
proof -
  have i: "i < length (ss_workers s)" using st by (simp add: pool_step_def split: if_splits)
  obtain w' sp c call where h: "handle_range b (ss_workers s ! i) (ss_counter s) = (w', sp, c, call)"
    by (metis prod.exhaust)
  define M where "M = mset (take i (ss_workers s)) + mset (drop (Suc i) (ss_workers s)) + caller_workers (ss_caller s)"
  have s: "all_workers s = add_mset (ss_workers s ! i) M" using worker_at [OF i] by (simp add: all_workers_def M_def)
  have t: "all_workers t = M + after w' sp" "ss_calls t = ss_calls s @ call_list call"
    "ss_counter t = c" "ss_caller t = ss_caller s"
    using st i h by (auto simp: pool_step_def all_workers_def M_def)
  have wi: "work_inv b n (ss_calls s) (add_mset (ss_workers s ! i) M)"
    and pr: "protocol b (phase_of (ss_caller s)) (add_mset (ss_workers s ! i) M) (ss_counter s)"
    using inv by (simp_all add: shard_inv_def s)
  have "\<forall>x\<in>#add_mset (ss_workers s ! i) M. good_worker b n x" using wi unfolding work_inv_def by blast
  then show ?thesis unfolding shard_inv_def t using work_step [OF b wi h] protocol_step [OF b _ pr h] by simp
qed

lemma caller_work_inv:
  assumes b: "0 < b" and inv: "shard_inv b n s" and c: "ss_caller s = Working w"
    and st: "caller_step b s = Some t"
  shows "shard_inv b n t"
proof -
  obtain w' sp d call where h: "handle_range b w (ss_counter s) = (w', sp, d, call)"
    by (metis prod.exhaust)
  let ?M = "mset (ss_workers s)"
  have s: "all_workers s = add_mset w ?M" using c by (simp add: all_workers_def)
  have t: "all_workers t = ?M + after w' sp" "ss_calls t = ss_calls s @ call_list call"
    "ss_counter t = d" "phase_of (ss_caller t) = Before"
    using st h c by (cases w'; auto simp: caller_step_def all_workers_def worker_list_def)+
  have wi: "work_inv b n (ss_calls s) (add_mset w ?M)"
    and pr: "protocol b Before (add_mset w ?M) (ss_counter s)"
    using inv c by (simp_all add: shard_inv_def s)
  have "\<forall>x\<in>#add_mset w ?M. good_worker b n x" using wi unfolding work_inv_def by blast
  then show ?thesis unfolding shard_inv_def t using work_step [OF b wi h] protocol_step [OF b _ pr h] by simp
qed

lemma caller_wait_inv:
  assumes b: "0 < b" and inv: "shard_inv b n s" and c: "ss_caller s = Waiting"
    and st: "caller_step b s = Some t"
  shows "shard_inv b n t"
proof -
  obtain d returns where d: "bc_wait (ss_counter s) = (d, returns)" by fastforce
  have t: "t = s\<lparr>ss_caller := (if returns then Returned else Blocked), ss_counter := d\<rparr>"
    using st c d by (simp add: caller_step_def)
  then have w: "all_workers t = all_workers s" using c by (simp add: all_workers_def)
  have pr: "protocol b Before (all_workers s) (ss_counter s)" using inv c by (simp add: shard_inv_def)
  then have h: "held (ss_counter s) (owed b (all_workers s)) False" by (simp add: protocol_def)
  have "protocol b (phase_of (ss_caller t)) (all_workers s) d"
    using held_wait [OF h d] pr by (auto simp: protocol_def t)
  then show ?thesis using inv w by (simp add: shard_inv_def t)
qed

lemma caller_blocked_inv:
  assumes inv: "shard_inv b n s" and c: "ss_caller s = Blocked" and st: "caller_step b s = Some t"
  shows "shard_inv b n t"
proof -
  have nt: "bc_notified (ss_counter s)" and t: "t = s\<lparr>ss_caller := Returned\<rparr>"
    using st c by (auto simp: caller_step_def split: if_splits)
  then have w: "all_workers t = all_workers s" using c by (simp add: all_workers_def)
  have "protocol b After (all_workers s) (ss_counter s)"
    using inv c nt by (auto simp: shard_inv_def protocol_def split: if_splits)
  then show ?thesis using inv w by (simp add: shard_inv_def t)
qed

lemma shard_step_inv:
  assumes b: "0 < b" and inv: "shard_inv b n s" and st: "shard_step b s t"
  shows "shard_inv b n t"
  using st
proof cases
  case (by_pool i)
  then show ?thesis using pool_step_inv [OF b inv] by simp
next
  case by_caller
  then show ?thesis
    using caller_work_inv [OF b inv] caller_wait_inv [OF b inv] caller_blocked_inv [OF inv]
    by (cases "ss_caller s") (auto simp: caller_step_def)
qed

definition fixed_blocks_ok :: "int \<Rightarrow> int \<Rightarrow> int \<Rightarrow> bool" where
  "fixed_blocks_ok num_threads n b =
     (0 < num_threads \<and> 0 < b \<and> 0 < n \<and> n + b < 2 ^ 63 \<and> shards b 0 n < 2 ^ 30)"

lemma to_int32_small: "- (2 ^ 31) \<le> x \<Longrightarrow> x < 2 ^ 31 \<Longrightarrow> to_int32 x = x"
  unfolding to_int32_def by (rule signed_take_bit_int_eq_self) auto

lemma num_shards_exact:
  assumes "fixed_blocks_ok num_threads n b"
  shows "NumShardsUsedByFixedBlockSizeScheduling num_threads n b =
    Some (if num_threads = 1 then 1 else shards b 0 n)"
proof (cases "n \<le> b \<or> num_threads = 1")
  case True
  then show ?thesis using assms shards_one [of b 0 n]
    by (auto simp: NumShardsUsedByFixedBlockSizeScheduling_def fixed_blocks_ok_def)
next
  case False
  have "0 < shards b 0 n" using assms shards_pos [of b 0 n] by (simp add: fixed_blocks_ok_def)
  then have "to_int32 (shards b 0 n) = shards b 0 n"
    using assms by (intro to_int32_small) (auto simp: fixed_blocks_ok_def)
  then show ?thesis using False assms
    by (auto simp: NumShardsUsedByFixedBlockSizeScheduling_def fixed_blocks_ok_def i64_def shards_def)
qed

definition inline_run :: "int \<Rightarrow> shard_state \<Rightarrow> bool" where
  "inline_run n s = (ss_caller s = Returned \<and> ss_workers s = [] \<and> ss_calls s = [(0, n)])"

lemma start_inv:
  assumes ok: "fixed_blocks_ok num_threads n b"
    and s: "ParallelForFixedBlockSizeScheduling num_threads n b = Some s"
  shows "if num_threads = 1 \<or> shards b 0 n = 1 then inline_run n s else shard_inv b n s"
proof (cases "num_threads = 1 \<or> shards b 0 n = 1")
  case True
  then have "NumShardsUsedByFixedBlockSizeScheduling num_threads n b = Some 1"
    using num_shards_exact [OF ok] by auto
  then show ?thesis using s True by (auto simp: ParallelForFixedBlockSizeScheduling_def inline_run_def)
next
  case False
  then have "NumShardsUsedByFixedBlockSizeScheduling num_threads n b = Some (shards b 0 n)"
    using num_shards_exact [OF ok] by auto
  with False obtain c where c: "new_counter (shards b 0 n) = Some c" and
    "s = (if shards b 0 n \<le> num_threads
          then \<lparr>ss_caller = Working (Range 0 n), ss_workers = [], ss_counter = c, ss_calls = []\<rparr>
          else \<lparr>ss_caller = Waiting, ss_workers = [Range 0 n], ss_counter = c, ss_calls = []\<rparr>)"
    using s by (auto simp: ParallelForFixedBlockSizeScheduling_def bind_eq_Some_conv)
  then have w: "all_workers s = {#Range 0 n#}" "ss_calls s = []" "ss_counter s = c" "phase_of (ss_caller s) = Before"
    by (auto simp: all_workers_def)
  have "held c (shards b 0 n) False \<and> \<not> bc_notified c"
    using held_new [OF c] ok by (simp add: fixed_blocks_ok_def)
  then have "shard_inv b n s" using ok
    by (auto simp: shard_inv_def work_inv_def protocol_def w good_range_def fixed_blocks_ok_def within_def)
  then show ?thesis using False by simp
qed

lemma start_steps_inv:
  assumes ok: "fixed_blocks_ok num_threads n b"
    and s0: "ParallelForFixedBlockSizeScheduling num_threads n b = Some s0"
    and run: "(shard_step b)\<^sup>*\<^sup>* s0 s"
  shows "if num_threads = 1 \<or> shards b 0 n = 1 then inline_run n s else shard_inv b n s"
  using run
proof (induction rule: rtranclp_induct)
  case base
  then show ?case by (rule start_inv [OF ok s0])
next
  case (step t u)
  have b: "0 < b" using ok by (simp add: fixed_blocks_ok_def)
  have "inline_run n t \<Longrightarrow> inline_run n u" using step.hyps(2)
    by (auto simp: inline_run_def pool_step_def caller_step_def elim!: shard_step.cases)
  moreover have "shard_inv b n t \<Longrightarrow> shard_inv b n u" using shard_step_inv [OF b] step.hyps(2) by blast
  ultimately show ?case using step.IH by (simp split: if_splits)
qed

lemma nothing_owed:
  assumes b: "0 < b"
  shows "\<forall>w\<in>#W. good_worker b n w \<Longrightarrow> owed b W = 0 \<Longrightarrow> count W Notifying = 0 \<Longrightarrow> W = {#}"
proof (induction W)
  case (add w W)
  have "0 \<le> owed b W" using add.prems(1) by (intro owed_nonneg [OF b]) auto
  moreover have "0 < worker_owes b w"
    using add.prems shards_pos [OF b] by (cases w) (auto simp: good_range_def)
  ultimately show ?case using add.prems(2) by simp
qed simp

lemma shard_progress:
  assumes b: "0 < b" and inv: "shard_inv b n s" and c: "ss_caller s \<noteq> Returned"
  shows "\<exists>t. shard_step b s t"
proof (cases "ss_workers s = [] \<and> ss_caller s = Blocked")
  case True
  then have "bc_notified (ss_counter s)"
    using inv by (auto simp: shard_inv_def protocol_def all_workers_def split: if_splits)
  then have "\<exists>t. caller_step b s = Some t" using True by (simp add: caller_step_def)
  then show ?thesis by (blast intro: by_caller)
next
  case False
  have "\<exists>t. pool_step b 0 s = Some t" if "ss_workers s \<noteq> []"
    using that by (auto simp: pool_step_def split: prod.splits)
  moreover have "\<exists>t. caller_step b s = Some t" if "ss_caller s \<noteq> Blocked"
    using that c by (cases "ss_caller s") (auto simp: caller_step_def split: prod.splits)
  ultimately show ?thesis using False by (blast intro: by_pool by_caller)
qed

lemma shard_finished:
  assumes b: "0 < b" and inv: "shard_inv b n s" and c: "ss_caller s = Returned"
  shows "ss_workers s = []" "\<forall>i. 0 \<le> i \<and> i < n \<longrightarrow> sum_list (map (within i) (ss_calls s)) = 1"
    "\<forall>r\<in>set (ss_calls s). good_range b n r \<and> snd r - fst r \<le> b"
    "int (length (ss_calls s)) = shards b 0 n"
proof -
  have good: "\<forall>w\<in>#all_workers s. good_worker b n w" using inv unfolding shard_inv_def work_inv_def by blast
  have "all_workers s = {#}"
    using nothing_owed [OF b good] inv c by (simp add: shard_inv_def protocol_def)
  then show "ss_workers s = []" "\<forall>i. 0 \<le> i \<and> i < n \<longrightarrow> sum_list (map (within i) (ss_calls s)) = 1"
    "\<forall>r\<in>set (ss_calls s). good_range b n r \<and> snd r - fst r \<le> b"
    "int (length (ss_calls s)) = shards b 0 n"
    using inv by (simp_all add: shard_inv_def work_inv_def all_workers_def)
qed

lemma within_filter: "sum_list (map (within i) rs) = length (filter (\<lambda>r. fst r \<le> i \<and> i < snd r) rs)"
  by (induction rs) (auto simp: within_def)

section \<open>Termination\<close>

fun worker_cost :: "int \<Rightarrow> worker \<Rightarrow> nat" where
  "worker_cost b (Range x y) = nat (5 * shards b x y - 1)"
| "worker_cost b Ran = 2"
| "worker_cost b Notifying = 1"

fun caller_cost :: "int \<Rightarrow> caller \<Rightarrow> nat" where
  "caller_cost b (Working w) = worker_cost b w + 3"
| "caller_cost b Waiting = 2"
| "caller_cost b Blocked = 1"
| "caller_cost b Returned = 0"

definition shard_cost :: "int \<Rightarrow> shard_state \<Rightarrow> nat" where
  "shard_cost b s = sum_list (map (worker_cost b) (ss_workers s)) + caller_cost b (ss_caller s)"

lemma handle_range_cost:
  assumes b: "0 < b" and g: "good_worker b n w" and h: "handle_range b w c = (w', spawned, c', call)"
  shows "sum_list (map (worker_cost b) (worker_list w')) + sum_list (map (worker_cost b) (worker_list spawned))
    < worker_cost b w"
proof (cases w)
  case (Range x y)
  have xy: "x < y" using g Range by (simp add: good_range_def)
  show ?thesis
  proof (cases "b < y - x")
    case True
    define m where "m = split_mid b x y"
    have e: "w' = Some (Range x m)" "spawned = Some (Range m y)"
      using h True Range by (auto simp: m_def Let_def)
    note sp = split_mid_props [OF b True, folded m_def]
    have "shards b x y = shards b x m + shards b m y" using shards_add [OF b sp(1), of y] by simp
    moreover have "0 < shards b x m" "0 < shards b m y" using sp shards_pos [OF b] by auto
    ultimately show ?thesis using Range by (simp add: e worker_list_def)
  next
    case False
    then have "w' = Some Ran" "spawned = None" using h Range by auto
    then show ?thesis using Range shards_pos [OF b xy] by (simp add: worker_list_def)
  qed
next
  case Ran
  then show ?thesis using h by (auto simp: worker_list_def split: prod.splits)
next
  case Notifying
  then show ?thesis using h by (auto simp: worker_list_def)
qed

lemma shard_cost_step:
  assumes b: "0 < b" and inv: "shard_inv b n s" and st: "shard_step b s t"
  shows "shard_cost b t < shard_cost b s"
proof -
  have good: "\<forall>w\<in>#all_workers s. good_worker b n w" using inv unfolding shard_inv_def work_inv_def by blast
  from st show ?thesis
  proof cases
    case (by_pool i)
    then have i: "i < length (ss_workers s)" by (simp add: pool_step_def split: if_splits)
    obtain w' sp c call where h: "handle_range b (ss_workers s ! i) (ss_counter s) = (w', sp, c, call)"
      by (metis prod.exhaust)
    have "good_worker b n (ss_workers s ! i)" using good i by (auto simp: all_workers_def)
    note d = handle_range_cost [OF b this h]
    have "map (worker_cost b) (ss_workers s) = map (worker_cost b) (take i (ss_workers s))
        @ worker_cost b (ss_workers s ! i) # map (worker_cost b) (drop (Suc i) (ss_workers s))"
      using i by (metis id_take_nth_drop list.simps(9) map_append)
    then show ?thesis using by_pool d i h by (auto simp: pool_step_def shard_cost_def)
  next
    case by_caller
    show ?thesis
    proof (cases "ss_caller s")
      case (Working w)
      obtain w' sp c call where h: "handle_range b w (ss_counter s) = (w', sp, c, call)"
        by (metis prod.exhaust)
      have "good_worker b n w" using good Working by (simp add: all_workers_def)
      then show ?thesis using handle_range_cost [OF b \<open>good_worker b n w\<close> h] by_caller Working h
        by (cases w') (auto simp: caller_step_def shard_cost_def worker_list_def)
    qed (use by_caller in \<open>auto simp: caller_step_def shard_cost_def split: prod.splits if_splits\<close>)
  qed
qed

lemma shard_steps_cost:
  assumes b: "0 < b" and inv: "shard_inv b n s" and run: "(shard_step b ^^ m) s t"
  shows "m + shard_cost b t \<le> shard_cost b s"
proof -
  have "shard_inv b n t \<and> m + shard_cost b t \<le> shard_cost b s"
    using run
  proof (induction m arbitrary: t)
    case 0
    then show ?case using inv by simp
  next
    case (Suc m)
    from Suc.prems obtain u where u: "(shard_step b ^^ m) s u" and st: "shard_step b u t" by (auto elim: relpowp_Suc_E)
    show ?case using Suc.IH [OF u] shard_step_inv [OF b _ st] shard_cost_step [OF b _ st] by fastforce
  qed
  then show ?thesis ..
qed

lemma one_shard: "0 < b \<Longrightarrow> 0 < n \<Longrightarrow> shards b 0 n = 1 \<Longrightarrow> n \<le> b"
proof (rule ccontr)
  assume b: "0 < b" and "shards b 0 n = 1" "\<not> n \<le> b"
  then have "2 * b \<le> n - 0 + b - 1" by simp
  then have "2 \<le> shards b 0 n" using b zdiv_mono1 [of "2 * b" "n - 0 + b - 1" b] by (simp add: shards_def)
  then show False using \<open>shards b 0 n = 1\<close> by simp
qed

section \<open>Properties\<close>

text \<open>
  C17: \<open>ParallelForFixedBlockSizeScheduling\<close>, however the pool interleaves its closures,
  never gets stuck, and when the calling thread returns no closure is left, the function has
  been called on every index of the range exactly once, on blocks inside the range, as many
  times as \<open>NumShardsUsedByFixedBlockSizeScheduling\<close> says, and on no more than a block at a
  time unless the pool has one thread.
\<close>

theorem fixed_blocks_exact:
  assumes ok: "fixed_blocks_ok num_threads n b"
    and s0: "ParallelForFixedBlockSizeScheduling num_threads n b = Some s0"
    and run: "(shard_step b)\<^sup>*\<^sup>* s0 s"
  shows "(ss_caller s \<noteq> Returned \<longrightarrow> (\<exists>t. shard_step b s t))
    \<and> (ss_caller s = Returned \<longrightarrow>
        ss_workers s = []
        \<and> (\<forall>i. 0 \<le> i \<and> i < n \<longrightarrow> length (filter (\<lambda>r. fst r \<le> i \<and> i < snd r) (ss_calls s)) = 1)
        \<and> (\<forall>r\<in>set (ss_calls s). 0 \<le> fst r \<and> fst r < snd r \<and> snd r \<le> n
             \<and> (num_threads \<noteq> 1 \<longrightarrow> snd r - fst r \<le> b))
        \<and> NumShardsUsedByFixedBlockSizeScheduling num_threads n b = Some (int (length (ss_calls s))))"
proof -
  have b: "0 < b" and n: "0 < n" using ok by (simp_all add: fixed_blocks_ok_def)
  note num = num_shards_exact [OF ok] and inv = start_steps_inv [OF ok s0 run]
  show ?thesis
  proof (cases "num_threads = 1 \<or> shards b 0 n = 1")
    case True
    then have il: "inline_run n s" using inv by simp
    have "num_threads \<noteq> 1 \<Longrightarrow> n \<le> b" using True one_shard [OF b n] by simp
    then show ?thesis using il n num True by (auto simp: inline_run_def)
  next
    case False
    then have si: "shard_inv b n s" using inv by simp
    show ?thesis using shard_progress [OF b si] shard_finished [OF b si] False num
      by (auto simp: within_filter good_range_def)
  qed
qed

theorem fixed_blocks_exact_witness:
  "\<exists>s0. ParallelForFixedBlockSizeScheduling 4 10 4 = Some s0
    \<and> NumShardsUsedByFixedBlockSizeScheduling 4 10 4 = Some 3
    \<and> (\<exists>t. shard_step 4 s0 t)"
proof -
  have ok: "fixed_blocks_ok 4 10 4" by (simp add: fixed_blocks_ok_def shards_def)
  have num: "NumShardsUsedByFixedBlockSizeScheduling 4 10 4 = Some 3"
    using num_shards_exact [OF ok] by (simp add: shards_def)
  then have s0: "ParallelForFixedBlockSizeScheduling 4 10 4 =
      Some \<lparr>ss_caller = Working (Range 0 10), ss_workers = [],
        ss_counter = \<lparr>bc_state = 6, bc_notified = False\<rparr>, ss_calls = []\<rparr>"
    by (simp add: ParallelForFixedBlockSizeScheduling_def new_counter_def)
  show ?thesis using fixed_blocks_exact [OF ok s0 rtranclp.rtrancl_refl] num s0 by simp
qed

text \<open>
  \<open>ParallelForFixedBlockSizeScheduling\<close> terminates: no interleaving has more than five
  steps per shard and three.
\<close>

theorem fixed_blocks_terminate:
  assumes ok: "fixed_blocks_ok num_threads n b"
    and s0: "ParallelForFixedBlockSizeScheduling num_threads n b = Some s0"
    and run: "(shard_step b ^^ m) s0 s"
  shows "int m \<le> 5 * shards b 0 n + 3"
proof -
  have b: "0 < b" and pos: "0 < shards b 0 n"
    using ok shards_pos [of b 0 n] by (simp_all add: fixed_blocks_ok_def)
  have init: "if num_threads = 1 \<or> shards b 0 n = 1 then inline_run n s0 else shard_inv b n s0"
    by (rule start_inv [OF ok s0])
  show ?thesis
  proof (cases "num_threads = 1 \<or> shards b 0 n = 1")
    case True
    then have "\<not> shard_step b s0 u" for u
      using init by (auto simp: inline_run_def pool_step_def caller_step_def elim!: shard_step.cases)
    then have "m = 0" using run by (metis relpowp_Suc_D2 not0_implies_Suc)
    then show ?thesis using pos by simp
  next
    case False
    then have "m \<le> shard_cost b s0" using init shard_steps_cost [OF b _ run, of n] by simp
    moreover have "int (shard_cost b s0) \<le> 5 * shards b 0 n + 3"
      using s0 False pos num_shards_exact [OF ok]
      by (auto simp: ParallelForFixedBlockSizeScheduling_def bind_eq_Some_conv shard_cost_def)
    ultimately show ?thesis by linarith
  qed
qed

theorem fixed_blocks_terminate_witness:
  "\<exists>s0. ParallelForFixedBlockSizeScheduling 2 10 4 = Some s0
     \<and> (\<forall>m s. (shard_step 4 ^^ m) s0 s \<longrightarrow> int m \<le> 18)"
proof -
  have ok: "fixed_blocks_ok 2 10 4" by (simp add: fixed_blocks_ok_def shards_def)
  have "NumShardsUsedByFixedBlockSizeScheduling 2 10 4 = Some 3"
    using num_shards_exact [OF ok] by (simp add: shards_def)
  then obtain s0 where "ParallelForFixedBlockSizeScheduling 2 10 4 = Some s0"
    by (auto simp: ParallelForFixedBlockSizeScheduling_def new_counter_def)
  then show ?thesis using fixed_blocks_terminate [OF ok] by (fastforce simp: shards_def)
qed

section \<open>Sharding by cost\<close>

lemma dispatch_loop_props:
  assumes b: "0 < b"
  shows "int (length (dispatch_loop b n x)) = (if x < n then shards b x n else 0)"
    "sum_list (map (within i) (dispatch_loop b n x)) = (if x \<le> i \<and> i < n then 1 else 0)"
    "\<forall>r\<in>set (dispatch_loop b n x). x \<le> fst r \<and> fst r < snd r \<and> snd r \<le> n \<and> snd r - fst r \<le> b"
proof -
  have "int (length (dispatch_loop b n x)) = (if x < n then shards b x n else 0)
    \<and> sum_list (map (within i) (dispatch_loop b n x)) = (if x \<le> i \<and> i < n then 1 else 0)
    \<and> (\<forall>r\<in>set (dispatch_loop b n x). x \<le> fst r \<and> fst r < snd r \<and> snd r \<le> n \<and> snd r - fst r \<le> b)"
    using b
  proof (induction b n x rule: dispatch_loop.induct)
    case (1 b n x)
    show ?case
    proof (cases "x < n")
      case True
      have u: "dispatch_loop b n x = (x, min (x + b) n) # dispatch_loop b n (x + b)"
        using True 1(2) by (simp add: dispatch_loop.simps [of b n x])
      note ih = 1(1) [OF conjI [OF True 1(2)] 1(2)]
      have len: "shards b x n = 1 + (if x + b < n then shards b (x + b) n else 0)"
        using shards_add [OF 1(2), of "x + b" x n] shards_one [OF 1(2), of x "x + b"]
          shards_one [OF 1(2) True] 1(2) by auto
      show ?thesis using ih True 1(2) by (auto simp: u len within_def)
    qed (simp add: dispatch_loop.simps [of b n x])
  qed
  then show "int (length (dispatch_loop b n x)) = (if x < n then shards b x n else 0)"
    "sum_list (map (within i) (dispatch_loop b n x)) = (if x \<le> i \<and> i < n then 1 else 0)"
    "\<forall>r\<in>set (dispatch_loop b n x). x \<le> fst r \<and> fst r < snd r \<and> snd r \<le> n \<and> snd r - fst r \<le> b"
    by auto
qed

lemma sdiv_pos: "0 \<le> x \<Longrightarrow> 0 < y \<Longrightarrow> x sdiv y = x div (y :: int)"
  by (cases "x = 0") (auto simp: signed_divide_int_def)

lemma shards_le:
  assumes "0 < k" "0 < n"
  shows "shards ((n + k - 1) div k) 0 n \<le> k" "0 < (n + k - 1) div k"
proof -
  let ?b = "(n + k - 1) div k"
  show b: "0 < ?b" using assms by (simp add: pos_imp_zdiv_pos_iff)
  have "n + k - 1 < (?b + 1) * k" using assms(1) by (metis add.commute distrib_right mult.commute
      mult_1 mult_div_mod_eq pos_mod_bound add_strict_left_mono)
  then have "n \<le> k * ?b" by (simp add: algebra_simps)
  then have le: "n + ?b - 1 \<le> (k + 1) * ?b - 1" by (simp add: algebra_simps)
  have "((k + 1) * ?b - 1) div ?b = k"
    by (rule int_div_pos_eq [where r = "?b - 1"]) (use b in \<open>auto simp: algebra_simps\<close>)
  then show "shards ?b 0 n \<le> k" using zdiv_mono1 [OF le b] by (simp add: shards_def)
qed

text \<open>
  C35: \<open>Sharder::Do\<close> on a non-empty range computes at most \<open>max_parallelism\<close> shards, which
  contain every index of the range exactly once, and its counter starts at the number of
  shards it hands to the runner.
\<close>

theorem sharder_partition:
  assumes n: "0 < n" "2 * n + 2 ^ 31 < 2 ^ 63" and cost: "n * max 1 cost < 2 ^ 63"
    and mp: "1 \<le> max_parallelism" "max_parallelism < 2 ^ 31"
  shows "\<exists>p. Sharder_Do n cost max_parallelism = Some p
    \<and> (\<forall>i. 0 \<le> i \<and> i < n \<longrightarrow>
          length (filter (\<lambda>r. fst r \<le> i \<and> i < snd r) (sp_inline p # sp_scheduled p)) = 1)
    \<and> (\<forall>r\<in>set (sp_inline p # sp_scheduled p). 0 \<le> fst r \<and> fst r < snd r \<and> snd r \<le> n)
    \<and> sp_count p = int (length (sp_scheduled p)) \<and> sp_count p < max_parallelism"
proof -
  let ?c = "max 1 cost"
  define k where "k = max 1 (to_int32 (min max_parallelism (n * ?c sdiv kMinCostPerShard)))"
  let ?b = "(n + k - 1) div k"
  have q: "0 \<le> n * ?c sdiv kMinCostPerShard" using n(1) by (simp add: sdiv_pos kMinCostPerShard_def pos_imp_zdiv_nonneg_iff)
  have k: "1 \<le> k" "k \<le> max_parallelism"
  proof -
    have "to_int32 (min max_parallelism (n * ?c sdiv kMinCostPerShard)) = min max_parallelism (n * ?c sdiv kMinCostPerShard)"
      using q mp by (intro to_int32_small) auto
    then show "1 \<le> k" "k \<le> max_parallelism" using mp by (auto simp: k_def)
  qed
  have b: "0 < ?b" "shards ?b 0 n \<le> k" using shards_le [of k n] k n by auto
  have "?b \<le> n + k - 1" using k n zdiv_mono2 [of "n + k - 1" 1 k] by simp
  then have bn: "?b < n + 2 ^ 31" using k mp by linarith
  have nc: "0 \<le> n * ?c" using n by (intro mult_nonneg_nonneg) auto
  have "i64 (n * ?c) = Some (n * ?c)" unfolding i64_def by (rule if_P) (use nc cost in linarith)
  moreover have "i64 (n + k) = Some (n + k)" "i64 (n + ?b) = Some (n + ?b)"
    using n k mp b bn by (auto simp: i64_def)
  ultimately have 1: "i64 (n * ?c) = Some (n * ?c)" "i64 (n + k) = Some (n + k)" "i64 (n + ?b) = Some (n + ?b)"
    by simp_all
  have 2: "(n + k - 1) sdiv k = ?b" using n k by (simp add: sdiv_pos)
  show ?thesis
  proof (cases "n \<le> ?b")
    case True
    then have "Sharder_Do n cost max_parallelism = Some \<lparr>sp_scheduled = [], sp_inline = (0, n), sp_count = 0\<rparr>"
      using b 1 2 by (simp add: Sharder_Do_def Let_def k_def [symmetric])
    then show ?thesis using n mp by auto
  next
    case False
    have sh: "shards ?b 0 n = 1 + shards ?b ?b n" using shards_add [OF b(1), of ?b 0 n] shards_one [OF b(1), of 0 ?b] b by simp
    have pos: "0 < shards ?b ?b n" using shards_pos [OF b(1)] False by simp
    have u: "to_int32 ((n + ?b - 1) sdiv ?b) = shards ?b 0 n"
      using b n k mp sh pos by (subst sdiv_pos) (auto simp: shards_def intro!: to_int32_small)
    define p where "p = \<lparr>sp_scheduled = dispatch_loop ?b n ?b, sp_inline = (0, ?b), sp_count = shards ?b 0 n - 1\<rparr>"
    have "Sharder_Do n cost max_parallelism = Some p"
      using b 1 2 u False sh pos by (simp add: Sharder_Do_def Let_def k_def [symmetric] new_counter_def p_def)
    moreover have "\<forall>i. 0 \<le> i \<and> i < n \<longrightarrow>
          length (filter (\<lambda>r. fst r \<le> i \<and> i < snd r) (sp_inline p # sp_scheduled p)) = 1"
      using dispatch_loop_props(2) [OF b(1), of _ n ?b] False
      by (auto simp: p_def within_filter within_def)
    moreover have "\<forall>r\<in>set (sp_inline p # sp_scheduled p). 0 \<le> fst r \<and> fst r < snd r \<and> snd r \<le> n"
      using dispatch_loop_props(3) [OF b(1), of n ?b] False b by (auto simp: p_def)
    moreover have "sp_count p = int (length (sp_scheduled p)) \<and> sp_count p < max_parallelism"
      using dispatch_loop_props(1) [OF b(1), of n ?b] False sh b k by (auto simp: p_def)
    ultimately show ?thesis by blast
  qed
qed

theorem sharder_partition_witness:
  "\<exists>p. Sharder_Do 10 20000 4 = Some p \<and> sp_count p < 4
    \<and> length (filter (\<lambda>r. fst r \<le> 7 \<and> 7 < snd r) (sp_inline p # sp_scheduled p)) = 1"
proof -
  have "\<exists>p. Sharder_Do 10 20000 4 = Some p
    \<and> (\<forall>i. 0 \<le> i \<and> i < 10 \<longrightarrow>
          length (filter (\<lambda>r. fst r \<le> i \<and> i < snd r) (sp_inline p # sp_scheduled p)) = 1)
    \<and> (\<forall>r\<in>set (sp_inline p # sp_scheduled p). 0 \<le> fst r \<and> fst r < snd r \<and> snd r \<le> 10)
    \<and> sp_count p = int (length (sp_scheduled p)) \<and> sp_count p < 4"
    by (rule sharder_partition) simp_all
  then show ?thesis by force
qed

text \<open>
  The number of shards is computed in 64 bits and returned as an \<open>int\<close>: 2 to the 32
  blocks of one unit are counted as no shard at all, and a pool of several threads starts
  the run of the whole range with a counter that stands at zero.
\<close>

theorem shard_count_truncated:
  assumes "1 < num_threads"
  shows "NumShardsUsedByFixedBlockSizeScheduling num_threads (2 ^ 32) 1 = Some 0
    \<and> ParallelForFixedBlockSizeScheduling num_threads (2 ^ 32) 1 =
        Some \<lparr>ss_caller = Working (Range 0 (2 ^ 32)), ss_workers = [],
          ss_counter = \<lparr>bc_state = 0, bc_notified = False\<rparr>, ss_calls = []\<rparr>"
  using assms by (simp add: NumShardsUsedByFixedBlockSizeScheduling_def i64_def to_int32_def
      ParallelForFixedBlockSizeScheduling_def new_counter_def)

theorem shard_count_truncated_witness:
  "NumShardsUsedByFixedBlockSizeScheduling 8 4294967296 1 = Some 0"
  using shard_count_truncated [of 8] by simp

end
