(* ===== verification/Cancel_Manager.thy ===== *)
theory Cancel_Manager
  imports Prelude
begin

text \<open>
  \<open>CancellationManager\<close> (core/framework/cancellation.cc and .h).

  Managers live in a store, a list whose entry is \<open>None\<close> once the manager has been
  destroyed; a pointer is an index. A method that takes the lock once is one function on the
  store. \<open>StartCancel\<close> takes it twice and runs callbacks and the children's \<open>StartCancel\<close>
  in between, so it is a stack of frames with one step per access to shared state. An
  access through a null or dangling pointer is \<open>None\<close>. A callback is known by its token.
\<close>

section \<open>Managers\<close>

type_synonym token = int

definition kInvalidToken :: token where
  "kInvalidToken = -1"

record cm_state =
  cancelled_notification :: bool
  callbacks :: "token set"
  first_child :: "nat option"

record manager =
  is_cancelling :: bool
  is_cancelled :: bool
  next_cancellation_token :: token
  parent :: "nat option"
  is_removed_from_parent :: bool
  prev_sibling :: "nat option"
  next_sibling :: "nat option"
  cm_state :: "cm_state option"

type_synonym cm_store = "manager option list"

definition new_cm_state :: cm_state where
  "new_cm_state = \<lparr>cancelled_notification = False, callbacks = {}, first_child = None\<rparr>"

definition lookup_cm :: "cm_store \<Rightarrow> nat \<Rightarrow> manager option" where
  "lookup_cm st m = (if m < length st then st ! m else None)"

definition put_cm :: "cm_store \<Rightarrow> nat \<Rightarrow> manager \<Rightarrow> cm_store" where
  "put_cm st m x = st[m := Some x]"

definition update_cm :: "cm_store \<Rightarrow> nat \<Rightarrow> (manager \<Rightarrow> manager) \<Rightarrow> cm_store option" where
  "update_cm st m f = map_option (\<lambda>x. put_cm st m (f x)) (lookup_cm st m)"

text \<open>\<open>if (!state_) state_ = make_unique<State>()\<close>\<close>

definition ensure_state :: "manager \<Rightarrow> cm_state" where
  "ensure_state x = (case cm_state x of None \<Rightarrow> new_cm_state | Some s \<Rightarrow> s)"

definition stopping :: "manager \<Rightarrow> bool" where
  "stopping x = (is_cancelled x \<or> is_cancelling x)"

section \<open>Tokens and callbacks\<close>

definition get_cancellation_token :: "cm_store \<Rightarrow> nat \<Rightarrow> (cm_store \<times> token) option" where
  "get_cancellation_token st m =
     map_option (\<lambda>x. (put_cm st m (x\<lparr>next_cancellation_token := next_cancellation_token x + 1\<rparr>),
                      next_cancellation_token x)) (lookup_cm st m)"

definition IsCancelled :: "cm_store \<Rightarrow> nat \<Rightarrow> bool option" where
  "IsCancelled st m = map_option is_cancelled (lookup_cm st m)"

definition RegisterCallback :: "cm_store \<Rightarrow> nat \<Rightarrow> token \<Rightarrow> (cm_store \<times> bool) option" where
  "RegisterCallback st m t =
     map_option (\<lambda>x.
       if \<not> stopping x
       then (put_cm st m (x\<lparr>cm_state := Some ((ensure_state x)\<lparr>callbacks := insert t (callbacks (ensure_state x))\<rparr>)\<rparr>), True)
       else (st, False)) (lookup_cm st m)"

text \<open>
  \<open>DeregisterCallback\<close> up to the unlock: it has returned, or it waits for the notification of
  the manager.
\<close>

datatype dereg = Done bool | Wait

definition erase_callback :: "manager \<Rightarrow> token \<Rightarrow> manager" where
  "erase_callback x t =
     (case cm_state x of
        None \<Rightarrow> x
      | Some s \<Rightarrow> x\<lparr>cm_state := Some (s\<lparr>callbacks := callbacks s - {t}\<rparr>)\<rparr>)"

definition DeregisterCallback :: "cm_store \<Rightarrow> nat \<Rightarrow> token \<Rightarrow> (cm_store \<times> dereg) option" where
  "DeregisterCallback st m t =
     map_option (\<lambda>x.
       if is_cancelled x then (st, Done False)
       else if is_cancelling x then (st, case cm_state x of None \<Rightarrow> Done False | Some _ \<Rightarrow> Wait)
       else (put_cm st m (erase_callback x t), Done True)) (lookup_cm st m)"

definition TryDeregisterCallback :: "cm_store \<Rightarrow> nat \<Rightarrow> token \<Rightarrow> (cm_store \<times> bool) option" where
  "TryDeregisterCallback st m t =
     map_option (\<lambda>x. if stopping x then (st, False) else (put_cm st m (erase_callback x t), True))
       (lookup_cm st m)"

text \<open>\<open>WaitForNotification\<close> of a manager: \<open>Some False\<close> while the wait goes on.\<close>

definition notified :: "cm_store \<Rightarrow> nat \<Rightarrow> bool option" where
  "notified st m = Option.bind (lookup_cm st m) (\<lambda>x. map_option cancelled_notification (cm_state x))"

section \<open>Children\<close>

definition set_prev :: "cm_store \<Rightarrow> nat option \<Rightarrow> nat option \<Rightarrow> cm_store option" where
  "set_prev st c v = (case c of None \<Rightarrow> Some st | Some i \<Rightarrow> update_cm st i (\<lambda>x. x\<lparr>prev_sibling := v\<rparr>))"

definition RegisterChild :: "cm_store \<Rightarrow> nat \<Rightarrow> nat \<Rightarrow> (cm_store \<times> bool) option" where
  "RegisterChild st m child =
     Option.bind (lookup_cm st m) (\<lambda>x.
       if stopping x
       then map_option (\<lambda>st1. (st1, True)) (update_cm st child (\<lambda>c. c\<lparr>is_removed_from_parent := True\<rparr>))
       else let s = ensure_state x; current_head = first_child s in
         Option.bind (update_cm (put_cm st m (x\<lparr>cm_state := Some (s\<lparr>first_child := Some child\<rparr>)\<rparr>)) child
                  (\<lambda>c. c\<lparr>prev_sibling := None, next_sibling := current_head\<rparr>)) (\<lambda>st2.
         map_option (\<lambda>st3. (st3, False)) (set_prev st2 current_head (Some child))))"

text \<open>
  \<open>DeregisterChild\<close> up to the unlock, and whether it then waits for the notification. The
  head of the list and the notification are reached through \<open>state_\<close>, which may be null.
\<close>

definition unlink_child :: "cm_store \<Rightarrow> nat \<Rightarrow> manager \<Rightarrow> cm_store option" where
  "unlink_child st m c =
     Option.bind (case prev_sibling c of
         None \<Rightarrow> Option.bind (lookup_cm st m) (\<lambda>x. Option.bind (cm_state x) (\<lambda>s.
                   Some (put_cm st m (x\<lparr>cm_state := Some (s\<lparr>first_child := next_sibling c\<rparr>)\<rparr>))))
       | Some p \<Rightarrow> update_cm st p (\<lambda>x. x\<lparr>next_sibling := next_sibling c\<rparr>))
     (\<lambda>st1. set_prev st1 (next_sibling c) (prev_sibling c))"

definition DeregisterChild :: "cm_store \<Rightarrow> nat \<Rightarrow> nat \<Rightarrow> (cm_store \<times> bool) option" where
  "DeregisterChild st m child =
     Option.bind (lookup_cm st child) (\<lambda>c.
     Option.bind (if is_removed_from_parent c then Some st
              else Option.bind (unlink_child st m c)
                     (\<lambda>st1. update_cm st1 child (\<lambda>c. c\<lparr>is_removed_from_parent := True\<rparr>))) (\<lambda>st2.
     Option.bind (lookup_cm st2 m) (\<lambda>x.
       if is_cancelling x then map_option (\<lambda>_. (st2, True)) (cm_state x) else Some (st2, False))))"

section \<open>Construction\<close>

definition new_manager :: manager where
  "new_manager = \<lparr>is_cancelling = False, is_cancelled = False, next_cancellation_token = 0,
     parent = None, is_removed_from_parent = False, prev_sibling = None, next_sibling = None,
     cm_state = None\<rparr>"

definition NewManager :: "cm_store \<Rightarrow> cm_store \<times> nat" where
  "NewManager st = (st @ [Some new_manager], length st)"

definition NewChild :: "cm_store \<Rightarrow> nat \<Rightarrow> (cm_store \<times> nat) option" where
  "NewChild st p =
     Option.bind (lookup_cm st p) (\<lambda>_.
     Option.bind (RegisterChild (st @ [Some (new_manager\<lparr>parent := Some p\<rparr>)]) p (length st)) (\<lambda>(st1, cancelled).
     map_option (\<lambda>st2. (st2, length st)) (update_cm st1 (length st) (\<lambda>c. c\<lparr>is_cancelled := cancelled\<rparr>))))"

section \<open>Cancelling\<close>

text \<open>
  The loop that empties the list of children: each is pushed in front of the local list and
  marked as removed. Sibling lists have no cycle, so the number of managers is fuel enough.
\<close>

fun take_children :: "nat \<Rightarrow> cm_store \<Rightarrow> nat option \<Rightarrow> nat list \<Rightarrow> (cm_store \<times> nat list) option" where
  "take_children _ st None acc = Some (st, acc)"
| "take_children 0 st (Some c) acc = None"
| "take_children (Suc fuel) st (Some c) acc =
     Option.bind (lookup_cm st c) (\<lambda>x.
       take_children fuel (put_cm st c (x\<lparr>is_removed_from_parent := True\<rparr>)) (next_sibling x) (c # acc))"

text \<open>
  A frame of \<open>StartCancel\<close>: entered; running with the callbacks and children left, the
  callback being executed, and whether there is a notification; past the second section.
  The frames of the destructor: entered; waiting for the parent's notification; past
  \<open>DeregisterChild\<close>; about to free the manager.
\<close>

datatype frame =
    Enter nat
  | Run nat "token set" "token option" "nat list" bool
  | Notify nat
  | Destroy nat
  | Await_Parent nat nat
  | Destroying nat
  | Free nat

definition StartCancel_lock :: "cm_store \<Rightarrow> nat \<Rightarrow> (cm_store \<times> frame option) option" where
  "StartCancel_lock st m =
     Option.bind (lookup_cm st m) (\<lambda>x.
       if stopping x then Some (st, None)
       else case cm_state x of
         None \<Rightarrow> Some (put_cm st m (x\<lparr>is_cancelling := True\<rparr>), Some (Run m {} None [] False))
       | Some s \<Rightarrow>
          Option.bind (take_children (length st)
                   (put_cm st m (x\<lparr>is_cancelling := True, cm_state := Some (s\<lparr>callbacks := {}\<rparr>)\<rparr>))
                   (first_child s) []) (\<lambda>(st1, children).
          map_option (\<lambda>st2. (st2, Some (Run m (callbacks s) None children True)))
            (update_cm st1 m (\<lambda>x. x\<lparr>cm_state := Some ((ensure_state x)\<lparr>first_child := None\<rparr>)\<rparr>))))"

definition StartCancel_finish :: "cm_store \<Rightarrow> nat \<Rightarrow> cm_store option" where
  "StartCancel_finish st m = update_cm st m (\<lambda>x. x\<lparr>is_cancelling := False, is_cancelled := True\<rparr>)"

definition StartCancel_notify :: "cm_store \<Rightarrow> nat \<Rightarrow> cm_store option" where
  "StartCancel_notify st m =
     update_cm st m (\<lambda>x. x\<lparr>cm_state := Some ((ensure_state x)\<lparr>cancelled_notification := True\<rparr>)\<rparr>)"

section \<open>Threads\<close>

text \<open>
  The calls of callbacks and the answers of the operations, in the order of the execution.
\<close>

datatype event = Registered nat token | Deregistered nat token | Refused nat token
  | Begin nat token | End nat token

text \<open>
  One step of a thread inside \<open>StartCancel\<close> or the destructor, on the store and its stack. The map of
  callbacks has no fixed order: \<open>pick\<close> is the token that comes next.
\<close>

definition cancel_step ::
  "token \<Rightarrow> cm_store \<times> frame list \<Rightarrow> (cm_store \<times> frame list \<times> event list) option" where
  "cancel_step pick s =
     (case s of (st, stack) \<Rightarrow>
      (case stack of
         [] \<Rightarrow> None
       | Enter m # rest \<Rightarrow>
           map_option (\<lambda>(st1, f). (st1, (case f of None \<Rightarrow> rest | Some g \<Rightarrow> g # rest), []))
             (StartCancel_lock st m)
       | Run m cbs (Some t) children n # rest \<Rightarrow> Some (st, Run m cbs None children n # rest, [End m t])
       | Run m cbs None children n # rest \<Rightarrow>
           if cbs \<noteq> {} then
             (if pick \<in> cbs then Some (st, Run m (cbs - {pick}) (Some pick) children n # rest, [Begin m pick])
              else None)
           else (case children of
               c # cs \<Rightarrow> Some (st, Enter c # Run m {} None cs n # rest, [])
             | [] \<Rightarrow> map_option (\<lambda>st1. (st1, (if n then Notify m # rest else rest), [])) (StartCancel_finish st m))
       | Notify m # rest \<Rightarrow> map_option (\<lambda>st1. (st1, rest, [])) (StartCancel_notify st m)
       | Destroy m # rest \<Rightarrow>
           Option.bind (lookup_cm st m) (\<lambda>x.
             case parent x of
               None \<Rightarrow> Some (st, Destroying m # rest, [])
             | Some p \<Rightarrow>
                 map_option (\<lambda>(st1, waits). (st1, (if waits then Await_Parent p m else Destroying m) # rest, []))
                   (DeregisterChild st p m))
       | Await_Parent p m # rest \<Rightarrow>
           (if notified st p = Some True then Some (st, Destroying m # rest, []) else None)
       | Destroying m # rest \<Rightarrow>
           map_option (\<lambda>x. (st, (if cm_state x = None then Free m # rest else Enter m # Free m # rest), []))
             (lookup_cm st m)
       | Free m # rest \<Rightarrow> Some (st[m := None], rest, [])))"

text \<open>
  The system: threads inside \<open>StartCancel\<close>, calls of \<open>DeregisterCallback\<close> that wait, and the
  log. Every other method is one step of whoever calls it.
\<close>

record cm_system =
  cs_store :: cm_store
  cs_threads :: "frame list list"
  cs_waiting :: "(nat \<times> token) list"
  cs_log :: "event list"

inductive cm_step :: "cm_system \<Rightarrow> cm_system \<Rightarrow> bool" where
  step_new: "NewManager (cs_store s) = (st, m) \<Longrightarrow> cm_step s (s\<lparr>cs_store := st\<rparr>)"
| step_child: "NewChild (cs_store s) p = Some (st, m) \<Longrightarrow> cm_step s (s\<lparr>cs_store := st\<rparr>)"
| step_token: "get_cancellation_token (cs_store s) m = Some (st, t) \<Longrightarrow> cm_step s (s\<lparr>cs_store := st\<rparr>)"
| step_register: "RegisterCallback (cs_store s) m t = Some (st, ok) \<Longrightarrow>
    cm_step s (s\<lparr>cs_store := st, cs_log := cs_log s @ (if ok then [Registered m t] else [])\<rparr>)"
| step_deregister: "DeregisterCallback (cs_store s) m t = Some (st, Done ok) \<Longrightarrow>
    cm_step s (s\<lparr>cs_store := st, cs_log := cs_log s @ [if ok then Deregistered m t else Refused m t]\<rparr>)"
| step_wait: "DeregisterCallback (cs_store s) m t = Some (st, Wait) \<Longrightarrow>
    cm_step s (s\<lparr>cs_store := st, cs_waiting := cs_waiting s @ [(m, t)]\<rparr>)"
| step_woken: "i < length (cs_waiting s) \<Longrightarrow> cs_waiting s ! i = (m, t) \<Longrightarrow> notified (cs_store s) m = Some True \<Longrightarrow>
    cm_step s (s\<lparr>cs_waiting := take i (cs_waiting s) @ drop (Suc i) (cs_waiting s),
                 cs_log := cs_log s @ [Refused m t]\<rparr>)"
| step_try: "TryDeregisterCallback (cs_store s) m t = Some (st, ok) \<Longrightarrow>
    cm_step s (s\<lparr>cs_store := st, cs_log := cs_log s @ (if ok then [Deregistered m t] else [])\<rparr>)"
| step_start: "cm_step s (s\<lparr>cs_threads := cs_threads s @ [[Enter m]]\<rparr>)"
| step_destroy: "cm_step s (s\<lparr>cs_threads := cs_threads s @ [[Destroy m]]\<rparr>)"
| step_cancel: "i < length (cs_threads s) \<Longrightarrow>
    cancel_step pick (cs_store s, cs_threads s ! i) = Some (st, stack, es) \<Longrightarrow>
    cm_step s (s\<lparr>cs_store := st, cs_threads := (cs_threads s)[i := stack], cs_log := cs_log s @ es\<rparr>)"

definition cm_start :: "cm_system \<Rightarrow> bool" where
  "cm_start s = (cs_store s = [] \<and> cs_threads s = [] \<and> cs_waiting s = [] \<and> cs_log s = [])"

end
