(* ===== verification/Cancel_Manager_Props.thy ===== *)
theory Cancel_Manager_Props
  imports Cancel_Manager
begin

text \<open>
  What a cancellation manager promises in every interleaving: a callback runs at most once
  for each registration, never once its deregistration has succeeded, and none runs once a
  deregistration has been refused; when the manager is cancelled every callback that was
  registered and not deregistered has been called. And the race in which it promises nothing.
\<close>

section \<open>What an operation does to a manager\<close>

text \<open>
  The fields of a manager the promises depend on; links between siblings do not matter.
\<close>

record view =
  v_cancelling :: bool
  v_cancelled :: bool
  v_callbacks :: "token set"
  v_state :: bool
  v_notified :: bool

definition view_of :: "manager \<Rightarrow> view" where
  "view_of x = \<lparr>v_cancelling = is_cancelling x, v_cancelled = is_cancelled x,
     v_callbacks = (case cm_state x of None \<Rightarrow> {} | Some s \<Rightarrow> callbacks s),
     v_state = (cm_state x \<noteq> None),
     v_notified = (case cm_state x of None \<Rightarrow> False | Some s \<Rightarrow> cancelled_notification s)\<rparr>"

definition vw :: "cm_store \<Rightarrow> nat \<Rightarrow> view option" where
  "vw st m = map_option view_of (lookup_cm st m)"

definition fresh_view :: view where
  "fresh_view = \<lparr>v_cancelling = False, v_cancelled = False, v_callbacks = {}, v_state = False, v_notified = False\<rparr>"

lemma length_put [simp]: "length (put_cm st m x) = length st" by (simp add: put_cm_def)

lemma lookup_put [simp]: "lookup_cm (put_cm st m x) k = (if k = m \<and> m < length st then Some x else lookup_cm st k)"
  by (auto simp: lookup_cm_def put_cm_def)

lemma lookup_less: "lookup_cm st m = Some x \<Longrightarrow> m < length st"
  by (simp add: lookup_cm_def split: if_splits)

lemma vw_put: "vw (put_cm st m x) k = (if k = m \<and> m < length st then Some (view_of x) else vw st k)"
  by (simp add: vw_def)

lemma update_cmE:
  assumes "update_cm st m f = Some st'"
  obtains x where "lookup_cm st m = Some x" "st' = put_cm st m (f x)" "m < length st"
  using assms lookup_less by (auto simp: update_cm_def)

lemma vw_update:
  assumes "update_cm st m f = Some st'"
  shows "length st' = length st"
    "\<exists>x. lookup_cm st m = Some x \<and> vw st' = (vw st)(m \<mapsto> view_of (f x))"
proof -
  obtain x where x: "lookup_cm st m = Some x" "st' = put_cm st m (f x)" "m < length st"
    using assms by (rule update_cmE)
  show "length st' = length st" using x by simp
  show "\<exists>x. lookup_cm st m = Some x \<and> vw st' = (vw st)(m \<mapsto> view_of (f x))"
    using x by (intro exI [of _ x]) (auto simp: vw_put fun_eq_iff)
qed

lemma vw_update_same:
  assumes "update_cm st m f = Some st'" "\<And>x. view_of (f x) = view_of x"
  shows "length st' = length st" "vw st' = vw st"
proof -
  show "length st' = length st" by (rule vw_update [OF assms(1)])
  obtain x where "lookup_cm st m = Some x" "vw st' = (vw st)(m \<mapsto> view_of (f x))"
    using vw_update [OF assms(1)] by blast
  then show "vw st' = vw st" by (auto simp: assms(2) vw_def fun_eq_iff)
qed

lemma vw_set_prev: "set_prev st c v = Some st' \<Longrightarrow> length st' = length st \<and> vw st' = vw st"
  by (auto simp: set_prev_def view_of_def split: option.splits dest: vw_update_same)

lemma vw_take_children:
  "take_children fuel st c acc = Some (st', cs) \<Longrightarrow> length st' = length st \<and> vw st' = vw st"
proof (induction fuel st c acc rule: take_children.induct)
  case (3 fuel st c acc)
  then obtain x where x: "lookup_cm st c = Some x"
    and t: "take_children fuel (put_cm st c (x\<lparr>is_removed_from_parent := True\<rparr>)) (next_sibling x) (c # acc) = Some (st', cs)"
    by (auto simp: bind_eq_Some_conv)
  have "vw (put_cm st c (x\<lparr>is_removed_from_parent := True\<rparr>)) = vw st"
    using x by (auto simp: vw_put fun_eq_iff vw_def view_of_def)
  then show ?case using 3(1) [OF x t] by simp
qed auto

lemma vw_deregister_child:
  assumes "DeregisterChild st m c = Some (st', w)"
  shows "length st' = length st \<and> vw st' = vw st"
proof -
  obtain x where x: "lookup_cm st c = Some x" and st': "(if is_removed_from_parent x then Some st
        else Option.bind (unlink_child st m x) (\<lambda>st1. update_cm st1 c (\<lambda>c. c\<lparr>is_removed_from_parent := True\<rparr>))) = Some st'"
    using assms by (auto simp: DeregisterChild_def bind_eq_Some_conv split: if_splits)
  show ?thesis
  proof (cases "is_removed_from_parent x")
    case False
    then obtain st1 where u: "unlink_child st m x = Some st1"
      and s: "update_cm st1 c (\<lambda>c. c\<lparr>is_removed_from_parent := True\<rparr>) = Some st'"
      using st' by (auto simp: bind_eq_Some_conv)
    have "length st1 = length st \<and> vw st1 = vw st"
    proof (cases "prev_sibling x")
      case None
      then obtain y sy where y: "lookup_cm st m = Some y" "cm_state y = Some sy"
        and p: "set_prev (put_cm st m (y\<lparr>cm_state := Some (sy\<lparr>first_child := next_sibling x\<rparr>)\<rparr>)) (next_sibling x) None = Some st1"
        using u by (auto simp: unlink_child_def bind_eq_Some_conv)
      have "vw (put_cm st m (y\<lparr>cm_state := Some (sy\<lparr>first_child := next_sibling x\<rparr>)\<rparr>)) = vw st"
        using y by (auto simp: vw_put fun_eq_iff vw_def view_of_def)
      then show ?thesis using vw_set_prev [OF p] by simp
    next
      case (Some q)
      then obtain st2 where "update_cm st q (\<lambda>y. y\<lparr>next_sibling := next_sibling x\<rparr>) = Some st2"
        "set_prev st2 (next_sibling x) (Some q) = Some st1"
        using u by (auto simp: unlink_child_def bind_eq_Some_conv)
      then show ?thesis using vw_set_prev vw_update_same [of st q] by (simp add: view_of_def)
    qed
    then show ?thesis using vw_update_same [OF s] by (simp add: view_of_def)
  qed (use st' in simp)
qed

section \<open>The abstract machine\<close>

text \<open>
  The same system without links, stacks and waiting calls: the views of the managers, the
  frames in any order, and the log. Each step of the system is a step of this machine.
\<close>

record abs_system =
  a_views :: "nat \<Rightarrow> view option"
  a_size :: nat
  a_frames :: "frame multiset"
  a_log :: "event list"

definition v_stopping :: "view \<Rightarrow> bool" where
  "v_stopping v = (v_cancelled v \<or> v_cancelling v)"

fun is_run :: "nat \<Rightarrow> frame \<Rightarrow> bool" where
  "is_run m (Run k cbs r cs n) = (k = m)"
| "is_run m _ = False"

definition no_run :: "frame multiset \<Rightarrow> bool" where
  "no_run F = (\<forall>f\<in>#F. (\<forall>m. \<not> is_run m f) \<and> (\<forall>m. f \<noteq> Notify m))"

inductive a_step :: "abs_system \<Rightarrow> abs_system \<Rightarrow> bool" where
  a_create: "a_step a (a\<lparr>a_views := (a_views a)(a_size a \<mapsto> fresh_view\<lparr>v_cancelled := b\<rparr>), a_size := Suc (a_size a)\<rparr>)"
| a_child: "a_views a p = Some v \<Longrightarrow> \<not> v_stopping v \<Longrightarrow>
    a_step a (a\<lparr>a_views := (a_views a)(p \<mapsto> v\<lparr>v_state := True\<rparr>, a_size a \<mapsto> fresh_view), a_size := Suc (a_size a)\<rparr>)"
| a_same: "a_step a a"
| a_register: "a_views a m = Some v \<Longrightarrow> \<not> v_stopping v \<Longrightarrow>
    a_step a (a\<lparr>a_views := (a_views a)(m \<mapsto> v\<lparr>v_callbacks := insert t (v_callbacks v), v_state := True\<rparr>),
                a_log := a_log a @ [Registered m t]\<rparr>)"
| a_deregister: "a_views a m = Some v \<Longrightarrow> \<not> v_stopping v \<Longrightarrow>
    a_step a (a\<lparr>a_views := (a_views a)(m \<mapsto> v\<lparr>v_callbacks := v_callbacks v - {t}\<rparr>),
                a_log := a_log a @ [Deregistered m t]\<rparr>)"
| a_refuse: "a_views a m = Some v \<Longrightarrow> v_cancelled v \<or> v_cancelling v \<and> \<not> v_state v \<or> v_notified v \<Longrightarrow>
    a_step a (a\<lparr>a_log := a_log a @ [Refused m t]\<rparr>)"
| a_move: "a_frames a = M + F \<Longrightarrow> no_run F \<Longrightarrow> no_run G \<Longrightarrow> a_step a (a\<lparr>a_frames := M + G\<rparr>)"
| a_lock: "a_views a m = Some v \<Longrightarrow> \<not> v_stopping v \<Longrightarrow> a_frames a = add_mset (Enter m) M \<Longrightarrow>
    a_step a (a\<lparr>a_views := (a_views a)(m \<mapsto> v\<lparr>v_cancelling := True, v_callbacks := {}\<rparr>),
                a_frames := add_mset (Run m (v_callbacks v) None cs (v_state v)) M\<rparr>)"
| a_begin: "a_frames a = add_mset (Run m cbs None cs n) M \<Longrightarrow> t \<in> cbs \<Longrightarrow>
    a_step a (a\<lparr>a_frames := add_mset (Run m (cbs - {t}) (Some t) cs n) M, a_log := a_log a @ [Begin m t]\<rparr>)"
| a_end: "a_frames a = add_mset (Run m cbs (Some t) cs n) M \<Longrightarrow>
    a_step a (a\<lparr>a_frames := add_mset (Run m cbs None cs n) M, a_log := a_log a @ [End m t]\<rparr>)"
| a_next_child: "a_frames a = add_mset (Run m {} None (c # cs) n) M \<Longrightarrow>
    a_step a (a\<lparr>a_frames := add_mset (Enter c) (add_mset (Run m {} None cs n) M)\<rparr>)"
| a_finish: "a_frames a = add_mset (Run m {} None [] n) M \<Longrightarrow> a_views a m = Some v \<Longrightarrow>
    a_step a (a\<lparr>a_views := (a_views a)(m \<mapsto> v\<lparr>v_cancelling := False, v_cancelled := True\<rparr>),
                a_frames := M + (if n then {#Notify m#} else {#})\<rparr>)"
| a_notify: "a_frames a = add_mset (Notify m) M \<Longrightarrow> a_views a m = Some v \<Longrightarrow>
    a_step a (a\<lparr>a_views := (a_views a)(m \<mapsto> v\<lparr>v_state := True, v_notified := True\<rparr>), a_frames := M\<rparr>)"
| a_free: "a_frames a = add_mset (Free m) M \<Longrightarrow>
    a_step a (a\<lparr>a_views := (a_views a)(m := None), a_frames := M\<rparr>)"

definition abs_of :: "cm_system \<Rightarrow> abs_system" where
  "abs_of s = \<lparr>a_views = vw (cs_store s), a_size = length (cs_store s),
     a_frames = mset (concat (cs_threads s)), a_log = cs_log s\<rparr>"

lemma vw_some: "lookup_cm st m = Some x \<Longrightarrow> vw st m = Some (view_of x)"
  by (simp add: vw_def)

lemma stopping_view: "v_stopping (view_of x) = stopping x"
  by (simp add: v_stopping_def view_of_def stopping_def)

lemma vw_append: "vw (st @ [Some x]) = (vw st)(length st \<mapsto> view_of x)"
  by (auto simp: vw_def lookup_cm_def nth_append fun_eq_iff)

lemma vw_put_some: "lookup_cm st m = Some x \<Longrightarrow> vw (put_cm st m y) = (vw st)(m \<mapsto> view_of y)"
  using lookup_less by (auto simp: vw_put fun_eq_iff)

lemma NewManager_abs:
  "NewManager st = (st', m) \<Longrightarrow> vw st' = (vw st)(length st \<mapsto> fresh_view) \<and> length st' = Suc (length st)"
  by (auto simp: NewManager_def vw_append view_of_def new_manager_def fresh_view_def)

lemma RegisterChild_abs:
  assumes "RegisterChild st p c = Some (st', b)"
  shows "length st' = length st \<and> (\<exists>x. lookup_cm st p = Some x \<and>
    vw st' = (if stopping x then vw st else (vw st)(p \<mapsto> (view_of x)\<lparr>v_state := True\<rparr>)) \<and> b = stopping x)"
proof -
  obtain x where x: "lookup_cm st p = Some x" using assms by (auto simp: RegisterChild_def bind_eq_Some_conv)
  show ?thesis
  proof (cases "stopping x")
    case True
    then have "update_cm st c (\<lambda>c. c\<lparr>is_removed_from_parent := True\<rparr>) = Some st' \<and> b"
      using assms x by (auto simp: RegisterChild_def)
    then show ?thesis using vw_update_same [of st c] x True by (auto simp: view_of_def)
  next
    case False
    define st1 where "st1 = put_cm st p (x\<lparr>cm_state := Some ((ensure_state x)\<lparr>first_child := Some c\<rparr>)\<rparr>)"
    obtain st2 where 2: "update_cm st1 c (\<lambda>k. k\<lparr>prev_sibling := None, next_sibling := first_child (ensure_state x)\<rparr>) = Some st2"
      and 3: "set_prev st2 (first_child (ensure_state x)) (Some c) = Some st'" and b: "\<not> b"
      using assms x False by (auto simp: RegisterChild_def st1_def Let_def bind_eq_Some_conv)
    have "vw st1 = (vw st)(p \<mapsto> (view_of x)\<lparr>v_state := True\<rparr>)" "length st1 = length st"
      using x by (auto simp: st1_def vw_put_some view_of_def ensure_state_def new_cm_state_def split: option.splits)
    then show ?thesis using vw_update_same [OF 2] vw_set_prev [OF 3] x False b by (simp add: view_of_def)
  qed
qed

lemma NewChild_abs:
  assumes "NewChild st p = Some (st', m)"
  shows "(\<exists>b. vw st' = (vw st)(length st \<mapsto> fresh_view\<lparr>v_cancelled := b\<rparr>)
       \<or> (\<exists>v. vw st p = Some v \<and> \<not> v_stopping v \<and> vw st' = (vw st)(p \<mapsto> v\<lparr>v_state := True\<rparr>, length st \<mapsto> fresh_view)))
    \<and> length st' = Suc (length st)"
proof -
  let ?st = "st @ [Some (new_manager\<lparr>parent := Some p\<rparr>)]"
  have v0: "vw ?st = (vw st)(length st \<mapsto> fresh_view)"
    by (simp add: vw_append view_of_def new_manager_def fresh_view_def)
  obtain st1 b where r: "RegisterChild ?st p (length st) = Some (st1, b)"
    and u: "update_cm st1 (length st) (\<lambda>c. c\<lparr>is_cancelled := b\<rparr>) = Some st'"
    using assms by (auto simp: NewChild_def bind_eq_Some_conv)
  obtain x where x: "lookup_cm ?st p = Some x" and v1: "length st1 = Suc (length st)" "b = stopping x"
    "vw st1 = (if stopping x then vw ?st else (vw ?st)(p \<mapsto> (view_of x)\<lparr>v_state := True\<rparr>))"
    using RegisterChild_abs [OF r] by auto
  obtain y where y: "lookup_cm st1 (length st) = Some y"
    and v2: "vw st' = (vw st1)(length st \<mapsto> (view_of y)\<lparr>v_cancelled := b\<rparr>)" and l2: "length st' = length st1"
    using vw_update [OF u] by (auto simp: view_of_def)
  have "p < length st" using assms lookup_less by (auto simp: NewChild_def bind_eq_Some_conv)
  then have p: "p \<noteq> length st" and px: "vw st p = Some (view_of x)"
    using x by (auto simp: lookup_cm_def nth_append vw_def split: if_splits)
  have "view_of y = fresh_view" using vw_some [OF y] v1 v0 p by (auto split: if_splits)
  then show ?thesis using v2 v1 v0 px p l2 stopping_view [of x]
    by (cases "stopping x") (auto simp: fun_upd_twist fresh_view_def intro!: exI [of _ b])
qed

lemma RegisterCallback_abs:
  assumes "RegisterCallback st m t = Some (st', ok)"
  shows "length st' = length st \<and> (if ok
    then \<exists>v. vw st m = Some v \<and> \<not> v_stopping v
          \<and> vw st' = (vw st)(m \<mapsto> v\<lparr>v_callbacks := insert t (v_callbacks v), v_state := True\<rparr>)
    else st' = st)"
proof -
  obtain x where "lookup_cm st m = Some x" using assms by (auto simp: RegisterCallback_def)
  then show ?thesis using assms
    by (auto simp: RegisterCallback_def vw_some vw_put_some v_stopping_def stopping_def view_of_def ensure_state_def
        new_cm_state_def split: if_splits option.splits)
qed

lemma view_erase: "view_of (erase_callback x t) = (view_of x)\<lparr>v_callbacks := v_callbacks (view_of x) - {t}\<rparr>"
  by (simp add: view_of_def erase_callback_def split: option.splits)

lemma DeregisterCallback_abs:
  assumes "DeregisterCallback st m t = Some (st', r)"
  shows "length st' = length st \<and> (case r of
      Done True \<Rightarrow> \<exists>v. vw st m = Some v \<and> \<not> v_stopping v \<and> vw st' = (vw st)(m \<mapsto> v\<lparr>v_callbacks := v_callbacks v - {t}\<rparr>)
    | Done False \<Rightarrow> st' = st \<and> (\<exists>v. vw st m = Some v \<and> (v_cancelled v \<or> v_cancelling v \<and> \<not> v_state v))
    | Wait \<Rightarrow> st' = st)"
proof -
  obtain x where x: "lookup_cm st m = Some x" using assms by (auto simp: DeregisterCallback_def)
  show ?thesis
  proof (cases "stopping x")
    case True
    then show ?thesis using assms x
      by (cases "cm_state x") (auto simp: DeregisterCallback_def vw_some view_of_def stopping_def split: if_splits)
  next
    case False
    then show ?thesis using assms x stopping_view [of x]
      by (auto simp: DeregisterCallback_def vw_some vw_put_some view_erase stopping_def)
  qed
qed

lemma TryDeregisterCallback_abs:
  assumes "TryDeregisterCallback st m t = Some (st', ok)"
  shows "length st' = length st \<and> (if ok
    then \<exists>v. vw st m = Some v \<and> \<not> v_stopping v \<and> vw st' = (vw st)(m \<mapsto> v\<lparr>v_callbacks := v_callbacks v - {t}\<rparr>)
    else st' = st)"
proof -
  obtain x where "lookup_cm st m = Some x" using assms by (auto simp: TryDeregisterCallback_def)
  then show ?thesis using assms stopping_view [of x]
    by (auto simp: TryDeregisterCallback_def vw_some vw_put_some view_erase split: if_splits)
qed

lemma StartCancel_lock_abs:
  assumes "StartCancel_lock st m = Some (st', f)"
  shows "length st' = length st \<and> (case f of None \<Rightarrow> st' = st
    | Some g \<Rightarrow> \<exists>v cs. vw st m = Some v \<and> \<not> v_stopping v \<and> g = Run m (v_callbacks v) None cs (v_state v)
         \<and> vw st' = (vw st)(m \<mapsto> v\<lparr>v_cancelling := True, v_callbacks := {}\<rparr>))"
proof -
  obtain x where x: "lookup_cm st m = Some x" using assms by (auto simp: StartCancel_lock_def bind_eq_Some_conv)
  show ?thesis
  proof (cases "stopping x \<or> cm_state x = None")
    case True
    then show ?thesis using assms x stopping_view [of x]
      by (auto simp: StartCancel_lock_def vw_some vw_put_some view_of_def split: if_splits)
  next
    case False
    then obtain s where s: "cm_state x = Some s" and ns: "\<not> stopping x" by auto
    define st0 where "st0 = put_cm st m (x\<lparr>is_cancelling := True, cm_state := Some (s\<lparr>callbacks := {}\<rparr>)\<rparr>)"
    obtain st1 cs where t: "take_children (length st) st0 (first_child s) [] = Some (st1, cs)"
      and u: "update_cm st1 m (\<lambda>x. x\<lparr>cm_state := Some ((ensure_state x)\<lparr>first_child := None\<rparr>)\<rparr>) = Some st'"
      and f: "f = Some (Run m (callbacks s) None cs True)"
      using assms x s ns by (auto simp: StartCancel_lock_def st0_def bind_eq_Some_conv)
    have v0: "vw st0 = (vw st)(m \<mapsto> (view_of x)\<lparr>v_cancelling := True, v_callbacks := {}\<rparr>)"
      using x s by (auto simp: st0_def vw_put_some view_of_def)
    have l: "length st1 = length st" and v1: "vw st1 = vw st0" using vw_take_children [OF t] by (simp_all add: st0_def)
    obtain y where y: "lookup_cm st1 m = Some y"
      and v2: "vw st' = (vw st1)(m \<mapsto> view_of (y\<lparr>cm_state := Some ((ensure_state y)\<lparr>first_child := None\<rparr>)\<rparr>))"
      using vw_update [OF u] by auto
    have "view_of y = (view_of x)\<lparr>v_cancelling := True, v_callbacks := {}\<rparr>" using vw_some [OF y] v0 v1 by simp
    moreover have "v_state (view_of x)" using s by (simp add: view_of_def)
    ultimately have "view_of (y\<lparr>cm_state := Some ((ensure_state y)\<lparr>first_child := None\<rparr>)\<rparr>) = view_of y"
      by (cases "cm_state y") (auto simp: view_of_def ensure_state_def)
    then show ?thesis using v0 v1 v2 l x s ns f vw_update(1) [OF u] stopping_view [of x]
        \<open>view_of y = _\<close> by (auto simp: vw_some view_of_def [of x])
  qed
qed

lemma StartCancel_finish_abs:
  assumes "StartCancel_finish st m = Some st'"
  shows "length st' = length st \<and> (\<exists>v. vw st m = Some v \<and> vw st' = (vw st)(m \<mapsto> v\<lparr>v_cancelling := False, v_cancelled := True\<rparr>))"
  using vw_update [OF assms [unfolded StartCancel_finish_def]] by (auto simp: vw_some view_of_def)

lemma StartCancel_notify_abs:
  assumes "StartCancel_notify st m = Some st'"
  shows "length st' = length st \<and> (\<exists>v. vw st m = Some v \<and> vw st' = (vw st)(m \<mapsto> v\<lparr>v_state := True, v_notified := True\<rparr>))"
  using vw_update [OF assms [unfolded StartCancel_notify_def]]
  by (auto simp: vw_some view_of_def ensure_state_def new_cm_state_def split: option.splits)

lemma notified_abs: "notified st m = Some True \<Longrightarrow> \<exists>v. vw st m = Some v \<and> v_notified v"
  by (auto simp: notified_def vw_def view_of_def bind_eq_Some_conv)

lemma frame_ends_abs:
  assumes "cancel_step pick (st, f # rest) = Some (st', stack', es)" "\<forall>m. \<not> is_run m f" "\<forall>m. f \<noteq> Enter m"
    "\<forall>m. f \<noteq> Notify m" "\<forall>m. f \<noteq> Free m"
  shows "vw st' = vw st \<and> length st' = length st \<and> es = [] \<and> (\<exists>G. mset stack' = mset rest + G \<and> no_run G)"
proof (cases f)
  case (Destroy m)
  then obtain x where x: "lookup_cm st m = Some x" using assms(1) by (auto simp: cancel_step_def bind_eq_Some_conv)
  show ?thesis
  proof (cases "parent x")
    case None
    then show ?thesis using assms(1) x Destroy by (auto simp: cancel_step_def no_run_def intro!: exI [of _ "{#Destroying m#}"])
  next
    case (Some p)
    then obtain w where "DeregisterChild st p m = Some (st', w)" and
      "stack' = (if w then Await_Parent p m else Destroying m) # rest" "es = []"
      using assms(1) x Destroy by (auto simp: cancel_step_def)
    then show ?thesis using vw_deregister_child
      by (auto simp: no_run_def intro!: exI [of _ "{#if w then Await_Parent p m else Destroying m#}"])
  qed
next
  case (Await_Parent p m)
  then show ?thesis using assms(1)
    by (auto simp: cancel_step_def no_run_def split: if_splits intro!: exI [of _ "{#Destroying m#}"])
next
  case (Destroying m)
  then obtain x where "lookup_cm st m = Some x"
    and *: "st' = st" "es = []" "stack' = (if cm_state x = None then Free m # rest else Enter m # Free m # rest)"
    using assms(1) by (auto simp: cancel_step_def)
  show ?thesis
    by (intro conjI exI [of _ "if cm_state x = None then {#Free m#} else {#Enter m, Free m#}"])
      (auto simp: * no_run_def)
qed (use assms in auto)

lemma cancel_step_abs:
  assumes "cancel_step pick (st, stack) = Some (st', stack', es)"
  shows "a_step \<lparr>a_views = vw st, a_size = length st, a_frames = M + mset stack, a_log = L\<rparr>
    \<lparr>a_views = vw st', a_size = length st', a_frames = M + mset stack', a_log = L @ es\<rparr>"
    (is "a_step ?a ?b")
proof -
  obtain f rest where st: "stack = f # rest" using assms by (cases stack) (auto simp: cancel_step_def)
  have fr: "a_frames ?a = add_mset f (M + mset rest)" by (simp add: st)
  note step = assms [unfolded st]
  show ?thesis
  proof (cases f)
    case (Enter m)
    obtain g where l: "StartCancel_lock st m = Some (st', g)" and s: "stack' = (case g of None \<Rightarrow> rest | Some h \<Rightarrow> h # rest)" "es = []"
      using step Enter by (auto simp: cancel_step_def)
    show ?thesis
    proof (cases g)
      case None
      have "a_step ?a (?a\<lparr>a_frames := (M + mset rest) + {#}\<rparr>)"
        by (rule a_move [where F = "{#Enter m#}"]) (auto simp: st Enter no_run_def)
      then show ?thesis using StartCancel_lock_abs [OF l] None s by simp
    next
      case (Some h)
      then obtain v cs where h: "vw st m = Some v" "\<not> v_stopping v" "h = Run m (v_callbacks v) None cs (v_state v)"
        "vw st' = (vw st)(m \<mapsto> v\<lparr>v_cancelling := True, v_callbacks := {}\<rparr>)" "length st' = length st"
        using StartCancel_lock_abs [OF l] by auto
      have "a_step ?a (?a\<lparr>a_views := (a_views ?a)(m \<mapsto> v\<lparr>v_cancelling := True, v_callbacks := {}\<rparr>),
          a_frames := add_mset (Run m (v_callbacks v) None cs (v_state v)) (M + mset rest)\<rparr>)"
        by (rule a_lock) (use h fr Enter in auto)
      then show ?thesis using h s Some by simp
    qed
  next
    case (Run m cbs r cs n)
    show ?thesis
    proof (cases r)
      case (Some t)
      have "a_step ?a (?a\<lparr>a_frames := add_mset (Run m cbs None cs n) (M + mset rest), a_log := a_log ?a @ [End m t]\<rparr>)"
        by (rule a_end) (use fr Run Some in auto)
      then show ?thesis using step Run Some by (auto simp: cancel_step_def)
    next
      case r: None
      show ?thesis
      proof (cases "cbs = {}")
        case False
        then have p: "pick \<in> cbs" using step Run r by (auto simp: cancel_step_def split: if_splits)
        have "a_step ?a (?a\<lparr>a_frames := add_mset (Run m (cbs - {pick}) (Some pick) cs n) (M + mset rest),
            a_log := a_log ?a @ [Begin m pick]\<rparr>)"
          by (rule a_begin [OF _ p]) (use fr Run r in auto)
        then show ?thesis using step Run r False p by (auto simp: cancel_step_def)
      next
        case e: True
        show ?thesis
        proof (cases cs)
          case (Cons c ds)
          have "a_step ?a (?a\<lparr>a_frames := add_mset (Enter c) (add_mset (Run m {} None ds n) (M + mset rest))\<rparr>)"
            by (rule a_next_child) (use fr Run r e Cons in auto)
          then show ?thesis using step Run r e Cons by (auto simp: cancel_step_def)
        next
          case Nil
          then have f: "StartCancel_finish st m = Some st'" and s: "stack' = (if n then Notify m # rest else rest)" "es = []"
            using step Run r e by (auto simp: cancel_step_def)
          obtain v where v: "vw st m = Some v" "vw st' = (vw st)(m \<mapsto> v\<lparr>v_cancelling := False, v_cancelled := True\<rparr>)"
            "length st' = length st" using StartCancel_finish_abs [OF f] by auto
          have "a_step ?a (?a\<lparr>a_views := (a_views ?a)(m \<mapsto> v\<lparr>v_cancelling := False, v_cancelled := True\<rparr>),
              a_frames := (M + mset rest) + (if n then {#Notify m#} else {#})\<rparr>)"
            by (rule a_finish) (use fr Run r e Nil v in auto)
          then show ?thesis using v s by (simp split: if_splits)
        qed
      qed
    qed
  next
    case (Notify m)
    then have f: "StartCancel_notify st m = Some st'" and s: "stack' = rest" "es = []"
      using step by (auto simp: cancel_step_def)
    obtain v where v: "vw st m = Some v" "vw st' = (vw st)(m \<mapsto> v\<lparr>v_state := True, v_notified := True\<rparr>)"
      "length st' = length st" using StartCancel_notify_abs [OF f] by auto
    have "a_step ?a (?a\<lparr>a_views := (a_views ?a)(m \<mapsto> v\<lparr>v_state := True, v_notified := True\<rparr>), a_frames := M + mset rest\<rparr>)"
      by (rule a_notify) (use fr Notify v in auto)
    then show ?thesis using v s by simp
  next
    case (Free m)
    have "a_step ?a (?a\<lparr>a_views := (a_views ?a)(m := None), a_frames := M + mset rest\<rparr>)"
      by (rule a_free) (use fr Free in auto)
    moreover have "vw (st[m := None]) = (vw st)(m := None)"
      by (auto simp: vw_def lookup_cm_def fun_eq_iff nth_list_update)
    ultimately show ?thesis using step Free by (auto simp: cancel_step_def)
  next
    case (Destroy m)
    with frame_ends_abs [OF step] obtain G where *: "vw st' = vw st" "length st' = length st" "es = []"
      "mset stack' = mset rest + G" "no_run G" by auto
    have "a_step ?a (?a\<lparr>a_frames := (M + mset rest) + G\<rparr>)"
      by (rule a_move [where F = "{#f#}"]) (use fr Destroy * in \<open>auto simp: no_run_def\<close>)
    then show ?thesis using * by (simp add: ac_simps)
  next
    case (Await_Parent p m)
    with frame_ends_abs [OF step] obtain G where *: "vw st' = vw st" "length st' = length st" "es = []"
      "mset stack' = mset rest + G" "no_run G" by auto
    have "a_step ?a (?a\<lparr>a_frames := (M + mset rest) + G\<rparr>)"
      by (rule a_move [where F = "{#f#}"]) (use fr Await_Parent * in \<open>auto simp: no_run_def\<close>)
    then show ?thesis using * by (simp add: ac_simps)
  next
    case (Destroying m)
    with frame_ends_abs [OF step] obtain G where *: "vw st' = vw st" "length st' = length st" "es = []"
      "mset stack' = mset rest + G" "no_run G" by auto
    have "a_step ?a (?a\<lparr>a_frames := (M + mset rest) + G\<rparr>)"
      by (rule a_move [where F = "{#f#}"]) (use fr Destroying * in \<open>auto simp: no_run_def\<close>)
    then show ?thesis using * by (simp add: ac_simps)
  qed
qed

lemma mset_concat_update:
  "i < length ts \<Longrightarrow> mset (concat (ts[i := x])) = mset (concat (ts[i := []])) + mset x"
  by (induction ts arbitrary: i) (auto split: nat.split)

lemma cm_step_abs:
  assumes "cm_step s t"
  shows "a_step (abs_of s) (abs_of t)"
  using assms
proof cases
  case (step_new st m)
  have "a_step (abs_of s) ((abs_of s)\<lparr>a_views := (a_views (abs_of s))(a_size (abs_of s) \<mapsto> fresh_view\<lparr>v_cancelled := False\<rparr>),
      a_size := Suc (a_size (abs_of s))\<rparr>)" by (rule a_create)
  moreover have "fresh_view\<lparr>v_cancelled := False\<rparr> = fresh_view" by (simp add: fresh_view_def)
  ultimately show ?thesis using step_new NewManager_abs [OF step_new(2)] by (simp add: abs_of_def)
next
  case (step_child p st m)
  note n = NewChild_abs [OF step_child(2)]
  show ?thesis
  proof (cases "\<exists>b. vw st = (vw (cs_store s))(length (cs_store s) \<mapsto> fresh_view\<lparr>v_cancelled := b\<rparr>)")
    case True
    then obtain b where b: "vw st = (vw (cs_store s))(length (cs_store s) \<mapsto> fresh_view\<lparr>v_cancelled := b\<rparr>)" ..
    show ?thesis using a_create [of "abs_of s" b] b n step_child(1) by (simp add: abs_of_def)
  next
    case False
    then obtain v where v: "vw (cs_store s) p = Some v" "\<not> v_stopping v"
      "vw st = (vw (cs_store s))(p \<mapsto> v\<lparr>v_state := True\<rparr>, length (cs_store s) \<mapsto> fresh_view)" using n by auto
    show ?thesis using a_child [of "abs_of s" p v] v n step_child(1) by (simp add: abs_of_def)
  qed
next
  case (step_token m st k)
  then have "vw st = vw (cs_store s) \<and> length st = length (cs_store s)"
    by (auto simp: get_cancellation_token_def vw_put fun_eq_iff vw_def view_of_def)
  then show ?thesis using a_same [of "abs_of s"] step_token(1) by (simp add: abs_of_def)
next
  case (step_register m k st ok)
  show ?thesis
  proof (cases ok)
    case True
    then obtain v where v: "vw (cs_store s) m = Some v" "\<not> v_stopping v" "length st = length (cs_store s)"
      "vw st = (vw (cs_store s))(m \<mapsto> v\<lparr>v_callbacks := insert k (v_callbacks v), v_state := True\<rparr>)"
      using RegisterCallback_abs [OF step_register(2)] by auto
    show ?thesis using a_register [of "abs_of s" m v k] v True step_register(1) by (simp add: abs_of_def)
  next
    case False
    then show ?thesis using RegisterCallback_abs [OF step_register(2)] a_same [of "abs_of s"] step_register(1)
      by (simp add: abs_of_def)
  qed
next
  case (step_deregister m k st ok)
  show ?thesis
  proof (cases ok)
    case True
    then obtain v where v: "vw (cs_store s) m = Some v" "\<not> v_stopping v" "length st = length (cs_store s)"
      "vw st = (vw (cs_store s))(m \<mapsto> v\<lparr>v_callbacks := v_callbacks v - {k}\<rparr>)"
      using DeregisterCallback_abs [OF step_deregister(2)] by auto
    show ?thesis using a_deregister [of "abs_of s" m v k] v True step_deregister(1) by (simp add: abs_of_def)
  next
    case False
    then obtain v where v: "vw (cs_store s) m = Some v" "v_cancelled v \<or> v_cancelling v \<and> \<not> v_state v" "st = cs_store s"
      using DeregisterCallback_abs [OF step_deregister(2)] by auto
    then have d: "v_cancelled v \<or> v_cancelling v \<and> \<not> v_state v \<or> v_notified v" by blast
    show ?thesis using a_refuse [of "abs_of s" m v k, OF _ d] v False step_deregister(1) by (simp add: abs_of_def)
  qed
next
  case (step_wait m k st)
  then show ?thesis using DeregisterCallback_abs [OF step_wait(2)] a_same [of "abs_of s"] by (simp add: abs_of_def)
next
  case (step_woken i m k)
  obtain v where "vw (cs_store s) m = Some v" "v_notified v" using notified_abs [OF step_woken(4)] by auto
  then show ?thesis using a_refuse [of "abs_of s" m v k] step_woken(1) by (simp add: abs_of_def)
next
  case (step_try m k st ok)
  show ?thesis
  proof (cases ok)
    case True
    then obtain v where v: "vw (cs_store s) m = Some v" "\<not> v_stopping v" "length st = length (cs_store s)"
      "vw st = (vw (cs_store s))(m \<mapsto> v\<lparr>v_callbacks := v_callbacks v - {k}\<rparr>)"
      using TryDeregisterCallback_abs [OF step_try(2)] by auto
    show ?thesis using a_deregister [of "abs_of s" m v k] v True step_try(1) by (simp add: abs_of_def)
  next
    case False
    then show ?thesis using TryDeregisterCallback_abs [OF step_try(2)] a_same [of "abs_of s"] step_try(1)
      by (simp add: abs_of_def)
  qed
next
  case (step_start m)
  have "a_step (abs_of s) ((abs_of s)\<lparr>a_frames := a_frames (abs_of s) + {#Enter m#}\<rparr>)"
    by (rule a_move [where F = "{#}"]) (auto simp: no_run_def)
  then show ?thesis using step_start by (simp add: abs_of_def)
next
  case (step_destroy m)
  have "a_step (abs_of s) ((abs_of s)\<lparr>a_frames := a_frames (abs_of s) + {#Destroy m#}\<rparr>)"
    by (rule a_move [where F = "{#}"]) (auto simp: no_run_def)
  then show ?thesis using step_destroy by (simp add: abs_of_def)
next
  case (step_cancel i pick st stack es)
  have "mset (concat (cs_threads s)) = mset (concat ((cs_threads s)[i := []])) + mset (cs_threads s ! i)"
    using mset_concat_update [OF step_cancel(2), of "cs_threads s ! i"] by simp
  then show ?thesis
    using cancel_step_abs [OF step_cancel(3), of "mset (concat ((cs_threads s)[i := []]))" "cs_log s"]
      mset_concat_update [OF step_cancel(2), of stack] step_cancel(1) by (simp add: abs_of_def)
qed

lemma cm_reach_abs:
  assumes "reach cm_start cm_step s"
  shows "reach (\<lambda>a. a = \<lparr>a_views = Map.empty, a_size = 0, a_frames = {#}, a_log = []\<rparr>) a_step (abs_of s)"
  using assms
proof (induction rule: reach.induct)
  case (reach_init s)
  then have "abs_of s = \<lparr>a_views = Map.empty, a_size = 0, a_frames = {#}, a_log = []\<rparr>"
    by (simp add: cm_start_def abs_of_def vw_def lookup_cm_def fun_eq_iff)
  then show ?case by (rule reach.reach_init)
next
  case (reach_step s t)
  then show ?case using cm_step_abs reach.reach_step by metis
qed

section \<open>Who is cancelling\<close>

definition runs :: "nat \<Rightarrow> frame multiset \<Rightarrow> nat" where
  "runs m F = size (filter_mset (is_run m) F)"

lemma runs_simps [simp]:
  "runs m {#} = 0" "runs m (add_mset f F) = (if is_run m f then 1 else 0) + runs m F" "runs m (F + G) = runs m F + runs m G"
  by (simp_all add: runs_def)

lemma runs_zero: "runs m F = 0 \<longleftrightarrow> (\<forall>f\<in>#F. \<not> is_run m f)"
  by (induction F) auto

lemma no_run_runs: "no_run F \<Longrightarrow> runs m F = 0"
  by (simp add: no_run_def runs_zero)

fun frame_ok :: "(nat \<Rightarrow> view option) \<Rightarrow> frame \<Rightarrow> bool" where
  "frame_ok V (Run m cbs r cs n) = (if n then (\<forall>v. V m = Some v \<longrightarrow> v_state v) else cbs = {} \<and> r = None)"
| "frame_ok V (Notify m) = (\<forall>v. V m = Some v \<longrightarrow> v_cancelled v)"
| "frame_ok V _ = True"

fun frame_of :: "frame \<Rightarrow> nat option" where
  "frame_of (Run m cbs r cs n) = Some m"
| "frame_of (Notify m) = Some m"
| "frame_of _ = None"

definition view_ok :: "nat \<Rightarrow> view \<Rightarrow> bool" where
  "view_ok k v = (k = (if v_cancelling v then 1 else 0) \<and> \<not> (v_cancelling v \<and> v_cancelled v)
     \<and> (v_stopping v \<or> \<not> v_state v \<longrightarrow> v_callbacks v = {}) \<and> (v_notified v \<longrightarrow> v_cancelled v))"

definition a_inv :: "abs_system \<Rightarrow> bool" where
  "a_inv a = ((\<forall>m v. a_views a m = Some v \<longrightarrow> view_ok (runs m (a_frames a)) v)
     \<and> (\<forall>m. runs m (a_frames a) \<le> 1)
     \<and> (\<forall>m. a_size a \<le> m \<longrightarrow> a_views a m = None)
     \<and> (\<forall>f\<in>#a_frames a. frame_ok (a_views a) f \<and> (\<forall>m. frame_of f = Some m \<longrightarrow> m < a_size a)))"

lemma a_invD:
  assumes "a_inv a"
  shows "a_views a m = Some v \<Longrightarrow> view_ok (runs m (a_frames a)) v" "runs m (a_frames a) \<le> 1"
    "a_size a \<le> m \<Longrightarrow> a_views a m = None" "a_views a m = Some v \<Longrightarrow> m < a_size a"
    "f \<in># a_frames a \<Longrightarrow> frame_ok (a_views a) f" "f \<in># a_frames a \<Longrightarrow> frame_of f = Some m \<Longrightarrow> m < a_size a"
  using assms unfolding a_inv_def by (blast, blast, blast, metis not_less option.distinct(1), blast, blast)

lemma no_run_frame_ok: "no_run F \<Longrightarrow> f \<in># F \<Longrightarrow> frame_ok V f \<and> frame_of f = None"
  by (cases f) (auto simp: no_run_def)

text \<open>A step that changes one manager, to a state and a cancellation that only grow.\<close>

lemma frame_ok_upd:
  assumes "frame_ok V f" "V m = Some v" "v_state v \<longrightarrow> v_state v'" "v_cancelled v \<longrightarrow> v_cancelled v'"
  shows "frame_ok (V(m \<mapsto> v')) f"
  using assms by (cases f) auto

lemma frame_ok_new:
  assumes "frame_ok V f" "\<forall>k. frame_of f = Some k \<longrightarrow> k < n"
  shows "frame_ok (V(n \<mapsto> v')) f"
  using assms by (cases f) auto

lemma frame_ok_none: "frame_ok V f \<Longrightarrow> frame_ok (V(m := None)) f"
  by (cases f) auto

lemma runs_beyond: "a_inv a \<Longrightarrow> a_size a \<le> m \<Longrightarrow> runs m (a_frames a) = 0"
proof (rule ccontr)
  assume inv: "a_inv a" and m: "a_size a \<le> m" and "runs m (a_frames a) \<noteq> 0"
  then obtain f where f: "f \<in># a_frames a" "is_run m f"
    by (auto simp: runs_zero)
  then have "frame_of f = Some m" by (cases f) auto
  with a_invD(6) [OF inv f(1)] m show False by simp
qed

lemma a_inv_upd:
  assumes inv: "a_inv a" and v: "a_views a m = Some v"
    and up: "v_state v \<longrightarrow> v_state v'" "v_cancelled v \<longrightarrow> v_cancelled v'"
    and ok: "view_ok (runs m F) v'" "runs m F \<le> 1" "\<forall>k. k \<noteq> m \<longrightarrow> runs k F = runs k (a_frames a)"
    and fr: "\<forall>f\<in>#F. f \<in># a_frames a \<or> frame_ok ((a_views a)(m \<mapsto> v')) f \<and> (frame_of f = None \<or> frame_of f = Some m)"
  shows "a_inv (a\<lparr>a_views := (a_views a)(m \<mapsto> v'), a_frames := F, a_log := L\<rparr>)"
proof -
  have "frame_ok ((a_views a)(m \<mapsto> v')) f \<and> (\<forall>k. frame_of f = Some k \<longrightarrow> k < a_size a)" if f: "f \<in># F" for f
  proof (cases "f \<in># a_frames a")
    case True
    then show ?thesis using frame_ok_upd [OF a_invD(5) [OF inv True] v up] a_invD(6) [OF inv True] by blast
  next
    case False
    then show ?thesis using fr f a_invD(4) [OF inv v] by fastforce
  qed
  moreover have "runs k F \<le> 1" for k using ok a_invD(2) [OF inv, of k] by (cases "k = m") auto
  moreover have "view_ok (runs k F) w" if "((a_views a)(m \<mapsto> v')) k = Some w" for k w
    using that ok a_invD(1) [OF inv, of k w] by (cases "k = m") auto
  ultimately show ?thesis using a_invD(3,4) [OF inv] v unfolding a_inv_def by auto
qed

lemma a_step_inv:
  assumes inv: "a_inv a" and st: "a_step a b"
  shows "a_inv b"
  using st
proof cases
  case (a_create c)
  then show ?thesis using inv runs_beyond [OF inv, of "a_size a"] frame_ok_new [of "a_views a"]
    unfolding a_inv_def by (auto simp: view_ok_def fresh_view_def v_stopping_def less_SucI)
next
  case (a_child p v)
  have p: "p < a_size a" using a_invD(4) [OF inv a_child(2)] .
  have "frame_ok ((a_views a)(p \<mapsto> v\<lparr>v_state := True\<rparr>, a_size a \<mapsto> fresh_view)) f" if "f \<in># a_frames a" for f
    using frame_ok_new frame_ok_upd [OF a_invD(5) [OF inv that] a_child(2), of "v\<lparr>v_state := True\<rparr>"]
      a_invD(6) [OF inv that] by fastforce
  then show ?thesis using inv runs_beyond [OF inv, of "a_size a"] a_child p a_invD(1) [OF inv a_child(2)]
    unfolding a_inv_def by (auto simp: view_ok_def fresh_view_def v_stopping_def less_SucI)
next
  case a_same
  then show ?thesis using inv by simp
next
  case (a_register m v t)
  then show ?thesis
    using a_inv_upd [OF inv a_register(2), of "v\<lparr>v_callbacks := insert t (v_callbacks v), v_state := True\<rparr>" "a_frames a"]
      a_invD(1,2) [OF inv] by (fastforce simp: view_ok_def v_stopping_def)
next
  case (a_deregister m v t)
  then show ?thesis
    using a_inv_upd [OF inv a_deregister(2), of "v\<lparr>v_callbacks := v_callbacks v - {t}\<rparr>" "a_frames a"]
      a_invD(1,2) [OF inv] by (fastforce simp: view_ok_def v_stopping_def)
next
  case (a_refuse m v t)
  then show ?thesis using inv by (simp add: a_inv_def)
next
  case (a_move M F G)
  then show ?thesis using inv no_run_runs no_run_frame_ok [OF a_move(4)]
    unfolding a_inv_def by (auto simp: no_run_runs)
next
  case (a_lock m v M cs)
  have z: "runs m M = 0" "\<not> v_cancelled v" "\<not> v_cancelling v" "\<not> v_notified v" "\<not> v_state v \<longrightarrow> v_callbacks v = {}"
    using a_invD(1) [OF inv a_lock(2)] a_lock(3,4) by (auto simp: view_ok_def v_stopping_def)
  have "a_inv (a\<lparr>a_views := (a_views a)(m \<mapsto> v\<lparr>v_cancelling := True, v_callbacks := {}\<rparr>),
      a_frames := add_mset (Run m (v_callbacks v) None cs (v_state v)) M, a_log := a_log a\<rparr>)"
    by (rule a_inv_upd [OF inv a_lock(2)]) (use z a_lock(4) in \<open>auto simp: view_ok_def\<close>)
  then show ?thesis using a_lock(1) by simp
next
  case (a_begin m cbs cs n M t)
  then have n using a_invD(5) [OF inv, of "Run m cbs None cs n"] by (auto split: if_splits)
  then show ?thesis using inv a_begin unfolding a_inv_def by auto
next
  case (a_end m cbs t cs n M)
  then have n using a_invD(5) [OF inv, of "Run m cbs (Some t) cs n"] by (auto split: if_splits)
  then show ?thesis using inv a_end unfolding a_inv_def by auto
next
  case (a_next_child m c cs n M)
  then show ?thesis using inv unfolding a_inv_def by auto
next
  case (a_finish m n M v)
  have z: "runs m M = 0" "v_cancelling v" "v_callbacks v = {}"
    using a_invD(1) [OF inv a_finish(3)] a_finish(2) by (auto simp: view_ok_def v_stopping_def split: if_splits)
  have "a_inv (a\<lparr>a_views := (a_views a)(m \<mapsto> v\<lparr>v_cancelling := False, v_cancelled := True\<rparr>),
      a_frames := M + (if n then {#Notify m#} else {#}), a_log := a_log a\<rparr>)"
    by (rule a_inv_upd [OF inv a_finish(3)]) (use z a_finish(2) in \<open>auto simp: view_ok_def split: if_splits\<close>)
  then show ?thesis using a_finish(1) by simp
next
  case (a_notify m M v)
  have c: "v_cancelled v" using a_invD(5) [OF inv, of "Notify m"] a_notify(2,3) by simp
  have "a_inv (a\<lparr>a_views := (a_views a)(m \<mapsto> v\<lparr>v_state := True, v_notified := True\<rparr>), a_frames := M, a_log := a_log a\<rparr>)"
    by (rule a_inv_upd [OF inv a_notify(3)])
      (use c a_notify(2) a_invD(1,2) [OF inv] a_notify(3) in \<open>fastforce simp: view_ok_def v_stopping_def\<close>)+
  then show ?thesis using a_notify(1) by simp
next
  case (a_free m M)
  then show ?thesis using inv frame_ok_none unfolding a_inv_def by auto
qed

section \<open>Where a callback is\<close>

fun holds_cb :: "nat \<Rightarrow> token \<Rightarrow> frame \<Rightarrow> bool" where
  "holds_cb m t (Run k cbs r cs n) = (k = m \<and> t \<in> cbs)"
| "holds_cb m t _ = False"

fun runs_cb :: "nat \<Rightarrow> token \<Rightarrow> frame \<Rightarrow> bool" where
  "runs_cb m t (Run k cbs r cs n) = (k = m \<and> r = Some t)"
| "runs_cb m t _ = False"

definition in_view :: "nat \<Rightarrow> token \<Rightarrow> (nat \<Rightarrow> view option) \<Rightarrow> nat" where
  "in_view m t V = (case V m of None \<Rightarrow> 0 | Some v \<Rightarrow> if t \<in> v_callbacks v then 1 else 0)"

definition held_cb :: "nat \<Rightarrow> token \<Rightarrow> frame multiset \<Rightarrow> nat" where
  "held_cb m t F = size (filter_mset (holds_cb m t) F)"

definition running_cb :: "nat \<Rightarrow> token \<Rightarrow> frame multiset \<Rightarrow> nat" where
  "running_cb m t F = size (filter_mset (runs_cb m t) F)"

definition waiting_cb :: "nat \<Rightarrow> token \<Rightarrow> abs_system \<Rightarrow> nat" where
  "waiting_cb m t a = in_view m t (a_views a) + held_cb m t (a_frames a)"

lemma cb_simps [simp]:
  "held_cb m t {#} = 0" "held_cb m t (add_mset f F) = (if holds_cb m t f then 1 else 0) + held_cb m t F"
  "held_cb m t (F + G) = held_cb m t F + held_cb m t G"
  "running_cb m t {#} = 0" "running_cb m t (add_mset f F) = (if runs_cb m t f then 1 else 0) + running_cb m t F"
  "running_cb m t (F + G) = running_cb m t F + running_cb m t G"
  by (simp_all add: held_cb_def running_cb_def)

lemma no_run_cb: "no_run F \<Longrightarrow> held_cb m t F = 0 \<and> running_cb m t F = 0"
proof (induction F)
  case (add f F)
  then have "\<not> holds_cb m t f" "\<not> runs_cb m t f" by (cases f; auto simp: no_run_def)+
  then show ?case using add by (simp add: no_run_def)
qed simp

definition new_events :: "abs_system \<Rightarrow> abs_system \<Rightarrow> event list" where
  "new_events a b = drop (length (a_log a)) (a_log b)"

lemma a_step_log: "a_step a b \<Longrightarrow> a_log b = a_log a @ new_events a b \<and> length (new_events a b) \<le> 1"
  by (cases rule: a_step.cases) (auto simp: new_events_def)

text \<open>The movements of one callback in one step.\<close>

lemma a_step_waiting:
  assumes inv: "a_inv a" and st: "a_step a b"
  shows "waiting_cb m t b + count_list (new_events a b) (Begin m t)
      \<le> waiting_cb m t a + count_list (new_events a b) (Registered m t)"
  using st
proof cases
  case (a_create c)
  then show ?thesis using a_invD(3) [OF inv, of "a_size a"]
    by (auto simp: waiting_cb_def in_view_def new_events_def fresh_view_def)
next
  case (a_child p v)
  then show ?thesis using a_invD(3) [OF inv, of "a_size a"]
    by (auto simp: waiting_cb_def in_view_def new_events_def fresh_view_def)
next
  case (a_move M F G)
  then show ?thesis using no_run_cb [of F m t] no_run_cb [of G m t]
    by (simp add: waiting_cb_def new_events_def)
qed (auto simp: waiting_cb_def in_view_def new_events_def)

lemma a_step_kept:
  assumes inv: "a_inv a" and st: "a_step a b" and m: "m < a_size a" and w: "waiting_cb m t a \<noteq> 0"
  shows "waiting_cb m t b \<noteq> 0 \<or> Begin m t \<in> set (new_events a b) \<or> Deregistered m t \<in> set (new_events a b)
    \<or> a_views b m = None"
  using st
proof cases
  case (a_move M F G)
  then show ?thesis using w no_run_cb [of F m t] no_run_cb [of G m t] by (simp add: waiting_cb_def)
qed (use w m in \<open>auto simp: waiting_cb_def in_view_def new_events_def split: option.splits if_splits\<close>)

lemma a_step_running:
  assumes st: "a_step a b"
  shows "running_cb m t (a_frames b) + count_list (new_events a b) (End m t)
     = running_cb m t (a_frames a) + count_list (new_events a b) (Begin m t)"
  using st
proof cases
  case (a_move M F G)
  then show ?thesis using no_run_cb [of F m t] no_run_cb [of G m t] by (simp add: new_events_def)
qed (auto simp: new_events_def)

lemma a_step_registered:
  assumes "a_inv a" "a_step a b" "Registered m t \<in> set (new_events a b)"
  shows "waiting_cb m t b \<noteq> 0 \<and> m < a_size b"
  using assms(2)
proof cases
  case (a_register k v u)
  then show ?thesis using assms(3) a_invD(4) [OF assms(1) a_register(2)]
    by (auto simp: new_events_def waiting_cb_def in_view_def)
qed (use assms(3) in \<open>auto simp: new_events_def\<close>)

lemma not_running_not_held: "runs m F = 0 \<Longrightarrow> held_cb m t F = 0 \<and> running_cb m t F = 0"
proof (induction F)
  case (add f F)
  then show ?case by (cases f) (auto split: if_splits)
qed simp

lemma a_step_deregistered:
  assumes inv: "a_inv a" and st: "a_step a b" and e: "Deregistered m t \<in> set (new_events a b)"
  shows "waiting_cb m t b = 0"
  using st
proof cases
  case (a_deregister k v u)
  then have k: "k = m" "u = t" using e by (auto simp: new_events_def)
  have "runs m (a_frames a) = 0" using a_invD(1) [OF inv a_deregister(2)] a_deregister(3) k
    by (auto simp: view_ok_def v_stopping_def)
  then show ?thesis using a_deregister k not_running_not_held [of m "a_frames a" t]
    by (simp add: waiting_cb_def in_view_def)
qed (use e in \<open>auto simp: new_events_def\<close>)

section \<open>Quiet managers\<close>

fun idle_frame :: "nat \<Rightarrow> frame \<Rightarrow> bool" where
  "idle_frame m (Run k cbs r cs n) = (k = m \<longrightarrow> cbs = {} \<and> r = None)"
| "idle_frame m _ = True"

definition quiet :: "nat \<Rightarrow> abs_system \<Rightarrow> bool" where
  "quiet m a = (m < a_size a \<and> (\<forall>v. a_views a m = Some v \<longrightarrow> v_stopping v) \<and> (\<forall>f\<in>#a_frames a. idle_frame m f))"

lemma no_run_idle: "no_run F \<Longrightarrow> f \<in># F \<Longrightarrow> idle_frame m f"
  by (cases f) (auto simp: no_run_def)

lemma quiet_step:
  assumes st: "a_step a b" and q: "quiet m a"
  shows "quiet m b" "Begin m t \<notin> set (new_events a b)"
proof -
  show "quiet m b"
    using st
  proof cases
    case (a_move M F G)
    then show ?thesis using q no_run_idle [OF a_move(4)] by (auto simp: quiet_def)
  next
    case (a_lock k v M cs)
    then have "k \<noteq> m" using q by (auto simp: quiet_def)
    then show ?thesis using a_lock q by (auto simp: quiet_def)
  qed (use q in \<open>auto simp: quiet_def v_stopping_def fresh_view_def\<close>)
  show "Begin m t \<notin> set (new_events a b)"
    using st q by (cases rule: a_step.cases) (auto simp: new_events_def quiet_def)
qed

lemma quiet_not_running: "quiet m a \<Longrightarrow> running_cb m t (a_frames a) = 0"
proof -
  have "(\<forall>f\<in>#F. idle_frame m f) \<Longrightarrow> running_cb m t F = 0" for F
  proof (induction F)
    case (add f F)
    then show ?case by (cases f) auto
  qed simp
  then show "quiet m a \<Longrightarrow> ?thesis" by (simp add: quiet_def)
qed

lemma refused_quiet:
  assumes inv: "a_inv a" and st: "a_step a b" and e: "Refused m t \<in> set (new_events a b)"
  shows "quiet m b"
  using st
proof cases
  case (a_refuse k v u)
  then have k: "k = m" using e by (auto simp: new_events_def)
  note v = a_refuse(2) [unfolded k]
  have stop: "v_stopping v" using a_refuse(3) a_invD(1) [OF inv v] by (auto simp: view_ok_def v_stopping_def)
  have "idle_frame m f" if f: "f \<in># a_frames a" for f
  proof (cases f)
    case (Run j cbs r cs n)
    show ?thesis
    proof (cases "j = m")
      case True
      then have "0 < runs m (a_frames a)" using f Run runs_zero [of m "a_frames a"] by auto
      then have "v_cancelling v" "\<not> v_cancelled v" "\<not> v_notified v"
        using a_invD(1) [OF inv v] by (auto simp: view_ok_def split: if_splits)
      then have "\<not> v_state v" using a_refuse(3) by simp
      then show ?thesis using a_invD(5) [OF inv f] Run True v by (auto split: if_splits)
    qed (simp add: Run)
  qed simp_all
  then show ?thesis using a_refuse stop v a_invD(4) [OF inv v] by (auto simp: quiet_def)
qed (use e in \<open>auto simp: new_events_def\<close>)

section \<open>The log\<close>

definition a_start :: "abs_system \<Rightarrow> bool" where
  "a_start a = (a = \<lparr>a_views = Map.empty, a_size = 0, a_frames = {#}, a_log = []\<rparr>)"

definition log_inv :: "abs_system \<Rightarrow> bool" where
  "log_inv a = ((\<forall>m t. count_list (a_log a) (Begin m t) = count_list (a_log a) (End m t) + running_cb m t (a_frames a))
     \<and> (\<forall>m t. waiting_cb m t a + count_list (a_log a) (Begin m t) \<le> count_list (a_log a) (Registered m t))
     \<and> (\<forall>m t xs ys. a_log a = xs @ Deregistered m t # ys \<and> Registered m t \<notin> set ys \<longrightarrow>
          waiting_cb m t a = 0 \<and> Begin m t \<notin> set ys)
     \<and> (\<forall>m t xs ys. a_log a = xs @ Refused m t # ys \<longrightarrow>
          quiet m a \<and> (\<forall>k. Begin m k \<notin> set ys \<and> count_list xs (Begin m k) = count_list xs (End m k)))
     \<and> (\<forall>m t. Registered m t \<in> set (a_log a) \<longrightarrow> m < a_size a)
     \<and> (\<forall>m t. Registered m t \<in> set (a_log a) \<and> Deregistered m t \<notin> set (a_log a) \<longrightarrow>
          waiting_cb m t a \<noteq> 0 \<or> Begin m t \<in> set (a_log a) \<or> a_views a m = None))"

definition abs_inv :: "abs_system \<Rightarrow> bool" where
  "abs_inv a = (a_inv a \<and> log_inv a)"

lemma split_snoc:
  assumes "L @ N = xs @ e # ys" "length N \<le> 1"
  shows "(\<exists>zs. L = xs @ e # zs \<and> ys = zs @ N) \<or> (N = [e] \<and> xs = L \<and> ys = [])"
proof (cases N)
  case Nil
  then show ?thesis using assms by simp
next
  case (Cons n ns)
  then have N: "N = [n]" using assms(2) by simp
  show ?thesis using assms(1) unfolding N by (cases ys rule: rev_cases) auto
qed

lemma a_step_none: "a_step a b \<Longrightarrow> m < a_size a \<Longrightarrow> a_views a m = None \<Longrightarrow> a_views b m = None"
  by (cases rule: a_step.cases) auto

lemma a_step_size: "a_step a b \<Longrightarrow> a_size a \<le> a_size b"
  by (cases rule: a_step.cases) auto

lemma log_inv_step:
  assumes inv: "a_inv a" and li: "log_inv a" and st: "a_step a b"
  shows "log_inv b"
proof -
  let ?N = "new_events a b"
  have log: "a_log b = a_log a @ ?N" and len: "length ?N \<le> 1" using a_step_log [OF st] by auto
  have 1: "count_list (a_log b) (Begin m t) = count_list (a_log b) (End m t) + running_cb m t (a_frames b)" for m t
  proof -
    have "count_list (a_log a) (Begin m t) = count_list (a_log a) (End m t) + running_cb m t (a_frames a)"
      using li by (simp add: log_inv_def)
    then show ?thesis using a_step_running [OF st, of m t] by (simp add: log)
  qed
  have 2: "waiting_cb m t b + count_list (a_log b) (Begin m t) \<le> count_list (a_log b) (Registered m t)" for m t
  proof -
    have "waiting_cb m t a + count_list (a_log a) (Begin m t) \<le> count_list (a_log a) (Registered m t)"
      using li unfolding log_inv_def by blast
    then show ?thesis using a_step_waiting [OF inv st, of m t] by (simp add: log)
  qed
  have 3: "waiting_cb m t b = 0 \<and> Begin m t \<notin> set ys"
    if e: "a_log b = xs @ Deregistered m t # ys" and r: "Registered m t \<notin> set ys" for m t xs ys
    using split_snoc [OF e [unfolded log] len]
  proof
    assume "\<exists>zs. a_log a = xs @ Deregistered m t # zs \<and> ys = zs @ ?N"
    then obtain zs where zs: "a_log a = xs @ Deregistered m t # zs" "ys = zs @ ?N" by blast
    then have old: "waiting_cb m t a = 0" "Begin m t \<notin> set zs" using li r unfolding log_inv_def by auto
    have "count_list ?N (Registered m t) = 0" using r zs by (simp add: count_list_0_iff)
    then have "waiting_cb m t b = 0" "count_list ?N (Begin m t) = 0" using a_step_waiting [OF inv st, of m t] old by auto
    then show ?thesis using old zs by (simp add: count_list_0_iff)
  qed (use a_step_deregistered [OF inv st] in auto)
  have 4: "quiet m b \<and> (\<forall>k. Begin m k \<notin> set ys \<and> count_list xs (Begin m k) = count_list xs (End m k))"
    if e: "a_log b = xs @ Refused m t # ys" for m t xs ys
    using split_snoc [OF e [unfolded log] len]
  proof
    assume "\<exists>zs. a_log a = xs @ Refused m t # zs \<and> ys = zs @ ?N"
    then obtain zs where zs: "a_log a = xs @ Refused m t # zs" "ys = zs @ ?N" by blast
    then have old: "quiet m a" "\<forall>k. Begin m k \<notin> set zs \<and> count_list xs (Begin m k) = count_list xs (End m k)"
      using li unfolding log_inv_def by blast+
    then show ?thesis using quiet_step [OF st old(1)] zs by auto
  next
    assume e: "?N = [Refused m t] \<and> xs = a_log a \<and> ys = []"
    then have q: "quiet m b" using refused_quiet [OF inv st] by auto
    have "count_list (a_log b) (Begin m k) = count_list (a_log b) (End m k)" for k
      using 1 [of m k] quiet_not_running [OF q, of k] by simp
    then show ?thesis using e q by (simp add: log)
  qed
  have 5: "m < a_size b" if "Registered m t \<in> set (a_log b)" for m t
  proof (cases "Registered m t \<in> set ?N")
    case False
    then have "Registered m t \<in> set (a_log a)" using that log by auto
    then have "m < a_size a" using li unfolding log_inv_def by blast
    then show ?thesis using a_step_size [OF st] by simp
  qed (use a_step_registered [OF inv st] in blast)
  have 6: "waiting_cb m t b \<noteq> 0 \<or> Begin m t \<in> set (a_log b) \<or> a_views b m = None"
    if r: "Registered m t \<in> set (a_log b)" "Deregistered m t \<notin> set (a_log b)" for m t
  proof (cases "Registered m t \<in> set ?N")
    case False
    then have old: "Registered m t \<in> set (a_log a)" "Deregistered m t \<notin> set (a_log a)" using r log by auto
    have "\<forall>m t. Registered m t \<in> set (a_log a) \<and> Deregistered m t \<notin> set (a_log a) \<longrightarrow>
        waiting_cb m t a \<noteq> 0 \<or> Begin m t \<in> set (a_log a) \<or> a_views a m = None"
      using li unfolding log_inv_def by (elim conjE)
    then have "waiting_cb m t a \<noteq> 0 \<or> Begin m t \<in> set (a_log a) \<or> a_views a m = None" using old by simp
    moreover have "m < a_size a" using li old unfolding log_inv_def by blast
    ultimately show ?thesis using a_step_kept [OF inv st, of m t] a_step_none [OF st, of m] r log by auto
  qed (use a_step_registered [OF inv st] in blast)
  show ?thesis unfolding log_inv_def
    by (intro conjI allI impI; (rule 1 2 | elim conjE; rule 3 [THEN conjunct1] 3 [THEN conjunct2]; assumption
      | rule 4 [THEN conjunct1] 4 [THEN conjunct2, rule_format, THEN conjunct1] 4 [THEN conjunct2, rule_format, THEN conjunct2]; assumption
      | rule 5; assumption | elim conjE; rule 6; assumption))
qed

interpretation cm: invariant_system a_start a_step abs_inv
proof
  show "a_start a \<Longrightarrow> abs_inv a" for a
    by (simp add: a_start_def abs_inv_def a_inv_def log_inv_def waiting_cb_def in_view_def)
  show "abs_inv a \<Longrightarrow> a_step a b \<Longrightarrow> abs_inv b" for a b
    using a_step_inv log_inv_step by (auto simp: abs_inv_def)
qed

lemma cm_reach_inv:
  assumes "reach cm_start cm_step s"
  shows "a_inv (abs_of s)" "log_inv (abs_of s)"
proof -
  have "abs_inv (abs_of s)" using cm.reach_inv cm_reach_abs [OF assms] by (simp add: a_start_def [abs_def])
  then show "a_inv (abs_of s)" "log_inv (abs_of s)" by (simp_all add: abs_inv_def)
qed

section \<open>Properties\<close>

text \<open>
  C18: in every interleaving of registrations, deregistrations, cancellations and
  destructions, a callback runs at most as often as it has been registered; it does not run
  after its deregistration has succeeded, unless it is registered again; and when
  \<open>DeregisterCallback\<close> has returned false no callback of the manager is running, and none
  runs afterwards.
\<close>

theorem deregistration_is_final:
  assumes "reach cm_start cm_step s"
  shows "count_list (cs_log s) (Begin m t) \<le> count_list (cs_log s) (Registered m t)
    \<and> (\<forall>xs ys. cs_log s = xs @ Deregistered m t # ys \<and> Registered m t \<notin> set ys \<longrightarrow> Begin m t \<notin> set ys)
    \<and> (\<forall>xs ys u. cs_log s = xs @ Refused m u # ys \<longrightarrow>
         Begin m t \<notin> set ys \<and> count_list xs (Begin m t) = count_list xs (End m t))"
proof -
  have l: "a_log (abs_of s) = cs_log s" by (simp add: abs_of_def)
  note li = cm_reach_inv(2) [OF assms, unfolded log_inv_def l]
  have "waiting_cb m t (abs_of s) + count_list (cs_log s) (Begin m t) \<le> count_list (cs_log s) (Registered m t)"
    using li by blast
  then show ?thesis using li by (intro conjI) (linarith | blast)+
qed

text \<open>A run: a callback is registered, the manager cancelled, and a deregistration refused.\<close>

definition sample_system :: "bool \<Rightarrow> frame list list \<Rightarrow> event list \<Rightarrow> token set \<Rightarrow> bool \<Rightarrow> bool \<Rightarrow> cm_system" where
  "sample_system cancelled stacks es cbs notif ing =
     \<lparr>cs_store = [Some (new_manager\<lparr>is_cancelled := cancelled, is_cancelling := ing,
        cm_state := Some \<lparr>cancelled_notification = notif, callbacks = cbs, first_child = None\<rparr>\<rparr>)],
      cs_threads = stacks, cs_waiting = [], cs_log = es\<rparr>"

lemma cm_sample_reach:
  "reach cm_start cm_step (sample_system True [[]] [Registered 0 5, Begin 0 5, End 0 5, Refused 0 5] {} True False)"
proof -
  let ?S = sample_system
  let ?s0 = "\<lparr>cs_store = [], cs_threads = [], cs_waiting = [], cs_log = []\<rparr>"
  let ?s1 = "?s0\<lparr>cs_store := [Some new_manager]\<rparr>"
  have "reach cm_start cm_step ?s0" by (rule reach_init) (simp add: cm_start_def)
  then have "reach cm_start cm_step ?s1"
    by (rule reach_step) (use step_new [of ?s0 "[Some new_manager]" 0] in \<open>simp add: NewManager_def\<close>)
  then have "reach cm_start cm_step (?S False [] [Registered 0 5] {5} False False)"
    by (rule reach_step) (use step_register [of ?s1 0 5 _ True] in
      \<open>simp add: RegisterCallback_def lookup_cm_def stopping_def new_manager_def put_cm_def ensure_state_def
         new_cm_state_def sample_system_def\<close>)
  then have "reach cm_start cm_step (?S False [[Enter 0]] [Registered 0 5] {5} False False)"
    by (rule reach_step) (use step_start [of "?S False [] [Registered 0 5] {5} False False" 0] in \<open>simp add: sample_system_def\<close>)
  then have "reach cm_start cm_step (?S False [[Run 0 {5} None [] True]] [Registered 0 5] {} False True)"
    by (rule reach_step) (use step_cancel [of 0 "?S False [[Enter 0]] [Registered 0 5] {5} False False" 0] in
      \<open>simp add: sample_system_def cancel_step_def StartCancel_lock_def lookup_cm_def stopping_def new_manager_def
         put_cm_def update_cm_def ensure_state_def\<close>)
  then have "reach cm_start cm_step (?S False [[Run 0 {} (Some 5) [] True]] [Registered 0 5, Begin 0 5] {} False True)"
    by (rule reach_step) (use step_cancel [of 0 "?S False [[Run 0 {5} None [] True]] [Registered 0 5] {} False True" 5] in
      \<open>simp add: sample_system_def cancel_step_def\<close>)
  then have "reach cm_start cm_step (?S False [[Run 0 {} None [] True]] [Registered 0 5, Begin 0 5, End 0 5] {} False True)"
    by (rule reach_step) (use step_cancel [of 0 "?S False [[Run 0 {} (Some 5) [] True]] [Registered 0 5, Begin 0 5] {} False True" 5] in
      \<open>simp add: sample_system_def cancel_step_def\<close>)
  then have "reach cm_start cm_step (?S True [[Notify 0]] [Registered 0 5, Begin 0 5, End 0 5] {} False False)"
    by (rule reach_step) (use step_cancel [of 0 "?S False [[Run 0 {} None [] True]] [Registered 0 5, Begin 0 5, End 0 5] {} False True" 5] in
      \<open>simp add: sample_system_def cancel_step_def StartCancel_finish_def update_cm_def lookup_cm_def put_cm_def new_manager_def\<close>)
  then have "reach cm_start cm_step (?S True [[]] [Registered 0 5, Begin 0 5, End 0 5] {} True False)"
    by (rule reach_step) (use step_cancel [of 0 "?S True [[Notify 0]] [Registered 0 5, Begin 0 5, End 0 5] {} False False" 5] in
      \<open>simp add: sample_system_def cancel_step_def StartCancel_notify_def update_cm_def lookup_cm_def put_cm_def new_manager_def ensure_state_def\<close>)
  then show ?thesis
    by (rule reach_step) (use step_deregister [of "?S True [[]] [Registered 0 5, Begin 0 5, End 0 5] {} True False" 0 5 _ False] in
      \<open>simp add: sample_system_def DeregisterCallback_def lookup_cm_def new_manager_def\<close>)
qed

theorem deregistration_is_final_witness:
  "\<exists>s. reach cm_start cm_step s \<and> cs_log s = [Registered 0 5, Begin 0 5, End 0 5, Refused 0 5]
    \<and> count_list (cs_log s) (Begin 0 5) \<le> 1"
  using deregistration_is_final [OF cm_sample_reach, of 0 5] cm_sample_reach
  by (intro exI [of _ "sample_system True [[]] [Registered 0 5, Begin 0 5, End 0 5, Refused 0 5] {} True False"])
    (simp add: sample_system_def)

text \<open>
  C34: once a manager is cancelled, every callback that was registered and never deregistered
  has been called.
\<close>

theorem cancellation_reaches_callbacks:
  assumes "reach cm_start cm_step s" "IsCancelled (cs_store s) m = Some True"
    "Registered m t \<in> set (cs_log s)" "Deregistered m t \<notin> set (cs_log s)"
  shows "Begin m t \<in> set (cs_log s) \<and> End m t \<in> set (cs_log s)"
proof -
  have l: "a_log (abs_of s) = cs_log s" by (simp add: abs_of_def)
  note inv = cm_reach_inv(1) [OF assms(1)] and li = cm_reach_inv(2) [OF assms(1), unfolded log_inv_def l]
  obtain x where x: "lookup_cm (cs_store s) m = Some x" "is_cancelled x" using assms(2) by (auto simp: IsCancelled_def)
  then have v: "a_views (abs_of s) m = Some (view_of x)" by (simp add: abs_of_def vw_def)
  note ok = a_invD(1) [OF inv v]
  have "runs m (a_frames (abs_of s)) = 0" "v_callbacks (view_of x) = {}"
    using ok x(2) by (auto simp: view_ok_def view_of_def v_stopping_def)
  then have w: "waiting_cb m t (abs_of s) = 0" "running_cb m t (a_frames (abs_of s)) = 0"
    using not_running_not_held v by (auto simp: waiting_cb_def in_view_def)
  have b: "Begin m t \<in> set (cs_log s)" using li assms(3,4) w v by fastforce
  have "count_list (cs_log s) (Begin m t) = count_list (cs_log s) (End m t)" using li w by simp
  then show ?thesis using b by (metis count_list_0_iff)
qed

theorem cancellation_reaches_callbacks_witness:
  "\<exists>s. reach cm_start cm_step s \<and> IsCancelled (cs_store s) 0 = Some True \<and> End 0 5 \<in> set (cs_log s)"
proof -
  let ?s = "sample_system True [[]] [Registered 0 5, Begin 0 5, End 0 5, Refused 0 5] {} True False"
  have c: "IsCancelled (cs_store ?s) 0 = Some True" by (simp add: sample_system_def IsCancelled_def lookup_cm_def)
  have "Registered 0 5 \<in> set (cs_log ?s)" "Deregistered 0 5 \<notin> set (cs_log ?s)" by (simp_all add: sample_system_def)
  then have "End 0 5 \<in> set (cs_log ?s)" using cancellation_reaches_callbacks [OF cm_sample_reach c] by blast
  then show ?thesis using cm_sample_reach c by blast
qed

text \<open>
  The destructor of a child can dereference a null pointer: while a parent without
  callbacks and children is being cancelled, a child can be created, and when the child is
  destroyed before the cancellation ends, \<open>DeregisterChild\<close> takes the address of the
  notification of a \<open>state_\<close> the parent does not have.
\<close>

theorem child_destructor_race:
  "\<exists>s p c x. reach cm_start cm_step s \<and> lookup_cm (cs_store s) p \<noteq> None \<and> lookup_cm (cs_store s) c = Some x
    \<and> parent x = Some p \<and> is_removed_from_parent x \<and> DeregisterChild (cs_store s) p c = None"
proof -
  let ?s0 = "\<lparr>cs_store = [], cs_threads = [], cs_waiting = [], cs_log = []\<rparr>"
  let ?s1 = "?s0\<lparr>cs_store := [Some new_manager]\<rparr>"
  let ?s2 = "?s1\<lparr>cs_threads := [[Enter 0]]\<rparr>"
  let ?p = "new_manager\<lparr>is_cancelling := True\<rparr>"
  let ?c = "new_manager\<lparr>parent := Some 0, is_removed_from_parent := True, is_cancelled := True\<rparr>"
  let ?s3 = "\<lparr>cs_store = [Some ?p], cs_threads = [[Run 0 {} None [] False]], cs_waiting = [], cs_log = []\<rparr>"
  let ?s4 = "?s3\<lparr>cs_store := [Some ?p, Some ?c]\<rparr>"
  have "reach cm_start cm_step ?s0" by (rule reach_init) (simp add: cm_start_def)
  then have "reach cm_start cm_step ?s1"
    by (rule reach_step) (use step_new [of ?s0 "[Some new_manager]" 0] in \<open>simp add: NewManager_def\<close>)
  then have "reach cm_start cm_step ?s2" by (rule reach_step) (use step_start [of ?s1 0] in simp)
  then have "reach cm_start cm_step ?s3"
    by (rule reach_step) (use step_cancel [of 0 ?s2 0] in
      \<open>simp add: cancel_step_def StartCancel_lock_def lookup_cm_def stopping_def new_manager_def put_cm_def\<close>)
  then have "reach cm_start cm_step ?s4"
    by (rule reach_step) (use step_child [of ?s3 0 "[Some ?p, Some ?c]" 1] in
      \<open>simp add: NewChild_def RegisterChild_def lookup_cm_def stopping_def new_manager_def put_cm_def update_cm_def\<close>)
  moreover have "DeregisterChild (cs_store ?s4) 0 1 = None"
    by (simp add: DeregisterChild_def lookup_cm_def new_manager_def)
  ultimately show ?thesis
    by (intro exI [of _ ?s4] exI [of _ 0] exI [of _ 1] exI [of _ ?c]) (simp add: lookup_cm_def)
qed

end
