(* ===== verification/Rendezvous.thy ===== *)
theory Rendezvous
  imports Device_Names Cancel_Manager
begin

text \<open>
  Rendezvous keys (core/framework/rendezvous.cc and .h, core/platform/numbers.cc) and
  \<open>LocalRendezvous\<close> (core/framework/local_rendezvous.cc and .h), which matches the tensors
  sent under a key with the receivers that wait under it.
\<close>

section \<open>Keys\<close>

definition hex_char :: "nat \<Rightarrow> char" where
  "hex_char d = ''0123456789abcdef'' ! d"

text \<open>\<open>Uint64ToHexString\<close>: the loop fills the buffer from its end.\<close>

fun hex_loop :: "nat \<Rightarrow> 64 word \<Rightarrow> string \<Rightarrow> string" where
  "hex_loop 0 v buf = buf"
| "hex_loop (Suc i) v buf = hex_loop i (drop_bit 4 v) (hex_char (unat (and v 0xf)) # buf)"

definition Uint64ToHexString :: "64 word \<Rightarrow> string" where
  "Uint64ToHexString v = hex_loop 16 v []"

definition hex_value :: "char \<Rightarrow> nat option" where
  "hex_value c =
     (if 48 \<le> ascii c \<and> ascii c \<le> 57 then Some (ascii c - 48)
      else if 97 \<le> ascii c \<and> ascii c \<le> 102 then Some (10 + (ascii c - 97))
      else if 65 \<le> ascii c \<and> ascii c \<le> 70 then Some (10 + (ascii c - 65))
      else None)"

fun unhex_loop :: "64 word \<Rightarrow> string \<Rightarrow> 64 word option" where
  "unhex_loop v [] = Some v"
| "unhex_loop v (c # cs) =
     (case hex_value c of None \<Rightarrow> None | Some d \<Rightarrow> unhex_loop (push_bit 4 v + of_nat d) cs)"

definition HexStringToUint64 :: "string \<Rightarrow> 64 word option" where
  "HexStringToUint64 s = (if s = [] then None else unhex_loop 0 s)"

record frame_and_iter =
  frame_id :: "64 word"
  iter_id :: int

definition CreateKey :: "string \<Rightarrow> 64 word \<Rightarrow> string \<Rightarrow> string \<Rightarrow> frame_and_iter \<Rightarrow> string" where
  "CreateKey src_device src_incarnation dst_device name frame_iter =
     src_device @ '';'' @ Uint64ToHexString src_incarnation @ '';'' @ dst_device @ '';'' @ name @ '';''
     @ show_nat (unat (frame_id frame_iter)) @ '':'' @ show_int (iter_id frame_iter)"

fun ConsumeNextPart :: "string \<Rightarrow> char \<Rightarrow> string \<times> string" where
  "ConsumeNextPart [] delim = ([], [])"
| "ConsumeNextPart (c # s) delim =
     (if c = delim then ([], s) else let (part, rest) = ConsumeNextPart s delim in (c # part, rest))"

record parsed_key =
  pk_src_device :: string
  pk_src :: parsed_name
  pk_src_incarnation :: "64 word"
  pk_dst_device :: string
  pk_dst :: parsed_name
  pk_edge_name :: string
  pk_buf :: string

text \<open>\<open>ParseKey\<close>: the parsed key, or the error.\<close>

definition ParseKey :: "(string \<Rightarrow> string \<Rightarrow> bool) \<Rightarrow> string \<Rightarrow> status + parsed_key" where
  "ParseKey starts key =
     (let (p0, s0) = ConsumeNextPart key (CHR '';'');
          (p1, s1) = ConsumeNextPart s0 (CHR '';'');
          (p2, s2) = ConsumeNextPart s1 (CHR '';'');
          (p3, s3) = ConsumeNextPart s2 (CHR '';'');
          (p4, s4) = ConsumeNextPart s3 (CHR '';'');
          err = Inl (mk_status INVALID_ARGUMENT (''Invalid  rendezvous key: '' @ key))
      in if s4 \<noteq> [] \<or> p4 = [] then err
         else case ParseFullName starts p0 of None \<Rightarrow> err | Some src \<Rightarrow>
              (case HexStringToUint64 p1 of None \<Rightarrow> err | Some incarnation \<Rightarrow>
              (case ParseFullName starts p2 of None \<Rightarrow> err | Some dst \<Rightarrow>
                 if p3 = [] then err
                 else Inr \<lparr>pk_src_device = p0, pk_src = src, pk_src_incarnation = incarnation,
                        pk_dst_device = p2, pk_dst = dst, pk_edge_name = p3, pk_buf = key\<rparr>)))"

section \<open>The table\<close>

text \<open>
  A queue is the list of its items from \<open>head\<close> to \<open>tail\<close>, and the table has the hashes of the keys.
  A callback, which the code calls after it has released the lock, is part of the step. The arguments of an operation, the
  tensors and the done callbacks are values of the types \<open>'a\<close>, \<open>'v\<close> and \<open>'w\<close>; \<open>None\<close> is
  \<open>Rendezvous::Args()\<close> and \<open>Tensor()\<close>. The callback of a receiver with a cancellation
  manager is wrapped: it deregisters the token before it calls \<open>done\<close>.
\<close>

datatype 'w waiter = Plain 'w | Deregister_First nat token 'w

datatype ('a, 'v, 'w) item =
    Send_Item 'a 'v bool
  | Recv_Item 'a "'w waiter" token

type_synonym key_hash = "64 word"

record ('a, 'v, 'w) rendezvous =
  rz_table :: "key_hash \<Rightarrow> ('a, 'v, 'w) item list option"
  rz_status :: status

definition new_rendezvous :: "('a, 'v, 'w) rendezvous" where
  "new_rendezvous = \<lparr>rz_table = Map.empty, rz_status = ok_status\<rparr>"

text \<open>A call of a done callback, with its five arguments.\<close>

record ('a, 'v, 'w) call =
  c_done :: 'w
  c_status :: status
  c_send_args :: "'a option"
  c_recv_args :: "'a option"
  c_value :: "'v option"
  c_dead :: bool

definition is_send_item :: "('a, 'v, 'w) item \<Rightarrow> bool" where
  "is_send_item i = (case i of Send_Item _ _ _ \<Rightarrow> True | _ \<Rightarrow> False)"

text \<open>\<open>table_[key_hash]\<close> makes an empty queue where there is none.\<close>

definition queue_at :: "('a, 'v, 'w) rendezvous \<Rightarrow> key_hash \<Rightarrow> ('a, 'v, 'w) item list" where
  "queue_at r h = (case rz_table r h of None \<Rightarrow> [] | Some q \<Rightarrow> q)"

definition set_queue :: "('a, 'v, 'w) rendezvous \<Rightarrow> key_hash \<Rightarrow> ('a, 'v, 'w) item list \<Rightarrow> ('a, 'v, 'w) rendezvous" where
  "set_queue r h q = r\<lparr>rz_table := (rz_table r)(h \<mapsto> q)\<rparr>"

definition push_back :: "('a, 'v, 'w) item list \<Rightarrow> ('a, 'v, 'w) item \<Rightarrow> ('a, 'v, 'w) item list" where
  "push_back q i = q @ [i]"

text \<open>Taking the head: the entry is erased with its last item.\<close>

definition pop_queue :: "('a, 'v, 'w) rendezvous \<Rightarrow> key_hash \<Rightarrow> ('a, 'v, 'w) item list \<Rightarrow> ('a, 'v, 'w) rendezvous" where
  "pop_queue r h rest =
     (if rest = [] then r\<lparr>rz_table := (rz_table r)(h := None)\<rparr> else set_queue r h rest)"

definition call_waiter ::
  "cm_store \<Rightarrow> 'w waiter \<Rightarrow> ('w \<Rightarrow> ('a, 'v, 'w) call) \<Rightarrow> (cm_store \<times> ('a, 'v, 'w) call) option" where
  "call_waiter cms w call =
     (case w of
        Plain d \<Rightarrow> Some (cms, call d)
      | Deregister_First m t d \<Rightarrow> map_option (\<lambda>(cms1, _). (cms1, call d)) (TryDeregisterCallback cms m t))"

section \<open>Operations\<close>

text \<open>
  \<open>Send\<close> under a key with hash h: the new state, the status returned and the calls made. An
  item popped by \<open>Send\<close> that is not a receiver would be undefined: \<open>None\<close>.
\<close>

definition Send ::
  "key_hash \<Rightarrow> 'a \<Rightarrow> 'v \<Rightarrow> bool \<Rightarrow> cm_store \<times> ('a, 'v, 'w) rendezvous
     \<Rightarrow> ((cm_store \<times> ('a, 'v, 'w) rendezvous) \<times> status \<times> ('a, 'v, 'w) call list) option" where
  "Send h send_args val is_dead st =
     (case st of (cms, r) \<Rightarrow>
      if \<not> status_ok (rz_status r) then Some (st, rz_status r, [])
      else let q = queue_at r h in
        case q of
          [] \<Rightarrow> Some ((cms, set_queue r h (push_back q (Send_Item send_args val is_dead))), ok_status, [])
        | Send_Item _ _ _ # _ \<Rightarrow>
            Some ((cms, set_queue r h (push_back q (Send_Item send_args val is_dead))), ok_status, [])
        | Recv_Item recv_args w t # rest \<Rightarrow>
            map_option (\<lambda>(cms1, c). ((cms1, pop_queue r h rest), ok_status, [c]))
              (call_waiter cms w (\<lambda>d. \<lparr>c_done = d, c_status = ok_status, c_send_args = Some send_args,
                 c_recv_args = Some recv_args, c_value = Some val, c_dead = is_dead\<rparr>)))"

definition cancelled_status :: status where
  "cancelled_status = make_derived (mk_status CANCELLED ''RecvAsync is cancelled.'')"

definition cancelled_call :: "'a \<Rightarrow> 'w \<Rightarrow> ('a, 'v, 'w) call" where
  "cancelled_call recv_args d = \<lparr>c_done = d, c_status = cancelled_status, c_send_args = None,
     c_recv_args = Some recv_args, c_value = None, c_dead = False\<rparr>"

text \<open>
  \<open>RecvAsync\<close>; \<open>cm\<close> is \<open>recv_args.cancellation_manager\<close>. The callback it registers with the
  manager is \<open>OnCancel\<close> below, for this hash and token.
\<close>

definition RecvAsync ::
  "key_hash \<Rightarrow> 'a \<Rightarrow> nat option \<Rightarrow> 'w \<Rightarrow> cm_store \<times> ('a, 'v, 'w) rendezvous
     \<Rightarrow> ((cm_store \<times> ('a, 'v, 'w) rendezvous) \<times> ('a, 'v, 'w) call list) option" where
  "RecvAsync h recv_args cm d st =
     (case st of (cms, r) \<Rightarrow>
      if \<not> status_ok (rz_status r)
      then Some (st, [\<lparr>c_done = d, c_status = rz_status r, c_send_args = None, c_recv_args = Some recv_args,
                       c_value = None, c_dead = False\<rparr>])
      else let q = queue_at r h in
        case q of
          Send_Item send_args val is_dead # rest \<Rightarrow>
            Some ((cms, pop_queue r h rest),
                  [\<lparr>c_done = d, c_status = ok_status, c_send_args = Some send_args,
                    c_recv_args = Some recv_args, c_value = Some val, c_dead = is_dead\<rparr>])
        | _ \<Rightarrow>
            (case cm of
               None \<Rightarrow> Some ((cms, set_queue r h (push_back q (Recv_Item recv_args (Plain d) kInvalidToken))), [])
             | Some m \<Rightarrow>
                Option.bind (get_cancellation_token cms m) (\<lambda>(cms1, t).
                Option.bind (RegisterCallback cms1 m t) (\<lambda>(cms2, registered).
                  if \<not> registered
                  then Some ((cms2, set_queue r h q), [cancelled_call recv_args d])
                  else Some ((cms2, set_queue r h (push_back q (Recv_Item recv_args (Deregister_First m t d) t))), [])))))"

text \<open>
  The cancellation callback: the first receiver in the queue with the token is removed, and
  called with the derived cancellation.
\<close>

fun remove_token ::
  "token \<Rightarrow> ('a, 'v, 'w) item list \<Rightarrow> (('a \<times> 'w waiter) \<times> ('a, 'v, 'w) item list) option" where
  "remove_token t [] = None"
| "remove_token t (Send_Item a v b # q) = map_option (\<lambda>(x, q'). (x, Send_Item a v b # q')) (remove_token t q)"
| "remove_token t (Recv_Item a w u # q) =
     (if u = t then Some ((a, w), q)
      else map_option (\<lambda>(x, q'). (x, Recv_Item a w u # q')) (remove_token t q))"

definition OnCancel ::
  "key_hash \<Rightarrow> token \<Rightarrow> cm_store \<times> ('a, 'v, 'w) rendezvous
     \<Rightarrow> ((cm_store \<times> ('a, 'v, 'w) rendezvous) \<times> ('a, 'v, 'w) call list) option" where
  "OnCancel h t st =
     (case st of (cms, r) \<Rightarrow>
      let q = queue_at r h in
      if q = [] \<or> is_send_item (hd q) then Some ((cms, set_queue r h q), [])
      else case remove_token t q of
        None \<Rightarrow> Some ((cms, set_queue r h q), [])
      | Some ((recv_args, w), rest) \<Rightarrow>
          map_option (\<lambda>(cms1, c). ((cms1, pop_queue r h rest), [c])) (call_waiter cms w (cancelled_call recv_args)))"

text \<open>
  \<open>StartAbort\<close>: the table is emptied, and every receiver called with the status, in the
  order of the table, which is the parameter \<open>order\<close>. A status that is ok fails a \<open>CHECK\<close>.
\<close>

fun abort_items ::
  "status \<Rightarrow> cm_store \<Rightarrow> ('a, 'v, 'w) item list \<Rightarrow> (cm_store \<times> ('a, 'v, 'w) call list) option" where
  "abort_items s cms [] = Some (cms, [])"
| "abort_items s cms (Send_Item _ _ _ # q) = abort_items s cms q"
| "abort_items s cms (Recv_Item _ w _ # q) =
     Option.bind (call_waiter cms w (\<lambda>d. \<lparr>c_done = d, c_status = s, c_send_args = None, c_recv_args = None,
               c_value = None, c_dead = False\<rparr>)) (\<lambda>(cms1, c).
     map_option (\<lambda>(cms2, cs). (cms2, c # cs)) (abort_items s cms1 q))"

definition StartAbort ::
  "key_hash list \<Rightarrow> status \<Rightarrow> cm_store \<times> ('a, 'v, 'w) rendezvous
     \<Rightarrow> ((cm_store \<times> ('a, 'v, 'w) rendezvous) \<times> ('a, 'v, 'w) call list) option" where
  "StartAbort order s st =
     (case st of (cms, r) \<Rightarrow>
      if status_ok s then None
      else map_option (\<lambda>(cms1, calls).
             ((cms1, \<lparr>rz_table = Map.empty, rz_status = status_update (rz_status r) s\<rparr>), calls))
           (abort_items s cms (concat (map (queue_at r) order))))"

text \<open>The destructor aborts unless the table is empty, that is, unless nothing is in \<open>order\<close>.\<close>

definition DestroyRendezvous ::
  "key_hash list \<Rightarrow> cm_store \<times> ('a, 'v, 'w) rendezvous
     \<Rightarrow> ((cm_store \<times> ('a, 'v, 'w) rendezvous) \<times> ('a, 'v, 'w) call list) option" where
  "DestroyRendezvous order st =
     (if order = [] then Some (st, [])
      else StartAbort order (mk_status CANCELLED ''LocalRendezvous deleted'') st)"

end
