(* ===== verification/Rendezvous_Props.thy ===== *)
theory Rendezvous_Props
  imports Rendezvous Device_Name_Props "HOL-Library.Multiset" "HOL-Library.Sublist"
begin

text \<open>
  What a rendezvous promises: keys parse back, the n-th delivery under a hash of a key carries the
  n-th tensor sent under it and the receivers are served in the order in which they come,
  every done callback is called exactly once or is still waiting, and
  an abort answers everybody. And the token two cancellation managers can share.
\<close>

section \<open>Keys\<close>

lemma hex_loop_length: "length (hex_loop i v buf) = i + length buf"
  by (induction i v buf rule: hex_loop.induct) auto

lemma hex_char_cases:
  assumes "d < 16"
  shows "hex_value (hex_char d) = Some d" "hex_char d \<noteq> CHR '';''"
proof -
  have "d \<in> set [0..<16]" using assms by simp
  moreover have "\<forall>d\<in>set [0..<16]. hex_value (hex_char d) = Some d \<and> hex_char d \<noteq> CHR '';''"
    by (simp add: hex_value_def hex_char_def ascii_def upt_conv_Cons)
  ultimately show "hex_value (hex_char d) = Some d" "hex_char d \<noteq> CHR '';''" by blast+
qed

lemma nibble_less: "unat (and (v :: 64 word) 0xf) < 16"
proof -
  have "and v 0xf = take_bit 4 v" by (simp add: take_bit_eq_mask mask_eq_exp_minus_1)
  then have "unat (and v 0xf) = take_bit 4 (unat v)" by (simp add: unsigned_take_bit_eq)
  then show ?thesis by (simp add: take_bit_eq_mod)
qed

lemma hex_loop_chars: "CHR '';'' \<notin> set buf \<Longrightarrow> CHR '';'' \<notin> set (hex_loop i v buf)"
  using hex_char_cases(2) [OF nibble_less]
  by (induction i v buf rule: hex_loop.induct) (auto simp: eq_commute)

lemma unhex_hex:
  "unhex_loop u (hex_loop i v buf) = unhex_loop (push_bit (4 * i) u + take_bit (4 * i) v) buf"
proof (induction i v buf arbitrary: u rule: hex_loop.induct)
  case (2 i v buf)
  let ?n = "and v 0xf"
  have n: "hex_value (hex_char (unat ?n)) = Some (unat ?n)" using hex_char_cases(1) [OF nibble_less] .
  have t: "?n = take_bit 4 v" by (simp add: take_bit_eq_mask mask_eq_exp_minus_1)
  have split: "push_bit 4 (take_bit (4 * i) (drop_bit 4 v)) + take_bit 4 v = take_bit (4 + 4 * i) v"
  proof -
    have "push_bit 4 (take_bit (4 * i) (drop_bit 4 v)) = push_bit 4 (drop_bit 4 (take_bit (4 + 4 * i) v))"
      by (simp add: drop_bit_take_bit)
    moreover have "take_bit 4 v = take_bit 4 (take_bit (4 + 4 * i) v)" by simp
    ultimately show ?thesis by (metis bits_ident)
  qed
  have "unhex_loop u (hex_loop (Suc i) v buf)
      = unhex_loop (push_bit 4 (push_bit (4 * i) u + take_bit (4 * i) (drop_bit 4 v)) + take_bit 4 v) buf"
    using 2 n by (simp add: t)
  also have "push_bit 4 (push_bit (4 * i) u + take_bit (4 * i) (drop_bit 4 v)) + take_bit 4 v
      = push_bit (4 * Suc i) u + (push_bit 4 (take_bit (4 * i) (drop_bit 4 v)) + take_bit 4 v)"
    by (simp add: push_bit_add)
  finally show ?case using split by simp
qed simp

lemma hex_roundtrip: "HexStringToUint64 (Uint64ToHexString v) = Some v"
proof -
  have "hex_loop 16 v [] \<noteq> []" using hex_loop_length [of 16 v "[]"] by auto
  moreover have "take_bit 64 v = v" using take_bit_length_eq [of v] by simp
  ultimately show ?thesis using unhex_hex [of 0 16 v "[]"]
    by (simp add: HexStringToUint64_def Uint64ToHexString_def)
qed

lemma next_part: "delim \<notin> set p \<Longrightarrow> ConsumeNextPart (p @ delim # s) delim = (p, s)"
  by (induction p) auto

lemma next_part_last: "delim \<notin> set p \<Longrightarrow> ConsumeNextPart p delim = (p, [])"
  by (induction p) auto

lemma show_nat_no_semicolon: "CHR '';'' \<notin> set (show_nat n)"
proof
  assume "CHR '';'' \<in> set (show_nat n)"
  then have "is_digit (CHR '';'')" using show_nat_digits [of n] by (auto simp: list_all_iff)
  then show False by (simp add: is_digit_def ascii_def)
qed

text \<open>
  A key made by \<open>CreateKey\<close> from two device names that parse and a non-empty name, none
  with a semicolon, is parsed by \<open>ParseKey\<close> into what it was made from.
\<close>

theorem rendezvous_key_roundtrip:
  assumes "ParseFullName starts src_device = Some src" "ParseFullName starts dst_device = Some dst"
    and "CHR '';'' \<notin> set src_device" "CHR '';'' \<notin> set dst_device" "CHR '';'' \<notin> set name" "name \<noteq> []"
  shows "ParseKey starts (CreateKey src_device incarnation dst_device name fi) =
    Inr \<lparr>pk_src_device = src_device, pk_src = src, pk_src_incarnation = incarnation,
      pk_dst_device = dst_device, pk_dst = dst, pk_edge_name = name,
      pk_buf = CreateKey src_device incarnation dst_device name fi\<rparr>"
proof -
  let ?hex = "Uint64ToHexString incarnation"
  let ?fi = "show_nat (unat (frame_id fi)) @ '':'' @ show_int (iter_id fi)"
  have hex: "CHR '';'' \<notin> set ?hex" by (simp add: Uint64ToHexString_def hex_loop_chars)
  have fi: "CHR '';'' \<notin> set ?fi" using show_nat_no_semicolon by (simp add: show_int_def)
  have key: "CreateKey src_device incarnation dst_device name fi =
      src_device @ CHR '';'' # (?hex @ CHR '';'' # (dst_device @ CHR '';'' # (name @ CHR '';'' # ?fi)))"
    by (simp add: CreateKey_def)
  show ?thesis
    unfolding ParseKey_def key
    using assms fi hex by (simp add: next_part next_part_last hex_roundtrip del: append_assoc append_Cons)
qed

theorem rendezvous_key_roundtrip_witness:
  "\<exists>k. ParseKey (\<lambda>s p. prefix p s) (CreateKey ''/'' 7 ''/'' ''edge'' \<lparr>frame_id = 1, iter_id = -1\<rparr>) = Inr k
     \<and> pk_src_incarnation k = 7 \<and> pk_edge_name k = ''edge''"
proof -
  have p: "ParseFullName (\<lambda>s p. prefix p s) ''/'' = Some cleared_name" by (simp add: ParseFullName_def)
  show ?thesis using rendezvous_key_roundtrip [OF p p, of "''edge''" 7 "\<lparr>frame_id = 1, iter_id = -1\<rparr>"] by simp
qed

section \<open>Every callback is called once\<close>

datatype ('a, 'v, 'w) op =
    Op_Send key_hash 'a 'v bool
  | Op_Recv key_hash 'a "nat option" 'w
  | Op_Cancel key_hash token
  | Op_Abort "key_hash list" status

text \<open>The order of an abort lists the keys of the table.\<close>

definition table_order :: "('a, 'v, 'w) rendezvous \<Rightarrow> key_hash list \<Rightarrow> bool" where
  "table_order r order = (distinct order \<and> set order = dom (rz_table r))"

definition run_op ::
  "('a, 'v, 'w) op \<Rightarrow> cm_store \<times> ('a, 'v, 'w) rendezvous
     \<Rightarrow> ((cm_store \<times> ('a, 'v, 'w) rendezvous) \<times> ('a, 'v, 'w) call list) option" where
  "run_op x st =
     (case x of
        Op_Send h a v b \<Rightarrow> map_option (\<lambda>(st1, s, cs). (st1, cs)) (Send h a v b st)
      | Op_Recv h a cm d \<Rightarrow> RecvAsync h a cm d st
      | Op_Cancel h t \<Rightarrow> OnCancel h t st
      | Op_Abort order s \<Rightarrow> if table_order (snd st) order then StartAbort order s st else None)"

fun run_ops ::
  "('a, 'v, 'w) op list \<Rightarrow> cm_store \<times> ('a, 'v, 'w) rendezvous
     \<Rightarrow> ((cm_store \<times> ('a, 'v, 'w) rendezvous) \<times> ('a, 'v, 'w) call list) option" where
  "run_ops [] st = Some (st, [])"
| "run_ops (x # xs) st = Option.bind (run_op x st) (\<lambda>(st1, cs).
     map_option (\<lambda>(st2, ds). (st2, cs @ ds)) (run_ops xs st1))"

fun waiter_of :: "'w waiter \<Rightarrow> 'w" where
  "waiter_of (Plain d) = d"
| "waiter_of (Deregister_First m t d) = d"

fun waiters :: "('a, 'v, 'w) item list \<Rightarrow> 'w list" where
  "waiters [] = []"
| "waiters (Send_Item a v b # q) = waiters q"
| "waiters (Recv_Item a w t # q) = waiter_of w # waiters q"

definition pend :: "'w \<Rightarrow> ('a, 'v, 'w) rendezvous \<Rightarrow> nat" where
  "pend d r = (\<Sum>h\<in>UNIV. count_list (waiters (queue_at r h)) d)"

lemma waiters_append [simp]: "waiters (p @ q) = waiters p @ waiters q"
  by (induction p rule: waiters.induct) auto

lemma queue_at_simps [simp]:
  "queue_at (set_queue r h q) k = (if k = h then q else queue_at r k)"
  "queue_at (pop_queue r h q) k = (if k = h then q else queue_at r k)"
  "rz_status (set_queue r h q) = rz_status r" "rz_status (pop_queue r h q) = rz_status r"
  by (auto simp: queue_at_def set_queue_def pop_queue_def)

lemma pend_change:
  assumes "\<And>k. queue_at r' k = (if k = h then q else queue_at r k)"
  shows "pend d r' + count_list (waiters (queue_at r h)) d = pend d r + count_list (waiters q) d"
proof -
  let ?f = "\<lambda>r k. count_list (waiters (queue_at r k)) d"
  have "pend d r = ?f r h + (\<Sum>k\<in>UNIV - {h}. ?f r k)" by (simp add: pend_def sum.remove [of UNIV h])
  moreover have "pend d r' = ?f r' h + (\<Sum>k\<in>UNIV - {h}. ?f r' k)" by (simp add: pend_def sum.remove [of UNIV h])
  moreover have "(\<Sum>k\<in>UNIV - {h}. ?f r' k) = (\<Sum>k\<in>UNIV - {h}. ?f r k)" by (rule sum.cong) (auto simp: assms)
  ultimately show ?thesis by (simp add: assms)
qed

lemma call_waiter_done:
  "call_waiter cms w f = Some (cms', c) \<Longrightarrow> c = f (waiter_of w)"
  by (cases w) (auto simp: call_waiter_def)

lemma remove_token_waiters:
  "remove_token t q = Some ((a, w), q') \<Longrightarrow> count_list (waiters q) d = count_list (waiters q') d + (if waiter_of w = d then 1 else 0)"
proof (induction t q arbitrary: q' rule: remove_token.induct)
  case (3 t a' w' u q)
  then show ?case by (cases "u = t") auto
qed auto

lemma abort_items_waiters: "abort_items s cms q = Some (cms', cs) \<Longrightarrow> map c_done cs = waiters q"
proof (induction s cms q arbitrary: cms' cs rule: abort_items.induct)
  case (3 s cms a w t q)
  then obtain cms1 c ds where c: "call_waiter cms w (\<lambda>d. \<lparr>c_done = d, c_status = s, c_send_args = None,
      c_recv_args = None, c_value = None, c_dead = False\<rparr>) = Some (cms1, c)"
    and q: "abort_items s cms1 q = Some (cms', ds)" "cs = c # ds" by (auto simp: bind_eq_Some_conv)
  then show ?case using 3(1) [OF c refl q(1)] call_waiter_done [OF c] by simp
qed auto

definition asks :: "('a, 'v, 'w) op \<Rightarrow> 'w \<Rightarrow> nat" where
  "asks x d = (case x of Op_Recv h a cm e \<Rightarrow> (if e = d then 1 else 0) | _ \<Rightarrow> 0)"

lemma send_conserves:
  assumes "Send h a v b st = Some (st', s, cs)"
  shows "count_list (map c_done cs) d + pend d (snd st') = pend d (snd st) \<and> rz_status (snd st') = rz_status (snd st)
    \<and> (\<not> status_ok (rz_status (snd st)) \<longrightarrow> st' = st \<and> s = rz_status (snd st) \<and> cs = [])"
proof (cases "status_ok (rz_status (snd st)) \<and> (\<exists>a w t rest. queue_at (snd st) h = Recv_Item a w t # rest)")
  case True
  obtain cms r where st: "st = (cms, r)" by (cases st)
  obtain a' w t rest where q: "queue_at r h = Recv_Item a' w t # rest" and ok: "status_ok (rz_status r)" using True st by auto
  obtain cms1 c where c: "call_waiter cms w (\<lambda>d. \<lparr>c_done = d, c_status = ok_status, c_send_args = Some a,
                 c_recv_args = Some a', c_value = Some v, c_dead = b\<rparr>) = Some (cms1, c)"
    and st': "st' = (cms1, pop_queue r h rest)" "cs = [c]"
    using assms q ok by (auto simp: Send_def st)
  have "c_done c = waiter_of w" using call_waiter_done [OF c] by simp
  then show ?thesis using pend_change [of "pop_queue r h rest" h rest r d] q st st' ok by auto
next
  case False
  obtain cms r where st: "st = (cms, r)" by (cases st)
  show ?thesis
  proof (cases "status_ok (rz_status r)")
    case True
    let ?q = "push_back (queue_at r h) (Send_Item a v b)"
    have "st' = (cms, set_queue r h ?q)" "cs = []"
      using assms False True by (auto simp: Send_def st Let_def split: list.splits item.splits)
    then show ?thesis using pend_change [of "set_queue r h ?q" h ?q r d] True by (simp add: st push_back_def)
  qed (use assms in \<open>auto simp: Send_def st\<close>)
qed

lemma recv_conserves:
  assumes "RecvAsync h a cm e st = Some (st', cs)"
  shows "count_list (map c_done cs) d + pend d (snd st') = pend d (snd st) + (if e = d then 1 else 0)
    \<and> rz_status (snd st') = rz_status (snd st)
    \<and> (\<not> status_ok (rz_status (snd st)) \<longrightarrow> st' = st \<and> (\<exists>c. cs = [c] \<and> c_done c = e \<and> c_status c = rz_status (snd st)))"
proof -
  obtain cms r where st: "st = (cms, r)" by (cases st)
  consider (abort) "\<not> status_ok (rz_status r)"
    | (take) a' v b rest where "status_ok (rz_status r)" "queue_at r h = Send_Item a' v b # rest"
    | (wait) "status_ok (rz_status r)" "\<nexists>a' v b rest. queue_at r h = Send_Item a' v b # rest"
    by blast
  then show ?thesis
  proof cases
    case abort
    then show ?thesis using assms by (auto simp: RecvAsync_def st)
  next
    case take
    then have "st' = (cms, pop_queue r h rest)" "map c_done cs = [e]" using assms by (auto simp: RecvAsync_def st)
    then show ?thesis using pend_change [of "pop_queue r h rest" h rest r d] take by (simp add: st)
  next
    case wait
    then have q: "queue_at r h = [] \<or> (\<exists>a' w t rest. queue_at r h = Recv_Item a' w t # rest)"
      by (cases "queue_at r h"; cases "hd (queue_at r h)") auto
    have "\<exists>cms1 q. st' = (cms1, set_queue r h q)
        \<and> count_list (map c_done cs) d + count_list (waiters q) d = count_list (waiters (queue_at r h)) d + (if e = d then 1 else 0)"
    proof (cases cm)
      case None
      let ?q = "push_back (queue_at r h) (Recv_Item a (Plain e) kInvalidToken)"
      have "st' = (cms, set_queue r h ?q) \<and> cs = []" using assms wait q None by (auto simp: RecvAsync_def st Let_def)
      then show ?thesis by (intro exI [of _ cms] exI [of _ ?q]) (simp add: push_back_def)
    next
      case (Some m)
      obtain cms1 t cms2 reg where t: "get_cancellation_token cms m = Some (cms1, t)"
        "RegisterCallback cms1 m t = Some (cms2, reg)"
        "Some (st', cs) = (if \<not> reg then Some ((cms2, set_queue r h (queue_at r h)), [cancelled_call a e])
           else Some ((cms2, set_queue r h (push_back (queue_at r h) (Recv_Item a (Deregister_First m t e) t))), []))"
        using assms wait q Some by (auto simp: RecvAsync_def st Let_def bind_eq_Some_conv)
      let ?q = "if reg then push_back (queue_at r h) (Recv_Item a (Deregister_First m t e) t) else queue_at r h"
      show ?thesis using t(3) by (intro exI [of _ cms2] exI [of _ ?q]) (auto simp: push_back_def cancelled_call_def)
    qed
    then obtain cms1 q where s: "st' = (cms1, set_queue r h q)"
      "count_list (map c_done cs) d + count_list (waiters q) d = count_list (waiters (queue_at r h)) d + (if e = d then 1 else 0)"
      by blast
    then show ?thesis using pend_change [of "set_queue r h q" h q r d] wait by (simp add: st)
  qed
qed

lemma cancel_conserves:
  assumes "OnCancel h t st = Some (st', cs)"
  shows "count_list (map c_done cs) d + pend d (snd st') = pend d (snd st) \<and> rz_status (snd st') = rz_status (snd st)"
proof -
  obtain cms r where st: "st = (cms, r)" by (cases st)
  show ?thesis
  proof (cases "queue_at r h = [] \<or> is_send_item (hd (queue_at r h)) \<or> remove_token t (queue_at r h) = None")
    case True
    then have "st' = (cms, set_queue r h (queue_at r h))" "cs = []" using assms by (auto simp: OnCancel_def st Let_def split: if_splits)
    then show ?thesis using pend_change [of "set_queue r h (queue_at r h)" h "queue_at r h" r d] by (simp add: st)
  next
    case False
    then obtain a w rest where x: "remove_token t (queue_at r h) = Some ((a, w), rest)" by auto
    obtain cms1 c where c: "call_waiter cms w (cancelled_call a) = Some (cms1, c)" and s: "st' = (cms1, pop_queue r h rest)" "cs = [c]"
      using assms False x by (auto simp: OnCancel_def st Let_def)
    have "c_done c = waiter_of w" using call_waiter_done [OF c] by (simp add: cancelled_call_def)
    then show ?thesis using pend_change [of "pop_queue r h rest" h rest r d] remove_token_waiters [OF x, of d] s
      by (auto simp: st)
  qed
qed

lemma abort_conserves:
  assumes "StartAbort order s st = Some (st', cs)" "table_order (snd st) order"
  shows "count_list (map c_done cs) d = pend d (snd st) \<and> pend d (snd st') = 0 \<and> \<not> status_ok s
    \<and> rz_status (snd st') = status_update (rz_status (snd st)) s"
proof -
  obtain cms r where st: "st = (cms, r)" by (cases st)
  obtain cms1 where a: "abort_items s cms (concat (map (queue_at r) order)) = Some (cms1, cs)"
    and s: "st' = (cms1, \<lparr>rz_table = Map.empty, rz_status = status_update (rz_status r) s\<rparr>)" "\<not> status_ok s"
    using assms(1) by (auto simp: StartAbort_def st split: if_splits)
  have o: "distinct order" "set order = dom (rz_table r)" using assms(2) by (simp_all add: table_order_def st)
  have "waiters (concat (map f xs)) = concat (map (waiters \<circ> f) xs)" for f :: "key_hash \<Rightarrow> ('a, 'b, 'c) item list" and xs
    by (induction xs) auto
  moreover have "count_list (concat (map f xs)) d = sum_list (map (\<lambda>x. count_list (f x) d) xs)" for f :: "key_hash \<Rightarrow> 'c list" and xs
    by (induction xs) auto
  ultimately have "count_list (map c_done cs) d = sum_list (map (\<lambda>h. count_list (waiters (queue_at r h)) d) order)"
    using abort_items_waiters [OF a] by simp
  also have "\<dots> = (\<Sum>h\<in>set order. count_list (waiters (queue_at r h)) d)" using o(1) by (simp add: sum_list_distinct_conv_sum_set)
  also have "\<dots> = pend d r" unfolding pend_def
    by (rule sum.mono_neutral_left) (auto simp: o(2) queue_at_def split: option.splits)
  finally show ?thesis using s by (simp add: st pend_def queue_at_def)
qed

fun requested :: "('a, 'v, 'w) op list \<Rightarrow> 'w list" where
  "requested [] = []"
| "requested (Op_Recv h a cm d # xs) = d # requested xs"
| "requested (_ # xs) = requested xs"

fun aborts :: "('a, 'v, 'w) op list \<Rightarrow> status list" where
  "aborts [] = []"
| "aborts (Op_Abort order s # xs) = s # aborts xs"
| "aborts (_ # xs) = aborts xs"

lemma requested_Cons: "count_list (requested (x # xs)) d = asks x d + count_list (requested xs) d"
  by (cases x) (auto simp: asks_def)

lemma run_op_conserves:
  assumes "run_op x st = Some (st', cs)"
  shows "count_list (map c_done cs) d + pend d (snd st') = pend d (snd st) + asks x d
    \<and> rz_status (snd st') = (case aborts [x] of [] \<Rightarrow> rz_status (snd st) | s # _ \<Rightarrow> status_update (rz_status (snd st)) s)
    \<and> (\<forall>s\<in>set (aborts [x]). \<not> status_ok s \<and> pend d (snd st') = 0)
    \<and> (\<not> status_ok (rz_status (snd st)) \<and> pend d (snd st) = 0 \<longrightarrow> pend d (snd st') = 0)"
proof (cases x)
  case (Op_Send h a v b)
  then obtain s where "Send h a v b st = Some (st', s, cs)" using assms by (auto simp: run_op_def)
  from send_conserves [OF this, of d] show ?thesis using Op_Send by (auto simp: asks_def)
next
  case (Op_Recv h a cm e)
  then have "RecvAsync h a cm e st = Some (st', cs)" using assms by (simp add: run_op_def)
  from recv_conserves [OF this, of d] show ?thesis using Op_Recv by (auto simp: asks_def)
next
  case (Op_Cancel h t)
  then have "OnCancel h t st = Some (st', cs)" using assms by (simp add: run_op_def)
  from cancel_conserves [OF this, of d] show ?thesis using Op_Cancel by (auto simp: asks_def)
next
  case (Op_Abort order s)
  then have "StartAbort order s st = Some (st', cs)" "table_order (snd st) order"
    using assms by (auto simp: run_op_def split: if_splits)
  from abort_conserves [OF this, of d] show ?thesis using Op_Abort by (auto simp: asks_def)
qed

lemma run_ops_conserves:
  assumes "run_ops xs st = Some (st', cs)"
  shows "count_list (map c_done cs) d + pend d (snd st') = pend d (snd st) + count_list (requested xs) d
    \<and> rz_status (snd st') = foldl status_update (rz_status (snd st)) (aborts xs)
    \<and> (\<forall>s\<in>set (aborts xs). \<not> status_ok s)
    \<and> (aborts xs \<noteq> [] \<or> \<not> status_ok (rz_status (snd st)) \<and> pend d (snd st) = 0 \<longrightarrow>
         \<not> status_ok (rz_status (snd st')) \<and> pend d (snd st') = 0)"
  using assms
proof (induction xs arbitrary: st cs)
  case (Cons x xs)
  then obtain st1 c1 c2 where 1: "run_op x st = Some (st1, c1)" and 2: "run_ops xs st1 = Some (st', c2)" and c: "cs = c1 @ c2"
    by (auto simp: bind_eq_Some_conv)
  note a = run_op_conserves [OF 1, of d] and b = Cons.IH [OF 2]
  have ax: "aborts (x # xs) = aborts [x] @ aborts xs" by (cases x) auto
  have "aborts [x] = [] \<or> (\<exists>s. aborts [x] = [s])" by (cases x) auto
  then show ?case
  proof
    assume e: "aborts [x] = []"
    show ?thesis using a b requested_Cons [of x xs d] e by (auto simp: c ax)
  next
    assume "\<exists>s. aborts [x] = [s]"
    then obtain s where e: "aborts [x] = [s]" ..
    then have ok: "\<not> status_ok (rz_status (snd st1)) \<and> pend d (snd st1) = 0" using a by (auto simp: status_update_def)
    then show ?thesis using a b requested_Cons [of x xs d] e by (auto simp: c ax)
  qed
qed simp

text \<open>
  C20: in any history of sends, receives, cancellations and aborts, a done callback has been
  called as often as it was passed to \<open>RecvAsync\<close>, apart from the receivers that still wait
  in the table. After an abort nobody waits, and the status of the rendezvous is that of the
  first abort.
\<close>

theorem rendezvous_calls_once:
  assumes "run_ops ops (cms, new_rendezvous) = Some ((cms', r), calls)"
  shows "count_list (requested ops) d = count_list (map c_done calls) d + pend d r
    \<and> (aborts ops \<noteq> [] \<longrightarrow> pend d r = 0 \<and> rz_status r = hd (aborts ops))"
proof -
  have n: "pend d new_rendezvous = 0" "rz_status (new_rendezvous :: ('a, 'b, 'c) rendezvous) = ok_status"
    by (simp_all add: pend_def new_rendezvous_def queue_at_def)
  note r = run_ops_conserves [OF assms, of d]
  have "rz_status r = hd (aborts ops)" if "aborts ops \<noteq> []"
  proof -
    have st: "rz_status r = foldl status_update (hd (aborts ops)) (tl (aborts ops))"
      using r n that by (cases "aborts ops") (auto simp: status_update_def status_ok_def)
    have "\<not> status_ok (hd (aborts ops))" using r that by simp
    then show ?thesis using st st.foldl_keep by simp
  qed
  then show ?thesis using r n by auto
qed

theorem rendezvous_calls_once_witness:
  "\<exists>r calls. run_ops [Op_Recv 3 (0::nat) None ''a'', Op_Send 3 1 (7::nat) False, Op_Recv 3 2 None ''b'',
      Op_Abort [3] (mk_status CANCELLED ''x'')] ([], new_rendezvous) = Some (([], r), calls)
    \<and> count_list (map c_done calls) ''b'' = 1 \<and> pend ''b'' r = 0"
proof -
  let ?ops = "[Op_Recv 3 (0::nat) None ''a'', Op_Send 3 1 (7::nat) False, Op_Recv 3 2 None ''b'',
      Op_Abort [3] (mk_status CANCELLED ''x'')]"
  obtain r calls where run: "run_ops ?ops ([], new_rendezvous) = Some (([], r), calls)"
    by (simp add: run_op_def RecvAsync_def Send_def StartAbort_def table_order_def new_rendezvous_def queue_at_def
        set_queue_def pop_queue_def push_back_def call_waiter_def status_ok_def mk_status_def)
  show ?thesis using rendezvous_calls_once [OF run, of "''b''"] run by auto
qed

section \<open>Matching in order\<close>

text \<open>
  The tensors sent and the receivers under a hash, with the arguments of both, and the calls
  that the sends, receives and cancellations under it make: deliveries, which have an ok
  status, and refusals, which have not.
\<close>

fun op_hash :: "('a, 'v, 'w) op \<Rightarrow> key_hash option" where
  "op_hash (Op_Send h a v b) = Some h"
| "op_hash (Op_Recv h a cm d) = Some h"
| "op_hash (Op_Cancel h t) = Some h"
| "op_hash (Op_Abort order s) = None"

fun sent :: "key_hash \<Rightarrow> ('a, 'v, 'w) op list \<Rightarrow> ('a \<times> 'v \<times> bool) list" where
  "sent h [] = []"
| "sent h (Op_Send k a v b # xs) = (if k = h then (a, v, b) # sent h xs else sent h xs)"
| "sent h (_ # xs) = sent h xs"

fun received :: "key_hash \<Rightarrow> ('a, 'v, 'w) op list \<Rightarrow> ('a \<times> 'w) list" where
  "received h [] = []"
| "received h (Op_Recv k a cm d # xs) = (if k = h then (a, d) # received h xs else received h xs)"
| "received h (_ # xs) = received h xs"

fun calls_under :: "key_hash \<Rightarrow> ('a, 'v, 'w) op list \<Rightarrow> cm_store \<times> ('a, 'v, 'w) rendezvous \<Rightarrow> ('a, 'v, 'w) call list" where
  "calls_under h [] st = []"
| "calls_under h (x # xs) st =
     (case run_op x st of None \<Rightarrow> []
      | Some (st1, cs) \<Rightarrow> (if op_hash x = Some h then cs else []) @ calls_under h xs st1)"

definition deliveries :: "('a, 'v, 'w) call list \<Rightarrow> ('a, 'v, 'w) call list" where
  "deliveries cs = filter (\<lambda>c. status_ok (c_status c)) cs"

definition refusals :: "('a, 'v, 'w) call list \<Rightarrow> ('a \<times> 'w) list" where
  "refusals cs = map (\<lambda>c. (the (c_recv_args c), c_done c)) (filter (\<lambda>c. \<not> status_ok (c_status c)) cs)"

definition deliver :: "('a \<times> 'v \<times> bool) \<times> ('a \<times> 'w) \<Rightarrow> ('a, 'v, 'w) call" where
  "deliver x = (case x of ((a, v, b), (a', d)) \<Rightarrow> \<lparr>c_done = d, c_status = ok_status, c_send_args = Some a,
     c_recv_args = Some a', c_value = Some v, c_dead = b\<rparr>)"

fun q_sends :: "('a, 'v, 'w) item list \<Rightarrow> ('a \<times> 'v \<times> bool) list" where
  "q_sends [] = []"
| "q_sends (Send_Item a v b # q) = (a, v, b) # q_sends q"
| "q_sends (Recv_Item a w t # q) = q_sends q"

fun q_recvs :: "('a, 'v, 'w) item list \<Rightarrow> ('a \<times> 'w) list" where
  "q_recvs [] = []"
| "q_recvs (Send_Item a v b # q) = q_recvs q"
| "q_recvs (Recv_Item a w t # q) = (a, waiter_of w) # q_recvs q"

lemma q_append [simp]: "q_sends (p @ q) = q_sends p @ q_sends q" "q_recvs (p @ q) = q_recvs p @ q_recvs q"
  by (induction p rule: q_sends.induct) auto

lemma calls_simps [simp]:
  "deliveries [] = []" "refusals [] = []" "deliveries (xs @ ys) = deliveries xs @ deliveries ys"
  "refusals (xs @ ys) = refusals xs @ refusals ys"
  by (simp_all add: deliveries_def refusals_def)

lemma deliver_call [simp]: "deliveries [deliver x] = [deliver x]" "refusals [deliver x] = []"
  by (simp_all add: deliveries_def refusals_def deliver_def status_ok_def split: prod.split)

lemma cancelled_refused [simp]: "deliveries [cancelled_call a d] = []" "refusals [cancelled_call a d] = [(a, d)]"
  by (simp_all add: deliveries_def refusals_def cancelled_call_def cancelled_status_def make_derived_def status_ok_def mk_status_def)

text \<open>
  \<open>served\<close> got a tensor and \<open>waiting\<close> are in the queue; both are in the order in which the
  receivers came, and the others were refused. After an abort the queue is empty.
\<close>

definition queue_matches :: "('a \<times> 'v \<times> bool) list \<Rightarrow> ('a \<times> 'w) list \<Rightarrow> ('a, 'v, 'w) call list \<Rightarrow> ('a \<times> 'w) list \<Rightarrow> bool
     \<Rightarrow> ('a, 'v, 'w) item list \<Rightarrow> ('a \<times> 'w) list \<Rightarrow> ('a \<times> 'w) list \<Rightarrow> bool" where
  "queue_matches S R D F ok q served waiting \<longleftrightarrow>
     D = map deliver (zip S served) \<and> length served \<le> length S \<and> subseq (served @ waiting) R
     \<and> (if ok then mset R = mset (served @ waiting) + mset F \<and> q_sends q = drop (length served) S \<and> q_recvs q = waiting
          \<and> (waiting = [] \<or> length served = length S)
        else q = [] \<and> waiting = [])"

definition matched :: "('a \<times> 'v \<times> bool) list \<Rightarrow> ('a \<times> 'w) list \<Rightarrow> ('a, 'v, 'w) call list \<Rightarrow> ('a \<times> 'w) list \<Rightarrow> bool
     \<Rightarrow> ('a, 'v, 'w) item list \<Rightarrow> bool" where
  "matched S R D F ok q \<longleftrightarrow> (\<exists>served waiting. queue_matches S R D F ok q served waiting)"

lemma zip_short:
  "length ys \<le> length xs \<Longrightarrow> zip (xs @ zs) ys = zip xs ys"
  "length ys < length xs \<Longrightarrow> zip xs (ys @ [y]) = zip xs ys @ [(xs ! length ys, y)]"
proof -
  show "length ys \<le> length xs \<Longrightarrow> zip (xs @ zs) ys = zip xs ys" by (simp add: zip_append1)
  show "length ys < length xs \<Longrightarrow> zip xs (ys @ [y]) = zip xs ys @ [(xs ! length ys, y)]"
  proof (induction ys arbitrary: xs)
    case Nil
    then show ?case by (cases xs) simp_all
  next
    case (Cons z ys)
    then show ?case by (cases xs) simp_all
  qed
qed

lemma matched_sends: "matched S R D F True q \<Longrightarrow> q_sends q \<noteq> [] \<Longrightarrow> q_recvs q = []"
  unfolding matched_def queue_matches_def by auto

lemma matched_push_send:
  assumes "matched S R D F True q" "q_recvs q = []"
  shows "matched (S @ [x]) R D F True (q @ [case x of (a, v, b) \<Rightarrow> Send_Item a v b])"
proof -
  obtain served where "queue_matches S R D F True q served []"
    using assms unfolding matched_def queue_matches_def by auto
  then have "queue_matches (S @ [x]) R D F True (q @ [case x of (a, v, b) \<Rightarrow> Send_Item a v b]) served []"
    using assms(2) by (cases x) (simp add: queue_matches_def zip_short)
  then show ?thesis unfolding matched_def by blast
qed

lemma matched_pop_recv:
  assumes "matched S R D F True (Recv_Item a w t # q)"
  shows "matched (S @ [x]) R (D @ [deliver (x, (a, waiter_of w))]) F True q"
proof -
  obtain served waiting where "queue_matches S R D F True (Recv_Item a w t # q) served waiting" using assms unfolding matched_def by blast
  then have "queue_matches (S @ [x]) R (D @ [deliver (x, (a, waiter_of w))]) F True q (served @ [(a, waiter_of w)]) (q_recvs q)"
    by (auto simp: queue_matches_def)
  then show ?thesis unfolding matched_def by blast
qed

lemma matched_push_recv:
  assumes "matched S R D F True q" "q_sends q = []"
  shows "matched S (R @ [(a, waiter_of w)]) D F True (q @ [Recv_Item a w t])"
proof -
  obtain served waiting where m: "queue_matches S R D F True q served waiting" using assms(1) unfolding matched_def by blast
  then have "subseq ((served @ waiting) @ [(a, waiter_of w)]) (R @ [(a, waiter_of w)])"
    by (intro list_emb_append_mono) (simp_all add: queue_matches_def)
  then have "queue_matches S (R @ [(a, waiter_of w)]) D F True (q @ [Recv_Item a w t]) served (waiting @ [(a, waiter_of w)])"
    using m assms(2) by (simp add: queue_matches_def)
  then show ?thesis unfolding matched_def by blast
qed

lemma matched_pop_send:
  assumes "matched S R D F True (Send_Item a v b # q)"
  shows "matched S (R @ [y]) (D @ [deliver ((a, v, b), y)]) F True q"
proof -
  obtain served where m: "queue_matches S R D F True (Send_Item a v b # q) served []"
    using assms matched_sends [OF assms] unfolding matched_def queue_matches_def by auto
  then have d: "drop (length served) S = (a, v, b) # q_sends q" and r: "q_recvs q = []" by (simp_all add: queue_matches_def)
  have l: "length served < length S" using d by (metis drop_eq_Nil list.distinct(1) not_less)
  have at: "S ! length served = (a, v, b)" "drop (Suc (length served)) S = q_sends q"
    using d l by (metis Cons_nth_drop_Suc list.inject)+
  have "zip S (served @ [y]) = zip S served @ [((a, v, b), y)]" using zip_short(2) [OF l] at(1) by simp
  moreover have "subseq (served @ [y]) (R @ [y])" using m by (intro list_emb_append_mono) (simp_all add: queue_matches_def)
  ultimately have "queue_matches S (R @ [y]) (D @ [deliver ((a, v, b), y)]) F True q (served @ [y]) []"
    using m l at(2) r by (simp add: queue_matches_def)
  then show ?thesis unfolding matched_def by blast
qed

lemma matched_refuse:
  assumes "matched S R D F True q"
  shows "matched S (R @ [y]) D (F @ [y]) True q"
  using assms unfolding matched_def queue_matches_def by (auto intro: subseq_order.trans)

lemma remove_token_recvs:
  "remove_token t q = Some ((a, w), q') \<Longrightarrow>
     \<exists>u v. q_recvs q = u @ (a, waiter_of w) # v \<and> q_recvs q' = u @ v \<and> q_sends q' = q_sends q"
proof (induction t q arbitrary: q' rule: remove_token.induct)
  case (3 t a' w' u q)
  show ?case
  proof (cases "u = t")
    case True
    then show ?thesis using 3(2) by (intro exI [of _ "[]"] exI [of _ "q_recvs q"]) auto
  next
    case False
    then obtain r where r: "remove_token t q = Some ((a, w), r)" "q' = Recv_Item a' w' u # r" using 3(2) by auto
    then obtain x y where "q_recvs q = x @ (a, waiter_of w) # y" "q_recvs r = x @ y" "q_sends r = q_sends q"
      using 3(1) [OF False r(1)] by blast
    then show ?thesis using r(2) by (intro exI [of _ "(a', waiter_of w') # x"] exI [of _ y]) simp
  qed
qed auto

lemma matched_cancel:
  assumes "matched S R D F True q" "remove_token t q = Some ((a, w), q')"
  shows "matched S R D (F @ [(a, waiter_of w)]) True q'"
proof -
  obtain u v where uv: "q_recvs q = u @ (a, waiter_of w) # v" "q_recvs q' = u @ v" "q_sends q' = q_sends q"
    using remove_token_recvs [OF assms(2)] by blast
  obtain served where m: "queue_matches S R D F True q served (u @ (a, waiter_of w) # v)"
    using assms(1) uv(1) unfolding matched_def queue_matches_def by auto
  have "subseq (served @ u @ v) (served @ u @ (a, waiter_of w) # v)" by (simp add: subseq_append' list_emb_Cons)
  then have "subseq (served @ u @ v) R" using m subseq_order.trans unfolding queue_matches_def by blast
  then have "queue_matches S R D (F @ [(a, waiter_of w)]) True q' served (u @ v)" using m uv by (simp add: queue_matches_def)
  then show ?thesis unfolding matched_def by blast
qed

lemma matched_abort:
  assumes "matched S R D F ok q"
  shows "matched S R D G False []"
proof -
  obtain served waiting where m: "queue_matches S R D F ok q served waiting" using assms unfolding matched_def by blast
  have "subseq served (served @ waiting)" by (rule subseq_rev_drop_many) simp
  then have "subseq served R" using m subseq_order.trans unfolding queue_matches_def by blast
  then have "queue_matches S R D G False [] served []" using m by (simp add: queue_matches_def)
  then show ?thesis unfolding matched_def by blast
qed

lemma matched_dead:
  assumes "matched S R D F False q"
  shows "matched (S @ X) (R @ Y) D G False q" "q = []"
proof -
  obtain served where m: "queue_matches S R D F False q served []" using assms unfolding matched_def queue_matches_def by auto
  have "subseq R (R @ Y)" by (rule subseq_rev_drop_many) simp
  then have "subseq served (R @ Y)" using m subseq_order.trans unfolding queue_matches_def append_Nil2 by blast
  then have "queue_matches (S @ X) (R @ Y) D G False q served []" using m by (simp add: queue_matches_def zip_short)
  then show "matched (S @ X) (R @ Y) D G False q" unfolding matched_def by blast
  show "q = []" using m by (simp add: queue_matches_def)
qed

text \<open>Every operation keeps the queues of all hashes matched.\<close>

definition under :: "key_hash \<Rightarrow> ('a, 'v, 'w) op \<Rightarrow> ('a, 'v, 'w) call list \<Rightarrow> ('a, 'v, 'w) call list" where
  "under h x cs = (if op_hash x = Some h then cs else [])"

definition fifo :: "key_hash \<Rightarrow> ('a \<times> 'v \<times> bool) list \<Rightarrow> ('a \<times> 'w) list \<Rightarrow> ('a, 'v, 'w) call list
     \<Rightarrow> cm_store \<times> ('a, 'v, 'w) rendezvous \<Rightarrow> bool" where
  "fifo h S R cs st = matched S R (deliveries cs) (refusals cs) (status_ok (rz_status (snd st))) (queue_at (snd st) h)"

lemma fifo_send:
  assumes f: "fifo h S R cs st" and run: "Send k a v b st = Some (st', s, ds)"
  shows "fifo h (S @ (if k = h then [(a, v, b)] else [])) R (cs @ (if k = h then ds else [])) st'"
proof -
  obtain cms r where st: "st = (cms, r)" by (cases st)
  show ?thesis
  proof (cases "status_ok (rz_status r)")
    case False
    then show ?thesis using f run matched_dead(1) [of S R _ _ _ "if k = h then [(a, v, b)] else []" "[]"]
      by (auto simp: fifo_def Send_def st)
  next
    case ok: True
    then have m: "matched S R (deliveries cs) (refusals cs) True (queue_at r h)" using f by (simp add: fifo_def st)
    show ?thesis
    proof (cases "\<exists>a' w t rest. queue_at r k = Recv_Item a' w t # rest")
      case True
      then obtain a' w t rest where q: "queue_at r k = Recv_Item a' w t # rest" by blast
      then obtain cms1 where run': "st' = (cms1, pop_queue r k rest)" "ds = [deliver ((a, v, b), (a', waiter_of w))]"
        using run ok call_waiter_done by (fastforce simp: Send_def st deliver_def)
      show ?thesis
      proof (cases "k = h")
        case True
        then show ?thesis using matched_pop_recv [of S R _ _ a' w t rest "(a, v, b)"] m q run' ok by (simp add: fifo_def)
      qed (use m run' ok in \<open>simp add: fifo_def\<close>)
    next
      case False
      then have run': "st' = (cms, set_queue r k (queue_at r k @ [Send_Item a v b]))" "ds = []"
        using run ok by (auto simp: Send_def st push_back_def Let_def split: list.splits item.splits)
      show ?thesis
      proof (cases "k = h")
        case True
        have "q_recvs (queue_at r k) = []"
        proof (cases "queue_at r k")
          case (Cons i q)
          then have "q_sends (queue_at r k) \<noteq> []" using False by (cases i) auto
          then show ?thesis using matched_sends m True by blast
        qed simp
        then show ?thesis using matched_push_send [of S R _ _ "queue_at r k" "(a, v, b)"] m True run' ok by (simp add: fifo_def)
      qed (use m run' ok in \<open>simp add: fifo_def\<close>)
    qed
  qed
qed

lemma fifo_recv:
  assumes f: "fifo h S R cs st" and run: "RecvAsync k a cm d st = Some (st', ds)"
  shows "fifo h S (R @ (if k = h then [(a, d)] else [])) (cs @ (if k = h then ds else [])) st'"
proof -
  obtain cms r where st: "st = (cms, r)" by (cases st)
  show ?thesis
  proof (cases "status_ok (rz_status r)")
    case False
    then have "st' = st" "deliveries ds = []" using run by (auto simp: RecvAsync_def st deliveries_def)
    then show ?thesis using f False matched_dead(1) [of S R "deliveries cs" "refusals cs" "queue_at r h" "[]" "if k = h then [(a, d)] else []"]
      by (auto simp: fifo_def st)
  next
    case ok: True
    then have m: "matched S R (deliveries cs) (refusals cs) True (queue_at r h)" using f by (simp add: fifo_def st)
    show ?thesis
    proof (cases "\<exists>a' v b rest. queue_at r k = Send_Item a' v b # rest")
      case True
      then obtain a' v b rest where q: "queue_at r k = Send_Item a' v b # rest" by blast
      have run': "st' = (cms, pop_queue r k rest)" "ds = [deliver ((a', v, b), (a, d))]"
        using run ok q by (simp_all add: RecvAsync_def st deliver_def)
      show ?thesis
      proof (cases "k = h")
        case True
        then show ?thesis using matched_pop_send [of S R _ _ a' v b rest "(a, d)"] m q run' ok by (simp add: fifo_def)
      qed (use m run' ok in \<open>simp add: fifo_def\<close>)
    next
      case False
      then have head: "queue_at r k = [] \<or> (\<exists>a' w t rest. queue_at r k = Recv_Item a' w t # rest)"
        by (cases "queue_at r k"; cases "hd (queue_at r k)") auto
      obtain cms1 w t where run': "waiter_of w = d"
        "st' = (cms1, set_queue r k (queue_at r k @ [Recv_Item a w t])) \<and> ds = []
         \<or> st' = (cms1, set_queue r k (queue_at r k)) \<and> ds = [cancelled_call a d]"
      proof (cases cm)
        case None
        then show thesis using that [of "Plain d" cms kInvalidToken] run ok head by (auto simp: RecvAsync_def st push_back_def)
      next
        case (Some j)
        then obtain cms1 t cms2 reg where t: "get_cancellation_token cms j = Some (cms1, t)" "RegisterCallback cms1 j t = Some (cms2, reg)"
          "Some (st', ds) = (if \<not> reg then Some ((cms2, set_queue r k (queue_at r k)), [cancelled_call a d])
             else Some ((cms2, set_queue r k (push_back (queue_at r k) (Recv_Item a (Deregister_First j t d) t))), []))"
          using run ok head by (auto simp: RecvAsync_def st Let_def bind_eq_Some_conv)
        then show thesis using that [of "Deregister_First j t d" cms2 t] by (cases reg) (simp_all add: push_back_def)
      qed
      show ?thesis
      proof (cases "k = h")
        case True
        have "q_sends (queue_at r h) = []"
        proof (rule ccontr)
          assume ne: "q_sends (queue_at r h) \<noteq> []"
          then have "q_recvs (queue_at r h) = []" by (rule matched_sends [OF m])
          then show False using head ne True by auto
        qed
        then have "matched S (R @ [(a, d)]) (deliveries cs) (refusals cs) True (queue_at r h @ [Recv_Item a w t])"
          using matched_push_recv [OF m, of a w t] run'(1) by simp
        moreover have "matched S (R @ [(a, d)]) (deliveries cs) (refusals cs @ [(a, d)]) True (queue_at r h)" by (rule matched_refuse [OF m])
        ultimately show ?thesis using run'(2) True ok by (auto simp: fifo_def)
      qed (use m run'(2) ok in \<open>auto simp: fifo_def\<close>)
    qed
  qed
qed

lemma fifo_cancel:
  assumes f: "fifo h S R cs st" and run: "OnCancel k t st = Some (st', ds)"
  shows "fifo h S R (cs @ (if k = h then ds else [])) st'"
proof -
  obtain cms r where st: "st = (cms, r)" by (cases st)
  note m = f [unfolded fifo_def st snd_conv]
  show ?thesis
  proof (cases "queue_at r k = [] \<or> is_send_item (hd (queue_at r k)) \<or> remove_token t (queue_at r k) = None")
    case True
    then have "st' = (cms, set_queue r k (queue_at r k))" "ds = []" using run by (auto simp: OnCancel_def st Let_def split: if_splits)
    then show ?thesis using m by (cases "k = h") (simp_all add: fifo_def)
  next
    case False
    then obtain a w rest where x: "remove_token t (queue_at r k) = Some ((a, w), rest)" by auto
    then obtain cms1 c where c: "call_waiter cms w (cancelled_call a) = Some (cms1, c)" "st' = (cms1, pop_queue r k rest)" "ds = [c]"
      using run False by (auto simp: OnCancel_def st Let_def)
    then have run': "st' = (cms1, pop_queue r k rest)" "ds = [cancelled_call a (waiter_of w)]" using call_waiter_done [OF c(1)] by simp_all
    show ?thesis
    proof (cases "k = h")
      case True
      have ok: "status_ok (rz_status r)"
      proof (rule ccontr)
        assume "\<not> status_ok (rz_status r)"
        then have "matched S R (deliveries cs) (refusals cs) False (queue_at r h)" using m by simp
        from matched_dead(2) [OF this] show False using False True by simp
      qed
      then show ?thesis using matched_cancel [of S R _ _ "queue_at r k" t a w rest] m x run' True by (simp add: fifo_def)
    qed (use m run' in \<open>simp add: fifo_def\<close>)
  qed
qed

lemma fifo_op:
  assumes f: "fifo h S R cs st" and run: "run_op x st = Some (st', ds)"
  shows "fifo h (S @ sent h [x]) (R @ received h [x]) (cs @ under h x ds) st'"
proof (cases x)
  case (Op_Send k a v b)
  then obtain s where "Send k a v b st = Some (st', s, ds)" using run by (auto simp: run_op_def)
  from fifo_send [OF f this] show ?thesis by (cases "k = h") (simp_all add: Op_Send under_def)
next
  case (Op_Recv k a cm d)
  then have "RecvAsync k a cm d st = Some (st', ds)" using run by (simp add: run_op_def)
  from fifo_recv [OF f this] show ?thesis by (cases "k = h") (simp_all add: Op_Recv under_def)
next
  case (Op_Cancel k t)
  then have "OnCancel k t st = Some (st', ds)" using run by (simp add: run_op_def)
  from fifo_cancel [OF f this] show ?thesis by (cases "k = h") (simp_all add: Op_Cancel under_def)
next
  case (Op_Abort order s)
  obtain cms r where st: "st = (cms, r)" by (cases st)
  have "StartAbort order s st = Some (st', ds)" using run Op_Abort by (simp add: run_op_def split: if_splits)
  then obtain cms1 where st': "st' = (cms1, \<lparr>rz_table = Map.empty, rz_status = status_update (rz_status r) s\<rparr>)" "\<not> status_ok s"
    by (auto simp: StartAbort_def st split: if_splits)
  then show ?thesis using matched_abort f by (auto simp: fifo_def st Op_Abort under_def queue_at_def status_update_def)
qed

lemma fifo_ops:
  assumes "fifo h S R cs st" "run_ops xs st = Some (st', ds)"
  shows "fifo h (S @ sent h xs) (R @ received h xs) (cs @ calls_under h xs st) st'"
  using assms
proof (induction xs arbitrary: S R cs st ds)
  case (Cons x xs)
  then obtain st1 c1 c2 where 1: "run_op x st = Some (st1, c1)" and 2: "run_ops xs st1 = Some (st', c2)"
    by (auto simp: bind_eq_Some_conv)
  have "sent h (x # xs) = sent h [x] @ sent h xs" "received h (x # xs) = received h [x] @ received h xs" by (cases x; simp)+
  moreover have "calls_under h (x # xs) st = under h x c1 @ calls_under h xs st1" using 1 by (simp add: under_def)
  ultimately show ?case using Cons.IH [OF fifo_op [OF Cons.prems(1) 1] 2] by simp
qed simp

text \<open>Sends, receives without a cancellation manager and cancellations always succeed.\<close>

definition simple :: "('a, 'v, 'w) op \<Rightarrow> bool" where
  "simple x = (case x of Op_Recv h a cm d \<Rightarrow> cm = None | Op_Abort order s \<Rightarrow> False | _ \<Rightarrow> True)"

fun plain_item :: "('a, 'v, 'w) item \<Rightarrow> bool" where
  "plain_item (Send_Item a v b) = True"
| "plain_item (Recv_Item a w t) = (w = Plain (waiter_of w))"

lemma plain_call: "w = Plain d \<Longrightarrow> call_waiter cms w f = Some (cms, f d)"
  by (simp add: call_waiter_def)

lemma remove_token_plain:
  "remove_token t q = Some ((a, w), q') \<Longrightarrow> \<forall>i\<in>set q. plain_item i \<Longrightarrow> w = Plain (waiter_of w) \<and> (\<forall>i\<in>set q'. plain_item i)"
proof (induction t q arbitrary: q' rule: remove_token.induct)
  case (3 t a' w' u q)
  then show ?case by (cases "u = t") auto
qed auto

lemma simple_op:
  assumes "simple x" "\<forall>h. \<forall>i\<in>set (queue_at (snd st) h). plain_item i"
  shows "\<exists>st' cs. run_op x st = Some (st', cs) \<and> (\<forall>h. \<forall>i\<in>set (queue_at (snd st') h). plain_item i)"
proof -
  obtain cms r where st: "st = (cms, r)" by (cases st)
  show ?thesis
  proof (cases x)
    case (Op_Send h a v b)
    have "\<forall>i\<in>set (queue_at r h). plain_item i" using assms(2) by (simp add: st)
    then show ?thesis using assms(2)
      by (cases "queue_at r h"; cases "hd (queue_at r h)")
        (auto simp: Op_Send run_op_def Send_def st push_back_def plain_call)
  next
    case (Op_Recv h a cm d)
    have "\<forall>i\<in>set (queue_at r h). plain_item i" using assms(2) by (simp add: st)
    then show ?thesis using assms Op_Recv
      by (cases "queue_at r h"; cases "hd (queue_at r h)")
        (auto simp: run_op_def RecvAsync_def st push_back_def simple_def)
  next
    case (Op_Cancel h t)
    have p: "\<forall>i\<in>set (queue_at r h). plain_item i" using assms(2) by (simp add: st)
    show ?thesis
    proof (cases "queue_at r h = [] \<or> is_send_item (hd (queue_at r h)) \<or> remove_token t (queue_at r h) = None")
      case True
      then show ?thesis using assms(2) by (auto simp: Op_Cancel run_op_def OnCancel_def st Let_def)
    next
      case False
      then obtain a w rest where x: "remove_token t (queue_at r h) = Some ((a, w), rest)" by auto
      note w = remove_token_plain [OF x p]
      show ?thesis using False x w assms(2) by (auto simp: Op_Cancel run_op_def OnCancel_def st Let_def plain_call [of w "waiter_of w"])
    qed
  qed (use assms(1) in \<open>simp add: simple_def\<close>)
qed

lemma simple_ops:
  "\<forall>x\<in>set xs. simple x \<Longrightarrow> \<forall>h. \<forall>i\<in>set (queue_at (snd st) h). plain_item i \<Longrightarrow> run_ops xs st \<noteq> None"
proof (induction xs arbitrary: st)
  case (Cons x xs)
  obtain st' cs where "run_op x st = Some (st', cs)" "\<forall>h. \<forall>i\<in>set (queue_at (snd st') h). plain_item i"
    using simple_op [OF _ Cons.prems(2), of x] Cons.prems(1) by auto
  then show ?case using Cons.IH [of st'] Cons.prems(1) by auto
qed simp

text \<open>
  C19: in any history of sends, receives, cancellations and aborts, under every hash of a key: the
  n-th delivery carries the n-th tensor sent, with its arguments and its flag; the receivers
  served, and after them those that wait, are in the order in which they came. Without an abort
  every receiver is served, waits, or was called once with an error (a cancellation); the queue
  holds the tensors not yet delivered or the receivers that wait, and never both. After an
  abort it is empty. Histories without cancellation managers and aborts always run; the others
  stop where the code would use a manager that is gone, or abort with an ok status.
\<close>

theorem rendezvous_matches_in_order:
  fixes ops :: "('a, 'v, 'w) op list"
  shows "case run_ops ops (cms, new_rendezvous) of
     None \<Rightarrow> \<exists>x\<in>set ops. \<not> simple x
   | Some ((cms', r), calls) \<Rightarrow> \<forall>h. \<exists>served waiting.
       deliveries (calls_under h ops (cms, new_rendezvous)) = map deliver (zip (sent h ops) served)
       \<and> length served \<le> length (sent h ops) \<and> subseq (served @ waiting) (received h ops)
       \<and> (if aborts ops = []
          then mset (received h ops) = mset served + mset waiting + mset (refusals (calls_under h ops (cms, new_rendezvous)))
            \<and> q_sends (queue_at r h) = drop (length served) (sent h ops) \<and> q_recvs (queue_at r h) = waiting
            \<and> (waiting = [] \<or> length served = length (sent h ops))
          else queue_at r h = [] \<and> waiting = [])"
proof -
  let ?s0 = "(cms, new_rendezvous :: ('a, 'v, 'w) rendezvous)"
  have n: "queue_at (snd ?s0) h = []" "status_ok (rz_status (snd ?s0))" for h
    by (simp_all add: new_rendezvous_def queue_at_def status_ok_def)
  show ?thesis
  proof (cases "run_ops ops ?s0")
    case None
    have "\<forall>h. \<forall>i\<in>set (queue_at (snd ?s0) h). plain_item i" using n(1) by simp
    then show ?thesis using simple_ops [of ops ?s0] None by auto
  next
    case (Some y)
    then obtain cms' r calls where run: "run_ops ops ?s0 = Some ((cms', r), calls)" by (metis prod.exhaust)
    have ok: "status_ok (rz_status r) \<longleftrightarrow> aborts ops = []"
      using run_ops_conserves [OF run, of undefined] n by (auto simp: status_ok_def)
    have "\<exists>served waiting. queue_matches (sent h ops) (received h ops) (deliveries (calls_under h ops ?s0))
        (refusals (calls_under h ops ?s0)) (aborts ops = []) (queue_at r h) served waiting" for h
    proof -
      have "fifo h [] [] [] ?s0" using n by (auto simp: fifo_def matched_def queue_matches_def)
      from fifo_ops [OF this run] show ?thesis by (simp add: fifo_def matched_def ok)
    qed
    then show ?thesis unfolding run queue_matches_def mset_append option.case prod.case by blast
  qed
qed

definition sample_ops :: "(nat, nat, string) op list" where
  "sample_ops = [Op_Recv 3 0 None ''a'', Op_Recv 3 1 None ''b'', Op_Cancel 3 kInvalidToken, Op_Send 3 2 7 False]"

lemma rendezvous_matches_in_order_witness:
  "\<exists>r calls cms served waiting. run_ops sample_ops ([], new_rendezvous) = Some ((cms, r), calls)
     \<and> deliveries (calls_under 3 sample_ops ([], new_rendezvous)) = map deliver (zip [(2, 7, False)] served)
     \<and> mset [(0, ''a''), (1, ''b'')] = mset served + mset waiting + mset (refusals (calls_under 3 sample_ops ([], new_rendezvous)))"
proof -
  have h: "sent 3 sample_ops = [(2, 7, False)]" "received 3 sample_ops = [(0, ''a''), (1, ''b'')]" "aborts sample_ops = []"
    by (simp_all add: sample_ops_def)
  have "\<forall>x\<in>set sample_ops. simple x" by (simp add: simple_def sample_ops_def)
  then obtain cms r calls where run: "run_ops sample_ops ([], new_rendezvous) = Some ((cms, r), calls)"
    using rendezvous_matches_in_order [of sample_ops "[]"] by (cases "run_ops sample_ops ([], new_rendezvous)") auto
  then show ?thesis using rendezvous_matches_in_order [of sample_ops "[]"]
    by (simp only: run option.case prod.case) (drule spec [where x = 3], auto simp: h)
qed

text \<open>
  Tokens are unique only within a manager, but the cancellation callback looks for a
  token without its manager: two receivers that wait under the same key with different
  managers can have the same token, and cancelling the second manager's receiver removes
  and cancels the first.
\<close>

theorem cancel_hits_other_receiver:
  "\<exists>cms st1 st2 st3 t. t = 0
    \<and> RecvAsync h (a1 :: 'a) (Some 0) (d1 :: 'w) (cms, new_rendezvous :: ('a, 'v, 'w) rendezvous) = Some (st1, [])
    \<and> RecvAsync h a2 (Some 1) d2 st1 = Some (st2, [])
    \<and> queue_at (snd st2) h = [Recv_Item a1 (Deregister_First 0 t d1) t, Recv_Item a2 (Deregister_First 1 t d2) t]
    \<and> OnCancel h t st2 = Some (st3, [cancelled_call a1 d1])
    \<and> queue_at (snd st3) h = [Recv_Item a2 (Deregister_First 1 t d2) t]"
proof -
  let ?r = "new_rendezvous :: ('a, 'v, 'w) rendezvous"
  let ?m = "Some new_manager"
  let ?n = "Some (new_manager\<lparr>next_cancellation_token := 1, cm_state := Some (new_cm_state\<lparr>callbacks := {0}\<rparr>)\<rparr>)"
  let ?i1 = "Recv_Item a1 (Deregister_First 0 0 d1) 0" and ?i2 = "Recv_Item a2 (Deregister_First 1 0 d2) 0"
  note defs = RecvAsync_def new_rendezvous_def queue_at_def set_queue_def push_back_def get_cancellation_token_def
    RegisterCallback_def lookup_cm_def put_cm_def stopping_def new_manager_def ensure_state_def status_ok_def new_cm_state_def
  have 1: "RecvAsync h a1 (Some 0) d1 ([?m, ?m], ?r) = Some (([?n, ?m], set_queue ?r h [?i1]), [])"
    by (simp add: defs)
  have 2: "RecvAsync h a2 (Some 1) d2 ([?n, ?m], set_queue ?r h [?i1])
      = Some (([?n, ?n], set_queue (set_queue ?r h [?i1]) h [?i1, ?i2]), [])"
    by (simp add: defs)
  obtain cms where 3: "OnCancel h 0 ([?n, ?n], set_queue (set_queue ?r h [?i1]) h [?i1, ?i2])
      = Some ((cms, pop_queue (set_queue (set_queue ?r h [?i1]) h [?i1, ?i2]) h [?i2]), [cancelled_call a1 d1])"
    by (simp add: OnCancel_def is_send_item_def call_waiter_def TryDeregisterCallback_def lookup_cm_def stopping_def
        new_manager_def)
  show ?thesis
    by (rule exI [of _ "[?m, ?m]"], rule exI [of _ "([?n, ?m], set_queue ?r h [?i1])"],
        rule exI [of _ "([?n, ?n], set_queue (set_queue ?r h [?i1]) h [?i1, ?i2])"],
        rule exI [of _ "(cms, pop_queue (set_queue (set_queue ?r h [?i1]) h [?i1, ?i2]) h [?i2])"],
        rule exI [of _ 0]) (intro conjI refl 1 2 3, simp_all)
qed

end
