(* ===== verification/BFC_Allocator.thy ===== *)
theory BFC_Allocator
  imports Prelude
begin

text \<open>
  \<open>BFCAllocator\<close> (core/common_runtime/bfc_allocator.cc and .h): best fit with coalescing over
  regions of memory taken from a sub-allocator.

  An address or a size is a \<open>nat\<close> below \<open>2 ^ 64\<close>; arithmetic that can leave that range
  goes through \<open>u64\<close> and \<open>sub64\<close>, which wrap as \<open>size_t\<close> does. The null pointer is 0. A
  handle is an index into the vector of chunks, \<open>kInvalidChunkHandle\<close> is \<open>None\<close>. Every
  method holds the lock of the allocator, so it is one function on its state; \<open>None\<close> is a
  failed \<open>CHECK\<close>, a \<open>LOG(FATAL)\<close>, an index outside an array, or a loop that does not end.

  The sub-allocator is a virtual interface: it is the parameters \<open>alloc\<close> and \<open>free\<close> on a
  state of its own. Logging and the fields under \<open>TENSORFLOW_MEM_DEBUG\<close> are left out.
\<close>

section \<open>Sizes\<close>

definition u64 :: "nat \<Rightarrow> nat" where "u64 n = n mod 2 ^ 64"

definition sub64 :: "nat \<Rightarrow> nat \<Rightarrow> nat" where "sub64 a b = u64 (a + (2 ^ 64 - b))"

definition kMinAllocationBits :: nat where "kMinAllocationBits = 8"
definition kMinAllocationSize :: nat where "kMinAllocationSize = 256"
definition kNumBins :: nat where "kNumBins = 21"

definition RoundedBytes :: "nat \<Rightarrow> nat" where
  "RoundedBytes bytes =
     u64 (kMinAllocationSize * (sub64 (u64 (bytes + kMinAllocationSize)) 1 div kMinAllocationSize))"

fun log2_loop :: "int \<Rightarrow> nat \<Rightarrow> int" where
  "log2_loop r n = (if n > 0 then log2_loop (r + 1) (n div 2) else r)"

declare log2_loop.simps [simp del]

definition Log2FloorNonZero :: "nat \<Rightarrow> int" where
  "Log2FloorNonZero n = log2_loop 0 n - 1"

definition BinNumToSize :: "nat \<Rightarrow> nat" where
  "BinNumToSize index = u64 (256 * 2 ^ index)"

definition BinNumForSize :: "nat \<Rightarrow> nat" where
  "BinNumForSize bytes =
     nat (min (int kNumBins - 1) (Log2FloorNonZero (max bytes 256 div 2 ^ kMinAllocationBits)))"

section \<open>Chunks, regions and the state\<close>

record chunk =
  ck_size :: nat
  ck_requested :: nat
  ck_id :: int
  ck_ptr :: nat
  ck_prev :: "nat option"
  ck_next :: "nat option"
  ck_bin :: "nat option"
  ck_freed_at :: nat

definition new_chunk :: chunk where
  "new_chunk = \<lparr>ck_size = 0, ck_requested = 0, ck_id = - 1, ck_ptr = 0, ck_prev = None, ck_next = None,
     ck_bin = None, ck_freed_at = 0\<rparr>"

definition in_use :: "chunk \<Rightarrow> bool" where
  "in_use c = (ck_id c \<noteq> - 1)"

record region =
  rg_ptr :: nat
  rg_size :: nat
  rg_handles :: "nat option list"

definition rg_end :: "region \<Rightarrow> nat" where
  "rg_end r = rg_ptr r + rg_size r"

definition new_region :: "nat \<Rightarrow> nat \<Rightarrow> region" where
  "new_region ptr memory_size = \<lparr>rg_ptr = ptr, rg_size = memory_size,
     rg_handles = replicate ((memory_size + kMinAllocationSize - 1) div kMinAllocationSize) None\<rparr>"

record stats =
  num_allocs :: int
  bytes_in_use :: int
  peak_bytes_in_use :: int
  largest_alloc_size :: int

record 's bfc =
  bf_sub :: 's
  bf_limit :: nat
  bf_curr :: nat
  bf_total :: nat
  bf_backpedal :: bool
  bf_gc :: bool
  bf_timing :: bool
  bf_queue :: "nat list"
  bf_frontier :: nat
  bf_regions :: "region list"
  bf_chunks :: "chunk list"
  bf_free :: "nat option"
  bf_bins :: "nat list list"
  bf_next_id :: int
  bf_stats :: stats

text \<open>
  The constructor. Its \<open>CHECK\<close>s on the sizes of the bins are \<open>bins_checked\<close>.
\<close>

definition bins_checked :: bool where
  "bins_checked = (\<forall>b<kNumBins.
     BinNumForSize (BinNumToSize b) = b
     \<and> BinNumForSize (u64 (BinNumToSize b + 255)) = b
     \<and> BinNumForSize (sub64 (u64 (BinNumToSize b * 2)) 1) = b
     \<and> (b + 1 < kNumBins \<longrightarrow> BinNumForSize (u64 (BinNumToSize b * 2)) \<noteq> b))"

definition new_bfc :: "'s \<Rightarrow> nat \<Rightarrow> bool \<Rightarrow> bool \<Rightarrow> 's bfc option" where
  "new_bfc sub total_memory allow_growth garbage_collection =
     (if bins_checked then Some
       \<lparr>bf_sub = sub, bf_limit = total_memory,
        bf_curr = RoundedBytes (if allow_growth then min total_memory 1048576 else total_memory),
        bf_total = 0, bf_backpedal = False, bf_gc = garbage_collection, bf_timing = False,
        bf_queue = [], bf_frontier = 0, bf_regions = [], bf_chunks = [], bf_free = None,
        bf_bins = replicate kNumBins [], bf_next_id = 1,
        bf_stats = \<lparr>num_allocs = 0, bytes_in_use = 0, peak_bytes_in_use = 0, largest_alloc_size = 0\<rparr>\<rparr>
      else None)"

definition SetTimingCounter :: "'s bfc \<Rightarrow> 's bfc" where
  "SetTimingCounter s = s\<lparr>bf_timing := True\<rparr>"

definition ChunkFromHandle :: "'s bfc \<Rightarrow> nat \<Rightarrow> chunk option" where
  "ChunkFromHandle s h = (if h < length (bf_chunks s) then Some (bf_chunks s ! h) else None)"

definition put_chunk :: "nat \<Rightarrow> chunk \<Rightarrow> 's bfc \<Rightarrow> 's bfc" where
  "put_chunk h c s = s\<lparr>bf_chunks := (bf_chunks s)[h := c]\<rparr>"

definition update_chunk :: "nat \<Rightarrow> (chunk \<Rightarrow> chunk) \<Rightarrow> 's bfc \<Rightarrow> 's bfc option" where
  "update_chunk h f s = map_option (\<lambda>c. put_chunk h (f c) s) (ChunkFromHandle s h)"

section \<open>The region manager\<close>

text \<open>
  Regions are sorted by their ends. \<open>std::upper_bound\<close> finds the first region that ends
  after the pointer; the pointer has to lie in it for \<open>IndexFor\<close> to be defined.
\<close>

definition upper_bound_region :: "nat \<Rightarrow> region list \<Rightarrow> nat" where
  "upper_bound_region p rs = length (takeWhile (\<lambda>r. \<not> p < rg_end r) rs)"

definition AddAllocationRegion :: "nat \<Rightarrow> nat \<Rightarrow> region list \<Rightarrow> region list" where
  "AddAllocationRegion ptr memory_size rs =
     (let entry = upper_bound_region ptr rs
      in take entry rs @ [new_region ptr memory_size] @ drop entry rs)"

definition RemoveAllocationRegion :: "nat \<Rightarrow> region list \<Rightarrow> region list" where
  "RemoveAllocationRegion it rs = take it rs @ drop (it + 1) rs"

definition RegionFor :: "region list \<Rightarrow> nat \<Rightarrow> nat option" where
  "RegionFor rs p =
     (let entry = upper_bound_region p rs in if entry < length rs then Some entry else None)"

definition IndexFor :: "region \<Rightarrow> nat \<Rightarrow> nat option" where
  "IndexFor r p =
     (if rg_ptr r \<le> p \<and> (p - rg_ptr r) div 2 ^ kMinAllocationBits < length (rg_handles r)
      then Some ((p - rg_ptr r) div 2 ^ kMinAllocationBits) else None)"

definition get_handle :: "region list \<Rightarrow> nat \<Rightarrow> nat option option" where
  "get_handle rs p =
     do { i \<leftarrow> RegionFor rs p;
          j \<leftarrow> IndexFor (rs ! i) p;
          Some (rg_handles (rs ! i) ! j) }"

definition set_handle :: "nat \<Rightarrow> nat option \<Rightarrow> region list \<Rightarrow> region list option" where
  "set_handle p h rs =
     do { i \<leftarrow> RegionFor rs p;
          j \<leftarrow> IndexFor (rs ! i) p;
          Some (rs[i := (rs ! i)\<lparr>rg_handles := (rg_handles (rs ! i))[j := h]\<rparr>]) }"

definition erase_handle :: "nat \<Rightarrow> region list \<Rightarrow> region list option" where
  "erase_handle p rs = set_handle p None rs"

definition set_region_handle :: "nat \<Rightarrow> nat option \<Rightarrow> 's bfc \<Rightarrow> 's bfc option" where
  "set_region_handle p h s = map_option (\<lambda>rs. s\<lparr>bf_regions := rs\<rparr>) (set_handle p h (bf_regions s))"

section \<open>Chunk handles\<close>

definition AllocateChunk :: "'s bfc \<Rightarrow> ('s bfc \<times> nat) option" where
  "AllocateChunk s =
     (case bf_free s of
        Some h \<Rightarrow> map_option (\<lambda>c. (s\<lparr>bf_free := ck_next c\<rparr>, h)) (ChunkFromHandle s h)
      | None \<Rightarrow> Some (s\<lparr>bf_chunks := bf_chunks s @ [new_chunk]\<rparr>, length (bf_chunks s)))"

definition DeallocateChunk :: "nat \<Rightarrow> 's bfc \<Rightarrow> 's bfc option" where
  "DeallocateChunk h s =
     map_option (\<lambda>s'. s'\<lparr>bf_free := Some h\<rparr>)
       (update_chunk h (\<lambda>c. c\<lparr>ck_id := - 1, ck_bin := None, ck_next := bf_free s\<rparr>) s)"

definition DeleteChunk :: "nat \<Rightarrow> 's bfc \<Rightarrow> 's bfc option" where
  "DeleteChunk h s =
     do { c \<leftarrow> ChunkFromHandle s h;
          s1 \<leftarrow> set_region_handle (ck_ptr c) None s;
          DeallocateChunk h s1 }"

section \<open>Bins\<close>

text \<open>
  The set of free chunks of a bin, in the order of its comparator, which reads the chunks.
  As in \<open>std::set\<close>, an element is found and erased up to equivalence.
\<close>

definition chunk_less :: "chunk list \<Rightarrow> nat \<Rightarrow> nat \<Rightarrow> bool" where
  "chunk_less cs ha hb =
     (if ck_size (cs ! ha) \<noteq> ck_size (cs ! hb) then ck_size (cs ! ha) < ck_size (cs ! hb)
      else ck_ptr (cs ! ha) < ck_ptr (cs ! hb))"

fun set_insert :: "('a \<Rightarrow> 'a \<Rightarrow> bool) \<Rightarrow> 'a \<Rightarrow> 'a list \<Rightarrow> 'a list" where
  "set_insert lt x [] = [x]"
| "set_insert lt x (y # ys) =
     (if lt x y then x # y # ys else if lt y x then y # set_insert lt x ys else y # ys)"

definition set_erase :: "('a \<Rightarrow> 'a \<Rightarrow> bool) \<Rightarrow> 'a \<Rightarrow> 'a list \<Rightarrow> 'a list" where
  "set_erase lt x ys = filter (\<lambda>y. lt x y \<or> lt y x) ys"

definition put_bin :: "nat \<Rightarrow> nat list \<Rightarrow> 's bfc \<Rightarrow> 's bfc" where
  "put_bin b hs s = s\<lparr>bf_bins := (bf_bins s)[b := hs]\<rparr>"

definition InsertFreeChunkIntoBin :: "nat \<Rightarrow> 's bfc \<Rightarrow> 's bfc option" where
  "InsertFreeChunkIntoBin h s =
     do { c \<leftarrow> ChunkFromHandle s h;
          if \<not> in_use c \<and> ck_bin c = None then
            (let b = BinNumForSize (ck_size c);
                 s1 = put_chunk h (c\<lparr>ck_bin := Some b\<rparr>) s
             in Some (put_bin b (set_insert (chunk_less (bf_chunks s1)) h (bf_bins s1 ! b)) s1))
          else None }"

text \<open>\<open>RemoveFreeChunkIterFromBin\<close>: \<open>h\<close> is the element the iterator points to, in bin \<open>b\<close>.\<close>

definition RemoveFreeChunkIterFromBin :: "nat \<Rightarrow> nat \<Rightarrow> 's bfc \<Rightarrow> 's bfc option" where
  "RemoveFreeChunkIterFromBin b h s =
     do { c \<leftarrow> ChunkFromHandle s h;
          if \<not> in_use c \<and> ck_bin c \<noteq> None
          then Some (put_chunk h (c\<lparr>ck_bin := None\<rparr>) (put_bin b (remove1 h (bf_bins s ! b)) s))
          else None }"

definition RemoveFreeChunkFromBin :: "nat \<Rightarrow> 's bfc \<Rightarrow> 's bfc option" where
  "RemoveFreeChunkFromBin h s =
     do { c \<leftarrow> ChunkFromHandle s h;
          b \<leftarrow> ck_bin c;
          if in_use c then None
          else (let hs = set_erase (chunk_less (bf_chunks s)) h (bf_bins s ! b)
                in if length (bf_bins s ! b) - length hs > 0
                   then Some (put_chunk h (c\<lparr>ck_bin := None\<rparr>) (put_bin b hs s)) else None) }"

section \<open>Splitting and merging\<close>

definition SplitChunk :: "nat \<Rightarrow> nat \<Rightarrow> 's bfc \<Rightarrow> 's bfc option" where
  "SplitChunk h num_bytes s0 =
     do { (s, n) \<leftarrow> AllocateChunk s0;
          c \<leftarrow> ChunkFromHandle s h;
          if in_use c \<or> ck_bin c \<noteq> None then None
          else do {
            s1 \<leftarrow> update_chunk n (\<lambda>x. x\<lparr>ck_ptr := u64 (ck_ptr c + num_bytes)\<rparr>) s;
            s2 \<leftarrow> set_region_handle (u64 (ck_ptr c + num_bytes)) (Some n) s1;
            s3 \<leftarrow> update_chunk n (\<lambda>x. x\<lparr>ck_size := sub64 (ck_size c) num_bytes, ck_id := - 1,
                     ck_freed_at := ck_freed_at c, ck_prev := Some h, ck_next := ck_next c\<rparr>) s2;
            s4 \<leftarrow> update_chunk h (\<lambda>x. x\<lparr>ck_size := num_bytes, ck_next := Some n\<rparr>) s3;
            s5 \<leftarrow> (case ck_next c of None \<Rightarrow> Some s4
                   | Some nb \<Rightarrow> update_chunk nb (\<lambda>x. x\<lparr>ck_prev := Some n\<rparr>) s4);
            InsertFreeChunkIntoBin n s5 } }"

definition Merge :: "nat \<Rightarrow> nat \<Rightarrow> 's bfc \<Rightarrow> 's bfc option" where
  "Merge h1 h2 s =
     do { c1 \<leftarrow> ChunkFromHandle s h1;
          c2 \<leftarrow> ChunkFromHandle s h2;
          if in_use c1 \<or> in_use c2 \<or> ck_prev c2 \<noteq> Some h1 then None
          else do {
            s1 \<leftarrow> update_chunk h1 (\<lambda>x. x\<lparr>ck_next := ck_next c2, ck_size := u64 (ck_size c1 + ck_size c2),
                     ck_freed_at := max (ck_freed_at c1) (ck_freed_at c2)\<rparr>) s;
            s2 \<leftarrow> (case ck_next c2 of None \<Rightarrow> Some s1
                   | Some h3 \<Rightarrow> update_chunk h3 (\<lambda>x. x\<lparr>ck_prev := Some h1\<rparr>) s1);
            DeleteChunk h2 s2 } }"

text \<open>The two halves of \<open>TryToCoalesce\<close>: the next chunk merged into h, and h into the previous one.\<close>

definition coalesce_next :: "nat \<Rightarrow> bool \<Rightarrow> 's bfc \<Rightarrow> 's bfc option" where
  "coalesce_next h ignore_freed_at s =
     do { c \<leftarrow> ChunkFromHandle s h;
          case ck_next c of None \<Rightarrow> Some s
          | Some n \<Rightarrow> do {
              cn \<leftarrow> ChunkFromHandle s n;
              if \<not> in_use cn \<and> (ck_freed_at cn = 0 \<or> ignore_freed_at)
              then do { s1 \<leftarrow> RemoveFreeChunkFromBin n s; Merge h n s1 } else Some s } }"

definition coalesce_prev :: "nat \<Rightarrow> bool \<Rightarrow> 's bfc \<Rightarrow> ('s bfc \<times> nat) option" where
  "coalesce_prev h ignore_freed_at s =
     do { c \<leftarrow> ChunkFromHandle s h;
          case ck_prev c of None \<Rightarrow> Some (s, h)
          | Some p \<Rightarrow> do {
              cp \<leftarrow> ChunkFromHandle s p;
              if \<not> in_use cp \<and> (ck_freed_at cp = 0 \<or> ignore_freed_at)
              then do { s1 \<leftarrow> RemoveFreeChunkFromBin p s; s2 \<leftarrow> Merge p h s1; Some (s2, p) }
              else Some (s, h) } }"

definition TryToCoalesce :: "nat \<Rightarrow> bool \<Rightarrow> 's bfc \<Rightarrow> ('s bfc \<times> nat) option" where
  "TryToCoalesce h ignore_freed_at s =
     do { c \<leftarrow> ChunkFromHandle s h;
          if \<not> ignore_freed_at \<and> ck_freed_at c > 0 then Some (s, h)
          else do { s1 \<leftarrow> coalesce_next h ignore_freed_at s; coalesce_prev h ignore_freed_at s1 } }"

section \<open>Finding a chunk\<close>

fun scan_bin :: "'s bfc \<Rightarrow> nat \<Rightarrow> nat \<Rightarrow> nat list \<Rightarrow> nat option option" where
  "scan_bin s rounded_bytes freed_before [] = Some None"
| "scan_bin s rounded_bytes freed_before (h # hs) =
     do { c \<leftarrow> ChunkFromHandle s h;
          if freed_before > 0 \<and> freed_before < ck_freed_at c then scan_bin s rounded_bytes freed_before hs
          else if ck_size c \<ge> rounded_bytes then Some (Some h)
          else scan_bin s rounded_bytes freed_before hs }"

function scan_bins :: "'s bfc \<Rightarrow> nat \<Rightarrow> nat \<Rightarrow> nat \<Rightarrow> (nat \<times> nat) option option" where
  "scan_bins s rounded_bytes freed_before b =
     (if b < kNumBins then
        do { r \<leftarrow> scan_bin s rounded_bytes freed_before (bf_bins s ! b);
             case r of Some h \<Rightarrow> Some (Some (b, h))
             | None \<Rightarrow> scan_bins s rounded_bytes freed_before (b + 1) }
      else Some None)"
  by auto
termination by (relation "measure (\<lambda>(s, r, f, b). kNumBins - b)") auto

declare scan_bins.simps [simp del]

definition kMaxInternalFragmentation :: nat where
  "kMaxInternalFragmentation = 128 * 2 ^ 20"

definition stats_alloc :: "nat \<Rightarrow> stats \<Rightarrow> stats" where
  "stats_alloc n st =
     (let used = bytes_in_use st + int n
      in \<lparr>num_allocs = num_allocs st + 1, bytes_in_use = used,
          peak_bytes_in_use = max (peak_bytes_in_use st) used,
          largest_alloc_size = max (largest_alloc_size st) (int n)\<rparr>)"

text \<open>What \<open>FindChunkPtr\<close> does with the chunk it found; the result is the pointer.\<close>

definition take_chunk :: "nat \<Rightarrow> nat \<Rightarrow> nat \<Rightarrow> nat \<Rightarrow> 's bfc \<Rightarrow> ('s bfc \<times> nat) option" where
  "take_chunk b h rounded_bytes num_bytes s =
     do { s1 \<leftarrow> RemoveFreeChunkIterFromBin b h s;
          c \<leftarrow> ChunkFromHandle s1 h;
          s2 \<leftarrow> (if ck_size c \<ge> u64 (rounded_bytes * 2)
                   \<or> sub64 (ck_size c) rounded_bytes \<ge> kMaxInternalFragmentation
                 then SplitChunk h rounded_bytes s1 else Some s1);
          c2 \<leftarrow> ChunkFromHandle s2 h;
          Some ((put_chunk h (c2\<lparr>ck_requested := num_bytes, ck_id := bf_next_id s2\<rparr>) s2)
                  \<lparr>bf_next_id := bf_next_id s2 + 1, bf_stats := stats_alloc (ck_size c2) (bf_stats s2)\<rparr>,
                ck_ptr c2) }"

definition FindChunkPtr :: "nat \<Rightarrow> nat \<Rightarrow> nat \<Rightarrow> nat \<Rightarrow> 's bfc \<Rightarrow> ('s bfc \<times> nat) option" where
  "FindChunkPtr bin_num rounded_bytes num_bytes freed_before s =
     do { r \<leftarrow> scan_bins s rounded_bytes freed_before bin_num;
          case r of None \<Rightarrow> Some (s, 0)
          | Some (b, h) \<Rightarrow> take_chunk b h rounded_bytes num_bytes s }"

section \<open>Regions from the sub-allocator\<close>

text \<open>
  \<open>bytes * kBackpedalFactor\<close> is computed in \<open>float\<close>: the size is rounded to 24 significant
  bits, to nearest, ties to even, and so is the product with the factor, which is
  15099494 / 2 ^ 24; the conversion back to \<open>size_t\<close> truncates.
\<close>

function float_exp :: "nat \<Rightarrow> nat" where
  "float_exp n = (if n < 2 ^ 24 then 0 else Suc (float_exp (n div 2)))"
  by auto
termination by (relation "measure id") auto

declare float_exp.simps [simp del]

definition float_round :: "nat \<Rightarrow> nat" where
  "float_round n =
     (let ulp = 2 ^ float_exp n; q = n div ulp; r = n mod ulp
      in (if 2 * r < ulp \<or> (2 * r = ulp \<and> even q) then q else q + 1) * ulp)"

definition times_backpedal :: "nat \<Rightarrow> nat" where
  "times_backpedal bytes = float_round (float_round bytes * 15099494) div 2 ^ 24"

text \<open>The two loops of \<open>Extend\<close>. Neither is bounded by the code.\<close>

partial_function (option) grow_region :: "nat \<Rightarrow> nat \<Rightarrow> nat option" where
  "grow_region rounded_bytes curr_bytes =
     (if rounded_bytes > curr_bytes then grow_region rounded_bytes (u64 (curr_bytes * 2)) else Some curr_bytes)"

partial_function (option) backpedal_loop ::
  "(nat \<Rightarrow> nat \<Rightarrow> 's \<Rightarrow> nat \<times> 's) \<Rightarrow> nat \<Rightarrow> nat \<Rightarrow> nat \<Rightarrow> 's \<Rightarrow> (nat \<times> nat \<times> 's) option" where
  "backpedal_loop alloc alignment rounded_bytes bytes sub =
     (let bytes' = RoundedBytes (times_backpedal bytes)
      in if bytes' < rounded_bytes then Some (bytes', 0, sub)
         else (case alloc alignment bytes' sub of
            (mem_addr, sub') \<Rightarrow>
              if mem_addr \<noteq> 0 then Some (bytes', mem_addr, sub')
              else backpedal_loop alloc alignment rounded_bytes bytes' sub'))"

declare grow_region.simps [code]
declare backpedal_loop.simps [code]

definition available_bytes :: "'s bfc \<Rightarrow> nat" where
  "available_bytes s =
     sub64 (bf_limit s) (bf_total s) div kMinAllocationSize * kMinAllocationSize"

text \<open>The call of the sub-allocator with its one retreat: size, address, states.\<close>

definition request_region ::
  "(nat \<Rightarrow> nat \<Rightarrow> 's \<Rightarrow> nat \<times> 's) \<Rightarrow> nat \<Rightarrow> nat \<Rightarrow> 's bfc \<Rightarrow> (nat \<times> nat \<times> 's bfc) option" where
  "request_region alloc alignment rounded_bytes s =
     (let bytes = min (bf_curr s) (available_bytes s)
      in case alloc alignment bytes (bf_sub s) of
        (mem_addr, sub) \<Rightarrow>
          if mem_addr = 0 \<and> \<not> bf_backpedal s
          then map_option (\<lambda>(b, p, sub'). (b, p, s\<lparr>bf_sub := sub', bf_backpedal := True\<rparr>))
                 (backpedal_loop alloc alignment rounded_bytes bytes sub)
          else Some (bytes, mem_addr, s\<lparr>bf_sub := sub\<rparr>))"

text \<open>A new region with one free chunk.\<close>

definition add_region :: "nat \<Rightarrow> nat \<Rightarrow> 's bfc \<Rightarrow> 's bfc option" where
  "add_region mem_addr bytes s =
     do { (s2, h) \<leftarrow> AllocateChunk (s\<lparr>bf_total := u64 (bf_total s + bytes),
                        bf_regions := AddAllocationRegion mem_addr bytes (bf_regions s)\<rparr>);
          s3 \<leftarrow> update_chunk h (\<lambda>c. c\<lparr>ck_ptr := mem_addr, ck_size := bytes, ck_id := - 1, ck_prev := None,
                   ck_next := None, ck_freed_at := 0\<rparr>) s2;
          s4 \<leftarrow> set_region_handle mem_addr (Some h) s3;
          InsertFreeChunkIntoBin h s4 }"

definition Extend ::
  "(nat \<Rightarrow> nat \<Rightarrow> 's \<Rightarrow> nat \<times> 's) \<Rightarrow> nat \<Rightarrow> nat \<Rightarrow> 's bfc \<Rightarrow> ('s bfc \<times> bool) option" where
  "Extend alloc alignment rounded_bytes s =
     (if rounded_bytes > available_bytes s then Some (s, False)
      else do {
        curr_bytes \<leftarrow> grow_region rounded_bytes (bf_curr s);
        let increased_allocation = rounded_bytes > bf_curr s;
        (bytes, mem_addr, s1) \<leftarrow> request_region alloc alignment rounded_bytes (s\<lparr>bf_curr := curr_bytes\<rparr>);
        if mem_addr = 0 then Some (s1, False)
        else do {
          s2 \<leftarrow> add_region mem_addr bytes
                  (if increased_allocation then s1 else s1\<lparr>bf_curr := u64 (bf_curr s1 * 2)\<rparr>);
          Some (s2, True) } })"

section \<open>Giving regions back\<close>

text \<open>The walk over the chunks of a region: is any of them in use?\<close>

partial_function (option) region_in_use :: "'s bfc \<Rightarrow> nat option \<Rightarrow> bool option" where
  "region_in_use s h =
     (case h of None \<Rightarrow> Some False
      | Some k \<Rightarrow> Option.bind (ChunkFromHandle s k)
                  (\<lambda>c. if in_use c then Some True else region_in_use s (ck_next c)))"

declare region_in_use.simps [code]

fun free_regions :: "'s bfc \<Rightarrow> region list \<Rightarrow> region list option" where
  "free_regions s [] = Some []"
| "free_regions s (r # rs) =
     do { h \<leftarrow> get_handle (bf_regions s) (rg_ptr r);
          any_use \<leftarrow> region_in_use s h;
          rest \<leftarrow> free_regions s rs;
          Some (if any_use then rest else r # rest) }"

partial_function (option) delete_chunks :: "nat option \<Rightarrow> 's bfc \<Rightarrow> 's bfc option" where
  "delete_chunks h s =
     (case h of None \<Rightarrow> Some s
      | Some k \<Rightarrow>
         Option.bind (ChunkFromHandle s k) (\<lambda>c.
         Option.bind (if ck_bin c \<noteq> None then RemoveFreeChunkFromBin k s else Some s) (\<lambda>s1.
         Option.bind (ChunkFromHandle s1 k) (\<lambda>c1.
         Option.bind (DeleteChunk k s1) (\<lambda>s2. delete_chunks (ck_next c1) s2)))))"

partial_function (option) DeallocateRegions_from ::
  "(nat \<Rightarrow> nat \<Rightarrow> 's \<Rightarrow> 's) \<Rightarrow> nat list \<Rightarrow> nat \<Rightarrow> 's bfc \<Rightarrow> 's bfc option" where
  "DeallocateRegions_from free region_ptrs it s =
     (if it \<ge> length (bf_regions s) then Some s
      else if rg_ptr (bf_regions s ! it) \<notin> set region_ptrs
      then DeallocateRegions_from free region_ptrs (it + 1) s
      else Option.bind (get_handle (bf_regions s) (rg_ptr (bf_regions s ! it))) (\<lambda>h.
           Option.bind (delete_chunks h s) (\<lambda>s1.
           (let r = bf_regions s1 ! it
            in DeallocateRegions_from free region_ptrs it
                 (s1\<lparr>bf_sub := free (rg_ptr r) (rg_size r) (bf_sub s1),
                     bf_total := sub64 (bf_total s1) (rg_size r),
                     bf_regions := RemoveAllocationRegion it (bf_regions s1)\<rparr>)))))"

declare delete_chunks.simps [code]
declare DeallocateRegions_from.simps [code]

definition DeallocateRegions :: "(nat \<Rightarrow> nat \<Rightarrow> 's \<Rightarrow> 's) \<Rightarrow> nat list \<Rightarrow> 's bfc \<Rightarrow> 's bfc option" where
  "DeallocateRegions free region_ptrs s = DeallocateRegions_from free region_ptrs 0 s"

definition DeallocateFreeRegions ::
  "(nat \<Rightarrow> nat \<Rightarrow> 's \<Rightarrow> 's) \<Rightarrow> nat \<Rightarrow> 's bfc \<Rightarrow> ('s bfc \<times> bool) option" where
  "DeallocateFreeRegions free rounded_bytes s =
     (if \<not> bf_gc s then Some (s, False)
      else do {
        rs \<leftarrow> free_regions s (bf_regions s);
        let total_free_bytes = u64 (sum_list (map rg_size rs));
        if total_free_bytes = 0 then Some (s, False)
        else if rounded_bytes > u64 (sub64 (bf_limit s) (bf_total s) + total_free_bytes)
        then Some (s, False)
        else do { s1 \<leftarrow> DeallocateRegions free (map rg_ptr rs) s; Some (s1, True) } })"

section \<open>Chunks freed at a time\<close>

text \<open>
  \<open>SetSafeFrontier\<close>: the value of the atomic after the loop of \<open>compare_exchange\<close>, when no
  other thread interferes. \<open>MergeTimestampedChunks\<close> may read the frontier while it moves:
  \<open>frontier h\<close> is the value it sees when it looks at chunk h.
\<close>

definition SetSafeFrontier :: "nat \<Rightarrow> 's bfc \<Rightarrow> 's bfc" where
  "SetSafeFrontier new_count s = (if new_count > bf_frontier s then s\<lparr>bf_frontier := new_count\<rparr> else s)"

text \<open>The first loop: the pointers to merge and the new queue.\<close>

fun sweep_queue ::
  "(nat \<Rightarrow> nat) \<Rightarrow> nat \<Rightarrow> nat list \<Rightarrow> 's bfc \<Rightarrow> ('s bfc \<times> nat list \<times> nat list) option" where
  "sweep_queue frontier required_bytes [] s = Some (s, [], [])"
| "sweep_queue frontier required_bytes (h0 # hs) s =
     do { c \<leftarrow> ChunkFromHandle s h0;
          found \<leftarrow> get_handle (bf_regions s) (ck_ptr c);
          case found of None \<Rightarrow> sweep_queue frontier required_bytes hs s
          | Some h \<Rightarrow>
            if in_use c \<or> ck_bin c = None then sweep_queue frontier required_bytes hs s
            else if ck_freed_at c = 0
            then map_option (\<lambda>(s', m, q). (s', ck_ptr c # m, q)) (sweep_queue frontier required_bytes hs s)
            else if ck_freed_at c < frontier h0
            then map_option (\<lambda>(s', m, q). (s', ck_ptr c # m, q))
                   (sweep_queue frontier required_bytes hs (put_chunk h0 (c\<lparr>ck_freed_at := 0\<rparr>) s))
            else if required_bytes > 0
            then map_option (\<lambda>(s', m, q). (s', ck_ptr c # m, q)) (sweep_queue frontier required_bytes hs s)
            else map_option (\<lambda>(s', m, q). (s', m, h # q)) (sweep_queue frontier required_bytes hs s) }"

text \<open>The second loop: \<open>satisfied\<close> says that a chunk of the required size was made.\<close>

fun merge_queue :: "nat \<Rightarrow> nat list \<Rightarrow> bool \<Rightarrow> 's bfc \<Rightarrow> ('s bfc \<times> bool) option" where
  "merge_queue required_bytes [] satisfied s = Some (s, satisfied)"
| "merge_queue required_bytes (ptr # ptrs) satisfied s =
     do { found \<leftarrow> get_handle (bf_regions s) ptr;
          case found of None \<Rightarrow> merge_queue required_bytes ptrs satisfied s
          | Some h \<Rightarrow>
            if required_bytes = 0 \<or> \<not> satisfied then do {
              s1 \<leftarrow> RemoveFreeChunkFromBin h s;
              (s2, h') \<leftarrow> TryToCoalesce h (required_bytes > 0) s1;
              s3 \<leftarrow> InsertFreeChunkIntoBin h' s2;
              if required_bytes > 0 then do {
                c \<leftarrow> ChunkFromHandle s3 h';
                merge_queue required_bytes ptrs (satisfied \<or> ck_size c \<ge> required_bytes)
                  (if h' \<noteq> h \<and> ck_freed_at c > 0 then s3\<lparr>bf_queue := bf_queue s3 @ [h']\<rparr> else s3) }
              else merge_queue required_bytes ptrs satisfied s3 }
            else merge_queue required_bytes ptrs satisfied (s\<lparr>bf_queue := bf_queue s @ [h]\<rparr>) }"

definition MergeTimestampedChunks ::
  "(nat \<Rightarrow> nat) \<Rightarrow> nat \<Rightarrow> 's bfc \<Rightarrow> ('s bfc \<times> bool) option" where
  "MergeTimestampedChunks frontier required_bytes s =
     do { (s1, to_merge, new_ts_queue) \<leftarrow> sweep_queue frontier required_bytes (bf_queue s) s;
          merge_queue required_bytes to_merge (required_bytes = 0) (s1\<lparr>bf_queue := new_ts_queue\<rparr>) }"

section \<open>The interface\<close>

text \<open>
  \<open>AllocateRawInternal\<close>; the first argument of \<open>frontier\<close> tells the two sweeps apart. What
  is written to the log on failure is left out.
\<close>

definition try_extended ::
  "(nat \<Rightarrow> nat \<Rightarrow> 's \<Rightarrow> nat \<times> 's) \<Rightarrow> nat \<Rightarrow> nat \<Rightarrow> nat \<Rightarrow> nat \<Rightarrow> 's bfc \<Rightarrow> ('s bfc \<times> nat) option" where
  "try_extended alloc alignment rounded_bytes num_bytes freed_before s =
     do { (s1, extended) \<leftarrow> Extend alloc alignment rounded_bytes s;
          if extended
          then FindChunkPtr (BinNumForSize rounded_bytes) rounded_bytes num_bytes freed_before s1
          else Some (s1, 0) }"

definition try_forced_merge ::
  "(nat \<Rightarrow> nat) \<Rightarrow> nat \<Rightarrow> nat \<Rightarrow> nat \<Rightarrow> 's bfc \<Rightarrow> ('s bfc \<times> nat) option" where
  "try_forced_merge frontier rounded_bytes num_bytes freed_before s =
     (if freed_before = 0 \<and> bf_queue s \<noteq> [] then
        do { (s1, satisfied) \<leftarrow> MergeTimestampedChunks frontier rounded_bytes s;
             if satisfied
             then FindChunkPtr (BinNumForSize rounded_bytes) rounded_bytes num_bytes freed_before s1
             else Some (s1, 0) }
      else Some (s, 0))"

definition try_collected ::
  "(nat \<Rightarrow> nat \<Rightarrow> 's \<Rightarrow> nat \<times> 's) \<Rightarrow> (nat \<Rightarrow> nat \<Rightarrow> 's \<Rightarrow> 's) \<Rightarrow> nat \<Rightarrow> nat \<Rightarrow> nat \<Rightarrow> nat \<Rightarrow> 's bfc
     \<Rightarrow> ('s bfc \<times> nat) option" where
  "try_collected alloc free alignment rounded_bytes num_bytes freed_before s =
     do { (s1, freed) \<leftarrow> DeallocateFreeRegions free rounded_bytes s;
          if freed then try_extended alloc alignment rounded_bytes num_bytes freed_before s1
          else Some (s1, 0) }"

definition or_else ::
  "('s bfc \<times> nat) option \<Rightarrow> ('s bfc \<Rightarrow> ('s bfc \<times> nat) option) \<Rightarrow> ('s bfc \<times> nat) option" where
  "or_else m next_try = do { (s, ptr) \<leftarrow> m; if ptr \<noteq> 0 then Some (s, ptr) else next_try s }"

definition AllocateRawInternal ::
  "(nat \<Rightarrow> nat \<Rightarrow> 's \<Rightarrow> nat \<times> 's) \<Rightarrow> (nat \<Rightarrow> nat \<Rightarrow> 's \<Rightarrow> 's) \<Rightarrow> (bool \<Rightarrow> nat \<Rightarrow> nat) \<Rightarrow> nat \<Rightarrow> nat \<Rightarrow> nat
     \<Rightarrow> 's bfc \<Rightarrow> ('s bfc \<times> nat) option" where
  "AllocateRawInternal alloc free frontier alignment num_bytes freed_before s =
     (if num_bytes = 0 then Some (s, 0)
      else do {
        let rounded_bytes = RoundedBytes num_bytes;
        s1 \<leftarrow> (if bf_queue s \<noteq> [] then map_option fst (MergeTimestampedChunks (frontier False) 0 s)
               else Some s);
        or_else (or_else (or_else
          (FindChunkPtr (BinNumForSize rounded_bytes) rounded_bytes num_bytes freed_before s1)
          (try_extended alloc alignment rounded_bytes num_bytes freed_before))
          (try_forced_merge (frontier True) rounded_bytes num_bytes freed_before))
          (try_collected alloc free alignment rounded_bytes num_bytes freed_before) })"

text \<open>
  \<open>AllocatorRetry::AllocateRaw\<close> (core/common_runtime/allocator_retry.cc): \<open>'w\<close> is the world
  of the calling thread, \<open>now\<close> the clock, \<open>wait\<close> a wait of at most so many milliseconds,
  during which other threads run.
\<close>

partial_function (option) retry_loop ::
  "(bool \<Rightarrow> 'w \<Rightarrow> ('w \<times> nat) option) \<Rightarrow> ('w \<Rightarrow> nat \<times> 'w) \<Rightarrow> (nat \<Rightarrow> 'w \<Rightarrow> 'w) \<Rightarrow> nat \<Rightarrow> nat option
     \<Rightarrow> 'w \<Rightarrow> ('w \<times> nat) option" where
  "retry_loop alloc_func now wait max_millis_to_wait deadline w =
     Option.bind (alloc_func False w) (\<lambda>(w1, ptr).
       if ptr \<noteq> 0 then Some (w1, ptr)
       else (case now w1 of (t, w2) \<Rightarrow>
         (let d = (case deadline of None \<Rightarrow> t + max_millis_to_wait * 1000 | Some d \<Rightarrow> d)
          in if t < d
             then retry_loop alloc_func now wait max_millis_to_wait (Some d) (wait ((d - t) div 1000) w2)
             else alloc_func True w2)))"

declare retry_loop.simps [code]

definition AllocatorRetry_AllocateRaw ::
  "(bool \<Rightarrow> 'w \<Rightarrow> ('w \<times> nat) option) \<Rightarrow> ('w \<Rightarrow> nat \<times> 'w) \<Rightarrow> (nat \<Rightarrow> 'w \<Rightarrow> 'w) \<Rightarrow> nat \<Rightarrow> nat
     \<Rightarrow> 'w \<Rightarrow> ('w \<times> nat) option" where
  "AllocatorRetry_AllocateRaw alloc_func now wait max_millis_to_wait num_bytes w =
     (if num_bytes = 0 then Some (w, 0)
      else retry_loop alloc_func now wait max_millis_to_wait None w)"

definition kMaxMillisToWait :: nat where "kMaxMillisToWait = 10000"

text \<open>
  \<open>AllocateRaw\<close> on a world that contains the allocator: \<open>attempt\<close> is a call of
  \<open>AllocateRawInternal\<close> with what \<open>freed_by_func\<close> returns at that moment.
\<close>

definition AllocateRaw ::
  "(nat \<Rightarrow> 'w \<Rightarrow> ('w \<times> nat) option) \<Rightarrow> ('w \<Rightarrow> nat \<times> 'w) \<Rightarrow> (nat \<Rightarrow> 'w \<Rightarrow> 'w) \<Rightarrow> bool \<Rightarrow> nat \<Rightarrow> 'w
     \<Rightarrow> ('w \<times> nat) option" where
  "AllocateRaw attempt now wait no_retry_on_failure num_bytes w =
     (if no_retry_on_failure then attempt num_bytes w
      else do {
        (w1, r) \<leftarrow> attempt num_bytes w;
        if r \<noteq> 0 then Some (w1, r)
        else AllocatorRetry_AllocateRaw (\<lambda>verbose. attempt num_bytes) now wait kMaxMillisToWait num_bytes w1 })"

text \<open>\<open>MarkFree\<close>: \<open>tick\<close> is what the timing counter returns.\<close>

definition MarkFree :: "nat \<Rightarrow> nat \<Rightarrow> 's bfc \<Rightarrow> 's bfc option" where
  "MarkFree tick h s =
     do { c \<leftarrow> ChunkFromHandle s h;
          if in_use c \<and> ck_bin c = None
          then Some ((put_chunk h (c\<lparr>ck_id := - 1, ck_freed_at := (if bf_timing s then tick else ck_freed_at c)\<rparr>) s)
                 \<lparr>bf_stats := (bf_stats s)\<lparr>bytes_in_use := bytes_in_use (bf_stats s) - int (ck_size c)\<rparr>\<rparr>)
          else None }"

definition DeallocateRaw :: "nat \<Rightarrow> nat \<Rightarrow> 's bfc \<Rightarrow> 's bfc option" where
  "DeallocateRaw tick ptr s =
     (if ptr = 0 then Some s
      else do {
        found \<leftarrow> get_handle (bf_regions s) ptr;
        h \<leftarrow> found;
        s1 \<leftarrow> MarkFree tick h s;
        if bf_timing s1 then do {
          s2 \<leftarrow> InsertFreeChunkIntoBin h s1;
          Some (s2\<lparr>bf_queue := bf_queue s2 @ [h]\<rparr>) }
        else do {
          (s2, h') \<leftarrow> TryToCoalesce h False s1;
          InsertFreeChunkIntoBin h' s2 } })"

definition chunk_of_ptr :: "nat \<Rightarrow> 's bfc \<Rightarrow> chunk option" where
  "chunk_of_ptr ptr s =
     do { found \<leftarrow> get_handle (bf_regions s) ptr; h \<leftarrow> found; ChunkFromHandle s h }"

definition RequestedSize :: "nat \<Rightarrow> 's bfc \<Rightarrow> nat option" where
  "RequestedSize ptr s = (if ptr = 0 then None else map_option ck_requested (chunk_of_ptr ptr s))"

definition AllocatedSize :: "nat \<Rightarrow> 's bfc \<Rightarrow> nat option" where
  "AllocatedSize ptr s = map_option ck_size (chunk_of_ptr ptr s)"

definition AllocationId :: "nat \<Rightarrow> 's bfc \<Rightarrow> int option" where
  "AllocationId ptr s = map_option ck_id (chunk_of_ptr ptr s)"

definition GetStats :: "'s bfc \<Rightarrow> stats" where "GetStats s = bf_stats s"

definition ClearStats :: "'s bfc \<Rightarrow> 's bfc" where
  "ClearStats s = s\<lparr>bf_stats := (bf_stats s)\<lparr>num_allocs := 0,
     peak_bytes_in_use := bytes_in_use (bf_stats s), largest_alloc_size := 0\<rparr>\<rparr>"

text \<open>The destructor gives every region back.\<close>

definition DestroyBFC :: "(nat \<Rightarrow> nat \<Rightarrow> 's \<Rightarrow> 's) \<Rightarrow> 's bfc \<Rightarrow> 's" where
  "DestroyBFC free s = fold (\<lambda>r. free (rg_ptr r) (rg_size r)) (bf_regions s) (bf_sub s)"

section \<open>The summary of the bins\<close>

record bin_info =
  total_bytes_in_use :: nat
  total_bytes_in_bin :: nat
  total_requested_bytes_in_use :: nat
  total_chunks_in_use :: nat
  total_chunks_in_bin :: nat

definition new_bin_info :: bin_info where
  "new_bin_info = \<lparr>total_bytes_in_use = 0, total_bytes_in_bin = 0, total_requested_bytes_in_use = 0,
     total_chunks_in_use = 0, total_chunks_in_bin = 0\<rparr>"

definition count_chunk :: "'s bfc \<Rightarrow> nat \<Rightarrow> chunk \<Rightarrow> bin_info list \<Rightarrow> bin_info list option" where
  "count_chunk s h c infos =
     (let b = BinNumForSize (ck_size c);
          i = (infos ! b)\<lparr>total_bytes_in_bin := total_bytes_in_bin (infos ! b) + ck_size c,
                total_chunks_in_bin := total_chunks_in_bin (infos ! b) + 1\<rparr>
      in if in_use c
         then Some (infos[b := i\<lparr>total_bytes_in_use := total_bytes_in_use i + ck_size c,
                total_requested_bytes_in_use := total_requested_bytes_in_use i + ck_requested c,
                total_chunks_in_use := total_chunks_in_use i + 1\<rparr>])
         else if (\<exists>k \<in> set (bf_bins s ! b). \<not> chunk_less (bf_chunks s) k h \<and> \<not> chunk_less (bf_chunks s) h k)
                 \<and> ck_bin c = Some b
         then Some (infos[b := i]) else None)"

partial_function (option) count_region ::
  "'s bfc \<Rightarrow> nat option \<Rightarrow> bin_info list \<Rightarrow> bin_info list option" where
  "count_region s h infos =
     (case h of None \<Rightarrow> Some infos
      | Some k \<Rightarrow> Option.bind (ChunkFromHandle s k) (\<lambda>c.
                  Option.bind (count_chunk s k c infos) (\<lambda>infos'. count_region s (ck_next c) infos')))"

declare count_region.simps [code]

definition get_bin_debug_info :: "'s bfc \<Rightarrow> bin_info list option" where
  "get_bin_debug_info s =
     foldM (\<lambda>infos r. Option.bind (get_handle (bf_regions s) (rg_ptr r)) (\<lambda>h. count_region s h infos))
       (replicate kNumBins new_bin_info) (bf_regions s)"

end
