(* ===== verification/BFC_Geometry.thy ===== *)
theory BFC_Geometry
  imports BFC_Allocator
begin

text \<open>
  How the chunks of the allocator lie in its regions, apart from bins and bookkeeping: the
  table of handles as a map from addresses, and the invariant that the chunks of each region
  are a doubly linked list that covers it without gap or overlap. The operations that change
  the layout are a split, a merge and a new region.
\<close>

section \<open>Regions\<close>

definition rg_ok :: "region \<Rightarrow> bool" where
  "rg_ok r = (0 < rg_ptr r \<and> 0 < rg_size r \<and> 256 dvd rg_size r \<and> rg_end r < 2 ^ 64
     \<and> length (rg_handles r) = rg_size r div 256)"

definition regions_ok :: "region list \<Rightarrow> bool" where
  "regions_ok rs = (sorted_wrt (\<lambda>r r'. rg_end r \<le> rg_ptr r') rs \<and> (\<forall>r\<in>set rs. rg_ok r))"

definition shape :: "region \<Rightarrow> nat \<times> nat" where
  "shape r = (rg_ptr r, rg_size r)"

definition is_slot :: "(nat \<times> nat) set \<Rightarrow> nat \<Rightarrow> bool" where
  "is_slot sh p = (\<exists>b n. (b, n) \<in> sh \<and> b \<le> p \<and> p < b + n \<and> 256 dvd p - b)"

definition hmap :: "region list \<Rightarrow> nat \<Rightarrow> nat option" where
  "hmap rs p =
     (case find (\<lambda>r. rg_ptr r \<le> p \<and> p < rg_end r) rs of
        None \<Rightarrow> None
      | Some r \<Rightarrow> if 256 dvd p - rg_ptr r then rg_handles r ! ((p - rg_ptr r) div 256) else None)"

lemma rg_ok_index:
  assumes "rg_ok r" "rg_ptr r \<le> p" "p < rg_end r"
  shows "(p - rg_ptr r) div 256 < length (rg_handles r)"
proof -
  have "p - rg_ptr r < rg_size r" using assms(2,3) by (simp add: rg_end_def)
  moreover obtain k where "rg_size r = k * 256" using assms(1) by (auto simp: rg_ok_def elim!: dvdE)
  ultimately have "(p - rg_ptr r) div 256 < rg_size r div 256" by (simp add: less_mult_imp_div_less)
  then show ?thesis using assms(1) by (simp add: rg_ok_def)
qed

lemma sorted_nth_order:
  assumes "regions_ok rs" "i < j" "j < length rs"
  shows "rg_end (rs ! i) \<le> rg_ptr (rs ! j)"
  using assms by (simp add: regions_ok_def sorted_wrt_iff_nth_less)

lemma region_index_unique:
  assumes "regions_ok rs" "i < length rs" "j < length rs"
    and "rg_ptr (rs ! i) \<le> p" "p < rg_end (rs ! i)" "rg_ptr (rs ! j) \<le> p" "p < rg_end (rs ! j)"
  shows "i = j"
  using sorted_nth_order [OF assms(1)] assms(2-) by (metis leD le_trans linorder_neqE_nat)

lemma RegionFor_eq:
  assumes "regions_ok rs" "i < length rs" "rg_ptr (rs ! i) \<le> p" "p < rg_end (rs ! i)"
  shows "RegionFor rs p = Some i"
proof -
  have "takeWhile (\<lambda>r. \<not> p < rg_end r) rs = take i rs"
  proof (rule takeWhile_eq_take_P_nth)
    fix j assume "j < i" "j < length rs"
    then show "\<not> p < rg_end (rs ! j)" using sorted_nth_order [OF assms(1) _ assms(2), of j] assms(3) by linarith
  next
    show "i < length rs \<Longrightarrow> \<not> \<not> p < rg_end (rs ! i)" using assms(4) by simp
  qed
  then show ?thesis using assms(2) by (simp add: RegionFor_def upper_bound_region_def Let_def)
qed

lemma find_region:
  assumes "regions_ok rs" "i < length rs" "rg_ptr (rs ! i) \<le> p" "p < rg_end (rs ! i)"
  shows "find (\<lambda>r. rg_ptr r \<le> p \<and> p < rg_end r) rs = Some (rs ! i)"
  unfolding find_Some_iff using assms(2-4) region_index_unique [OF assms(1)]
  by (intro exI [of _ i]) (metis (no_types, lifting) nat_neq_iff order_less_trans)

lemma IndexFor_eq:
  assumes "rg_ok r" "rg_ptr r \<le> p" "p < rg_end r"
  shows "IndexFor r p = Some ((p - rg_ptr r) div 256)"
  using assms rg_ok_index [OF assms] by (simp add: IndexFor_def kMinAllocationBits_def)

lemma slot_region:
  assumes "is_slot (set (map shape rs)) p"
  obtains i where "i < length rs" "rg_ptr (rs ! i) \<le> p" "p < rg_end (rs ! i)" "256 dvd p - rg_ptr (rs ! i)"
  using assms by (auto simp: is_slot_def shape_def rg_end_def in_set_conv_nth)

lemma get_handle_hmap:
  assumes ok: "regions_ok rs" and slot: "is_slot (set (map shape rs)) p"
  shows "get_handle rs p = Some (hmap rs p)"
proof -
  from slot obtain i where i: "i < length rs" "rg_ptr (rs ! i) \<le> p" "p < rg_end (rs ! i)"
    "256 dvd p - rg_ptr (rs ! i)" by (rule slot_region)
  have "rg_ok (rs ! i)" using ok i(1) by (simp add: regions_ok_def)
  then show ?thesis using RegionFor_eq [OF ok i(1-3)] find_region [OF ok i(1-3)] i(4)
    by (simp add: get_handle_def IndexFor_eq [OF _ i(2,3)] hmap_def)
qed

lemma hmap_slot:
  assumes "hmap rs p = Some h"
  shows "is_slot (set (map shape rs)) p"
proof -
  obtain r where r: "find (\<lambda>r. rg_ptr r \<le> p \<and> p < rg_end r) rs = Some r" "256 dvd p - rg_ptr r"
    using assms by (auto simp: hmap_def split: option.splits if_splits)
  then have "r \<in> set rs" "rg_ptr r \<le> p" "p < rg_end r" by (auto simp: find_Some_iff)
  then show ?thesis using r(2) unfolding is_slot_def
    by (intro exI [of _ "rg_ptr r"] exI [of _ "rg_size r"]) (auto simp: shape_def rg_end_def)
qed

lemma set_handle_spec:
  assumes ok: "regions_ok rs" and slot: "is_slot (set (map shape rs)) p"
  obtains rs' where "set_handle p h rs = Some rs'" "regions_ok rs'" "map shape rs' = map shape rs"
    "hmap rs' = (hmap rs)(p := h)" "length rs' = length rs"
proof -
  from slot obtain i where i: "i < length rs" "rg_ptr (rs ! i) \<le> p" "p < rg_end (rs ! i)"
    "256 dvd p - rg_ptr (rs ! i)" by (rule slot_region)
  have rok: "rg_ok (rs ! i)" using ok i(1) by (simp add: regions_ok_def)
  define j where "j = (p - rg_ptr (rs ! i)) div 256"
  define r' where "r' = (rs ! i)\<lparr>rg_handles := (rg_handles (rs ! i))[j := h]\<rparr>"
  define rs' where "rs' = rs[i := r']"
  have 1: "set_handle p h rs = Some rs'"
    using RegionFor_eq [OF ok i(1-3)] by (simp add: set_handle_def IndexFor_eq [OF rok i(2,3)] rs'_def r'_def j_def)
  have r': "rg_ptr r' = rg_ptr (rs ! i)" "rg_end r' = rg_end (rs ! i)" "rg_size r' = rg_size (rs ! i)"
    by (simp_all add: r'_def rg_end_def)
  have same: "rg_ptr (rs' ! k) = rg_ptr (rs ! k)" "rg_end (rs' ! k) = rg_end (rs ! k)" for k
    using i(1) r' by (auto simp: rs'_def nth_list_update)
  have "rg_ok r'" using rok by (simp add: rg_ok_def r'_def rg_end_def)
  then have "\<forall>r\<in>set rs'. rg_ok r" using ok set_update_subset_insert [of rs i r']
    by (auto simp: regions_ok_def rs'_def)
  moreover have "sorted_wrt (\<lambda>r r'. rg_end r \<le> rg_ptr r') rs'"
    using ok unfolding regions_ok_def sorted_wrt_iff_nth_less same by (simp add: rs'_def)
  ultimately have 2: "regions_ok rs'" by (simp add: regions_ok_def)
  have 3: "map shape rs' = map shape rs"
    by (rule nth_equalityI) (use i(1) r' in \<open>auto simp: rs'_def shape_def nth_list_update\<close>)
  have len: "j < length (rg_handles (rs ! i))" using rg_ok_index [OF rok i(2,3)] by (simp add: j_def)
  have "hmap rs' q = ((hmap rs)(p := h)) q" for q
  proof (cases "\<exists>k < length rs. rg_ptr (rs ! k) \<le> q \<and> q < rg_end (rs ! k)")
    case False
    then have "find (\<lambda>r. rg_ptr r \<le> q \<and> q < rg_end r) rs = None" by (auto simp: find_None_iff in_set_conv_nth)
    moreover have "find (\<lambda>r. rg_ptr r \<le> q \<and> q < rg_end r) rs' = None"
      using False same by (auto simp: find_None_iff in_set_conv_nth rs'_def)
    moreover have "q \<noteq> p" using False i by blast
    ultimately show ?thesis by (simp add: hmap_def)
  next
    case True
    then obtain k where k: "k < length rs" "rg_ptr (rs ! k) \<le> q" "q < rg_end (rs ! k)" by blast
    have f: "find (\<lambda>r. rg_ptr r \<le> q \<and> q < rg_end r) rs = Some (rs ! k)" by (rule find_region [OF ok k])
    have f': "find (\<lambda>r. rg_ptr r \<le> q \<and> q < rg_end r) rs' = Some (rs' ! k)"
      by (rule find_region [OF 2]) (use k same in \<open>auto simp: rs'_def\<close>)
    show ?thesis
    proof (cases "k = i")
      case False
      then have "q \<noteq> p" using region_index_unique [OF ok k(1) i(1)] k i by blast
      then show ?thesis using f f' False by (simp add: hmap_def rs'_def)
    next
      case True
      have q: "rg_ptr (rs ! i) \<le> q" using k True by simp
      have "q = p" if "(q - rg_ptr (rs ! i)) div 256 = j" "256 dvd q - rg_ptr (rs ! i)"
        using that i(2,4) q unfolding j_def by (metis dvd_div_mult_self eq_diff_iff)
      then show ?thesis using f f' True len i
        by (auto simp: hmap_def rs'_def r'_def nth_list_update j_def)
    qed
  qed
  then have "hmap rs' = (hmap rs)(p := h)" by blast
  then show thesis using that 1 2 3 by (simp add: rs'_def)
qed

section \<open>Chunks\<close>

text \<open>
  The layout as functions of a handle: address, size, next and previous chunk. \<open>sh\<close> are the
  regions, \<open>M\<close> the table of handles; the live chunks are its range.
\<close>

definition in_region :: "(nat \<Rightarrow> nat) \<Rightarrow> (nat \<Rightarrow> nat) \<Rightarrow> (nat \<Rightarrow> nat option) \<Rightarrow> (nat \<Rightarrow> nat option) \<Rightarrow> nat
    \<Rightarrow> nat \<Rightarrow> nat \<Rightarrow> bool" where
  "in_region P S N V h b n \<longleftrightarrow> b \<le> P h \<and> P h + S h \<le> b + n \<and> 256 dvd P h - b \<and> 256 dvd S h \<and> 0 < S h
     \<and> (N h = None \<longleftrightarrow> P h + S h = b + n) \<and> (V h = None \<longleftrightarrow> P h = b)"

definition geo_slots :: "(nat \<Rightarrow> nat option) \<Rightarrow> (nat \<Rightarrow> nat) \<Rightarrow> bool" where
  "geo_slots M P \<longleftrightarrow> (\<forall>p h. M p = Some h \<longrightarrow> P h = p)"

definition geo_regions :: "(nat \<times> nat) set \<Rightarrow> (nat \<Rightarrow> nat option) \<Rightarrow> (nat \<Rightarrow> nat) \<Rightarrow> (nat \<Rightarrow> nat) \<Rightarrow> (nat \<Rightarrow> nat option) \<Rightarrow> (nat \<Rightarrow> nat option) \<Rightarrow> bool" where
  "geo_regions sh M P S N V \<longleftrightarrow> (\<forall>h\<in>ran M. \<exists>b n. (b, n) \<in> sh \<and> in_region P S N V h b n)"

definition geo_links :: "(nat \<Rightarrow> nat option) \<Rightarrow> (nat \<Rightarrow> nat) \<Rightarrow> (nat \<Rightarrow> nat) \<Rightarrow> (nat \<Rightarrow> nat option) \<Rightarrow> (nat \<Rightarrow> nat option) \<Rightarrow> bool" where
  "geo_links M P S N V \<longleftrightarrow> (\<forall>h\<in>ran M. \<forall>k. N h = Some k \<longrightarrow> k \<in> ran M \<and> V k = Some h \<and> P k = P h + S h)"

definition geo_backs :: "(nat \<Rightarrow> nat option) \<Rightarrow> (nat \<Rightarrow> nat option) \<Rightarrow> (nat \<Rightarrow> nat option) \<Rightarrow> bool" where
  "geo_backs M N V \<longleftrightarrow> (\<forall>h\<in>ran M. \<forall>k. V h = Some k \<longrightarrow> k \<in> ran M \<and> N k = Some h)"

definition geo_apart :: "(nat \<Rightarrow> nat option) \<Rightarrow> (nat \<Rightarrow> nat) \<Rightarrow> (nat \<Rightarrow> nat) \<Rightarrow> bool" where
  "geo_apart M P S \<longleftrightarrow> (\<forall>h\<in>ran M. \<forall>k\<in>ran M. h \<noteq> k \<longrightarrow> P h + S h \<le> P k \<or> P k + S k \<le> P h)"

definition geo_heads :: "(nat \<times> nat) set \<Rightarrow> (nat \<Rightarrow> nat option) \<Rightarrow> bool" where
  "geo_heads sh M \<longleftrightarrow> (\<forall>b n. (b, n) \<in> sh \<longrightarrow> M b \<noteq> None)"

definition geo :: "(nat \<times> nat) set \<Rightarrow> (nat \<Rightarrow> nat option) \<Rightarrow> (nat \<Rightarrow> nat) \<Rightarrow> (nat \<Rightarrow> nat)
    \<Rightarrow> (nat \<Rightarrow> nat option) \<Rightarrow> (nat \<Rightarrow> nat option) \<Rightarrow> bool" where
  "geo sh M P S N V \<longleftrightarrow> geo_slots M P \<and> geo_regions sh M P S N V \<and> geo_links M P S N V
     \<and> geo_backs M N V \<and> geo_apart M P S \<and> geo_heads sh M"

lemma geo_ptr: "geo sh M P S N V \<Longrightarrow> M p = Some h \<Longrightarrow> P h = p"
  unfolding geo_def geo_slots_def by blast

lemma geo_region: "geo sh M P S N V \<Longrightarrow> h \<in> ran M \<Longrightarrow> \<exists>b n. (b, n) \<in> sh \<and> in_region P S N V h b n"
  unfolding geo_def geo_regions_def by blast

lemma geo_next: "geo sh M P S N V \<Longrightarrow> h \<in> ran M \<Longrightarrow> N h = Some k \<Longrightarrow> k \<in> ran M \<and> V k = Some h \<and> P k = P h + S h"
  unfolding geo_def geo_links_def by blast

lemma geo_prev: "geo sh M P S N V \<Longrightarrow> h \<in> ran M \<Longrightarrow> V h = Some k \<Longrightarrow> k \<in> ran M \<and> N k = Some h"
  unfolding geo_def geo_backs_def by blast

lemma geo_disjoint: "geo sh M P S N V \<Longrightarrow> h \<in> ran M \<Longrightarrow> k \<in> ran M \<Longrightarrow> h \<noteq> k \<Longrightarrow> P h + S h \<le> P k \<or> P k + S k \<le> P h"
  unfolding geo_def geo_apart_def by blast

lemma geo_head: "geo sh M P S N V \<Longrightarrow> (b, n) \<in> sh \<Longrightarrow> M b \<noteq> None"
  unfolding geo_def geo_heads_def by blast

text \<open>To establish the layout, its six parts one by one.\<close>

lemmas geo_parts = geo_def geo_slots_def geo_regions_def geo_links_def geo_backs_def geo_apart_def geo_heads_def

lemma geo_slot:
  assumes "geo sh M P S N V" "h \<in> ran M"
  shows "M (P h) = Some h"
proof -
  obtain p where p: "M p = Some h" using assms(2) by (auto simp: ran_def)
  then show ?thesis using geo_ptr [OF assms(1) p] by simp
qed

lemma geo_size: "geo sh M P S N V \<Longrightarrow> h \<in> ran M \<Longrightarrow> 0 < S h \<and> 256 dvd S h"
  by (drule geo_region) (auto simp: in_region_def)

lemma geo_is_slot:
  assumes "geo sh M P S N V" "h \<in> ran M"
  shows "is_slot sh (P h)"
proof -
  obtain b n where "(b, n) \<in> sh" "in_region P S N V h b n" using geo_region [OF assms] by blast
  then show ?thesis unfolding is_slot_def in_region_def
    by (intro exI [of _ b] exI [of _ n]) linarith
qed

text \<open>An address inside a chunk, other than its first, has no handle.\<close>

lemma geo_inside_free:
  assumes "geo sh M P S N V" "h \<in> ran M" "P h < p" "p < P h + S h"
  shows "M p = None"
proof (rule ccontr)
  assume "M p \<noteq> None"
  then obtain k where k: "M p = Some k" by blast
  then have "k \<in> ran M" "P k = p" using geo_ptr [OF assms(1) k] by (auto simp: ran_def)
  moreover have "0 < S k" using geo_size [OF assms(1) \<open>k \<in> ran M\<close>] by simp
  moreover have "k \<noteq> h" using \<open>P k = p\<close> assms(3) by auto
  ultimately show False using geo_disjoint [OF assms(1,2), of k] assms(3,4) by auto
qed

lemma geo_inside_slot:
  assumes "geo sh M P S N V" "h \<in> ran M" "n < S h" "256 dvd n"
  shows "is_slot sh (P h + n)"
proof -
  obtain b m where bm: "(b, m) \<in> sh" and r: "in_region P S N V h b m" using geo_region [OF assms(1,2)] by blast
  have "256 dvd P h - b" using r by (simp add: in_region_def)
  then have "256 dvd (P h - b) + n" using assms(4) by (rule dvd_add)
  moreover have "(P h - b) + n = P h + n - b" using r by (simp add: in_region_def)
  ultimately have "256 dvd P h + n - b" by metis
  moreover have "b \<le> P h + n" "P h + n < b + m" using r assms(3) by (auto simp: in_region_def)
  ultimately show ?thesis using bm unfolding is_slot_def by blast
qed

section \<open>A split\<close>

lemma ran_upd_new: "M p = None \<Longrightarrow> ran (M(p := Some k)) = insert k (ran M)"
  by simp

lemma geo_split:
  assumes g: "geo sh M P S N V" and h: "h \<in> ran M" and k: "k \<notin> ran M"
    and n: "0 < n" "n < S h" "256 dvd n"
    and P': "P' = P(k := P h + n)"
    and S': "S' = S(h := n, k := S h - n)"
    and N': "N' = N(h := Some k, k := N h)"
    and V': "V' = (\<lambda>x. if x = k then Some h else if N h = Some x then Some k else V x)"
  shows "geo sh (M(P h + n := Some k)) P' S' N' V'"
proof -
  note nx = geo_next [OF g] and pv = geo_prev [OF g] and dj = geo_disjoint [OF g] and sz = geo_size [OF g]
  have free: "M (P h + n) = None" using geo_inside_free [OF g h] n by simp
  have ran: "ran (M(P h + n := Some k)) = insert k (ran M)" using ran_upd_new [of M "P h + n" k] free by simp
  have hk: "h \<noteq> k" using h k by blast
  obtain b m where bm: "(b, m) \<in> sh" and hr: "in_region P S N V h b m" using geo_region [OF g h] by blast
  have self: "N h \<noteq> Some h" using nx [OF h, of h] sz [OF h] by auto
  have nk: "N h \<noteq> Some k" using nx [OF h, of k] k by auto
  have 1: "P' x = p" if "(M(P h + n := Some k)) p = Some x" for p x
    using that k geo_ptr [OF g] by (auto simp: P' ran_def split: if_splits)
  have 2: "\<exists>b n. (b, n) \<in> sh \<and> in_region P' S' N' V' x b n" if x: "x \<in> insert k (ran M)" for x
  proof -
    consider "x = k" | "x = h" | "x \<noteq> k" "x \<noteq> h" "x \<in> ran M" using x by blast
    then show ?thesis
    proof cases
      case 1
      have "256 dvd P h - b" using hr by (simp add: in_region_def)
      then have "256 dvd (P h - b) + n" using n(3) by (rule dvd_add)
      moreover have "(P h - b) + n = P h + n - b" using hr by (simp add: in_region_def)
      ultimately have "256 dvd P h + n - b" by metis
      then have "in_region P' S' N' V' x b m"
        using hr n hk 1 by (auto simp: in_region_def P' S' N' V')
      then show ?thesis using bm by blast
    next
      case 2
      then have "in_region P' S' N' V' x b m" using hr n hk self by (auto simp: in_region_def P' S' N' V')
      then show ?thesis using bm by blast
    next
      case 3
      then obtain b' m' where r: "(b', m') \<in> sh" "in_region P S N V x b' m'" using geo_region [OF g] by blast
      have "V x = Some h" if "N h = Some x" using nx [OF h that] by simp
      then have "in_region P' S' N' V' x b' m'" using r(2) 3 by (auto simp: in_region_def P' S' N' V')
      then show ?thesis using r(1) by blast
    qed
  qed
  have 3: "y \<in> insert k (ran M) \<and> V' y = Some x \<and> P' y = P' x + S' x"
    if x: "x \<in> insert k (ran M)" and n': "N' x = Some y" for x y
  proof -
    consider "x = k" | "x = h" | "x \<noteq> k" "x \<noteq> h" "x \<in> ran M" using x by blast
    then show ?thesis
    proof cases
      case 1
      then have "N h = Some y" using n' hk by (simp add: N')
      then show ?thesis using nx [OF h] 1 k hk n by (auto simp: P' S' V')
    next
      case 2
      then show ?thesis using n' hk by (auto simp: N' P' S' V')
    next
      case 3
      then have y: "N x = Some y" using n' by (simp add: N')
      have "N h \<noteq> Some y" using nx [OF 3(3) y] nx [OF h, of y] 3(2) by auto
      then show ?thesis using nx [OF 3(3) y] 3 k by (auto simp: P' S' V')
    qed
  qed
  have 4: "y \<in> insert k (ran M) \<and> N' y = Some x" if x: "x \<in> insert k (ran M)" and v: "V' x = Some y" for x y
  proof (cases "x = k \<or> N h = Some x")
    case True
    then show ?thesis using v hk h nk by (auto simp: V' N' split: if_splits)
  next
    case False
    then have "V x = Some y" "x \<in> ran M" using v x by (auto simp: V')
    then have y: "y \<in> ran M" "N y = Some x" using pv by blast+
    then have "y \<noteq> h" "y \<noteq> k" using False k by auto
    then show ?thesis using y by (simp add: N')
  qed
  have kdj: "P' k + S' k \<le> P' x \<or> P' x + S' x \<le> P' k" if "x \<in> ran M" for x
    using dj [OF h that] n that k hk by (auto simp: P' S')
  have 5: "P' x + S' x \<le> P' y \<or> P' y + S' y \<le> P' x"
    if x: "x \<in> insert k (ran M)" and y: "y \<in> insert k (ran M)" and ne: "x \<noteq> y" for x y
  proof -
    consider "x = k" "y \<in> ran M" | "y = k" "x \<in> ran M" | "x \<in> ran M" "y \<in> ran M" "x \<noteq> k" "y \<noteq> k"
      using x y ne by blast
    then show ?thesis
    proof cases
      case 1
      then show ?thesis using kdj by blast
    next
      case 2
      then show ?thesis using kdj by blast
    next
      case 3
      then show ?thesis using dj [OF 3(1,2) ne] n by (auto simp: P' S')
    qed
  qed
  have 6: "(M(P h + n := Some k)) b \<noteq> None" if "(b, m) \<in> sh" for b m
    using geo_head [OF g that] by simp
  show ?thesis unfolding geo_def
  proof (intro conjI)
    show "geo_slots (M(P h + n := Some k)) P'" unfolding geo_slots_def using 1 by blast
    show "geo_regions sh (M(P h + n := Some k)) P' S' N' V'" unfolding geo_regions_def ran using 2 by blast
    show "geo_links (M(P h + n := Some k)) P' S' N' V'" unfolding geo_links_def ran using 3 by blast
    show "geo_backs (M(P h + n := Some k)) N' V'" unfolding geo_backs_def ran using 4 by blast
    show "geo_apart (M(P h + n := Some k)) P' S'" unfolding geo_apart_def ran using 5 by blast
    show "geo_heads sh (M(P h + n := Some k))" unfolding geo_heads_def using 6 by blast
  qed
qed

section \<open>A merge\<close>

lemma ran_del:
  assumes k: "M p = Some k" and uniq: "\<And>q. M q = Some k \<Longrightarrow> q = p"
  shows "ran (M(p := None)) = ran M - {k}"
proof (intro set_eqI iffI)
  fix x assume "x \<in> ran (M(p := None))"
  then obtain q where "(M(p := None)) q = Some x" unfolding ran_def by blast
  then have "M q = Some x" "q \<noteq> p" by (auto split: if_splits)
  then show "x \<in> ran M - {k}" using uniq [of q] unfolding ran_def by blast
next
  fix x assume "x \<in> ran M - {k}"
  then obtain q where q: "M q = Some x" "x \<noteq> k" unfolding ran_def by blast
  then have "(M(p := None)) q = Some x" using k by auto
  then show "x \<in> ran (M(p := None))" unfolding ran_def by blast
qed

definition disjoint_regions :: "(nat \<times> nat) set \<Rightarrow> bool" where
  "disjoint_regions sh \<longleftrightarrow>
     (\<forall>b n b' n'. (b, n) \<in> sh \<longrightarrow> (b', n') \<in> sh \<longrightarrow> (b, n) = (b', n') \<or> b + n \<le> b' \<or> b' + n' \<le> b)"

lemma geo_next_region:
  assumes g: "geo sh M P S N V" "disjoint_regions sh" and h: "h \<in> ran M" "N h = Some k"
    and r: "(b, m) \<in> sh" "in_region P S N V h b m"
  shows "in_region P S N V k b m"
proof -
  have k: "k \<in> ran M" "P k = P h + S h" using geo_next [OF g(1) h] by auto
  obtain b' m' where r': "(b', m') \<in> sh" "in_region P S N V k b' m'" using geo_region [OF g(1) k(1)] by blast
  have "\<not> b + m \<le> b'" "\<not> b' + m' \<le> b" using r(2) r'(2) h(2) k(2) by (auto simp: in_region_def)
  then have "(b, m) = (b', m')" using g(2) r(1) r'(1) unfolding disjoint_regions_def by blast
  then show ?thesis using r'(2) by simp
qed

lemma geo_merge:
  assumes g: "geo sh M P S N V" and dr: "disjoint_regions sh" and h: "h \<in> ran M" and nk: "N h = Some k"
    and P': "\<And>x. x \<noteq> k \<Longrightarrow> P' x = P x"
    and S': "\<And>x. x \<noteq> k \<Longrightarrow> S' x = (if x = h then S h + S k else S x)"
    and N': "\<And>x. x \<noteq> k \<Longrightarrow> N' x = (if x = h then N k else N x)"
    and V': "\<And>x. x \<noteq> k \<Longrightarrow> V' x = (if N k = Some x then Some h else V x)"
  shows "geo sh (M(P k := None)) P' S' N' V'"
proof -
  note nx = geo_next [OF g] and pv = geo_prev [OF g] and dj = geo_disjoint [OF g] and sz = geo_size [OF g]
  have k: "k \<in> ran M" "V k = Some h" "P k = P h + S h" using nx [OF h nk] by auto
  have ran: "ran (M(P k := None)) = ran M - {k}"
  proof (rule ran_del [of M "P k" k])
    show "M (P k) = Some k" by (rule geo_slot [OF g k(1)])
    show "q = P k" if "M q = Some k" for q using geo_ptr [OF g that] by simp
  qed
  have hk: "h \<noteq> k" using k(3) sz [OF h] by auto
  have nkk: "N k \<noteq> Some k" using nx [OF k(1), of k] sz [OF k(1)] by auto
  have nkh: "N k \<noteq> Some h" using nx [OF k(1), of h] k(3) sz [OF h] sz [OF k(1)] by auto
  have 1: "P' x = p" if "(M(P k := None)) p = Some x" for p x
  proof -
    have "M p = Some x" "p \<noteq> P k" using that by (auto split: if_splits)
    then have "P x = p" using geo_ptr [OF g] by simp
    then show ?thesis using P' [of x] \<open>p \<noteq> P k\<close> by auto
  qed
  have 2: "\<exists>b n. (b, n) \<in> sh \<and> in_region P' S' N' V' x b n" if "x \<in> ran M - {k}" for x
  proof -
    have xk: "x \<noteq> k" "x \<in> ran M" using that by auto
    obtain b m where r: "(b, m) \<in> sh" "in_region P S N V x b m" using geo_region [OF g xk(2)] by blast
    have "in_region P' S' N' V' x b m"
    proof (cases "x = h")
      case True
      have "in_region P S N V k b m" using geo_next_region [OF g dr h nk r(1)] r(2) True by simp
      then show ?thesis using r(2) k(3) hk nkh True unfolding in_region_def
        by (auto simp: P' S' N' V')
    next
      case False
      have "V x \<noteq> None" if "N k = Some x" using nx [OF k(1) that] by simp
      then show ?thesis using r(2) False unfolding in_region_def
        by (auto simp: P' [OF xk(1)] S' [OF xk(1)] N' [OF xk(1)] V' [OF xk(1)])
    qed
    then show ?thesis using r(1) by blast
  qed
  have 3: "y \<in> ran M - {k} \<and> V' y = Some x \<and> P' y = P' x + S' x"
    if x: "x \<in> ran M - {k}" and n: "N' x = Some y" for x y
  proof (cases "x = h")
    case True
    then have n': "N k = Some y" using n hk N' [of h] by simp
    then have y: "y \<in> ran M" "P y = P k + S k" "y \<noteq> k" using nx [OF k(1) n'] nkk by auto
    then show ?thesis using True n' k(3) hk P' [of y] P' [of h] S' [of h] V' [of y] by simp
  next
    case False
    then have n': "N x = Some y" using n x N' [of x] by simp
    then have y: "y \<in> ran M" "V y = Some x" "P y = P x + S x" using nx [of x y] x by auto
    have yk: "y \<noteq> k" using y(2) k(2) False by auto
    have "N k \<noteq> Some y" using nx [OF k(1), of y] y(2) x by auto
    then show ?thesis using False x y yk P' [of y] P' [of x] S' [of x] V' [of y] by simp
  qed
  have 4: "y \<in> ran M - {k} \<and> N' y = Some x" if x: "x \<in> ran M - {k}" and v: "V' x = Some y" for x y
  proof (cases "N k = Some x")
    case True
    then show ?thesis using v x h hk V' [of x] N' [of h] by auto
  next
    case False
    then have "V x = Some y" using v x V' [of x] by simp
    then have y: "y \<in> ran M" "N y = Some x" using pv [of x y] x by auto
    have "y \<noteq> k" using False y by auto
    moreover have "y \<noteq> h" using y(2) nk x by auto
    ultimately show ?thesis using y N' [of y] by simp
  qed
  have 5: "P' x + S' x \<le> P' y \<or> P' y + S' y \<le> P' x"
    if "x \<in> ran M - {k}" "y \<in> ran M - {k}" "x \<noteq> y" for x y
  proof -
    have hd: "P' h + S' h \<le> P' z \<or> P' z + S' z \<le> P' h" if "z \<in> ran M - {k}" "z \<noteq> h" for z
    proof -
      have zz: "z \<in> ran M" "z \<noteq> k" using that by auto
      show ?thesis
        using dj [OF h zz(1)] dj [OF k(1) zz(1)] that k(3) zz hk sz [OF h] sz [OF zz(1)]
          P' [of h] P' [of z] S' [of h] S' [of z] by auto
    qed
    consider "x = h" | "y = h" | "x \<noteq> h" "y \<noteq> h" by blast
    then show ?thesis
    proof cases
      case 1
      then show ?thesis using hd [of y] that by auto
    next
      case 2
      then show ?thesis using hd [of x] that by auto
    next
      case 3
      then show ?thesis using dj [of x y] that P' [of x] P' [of y] S' [of x] S' [of y] by auto
    qed
  qed
  have 6: "(M(P k := None)) b \<noteq> None" if "(b, n) \<in> sh" for b n
  proof -
    obtain b' m' where r: "(b', m') \<in> sh" "in_region P S N V k b' m'" using geo_region [OF g k(1)] by blast
    have "P k \<noteq> b"
    proof
      assume eq: "P k = b"
      have "b' \<noteq> b" using r(2) k(2) eq by (auto simp: in_region_def)
      then have "b + n \<le> b' \<or> b' + m' \<le> b" using dr that r(1) unfolding disjoint_regions_def by blast
      then show False
      proof
        assume "b + n \<le> b'"
        moreover have "b' < b" using r(2) eq \<open>b' \<noteq> b\<close> by (auto simp: in_region_def)
        ultimately show False by simp
      next
        assume "b' + m' \<le> b"
        then show False using r(2) eq by (auto simp: in_region_def)
      qed
    qed
    then show ?thesis using geo_head [OF g that] by simp
  qed
  show ?thesis unfolding geo_def
  proof (intro conjI)
    show "geo_slots (M(P k := None)) P'" unfolding geo_slots_def using 1 by blast
    show "geo_regions sh (M(P k := None)) P' S' N' V'" unfolding geo_regions_def ran using 2 by blast
    show "geo_links (M(P k := None)) P' S' N' V'" unfolding geo_links_def ran using 3 by blast
    show "geo_backs (M(P k := None)) N' V'" unfolding geo_backs_def ran using 4 by blast
    show "geo_apart (M(P k := None)) P' S'" unfolding geo_apart_def ran using 5 by blast
    show "geo_heads sh (M(P k := None))" unfolding geo_heads_def using 6 by blast
  qed
qed

section \<open>A new region\<close>

lemma geo_add:
  assumes g: "geo sh M P S N V" and k: "k \<notin> ran M" and a: "M a = None"
    and out: "\<And>b n. (b, n) \<in> sh \<Longrightarrow> a + m \<le> b \<or> b + n \<le> a" and m: "0 < m" "256 dvd m"
    and P': "P' = P(k := a)" and S': "S' = S(k := m)" and N': "N' = N(k := None)" and V': "V' = V(k := None)"
  shows "geo (insert (a, m) sh) (M(a := Some k)) P' S' N' V'"
proof -
  note nx = geo_next [OF g] and pv = geo_prev [OF g]
  have ran: "ran (M(a := Some k)) = insert k (ran M)" using ran_upd_new [of M a k] a by simp
  have 1: "P' x = p" if "(M(a := Some k)) p = Some x" for p x
    using that k geo_ptr [OF g, of p x] by (auto simp: P' ran_def split: if_splits)
  have 2: "\<exists>b n. (b, n) \<in> insert (a, m) sh \<and> in_region P' S' N' V' x b n" if x: "x \<in> insert k (ran M)" for x
  proof (cases "x = k")
    case True
    then have "in_region P' S' N' V' x a m" using m by (simp add: in_region_def P' S' N' V')
    then show ?thesis by blast
  next
    case False
    then have "x \<in> ran M" using x by blast
    then obtain b n where "(b, n) \<in> sh" "in_region P S N V x b n" using geo_region [OF g] by blast
    then have "in_region P' S' N' V' x b n" using False by (simp add: in_region_def P' S' N' V')
    then show ?thesis using \<open>(b, n) \<in> sh\<close> by blast
  qed
  have 3: "y \<in> insert k (ran M) \<and> V' y = Some x \<and> P' y = P' x + S' x"
    if x: "x \<in> insert k (ran M)" and n: "N' x = Some y" for x y
  proof -
    have xk: "x \<noteq> k" using n by (auto simp: N')
    then have "x \<in> ran M" "N x = Some y" using x n by (auto simp: N')
    then have y: "y \<in> ran M" "V y = Some x" "P y = P x + S x" using nx by blast+
    then show ?thesis using k xk by (auto simp: V' P' S')
  qed
  have 4: "y \<in> insert k (ran M) \<and> N' y = Some x" if x: "x \<in> insert k (ran M)" and v: "V' x = Some y" for x y
  proof -
    have xk: "x \<noteq> k" using v by (auto simp: V')
    then have "x \<in> ran M" "V x = Some y" using x v by (auto simp: V')
    then have y: "y \<in> ran M" "N y = Some x" using pv by blast+
    then show ?thesis using k by (auto simp: N')
  qed
  have kx: "a + m \<le> P x \<or> P x + S x \<le> a" if x: "x \<in> ran M" for x
  proof -
    obtain b n where "(b, n) \<in> sh" "in_region P S N V x b n" using geo_region [OF g x] by blast
    then show ?thesis using out [of b n] by (auto simp: in_region_def)
  qed
  have 5: "P' x + S' x \<le> P' y \<or> P' y + S' y \<le> P' x"
    if x: "x \<in> insert k (ran M)" and y: "y \<in> insert k (ran M)" and ne: "x \<noteq> y" for x y
  proof -
    consider "x = k" "y \<in> ran M" "y \<noteq> k" | "y = k" "x \<in> ran M" "x \<noteq> k" | "x \<in> ran M" "y \<in> ran M" "x \<noteq> k" "y \<noteq> k"
      using x y ne k by blast
    then show ?thesis
    proof cases
      case 1
      then show ?thesis using kx [of y] by (auto simp: P' S')
    next
      case 2
      then show ?thesis using kx [of x] by (auto simp: P' S')
    next
      case 3
      then show ?thesis using geo_disjoint [OF g 3(1,2) ne] by (auto simp: P' S')
    qed
  qed
  have 6: "(M(a := Some k)) b \<noteq> None" if "(b, n) \<in> insert (a, m) sh" for b n
    using that geo_head [OF g, of b n] by auto
  show ?thesis unfolding geo_def
  proof (intro conjI)
    show "geo_slots (M(a := Some k)) P'" unfolding geo_slots_def using 1 by blast
    show "geo_regions (insert (a, m) sh) (M(a := Some k)) P' S' N' V'" unfolding geo_regions_def ran using 2 by blast
    show "geo_links (M(a := Some k)) P' S' N' V'" unfolding geo_links_def ran using 3 by blast
    show "geo_backs (M(a := Some k)) N' V'" unfolding geo_backs_def ran using 4 by blast
    show "geo_apart (M(a := Some k)) P' S'" unfolding geo_apart_def ran using 5 by blast
    show "geo_heads (insert (a, m) sh) (M(a := Some k))" unfolding geo_heads_def using 6 by blast
  qed
qed

lemma geo_cong:
  assumes "geo sh M P S N V"
    and "\<And>h. h \<in> ran M \<Longrightarrow> P' h = P h" "\<And>h. h \<in> ran M \<Longrightarrow> S' h = S h"
      "\<And>h. h \<in> ran M \<Longrightarrow> N' h = N h" "\<And>h. h \<in> ran M \<Longrightarrow> V' h = V h"
  shows "geo sh M P' S' N' V'"
proof -
  note g = assms(1)
  show ?thesis unfolding geo_def
  proof (intro conjI)
    show "geo_slots M P'" unfolding geo_slots_def using geo_ptr [OF g] assms(2) by (metis ranI)
    show "geo_regions sh M P' S' N' V'" unfolding geo_regions_def in_region_def
      using geo_region [OF g] assms(2-) unfolding in_region_def by simp
    show "geo_links M P' S' N' V'" unfolding geo_links_def using geo_next [OF g] assms(2-) by simp
    show "geo_backs M N' V'" unfolding geo_backs_def using geo_prev [OF g] assms(2-) by simp
    show "geo_apart M P' S'" unfolding geo_apart_def using geo_disjoint [OF g] assms(2-) by simp
    show "geo_heads sh M" using g unfolding geo_def by blast
  qed
qed

end
