(* ===== verification/BFC_Invariant.thy ===== *)
theory BFC_Invariant
  imports BFC_Geometry
begin

text \<open>
  The invariant of the allocator and the operations on chunk handles and bins that every
  other operation is made of. What the allocator has handed out is the abstract state
  \<open>used\<close>, a map from addresses to blocks.
\<close>

section \<open>Ordered sets\<close>

text \<open>
  The interface of a \<open>std::set\<close>: a strict weak order. Two elements neither of which is less
  are the same element to the set.
\<close>

locale ordered_set =
  fixes lt :: "'a \<Rightarrow> 'a \<Rightarrow> bool"
  assumes lt_trans: "lt x y \<Longrightarrow> lt y z \<Longrightarrow> lt x z"
    and lt_irrefl: "\<not> lt x x"
begin

lemma lt_asym: "lt x y \<Longrightarrow> \<not> lt y x"
  using lt_trans lt_irrefl by blast

lemma insert_set:
  "(\<And>y. y \<in> set ys \<Longrightarrow> lt x y \<or> lt y x) \<Longrightarrow> set (set_insert lt x ys) = insert x (set ys)"
  by (induction ys) auto

lemma insert_sorted:
  "sorted_wrt lt ys \<Longrightarrow> (\<And>y. y \<in> set ys \<Longrightarrow> lt x y \<or> lt y x) \<Longrightarrow> sorted_wrt lt (set_insert lt x ys)"
proof (induction ys)
  case Nil
  then show ?case by simp
next
  case (Cons y ys)
  show ?case
  proof (cases "lt x y")
    case True
    then show ?thesis using Cons.prems(1) lt_trans by auto
  next
    case False
    then have "lt y x" using Cons.prems(2) by auto
    moreover have "set (set_insert lt x ys) = insert x (set ys)" using Cons.prems(2) by (intro insert_set) auto
    ultimately show ?thesis using Cons False by auto
  qed
qed

lemma erase_set:
  assumes "\<And>y. y \<in> set ys \<Longrightarrow> y = x \<or> lt x y \<or> lt y x"
  shows "set (set_erase lt x ys) = set ys - {x}"
  using assms lt_irrefl by (auto simp: set_erase_def)

lemma erase_sorted: "sorted_wrt lt ys \<Longrightarrow> sorted_wrt lt (set_erase lt x ys)"
  unfolding set_erase_def by (rule sorted_wrt_filter)

lemma erase_found: "x \<in> set ys \<Longrightarrow> length (set_erase lt x ys) < length ys"
  using length_filter_less [of x ys "\<lambda>y. lt x y \<or> lt y x"] lt_irrefl by (simp add: set_erase_def)

lemma sorted_distinct: "sorted_wrt lt ys \<Longrightarrow> distinct ys"
  by (induction ys) (auto simp: lt_irrefl)

lemma remove1_set: "sorted_wrt lt ys \<Longrightarrow> set (remove1 x ys) = set ys - {x}"
  by (simp add: sorted_distinct set_remove1_eq)

lemma remove1_sorted: "sorted_wrt lt ys \<Longrightarrow> sorted_wrt lt (remove1 x ys)"
proof (induction ys)
  case (Cons y ys)
  have "set (remove1 x ys) \<subseteq> set ys" by (rule set_remove1_subset)
  then show ?case using Cons by auto
qed simp

end

interpretation bin_order: ordered_set "chunk_less cs" for cs
  by unfold_locales (auto simp: chunk_less_def split: if_splits)

section \<open>The abstract state\<close>

abbreviation shapes :: "'s bfc \<Rightarrow> (nat \<times> nat) set" where
  "shapes s \<equiv> set (map shape (bf_regions s))"

abbreviation table :: "'s bfc \<Rightarrow> nat \<Rightarrow> nat option" where
  "table s \<equiv> hmap (bf_regions s)"

abbreviation live :: "'s bfc \<Rightarrow> nat set" where
  "live s \<equiv> ran (table s)"

abbreviation chunk_of :: "'s bfc \<Rightarrow> nat \<Rightarrow> chunk" where
  "chunk_of s h \<equiv> bf_chunks s ! h"

text \<open>A block is its size, the size asked for, and its allocation id.\<close>

definition used :: "'s bfc \<Rightarrow> nat \<Rightarrow> (nat \<times> nat \<times> int) option" where
  "used s p = (case table s p of
      None \<Rightarrow> None
    | Some h \<Rightarrow> if in_use (chunk_of s h)
                then Some (ck_size (chunk_of s h), ck_requested (chunk_of s h), ck_id (chunk_of s h)) else None)"

lemma in_use_fields [simp]:
  "in_use (c\<lparr>ck_size := n\<rparr>) = in_use c" "in_use (c\<lparr>ck_requested := n\<rparr>) = in_use c"
  "in_use (c\<lparr>ck_ptr := n\<rparr>) = in_use c" "in_use (c\<lparr>ck_prev := p\<rparr>) = in_use c"
  "in_use (c\<lparr>ck_next := p\<rparr>) = in_use c" "in_use (c\<lparr>ck_bin := b\<rparr>) = in_use c"
  "in_use (c\<lparr>ck_freed_at := n\<rparr>) = in_use c" "in_use (c\<lparr>ck_id := i\<rparr>) = (i \<noteq> - 1)"
  by (simp_all add: in_use_def)

section \<open>The invariant\<close>

definition layout :: "'s bfc \<Rightarrow> bool" where
  "layout s \<longleftrightarrow> regions_ok (bf_regions s) \<and> live s \<subseteq> {..<length (bf_chunks s)}
     \<and> geo (shapes s) (table s) (\<lambda>h. ck_ptr (chunk_of s h)) (\<lambda>h. ck_size (chunk_of s h))
         (\<lambda>h. ck_next (chunk_of s h)) (\<lambda>h. ck_prev (chunk_of s h))"

primrec free_path :: "chunk list \<Rightarrow> nat option \<Rightarrow> nat list \<Rightarrow> bool" where
  "free_path cs p [] \<longleftrightarrow> p = None"
| "free_path cs p (h # hs) \<longleftrightarrow> p = Some h \<and> h < length cs \<and> free_path cs (ck_next (cs ! h)) hs"

definition spare :: "'s bfc \<Rightarrow> bool" where
  "spare s \<longleftrightarrow> (\<forall>h<length (bf_chunks s). h \<notin> live s \<longrightarrow> ck_bin (chunk_of s h) = None \<and> \<not> in_use (chunk_of s h))
     \<and> (\<exists>fl. free_path (bf_chunks s) (bf_free s) fl \<and> distinct fl \<and> set fl \<inter> live s = {})"

text \<open>Every free chunk is in the bin of its size; those in \<open>X\<close> may be outside for a while.\<close>

definition bins_ok :: "nat set \<Rightarrow> 's bfc \<Rightarrow> bool" where
  "bins_ok X s \<longleftrightarrow> length (bf_bins s) = kNumBins
     \<and> (\<forall>b<kNumBins. sorted_wrt (chunk_less (bf_chunks s)) (bf_bins s ! b)
          \<and> set (bf_bins s ! b) = {h \<in> live s. ck_bin (chunk_of s h) = Some b})
     \<and> (\<forall>h\<in>live s. \<forall>b. ck_bin (chunk_of s h) = Some b
          \<longrightarrow> \<not> in_use (chunk_of s h) \<and> b = BinNumForSize (ck_size (chunk_of s h)))
     \<and> (\<forall>h\<in>live s. h \<notin> X \<longrightarrow> ck_bin (chunk_of s h) = None \<longrightarrow> in_use (chunk_of s h))"

definition ids_ok :: "'s bfc \<Rightarrow> bool" where
  "ids_ok s \<longleftrightarrow> 0 < bf_next_id s
     \<and> (\<forall>h\<in>live s. in_use (chunk_of s h) \<longrightarrow> 0 < ck_id (chunk_of s h) \<and> ck_id (chunk_of s h) < bf_next_id s)
     \<and> (\<forall>h\<in>live s. \<forall>k\<in>live s. in_use (chunk_of s h) \<longrightarrow> ck_id (chunk_of s h) = ck_id (chunk_of s k) \<longrightarrow> h = k)"

definition used_bytes :: "'s bfc \<Rightarrow> int" where
  "used_bytes s = (\<Sum>h\<in>{h \<in> live s. in_use (chunk_of s h)}. int (ck_size (chunk_of s h)))"

definition totals_ok :: "'s bfc \<Rightarrow> bool" where
  "totals_ok s \<longleftrightarrow> bytes_in_use (bf_stats s) = used_bytes s
     \<and> bf_total s = sum_list (map rg_size (bf_regions s)) \<and> bf_total s \<le> bf_limit s \<and> bf_limit s < 2 ^ 63
     \<and> 256 dvd bf_curr s \<and> bf_curr s < 2 ^ 64"

text \<open>Without a timing counter no chunk has a time stamp.\<close>

definition times_ok :: "'s bfc \<Rightarrow> bool" where
  "times_ok s \<longleftrightarrow> (\<not> bf_timing s \<longrightarrow> bf_queue s = [] \<and> (\<forall>h\<in>live s. ck_freed_at (chunk_of s h) = 0))"

definition coalesced :: "nat set \<Rightarrow> 's bfc \<Rightarrow> bool" where
  "coalesced X s \<longleftrightarrow> (\<not> bf_timing s \<longrightarrow> (\<forall>h\<in>live s. \<forall>k. ck_next (chunk_of s h) = Some k \<longrightarrow> h \<notin> X \<longrightarrow> k \<notin> X
     \<longrightarrow> in_use (chunk_of s h) \<or> in_use (chunk_of s k)))"

text \<open>
  The queue of time stamps may hold handles of chunks that have been merged away; their
  addresses are still in a region as long as no region is given back.
\<close>

definition stale_ok :: "'s bfc \<Rightarrow> bool" where
  "stale_ok s \<longleftrightarrow> (bf_timing s \<longrightarrow> (\<forall>h<length (bf_chunks s). is_slot (shapes s) (ck_ptr (chunk_of s h)))
     \<and> (\<forall>h\<in>set (bf_queue s). h < length (bf_chunks s)))"

definition bfc_inv :: "nat set \<Rightarrow> 's bfc \<Rightarrow> bool" where
  "bfc_inv X s \<longleftrightarrow> layout s \<and> spare s \<and> bins_ok X s \<and> ids_ok s \<and> totals_ok s \<and> times_ok s \<and> coalesced X s \<and> stale_ok s"

lemma bfc_invD:
  assumes "bfc_inv X s"
  shows "layout s" "spare s" "bins_ok X s" "ids_ok s" "totals_ok s" "times_ok s" "coalesced X s" "stale_ok s"
  using assms by (simp_all add: bfc_inv_def)

section \<open>Operations on bins\<close>

text \<open>Only the bins and the bin numbers of live chunks differ.\<close>

definition rebin :: "'s bfc \<Rightarrow> 's bfc \<Rightarrow> bool" where
  "rebin s s' \<longleftrightarrow> bf_sub s' = bf_sub s \<and> bf_limit s' = bf_limit s \<and> bf_curr s' = bf_curr s \<and> bf_total s' = bf_total s
     \<and> bf_backpedal s' = bf_backpedal s \<and> bf_gc s' = bf_gc s \<and> bf_timing s' = bf_timing s \<and> bf_queue s' = bf_queue s
     \<and> bf_frontier s' = bf_frontier s \<and> bf_regions s' = bf_regions s \<and> bf_free s' = bf_free s
     \<and> bf_next_id s' = bf_next_id s \<and> bf_stats s' = bf_stats s \<and> length (bf_chunks s') = length (bf_chunks s)
     \<and> (\<forall>x. ck_size (chunk_of s' x) = ck_size (chunk_of s x) \<and> ck_requested (chunk_of s' x) = ck_requested (chunk_of s x)
          \<and> ck_id (chunk_of s' x) = ck_id (chunk_of s x) \<and> ck_ptr (chunk_of s' x) = ck_ptr (chunk_of s x)
          \<and> ck_prev (chunk_of s' x) = ck_prev (chunk_of s x) \<and> ck_next (chunk_of s' x) = ck_next (chunk_of s x)
          \<and> ck_freed_at (chunk_of s' x) = ck_freed_at (chunk_of s x))
     \<and> (\<forall>x. x \<notin> live s \<longrightarrow> ck_bin (chunk_of s' x) = ck_bin (chunk_of s x))"

lemma rebin_fields:
  assumes "rebin s s'"
  shows "bf_sub s' = bf_sub s" "bf_limit s' = bf_limit s" "bf_curr s' = bf_curr s" "bf_total s' = bf_total s"
    "bf_backpedal s' = bf_backpedal s" "bf_gc s' = bf_gc s" "bf_timing s' = bf_timing s" "bf_queue s' = bf_queue s"
    "bf_frontier s' = bf_frontier s" "bf_regions s' = bf_regions s" "bf_free s' = bf_free s"
    "bf_next_id s' = bf_next_id s" "bf_stats s' = bf_stats s" "length (bf_chunks s') = length (bf_chunks s)"
    "ck_size (chunk_of s' x) = ck_size (chunk_of s x)" "ck_requested (chunk_of s' x) = ck_requested (chunk_of s x)"
    "ck_id (chunk_of s' x) = ck_id (chunk_of s x)" "ck_ptr (chunk_of s' x) = ck_ptr (chunk_of s x)"
    "ck_prev (chunk_of s' x) = ck_prev (chunk_of s x)" "ck_next (chunk_of s' x) = ck_next (chunk_of s x)"
    "ck_freed_at (chunk_of s' x) = ck_freed_at (chunk_of s x)"
    "in_use (chunk_of s' x) = in_use (chunk_of s x)"
    "x \<notin> live s \<Longrightarrow> ck_bin (chunk_of s' x) = ck_bin (chunk_of s x)"
  using assms by (simp_all add: rebin_def in_use_def)

lemma rebin_path: "rebin s s' \<Longrightarrow> free_path (bf_chunks s') p fl = free_path (bf_chunks s) p fl"
  by (induction fl arbitrary: p) (simp_all add: rebin_fields)

lemma rebin_inv:
  assumes r: "rebin s s'" and inv: "bfc_inv X s" and b: "bins_ok Y s'" and c: "coalesced Y s"
  shows "bfc_inv Y s'"
proof -
  note f = rebin_fields [OF r]
  have "layout s'" using bfc_invD(1) [OF inv] by (simp add: layout_def f)
  moreover have "spare s'" using bfc_invD(2) [OF inv] by (simp add: spare_def f rebin_path [OF r])
  moreover have "ids_ok s'" using bfc_invD(4) [OF inv] by (simp add: ids_ok_def f)
  moreover have "totals_ok s'" using bfc_invD(5) [OF inv] by (simp add: totals_ok_def used_bytes_def f)
  moreover have "times_ok s'" using bfc_invD(6) [OF inv] by (simp add: times_ok_def f)
  moreover have "coalesced Y s'" using c by (simp add: coalesced_def f)
  moreover have "stale_ok s'" using bfc_invD(8) [OF inv] by (simp add: stale_ok_def f)
  ultimately show ?thesis using b by (simp add: bfc_inv_def)
qed

lemma rebin_used: "rebin s s' \<Longrightarrow> used s' = used s"
  by (rule ext) (simp add: used_def rebin_fields split: option.split)

text \<open>Live chunks are told apart by the order of the bins.\<close>

lemma layout_live: "layout s \<Longrightarrow> h \<in> live s \<Longrightarrow> h < length (bf_chunks s)"
  by (auto simp: layout_def)

lemma layout_order:
  assumes l: "layout s" and h: "h \<in> live s" "k \<in> live s" "h \<noteq> k"
  shows "chunk_less (bf_chunks s) h k \<or> chunk_less (bf_chunks s) k h"
proof -
  have g: "geo (shapes s) (table s) (\<lambda>h. ck_ptr (chunk_of s h)) (\<lambda>h. ck_size (chunk_of s h))
         (\<lambda>h. ck_next (chunk_of s h)) (\<lambda>h. ck_prev (chunk_of s h))" using l by (simp add: layout_def)
  have "ck_ptr (chunk_of s h) \<noteq> ck_ptr (chunk_of s k)"
    using geo_slot [OF g h(1)] geo_slot [OF g h(2)] h(3) by auto
  then show ?thesis by (auto simp: chunk_less_def)
qed

lemma BinNumForSize_less: "BinNumForSize n < kNumBins"
  by (simp add: BinNumForSize_def kNumBins_def)

lemma chunk_less_same:
  assumes "\<And>x. ck_size (cs' ! x) = ck_size (cs ! x)" "\<And>x. ck_ptr (cs' ! x) = ck_ptr (cs ! x)"
  shows "chunk_less cs' = chunk_less cs"
  using assms by (intro ext) (simp add: chunk_less_def)

lemma Insert_ok:
  assumes inv: "bfc_inv X s" and h: "h \<in> live s" "\<not> in_use (chunk_of s h)" "ck_bin (chunk_of s h) = None"
    and c: "coalesced (X - {h}) s"
  obtains s' where "InsertFreeChunkIntoBin h s = Some s'" "rebin s s'" "bfc_inv (X - {h}) s'" "used s' = used s"
    "\<And>x. x \<noteq> h \<Longrightarrow> ck_bin (chunk_of s' x) = ck_bin (chunk_of s x)"
proof -
  note l = bfc_invD(1) [OF inv]
  have hl: "h < length (bf_chunks s)" by (rule layout_live [OF l h(1)])
  define b where "b = BinNumForSize (ck_size (chunk_of s h))"
  define s1 where "s1 = put_chunk h ((chunk_of s h)\<lparr>ck_bin := Some b\<rparr>) s"
  define hs where "hs = set_insert (chunk_less (bf_chunks s1)) h (bf_bins s ! b)"
  define s' where "s' = put_bin b hs s1"
  have bb: "b < kNumBins" by (simp add: b_def BinNumForSize_less)
  have run: "InsertFreeChunkIntoBin h s = Some s'"
    using hl h by (simp add: InsertFreeChunkIntoBin_def ChunkFromHandle_def s'_def hs_def s1_def b_def Let_def put_chunk_def)
  have ck: "chunk_of s' x = (if x = h then (chunk_of s h)\<lparr>ck_bin := Some b\<rparr> else chunk_of s x)" for x
    using hl by (simp add: s'_def s1_def put_bin_def put_chunk_def nth_list_update)
  have r: "rebin s s'" using h(1) unfolding rebin_def by (auto simp: ck) (simp_all add: s'_def s1_def put_bin_def put_chunk_def)
  note f = rebin_fields [OF r]
  have less: "chunk_less (bf_chunks s') = chunk_less (bf_chunks s)" "chunk_less (bf_chunks s1) = chunk_less (bf_chunks s)"
    by (rule chunk_less_same; simp add: f) (rule chunk_less_same; use hl in \<open>simp add: s1_def put_chunk_def nth_list_update\<close>)
  have bo: "length (bf_bins s) = kNumBins"
    "\<And>d. d < kNumBins \<Longrightarrow> sorted_wrt (chunk_less (bf_chunks s)) (bf_bins s ! d)"
    "\<And>d. d < kNumBins \<Longrightarrow> set (bf_bins s ! d) = {x \<in> live s. ck_bin (chunk_of s x) = Some d}"
    using bfc_invD(3) [OF inv] by (simp_all add: bins_ok_def)
  have apart: "chunk_less (bf_chunks s) h y \<or> chunk_less (bf_chunks s) y h" if "y \<in> set (bf_bins s ! b)" for y
  proof -
    have "y \<in> live s" "ck_bin (chunk_of s y) = Some b" using that bo(3) [OF bb] by auto
    moreover from this have "h \<noteq> y" using h(3) by auto
    ultimately show ?thesis using layout_order [OF l h(1)] by blast
  qed
  have bins: "bf_bins s' ! d = (if d = b then hs else bf_bins s ! d)" for d
    using bb bo(1) by (simp add: s'_def s1_def put_bin_def put_chunk_def nth_list_update)
  have hs: "set hs = insert h (set (bf_bins s ! b))" "sorted_wrt (chunk_less (bf_chunks s)) hs"
    using bin_order.insert_set [OF apart] bin_order.insert_sorted [OF bo(2) [OF bb] apart]
    by (simp_all add: hs_def less)
  have len: "length (bf_bins s') = kNumBins" using bo(1) by (simp add: s'_def s1_def put_bin_def put_chunk_def)
  have "bins_ok (X - {h}) s'"
    unfolding bins_ok_def
  proof (intro conjI allI impI ballI)
    fix d assume d: "d < kNumBins"
    show "sorted_wrt (chunk_less (bf_chunks s')) (bf_bins s' ! d)" using hs bo(2) [OF d] by (simp add: less bins)
    show "set (bf_bins s' ! d) = {x \<in> live s'. ck_bin (chunk_of s' x) = Some d}"
      using hs(1) bo(3) [OF d] bo(3) [OF bb] h by (auto simp: bins f ck)
  next
    fix x d assume "x \<in> live s'" "ck_bin (chunk_of s' x) = Some d"
    then show "\<not> in_use (chunk_of s' x)" "d = BinNumForSize (ck_size (chunk_of s' x))"
      using bfc_invD(3) [OF inv] h by (auto simp: bins_ok_def f ck b_def split: if_splits)
  next
    fix x assume "x \<in> live s'" "x \<notin> X - {h}" "ck_bin (chunk_of s' x) = None"
    then show "in_use (chunk_of s' x)"
      using bfc_invD(3) [OF inv] by (auto simp: bins_ok_def f ck split: if_splits)
  qed (rule len)
  then have "bfc_inv (X - {h}) s'" by (rule rebin_inv [OF r inv _ c])
  then show thesis using that [OF run r] rebin_used [OF r] by (simp add: ck)
qed

lemma unbin_ok:
  assumes inv: "bfc_inv X s" and h: "h \<in> live s" "ck_bin (chunk_of s h) = Some b"
    and hs: "set hs = set (bf_bins s ! b) - {h}" "sorted_wrt (chunk_less (bf_chunks s)) hs"
    and s': "s' = put_chunk h ((chunk_of s h)\<lparr>ck_bin := None\<rparr>) (put_bin b hs s)"
  shows "rebin s s'" "bfc_inv (insert h X) s'" "used s' = used s" "ck_bin (chunk_of s' h) = None"
    "\<And>x. x \<noteq> h \<Longrightarrow> ck_bin (chunk_of s' x) = ck_bin (chunk_of s x)"
proof -
  note l = bfc_invD(1) [OF inv]
  have hl: "h < length (bf_chunks s)" by (rule layout_live [OF l h(1)])
  have bb: "b < kNumBins" using bfc_invD(3) [OF inv] h BinNumForSize_less by (auto simp: bins_ok_def)
  have ck: "chunk_of s' x = (if x = h then (chunk_of s h)\<lparr>ck_bin := None\<rparr> else chunk_of s x)" for x
    using hl by (simp add: s' put_bin_def put_chunk_def nth_list_update)
  show r: "rebin s s'" using h(1) unfolding rebin_def by (auto simp: ck) (simp_all add: s' put_bin_def put_chunk_def)
  note f = rebin_fields [OF r]
  have less: "chunk_less (bf_chunks s') = chunk_less (bf_chunks s)" by (rule chunk_less_same; simp add: f)
  have bo: "length (bf_bins s) = kNumBins"
    "\<And>d. d < kNumBins \<Longrightarrow> sorted_wrt (chunk_less (bf_chunks s)) (bf_bins s ! d)"
    "\<And>d. d < kNumBins \<Longrightarrow> set (bf_bins s ! d) = {x \<in> live s. ck_bin (chunk_of s x) = Some d}"
    using bfc_invD(3) [OF inv] by (simp_all add: bins_ok_def)
  have bins: "bf_bins s' ! d = (if d = b then hs else bf_bins s ! d)" for d
    using bb bo(1) by (simp add: s' put_bin_def put_chunk_def nth_list_update)
  have len: "length (bf_bins s') = kNumBins" using bo(1) by (simp add: s' put_bin_def put_chunk_def)
  have "bins_ok (insert h X) s'"
    unfolding bins_ok_def
  proof (intro conjI allI impI ballI)
    fix d assume d: "d < kNumBins"
    show "sorted_wrt (chunk_less (bf_chunks s')) (bf_bins s' ! d)" using hs bo(2) [OF d] by (simp add: less bins)
    show "set (bf_bins s' ! d) = {x \<in> live s'. ck_bin (chunk_of s' x) = Some d}"
      using hs(1) bo(3) [OF d] bo(3) [OF bb] h by (auto simp: bins f ck)
  next
    fix x d assume "x \<in> live s'" "ck_bin (chunk_of s' x) = Some d"
    then show "\<not> in_use (chunk_of s' x)" "d = BinNumForSize (ck_size (chunk_of s' x))"
      using bfc_invD(3) [OF inv] h by (auto simp: bins_ok_def f ck split: if_splits)
  next
    fix x assume "x \<in> live s'" "x \<notin> insert h X" "ck_bin (chunk_of s' x) = None"
    then show "in_use (chunk_of s' x)"
      using bfc_invD(3) [OF inv] by (auto simp: bins_ok_def f ck split: if_splits)
  qed (rule len)
  moreover have "coalesced (insert h X) s" using bfc_invD(7) [OF inv] by (auto simp: coalesced_def)
  ultimately show "bfc_inv (insert h X) s'" by (rule rebin_inv [OF r inv])
  show "used s' = used s" by (rule rebin_used [OF r])
  show "ck_bin (chunk_of s' h) = None" "\<And>x. x \<noteq> h \<Longrightarrow> ck_bin (chunk_of s' x) = ck_bin (chunk_of s x)" by (simp_all add: ck)
qed

text \<open>A free chunk of a bin can be taken out, by its handle or by an iterator.\<close>

lemma free_binned:
  assumes inv: "bfc_inv X s" and h: "h \<in> live s" "\<not> in_use (chunk_of s h)" "h \<notin> X"
  obtains b where "ck_bin (chunk_of s h) = Some b" "b < kNumBins" "h \<in> set (bf_bins s ! b)"
    "b = BinNumForSize (ck_size (chunk_of s h))"
proof -
  obtain b where b: "ck_bin (chunk_of s h) = Some b"
    using bfc_invD(3) [OF inv] h unfolding bins_ok_def by (cases "ck_bin (chunk_of s h)") auto
  moreover have bb: "b = BinNumForSize (ck_size (chunk_of s h))"
    using bfc_invD(3) [OF inv] h b unfolding bins_ok_def by auto
  moreover from this have "b < kNumBins" by (simp add: BinNumForSize_less)
  moreover from this have "h \<in> set (bf_bins s ! b)" using bfc_invD(3) [OF inv] h b unfolding bins_ok_def by auto
  ultimately show thesis using that by blast
qed

lemma RemoveFromBin_ok:
  assumes inv: "bfc_inv X s" and h: "h \<in> live s" "\<not> in_use (chunk_of s h)" "h \<notin> X"
  obtains s' where "RemoveFreeChunkFromBin h s = Some s'" "rebin s s'" "bfc_inv (insert h X) s'" "used s' = used s"
    "ck_bin (chunk_of s' h) = None" "\<And>x. x \<noteq> h \<Longrightarrow> ck_bin (chunk_of s' x) = ck_bin (chunk_of s x)"
proof -
  note l = bfc_invD(1) [OF inv]
  obtain b where b: "ck_bin (chunk_of s h) = Some b" "b < kNumBins" "h \<in> set (bf_bins s ! b)"
    using free_binned [OF inv h] by metis
  have bo: "sorted_wrt (chunk_less (bf_chunks s)) (bf_bins s ! b)" "set (bf_bins s ! b) \<subseteq> live s"
    using bfc_invD(3) [OF inv] b(2) by (auto simp: bins_ok_def)
  define hs where "hs = set_erase (chunk_less (bf_chunks s)) h (bf_bins s ! b)"
  have hs: "set hs = set (bf_bins s ! b) - {h}" "sorted_wrt (chunk_less (bf_chunks s)) hs"
    unfolding hs_def using bo layout_order [OF l h(1)]
    by (intro bin_order.erase_set; blast) (rule bin_order.erase_sorted [OF bo(1)])
  have "length hs < length (bf_bins s ! b)" unfolding hs_def by (rule bin_order.erase_found [OF b(3)])
  then have "RemoveFreeChunkFromBin h s = Some (put_chunk h ((chunk_of s h)\<lparr>ck_bin := None\<rparr>) (put_bin b hs s))"
    using layout_live [OF l h(1)] h b by (simp add: RemoveFreeChunkFromBin_def ChunkFromHandle_def hs_def Let_def)
  then show thesis using that unbin_ok [OF inv h(1) b(1) hs refl] by blast
qed

lemma RemoveIter_ok:
  assumes inv: "bfc_inv X s" and b: "b < kNumBins" "h \<in> set (bf_bins s ! b)"
  obtains s' where "RemoveFreeChunkIterFromBin b h s = Some s'" "rebin s s'" "bfc_inv (insert h X) s'" "used s' = used s"
    "ck_bin (chunk_of s' h) = None" "\<And>x. x \<noteq> h \<Longrightarrow> ck_bin (chunk_of s' x) = ck_bin (chunk_of s x)"
proof -
  note l = bfc_invD(1) [OF inv]
  have bo: "sorted_wrt (chunk_less (bf_chunks s)) (bf_bins s ! b)"
    "set (bf_bins s ! b) = {h \<in> live s. ck_bin (chunk_of s h) = Some b}"
    using bfc_invD(3) [OF inv] b(1) by (auto simp: bins_ok_def)
  have h: "h \<in> live s" "ck_bin (chunk_of s h) = Some b" using bo(2) b(2) by auto
  have u: "\<not> in_use (chunk_of s h)" using bfc_invD(3) [OF inv] h by (auto simp: bins_ok_def)
  define hs where "hs = remove1 h (bf_bins s ! b)"
  have hs: "set hs = set (bf_bins s ! b) - {h}" "sorted_wrt (chunk_less (bf_chunks s)) hs"
    unfolding hs_def by (rule bin_order.remove1_set [OF bo(1)]) (rule bin_order.remove1_sorted [OF bo(1)])
  have "RemoveFreeChunkIterFromBin b h s = Some (put_chunk h ((chunk_of s h)\<lparr>ck_bin := None\<rparr>) (put_bin b hs s))"
    using layout_live [OF l h(1)] h u by (simp add: RemoveFreeChunkIterFromBin_def ChunkFromHandle_def hs_def)
  then show thesis using that unbin_ok [OF inv h hs refl] by blast
qed

section \<open>Chunk handles\<close>

lemma free_path_cong:
  assumes "free_path cs p fl" "\<And>x. x \<in> set fl \<Longrightarrow> x < length cs' \<and> ck_next (cs' ! x) = ck_next (cs ! x)"
  shows "free_path cs' p fl"
  using assms by (induction fl arbitrary: p) auto

lemma free_path_less: "free_path cs p fl \<Longrightarrow> x \<in> set fl \<Longrightarrow> x < length cs"
  by (induction fl arbitrary: p) auto

text \<open>
  \<open>AllocateChunk\<close> gives a handle that is not live and takes it off the free list; nothing
  else changes.
\<close>

lemma AllocateChunk_ok:
  assumes inv: "bfc_inv X s"
  obtains s1 n fl where "AllocateChunk s = Some (s1, n)" "n \<notin> live s" "n < length (bf_chunks s1)"
    "s1 = s\<lparr>bf_chunks := bf_chunks s1, bf_free := bf_free s1\<rparr>"
    "\<And>x. x < length (bf_chunks s) \<Longrightarrow> chunk_of s1 x = chunk_of s x"
    "length (bf_chunks s) \<le> length (bf_chunks s1)"
    "\<And>x. x < length (bf_chunks s1) \<Longrightarrow> x \<noteq> n \<Longrightarrow> x < length (bf_chunks s)"
    "ck_bin (chunk_of s1 n) = None" "\<not> in_use (chunk_of s1 n)"
    "free_path (bf_chunks s1) (bf_free s1) fl" "distinct fl" "set fl \<inter> live s = {}" "n \<notin> set fl"
proof -
  obtain fl where fl: "free_path (bf_chunks s) (bf_free s) fl" "distinct fl" "set fl \<inter> live s = {}"
    using bfc_invD(2) [OF inv] by (auto simp: spare_def)
  show thesis
  proof (cases "bf_free s")
    case None
    define s1 where "s1 = s\<lparr>bf_chunks := bf_chunks s @ [new_chunk]\<rparr>"
    have "live s \<subseteq> {..<length (bf_chunks s)}" using bfc_invD(1) [OF inv] by (simp add: layout_def)
    moreover have "fl = []" using fl(1) None by (cases fl) auto
    ultimately show ?thesis
      by (intro that [of s1 "length (bf_chunks s)" "[]"])
        (auto simp: AllocateChunk_def None s1_def new_chunk_def in_use_def nth_append)
  next
    case (Some h)
    then obtain fl' where fl': "fl = h # fl'" using fl(1) by (cases fl) auto
    then have h: "h < length (bf_chunks s)" "h \<notin> live s" using fl by auto
    then have "ck_bin (chunk_of s h) = None" "\<not> in_use (chunk_of s h)"
      using bfc_invD(2) [OF inv] by (auto simp: spare_def)
    then show ?thesis using fl fl' h
      by (intro that [of "s\<lparr>bf_free := ck_next (chunk_of s h)\<rparr>" h fl'])
        (auto simp: AllocateChunk_def Some ChunkFromHandle_def)
  qed
qed

section \<open>A split\<close>

text \<open>The state after a split, before the new chunk goes to its bin.\<close>

definition split_of :: "nat \<Rightarrow> nat \<Rightarrow> nat \<Rightarrow> 's bfc \<Rightarrow> 's bfc \<Rightarrow> bool" where
  "split_of h n m s t \<longleftrightarrow> n \<notin> live s \<and> n < length (bf_chunks t)
     \<and> length (bf_chunks s) \<le> length (bf_chunks t)
     \<and> (\<forall>x<length (bf_chunks t). x \<noteq> n \<longrightarrow> x < length (bf_chunks s))
     \<and> (\<exists>fl. free_path (bf_chunks t) (bf_free t) fl \<and> distinct fl \<and> set fl \<inter> live s = {} \<and> n \<notin> set fl)
     \<and> regions_ok (bf_regions t) \<and> map shape (bf_regions t) = map shape (bf_regions s)
     \<and> table t = (table s)(ck_ptr (chunk_of s h) + m := Some n)
     \<and> ck_bin (chunk_of t n) = None \<and> \<not> in_use (chunk_of t n)
     \<and> ck_ptr (chunk_of t n) = ck_ptr (chunk_of s h) + m \<and> ck_size (chunk_of t n) = ck_size (chunk_of s h) - m
     \<and> ck_freed_at (chunk_of t n) = ck_freed_at (chunk_of s h) \<and> ck_prev (chunk_of t n) = Some h
     \<and> ck_next (chunk_of t n) = ck_next (chunk_of s h)
     \<and> chunk_of t h = (chunk_of s h)\<lparr>ck_size := m, ck_next := Some n\<rparr>
     \<and> (\<forall>x<length (bf_chunks s). x \<noteq> h \<longrightarrow> x \<noteq> n \<longrightarrow>
          chunk_of t x = (if ck_next (chunk_of s h) = Some x then (chunk_of s x)\<lparr>ck_prev := Some n\<rparr> else chunk_of s x))
     \<and> t = s\<lparr>bf_chunks := bf_chunks t, bf_free := bf_free t, bf_regions := bf_regions t\<rparr>"

lemma layout_geo: "layout s \<Longrightarrow> geo (shapes s) (table s) (\<lambda>h. ck_ptr (chunk_of s h)) (\<lambda>h. ck_size (chunk_of s h))
         (\<lambda>h. ck_next (chunk_of s h)) (\<lambda>h. ck_prev (chunk_of s h))"
  by (simp add: layout_def)

lemma shape_sizes: "map shape rs = map shape rs' \<Longrightarrow> map rg_size rs = map rg_size rs'"
  by (metis (no_types, lifting) list.map_comp comp_apply shape_def snd_conv map_eq_conv)

text \<open>What an operation on the layout leaves alone.\<close>

definition same_rest :: "'s bfc \<Rightarrow> 's bfc \<Rightarrow> bool" where
  "same_rest s t \<longleftrightarrow> bf_sub t = bf_sub s \<and> bf_limit t = bf_limit s \<and> bf_curr t = bf_curr s \<and> bf_total t = bf_total s
     \<and> bf_backpedal t = bf_backpedal s \<and> bf_gc t = bf_gc s \<and> bf_timing t = bf_timing s \<and> bf_queue t = bf_queue s
     \<and> bf_frontier t = bf_frontier s \<and> bf_bins t = bf_bins s \<and> bf_next_id t = bf_next_id s \<and> bf_stats t = bf_stats s"

lemma same_restI:
  "t = s\<lparr>bf_chunks := cs, bf_free := f, bf_regions := rs\<rparr> \<Longrightarrow> same_rest s t"
  by (simp add: same_rest_def)

lemma same_rest_fields:
  assumes "same_rest s t"
  shows "bf_sub t = bf_sub s" "bf_limit t = bf_limit s" "bf_curr t = bf_curr s" "bf_total t = bf_total s"
    "bf_backpedal t = bf_backpedal s" "bf_gc t = bf_gc s" "bf_timing t = bf_timing s" "bf_queue t = bf_queue s"
    "bf_frontier t = bf_frontier s" "bf_bins t = bf_bins s" "bf_next_id t = bf_next_id s" "bf_stats t = bf_stats s"
  using assms by (simp_all add: same_rest_def)

lemma bins_ok_cong:
  assumes b: "bins_ok X s" and bins: "bf_bins t = bf_bins s"
    and live: "\<And>x. x \<in> live t \<Longrightarrow> ck_bin (chunk_of t x) \<noteq> None \<Longrightarrow> x \<in> live s"
    and kept: "\<And>x. x \<in> live s \<Longrightarrow> ck_bin (chunk_of s x) \<noteq> None \<Longrightarrow> x \<in> live t \<and> ck_bin (chunk_of t x) = ck_bin (chunk_of s x)
        \<and> ck_size (chunk_of t x) = ck_size (chunk_of s x) \<and> ck_ptr (chunk_of t x) = ck_ptr (chunk_of s x)
        \<and> in_use (chunk_of t x) = in_use (chunk_of s x)"
    and none: "\<And>x. x \<in> live t \<Longrightarrow> x \<in> live s \<Longrightarrow> ck_bin (chunk_of s x) = None \<Longrightarrow> ck_bin (chunk_of t x) = None"
    and out: "\<And>x. x \<in> live t \<Longrightarrow> x \<notin> Y \<Longrightarrow> ck_bin (chunk_of t x) = None \<Longrightarrow> in_use (chunk_of t x)"
  shows "bins_ok Y t"
proof -
  have mem: "set (bf_bins s ! d) = {x \<in> live s. ck_bin (chunk_of s x) = Some d}"
    "sorted_wrt (chunk_less (bf_chunks s)) (bf_bins s ! d)" if "d < kNumBins" for d
    using b that by (simp_all add: bins_ok_def)
  have same: "x \<in> live t \<and> ck_bin (chunk_of t x) = Some d \<longleftrightarrow> x \<in> live s \<and> ck_bin (chunk_of s x) = Some d" for x d
  proof
    assume x: "x \<in> live t \<and> ck_bin (chunk_of t x) = Some d"
    then have "x \<in> live s" using live by auto
    moreover from this have "ck_bin (chunk_of s x) \<noteq> None" using none [of x] x by fastforce
    ultimately show "x \<in> live s \<and> ck_bin (chunk_of s x) = Some d" using kept x by auto
  next
    assume "x \<in> live s \<and> ck_bin (chunk_of s x) = Some d"
    then show "x \<in> live t \<and> ck_bin (chunk_of t x) = Some d" using kept [of x] by auto
  qed
  show ?thesis unfolding bins_ok_def
  proof (intro conjI allI impI ballI)
    show "length (bf_bins t) = kNumBins" using b bins by (simp add: bins_ok_def)
  next
    fix d assume d: "d < kNumBins"
    have "chunk_less (bf_chunks t) x y" if "x \<in> set (bf_bins s ! d)" "y \<in> set (bf_bins s ! d)" "chunk_less (bf_chunks s) x y" for x y
      using that kept [of x] kept [of y] by (auto simp: chunk_less_def mem [OF d])
    then show "sorted_wrt (chunk_less (bf_chunks t)) (bf_bins t ! d)"
      using sorted_wrt_mono_rel [OF _ mem(2) [OF d], of "chunk_less (bf_chunks t)"] bins by simp
    show "set (bf_bins t ! d) = {x \<in> live t. ck_bin (chunk_of t x) = Some d}" using mem(1) [OF d] bins same by auto
  next
    fix x d assume x: "x \<in> live t" "ck_bin (chunk_of t x) = Some d"
    then have "x \<in> live s" "ck_bin (chunk_of s x) = Some d" using same by blast+
    then show "\<not> in_use (chunk_of t x)" "d = BinNumForSize (ck_size (chunk_of t x))"
      using kept [of x] b by (auto simp: bins_ok_def)
  next
    fix x assume "x \<in> live t" "x \<notin> Y" "ck_bin (chunk_of t x) = None"
    then show "in_use (chunk_of t x)" by (rule out)
  qed
qed

lemma disjoint_shapes: "regions_ok rs \<Longrightarrow> disjoint_regions (set (map shape rs))"
  unfolding disjoint_regions_def
proof (intro allI impI)
  fix b n b' n' assume ok: "regions_ok rs" and "(b, n) \<in> set (map shape rs)" "(b', n') \<in> set (map shape rs)"
  then obtain i j where ij: "i < length rs" "j < length rs" "(b, n) = shape (rs ! i)" "(b', n') = shape (rs ! j)"
    by (auto simp: in_set_conv_nth)
  then show "(b, n) = (b', n') \<or> b + n \<le> b' \<or> b' + n' \<le> b"
    using sorted_nth_order [OF ok, of i j] sorted_nth_order [OF ok, of j i]
    by (cases i j rule: linorder_cases) (auto simp: shape_def rg_end_def)
qed

lemma split_inv:
  assumes inv: "bfc_inv X s" and h: "h \<in> live s" "h \<in> X" "\<not> in_use (chunk_of s h)" "ck_bin (chunk_of s h) = None"
    and m: "0 < m" "m < ck_size (chunk_of s h)" "256 dvd m" and sp: "split_of h n m s t"
  shows "bfc_inv (insert n X) t" "used t = used s" "live t = insert n (live s)"
proof -
  note l = bfc_invD(1) [OF inv]
  note g = layout_geo [OF l]
  have r: "same_rest s t" using sp unfolding split_of_def by (elim conjE) (rule same_restI)
  note f = same_rest_fields [OF r]
  have n: "n \<notin> live s" "n < length (bf_chunks t)" "length (bf_chunks s) \<le> length (bf_chunks t)"
    and old: "\<And>x. x < length (bf_chunks t) \<Longrightarrow> x \<noteq> n \<Longrightarrow> x < length (bf_chunks s)"
    and rs: "regions_ok (bf_regions t)" "map shape (bf_regions t) = map shape (bf_regions s)"
    and tab: "table t = (table s)(ck_ptr (chunk_of s h) + m := Some n)"
    and cn: "ck_bin (chunk_of t n) = None" "\<not> in_use (chunk_of t n)"
      "ck_ptr (chunk_of t n) = ck_ptr (chunk_of s h) + m" "ck_size (chunk_of t n) = ck_size (chunk_of s h) - m"
      "ck_freed_at (chunk_of t n) = ck_freed_at (chunk_of s h)" "ck_prev (chunk_of t n) = Some h"
      "ck_next (chunk_of t n) = ck_next (chunk_of s h)"
    and ch: "chunk_of t h = (chunk_of s h)\<lparr>ck_size := m, ck_next := Some n\<rparr>"
    and cx: "\<And>x. x < length (bf_chunks s) \<Longrightarrow> x \<noteq> h \<Longrightarrow> x \<noteq> n \<Longrightarrow> chunk_of t x =
         (if ck_next (chunk_of s h) = Some x then (chunk_of s x)\<lparr>ck_prev := Some n\<rparr> else chunk_of s x)"
    using sp unfolding split_of_def by simp_all
  have hn: "h \<noteq> n" using h(1) n(1) by auto
  have ll: "x < length (bf_chunks s)" if "x \<in> live s" for x by (rule layout_live [OF l that])
  have free: "table s (ck_ptr (chunk_of s h) + m) = None" using geo_inside_free [OF g h(1)] m by simp
  show live: "live t = insert n (live s)" unfolding tab using ran_upd_new [of "table s" "ck_ptr (chunk_of s h) + m" n] free by simp
  have cl: "chunk_of t x = (if ck_next (chunk_of s h) = Some x then (chunk_of s x)\<lparr>ck_prev := Some n\<rparr> else chunk_of s x)"
    if "x \<in> live s" "x \<noteq> h" for x
  proof -
    have "x \<noteq> n" using that(1) n(1) by auto
    then show ?thesis using cx [OF ll [OF that(1)] that(2)] by simp
  qed
  have fld: "ck_ptr (chunk_of t x) = ck_ptr (chunk_of s x)" "ck_bin (chunk_of t x) = ck_bin (chunk_of s x)"
    "ck_id (chunk_of t x) = ck_id (chunk_of s x)" "in_use (chunk_of t x) = in_use (chunk_of s x)"
    "ck_freed_at (chunk_of t x) = ck_freed_at (chunk_of s x)" "ck_requested (chunk_of t x) = ck_requested (chunk_of s x)"
    if "x \<in> live s" for x
    using cl [OF that] ch by (cases "x = h"; simp)+
  have sz: "ck_size (chunk_of t x) = ck_size (chunk_of s x)" "ck_next (chunk_of t x) = ck_next (chunk_of s x)"
    if "x \<in> live s" "x \<noteq> h" for x
    using cl [OF that] by simp_all
  have "layout t" unfolding layout_def
  proof (intro conjI)
    show "regions_ok (bf_regions t)" by (rule rs(1))
    show "live t \<subseteq> {..<length (bf_chunks t)}" using live n ll by fastforce
    have "geo (shapes s) ((table s)(ck_ptr (chunk_of s h) + m := Some n))
      ((\<lambda>x. ck_ptr (chunk_of s x))(n := ck_ptr (chunk_of s h) + m))
      ((\<lambda>x. ck_size (chunk_of s x))(h := m, n := ck_size (chunk_of s h) - m))
      ((\<lambda>x. ck_next (chunk_of s x))(h := Some n, n := ck_next (chunk_of s h)))
      (\<lambda>x. if x = n then Some h else if ck_next (chunk_of s h) = Some x then Some n else ck_prev (chunk_of s x))"
      by (rule geo_split [OF g h(1) n(1) m(1) _ m(3)]) (use m(2) in simp_all)
    then have "geo (shapes s) (table t) (\<lambda>x. ck_ptr (chunk_of t x)) (\<lambda>x. ck_size (chunk_of t x))
        (\<lambda>x. ck_next (chunk_of t x)) (\<lambda>x. ck_prev (chunk_of t x))"
      unfolding tab [symmetric]
    proof (rule geo_cong)
      fix x assume "x \<in> live t"
      then consider "x = n" | "x = h" | "x \<in> live s" "x \<noteq> h" "x \<noteq> n" using live by blast
      note cs = this
      have hs: "ck_next (chunk_of s h) \<noteq> Some h" using geo_next [OF g h(1), of h] geo_size [OF g h(1)] by auto
      from cs show "ck_ptr (chunk_of t x) = ((\<lambda>x. ck_ptr (chunk_of s x))(n := ck_ptr (chunk_of s h) + m)) x"
        by cases (use cn ch hn fld(1) in auto)
      from cs show "ck_size (chunk_of t x) = ((\<lambda>x. ck_size (chunk_of s x))(h := m, n := ck_size (chunk_of s h) - m)) x"
        by cases (use cn ch hn sz in auto)
      from cs show "ck_next (chunk_of t x) = ((\<lambda>x. ck_next (chunk_of s x))(h := Some n, n := ck_next (chunk_of s h))) x"
        by cases (use cn ch hn sz in auto)
      from cs show "ck_prev (chunk_of t x) =
          (if x = n then Some h else if ck_next (chunk_of s h) = Some x then Some n else ck_prev (chunk_of s x))"
        by cases (use cn ch hn hs cl in auto)
    qed
    then show "geo (shapes t) (table t) (\<lambda>x. ck_ptr (chunk_of t x)) (\<lambda>x. ck_size (chunk_of t x))
        (\<lambda>x. ck_next (chunk_of t x)) (\<lambda>x. ck_prev (chunk_of t x))" using rs(2) by simp
  qed
  moreover have "spare t" unfolding spare_def
  proof (intro conjI allI impI)
    fix x assume x: "x < length (bf_chunks t)" "x \<notin> live t"
    then have x': "x \<notin> live s" "x \<noteq> n" "x \<noteq> h" using live h(1) by auto
    then have xs: "x < length (bf_chunks s)" using old x(1) by simp
    show "ck_bin (chunk_of t x) = None" "\<not> in_use (chunk_of t x)"
      using cx [OF xs x'(3,2)] bfc_invD(2) [OF inv] xs x'(1) by (auto simp: spare_def split: if_splits)
  next
    show "\<exists>fl. free_path (bf_chunks t) (bf_free t) fl \<and> distinct fl \<and> set fl \<inter> live t = {}"
      using sp unfolding split_of_def live by blast
  qed
  moreover have "bins_ok (insert n X) t"
  proof (rule bins_ok_cong [OF bfc_invD(3) [OF inv] f(10)])
    fix x assume "x \<in> live s" "ck_bin (chunk_of s x) \<noteq> None"
    then have "x \<in> live s" "x \<noteq> h" using h(4) by auto
    then show "x \<in> live t \<and> ck_bin (chunk_of t x) = ck_bin (chunk_of s x)
        \<and> ck_size (chunk_of t x) = ck_size (chunk_of s x) \<and> ck_ptr (chunk_of t x) = ck_ptr (chunk_of s x)
        \<and> in_use (chunk_of t x) = in_use (chunk_of s x)"
      using fld [of x] sz [of x] live by auto
  next
    fix x assume "x \<in> live t" "x \<notin> insert n X" "ck_bin (chunk_of t x) = None"
    then show "in_use (chunk_of t x)" using live fld [of x] bfc_invD(3) [OF inv] by (auto simp: bins_ok_def)
  qed (use live cn(1) fld(2) in auto)
  moreover have "ids_ok t" unfolding ids_ok_def
  proof (intro conjI ballI impI)
    show "0 < bf_next_id t" using bfc_invD(4) [OF inv] by (simp add: ids_ok_def f)
    fix x assume x: "x \<in> live t" "in_use (chunk_of t x)"
    then have xs: "x \<in> live s" "in_use (chunk_of s x)" using live cn(2) fld(4) by auto
    show "0 < ck_id (chunk_of t x)" "ck_id (chunk_of t x) < bf_next_id t"
      using bfc_invD(4) [OF inv] xs fld(3) [of x] by (auto simp: ids_ok_def f)
    fix y assume y: "y \<in> live t" "ck_id (chunk_of t x) = ck_id (chunk_of t y)"
    then have "in_use (chunk_of t y)" using x by (simp add: in_use_def)
    then have "y \<in> live s" using y(1) live cn(2) by auto
    then show "x = y" using bfc_invD(4) [OF inv] xs y(2) fld(3) [of x] fld(3) [of y] by (auto simp: ids_ok_def)
  qed
  moreover have "totals_ok t"
  proof -
    have "{x \<in> live t. in_use (chunk_of t x)} = {x \<in> live s. in_use (chunk_of s x)}" using live cn(2) fld(4) by auto
    moreover have "ck_size (chunk_of t x) = ck_size (chunk_of s x)" if "x \<in> live s" "in_use (chunk_of s x)" for x
      using sz(1) [of x] that h(3) by auto
    ultimately have "used_bytes t = used_bytes s" by (simp add: used_bytes_def)
    then show ?thesis using bfc_invD(5) [OF inv] shape_sizes [OF rs(2)] by (simp add: totals_ok_def f)
  qed
  moreover have "times_ok t"
    using bfc_invD(6) [OF inv] h(1) live cn(5) fld(5) by (auto simp: times_ok_def f)
  moreover have "coalesced (insert n X) t" unfolding coalesced_def
  proof (intro impI ballI allI)
    fix x y assume nt: "\<not> bf_timing t" and x: "x \<in> live t" "ck_next (chunk_of t x) = Some y" "x \<notin> insert n X" "y \<notin> insert n X"
    then have xs: "x \<in> live s" "x \<noteq> h" using live h(2) by auto
    then have ny: "ck_next (chunk_of s x) = Some y" using x(2) sz(2) by simp
    then have ys: "y \<in> live s" using geo_next [OF g xs(1)] by blast
    show "in_use (chunk_of t x) \<or> in_use (chunk_of t y)"
      using bfc_invD(7) [OF inv] nt xs(1) ny x(3,4) fld(4) [OF xs(1)] fld(4) [OF ys] by (auto simp: coalesced_def f)
  qed
  moreover have "stale_ok t" unfolding stale_ok_def
  proof (intro impI conjI allI ballI)
    assume tm: "bf_timing t"
    then have old': "is_slot (shapes s) (ck_ptr (chunk_of s x))" if "x < length (bf_chunks s)" for x
      using bfc_invD(8) [OF inv] that by (simp add: stale_ok_def f)
    fix x assume x: "x < length (bf_chunks t)"
    show "is_slot (shapes t) (ck_ptr (chunk_of t x))"
    proof (cases "x = n")
      case True
      then show ?thesis using geo_inside_slot [OF g h(1) m(2,3)] cn(3) rs(2) by simp
    next
      case False
      then have "x < length (bf_chunks s)" using old x by simp
      then show ?thesis using old' [of x] cx [of x] ch False rs(2) by (cases "x = h") auto
    qed
  next
    fix x assume "bf_timing t" "x \<in> set (bf_queue t)"
    then show "x < length (bf_chunks t)" using bfc_invD(8) [OF inv] n(3) by (auto simp: stale_ok_def f)
  qed
  ultimately show "bfc_inv (insert n X) t" by (simp add: bfc_inv_def)
  show "used t = used s"
  proof
    fix p
    show "used t p = used s p"
    proof (cases "p = ck_ptr (chunk_of s h) + m")
      case True
      then show ?thesis using free cn(2) by (simp add: used_def tab)
    next
      case False
      show ?thesis
      proof (cases "table s p")
        case None
        then show ?thesis using False by (simp add: used_def tab)
      next
        case (Some x)
        then have "x \<in> live s" by (auto simp: ran_def)
        then show ?thesis using Some False fld [of x] sz(1) [of x] h(3) by (cases "x = h") (auto simp: used_def tab)
      qed
    qed
  qed
qed

lemma chunk_put: "h < length (bf_chunks s) \<Longrightarrow> chunk_of (put_chunk h c s) x = (if x = h then c else chunk_of s x)"
  by (simp add: put_chunk_def nth_list_update)

lemma update_chunk_eq: "h < length (bf_chunks s) \<Longrightarrow> update_chunk h f s = Some (put_chunk h (f (chunk_of s h)) s)"
  by (simp add: update_chunk_def ChunkFromHandle_def)

lemma put_chunk_fields [simp]:
  "bf_regions (put_chunk h c s) = bf_regions s" "length (bf_chunks (put_chunk h c s)) = length (bf_chunks s)"
  "bf_free (put_chunk h c s) = bf_free s" "bf_bins (put_chunk h c s) = bf_bins s"
  by (simp_all add: put_chunk_def)

lemma sub64_eq: "b \<le> a \<Longrightarrow> a < 2 ^ 64 \<Longrightarrow> sub64 a b = a - b"
proof -
  assume a: "b \<le> a" "a < 2 ^ 64"
  then have "a + (2 ^ 64 - b) = (a - b) + 2 ^ 64" by simp
  then have "sub64 a b = (a - b) mod 2 ^ 64" unfolding sub64_def u64_def by (simp only: mod_add_self2)
  then show ?thesis using a by simp
qed

text \<open>The steps of \<open>SplitChunk\<close> up to the insertion succeed and give such a state.\<close>

lemma SplitChunk_steps:
  assumes inv: "bfc_inv X s" and h: "h \<in> live s" "\<not> in_use (chunk_of s h)" "ck_bin (chunk_of s h) = None"
    and m: "0 < m" "m < ck_size (chunk_of s h)" "256 dvd m"
  obtains t n where "split_of h n m s t" "SplitChunk h m s = InsertFreeChunkIntoBin n t"
proof -
  note l = bfc_invD(1) [OF inv]
  note g = layout_geo [OF l]
  obtain s1 n fl where al: "AllocateChunk s = Some (s1, n)" and n: "n \<notin> live s" "n < length (bf_chunks s1)"
    and s1: "s1 = s\<lparr>bf_chunks := bf_chunks s1, bf_free := bf_free s1\<rparr>"
    and ck1: "\<And>x. x < length (bf_chunks s) \<Longrightarrow> chunk_of s1 x = chunk_of s x"
    and len: "length (bf_chunks s) \<le> length (bf_chunks s1)"
    and old: "\<And>x. x < length (bf_chunks s1) \<Longrightarrow> x \<noteq> n \<Longrightarrow> x < length (bf_chunks s)"
    and cn: "ck_bin (chunk_of s1 n) = None" "\<not> in_use (chunk_of s1 n)"
    and fl: "free_path (bf_chunks s1) (bf_free s1) fl" "distinct fl" "set fl \<inter> live s = {}" "n \<notin> set fl"
    using AllocateChunk_ok [OF inv] by metis
  have hl: "h < length (bf_chunks s)" by (rule layout_live [OF l h(1)])
  have hl1: "h < length (bf_chunks s1)" using hl len by simp
  have hn: "h \<noteq> n" using h(1) n(1) by auto
  have rs1: "bf_regions s1 = bf_regions s" using arg_cong [OF s1, of bf_regions] by simp
  have ch1: "chunk_of s1 h = chunk_of s h" by (rule ck1 [OF hl])
  obtain b e where be: "in_region (\<lambda>h. ck_ptr (chunk_of s h)) (\<lambda>h. ck_size (chunk_of s h))
         (\<lambda>h. ck_next (chunk_of s h)) (\<lambda>h. ck_prev (chunk_of s h)) h b e" "(b, e) \<in> shapes s"
    using geo_region [OF g h(1)] by blast
  then obtain r where r: "r \<in> set (bf_regions s)" "b = rg_ptr r" "e = rg_size r" by (auto simp: shape_def)
  have "rg_end r < 2 ^ 64" using l r(1) by (auto simp: layout_def regions_ok_def rg_ok_def)
  then have bnd: "ck_ptr (chunk_of s h) + ck_size (chunk_of s h) < 2 ^ 64"
    using be(1) r by (auto simp: in_region_def rg_end_def)
  define p where "p = ck_ptr (chunk_of s h) + m"
  have p: "u64 (ck_ptr (chunk_of s h) + m) = p" "p < 2 ^ 64" using bnd m by (auto simp: u64_def p_def)
  have sz: "sub64 (ck_size (chunk_of s h)) m = ck_size (chunk_of s h) - m"
    using bnd m by (intro sub64_eq) auto
  have slot: "is_slot (shapes s) p" unfolding p_def by (rule geo_inside_slot [OF g h(1) m(2,3)])
  obtain rs' where rs': "set_handle p (Some n) (bf_regions s) = Some rs'" "regions_ok rs'"
    "map shape rs' = map shape (bf_regions s)" "hmap rs' = (table s)(p := Some n)"
    using set_handle_spec [OF _ slot, of "Some n"] l unfolding layout_def by metis
  define c where "c = chunk_of s h"
  define s2 where "s2 = put_chunk n ((chunk_of s1 n)\<lparr>ck_ptr := p\<rparr>) s1"
  define s3 where "s3 = s2\<lparr>bf_regions := rs'\<rparr>"
  define cn' where "cn' = (chunk_of s1 n)\<lparr>ck_ptr := p, ck_size := ck_size c - m, ck_id := - 1,
     ck_freed_at := ck_freed_at c, ck_prev := Some h, ck_next := ck_next c\<rparr>"
  define s4 where "s4 = put_chunk n cn' s3"
  define s5 where "s5 = put_chunk h (c\<lparr>ck_size := m, ck_next := Some n\<rparr>) s4"
  define t where "t = (case ck_next c of None \<Rightarrow> s5 | Some nb \<Rightarrow> put_chunk nb ((chunk_of s5 nb)\<lparr>ck_prev := Some n\<rparr>) s5)"
  have len5: "length (bf_chunks s2) = length (bf_chunks s1)" "length (bf_chunks s3) = length (bf_chunks s1)"
    "length (bf_chunks s4) = length (bf_chunks s1)" "length (bf_chunks s5) = length (bf_chunks s1)"
    by (simp_all add: s5_def s4_def s3_def s2_def)
  have c3: "chunk_of s3 n = (chunk_of s1 n)\<lparr>ck_ptr := p\<rparr>" "chunk_of s4 h = c"
    using n(2) hn hl1 by (simp_all add: s4_def s3_def s2_def put_chunk_def nth_list_update c_def ch1)
  have nb: "k \<in> live s" "k \<noteq> h" "k < length (bf_chunks s)" "k \<noteq> n" if "ck_next c = Some k" for k
  proof -
    have k: "k \<in> live s" "ck_ptr (chunk_of s k) = ck_ptr (chunk_of s h) + ck_size (chunk_of s h)"
      using geo_next [OF g h(1)] that by (auto simp: c_def)
    then show "k \<in> live s" "k \<noteq> h" "k < length (bf_chunks s)" "k \<noteq> n"
      using m layout_live [OF l k(1)] n(1) by auto
  qed
  have "SplitChunk h m s = InsertFreeChunkIntoBin n t"
  proof -
    have 1: "ChunkFromHandle s1 h = Some c" using hl1 ch1 by (simp add: ChunkFromHandle_def c_def)
    have 2: "update_chunk n (\<lambda>x. x\<lparr>ck_ptr := u64 (ck_ptr c + m)\<rparr>) s1 = Some s2"
      using update_chunk_eq [OF n(2)] p(1) by (simp add: s2_def c_def)
    have 3: "set_region_handle (u64 (ck_ptr c + m)) (Some n) s2 = Some s3"
      using rs'(1) p(1) rs1 by (simp add: set_region_handle_def s2_def s3_def c_def)
    have 4: "update_chunk n (\<lambda>x. x\<lparr>ck_size := sub64 (ck_size c) m, ck_id := - 1,
                     ck_freed_at := ck_freed_at c, ck_prev := Some h, ck_next := ck_next c\<rparr>) s3 = Some s4"
      using update_chunk_eq [of n s3] n(2) len5 sz c3(1) by (simp add: s4_def cn'_def c_def)
    have 5: "update_chunk h (\<lambda>x. x\<lparr>ck_size := m, ck_next := Some n\<rparr>) s4 = Some s5"
      using update_chunk_eq [of h s4] hl1 len5 c3(2) by (simp add: s5_def)
    have 6: "(case ck_next c of None \<Rightarrow> Some s5 | Some nb \<Rightarrow> update_chunk nb (\<lambda>x. x\<lparr>ck_prev := Some n\<rparr>) s5) = Some t"
      using nb(3) len len5 update_chunk_eq [of _ s5] by (force simp: t_def split: option.splits)
    show ?thesis using h(2,3) unfolding SplitChunk_def
      by (simp add: al 1 2 3 4 5 6 c_def [symmetric])
  qed
  moreover have "split_of h n m s t"
  proof -
    have ck5: "chunk_of s5 x = (if x = h then c\<lparr>ck_size := m, ck_next := Some n\<rparr> else if x = n then cn' else chunk_of s1 x)" for x
      using hl1 n(2) by (simp add: s5_def s4_def s3_def s2_def put_chunk_def nth_list_update)
    have ckt: "chunk_of t x = (if ck_next c = Some x then (chunk_of s5 x)\<lparr>ck_prev := Some n\<rparr> else chunk_of s5 x)" for x
    proof (cases "ck_next c")
      case (Some k)
      then show ?thesis using nb(3) [OF Some] len len5 by (simp add: t_def chunk_put)
    qed (simp add: t_def)
    have frees: "bf_free t = bf_free s1" "length (bf_chunks t) = length (bf_chunks s1)" "bf_regions t = rs'"
      by (simp_all add: t_def s5_def s4_def s3_def s2_def split: option.split)
    have eq: "t = s\<lparr>bf_chunks := bf_chunks t, bf_free := bf_free t, bf_regions := bf_regions t\<rparr>"
      by (cases "ck_next c"; simp add: t_def s5_def s4_def s3_def s2_def put_chunk_def; subst s1; simp)
    have nx: "ck_next c \<noteq> Some h" "ck_next c \<noteq> Some n" using nb(2,4) by blast+
    have path: "free_path (bf_chunks t) (bf_free t) fl"
    proof (rule free_path_cong [of "bf_chunks s1"])
      show "free_path (bf_chunks s1) (bf_free t) fl" using fl(1) frees by simp
      fix x assume x: "x \<in> set fl"
      then have "x \<noteq> h" "x \<noteq> n" "ck_next c \<noteq> Some x" using fl(3,4) h(1) nb(1) by auto
      then show "x < length (bf_chunks t) \<and> ck_next (chunk_of t x) = ck_next (chunk_of s1 x)"
        using free_path_less [OF fl(1) x] frees by (simp add: ckt ck5)
    qed
    show ?thesis unfolding split_of_def
    proof (intro conjI)
      show "\<exists>fl. free_path (bf_chunks t) (bf_free t) fl \<and> distinct fl \<and> set fl \<inter> live s = {} \<and> n \<notin> set fl"
        using path fl by blast
      show "t = s\<lparr>bf_chunks := bf_chunks t, bf_free := bf_free t, bf_regions := bf_regions t\<rparr>" by (rule eq)
      show "table t = (table s)(ck_ptr (chunk_of s h) + m := Some n)" using rs'(4) frees by (simp add: p_def)
    qed (use n len old frees rs' nx hn cn ck1 in \<open>auto simp: ckt ck5 cn'_def c_def [symmetric] p_def\<close>)
  qed
  ultimately show thesis using that by blast
qed

text \<open>A chunk that is out of the bins, and may be next to free chunks, is split.\<close>

lemma SplitChunk_ok:
  assumes inv: "bfc_inv {h} s" and c: "coalesced {} s"
    and h: "h \<in> live s" "\<not> in_use (chunk_of s h)" "ck_bin (chunk_of s h) = None"
    and m: "0 < m" "m < ck_size (chunk_of s h)" "256 dvd m"
  obtains s' where "SplitChunk h m s = Some s'" "bfc_inv {h} s'" "used s' = used s" "h \<in> live s'"
    "\<not> in_use (chunk_of s' h)" "ck_bin (chunk_of s' h) = None" "ck_size (chunk_of s' h) = m"
    "ck_ptr (chunk_of s' h) = ck_ptr (chunk_of s h)" "same_rest s (s'\<lparr>bf_bins := bf_bins s\<rparr>)"
    "map shape (bf_regions s') = map shape (bf_regions s)"
proof -
  obtain t n where sp: "split_of h n m s t" and run: "SplitChunk h m s = InsertFreeChunkIntoBin n t"
    using SplitChunk_steps [OF inv h m] by metis
  note i = split_inv [OF inv h(1) _ h(2,3) m sp]
  have i1: "bfc_inv {n, h} t" and i2: "used t = used s" and i3: "live t = insert n (live s)"
    using i by simp_all
  have n: "n \<notin> live s" "ck_bin (chunk_of t n) = None" "\<not> in_use (chunk_of t n)"
    "chunk_of t h = (chunk_of s h)\<lparr>ck_size := m, ck_next := Some n\<rparr>"
    "ck_next (chunk_of t n) = ck_next (chunk_of s h)" "map shape (bf_regions t) = map shape (bf_regions s)"
    and cx: "\<And>x. x < length (bf_chunks s) \<Longrightarrow> x \<noteq> h \<Longrightarrow> x \<noteq> n \<Longrightarrow> chunk_of t x =
         (if ck_next (chunk_of s h) = Some x then (chunk_of s x)\<lparr>ck_prev := Some n\<rparr> else chunk_of s x)"
    using sp unfolding split_of_def by simp_all
  have hn: "h \<noteq> n" using h(1) n(1) by auto
  have r: "same_rest s t" using sp unfolding split_of_def by (elim conjE) (rule same_restI)
  have "coalesced {h} t" unfolding coalesced_def
  proof (intro impI ballI allI)
    fix x y assume nt: "\<not> bf_timing t" and x: "x \<in> live t" "ck_next (chunk_of t x) = Some y" "x \<notin> {h}" "y \<notin> {h}"
    show "in_use (chunk_of t x) \<or> in_use (chunk_of t y)"
    proof (cases "x = n \<or> y = n")
      case False
      then show ?thesis using bfc_invD(7) [OF i1] nt x by (auto simp: coalesced_def)
    next
      case True
      have "y \<noteq> n" if "x \<noteq> n"
      proof
        assume y: "y = n"
        have "x \<in> live s" using x(1) i3 that by blast
        then have "x < length (bf_chunks s)" by (rule layout_live [OF bfc_invD(1) [OF inv]])
        then have "ck_next (chunk_of s x) = Some n" using cx [of x] x(2,3) that y by (auto split: if_splits)
        then show False using geo_next [OF layout_geo [OF bfc_invD(1) [OF inv]] \<open>x \<in> live s\<close>] n(1) by blast
      qed
      then have "x = n" using True by blast
      then have y: "ck_next (chunk_of s h) = Some y" using x(2) n(5) by simp
      then have ys: "y \<in> live s" using geo_next [OF layout_geo [OF bfc_invD(1) [OF inv]] h(1)] by blast
      have "in_use (chunk_of s y)" using c nt same_rest_fields(7) [OF r] h(1,2) y by (auto simp: coalesced_def)
      moreover have "y \<noteq> n" using ys n(1) by auto
      ultimately show ?thesis
        using cx [of y] layout_live [OF bfc_invD(1) [OF inv] ys] x(4) by (auto split: if_splits)
    qed
  qed
  moreover have X: "{n, h} - {n} = {h}" using hn by auto
  ultimately have c2: "coalesced ({n, h} - {n}) t" by simp
  have nl: "n \<in> live t" using i3 by simp
  obtain s' where s': "InsertFreeChunkIntoBin n t = Some s'" "rebin t s'" "bfc_inv {h} s'" "used s' = used t"
    "\<And>x. x \<noteq> n \<Longrightarrow> ck_bin (chunk_of s' x) = ck_bin (chunk_of t x)"
    using Insert_ok [OF i1 nl n(3,2) c2] unfolding X by metis
  note f = rebin_fields [OF s'(2)]
  show thesis
  proof (rule that [of s'])
    show "SplitChunk h m s = Some s'" using run s'(1) by simp
    show "h \<in> live s'" using i3 h(1) f by simp
    show "same_rest s (s'\<lparr>bf_bins := bf_bins s\<rparr>)" using r f by (simp add: same_rest_def)
    show "used s' = used s" using s'(4) i2 by simp
    show "ck_bin (chunk_of s' h) = None" using s'(5) [of h] hn n(4) h(3) by simp
  qed (use s' f n h in simp_all)
qed

end
