(* ===== verification/BFC_Coalesce.thy ===== *)
theory BFC_Coalesce
  imports BFC_Invariant
begin

text \<open>
  Merging of neighbours: \<open>Merge\<close> and \<open>TryToCoalesce\<close> keep the invariant and everything that
  is handed out, and without a timing counter \<open>TryToCoalesce\<close> leaves the chunk between chunks
  in use.
\<close>

section \<open>A merge\<close>

definition merge_of :: "nat \<Rightarrow> nat \<Rightarrow> 's bfc \<Rightarrow> 's bfc \<Rightarrow> bool" where
  "merge_of h k s t \<longleftrightarrow> length (bf_chunks t) = length (bf_chunks s) \<and> bf_free t = Some k
     \<and> regions_ok (bf_regions t) \<and> map shape (bf_regions t) = map shape (bf_regions s)
     \<and> table t = (table s)(ck_ptr (chunk_of s k) := None)
     \<and> chunk_of t h = (chunk_of s h)\<lparr>ck_size := ck_size (chunk_of s h) + ck_size (chunk_of s k),
          ck_next := ck_next (chunk_of s k),
          ck_freed_at := max (ck_freed_at (chunk_of s h)) (ck_freed_at (chunk_of s k))\<rparr>
     \<and> ck_ptr (chunk_of t k) = ck_ptr (chunk_of s k) \<and> ck_bin (chunk_of t k) = None \<and> \<not> in_use (chunk_of t k) \<and> ck_next (chunk_of t k) = bf_free s
     \<and> (\<forall>x. x \<noteq> h \<longrightarrow> x \<noteq> k \<longrightarrow>
          chunk_of t x = (if ck_next (chunk_of s k) = Some x then (chunk_of s x)\<lparr>ck_prev := Some h\<rparr> else chunk_of s x))
     \<and> t = s\<lparr>bf_chunks := bf_chunks t, bf_free := bf_free t, bf_regions := bf_regions t\<rparr>"

lemma region_bound:
  assumes l: "layout s" and h: "h \<in> live s"
  shows "ck_ptr (chunk_of s h) + ck_size (chunk_of s h) < 2 ^ 64" "0 < ck_ptr (chunk_of s h)"
proof -
  obtain b e where be: "in_region (\<lambda>h. ck_ptr (chunk_of s h)) (\<lambda>h. ck_size (chunk_of s h))
         (\<lambda>h. ck_next (chunk_of s h)) (\<lambda>h. ck_prev (chunk_of s h)) h b e" "(b, e) \<in> shapes s"
    using geo_region [OF layout_geo [OF l] h] by blast
  then obtain r where r: "r \<in> set (bf_regions s)" "b = rg_ptr r" "e = rg_size r" by (auto simp: shape_def)
  have "rg_end r < 2 ^ 64" "0 < rg_ptr r" using l r(1) by (auto simp: layout_def regions_ok_def rg_ok_def)
  then show "ck_ptr (chunk_of s h) + ck_size (chunk_of s h) < 2 ^ 64" "0 < ck_ptr (chunk_of s h)"
    using be(1) r by (auto simp: in_region_def rg_end_def)
qed

lemma Merge_steps:
  assumes l: "layout s" and h: "h \<in> live s" "ck_next (chunk_of s h) = Some k"
    and free: "\<not> in_use (chunk_of s h)" "\<not> in_use (chunk_of s k)"
  obtains t where "Merge h k s = Some t" "merge_of h k s t"
proof -
  note g = layout_geo [OF l]
  have k: "k \<in> live s" "ck_prev (chunk_of s k) = Some h" "ck_ptr (chunk_of s k) = ck_ptr (chunk_of s h) + ck_size (chunk_of s h)"
    using geo_next [OF g h] by auto
  have hk: "h \<noteq> k" using k(3) geo_size [OF g h(1)] by auto
  have hl: "h < length (bf_chunks s)" "k < length (bf_chunks s)" using layout_live [OF l] h(1) k(1) by auto
  have sum: "u64 (ck_size (chunk_of s h) + ck_size (chunk_of s k)) = ck_size (chunk_of s h) + ck_size (chunk_of s k)"
    using region_bound [OF l k(1)] k(3) by (simp add: u64_def)
  have nb: "y \<noteq> h" "y \<noteq> k" "y < length (bf_chunks s)" if "ck_next (chunk_of s k) = Some y" for y
  proof -
    have y: "y \<in> live s" "ck_ptr (chunk_of s y) = ck_ptr (chunk_of s k) + ck_size (chunk_of s k)"
      using geo_next [OF g k(1) that] by auto
    then show "y \<noteq> h" "y \<noteq> k" "y < length (bf_chunks s)"
      using k(3) geo_size [OF g h(1)] geo_size [OF g k(1)] layout_live [OF l y(1)] by auto
  qed
  define c1 where "c1 = chunk_of s h"
  define c2 where "c2 = chunk_of s k"
  define s1 where "s1 = put_chunk h (c1\<lparr>ck_next := ck_next c2, ck_size := ck_size c1 + ck_size c2,
     ck_freed_at := max (ck_freed_at c1) (ck_freed_at c2)\<rparr>) s"
  define s2 where "s2 = (case ck_next c2 of None \<Rightarrow> s1 | Some y \<Rightarrow> put_chunk y ((chunk_of s1 y)\<lparr>ck_prev := Some h\<rparr>) s1)"
  have len: "length (bf_chunks s1) = length (bf_chunks s)" "length (bf_chunks s2) = length (bf_chunks s)"
    by (simp_all add: s1_def s2_def split: option.split)
  have rs2: "bf_regions s2 = bf_regions s" "bf_free s2 = bf_free s" by (simp_all add: s1_def s2_def split: option.split)
  have ck1: "chunk_of s1 x = (if x = h then c1\<lparr>ck_next := ck_next c2, ck_size := ck_size c1 + ck_size c2,
     ck_freed_at := max (ck_freed_at c1) (ck_freed_at c2)\<rparr> else chunk_of s x)" for x
    by (simp add: s1_def chunk_put [OF hl(1)])
  have ck2: "chunk_of s2 x = (if ck_next c2 = Some x then (chunk_of s1 x)\<lparr>ck_prev := Some h\<rparr> else chunk_of s1 x)" for x
  proof (cases "ck_next c2")
    case (Some y)
    then have "y < length (bf_chunks s1)" using nb(3) len by (simp add: c2_def)
    then show ?thesis using Some by (simp add: s2_def chunk_put)
  qed (simp add: s2_def)
  have "ck_next c2 \<noteq> Some k" using nb(2) c2_def by metis
  then have ck2k: "chunk_of s2 k = c2" using hk by (simp add: ck2 ck1 c2_def)
  have slot: "is_slot (shapes s) (ck_ptr c2)" unfolding c2_def by (rule geo_is_slot [OF g k(1)])
  obtain rs' where rs': "set_handle (ck_ptr c2) None (bf_regions s) = Some rs'" "regions_ok rs'"
    "map shape rs' = map shape (bf_regions s)" "hmap rs' = (table s)(ck_ptr c2 := None)"
    using set_handle_spec [OF _ slot, of None] l unfolding layout_def by metis
  define s3 where "s3 = s2\<lparr>bf_regions := rs'\<rparr>"
  define t where "t = (put_chunk k (c2\<lparr>ck_id := - 1, ck_bin := None, ck_next := bf_free s\<rparr>) s3)\<lparr>bf_free := Some k\<rparr>"
  have "DeleteChunk k s2 = Some t"
  proof -
    have 1: "ChunkFromHandle s2 k = Some c2" using hl len ck2k by (simp add: ChunkFromHandle_def)
    have 2: "set_region_handle (ck_ptr c2) None s2 = Some s3" using rs'(1) rs2 by (simp add: set_region_handle_def s3_def)
    have "chunk_of s3 k = c2" "k < length (bf_chunks s3)" using ck2k hl len by (simp_all add: s3_def)
    then have 3: "DeallocateChunk k s3 = Some t"
      using update_chunk_eq [of k s3] rs2 by (simp add: DeallocateChunk_def t_def s3_def)
    show ?thesis by (simp add: DeleteChunk_def 1 2 3)
  qed
  moreover have "update_chunk h (\<lambda>x. x\<lparr>ck_next := ck_next c2, ck_size := u64 (ck_size c1 + ck_size c2),
                     ck_freed_at := max (ck_freed_at c1) (ck_freed_at c2)\<rparr>) s = Some s1"
    using update_chunk_eq [OF hl(1)] sum by (simp add: s1_def c1_def c2_def)
  moreover have "(case ck_next c2 of None \<Rightarrow> Some s1
                   | Some h3 \<Rightarrow> update_chunk h3 (\<lambda>x. x\<lparr>ck_prev := Some h\<rparr>) s1) = Some s2"
    using nb(3) len update_chunk_eq [of _ s1] by (force simp: s2_def c2_def split: option.splits)
  moreover have "ChunkFromHandle s h = Some c1" "ChunkFromHandle s k = Some c2"
    using hl by (simp_all add: ChunkFromHandle_def c1_def c2_def)
  ultimately have run: "Merge h k s = Some t" using free k(2) unfolding Merge_def by (simp add: c1_def c2_def)
  have ckt: "chunk_of t x = (if x = k then c2\<lparr>ck_id := - 1, ck_bin := None, ck_next := bf_free s\<rparr> else chunk_of s2 x)" for x
    using hl(2) len by (simp add: t_def s3_def put_chunk_def nth_list_update)
  have eq: "t = s\<lparr>bf_chunks := bf_chunks t, bf_free := bf_free t, bf_regions := bf_regions t\<rparr>"
    by (simp add: t_def s3_def s2_def s1_def put_chunk_def split: option.split)
  have f: "bf_regions t = rs'" "bf_free t = Some k" "length (bf_chunks t) = length (bf_chunks s)"
    using len by (simp_all add: t_def s3_def)
  have nx: "ck_next c2 \<noteq> Some h" using nb(1) [of h] by (auto simp: c2_def)
  have "merge_of h k s t" unfolding merge_of_def
  proof (intro conjI)
    show "t = s\<lparr>bf_chunks := bf_chunks t, bf_free := bf_free t, bf_regions := bf_regions t\<rparr>" by (rule eq)
    show "table t = (table s)(ck_ptr (chunk_of s k) := None)" using rs'(4) f by (simp add: c2_def)
  qed (use f rs' hk nx in \<open>auto simp: ckt ck2 ck1 c1_def c2_def\<close>)
  then show thesis using that run by blast
qed

lemma merge_inv:
  assumes inv: "bfc_inv X s" and h: "h \<in> live s" "ck_next (chunk_of s h) = Some k"
    and free: "\<not> in_use (chunk_of s h)" "\<not> in_use (chunk_of s k)" and X: "h \<in> X" "k \<in> X"
    and bins: "ck_bin (chunk_of s h) = None" "ck_bin (chunk_of s k) = None" and mg: "merge_of h k s t"
  shows "bfc_inv (X - {k}) t" "used t = used s" "live t = live s - {k}"
proof -
  note l = bfc_invD(1) [OF inv]
  note g = layout_geo [OF l]
  have r: "same_rest s t" using mg unfolding merge_of_def by (elim conjE) (rule same_restI)
  note f = same_rest_fields [OF r]
  have len: "length (bf_chunks t) = length (bf_chunks s)" and fr: "bf_free t = Some k"
    and rs: "regions_ok (bf_regions t)" "map shape (bf_regions t) = map shape (bf_regions s)"
    and tab: "table t = (table s)(ck_ptr (chunk_of s k) := None)"
    and ch: "chunk_of t h = (chunk_of s h)\<lparr>ck_size := ck_size (chunk_of s h) + ck_size (chunk_of s k),
          ck_next := ck_next (chunk_of s k),
          ck_freed_at := max (ck_freed_at (chunk_of s h)) (ck_freed_at (chunk_of s k))\<rparr>"
    and ckp: "ck_ptr (chunk_of t k) = ck_ptr (chunk_of s k)"
    and ckk: "ck_bin (chunk_of t k) = None" "\<not> in_use (chunk_of t k)" "ck_next (chunk_of t k) = bf_free s"
    and cx: "\<And>x. x \<noteq> h \<Longrightarrow> x \<noteq> k \<Longrightarrow> chunk_of t x =
        (if ck_next (chunk_of s k) = Some x then (chunk_of s x)\<lparr>ck_prev := Some h\<rparr> else chunk_of s x)"
    using mg unfolding merge_of_def by simp_all
  have k: "k \<in> live s" "ck_prev (chunk_of s k) = Some h" "ck_ptr (chunk_of s k) = ck_ptr (chunk_of s h) + ck_size (chunk_of s h)"
    using geo_next [OF g h] by auto
  have hk: "h \<noteq> k" using k(3) geo_size [OF g h(1)] by auto
  have slot: "table s (ck_ptr (chunk_of s k)) = Some k" by (rule geo_slot [OF g k(1)])
  show live: "live t = live s - {k}" unfolding tab
  proof (rule ran_del [of "table s" "ck_ptr (chunk_of s k)" k])
    show "table s (ck_ptr (chunk_of s k)) = Some k" by (rule slot)
    show "q = ck_ptr (chunk_of s k)" if "table s q = Some k" for q using geo_ptr [OF g that] by simp
  qed
  have fld: "ck_ptr (chunk_of t x) = ck_ptr (chunk_of s x)" "ck_bin (chunk_of t x) = ck_bin (chunk_of s x)"
    "ck_id (chunk_of t x) = ck_id (chunk_of s x)" "in_use (chunk_of t x) = in_use (chunk_of s x)"
    "ck_requested (chunk_of t x) = ck_requested (chunk_of s x)"
    if "x \<noteq> k" for x
    using cx [OF _ that] ch by (cases "x = h"; simp)+
  have sz: "ck_size (chunk_of t x) = ck_size (chunk_of s x)" "ck_next (chunk_of t x) = ck_next (chunk_of s x)"
    "ck_freed_at (chunk_of t x) = ck_freed_at (chunk_of s x)"
    if "x \<noteq> k" "x \<noteq> h" for x
    using cx [OF that(2,1)] by simp_all
  have nkh: "ck_next (chunk_of s k) \<noteq> Some h"
    using geo_next [OF g k(1), of h] k(3) geo_size [OF g h(1)] by auto
  have "layout t" unfolding layout_def
  proof (intro conjI)
    show "regions_ok (bf_regions t)" by (rule rs(1))
    show "live t \<subseteq> {..<length (bf_chunks t)}" using live len layout_live [OF l] by auto
    have "geo (shapes s) ((table s)(ck_ptr (chunk_of s k) := None)) (\<lambda>x. ck_ptr (chunk_of t x)) (\<lambda>x. ck_size (chunk_of t x))
        (\<lambda>x. ck_next (chunk_of t x)) (\<lambda>x. ck_prev (chunk_of t x))"
    proof (rule geo_merge [OF g _ h])
      show "disjoint_regions (shapes s)" using l disjoint_shapes [of "bf_regions s"] by (simp add: layout_def)
      fix x assume x: "x \<noteq> k"
      show "ck_ptr (chunk_of t x) = ck_ptr (chunk_of s x)" by (rule fld(1) [OF x])
      show "ck_size (chunk_of t x) = (if x = h then ck_size (chunk_of s h) + ck_size (chunk_of s k) else ck_size (chunk_of s x))"
        using ch sz(1) [OF x] by simp
      show "ck_next (chunk_of t x) = (if x = h then ck_next (chunk_of s k) else ck_next (chunk_of s x))"
        using ch sz(2) [OF x] by simp
      show "ck_prev (chunk_of t x) = (if ck_next (chunk_of s k) = Some x then Some h else ck_prev (chunk_of s x))"
        using ch nkh cx [OF _ x] by (cases "x = h") auto
    qed
    then show "geo (shapes t) (table t) (\<lambda>x. ck_ptr (chunk_of t x)) (\<lambda>x. ck_size (chunk_of t x))
        (\<lambda>x. ck_next (chunk_of t x)) (\<lambda>x. ck_prev (chunk_of t x))" using rs(2) tab by simp
  qed
  moreover have "spare t" unfolding spare_def
  proof (intro conjI allI impI)
    fix x assume x: "x < length (bf_chunks t)" "x \<notin> live t"
    have sp: "ck_bin (chunk_of s x) = None" "\<not> in_use (chunk_of s x)" if "x \<noteq> k"
      using bfc_invD(2) [OF inv] x len live that by (auto simp: spare_def)
    show "ck_bin (chunk_of t x) = None" using sp ckk fld(2) [of x] by (cases "x = k") auto
    show "\<not> in_use (chunk_of t x)" using sp ckk fld(4) [of x] by (cases "x = k") auto
  next
    obtain fl where fl: "free_path (bf_chunks s) (bf_free s) fl" "distinct fl" "set fl \<inter> live s = {}"
      using bfc_invD(2) [OF inv] by (auto simp: spare_def)
    have "free_path (bf_chunks t) (bf_free s) fl"
    proof (rule free_path_cong [OF fl(1)])
      fix x assume x: "x \<in> set fl"
      then have "x \<noteq> k" "x \<noteq> h" using fl(3) h(1) k(1) by auto
      then show "x < length (bf_chunks t) \<and> ck_next (chunk_of t x) = ck_next (chunk_of s x)"
        using sz(2) free_path_less [OF fl(1) x] len by simp
    qed
    then have "free_path (bf_chunks t) (bf_free t) (k # fl)" using fr ckk(3) layout_live [OF l k(1)] len by simp
    moreover have "distinct (k # fl)" "set (k # fl) \<inter> live t = {}" using fl k(1) live by auto
    ultimately show "\<exists>fl. free_path (bf_chunks t) (bf_free t) fl \<and> distinct fl \<and> set fl \<inter> live t = {}" by blast
  qed
  moreover have "bins_ok (X - {k}) t"
  proof (rule bins_ok_cong [OF bfc_invD(3) [OF inv] f(10)])
    fix x assume "x \<in> live s" "ck_bin (chunk_of s x) \<noteq> None"
    then have "x \<in> live s" "x \<noteq> h" "x \<noteq> k" using bins by auto
    then show "x \<in> live t \<and> ck_bin (chunk_of t x) = ck_bin (chunk_of s x)
        \<and> ck_size (chunk_of t x) = ck_size (chunk_of s x) \<and> ck_ptr (chunk_of t x) = ck_ptr (chunk_of s x)
        \<and> in_use (chunk_of t x) = in_use (chunk_of s x)"
      using fld [of x] sz [of x] live by auto
  next
    fix x assume "x \<in> live t" "x \<notin> X - {k}" "ck_bin (chunk_of t x) = None"
    then show "in_use (chunk_of t x)" using live fld [of x] bfc_invD(3) [OF inv] by (auto simp: bins_ok_def)
  qed (use live fld(2) in auto)
  moreover have "ids_ok t"
    using bfc_invD(4) [OF inv] live fld(3,4) by (simp add: ids_ok_def f)
  moreover have "totals_ok t"
  proof -
    have "{x \<in> live t. in_use (chunk_of t x)} = {x \<in> live s. in_use (chunk_of s x)}" using live free fld(4) by auto
    moreover have "ck_size (chunk_of t x) = ck_size (chunk_of s x)" if "in_use (chunk_of s x)" for x
      using sz(1) [of x] that free by auto
    ultimately have "used_bytes t = used_bytes s" by (simp add: used_bytes_def)
    then show ?thesis using bfc_invD(5) [OF inv] shape_sizes [OF rs(2)] by (simp add: totals_ok_def f)
  qed
  moreover have "times_ok t" unfolding times_ok_def
  proof (intro impI conjI ballI)
    assume "\<not> bf_timing t"
    then have z: "bf_queue s = []" "\<forall>x\<in>live s. ck_freed_at (chunk_of s x) = 0"
      using bfc_invD(6) [OF inv] f by (auto simp: times_ok_def)
    show "bf_queue t = []" using z f by simp
    fix x assume "x \<in> live t"
    then show "ck_freed_at (chunk_of t x) = 0" using z live ch h(1) k(1) sz(3) [of x] by (cases "x = h") auto
  qed
  moreover have "coalesced (X - {k}) t" unfolding coalesced_def
  proof (intro impI ballI allI)
    fix x y assume nt: "\<not> bf_timing t" and x: "x \<in> live t" "ck_next (chunk_of t x) = Some y" "x \<notin> X - {k}" "y \<notin> X - {k}"
    then have xs: "x \<in> live s" "x \<noteq> h" "x \<noteq> k" using live X by auto
    then have ny: "ck_next (chunk_of s x) = Some y" using x(2) sz(2) by simp
    then have "y \<noteq> k" using k(2) geo_next [OF g xs(1) ny] xs(2) by auto
    then show "in_use (chunk_of t x) \<or> in_use (chunk_of t y)"
      using bfc_invD(7) [OF inv] nt xs ny x(3,4) fld(4) [of x] fld(4) [of y] by (auto simp: coalesced_def f)
  qed
  moreover have "stale_ok t"
  proof -
    have "ck_ptr (chunk_of t x) = ck_ptr (chunk_of s x)" for x using fld(1) ckp by (cases "x = k") auto
    then show ?thesis using bfc_invD(8) [OF inv] len rs(2) by (simp add: stale_ok_def f)
  qed
  ultimately show "bfc_inv (X - {k}) t" by (simp add: bfc_inv_def)
  show "used t = used s"
  proof
    fix p
    show "used t p = used s p"
    proof (cases "p = ck_ptr (chunk_of s k)")
      case True
      then show ?thesis using slot free(2) by (simp add: used_def tab)
    next
      case False
      show ?thesis
      proof (cases "table s p")
        case None
        then show ?thesis using False by (simp add: used_def tab)
      next
        case (Some x)
        then have "x \<noteq> k" using geo_ptr [OF g Some] False by auto
        then show ?thesis using Some False fld [of x] sz(1) [of x] free(1) by (cases "x = h") (auto simp: used_def tab)
      qed
    qed
  qed
qed

section \<open>What an operation keeps\<close>

text \<open>Everything the client and the sub-allocator can see.\<close>

definition keeps :: "'s bfc \<Rightarrow> 's bfc \<Rightarrow> bool" where
  "keeps s t \<longleftrightarrow> used t = used s \<and> map shape (bf_regions t) = map shape (bf_regions s) \<and> bf_sub t = bf_sub s
     \<and> bf_limit t = bf_limit s \<and> bf_curr t = bf_curr s \<and> bf_total t = bf_total s
     \<and> bf_backpedal t = bf_backpedal s \<and> bf_gc t = bf_gc s \<and> bf_timing t = bf_timing s \<and> bf_queue t = bf_queue s
     \<and> bf_frontier t = bf_frontier s \<and> bf_next_id t = bf_next_id s \<and> bf_stats t = bf_stats s"

lemma keeps_refl [simp]: "keeps s s" by (simp add: keeps_def)

lemma keeps_trans [trans]: "keeps s t \<Longrightarrow> keeps t u \<Longrightarrow> keeps s u"
  by (simp add: keeps_def)

lemma keeps_rebin: "rebin s t \<Longrightarrow> keeps s t"
  by (simp add: keeps_def rebin_used rebin_fields)

lemma keeps_same_rest:
  "same_rest s t \<Longrightarrow> used t = used s \<Longrightarrow> map shape (bf_regions t) = map shape (bf_regions s) \<Longrightarrow> keeps s t"
  by (simp add: keeps_def same_rest_def)

text \<open>A free chunk outside the bins.\<close>

definition loose :: "nat \<Rightarrow> 's bfc \<Rightarrow> bool" where
  "loose h s \<longleftrightarrow> bfc_inv {h} s \<and> h \<in> live s \<and> \<not> in_use (chunk_of s h) \<and> ck_bin (chunk_of s h) = None"

section \<open>Coalescing\<close>

text \<open>Two neighbours, the one loose and the other free and in a bin, become one loose chunk.\<close>

lemma merge_loose:
  assumes inv: "bfc_inv {a} s" and x: "x \<in> live s" "\<not> in_use (chunk_of s x)"
    and ck: "a \<in> live s" "\<not> in_use (chunk_of s a)" "ck_bin (chunk_of s a) = None" and xa: "x \<noteq> a"
    and link: "(h = a \<and> k = x) \<or> (h = x \<and> k = a)" "ck_next (chunk_of s h) = Some k"
  obtains s1 t where "RemoveFreeChunkFromBin x s = Some s1" "Merge h k s1 = Some t" "loose h t" "keeps s t"
    "merge_of h k s1 t" "rebin s s1" "live t = live s - {k}"
proof -
  have "x \<notin> {a}" using xa by simp
  obtain s1 where s1: "RemoveFreeChunkFromBin x s = Some s1" "rebin s s1" "bfc_inv (insert x {a}) s1" "used s1 = used s"
    "ck_bin (chunk_of s1 x) = None" "\<And>y. y \<noteq> x \<Longrightarrow> ck_bin (chunk_of s1 y) = ck_bin (chunk_of s y)"
    using RemoveFromBin_ok [OF inv x \<open>x \<notin> {a}\<close>] by metis
  note f = rebin_fields [OF s1(2)]
  note l1 = bfc_invD(1) [OF s1(3)]
  have hk: "h \<in> live s1" "ck_next (chunk_of s1 h) = Some k" "\<not> in_use (chunk_of s1 h)" "\<not> in_use (chunk_of s1 k)"
    "h \<in> insert x {a}" "k \<in> insert x {a}" "insert x {a} - {k} = {h}" "h \<noteq> k"
    using link x ck xa f by auto
  have ba: "ck_bin (chunk_of s1 a) = None" using s1(6) [of a] xa ck(3) by simp
  have bins: "ck_bin (chunk_of s1 h) = None" "ck_bin (chunk_of s1 k) = None"
    using link(1) s1(5) ba by auto
  obtain t where t: "Merge h k s1 = Some t" "merge_of h k s1 t"
    using Merge_steps [OF l1 hk(1-4)] by metis
  note m = merge_inv [OF s1(3) hk(1-6) bins t(2)]
  have ch: "chunk_of t h = (chunk_of s1 h)\<lparr>ck_size := ck_size (chunk_of s1 h) + ck_size (chunk_of s1 k),
          ck_next := ck_next (chunk_of s1 k),
          ck_freed_at := max (ck_freed_at (chunk_of s1 h)) (ck_freed_at (chunk_of s1 k))\<rparr>"
    and rest: "same_rest s1 t" and sh: "map shape (bf_regions t) = map shape (bf_regions s1)"
    using t(2) unfolding merge_of_def by (simp_all, elim conjE, blast intro: same_restI)
  have "loose h t" using m(1,3) hk ch bins by (simp add: loose_def)
  moreover have "keeps s t"
    using keeps_trans [OF keeps_rebin [OF s1(2)] keeps_same_rest [OF rest m(2) sh]] .
  ultimately show thesis using that s1(1,2) t m(3) f(10) by simp
qed

text \<open>After the first half the next chunk is in use, if there is no timing counter.\<close>

definition next_used :: "nat \<Rightarrow> 's bfc \<Rightarrow> bool" where
  "next_used h s \<longleftrightarrow> (\<forall>k. ck_next (chunk_of s h) = Some k \<longrightarrow> in_use (chunk_of s k))"

lemma ChunkFromHandle_live: "layout s \<Longrightarrow> h \<in> live s \<Longrightarrow> ChunkFromHandle s h = Some (chunk_of s h)"
  by (simp add: ChunkFromHandle_def layout_live)

lemma looseD:
  assumes "loose h s"
  shows "bfc_inv {h} s" "h \<in> live s" "\<not> in_use (chunk_of s h)" "ck_bin (chunk_of s h) = None" "layout s"
  using assms by (auto simp: loose_def bfc_inv_def)

lemma coalesce_next_ok:
  assumes lo: "loose h s"
  obtains s1 where "coalesce_next h ign s = Some s1" "loose h s1" "keeps s s1" "\<not> bf_timing s \<Longrightarrow> next_used h s1"
    "ck_prev (chunk_of s1 h) = ck_prev (chunk_of s h)"
proof -
  note d = looseD [OF lo]
  note g = layout_geo [OF d(5)]
  have time: "ck_freed_at (chunk_of s x) = 0" if "\<not> bf_timing s" "x \<in> live s" for x
    using bfc_invD(6) [OF d(1)] that by (simp add: times_ok_def)
  have run0: "ChunkFromHandle s h = Some (chunk_of s h)" by (rule ChunkFromHandle_live [OF d(5,2)])
  show thesis
  proof (cases "ck_next (chunk_of s h)")
    case None
    then show ?thesis using that [of s] lo run0 by (simp add: coalesce_next_def next_used_def)
  next
    case (Some n)
    have n: "n \<in> live s" "ck_ptr (chunk_of s n) = ck_ptr (chunk_of s h) + ck_size (chunk_of s h)"
      using geo_next [OF g d(2) Some] by auto
    have nh: "n \<noteq> h" using n(2) geo_size [OF g d(2)] by auto
    have runn: "ChunkFromHandle s n = Some (chunk_of s n)" by (rule ChunkFromHandle_live [OF d(5) n(1)])
    show ?thesis
    proof (cases "\<not> in_use (chunk_of s n) \<and> (ck_freed_at (chunk_of s n) = 0 \<or> ign)")
      case False
      then have "in_use (chunk_of s n)" if "\<not> bf_timing s" using time [OF that n(1)] by auto
      then show ?thesis using that [of s] lo run0 runn Some False by (simp add: coalesce_next_def next_used_def)
    next
      case True
      obtain s1 t where t: "RemoveFreeChunkFromBin n s = Some s1" "Merge h n s1 = Some t" "loose h t" "keeps s t"
        "merge_of h n s1 t" "rebin s s1"
        using merge_loose [OF d(1) n(1) _ d(2-4) nh, of h n] True Some by metis
      note f = rebin_fields [OF t(6)]
      have ch: "ck_next (chunk_of t h) = ck_next (chunk_of s n)" "ck_prev (chunk_of t h) = ck_prev (chunk_of s h)"
        and cx: "\<And>x. x \<noteq> h \<Longrightarrow> x \<noteq> n \<Longrightarrow> in_use (chunk_of t x) = in_use (chunk_of s x)"
        using t(5) unfolding merge_of_def by (simp_all add: f)
      have "next_used h t" if "\<not> bf_timing s" unfolding next_used_def
      proof (intro allI impI)
        fix y assume "ck_next (chunk_of t h) = Some y"
        then have ny: "ck_next (chunk_of s n) = Some y" using ch by simp
        have "ck_ptr (chunk_of s y) = ck_ptr (chunk_of s n) + ck_size (chunk_of s n)" using geo_next [OF g n(1) ny] by simp
        then have y: "y \<noteq> n" "y \<noteq> h" using n(2) geo_size [OF g n(1)] geo_size [OF g d(2)] by auto
        then show "in_use (chunk_of t y)"
          using bfc_invD(7) [OF d(1)] that n(1) ny nh True cx [OF y(2,1)] by (auto simp: coalesced_def)
      qed
      then show ?thesis using that [of t] t run0 runn Some True ch by (simp add: coalesce_next_def)
    qed
  qed
qed

lemma coalesce_prev_ok:
  assumes lo: "loose h s" and nu: "\<not> bf_timing s \<Longrightarrow> next_used h s"
  obtains s1 h' where "coalesce_prev h ign s = Some (s1, h')" "loose h' s1" "keeps s s1" "coalesced {} s1"
proof -
  note d = looseD [OF lo]
  note g = layout_geo [OF d(5)]
  have time: "ck_freed_at (chunk_of s x) = 0" if "\<not> bf_timing s" "x \<in> live s" for x
    using bfc_invD(6) [OF d(1)] that by (simp add: times_ok_def)
  have run0: "ChunkFromHandle s h = Some (chunk_of s h)" by (rule ChunkFromHandle_live [OF d(5,2)])
  have coal: "in_use (chunk_of s x) \<or> in_use (chunk_of s y)"
    if "\<not> bf_timing s" "x \<in> live s" "ck_next (chunk_of s x) = Some y" "y \<noteq> h" for x y
    using bfc_invD(7) [OF d(1)] that nu by (cases "x = h") (auto simp: coalesced_def next_used_def)
  have done_: "coalesced {} s" if "\<And>p. \<not> bf_timing s \<Longrightarrow> ck_prev (chunk_of s h) = Some p \<Longrightarrow> in_use (chunk_of s p)"
    unfolding coalesced_def
  proof (intro impI ballI allI)
    fix x y assume x: "\<not> bf_timing s" "x \<in> live s" "ck_next (chunk_of s x) = Some y"
    show "in_use (chunk_of s x) \<or> in_use (chunk_of s y)"
      using coal [OF x] that [OF x(1), of x] geo_next [OF g x(2,3)] by (cases "y = h") auto
  qed
  show thesis
  proof (cases "ck_prev (chunk_of s h)")
    case None
    then show ?thesis using that [of s h] lo run0 done_ by (simp add: coalesce_prev_def)
  next
    case (Some p)
    have p: "p \<in> live s" "ck_next (chunk_of s p) = Some h" using geo_prev [OF g d(2) Some] by auto
    have ph: "p \<noteq> h" using geo_next [OF g p] geo_size [OF g p(1)] by auto
    have runp: "ChunkFromHandle s p = Some (chunk_of s p)" by (rule ChunkFromHandle_live [OF d(5) p(1)])
    show ?thesis
    proof (cases "\<not> in_use (chunk_of s p) \<and> (ck_freed_at (chunk_of s p) = 0 \<or> ign)")
      case False
      then have "in_use (chunk_of s p)" if "\<not> bf_timing s" using time [OF that p(1)] by auto
      then have "coalesced {} s" using Some by (intro done_) auto
      then show ?thesis using that [of s h] lo run0 runp Some False by (simp add: coalesce_prev_def)
    next
      case True
      obtain s1 t where t: "RemoveFreeChunkFromBin p s = Some s1" "Merge p h s1 = Some t" "loose p t" "keeps s t"
        "merge_of p h s1 t" "rebin s s1" "live t = live s - {h}"
        using merge_loose [OF d(1) p(1) _ d(2-4) ph, of p h] True p(2) by metis
      note f = rebin_fields [OF t(6)]
      have ch: "ck_next (chunk_of t p) = ck_next (chunk_of s h)"
        and cx: "\<And>x. x \<noteq> p \<Longrightarrow> x \<noteq> h \<Longrightarrow> in_use (chunk_of t x) = in_use (chunk_of s x) \<and> ck_next (chunk_of t x) = ck_next (chunk_of s x)"
        using t(5) unfolding merge_of_def by (simp_all add: f)
      have "coalesced {} t" unfolding coalesced_def
      proof (intro impI ballI allI)
        fix x y assume tm: "\<not> bf_timing t" and x: "x \<in> live t" "ck_next (chunk_of t x) = Some y"
        have nt: "\<not> bf_timing s" using tm t(4) by (simp add: keeps_def)
        have xh: "x \<noteq> h" "x \<in> live s" using x(1) t(7) by auto
        show "in_use (chunk_of t x) \<or> in_use (chunk_of t y)"
        proof (cases "x = p")
          case xp: True
          then have hy: "ck_next (chunk_of s h) = Some y" using x(2) ch by simp
          then have "in_use (chunk_of s y)" using nu [OF nt] by (simp add: next_used_def)
          moreover from this have "y \<noteq> p" "y \<noteq> h" using True d(3) by auto
          ultimately show ?thesis using cx by simp
        next
          case xp: False
          then have xy: "ck_next (chunk_of s x) = Some y" using x(2) cx xh(1) by simp
          have "y \<noteq> h" using geo_next [OF g xh(2) xy] Some xp by auto
          then have "in_use (chunk_of s x) \<or> in_use (chunk_of s y)" using coal [OF nt xh(2) xy] by simp
          then show ?thesis using cx [OF xp xh(1)] cx [of y] \<open>y \<noteq> h\<close> True by (cases "y = p") auto
        qed
      qed
      then show ?thesis using that [of t p] t run0 runp Some True by (simp add: coalesce_prev_def)
    qed
  qed
qed

lemma TryToCoalesce_ok:
  assumes lo: "loose h s"
  obtains s' h' where "TryToCoalesce h ign s = Some (s', h')" "loose h' s'" "keeps s s'" "coalesced {} s'"
proof -
  note d = looseD [OF lo]
  have run0: "ChunkFromHandle s h = Some (chunk_of s h)" by (rule ChunkFromHandle_live [OF d(5,2)])
  show thesis
  proof (cases "\<not> ign \<and> ck_freed_at (chunk_of s h) > 0")
    case True
    then have "bf_timing s" using bfc_invD(6) [OF d(1)] d(2) by (auto simp: times_ok_def)
    then show ?thesis using that [of s h] lo run0 True by (simp add: TryToCoalesce_def coalesced_def)
  next
    case False
    obtain s1 where s1: "coalesce_next h ign s = Some s1" "loose h s1" "keeps s s1" "\<not> bf_timing s \<Longrightarrow> next_used h s1"
      using coalesce_next_ok [OF lo] by metis
    have "\<not> bf_timing s1 \<Longrightarrow> next_used h s1" using s1(3,4) by (simp add: keeps_def)
    then obtain s2 h' where s2: "coalesce_prev h ign s1 = Some (s2, h')" "loose h' s2" "keeps s1 s2" "coalesced {} s2"
      using coalesce_prev_ok [OF s1(2)] by metis
    then show ?thesis using that [of s2 h'] s1 run0 False keeps_trans [OF s1(3) s2(3)]
      by (auto simp: TryToCoalesce_def)
  qed
qed

text \<open>Back into its bin.\<close>

lemma loose_insert:
  assumes lo: "loose h s" and c: "coalesced {} s"
  obtains s' where "InsertFreeChunkIntoBin h s = Some s'" "bfc_inv {} s'" "keeps s s'" "rebin s s'"
proof -
  note d = looseD [OF lo]
  have X: "{h} - {h} = {}" by simp
  show thesis using Insert_ok [OF d(1-4)] c that keeps_rebin unfolding X by metis
qed

end
