(* ===== verification/BFC_Blocks.thy ===== *)
theory BFC_Blocks
  imports BFC_Coalesce
begin

text \<open>
  Handing out and taking back blocks: \<open>FindChunkPtr\<close> and \<open>DeallocateRaw\<close> keep the invariant,
  and do to the map of used blocks what an allocator should.
\<close>

section \<open>Used blocks\<close>

lemma used_Some:
  "used s p = Some (n, r, i) \<longleftrightarrow>
     (\<exists>h. table s p = Some h \<and> in_use (chunk_of s h) \<and> n = ck_size (chunk_of s h)
        \<and> r = ck_requested (chunk_of s h) \<and> i = ck_id (chunk_of s h))"
  by (auto simp: used_def split: option.splits if_splits)

text \<open>Blocks in use do not overlap and lie in the regions.\<close>

lemma used_disjoint:
  assumes l: "layout s" and u: "used s p = Some (n, r, i)" "used s q = Some (m, r', i')" "p \<noteq> q"
  shows "p + n \<le> q \<or> q + m \<le> p"
proof -
  note g = layout_geo [OF l]
  obtain h k where hk: "table s p = Some h" "n = ck_size (chunk_of s h)" "table s q = Some k" "m = ck_size (chunk_of s k)"
    using u(1,2) by (auto simp: used_Some)
  have "h \<noteq> k" using geo_ptr [OF g hk(1)] geo_ptr [OF g hk(3)] u(3) by auto
  then show ?thesis
    using geo_disjoint [OF g, of h k] geo_ptr [OF g hk(1)] geo_ptr [OF g hk(3)] hk by (auto simp: ran_def)
qed

lemma used_in_region:
  assumes l: "layout s" and u: "used s p = Some (n, r, i)"
  shows "\<exists>b e. (b, e) \<in> shapes s \<and> b \<le> p \<and> p + n \<le> b + e \<and> 256 dvd p - b" "0 < n" "0 < p" "p + n < 2 ^ 64"
proof -
  note g = layout_geo [OF l]
  obtain h where h: "table s p = Some h" "n = ck_size (chunk_of s h)" using u by (auto simp: used_Some)
  have hl: "h \<in> live s" using h(1) by (auto simp: ran_def)
  have p: "ck_ptr (chunk_of s h) = p" using geo_ptr [OF g h(1)] by simp
  show "\<exists>b e. (b, e) \<in> shapes s \<and> b \<le> p \<and> p + n \<le> b + e \<and> 256 dvd p - b"
    using geo_region [OF g hl] unfolding in_region_def p h(2) by blast
  show "0 < n" using geo_size [OF g hl] h(2) by simp
  show "0 < p" "p + n < 2 ^ 64" using region_bound [OF l hl] p h(2) by simp_all
qed

text \<open>Fields the invariant does not look at, or hardly.\<close>

lemmas bfc_inv_parts = bfc_inv_def layout_def spare_def bins_ok_def ids_ok_def totals_ok_def used_bytes_def
  times_ok_def coalesced_def stale_ok_def

lemma bfc_inv_queue:
  "bfc_inv X s \<Longrightarrow> bf_timing s \<Longrightarrow> (\<And>h. h \<in> set q \<Longrightarrow> h < length (bf_chunks s)) \<Longrightarrow> bfc_inv X (s\<lparr>bf_queue := q\<rparr>)"
  by (simp add: bfc_inv_parts)

lemma bfc_inv_config:
  "bfc_inv X s \<Longrightarrow> bfc_inv X (s\<lparr>bf_sub := sub\<rparr>)"
  "bfc_inv X s \<Longrightarrow> bfc_inv X (s\<lparr>bf_backpedal := bp\<rparr>)"
  "bfc_inv X s \<Longrightarrow> bfc_inv X (s\<lparr>bf_frontier := fr\<rparr>)"
  "bfc_inv X s \<Longrightarrow> 256 dvd c \<Longrightarrow> c < 2 ^ 64 \<Longrightarrow> bfc_inv X (s\<lparr>bf_curr := c\<rparr>)"
  by (simp_all add: bfc_inv_parts)

lemma used_config [simp]:
  "used (s\<lparr>bf_queue := q\<rparr>) = used s" "used (s\<lparr>bf_sub := sub\<rparr>) = used s" "used (s\<lparr>bf_backpedal := bp\<rparr>) = used s"
  "used (s\<lparr>bf_curr := c\<rparr>) = used s" "used (s\<lparr>bf_frontier := fr\<rparr>) = used s"
  by (rule ext, simp add: used_def split: option.split)+

section \<open>Deallocation\<close>

lemma get_handle_used:
  assumes l: "layout s" and u: "used s p = Some b"
  obtains h where "get_handle (bf_regions s) p = Some (Some h)" "table s p = Some h" "h \<in> live s"
    "in_use (chunk_of s h)" "ck_ptr (chunk_of s h) = p"
proof -
  obtain h where h: "table s p = Some h" "in_use (chunk_of s h)" using u by (cases b) (auto simp: used_Some)
  have "get_handle (bf_regions s) p = Some (table s p)"
    using get_handle_hmap [OF _ hmap_slot [OF h(1)]] l by (simp add: layout_def)
  then show thesis using that [of h] h geo_ptr [OF layout_geo [OF l] h(1)] by (auto simp: ran_def)
qed

lemma in_use_unbinned: "bins_ok X s \<Longrightarrow> h \<in> live s \<Longrightarrow> in_use (chunk_of s h) \<Longrightarrow> ck_bin (chunk_of s h) = None"
  by (cases "ck_bin (chunk_of s h)") (auto simp: bins_ok_def)

text \<open>A chunk in use becomes loose.\<close>

text \<open>What neither an allocation from the bins nor a deallocation changes.\<close>

definition same_config :: "'s bfc \<Rightarrow> 's bfc \<Rightarrow> bool" where
  "same_config s t \<longleftrightarrow> map shape (bf_regions t) = map shape (bf_regions s) \<and> bf_sub t = bf_sub s
     \<and> bf_limit t = bf_limit s \<and> bf_curr t = bf_curr s \<and> bf_total t = bf_total s
     \<and> bf_backpedal t = bf_backpedal s \<and> bf_gc t = bf_gc s \<and> bf_timing t = bf_timing s"

lemma same_config_keeps: "keeps s t \<Longrightarrow> same_config s t"
  by (simp add: same_config_def keeps_def)

lemma same_config_trans: "same_config s t \<Longrightarrow> same_config t u \<Longrightarrow> same_config s u"
  by (simp add: same_config_def)

lemma same_config_queue [simp]: "same_config s (t\<lparr>bf_queue := q\<rparr>) = same_config s t"
  by (simp add: same_config_def)

definition free_at :: "nat \<Rightarrow> nat \<Rightarrow> 's bfc \<Rightarrow> 's bfc" where
  "free_at tick h s = (put_chunk h ((chunk_of s h)\<lparr>ck_id := - 1,
        ck_freed_at := (if bf_timing s then tick else ck_freed_at (chunk_of s h))\<rparr>) s)
      \<lparr>bf_stats := (bf_stats s)\<lparr>bytes_in_use := bytes_in_use (bf_stats s) - int (ck_size (chunk_of s h))\<rparr>\<rparr>"

lemma free_at_chunk:
  "h < length (bf_chunks s) \<Longrightarrow> chunk_of (free_at tick h s) x =
     (if x = h then (chunk_of s h)\<lparr>ck_id := - 1,
        ck_freed_at := (if bf_timing s then tick else ck_freed_at (chunk_of s h))\<rparr> else chunk_of s x)"
  by (simp add: free_at_def put_chunk_def nth_list_update)

lemma free_at_fields [simp]:
  "bf_regions (free_at tick h s) = bf_regions s" "length (bf_chunks (free_at tick h s)) = length (bf_chunks s)"
  "bf_free (free_at tick h s) = bf_free s" "bf_bins (free_at tick h s) = bf_bins s" "bf_timing (free_at tick h s) = bf_timing s"
  "bf_queue (free_at tick h s) = bf_queue s" "bf_next_id (free_at tick h s) = bf_next_id s"
  "bf_total (free_at tick h s) = bf_total s" "bf_limit (free_at tick h s) = bf_limit s" "bf_curr (free_at tick h s) = bf_curr s"
  "bf_sub (free_at tick h s) = bf_sub s" "bf_gc (free_at tick h s) = bf_gc s"
  "bf_backpedal (free_at tick h s) = bf_backpedal s"
  "bytes_in_use (bf_stats (free_at tick h s)) = bytes_in_use (bf_stats s) - int (ck_size (chunk_of s h))"
  by (simp_all add: free_at_def put_chunk_def)

lemma free_at_loose:
  assumes inv: "bfc_inv {} s" and h: "h \<in> live s" "in_use (chunk_of s h)"
  shows "loose h (free_at tick h s)" "used (free_at tick h s) = (used s)(ck_ptr (chunk_of s h) := None)"
proof -
  let ?t = "free_at tick h s"
  note l = bfc_invD(1) [OF inv]
  note g = layout_geo [OF l]
  have hl: "h < length (bf_chunks s)" by (rule layout_live [OF l h(1)])
  note ck = free_at_chunk [OF hl, of tick]
  have un: "ck_bin (chunk_of s h) = None" by (rule in_use_unbinned [OF bfc_invD(3) [OF inv] h])
  have fld: "ck_ptr (chunk_of ?t x) = ck_ptr (chunk_of s x)" "ck_size (chunk_of ?t x) = ck_size (chunk_of s x)"
    "ck_next (chunk_of ?t x) = ck_next (chunk_of s x)" "ck_prev (chunk_of ?t x) = ck_prev (chunk_of s x)"
    "ck_bin (chunk_of ?t x) = ck_bin (chunk_of s x)" "in_use (chunk_of ?t x) = (x \<noteq> h \<and> in_use (chunk_of s x))"
    "x \<noteq> h \<Longrightarrow> chunk_of ?t x = chunk_of s x" for x
    by (simp_all add: ck)
  have "layout ?t" using l by (simp add: layout_def fld)
  moreover have "spare ?t" unfolding spare_def
  proof (intro conjI allI impI)
    fix x assume "x < length (bf_chunks ?t)" "x \<notin> live ?t"
    then show "ck_bin (chunk_of ?t x) = None" "\<not> in_use (chunk_of ?t x)"
      using bfc_invD(2) [OF inv] by (auto simp: spare_def fld)
  next
    obtain fl where fl: "free_path (bf_chunks s) (bf_free s) fl" "distinct fl" "set fl \<inter> live s = {}"
      using bfc_invD(2) [OF inv] by (auto simp: spare_def)
    have "free_path (bf_chunks ?t) (bf_free s) fl"
      by (rule free_path_cong [OF fl(1)]) (use free_path_less [OF fl(1)] in \<open>simp add: fld\<close>)
    then show "\<exists>fl. free_path (bf_chunks ?t) (bf_free ?t) fl \<and> distinct fl \<and> set fl \<inter> live ?t = {}" using fl by auto
  qed
  moreover have "bins_ok {h} ?t"
    by (rule bins_ok_cong [OF bfc_invD(3) [OF inv]])
      (use un fld h bfc_invD(3) [OF inv] in \<open>auto simp: bins_ok_def\<close>)
  moreover have "ids_ok ?t" unfolding ids_ok_def
  proof (intro conjI ballI impI)
    show "0 < bf_next_id ?t" using bfc_invD(4) [OF inv] by (simp add: ids_ok_def)
    fix x assume x: "x \<in> live ?t" "in_use (chunk_of ?t x)"
    then have xs: "x \<noteq> h" "x \<in> live s" "in_use (chunk_of s x)" using fld(6) by auto
    show "0 < ck_id (chunk_of ?t x)" "ck_id (chunk_of ?t x) < bf_next_id ?t"
      using bfc_invD(4) [OF inv] xs fld(7) [of x] by (auto simp: ids_ok_def)
    fix y assume y: "y \<in> live ?t" "ck_id (chunk_of ?t x) = ck_id (chunk_of ?t y)"
    then have "in_use (chunk_of ?t y)" using x by (simp add: in_use_def)
    then have "y \<noteq> h" "y \<in> live s" using fld(6) y(1) by auto
    then show "x = y" using bfc_invD(4) [OF inv] xs y(2) fld(7) [of x] fld(7) [of y] by (auto simp: ids_ok_def)
  qed
  moreover have "totals_ok ?t"
  proof -
    have fin: "finite (live s)" using l finite_subset by (auto simp: layout_def)
    have eq: "{x \<in> live ?t. in_use (chunk_of ?t x)} = {x \<in> live s. in_use (chunk_of s x)} - {h}" using fld(6) by auto
    have "used_bytes ?t = used_bytes s - int (ck_size (chunk_of s h))"
      unfolding used_bytes_def eq using fin h by (simp add: fld sum_diff1)
    then show ?thesis using bfc_invD(5) [OF inv] by (simp add: totals_ok_def)
  qed
  moreover have "times_ok ?t"
    using bfc_invD(6) [OF inv] h(1) by (auto simp: times_ok_def ck)
  moreover have "coalesced {h} ?t"
    using bfc_invD(7) [OF inv] by (auto simp: coalesced_def fld)
  moreover have "stale_ok ?t" using bfc_invD(8) [OF inv] by (simp add: stale_ok_def fld)
  ultimately show "loose h ?t" using h(1) un by (simp add: loose_def bfc_inv_def fld)
  have slot: "table s (ck_ptr (chunk_of s h)) = Some h" by (rule geo_slot [OF g h(1)])
  show "used ?t = (used s)(ck_ptr (chunk_of s h) := None)"
  proof
    fix p
    show "used ?t p = ((used s)(ck_ptr (chunk_of s h) := None)) p"
    proof (cases "p = ck_ptr (chunk_of s h)")
      case True
      then show ?thesis using slot by (simp add: used_def fld)
    next
      case False
      have "x \<noteq> h" if "table s p = Some x" for x using geo_ptr [OF g that] False by auto
      then show ?thesis using False by (auto simp: used_def fld split: option.split)
    qed
  qed
qed

lemma DeallocateRaw_ok:
  assumes inv: "bfc_inv {} s" and u: "used s p = Some b"
  obtains s' where "DeallocateRaw tick p s = Some s'" "bfc_inv {} s'" "used s' = (used s)(p := None)"
    "same_config s s'" "bf_next_id s' = bf_next_id s"
proof -
  note l = bfc_invD(1) [OF inv]
  obtain h where h: "get_handle (bf_regions s) p = Some (Some h)" "table s p = Some h" "h \<in> live s"
    "in_use (chunk_of s h)" "ck_ptr (chunk_of s h) = p" using get_handle_used [OF l u] by metis
  define t where "t = free_at tick h s"
  have p0: "p \<noteq> 0" using used_in_region(3) [OF l, of p] u by (cases b) auto
  have un: "ck_bin (chunk_of s h) = None" by (rule in_use_unbinned [OF bfc_invD(3) [OF inv] h(3,4)])
  have mf: "MarkFree tick h s = Some t"
    using ChunkFromHandle_live [OF l h(3)] h(4) un by (simp add: MarkFree_def t_def free_at_def)
  have lo: "loose h t" and ut: "used t = (used s)(p := None)"
    using free_at_loose [OF inv h(3,4), of tick] h(5) by (simp_all add: t_def)
  have ft: "bf_timing t = bf_timing s" "bf_next_id t = bf_next_id s" by (simp_all add: t_def)
  have st: "same_config s t" by (simp add: t_def same_config_def)
  show thesis
  proof (cases "bf_timing s")
    case True
    then have "coalesced {} t" using ft by (simp add: coalesced_def)
    then obtain s2 where s2: "InsertFreeChunkIntoBin h t = Some s2" "bfc_inv {} s2" "keeps t s2" "rebin t s2"
      using loose_insert [OF lo] by metis
    have "bf_timing s2" using s2(3) True ft by (simp add: keeps_def)
    moreover have "x < length (bf_chunks s2)" if "x \<in> set (bf_queue s2 @ [h])" for x
    proof (cases "x = h")
      case True
      then show ?thesis using layout_live [OF looseD(5,2) [OF lo]] rebin_fields(14) [OF s2(4)] by simp
    next
      case False
      then show ?thesis using that bfc_invD(8) [OF s2(2)] \<open>bf_timing s2\<close> by (simp add: stale_ok_def)
    qed
    ultimately have "bfc_inv {} (s2\<lparr>bf_queue := bf_queue s2 @ [h]\<rparr>)" by (rule bfc_inv_queue [OF s2(2)])
    moreover have "same_config s s2" using same_config_trans [OF st same_config_keeps [OF s2(3)]] .
    ultimately show ?thesis using that [of "s2\<lparr>bf_queue := bf_queue s2 @ [h]\<rparr>"] p0 h(1) mf s2 True ft ut
      by (simp add: DeallocateRaw_def keeps_def)
  next
    case False
    obtain s2 h' where s2: "TryToCoalesce h False t = Some (s2, h')" "loose h' s2" "keeps t s2" "coalesced {} s2"
      using TryToCoalesce_ok [OF lo] by metis
    obtain s3 where s3: "InsertFreeChunkIntoBin h' s2 = Some s3" "bfc_inv {} s3" "keeps s2 s3"
      using loose_insert [OF s2(2,4)] by metis
    have k: "keeps t s3" by (rule keeps_trans [OF s2(3) s3(3)])
    have "same_config s s3" using same_config_trans [OF st same_config_keeps [OF k]] .
    then show ?thesis using that [of s3] p0 h(1) mf s2(1) s3(1,2) False ft ut k
      by (simp add: DeallocateRaw_def keeps_def)
  qed
qed

section \<open>Allocation from the bins\<close>

lemma chunk_size_limit:
  assumes inv: "bfc_inv X s" and h: "h \<in> live s"
  shows "ck_size (chunk_of s h) \<le> bf_limit s" "ck_size (chunk_of s h) < 2 ^ 63"
proof -
  obtain b e where be: "(b, e) \<in> shapes s" "in_region (\<lambda>h. ck_ptr (chunk_of s h)) (\<lambda>h. ck_size (chunk_of s h))
         (\<lambda>h. ck_next (chunk_of s h)) (\<lambda>h. ck_prev (chunk_of s h)) h b e"
    using geo_region [OF layout_geo [OF bfc_invD(1) [OF inv]] h] by blast
  then obtain r where r: "r \<in> set (bf_regions s)" "e = rg_size r" by (auto simp: shape_def)
  have "ck_size (chunk_of s h) \<le> e" using be(2) by (auto simp: in_region_def)
  also have "e \<le> sum_list (map rg_size (bf_regions s))" using r member_le_sum_list [of e "map rg_size (bf_regions s)"] by auto
  finally show "ck_size (chunk_of s h) \<le> bf_limit s" "ck_size (chunk_of s h) < 2 ^ 63"
    using bfc_invD(5) [OF inv] by (auto simp: totals_ok_def)
qed

text \<open>A loose chunk is given to the client.\<close>

definition claim :: "nat \<Rightarrow> nat \<Rightarrow> 's bfc \<Rightarrow> 's bfc" where
  "claim h num_bytes s = (put_chunk h ((chunk_of s h)\<lparr>ck_requested := num_bytes, ck_id := bf_next_id s\<rparr>) s)
      \<lparr>bf_next_id := bf_next_id s + 1, bf_stats := stats_alloc (ck_size (chunk_of s h)) (bf_stats s)\<rparr>"

lemma claim_fields [simp]:
  "bf_regions (claim h m s) = bf_regions s" "length (bf_chunks (claim h m s)) = length (bf_chunks s)"
  "bf_free (claim h m s) = bf_free s" "bf_bins (claim h m s) = bf_bins s" "bf_timing (claim h m s) = bf_timing s"
  "bf_queue (claim h m s) = bf_queue s" "bf_next_id (claim h m s) = bf_next_id s + 1"
  "bf_total (claim h m s) = bf_total s" "bf_limit (claim h m s) = bf_limit s" "bf_curr (claim h m s) = bf_curr s"
  "bf_sub (claim h m s) = bf_sub s" "bf_gc (claim h m s) = bf_gc s" "bf_backpedal (claim h m s) = bf_backpedal s"
  "bytes_in_use (bf_stats (claim h m s)) = bytes_in_use (bf_stats s) + int (ck_size (chunk_of s h))"
  by (simp_all add: claim_def put_chunk_def stats_alloc_def Let_def)

lemma claim_ok:
  assumes lo: "loose h s"
  shows "bfc_inv {} (claim h m s)"
    "used (claim h m s) = (used s)(ck_ptr (chunk_of s h) := Some (ck_size (chunk_of s h), m, bf_next_id s))"
    "used s (ck_ptr (chunk_of s h)) = None"
proof -
  let ?t = "claim h m s"
  note d = looseD [OF lo]
  note inv = d(1)
  note l = d(5)
  note g = layout_geo [OF l]
  have hl: "h < length (bf_chunks s)" by (rule layout_live [OF l d(2)])
  have ck: "chunk_of ?t x = (if x = h then (chunk_of s h)\<lparr>ck_requested := m, ck_id := bf_next_id s\<rparr> else chunk_of s x)" for x
    using hl by (simp add: claim_def put_chunk_def nth_list_update)
  have nid: "0 < bf_next_id s" using bfc_invD(4) [OF inv] by (simp add: ids_ok_def)
  have fld: "ck_ptr (chunk_of ?t x) = ck_ptr (chunk_of s x)" "ck_size (chunk_of ?t x) = ck_size (chunk_of s x)"
    "ck_next (chunk_of ?t x) = ck_next (chunk_of s x)" "ck_prev (chunk_of ?t x) = ck_prev (chunk_of s x)"
    "ck_bin (chunk_of ?t x) = ck_bin (chunk_of s x)" "ck_freed_at (chunk_of ?t x) = ck_freed_at (chunk_of s x)"
    "in_use (chunk_of ?t x) = (x = h \<or> in_use (chunk_of s x))"
    "x \<noteq> h \<Longrightarrow> chunk_of ?t x = chunk_of s x" "ck_id (chunk_of ?t h) = bf_next_id s" for x
    using nid by (simp_all add: ck)
  have "layout ?t" using l by (simp add: layout_def fld)
  moreover have "spare ?t" unfolding spare_def
  proof (intro conjI allI impI)
    fix x assume "x < length (bf_chunks ?t)" "x \<notin> live ?t"
    then show "ck_bin (chunk_of ?t x) = None" "\<not> in_use (chunk_of ?t x)"
      using bfc_invD(2) [OF inv] d(2) by (auto simp: spare_def fld)
  next
    obtain fl where fl: "free_path (bf_chunks s) (bf_free s) fl" "distinct fl" "set fl \<inter> live s = {}"
      using bfc_invD(2) [OF inv] by (auto simp: spare_def)
    have "free_path (bf_chunks ?t) (bf_free s) fl"
      by (rule free_path_cong [OF fl(1)]) (use free_path_less [OF fl(1)] in \<open>simp add: fld\<close>)
    then show "\<exists>fl. free_path (bf_chunks ?t) (bf_free ?t) fl \<and> distinct fl \<and> set fl \<inter> live ?t = {}" using fl by auto
  qed
  moreover have "bins_ok {} ?t"
    by (rule bins_ok_cong [OF bfc_invD(3) [OF inv]])
      (use fld d bfc_invD(3) [OF inv] in \<open>auto simp: bins_ok_def\<close>)
  moreover have "ids_ok ?t" unfolding ids_ok_def
  proof (intro conjI ballI impI)
    show "0 < bf_next_id ?t" using nid by simp
    fix x assume x: "x \<in> live ?t" "in_use (chunk_of ?t x)"
    have old: "0 < ck_id (chunk_of s z)" "ck_id (chunk_of s z) < bf_next_id s" if "z \<in> live s" "in_use (chunk_of s z)" for z
      using bfc_invD(4) [OF inv] that by (auto simp: ids_ok_def)
    show "0 < ck_id (chunk_of ?t x)" "ck_id (chunk_of ?t x) < bf_next_id ?t"
      using x old [of x] nid fld(7,8) [of x] fld(9) by (cases "x = h"; simp)+
    fix y assume y: "y \<in> live ?t" "ck_id (chunk_of ?t x) = ck_id (chunk_of ?t y)"
    then have iy: "in_use (chunk_of ?t y)" using x by (simp add: in_use_def)
    show "x = y"
    proof (cases "x = h \<or> y = h")
      case True
      then show ?thesis using x y iy old [of x] old [of y] fld(7,8) [of x] fld(7,8) [of y] fld(9) by (cases "x = y") auto
    next
      case False
      then show ?thesis using bfc_invD(4) [OF inv] x y iy fld(8) [of x] fld(8) [of y] by (auto simp: ids_ok_def)
    qed
  qed
  moreover have "totals_ok ?t"
  proof -
    have fin: "finite (live s)" using l finite_subset by (auto simp: layout_def)
    have eq: "{x \<in> live ?t. in_use (chunk_of ?t x)} = insert h {x \<in> live s. in_use (chunk_of s x)}" using fld(7) d(2) by auto
    have "used_bytes ?t = used_bytes s + int (ck_size (chunk_of s h))"
      unfolding used_bytes_def eq using fin d(3) by (simp add: fld)
    then show ?thesis using bfc_invD(5) [OF inv] by (simp add: totals_ok_def)
  qed
  moreover have "times_ok ?t" using bfc_invD(6) [OF inv] by (simp add: times_ok_def fld)
  moreover have "coalesced {} ?t" using bfc_invD(7) [OF inv] by (auto simp: coalesced_def fld)
  moreover have "stale_ok ?t" using bfc_invD(8) [OF inv] by (simp add: stale_ok_def fld)
  ultimately show "bfc_inv {} ?t" by (simp add: bfc_inv_def)
  have slot: "table s (ck_ptr (chunk_of s h)) = Some h" by (rule geo_slot [OF g d(2)])
  then show "used s (ck_ptr (chunk_of s h)) = None" using d(3) by (simp add: used_def)
  show "used ?t = (used s)(ck_ptr (chunk_of s h) := Some (ck_size (chunk_of s h), m, bf_next_id s))"
  proof
    fix p
    show "used ?t p = ((used s)(ck_ptr (chunk_of s h) := Some (ck_size (chunk_of s h), m, bf_next_id s))) p"
    proof (cases "p = ck_ptr (chunk_of s h)")
      case True
      then show ?thesis using slot fld(7) [of h] by (simp add: used_def ck)
    next
      case False
      have "x \<noteq> h" if "table s p = Some x" for x using geo_ptr [OF g that] False by auto
      then show ?thesis using False by (auto simp: used_def fld split: option.split)
    qed
  qed
qed

text \<open>What a successful allocation does to the abstract state.\<close>

definition gives :: "nat \<Rightarrow> nat \<Rightarrow> 's bfc \<Rightarrow> 's bfc \<Rightarrow> nat \<Rightarrow> bool" where
  "gives rounded_bytes num_bytes s t p \<longleftrightarrow>
     (\<exists>n. used t = (used s)(p := Some (n, num_bytes, bf_next_id s)) \<and> used s p = None \<and> rounded_bytes \<le> n
        \<and> (n < 2 * rounded_bytes \<and> n < rounded_bytes + kMaxInternalFragmentation))
     \<and> 0 < p \<and> same_config s t \<and> bf_next_id t = bf_next_id s + 1 \<and> bf_queue t = bf_queue s"

lemma u64_id: "n < 2 ^ 64 \<Longrightarrow> u64 n = n"
  by (simp add: u64_def)

lemma take_chunk_ok:
  assumes inv: "bfc_inv {} s" and b: "b < kNumBins" "h \<in> set (bf_bins s ! b)"
    and n: "0 < n" "256 dvd n" "n \<le> ck_size (chunk_of s h)"
  obtains s' where "take_chunk b h n m s = Some (s', ck_ptr (chunk_of s h))" "bfc_inv {} s'"
    "gives n m s s' (ck_ptr (chunk_of s h))"
proof -
  have hb: "h \<in> live s" "ck_bin (chunk_of s h) = Some b" "\<not> in_use (chunk_of s h)"
    using bfc_invD(3) [OF inv] b unfolding bins_ok_def by auto
  obtain s1 where s1: "RemoveFreeChunkIterFromBin b h s = Some s1" "rebin s s1" "bfc_inv {h} s1" "used s1 = used s"
    "ck_bin (chunk_of s1 h) = None"
    using RemoveIter_ok [OF inv b] by metis
  note f = rebin_fields [OF s1(2)]
  have lo: "loose h s1" using s1 hb by (simp add: loose_def f)
  have c1: "coalesced {} s1" using bfc_invD(7) [OF inv] by (simp add: coalesced_def f)
  note d = looseD [OF lo]
  have sz: "ck_size (chunk_of s1 h) = ck_size (chunk_of s h)" "ck_ptr (chunk_of s1 h) = ck_ptr (chunk_of s h)" by (simp_all add: f)
  have small: "ck_size (chunk_of s h) < 2 ^ 63" by (rule chunk_size_limit [OF inv hb(1)])
  have w: "u64 (n * 2) = n * 2" "sub64 (ck_size (chunk_of s h)) n = ck_size (chunk_of s h) - n"
    using small n by (auto intro!: u64_id sub64_eq)
  let ?split = "ck_size (chunk_of s h) \<ge> n * 2 \<or> ck_size (chunk_of s h) - n \<ge> kMaxInternalFragmentation"
  have "\<exists>s2. (if ?split then SplitChunk h n s1 else Some s1) = Some s2 \<and> loose h s2 \<and> keeps s1 s2
      \<and> ck_ptr (chunk_of s2 h) = ck_ptr (chunk_of s h) \<and> n \<le> ck_size (chunk_of s2 h)
      \<and> (ck_size (chunk_of s2 h) < 2 * n \<and> ck_size (chunk_of s2 h) < n + kMaxInternalFragmentation)"
  proof (cases ?split)
    case True
    have lt: "n < ck_size (chunk_of s1 h)" using True n sz by (auto simp: kMaxInternalFragmentation_def)
    obtain s2 where s2: "SplitChunk h n s1 = Some s2" "bfc_inv {h} s2" "used s2 = used s1" "h \<in> live s2"
    "\<not> in_use (chunk_of s2 h)" "ck_bin (chunk_of s2 h) = None" "ck_size (chunk_of s2 h) = n"
    "ck_ptr (chunk_of s2 h) = ck_ptr (chunk_of s1 h)" "same_rest s1 (s2\<lparr>bf_bins := bf_bins s1\<rparr>)"
    "map shape (bf_regions s2) = map shape (bf_regions s1)"
      using SplitChunk_ok [OF d(1) c1 d(2,3,4) n(1) lt n(2)] by metis
    then have "loose h s2" "keeps s1 s2" by (simp_all add: loose_def keeps_def same_rest_def)
    then show ?thesis using s2 True sz n by (intro exI [of _ s2]) (simp add: kMaxInternalFragmentation_def)
  next
    case False
    then show ?thesis using lo sz n by (intro exI [of _ s1]) auto
  qed
  then obtain s2 where s2: "(if ?split then SplitChunk h n s1 else Some s1) = Some s2" "loose h s2" "keeps s1 s2"
    "ck_ptr (chunk_of s2 h) = ck_ptr (chunk_of s h)" "n \<le> ck_size (chunk_of s2 h)"
    "ck_size (chunk_of s2 h) < 2 * n" "ck_size (chunk_of s2 h) < n + kMaxInternalFragmentation" by blast
  note d2 = looseD [OF s2(2)]
  have run: "take_chunk b h n m s = Some (claim h m s2, ck_ptr (chunk_of s h))"
    using s1(1) s2(1,4) ChunkFromHandle_live [OF d(5,2)] ChunkFromHandle_live [OF d2(5,2)]
    by (simp add: take_chunk_def w sz claim_def)
  note cl = claim_ok(1,2) [OF s2(2), of m] claim_ok(3) [OF s2(2)]
  have k: "keeps s s2" by (rule keeps_trans [OF keeps_rebin [OF s1(2)] s2(3)])
  have "gives n m s (claim h m s2) (ck_ptr (chunk_of s h))"
    unfolding gives_def
  proof (intro conjI)
    show "\<exists>na. used (claim h m s2) = (used s)(ck_ptr (chunk_of s h) := Some (na, m, bf_next_id s))
       \<and> used s (ck_ptr (chunk_of s h)) = None \<and> n \<le> na \<and> (na < 2 * n \<and> na < n + kMaxInternalFragmentation)"
      using cl(2,3) s2(4-7) k by (intro exI [of _ "ck_size (chunk_of s2 h)"]) (simp add: keeps_def)
    show "0 < ck_ptr (chunk_of s h)" by (rule region_bound(2) [OF bfc_invD(1) [OF inv] hb(1)])
    show "same_config s (claim h m s2)" using same_config_keeps [OF k] by (simp add: same_config_def)
  qed (use k in \<open>simp_all add: keeps_def\<close>)
  then show thesis using that run cl(1) by blast
qed

section \<open>Best fit\<close>

definition fits :: "nat \<Rightarrow> nat \<Rightarrow> chunk \<Rightarrow> bool" where
  "fits rounded_bytes freed_before c \<longleftrightarrow>
     rounded_bytes \<le> ck_size c \<and> (freed_before = 0 \<or> ck_freed_at c \<le> freed_before)"

lemma scan_bin_find:
  assumes "\<And>h. h \<in> set hs \<Longrightarrow> ChunkFromHandle s h = Some (chunk_of s h)"
  shows "scan_bin s n fb hs = Some (find (\<lambda>h. fits n fb (chunk_of s h)) hs)"
  using assms by (induction hs) (auto simp: fits_def)

text \<open>The chunk found is the first that fits, in the order of the bins and within its bin.\<close>

lemma scan_bins_spec:
  assumes inv: "bfc_inv X s" and b: "b \<le> kNumBins"
  shows "\<exists>r. scan_bins s n fb b = Some r \<and>
     (case r of
        None \<Rightarrow> \<forall>d h. b \<le> d \<longrightarrow> d < kNumBins \<longrightarrow> h \<in> set (bf_bins s ! d) \<longrightarrow> \<not> fits n fb (chunk_of s h)
      | Some (d, h) \<Rightarrow> b \<le> d \<and> d < kNumBins \<and> h \<in> set (bf_bins s ! d) \<and> fits n fb (chunk_of s h)
          \<and> (\<forall>d' k. b \<le> d' \<longrightarrow> d' < kNumBins \<longrightarrow> k \<in> set (bf_bins s ! d') \<longrightarrow> fits n fb (chunk_of s k) \<longrightarrow> k \<noteq> h
               \<longrightarrow> d < d' \<or> d = d' \<and> chunk_less (bf_chunks s) h k))"
  using b
proof (induction "kNumBins - b" arbitrary: b)
  case 0
  then show ?case by (subst scan_bins.simps) auto
next
  case (Suc j)
  have b: "b < kNumBins" using Suc.hyps(2) by simp
  have bo: "sorted_wrt (chunk_less (bf_chunks s)) (bf_bins s ! b)" "set (bf_bins s ! b) \<subseteq> live s"
    using bfc_invD(3) [OF inv] b by (auto simp: bins_ok_def)
  have scan: "scan_bin s n fb (bf_bins s ! b) = Some (find (\<lambda>h. fits n fb (chunk_of s h)) (bf_bins s ! b))"
    using bo(2) ChunkFromHandle_live [OF bfc_invD(1) [OF inv]] by (intro scan_bin_find) blast
  show ?case
  proof (cases "find (\<lambda>h. fits n fb (chunk_of s h)) (bf_bins s ! b)")
    case None
    then have no: "\<not> fits n fb (chunk_of s h)" if "h \<in> set (bf_bins s ! b)" for h using that by (auto simp: find_None_iff)
    have eq: "scan_bins s n fb b = scan_bins s n fb (b + 1)" using b scan None by (subst scan_bins.simps) simp
    have "j = kNumBins - (b + 1)" "b + 1 \<le> kNumBins" using Suc.hyps(2) b by auto
    then obtain r where r: "scan_bins s n fb (b + 1) = Some r" and spec:
      "case r of
        None \<Rightarrow> \<forall>d h. b + 1 \<le> d \<longrightarrow> d < kNumBins \<longrightarrow> h \<in> set (bf_bins s ! d) \<longrightarrow> \<not> fits n fb (chunk_of s h)
      | Some (d, h) \<Rightarrow> b + 1 \<le> d \<and> d < kNumBins \<and> h \<in> set (bf_bins s ! d) \<and> fits n fb (chunk_of s h)
          \<and> (\<forall>d' k. b + 1 \<le> d' \<longrightarrow> d' < kNumBins \<longrightarrow> k \<in> set (bf_bins s ! d') \<longrightarrow> fits n fb (chunk_of s k) \<longrightarrow> k \<noteq> h
               \<longrightarrow> d < d' \<or> d = d' \<and> chunk_less (bf_chunks s) h k)"
      using Suc.hyps(1) by blast
    have split: "d' = b \<or> b + 1 \<le> d'" if "b \<le> d'" for d' using that by auto
    show ?thesis
    proof (cases r)
      case None
      have "\<not> fits n fb (chunk_of s h)" if "b \<le> d" "d < kNumBins" "h \<in> set (bf_bins s ! d)" for d h
        using spec no split [OF that(1)] that(2,3) None by auto
      then show ?thesis using eq r None by simp
    next
      case (Some dh)
      obtain d h where dh: "dh = (d, h)" by (cases dh)
      have sp: "b + 1 \<le> d" "d < kNumBins" "h \<in> set (bf_bins s ! d)" "fits n fb (chunk_of s h)"
        "\<And>d' k. b + 1 \<le> d' \<Longrightarrow> d' < kNumBins \<Longrightarrow> k \<in> set (bf_bins s ! d') \<Longrightarrow> fits n fb (chunk_of s k) \<Longrightarrow> k \<noteq> h
               \<Longrightarrow> d < d' \<or> d = d' \<and> chunk_less (bf_chunks s) h k"
        using spec Some dh by auto
      have "d < d' \<or> d = d' \<and> chunk_less (bf_chunks s) h k"
        if "b \<le> d'" "d' < kNumBins" "k \<in> set (bf_bins s ! d')" "fits n fb (chunk_of s k)" "k \<noteq> h" for d' k
        using split [OF that(1)] no that sp(5) by auto
      then show ?thesis using eq r Some dh sp(1-4) by (intro exI [of _ r]) auto
    qed
  next
    case (Some h)
    then obtain i where i: "i < length (bf_bins s ! b)" "h = bf_bins s ! b ! i" "fits n fb (chunk_of s h)"
      "\<And>j. j < i \<Longrightarrow> \<not> fits n fb (chunk_of s (bf_bins s ! b ! j))"
      by (auto simp: find_Some_iff)
    have run: "scan_bins s n fb b = Some (Some (b, h))" using b scan Some by (subst scan_bins.simps) simp
    have "b < d' \<or> b = d' \<and> chunk_less (bf_chunks s) h k"
      if "b \<le> d'" "d' < kNumBins" and k: "k \<in> set (bf_bins s ! d')" "fits n fb (chunk_of s k)" "k \<noteq> h" for d' k
    proof (cases "d' = b")
      case True
      then obtain j where j: "j < length (bf_bins s ! b)" "k = bf_bins s ! b ! j" using k(1) by (auto simp: in_set_conv_nth)
      have "i < j" using i(2) i(4) [of j] j(2) k(2,3) by (cases i j rule: linorder_cases) auto
      then show ?thesis using True sorted_wrt_nth_less [OF bo(1) _ j(1)] i(2) j(2) by auto
    qed (use that(1) in auto)
    then show ?thesis using run b i by (intro exI [of _ "Some (b, h)"]) auto
  qed
qed

text \<open>The bins are ordered by size.\<close>

lemma log2_shift: "log2_loop r n = r + log2_loop 0 n"
proof (induction n arbitrary: r rule: less_induct)
  case (less n)
  show ?case
  proof (cases "n = 0")
    case False
    then have "log2_loop (r + 1) (n div 2) = r + 1 + log2_loop 0 (n div 2)"
      "log2_loop 1 (n div 2) = 1 + log2_loop 0 (n div 2)"
      using less [of "n div 2" "r + 1"] less [of "n div 2" 1] by auto
    then show ?thesis using False log2_loop.simps [of r n] log2_loop.simps [of 0 n] by simp
  qed (simp add: log2_loop.simps)
qed

lemma log2_unfold: "0 < n \<Longrightarrow> log2_loop 0 n = 1 + log2_loop 0 (n div 2)"
  using log2_loop.simps [of 0 n] log2_shift [of 1 "n div 2"] by simp

lemma log2_nonneg: "0 \<le> log2_loop 0 n"
proof (induction n rule: less_induct)
  case (less n)
  show ?case
  proof (cases "n = 0")
    case False
    then show ?thesis using less [of "n div 2"] log2_unfold [of n] by simp
  qed (simp add: log2_loop.simps)
qed

lemma log2_mono: "m \<le> n \<Longrightarrow> log2_loop 0 m \<le> log2_loop 0 n"
proof (induction n arbitrary: m rule: less_induct)
  case (less n)
  show ?case
  proof (cases "m = 0")
    case True
    then show ?thesis using log2_nonneg [of n] by (simp add: log2_loop.simps)
  next
    case False
    then have "n \<noteq> 0" using less.prems by simp
    then have "log2_loop 0 (m div 2) \<le> log2_loop 0 (n div 2)" using less by (simp add: div_le_mono)
    then show ?thesis using False \<open>n \<noteq> 0\<close> log2_unfold [of m] log2_unfold [of n] by simp
  qed
qed

lemma BinNumForSize_mono: "m \<le> n \<Longrightarrow> BinNumForSize m \<le> BinNumForSize n"
proof -
  assume "m \<le> n"
  then have "max m 256 div 2 ^ kMinAllocationBits \<le> max n 256 div 2 ^ kMinAllocationBits" by (intro div_le_mono) auto
  then have "Log2FloorNonZero (max m 256 div 2 ^ kMinAllocationBits) \<le> Log2FloorNonZero (max n 256 div 2 ^ kMinAllocationBits)"
    unfolding Log2FloorNonZero_def by (intro diff_right_mono log2_mono)
  then show ?thesis unfolding BinNumForSize_def by (intro nat_mono) auto
qed

definition free_chunks :: "'s bfc \<Rightarrow> nat set" where
  "free_chunks s = {h \<in> live s. \<not> in_use (chunk_of s h)}"

lemma free_chunks_bins:
  assumes inv: "bfc_inv {} s"
  shows "h \<in> free_chunks s \<longleftrightarrow> (\<exists>b<kNumBins. b = BinNumForSize (ck_size (chunk_of s h)) \<and> h \<in> set (bf_bins s ! b))"
proof
  assume "h \<in> free_chunks s"
  then show "\<exists>b<kNumBins. b = BinNumForSize (ck_size (chunk_of s h)) \<and> h \<in> set (bf_bins s ! b)"
    using free_binned [OF inv, of h] unfolding free_chunks_def by blast
next
  assume "\<exists>b<kNumBins. b = BinNumForSize (ck_size (chunk_of s h)) \<and> h \<in> set (bf_bins s ! b)"
  then show "h \<in> free_chunks s" using bfc_invD(3) [OF inv] unfolding free_chunks_def bins_ok_def by auto
qed

lemma FindChunkPtr_ok:
  assumes inv: "bfc_inv {} s" and n: "0 < n" "256 dvd n"
  obtains (found) s' h where "FindChunkPtr (BinNumForSize n) n m fb s = Some (s', ck_ptr (chunk_of s h))" "bfc_inv {} s'"
      "gives n m s s' (ck_ptr (chunk_of s h))" "h \<in> free_chunks s" "fits n fb (chunk_of s h)"
      "\<And>k. k \<in> free_chunks s \<Longrightarrow> fits n fb (chunk_of s k) \<Longrightarrow> k \<noteq> h \<Longrightarrow> chunk_less (bf_chunks s) h k"
  | (none) "FindChunkPtr (BinNumForSize n) n m fb s = Some (s, 0)"
      "\<And>k. k \<in> free_chunks s \<Longrightarrow> \<not> fits n fb (chunk_of s k)"
proof -
  let ?b = "BinNumForSize n"
  obtain r where r: "scan_bins s n fb ?b = Some r" and spec: "case r of
        None \<Rightarrow> \<forall>d h. ?b \<le> d \<longrightarrow> d < kNumBins \<longrightarrow> h \<in> set (bf_bins s ! d) \<longrightarrow> \<not> fits n fb (chunk_of s h)
      | Some (d, h) \<Rightarrow> ?b \<le> d \<and> d < kNumBins \<and> h \<in> set (bf_bins s ! d) \<and> fits n fb (chunk_of s h)
          \<and> (\<forall>d' k. ?b \<le> d' \<longrightarrow> d' < kNumBins \<longrightarrow> k \<in> set (bf_bins s ! d') \<longrightarrow> fits n fb (chunk_of s k) \<longrightarrow> k \<noteq> h
               \<longrightarrow> d < d' \<or> d = d' \<and> chunk_less (bf_chunks s) h k)"
    using scan_bins_spec [OF inv, of ?b n fb] BinNumForSize_less [of n] by auto
  have bin: "?b \<le> BinNumForSize (ck_size (chunk_of s k))" if "fits n fb (chunk_of s k)" for k
    using that BinNumForSize_mono by (auto simp: fits_def)
  show thesis
  proof (cases r)
    case None
    have "\<not> fits n fb (chunk_of s k)" if k: "k \<in> free_chunks s" for k
    proof
      assume "fits n fb (chunk_of s k)"
      then show False using k spec None bin [of k] free_chunks_bins [OF inv, of k] by auto
    qed
    then show ?thesis using none r None by (simp add: FindChunkPtr_def)
  next
    case (Some dh)
    obtain d h where dh: "dh = (d, h)" by (cases dh)
    have sp: "?b \<le> d" "d < kNumBins" "h \<in> set (bf_bins s ! d)" "fits n fb (chunk_of s h)"
      "\<And>d' k. ?b \<le> d' \<Longrightarrow> d' < kNumBins \<Longrightarrow> k \<in> set (bf_bins s ! d') \<Longrightarrow> fits n fb (chunk_of s k) \<Longrightarrow> k \<noteq> h
               \<Longrightarrow> d < d' \<or> d = d' \<and> chunk_less (bf_chunks s) h k"
      using spec Some dh by auto
    have hd: "d = BinNumForSize (ck_size (chunk_of s h))" "h \<in> free_chunks s"
      using bfc_invD(3) [OF inv] sp(2,3) unfolding bins_ok_def free_chunks_def by auto
    have "n \<le> ck_size (chunk_of s h)" using sp(4) by (simp add: fits_def)
    then obtain s' where s': "take_chunk d h n m s = Some (s', ck_ptr (chunk_of s h))" "bfc_inv {} s'"
      "gives n m s s' (ck_ptr (chunk_of s h))"
      using take_chunk_ok [OF inv sp(2,3) n] by metis
    have best: "chunk_less (bf_chunks s) h k"
      if k: "k \<in> free_chunks s" "fits n fb (chunk_of s k)" "k \<noteq> h" for k
    proof -
      let ?d = "BinNumForSize (ck_size (chunk_of s k))"
      have "k \<in> set (bf_bins s ! ?d)" using free_chunks_bins [OF inv, of k] k(1) by auto
      then have "d < ?d \<or> d = ?d \<and> chunk_less (bf_chunks s) h k"
        using sp(5) [OF bin [OF k(2)] BinNumForSize_less] k by blast
      then show ?thesis
      proof
        assume "d < ?d"
        then have "ck_size (chunk_of s h) < ck_size (chunk_of s k)"
          using hd(1) BinNumForSize_mono [of "ck_size (chunk_of s k)" "ck_size (chunk_of s h)"] by linarith
        then show ?thesis by (simp add: chunk_less_def)
      qed simp
    qed
    show ?thesis
      by (rule found [of s' h]) (use r Some dh s' hd sp(4) best in \<open>simp_all add: FindChunkPtr_def\<close>)
  qed
qed

end
