(* ===== verification/BFC_Regions.thy ===== *)
theory BFC_Regions
  imports BFC_Blocks
begin

text \<open>
  Rounding of sizes, and the regions the allocator takes from its sub-allocator: when the two
  loops of \<open>Extend\<close> end, and that a new region keeps the invariant.
\<close>

section \<open>Rounding\<close>

lemma RoundedBytes_eq:
  assumes "n + 255 < 2 ^ 64"
  shows "RoundedBytes n = 256 * ((n + 255) div 256)"
proof -
  have "sub64 (u64 (n + 256)) 1 = n + 255"
  proof (cases "n + 256 < 2 ^ 64")
    case True
    then show ?thesis using sub64_eq [of 1 "n + 256"] by (simp add: u64_id)
  next
    case False
    then have "n + 256 = 2 ^ 64" using assms by simp
    then have "u64 (n + 256) = 0" by (simp add: u64_def)
    moreover have "sub64 0 1 = 2 ^ 64 - 1" by (simp add: sub64_def u64_def)
    ultimately show ?thesis using \<open>n + 256 = 2 ^ 64\<close> by simp
  qed
  moreover have "256 * ((n + 255) div 256) \<le> n + 255" by (rule times_div_less_eq_dividend)
  then have "256 * ((n + 255) div 256) < 2 ^ 64" using assms by (rule le_less_trans)
  ultimately show ?thesis by (simp add: RoundedBytes_def kMinAllocationSize_def u64_id)
qed

lemma RoundedBytes_bounds:
  assumes "n + 255 < 2 ^ 64"
  shows "256 dvd RoundedBytes n" "n \<le> RoundedBytes n" "RoundedBytes n < n + 256" "RoundedBytes n < 2 ^ 64"
proof -
  have d: "256 * ((n + 255) div 256) + (n + 255) mod 256 = n + 255" by simp
  have m: "(n + 255) mod 256 < 256" by simp
  show "256 dvd RoundedBytes n" using RoundedBytes_eq [OF assms] by simp
  show "n \<le> RoundedBytes n" "RoundedBytes n < n + 256" "RoundedBytes n < 2 ^ 64"
    using RoundedBytes_eq [OF assms] d m assms by linarith+
qed

lemma RoundedBytes_dvd: "256 dvd n \<Longrightarrow> n + 255 < 2 ^ 64 \<Longrightarrow> RoundedBytes n = n"
  using RoundedBytes_eq [of n] by (auto elim!: dvdE)

lemma RoundedBytes_le: "256 dvd m \<Longrightarrow> n \<le> m \<Longrightarrow> m + 255 < 2 ^ 64 \<Longrightarrow> RoundedBytes n \<le> m"
proof -
  assume a: "256 dvd m" "n \<le> m" "m + 255 < 2 ^ 64"
  then obtain k where k: "m = 256 * k" by (elim dvdE)
  then have "(n + 255) div 256 \<le> k" using a(2) by simp
  then show ?thesis using RoundedBytes_eq [of n] a k by simp
qed

section \<open>The retreat\<close>

lemma float_exp_bound: "2 ^ 24 \<le> n \<Longrightarrow> 2 ^ float_exp n * 2 ^ 23 \<le> n"
proof (induction n rule: less_induct)
  case (less n)
  show ?case
  proof (cases "n div 2 < 2 ^ 24")
    case True
    then have "float_exp n = 1" using less.prems float_exp.simps [of n] float_exp.simps [of "n div 2"] by simp
    then show ?thesis using less.prems by simp
  next
    case False
    then have "2 ^ float_exp (n div 2) * 2 ^ 23 \<le> n div 2" using less by simp
    moreover have "float_exp n = Suc (float_exp (n div 2))" using less.prems float_exp.simps [of n] by simp
    ultimately show ?thesis by simp
  qed
qed

lemma float_round_bounds:
  "2 ^ 24 * float_round n \<le> (2 ^ 24 + 1) * n" "2 ^ 24 * n \<le> 2 ^ 24 * float_round n + n"
proof -
  have "2 ^ 24 * float_round n \<le> (2 ^ 24 + 1) * n \<and> 2 ^ 24 * n \<le> 2 ^ 24 * float_round n + n"
  proof (cases "n < 2 ^ 24")
    case True
    then have "float_round n = n" by (simp add: float_round_def float_exp.simps [of n])
    then show ?thesis by simp
  next
    case False
    define ulp where "ulp = (2::nat) ^ float_exp n"
    define q r where "q = n div ulp" and "r = n mod ulp"
    have n: "n = q * ulp + r" by (simp add: q_def r_def)
    have "ulp * 2 ^ 23 \<le> n" using float_exp_bound [of n] False by (simp add: ulp_def)
    then have small: "2 ^ 24 * ulp \<le> 2 * n" by simp
    have "r < ulp" by (simp add: r_def ulp_def)
    then have "2 * float_round n \<le> 2 * n + ulp" "2 * n \<le> 2 * float_round n + ulp"
      unfolding float_round_def Let_def ulp_def [symmetric] q_def [symmetric] r_def [symmetric] using n by auto
    then have "2 ^ 24 * (2 * float_round n) \<le> 2 ^ 24 * (2 * n + ulp)"
      "2 ^ 24 * (2 * n) \<le> 2 ^ 24 * (2 * float_round n + ulp)" by simp_all
    then show ?thesis using small by simp
  qed
  then show "2 ^ 24 * float_round n \<le> (2 ^ 24 + 1) * n" "2 ^ 24 * n \<le> 2 ^ 24 * float_round n + n" by simp_all
qed

text \<open>The product is at most nine tenths, up to the rounding.\<close>

lemma times_backpedal_bound: "10 ^ 6 * times_backpedal n \<le> 900001 * n"
proof -
  define f where "f = float_round n"
  define g where "g = float_round (f * 15099494)"
  have t: "2 ^ 24 * times_backpedal n \<le> g"
    by (simp add: times_backpedal_def f_def [symmetric] g_def [symmetric])
  have "2 ^ 24 * f \<le> (2 ^ 24 + 1) * n" unfolding f_def by (rule float_round_bounds)
  moreover have "2 ^ 24 * g \<le> (2 ^ 24 + 1) * (f * 15099494)" unfolding g_def by (rule float_round_bounds)
  ultimately have "2 ^ 48 * g \<le> (2 ^ 24 + 1) * 15099494 * ((2 ^ 24 + 1) * n)" by simp
  with t have "2 ^ 72 * times_backpedal n \<le> (2 ^ 24 + 1) * 15099494 * ((2 ^ 24 + 1) * n)" by simp
  then show ?thesis by simp
qed

lemma times_backpedal_lower: "899999 * n < 10 ^ 6 * (times_backpedal n + 1)"
proof -
  define f where "f = float_round n"
  define g where "g = float_round (f * 15099494)"
  have t: "g < 2 ^ 24 * (times_backpedal n + 1)"
    using div_mult_mod_eq [of g "2 ^ 24"] mod_less_divisor [of "2 ^ 24" g]
    by (simp add: times_backpedal_def f_def [symmetric] g_def [symmetric])
  have "2 ^ 24 * n \<le> 2 ^ 24 * f + n" unfolding f_def by (rule float_round_bounds)
  moreover have "2 ^ 24 * (f * 15099494) \<le> 2 ^ 24 * g + f * 15099494" unfolding g_def by (rule float_round_bounds)
  ultimately have "899999 * n \<le> 10 ^ 6 * times_backpedal n + 10 ^ 6 - 1" using t by simp
  then show ?thesis by simp
qed

lemma times_backpedal_le: "times_backpedal n \<le> n"
  using times_backpedal_bound [of n] by simp

lemma retreat_le: "256 dvd b \<Longrightarrow> b + 255 < 2 ^ 64 \<Longrightarrow> RoundedBytes (times_backpedal b) \<le> b"
  by (rule RoundedBytes_le [OF _ times_backpedal_le])

text \<open>
  A retreat from more than nine units of 256 bytes gives something smaller; from nine units
  or fewer it stays where it is.
\<close>

lemma retreat_less:
  assumes "256 dvd b" "b + 255 < 2 ^ 64" "2304 < b"
  shows "RoundedBytes (times_backpedal b) < b"
proof -
  obtain k where k: "b = 256 * k" using assms(1) by (elim dvdE)
  have "RoundedBytes (times_backpedal b) \<le> b - 256"
  proof (cases "k = 10")
    case True
    have "times_backpedal 2560 \<le> 2304" using times_backpedal_bound [of 2560] by simp
    then show ?thesis using True k by (intro RoundedBytes_le) auto
  next
    case False
    then have "11 \<le> k" using assms(3) k by simp
    then have "900001 * b \<le> 10 ^ 6 * (b - 256)" using k by simp
    then have "times_backpedal b \<le> b - 256" using times_backpedal_bound [of b] by simp
    then show ?thesis using assms(1,2) by (intro RoundedBytes_le) auto
  qed
  then show ?thesis using assms(3) by simp
qed

lemma retreat_stuck:
  assumes "256 dvd b" "b \<le> 2304" "0 < b"
  shows "RoundedBytes (times_backpedal b) = b"
proof -
  obtain k where k: "b = 256 * k" "0 < k" "k \<le> 9" using assms by (auto elim!: dvdE)
  have low: "899999 * (256 * k) < 10 ^ 6 * (times_backpedal b + 1)" using times_backpedal_lower [of b] k(1) by simp
  have "256 * k \<le> times_backpedal b + 255" using low k(2,3) by simp
  moreover have "times_backpedal b \<le> 256 * k" using times_backpedal_le [of b] k(1) by simp
  ultimately have "(times_backpedal b + 255) div 256 = k" by (intro div_nat_eqI) simp_all
  moreover have "times_backpedal b + 255 < 2 ^ 64" using times_backpedal_le [of b] assms(2) by simp
  ultimately show ?thesis using RoundedBytes_eq [of "times_backpedal b"] k(1) by simp
qed

section \<open>The loops of Extend\<close>

text \<open>
  What is expected of a sub-allocator: a block it gives is apart from those it has given and
  not taken back, and is not null. \<open>blocks\<close> tells which those are.
\<close>

definition sub_allocator_ok ::
  "(nat \<Rightarrow> nat \<Rightarrow> 's \<Rightarrow> nat \<times> 's) \<Rightarrow> (nat \<Rightarrow> nat \<Rightarrow> 's \<Rightarrow> 's) \<Rightarrow> ('s \<Rightarrow> (nat \<times> nat) set) \<Rightarrow> bool" where
  "sub_allocator_ok alloc free blocks \<longleftrightarrow>
     (\<forall>a n s p s'. 0 < n \<longrightarrow> alloc a n s = (p, s') \<longrightarrow>
        (p = 0 \<longrightarrow> blocks s' = blocks s)
        \<and> (p \<noteq> 0 \<longrightarrow> blocks s' = insert (p, n) (blocks s) \<and> p + n < 2 ^ 64
             \<and> (\<forall>q m. (q, m) \<in> blocks s \<longrightarrow> p + n \<le> q \<or> q + m \<le> p)))
     \<and> (\<forall>p n s. blocks (free p n s) = blocks s - {(p, n)})"

text \<open>What the retreat gives when it ends; that it ends, when more than 2304 bytes are asked for.\<close>

definition retreat_result :: "('s \<Rightarrow> (nat \<times> nat) set) \<Rightarrow> nat \<Rightarrow> nat \<Rightarrow> 's \<Rightarrow> nat \<times> nat \<times> 's \<Rightarrow> bool" where
  "retreat_result blocks n b t r = (case r of (b', p, t') \<Rightarrow> b' \<le> b \<and> 256 dvd b'
     \<and> (p = 0 \<longrightarrow> blocks t' = blocks t)
     \<and> (p \<noteq> 0 \<longrightarrow> n \<le> b' \<and> blocks t' = insert (p, b') (blocks t) \<and> p + b' < 2 ^ 64
             \<and> (\<forall>q m. (q, m) \<in> blocks t \<longrightarrow> p + b' \<le> q \<or> q + m \<le> p)))"

lemma retreat_unit:
  assumes "256 dvd b" "b + 255 < 2 ^ 64"
  shows "RoundedBytes (times_backpedal b) \<le> b" "256 dvd RoundedBytes (times_backpedal b)"
proof -
  show "RoundedBytes (times_backpedal b) \<le> b" by (rule retreat_le [OF assms])
  have "times_backpedal b + 255 < 2 ^ 64" using times_backpedal_le [of b] assms(2) by simp
  then show "256 dvd RoundedBytes (times_backpedal b)" by (rule RoundedBytes_bounds)
qed

lemma backpedal_loop_ok:
  assumes sub: "sub_allocator_ok alloc free blocks" and n: "0 < n"
    and b: "256 dvd b" "b + 255 < 2 ^ 64" and ret: "backpedal_loop alloc a n b t = Some r"
  shows "retreat_result blocks n b t r"
proof -
  have "sub_allocator_ok alloc free blocks \<longrightarrow> 0 < n \<longrightarrow> 256 dvd b \<longrightarrow> b + 255 < 2 ^ 64 \<longrightarrow> retreat_result blocks n b t r"
  proof (rule backpedal_loop.raw_induct [where P = "\<lambda>alloc a n b t r. sub_allocator_ok alloc free blocks \<longrightarrow> 0 < n
      \<longrightarrow> 256 dvd b \<longrightarrow> b + 255 < 2 ^ 64 \<longrightarrow> retreat_result blocks n b t r", OF _ ret], intro impI)
    fix f alloc a n b t r
    assume IH: "\<And>alloc a n b t r. f alloc a n b t = Some r \<Longrightarrow> sub_allocator_ok alloc free blocks \<longrightarrow> 0 < n
      \<longrightarrow> 256 dvd b \<longrightarrow> b + 255 < 2 ^ 64 \<longrightarrow> retreat_result blocks n b t r"
      and eq: "(let bytes' = RoundedBytes (times_backpedal b)
        in if bytes' < n then Some (bytes', 0, t)
           else case alloc a bytes' t of (mem_addr, sub') \<Rightarrow>
             if mem_addr \<noteq> 0 then Some (bytes', mem_addr, sub') else f alloc a n bytes' sub') = Some r"
      and sub: "sub_allocator_ok alloc free blocks" and n: "0 < n" and b: "256 dvd b" "b + 255 < 2 ^ 64"
    define b1 where "b1 = RoundedBytes (times_backpedal b)"
    have b1: "b1 \<le> b" "256 dvd b1" using retreat_unit [OF b] by (simp_all add: b1_def)
    obtain p t1 where al: "alloc a b1 t = (p, t1)" by fastforce
    show "retreat_result blocks n b t r"
    proof (cases "b1 < n")
      case True
      then show ?thesis using eq b1 by (auto simp: b1_def [symmetric] retreat_result_def)
    next
      case False
      then have "0 < b1" using n by simp
      then have ans: "p = 0 \<longrightarrow> blocks t1 = blocks t"
        "p \<noteq> 0 \<longrightarrow> blocks t1 = insert (p, b1) (blocks t) \<and> p + b1 < 2 ^ 64
             \<and> (\<forall>q m. (q, m) \<in> blocks t \<longrightarrow> p + b1 \<le> q \<or> q + m \<le> p)"
        using sub al unfolding sub_allocator_ok_def by blast+
      show ?thesis
      proof (cases "p = 0")
        case True
        then have "f alloc a n b1 t1 = Some r" using eq al False by (simp add: b1_def [symmetric])
        moreover have "b1 + 255 < 2 ^ 64" using b1(1) b(2) by simp
        ultimately have "retreat_result blocks n b1 t1 r" using IH sub n b1(2) by blast
        then show ?thesis using ans(1) True b1(1) unfolding retreat_result_def by (auto 0 3 intro: order_trans)
      next
        case nz: False
        then have "r = (b1, p, t1)" using eq al False by (simp add: b1_def [symmetric])
        then show ?thesis using nz ans(2) b1 False by (simp add: retreat_result_def)
      qed
    qed
  qed
  then show ?thesis using sub n b by blast
qed

lemma backpedal_loop_ends:
  assumes "2304 < n"
  shows "256 dvd b \<Longrightarrow> b + 255 < 2 ^ 64 \<Longrightarrow> backpedal_loop alloc a n b t \<noteq> None"
proof (induction b arbitrary: t rule: less_induct)
  case (less b)
  define b1 where "b1 = RoundedBytes (times_backpedal b)"
  have b1: "b1 \<le> b" "256 dvd b1" using retreat_unit [OF less.prems] by (simp_all add: b1_def)
  obtain p t1 where al: "alloc a b1 t = (p, t1)" by fastforce
  show ?case
  proof (cases "b1 < n \<or> p \<noteq> 0")
    case True
    then show ?thesis using al by (subst backpedal_loop.simps) (auto simp: b1_def [symmetric])
  next
    case False
    then have "2304 < b" using b1(1) assms by simp
    then have "b1 < b" using retreat_less [OF less.prems] by (simp add: b1_def)
    then have "backpedal_loop alloc a n b1 t1 \<noteq> None" using less.IH b1(2) less.prems(2) by simp
    then show ?thesis using al False by (subst backpedal_loop.simps) (simp add: b1_def [symmetric])
  qed
qed

text \<open>With a sub-allocator that has nothing left, a small request makes the retreat go on for ever.\<close>

lemma backpedal_loop_stuck:
  assumes ref: "\<And>t. fst (alloc a b t) = 0" and b: "RoundedBytes (times_backpedal b) = b" "n \<le> b"
  shows "backpedal_loop alloc a n b t = None"
proof -
  have "\<not> (alloc0 = alloc \<and> a0 = a \<and> n0 = n \<and> b0 = b)"
    if run0: "backpedal_loop alloc0 a0 n0 b0 t0 = Some r0" for alloc0 a0 n0 b0 t0 r0
    using _ run0
  proof (rule backpedal_loop.raw_induct
      [where P = "\<lambda>alloc0 a0 n0 b0 t0 r0. \<not> (alloc0 = alloc \<and> a0 = a \<and> n0 = n \<and> b0 = b)"])
    fix loop and alloc1 :: "nat \<Rightarrow> nat \<Rightarrow> 'a \<Rightarrow> nat \<times> 'a" and a1 n1 b1 t1 r1
    assume ih: "\<And>alloc0 a0 n0 b0 t0 y. loop alloc0 a0 n0 b0 t0 = Some y
        \<Longrightarrow> \<not> (alloc0 = alloc \<and> a0 = a \<and> n0 = n \<and> b0 = b)"
      and run: "(let bytes' = RoundedBytes (times_backpedal b1)
        in if bytes' < n1 then Some (bytes', 0, t1)
           else case alloc1 a1 bytes' t1 of (mem_addr, sub') \<Rightarrow>
                  if mem_addr \<noteq> 0 then Some (bytes', mem_addr, sub') else loop alloc1 a1 n1 bytes' sub') = Some r1"
    show "\<not> (alloc1 = alloc \<and> a1 = a \<and> n1 = n \<and> b1 = b)"
    proof
      assume eq: "alloc1 = alloc \<and> a1 = a \<and> n1 = n \<and> b1 = b"
      obtain t2 where "alloc a b t1 = (0, t2)" using ref [of t1] by (metis prod.collapse)
      then have "loop alloc a n b t2 = Some r1" using run b eq by simp
      then show False using ih by blast
    qed
  qed
  then show ?thesis by (cases "backpedal_loop alloc a n b t") blast+
qed

lemma grow_region_ok:
  assumes "0 < c" "c < 2 ^ 62" "n < 2 ^ 62" "256 dvd c"
  shows "\<exists>c'. grow_region n c = Some c' \<and> n \<le> c' \<and> 256 dvd c' \<and> c \<le> c' \<and> (c' = c \<or> c' < 2 * n)"
  using assms
proof (induction "n - c" arbitrary: c rule: less_induct)
  case less
  show ?case
  proof (cases "n > c")
    case True
    have u: "u64 (c * 2) = c * 2" using less.prems by (intro u64_id) simp
    have run: "grow_region n c = grow_region n (c * 2)" using True u by (subst grow_region.simps) simp
    show ?thesis
    proof (cases "c * 2 < 2 ^ 62")
      case small: True
      have "\<exists>c'. grow_region n (c * 2) = Some c' \<and> n \<le> c' \<and> 256 dvd c' \<and> c * 2 \<le> c' \<and> (c' = c * 2 \<or> c' < 2 * n)"
        by (rule less.hyps) (use less.prems True small in auto)
      then show ?thesis using run True by auto
    next
      case False
      then have "grow_region n (c * 2) = Some (c * 2)" using less.prems(3) by (subst grow_region.simps) simp
      then show ?thesis using run True False less.prems by auto
    qed
  next
    case False
    then have "grow_region n c = Some c" by (subst grow_region.simps) simp
    then show ?thesis using False less.prems by simp
  qed
qed

lemma grow_region_zero: "0 < n \<Longrightarrow> grow_region n 0 = None"
proof -
  have "n0 = 0 \<or> c0 \<noteq> 0" if run0: "grow_region n0 c0 = Some r0" for n0 c0 r0
    using _ run0
  proof (rule grow_region.raw_induct [where P = "\<lambda>n c r. n = 0 \<or> c \<noteq> 0"])
    fix loop n1 c1 r1
    assume ih: "\<And>n c r. loop n c = Some r \<Longrightarrow> n = 0 \<or> c \<noteq> 0"
      and run: "(if c1 < n1 then loop n1 (u64 (c1 * 2)) else Some c1) = Some r1"
    show "n1 = 0 \<or> c1 \<noteq> 0" using run ih [of n1 0 r1] by (cases "c1 = 0") (auto simp: u64_def split: if_splits)
  qed
  then show "0 < n \<Longrightarrow> grow_region n 0 = None" by (cases "grow_region n 0") auto
qed

section \<open>A new region\<close>

lemma hmap_iff:
  assumes ok: "regions_ok rs"
  shows "hmap rs p = Some h \<longleftrightarrow> (\<exists>r\<in>set rs. rg_ptr r \<le> p \<and> p < rg_end r \<and> 256 dvd p - rg_ptr r
    \<and> rg_handles r ! ((p - rg_ptr r) div 256) = Some h)"
proof
  assume "hmap rs p = Some h"
  then obtain r where "find (\<lambda>r. rg_ptr r \<le> p \<and> p < rg_end r) rs = Some r" "256 dvd p - rg_ptr r"
    "rg_handles r ! ((p - rg_ptr r) div 256) = Some h"
    by (auto simp: hmap_def split: option.splits if_splits)
  then show "\<exists>r\<in>set rs. rg_ptr r \<le> p \<and> p < rg_end r \<and> 256 dvd p - rg_ptr r
    \<and> rg_handles r ! ((p - rg_ptr r) div 256) = Some h"
    by (auto simp: find_Some_iff)
next
  assume "\<exists>r\<in>set rs. rg_ptr r \<le> p \<and> p < rg_end r \<and> 256 dvd p - rg_ptr r
    \<and> rg_handles r ! ((p - rg_ptr r) div 256) = Some h"
  then obtain i where i: "i < length rs" "rg_ptr (rs ! i) \<le> p" "p < rg_end (rs ! i)" "256 dvd p - rg_ptr (rs ! i)"
    "rg_handles (rs ! i) ! ((p - rg_ptr (rs ! i)) div 256) = Some h" by (auto simp: in_set_conv_nth)
  then show "hmap rs p = Some h" using find_region [OF ok i(1-3)] by (simp add: hmap_def)
qed

lemma new_region_ok:
  "0 < a \<Longrightarrow> 0 < m \<Longrightarrow> 256 dvd m \<Longrightarrow> a + m < 2 ^ 64 \<Longrightarrow> rg_ok (new_region a m)"
  by (auto simp: rg_ok_def new_region_def rg_end_def kMinAllocationSize_def elim!: dvdE)

lemma AddAllocationRegion_ok:
  assumes ok: "regions_ok rs" and a: "0 < a" "0 < m" "256 dvd m" "a + m < 2 ^ 64"
    and out: "\<forall>r\<in>set rs. a + m \<le> rg_ptr r \<or> rg_end r \<le> a"
  shows "regions_ok (AddAllocationRegion a m rs)" "hmap (AddAllocationRegion a m rs) = hmap rs"
    "set (map shape (AddAllocationRegion a m rs)) = insert (a, m) (set (map shape rs))"
    "sum_list (map rg_size (AddAllocationRegion a m rs)) = sum_list (map rg_size rs) + m"
proof -
  define e where "e = upper_bound_region a rs"
  let ?new = "new_region a m"
  let ?rs' = "AddAllocationRegion a m rs"
  have rs': "?rs' = take e rs @ ?new # drop e rs" by (simp add: AddAllocationRegion_def e_def Let_def)
  have low: "rg_end r \<le> a" if "r \<in> set (take e rs)" for r
    using that set_takeWhileD [of r "\<lambda>r. \<not> a < rg_end r" rs]
    by (simp add: e_def upper_bound_region_def takeWhile_eq_take [symmetric] not_less)
  have srt: "sorted_wrt (\<lambda>r r'. rg_end r \<le> rg_ptr r') rs" and oks: "\<And>r. r \<in> set rs \<Longrightarrow> rg_ok r"
    using ok by (auto simp: regions_ok_def)
  have high: "a + m \<le> rg_ptr r" if "r \<in> set (drop e rs)" for r
  proof (cases "drop e rs")
    case (Cons r0 rest)
    have "a < rg_end r0"
      using Cons hd_dropWhile [of "\<lambda>r. \<not> a < rg_end r" rs]
      by (simp add: e_def upper_bound_region_def dropWhile_eq_drop [symmetric])
    moreover have r0: "r0 \<in> set rs" using Cons by (metis in_set_dropD list.set_intros(1))
    ultimately have 1: "a + m \<le> rg_ptr r0" using bspec [OF out r0] by simp
    have "sorted_wrt (\<lambda>r r'. rg_end r \<le> rg_ptr r') (r0 # rest)" using srt Cons by (metis sorted_wrt_drop)
    then have "r = r0 \<or> rg_end r0 \<le> rg_ptr r" using that Cons by auto
    then show ?thesis using 1 by (auto simp: rg_end_def)
  qed (use that in simp)
  have new: "rg_ptr ?new = a" "rg_end ?new = a + m" "shape ?new = (a, m)" "rg_size ?new = m"
    by (simp_all add: new_region_def rg_end_def shape_def)
  have "sorted_wrt (\<lambda>r r'. rg_end r \<le> rg_ptr r') (take e rs @ drop e rs)" using srt by simp
  then have "sorted_wrt (\<lambda>r r'. rg_end r \<le> rg_ptr r') ?rs'"
    unfolding rs' sorted_wrt_append using low high new by auto
  moreover have "\<forall>r\<in>set ?rs'. rg_ok r" using oks new_region_ok [OF a] by (auto simp: rs' dest: in_set_takeD in_set_dropD)
  ultimately show ok': "regions_ok ?rs'" by (simp add: regions_ok_def)
  have set': "set ?rs' = insert ?new (set rs)"
  proof -
    have "set (take e rs) \<union> set (drop e rs) = set rs" by (metis append_take_drop_id set_append)
    then show ?thesis unfolding rs' by auto
  qed
  show "set (map shape ?rs') = insert (a, m) (set (map shape rs))" using set' new by simp
  have "map rg_size rs = map rg_size (take e rs) @ map rg_size (drop e rs)" by (metis append_take_drop_id map_append)
  then show "sum_list (map rg_size ?rs') = sum_list (map rg_size rs) + m" by (simp add: rs' new)
  have none: "rg_handles ?new ! ((p - a) div 256) = None" if "a \<le> p" "p < a + m" for p
  proof -
    have "(p - a) div 256 < (m + 255) div 256" using that a(3) by (auto elim!: dvdE intro: less_mult_imp_div_less)
    then show ?thesis by (simp add: new_region_def kMinAllocationSize_def)
  qed
  have "hmap ?rs' p = Some h \<longleftrightarrow> hmap rs p = Some h" for p h
    unfolding hmap_iff [OF ok'] hmap_iff [OF ok] set' using none new by auto
  then show "hmap ?rs' = hmap rs" by (intro ext) (metis option.exhaust)
qed

lemma AllocateChunk_with:
  "AllocateChunk (s\<lparr>bf_total := t, bf_regions := rs\<rparr>)
     = map_option (\<lambda>(s1, h). (s1\<lparr>bf_total := t, bf_regions := rs\<rparr>, h)) (AllocateChunk s)"
  by (simp add: AllocateChunk_def ChunkFromHandle_def split: option.split)

lemma add_region_ok:
  assumes inv: "bfc_inv {} s" and a: "0 < a" "0 < m" "256 dvd m" "a + m < 2 ^ 64"
    and out: "\<And>r. r \<in> set (bf_regions s) \<Longrightarrow> a + m \<le> rg_ptr r \<or> rg_end r \<le> a"
    and lim: "bf_total s + m \<le> bf_limit s"
  obtains s' h where "add_region a m s = Some s'" "bfc_inv {} s'" "used s' = used s"
    "shapes s' = insert (a, m) (shapes s)" "h \<in> free_chunks s'" "ck_size (chunk_of s' h) = m" "ck_freed_at (chunk_of s' h) = 0"
    "bf_sub s' = bf_sub s" "bf_limit s' = bf_limit s" "bf_curr s' = bf_curr s" "bf_total s' = bf_total s + m"
    "bf_backpedal s' = bf_backpedal s" "bf_gc s' = bf_gc s" "bf_timing s' = bf_timing s" "bf_queue s' = bf_queue s"
    "bf_next_id s' = bf_next_id s"
proof -
  note l = bfc_invD(1) [OF inv]
  note g = layout_geo [OF l]
  define rs0 where "rs0 = AddAllocationRegion a m (bf_regions s)"
  have ok: "regions_ok (bf_regions s)" using l by (simp add: layout_def)
  have "\<forall>r\<in>set (bf_regions s). a + m \<le> rg_ptr r \<or> rg_end r \<le> a" using out by blast
  note ar = AddAllocationRegion_ok [OF ok a this, folded rs0_def]
  obtain s1 n fl where al: "AllocateChunk s = Some (s1, n)" and n: "n \<notin> live s" "n < length (bf_chunks s1)"
    and s1: "s1 = s\<lparr>bf_chunks := bf_chunks s1, bf_free := bf_free s1\<rparr>"
    and ck1: "\<And>x. x < length (bf_chunks s) \<Longrightarrow> chunk_of s1 x = chunk_of s x"
    and len: "length (bf_chunks s) \<le> length (bf_chunks s1)"
    and old: "\<And>x. x < length (bf_chunks s1) \<Longrightarrow> x \<noteq> n \<Longrightarrow> x < length (bf_chunks s)"
    and cn: "ck_bin (chunk_of s1 n) = None" "\<not> in_use (chunk_of s1 n)"
    and fl: "free_path (bf_chunks s1) (bf_free s1) fl" "distinct fl" "set fl \<inter> live s = {}" "n \<notin> set fl"
    using AllocateChunk_ok [OF inv] by metis
  have tot: "u64 (bf_total s + m) = bf_total s + m"
    using lim bfc_invD(5) [OF inv] by (intro u64_id) (simp add: totals_ok_def)
  have free: "table s a = None"
  proof (rule ccontr)
    assume "table s a \<noteq> None"
    then obtain h where "is_slot (shapes s) a" using hmap_slot by fastforce
    then obtain i where "i < length (bf_regions s)" "rg_ptr (bf_regions s ! i) \<le> a" "a < rg_end (bf_regions s ! i)"
      by (rule slot_region)
    then show False using out [of "bf_regions s ! i"] a(2) by auto
  qed
  have slot: "is_slot (set (map shape rs0)) a" unfolding is_slot_def
    by (intro exI [of _ a] exI [of _ m]) (use ar(3) a(2) in simp)
  obtain rs' where rs': "set_handle a (Some n) rs0 = Some rs'" "regions_ok rs'" "map shape rs' = map shape rs0"
    "hmap rs' = (table s)(a := Some n)"
    using set_handle_spec [OF ar(1) slot, of "Some n"] unfolding ar(2) by metis
  define s2 where "s2 = s1\<lparr>bf_total := bf_total s + m, bf_regions := rs0\<rparr>"
  define c where "c = (chunk_of s1 n)\<lparr>ck_ptr := a, ck_size := m, ck_id := - 1, ck_prev := None,
                   ck_next := None, ck_freed_at := 0\<rparr>"
  define t where "t = (put_chunk n c s2)\<lparr>bf_regions := rs'\<rparr>"
  have run: "add_region a m s = InsertFreeChunkIntoBin n t"
  proof -
    have 1: "AllocateChunk (s\<lparr>bf_total := u64 (bf_total s + m), bf_regions := AddAllocationRegion a m (bf_regions s)\<rparr>)
      = Some (s2, n)"
      by (simp add: AllocateChunk_with al s2_def tot rs0_def)
    have 2: "update_chunk n (\<lambda>c. c\<lparr>ck_ptr := a, ck_size := m, ck_id := - 1, ck_prev := None,
                   ck_next := None, ck_freed_at := 0\<rparr>) s2 = Some (put_chunk n c s2)"
      using update_chunk_eq [of n s2] n(2) by (simp add: s2_def c_def)
    have 3: "set_region_handle a (Some n) (put_chunk n c s2) = Some t"
      using rs'(1) by (simp add: set_region_handle_def t_def s2_def)
    show ?thesis unfolding add_region_def by (simp add: 1 2 3)
  qed
  have ft: "bf_sub t = bf_sub s" "bf_limit t = bf_limit s" "bf_curr t = bf_curr s" "bf_total t = bf_total s + m"
    "bf_backpedal t = bf_backpedal s" "bf_gc t = bf_gc s" "bf_timing t = bf_timing s" "bf_queue t = bf_queue s"
    "bf_next_id t = bf_next_id s" "bf_regions t = rs'" "bf_free t = bf_free s1" "bf_bins t = bf_bins s" "bf_stats t = bf_stats s"
    "length (bf_chunks t) = length (bf_chunks s1)"
    unfolding t_def s2_def put_chunk_def by simp_all (subst s1; simp)+
  have ckt: "chunk_of t x = (if x = n then c else chunk_of s1 x)" for x
    using n(2) by (simp add: t_def s2_def put_chunk_def nth_list_update)
  have tab: "table t = (table s)(a := Some n)" using rs'(4) ft by simp
  have live: "live t = insert n (live s)" unfolding tab using ran_upd_new [of "table s" a n] free by simp
  have ll: "x < length (bf_chunks s)" "x \<noteq> n" "chunk_of t x = chunk_of s x" if "x \<in> live s" for x
    using layout_live [OF l that] that n(1) ckt ck1 by auto
  have cf: "ck_ptr c = a" "ck_size c = m" "ck_next c = None" "ck_prev c = None" "ck_freed_at c = 0" "ck_bin c = None" "\<not> in_use c"
    using cn by (simp_all add: c_def)
  have sh: "shapes t = insert (a, m) (shapes s)" using ar(3) rs'(3) ft by (metis)
  have "layout t" unfolding layout_def
  proof (intro conjI)
    show "regions_ok (bf_regions t)" using rs'(2) ft by simp
    show "live t \<subseteq> {..<length (bf_chunks t)}" using live n ll(1) len ft by fastforce
    have "geo (insert (a, m) (shapes s)) ((table s)(a := Some n)) ((\<lambda>x. ck_ptr (chunk_of s x))(n := a))
      ((\<lambda>x. ck_size (chunk_of s x))(n := m)) ((\<lambda>x. ck_next (chunk_of s x))(n := None)) ((\<lambda>x. ck_prev (chunk_of s x))(n := None))"
      by (rule geo_add [OF g n(1) free _ a(2,3)]) (use out in \<open>auto simp: shape_def rg_end_def\<close>)
    then show "geo (shapes t) (table t) (\<lambda>x. ck_ptr (chunk_of t x)) (\<lambda>x. ck_size (chunk_of t x))
        (\<lambda>x. ck_next (chunk_of t x)) (\<lambda>x. ck_prev (chunk_of t x))"
      unfolding tab [symmetric] sh
      by (rule geo_cong) (use live ll cf ckt in auto)
  qed
  moreover have "spare t" unfolding spare_def
  proof (intro conjI allI impI)
    fix x assume x: "x < length (bf_chunks t)" "x \<notin> live t"
    then have x': "x \<notin> live s" "x \<noteq> n" "x < length (bf_chunks s)" using live old ft by auto
    then show "ck_bin (chunk_of t x) = None" "\<not> in_use (chunk_of t x)"
      using bfc_invD(2) [OF inv] ckt ck1 by (auto simp: spare_def)
  next
    have "free_path (bf_chunks t) (bf_free s1) fl"
      by (rule free_path_cong [OF fl(1)]) (use free_path_less [OF fl(1)] fl(4) ft ckt in auto)
    then show "\<exists>fl. free_path (bf_chunks t) (bf_free t) fl \<and> distinct fl \<and> set fl \<inter> live t = {}"
      using fl live ft by auto
  qed
  moreover have "bins_ok {n} t"
    by (rule bins_ok_cong [OF bfc_invD(3) [OF inv] ft(12)])
      (use live ll cf ckt bfc_invD(3) [OF inv] in \<open>auto simp: bins_ok_def\<close>)
  moreover have "ids_ok t" unfolding ids_ok_def
  proof (intro conjI ballI impI)
    show "0 < bf_next_id t" using bfc_invD(4) [OF inv] ft by (simp add: ids_ok_def)
    fix x assume x: "x \<in> live t" "in_use (chunk_of t x)"
    then have xs: "x \<in> live s" "in_use (chunk_of s x)" using live ckt cf ll by auto
    show "0 < ck_id (chunk_of t x)" "ck_id (chunk_of t x) < bf_next_id t"
      using bfc_invD(4) [OF inv] xs ll ft by (auto simp: ids_ok_def)
    fix y assume y: "y \<in> live t" "ck_id (chunk_of t x) = ck_id (chunk_of t y)"
    then have "in_use (chunk_of t y)" using x by (simp add: in_use_def)
    then have "y \<in> live s" using live ckt cf y(1) by auto
    then show "x = y" using bfc_invD(4) [OF inv] xs y(2) ll by (auto simp: ids_ok_def)
  qed
  moreover have "totals_ok t"
  proof -
    have "{x \<in> live t. in_use (chunk_of t x)} = {x \<in> live s. in_use (chunk_of s x)}" using live ll cf ckt by auto
    then have "used_bytes t = used_bytes s" unfolding used_bytes_def by (intro sum.cong) (use ll in auto)
    moreover have "sum_list (map rg_size (bf_regions t)) = sum_list (map rg_size (bf_regions s)) + m"
      using ar(4) shape_sizes [OF rs'(3)] ft by simp
    ultimately show ?thesis using bfc_invD(5) [OF inv] lim ft by (simp add: totals_ok_def)
  qed
  moreover have "times_ok t" using bfc_invD(6) [OF inv] live ll ckt cf ft by (auto simp: times_ok_def)
  moreover have c2: "coalesced {} t" unfolding coalesced_def
  proof (intro impI ballI allI)
    fix x y assume nt: "\<not> bf_timing t" and x: "x \<in> live t" "ck_next (chunk_of t x) = Some y"
    then have xs: "x \<in> live s" "ck_next (chunk_of s x) = Some y" using live ckt cf ll by auto
    then have "y \<in> live s" using geo_next [OF g] by blast
    then show "in_use (chunk_of t x) \<or> in_use (chunk_of t y)"
      using bfc_invD(7) [OF inv] nt xs ll ft by (auto simp: coalesced_def)
  qed
  moreover from this have "coalesced {n} t" by (auto simp: coalesced_def)
  moreover have "stale_ok t" unfolding stale_ok_def
  proof (intro impI conjI allI ballI)
    assume tm: "bf_timing t"
    fix x assume x: "x < length (bf_chunks t)"
    have wide: "is_slot (shapes t) q" if "is_slot (shapes s) q" for q using that unfolding sh is_slot_def by blast
    show "is_slot (shapes t) (ck_ptr (chunk_of t x))"
    proof (cases "x = n")
      case True
      then show ?thesis using slot rs'(3) ft cf ckt by simp
    next
      case False
      then have "x < length (bf_chunks s)" using old x ft by simp
      then show ?thesis using wide bfc_invD(8) [OF inv] tm ft ckt ck1 False by (simp add: stale_ok_def)
    qed
  next
    fix x assume "bf_timing t" "x \<in> set (bf_queue t)"
    then show "x < length (bf_chunks t)" using bfc_invD(8) [OF inv] len ft by (auto simp: stale_ok_def)
  qed
  ultimately have lo: "loose n t" using live ckt cf by (simp add: loose_def bfc_inv_def)
  have ut: "used t = used s"
  proof
    fix p
    show "used t p = used s p"
    proof (cases "p = a")
      case True
      then show ?thesis using free cf ckt by (simp add: used_def tab)
    next
      case False
      have "chunk_of t x = chunk_of s x" if "table s p = Some x" for x using that ll by (auto simp: ran_def)
      then show ?thesis using False by (auto simp: used_def tab split: option.split)
    qed
  qed
  obtain s' where s': "InsertFreeChunkIntoBin n t = Some s'" "bfc_inv {} s'" "keeps t s'" "rebin t s'"
    using loose_insert [OF lo c2] by metis
  note f = rebin_fields [OF s'(4)]
  show thesis
  proof (rule that [of s' n])
    show "add_region a m s = Some s'" using run s'(1) by simp
    show "n \<in> free_chunks s'" using live ckt cf f by (simp add: free_chunks_def)
    show "used s' = used s" using s'(3) ut by (simp add: keeps_def)
    show "shapes s' = insert (a, m) (shapes s)" using sh f by simp
  qed (use s' f ft ckt cf in simp_all)
qed

section \<open>Extend\<close>

text \<open>
  The size of the next region stays in range as long as no region is given back: it is
  doubled at most twice after it has reached what the limit leaves.
\<close>

definition curr_ok :: "'s bfc \<Rightarrow> bool" where
  "curr_ok s \<longleftrightarrow> bf_limit s < 2 ^ 58 \<and> (0 < available_bytes s \<longrightarrow> 0 < bf_curr s)
     \<and> bf_curr s \<le> (if available_bytes s = 0 then 8 else if bf_backpedal s then 4 else 2) * (bf_limit s + 256)"

lemma available_bytes_eq:
  assumes "totals_ok s"
  shows "available_bytes s = (bf_limit s - bf_total s) div 256 * 256"
  using assms by (simp add: available_bytes_def totals_ok_def kMinAllocationSize_def sub64_eq)

text \<open>
  The one way not to return: the first refusal of the sub-allocator, for a request of at most
  2304 bytes within the limit, when it refuses every retreat too.
\<close>

definition stuck :: "(nat \<Rightarrow> nat \<Rightarrow> 's \<Rightarrow> nat \<times> 's) \<Rightarrow> nat \<Rightarrow> nat \<Rightarrow> 's bfc \<Rightarrow> bool" where
  "stuck alloc a n s \<longleftrightarrow> n \<le> 2304 \<and> n \<le> available_bytes s \<and> \<not> bf_backpedal s
     \<and> (\<exists>b\<ge>n. fst (alloc a b (bf_sub s)) = 0 \<and> backpedal_loop alloc a n b (snd (alloc a b (bf_sub s))) = None)"

lemma request_region_ok:
  assumes sub: "sub_allocator_ok alloc free blocks" and r: "0 < n"
    and m: "n \<le> min (bf_curr s) (available_bytes s)" "256 dvd min (bf_curr s) (available_bytes s)"
      "available_bytes s + 255 < 2 ^ 64"
  shows "(request_region alloc a n s = None \<and> stuck alloc a n s)
     \<or> (\<exists>b p u bp. request_region alloc a n s = Some (b, p, s\<lparr>bf_sub := u, bf_backpedal := bp\<rparr>)
     \<and> b \<le> min (bf_curr s) (available_bytes s) \<and> 256 dvd b \<and> (bf_backpedal s \<longrightarrow> bp)
     \<and> (\<not> bp \<longrightarrow> b = min (bf_curr s) (available_bytes s)) \<and> (bf_backpedal s \<longrightarrow> b = min (bf_curr s) (available_bytes s))
     \<and> (p = 0 \<longrightarrow> blocks u = blocks (bf_sub s))
     \<and> (p \<noteq> 0 \<longrightarrow> n \<le> b \<and> blocks u = insert (p, b) (blocks (bf_sub s)) \<and> p + b < 2 ^ 64
             \<and> (\<forall>q k. (q, k) \<in> blocks (bf_sub s) \<longrightarrow> p + b \<le> q \<or> q + k \<le> p)))"
proof -
  define b0 where "b0 = min (bf_curr s) (available_bytes s)"
  obtain p u where al: "alloc a b0 (bf_sub s) = (p, u)" by fastforce
  have "0 < b0" using m(1) r by (simp add: b0_def)
  then have ans: "p = 0 \<longrightarrow> blocks u = blocks (bf_sub s)"
      "p \<noteq> 0 \<longrightarrow> blocks u = insert (p, b0) (blocks (bf_sub s)) \<and> p + b0 < 2 ^ 64
             \<and> (\<forall>q k. (q, k) \<in> blocks (bf_sub s) \<longrightarrow> p + b0 \<le> q \<or> q + k \<le> p)"
    using sub al unfolding sub_allocator_ok_def by blast+
  have b0: "n \<le> b0" "256 dvd b0" "b0 \<le> available_bytes s" using m(1,2) by (simp_all add: b0_def)
  show ?thesis
  proof (cases "p = 0 \<and> \<not> bf_backpedal s")
    case True
    have b0s: "b0 + 255 < 2 ^ 64" using m(3) b0(3) by simp
    show ?thesis
    proof (cases "backpedal_loop alloc a n b0 u")
      case None
      then have "n \<le> 2304" using backpedal_loop_ends [OF _ b0(2) b0s, of n alloc a u] by (meson not_le)
      then have "stuck alloc a n s" using None True al b0(1,3) unfolding stuck_def by (auto intro!: exI [of _ b0])
      moreover have "request_region alloc a n s = None"
        using None True al by (simp add: request_region_def b0_def [symmetric] Let_def)
      ultimately show ?thesis by blast
    next
      case (Some r)
      obtain b' p' t' where r: "r = (b', p', t')" by (cases r)
      have bl: "b' \<le> b0" "256 dvd b'" "p' = 0 \<longrightarrow> blocks t' = blocks u"
        "p' \<noteq> 0 \<longrightarrow> n \<le> b' \<and> blocks t' = insert (p', b') (blocks u) \<and> p' + b' < 2 ^ 64
             \<and> (\<forall>q m. (q, m) \<in> blocks u \<longrightarrow> p' + b' \<le> q \<or> q + m \<le> p')"
        using backpedal_loop_ok [OF sub \<open>0 < n\<close> b0(2) b0s Some] by (simp_all add: r retreat_result_def)
      have "request_region alloc a n s = Some (b', p', s\<lparr>bf_sub := t', bf_backpedal := True\<rparr>)"
        using True Some al by (simp add: request_region_def b0_def [symmetric] Let_def r)
      then show ?thesis using bl ans(1) True unfolding b0_def [symmetric] by auto
    qed
  next
    case False
    have run: "request_region alloc a n s = Some (b0, p, s\<lparr>bf_sub := u, bf_backpedal := bf_backpedal s\<rparr>)"
      using False al by (auto simp: request_region_def b0_def [symmetric] Let_def)
    show ?thesis unfolding b0_def [symmetric]
      by (intro disjI2 exI [of _ b0] exI [of _ p] exI [of _ u] exI [of _ "bf_backpedal s"])
        (use run ans b0(1,2) order_refl [of b0] in blast)
  qed
qed

text \<open>What a client of \<open>Extend\<close> can rely on.\<close>

definition extends :: "('s \<Rightarrow> (nat \<times> nat) set) \<Rightarrow> nat \<Rightarrow> 's bfc \<Rightarrow> 's bfc \<Rightarrow> bool \<Rightarrow> bool" where
  "extends blocks n s t b \<longleftrightarrow> bfc_inv {} t \<and> used t = used s \<and> shapes s \<subseteq> shapes t \<and> blocks (bf_sub t) = shapes t \<and> curr_ok t
     \<and> bf_limit t = bf_limit s \<and> bf_gc t = bf_gc s \<and> bf_timing t = bf_timing s \<and> bf_queue t = bf_queue s
     \<and> bf_next_id t = bf_next_id s
     \<and> (b \<longrightarrow> (\<exists>h\<in>free_chunks t. \<forall>fb. fits n fb (chunk_of t h)))
     \<and> (\<not> b \<longrightarrow> (\<forall>k. k \<in> free_chunks t \<longleftrightarrow> k \<in> free_chunks s) \<and> bf_chunks t = bf_chunks s)"

lemma Extend_ok:
  assumes inv: "bfc_inv {} s" and co: "curr_ok s" and sub: "sub_allocator_ok alloc free blocks"
    and bl: "blocks (bf_sub s) = shapes s" and r: "0 < n" "256 dvd n"
  shows "(Extend alloc a n s = None \<and> stuck alloc a n s)
    \<or> (\<exists>s' b. Extend alloc a n s = Some (s', b) \<and> extends blocks n s s' b)"
proof (cases "n > available_bytes s")
  case True
  then have "Extend alloc a n s = Some (s, False)" by (simp add: Extend_def)
  then show ?thesis using inv co bl by (auto simp: extends_def)
next
  case False
  note tot = bfc_invD(5) [OF inv]
  define A where "A = available_bytes s"
  have A: "A = (bf_limit s - bf_total s) div 256 * 256" using available_bytes_eq [OF tot] by (simp add: A_def)
  have nA: "n \<le> A" using False by (simp add: A_def)
  have AL: "A \<le> bf_limit s - bf_total s" unfolding A by simp
  have lim: "bf_limit s < 2 ^ 58" using co by (simp add: curr_ok_def)
  have c0: "0 < bf_curr s" "bf_curr s \<le> (if bf_backpedal s then 4 else 2) * (bf_limit s + 256)" "256 dvd bf_curr s"
    using co nA r(1) tot by (auto simp: curr_ok_def A_def [symmetric] totals_ok_def)
  have "bf_curr s < 2 ^ 62" "n < 2 ^ 62" using c0(2) lim nA AL by (auto split: if_splits)
  then obtain c where c: "grow_region n (bf_curr s) = Some c" "n \<le> c" "256 dvd c" "bf_curr s \<le> c" "c = bf_curr s \<or> c < 2 * n"
    using grow_region_ok [OF c0(1) _ _ c0(3), of n] by blast
  have cb: "c \<le> (if bf_backpedal s then 4 else 2) * (bf_limit s + 256)"
    using c(5) c0(2) nA AL by (auto split: if_splits)
  define s0 where "s0 = s\<lparr>bf_curr := c\<rparr>"
  have cs: "c < 2 ^ 62" using cb lim by (auto split: if_splits)
  have inv0: "bfc_inv {} s0" unfolding s0_def by (rule bfc_inv_config(4) [OF inv c(3)]) (use cs in simp)
  have A0: "available_bytes s0 = A" "bf_curr s0 = c" by (simp_all add: s0_def A_def available_bytes_def)
  have "256 dvd min c A" using c(3) A by (simp add: min_def)
  moreover have "n \<le> min c A" using c(2) nA by simp
  moreover have "A + 255 < 2 ^ 64" using AL lim by simp
  ultimately have request: "(request_region alloc a n s0 = None \<and> stuck alloc a n s0)
     \<or> (\<exists>b p u bp. request_region alloc a n s0 = Some (b, p, s0\<lparr>bf_sub := u, bf_backpedal := bp\<rparr>)
     \<and> b \<le> min c A \<and> 256 dvd b \<and> (bf_backpedal s0 \<longrightarrow> bp)
     \<and> (\<not> bp \<longrightarrow> b = min c A) \<and> (bf_backpedal s0 \<longrightarrow> b = min c A)
     \<and> (p = 0 \<longrightarrow> blocks u = blocks (bf_sub s0))
     \<and> (p \<noteq> 0 \<longrightarrow> n \<le> b \<and> blocks u = insert (p, b) (blocks (bf_sub s0)) \<and> p + b < 2 ^ 64
             \<and> (\<forall>q k. (q, k) \<in> blocks (bf_sub s0) \<longrightarrow> p + b \<le> q \<or> q + k \<le> p)))"
    using request_region_ok [OF sub r(1), of s0 a] unfolding A0 by blast
  show ?thesis
  proof (cases "request_region alloc a n s0")
    case None
    then have "stuck alloc a n s0" using request by simp
    moreover have "stuck alloc a n s0 = stuck alloc a n s" by (simp add: stuck_def s0_def available_bytes_def)
    moreover have "Extend alloc a n s = None" using None False c(1) by (simp add: Extend_def s0_def [symmetric])
    ultimately show ?thesis by blast
  next
    case (Some answer)
    then obtain b p u bp where rq: "request_region alloc a n s0 = Some (b, p, s0\<lparr>bf_sub := u, bf_backpedal := bp\<rparr>)"
       "b \<le> min c A" "256 dvd b" "bf_backpedal s \<longrightarrow> bp" "\<not> bp \<longrightarrow> b = min c A" "bf_backpedal s \<longrightarrow> b = min c A"
       "p = 0 \<longrightarrow> blocks u = blocks (bf_sub s)"
       "p \<noteq> 0 \<longrightarrow> n \<le> b \<and> blocks u = insert (p, b) (blocks (bf_sub s)) \<and> p + b < 2 ^ 64
               \<and> (\<forall>q k. (q, k) \<in> blocks (bf_sub s) \<longrightarrow> p + b \<le> q \<or> q + k \<le> p)"
      using request by (auto simp: s0_def)
    define s1 where "s1 = s0\<lparr>bf_sub := u, bf_backpedal := bp\<rparr>"
    have inv1: "bfc_inv {} s1" unfolding s1_def by (intro bfc_inv_config inv0)
    have u1: "used s1 = used s" by (simp add: s1_def s0_def)
    show ?thesis
    proof (cases "p = 0")
      case True
      have run: "Extend alloc a n s = Some (s1, False)"
        using False c(1) rq(1) True by (simp add: Extend_def s0_def [symmetric] s1_def [symmetric])
      have "curr_ok s1" unfolding curr_ok_def
        using cb lim c(4) c0(1) rq(4) nA r(1) by (auto simp: s1_def s0_def available_bytes_def [symmetric] A_def [symmetric] split: if_splits)
      then show ?thesis using run inv1 u1 rq(7) True bl
        by (intro disjI2 exI [of _ s1] exI [of _ False]) (auto simp: extends_def s1_def s0_def free_chunks_def)
    next
      case nz: False
      define s2 where "s2 = (if n > bf_curr s then s1 else s1\<lparr>bf_curr := u64 (bf_curr s1 * 2)\<rparr>)"
      have "u64 (c * 2) = c * 2" using cs by (intro u64_id) simp
      then have s2: "s2 = s1\<lparr>bf_curr := (if n > bf_curr s then c else c * 2)\<rparr>"
        by (simp add: s2_def s1_def s0_def)
      have inv2: "bfc_inv {} s2" unfolding s2 by (rule bfc_inv_config(4) [OF inv1]) (use c(3) cs in auto)
      have p: "0 < p" "0 < b" "n \<le> b" "p + b < 2 ^ 64" "blocks u = insert (p, b) (shapes s)"
        "\<And>q k. (q, k) \<in> shapes s \<Longrightarrow> p + b \<le> q \<or> q + k \<le> p"
        using rq(8) nz r(1) bl by auto
      have f2: "bf_regions s2 = bf_regions s" "bf_total s2 = bf_total s" "bf_limit s2 = bf_limit s" "used s2 = used s"
        "bf_sub s2 = u" "bf_backpedal s2 = bp" "bf_gc s2 = bf_gc s" "bf_timing s2 = bf_timing s" "bf_queue s2 = bf_queue s"
        "bf_next_id s2 = bf_next_id s" "bf_curr s2 = (if n > bf_curr s then c else c * 2)"
        using u1 by (simp_all add: s2 s1_def s0_def)
      have out: "p + b \<le> rg_ptr x \<or> rg_end x \<le> p" if "x \<in> set (bf_regions s2)" for x
        using p(6) [of "rg_ptr x" "rg_size x"] that by (auto simp: f2 shape_def rg_end_def)
      have fit: "bf_total s2 + b \<le> bf_limit s2" 
      proof -
        have "bf_total s \<le> bf_limit s" using tot by (simp add: totals_ok_def)
        moreover have "b \<le> bf_limit s - bf_total s" using rq(2) AL by simp
        ultimately show ?thesis using f2(2,3) by linarith
      qed
      obtain s' h where s': "add_region p b s2 = Some s'" "bfc_inv {} s'" "used s' = used s2"
      "shapes s' = insert (p, b) (shapes s2)" "h \<in> free_chunks s'" "ck_size (chunk_of s' h) = b" "ck_freed_at (chunk_of s' h) = 0"
      "bf_sub s' = bf_sub s2" "bf_limit s' = bf_limit s2" "bf_curr s' = bf_curr s2" "bf_total s' = bf_total s2 + b"
      "bf_backpedal s' = bf_backpedal s2" "bf_gc s' = bf_gc s2" "bf_timing s' = bf_timing s2" "bf_queue s' = bf_queue s2"
      "bf_next_id s' = bf_next_id s2"
        using add_region_ok [OF inv2 p(1,2) rq(3) p(4) out fit] by metis
      have run: "Extend alloc a n s = Some (s', True)"
        using False c(1) rq(1) nz s'(1)
        by (simp add: Extend_def s0_def [symmetric] s1_def [symmetric] s2_def [symmetric] split del: if_split)
      have "curr_ok s'"
      proof -
        have av: "available_bytes s' = (bf_limit s - bf_total s - b) div 256 * 256"
          using available_bytes_eq [OF bfc_invD(5) [OF s'(2)]] s' f2 by (simp add: diff_diff_add)
        have cc: "bf_curr s' \<le> 2 * c" "0 < bf_curr s'" using s'(10) f2(11) c(4) c0(1) by auto
        have small: "bf_curr s' < 2 * (bf_limit s + 256)" if "b = min c A" "available_bytes s' \<noteq> 0"
        proof -
          have "b \<noteq> A"
          proof
            assume "b = A"
            then have "bf_limit s - bf_total s - b = (bf_limit s - bf_total s) mod 256"
              unfolding A by (simp add: minus_div_mult_eq_mod)
            then show False using that(2) av by simp
          qed
          then have "c < A" using that(1) by auto
          moreover have "A \<le> bf_limit s" using AL by simp
          ultimately have "2 * c < 2 * (bf_limit s + 256)" by simp
          then show ?thesis using cc(1) by (rule le_less_trans [rotated])
        qed
        have four: "bf_curr s' \<le> 4 * (bf_limit s + 256)" if "\<not> bf_backpedal s" using that cc(1) cb by simp
        have eight: "bf_curr s' \<le> 8 * (bf_limit s + 256)" using cc(1) cb by (auto split: if_splits)
        show ?thesis unfolding curr_ok_def
          using small four eight cc(2) rq(4-6) lim s'(9,12) f2(3,6)
          by (cases "bf_backpedal s"; cases bp; cases "available_bytes s' = 0") auto
      qed
      moreover have "\<forall>fb. fits n fb (chunk_of s' h)" using s'(6,7) p(3) by (simp add: fits_def)
      moreover have "blocks (bf_sub s') = shapes s'" "shapes s \<subseteq> shapes s'" using s'(4,8) f2 p(5) by auto
      ultimately show ?thesis using run s' f2
        by (intro disjI2 exI [of _ s'] exI [of _ True]) (auto simp: extends_def)
    qed
  qed
qed

end
