(* ===== verification/BFC_Times.thy ===== *)
theory BFC_Times
  imports BFC_Regions
begin

text \<open>
  Chunks with time stamps: \<open>MergeTimestampedChunks\<close> never fails a \<open>CHECK\<close> while no region is
  given back, and keeps the invariant and everything that is handed out.
\<close>

text \<open>An address is still the start of a free chunk, or of none.\<close>

definition mergeable :: "'s bfc \<Rightarrow> nat \<Rightarrow> bool" where
  "mergeable s p \<longleftrightarrow> is_slot (shapes s) p \<and> used s p = None"

lemma mergeable_keeps: "keeps s t \<Longrightarrow> mergeable s p \<Longrightarrow> mergeable t p"
  unfolding mergeable_def keeps_def by metis

lemma keeps_queue: "keeps s t \<Longrightarrow> keeps (s\<lparr>bf_queue := q\<rparr>) (t\<lparr>bf_queue := q\<rparr>)"
  by (simp add: keeps_def)

text \<open>Setting a time stamp to zero.\<close>

lemma unstamp_ok:
  assumes inv: "bfc_inv {} s" and tm: "bf_timing s" and h: "h \<in> live s"
  shows "bfc_inv {} (put_chunk h ((chunk_of s h)\<lparr>ck_freed_at := 0\<rparr>) s)"
    "keeps s (put_chunk h ((chunk_of s h)\<lparr>ck_freed_at := 0\<rparr>) s)"
proof -
  let ?t = "put_chunk h ((chunk_of s h)\<lparr>ck_freed_at := 0\<rparr>) s"
  have hl: "h < length (bf_chunks s)" by (rule layout_live [OF bfc_invD(1) [OF inv] h])
  have fld: "ck_ptr (chunk_of ?t x) = ck_ptr (chunk_of s x)" "ck_size (chunk_of ?t x) = ck_size (chunk_of s x)"
    "ck_next (chunk_of ?t x) = ck_next (chunk_of s x)" "ck_prev (chunk_of ?t x) = ck_prev (chunk_of s x)"
    "ck_bin (chunk_of ?t x) = ck_bin (chunk_of s x)" "in_use (chunk_of ?t x) = in_use (chunk_of s x)"
    "ck_id (chunk_of ?t x) = ck_id (chunk_of s x)" "ck_requested (chunk_of ?t x) = ck_requested (chunk_of s x)" for x
    by (simp_all add: chunk_put [OF hl])
  have cfg: "bf_sub ?t = bf_sub s" "bf_limit ?t = bf_limit s" "bf_curr ?t = bf_curr s" "bf_total ?t = bf_total s"
    "bf_backpedal ?t = bf_backpedal s" "bf_gc ?t = bf_gc s" "bf_timing ?t = bf_timing s" "bf_queue ?t = bf_queue s"
    "bf_frontier ?t = bf_frontier s" "bf_next_id ?t = bf_next_id s" "bf_stats ?t = bf_stats s"
    by (simp_all add: put_chunk_def)
  have "layout ?t" using bfc_invD(1) [OF inv] by (simp add: layout_def fld)
  moreover have "spare ?t"
  proof -
    obtain fl where fl: "free_path (bf_chunks s) (bf_free s) fl" "distinct fl" "set fl \<inter> live s = {}"
      using bfc_invD(2) [OF inv] by (auto simp: spare_def)
    have "free_path (bf_chunks ?t) (bf_free s) fl"
      by (rule free_path_cong [OF fl(1)]) (use free_path_less [OF fl(1)] in \<open>simp add: fld\<close>)
    then show ?thesis using fl bfc_invD(2) [OF inv] by (auto simp: spare_def fld)
  qed
  moreover have "bins_ok {} ?t"
    by (rule bins_ok_cong [OF bfc_invD(3) [OF inv]]) (use fld bfc_invD(3) [OF inv] in \<open>auto simp: bins_ok_def\<close>)
  moreover have "ids_ok ?t" using bfc_invD(4) [OF inv] by (simp add: ids_ok_def fld cfg)
  moreover have "totals_ok ?t" using bfc_invD(5) [OF inv] by (simp add: totals_ok_def used_bytes_def fld cfg)
  moreover have "times_ok ?t" using tm by (simp add: times_ok_def cfg)
  moreover have "coalesced {} ?t" using tm by (simp add: coalesced_def cfg)
  moreover have "stale_ok ?t" using bfc_invD(8) [OF inv] by (simp add: stale_ok_def fld cfg)
  ultimately show "bfc_inv {} ?t" by (simp add: bfc_inv_def)
  have "used ?t = used s" by (rule ext) (simp add: used_def fld split: option.split)
  then show "keeps s ?t" by (simp add: keeps_def cfg)
qed

lemma binned_live:
  assumes inv: "bfc_inv X s" and h: "h < length (bf_chunks s)" "ck_bin (chunk_of s h) \<noteq> None"
  shows "h \<in> live s"
  using bfc_invD(2) [OF inv] h by (auto simp: spare_def)

lemma sweep_queue_ok:
  assumes "bfc_inv {} s" "bf_timing s" "\<And>h. h \<in> set hs \<Longrightarrow> h < length (bf_chunks s)"
  shows "\<exists>s' m q. sweep_queue frontier n hs s = Some (s', m, q) \<and> bfc_inv {} s' \<and> keeps s s'
     \<and> length (bf_chunks s') = length (bf_chunks s)
     \<and> (\<forall>p\<in>set m. mergeable s p) \<and> (\<forall>h\<in>set q. h < length (bf_chunks s))"
  using assms
proof (induction hs arbitrary: s)
  case Nil
  then show ?case by simp
next
  case (Cons h0 hs)
  note inv = Cons.prems(1) and tm = Cons.prems(2)
  note l = bfc_invD(1) [OF inv]
  have h0: "h0 < length (bf_chunks s)" using Cons.prems(3) by simp
  let ?c = "chunk_of s h0"
  have slot: "is_slot (shapes s) (ck_ptr ?c)" using bfc_invD(8) [OF inv] tm h0 by (simp add: stale_ok_def)
  have run1: "ChunkFromHandle s h0 = Some ?c" using h0 by (simp add: ChunkFromHandle_def)
  have run2: "get_handle (bf_regions s) (ck_ptr ?c) = Some (table s (ck_ptr ?c))"
    using get_handle_hmap [OF _ slot] l by (simp add: layout_def)
  have ih: "\<exists>s' m q. sweep_queue frontier n hs s = Some (s', m, q) \<and> bfc_inv {} s' \<and> keeps s s'
     \<and> length (bf_chunks s') = length (bf_chunks s)
     \<and> (\<forall>p\<in>set m. mergeable s p) \<and> (\<forall>h\<in>set q. h < length (bf_chunks s))"
    using Cons.IH [OF inv tm] Cons.prems(3) by simp
  show ?case
  proof (cases "table s (ck_ptr ?c) = None \<or> in_use ?c \<or> ck_bin ?c = None")
    case True
    then have "sweep_queue frontier n (h0 # hs) s = sweep_queue frontier n hs s"
      using run1 run2 by (cases "table s (ck_ptr ?c)") auto
    then show ?thesis using ih by simp
  next
    case False
    then obtain bn where bn: "ck_bin ?c = Some bn" "\<not> in_use ?c" by auto
    have hl: "h0 \<in> live s" using binned_live [OF inv h0] bn by simp
    have tab: "table s (ck_ptr ?c) = Some h0" by (rule geo_slot [OF layout_geo [OF l] hl])
    have mg: "mergeable s (ck_ptr ?c)" using slot bn tab by (simp add: mergeable_def used_def)
    let ?t = "put_chunk h0 (?c\<lparr>ck_freed_at := 0\<rparr>) s"
    have ih': "\<exists>s' m q. sweep_queue frontier n hs ?t = Some (s', m, q) \<and> bfc_inv {} s' \<and> keeps ?t s'
     \<and> length (bf_chunks s') = length (bf_chunks ?t)
     \<and> (\<forall>p\<in>set m. mergeable ?t p) \<and> (\<forall>h\<in>set q. h < length (bf_chunks ?t))"
      by (rule Cons.IH [OF unstamp_ok(1) [OF inv tm hl]]) (use tm Cons.prems(3) in \<open>simp_all add: put_chunk_def\<close>)
    have kt: "keeps s ?t" by (rule unstamp_ok(2) [OF inv tm hl])
    have mback: "mergeable s p" if "mergeable ?t p" for p
      using that kt unfolding mergeable_def keeps_def by simp
    consider (zero) "ck_freed_at ?c = 0" | (safe) "0 < ck_freed_at ?c" "ck_freed_at ?c < frontier h0"
      | (forced) "0 < ck_freed_at ?c" "\<not> ck_freed_at ?c < frontier h0" "0 < n"
      | (wait) "0 < ck_freed_at ?c" "\<not> ck_freed_at ?c < frontier h0" "n = 0" by blast
    then show ?thesis
    proof cases
      case zero
      then have "sweep_queue frontier n (h0 # hs) s
        = map_option (\<lambda>(s', m, q). (s', ck_ptr ?c # m, q)) (sweep_queue frontier n hs s)"
        using run1 run2 bn tab by simp
      then show ?thesis using ih mg by (elim exE conjE) simp
    next
      case safe
      then have "sweep_queue frontier n (h0 # hs) s
        = map_option (\<lambda>(s', m, q). (s', ck_ptr ?c # m, q)) (sweep_queue frontier n hs ?t)"
        using run1 run2 bn tab by simp
      then show ?thesis using ih' mg mback keeps_trans [OF kt] by (elim exE conjE) simp
    next
      case forced
      then have "sweep_queue frontier n (h0 # hs) s
        = map_option (\<lambda>(s', m, q). (s', ck_ptr ?c # m, q)) (sweep_queue frontier n hs s)"
        using run1 run2 bn tab by simp
      then show ?thesis using ih mg by (elim exE conjE) simp
    next
      case wait
      then have "sweep_queue frontier n (h0 # hs) s
        = map_option (\<lambda>(s', m, q). (s', m, h0 # q)) (sweep_queue frontier n hs s)"
        using run1 run2 bn tab by simp
      then show ?thesis using ih h0 by (elim exE conjE) simp
    qed
  qed
qed

text \<open>Like \<open>keeps\<close>, but the queue may change.\<close>

definition keeps_rest :: "'s bfc \<Rightarrow> 's bfc \<Rightarrow> bool" where
  "keeps_rest s t \<longleftrightarrow> keeps s (t\<lparr>bf_queue := bf_queue s\<rparr>)"

lemma keeps_restI: "keeps s t \<Longrightarrow> keeps_rest s t"
  by (simp add: keeps_rest_def keeps_def)

lemma keeps_rest_queue: "keeps_rest s (s\<lparr>bf_queue := q\<rparr>)"
  by (simp add: keeps_rest_def keeps_def)

lemma keeps_rest_trans: "keeps_rest s t \<Longrightarrow> keeps_rest t u \<Longrightarrow> keeps_rest s u"
  by (simp add: keeps_rest_def keeps_def)

lemma keeps_rest_fields:
  assumes "keeps_rest s t"
  shows "used t = used s" "shapes t = shapes s" "bf_sub t = bf_sub s" "bf_limit t = bf_limit s" "bf_curr t = bf_curr s"
    "bf_total t = bf_total s" "bf_backpedal t = bf_backpedal s" "bf_gc t = bf_gc s" "bf_timing t = bf_timing s"
    "bf_next_id t = bf_next_id s" "available_bytes t = available_bytes s"
  using assms unfolding keeps_rest_def keeps_def
  by (simp_all add: available_bytes_def)

lemma mergeable_rest: "keeps_rest s t \<Longrightarrow> mergeable s p \<Longrightarrow> mergeable t p"
  by (simp only: mergeable_def keeps_rest_fields)

text \<open>One step of the second loop: a chunk leaves its bin, is coalesced, and goes back.\<close>

lemma merge_one:
  assumes inv: "bfc_inv {} s" and h: "h \<in> live s" "\<not> in_use (chunk_of s h)"
  obtains s1 s2 s3 h' where "RemoveFreeChunkFromBin h s = Some s1" "TryToCoalesce h ign s1 = Some (s2, h')"
    "InsertFreeChunkIntoBin h' s2 = Some s3" "bfc_inv {} s3" "keeps s s3"
    "h' < length (bf_chunks s3)" "ChunkFromHandle s3 h' = Some (chunk_of s3 h')"
proof -
  obtain s1 where s1: "RemoveFreeChunkFromBin h s = Some s1" "rebin s s1" "bfc_inv {h} s1" "used s1 = used s"
    "ck_bin (chunk_of s1 h) = None" using RemoveFromBin_ok [OF inv h] by auto
  have "loose h s1" using s1 h rebin_fields [OF s1(2)] by (simp add: loose_def)
  then obtain s2 h' where s2: "TryToCoalesce h ign s1 = Some (s2, h')" "loose h' s2" "keeps s1 s2" "coalesced {} s2"
    using TryToCoalesce_ok by metis
  obtain s3 where s3: "InsertFreeChunkIntoBin h' s2 = Some s3" "bfc_inv {} s3" "keeps s2 s3" "rebin s2 s3"
    using loose_insert [OF s2(2,4)] by metis
  have "keeps s s3" using keeps_rebin [OF s1(2)] s2(3) s3(3) keeps_trans by blast
  moreover have "h' < length (bf_chunks s3)"
    using layout_live [OF looseD(5,2) [OF s2(2)]] rebin_fields(14) [OF s3(4)] by simp
  ultimately show thesis using that s1(1) s2(1) s3(1,2) by (simp add: ChunkFromHandle_def)
qed

lemma queue_append:
  assumes inv: "bfc_inv {} s" and tm: "bf_timing s" and h: "h < length (bf_chunks s)"
  shows "bfc_inv {} (s\<lparr>bf_queue := bf_queue s @ [h]\<rparr>)"
  by (rule bfc_inv_queue [OF inv]) (use h tm bfc_invD(8) [OF inv] in \<open>auto simp: stale_ok_def\<close>)

lemma merge_queue_ok:
  assumes "bfc_inv {} s" "bf_timing s" "\<forall>p\<in>set ps. mergeable s p"
  shows "\<exists>s' b. merge_queue n ps sat s = Some (s', b) \<and> bfc_inv {} s' \<and> keeps_rest s s'"
  using assms
proof (induction ps arbitrary: s sat)
  case Nil
  then show ?case by (simp add: keeps_restI)
next
  case (Cons p ps)
  note inv = Cons.prems(1) and tm = Cons.prems(2)
  note l = bfc_invD(1) [OF inv]
  have slot: "is_slot (shapes s) p" and un: "used s p = None" using Cons.prems(3) by (auto simp: mergeable_def)
  have run0: "get_handle (bf_regions s) p = Some (table s p)"
    using get_handle_hmap [OF _ slot] l by (simp add: layout_def)
  have step: "\<exists>s' b. merge_queue n ps sat' t = Some (s', b) \<and> bfc_inv {} s' \<and> keeps_rest s s'"
    if t: "bfc_inv {} t" "keeps_rest s t" for t sat'
  proof -
    have "\<forall>p\<in>set ps. mergeable t p" using Cons.prems(3) mergeable_rest [OF t(2)] by simp
    moreover have "bf_timing t" using keeps_rest_fields(9) [OF t(2)] tm by simp
    ultimately show ?thesis using Cons.IH [OF t(1)] keeps_rest_trans [OF t(2)] by blast
  qed
  show ?case
  proof (cases "table s p")
    case None
    then show ?thesis using run0 step [OF inv keeps_restI [OF keeps_refl]] by simp
  next
    case (Some h)
    then have h: "h \<in> live s" "\<not> in_use (chunk_of s h)" using un by (auto simp: ran_def used_def split: if_splits)
    show ?thesis
    proof (cases "n = 0 \<or> \<not> sat")
      case True
      obtain s1 s2 s3 h' where m: "RemoveFreeChunkFromBin h s = Some s1" "TryToCoalesce h (n > 0) s1 = Some (s2, h')"
        "InsertFreeChunkIntoBin h' s2 = Some s3" "bfc_inv {} s3" "keeps s s3"
        "h' < length (bf_chunks s3)" "ChunkFromHandle s3 h' = Some (chunk_of s3 h')"
        using merge_one [OF inv h] by metis
      have k3: "keeps_rest s s3" by (rule keeps_restI [OF m(5)])
      have tm3: "bf_timing s3" using keeps_rest_fields(9) [OF k3] tm by simp
      show ?thesis
      proof (cases "n > 0 \<and> h' \<noteq> h \<and> ck_freed_at (chunk_of s3 h') > 0")
        case app: True
        then show ?thesis using run0 Some True m
            step [OF queue_append [OF m(4) tm3 m(6)] keeps_rest_trans [OF k3 keeps_rest_queue]]
          by simp
      next
        case False
        then show ?thesis using run0 Some True m step [OF m(4) k3] by (cases "n = 0") auto
      qed
    next
      case False
      then show ?thesis using run0 Some
          step [OF queue_append [OF inv tm layout_live [OF l h(1)]] keeps_rest_queue] by simp
    qed
  qed
qed

lemma MergeTimestampedChunks_ok:
  assumes inv: "bfc_inv {} s" and q: "bf_queue s \<noteq> []"
  shows "\<exists>s' b. MergeTimestampedChunks frontier n s = Some (s', b) \<and> bfc_inv {} s' \<and> keeps_rest s s'"
proof -
  have tm: "bf_timing s" using bfc_invD(6) [OF inv] q by (auto simp: times_ok_def)
  have qs: "h < length (bf_chunks s)" if "h \<in> set (bf_queue s)" for h
    using bfc_invD(8) [OF inv] tm that by (simp add: stale_ok_def)
  from sweep_queue_ok [OF inv tm qs, of "bf_queue s" frontier n, simplified] obtain s1 m q1 where s1: "sweep_queue frontier n (bf_queue s) s = Some (s1, m, q1)" "bfc_inv {} s1" "keeps s s1"
     "length (bf_chunks s1) = length (bf_chunks s)"
     "\<forall>p\<in>set m. mergeable s p" "\<forall>h\<in>set q1. h < length (bf_chunks s)"
    by (elim exE conjE)
  define t where "t = s1\<lparr>bf_queue := q1\<rparr>"
  have kt: "keeps_rest s t" using keeps_rest_trans [OF keeps_restI [OF s1(3)] keeps_rest_queue] by (simp add: t_def)
  have tm1: "bf_timing s1" using s1(3) tm by (simp add: keeps_def)
  have "bfc_inv {} t" unfolding t_def by (rule bfc_inv_queue [OF s1(2) tm1]) (use s1(4,6) in auto)
  moreover have "bf_timing t" using tm1 by (simp add: t_def)
  moreover have "\<forall>p\<in>set m. mergeable t p" using s1(5) mergeable_rest [OF kt] by blast
  ultimately have "\<exists>s' b. merge_queue n m (n = 0) t = Some (s', b) \<and> bfc_inv {} s' \<and> keeps_rest t s'"
    by (rule merge_queue_ok)
  then obtain s' b where "merge_queue n m (n = 0) t = Some (s', b)" "bfc_inv {} s'" "keeps_rest t s'"
    by (elim exE conjE)
  then show ?thesis using s1(1) keeps_rest_trans [OF kt] by (auto simp: MergeTimestampedChunks_def t_def)
qed

end
