(* ===== verification/BFC_Alloc.thy ===== *)
theory BFC_Alloc
  imports BFC_Times
begin

text \<open>
  \<open>AllocateRawInternal\<close> as a whole, while regions are not given back (\<open>bf_gc\<close> is off): it
  never fails, keeps the invariant, and either answers null and leaves what is handed out
  alone, or hands out one fresh block.
\<close>

definition bfc_ok :: "('s \<Rightarrow> (nat \<times> nat) set) \<Rightarrow> 's bfc \<Rightarrow> bool" where
  "bfc_ok blocks s \<longleftrightarrow> bfc_inv {} s \<and> curr_ok s \<and> blocks (bf_sub s) = shapes s \<and> \<not> bf_gc s"

lemma bfc_okD:
  assumes "bfc_ok blocks s"
  shows "bfc_inv {} s" "curr_ok s" "blocks (bf_sub s) = shapes s" "\<not> bf_gc s"
  using assms by (simp_all add: bfc_ok_def)

text \<open>The outcome of one attempt: \<open>n\<close> bytes, rounded from \<open>m\<close>, at \<open>p\<close>.\<close>

definition attempt_ok :: "('s \<Rightarrow> (nat \<times> nat) set) \<Rightarrow> nat \<Rightarrow> nat \<Rightarrow> 's bfc \<Rightarrow> 's bfc \<Rightarrow> nat \<Rightarrow> bool" where
  "attempt_ok blocks n m s t p \<longleftrightarrow> bfc_ok blocks t \<and> bf_limit t = bf_limit s \<and> bf_timing t = bf_timing s
     \<and> (if p = 0 then used t = used s \<and> bf_next_id t = bf_next_id s
        else (\<exists>k. used t = (used s)(p := Some (k, m, bf_next_id s)) \<and> used s p = None \<and> n \<le> k
                \<and> k < 2 * n \<and> k < n + kMaxInternalFragmentation)
             \<and> bf_next_id t = bf_next_id s + 1)"

lemma curr_ok_cong:
  "bf_limit t = bf_limit s \<Longrightarrow> bf_curr t = bf_curr s \<Longrightarrow> bf_total t = bf_total s \<Longrightarrow> bf_backpedal t = bf_backpedal s
     \<Longrightarrow> curr_ok t = curr_ok s"
  by (simp add: curr_ok_def available_bytes_def)

lemma bfc_ok_config: "bfc_ok blocks s \<Longrightarrow> same_config s t \<Longrightarrow> bfc_inv {} t \<Longrightarrow> bfc_ok blocks t"
  using curr_ok_cong [of t s] by (simp add: bfc_ok_def same_config_def flip: set_map)

lemma same_config_rest: "keeps_rest s t \<Longrightarrow> same_config s t"
  by (simp add: keeps_rest_def keeps_def same_config_def)

lemma attempt_none:
  assumes "bfc_ok blocks s"
  shows "attempt_ok blocks n m s s 0"
  using assms by (simp add: attempt_ok_def)

lemma attempt_after:
  assumes "used t = used s" "bf_next_id t = bf_next_id s" "bf_limit t = bf_limit s" "bf_timing t = bf_timing s"
    and "attempt_ok blocks n m t u p"
  shows "attempt_ok blocks n m s u p"
  using assms(5) unfolding attempt_ok_def assms(1-4) .

lemma attempt_gives:
  assumes ok: "bfc_ok blocks s" and t: "gives n m s t p" "bfc_inv {} t"
  shows "attempt_ok blocks n m s t p"
proof -
  have "same_config s t" using t(1) by (simp add: gives_def)
  then show ?thesis using t(1) bfc_ok_config [OF ok _ t(2)] by (auto simp: attempt_ok_def gives_def same_config_def)
qed

text \<open>Every stage of the request succeeds in this sense.\<close>

lemma find_attempt:
  assumes ok: "bfc_ok blocks s" and n: "0 < n" "256 dvd n"
  shows "\<exists>t p. FindChunkPtr (BinNumForSize n) n m fb s = Some (t, p) \<and> attempt_ok blocks n m s t p"
proof (cases rule: FindChunkPtr_ok [OF bfc_okD(1) [OF ok] n, of m fb, case_names found none])
  case (found t h)
  then show ?thesis using attempt_gives [OF ok] by blast
next
  case none
  then show ?thesis using attempt_none [OF ok] by blast
qed

lemma extended_attempt:
  assumes ok: "bfc_ok blocks s" and sub: "sub_allocator_ok alloc free blocks" and n: "0 < n" "256 dvd n"
  shows "(try_extended alloc a n m fb s = None \<and> stuck alloc a n s)
    \<or> (\<exists>t p. try_extended alloc a n m fb s = Some (t, p) \<and> attempt_ok blocks n m s t p)"
proof (cases "Extend alloc a n s")
  case None
  then show ?thesis using Extend_ok [OF bfc_okD(1,2) [OF ok] sub bfc_okD(3) [OF ok] n, of a] by (simp add: try_extended_def)
next
  case (Some r)
  then obtain s1 b where e: "Extend alloc a n s = Some (s1, b)" "extends blocks n s s1 b"
    using Extend_ok [OF bfc_okD(1,2) [OF ok] sub bfc_okD(3) [OF ok] n, of a] by auto
  have ok1: "bfc_ok blocks s1" using e(2) bfc_okD(4) [OF ok] by (simp add: extends_def bfc_ok_def)
  have same: "used s1 = used s" "bf_next_id s1 = bf_next_id s" "bf_limit s1 = bf_limit s" "bf_timing s1 = bf_timing s"
    using e(2) by (simp_all add: extends_def)
  show ?thesis
  proof (cases b)
    case True
    then show ?thesis using find_attempt [OF ok1 n, of m fb] attempt_after [OF same] e(1)
      by (auto simp: try_extended_def)
  next
    case False
    then show ?thesis using attempt_after [OF same attempt_none [OF ok1]] e(1) by (simp add: try_extended_def)
  qed
qed

lemma merged_ok:
  assumes ok: "bfc_ok blocks s" and q: "bf_queue s \<noteq> []"
  shows "\<exists>t b. MergeTimestampedChunks frontier k s = Some (t, b) \<and> bfc_ok blocks t
    \<and> used t = used s \<and> bf_next_id t = bf_next_id s \<and> bf_limit t = bf_limit s \<and> bf_timing t = bf_timing s
    \<and> available_bytes t = available_bytes s \<and> bf_backpedal t = bf_backpedal s \<and> bf_sub t = bf_sub s"
proof -
  obtain t b where t: "MergeTimestampedChunks frontier k s = Some (t, b)" "bfc_inv {} t" "keeps_rest s t"
    using MergeTimestampedChunks_ok [OF bfc_okD(1) [OF ok] q] by blast
  then show ?thesis using bfc_ok_config [OF ok same_config_rest [OF t(3)] t(2)] keeps_rest_fields [OF t(3)] by blast
qed

lemma forced_attempt:
  assumes ok: "bfc_ok blocks s" and n: "0 < n" "256 dvd n"
  shows "\<exists>t p. try_forced_merge frontier n m fb s = Some (t, p) \<and> attempt_ok blocks n m s t p"
proof (cases "fb = 0 \<and> bf_queue s \<noteq> []")
  case True
  then obtain s1 b where s1: "MergeTimestampedChunks frontier n s = Some (s1, b)" "bfc_ok blocks s1" "used s1 = used s"
      "bf_next_id s1 = bf_next_id s" "bf_limit s1 = bf_limit s" "bf_timing s1 = bf_timing s"
    using merged_ok [OF ok] by blast
  obtain t p where "FindChunkPtr (BinNumForSize n) n m fb s1 = Some (t, p)" "attempt_ok blocks n m s1 t p"
    using find_attempt [OF s1(2) n] by blast
  then show ?thesis using True s1(1) attempt_after [OF s1(3-6)] attempt_none [OF s1(2)]
    by (cases b) (auto simp: try_forced_merge_def)
next
  case False
  then show ?thesis using attempt_none [OF ok] by (auto simp: try_forced_merge_def)
qed

lemma collected_attempt:
  assumes ok: "bfc_ok blocks s"
  shows "\<exists>t p. try_collected alloc free a n m fb s = Some (t, p) \<and> attempt_ok blocks n m s t p"
  using attempt_none [OF ok] bfc_okD(4) [OF ok] by (simp add: try_collected_def DeallocateFreeRegions_def)

lemma or_else_attempt:
  assumes m: "\<exists>t p. x = Some (t, p) \<and> attempt_ok blocks n m s t p"
    and nxt: "\<And>t. bfc_ok blocks t \<Longrightarrow> \<exists>u p. y t = Some (u, p) \<and> attempt_ok blocks n m t u p"
  shows "\<exists>t p. or_else x y = Some (t, p) \<and> attempt_ok blocks n m s t p"
proof -
  obtain t p where t: "x = Some (t, p)" "attempt_ok blocks n m s t p" using m by blast
  show ?thesis
  proof (cases "p = 0")
    case True
    then have same: "used t = used s" "bf_next_id t = bf_next_id s" "bf_limit t = bf_limit s" "bf_timing t = bf_timing s"
      and "bfc_ok blocks t" using t(2) by (simp_all add: attempt_ok_def)
    then obtain u q where "y t = Some (u, q)" "attempt_ok blocks n m t u q" using nxt by blast
    then show ?thesis using True t(1) attempt_after [OF same] by (auto simp: or_else_def)
  next
    case False
    then show ?thesis using t by (simp add: or_else_def)
  qed
qed

lemma AllocateRawInternal_ok:
  assumes ok: "bfc_ok blocks s" and sub: "sub_allocator_ok alloc free blocks"
    and m: "0 < m" "m + 255 < 2 ^ 64"
  shows "(AllocateRawInternal alloc free frontier a m fb s = None \<and> stuck alloc a (RoundedBytes m) s
      \<and> (\<not> bf_timing s \<longrightarrow> (\<forall>k\<in>free_chunks s. ck_size (chunk_of s k) < RoundedBytes m)))
    \<or> (\<exists>t p. AllocateRawInternal alloc free frontier a m fb s = Some (t, p)
      \<and> attempt_ok blocks (RoundedBytes m) m s t p)"
proof -
  let ?n = "RoundedBytes m" and ?run = "AllocateRawInternal alloc free frontier a m fb s"
  have n: "0 < ?n" "256 dvd ?n" using RoundedBytes_bounds [OF m(2)] m(1) by auto
  obtain s1 where s1: "(if bf_queue s \<noteq> [] then map_option fst (MergeTimestampedChunks (frontier False) 0 s)
               else Some s) = Some s1" "bfc_ok blocks s1" "used s1 = used s" "bf_next_id s1 = bf_next_id s"
      "bf_limit s1 = bf_limit s" "bf_timing s1 = bf_timing s" "stuck alloc a ?n s1 = stuck alloc a ?n s" "bf_queue s = [] \<longrightarrow> s1 = s"
    using merged_ok [OF ok, of "frontier False" 0] ok by (cases "bf_queue s = []") (auto simp: stuck_def)
  let ?ext = "try_extended alloc a ?n m fb" and ?more = "\<lambda>x. or_else (or_else x (try_forced_merge (frontier True) ?n m fb))
    (try_collected alloc free a ?n m fb)"
  have run: "?run = ?more (or_else (FindChunkPtr (BinNumForSize ?n) ?n m fb s1) ?ext)"
    using m(1) s1(1) by (simp add: AllocateRawInternal_def Let_def)
  have rest: "\<exists>t p. ?more x = Some (t, p) \<and> attempt_ok blocks ?n m s1 t p"
    if "\<exists>t p. x = Some (t, p) \<and> attempt_ok blocks ?n m s1 t p" for x
    by (intro or_else_attempt forced_attempt collected_attempt that n)
  show ?thesis
  proof (cases rule: FindChunkPtr_ok [OF bfc_okD(1) [OF s1(2)] n, of m fb, case_names found none])
    case (found t h)
    then have "attempt_ok blocks ?n m s1 t (ck_ptr (chunk_of s1 h))" "ck_ptr (chunk_of s1 h) \<noteq> 0"
      using attempt_gives [OF s1(2)] by (auto simp: gives_def)
    then have "\<exists>t p. ?run = Some (t, p) \<and> attempt_ok blocks ?n m s1 t p"
      unfolding run by (intro rest) (use found(1) in \<open>simp add: or_else_def\<close>)
    then show ?thesis using attempt_after [OF s1(3-6)] by blast
  next
    case none
    then have run': "?run = ?more (?ext s1)" by (simp add: run or_else_def)
    show ?thesis
    proof (cases "?ext s1")
      case None
      then have "stuck alloc a ?n s" using extended_attempt [OF s1(2) sub n, of a m fb] s1(7) by simp
      moreover have "ck_size (chunk_of s k) < ?n" if "\<not> bf_timing s" "k \<in> free_chunks s" for k
      proof -
        have "s1 = s" "ck_freed_at (chunk_of s k) = 0"
          using bfc_invD(6) [OF bfc_okD(1) [OF ok]] that s1(8) by (auto simp: times_ok_def free_chunks_def)
        then show ?thesis using none(2) [of k] that(2) by (simp add: fits_def linorder_not_le [symmetric])
      qed
      ultimately show ?thesis using None run' by (simp add: or_else_def)
    next
      case (Some r)
      then have "\<exists>t p. ?ext s1 = Some (t, p) \<and> attempt_ok blocks ?n m s1 t p"
        using extended_attempt [OF s1(2) sub n, of a m fb] by simp
      then show ?thesis using rest [of "?ext s1"] attempt_after [OF s1(3-6)] unfolding run' by blast
    qed
  qed
qed

end
