(* ===== verification/BFC_History.thy ===== *)
theory BFC_History
  imports BFC_Alloc
begin

text \<open>
  The histories of a \<open>BFCAllocator\<close> without garbage collection: construction with a limit below
  2^58 bytes over a sub-allocator that has given nothing yet, allocations,
  deallocations of blocks in use, moves of the safe frontier and of the statistics, in any
  order. An allocation may be of any size up to 2^64 - 256 bytes, above which its rounding wraps,
  and is a step when it comes back. Every state of such a history satisfies \<open>bfc_ok\<close>.
\<close>

section \<open>The bins\<close>

lemma log2_loop_range: "2 ^ k \<le> n \<Longrightarrow> n < 2 ^ (k + 1) \<Longrightarrow> log2_loop 0 n = int k + 1"
proof (induction k arbitrary: n)
  case 0
  then have "n = 1" by simp
  then show ?case by (simp add: log2_unfold log2_loop.simps [of 0 0])
next
  case (Suc k)
  have "0 < n" using Suc.prems(1) by (auto intro: gr0I)
  moreover have "log2_loop 0 (n div 2) = int k + 1" by (rule Suc.IH) (use Suc.prems in auto)
  ultimately show ?case by (simp add: log2_unfold)
qed

lemma log2_bits: "0 < n \<Longrightarrow> \<exists>k. 2 ^ k \<le> n \<and> n < 2 ^ (k + 1) \<and> log2_loop 0 n = int k + 1"
proof (induction n rule: less_induct)
  case (less n)
  show ?case
  proof (cases "n = 1")
    case True
    then show ?thesis using log2_loop_range [of 0 n] by (intro exI [of _ 0]) simp
  next
    case False
    then have "n div 2 < n" "0 < n div 2" using less.prems by auto
    then obtain k where "2 ^ k \<le> n div 2" "n div 2 < 2 ^ (k + 1)" using less.IH by blast
    then have "2 ^ (k + 1) \<le> n \<and> n < 2 ^ (k + 1 + 1)" by auto
    then show ?thesis using log2_loop_range [of "k + 1" n] by blast
  qed
qed

text \<open>The bin of a size: bin b starts at \<open>256 * 2 ^ b\<close>, and the last one has no end.\<close>

lemma BinNumForSize_range:
  assumes "b \<le> 20" "256 * 2 ^ b \<le> n" "b < 20 \<Longrightarrow> n < 512 * 2 ^ b"
  shows "BinNumForSize n = b"
proof -
  have n: "256 \<le> n" using assms(2) one_le_power [of "2 :: nat" b] by linarith
  have lo: "2 ^ b \<le> n div 256" using assms(2) by (simp add: less_eq_div_iff_mult_less_eq)
  then have "0 < n div 256" by (auto intro: gr0I)
  then obtain k where k: "2 ^ k \<le> n div 256" "n div 256 < 2 ^ (k + 1)" "log2_loop 0 (n div 256) = int k + 1"
    using log2_bits by blast
  have num: "BinNumForSize n = min 20 k"
    using n k(3) by (simp add: BinNumForSize_def Log2FloorNonZero_def kMinAllocationBits_def kNumBins_def max_def)
  have "(2 :: nat) ^ b < 2 ^ (k + 1)" using lo k(2) by linarith
  then have "b < k + 1" by (rule power_less_imp_less_exp [rotated]) simp
  then have bk: "b \<le> k" by simp
  show ?thesis
  proof (cases "b < 20")
    case True
    then have "n div 256 < 2 ^ (b + 1)" using assms(3) by (simp add: div_less_iff_less_mult)
    then have "(2 :: nat) ^ k < 2 ^ (b + 1)" using k(1) by linarith
    then have "k < b + 1" by (rule power_less_imp_less_exp [rotated]) simp
    then show ?thesis using bk True num by simp
  next
    case False
    then show ?thesis using bk assms(1) num by simp
  qed
qed

lemma BinNumToSize_eq: "b < kNumBins \<Longrightarrow> BinNumToSize b = 256 * 2 ^ b" "b < kNumBins \<Longrightarrow> 256 * 2 ^ b \<le> (2 :: nat) ^ 28"
proof -
  assume b: "b < kNumBins"
  have "(2 :: nat) ^ b \<le> 2 ^ 20" by (rule power_increasing) (use b in \<open>simp_all add: kNumBins_def\<close>)
  then have "256 * 2 ^ b \<le> 256 * (2 :: nat) ^ 20" by simp
  then show "256 * 2 ^ b \<le> (2 :: nat) ^ 28" by simp
  then show "BinNumToSize b = 256 * 2 ^ b" by (simp add: BinNumToSize_def u64_def)
qed

lemma bins_checked: bins_checked
  unfolding bins_checked_def
proof (intro allI impI conjI)
  fix b assume b: "b < kNumBins"
  note e = BinNumToSize_eq [OF b]
  have p: "(1 :: nat) \<le> 2 ^ b" by simp
  have b20: "b \<le> 20" using b by (simp add: kNumBins_def)
  show "BinNumForSize (BinNumToSize b) = b" by (rule BinNumForSize_range) (use e b20 in simp_all)
  have w: "u64 (BinNumToSize b + 255) = 256 * 2 ^ b + 255" using e by (simp add: u64_def)
  show "BinNumForSize (u64 (BinNumToSize b + 255)) = b"
    unfolding w by (rule BinNumForSize_range [OF b20]) (use p in linarith)+
  have d: "u64 (BinNumToSize b * 2) = 512 * 2 ^ b" using e by (simp add: u64_def)
  have s: "sub64 (512 * 2 ^ b) 1 = 512 * 2 ^ b - 1" by (rule sub64_eq) (use e(2) p in \<open>simp_all\<close>)
  show "BinNumForSize (sub64 (u64 (BinNumToSize b * 2)) 1) = b"
    unfolding d s by (rule BinNumForSize_range [OF b20]) (use p in linarith)+
  assume "b + 1 < kNumBins"
  then have "BinNumForSize (512 * 2 ^ b) = b + 1" by (intro BinNumForSize_range) (simp_all add: kNumBins_def)
  then show "BinNumForSize (u64 (BinNumToSize b * 2)) \<noteq> b" unfolding d by simp
qed

section \<open>Construction\<close>

lemma new_bfc_Some: "\<exists>s. new_bfc sub l growth gc = Some s"
  by (simp add: new_bfc_def bins_checked)

lemma new_bfc_ok:
  assumes new: "new_bfc sub lim growth False = Some s0" and sub: "blocks sub = {}" and lim: "lim < 2 ^ 58"
  shows "bfc_ok blocks (s0\<lparr>bf_timing := timed\<rparr>)" "used s0 = Map.empty" "bf_limit s0 = lim"
proof -
  let ?s = "s0\<lparr>bf_timing := timed\<rparr>"
  define m where "m = (if growth then min lim 1048576 else lim)"
  have s0: "s0 = \<lparr>bf_sub = sub, bf_limit = lim, bf_curr = RoundedBytes m,
        bf_total = 0, bf_backpedal = False, bf_gc = False, bf_timing = False,
        bf_queue = [], bf_frontier = 0, bf_regions = [], bf_chunks = [], bf_free = None,
        bf_bins = replicate kNumBins [], bf_next_id = 1,
        bf_stats = \<lparr>num_allocs = 0, bytes_in_use = 0, peak_bytes_in_use = 0, largest_alloc_size = 0\<rparr>\<rparr>"
    using new by (auto simp: new_bfc_def m_def split: if_splits)
  have m: "m \<le> lim" "m + 255 < 2 ^ 64" "0 < lim \<Longrightarrow> 0 < m" using lim by (auto simp: m_def)
  note r = RoundedBytes_bounds [OF m(2)]
  have tab: "table ?s = Map.empty" by (rule ext) (simp add: s0 hmap_def)
  have live: "live ?s = {}" unfolding tab by simp
  show "used s0 = Map.empty" by (rule ext) (simp add: used_def s0 hmap_def)
  show "bf_limit s0 = lim" by (simp add: s0)
  have "geo (shapes ?s) (table ?s) (\<lambda>h. ck_ptr (chunk_of ?s h)) (\<lambda>h. ck_size (chunk_of ?s h))
         (\<lambda>h. ck_next (chunk_of ?s h)) (\<lambda>h. ck_prev (chunk_of ?s h))"
    unfolding tab by (simp add: geo_parts s0)
  then have "layout ?s" unfolding layout_def live by (simp add: regions_ok_def s0)
  moreover have "spare ?s" unfolding spare_def live by (auto simp: s0 intro: exI [of _ "[]"])
  moreover have "bins_ok {} ?s" unfolding bins_ok_def live by (simp add: s0)
  moreover have "ids_ok ?s" unfolding ids_ok_def live by (simp add: s0)
  moreover have "totals_ok ?s" unfolding totals_ok_def used_bytes_def live using r lim by (simp add: s0)
  moreover have "times_ok ?s" unfolding times_ok_def live by (simp add: s0)
  moreover have "coalesced {} ?s" unfolding coalesced_def live by simp
  moreover have "stale_ok ?s" by (simp add: stale_ok_def s0)
  ultimately have inv: "bfc_inv {} ?s" by (simp add: bfc_inv_def)
  have "0 < RoundedBytes m" if "0 < lim div 256"
  proof -
    have "0 < lim" using that by (auto intro: gr0I)
    then show ?thesis using m(3) r(2) by simp
  qed
  then have "curr_ok ?s"
    using available_bytes_eq [OF bfc_invD(5) [OF inv]] r m lim by (auto simp: curr_ok_def s0)
  then show "bfc_ok blocks ?s" using inv sub by (simp add: bfc_ok_def s0)
qed

section \<open>Histories\<close>

inductive bfc_reach ::
  "(nat \<Rightarrow> nat \<Rightarrow> 's \<Rightarrow> nat \<times> 's) \<Rightarrow> (nat \<Rightarrow> nat \<Rightarrow> 's \<Rightarrow> 's) \<Rightarrow> ('s \<Rightarrow> (nat \<times> nat) set) \<Rightarrow> 's bfc \<Rightarrow> bool"
  for alloc free blocks where
  start: "new_bfc sub lim growth False = Some s \<Longrightarrow> blocks sub = {} \<Longrightarrow> lim < 2 ^ 58
    \<Longrightarrow> bfc_reach alloc free blocks s"
| start_timed: "new_bfc sub lim growth False = Some s \<Longrightarrow> blocks sub = {} \<Longrightarrow> lim < 2 ^ 58
    \<Longrightarrow> bfc_reach alloc free blocks (SetTimingCounter s)"
| alloc: "bfc_reach alloc free blocks s \<Longrightarrow> m + 255 < 2 ^ 64
    \<Longrightarrow> AllocateRawInternal alloc free frontier a m fb s = Some (t, p) \<Longrightarrow> bfc_reach alloc free blocks t"
| free: "bfc_reach alloc free blocks s \<Longrightarrow> used s p \<noteq> None
    \<Longrightarrow> DeallocateRaw tick p s = Some t \<Longrightarrow> bfc_reach alloc free blocks t"
| free_null: "bfc_reach alloc free blocks s
    \<Longrightarrow> DeallocateRaw tick 0 s = Some t \<Longrightarrow> bfc_reach alloc free blocks t"
| frontier: "bfc_reach alloc free blocks s \<Longrightarrow> bfc_reach alloc free blocks (SetSafeFrontier c s)"
| clear: "bfc_reach alloc free blocks s \<Longrightarrow> bfc_reach alloc free blocks (ClearStats s)"

inductive_cases bfc_reachE: "bfc_reach alloc free blocks s"

lemma frontier_ok:
  assumes "bfc_ok blocks s"
  shows "bfc_ok blocks (SetSafeFrontier c s)"
proof -
  have "same_config s (SetSafeFrontier c s)" "bfc_inv {} (SetSafeFrontier c s)"
    using bfc_inv_config(3) [OF bfc_okD(1) [OF assms], of c] bfc_okD(1) [OF assms]
    by (simp_all add: SetSafeFrontier_def same_config_def)
  then show ?thesis by (rule bfc_ok_config [OF assms])
qed

lemma bfc_inv_stats:
  assumes "bfc_inv X s" "bytes_in_use st = bytes_in_use (bf_stats s)"
  shows "bfc_inv X (s\<lparr>bf_stats := st\<rparr>)"
proof -
  note d = bfc_invD [OF assms(1)]
  have "totals_ok (s\<lparr>bf_stats := st\<rparr>)" using d(5) assms(2) by (simp add: totals_ok_def used_bytes_def)
  moreover have "layout (s\<lparr>bf_stats := st\<rparr>)" using d(1) by (simp add: layout_def)
  moreover have "spare (s\<lparr>bf_stats := st\<rparr>)" using d(2) by (simp add: spare_def)
  moreover have "bins_ok X (s\<lparr>bf_stats := st\<rparr>)" using d(3) by (simp add: bins_ok_def)
  moreover have "ids_ok (s\<lparr>bf_stats := st\<rparr>)" using d(4) by (simp add: ids_ok_def)
  moreover have "times_ok (s\<lparr>bf_stats := st\<rparr>)" "coalesced X (s\<lparr>bf_stats := st\<rparr>)" "stale_ok (s\<lparr>bf_stats := st\<rparr>)"
    using d(6-8) by (simp_all add: times_ok_def coalesced_def stale_ok_def)
  ultimately show ?thesis by (simp add: bfc_inv_def)
qed

lemma clear_ok:
  assumes "bfc_ok blocks s"
  shows "bfc_ok blocks (ClearStats s)"
proof -
  have "same_config s (ClearStats s)" "bfc_inv {} (ClearStats s)"
    using bfc_inv_stats [OF bfc_okD(1) [OF assms]] by (simp_all add: ClearStats_def same_config_def)
  then show ?thesis by (rule bfc_ok_config [OF assms])
qed

lemma dealloc_ok:
  assumes ok: "bfc_ok blocks s" and u: "used s p \<noteq> None"
  shows "\<exists>t. DeallocateRaw tick p s = Some t \<and> bfc_ok blocks t \<and> used t = (used s)(p := None)
    \<and> bf_timing t = bf_timing s \<and> bf_limit t = bf_limit s"
proof -
  obtain b where "used s p = Some b" using u by blast
  then obtain t where t: "DeallocateRaw tick p s = Some t" "bfc_inv {} t" "used t = (used s)(p := None)"
    "same_config s t" "bf_next_id t = bf_next_id s"
    using DeallocateRaw_ok [OF bfc_okD(1) [OF ok]] by metis
  then show ?thesis using bfc_ok_config [OF ok t(4,2)] by (simp add: same_config_def)
qed

lemma bfc_reach_ok:
  assumes "bfc_reach alloc free blocks s" and sub: "sub_allocator_ok alloc free blocks"
  shows "bfc_ok blocks s"
  using assms(1)
proof (induction rule: bfc_reach.induct)
  case (start sb lim growth s)
  then show ?case using new_bfc_ok(1) [of sb lim growth s blocks False] by (auto simp: new_bfc_def split: if_splits)
next
  case (start_timed sb lim growth s)
  then show ?case using new_bfc_ok(1) [of sb lim growth s blocks True] by (simp add: SetTimingCounter_def)
next
  case (alloc s m frontier a fb t p)
  show ?case
  proof (cases "m = 0")
    case True
    then show ?thesis using alloc by (simp add: AllocateRawInternal_def)
  next
    case False
    then show ?thesis using AllocateRawInternal_ok [OF alloc.IH sub _ alloc.hyps(2), of frontier a fb] alloc.hyps(3)
      by (auto simp: attempt_ok_def)
  qed
next
  case (free s p tick t)
  then show ?case using dealloc_ok [OF free.IH free.hyps(2), of tick] by auto
next
  case (free_null s tick t)
  then show ?case by (simp add: DeallocateRaw_def)
qed (simp_all add: frontier_ok clear_ok)

end
