(* ===== verification/BFC_Samples.thy ===== *)
theory BFC_Samples
  imports BFC_History
begin

text \<open>
  A small sub-allocator, and an allocator of 4096 bytes over it, before and after one
  request: concrete states on which the properties are applied.
\<close>

definition stack_alloc :: "nat \<Rightarrow> nat \<Rightarrow> (nat \<times> nat) list \<Rightarrow> nat \<times> (nat \<times> nat) list" where
  "stack_alloc alignment n bs =
     (let p = foldr (\<lambda>(q, k). max (q + k)) bs 4096
      in if p + n \<le> 2 ^ 40 then (p, (p, n) # bs) else (0, bs))"

definition stack_free :: "nat \<Rightarrow> nat \<Rightarrow> (nat \<times> nat) list \<Rightarrow> (nat \<times> nat) list" where
  "stack_free p n bs = removeAll (p, n) bs"

lemma stack_top: "(4096 :: nat) \<le> foldr (\<lambda>(q, k). max (q + k)) bs 4096"
  "(q, k) \<in> set bs \<Longrightarrow> q + k \<le> foldr (\<lambda>(q, k). max (q + k)) bs (4096 :: nat)"
  by (induction bs) (auto simp: max_def)

lemma stack_ok: "sub_allocator_ok stack_alloc stack_free set"
proof -
  have "(p = 0 \<longrightarrow> set t = set s)
        \<and> (p \<noteq> 0 \<longrightarrow> set t = insert (p, n) (set s) \<and> p + n < 2 ^ 64
             \<and> (\<forall>q m. (q, m) \<in> set s \<longrightarrow> p + n \<le> q \<or> q + m \<le> p))"
    if "stack_alloc a n s = (p, t)" for a n s p t
    using that stack_top(1) [of s] stack_top(2) [of _ _ s] by (auto simp: stack_alloc_def Let_def split: if_splits)
  then show ?thesis unfolding sub_allocator_ok_def stack_free_def by auto
qed

definition no_frontier :: "bool \<Rightarrow> nat \<Rightarrow> nat" where "no_frontier b h = 0"

definition pool0 :: "(nat \<times> nat) list bfc" where "pool0 = the (new_bfc [] 4096 False False)"

definition pool1 :: "(nat \<times> nat) list bfc" where
  "pool1 = \<lparr>bf_sub = [(4096, 4096)], bf_limit = 4096, bf_curr = 8192,
        bf_total = 4096, bf_backpedal = False, bf_gc = False, bf_timing = False,
        bf_queue = [], bf_frontier = 0,
        bf_regions = [\<lparr>rg_ptr = 4096, rg_size = 4096, rg_handles = Some 0 # replicate 15 None\<rparr>],
        bf_chunks = [\<lparr>ck_size = 4096, ck_requested = 3000, ck_id = 1, ck_ptr = 4096, ck_prev = None, ck_next = None,
                      ck_bin = None, ck_freed_at = 0\<rparr>],
        bf_free = None, bf_bins = replicate 21 [], bf_next_id = 2,
        bf_stats = \<lparr>num_allocs = 1, bytes_in_use = 4096, peak_bytes_in_use = 4096, largest_alloc_size = 4096\<rparr>\<rparr>"

lemma pool0_new: "new_bfc [] 4096 False False = Some pool0"
  using new_bfc_Some [of "[]" 4096 False False] unfolding pool0_def by (metis option.sel)

lemma pool0_reach: "bfc_reach stack_alloc stack_free set pool0"
  by (rule bfc_reach.start [OF pool0_new]) simp_all

lemma pool0_eq: "pool0 = \<lparr>bf_sub = [], bf_limit = 4096, bf_curr = 4096,
        bf_total = 0, bf_backpedal = False, bf_gc = False, bf_timing = False,
        bf_queue = [], bf_frontier = 0, bf_regions = [], bf_chunks = [], bf_free = None,
        bf_bins = replicate 21 [], bf_next_id = 1,
        bf_stats = \<lparr>num_allocs = 0, bytes_in_use = 0, peak_bytes_in_use = 0, largest_alloc_size = 0\<rparr>\<rparr>"
  by (simp add: pool0_def new_bfc_def bins_checked RoundedBytes_def u64_def sub64_def kMinAllocationSize_def kNumBins_def)

lemma rounded_3000: "RoundedBytes 3000 = 3072"
  by (simp add: RoundedBytes_def u64_def sub64_def kMinAllocationSize_def)

lemma bin_3072: "BinNumForSize 3072 = 3" "BinNumForSize 4096 = 4"
  by (rule BinNumForSize_range; simp)+

lemma pool0_alloc: "AllocateRawInternal stack_alloc stack_free no_frontier 64 3000 0 pool0 = Some (pool1, 4096)"
  apply (simp add: AllocateRawInternal_def rounded_3000 bin_3072 pool0_eq FindChunkPtr_def scan_bins.simps kNumBins_def Let_def)
  apply (simp add: or_else_def try_extended_def Extend_def available_bytes_def sub64_def u64_def kMinAllocationSize_def
    grow_region.simps request_region_def stack_alloc_def Let_def)
  apply (simp add: add_region_def AllocateChunk_def AddAllocationRegion_def upper_bound_region_def new_region_def
    kMinAllocationSize_def)
  apply (simp add: update_chunk_def ChunkFromHandle_def put_chunk_def set_region_handle_def set_handle_def RegionFor_def
    upper_bound_region_def IndexFor_def rg_end_def kMinAllocationBits_def InsertFreeChunkIntoBin_def in_use_def bin_3072
    put_bin_def new_chunk_def)
  apply (simp add: FindChunkPtr_def scan_bins.simps kNumBins_def bin_3072 ChunkFromHandle_def)
  apply (simp add: take_chunk_def RemoveFreeChunkIterFromBin_def ChunkFromHandle_def put_chunk_def put_bin_def in_use_def
    u64_def sub64_def kMaxInternalFragmentation_def stats_alloc_def pool1_def Let_def)
  apply (simp add: eval_nat_numeral)
  done

lemma pool1_reach: "bfc_reach stack_alloc stack_free set pool1"
  by (rule bfc_reach.alloc [OF pool0_reach _ pool0_alloc]) simp

lemma pool1_used: "used pool1 4096 = Some (4096, 3000, 1)"
  by (simp add: used_def pool1_def hmap_def rg_end_def in_use_def)

text \<open>The same allocator with its region and nothing handed out.\<close>

definition pool_free :: "(nat \<times> nat) list bfc" where
  "pool_free = pool1\<lparr>bf_chunks := [\<lparr>ck_size = 4096, ck_requested = 0, ck_id = - 1, ck_ptr = 4096, ck_prev = None,
       ck_next = None, ck_bin = Some 4, ck_freed_at = 0\<rparr>],
     bf_bins := (replicate 21 [])[4 := [0]], bf_next_id := 1,
     bf_stats := \<lparr>num_allocs = 0, bytes_in_use = 0, peak_bytes_in_use = 0, largest_alloc_size = 0\<rparr>\<rparr>"

lemma slots16: "(replicate 16 None)[0 := Some 0] = Some 0 # replicate 15 None"
  by (simp add: eval_nat_numeral)

lemma bins21: "(replicate 21 [])[4 := []] = replicate 21 []"
  by (simp add: eval_nat_numeral)

lemma pool0_extend: "n \<le> 4096 \<Longrightarrow> Extend stack_alloc 64 n pool0 = Some (pool_free, True)"
  apply (simp add: Extend_def pool0_eq available_bytes_def sub64_def u64_def kMinAllocationSize_def
    grow_region.simps request_region_def stack_alloc_def Let_def)
  apply (simp add: add_region_def AllocateChunk_def AddAllocationRegion_def upper_bound_region_def new_region_def
    kMinAllocationSize_def)
  apply (simp add: update_chunk_def ChunkFromHandle_def put_chunk_def set_region_handle_def set_handle_def RegionFor_def
    upper_bound_region_def IndexFor_def rg_end_def kMinAllocationBits_def InsertFreeChunkIntoBin_def in_use_def bin_3072
    put_bin_def new_chunk_def slots16 pool_free_def pool1_def u64_def)
  done

lemma rounded_max: "RoundedBytes (2 ^ 64 - 1) = 0"
  by (simp add: RoundedBytes_def u64_def sub64_def kMinAllocationSize_def)

lemma bin_0: "BinNumForSize 0 = 0"
  by (simp add: BinNumForSize_def Log2FloorNonZero_def kMinAllocationBits_def kNumBins_def log2_loop_range [of 0])

lemma scan_skip:
  "(\<And>c. b \<le> c \<Longrightarrow> c < d \<Longrightarrow> bf_bins s ! c = []) \<Longrightarrow> b \<le> d \<Longrightarrow> d < kNumBins \<Longrightarrow> scan_bins s n fb b = scan_bins s n fb d"
proof (induction "d - b" arbitrary: b)
  case (Suc k)
  then have "scan_bins s n fb b = scan_bins s n fb (b + 1)" by (subst scan_bins.simps) simp
  also have "... = scan_bins s n fb d" by (rule Suc.hyps(1)) (use Suc in auto)
  finally show ?case .
qed simp

lemma scan_hit:
  assumes "\<And>c. b \<le> c \<Longrightarrow> c < d \<Longrightarrow> bf_bins s ! c = []" "b \<le> d" "d < kNumBins" "bf_bins s ! d = [h]"
    and "h < length (bf_chunks s)" "n \<le> ck_size (chunk_of s h)"
  shows "scan_bins s n 0 b = Some (Some (d, h))"
proof -
  have "scan_bins s n 0 b = scan_bins s n 0 d" by (rule scan_skip [OF assms(1-3)])
  also have "... = Some (Some (d, h))" using assms(3-) by (subst scan_bins.simps [of s n 0 d], simp add: ChunkFromHandle_def)
  finally show ?thesis .
qed

lemma scan_free: "b \<le> 4 \<Longrightarrow> n \<le> 4096 \<Longrightarrow> scan_bins pool_free n 0 b = Some (Some (4, 0))"
  by (rule scan_hit) (simp_all add: pool_free_def pool1_def kNumBins_def)

lemma scan_none: "scan_bins pool0 n fb b = Some None"
proof (cases "b < kNumBins")
  case True
  have "scan_bins pool0 n fb b = scan_bins pool0 n fb 20"
    by (rule scan_skip) (use True in \<open>simp_all add: pool0_eq kNumBins_def\<close>)
  also have "... = Some None" by (simp add: scan_bins.simps pool0_eq kNumBins_def)
  finally show ?thesis .
qed (simp add: scan_bins.simps)

text \<open>Two requests of \<open>2 ^ 64 - 1\<close> bytes.\<close>

definition huge_chunk :: "nat \<Rightarrow> chunk" where
  "huge_chunk i = \<lparr>ck_size = 0, ck_requested = 2 ^ 64 - 1, ck_id = int i + 1, ck_ptr = 4096,
     ck_prev = (if i = 0 then None else Some (i - 1)), ck_next = Some (Suc i), ck_bin = None, ck_freed_at = 0\<rparr>"

definition last_chunk :: "nat \<Rightarrow> chunk" where
  "last_chunk k = \<lparr>ck_size = 4096, ck_requested = 0, ck_id = - 1, ck_ptr = 4096,
     ck_prev = (if k = 0 then None else Some (k - 1)), ck_next = None, ck_bin = Some 4, ck_freed_at = 0\<rparr>"

definition pool_huge :: "nat \<Rightarrow> (nat \<times> nat) list bfc" where
  "pool_huge k = pool_free\<lparr>bf_chunks := map huge_chunk [0..<k] @ [last_chunk k],
      bf_regions := [\<lparr>rg_ptr = 4096, rg_size = 4096, rg_handles = Some k # replicate 15 None\<rparr>],
      bf_bins := (replicate 21 [])[4 := [k]],
      bf_next_id := int k + 1,
      bf_stats := \<lparr>num_allocs = int k, bytes_in_use = 0, peak_bytes_in_use = 0, largest_alloc_size = 0\<rparr>\<rparr>"

lemma huge_found: "FindChunkPtr 0 0 (2 ^ 64 - 1) 0 (pool_huge k) = Some (pool_huge (Suc k), 4096)"
proof -
  have len: "length (bf_chunks (pool_huge k)) = Suc k" by (simp add: pool_huge_def)
  have ck: "chunk_of (pool_huge k) k = last_chunk k" by (simp add: pool_huge_def nth_append)
  have sc: "scan_bins (pool_huge k) 0 0 0 = Some (Some (4, k))"
    by (rule scan_hit) (simp_all add: len ck, simp_all add: pool_huge_def kNumBins_def)
  define s1 where "s1 = pool_free\<lparr>bf_chunks := map huge_chunk [0..<k] @ [(last_chunk k)\<lparr>ck_bin := None\<rparr>],
      bf_regions := [\<lparr>rg_ptr = 4096, rg_size = 4096, rg_handles = Some k # replicate 15 None\<rparr>],
      bf_bins := replicate 21 [],
      bf_next_id := int k + 1,
      bf_stats := \<lparr>num_allocs = int k, bytes_in_use = 0, peak_bytes_in_use = 0, largest_alloc_size = 0\<rparr>\<rparr>"
  have r: "RemoveFreeChunkIterFromBin 4 k (pool_huge k) = Some s1"
    by (simp add: RemoveFreeChunkIterFromBin_def ChunkFromHandle_def len ck in_use_def put_chunk_def put_bin_def last_chunk_def)
     (simp add: pool_huge_def s1_def bins21 list_update_append last_chunk_def)
  have c1: "length (bf_chunks s1) = Suc k" "chunk_of s1 k = (last_chunk k)\<lparr>ck_bin := None\<rparr>"
    by (simp_all add: s1_def nth_append)
  have r2: "SplitChunk k 0 s1 = Some ((pool_huge (Suc k))\<lparr>bf_chunks := map huge_chunk [0..<k] @
     [(huge_chunk k)\<lparr>ck_requested := 0, ck_id := - 1\<rparr>, last_chunk (Suc k)],
      bf_next_id := int k + 1,
      bf_stats := \<lparr>num_allocs = int k, bytes_in_use = 0, peak_bytes_in_use = 0, largest_alloc_size = 0\<rparr>\<rparr>)"
    by (simp add: SplitChunk_def AllocateChunk_def s1_def pool_free_def pool1_def ChunkFromHandle_def nth_append in_use_def
       update_chunk_def put_chunk_def set_region_handle_def set_handle_def RegionFor_def upper_bound_region_def IndexFor_def
       rg_end_def kMinAllocationBits_def last_chunk_def new_chunk_def list_update_append u64_def sub64_def InsertFreeChunkIntoBin_def
      bin_3072 put_bin_def pool_huge_def huge_chunk_def)
  show ?thesis
    by (simp add: FindChunkPtr_def sc take_chunk_def r c1 r2 u64_def sub64_def stats_alloc_def Let_def ChunkFromHandle_def
        nth_append put_chunk_def list_update_append last_chunk_def)
      (simp add: pool_huge_def huge_chunk_def last_chunk_def)
qed
text \<open>After the block of \<open>pool1\<close> is given back.\<close>

definition pool2 :: "(nat \<times> nat) list bfc" where
  "pool2 = pool_free\<lparr>bf_chunks := [(last_chunk 0)\<lparr>ck_requested := 3000\<rparr>], bf_next_id := 2,
     bf_stats := \<lparr>num_allocs = 1, bytes_in_use = 0, peak_bytes_in_use = 4096, largest_alloc_size = 4096\<rparr>\<rparr>"

lemma pool1_free: "DeallocateRaw 0 4096 pool1 = Some pool2"
  by (simp add: DeallocateRaw_def pool1_def get_handle_def RegionFor_def upper_bound_region_def IndexFor_def rg_end_def
    kMinAllocationBits_def MarkFree_def ChunkFromHandle_def in_use_def put_chunk_def TryToCoalesce_def coalesce_next_def
    coalesce_prev_def InsertFreeChunkIntoBin_def bin_3072 put_bin_def pool2_def pool_free_def last_chunk_def)

lemma pool2_reach: "bfc_reach stack_alloc stack_free set pool2"
  by (rule bfc_reach.free [OF pool1_reach _ pool1_free]) (simp add: pool1_used)

lemma pool2_facts: "\<not> bf_timing pool2" "used pool2 = Map.empty" "bf_sub pool2 = [(4096, 4096)]"
  "0 \<in> free_chunks pool2" "ck_size (bf_chunks pool2 ! 0) = 4096"
proof -
  have "table pool2 4096 = Some 0" by (simp add: pool2_def pool_free_def pool1_def hmap_def rg_end_def)
  then show "0 \<in> free_chunks pool2"
    by (auto simp: free_chunks_def ran_def pool2_def last_chunk_def in_use_def)
  obtain t where "DeallocateRaw 0 4096 pool1 = Some t" "used t = (used pool1)(4096 := None)"
    using dealloc_ok [OF bfc_reach_ok [OF pool1_reach stack_ok], of 4096 0] pool1_used by auto
  moreover have "used pool1 p = None" if "p \<noteq> 4096" for p
    using that by (auto simp: used_def pool1_def hmap_def rg_end_def in_use_def nth_Cons split: nat.splits)
  ultimately show "used pool2 = Map.empty" using pool1_free by (auto simp: fun_eq_iff)
qed (simp_all add: pool2_def pool_free_def pool1_def last_chunk_def)

text \<open>
  A sub-allocator with one megabyte, and an allocator that grows by regions of one megabyte,
  with its one region handed out.
\<close>

definition scarce_alloc :: "nat \<Rightarrow> nat \<Rightarrow> (nat \<times> nat) list \<Rightarrow> nat \<times> (nat \<times> nat) list" where
  "scarce_alloc alignment n bs =
     (let p = foldr (\<lambda>(q, k). max (q + k)) bs 4096
      in if p + n \<le> 1052672 then (p, (p, n) # bs) else (0, bs))"

lemma scarce_ok: "sub_allocator_ok scarce_alloc stack_free set"
proof -
  have "(p = 0 \<longrightarrow> set t = set s)
        \<and> (p \<noteq> 0 \<longrightarrow> set t = insert (p, n) (set s) \<and> p + n < 2 ^ 64
             \<and> (\<forall>q m. (q, m) \<in> set s \<longrightarrow> p + n \<le> q \<or> q + m \<le> p))"
    if "scarce_alloc a n s = (p, t)" for a n s p t
    using that stack_top(1) [of s] stack_top(2) [of _ _ s] by (auto simp: scarce_alloc_def Let_def split: if_splits)
  then show ?thesis unfolding sub_allocator_ok_def stack_free_def by auto
qed

definition small_pool :: "(nat \<times> nat) list bfc" where "small_pool = the (new_bfc [] 4194304 True False)"

lemma small_pool_new: "new_bfc [] 4194304 True False = Some small_pool"
  using new_bfc_Some [of "[]" 4194304 True False] unfolding small_pool_def by (metis option.sel)

lemma small_pool_eq: "small_pool = pool0\<lparr>bf_limit := 4194304, bf_curr := 1048576\<rparr>"
  by (simp add: small_pool_def pool0_eq new_bfc_def bins_checked RoundedBytes_def u64_def sub64_def kMinAllocationSize_def kNumBins_def)

definition grown :: "(nat \<times> nat) list bfc" where
  "grown = small_pool\<lparr>bf_sub := [(4096, 1048576)], bf_curr := 2097152, bf_total := 1048576,
        bf_regions := [\<lparr>rg_ptr = 4096, rg_size = 1048576, rg_handles = (replicate 4096 None)[0 := Some 0]\<rparr>],
        bf_chunks := [\<lparr>ck_size = 1048576, ck_requested = 1048576, ck_id = 1, ck_ptr = 4096, ck_prev = None, ck_next = None,
                      ck_bin = None, ck_freed_at = 0\<rparr>],
        bf_next_id := 2,
        bf_stats := \<lparr>num_allocs = 1, bytes_in_use = 1048576, peak_bytes_in_use = 1048576, largest_alloc_size = 1048576\<rparr>\<rparr>"

lemma bin_1048576: "BinNumForSize 1048576 = 12"
  by (rule BinNumForSize_range; simp)

lemma replicate_reset: "(replicate n x)[i := x] = replicate n x"
  by (induction n arbitrary: i) (simp_all split: nat.split)

lemma grown_alloc: "AllocateRawInternal scarce_alloc stack_free no_frontier 64 1048576 0 small_pool = Some (grown, 4096)"
proof -
  have r: "RoundedBytes 1048576 = 1048576" by (simp add: RoundedBytes_def u64_def sub64_def kMinAllocationSize_def)
  define s1 where "s1 = grown\<lparr>bf_chunks := [\<lparr>ck_size = 1048576, ck_requested = 0, ck_id = - 1, ck_ptr = 4096, ck_prev = None,
     ck_next = None, ck_bin = Some 12, ck_freed_at = 0\<rparr>], bf_bins := (replicate 21 [])[12 := [0]], bf_next_id := 1,
     bf_stats := \<lparr>num_allocs = 0, bytes_in_use = 0, peak_bytes_in_use = 0, largest_alloc_size = 0\<rparr>\<rparr>"
  have none: "scan_bins small_pool n fb b = Some None" for n fb b
  proof (cases "b < kNumBins")
    case True
    have "scan_bins small_pool n fb b = scan_bins small_pool n fb 20"
      by (rule scan_skip) (use True in \<open>simp_all add: small_pool_eq pool0_eq kNumBins_def\<close>)
    also have "... = Some None" by (simp add: scan_bins.simps small_pool_eq pool0_eq kNumBins_def)
    finally show ?thesis .
  qed (simp add: scan_bins.simps)
  have ext: "Extend scarce_alloc 64 1048576 small_pool = Some (s1, True)"
    apply (simp add: Extend_def small_pool_eq pool0_eq available_bytes_def sub64_def u64_def kMinAllocationSize_def
      grow_region.simps request_region_def scarce_alloc_def Let_def)
    apply (simp add: add_region_def AllocateChunk_def AddAllocationRegion_def upper_bound_region_def new_region_def
      kMinAllocationSize_def)
    apply (simp add: update_chunk_def ChunkFromHandle_def put_chunk_def set_region_handle_def set_handle_def RegionFor_def
      upper_bound_region_def IndexFor_def rg_end_def kMinAllocationBits_def InsertFreeChunkIntoBin_def in_use_def bin_1048576
      put_bin_def new_chunk_def s1_def grown_def small_pool_eq pool0_eq u64_def)
    done
  have hit: "scan_bins s1 1048576 0 12 = Some (Some (12, 0))"
    by (rule scan_hit) (simp_all add: s1_def grown_def small_pool_eq pool0_eq kNumBins_def)
  have "FindChunkPtr 12 1048576 1048576 0 s1 = Some (grown, 4096)"
    apply (simp add: FindChunkPtr_def hit)
    apply (simp add: s1_def grown_def small_pool_eq pool0_eq take_chunk_def RemoveFreeChunkIterFromBin_def ChunkFromHandle_def
      put_chunk_def put_bin_def in_use_def u64_def sub64_def kMaxInternalFragmentation_def stats_alloc_def Let_def replicate_reset)
    done
  moreover have "FindChunkPtr 12 1048576 1048576 0 small_pool = Some (small_pool, 0)" by (simp add: FindChunkPtr_def none)
  moreover have "bf_queue small_pool = []" by (simp add: small_pool_eq pool0_eq)
  ultimately show ?thesis by (simp add: AllocateRawInternal_def r bin_1048576 or_else_def try_extended_def ext)
qed

lemma grown_reach: "bfc_reach scarce_alloc stack_free set grown"
  by (rule bfc_reach.alloc [OF bfc_reach.start [OF small_pool_new] _ grown_alloc]) simp_all

lemma grown_free: "free_chunks grown = {}"
proof -
  have l: "layout grown" by (rule bfc_invD(1) [OF bfc_okD(1) [OF bfc_reach_ok [OF grown_reach scarce_ok]]])
  have "in_use (chunk_of grown h)" if "h \<in> live grown" for h
    using layout_live [OF l that] by (simp add: grown_def in_use_def)
  then show ?thesis by (auto simp: free_chunks_def)
qed

end
