(* ===== verification/BFC_Props.thy ===== *)
theory BFC_Props
  imports BFC_Samples
begin

text \<open>
  The properties of the BFC allocator: what a client may rely on in every history, where the
  choice of a chunk is optimal, and the requests for which the code does not do what it should.
\<close>

section \<open>Lemmas\<close>

text \<open>The accounting in terms of the blocks a client holds.\<close>

lemma used_bytes_dom:
  assumes l: "layout s"
  shows "used_bytes s = (\<Sum>p\<in>dom (used s). int (fst (the (used s p))))"
proof -
  note g = layout_geo [OF l]
  let ?U = "{h \<in> live s. in_use (chunk_of s h)}"
  have at: "used s (ck_ptr (chunk_of s h)) = Some (ck_size (chunk_of s h), ck_requested (chunk_of s h), ck_id (chunk_of s h))"
    if "h \<in> ?U" for h
    using that geo_slot [OF g, of h] by (simp add: used_Some)
  have inj: "inj_on (\<lambda>h. ck_ptr (chunk_of s h)) ?U"
  proof (rule inj_onI)
    fix x y assume xy: "x \<in> ?U" "y \<in> ?U" and eq: "ck_ptr (chunk_of s x) = ck_ptr (chunk_of s y)"
    have "table s (ck_ptr (chunk_of s x)) = Some x" by (rule geo_slot [OF g]) (use xy in blast)
    moreover have "table s (ck_ptr (chunk_of s y)) = Some y" by (rule geo_slot [OF g]) (use xy in blast)
    ultimately show "x = y" unfolding eq by (metis option.inject)
  qed
  have im: "dom (used s) = (\<lambda>h. ck_ptr (chunk_of s h)) ` ?U"
  proof
    show "(\<lambda>h. ck_ptr (chunk_of s h)) ` ?U \<subseteq> dom (used s)" using at by auto
    show "dom (used s) \<subseteq> (\<lambda>h. ck_ptr (chunk_of s h)) ` ?U"
    proof
      fix p assume "p \<in> dom (used s)"
      then obtain n r i where "used s p = Some (n, r, i)" by auto
      then obtain h where h: "table s p = Some h" "in_use (chunk_of s h)" by (auto simp: used_Some)
      then show "p \<in> (\<lambda>h. ck_ptr (chunk_of s h)) ` ?U"
        using geo_ptr [OF g h(1)] by (intro image_eqI [of _ _ h]) (auto simp: ran_def)
    qed
  qed
  show ?thesis unfolding used_bytes_def im by (subst sum.reindex [OF inj]) (use at in simp)
qed

lemma used_ids:
  assumes inv: "bfc_inv X s" and u: "used s p = Some (n, r, i)" "used s q = Some (m, r', i)"
  shows "p = q"
proof -
  note g = layout_geo [OF bfc_invD(1) [OF inv]]
  obtain h k where h: "table s p = Some h" "in_use (chunk_of s h)" "ck_id (chunk_of s h) = i"
    and k: "table s q = Some k" "ck_id (chunk_of s k) = i"
    using u by (auto simp: used_Some)
  have "h \<in> live s" "k \<in> live s" using h(1) k(1) by (auto simp: ran_def)
  then have "h = k" using bfc_invD(4) [OF inv] h k unfolding ids_ok_def by metis
  then show ?thesis using geo_ptr [OF g h(1)] geo_ptr [OF g k(1)] by simp
qed

text \<open>The block of a successful attempt, beside those handed out before.\<close>

lemma attempt_block:
  assumes t: "attempt_ok blocks (RoundedBytes m) m s t p" "p \<noteq> 0" and m: "m + 255 < 2 ^ 64"
  shows "\<exists>n\<ge>m. used t = (used s)(p \<mapsto> (n, m, bf_next_id s)) \<and> n < 2 * RoundedBytes m
    \<and> (\<forall>q k x i. used s q = Some (k, x, i) \<longrightarrow> p + n \<le> q \<or> q + k \<le> p)"
proof -
  have lt: "layout t" using t(1) bfc_okD(1) bfc_invD(1) unfolding attempt_ok_def by blast
  obtain n where n: "used t = (used s)(p := Some (n, m, bf_next_id s))" "used s p = None" "RoundedBytes m \<le> n"
    "n < 2 * RoundedBytes m" using t by (auto simp: attempt_ok_def)
  have "p + n \<le> q \<or> q + k \<le> p" if q: "used s q = Some (k, x, i)" for q k x i
  proof -
    have "p \<noteq> q" using n(2) q by auto
    then show ?thesis using used_disjoint [OF lt, of p n m "bf_next_id s" q k x i] n(1) q by simp
  qed
  moreover have "m \<le> n" using n(3) RoundedBytes_bounds(2) [OF m] by simp
  ultimately show ?thesis using n(1,4) by blast
qed

text \<open>The retreat of \<open>Extend\<close> from a sub-allocator that has nothing left.\<close>

lemma retreat_floor:
  assumes "256 dvd b" "2304 < b" "b + 255 < 2 ^ 64"
  shows "2304 \<le> RoundedBytes (times_backpedal b)"
proof -
  have b: "2560 \<le> b" using assms(1,2) by (auto elim!: dvdE)
  have "899999 * b < 10 ^ 6 * (times_backpedal b + 1)" by (rule times_backpedal_lower)
  then have "2303 < times_backpedal b + 1" using b by simp
  moreover have "times_backpedal b + 255 < 2 ^ 64" using times_backpedal_le [of b] assms(3) by simp
  moreover have "256 dvd RoundedBytes (times_backpedal b)" "times_backpedal b \<le> RoundedBytes (times_backpedal b)"
    using RoundedBytes_bounds [OF \<open>times_backpedal b + 255 < 2 ^ 64\<close>] by auto
  ultimately show ?thesis by (auto elim!: dvdE)
qed

lemma backpedal_never_ends:
  assumes ref: "\<And>t b. spent t \<Longrightarrow> n \<le> b \<Longrightarrow> fst (alloc a b t) = 0 \<and> spent (snd (alloc a b t))" and n: "0 < n" "n \<le> 2304"
  shows "256 dvd b \<Longrightarrow> b + 255 < 2 ^ 64 \<Longrightarrow> n \<le> b \<Longrightarrow> spent t \<Longrightarrow> backpedal_loop alloc a n b t = None"
proof -
  have "False" if "backpedal_loop alloc a n b t = Some r" "256 dvd b" "b + 255 < 2 ^ 64" "n \<le> b" "spent t" for b t r
  proof -
    have "(\<forall>t b. spent t \<longrightarrow> n \<le> b \<longrightarrow> fst (alloc a b t) = 0 \<and> spent (snd (alloc a b t))) \<longrightarrow> 0 < n \<longrightarrow> n \<le> 2304
      \<longrightarrow> 256 dvd b \<longrightarrow> b + 255 < 2 ^ 64 \<longrightarrow> n \<le> b \<longrightarrow> spent t \<longrightarrow> False"
    proof (rule backpedal_loop.raw_induct [where P = "\<lambda>alloc a n b t r. (\<forall>t b. spent t \<longrightarrow> n \<le> b \<longrightarrow> fst (alloc a b t) = 0
          \<and> spent (snd (alloc a b t))) \<longrightarrow> 0 < n \<longrightarrow> n \<le> 2304 \<longrightarrow> 256 dvd b \<longrightarrow> b + 255 < 2 ^ 64 \<longrightarrow> n \<le> b \<longrightarrow> spent t \<longrightarrow> False",
          OF _ that(1)], intro impI)
      fix f alloc a n b t r
      assume IH: "\<And>alloc a n b t r. f alloc a n b t = Some r \<Longrightarrow> (\<forall>t b. spent t \<longrightarrow> n \<le> b \<longrightarrow> fst (alloc a b t) = 0
          \<and> spent (snd (alloc a b t))) \<longrightarrow> 0 < n \<longrightarrow> n \<le> 2304 \<longrightarrow> 256 dvd b \<longrightarrow> b + 255 < 2 ^ 64 \<longrightarrow> n \<le> b \<longrightarrow> spent t \<longrightarrow> False"
        and eq: "(let bytes' = RoundedBytes (times_backpedal b)
          in if bytes' < n then Some (bytes', 0, t)
             else case alloc a bytes' t of (mem_addr, sub') \<Rightarrow>
               if mem_addr \<noteq> 0 then Some (bytes', mem_addr, sub') else f alloc a n bytes' sub') = Some r"
        and ref: "\<forall>t b. spent t \<longrightarrow> n \<le> b \<longrightarrow> fst (alloc a b t) = 0 \<and> spent (snd (alloc a b t))"
        and n: "0 < n" "n \<le> 2304" and b: "256 dvd b" "b + 255 < 2 ^ 64" "n \<le> b" and t: "spent t"
      define b1 where "b1 = RoundedBytes (times_backpedal b)"
      have b1: "b1 \<le> b" "256 dvd b1" using retreat_unit [OF b(1,2)] by (simp_all add: b1_def)
      have "n \<le> b1"
      proof (cases "b \<le> 2304")
        case True
        then show ?thesis using retreat_stuck [OF b(1) True] n b(3) by (simp add: b1_def)
      next
        case False
        then show ?thesis using retreat_floor [OF b(1) _ b(2)] n(2) by (simp add: b1_def)
      qed
      moreover obtain t1 where "alloc a b1 t = (0, t1)" "spent t1" using ref t calculation by (metis prod.collapse)
      ultimately have "f alloc a n b1 t1 = Some r" "spent t1" "n \<le> b1" using eq by (simp_all add: b1_def [symmetric])
      moreover have "b1 + 255 < 2 ^ 64" using b1(1) b(2) by simp
      ultimately show False using IH [of alloc a n b1 t1 r] ref n b1(2) by blast
    qed
    then show ?thesis using that ref n by blast
  qed
  then show "256 dvd b \<Longrightarrow> b + 255 < 2 ^ 64 \<Longrightarrow> n \<le> b \<Longrightarrow> spent t \<Longrightarrow> backpedal_loop alloc a n b t = None"
    by (cases "backpedal_loop alloc a n b t") auto
qed

section \<open>Every history\<close>

text \<open>
  C4: In every state that an allocator with a limit below 2^58 bytes and without garbage collection
  can reach, for a request of any size up to 2^64 - 256 bytes, no check fails. When the request comes back with null, every block
  handed out is as it was; otherwise it comes back with a block of at least the size asked for,
  less than twice the rounded size, that overlaps none of them. It comes back unless all of this
  holds: it is for at most 2304 rounded bytes and within the limit, the sub-allocator refuses for
  the first time, no free chunk is large enough (this without time stamps only), and the
  retreat of \<open>Extend\<close> from the refusal goes on for ever.
\<close>

theorem bfc_alloc_refines:
  assumes sub: "sub_allocator_ok alloc free blocks" and s: "bfc_reach alloc free blocks s" and m: "m + 255 < 2 ^ 64"
  shows "case AllocateRawInternal alloc free frontier a m fb s of
      Some (t, p) \<Rightarrow> bfc_reach alloc free blocks t
        \<and> (if p = 0 then used t = used s
           else \<exists>n\<ge>m. used t = (used s)(p \<mapsto> (n, m, bf_next_id s)) \<and> n < 2 * RoundedBytes m
                  \<and> (\<forall>q k x i. used s q = Some (k, x, i) \<longrightarrow> p + n \<le> q \<or> q + k \<le> p))
    | None \<Rightarrow> 0 < m \<and> RoundedBytes m \<le> 2304 \<and> RoundedBytes m \<le> available_bytes s \<and> \<not> bf_backpedal s
        \<and> (\<not> bf_timing s \<longrightarrow> (\<forall>k\<in>free_chunks s. ck_size (bf_chunks s ! k) < RoundedBytes m))
        \<and> (\<exists>b u. RoundedBytes m \<le> b \<and> alloc a b (bf_sub s) = (0, u) \<and> backpedal_loop alloc a (RoundedBytes m) b u = None)"
proof (cases "m = 0")
  case True
  then show ?thesis using s by (simp add: AllocateRawInternal_def)
next
  case False
  note ok = bfc_reach_ok [OF s sub]
  have run: "(AllocateRawInternal alloc free frontier a m fb s = None \<and> stuck alloc a (RoundedBytes m) s
      \<and> (\<not> bf_timing s \<longrightarrow> (\<forall>k\<in>free_chunks s. ck_size (bf_chunks s ! k) < RoundedBytes m)))
    \<or> (\<exists>t p. AllocateRawInternal alloc free frontier a m fb s = Some (t, p)
      \<and> attempt_ok blocks (RoundedBytes m) m s t p)"
    using AllocateRawInternal_ok [OF ok sub _ m] False by simp
  show ?thesis
  proof (cases "AllocateRawInternal alloc free frontier a m fb s")
    case None
    then show ?thesis using run False unfolding stuck_def by (auto simp: prod_eq_iff)
  next
    case (Some r)
    then obtain t p where t: "AllocateRawInternal alloc free frontier a m fb s = Some (t, p)"
      "attempt_ok blocks (RoundedBytes m) m s t p" using run by auto
    have "bfc_reach alloc free blocks t" by (rule bfc_reach.alloc [OF s m t(1)])
    moreover have "\<exists>n\<ge>m. used t = (used s)(p \<mapsto> (n, m, bf_next_id s)) \<and> n < 2 * RoundedBytes m
              \<and> (\<forall>q k x i. used s q = Some (k, x, i) \<longrightarrow> p + n \<le> q \<or> q + k \<le> p)" if "p \<noteq> 0"
      by (rule attempt_block [OF t(2) that m])
    moreover have "used t = used s" if "p = 0" using that t(2) by (simp add: attempt_ok_def)
    ultimately show ?thesis unfolding t(1) by simp
  qed
qed

lemma bfc_alloc_refines_witness:
  "\<exists>t p. AllocateRawInternal stack_alloc stack_free no_frontier 64 100 0 pool2 = Some (t, p) \<and> bfc_reach stack_alloc stack_free set t"
proof -
  have small: "RoundedBytes 100 = 256" by (simp add: RoundedBytes_def u64_def sub64_def kMinAllocationSize_def)
  note c = bfc_alloc_refines [OF stack_ok pool2_reach, where m = 100 and frontier = no_frontier and a = 64 and fb = 0]
  show ?thesis
  proof (cases "AllocateRawInternal stack_alloc stack_free no_frontier 64 100 0 pool2")
    case None
    then have "ck_size (bf_chunks pool2 ! 0) < 256" using c pool2_facts(1,4) by (simp add: small)
    then show ?thesis using pool2_facts(5) by simp
  next
    case (Some r)
    then show ?thesis using c by (cases r) simp
  qed
qed

text \<open>
  C26: Giving back a block that is in use succeeds in every state that an allocator without
  garbage collection can reach, and takes exactly that block from the client.
\<close>

theorem bfc_free_refines:
  assumes "sub_allocator_ok alloc free blocks" "bfc_reach alloc free blocks s" "used s p \<noteq> None"
  shows "\<exists>t. DeallocateRaw tick p s = Some t \<and> bfc_reach alloc free blocks t \<and> used t = (used s)(p := None)"
  using dealloc_ok [OF bfc_reach_ok [OF assms(2,1)] assms(3), of tick] bfc_reach.free [OF assms(2,3), of tick] by blast

lemma bfc_free_refines_witness:
  "\<exists>t. DeallocateRaw 0 4096 pool1 = Some t \<and> bfc_reach stack_alloc stack_free set t \<and> used t 4096 = None"
  using bfc_free_refines [OF stack_ok pool1_reach, of 4096 0] pool1_used by (auto simp: fun_eq_iff)

text \<open>
  C16: In every state that an allocator without garbage collection can reach, by requests of any
  size up to 2^64 - 256 bytes and deallocations of blocks in use, under a limit below 2^58 bytes,
  the blocks in use are apart, each inside one region at a multiple of 256 bytes from its start,
  with an id of its own; the accessors report their sizes and ids, the statistics count exactly
  their bytes, and the regions together stay within the limit.
\<close>

theorem bfc_blocks_safe:
  assumes sub: "sub_allocator_ok alloc free blocks" and s: "bfc_reach alloc free blocks s"
  shows "(\<forall>p n r i q m r' j. used s p = Some (n, r, i) \<longrightarrow> used s q = Some (m, r', j) \<longrightarrow>
            p = q \<or> (i \<noteq> j \<and> (p + n \<le> q \<or> q + m \<le> p)))
    \<and> (\<forall>p n r i. used s p = Some (n, r, i) \<longrightarrow>
            0 < p \<and> 0 < n \<and> (\<exists>b e. (b, e) \<in> blocks (bf_sub s) \<and> b \<le> p \<and> p + n \<le> b + e \<and> 256 dvd p - b)
            \<and> RequestedSize p s = Some r \<and> AllocatedSize p s = Some n \<and> AllocationId p s = Some i)
    \<and> bytes_in_use (GetStats s) = (\<Sum>p\<in>dom (used s). int (fst (the (used s p))))
    \<and> sum_list (map rg_size (bf_regions s)) \<le> bf_limit s"
proof -
  note ok = bfc_reach_ok [OF s sub]
  note inv = bfc_okD(1) [OF ok]
  note l = bfc_invD(1) [OF inv]
  have "p = q \<or> (i \<noteq> j \<and> (p + n \<le> q \<or> q + m \<le> p))" if "used s p = Some (n, r, i)" "used s q = Some (m, r', j)"
    for p n r i q m r' j
    using that used_ids [OF inv] used_disjoint [OF l that] by blast
  moreover have "0 < p \<and> 0 < n \<and> (\<exists>b e. (b, e) \<in> blocks (bf_sub s) \<and> b \<le> p \<and> p + n \<le> b + e \<and> 256 dvd p - b)
      \<and> RequestedSize p s = Some r \<and> AllocatedSize p s = Some n \<and> AllocationId p s = Some i"
    if u: "used s p = Some (n, r, i)" for p n r i
  proof -
    obtain h where h: "get_handle (bf_regions s) p = Some (Some h)" "table s p = Some h" "h \<in> live s"
      "in_use (chunk_of s h)" "ck_ptr (chunk_of s h) = p" using get_handle_used [OF l u] by metis
    have "chunk_of_ptr p s = Some (chunk_of s h)"
      using h(1) ChunkFromHandle_live [OF l h(3)] by (simp add: chunk_of_ptr_def)
    moreover have "ck_size (chunk_of s h) = n" "ck_requested (chunk_of s h) = r" "ck_id (chunk_of s h) = i"
      using u h(2) by (simp_all add: used_Some)
    ultimately show ?thesis using used_in_region [OF l u] bfc_okD(3) [OF ok]
      by (simp add: RequestedSize_def AllocatedSize_def AllocationId_def)
  qed
  moreover have "bytes_in_use (GetStats s) = (\<Sum>p\<in>dom (used s). int (fst (the (used s p))))"
    using bfc_invD(5) [OF inv] used_bytes_dom [OF l] by (simp add: totals_ok_def GetStats_def)
  moreover have "sum_list (map rg_size (bf_regions s)) \<le> bf_limit s"
    using bfc_invD(5) [OF inv] by (simp add: totals_ok_def)
  ultimately show ?thesis by blast
qed

lemma bfc_blocks_safe_witness: "\<exists>b e. (b, e) \<in> set (bf_sub pool1) \<and> b \<le> 4096 \<and> 4096 + 4096 \<le> b + e \<and> 256 dvd 4096 - b"
  using bfc_blocks_safe [OF stack_ok pool1_reach] pool1_used by blast

section \<open>The choice of a chunk\<close>

text \<open>
  C24: Without time stamps and without garbage collection, in every reachable state, a request of
  any size from 1 to 2^64 - 256 bytes is served from the free chunks whenever one is large
  enough: from the smallest of those, and of equal ones from the one with the lowest address.
  The sub-allocator is not asked.
\<close>

theorem bfc_best_fit:
  assumes sub: "sub_allocator_ok alloc free blocks" and s: "bfc_reach alloc free blocks s" "\<not> bf_timing s"
    and m: "0 < m" "m + 255 < 2 ^ 64"
    and k: "k \<in> free_chunks s" "RoundedBytes m \<le> ck_size (bf_chunks s ! k)"
  shows "\<exists>t h. AllocateRawInternal alloc free frontier a m fb s = Some (t, ck_ptr (bf_chunks s ! h))
    \<and> bf_sub t = bf_sub s \<and> h \<in> free_chunks s \<and> RoundedBytes m \<le> ck_size (bf_chunks s ! h)
    \<and> (\<forall>j\<in>free_chunks s. j = h \<or> ck_size (bf_chunks s ! j) < RoundedBytes m \<or> chunk_less (bf_chunks s) h j)"
proof -
  note inv = bfc_okD(1) [OF bfc_reach_ok [OF s(1) sub]]
  note n = RoundedBytes_bounds [OF m(2)]
  have n0: "0 < RoundedBytes m" using n(2) m(1) by simp
  have q: "bf_queue s = []" and fz: "\<And>h. h \<in> free_chunks s \<Longrightarrow> ck_freed_at (bf_chunks s ! h) = 0"
    using bfc_invD(6) [OF inv] s(2) by (auto simp: times_ok_def free_chunks_def)
  have fit: "fits (RoundedBytes m) fb (bf_chunks s ! j) \<longleftrightarrow> RoundedBytes m \<le> ck_size (bf_chunks s ! j)"
    if "j \<in> free_chunks s" for j
    using fz [OF that] by (simp add: fits_def)
  show ?thesis
  proof (cases rule: FindChunkPtr_ok [OF inv n0 n(1), of m fb, case_names found none])
    case (found t h)
    have nz: "ck_ptr (bf_chunks s ! h) \<noteq> 0" and sub_same: "bf_sub t = bf_sub s"
      using found(3) by (simp_all add: gives_def same_config_def)
    have "AllocateRawInternal alloc free frontier a m fb s = Some (t, ck_ptr (bf_chunks s ! h))"
      using m(1) q found(1) nz by (simp add: AllocateRawInternal_def or_else_def Let_def)
    moreover have "j = h \<or> ck_size (bf_chunks s ! j) < RoundedBytes m \<or> chunk_less (bf_chunks s) h j"
      if "j \<in> free_chunks s" for j
      using found(6) [OF that] fit [OF that] by (meson not_less)
    ultimately show ?thesis using sub_same found(4,5) fit by blast
  next
    case none
    then show ?thesis using none(2) [OF k(1)] k(2) fit [OF k(1)] by blast
  qed
qed

text \<open>
  C25: Without time stamps and without garbage collection coalescing is complete: when nothing is
  handed out in a reachable state, every region is one free chunk again,
  so that a request as large as a region can be served.
\<close>

theorem bfc_coalesces_all:
  assumes sub: "sub_allocator_ok alloc free blocks" and s: "bfc_reach alloc free blocks s" "\<not> bf_timing s"
    and empty: "used s = Map.empty" and r: "(b, n) \<in> blocks (bf_sub s)"
  shows "\<exists>h\<in>free_chunks s. ck_ptr (bf_chunks s ! h) = b \<and> ck_size (bf_chunks s ! h) = n"
proof -
  note ok = bfc_reach_ok [OF s(1) sub]
  note inv = bfc_okD(1) [OF ok]
  note l = bfc_invD(1) [OF inv]
  note g = layout_geo [OF l]
  have sh: "(b, n) \<in> shapes s" using r bfc_okD(3) [OF ok] by simp
  have free: "\<not> in_use (chunk_of s h)" if "h \<in> live s" for h
    using empty geo_slot [OF g that] by (auto simp: fun_eq_iff used_def split: option.splits if_splits)
  obtain h where h: "table s b = Some h" using geo_head [OF g sh] by blast
  have hl: "h \<in> live s" "ck_ptr (chunk_of s h) = b" using h geo_ptr [OF g h] by (auto simp: ran_def)
  obtain b' n' where r': "(b', n') \<in> shapes s" "in_region (\<lambda>h. ck_ptr (chunk_of s h)) (\<lambda>h. ck_size (chunk_of s h))
         (\<lambda>h. ck_next (chunk_of s h)) (\<lambda>h. ck_prev (chunk_of s h)) h b' n'"
    using geo_region [OF g hl(1)] by blast
  have dr: "disjoint_regions (shapes s)" using disjoint_shapes l unfolding layout_def by blast
  have "b' \<le> b" "b < b' + n'" using r'(2) hl(2) geo_size [OF g hl(1)] by (auto simp: in_region_def)
  moreover have "0 < n" using sh l by (auto simp: layout_def regions_ok_def rg_ok_def shape_def)
  ultimately have same: "b' = b" "n' = n" using dr sh r'(1) unfolding disjoint_regions_def by fastforce+
  have "ck_next (chunk_of s h) = None"
  proof (rule ccontr)
    assume "ck_next (chunk_of s h) \<noteq> None"
    then obtain k where k: "ck_next (chunk_of s h) = Some k" by blast
    have "k \<in> live s" using geo_next [OF g hl(1) k] by simp
    then show False using bfc_invD(7) [OF inv] s(2) hl(1) k free unfolding coalesced_def by blast
  qed
  then have "ck_size (chunk_of s h) = n" using r'(2) hl(2) same by (simp add: in_region_def)
  then show ?thesis using hl free by (auto simp: free_chunks_def)
qed

lemma bfc_best_fit_witness:
  "\<exists>t h. AllocateRawInternal stack_alloc stack_free no_frontier 64 3000 0 pool2 = Some (t, ck_ptr (bf_chunks pool2 ! h))
    \<and> bf_sub t = bf_sub pool2"
  using bfc_best_fit [OF stack_ok pool2_reach pool2_facts(1) _ _ pool2_facts(4), of 3000 no_frontier 64 0]
    pool2_facts(5) by (auto simp: rounded_3000)

lemma bfc_coalesces_all_witness:
  "\<exists>h\<in>free_chunks pool2. ck_ptr (bf_chunks pool2 ! h) = 4096 \<and> ck_size (bf_chunks pool2 ! h) = 4096"
  by (rule bfc_coalesces_all [OF stack_ok pool2_reach pool2_facts(1,2)]) (simp add: pool2_facts)

section \<open>Bins and waiting\<close>

text \<open>
  The bins partition the sizes: a size belongs to exactly one of them, the one whose range
  contains it, so that the checks of the constructor hold and it never fails.
\<close>

theorem bins_partition_sizes:
  "BinNumForSize n < kNumBins \<and> (n < 256 \<or> BinNumToSize (BinNumForSize n) \<le> n)
    \<and> (BinNumForSize n = kNumBins - 1 \<or> n < BinNumToSize (BinNumForSize n + 1))
    \<and> new_bfc sub limit growth gc \<noteq> None"
proof -
  define b where "b = BinNumForSize n"
  have b: "b < kNumBins" by (simp add: b_def BinNumForSize_less)
  have lower: "256 * 2 ^ b \<le> max n 256" and upper: "b = 20 \<or> max n 256 < 512 * 2 ^ b"
  proof -
    define d where "d = max n 256 div 256"
    have "0 < d" by (auto simp: d_def)
    then obtain k where k: "2 ^ k \<le> d" "d < 2 ^ (k + 1)" "log2_loop 0 d = int k + 1" using log2_bits by blast
    have bk: "b = min 20 k"
      using k(3) by (simp add: b_def BinNumForSize_def Log2FloorNonZero_def kMinAllocationBits_def kNumBins_def d_def)
    have "(2 :: nat) ^ b \<le> 2 ^ k" using bk by simp
    then have "2 ^ b \<le> d" using k(1) by linarith
    then show "256 * 2 ^ b \<le> max n 256" by (simp add: d_def less_eq_div_iff_mult_less_eq)
    show "b = 20 \<or> max n 256 < 512 * 2 ^ b"
    proof (cases "b = 20")
      case False
      then have "b = k" using bk by (simp add: min_def split: if_splits)
      then have "max n 256 div 256 < 2 ^ (b + 1)" using k(2) by (simp add: d_def)
      then have "max n 256 < 2 ^ (b + 1) * 256" by (subst (asm) div_less_iff_less_mult) simp_all
      then show ?thesis by simp
    qed simp
  qed
  have "BinNumToSize b \<le> n" if "256 \<le> n" using lower that BinNumToSize_eq(1) [OF b] by (simp add: max_def split: if_splits)
  moreover have "n < BinNumToSize (b + 1)" if "b \<noteq> kNumBins - 1"
  proof -
    have "b + 1 < kNumBins" using that b by (simp add: kNumBins_def)
    then show ?thesis using upper that BinNumToSize_eq(1) [of "b + 1"] by (simp add: kNumBins_def)
  qed
  moreover have "new_bfc sub limit growth gc \<noteq> None" using new_bfc_Some [of sub limit growth gc] by auto
  ultimately show ?thesis using b unfolding b_def [symmetric] by (meson not_less)
qed

text \<open>
  The clock of the retries: it never goes back, and a wait, however short, takes time.
\<close>

definition clocked ::
  "('w \<Rightarrow> nat) \<Rightarrow> (bool \<Rightarrow> 'w \<Rightarrow> ('w \<times> nat) option) \<Rightarrow> ('w \<Rightarrow> nat \<times> 'w) \<Rightarrow> (nat \<Rightarrow> 'w \<Rightarrow> 'w) \<Rightarrow> bool" where
  "clocked clock alloc_func now wait \<longleftrightarrow> (\<forall>w. now w = (clock w, w)) \<and> (\<forall>d w. clock w < clock (wait d w))
     \<and> (\<forall>v w. \<exists>w' p. alloc_func v w = Some (w', p) \<and> clock w \<le> clock w')"

lemma retry_loop_deadline:
  assumes c: "clocked clock alloc_func now wait"
  shows "\<exists>w' p. retry_loop alloc_func now wait m (Some d) w = Some (w', p)
    \<and> (p = 0 \<longrightarrow> (\<exists>w1. d \<le> clock w1 \<and> alloc_func True w1 = Some (w', 0)))"
proof (induction "d - clock w" arbitrary: w rule: less_induct)
  case less
  obtain w1 p1 where w1: "alloc_func False w = Some (w1, p1)" "clock w \<le> clock w1"
    using c unfolding clocked_def by blast
  have nw: "now w1 = (clock w1, w1)" using c by (simp add: clocked_def)
  consider (got) "p1 \<noteq> 0" | (again) "p1 = 0" "clock w1 < d" | (last) "p1 = 0" "d \<le> clock w1" by linarith
  then show ?case
  proof cases
    case got
    then show ?thesis using w1(1) by (simp add: retry_loop.simps [of _ _ _ _ _ w])
  next
    case again
    let ?w2 = "wait ((d - clock w1) div 1000) w1"
    have "clock w1 < clock ?w2" using c by (simp add: clocked_def)
    then have "d - clock ?w2 < d - clock w" using w1(2) again(2) by linarith
    then have "\<exists>w' p. retry_loop alloc_func now wait m (Some d) ?w2 = Some (w', p)
      \<and> (p = 0 \<longrightarrow> (\<exists>w1. d \<le> clock w1 \<and> alloc_func True w1 = Some (w', 0)))" by (rule less.hyps)
    then show ?thesis using w1(1) again nw by (simp add: retry_loop.simps [of _ _ _ _ _ w])
  next
    case last
    obtain w2 p2 where "alloc_func True w1 = Some (w2, p2)" using c unfolding clocked_def by blast
    then show ?thesis using w1(1) last nw by (auto simp: retry_loop.simps [of _ _ _ _ _ w])
  qed
qed

text \<open>
  A request that may wait comes back, whatever other threads do: with a block, or, not
  before the time allowed has passed since it started, with the answer of a last attempt.
\<close>

theorem retry_returns:
  assumes c: "clocked clock alloc_func now wait" and n: "0 < num_bytes"
  shows "\<exists>w' p. AllocatorRetry_AllocateRaw alloc_func now wait max_millis num_bytes w = Some (w', p)
    \<and> (p = 0 \<longrightarrow> (\<exists>w1. clock w + max_millis * 1000 \<le> clock w1 \<and> alloc_func True w1 = Some (w', 0)))"
proof -
  obtain w1 p1 where w1: "alloc_func False w = Some (w1, p1)" "clock w \<le> clock w1"
    using c unfolding clocked_def by blast
  have nw: "now w1 = (clock w1, w1)" using c by (simp add: clocked_def)
  let ?d = "clock w1 + max_millis * 1000"
  consider (got) "p1 \<noteq> 0" | (again) "p1 = 0" "0 < max_millis" | (last) "p1 = 0" "max_millis = 0" by blast
  then show ?thesis
  proof cases
    case got
    then show ?thesis using n w1(1) by (simp add: AllocatorRetry_AllocateRaw_def retry_loop.simps [of _ _ _ _ _ w])
  next
    case again
    have "retry_loop alloc_func now wait max_millis None w
        = retry_loop alloc_func now wait max_millis (Some ?d) (wait ((?d - clock w1) div 1000) w1)"
      using w1(1) again nw by (simp add: retry_loop.simps [of _ _ _ _ None w] Let_def)
    moreover obtain w' p where "retry_loop alloc_func now wait max_millis (Some ?d) (wait ((?d - clock w1) div 1000) w1) = Some (w', p)"
      "p = 0 \<longrightarrow> (\<exists>w2. ?d \<le> clock w2 \<and> alloc_func True w2 = Some (w', 0))"
      using retry_loop_deadline [OF c] by blast
    moreover have "clock w + max_millis * 1000 \<le> x" if "?d \<le> x" for x using that w1(2) by simp
    ultimately show ?thesis using n unfolding AllocatorRetry_AllocateRaw_def by auto
  next
    case last
    obtain w2 p2 where "alloc_func True w1 = Some (w2, p2)" using c unfolding clocked_def by blast
    then show ?thesis using n w1 last nw by (auto simp: AllocatorRetry_AllocateRaw_def retry_loop.simps [of _ _ _ _ None w])
  qed
qed

text \<open>A world that is a clock, and an allocator that never has anything.\<close>

lemma retry_returns_witness:
  "\<exists>w' p. AllocatorRetry_AllocateRaw (\<lambda>v w. Some (w, 0)) (\<lambda>w. (w, w)) (\<lambda>d w. w + 1000 * d + 1) kMaxMillisToWait 1 5 = Some (w', p)
    \<and> (p = 0 \<longrightarrow> (\<exists>w1. 5 + kMaxMillisToWait * 1000 \<le> w1))"
  using retry_returns [of id "\<lambda>v w. Some (w, 0)" "\<lambda>w. (w, w)" "\<lambda>d w. w + 1000 * d + 1" 1 kMaxMillisToWait 5]
  by (auto simp: clocked_def)

section \<open>Where the code goes wrong\<close>

text \<open>
  C39: A request of at most 2304 bytes, within the limit, does not come back in any reachable state
  without time stamps in which no free chunk fits, when the sub-allocator refuses for the
  first time and goes on refusing: the retreat of \<open>Extend\<close> multiplies the size by 0.9 and
  rounds it up to 256 bytes, which never takes it below 2304. \<open>spent\<close> are the states of the
  sub-allocator in which it has nothing of the size left.
\<close>

theorem small_request_hangs:
  assumes sub: "sub_allocator_ok alloc free blocks" and s: "bfc_reach alloc free blocks s" "\<not> bf_timing s" "\<not> bf_backpedal s"
    and m: "0 < m" "m \<le> 2304" "RoundedBytes m \<le> available_bytes s"
    and full: "\<forall>k\<in>free_chunks s. ck_size (bf_chunks s ! k) < RoundedBytes m"
    and ref: "spent (bf_sub s)" "\<And>t b. spent t \<Longrightarrow> RoundedBytes m \<le> b \<Longrightarrow> fst (alloc a b t) = 0 \<and> spent (snd (alloc a b t))"
  shows "AllocateRawInternal alloc free frontier a m fb s = None"
proof -
  note ok = bfc_reach_ok [OF s(1) sub]
  note inv = bfc_okD(1) [OF ok]
  note tot = bfc_invD(5) [OF inv]
  define n where "n = RoundedBytes m"
  have n: "0 < n" "256 dvd n" "n \<le> 2304" "n \<le> available_bytes s"
    using RoundedBytes_bounds [of m] RoundedBytes_le [of 2304 m] m by (auto simp: n_def)
  have q: "bf_queue s = []" using bfc_invD(6) [OF inv] s(2) by (simp add: times_ok_def)
  have none: "FindChunkPtr (BinNumForSize n) n m fb s = Some (s, 0)"
  proof (cases rule: FindChunkPtr_ok [OF inv n(1,2), of m fb, case_names found none])
    case (found t h)
    then show ?thesis using full by (auto simp: fits_def n_def)
  qed
  have co: "bf_limit s < 2 ^ 58" "0 < bf_curr s" "bf_curr s \<le> 2 * (bf_limit s + 256)" "256 dvd bf_curr s"
    using bfc_okD(2) [OF ok] n(1,4) s(3) tot by (auto simp: curr_ok_def totals_ok_def)
  have c62: "bf_curr s < 2 ^ 62" "n < 2 ^ 62" using co(1,3) n(3) by auto
  obtain c where c: "grow_region n (bf_curr s) = Some c" "n \<le> c" "256 dvd c"
    using grow_region_ok [OF co(2) c62 co(4)] by blast
  define b where "b = min c (available_bytes s)"
  have b: "256 dvd b" "n \<le> b" "b + 255 < 2 ^ 64"
  proof -
    have av: "available_bytes s = (bf_limit s - bf_total s) div 256 * 256" by (rule available_bytes_eq [OF tot])
    show "256 dvd b" using c(3) av by (simp add: b_def min_def)
    show "n \<le> b" using c(2) n(4) by (simp add: b_def)
    have "b \<le> available_bytes s" by (simp add: b_def)
    also have "... \<le> bf_limit s" unfolding av using le_trans [OF div_times_less_eq_dividend diff_le_self] .
    finally show "b + 255 < 2 ^ 64" using co(1) by simp
  qed
  obtain u where u: "alloc a b (bf_sub s) = (0, u)" "spent u" using ref b(2) unfolding n_def by (metis prod.collapse)
  have "backpedal_loop alloc a n b u = None"
    by (rule backpedal_never_ends [of spent, OF _ n(1,3) b(1,3,2) u(2)]) (use ref(2) n_def in auto)
  moreover have "available_bytes (s\<lparr>bf_curr := c\<rparr>) = available_bytes s" by (simp add: available_bytes_def)
  ultimately have "request_region alloc a n (s\<lparr>bf_curr := c\<rparr>) = None"
    using u s(3) by (simp add: request_region_def b_def)
  then have "Extend alloc a n s = None" using n(4) c(1) by (simp add: Extend_def)
  then show ?thesis using m(1) q none
    by (simp add: AllocateRawInternal_def or_else_def try_extended_def n_def [symmetric] Let_def)
qed

text \<open>
  A sub-allocator of one megabyte, and an allocator that may grow to four: the first request
  takes the one region there is, the next one hangs.
\<close>

lemma small_request_hangs_witness: "AllocateRawInternal scarce_alloc stack_free no_frontier 64 100 0 grown = None"
proof (rule small_request_hangs [OF scarce_ok grown_reach, of _ "\<lambda>t. t = [(4096, 1048576)]"])
  show "RoundedBytes 100 \<le> available_bytes grown"
    by (simp add: RoundedBytes_def available_bytes_def grown_def small_pool_eq pool0_eq u64_def sub64_def kMinAllocationSize_def)
  show "\<forall>k\<in>free_chunks grown. ck_size (bf_chunks grown ! k) < RoundedBytes 100" by (simp add: grown_free)
  show "fst (scarce_alloc 64 b t) = 0 \<and> snd (scarce_alloc 64 b t) = [(4096, 1048576)]"
    if "t = [(4096, 1048576)]" "RoundedBytes 100 \<le> b" for t b
    using that by (simp add: scarce_alloc_def RoundedBytes_def u64_def sub64_def kMinAllocationSize_def)
qed (simp_all add: grown_def small_pool_eq pool0_eq)

text \<open>
  The rounding wraps: a request of \<open>2 ^ 64 - 1\<close> bytes is rounded to none, and any number of
  such requests is answered with the same address.
\<close>

theorem huge_requests_overlap:
  "AllocateRawInternal stack_alloc stack_free no_frontier 64 (2 ^ 64 - 1) 0 pool0 = Some (pool_huge 1, 4096)
   \<and> (\<forall>k. AllocateRawInternal stack_alloc stack_free no_frontier 64 (2 ^ 64 - 1) 0 (pool_huge k) = Some (pool_huge (Suc k), 4096))"
proof
  have h0: "pool_huge 0 = pool_free" by (simp add: pool_huge_def pool_free_def pool1_def last_chunk_def)
  have q: "bf_queue pool0 = []" "bf_queue (pool_huge k) = []" for k
    by (simp_all add: pool0_eq pool_huge_def pool_free_def pool1_def)
  have "FindChunkPtr 0 0 (2 ^ 64 - 1) 0 pool0 = Some (pool0, 0)" unfolding FindChunkPtr_def scan_none by simp
  moreover have "try_extended stack_alloc 64 0 (2 ^ 64 - 1) 0 pool0 = Some (pool_huge 1, 4096)"
    unfolding try_extended_def pool0_extend [of 0, simplified] bin_0 using huge_found [of 0] h0 by simp
  ultimately show "AllocateRawInternal stack_alloc stack_free no_frontier 64 (2 ^ 64 - 1) 0 pool0 = Some (pool_huge 1, 4096)"
    unfolding AllocateRawInternal_def rounded_max bin_0 using q by (simp add: or_else_def bin_0 Let_def)
  show "\<forall>k. AllocateRawInternal stack_alloc stack_free no_frontier 64 (2 ^ 64 - 1) 0 (pool_huge k) = Some (pool_huge (Suc k), 4096)"
    unfolding AllocateRawInternal_def rounded_max bin_0 using q huge_found by (simp add: or_else_def bin_0 Let_def)
qed

end
