(* ===== verification/Alloc_Attrs.thy ===== *)
theory Alloc_Attrs
  imports Node_Items Device_Names
begin

text \<open>
  Allocator attributes of the outputs of a graph (core/common_runtime/executor.cc): the last
  part of \<open>ExecutorImpl::Initialize\<close>. An output whose value leaves or enters the address space
  must live in memory the network can reach, one that is copied between the CPU and an
  accelerator in memory the accelerator can reach, and outputs of users of a scoped allocator
  carry its id.

  \<open>starts\<close> is \<open>absl::ConsumePrefix\<close> (see \<open>Device_Names\<close>); \<open>host_outputs\<close> tells for each node
  which of its kernel's output memory types are host memory. \<open>None\<close> is a failed \<open>CHECK\<close> or
  an index outside an array.
\<close>

type_synonym gview = "nat \<Rightarrow> node_item option"

definition IsHostSend :: "gnode \<Rightarrow> bool" where "IsHostSend n = (n_class n = NC_HOST_SEND)"
definition IsHostRecv :: "gnode \<Rightarrow> bool" where "IsHostRecv n = (n_class n = NC_HOST_RECV)"
definition IsCollective :: "gnode \<Rightarrow> bool" where "IsCollective n = (n_class n = NC_COLLECTIVE)"

section \<open>One edge\<close>

text \<open>
  The two halves of \<open>InferAllocAttr\<close> do the same with the two ends of the edge: the node
  \<open>peer\<close> that holds the attribute with the name of the remote device, and whether that node
  works on the host. The error names the source in both cases.
\<close>

definition bad_device :: "string \<Rightarrow> string \<Rightarrow> gnode \<Rightarrow> status" where
  "bad_device attr_name name n =
     mk_status INTERNAL (''Bad '' @ attr_name @ '' attr '' @ [CHR 0x27] @ name @ [CHR 0x27] @ '' in node '' @ n_name n)"

definition remote_attr ::
  "(string \<Rightarrow> string \<Rightarrow> bool) \<Rightarrow> string \<Rightarrow> gnode \<Rightarrow> bool \<Rightarrow> gnode \<Rightarrow> parsed_name \<Rightarrow> alloc_attrs \<Rightarrow> status + alloc_attrs" where
  "remote_attr starts attr_name peer host_op n local_dev_name attr =
     (case get_attr_string peer attr_name of
        Inl s \<Rightarrow> Inl s
      | Inr name \<Rightarrow>
          (case ParseFullName starts name of
             None \<Rightarrow> Inl (bad_device attr_name name n)
           | Some remote \<Rightarrow>
               Inr (if \<not> IsSameAddressSpace remote local_dev_name then set_nic_compatible True attr
                    else if (pn_type local_dev_name = ''CPU'' \<or> host_op) \<and> pn_type remote \<noteq> ''CPU''
                    then set_gpu_compatible True attr else attr)))"

definition InferAllocAttr ::
  "(string \<Rightarrow> string \<Rightarrow> bool) \<Rightarrow> gnode \<Rightarrow> gnode \<Rightarrow> parsed_name \<Rightarrow> alloc_attrs \<Rightarrow> status + alloc_attrs" where
  "InferAllocAttr starts n dst local_dev_name attr =
     (case (if IsRecv n then remote_attr starts ''send_device'' n (IsHostRecv n) n local_dev_name attr else Inr attr) of
        Inl s \<Rightarrow> Inl s
      | Inr attr1 \<Rightarrow>
        (case (if IsSend dst then remote_attr starts ''recv_device'' dst (IsHostSend dst) n local_dev_name attr1
               else Inr attr1) of
           Inl s \<Rightarrow> Inl s
         | Inr attr2 \<Rightarrow> Inr (if IsCollective n then set_nic_compatible True attr2 else attr2)))"

section \<open>The outputs of the nodes\<close>

definition merge_into :: "nat \<Rightarrow> int \<Rightarrow> alloc_attrs \<Rightarrow> gview \<Rightarrow> gview option" where
  "merge_into nid out attr gv =
     do { item \<leftarrow> gv nid;
          if 0 \<le> out \<and> nat out < length (output_attrs item)
          then do { a \<leftarrow> aa_merge (output_attrs item ! nat out) attr;
                    Some (gv(nid \<mapsto> item\<lparr>output_attrs := (output_attrs item)[nat out := a]\<rparr>)) }
          else None }"

fun set_edge_attrs ::
  "(string \<Rightarrow> string \<Rightarrow> bool) \<Rightarrow> graph \<Rightarrow> parsed_name \<Rightarrow> gnode \<Rightarrow> edge list \<Rightarrow> gview \<Rightarrow> (status + gview) option" where
  "set_edge_attrs starts g local_dev_name n [] gv = Some (Inr gv)"
| "set_edge_attrs starts g local_dev_name n (e # es) gv =
     (if is_control_edge e then set_edge_attrs starts g local_dev_name n es gv
      else do {
        dst \<leftarrow> graph_node g (e_dst e);
        case InferAllocAttr starts n dst local_dev_name new_alloc_attrs of
          Inl s \<Rightarrow> Some (Inl s)
        | Inr attr \<Rightarrow>
            if aa_value attr \<noteq> 0 \<or> aa_scope_id attr \<noteq> 0
            then do { gv' \<leftarrow> merge_into (n_id n) (e_src_output e) attr gv;
                      set_edge_attrs starts g local_dev_name n es gv' }
            else set_edge_attrs starts g local_dev_name n es gv })"

fun set_host_attrs :: "bool list \<Rightarrow> gnode \<Rightarrow> nat list \<Rightarrow> gview \<Rightarrow> gview option" where
  "set_host_attrs host_mem n [] gv = Some gv"
| "set_host_attrs host_mem n (out # outs) gv =
     (if out < length host_mem
      then do { gv' \<leftarrow> (if host_mem ! out then merge_into (n_id n) (int out) (set_on_host True new_alloc_attrs) gv
                        else Some gv);
                set_host_attrs host_mem n outs gv' }
      else None)"

fun set_node_attrs ::
  "(string \<Rightarrow> string \<Rightarrow> bool) \<Rightarrow> graph \<Rightarrow> parsed_name \<Rightarrow> (nat \<Rightarrow> bool list) \<Rightarrow> gnode list \<Rightarrow> gview \<Rightarrow> (status + gview) option" where
  "set_node_attrs starts g local_dev_name host_outputs [] gv = Some (Inr gv)"
| "set_node_attrs starts g local_dev_name host_outputs (n # ns) gv =
     do { r \<leftarrow> set_edge_attrs starts g local_dev_name n (n_out_edges n) gv;
          case r of Inl s \<Rightarrow> Some (Inl s)
          | Inr gv1 \<Rightarrow> do {
              gv2 \<leftarrow> set_host_attrs (host_outputs (n_id n)) n [0..<n_num_outputs n] gv1;
              set_node_attrs starts g local_dev_name host_outputs ns gv2 } }"

section \<open>Scoped allocators\<close>

text \<open>The pairs of an output and a scope id; an odd number of values reads past the end.\<close>

fun ExtractScopedAllocatorAttr :: "int list \<Rightarrow> int \<Rightarrow> alloc_attrs \<Rightarrow> (bool \<times> alloc_attrs) option" where
  "ExtractScopedAllocatorAttr [] output_index attr = Some (False, attr)"
| "ExtractScopedAllocatorAttr [a] output_index attr = (if a = output_index then None else Some (False, attr))"
| "ExtractScopedAllocatorAttr (a # b # rest) output_index attr =
     (if a = output_index
      then (if aa_scope_id attr = 0 then Some (True, attr\<lparr>aa_scope_id := b\<rparr>) else None)
      else ExtractScopedAllocatorAttr rest output_index attr)"

definition output_attr :: "gview \<Rightarrow> nat \<Rightarrow> int \<Rightarrow> alloc_attrs option" where
  "output_attr gv nid out =
     do { item \<leftarrow> gv nid;
          if 0 \<le> out \<and> nat out < length (output_attrs item) then Some (output_attrs item ! nat out) else None }"

fun share_scopes :: "nat \<Rightarrow> nat \<Rightarrow> int list \<Rightarrow> edge list \<Rightarrow> gview \<Rightarrow> gview option" where
  "share_scopes sa_id use_id sc_attr [] gv = Some gv"
| "share_scopes sa_id use_id sc_attr (e # es) gv =
     (if is_control_edge e then share_scopes sa_id use_id sc_attr es gv
      else do {
        (found, attr) \<leftarrow> ExtractScopedAllocatorAttr sc_attr (e_src_output e) new_alloc_attrs;
        if found then do {
          gv1 \<leftarrow> merge_into use_id (e_src_output e) attr gv;
          used \<leftarrow> output_attr gv1 use_id (e_src_output e);
          gv2 \<leftarrow> merge_into sa_id 0 (used\<lparr>aa_scope_id := 0\<rparr>) gv1;
          share_scopes sa_id use_id sc_attr es gv2 }
        else share_scopes sa_id use_id sc_attr es gv })"

fun scope_users :: "graph \<Rightarrow> nat \<Rightarrow> edge list \<Rightarrow> gview \<Rightarrow> gview option" where
  "scope_users g sa_id [] gv = Some gv"
| "scope_users g sa_id (e # es) gv =
     (if \<not> is_control_edge e then scope_users g sa_id es gv
      else do {
        use_node \<leftarrow> graph_node g (e_dst e);
        gv' \<leftarrow> (case get_attr_int_list use_node ''_scoped_allocator'' of
                  Inl s \<Rightarrow> Some gv
                | Inr sc_attr \<Rightarrow> share_scopes sa_id (n_id use_node) sc_attr (n_out_edges use_node) gv);
        scope_users g sa_id es gv' })"

fun SetScopedAllocatorAttrs :: "graph \<Rightarrow> gnode list \<Rightarrow> gview \<Rightarrow> gview option" where
  "SetScopedAllocatorAttrs g [] gv = Some gv"
| "SetScopedAllocatorAttrs g (sa # sas) gv =
     do { gv' \<leftarrow> scope_users g (n_id sa) (n_out_edges sa) gv; SetScopedAllocatorAttrs g sas gv' }"

definition SetAllocAttrs ::
  "(string \<Rightarrow> string \<Rightarrow> bool) \<Rightarrow> graph \<Rightarrow> parsed_name \<Rightarrow> (nat \<Rightarrow> bool list) \<Rightarrow> gview \<Rightarrow> (status + gview) option" where
  "SetAllocAttrs starts g local_dev_name host_outputs gv =
     do { r \<leftarrow> set_node_attrs starts g local_dev_name host_outputs (graph_nodes g) gv;
          case r of Inl s \<Rightarrow> Some (Inl s)
          | Inr gv1 \<Rightarrow> map_option Inr (SetScopedAllocatorAttrs g (filter IsScopedAllocator (graph_nodes g)) gv1) }"

text \<open>All of \<open>ExecutorImpl::Initialize\<close>.\<close>

definition InitializeExecutor ::
  "abi \<Rightarrow> counts \<Rightarrow> (gnode \<Rightarrow> status + kernel) \<Rightarrow> (string \<Rightarrow> string \<Rightarrow> bool) \<Rightarrow> parsed_name
     \<Rightarrow> (nat \<Rightarrow> bool list) \<Rightarrow> graph \<Rightarrow> (status + exec_impl) option" where
  "InitializeExecutor a junk create_kernel starts local_dev_name host_outputs g =
     do { r \<leftarrow> ExecutorImpl_Initialize a junk create_kernel g;
          case r of Inl s \<Rightarrow> Some (Inl s)
          | Inr im \<Rightarrow> map_option (map_sum id (\<lambda>gv. im\<lparr>im_gview := gv\<rparr>))
                        (SetAllocAttrs starts g local_dev_name host_outputs (im_gview im)) }"

section \<open>Which outputs get which flags\<close>

definition remote_device :: "(string \<Rightarrow> string \<Rightarrow> bool) \<Rightarrow> string \<Rightarrow> gnode \<Rightarrow> parsed_name option" where
  "remote_device starts attr_name peer =
     (case get_attr_string peer attr_name of Inl s \<Rightarrow> None | Inr name \<Rightarrow> ParseFullName starts name)"

text \<open>The value is sent over the network, or copied between the CPU and an accelerator.\<close>

definition over_network :: "(string \<Rightarrow> string \<Rightarrow> bool) \<Rightarrow> parsed_name \<Rightarrow> gnode \<Rightarrow> gnode \<Rightarrow> bool" where
  "over_network starts local_dev n dst \<longleftrightarrow> IsCollective n
     \<or> (IsRecv n \<and> (\<exists>d. remote_device starts ''send_device'' n = Some d \<and> \<not> IsSameAddressSpace d local_dev))
     \<or> (IsSend dst \<and> (\<exists>d. remote_device starts ''recv_device'' dst = Some d \<and> \<not> IsSameAddressSpace d local_dev))"

definition over_dma :: "(string \<Rightarrow> string \<Rightarrow> bool) \<Rightarrow> parsed_name \<Rightarrow> gnode \<Rightarrow> gnode \<Rightarrow> bool" where
  "over_dma starts local_dev n dst \<longleftrightarrow>
     (IsRecv n \<and> (\<exists>d. remote_device starts ''send_device'' n = Some d \<and> IsSameAddressSpace d local_dev
        \<and> pn_type d \<noteq> ''CPU'' \<and> (pn_type local_dev = ''CPU'' \<or> IsHostRecv n)))
     \<or> (IsSend dst \<and> (\<exists>d. remote_device starts ''recv_device'' dst = Some d \<and> IsSameAddressSpace d local_dev
        \<and> pn_type d \<noteq> ''CPU'' \<and> (pn_type local_dev = ''CPU'' \<or> IsHostSend dst)))"

abbreviation flag :: "alloc_attrs \<Rightarrow> nat \<Rightarrow> bool" where
  "flag a k \<equiv> bit (aa_value a) k"

lemma flags: "on_host a = flag a 0" "nic_compatible a = flag a 1" "gpu_compatible a = flag a 2"
proof -
  have one: "a AND push_bit k 1 \<noteq> 0 \<longleftrightarrow> bit a k" for a :: "32 word" and k
    by (simp add: bit_iff_and_push_bit_not_eq_0)
  show "on_host a = flag a 0" using one [of "aa_value a" 0] by (simp add: on_host_def)
  show "nic_compatible a = flag a 1" using one [of "aa_value a" 1] by (simp add: nic_compatible_def)
  show "gpu_compatible a = flag a 2" using one [of "aa_value a" 2] by (simp add: gpu_compatible_def)
qed

lemma flag_masks:
  "bit (1 :: 32 word) k \<longleftrightarrow> k = 0" "bit (2 :: 32 word) k \<longleftrightarrow> k = 1" "bit (4 :: 32 word) k \<longleftrightarrow> k = 2"
proof -
  have p: "bit (2 ^ m :: 32 word) k \<longleftrightarrow> k = m" if "m < 32" for m
    using that by (auto simp: bit_exp_iff)
  show "bit (1 :: 32 word) k \<longleftrightarrow> k = 0" "bit (2 :: 32 word) k \<longleftrightarrow> k = 1" "bit (4 :: 32 word) k \<longleftrightarrow> k = 2"
    using p [of 0] p [of 1] p [of 2] by (simp_all del: bit_numeral_word_iff)
qed

lemma flag_set [simp]:
  "flag (set_on_host True a) k \<longleftrightarrow> k = 0 \<or> flag a k"
  "flag (set_nic_compatible True a) k \<longleftrightarrow> k = 1 \<or> flag a k"
  "flag (set_gpu_compatible True a) k \<longleftrightarrow> k = 2 \<or> flag a k"
  by (auto simp: set_on_host_def set_nic_compatible_def set_gpu_compatible_def flag_masks bit_or_iff
      simp del: bit_numeral_word_iff)

lemma flag_new [simp]: "\<not> flag new_alloc_attrs k" "aa_scope_id new_alloc_attrs = 0"
  by (simp_all add: new_alloc_attrs_def)

lemma scope_set [simp]:
  "aa_scope_id (set_on_host v a) = aa_scope_id a" "aa_scope_id (set_nic_compatible v a) = aa_scope_id a"
  "aa_scope_id (set_gpu_compatible v a) = aa_scope_id a"
  by (simp_all add: set_on_host_def set_nic_compatible_def set_gpu_compatible_def)

lemma remote_attr_flag:
  assumes "remote_attr starts name peer h n l a = Inr b"
  shows "flag b k \<longleftrightarrow> flag a k
      \<or> (k = 1 \<and> (\<exists>d. remote_device starts name peer = Some d \<and> \<not> IsSameAddressSpace d l))
      \<or> (k = 2 \<and> (\<exists>d. remote_device starts name peer = Some d \<and> IsSameAddressSpace d l
            \<and> pn_type d \<noteq> ''CPU'' \<and> (pn_type l = ''CPU'' \<or> h)))"
    and "aa_scope_id b = aa_scope_id a"
  using assms by (auto simp: remote_attr_def remote_device_def split: sum.splits option.splits if_splits)

lemma InferAllocAttr_flag:
  assumes inf: "InferAllocAttr starts n dst l new_alloc_attrs = Inr a"
  shows "flag a k \<longleftrightarrow> (k = 1 \<and> over_network starts l n dst) \<or> (k = 2 \<and> over_dma starts l n dst)" "aa_scope_id a = 0"
proof -
  obtain a1 where a1: "(if IsRecv n then remote_attr starts ''send_device'' n (IsHostRecv n) n l new_alloc_attrs
      else Inr new_alloc_attrs) = (Inr a1 :: status + alloc_attrs)"
    using inf by (auto simp: InferAllocAttr_def split: sum.splits)
  obtain a2 where a2: "(if IsSend dst then remote_attr starts ''recv_device'' dst (IsHostSend dst) n l a1
      else Inr a1) = (Inr a2 :: status + alloc_attrs)"
    using inf a1 by (auto simp: InferAllocAttr_def split: sum.splits)
  have a: "a = (if IsCollective n then set_nic_compatible True a2 else a2)"
    using inf a1 a2 by (simp add: InferAllocAttr_def)
  have f1: "flag a1 k \<longleftrightarrow> IsRecv n \<and>
       ((k = 1 \<and> (\<exists>d. remote_device starts ''send_device'' n = Some d \<and> \<not> IsSameAddressSpace d l))
      \<or> (k = 2 \<and> (\<exists>d. remote_device starts ''send_device'' n = Some d \<and> IsSameAddressSpace d l
            \<and> pn_type d \<noteq> ''CPU'' \<and> (pn_type l = ''CPU'' \<or> IsHostRecv n))))" "aa_scope_id a1 = 0"
    using a1 remote_attr_flag [of starts "''send_device''" n "IsHostRecv n" n l new_alloc_attrs a1]
    by (simp_all split: if_splits)
  have f2: "flag a2 k \<longleftrightarrow> flag a1 k \<or> IsSend dst \<and>
       ((k = 1 \<and> (\<exists>d. remote_device starts ''recv_device'' dst = Some d \<and> \<not> IsSameAddressSpace d l))
      \<or> (k = 2 \<and> (\<exists>d. remote_device starts ''recv_device'' dst = Some d \<and> IsSameAddressSpace d l
            \<and> pn_type d \<noteq> ''CPU'' \<and> (pn_type l = ''CPU'' \<or> IsHostSend dst))))" "aa_scope_id a2 = aa_scope_id a1"
    using a2 remote_attr_flag [of starts "''recv_device''" dst "IsHostSend dst" n l a1 a2]
    by (simp_all split: if_splits)
  have "flag a k \<longleftrightarrow> (k = 1 \<and> IsCollective n) \<or> flag a2 k" by (simp add: a)
  then show "flag a k \<longleftrightarrow> (k = 1 \<and> over_network starts l n dst) \<or> (k = 2 \<and> over_dma starts l n dst)"
    unfolding f1(1) f2(1) over_network_def over_dma_def by argo
  show "aa_scope_id a = 0" unfolding a using f1(2) f2(2) by simp
qed

definition out_flag :: "gview \<Rightarrow> nat \<Rightarrow> nat \<Rightarrow> nat \<Rightarrow> bool" where
  "out_flag gv i p k \<longleftrightarrow> (\<exists>item. gv i = Some item \<and> p < length (output_attrs item) \<and> flag (output_attrs item ! p) k)"

lemma merge_into_flag:
  assumes "merge_into i out a gv = Some gv'"
  shows "out_flag gv' j p k \<longleftrightarrow> out_flag gv j p k \<or> (j = i \<and> int p = out \<and> flag a k)"
proof -
  obtain item b where it: "gv i = Some item" "0 \<le> out" "nat out < length (output_attrs item)"
    "aa_merge (output_attrs item ! nat out) a = Some b"
    "gv' = gv(i \<mapsto> item\<lparr>output_attrs := (output_attrs item)[nat out := b]\<rparr>)"
    using assms by (auto simp: merge_into_def bind_eq_Some_conv split: if_splits)
  have "flag b k \<longleftrightarrow> flag (output_attrs item ! nat out) k \<or> flag a k" for k
    using aa_merge_spec(1) [OF it(4)] by (simp add: bit_or_iff)
  then show ?thesis using it by (cases "p = nat out") (auto simp: out_flag_def nth_list_update)
qed

text \<open>The number of outputs of an item does not change.\<close>

definition same_outputs :: "gview \<Rightarrow> gview \<Rightarrow> bool" where
  "same_outputs gv gv' \<longleftrightarrow>
     (\<forall>j. map_option (\<lambda>it. length (output_attrs it)) (gv' j) = map_option (\<lambda>it. length (output_attrs it)) (gv j))"

lemma same_outputs_refl [simp]: "same_outputs gv gv"
  by (simp add: same_outputs_def)

lemma same_outputs_trans: "same_outputs a b \<Longrightarrow> same_outputs b c \<Longrightarrow> same_outputs a c"
  by (simp add: same_outputs_def)

lemma merge_into_same: "merge_into i out a gv = Some gv' \<Longrightarrow> same_outputs gv gv'"
  by (auto simp: merge_into_def same_outputs_def bind_eq_Some_conv split: if_splits)

lemma set_edge_attrs_ConsE:
  assumes "set_edge_attrs starts g l n (e # es) gv = Some (Inr gv')"
  obtains (control) "is_control_edge e" "set_edge_attrs starts g l n es gv = Some (Inr gv')"
  | (unchanged) dst a where "\<not> is_control_edge e" "graph_node g (e_dst e) = Some dst"
      "InferAllocAttr starts n dst l new_alloc_attrs = Inr a" "aa_value a = 0" "aa_scope_id a = 0"
      "set_edge_attrs starts g l n es gv = Some (Inr gv')"
  | (merged) dst a gv1 where "\<not> is_control_edge e" "graph_node g (e_dst e) = Some dst"
      "InferAllocAttr starts n dst l new_alloc_attrs = Inr a" "merge_into (n_id n) (e_src_output e) a gv = Some gv1"
      "set_edge_attrs starts g l n es gv1 = Some (Inr gv')" "aa_value a \<noteq> 0 \<or> aa_scope_id a \<noteq> 0"
proof (cases "is_control_edge e")
  case True
  then show ?thesis using assms control by simp
next
  case False
  then obtain dst where d: "graph_node g (e_dst e) = Some dst" using assms by (auto simp: bind_eq_Some_conv)
  then obtain a where a: "InferAllocAttr starts n dst l new_alloc_attrs = Inr a"
    using assms False by (cases "InferAllocAttr starts n dst l new_alloc_attrs") (auto simp: bind_eq_Some_conv)
  show ?thesis
  proof (cases "aa_value a \<noteq> 0 \<or> aa_scope_id a \<noteq> 0")
    case True
    then show ?thesis using assms False d a merged by (auto simp: bind_eq_Some_conv)
  next
    case v: False
    then show ?thesis using assms False d a unchanged by simp
  qed
qed

lemma set_node_attrs_ConsE:
  assumes "set_node_attrs starts g l host (n # ns) gv = Some (Inr gv')"
  obtains gv1 gv2 where "set_edge_attrs starts g l n (n_out_edges n) gv = Some (Inr gv1)"
    "set_host_attrs (host (n_id n)) n [0..<n_num_outputs n] gv1 = Some gv2"
    "set_node_attrs starts g l host ns gv2 = Some (Inr gv')"
proof -
  obtain r where r: "set_edge_attrs starts g l n (n_out_edges n) gv = Some r"
    using assms by (auto simp: bind_eq_Some_conv)
  then show ?thesis using assms that by (cases r) (auto simp: bind_eq_Some_conv)
qed

lemma set_edge_attrs_same: "set_edge_attrs starts g l n es gv = Some (Inr gv') \<Longrightarrow> same_outputs gv gv'"
proof (induction es arbitrary: gv)
  case (Cons e es)
  from Cons.prems show ?case
    by (rule set_edge_attrs_ConsE) (blast intro: Cons.IH same_outputs_trans merge_into_same)+
qed simp

lemma set_host_attrs_same: "set_host_attrs h n outs gv = Some gv' \<Longrightarrow> same_outputs gv gv'"
  by (induction outs arbitrary: gv)
    (auto simp: bind_eq_Some_conv split: if_splits dest: merge_into_same intro: same_outputs_trans)

lemma set_node_attrs_same: "set_node_attrs starts g l host ns gv = Some (Inr gv') \<Longrightarrow> same_outputs gv gv'"
proof (induction ns arbitrary: gv)
  case (Cons n ns)
  from Cons.prems obtain gv1 gv2 where "set_edge_attrs starts g l n (n_out_edges n) gv = Some (Inr gv1)"
    "set_host_attrs (host (n_id n)) n [0..<n_num_outputs n] gv1 = Some gv2"
    "set_node_attrs starts g l host ns gv2 = Some (Inr gv')"
    by (rule set_node_attrs_ConsE)
  then show ?case using Cons.IH set_edge_attrs_same set_host_attrs_same same_outputs_trans by metis
qed simp

text \<open>An edge that asks for the flag \<open>k\<close> on output \<open>p\<close>.\<close>

definition edge_flag :: "(string \<Rightarrow> string \<Rightarrow> bool) \<Rightarrow> graph \<Rightarrow> parsed_name \<Rightarrow> gnode \<Rightarrow> edge \<Rightarrow> nat \<Rightarrow> nat \<Rightarrow> bool" where
  "edge_flag starts g l n e p k \<longleftrightarrow> \<not> is_control_edge e \<and> e_src_output e = int p
     \<and> (\<exists>dst. graph_node g (e_dst e) = Some dst
          \<and> ((k = 1 \<and> over_network starts l n dst) \<or> (k = 2 \<and> over_dma starts l n dst)))"

lemma set_edge_attrs_flag:
  "set_edge_attrs starts g l n es gv = Some (Inr gv') \<Longrightarrow>
     out_flag gv' j p k \<longleftrightarrow> out_flag gv j p k \<or> (j = n_id n \<and> (\<exists>e\<in>set es. edge_flag starts g l n e p k))"
proof (induction es arbitrary: gv)
  case (Cons e es)
  have ef: "edge_flag starts g l n e p k \<longleftrightarrow> e_src_output e = int p \<and> flag a k"
    if "\<not> is_control_edge e" "graph_node g (e_dst e) = Some dst" "InferAllocAttr starts n dst l new_alloc_attrs = Inr a"
    for dst a
    using that InferAllocAttr_flag(1) [OF that(3), of k] by (auto simp: edge_flag_def)
  from Cons.prems show ?case
  proof (cases rule: set_edge_attrs_ConsE)
    case control
    then show ?thesis using Cons.IH [of gv] by (auto simp: edge_flag_def)
  next
    case (unchanged dst a)
    then show ?thesis using Cons.IH [of gv] ef [of dst a] by auto
  next
    case (merged dst a gv1)
    then show ?thesis
      using Cons.IH [of gv1] merge_into_flag [of "n_id n" "e_src_output e" a gv gv1 j p k] ef [of dst a] by auto
  qed
qed simp

lemma set_host_attrs_flag:
  "set_host_attrs h n outs gv = Some gv' \<Longrightarrow>
     out_flag gv' j p k \<longleftrightarrow> out_flag gv j p k \<or> (j = n_id n \<and> p \<in> set outs \<and> h ! p \<and> k = 0)"
proof (induction outs arbitrary: gv)
  case (Cons q outs)
  then obtain gv1 where g1: "(if h ! q then merge_into (n_id n) (int q) (set_on_host True new_alloc_attrs) gv
                        else Some gv) = Some gv1" "set_host_attrs h n outs gv1 = Some gv'"
    by (auto simp: bind_eq_Some_conv split: if_splits)
  show ?case
  proof (cases "h ! q")
    case True
    then show ?thesis using g1 Cons.IH [OF g1(2)] merge_into_flag [of "n_id n" "int q" "set_on_host True new_alloc_attrs" gv gv1 j p k]
      by auto
  next
    case False
    then show ?thesis using g1 Cons.IH [OF g1(2)] by auto
  qed
qed simp

lemma set_node_attrs_flag:
  "set_node_attrs starts g l host ns gv = Some (Inr gv') \<Longrightarrow>
     out_flag gv' j p k \<longleftrightarrow> out_flag gv j p k
       \<or> (\<exists>n\<in>set ns. j = n_id n \<and> ((\<exists>e\<in>set (n_out_edges n). edge_flag starts g l n e p k)
            \<or> (p < n_num_outputs n \<and> host j ! p \<and> k = 0)))"
proof (induction ns arbitrary: gv)
  case (Cons n ns)
  from Cons.prems obtain gv1 gv2 where "set_edge_attrs starts g l n (n_out_edges n) gv = Some (Inr gv1)"
    "set_host_attrs (host (n_id n)) n [0..<n_num_outputs n] gv1 = Some gv2"
    "set_node_attrs starts g l host ns gv2 = Some (Inr gv')"
    by (rule set_node_attrs_ConsE)
  then show ?case using Cons.IH [of gv2] set_edge_attrs_flag [of starts g l n "n_out_edges n" gv gv1 j p k]
      set_host_attrs_flag [of "host (n_id n)" n "[0..<n_num_outputs n]" gv1 gv2 j p k] by auto
qed simp

text \<open>
  C33: In a graph without scoped allocators, when the attributes can be set at all, an output is
  made reachable for the network exactly when one of its data edges goes over the network
  (or its node is a collective), reachable for an accelerator exactly when one of them is
  copied to or from one, and placed on the host exactly when the kernel says so; in each
  case unless it was so before.
\<close>

theorem alloc_attrs_exact:
  assumes run: "SetAllocAttrs starts g l host gv = Some (Inr gv')"
    and no_sa: "\<forall>n\<in>set (graph_nodes g). \<not> IsScopedAllocator n"
    and ids: "inj_on n_id (set (graph_nodes g))"
    and n: "n \<in> set (graph_nodes g)" "gv (n_id n) = Some item" "p < length (output_attrs item)" "p < n_num_outputs n"
  shows "\<exists>item'. gv' (n_id n) = Some item' \<and> length (output_attrs item') = length (output_attrs item)
    \<and> nic_compatible (output_attrs item' ! p) = (nic_compatible (output_attrs item ! p)
        \<or> (\<exists>e\<in>set (n_out_edges n). edge_flag starts g l n e p 1))
    \<and> gpu_compatible (output_attrs item' ! p) = (gpu_compatible (output_attrs item ! p)
        \<or> (\<exists>e\<in>set (n_out_edges n). edge_flag starts g l n e p 2))
    \<and> on_host (output_attrs item' ! p) = (on_host (output_attrs item ! p) \<or> host (n_id n) ! p)"
proof -
  have "filter IsScopedAllocator (graph_nodes g) = []" using no_sa by (simp add: filter_empty_conv)
  then have run': "set_node_attrs starts g l host (graph_nodes g) gv = Some (Inr gv')"
    using run by (cases "set_node_attrs starts g l host (graph_nodes g) gv")
      (auto simp: SetAllocAttrs_def split: sum.splits)
  obtain item' where item': "gv' (n_id n) = Some item'" "length (output_attrs item') = length (output_attrs item)"
  proof -
    have "map_option (\<lambda>it. length (output_attrs it)) (gv' (n_id n)) = Some (length (output_attrs item))"
      using set_node_attrs_same [OF run'] n(2) by (simp add: same_outputs_def)
    then show ?thesis using that by (cases "gv' (n_id n)") auto
  qed
  have old: "out_flag gv (n_id n) p k = flag (output_attrs item ! p) k"
    and new: "out_flag gv' (n_id n) p k = flag (output_attrs item' ! p) k" for k
    using n(2,3) item' by (auto simp: out_flag_def)
  have one: "m = n" if "m \<in> set (graph_nodes g)" "n_id n = n_id m" for m
    using inj_onD [OF ids that(2)] n(1) that(1) by simp
  have ef0: "\<not> edge_flag starts g l m e p 0" for m e by (simp add: edge_flag_def)
  have "flag (output_attrs item' ! p) k \<longleftrightarrow> flag (output_attrs item ! p) k
      \<or> (\<exists>e\<in>set (n_out_edges n). edge_flag starts g l n e p k) \<or> (host (n_id n) ! p \<and> k = 0)" for k
    using set_node_attrs_flag [OF run', of "n_id n" p k] old new one n(1,4) by blast
  then show ?thesis using item' ef0 unfolding flags by auto
qed

text \<open>A collective with one output, which feeds another node.\<close>

definition ring_node :: gnode where
  "ring_node = \<lparr>n_id = 2, n_name = ''sum'', n_op = ''CollectiveReduce'', n_class = NC_COLLECTIVE, n_in_edges = [],
     n_out_edges = [\<lparr>e_src = 2, e_dst = 3, e_src_output = 0, e_dst_input = 0\<rparr>], n_input_types = [], n_output_types = [1],
     n_attrs = [], n_allows_uninitialized_input = False\<rparr>"

definition ring_user :: gnode where
  "ring_user = \<lparr>n_id = 3, n_name = ''use'', n_op = ''Neg'', n_class = NC_OTHER,
     n_in_edges = [\<lparr>e_src = 2, e_dst = 3, e_src_output = 0, e_dst_input = 0\<rparr>], n_out_edges = [], n_input_types = [1],
     n_output_types = [], n_attrs = [], n_allows_uninitialized_input = False\<rparr>"

definition ring_graph :: graph where
  "ring_graph = [None, None, Some ring_node, Some ring_user]"

definition ring_view :: gview where
  "ring_view = [2 \<mapsto> InitializeNode ring_node, 3 \<mapsto> InitializeNode ring_user]"

lemma ring_attrs: "output_attrs (InitializeNode ring_node) = [new_alloc_attrs]"
  by (simp add: InitializeNode_def init_output_def get_attr_int_list_def get_node_attr_def find_attr_def ring_node_def
      n_num_outputs_def Let_def)

lemma ring_simps:
  "graph_nodes ring_graph = [ring_node, ring_user]" "graph_node ring_graph 3 = Some ring_user"
  "n_id ring_node = 2" "n_id ring_user = 3" "n_num_outputs ring_node = 1" "n_num_outputs ring_user = 0"
  "n_out_edges ring_node = [\<lparr>e_src = 2, e_dst = 3, e_src_output = 0, e_dst_input = 0\<rparr>]" "n_out_edges ring_user = []"
  "\<not> IsScopedAllocator ring_node" "\<not> IsScopedAllocator ring_user"
  "IsCollective ring_node" "\<not> IsRecv ring_node" "\<not> IsSend ring_user"
  by (simp_all add: ring_graph_def graph_nodes_def map_filter_def graph_node_def n_num_outputs_def IsScopedAllocator_def
      IsCollective_def IsRecv_def IsSend_def) (simp_all add: ring_node_def ring_user_def)

lemma merge_new: "aa_scope_id a = 0 \<Longrightarrow> aa_scope_id b = 0 \<Longrightarrow> \<exists>c. aa_merge a b = Some c \<and> aa_scope_id c = 0"
  by (simp add: aa_merge_def Let_def)

lemma merge_into_runs:
  assumes "gv i = Some item" "output_attrs item = [b]" "aa_scope_id b = 0" "aa_scope_id a = 0"
  shows "\<exists>gv' item' b'. merge_into i 0 a gv = Some gv' \<and> gv' i = Some item' \<and> output_attrs item' = [b'] \<and> aa_scope_id b' = 0"
  using merge_new [OF assms(3,4)] assms(1,2) by (auto simp: merge_into_def)

lemma ring_runs: "\<exists>gv'. SetAllocAttrs starts ring_graph l (\<lambda>i. [True]) ring_view = Some (Inr gv')"
proof -
  let ?a = "set_nic_compatible True new_alloc_attrs"
  have a: "InferAllocAttr starts ring_node ring_user l new_alloc_attrs = Inr ?a"
    by (simp add: InferAllocAttr_def ring_simps)
  have ne: "aa_value ?a \<noteq> 0" by (simp add: set_nic_compatible_def new_alloc_attrs_def)
  have "ring_view 2 = Some (InitializeNode ring_node)" by (simp add: ring_view_def)
  then obtain gv1 item1 b1 where m1: "merge_into 2 0 ?a ring_view = Some gv1" "gv1 2 = Some item1"
    "output_attrs item1 = [b1]" "aa_scope_id b1 = 0"
    using merge_into_runs [OF _ ring_attrs, of ring_view 2 ?a] by auto
  obtain gv2 where m2: "merge_into 2 0 (set_on_host True new_alloc_attrs) gv1 = Some gv2"
    using merge_into_runs [of gv1 2 item1 b1 "set_on_host True new_alloc_attrs"] m1 by auto
  have e: "set_edge_attrs starts ring_graph l ring_node (n_out_edges ring_node) ring_view = Some (Inr gv1)"
    using a m1 ne by (simp add: ring_simps is_control_edge_def kControlSlot_def)
  have h: "set_host_attrs [True] ring_node [0..<n_num_outputs ring_node] gv1 = Some gv2"
    using m2 by (simp add: ring_simps)
  have "set_node_attrs starts ring_graph l (\<lambda>i. [True]) [ring_node, ring_user] ring_view = Some (Inr gv2)"
    by (simp add: e h ring_simps(6,8))
  then show ?thesis by (simp add: SetAllocAttrs_def ring_simps)
qed

lemma alloc_attrs_exact_witness:
  "\<exists>gv' item'. SetAllocAttrs starts_with ring_graph cleared_name (\<lambda>i. [True]) ring_view = Some (Inr gv')
    \<and> gv' 2 = Some item' \<and> nic_compatible (output_attrs item' ! 0) \<and> \<not> gpu_compatible (output_attrs item' ! 0)
    \<and> on_host (output_attrs item' ! 0)"
proof -
  obtain gv' where run: "SetAllocAttrs starts_with ring_graph cleared_name (\<lambda>i. [True]) ring_view = Some (Inr gv')"
    using ring_runs by blast
  let ?e = "\<lparr>e_src = 2, e_dst = 3, e_src_output = 0, e_dst_input = 0\<rparr>"
  have e1: "edge_flag starts_with ring_graph cleared_name ring_node ?e 0 1"
    and e2: "\<not> edge_flag starts_with ring_graph cleared_name ring_node ?e 0 2"
    by (simp_all add: edge_flag_def ring_simps over_network_def over_dma_def is_control_edge_def kControlSlot_def)
  have "inj_on n_id (set (graph_nodes ring_graph))" by (auto simp: inj_on_def ring_simps)
  with e1 e2 alloc_attrs_exact [OF run, of ring_node "InitializeNode ring_node" 0]
  show ?thesis using run by (auto simp: ring_simps ring_attrs ring_view_def flags simp del: inj_on_insert)
qed

end
