(* ===== verification/Schedule_Client.thy ===== *)
theory Schedule_Client
  imports Prelude
begin

text \<open>
  The client of the scheduling service
  (core/distributed_runtime/rpc/grpc_schedule_client_impl.cc and .h): a bidirectional stream
  to a scheduler that is to tell the executor how many threads it may use. The constructor of
  \<open>ExecutorState\<close> makes one for every step (core/common_runtime/executor.cc).

  gRPC is not part of the repository. What the model takes from its documentation: an
  operation on the stream is outstanding until the completion queue delivers its tag; a read
  or write is delivered only after the start of the call; once a tag was delivered with
  \<open>ok\<close> false the stream is dead and every later one is, too. A read that succeeds has filled
  in the response before its tag is delivered.
\<close>

datatype tag = CONNECT | UPDATE | WRITE | FINISH

record client_request =
  rq_state :: int
  rq_type_device :: string
  rq_num_type_device :: int

record server_reply =
  rp_client_id :: int
  rp_num_threads :: int

datatype stream_op = Start tag | Write client_request tag | Read tag

record schedule_client =
  sc_response :: server_reply
  sc_num_threads_availables :: int
  sc_client_id :: int
  sc_finished :: bool
  sc_outstanding :: "stream_op list"

definition issue :: "stream_op \<Rightarrow> schedule_client \<Rightarrow> schedule_client" where
  "issue operation c = c\<lparr>sc_outstanding := sc_outstanding c @ [operation]\<rparr>"

definition empty_request :: client_request where
  "empty_request = \<lparr>rq_state = 0, rq_type_device = [], rq_num_type_device = 0\<rparr>"

definition new_schedule_client :: schedule_client where
  "new_schedule_client = issue (Start CONNECT)
     \<lparr>sc_response = \<lparr>rp_client_id = 0, rp_num_threads = 0\<rparr>, sc_num_threads_availables = 1, sc_client_id = - 1,
      sc_finished = False, sc_outstanding = []\<rparr>"

definition AsyncRequestSchedule :: "int \<Rightarrow> string \<Rightarrow> int \<Rightarrow> schedule_client \<Rightarrow> schedule_client" where
  "AsyncRequestSchedule state type_device num_type c =
     issue (Write \<lparr>rq_state = state, rq_type_device = type_device, rq_num_type_device = num_type\<rparr> WRITE) c"

definition AsyncClientRequestNextMessage :: "schedule_client \<Rightarrow> schedule_client" where
  "AsyncClientRequestNextMessage c = issue (Read WRITE) c"

definition FinishedRPCCLient :: "schedule_client \<Rightarrow> schedule_client" where
  "FinishedRPCCLient c = c\<lparr>sc_finished := True\<rparr>"

text \<open>One turn of the loop of \<open>GrpcThread\<close>; \<open>None\<close> is the failed assertion on an unexpected tag.\<close>

definition on_tag :: "tag \<Rightarrow> bool \<Rightarrow> schedule_client \<Rightarrow> schedule_client option" where
  "on_tag got_tag ok c =
     do { c1 \<leftarrow> (if ok \<and> \<not> sc_finished c
                 then (case got_tag of
                     WRITE \<Rightarrow>
                       (let c' = AsyncClientRequestNextMessage c;
                            c2 = c'\<lparr>sc_num_threads_availables := rp_num_threads (sc_response c')\<rparr>
                        in Some (if sc_client_id c2 = - 1
                                 then c2\<lparr>sc_client_id := rp_client_id (sc_response c2)\<rparr> else c2))
                   | _ \<Rightarrow> None)
                 else Some c);
          Some (if sc_finished c1 then issue (Write empty_request FINISH) c1 else c1) }"

text \<open>The tag of an operation, and what a successful read leaves in the response.\<close>

fun op_tag :: "stream_op \<Rightarrow> tag" where
  "op_tag (Start t) = t"
| "op_tag (Write r t) = t"
| "op_tag (Read t) = t"

definition deliver :: "server_reply \<Rightarrow> stream_op \<Rightarrow> bool \<Rightarrow> schedule_client \<Rightarrow> schedule_client" where
  "deliver reply operation ok c =
     (let c' = c\<lparr>sc_outstanding := remove1 operation (sc_outstanding c)\<rparr>
      in case operation of Read _ \<Rightarrow> (if ok then c'\<lparr>sc_response := reply\<rparr> else c') | _ \<Rightarrow> c')"

definition deliverable :: "stream_op \<Rightarrow> schedule_client \<Rightarrow> bool" where
  "deliverable operation c \<longleftrightarrow> operation \<in> set (sc_outstanding c)
     \<and> ((\<exists>t. operation = Start t) \<or> (\<forall>t. Start t \<notin> set (sc_outstanding c)))"

text \<open>
  A client with its stream, which is alive or dead: other threads send requests or finish, and
  the queue delivers. There is no step when the assertion fails: the process is gone.
\<close>

inductive client_step :: "schedule_client \<times> bool \<Rightarrow> schedule_client \<times> bool \<Rightarrow> bool" where
  request: "client_step (c, alive) (AsyncRequestSchedule state type_device num_type c, alive)"
| finish: "client_step (c, alive) (FinishedRPCCLient c, alive)"
| tag: "deliverable operation c \<Longrightarrow> (ok \<longrightarrow> alive) \<Longrightarrow> on_tag (op_tag operation) ok (deliver reply operation ok c) = Some c'
    \<Longrightarrow> client_step (c, alive) (c', ok)"

inductive_cases client_stepE: "client_step s t"

definition client_start :: "schedule_client \<times> bool \<Rightarrow> bool" where
  "client_start s \<longleftrightarrow> s = (new_schedule_client, True)"

section \<open>The client never learns anything\<close>

text \<open>
  The start of the call has not been delivered, or its tag went by while the stream was dead or
  the client finished: in each case no reply is ever looked at.
\<close>

definition ignorant :: "schedule_client \<times> bool \<Rightarrow> bool" where
  "ignorant s \<longleftrightarrow> sc_num_threads_availables (fst s) = 1 \<and> sc_client_id (fst s) = - 1
     \<and> (\<forall>t. Start t \<in> set (sc_outstanding (fst s)) \<longrightarrow> t = CONNECT)
     \<and> (Start CONNECT \<in> set (sc_outstanding (fst s)) \<or> sc_finished (fst s) \<or> \<not> snd s)"

lemma issue_fields [simp]:
  "sc_response (issue x c) = sc_response c" "sc_num_threads_availables (issue x c) = sc_num_threads_availables c"
  "sc_client_id (issue x c) = sc_client_id c" "sc_finished (issue x c) = sc_finished c"
  "sc_outstanding (issue x c) = sc_outstanding c @ [x]"
  by (simp_all add: issue_def)

lemma deliver_fields [simp]:
  "sc_num_threads_availables (deliver r x ok c) = sc_num_threads_availables c"
  "sc_client_id (deliver r x ok c) = sc_client_id c" "sc_finished (deliver r x ok c) = sc_finished c"
  "sc_outstanding (deliver r x ok c) = remove1 x (sc_outstanding c)"
  by (simp_all add: deliver_def Let_def split: stream_op.split)

lemma ignored_tag:
  "\<not> ok \<or> sc_finished c \<Longrightarrow>
     on_tag t ok c = Some (if sc_finished c then issue (Write empty_request FINISH) c else c)"
  by (auto simp: on_tag_def)

lemma ignorant_tag:
  assumes i: "ignorant (c, alive)" and d: "deliverable x c" "ok \<longrightarrow> alive"
    and run: "on_tag (op_tag x) ok (deliver r x ok c) = Some c'"
  shows "ignorant (c', ok)"
proof -
  have skip: "\<not> ok \<or> sc_finished c"
  proof (rule ccontr)
    assume "\<not> (\<not> ok \<or> sc_finished c)"
    then have ok: "ok" "\<not> sc_finished c" by auto
    then have "Start CONNECT \<in> set (sc_outstanding c)" using i d(2) by (auto simp: ignorant_def)
    then obtain t where "x = Start t" using d(1) by (auto simp: deliverable_def)
    then have "x = Start CONNECT" using i d(1) by (auto simp: ignorant_def deliverable_def)
    then show False using run ok by (simp add: on_tag_def)
  qed
  then have c': "c' = (if sc_finished c then issue (Write empty_request FINISH) (deliver r x ok c) else deliver r x ok c)"
    using run ignored_tag [of ok "deliver r x ok c"] by simp
  have "t = CONNECT" if "Start t \<in> set (remove1 x (sc_outstanding c))" for t
    using i subsetD [OF set_remove1_subset that] by (auto simp: ignorant_def)
  then show ?thesis using i skip by (auto simp: ignorant_def c')
qed

interpretation client: invariant_system client_start client_step ignorant
proof
  show "ignorant s" if "client_start s" for s
    using that by (simp add: client_start_def ignorant_def new_schedule_client_def)
next
  fix s t assume i: "ignorant s" and st: "client_step s t"
  from st show "ignorant t"
  proof (rule client_stepE)
    fix c alive state ty num
    assume "s = (c, alive)" "t = (AsyncRequestSchedule state ty num c, alive)"
    then show ?thesis using i by (auto simp: ignorant_def AsyncRequestSchedule_def)
  next
    fix c alive
    assume "s = (c, alive)" "t = (FinishedRPCCLient c, alive)"
    then show ?thesis using i by (auto simp: ignorant_def FinishedRPCCLient_def)
  next
    fix x c ok alive r c'
    assume "s = (c, alive)" "t = (c', ok)" "deliverable x c" "ok \<longrightarrow> alive"
      "on_tag (op_tag x) ok (deliver r x ok c) = Some c'"
    then show ?thesis using ignorant_tag i by blast
  qed
qed

text \<open>
  The client every step creates is of no use: the tag of the connection itself is an
  unexpected one, so that a connection that is set up while the client is not finished ends
  the process; and in every run in which the process lives, the number of threads stays at 1
  and the id unknown, whatever the scheduler replies.
\<close>

theorem client_learns_nothing:
  assumes "reach client_start client_step (c, alive)"
  shows "sc_num_threads_availables c = 1 \<and> sc_client_id c = - 1
    \<and> (sc_finished c \<or> on_tag CONNECT True (deliver reply (Start CONNECT) True c) = None)"
proof -
  have "sc_finished c \<or> on_tag CONNECT True (deliver reply (Start CONNECT) True c) = None"
    by (cases "sc_finished c") (simp_all add: on_tag_def)
  then show ?thesis using client.reach_inv [OF assms] by (simp add: ignorant_def)
qed

lemma client_learns_nothing_witness:
  "sc_num_threads_availables (AsyncRequestSchedule 1 ''CPU'' 4 new_schedule_client) = 1"
proof -
  have "reach client_start client_step (AsyncRequestSchedule 1 ''CPU'' 4 new_schedule_client, True)"
    by (rule reach.reach_step [of _ _ "(new_schedule_client, True)"])
      (auto simp: client_start_def intro: reach.reach_init client_step.request)
  then show ?thesis using client_learns_nothing by blast
qed

text \<open>
  Once the client is finished every tag makes it write again, so the queue never runs dry.
\<close>

lemma finish_never_ends:
  assumes "sc_finished c" "deliverable x c" "on_tag (op_tag x) ok (deliver r x ok c) = Some c'"
  shows "length (sc_outstanding c') = length (sc_outstanding c)"
proof -
  have "x \<in> set (sc_outstanding c)" using assms(2) by (simp add: deliverable_def)
  then have "0 < length (sc_outstanding c)" by auto
  then show ?thesis using assms(1,3) ignored_tag [of ok "deliver r x ok c"] \<open>x \<in> set (sc_outstanding c)\<close>
    by (auto simp: length_remove1)
qed

end
