(* ===== verification/Flat_Rep.thy ===== *)
theory Flat_Rep
  imports Prelude
begin

unbundle bit_operations_syntax

text \<open>
  The hash tables of the runtime: core/lib/gtl/flatrep.h, and \<open>FlatMap\<close> and \<open>FlatSet\<close> on top
  of it (flatmap.h, flatset.h). The executor keeps its outstanding frames and frame infos in
  them, the rendezvous its table, the cancellation manager its callbacks, and a graph its
  larger edge sets.

  The buckets of eight entries are one list: entry \<open>i\<close> is entry \<open>i AND 7\<close> of bucket
  \<open>i >> 3\<close>. An entry that is occupied holds its marker, key and value; a set is a map
  to \<open>unit\<close>. The hash function \<open>hf\<close> is the template argument. \<open>None\<close> is a call that does not
  return: a probe sequence that never ends, or a capacity that \<open>Init\<close> cannot compute.
\<close>

datatype ('k, 'v) entry = Empty_entry | Deleted_entry | Full_entry nat 'k 'v

record ('k, 'v) flat_rep =
  fr_array :: "('k, 'v) entry list"
  fr_mask :: nat
  fr_not_empty :: nat
  fr_deleted :: nat
  fr_grow :: nat
  fr_shrink :: nat

definition kWidth :: nat where "kWidth = 2 ^ 3"

text \<open>The counters are of type \<open>size_t\<close>.\<close>

definition minus64 :: "nat \<Rightarrow> nat \<Rightarrow> nat" where
  "minus64 a b = nat ((int a - int b) mod 2 ^ 64)"

definition plus64 :: "nat \<Rightarrow> nat \<Rightarrow> nat" where
  "plus64 a b = (a + b) mod 2 ^ 64"

definition fr_size :: "('k, 'v) flat_rep \<Rightarrow> nat" where
  "fr_size r = minus64 (fr_not_empty r) (fr_deleted r)"

definition bucket_count :: "('k, 'v) flat_rep \<Rightarrow> nat" where
  "bucket_count r = plus64 (fr_mask r) 1"

definition is_full :: "('k, 'v) entry \<Rightarrow> bool" where
  "is_full e = (case e of Full_entry m k v \<Rightarrow> True | _ \<Rightarrow> False)"

definition Marker :: "nat \<Rightarrow> nat" where
  "Marker hb = hb + (if hb < 2 then 2 else 0)"

definition start_index :: "nat \<Rightarrow> nat \<Rightarrow> nat" where
  "start_index h msk = drop_bit 8 h AND msk"

definition NextIndex :: "nat \<Rightarrow> nat \<Rightarrow> nat \<Rightarrow> nat" where
  "NextIndex msk i num_probes = (i + num_probes) AND msk"

section \<open>Capacity\<close>

text \<open>
  The double nearest to 0.8 is \<open>four_fifths / 2^52\<close>, the one nearest to 0.4 its half. A
  capacity is a power of two, so the products with 0.8 are exact; \<open>grow_ * 0.4\<close> is rounded, but
  0.4 times a natural number is an integer or at least 0.2 below the next one, so the rounding
  does not reach the next integer.

  \<open>1 << lg\<close> is an \<open>int\<close> and \<open>kWidth\<close> a \<open>uint32\<close>: from \<open>lg = 29\<close> on their product wraps to 0, and
  the loop of \<open>Init\<close> never finds room.
\<close>

definition four_fifths :: nat where "four_fifths = 3602879701896397"

definition load_limit :: "nat \<Rightarrow> nat" where
  "load_limit capacity = capacity * four_fifths div 2 ^ 52"

function init_lg :: "nat \<Rightarrow> nat \<Rightarrow> nat option" where
  "init_lg n lg = (if 29 \<le> lg then None
     else if 2 ^ lg * kWidth * four_fifths \<le> n * 2 ^ 52 then init_lg n (lg + 1) else Some lg)"
  by pat_completeness auto
termination by (relation "measure (\<lambda>(n, lg). 29 - lg)") auto

declare init_lg.simps [simp del]

definition new_table :: "nat \<Rightarrow> ('k, 'v) flat_rep" where
  "new_table lg =
     (let capacity = 2 ^ lg * kWidth; g = load_limit capacity in
      \<lparr>fr_array = replicate capacity Empty_entry, fr_mask = capacity - 1, fr_not_empty = 0, fr_deleted = 0,
       fr_grow = g, fr_shrink = (if lg = 0 then 0 else g * four_fifths div 2 ^ 53)\<rparr>)"

definition flat_init :: "nat \<Rightarrow> ('k, 'v) flat_rep option" where
  "flat_init n = map_option new_table (init_lg n 0)"

section \<open>Probing\<close>

partial_function (option) find_loop ::
  "('k, 'v) flat_rep \<Rightarrow> nat \<Rightarrow> 'k \<Rightarrow> nat \<Rightarrow> nat \<Rightarrow> nat option option" where
  "find_loop r marker k index num_probes =
     (case fr_array r ! index of
        Full_entry x key val \<Rightarrow>
          (if x = marker \<and> key = k then Some (Some index)
           else find_loop r marker k (NextIndex (fr_mask r) index num_probes) (num_probes + 1))
      | Empty_entry \<Rightarrow> Some None
      | Deleted_entry \<Rightarrow> find_loop r marker k (NextIndex (fr_mask r) index num_probes) (num_probes + 1))"

definition fr_Find :: "('k \<Rightarrow> nat) \<Rightarrow> 'k \<Rightarrow> ('k, 'v) flat_rep \<Rightarrow> nat option option" where
  "fr_Find hf k r = find_loop r (Marker (hf k AND 255)) k (start_index (hf k) (fr_mask r)) 1"

text \<open>Where a key is (\<open>Inl\<close>), or where to put it and whether that entry was deleted (\<open>Inr\<close>).\<close>

partial_function (option) insert_loop ::
  "('k, 'v) flat_rep \<Rightarrow> nat \<Rightarrow> 'k \<Rightarrow> nat \<Rightarrow> nat \<Rightarrow> nat option \<Rightarrow> (nat + nat \<times> bool) option" where
  "insert_loop r marker k index num_probes del =
     (case fr_array r ! index of
        Full_entry x key val \<Rightarrow>
          (if x = marker \<and> key = k then Some (Inl index)
           else insert_loop r marker k (NextIndex (fr_mask r) index num_probes) (num_probes + 1) del)
      | Deleted_entry \<Rightarrow>
          insert_loop r marker k (NextIndex (fr_mask r) index num_probes) (num_probes + 1)
            (if del = None then Some index else del)
      | Empty_entry \<Rightarrow> Some (Inr (case del of Some d \<Rightarrow> (d, True) | None \<Rightarrow> (index, False))))"

text \<open>The caller initialises the value of a new entry; here it is an argument.\<close>

definition fr_FindOrInsert ::
  "('k \<Rightarrow> nat) \<Rightarrow> 'k \<Rightarrow> 'v \<Rightarrow> ('k, 'v) flat_rep \<Rightarrow> (bool \<times> nat \<times> ('k, 'v) flat_rep) option" where
  "fr_FindOrInsert hf k v r =
     do { res \<leftarrow> insert_loop r (Marker (hf k AND 255)) k (start_index (hf k) (fr_mask r)) 1 None;
          Some (case res of
              Inl i \<Rightarrow> (True, i, r)
            | Inr (i, reuse) \<Rightarrow>
                (False, i, r\<lparr>fr_array := (fr_array r)[i := Full_entry (Marker (hf k AND 255)) k v],
                   fr_not_empty := (if reuse then fr_not_empty r else plus64 (fr_not_empty r) 1),
                   fr_deleted := (if reuse then minus64 (fr_deleted r) 1 else fr_deleted r)\<rparr>)) }"

definition fr_Erase :: "nat \<Rightarrow> ('k, 'v) flat_rep \<Rightarrow> ('k, 'v) flat_rep" where
  "fr_Erase i r = r\<lparr>fr_array := (fr_array r)[i := Deleted_entry], fr_deleted := plus64 (fr_deleted r) 1, fr_grow := 0\<rparr>"

section \<open>Copying and resizing\<close>

partial_function (option) fresh_loop :: "('k, 'v) flat_rep \<Rightarrow> nat \<Rightarrow> nat \<Rightarrow> nat option" where
  "fresh_loop r index num_probes =
     (if fr_array r ! index = Empty_entry then Some index
      else fresh_loop r (NextIndex (fr_mask r) index num_probes) (num_probes + 1))"

definition FreshInsert :: "('k \<Rightarrow> nat) \<Rightarrow> 'k \<Rightarrow> 'v \<Rightarrow> ('k, 'v) flat_rep \<Rightarrow> ('k, 'v) flat_rep option" where
  "FreshInsert hf k v r =
     do { i \<leftarrow> fresh_loop r (start_index (hf k) (fr_mask r)) 1;
          Some (r\<lparr>fr_array := (fr_array r)[i := Full_entry (Marker (hf k AND 255)) k v],
                  fr_not_empty := plus64 (fr_not_empty r) 1\<rparr>) }"

fun CopyEntries :: "('k \<Rightarrow> nat) \<Rightarrow> ('k, 'v) entry list \<Rightarrow> ('k, 'v) flat_rep \<Rightarrow> ('k, 'v) flat_rep option" where
  "CopyEntries hf [] r = Some r"
| "CopyEntries hf (Full_entry m k v # es) r = Option.bind (FreshInsert hf k v r) (CopyEntries hf es)"
| "CopyEntries hf (e # es) r = CopyEntries hf es r"

text \<open>The old array is deleted, so that its entries were marked as deleted does not show.\<close>

definition Resize :: "('k \<Rightarrow> nat) \<Rightarrow> nat \<Rightarrow> ('k, 'v) flat_rep \<Rightarrow> ('k, 'v) flat_rep option" where
  "Resize hf n r = Option.bind (flat_init n) (CopyEntries hf (fr_array r))"

definition MaybeResize :: "('k \<Rightarrow> nat) \<Rightarrow> ('k, 'v) flat_rep \<Rightarrow> ('k, 'v) flat_rep option" where
  "MaybeResize hf r =
     (if fr_not_empty r < fr_grow r then Some r
      else if fr_grow r = 0 \<and> fr_shrink r \<le> fr_size r then
        (let r' = r\<lparr>fr_grow := load_limit (bucket_count r)\<rparr>
         in if fr_not_empty r' < fr_grow r' then Some r' else Resize hf (plus64 (fr_size r') 1) r')
      else Resize hf (plus64 (fr_size r) 1) r)"

definition clear_entry :: "('k, 'v) entry \<Rightarrow> ('k, 'v) entry" where
  "clear_entry e = (if is_full e then Empty_entry else e)"

definition clear_no_resize :: "('k, 'v) flat_rep \<Rightarrow> ('k, 'v) flat_rep" where
  "clear_no_resize r = r\<lparr>fr_array := map clear_entry (fr_array r), fr_not_empty := 0, fr_deleted := 0\<rparr>"

definition fr_clear :: "('k \<Rightarrow> nat) \<Rightarrow> ('k, 'v) flat_rep \<Rightarrow> ('k, 'v) flat_rep option" where
  "fr_clear hf r = MaybeResize hf (clear_no_resize r\<lparr>fr_grow := 0\<rparr>)"

text \<open>The copy constructor, and \<open>CopyFrom\<close> of another table.\<close>

definition fr_copy :: "('k \<Rightarrow> nat) \<Rightarrow> ('k, 'v) flat_rep \<Rightarrow> ('k, 'v) flat_rep option" where
  "fr_copy hf src = Option.bind (flat_init (fr_size src)) (CopyEntries hf (fr_array src))"

section \<open>Maps and sets\<close>

type_synonym 'k flat_set = "('k, unit) flat_rep"

definition new_flat :: "('k, 'v) flat_rep option" where
  "new_flat = flat_init 1"

text \<open>
  Iterators are positions in the array; the end is its length. \<open>SkipUnused\<close> moves to the next
  occupied entry.
\<close>

fun skip_unused :: "('k, 'v) entry list \<Rightarrow> nat \<Rightarrow> nat" where
  "skip_unused [] i = i"
| "skip_unused (e # es) i = (if is_full e then i else skip_unused es (i + 1))"

definition SkipUnused :: "('k, 'v) flat_rep \<Rightarrow> nat \<Rightarrow> nat" where
  "SkipUnused r i = skip_unused (drop i (fr_array r)) i"

definition flat_begin :: "('k, 'v) flat_rep \<Rightarrow> nat" where "flat_begin r = SkipUnused r 0"
definition flat_end :: "('k, 'v) flat_rep \<Rightarrow> nat" where "flat_end r = length (fr_array r)"
definition flat_next :: "('k, 'v) flat_rep \<Rightarrow> nat \<Rightarrow> nat" where "flat_next r i = SkipUnused r (i + 1)"

definition flat_find :: "('k \<Rightarrow> nat) \<Rightarrow> 'k \<Rightarrow> ('k, 'v) flat_rep \<Rightarrow> nat option" where
  "flat_find hf k r = map_option (\<lambda>res. case res of Some i \<Rightarrow> i | None \<Rightarrow> flat_end r) (fr_Find hf k r)"

definition flat_count :: "('k \<Rightarrow> nat) \<Rightarrow> 'k \<Rightarrow> ('k, 'v) flat_rep \<Rightarrow> nat option" where
  "flat_count hf k r = map_option (\<lambda>res. if res = None then 0 else 1) (fr_Find hf k r)"

definition entry_val :: "('k, 'v) entry \<Rightarrow> 'v option" where
  "entry_val e = (case e of Full_entry m k v \<Rightarrow> Some v | _ \<Rightarrow> None)"

definition flat_at :: "('k \<Rightarrow> nat) \<Rightarrow> 'k \<Rightarrow> ('k, 'v) flat_rep \<Rightarrow> 'v option" where
  "flat_at hf k r = do { res \<leftarrow> fr_Find hf k r; i \<leftarrow> res; entry_val (fr_array r ! i) }"

text \<open>The position of the entry, whether it is new, and the table.\<close>

definition flat_insert ::
  "('k \<Rightarrow> nat) \<Rightarrow> 'k \<Rightarrow> 'v \<Rightarrow> ('k, 'v) flat_rep \<Rightarrow> (nat \<times> bool \<times> ('k, 'v) flat_rep) option" where
  "flat_insert hf k v r =
     do { r1 \<leftarrow> MaybeResize hf r;
          (found, i, r2) \<leftarrow> fr_FindOrInsert hf k v r1;
          Some (i, \<not> found, r2) }"

definition set_insert :: "('k \<Rightarrow> nat) \<Rightarrow> 'k \<Rightarrow> 'k flat_set \<Rightarrow> (nat \<times> bool \<times> 'k flat_set) option" where
  "set_insert hf k r = flat_insert hf k () r"

fun set_insert_range :: "('k \<Rightarrow> nat) \<Rightarrow> 'k list \<Rightarrow> 'k flat_set \<Rightarrow> 'k flat_set option" where
  "set_insert_range hf [] r = Some r"
| "set_insert_range hf (k # ks) r = do { (i, b, r') \<leftarrow> set_insert hf k r; set_insert_range hf ks r' }"

text \<open>\<open>operator[]\<close>, with \<open>d\<close> the value-initialised value, and an assignment through it.\<close>

definition IndexOp :: "('k \<Rightarrow> nat) \<Rightarrow> 'v \<Rightarrow> 'k \<Rightarrow> ('k, 'v) flat_rep \<Rightarrow> (nat \<times> ('k, 'v) flat_rep) option" where
  "IndexOp hf d k r = map_option (\<lambda>(i, b, r'). (i, r')) (flat_insert hf k d r)"

definition set_val :: "nat \<Rightarrow> 'v \<Rightarrow> ('k, 'v) flat_rep \<Rightarrow> ('k, 'v) flat_rep" where
  "set_val i v r = (case fr_array r ! i of Full_entry m k v' \<Rightarrow> r\<lparr>fr_array := (fr_array r)[i := Full_entry m k v]\<rparr>
     | _ \<Rightarrow> r)"

definition flat_assign :: "('k \<Rightarrow> nat) \<Rightarrow> 'v \<Rightarrow> 'k \<Rightarrow> 'v \<Rightarrow> ('k, 'v) flat_rep \<Rightarrow> ('k, 'v) flat_rep option" where
  "flat_assign hf d k v r = map_option (\<lambda>(i, r'). set_val i v r') (IndexOp hf d k r)"

definition flat_erase :: "('k \<Rightarrow> nat) \<Rightarrow> 'k \<Rightarrow> ('k, 'v) flat_rep \<Rightarrow> (nat \<times> ('k, 'v) flat_rep) option" where
  "flat_erase hf k r = map_option (\<lambda>res. case res of None \<Rightarrow> (0, r) | Some i \<Rightarrow> (1, fr_Erase i r)) (fr_Find hf k r)"

definition flat_erase_at :: "nat \<Rightarrow> ('k, 'v) flat_rep \<Rightarrow> nat \<times> ('k, 'v) flat_rep" where
  "flat_erase_at i r = (let r' = fr_Erase i r in (flat_next r' i, r'))"

definition flat_resize :: "('k \<Rightarrow> nat) \<Rightarrow> nat \<Rightarrow> ('k, 'v) flat_rep \<Rightarrow> ('k, 'v) flat_rep option" where
  "flat_resize hf n r = Resize hf (max n (fr_size r)) r"

text \<open>What a loop from \<open>begin()\<close> to \<open>end()\<close> visits; keys and values in order.\<close>

fun full_entries :: "('k, 'v) entry list \<Rightarrow> ('k \<times> 'v) list" where
  "full_entries [] = []"
| "full_entries (Full_entry m k v # es) = (k, v) # full_entries es"
| "full_entries (e # es) = full_entries es"

definition flat_elems :: "('k, 'v) flat_rep \<Rightarrow> ('k \<times> 'v) list" where
  "flat_elems r = full_entries (fr_array r)"

definition equal_range :: "('k \<Rightarrow> nat) \<Rightarrow> 'k \<Rightarrow> ('k, 'v) flat_rep \<Rightarrow> (nat \<times> nat) option" where
  "equal_range hf k r = map_option (\<lambda>pos. if pos = flat_end r then (pos, pos) else (pos, flat_next r pos)) (flat_find hf k r)"

text \<open>\<open>operator==\<close>.\<close>

fun equal_loop :: "('k \<Rightarrow> nat) \<Rightarrow> ('k \<times> 'v) list \<Rightarrow> ('k, 'v) flat_rep \<Rightarrow> bool option" where
  "equal_loop hf [] r = Some True"
| "equal_loop hf ((k, v) # kvs) r =
     do { res \<leftarrow> fr_Find hf k r;
          case res of None \<Rightarrow> Some False
          | Some i \<Rightarrow> if entry_val (fr_array r ! i) = Some v then equal_loop hf kvs r else Some False }"

definition flat_equal :: "('k \<Rightarrow> nat) \<Rightarrow> ('k, 'v) flat_rep \<Rightarrow> ('k, 'v) flat_rep \<Rightarrow> bool option" where
  "flat_equal hf r x = (if fr_size r \<noteq> fr_size x then Some False else equal_loop hf (flat_elems x) r)"

end
