(* ===== verification/Flat_Probing.thy ===== *)
theory Flat_Probing
  imports Flat_Rep
begin

text \<open>
  Why the loops of core/lib/gtl/flatrep.h end: quadratic probing over a power of two visits
  every entry, so a table with an empty entry has one on every probe sequence. What each of the
  three loops finds.
\<close>

section \<open>The probe sequence\<close>

definition triangular :: "nat \<Rightarrow> nat" where
  "triangular n = n * (n + 1) div 2"

definition probe :: "nat \<Rightarrow> nat \<Rightarrow> nat \<Rightarrow> nat" where
  "probe h capacity n = (drop_bit 8 h + triangular n) mod capacity"

lemma triangular_Suc: "triangular (Suc n) = triangular n + Suc n"
proof -
  have "Suc n * (Suc n + 1) = n * (n + 1) + Suc n * 2" by simp
  then have "triangular (Suc n) = (n * (n + 1) + Suc n * 2) div 2" by (simp only: triangular_def)
  also have "\<dots> = Suc n + n * (n + 1) div 2" by (rule div_mult_self1) simp
  finally show ?thesis by (simp add: triangular_def)
qed

lemma triangular_mono: "a \<le> b \<Longrightarrow> triangular a \<le> triangular b"
  unfolding triangular_def by (intro div_le_mono mult_le_mono) auto

lemma triangular_diff:
  assumes "a \<le> b"
  shows "2 * (triangular b - triangular a) = (b - a) * (b + a + 1)"
  using assms
proof (induction b rule: dec_induct)
  case (step b)
  have "triangular a \<le> triangular b" using step(1) by (rule triangular_mono)
  then have "2 * (triangular (Suc b) - triangular a) = (b - a) * (b + a + 1) + 2 * Suc b"
    using step(3) by (simp add: triangular_Suc)
  also have "\<dots> = (Suc b - a) * (Suc b + a + 1)"
    using step(1) by (auto simp: le_iff_add algebra_simps)
  finally show ?case .
qed simp

text \<open>
  The difference of two triangular numbers is half a product of two factors of which one is
  odd; the other is too small to be divisible by twice the capacity.
\<close>

lemma triangular_distinct:
  assumes "a < b" "b < 2 ^ p"
  shows "\<not> 2 ^ p dvd triangular b - triangular a"
proof
  assume "2 ^ p dvd triangular b - triangular a"
  then have "2 * 2 ^ p dvd 2 * (triangular b - triangular a)" by simp
  then have d: "2 ^ Suc p dvd (b - a) * (b + a + 1)" using triangular_diff [of a b] assms(1) by simp
  show False
  proof (cases "even (b - a)")
    case True
    then have "odd (b + a + 1)" using assms(1) by presburger
    then have "coprime (2 ^ Suc p) (b + a + 1)" by simp
    then have "2 ^ Suc p dvd b - a" using d by (simp only: coprime_dvd_mult_left_iff)
    then have "2 ^ Suc p \<le> b - a" using assms(1) by (simp add: dvd_imp_le)
    then show False using assms(2) by simp
  next
    case False
    then have "coprime (2 ^ Suc p) (b - a)" by simp
    then have "2 ^ Suc p dvd b + a + 1" using d by (simp only: coprime_dvd_mult_right_iff)
    then have "2 ^ Suc p \<le> b + a + 1" by (simp add: dvd_imp_le)
    then show False using assms by simp
  qed
qed

lemma probe_less [simp]: "0 < c \<Longrightarrow> probe h c n < c"
  by (simp add: probe_def)

lemma probe_inj: "inj_on (probe h (2 ^ p)) {..<2 ^ p}"
proof -
  have "probe h (2 ^ p) a \<noteq> probe h (2 ^ p) b" if "a < b" "b < 2 ^ p" for a b
  proof
    assume "probe h (2 ^ p) a = probe h (2 ^ p) b"
    then have "2 ^ p dvd (drop_bit 8 h + triangular b) - (drop_bit 8 h + triangular a)"
      using that triangular_mono [of a b] mod_eq_dvd_iff_nat [of "drop_bit 8 h + triangular a" "drop_bit 8 h + triangular b" "2 ^ p"]
      by (simp add: probe_def)
    then show False using triangular_distinct [OF that] by simp
  qed
  then show ?thesis unfolding inj_on_def by (metis lessThan_iff linorder_neqE_nat)
qed

lemma probe_covers: "probe h (2 ^ p) ` {..<2 ^ p} = {..<2 ^ p}"
  by (rule endo_inj_surj) (auto simp: probe_inj)

lemma and_capacity: "x AND (2 ^ p - 1 :: nat) = x mod 2 ^ p"
  by (simp only: mask_eq_exp_minus_1 [symmetric] take_bit_eq_mask [symmetric] take_bit_eq_mod)

lemma start_probe: "start_index h (2 ^ p - 1) = probe h (2 ^ p) 0"
  unfolding start_index_def probe_def and_capacity by (simp add: triangular_def)

lemma next_probe: "NextIndex (2 ^ p - 1) (probe h (2 ^ p) n) (n + 1) = probe h (2 ^ p) (Suc n)"
  unfolding NextIndex_def and_capacity probe_def triangular_Suc mod_add_left_eq by (simp add: add.assoc)

section \<open>The loops\<close>

text \<open>
  A table of \<open>2 ^ p\<close> entries; what a loop that starts at probe \<open>n\<close> does when nothing stops it
  before probe \<open>m\<close>.
\<close>

definition sized :: "nat \<Rightarrow> ('k, 'v) flat_rep \<Rightarrow> bool" where
  "sized p r \<longleftrightarrow> length (fr_array r) = 2 ^ p \<and> fr_mask r = 2 ^ p - 1"

abbreviation at_probe :: "('k, 'v) flat_rep \<Rightarrow> nat \<Rightarrow> nat \<Rightarrow> ('k, 'v) entry" where
  "at_probe r h n \<equiv> fr_array r ! probe h (length (fr_array r)) n"

definition holds_key :: "'k \<Rightarrow> ('k, 'v) entry \<Rightarrow> bool" where
  "holds_key k e = (case e of Full_entry m k' v \<Rightarrow> k' = k | _ \<Rightarrow> False)"

lemma find_loop_skip:
  assumes s: "sized p r" and le: "n \<le> m"
    and skip: "\<forall>i. n \<le> i \<and> i < m \<longrightarrow> at_probe r h i \<noteq> Empty_entry \<and> \<not> holds_key k (at_probe r h i)"
  shows "find_loop r mk k (probe h (2 ^ p) n) (n + 1) = find_loop r mk k (probe h (2 ^ p) m) (m + 1)"
  using le skip
proof (induction n rule: inc_induct)
  case (step n)
  have "find_loop r mk k (probe h (2 ^ p) n) (n + 1) = find_loop r mk k (probe h (2 ^ p) (Suc n)) (Suc n + 1)"
    using step(2,4) s next_probe [of p h n]
    by (subst find_loop.simps) (auto simp: sized_def holds_key_def split: entry.splits)
  then show ?case using step by simp
qed simp

lemma insert_loop_skip:
  assumes s: "sized p r" and le: "n \<le> m"
    and skip: "\<forall>i. n \<le> i \<and> i < m \<longrightarrow> at_probe r h i \<noteq> Empty_entry \<and> \<not> holds_key k (at_probe r h i)"
  shows "\<exists>del'. insert_loop r mk k (probe h (2 ^ p) n) (n + 1) del = insert_loop r mk k (probe h (2 ^ p) m) (m + 1) del'
     \<and> (del' = del \<or> (\<exists>i. i < m \<and> del' = Some (probe h (2 ^ p) i) \<and> at_probe r h i = Deleted_entry))"
  using le skip
proof (induction n arbitrary: del rule: inc_induct)
  case (step n)
  let ?del = "if at_probe r h n = Deleted_entry \<and> del = None then Some (probe h (2 ^ p) n) else del"
  have "insert_loop r mk k (probe h (2 ^ p) n) (n + 1) del
      = insert_loop r mk k (probe h (2 ^ p) (Suc n)) (Suc n + 1) ?del"
    using step(2,4) s next_probe [of p h n]
    by (subst insert_loop.simps) (auto simp: sized_def holds_key_def split: entry.splits)
  moreover obtain del' where d: "insert_loop r mk k (probe h (2 ^ p) (Suc n)) (Suc n + 1) ?del
      = insert_loop r mk k (probe h (2 ^ p) m) (m + 1) del'"
    "del' = ?del \<or> (\<exists>i. i < m \<and> del' = Some (probe h (2 ^ p) i) \<and> at_probe r h i = Deleted_entry)"
    using step(3) [of ?del] step(4) by auto
  ultimately show ?case using step(2) by (auto split: if_splits)
qed auto

lemma fresh_loop_skip:
  assumes s: "sized p r" and le: "n \<le> m"
    and skip: "\<forall>i. n \<le> i \<and> i < m \<longrightarrow> at_probe r h i \<noteq> Empty_entry"
  shows "fresh_loop r (probe h (2 ^ p) n) (n + 1) = fresh_loop r (probe h (2 ^ p) m) (m + 1)"
  using le skip
proof (induction n rule: inc_induct)
  case (step n)
  have "fresh_loop r (probe h (2 ^ p) n) (n + 1) = fresh_loop r (probe h (2 ^ p) (Suc n)) (Suc n + 1)"
    using step(2,4) s next_probe [of p h n] by (subst fresh_loop.simps) (auto simp: sized_def)
  then show ?case using step by simp
qed simp

section \<open>What the loops find\<close>

definition reached :: "nat \<Rightarrow> nat \<Rightarrow> ('k, 'v) flat_rep \<Rightarrow> bool" where
  "reached h i r \<longleftrightarrow> (\<exists>n. probe h (length (fr_array r)) n = i \<and> (\<forall>j<n. at_probe r h j \<noteq> Empty_entry))"

lemma first_empty:
  assumes "sized p r" "Empty_entry \<in> set (fr_array r)"
  obtains n where "at_probe r h n = Empty_entry" "\<forall>j<n. at_probe r h j \<noteq> Empty_entry"
proof -
  obtain i where i: "i < length (fr_array r)" "fr_array r ! i = Empty_entry"
    using assms(2) by (auto simp: in_set_conv_nth)
  then have "i \<in> probe h (2 ^ p) ` {..<2 ^ p}" using probe_covers [of h p] assms(1) by (simp add: sized_def)
  then obtain n where "probe h (2 ^ p) n = i" by blast
  then have "at_probe r h n = Empty_entry" using i assms(1) by (simp add: sized_def)
  then show ?thesis using that exists_least_iff [of "\<lambda>n. at_probe r h n = Empty_entry"] by blast
qed

definition unique_keys :: "('k, 'v) entry list \<Rightarrow> bool" where
  "unique_keys es \<longleftrightarrow> (\<forall>i j k. i < length es \<longrightarrow> j < length es \<longrightarrow> holds_key k (es ! i) \<longrightarrow> holds_key k (es ! j) \<longrightarrow> i = j)"

lemma reached_first:
  assumes "reached h i r"
  obtains n where "probe h (length (fr_array r)) n = i"
    "\<forall>j<n. at_probe r h j \<noteq> Empty_entry \<and> probe h (length (fr_array r)) j \<noteq> i"
proof -
  obtain n where n: "probe h (length (fr_array r)) n = i" "\<forall>j<n. at_probe r h j \<noteq> Empty_entry"
    using assms by (auto simp: reached_def)
  obtain m where m: "probe h (length (fr_array r)) m = i" "\<forall>j<m. probe h (length (fr_array r)) j \<noteq> i"
    using n(1) exists_least_iff [of "\<lambda>n. probe h (length (fr_array r)) n = i"] by blast
  have "m \<le> n" using n(1) m(2) by (metis not_le)
  then show ?thesis using n(2) m that [of m] by auto
qed

lemma Find_present:
  assumes s: "sized p r" and u: "unique_keys (fr_array r)"
    and i: "i < length (fr_array r)" "fr_array r ! i = Full_entry (Marker (hf k AND 255)) k v" "reached (hf k) i r"
  shows "fr_Find hf k r = Some (Some i)"
    and "insert_loop r (Marker (hf k AND 255)) k (start_index (hf k) (fr_mask r)) 1 None = Some (Inl i)"
proof -
  let ?mk = "Marker (hf k AND 255)"
  have len: "length (fr_array r) = 2 ^ p" using s by (simp add: sized_def)
  have hk: "holds_key k (fr_array r ! i)" by (simp add: i(2) holds_key_def)
  obtain n where n: "probe (hf k) (2 ^ p) n = i"
    "\<forall>j<n. at_probe r (hf k) j \<noteq> Empty_entry \<and> probe (hf k) (2 ^ p) j \<noteq> i"
    using reached_first [OF i(3)] len by auto
  have "\<not> holds_key k (at_probe r (hf k) j)" if "j < n" for j
    using u hk i(1) n(2) that len unfolding unique_keys_def by (metis probe_less zero_less_numeral zero_less_power)
  then have skip: "\<forall>j. 0 \<le> j \<and> j < n \<longrightarrow> at_probe r (hf k) j \<noteq> Empty_entry \<and> \<not> holds_key k (at_probe r (hf k) j)"
    using n(2) by blast
  have st: "start_index (hf k) (fr_mask r) = probe (hf k) (2 ^ p) 0"
    using s start_probe [of "hf k" p] by (simp add: sized_def)
  show "fr_Find hf k r = Some (Some i)"
    using find_loop_skip [OF s le0 skip, of ?mk] n(1) i(2) unfolding fr_Find_def st
    by (simp add: find_loop.simps [of r ?mk k i])
  obtain del where "insert_loop r ?mk k (probe (hf k) (2 ^ p) 0) (0 + 1) None
      = insert_loop r ?mk k (probe (hf k) (2 ^ p) n) (n + 1) del"
    using insert_loop_skip [OF s le0 skip, of ?mk None] by blast
  then show "insert_loop r ?mk k (start_index (hf k) (fr_mask r)) 1 None = Some (Inl i)"
    using n(1) i(2) unfolding st by (simp add: insert_loop.simps [of r ?mk k i])
qed

lemma Find_absent:
  assumes s: "sized p r" and e: "Empty_entry \<in> set (fr_array r)"
    and absent: "\<forall>i<length (fr_array r). \<not> holds_key k (fr_array r ! i)"
  shows "fr_Find hf k r = Some None"
    and "\<exists>i reuse. insert_loop r (Marker (hf k AND 255)) k (start_index (hf k) (fr_mask r)) 1 None = Some (Inr (i, reuse))
        \<and> i < length (fr_array r) \<and> reached (hf k) i r
        \<and> fr_array r ! i = (if reuse then Deleted_entry else Empty_entry)"
    and "\<exists>i. fresh_loop r (start_index (hf k) (fr_mask r)) 1 = Some i \<and> i < length (fr_array r) \<and> reached (hf k) i r
        \<and> fr_array r ! i = Empty_entry"
proof -
  let ?mk = "Marker (hf k AND 255)"
  have len: "length (fr_array r) = 2 ^ p" using s by (simp add: sized_def)
  obtain n where n: "at_probe r (hf k) n = Empty_entry" "\<forall>j<n. at_probe r (hf k) j \<noteq> Empty_entry"
    using first_empty [OF s e, of "hf k"] by blast
  have "\<not> holds_key k (at_probe r (hf k) j)" for j using absent len by simp
  then have skip: "\<forall>j. 0 \<le> j \<and> j < n \<longrightarrow> at_probe r (hf k) j \<noteq> Empty_entry \<and> \<not> holds_key k (at_probe r (hf k) j)"
    and skip': "\<forall>j. 0 \<le> j \<and> j < n \<longrightarrow> at_probe r (hf k) j \<noteq> Empty_entry"
    using n(2) by blast+
  have st: "start_index (hf k) (fr_mask r) = probe (hf k) (2 ^ p) 0"
    using s start_probe [of "hf k" p] by (simp add: sized_def)
  have lt: "probe (hf k) (2 ^ p) j < length (fr_array r)" for j using len by simp
  show "fr_Find hf k r = Some None"
    using find_loop_skip [OF s le0 skip, of ?mk] n(1) len unfolding fr_Find_def st
    by (simp add: find_loop.simps [of r ?mk k "probe (hf k) (2 ^ p) n"])
  have re: "reached (hf k) (probe (hf k) (2 ^ p) j) r" if "j \<le> n" for j
    using n(2) that len unfolding reached_def by (intro exI [of _ j]) auto
  obtain del where d: "insert_loop r ?mk k (probe (hf k) (2 ^ p) 0) (0 + 1) None
      = insert_loop r ?mk k (probe (hf k) (2 ^ p) n) (n + 1) del"
    "del = None \<or> (\<exists>i. i < n \<and> del = Some (probe (hf k) (2 ^ p) i) \<and> at_probe r (hf k) i = Deleted_entry)"
    using insert_loop_skip [OF s le0 skip, of ?mk None] by blast
  have il: "insert_loop r ?mk k (start_index (hf k) (fr_mask r)) 1 None
      = Some (Inr (case del of Some d \<Rightarrow> (d, True) | None \<Rightarrow> (probe (hf k) (2 ^ p) n, False)))"
    using d(1) n(1) len unfolding st by (simp add: insert_loop.simps [of r ?mk k "probe (hf k) (2 ^ p) n"])
  show "\<exists>i reuse. insert_loop r ?mk k (start_index (hf k) (fr_mask r)) 1 None = Some (Inr (i, reuse))
        \<and> i < length (fr_array r) \<and> reached (hf k) i r
        \<and> fr_array r ! i = (if reuse then Deleted_entry else Empty_entry)"
    using d(2)
  proof (elim disjE exE conjE)
    assume "del = None"
    then show ?thesis using il re [of n] lt [of n] n(1) len by auto
  next
    fix i assume "i < n" "del = Some (probe (hf k) (2 ^ p) i)" "at_probe r (hf k) i = Deleted_entry"
    then show ?thesis using il re [of i] lt [of i] len by auto
  qed
  show "\<exists>i. fresh_loop r (start_index (hf k) (fr_mask r)) 1 = Some i \<and> i < length (fr_array r) \<and> reached (hf k) i r
        \<and> fr_array r ! i = Empty_entry"
    using fresh_loop_skip [OF s le0 skip'] re [of n] lt [of n] n(1) len unfolding st
    by (simp add: fresh_loop.simps [of r "probe (hf k) (2 ^ p) n"])
qed

end
