(* ===== verification/Flat_Ops.thy ===== *)
theory Flat_Ops
  imports Flat_Probing
begin

text \<open>
  The invariant of the tables of core/lib/gtl/flatrep.h and that insertion, deletion and
  resizing keep it: what a table holds as a map, and what its counters count.
\<close>

section \<open>Contents\<close>

lemma full_entries_set:
  "(k, v) \<in> set (full_entries es) \<longleftrightarrow> (\<exists>i m. i < length es \<and> es ! i = Full_entry m k v)"
proof (induction es rule: full_entries.induct)
  case (2 m k' v' es)
  then show ?case by (auto simp: less_Suc_eq_0_disj)
qed (auto simp: less_Suc_eq_0_disj)

lemma unique_keys_Cons: "unique_keys (e # es) \<Longrightarrow> unique_keys es"
  unfolding unique_keys_def
proof (intro allI impI)
  fix i j k
  assume a: "\<forall>i j k. i < length (e # es) \<longrightarrow> j < length (e # es) \<longrightarrow>
      holds_key k ((e # es) ! i) \<longrightarrow> holds_key k ((e # es) ! j) \<longrightarrow> i = j"
    "i < length es" "j < length es" "holds_key k (es ! i)" "holds_key k (es ! j)"
  then show "i = j" using a(1) [rule_format, of "Suc i" "Suc j" k] by simp
qed

lemma holds_key_iff: "holds_key k e \<longleftrightarrow> (\<exists>m v. e = Full_entry m k v)"
  by (auto simp: holds_key_def split: entry.splits)

lemma distinct_full_entries: "unique_keys es \<Longrightarrow> distinct (map fst (full_entries es))"
proof (induction es rule: full_entries.induct)
  case (2 m k v es)
  have "k' \<noteq> k" if "(k', v') \<in> set (full_entries es)" for k' v'
  proof
    assume "k' = k"
    with that have "(k, v') \<in> set (full_entries es)" by simp
    then obtain i m' where "i < length es" "es ! i = Full_entry m' k v'"
      unfolding full_entries_set by blast
    then show False using 2(2) [unfolded unique_keys_def, rule_format, of "Suc i" 0 k] by (simp add: holds_key_def)
  qed
  then have "k \<notin> fst ` set (full_entries es)" by force
  then show ?case using 2(1) [OF unique_keys_Cons [OF 2(2)]] by simp
qed (auto dest: unique_keys_Cons)

definition flat_map :: "('k, 'v) flat_rep \<Rightarrow> 'k \<Rightarrow> 'v option" where
  "flat_map r = map_of (flat_elems r)"

lemma flat_map_iff:
  assumes "unique_keys (fr_array r)"
  shows "flat_map r k = Some v \<longleftrightarrow> (\<exists>i m. i < length (fr_array r) \<and> fr_array r ! i = Full_entry m k v)"
  unfolding flat_map_def flat_elems_def
  using map_of_eq_Some_iff [OF distinct_full_entries [OF assms]] by (simp add: full_entries_set)

lemma flat_map_None:
  assumes "unique_keys (fr_array r)"
  shows "flat_map r k = None \<longleftrightarrow> (\<forall>i<length (fr_array r). \<not> holds_key k (fr_array r ! i))"
proof -
  have "flat_map r k = None \<longleftrightarrow> (\<forall>v. flat_map r k \<noteq> Some v)" by (cases "flat_map r k") auto
  then show ?thesis unfolding flat_map_iff [OF assms] holds_key_iff by blast
qed

lemma length_full_entries: "length (full_entries es) = length (filter is_full es)"
  by (induction es rule: full_entries.induct) (auto simp: is_full_def)

section \<open>The invariant\<close>

definition n_used :: "('k, 'v) entry list \<Rightarrow> nat" where
  "n_used es = length (filter (\<lambda>e. e \<noteq> Empty_entry) es)"

definition n_deleted :: "('k, 'v) entry list \<Rightarrow> nat" where
  "n_deleted es = length (filter (\<lambda>e. e = Deleted_entry) es)"

lemma n_used_split: "n_used es = length (full_entries es) + n_deleted es"
  by (induction es rule: full_entries.induct) (auto simp: n_used_def n_deleted_def)

definition table_shape :: "nat \<Rightarrow> ('k, 'v) flat_rep \<Rightarrow> bool" where
  "table_shape lg r \<longleftrightarrow> lg < 29 \<and> sized (lg + 3) r
     \<and> (fr_grow r = 0 \<or> fr_grow r = load_limit (2 ^ (lg + 3)))
     \<and> fr_shrink r = (if lg = 0 then 0 else load_limit (2 ^ (lg + 3)) * four_fifths div 2 ^ 53)"

definition placed :: "('k \<Rightarrow> nat) \<Rightarrow> ('k, 'v) flat_rep \<Rightarrow> bool" where
  "placed hf r \<longleftrightarrow> unique_keys (fr_array r)
     \<and> (\<forall>i m k v. i < length (fr_array r) \<longrightarrow> fr_array r ! i = Full_entry m k v
          \<longrightarrow> m = Marker (hf k AND 255) \<and> reached (hf k) i r)"

definition flat_ok :: "('k \<Rightarrow> nat) \<Rightarrow> ('k, 'v) flat_rep \<Rightarrow> bool" where
  "flat_ok hf r \<longleftrightarrow> (\<exists>lg. table_shape lg r \<and> fr_not_empty r \<le> load_limit (2 ^ (lg + 3)))
     \<and> placed hf r \<and> fr_not_empty r = n_used (fr_array r) \<and> fr_deleted r = n_deleted (fr_array r)"

lemma load_limit_less: "0 < c \<Longrightarrow> load_limit c < c"
proof -
  assume "0 < c"
  then have "c * four_fifths < c * 2 ^ 52" by (simp add: four_fifths_def)
  then show ?thesis unfolding load_limit_def by (rule less_mult_imp_div_less)
qed

lemma load_limit_pos: "0 < load_limit (2 ^ (lg + 3))"
proof -
  have "2 ^ 52 \<le> (2 ^ 3 * four_fifths :: nat)" by (simp add: four_fifths_def)
  also have "\<dots> \<le> 2 ^ (lg + 3) * four_fifths" by (intro mult_right_mono power_increasing) auto
  finally have "2 ^ 52 div 2 ^ 52 \<le> load_limit (2 ^ (lg + 3))" unfolding load_limit_def by (rule div_le_mono)
  then show ?thesis by simp
qed

lemma flat_okE:
  assumes "flat_ok hf r"
  obtains lg where "table_shape lg r" "fr_not_empty r \<le> load_limit (2 ^ (lg + 3))" "sized (lg + 3) r" "placed hf r"
    "unique_keys (fr_array r)" "fr_not_empty r = n_used (fr_array r)" "fr_deleted r = n_deleted (fr_array r)"
    "length (fr_array r) = 2 ^ (lg + 3)" "lg < 29"
  using assms by (auto simp: flat_ok_def table_shape_def placed_def sized_def)

lemma capacity_bound: "lg < 29 \<Longrightarrow> (2 :: nat) ^ (lg + 3) \<le> 2 ^ 31"
  by (rule power_increasing) auto

lemma flat_size:
  assumes "flat_ok hf r"
  shows "fr_size r = length (flat_elems r)" "length (flat_elems r) = card (dom (flat_map r))"
    "length (flat_elems r) + n_deleted (fr_array r) < 2 ^ 31"
proof -
  from assms obtain lg where f: "fr_not_empty r \<le> load_limit (2 ^ (lg + 3))" "unique_keys (fr_array r)"
    "fr_not_empty r = n_used (fr_array r)" "fr_deleted r = n_deleted (fr_array r)" "lg < 29"
    by (rule flat_okE)
  have "load_limit (2 ^ (lg + 3)) < 2 ^ (lg + 3)" by (rule load_limit_less) simp
  then have b: "length (flat_elems r) + n_deleted (fr_array r) < 2 ^ 31"
    using f(1,3) n_used_split [of "fr_array r"] capacity_bound [OF f(5)] by (simp add: flat_elems_def)
  then show "length (flat_elems r) + n_deleted (fr_array r) < 2 ^ 31" .
  show "fr_size r = length (flat_elems r)"
    using b f(3,4) n_used_split [of "fr_array r"] by (simp add: fr_size_def minus64_def flat_elems_def)
  have "card (dom (flat_map r)) = card (set (map fst (flat_elems r)))"
    by (simp add: flat_map_def dom_map_of_conv_image_fst)
  then show "length (flat_elems r) = card (dom (flat_map r))"
    using distinct_card [OF distinct_full_entries [OF f(2)]] by (simp add: flat_elems_def)
qed

lemma has_empty:
  assumes "sized p r" "n_used (fr_array r) < 2 ^ p"
  shows "Empty_entry \<in> set (fr_array r)"
proof (rule ccontr)
  assume "Empty_entry \<notin> set (fr_array r)"
  then have "filter (\<lambda>e. e \<noteq> Empty_entry) (fr_array r) = fr_array r" by (auto simp: filter_id_conv)
  then show False using assms by (simp add: n_used_def sized_def)
qed

section \<open>Writing an entry\<close>

lemma length_filter_update:
  assumes "i < length xs"
  shows "length (filter P (xs[i := x])) + of_bool (P (xs ! i)) = length (filter P xs) + (of_bool (P x) :: nat)"
proof -
  have "filter P xs = filter P (take i xs) @ filter P [xs ! i] @ filter P (drop (Suc i) xs)"
    using assms by (metis append_Cons append_Nil filter_append id_take_nth_drop)
  then show ?thesis using assms by (simp add: upd_conv_take_nth_drop)
qed

lemma reached_update:
  assumes "reached h j r" "length (fr_array r') = length (fr_array r)"
    "\<forall>n<length (fr_array r). fr_array r ! n \<noteq> Empty_entry \<longrightarrow> fr_array r' ! n \<noteq> Empty_entry" "0 < length (fr_array r)"
  shows "reached h j r'"
  using assms unfolding reached_def by (metis probe_less)

lemma unique_keys_update:
  assumes "unique_keys es" "\<And>k j. holds_key k e \<Longrightarrow> j < length es \<Longrightarrow> j \<noteq> i \<Longrightarrow> \<not> holds_key k (es ! j)"
  shows "unique_keys (es[i := e])"
  unfolding unique_keys_def
proof (intro allI impI)
  fix a b k
  assume l: "a < length (es[i := e])" "b < length (es[i := e])"
    and h: "holds_key k (es[i := e] ! a)" "holds_key k (es[i := e] ! b)"
  show "a = b"
  proof (cases "a = i")
    case True
    then show ?thesis using l h assms(2) [of k b] by (cases "b = i") auto
  next
    case a: False
    then show ?thesis using l h assms(2) [of k a] assms(1) [unfolded unique_keys_def, rule_format, of a b k]
      by (cases "b = i") auto
  qed
qed

lemma put_placed:
  assumes pl: "placed hf r" and i: "i < length (fr_array r)" "\<not> is_full (fr_array r ! i)" "reached (hf k) i r"
    and absent: "flat_map r k = None"
    and arr: "fr_array r' = (fr_array r)[i := Full_entry (Marker (hf k AND 255)) k v]"
  shows "placed hf r'" "flat_map r' = (flat_map r)(k \<mapsto> v)"
proof -
  have u: "unique_keys (fr_array r)" using pl by (simp add: placed_def)
  have none: "\<forall>j<length (fr_array r). \<not> holds_key k (fr_array r ! j)" using flat_map_None [OF u] absent by blast
  have keep: "\<forall>n<length (fr_array r). fr_array r ! n \<noteq> Empty_entry \<longrightarrow> fr_array r' ! n \<noteq> Empty_entry"
    using i(1) unfolding arr by (auto simp: nth_list_update)
  have re: "reached h j r'" if "reached h j r" for h j
    by (rule reached_update [OF that _ keep]) (use i(1) in \<open>auto simp: arr\<close>)
  have u': "unique_keys (fr_array r')"
    unfolding arr by (rule unique_keys_update [OF u]) (use none in \<open>auto simp: holds_key_def\<close>)
  show "placed hf r'"
    unfolding placed_def
  proof (intro conjI u' allI impI)
    fix j m k' v'
    assume j: "j < length (fr_array r')" "fr_array r' ! j = Full_entry m k' v'"
    show "m = Marker (hf k' AND 255)"
      using j pl i(1) by (cases "j = i") (auto simp: arr placed_def)
    show "reached (hf k') j r'"
      using j pl i(1) re [OF i(3)] re by (cases "j = i") (auto simp: arr placed_def)
  qed
  show "flat_map r' = (flat_map r)(k \<mapsto> v)"
  proof
    fix k'
    have "flat_map r' k' = Some v' \<longleftrightarrow> ((flat_map r)(k \<mapsto> v)) k' = Some v'" for v'
    proof (cases "k' = k")
      case True
      then show ?thesis unfolding flat_map_iff [OF u'] using none i(1)
        by (auto simp: arr nth_list_update holds_key_iff split: if_splits)
    next
      case False
      have "(j < length (fr_array r') \<and> fr_array r' ! j = Full_entry m k' v')
          \<longleftrightarrow> (j < length (fr_array r) \<and> fr_array r ! j = Full_entry m k' v')" for j m
        using False i(1,2) by (cases "j = i") (auto simp: arr is_full_def)
      then show ?thesis using False by (simp add: flat_map_iff [OF u'] flat_map_iff [OF u])
    qed
    then show "flat_map r' k' = ((flat_map r)(k \<mapsto> v)) k'" by (metis option.exhaust)
  qed
qed

lemma put_counts:
  assumes "i < length es" "\<not> is_full (es ! i)" "is_full e"
  shows "n_used (es[i := e]) = n_used es + (if es ! i = Empty_entry then 1 else 0)"
    "n_deleted (es[i := e]) + (if es ! i = Deleted_entry then 1 else 0) = n_deleted es"
proof -
  show "n_used (es[i := e]) = n_used es + (if es ! i = Empty_entry then 1 else 0)"
    using length_filter_update [OF assms(1), of "\<lambda>e. e \<noteq> Empty_entry" e] assms(2,3)
    by (auto simp: n_used_def is_full_def split: entry.splits)
  show "n_deleted (es[i := e]) + (if es ! i = Deleted_entry then 1 else 0) = n_deleted es"
    using length_filter_update [OF assms(1), of "\<lambda>e. e = Deleted_entry" e] assms(2,3)
    by (auto simp: n_deleted_def is_full_def split: entry.splits)
qed

section \<open>The operations\<close>

lemma plus64_small: "a + b < 2 ^ 64 \<Longrightarrow> plus64 a b = a + b"
  by (simp add: plus64_def)

lemma minus64_small: "b \<le> a \<Longrightarrow> a < 2 ^ 64 \<Longrightarrow> minus64 a b = a - b"
  by (simp add: minus64_def)

text \<open>
  What may be written over a table without changing its shape; \<open>roomy\<close> is what \<open>MaybeResize\<close>
  leaves.
\<close>

definition roomy :: "('k \<Rightarrow> nat) \<Rightarrow> ('k, 'v) flat_rep \<Rightarrow> bool" where
  "roomy hf r \<longleftrightarrow> flat_ok hf r \<and> fr_not_empty r < load_limit (length (fr_array r))"

lemma FindOrInsert_present:
  assumes ok: "flat_ok hf r" and k: "flat_map r k = Some v"
  shows "\<exists>i m. fr_FindOrInsert hf k d r = Some (True, i, r) \<and> fr_Find hf k r = Some (Some i)
    \<and> i < length (fr_array r) \<and> fr_array r ! i = Full_entry m k v"
proof -
  from ok obtain lg where f: "sized (lg + 3) r" "placed hf r" "unique_keys (fr_array r)" by (rule flat_okE)
  obtain i m where i: "i < length (fr_array r)" "fr_array r ! i = Full_entry m k v"
    using k flat_map_iff [OF f(3)] by blast
  then have "m = Marker (hf k AND 255)" "reached (hf k) i r" using f(2) by (auto simp: placed_def)
  then show ?thesis using Find_present [OF f(1,3) i(1), of hf k v] i by (simp add: fr_FindOrInsert_def)
qed

lemma used_less:
  assumes "flat_ok hf r"
  shows "n_used (fr_array r) < length (fr_array r)" "Empty_entry \<in> set (fr_array r)" "length (fr_array r) \<le> 2 ^ 31"
proof -
  from assms obtain lg where f: "fr_not_empty r \<le> load_limit (2 ^ (lg + 3))" "sized (lg + 3) r"
    "fr_not_empty r = n_used (fr_array r)" "length (fr_array r) = 2 ^ (lg + 3)" "lg < 29"
    by (rule flat_okE)
  have "load_limit (2 ^ (lg + 3)) < 2 ^ (lg + 3)" by (rule load_limit_less) simp
  then show "n_used (fr_array r) < length (fr_array r)" using f by simp
  then show "Empty_entry \<in> set (fr_array r)" using has_empty [OF f(2)] f(4) by simp
  show "length (fr_array r) \<le> 2 ^ 31" using capacity_bound [OF f(5)] f(4) by simp
qed

lemma Find_none:
  assumes ok: "flat_ok hf r" and k: "flat_map r k = None"
  shows "fr_Find hf k r = Some None"
proof -
  from ok obtain lg where f: "sized (lg + 3) r" "placed hf r" "unique_keys (fr_array r)" by (rule flat_okE)
  show ?thesis using Find_absent(1) [OF f(1) used_less(2) [OF ok]] k flat_map_None [OF f(3)] by blast
qed

lemma FindOrInsert_absent:
  assumes ro: "roomy hf r" and k: "flat_map r k = None"
  shows "\<exists>i r' m. fr_FindOrInsert hf k d r = Some (False, i, r') \<and> flat_ok hf r' \<and> flat_map r' = (flat_map r)(k \<mapsto> d)
    \<and> i < length (fr_array r') \<and> fr_array r' ! i = Full_entry m k d"
proof -
  have ok: "flat_ok hf r" and room: "fr_not_empty r < load_limit (length (fr_array r))"
    using ro by (auto simp: roomy_def)
  from ok obtain lg where f: "table_shape lg r" "fr_not_empty r \<le> load_limit (2 ^ (lg + 3))" "sized (lg + 3) r"
    "placed hf r" "unique_keys (fr_array r)" "fr_not_empty r = n_used (fr_array r)"
    "fr_deleted r = n_deleted (fr_array r)" "length (fr_array r) = 2 ^ (lg + 3)" "lg < 29"
    by (rule flat_okE)
  let ?mk = "Marker (hf k AND 255)"
  obtain i reuse where il: "insert_loop r ?mk k (start_index (hf k) (fr_mask r)) 1 None = Some (Inr (i, reuse))"
    "i < length (fr_array r)" "reached (hf k) i r" "fr_array r ! i = (if reuse then Deleted_entry else Empty_entry)"
    using Find_absent(2) [OF f(3) used_less(2) [OF ok]] k flat_map_None [OF f(5)] by blast
  let ?r = "r\<lparr>fr_array := (fr_array r)[i := Full_entry ?mk k d],
      fr_not_empty := (if reuse then fr_not_empty r else plus64 (fr_not_empty r) 1),
      fr_deleted := (if reuse then minus64 (fr_deleted r) 1 else fr_deleted r)\<rparr>"
  have nf: "\<not> is_full (fr_array r ! i)" by (simp add: il(4) is_full_def)
  note pc = put_counts [OF il(2) nf, of "Full_entry ?mk k d", unfolded is_full_def, simplified]
  note pp = put_placed [OF f(4) il(2) nf il(3) k, of ?r d, simplified]
  have small: "n_used (fr_array r) < 2 ^ 31" "n_deleted (fr_array r) < 2 ^ 31"
    using used_less [OF ok] flat_size(3) [OF ok] by auto
  have "fr_not_empty ?r = n_used (fr_array ?r)" "fr_deleted ?r = n_deleted (fr_array ?r)"
    using pc f(6,7) il(4) small by (auto simp: plus64_small minus64_small)
  moreover have "fr_not_empty ?r \<le> load_limit (2 ^ (lg + 3))"
    using room f(6,8) small by (auto simp: plus64_small)
  moreover have "table_shape lg ?r" using f(1) by (simp add: table_shape_def sized_def)
  ultimately have "flat_ok hf ?r" using pp(1) unfolding flat_ok_def by blast
  then show ?thesis using il(1,2) pp(2) by (simp add: fr_FindOrInsert_def)
qed

lemma Erase_ok:
  assumes ok: "flat_ok hf r" and i: "i < length (fr_array r)" "fr_array r ! i = Full_entry m k v"
  shows "flat_ok hf (fr_Erase i r)" "flat_map (fr_Erase i r) = (flat_map r)(k := None)"
proof -
  from ok obtain lg where f: "table_shape lg r" "fr_not_empty r \<le> load_limit (2 ^ (lg + 3))" "sized (lg + 3) r"
    "placed hf r" "unique_keys (fr_array r)" "fr_not_empty r = n_used (fr_array r)"
    "fr_deleted r = n_deleted (fr_array r)" "length (fr_array r) = 2 ^ (lg + 3)" "lg < 29"
    by (rule flat_okE)
  let ?r = "fr_Erase i r"
  have arr: "fr_array ?r = (fr_array r)[i := Deleted_entry]" by (simp add: fr_Erase_def)
  have u: "unique_keys (fr_array ?r)" unfolding arr by (rule unique_keys_update [OF f(5)]) (simp add: holds_key_def)
  have "reached h j ?r" if "reached h j r" for h j
    by (rule reached_update [OF that]) (use i(1) in \<open>auto simp: arr nth_list_update\<close>)
  then have pl: "placed hf ?r" using f(4) u i(1) unfolding placed_def arr by (auto simp: nth_list_update)
  have du: "n_used (fr_array ?r) = n_used (fr_array r)"
    using length_filter_update [OF i(1), of "\<lambda>e. e \<noteq> Empty_entry" Deleted_entry] i(2) by (simp add: n_used_def arr)
  have dd: "n_deleted (fr_array ?r) = n_deleted (fr_array r) + 1"
    using length_filter_update [OF i(1), of "\<lambda>e. e = Deleted_entry" Deleted_entry] i(2) by (simp add: n_deleted_def arr)
  have small: "n_deleted (fr_array r) < 2 ^ 31" using flat_size(3) [OF ok] by simp
  have "fr_not_empty ?r = n_used (fr_array ?r)" "fr_deleted ?r = n_deleted (fr_array ?r)"
    using f(6,7) du dd small by (simp_all add: fr_Erase_def plus64_small)
  moreover have "table_shape lg ?r" using f(1) by (simp add: table_shape_def sized_def fr_Erase_def)
  ultimately show "flat_ok hf ?r" using pl f(2) unfolding flat_ok_def by (auto simp: fr_Erase_def)
  show "flat_map ?r = (flat_map r)(k := None)"
  proof
    fix k'
    have "flat_map ?r k' = Some v' \<longleftrightarrow> ((flat_map r)(k := None)) k' = Some v'" for v'
    proof (cases "k' = k")
      case True
      have "\<not> holds_key k (fr_array ?r ! j)" if "j < length (fr_array ?r)" for j
      proof (cases "j = i")
        case False
        then show ?thesis using f(5) [unfolded unique_keys_def, rule_format, of j i k] that i by (auto simp: arr holds_key_def)
      qed (use i(1) in \<open>simp add: arr holds_key_def\<close>)
      then have "flat_map ?r k = None" unfolding flat_map_None [OF u] by blast
      then show ?thesis using True by simp
    next
      case False
      have "(j < length (fr_array ?r) \<and> fr_array ?r ! j = Full_entry m' k' v')
          \<longleftrightarrow> (j < length (fr_array r) \<and> fr_array r ! j = Full_entry m' k' v')" for j m'
        using False i by (cases "j = i") (auto simp: arr)
      then show ?thesis using False by (simp add: flat_map_iff [OF u] flat_map_iff [OF f(5)])
    qed
    then show "flat_map ?r k' = ((flat_map r)(k := None)) k'" by (metis option.exhaust)
  qed
qed

lemma set_val_ok:
  assumes ok: "flat_ok hf r" and i: "i < length (fr_array r)" "fr_array r ! i = Full_entry m k v"
  shows "flat_ok hf (set_val i w r)" "flat_map (set_val i w r) = (flat_map r)(k \<mapsto> w)"
proof -
  from ok obtain lg where f: "table_shape lg r" "fr_not_empty r \<le> load_limit (2 ^ (lg + 3))" "sized (lg + 3) r"
    "placed hf r" "unique_keys (fr_array r)" "fr_not_empty r = n_used (fr_array r)"
    "fr_deleted r = n_deleted (fr_array r)" "length (fr_array r) = 2 ^ (lg + 3)" "lg < 29"
    by (rule flat_okE)
  let ?r = "set_val i w r"
  have arr: "fr_array ?r = (fr_array r)[i := Full_entry m k w]" by (simp add: set_val_def i)
  have other: "\<not> holds_key k (fr_array r ! j)" if "j < length (fr_array r)" "j \<noteq> i" for j
    using f(5) [unfolded unique_keys_def, rule_format, of j i k] that i by (auto simp: holds_key_def)
  have u: "unique_keys (fr_array ?r)"
    unfolding arr by (rule unique_keys_update [OF f(5)]) (use other in \<open>auto simp: holds_key_def\<close>)
  have re: "reached h j ?r" if "reached h j r" for h j
    by (rule reached_update [OF that]) (use i(1) in \<open>auto simp: arr nth_list_update\<close>)
  have mk: "m = Marker (hf k AND 255)" "reached (hf k) i r" using f(4) i by (auto simp: placed_def)
  have pl: "placed hf ?r"
    unfolding placed_def
  proof (intro conjI u allI impI)
    fix j m' k' v'
    assume j: "j < length (fr_array ?r)" "fr_array ?r ! j = Full_entry m' k' v'"
    show "m' = Marker (hf k' AND 255)" using j f(4) mk i(1) by (cases "j = i") (auto simp: arr placed_def)
    show "reached (hf k') j ?r" using j f(4) re [OF mk(2)] re i(1) by (cases "j = i") (auto simp: arr placed_def)
  qed
  have du: "n_used (fr_array ?r) = n_used (fr_array r)"
    using length_filter_update [OF i(1), of "\<lambda>e. e \<noteq> Empty_entry" "Full_entry m k w"] i(2) by (simp add: n_used_def arr)
  have dd: "n_deleted (fr_array ?r) = n_deleted (fr_array r)"
    using length_filter_update [OF i(1), of "\<lambda>e. e = Deleted_entry" "Full_entry m k w"] i(2) by (simp add: n_deleted_def arr)
  have same: "fr_not_empty ?r = fr_not_empty r" "fr_deleted ?r = fr_deleted r" "table_shape lg ?r"
    using f(1) by (simp_all add: set_val_def i table_shape_def sized_def)
  then show "flat_ok hf ?r" using pl f(2,6,7) du dd unfolding flat_ok_def by auto
  show "flat_map ?r = (flat_map r)(k \<mapsto> w)"
  proof
    fix k'
    have "flat_map ?r k' = Some v' \<longleftrightarrow> ((flat_map r)(k \<mapsto> w)) k' = Some v'" for v'
    proof (cases "k' = k")
      case True
      have "fr_array ?r ! i = Full_entry m k w" "i < length (fr_array ?r)" using i(1) by (simp_all add: arr)
      then have "flat_map ?r k = Some w" unfolding flat_map_iff [OF u] by blast
      then show ?thesis using True by simp
    next
      case False
      have "(j < length (fr_array ?r) \<and> fr_array ?r ! j = Full_entry m' k' v')
          \<longleftrightarrow> (j < length (fr_array r) \<and> fr_array r ! j = Full_entry m' k' v')" for j m'
        using False i by (cases "j = i") (auto simp: arr)
      then show ?thesis using False by (simp add: flat_map_iff [OF u] flat_map_iff [OF f(5)])
    qed
    then show "flat_map ?r k' = ((flat_map r)(k \<mapsto> w)) k'" by (metis option.exhaust)
  qed
qed

end
