(* ===== verification/Flat_Resize.thy ===== *)
theory Flat_Resize
  imports Flat_Ops
begin

text \<open>
  Resizing the tables of core/lib/gtl/flatrep.h: the copy into a fresh table keeps the map,
  and after \<open>MaybeResize\<close> there is room for one more entry. What is left is the limit of the
  arithmetic of \<open>Init\<close>, 0.8 * 2 ^ 31 entries.
\<close>

definition max_entries :: nat where "max_entries = 1717986918"

lemma init_lg_spec:
  "init_lg n lg = Some l \<Longrightarrow> lg \<le> l \<and> l < 29 \<and> n * 2 ^ 52 < 2 ^ l * kWidth * four_fifths"
proof (induction n lg rule: init_lg.induct)
  case (1 n lg)
  then show ?case by (auto simp: init_lg.simps [of n lg] split: if_splits)
qed

lemma init_lg_total:
  "n \<le> max_entries \<Longrightarrow> lg \<le> 28 \<Longrightarrow> \<exists>l. init_lg n lg = Some l"
proof (induction n lg rule: init_lg.induct)
  case (1 n lg)
  show ?case
  proof (cases "2 ^ lg * kWidth * four_fifths \<le> n * 2 ^ 52")
    case True
    have "lg \<noteq> 28"
    proof
      assume "lg = 28"
      then show False using True 1(2) by (simp add: kWidth_def four_fifths_def max_entries_def)
    qed
    then show ?thesis using 1 True by (simp add: init_lg.simps [of n lg])
  next
    case False
    then show ?thesis using 1 by (simp add: init_lg.simps [of n lg])
  qed
qed

lemma capacity_eq: "2 ^ lg * kWidth = 2 ^ (lg + 3)"
  by (simp add: kWidth_def power_add)

lemma new_table_ok:
  fixes t :: "('k, 'v) flat_rep"
  assumes "lg < 29" and t: "t = new_table lg"
  shows "flat_ok hf t" "flat_map t = Map.empty" "fr_not_empty t = 0" "fr_deleted t = 0"
    "length (fr_array t) = 2 ^ (lg + 3)" "fr_grow t = load_limit (2 ^ (lg + 3))"
proof -
  have arr: "fr_array t = replicate (2 ^ (lg + 3)) Empty_entry"
    by (simp add: t new_table_def Let_def capacity_eq)
  show c: "fr_not_empty t = 0" "fr_deleted t = 0" "fr_grow t = load_limit (2 ^ (lg + 3))"
    "length (fr_array t) = 2 ^ (lg + 3)" by (simp_all add: t new_table_def Let_def capacity_eq)
  have sh: "table_shape lg t"
    using assms(1) by (simp add: t table_shape_def sized_def new_table_def Let_def capacity_eq)
  have n: "n_used (fr_array t) = 0" "n_deleted (fr_array t) = 0" by (simp_all add: n_used_def n_deleted_def arr)
  have "placed hf t" unfolding placed_def unique_keys_def arr by (simp add: holds_key_def)
  then show "flat_ok hf t" using sh c n unfolding flat_ok_def by (metis le0)
  have "full_entries (replicate m (Empty_entry :: ('k, 'v) entry)) = []" for m by (induction m) auto
  then show "flat_map t = Map.empty" by (simp add: flat_map_def flat_elems_def arr)
qed

lemma init_ok:
  fixes hf :: "'k \<Rightarrow> nat"
  assumes "n \<le> max_entries"
  shows "\<exists>t :: ('k, 'v) flat_rep. flat_init n = Some t \<and> flat_ok hf t \<and> flat_map t = Map.empty \<and> fr_not_empty t = 0
    \<and> fr_deleted t = 0 \<and> n \<le> load_limit (length (fr_array t)) \<and> fr_grow t = load_limit (length (fr_array t))"
proof -
  obtain lg where lg: "init_lg n 0 = Some lg" using init_lg_total [OF assms, of 0] by auto
  have l: "lg < 29" "n * 2 ^ 52 \<le> 2 ^ (lg + 3) * four_fifths" using init_lg_spec [OF lg] by (simp_all add: capacity_eq)
  have "n \<le> load_limit (2 ^ (lg + 3))"
    unfolding load_limit_def using div_le_mono [OF l(2), of "2 ^ 52"] by simp
  then show ?thesis using lg new_table_ok [OF l(1) refl, where ?'k = 'k and ?'v = 'v] by (auto simp: flat_init_def)
qed

section \<open>Copying\<close>

lemma FreshInsert_ok:
  assumes ro: "roomy hf r" and k: "flat_map r k = None"
  shows "\<exists>r'. FreshInsert hf k v r = Some r' \<and> flat_ok hf r' \<and> flat_map r' = (flat_map r)(k \<mapsto> v)
    \<and> fr_not_empty r' = fr_not_empty r + 1 \<and> fr_deleted r' = fr_deleted r
    \<and> length (fr_array r') = length (fr_array r) \<and> fr_grow r' = fr_grow r"
proof -
  have ok: "flat_ok hf r" and room: "fr_not_empty r < load_limit (length (fr_array r))"
    using ro by (auto simp: roomy_def)
  from ok obtain lg where f: "table_shape lg r" "fr_not_empty r \<le> load_limit (2 ^ (lg + 3))" "sized (lg + 3) r"
    "placed hf r" "unique_keys (fr_array r)" "fr_not_empty r = n_used (fr_array r)"
    "fr_deleted r = n_deleted (fr_array r)" "length (fr_array r) = 2 ^ (lg + 3)" "lg < 29"
    by (rule flat_okE)
  let ?mk = "Marker (hf k AND 255)"
  obtain i where il: "fresh_loop r (start_index (hf k) (fr_mask r)) 1 = Some i"
    "i < length (fr_array r)" "reached (hf k) i r" "fr_array r ! i = Empty_entry"
    using Find_absent(3) [OF f(3) used_less(2) [OF ok]] k flat_map_None [OF f(5)] by blast
  let ?r = "r\<lparr>fr_array := (fr_array r)[i := Full_entry ?mk k v], fr_not_empty := plus64 (fr_not_empty r) 1\<rparr>"
  have nf: "\<not> is_full (fr_array r ! i)" by (simp add: il(4) is_full_def)
  note pc = put_counts [OF il(2) nf, of "Full_entry ?mk k v", unfolded is_full_def, simplified]
  have pp: "placed hf ?r" "flat_map ?r = (flat_map r)(k \<mapsto> v)"
    using put_placed [OF f(4) il(2) nf il(3) k, of ?r v] by simp_all
  have small: "n_used (fr_array r) < 2 ^ 31" using used_less [OF ok] by auto
  have c: "fr_not_empty ?r = n_used (fr_array ?r)" "fr_deleted ?r = n_deleted (fr_array ?r)"
    "fr_not_empty ?r = fr_not_empty r + 1"
    using pc f(6,7) il(4) small by (auto simp: plus64_small)
  moreover have "fr_not_empty ?r \<le> load_limit (2 ^ (lg + 3))"
    using room f(8) c(3) by simp
  moreover have "table_shape lg ?r" using f(1) by (simp add: table_shape_def sized_def)
  ultimately have "flat_ok hf ?r" using pp(1) unfolding flat_ok_def by blast
  then show ?thesis using il(1,2) pp(2) c(3) by (simp add: FreshInsert_def)
qed

lemma CopyEntries_ok:
  assumes "flat_ok hf t" "distinct (map fst (full_entries es))" "fst ` set (full_entries es) \<inter> dom (flat_map t) = {}"
    and "fr_not_empty t + length (full_entries es) \<le> load_limit (length (fr_array t))"
  shows "\<exists>t'. CopyEntries hf es t = Some t' \<and> flat_ok hf t' \<and> flat_map t' = flat_map t ++ map_of (full_entries es)
    \<and> fr_not_empty t' = fr_not_empty t + length (full_entries es) \<and> fr_deleted t' = fr_deleted t
    \<and> length (fr_array t') = length (fr_array t) \<and> fr_grow t' = fr_grow t"
  using assms
proof (induction hf es t rule: CopyEntries.induct)
  case (2 hf m k v es t)
  have "roomy hf t" using 2(2,5) by (simp add: roomy_def)
  moreover have "flat_map t k = None" using 2(4) by (simp add: domIff)
  ultimately obtain t1 where t1: "FreshInsert hf k v t = Some t1" "flat_ok hf t1" "flat_map t1 = (flat_map t)(k \<mapsto> v)"
    "fr_not_empty t1 = fr_not_empty t + 1" "fr_deleted t1 = fr_deleted t"
    "length (fr_array t1) = length (fr_array t)" "fr_grow t1 = fr_grow t"
    using FreshInsert_ok [of hf t k v] by blast
  have k: "k \<notin> fst ` set (full_entries es)" using 2(3) by simp
  have kn: "map_of (full_entries es) k = None" using k by (simp add: map_of_eq_None_iff)
  have p1: "distinct (map fst (full_entries es))" using 2(3) by simp
  have p2: "fst ` set (full_entries es) \<inter> dom (flat_map t1) = {}" using 2(4) k by (auto simp: t1(3))
  have p3: "fr_not_empty t1 + length (full_entries es) \<le> load_limit (length (fr_array t1))"
    using 2(5) by (simp add: t1(4,6))
  obtain t' where t': "CopyEntries hf es t1 = Some t'" "flat_ok hf t'"
    "flat_map t' = flat_map t1 ++ map_of (full_entries es)"
    "fr_not_empty t' = fr_not_empty t1 + length (full_entries es)" "fr_deleted t' = fr_deleted t1"
    "length (fr_array t') = length (fr_array t1)" "fr_grow t' = fr_grow t1"
    using 2(1) [OF t1(1,2) p1 p2 p3] by blast
  have m: "flat_map t' = flat_map t ++ map_of (full_entries (Full_entry m k v # es))"
    unfolding t'(3) t1(3) using kn by (intro ext) (auto simp: map_add_def split: option.splits)
  show ?case
    by (rule exI [of _ t']) (intro conjI m t'(2), use t1 t'(1,4-7) in simp_all)
qed auto

text \<open>What every way of rebuilding a table gives.\<close>

lemma Resize_ok:
  fixes r :: "('k, 'v) flat_rep"
  assumes ok: "flat_ok hf r" and n: "fr_size r \<le> n" "n \<le> max_entries"
  shows "\<exists>r'. Resize hf n r = Some r' \<and> flat_ok hf r' \<and> flat_map r' = flat_map r \<and> fr_not_empty r' = fr_size r
    \<and> fr_deleted r' = 0 \<and> n \<le> load_limit (length (fr_array r')) \<and> fr_grow r' = load_limit (length (fr_array r'))"
proof -
  from ok obtain lg where u: "unique_keys (fr_array r)" by (rule flat_okE)
  obtain t :: "('k, 'v) flat_rep" where t: "flat_init n = Some t" "flat_ok hf t" "flat_map t = Map.empty" "fr_not_empty t = 0" "fr_deleted t = 0"
    "n \<le> load_limit (length (fr_array t))" "fr_grow t = load_limit (length (fr_array t))"
    using init_ok [OF n(2)] by blast
  have "fr_not_empty t + length (full_entries (fr_array r)) \<le> load_limit (length (fr_array t))"
    using t(4,6) n(1) flat_size(1) [OF ok] by (simp add: flat_elems_def)
  then obtain r' where "CopyEntries hf (fr_array r) t = Some r'" "flat_ok hf r'"
    "flat_map r' = flat_map t ++ map_of (full_entries (fr_array r))"
    "fr_not_empty r' = fr_not_empty t + length (full_entries (fr_array r))" "fr_deleted r' = fr_deleted t"
    "length (fr_array r') = length (fr_array t)" "fr_grow r' = fr_grow t"
    using CopyEntries_ok [OF t(2) distinct_full_entries [OF u]] t(3) by auto
  then show ?thesis using t flat_size(1) [OF ok] by (simp add: Resize_def flat_map_def flat_elems_def)
qed

lemma fr_copy_Resize: "fr_copy hf src = Resize hf (fr_size src) src"
  by (simp add: fr_copy_def Resize_def)

lemma flat_ok_grow:
  assumes ok: "flat_ok hf r"
  shows "flat_ok hf (r\<lparr>fr_grow := load_limit (bucket_count r)\<rparr>)" "bucket_count r = length (fr_array r)"
proof -
  from ok obtain lg where f: "table_shape lg r" "fr_not_empty r \<le> load_limit (2 ^ (lg + 3))" "sized (lg + 3) r"
    "placed hf r" "fr_not_empty r = n_used (fr_array r)" "fr_deleted r = n_deleted (fr_array r)"
    "length (fr_array r) = 2 ^ (lg + 3)" "lg < 29"
    by (rule flat_okE)
  have "(2 :: nat) ^ (lg + 3) < 2 ^ 64" using capacity_bound [OF f(8)] by simp
  then show b: "bucket_count r = length (fr_array r)"
    using f(3,7) by (simp add: bucket_count_def sized_def plus64_small)
  let ?r = "r\<lparr>fr_grow := load_limit (bucket_count r)\<rparr>"
  have "table_shape lg ?r" using f(1,7) b by (simp add: table_shape_def sized_def)
  moreover have "placed hf ?r" using f(4) by (simp add: placed_def reached_def)
  ultimately show "flat_ok hf ?r" using f unfolding flat_ok_def by auto
qed

lemma MaybeResize_ok:
  assumes ok: "flat_ok hf r" and n: "fr_size r < max_entries"
  shows "\<exists>r'. MaybeResize hf r = Some r' \<and> roomy hf r' \<and> flat_map r' = flat_map r"
proof -
  have p: "plus64 (fr_size r) 1 = fr_size r + 1" using n by (simp add: plus64_small max_entries_def)
  obtain r2 where r2: "Resize hf (fr_size r + 1) r = Some r2" "roomy hf r2" "flat_map r2 = flat_map r"
    using Resize_ok [OF ok, of "fr_size r + 1"] n by (auto simp: roomy_def)
  let ?r = "r\<lparr>fr_grow := load_limit (bucket_count r)\<rparr>"
  have same: "Resize hf m ?r = Resize hf m r" "fr_size ?r = fr_size r" "flat_map ?r = flat_map r" for m
    by (simp_all add: Resize_def fr_size_def flat_map_def flat_elems_def)
  from ok obtain lg where f: "table_shape lg r" "length (fr_array r) = 2 ^ (lg + 3)" by (rule flat_okE)
  consider (room) "fr_not_empty r < fr_grow r" | (regrow) "\<not> fr_not_empty r < fr_grow r" "fr_grow r = 0" "fr_shrink r \<le> fr_size r"
    | (resize) "\<not> fr_not_empty r < fr_grow r" "\<not> (fr_grow r = 0 \<and> fr_shrink r \<le> fr_size r)" by metis
  then show ?thesis
  proof cases
    case room
    then show ?thesis using ok f by (auto simp: MaybeResize_def roomy_def table_shape_def)
  next
    case regrow
    then show ?thesis
      using flat_ok_grow [OF ok] r2 same p by (auto simp: MaybeResize_def Let_def roomy_def)
  next
    case resize
    then have "MaybeResize hf r = Resize hf (fr_size r + 1) r" using p by (auto simp: MaybeResize_def)
    then show ?thesis using r2 by simp
  qed
qed

section \<open>Insertion and assignment\<close>

lemma insert_present:
  assumes "flat_ok hf r" "fr_size r < max_entries" "flat_map r k = Some w"
  shows "\<exists>i m r'. flat_insert hf k v r = Some (i, False, r') \<and> flat_ok hf r' \<and> flat_map r' = flat_map r
    \<and> i < length (fr_array r') \<and> fr_array r' ! i = Full_entry m k w"
proof -
  obtain r1 where r1: "MaybeResize hf r = Some r1" "roomy hf r1" "flat_map r1 = flat_map r"
    using MaybeResize_ok [OF assms(1,2)] by blast
  then show ?thesis
    using FindOrInsert_present [of hf r1 k w v] assms(3) by (auto simp: flat_insert_def roomy_def)
qed

lemma insert_absent:
  assumes "flat_ok hf r" "fr_size r < max_entries" "flat_map r k = None"
  shows "\<exists>i m r'. flat_insert hf k v r = Some (i, True, r') \<and> flat_ok hf r' \<and> flat_map r' = (flat_map r)(k \<mapsto> v)
    \<and> i < length (fr_array r') \<and> fr_array r' ! i = Full_entry m k v"
proof -
  obtain r1 where r1: "MaybeResize hf r = Some r1" "roomy hf r1" "flat_map r1 = flat_map r"
    using MaybeResize_ok [OF assms(1,2)] by blast
  then show ?thesis
    using FindOrInsert_absent [of hf r1 k v] assms(3) by (auto simp: flat_insert_def)
qed

lemma assign_ok:
  assumes "flat_ok hf r" "fr_size r < max_entries"
  shows "\<exists>r'. flat_assign hf d k v r = Some r' \<and> flat_ok hf r' \<and> flat_map r' = (flat_map r)(k \<mapsto> v)"
proof (cases "flat_map r k")
  case None
  then obtain i m r' where "flat_insert hf k d r = Some (i, True, r')" "flat_ok hf r'" "flat_map r' = (flat_map r)(k \<mapsto> d)"
    "i < length (fr_array r')" "fr_array r' ! i = Full_entry m k d"
    using insert_absent [OF assms] by blast
  then show ?thesis using set_val_ok [of hf r' i m k d v] by (simp add: flat_assign_def IndexOp_def)
next
  case (Some w)
  then obtain i m r' where "flat_insert hf k d r = Some (i, False, r')" "flat_ok hf r'" "flat_map r' = flat_map r"
    "i < length (fr_array r')" "fr_array r' ! i = Full_entry m k w"
    using insert_present [OF assms] by blast
  then show ?thesis using set_val_ok [of hf r' i m k w v] by (simp add: flat_assign_def IndexOp_def)
qed

lemma erase_ok:
  assumes "flat_ok hf r"
  shows "\<exists>r'. flat_erase hf k r = Some (if flat_map r k = None then 0 else 1, r') \<and> flat_ok hf r'
    \<and> flat_map r' = (flat_map r)(k := None)"
proof (cases "flat_map r k")
  case None
  then show ?thesis using Find_none [OF assms] assms by (auto simp: flat_erase_def fun_upd_idem)
next
  case (Some v)
  then obtain i m where "fr_Find hf k r = Some (Some i)" "i < length (fr_array r)" "fr_array r ! i = Full_entry m k v"
    using FindOrInsert_present [OF assms, of k v] by blast
  then show ?thesis using Erase_ok [OF assms] Some by (simp add: flat_erase_def)
qed

lemma at_ok:
  assumes "flat_ok hf r"
  shows "flat_at hf k r = flat_map r k" "flat_count hf k r = Some (if flat_map r k = None then 0 else 1)"
proof -
  have "flat_at hf k r = flat_map r k \<and> flat_count hf k r = Some (if flat_map r k = None then 0 else 1)"
  proof (cases "flat_map r k")
    case None
    then show ?thesis using Find_none [OF assms None] by (simp add: flat_at_def flat_count_def)
  next
    case (Some v)
    then obtain i m where "fr_Find hf k r = Some (Some i)" "fr_array r ! i = Full_entry m k v"
      using FindOrInsert_present [OF assms, of k v] by blast
    then show ?thesis using Some by (simp add: flat_at_def flat_count_def entry_val_def)
  qed
  then show "flat_at hf k r = flat_map r k" "flat_count hf k r = Some (if flat_map r k = None then 0 else 1)" by auto
qed

end
