(* ===== verification/Flat_Props.thy ===== *)
theory Flat_Props
  imports Flat_Resize
begin

text \<open>
  The tables of core/lib/gtl as maps: a run of the operations of \<open>FlatMap\<close> gives what a map
  gives, whatever the hash function; comparison and copying of tables; and the defect of
  \<open>clear_no_resize\<close>.
\<close>

section \<open>A table and a map\<close>

datatype ('k, 'v) map_op = Assign 'k 'v | Insert_new 'k 'v | Erase_key 'k | Look_up 'k | Count_key 'k | Reserve nat

datatype 'v map_reply = Done | Inserted bool | Count nat | Value "'v option"

definition flat_op :: "('k \<Rightarrow> nat) \<Rightarrow> 'v \<Rightarrow> ('k, 'v) map_op \<Rightarrow> ('k, 'v) flat_rep \<Rightarrow> (('k, 'v) flat_rep \<times> 'v map_reply) option" where
  "flat_op hf d operation r =
     (case operation of
        Assign k v \<Rightarrow> map_option (\<lambda>r'. (r', Done)) (flat_assign hf d k v r)
      | Insert_new k v \<Rightarrow> map_option (\<lambda>(i, b, r'). (r', Inserted b)) (flat_insert hf k v r)
      | Erase_key k \<Rightarrow> map_option (\<lambda>(n, r'). (r', Count n)) (flat_erase hf k r)
      | Look_up k \<Rightarrow> Some (r, Value (flat_at hf k r))
      | Count_key k \<Rightarrow> map_option (\<lambda>n. (r, Count n)) (flat_count hf k r)
      | Reserve n \<Rightarrow> map_option (\<lambda>r'. (r', Done)) (flat_resize hf n r))"

definition flat_step :: "('k \<Rightarrow> nat) \<Rightarrow> 'v \<Rightarrow> ('k, 'v) flat_rep \<Rightarrow> ('k, 'v) map_op \<Rightarrow> ('k, 'v) flat_rep \<times> 'v map_reply option" where
  "flat_step hf d r operation = (case flat_op hf d operation r of None \<Rightarrow> (r, None) | Some (r', a) \<Rightarrow> (r', Some a))"

definition map_step :: "('k \<Rightarrow> 'v option) \<Rightarrow> ('k, 'v) map_op \<Rightarrow> ('k \<Rightarrow> 'v option) \<times> 'v map_reply option" where
  "map_step m operation =
     (case operation of
        Assign k v \<Rightarrow> (m(k \<mapsto> v), Some Done)
      | Insert_new k v \<Rightarrow> (if m k = None then m(k \<mapsto> v) else m, Some (Inserted (m k = None)))
      | Erase_key k \<Rightarrow> (m(k := None), Some (Count (if m k = None then 0 else 1)))
      | Look_up k \<Rightarrow> (m, Some (Value (m k)))
      | Count_key k \<Rightarrow> (m, Some (Count (if m k = None then 0 else 1)))
      | Reserve n \<Rightarrow> (m, Some Done))"

definition map_room :: "('k \<Rightarrow> 'v option) \<Rightarrow> ('k, 'v) map_op \<Rightarrow> bool" where
  "map_room m operation \<longleftrightarrow> card (dom m) < max_entries \<and> (case operation of Reserve n \<Rightarrow> n \<le> max_entries | _ \<Rightarrow> True)"

lemma reserve_ok:
  assumes "flat_ok hf r" "fr_size r \<le> max_entries" "n \<le> max_entries"
  shows "\<exists>r'. flat_resize hf n r = Some r' \<and> flat_ok hf r' \<and> flat_map r' = flat_map r"
  using Resize_ok [OF assms(1), of "max n (fr_size r)"] assms(2,3) by (auto simp: flat_resize_def)

lemma flat_step_ok:
  assumes ok: "flat_ok hf r" and room: "map_room (flat_map r) operation"
  shows "(flat_map (fst (flat_step hf d r operation)), snd (flat_step hf d r operation)) = map_step (flat_map r) operation
    \<and> flat_ok hf (fst (flat_step hf d r operation))"
proof -
  have size: "fr_size r < max_entries" using room flat_size(1,2) [OF ok] by (simp add: map_room_def)
  show ?thesis
  proof (cases operation)
    case (Assign k v)
    then show ?thesis using assign_ok [OF ok size, of d k v] by (auto simp: flat_step_def flat_op_def map_step_def)
  next
    case (Insert_new k v)
    then show ?thesis
      using insert_present [OF ok size, of k _ v] insert_absent [OF ok size, of k v]
      by (cases "flat_map r k") (force simp: flat_step_def flat_op_def map_step_def)+
  next
    case (Erase_key k)
    then show ?thesis using erase_ok [OF ok, of k] by (auto simp: flat_step_def flat_op_def map_step_def)
  next
    case (Look_up k)
    then show ?thesis using at_ok(1) [OF ok] ok by (simp add: flat_step_def flat_op_def map_step_def)
  next
    case (Count_key k)
    then show ?thesis using at_ok(2) [OF ok] ok by (simp add: flat_step_def flat_op_def map_step_def)
  next
    case (Reserve n)
    then have "n \<le> max_entries" using room by (simp add: map_room_def)
    then obtain r' where "flat_resize hf n r = Some r'" "flat_ok hf r'" "flat_map r' = flat_map r"
      using reserve_ok [OF ok less_imp_le [OF size]] by blast
    then show ?thesis using Reserve by (simp add: flat_step_def flat_op_def map_step_def)
  qed
qed

interpretation flat: simulation flat_map "flat_step hf d" map_step "flat_ok hf" map_room for hf d
  by unfold_locales (use flat_step_ok [of hf _ _ d] in blast)+

lemma map_step_size: "finite (dom m) \<Longrightarrow> finite (dom (fst (map_step m x))) \<and> card (dom (fst (map_step m x))) \<le> Suc (card (dom m))"
  by (cases x) (auto simp: map_step_def card_insert_if intro: le_SucI card_mono)

lemma few_ops_fit:
  assumes "finite (dom m)" "card (dom m) + length xs \<le> max_entries" "\<forall>n. Reserve n \<in> set xs \<longrightarrow> n \<le> max_entries"
  shows "run_ok map_step map_room m xs"
  using assms
proof (induction xs arbitrary: m)
  case (Cons x xs)
  then have "map_room m x" by (auto simp: map_room_def split: map_op.split)
  then show ?case using Cons.IH [of "fst (map_step m x)"] map_step_size [of m x] Cons.prems by auto
qed simp

lemma new_flat_ok:
  fixes hf :: "'k \<Rightarrow> nat"
  shows "\<exists>r :: ('k, 'v) flat_rep. new_flat = Some r \<and> flat_ok hf r \<and> flat_map r = Map.empty"
  using init_ok [of 1 hf] by (auto simp: new_flat_def max_entries_def)

text \<open>
  C27: A \<open>FlatMap\<close> is a map, whatever the hash function: in a run of at most 0.8 * 2 ^ 31
  operations that reserve no more than that, every operation returns, gives the reply a map
  gives, and an iteration from \<open>begin()\<close> to \<open>end()\<close> visits every key of the map once, with its
  value; \<open>size()\<close> is the number of keys.
\<close>

theorem flat_map_refines:
  fixes hf :: "'k \<Rightarrow> nat" and d :: 'v
  assumes "length xs \<le> max_entries" "\<forall>n. Reserve n \<in> set xs \<longrightarrow> n \<le> max_entries"
  shows "\<exists>r0 r. new_flat = Some r0 \<and> run (flat_step hf d) r0 xs = (r, snd (run map_step Map.empty xs))
    \<and> map_of (flat_elems r) = fst (run map_step Map.empty xs) \<and> distinct (map fst (flat_elems r))
    \<and> fr_size r = length (flat_elems r)"
proof -
  obtain r0 :: "('k, 'v) flat_rep" where r0: "new_flat = Some r0" "flat_ok hf r0" "flat_map r0 = Map.empty"
    using new_flat_ok by blast
  have "run_ok map_step map_room (flat_map r0) xs" using few_ops_fit [of Map.empty xs] assms r0(3) by simp
  from flat.sim_run [OF r0(2) this, of d] obtain r where
    r: "run (flat_step hf d) r0 xs = (r, snd (run map_step Map.empty xs))" "flat_map r = fst (run map_step Map.empty xs)"
      "flat_ok hf r"
    using r0(3) by (metis fst_conv prod.collapse snd_conv)
  from r(3) obtain lg where "unique_keys (fr_array r)" by (rule flat_okE)
  then show ?thesis using r0(1) r flat_size(1) [OF r(3)] distinct_full_entries [of "fr_array r"]
    by (auto simp: flat_map_def flat_elems_def)
qed

lemma flat_map_refines_witness:
  "\<exists>r0 r. new_flat = Some r0
    \<and> run (flat_step (\<lambda>k. 0) 0) r0 [Assign (7 :: nat) (1 :: nat), Assign 8 2, Erase_key 7, Look_up 8, Look_up 7]
      = (r, [Some Done, Some Done, Some (Count 1), Some (Value (Some 2)), Some (Value None)])
    \<and> fr_size r = length (flat_elems r)"
proof -
  let ?xs = "[Assign (7 :: nat) (1 :: nat), Assign 8 2, Erase_key 7, Look_up 8, Look_up 7]"
  have "\<exists>r0 r. new_flat = Some r0 \<and> run (flat_step (\<lambda>k. 0) 0) r0 ?xs = (r, snd (run map_step Map.empty ?xs))
    \<and> map_of (flat_elems r) = fst (run map_step Map.empty ?xs) \<and> distinct (map fst (flat_elems r))
    \<and> fr_size r = length (flat_elems r)"
    by (rule flat_map_refines) (auto simp: max_entries_def)
  moreover have "snd (run map_step Map.empty ?xs) = [Some Done, Some Done, Some (Count 1), Some (Value (Some 2)), Some (Value None)]"
    by (simp add: map_step_def)
  ultimately show ?thesis by (metis (no_types, lifting))
qed

section \<open>Comparison and copies\<close>

lemma equal_loop_ok:
  assumes "flat_ok hf r"
  shows "equal_loop hf kvs r = Some (\<forall>(k, v)\<in>set kvs. flat_map r k = Some v)"
proof (induction kvs)
  case (Cons kv kvs)
  obtain k v where kv: "kv = (k, v)" by (cases kv)
  show ?case
  proof (cases "flat_map r k")
    case None
    then show ?thesis using Find_none [OF assms None] by (simp add: kv)
  next
    case (Some w)
    then obtain i m where "fr_Find hf k r = Some (Some i)" "fr_array r ! i = Full_entry m k w"
      using FindOrInsert_present [OF assms, of k w] by blast
    then show ?thesis using Some Cons by (simp add: kv entry_val_def)
  qed
qed simp

text \<open>
  \<open>operator==\<close> of two tables returns and compares the maps they hold, although they may
  hold the keys in a different order, with different capacities and deleted entries; and the
  copy of a table is equal to it.
\<close>

theorem flat_equal_exact:
  assumes ok: "flat_ok hf r" "flat_ok hf x" and size: "fr_size x \<le> max_entries"
  shows "flat_equal hf r x = Some (flat_map r = flat_map x)
    \<and> (\<exists>y. fr_copy hf x = Some y \<and> flat_equal hf y x = Some True \<and> fr_deleted y = 0)"
proof -
  have eq: "flat_equal hf a x = Some (flat_map a = flat_map x)" if "flat_ok hf a" for a
  proof -
    have sz: "fr_size a = card (dom (flat_map a))" "fr_size x = card (dom (flat_map x))"
      using flat_size(1,2) that ok(2) by metis+
    from ok(2) obtain lg where u: "unique_keys (fr_array x)" by (rule flat_okE)
    have el: "(k, v) \<in> set (flat_elems x) \<longleftrightarrow> flat_map x k = Some v" for k v
      unfolding flat_map_def using map_of_eq_Some_iff [OF distinct_full_entries [OF u]] by (simp add: flat_elems_def)
    have fin: "finite (dom (flat_map a))" by (simp add: flat_map_def finite_dom_map_of)
    show ?thesis
    proof (cases "fr_size a = fr_size x")
      case False
      then show ?thesis using sz by (auto simp: flat_equal_def)
    next
      case True
      have "(\<forall>(k, v)\<in>set (flat_elems x). flat_map a k = Some v) \<longleftrightarrow> flat_map a = flat_map x"
      proof
        assume all: "\<forall>(k, v)\<in>set (flat_elems x). flat_map a k = Some v"
        have le: "flat_map x \<subseteq>\<^sub>m flat_map a" unfolding map_le_def
        proof
          fix k assume "k \<in> dom (flat_map x)"
          then obtain v where v: "flat_map x k = Some v" by blast
          then have "(k, v) \<in> set (flat_elems x)" using el by simp
          then show "flat_map x k = flat_map a k" using all v by auto
        qed
        then have "dom (flat_map x) = dom (flat_map a)"
          using card_subset_eq [OF fin map_le_implies_dom_le] True sz by metis
        then show "flat_map a = flat_map x" using le map_le_antisym unfolding map_le_def by metis
      qed (use el in auto)
      then show ?thesis using True equal_loop_ok [OF that] by (simp add: flat_equal_def)
    qed
  qed
  obtain y where y: "fr_copy hf x = Some y" "flat_ok hf y" "flat_map y = flat_map x" "fr_deleted y = 0"
    using Resize_ok [OF ok(2) order_refl size] by (auto simp: fr_copy_Resize)
  show ?thesis using eq [OF ok(1)] eq [OF y(2)] y by auto
qed

lemma flat_equal_exact_witness:
  "\<exists>r0 :: (nat, nat) flat_rep. new_flat = Some r0 \<and> flat_equal (\<lambda>k. k) r0 r0 = Some True"
proof -
  obtain r0 :: "(nat, nat) flat_rep" where r0: "new_flat = Some r0" "flat_ok (\<lambda>k. k) r0" "flat_map r0 = Map.empty"
    using new_flat_ok by blast
  have "fr_size r0 \<le> max_entries" using flat_size(1,2) [OF r0(2)] r0(3) by simp
  then show ?thesis using flat_equal_exact [OF r0(2) r0(2)] r0(1) by auto
qed

section \<open>Clearing\<close>

lemma clear_entries: "full_entries (map clear_entry es) = []" "n_deleted (map clear_entry es) = n_deleted es"
  by (induction es rule: full_entries.induct) (auto simp: clear_entry_def is_full_def n_deleted_def)

text \<open>Without deleted entries clearing is right.\<close>

lemma clear_fresh:
  assumes ok: "flat_ok hf r" and none: "fr_deleted r = 0"
  shows "flat_ok hf (clear_no_resize r)" "flat_map (clear_no_resize r) = Map.empty"
proof -
  from ok obtain lg where f: "table_shape lg r" "placed hf r" "fr_deleted r = n_deleted (fr_array r)" "lg < 29"
    by (rule flat_okE)
  let ?r = "clear_no_resize r"
  have "e \<noteq> Deleted_entry" if "e \<in> set (fr_array r)" for e
    using f(3) none that by (auto simp: n_deleted_def filter_empty_conv)
  then have "\<forall>e\<in>set (fr_array r). clear_entry e = Empty_entry"
    by (auto simp: clear_entry_def is_full_def split: entry.splits)
  then have arr: "fr_array ?r = replicate (length (fr_array r)) Empty_entry"
    by (simp add: clear_no_resize_def list_eq_iff_nth_eq)
  have "n_used (fr_array ?r) = 0" "n_deleted (fr_array ?r) = 0" by (simp_all add: arr n_used_def n_deleted_def)
  moreover have "placed hf ?r" unfolding placed_def unique_keys_def arr by (simp add: holds_key_def)
  moreover have "table_shape lg ?r" using f(1) by (simp add: table_shape_def sized_def clear_no_resize_def)
  moreover have "fr_not_empty ?r = 0" "fr_deleted ?r = 0" by (simp_all add: clear_no_resize_def)
  ultimately show "flat_ok hf ?r" unfolding flat_ok_def by (metis le0)
  show "flat_map ?r = Map.empty" using clear_entries(1) [of "fr_array r"] by (simp add: flat_map_def flat_elems_def clear_no_resize_def)
qed

text \<open>
  A probe sequence ends at an empty entry or at its key; without either it never ends.
\<close>

lemma find_loop_stuck:
  assumes "sized p r" "Empty_entry \<notin> set (fr_array r)" "\<forall>i<length (fr_array r). \<not> holds_key k (fr_array r ! i)"
    and "i < length (fr_array r)"
  shows "find_loop r mk k i n = None"
proof (rule ccontr)
  assume "find_loop r mk k i n \<noteq> None"
  then obtain res where "find_loop r mk k i n = Some res" by blast
  then have "sized p r \<longrightarrow> Empty_entry \<notin> set (fr_array r)
      \<longrightarrow> (\<forall>i<length (fr_array r). \<not> holds_key k (fr_array r ! i)) \<longrightarrow> \<not> i < length (fr_array r)"
  proof (rule find_loop.raw_induct [rotated])
    fix f r mk k i n res
    assume IH: "\<And>r mk k i n res. f r mk k i n = Some res \<Longrightarrow> sized p r \<longrightarrow> Empty_entry \<notin> set (fr_array r)
        \<longrightarrow> (\<forall>i<length (fr_array r). \<not> holds_key k (fr_array r ! i)) \<longrightarrow> \<not> i < length (fr_array r)"
      and run: "(case fr_array r ! i of
            Empty_entry \<Rightarrow> Some None
          | Deleted_entry \<Rightarrow> f r mk k (NextIndex (fr_mask r) i n) (n + 1)
          | Full_entry x key val \<Rightarrow> if x = mk \<and> key = k then Some (Some i) else f r mk k (NextIndex (fr_mask r) i n) (n + 1))
          = Some res"
    show "sized p r \<longrightarrow> Empty_entry \<notin> set (fr_array r)
        \<longrightarrow> (\<forall>i<length (fr_array r). \<not> holds_key k (fr_array r ! i)) \<longrightarrow> \<not> i < length (fr_array r)"
    proof (intro impI notI)
      assume s: "sized p r" and e: "Empty_entry \<notin> set (fr_array r)"
        and k: "\<forall>i<length (fr_array r). \<not> holds_key k (fr_array r ! i)" and i: "i < length (fr_array r)"
      have "fr_array r ! i \<noteq> Empty_entry" using e i by (metis nth_mem)
      then have "f r mk k (NextIndex (fr_mask r) i n) (n + 1) = Some res"
        using run k i by (auto simp: holds_key_def split: entry.splits if_splits)
      then have "\<not> NextIndex (fr_mask r) i n < length (fr_array r)" using IH s e k by blast
      then show False using s by (simp add: NextIndex_def sized_def and_capacity [of _ p, simplified])
    qed
  qed
  then show False using assms by blast
qed

lemma insert_loop_stuck:
  assumes "find_loop r mk k i n = None"
  shows "insert_loop r mk k i n del = None"
proof (rule ccontr)
  assume "insert_loop r mk k i n del \<noteq> None"
  then obtain res where "insert_loop r mk k i n del = Some res" by blast
  then have "find_loop r mk k i n \<noteq> None"
  proof (rule insert_loop.raw_induct [rotated])
    fix f r mk k i n del res
    assume IH: "\<And>r mk k i n del res. f r mk k i n del = Some res \<Longrightarrow> find_loop r mk k i n \<noteq> None"
      and run: "(case fr_array r ! i of
            Empty_entry \<Rightarrow> Some (Inr (case del of None \<Rightarrow> (i, False) | Some d \<Rightarrow> (d, True)))
          | Deleted_entry \<Rightarrow> f r mk k (NextIndex (fr_mask r) i n) (n + 1) (if del = None then Some i else del)
          | Full_entry x key val \<Rightarrow>
              if x = mk \<and> key = k then Some (Inl i) else f r mk k (NextIndex (fr_mask r) i n) (n + 1) del) = Some res"
    show "find_loop r mk k i n \<noteq> None"
    proof (cases "fr_array r ! i")
      case Deleted_entry
      then show ?thesis using IH run by (simp add: find_loop.simps [of r mk k i n])
    next
      case (Full_entry x key val)
      then show ?thesis using IH run by (auto simp: find_loop.simps [of r mk k i n] split: if_splits)
    qed (simp add: find_loop.simps)
  qed
  then show False using assms by blast
qed

definition slot_hash :: "nat \<Rightarrow> nat" where "slot_hash k = 256 * k"

definition one_bucket :: "(nat, unit) entry list \<Rightarrow> nat \<Rightarrow> nat \<Rightarrow> nat \<Rightarrow> (nat, unit) flat_rep" where
  "one_bucket es used del g =
     \<lparr>fr_array = es, fr_mask = 7, fr_not_empty = used, fr_deleted = del, fr_grow = g, fr_shrink = 0\<rparr>"

abbreviation in_slot :: "nat \<Rightarrow> (nat, unit) entry" where
  "in_slot k \<equiv> Full_entry 2 k ()"

lemma slot_marker: "Marker (slot_hash k AND 255) = 2"
proof -
  have "slot_hash k AND (2 ^ 8 - 1) = 0" unfolding and_capacity by (simp add: slot_hash_def)
  then show ?thesis by (simp add: Marker_def)
qed

lemma slot_start: "start_index (slot_hash k) 7 = k mod 8"
  using and_capacity [of "drop_bit 8 (slot_hash k)" 3] by (simp add: start_index_def slot_hash_def drop_bit_eq_div)

lemma slot_assign:
  assumes "k < 8" "length es = 8" "es ! k = Empty_entry" "used < 6"
  shows "flat_assign slot_hash () k () (one_bucket es used del 6) = Some (one_bucket (es[k := in_slot k]) (used + 1) del 6)"
  using assms slot_marker [of k] slot_start [of k]
  by (simp add: flat_assign_def IndexOp_def flat_insert_def MaybeResize_def fr_FindOrInsert_def one_bucket_def
      insert_loop.simps set_val_def plus64_def)

lemma slot_erase:
  assumes "k < 8" "length es = 8" "es ! k = in_slot k" "del < 8"
  shows "flat_erase slot_hash k (one_bucket es used del g) = Some (1, one_bucket (es[k := Deleted_entry]) used (del + 1) 0)"
  using assms slot_marker [of k] slot_start [of k]
  by (simp add: flat_erase_def fr_Find_def one_bucket_def find_loop.simps fr_Erase_def plus64_def)

text \<open>
  C40: \<open>clear()\<close> forgets how many deleted entries a table has but leaves them in the table. A
  set that held five elements, lost them, was cleared and got three other elements has size 3
  and no empty entry: looking up any element it does not have, or inserting one, never
  returns.
\<close>

theorem clear_keeps_tombstones:
  "\<exists>r0 r1 r2 r3.
     (new_flat :: (nat, unit) flat_rep option) = Some r0
   \<and> run (flat_step slot_hash ()) r0 (map (\<lambda>k. Assign k ()) [0, 1, 2, 3, 4] @ map Erase_key [0, 1, 2, 3, 4])
       = (r1, replicate 5 (Some Done) @ replicate 5 (Some (Count 1)))
   \<and> flat_elems r1 = [] \<and> fr_clear slot_hash r1 = Some r2 \<and> fr_size r2 = 0
   \<and> run (flat_step slot_hash ()) r2 (map (\<lambda>k. Assign k ()) [5, 6, 7]) = (r3, replicate 3 (Some Done))
   \<and> fr_size r3 = 3 \<and> (\<forall>k. k \<notin> {5, 6, 7} \<longrightarrow> fr_Find slot_hash k r3 = None \<and> flat_insert slot_hash k () r3 = None)"
proof -
  let ?E = "Empty_entry :: (nat, unit) entry" and ?D = "Deleted_entry :: (nat, unit) entry"
  let ?r0 = "one_bucket [?E, ?E, ?E, ?E, ?E, ?E, ?E, ?E] 0 0 6"
  let ?r1 = "one_bucket [?D, ?D, ?D, ?D, ?D, ?E, ?E, ?E] 5 5 0"
  let ?r2 = "one_bucket [?D, ?D, ?D, ?D, ?D, ?E, ?E, ?E] 0 0 6"
  let ?r3 = "one_bucket [?D, ?D, ?D, ?D, ?D, in_slot 5, in_slot 6, in_slot 7] 3 0 6"
  have rep: "replicate 3 (x :: unit map_reply option) = [x, x, x]" "replicate 5 x = [x, x, x, x, x]" for x
    by (simp_all add: eval_nat_numeral)
  have three: "Suc (Suc (Suc 0)) = 3" by simp
  have five: "Suc (Suc (Suc (Suc (Suc 0)))) = 5" by simp
  have limit: "load_limit 8 = 6" by (simp add: load_limit_def four_fifths_def)
  have "init_lg 1 0 = Some 0" by (simp add: init_lg.simps kWidth_def four_fifths_def)
  then have e0: "new_flat = Some ?r0"
    using limit by (simp add: new_flat_def flat_init_def new_table_def kWidth_def one_bucket_def Let_def eval_nat_numeral)
  have e1: "run (flat_step slot_hash ()) ?r0 (map (\<lambda>k. Assign k ()) [0, 1, 2, 3, 4] @ map Erase_key [0, 1, 2, 3, 4])
       = (?r1, replicate 5 (Some Done) @ replicate 5 (Some (Count 1)))"
    by (simp add: flat_step_def flat_op_def slot_assign slot_erase rep five)
  have e2: "fr_clear slot_hash ?r1 = Some ?r2"
    using limit by (simp add: fr_clear_def clear_no_resize_def MaybeResize_def one_bucket_def clear_entry_def is_full_def
        fr_size_def minus64_def bucket_count_def plus64_def Let_def)
  have e3: "run (flat_step slot_hash ()) ?r2 (map (\<lambda>k. Assign k ()) [5, 6, 7]) = (?r3, replicate 3 (Some Done))"
    by (simp add: flat_step_def flat_op_def slot_assign rep three)
  have stuck: "fr_Find slot_hash k ?r3 = None \<and> flat_insert slot_hash k () ?r3 = None" if "k \<notin> {5, 6, 7}" for k
  proof -
    have no_key: "\<forall>i<length (fr_array ?r3). \<not> holds_key k (fr_array ?r3 ! i)"
      using that by (auto simp: one_bucket_def holds_key_def less_Suc_eq_0_disj)
    have f: "find_loop ?r3 mk k (k mod 8) n = None" for mk n
      by (rule find_loop_stuck [of 3, OF _ _ no_key]) (simp_all add: one_bucket_def sized_def)
    have m: "fr_mask ?r3 = 7" "MaybeResize slot_hash ?r3 = Some ?r3" by (simp_all add: MaybeResize_def one_bucket_def)
    show ?thesis
      by (simp add: fr_Find_def flat_insert_def fr_FindOrInsert_def m slot_start f insert_loop_stuck [OF f])
  qed
  have sizes: "flat_elems ?r1 = []" "fr_size ?r2 = 0" "fr_size ?r3 = 3"
    by (simp_all add: flat_elems_def one_bucket_def fr_size_def minus64_def)
  show ?thesis
    by (rule exI [of _ ?r0], rule exI [of _ ?r1], rule exI [of _ ?r2], rule exI [of _ ?r3])
      (use e0 e1 e2 e3 sizes stuck in blast)
qed

lemma clear_keeps_tombstones_witness:
  "\<exists>r :: (nat, unit) flat_rep. fr_size r = 3 \<and> fr_Find slot_hash 8 r = None \<and> flat_insert slot_hash 8 () r = None"
proof -
  have "(8 :: nat) \<notin> {5, 6, 7}" by simp
  then show ?thesis using clear_keeps_tombstones by blast
qed

end
