(* ===== verification/Edge_Sets.thy ===== *)
theory Edge_Sets
  imports Flat_Props
begin

text \<open>
  The sets of edges of a node: core/graph/edgeset.h and edgeset.cc. Up to eight edges are in an
  array of pointers, more of them in a \<open>FlatSet\<close>. A pointer is its address, the null pointer is 0.

  In the code \<open>ptrs_[0] == this\<close> tells that \<open>ptrs_[1]\<close> points to a set; here these are two
  constructors. What the other pointers hold then does not matter: \<open>clear\<close> resets them all.
  \<open>None\<close> is an access before the array or a call that does not return.
\<close>

datatype edge_set = Inline "nat list" | Tree "nat flat_set"

definition kInline :: nat where "kInline = 8"

text \<open>\<open>hash<T*>\<close> of platform/hash.h, on addresses of 64 bits.\<close>

definition hash_ptr :: "nat \<Rightarrow> nat" where
  "hash_ptr k = (k + drop_bit 6 k) mod 2 ^ 64"

definition new_edge_set :: edge_set where
  "new_edge_set = Inline (replicate kInline 0)"

definition es_size :: "edge_set \<Rightarrow> nat" where
  "es_size s = (case s of Tree r \<Rightarrow> fr_size r | Inline ps \<Rightarrow> length (filter (\<lambda>p. p \<noteq> 0) ps))"

definition es_empty :: "edge_set \<Rightarrow> bool" where
  "es_empty s = (es_size s = 0)"

definition es_clear :: "edge_set \<Rightarrow> edge_set" where
  "es_clear s = Inline (replicate kInline 0)"

text \<open>The first position of a pointer in the array.\<close>

fun find_ptr :: "nat list \<Rightarrow> nat \<Rightarrow> nat option" where
  "find_ptr [] v = None"
| "find_ptr (p # ps) v = (if p = v then Some 0 else map_option Suc (find_ptr ps v))"

definition tree_insert :: "nat \<Rightarrow> nat flat_set \<Rightarrow> (bool \<times> edge_set) option" where
  "tree_insert v r = map_option (\<lambda>(i, b, r'). (b, Tree r')) (set_insert hash_ptr v r)"

definition es_insert :: "nat \<Rightarrow> edge_set \<Rightarrow> (bool \<times> edge_set) option" where
  "es_insert v s =
     (case s of
        Tree r \<Rightarrow> tree_insert v r
      | Inline ps \<Rightarrow>
          (case find_ptr ps v of
             Some i \<Rightarrow> Some (False, s)
           | None \<Rightarrow>
               (case find_ptr ps 0 of
                  Some i \<Rightarrow> Some (True, Inline (ps[i := v]))
                | None \<Rightarrow> do { r0 \<leftarrow> new_flat; r \<leftarrow> set_insert_range hash_ptr ps r0; tree_insert v r })))"

definition es_erase :: "nat \<Rightarrow> edge_set \<Rightarrow> (nat \<times> edge_set) option" where
  "es_erase v s =
     (case s of
        Tree r \<Rightarrow> map_option (\<lambda>(n, r'). (n, Tree r')) (flat_erase hash_ptr v r)
      | Inline ps \<Rightarrow>
          (case find_ptr ps v of
             None \<Rightarrow> Some (0, s)
           | Some i \<Rightarrow> (let n = es_size s in
               if n = 0 then None else Some (1, Inline ((ps[i := ps ! (n - 1)])[n - 1 := 0])))))"

text \<open>What a loop from \<open>begin()\<close> to \<open>end()\<close> visits.\<close>

definition es_elems :: "edge_set \<Rightarrow> nat list" where
  "es_elems s = (case s of Tree r \<Rightarrow> map fst (flat_elems r) | Inline ps \<Rightarrow> take (es_size s) ps)"

section \<open>As a set\<close>

definition es_set :: "edge_set \<Rightarrow> nat set" where
  "es_set s = (case s of Tree r \<Rightarrow> dom (flat_map r) | Inline ps \<Rightarrow> set ps - {0})"

text \<open>The pointers of the array come first, without repetition.\<close>

definition es_ok :: "edge_set \<Rightarrow> bool" where
  "es_ok s = (case s of
      Tree r \<Rightarrow> flat_ok hash_ptr r \<and> flat_map r 0 = None
    | Inline ps \<Rightarrow> \<exists>xs. length xs \<le> kInline \<and> ps = xs @ replicate (kInline - length xs) 0 \<and> distinct xs \<and> 0 \<notin> set xs)"

lemma es_ok_InlineE:
  assumes "es_ok (Inline ps)"
  obtains xs where "length xs \<le> kInline" "ps = xs @ replicate (kInline - length xs) 0" "distinct xs" "0 \<notin> set xs"
    "es_size (Inline ps) = length xs" "es_elems (Inline ps) = xs" "es_set (Inline ps) = set xs"
proof -
  obtain xs where xs: "length xs \<le> kInline" "ps = xs @ replicate (kInline - length xs) 0" "distinct xs" "0 \<notin> set xs"
    using assms by (auto simp: es_ok_def)
  have "\<forall>x\<in>set xs. x \<noteq> 0" using xs(4) by metis
  then have f: "filter (\<lambda>p. p \<noteq> 0) ps = xs" by (simp add: xs(2) filter_id_conv filter_empty_conv)
  then have "es_size (Inline ps) = length xs" by (simp add: es_size_def)
  moreover have "es_set (Inline ps) = set xs" using xs(2,4) by (auto simp: es_set_def)
  ultimately show ?thesis using that [OF xs] xs(2) by (simp add: es_elems_def)
qed

lemma find_ptr_None: "find_ptr ps v = None \<longleftrightarrow> v \<notin> set ps"
  by (induction ps) auto

lemma find_ptr_Some: "find_ptr ps v = Some i \<Longrightarrow> i < length ps \<and> ps ! i = v"
  by (induction ps arbitrary: i) (auto split: if_splits)

lemma find_ptr_append: "v \<notin> set xs \<Longrightarrow> find_ptr (xs @ v # ys) v = Some (length xs)"
  by (induction xs) auto

lemma new_edge_set_ok [simp]: "es_ok new_edge_set" "es_set new_edge_set = {}" "es_elems new_edge_set = []"
  by (auto simp: new_edge_set_def es_ok_def es_set_def es_elems_def es_size_def intro: exI [of _ "[]"])

lemma es_clear_new: "es_clear s = new_edge_set"
  by (simp add: es_clear_def new_edge_set_def)

lemma es_elems_ok:
  assumes "es_ok s"
  shows "distinct (es_elems s)" "set (es_elems s) = es_set s" "es_size s = card (es_set s)" "finite (es_set s)"
proof -
  have "distinct (es_elems s) \<and> set (es_elems s) = es_set s \<and> es_size s = length (es_elems s)"
  proof (cases s)
    case (Inline ps)
    then show ?thesis using es_ok_InlineE assms by metis
  next
    case (Tree r)
    then have ok: "flat_ok hash_ptr r" using assms by (simp add: es_ok_def)
    then obtain lg where "unique_keys (fr_array r)" by (rule flat_okE)
    then show ?thesis using distinct_full_entries flat_size(1) [OF ok] Tree
      by (auto simp: es_elems_def es_set_def es_size_def flat_map_def flat_elems_def dom_map_of_conv_image_fst)
  qed
  then show "distinct (es_elems s)" and e: "set (es_elems s) = es_set s" and "es_size s = card (es_set s)"
    by (auto simp: distinct_card [symmetric])
  show "finite (es_set s)" unfolding e [symmetric] by simp
qed

lemma tree_insert_ok:
  assumes ok: "flat_ok hash_ptr r" and nz: "v \<noteq> 0" "flat_map r 0 = None" and room: "card (dom (flat_map r)) < max_entries"
  shows "\<exists>s'. tree_insert v r = Some (v \<notin> dom (flat_map r), s') \<and> es_ok s' \<and> es_set s' = insert v (dom (flat_map r))"
proof -
  have sz: "fr_size r < max_entries" using room flat_size(1,2) [OF ok] by simp
  show ?thesis
  proof (cases "flat_map r v")
    case None
    then obtain i m r' where "flat_insert hash_ptr v () r = Some (i, True, r')" "flat_ok hash_ptr r'"
      "flat_map r' = (flat_map r)(v \<mapsto> ())"
      using insert_absent [OF ok sz] by blast
    then show ?thesis using None nz by (auto simp: tree_insert_def set_insert_def es_ok_def es_set_def)
  next
    case (Some u)
    then obtain i m r' where "flat_insert hash_ptr v () r = Some (i, False, r')" "flat_ok hash_ptr r'"
      "flat_map r' = flat_map r"
      using insert_present [OF ok sz, of v u "()"] by blast
    then show ?thesis using Some nz by (auto simp: tree_insert_def set_insert_def es_ok_def es_set_def)
  qed
qed

lemma insert_range_ok:
  assumes "flat_ok hash_ptr r" "card (dom (flat_map r)) + length ps < max_entries" "0 \<notin> set ps" "flat_map r 0 = None"
  shows "\<exists>r'. set_insert_range hash_ptr ps r = Some r' \<and> flat_ok hash_ptr r' \<and> flat_map r' 0 = None
    \<and> dom (flat_map r') = dom (flat_map r) \<union> set ps"
  using assms
proof (induction ps arbitrary: r)
  case (Cons p ps)
  have "\<exists>s'. tree_insert p r = Some (p \<notin> dom (flat_map r), s') \<and> es_ok s' \<and> es_set s' = insert p (dom (flat_map r))"
    by (rule tree_insert_ok) (use Cons.prems in auto)
  then obtain i b r1 where r1: "set_insert hash_ptr p r = Some (i, b, r1)" "es_ok (Tree r1)" "es_set (Tree r1) = insert p (dom (flat_map r))"
    by (auto simp: tree_insert_def)
  then have d1: "flat_ok hash_ptr r1" "flat_map r1 0 = None" "dom (flat_map r1) = insert p (dom (flat_map r))"
    by (auto simp: es_ok_def es_set_def)
  have "finite (dom (flat_map r))" by (simp add: flat_map_def finite_dom_map_of)
  then have "card (dom (flat_map r1)) \<le> Suc (card (dom (flat_map r)))" by (simp add: d1(3) card_insert_if)
  then have "card (dom (flat_map r1)) + length ps < max_entries" using Cons.prems(2) by simp
  then show ?case using Cons.IH [of r1] d1 r1(1) Cons.prems(3) by auto
qed auto

lemma es_insert_ok:
  assumes ok: "es_ok s" and v: "v \<noteq> 0" and room: "card (es_set s) < max_entries"
  shows "\<exists>s'. es_insert v s = Some (v \<notin> es_set s, s') \<and> es_ok s' \<and> es_set s' = insert v (es_set s)"
proof (cases s)
  case (Tree r)
  then show ?thesis using tree_insert_ok [of r v] assms by (simp add: es_insert_def es_ok_def es_set_def)
next
  case (Inline ps)
  from ok obtain xs where xs: "length xs \<le> kInline" "ps = xs @ replicate (kInline - length xs) 0" "distinct xs" "0 \<notin> set xs"
    "es_set s = set xs"
    unfolding Inline by (rule es_ok_InlineE)
  show ?thesis
  proof (cases "v \<in> set xs")
    case True
    then have "find_ptr ps v \<noteq> None" using xs(2) by (simp add: find_ptr_None)
    then show ?thesis using True ok xs(5) Inline by (auto simp: es_insert_def)
  next
    case new: False
    then have nf: "find_ptr ps v = None" using xs(2) v by (auto simp: find_ptr_None)
    show ?thesis
    proof (cases "length xs < kInline")
      case True
      then obtain m where m: "kInline - length xs = Suc m" by (cases "kInline - length xs") auto
      then have ps: "ps = xs @ 0 # replicate m 0" using xs(2) by simp
      then have "es_insert v s = Some (True, Inline (ps[length xs := v]))"
        using find_ptr_append [OF xs(4), of "replicate m 0"] nf Inline by (simp add: es_insert_def)
      moreover have "ps[length xs := v] = (xs @ [v]) @ replicate (kInline - length (xs @ [v])) 0"
        using m by (simp add: ps)
      moreover have "es_ok (Inline ((xs @ [v]) @ replicate (kInline - length (xs @ [v])) 0))"
        unfolding es_ok_def edge_set.case
        by (rule exI [of _ "xs @ [v]"]) (use True new v xs(3,4) in auto)
      moreover have "es_set (Inline ((xs @ [v]) @ replicate (kInline - length (xs @ [v])) 0)) = insert v (set xs)"
        using v xs(4) by (auto simp: es_set_def)
      ultimately show ?thesis using new xs(5) by metis
    next
      case False
      then have ps: "ps = xs" "length xs = kInline" using xs(1,2) by auto
      then have n0: "find_ptr ps 0 = None" using xs(4) by (simp add: find_ptr_None)
      obtain r0 :: "nat flat_set" where r0: "new_flat = Some r0" "flat_ok hash_ptr r0" "flat_map r0 = Map.empty"
        using new_flat_ok by blast
      obtain r where r: "set_insert_range hash_ptr ps r0 = Some r" "flat_ok hash_ptr r" "flat_map r 0 = None"
        "dom (flat_map r) = set xs"
        using insert_range_ok [OF r0(2), of ps] r0(3) ps xs(4) by (auto simp: max_entries_def kInline_def)
      have "card (dom (flat_map r)) < max_entries" using room xs(5) r(4) by simp
      then have "\<exists>s'. tree_insert v r = Some (v \<notin> set xs, s') \<and> es_ok s' \<and> es_set s' = insert v (set xs)"
        using tree_insert_ok [OF r(2) v r(3)] r(4) by simp
      moreover have "es_insert v s = tree_insert v r"
        by (simp add: es_insert_def Inline nf n0 r0(1) r(1))
      ultimately show ?thesis using xs(5) by simp
    qed
  qed
qed

lemma es_erase_ok:
  assumes ok: "es_ok s" and v: "v \<noteq> 0"
  shows "\<exists>s'. es_erase v s = Some (if v \<in> es_set s then 1 else 0, s') \<and> es_ok s' \<and> es_set s' = es_set s - {v}"
proof (cases s)
  case (Tree r)
  then have "flat_ok hash_ptr r" "flat_map r 0 = None" using ok by (auto simp: es_ok_def)
  then show ?thesis
    using erase_ok [of hash_ptr r v] Tree
    by (cases "flat_map r v") (auto simp: es_erase_def es_set_def es_ok_def split: if_splits)
next
  case (Inline ps)
  from ok obtain xs where xs: "length xs \<le> kInline" "ps = xs @ replicate (kInline - length xs) 0" "distinct xs" "0 \<notin> set xs"
    "es_set s = set xs" "es_size s = length xs"
    unfolding Inline by (rule es_ok_InlineE)
  show ?thesis
  proof (cases "v \<in> set xs")
    case False
    then have "find_ptr ps v = None" using xs(2) v by (auto simp: find_ptr_None)
    then show ?thesis using False ok xs(5) Inline by (auto simp: es_erase_def)
  next
    case True
    then obtain i where i: "find_ptr ps v = Some i" using find_ptr_None [of ps v] xs(2) by auto
    then have psi: "i < length ps" "ps ! i = v" using find_ptr_Some by blast+
    then have il: "i < length xs" using xs(2) v by (auto simp: nth_append split: if_splits)
    then have xi: "xs ! i = v" using psi(2) xs(2) by (simp add: nth_append)
    define n where "n = length xs - 1"
    have n: "length xs = Suc n" using il by (simp add: n_def)
    let ?ys = "take n (xs[i := xs ! n])"
    have split: "xs = take n xs @ [xs ! n]" using n by (metis lessI take_Suc_conv_app_nth take_all_iff order_refl)
    have "(ps[i := ps ! n])[n := 0] = ?ys @ 0 # replicate (kInline - length xs) 0"
    proof (rule nth_equalityI)
      show "length ((ps[i := ps ! n])[n := 0]) = length (?ys @ 0 # replicate (kInline - length xs) 0)"
        using n xs(1,2) by simp
      fix j assume "j < length ((ps[i := ps ! n])[n := 0])"
      then show "(ps[i := ps ! n])[n := 0] ! j = (?ys @ 0 # replicate (kInline - length xs) 0) ! j"
        using n il by (auto simp: xs(2) nth_append nth_list_update nth_Cons')
    qed
    moreover have "0 # replicate (kInline - length xs) 0 = replicate (kInline - length ?ys) (0 :: nat)"
      using n xs(1) by (simp add: Suc_diff_Suc flip: replicate_Suc)
    moreover have "es_erase v s = Some (1, Inline ((ps[i := ps ! n])[n := 0]))"
      using i xs(6) n Inline by (simp add: es_erase_def)
    ultimately have er: "es_erase v s = Some (1, Inline (?ys @ replicate (kInline - length ?ys) 0))" by simp
    have ys: "set ?ys = set xs - {v}" "distinct ?ys"
    proof -
      have "distinct (xs[i := xs ! n]) \<or> i < n" using n il by (cases "i = n") (auto simp: xs(3))
      have nv: "j < n \<Longrightarrow> j \<noteq> i \<Longrightarrow> xs ! j \<noteq> v \<and> xs ! j \<noteq> xs ! n" for j
        using xs(3) n il xi by (auto simp: nth_eq_iff_index_eq)
      have nth: "j < n \<Longrightarrow> ?ys ! j = (if j = i then xs ! n else xs ! j)" for j using n by (simp add: nth_list_update)
      have len: "length ?ys = n" using n by simp
      show "distinct ?ys"
        unfolding distinct_conv_nth len
        using nth nv xs(3) n il by (auto simp: nth_eq_iff_index_eq)
      show "set ?ys = set xs - {v}"
      proof (rule set_eqI)
        fix w
        have "w \<in> set ?ys \<longleftrightarrow> (\<exists>j<n. w = (if j = i then xs ! n else xs ! j))"
          unfolding in_set_conv_nth len using nth by metis
        also have "\<dots> \<longleftrightarrow> (\<exists>j<Suc n. w = xs ! j) \<and> w \<noteq> v"
        proof
          assume "\<exists>j<n. w = (if j = i then xs ! n else xs ! j)"
          then show "(\<exists>j<Suc n. w = xs ! j) \<and> w \<noteq> v"
            using nv xs(3) n il xi by (auto simp: nth_eq_iff_index_eq split: if_splits intro: less_SucI)
        next
          assume "(\<exists>j<Suc n. w = xs ! j) \<and> w \<noteq> v"
          then obtain j where j: "j < Suc n" "w = xs ! j" "j \<noteq> i" using xi by auto
          show "\<exists>j<n. w = (if j = i then xs ! n else xs ! j)"
          proof (cases "j = n")
            case True
            then show ?thesis using j il n by (intro exI [of _ i]) auto
          next
            case False
            then show ?thesis using j by (intro exI [of _ j]) auto
          qed
        qed
        finally show "w \<in> set ?ys \<longleftrightarrow> w \<in> set xs - {v}" by (auto simp: in_set_conv_nth n)
      qed
    qed
    let ?z = "Inline (?ys @ replicate (kInline - length ?ys) 0)"
    have z1: "es_ok ?z"
      unfolding es_ok_def edge_set.case
      by (rule exI [of _ ?ys]) (use ys xs(1,4) n in auto)
    have z2: "es_set ?z = es_set s - {v}"
    proof -
      have "es_set (Inline (zs @ replicate m 0)) = set zs - {0}" for zs m by (auto simp: es_set_def)
      then have "es_set ?z = set ?ys - {0}" .
      also have "\<dots> = set xs - {v} - {0}" by (simp only: ys(1))
      also have "\<dots> = es_set s - {v}" using xs(4) by (simp add: xs(5))
      finally show ?thesis .
    qed
    have z3: "es_erase v s = Some (if v \<in> es_set s then 1 else 0, ?z)"
      by (simp only: er xs(5) True if_True)
    show ?thesis by (rule exI [of _ ?z], intro conjI) (fact z3 z1 z2)+
  qed
qed

text \<open>
  What the client of an edge set, the graph, relies on; every law is proved above for the
  code's sets.
\<close>

locale pointer_set =
  fixes ok :: "'s \<Rightarrow> bool" and elements :: "'s \<Rightarrow> nat set" and fresh :: 's
    and insert_ptr :: "nat \<Rightarrow> 's \<Rightarrow> (bool \<times> 's) option" and erase_ptr :: "nat \<Rightarrow> 's \<Rightarrow> (nat \<times> 's) option"
    and limit :: nat
  assumes fresh_ok: "ok fresh" "elements fresh = {}"
    and finite_elements: "ok s \<Longrightarrow> finite (elements s)"
    and insert_law: "ok s \<Longrightarrow> v \<noteq> 0 \<Longrightarrow> card (elements s) < limit
      \<Longrightarrow> \<exists>s'. insert_ptr v s = Some (v \<notin> elements s, s') \<and> ok s' \<and> elements s' = insert v (elements s)"
    and erase_law: "ok s \<Longrightarrow> v \<noteq> 0
      \<Longrightarrow> \<exists>s'. erase_ptr v s = Some (if v \<in> elements s then 1 else 0, s') \<and> ok s' \<and> elements s' = elements s - {v}"
begin

text \<open>The two \<open>CHECK\<close>s of the graph: an edge that is put in is new, one that is taken out was there.\<close>

lemma insert_checked:
  assumes "ok s" "v \<noteq> 0" "card (elements s) < limit" "v \<notin> elements s"
  obtains s' where "insert_ptr v s = Some (True, s')" "ok s'" "elements s' = insert v (elements s)"
  using insert_law [OF assms(1-3)] assms(4) by auto

lemma erase_checked:
  assumes "ok s" "v \<noteq> 0" "v \<in> elements s"
  obtains s' where "erase_ptr v s = Some (1, s')" "ok s'" "elements s' = elements s - {v}"
  using erase_law [OF assms(1,2)] assms(3) by auto

end

interpretation edges: pointer_set es_ok es_set new_edge_set es_insert es_erase max_entries
  by unfold_locales (auto simp: es_elems_ok es_insert_ok es_erase_ok)

text \<open>A run of insertions, deletions and clears, with the replies of a set.\<close>

datatype set_op = Put nat | Take nat | Clear_all

definition es_step :: "edge_set \<Rightarrow> set_op \<Rightarrow> edge_set \<times> nat option" where
  "es_step s x =
     (case x of
        Put v \<Rightarrow> (case es_insert v s of Some (b, s') \<Rightarrow> (s', Some (of_bool b)) | None \<Rightarrow> (s, None))
      | Take v \<Rightarrow> (case es_erase v s of Some (n, s') \<Rightarrow> (s', Some n) | None \<Rightarrow> (s, None))
      | Clear_all \<Rightarrow> (es_clear s, Some 0))"

definition set_step :: "nat set \<Rightarrow> set_op \<Rightarrow> nat set \<times> nat option" where
  "set_step S x =
     (case x of
        Put v \<Rightarrow> (insert v S, Some (of_bool (v \<notin> S)))
      | Take v \<Rightarrow> (S - {v}, Some (of_bool (v \<in> S)))
      | Clear_all \<Rightarrow> ({}, Some 0))"

fun no_null :: "set_op \<Rightarrow> bool" where
  "no_null (Put v) = (v \<noteq> 0)"
| "no_null (Take v) = (v \<noteq> 0)"
| "no_null Clear_all = True"

definition set_room :: "nat set \<Rightarrow> set_op \<Rightarrow> bool" where
  "set_room S x \<longleftrightarrow> card S < max_entries \<and> no_null x"

lemma es_step_ok:
  assumes "es_ok s" "set_room (es_set s) x"
  shows "(es_set (fst (es_step s x)), snd (es_step s x)) = set_step (es_set s) x \<and> es_ok (fst (es_step s x))"
proof (cases x)
  case (Put v)
  then obtain s' where "es_insert v s = Some (v \<notin> es_set s, s')" "es_ok s'" "es_set s' = insert v (es_set s)"
    using edges.insert_law [OF assms(1), of v] assms(2) by (auto simp: set_room_def simp del: max_entries_def)
  then show ?thesis using Put by (simp add: es_step_def set_step_def)
next
  case (Take v)
  then obtain s' where "es_erase v s = Some (if v \<in> es_set s then 1 else 0, s')" "es_ok s'" "es_set s' = es_set s - {v}"
    using edges.erase_law [OF assms(1), of v] assms(2) by (auto simp: set_room_def)
  then show ?thesis using Take by (simp add: es_step_def set_step_def)
next
  case Clear_all
  then show ?thesis by (simp add: es_step_def set_step_def es_clear_new)
qed

interpretation es: simulation es_set es_step set_step es_ok set_room
  by unfold_locales (use es_step_ok in blast)+

lemma set_ops_fit:
  assumes "finite S" "card S + length xs \<le> max_entries" "\<forall>x\<in>set xs. no_null x"
  shows "run_ok set_step set_room S xs"
  using assms
proof (induction xs arbitrary: S)
  case (Cons x xs)
  have "finite (fst (set_step S x)) \<and> card (fst (set_step S x)) \<le> Suc (card S)"
    using Cons.prems(1) by (cases x) (auto simp: set_step_def card_insert_if intro: le_SucI card_mono)
  then show ?case using Cons.IH [of "fst (set_step S x)"] Cons.prems by (auto simp: set_room_def)
qed simp

text \<open>
  C28: An \<open>EdgeSet\<close> is a set of pointers, through every change between its array and its hash
  table: each insertion tells whether the edge was new, each deletion whether it was there, and
  an iteration visits every edge once.
\<close>

theorem edge_set_refines:
  assumes "length xs \<le> max_entries" "\<forall>x\<in>set xs. no_null x"
  shows "\<exists>s. run es_step new_edge_set xs = (s, snd (run set_step {} xs))
    \<and> set (es_elems s) = fst (run set_step {} xs) \<and> distinct (es_elems s) \<and> es_size s = length (es_elems s)"
proof -
  have "run_ok set_step set_room (es_set new_edge_set) xs" using set_ops_fit [of "{}" xs] assms by simp
  from es.sim_run [OF new_edge_set_ok(1) this]
  have sim: "(es_set (fst (run es_step new_edge_set xs)), snd (run es_step new_edge_set xs)) = run set_step {} xs"
    "es_ok (fst (run es_step new_edge_set xs))" by simp_all
  obtain s rs where s: "run es_step new_edge_set xs = (s, rs)" by (cases "run es_step new_edge_set xs")
  have "run set_step {} xs = (es_set s, rs)" "es_ok s" using sim by (simp_all add: s)
  then show ?thesis using es_elems_ok [of s] distinct_card [of "es_elems s"] s by auto
qed

lemma edge_set_refines_witness:
  "\<exists>s. run es_step new_edge_set (map Put [1..<11] @ [Take 3, Take 3, Put 4])
      = (s, replicate 10 (Some 1) @ [Some 1, Some 0, Some 0]) \<and> es_size s = 9"
proof -
  let ?xs = "map Put [1..<11] @ [Take 3, Take 3, Put 4]"
  have ten: "[1..<11] = [1, 2, 3, 4, 5, 6, 7, 8, 9, 10 :: nat]" by (simp add: upt_conv_Cons)
  have v: "run set_step {} ?xs = ({1, 2, 4, 5, 6, 7, 8, 9, 10}, replicate 10 (Some 1) @ [Some 1, Some 0, Some 0])"
    unfolding ten by (simp add: set_step_def eval_nat_numeral(2,3) insert_commute)
  obtain s where "run es_step new_edge_set ?xs = (s, snd (run set_step {} ?xs))"
    "set (es_elems s) = fst (run set_step {} ?xs)" "distinct (es_elems s)" "es_size s = length (es_elems s)"
    using edge_set_refines [of ?xs] by (auto simp: max_entries_def)
  then show ?thesis unfolding v using distinct_card [of "es_elems s"] by auto
qed

end
