(* ===== verification/Graph_Ops.thy ===== *)
theory Graph_Ops
  imports Graph_Model Edge_Sets
begin

text \<open>
  How a graph is built and changed: class \<open>Graph\<close> of core/graph/graph.cc and graph.h.

  Nodes and edges are objects in an arena; a pointer is an address, 0 the null pointer.
  \<open>arena n\<close> is the address of the \<open>n\<close>-th object the arena hands out; that addresses are
  different and not null is a hypothesis of the lemmas. Removed objects go to free lists and
  are used again; ids are not.

  The properties of a node are shared between copies: \<open>shared_ptr\<close>s to objects with a
  reference count. The registry of ops is a parameter. \<open>None\<close> is a failed \<open>CHECK\<close>, an
  access outside an array or through a dangling pointer, or an edge set that does not return.
\<close>

record edge_obj =
  eo_id :: int
  eo_src :: nat
  eo_dst :: nat
  eo_src_output :: int
  eo_dst_input :: int

record node_props =
  np_op_def :: nat
  np_name :: string
  np_op :: string
  np_inputs :: "string list"
  np_input_types :: "nat list"
  np_output_types :: "nat list"
  np_attrs :: "(string \<times> attr_value) list"
  np_allows_uninitialized :: bool

record shared_props =
  sp_count :: nat
  sp_props :: node_props

record node_obj =
  no_id :: int
  no_cost_id :: int
  no_class :: node_class
  no_in :: edge_set
  no_out :: edge_set
  no_props :: "nat option"
  no_device :: nat
  no_while_ctx :: nat

record graph_state =
  gr_nodes :: "nat list"
  gr_num_nodes :: int
  gr_edges :: "nat list"
  gr_num_edges :: int
  gr_free_nodes :: "nat list"
  gr_free_edges :: "nat list"
  gr_node_objs :: "nat \<Rightarrow> node_obj option"
  gr_edge_objs :: "nat \<Rightarrow> edge_obj option"
  gr_props :: "shared_props list"
  gr_allocated :: nat
  gr_name_counter :: nat
  gr_device_names :: "string list"
  gr_device_map :: "(string \<times> nat) list"

definition new_node_obj :: node_obj where
  "new_node_obj = \<lparr>no_id = - 1, no_cost_id = - 1, no_class = NC_UNINITIALIZED, no_in = new_edge_set, no_out = new_edge_set,
     no_props = None, no_device = 0, no_while_ctx = 0\<rparr>"

definition empty_graph :: graph_state where
  "empty_graph = \<lparr>gr_nodes = [], gr_num_nodes = 0, gr_edges = [], gr_num_edges = 0, gr_free_nodes = [], gr_free_edges = [],
     gr_node_objs = Map.empty, gr_edge_objs = Map.empty, gr_props = [], gr_allocated = 0, gr_name_counter = 0,
     gr_device_names = [[]], gr_device_map = []\<rparr>"

section \<open>Objects\<close>

definition put_node :: "nat \<Rightarrow> node_obj \<Rightarrow> graph_state \<Rightarrow> graph_state" where
  "put_node p n g = g\<lparr>gr_node_objs := (gr_node_objs g)(p \<mapsto> n)\<rparr>"

definition put_edge :: "nat \<Rightarrow> edge_obj \<Rightarrow> graph_state \<Rightarrow> graph_state" where
  "put_edge e eo g = g\<lparr>gr_edge_objs := (gr_edge_objs g)(e \<mapsto> eo)\<rparr>"

text \<open>\<open>v[i] = x\<close> with an \<open>int\<close> index.\<close>

definition store_at :: "'a list \<Rightarrow> int \<Rightarrow> 'a \<Rightarrow> 'a list option" where
  "store_at xs i x = (if 0 \<le> i \<and> nat i < length xs then Some (xs[nat i := x]) else None)"

definition load_at :: "'a list \<Rightarrow> int \<Rightarrow> 'a option" where
  "load_at xs i = (if 0 \<le> i \<and> nat i < length xs then Some (xs ! nat i) else None)"

definition node_props_of :: "node_obj \<Rightarrow> graph_state \<Rightarrow> node_props option" where
  "node_props_of n g = do { i \<leftarrow> no_props n; if i < length (gr_props g) then Some (sp_props (gr_props g ! i)) else None }"

definition node_name :: "nat \<Rightarrow> graph_state \<Rightarrow> string option" where
  "node_name p g = do { n \<leftarrow> gr_node_objs g p; pr \<leftarrow> node_props_of n g; Some (np_name pr) }"

text \<open>A new properties object, one more owner of one, one owner less.\<close>

definition make_props :: "node_props \<Rightarrow> graph_state \<Rightarrow> nat \<times> graph_state" where
  "make_props pr g = (length (gr_props g), g\<lparr>gr_props := gr_props g @ [\<lparr>sp_count = 1, sp_props = pr\<rparr>]\<rparr>)"

definition share_props :: "nat \<Rightarrow> graph_state \<Rightarrow> graph_state" where
  "share_props i g = g\<lparr>gr_props := (gr_props g)[i := (gr_props g ! i)\<lparr>sp_count := sp_count (gr_props g ! i) + 1\<rparr>]\<rparr>"

definition drop_props :: "nat \<Rightarrow> graph_state \<Rightarrow> graph_state" where
  "drop_props i g = g\<lparr>gr_props := (gr_props g)[i := (gr_props g ! i)\<lparr>sp_count := sp_count (gr_props g ! i) - 1\<rparr>]\<rparr>"

definition MaybeCopyOnWrite :: "nat \<Rightarrow> graph_state \<Rightarrow> graph_state option" where
  "MaybeCopyOnWrite p g =
     do { n \<leftarrow> gr_node_objs g p; i \<leftarrow> no_props n; pr \<leftarrow> node_props_of n g;
          Some (if sp_count (gr_props g ! i) \<noteq> 1
                then (let (j, g') = make_props pr g in put_node p (n\<lparr>no_props := Some j\<rparr>) (drop_props i g'))
                else g) }"

definition set_props :: "nat \<Rightarrow> (node_props \<Rightarrow> node_props) \<Rightarrow> graph_state \<Rightarrow> graph_state option" where
  "set_props p f g =
     do { n \<leftarrow> gr_node_objs g p; i \<leftarrow> no_props n; pr \<leftarrow> node_props_of n g;
          Some (g\<lparr>gr_props := (gr_props g)[i := (gr_props g ! i)\<lparr>sp_props := f pr\<rparr>]\<rparr>) }"

text \<open>Every change of the properties of a node: copy them if they are shared, then write.\<close>

definition mutate_props :: "nat \<Rightarrow> (node_props \<Rightarrow> node_props) \<Rightarrow> graph_state \<Rightarrow> graph_state option" where
  "mutate_props p f g = Option.bind (MaybeCopyOnWrite p g) (set_props p f)"

definition set_name :: "nat \<Rightarrow> string \<Rightarrow> graph_state \<Rightarrow> graph_state option" where
  "set_name p name g = mutate_props p (\<lambda>pr. pr\<lparr>np_name := name\<rparr>) g"

definition add_input :: "nat \<Rightarrow> string \<Rightarrow> graph_state \<Rightarrow> graph_state option" where
  "add_input p input g = mutate_props p (\<lambda>pr. pr\<lparr>np_inputs := np_inputs pr @ [input]\<rparr>) g"

definition ClearAttr :: "nat \<Rightarrow> string \<Rightarrow> graph_state \<Rightarrow> graph_state option" where
  "ClearAttr p name g = mutate_props p (\<lambda>pr. pr\<lparr>np_attrs := filter (\<lambda>(k, v). k \<noteq> name) (np_attrs pr)\<rparr>) g"

section \<open>Nodes\<close>

definition InitializeNodeObj :: "int \<Rightarrow> int \<Rightarrow> nat \<Rightarrow> node_props \<Rightarrow> bool \<Rightarrow> node_obj \<Rightarrow> node_obj" where
  "InitializeNodeObj nid cost_id props pr is_function_op n =
     n\<lparr>no_id := nid, no_cost_id := cost_id, no_props := Some props,
       no_class := (if is_function_op then NC_FUNCTION_OP else get_node_class_for_op (np_op pr))\<rparr>"

text \<open>\<open>while_ctx_\<close> stays what it was.\<close>

definition ClearNodeObj :: "node_obj \<Rightarrow> node_obj" where
  "ClearNodeObj n = n\<lparr>no_in := es_clear (no_in n), no_out := es_clear (no_out n), no_id := - 1, no_cost_id := - 1,
     no_class := NC_UNINITIALIZED, no_props := None, no_device := 0\<rparr>"

definition take_node :: "(nat \<Rightarrow> nat) \<Rightarrow> graph_state \<Rightarrow> nat \<times> graph_state" where
  "take_node arena g =
     (if gr_free_nodes g = []
      then (let p = arena (gr_allocated g) in (p, put_node p new_node_obj (g\<lparr>gr_allocated := gr_allocated g + 1\<rparr>)))
      else (last (gr_free_nodes g), g\<lparr>gr_free_nodes := butlast (gr_free_nodes g)\<rparr>))"

definition AllocateNode :: "(nat \<Rightarrow> nat) \<Rightarrow> nat \<Rightarrow> node_obj option \<Rightarrow> bool \<Rightarrow> graph_state \<Rightarrow> (nat \<times> graph_state) option" where
  "AllocateNode arena props cost_node is_function_op g =
     (let (p, g1) = take_node arena g; nid = int (length (gr_nodes g1));
          cost = (case cost_node of Some c \<Rightarrow> no_cost_id c | None \<Rightarrow> nid) in
      do { n \<leftarrow> gr_node_objs g1 p;
           sp \<leftarrow> (if props < length (gr_props g1) then Some (gr_props g1 ! props) else None);
           Some (p, (put_node p (InitializeNodeObj nid cost props (sp_props sp) is_function_op n) g1)
                      \<lparr>gr_nodes := gr_nodes g1 @ [p], gr_num_nodes := gr_num_nodes g1 + 1\<rparr>) })"

definition drop_node_props :: "node_obj \<Rightarrow> graph_state \<Rightarrow> graph_state" where
  "drop_node_props n g = (case no_props n of Some i \<Rightarrow> drop_props i g | None \<Rightarrow> g)"

definition ReleaseNode :: "nat \<Rightarrow> graph_state \<Rightarrow> graph_state option" where
  "ReleaseNode p g =
     do { n \<leftarrow> gr_node_objs g p;
          nodes \<leftarrow> store_at (gr_nodes g) (no_id n) 0;
          Some (drop_node_props n (put_node p (ClearNodeObj n)
            (g\<lparr>gr_nodes := nodes, gr_free_nodes := gr_free_nodes g @ [p], gr_num_nodes := gr_num_nodes g - 1\<rparr>))) }"

text \<open>
  \<open>registry\<close> is what looking up the op and inferring the types of a node definition gives:
  the error, or the properties of the node and whether the op is a function. The null pointer
  comes with an error.
\<close>

definition AddNode ::
  "(nat \<Rightarrow> nat) \<Rightarrow> ('d \<Rightarrow> status + node_props \<times> bool) \<Rightarrow> 'd \<Rightarrow> graph_state \<Rightarrow> (nat \<times> status \<times> graph_state) option" where
  "AddNode arena registry def g =
     (case registry def of
        Inl s \<Rightarrow> Some (0, s, g)
      | Inr (pr, is_function_op) \<Rightarrow>
          (let (i, g1) = make_props pr g
           in map_option (\<lambda>(p, g2). (p, ok_status, g2)) (AllocateNode arena i None is_function_op g1)))"

section \<open>Devices and names\<close>

definition InternDeviceName :: "string \<Rightarrow> graph_state \<Rightarrow> nat \<times> graph_state" where
  "InternDeviceName name g =
     (if name = [] then (0, g)
      else case map_of (gr_device_map g) name of
        Some i \<Rightarrow> if 0 < i then (i, g)
          else (length (gr_device_map g),
                g\<lparr>gr_device_map := map (\<lambda>(k, v). if k = name then (k, length (gr_device_map g)) else (k, v)) (gr_device_map g),
                  gr_device_names := gr_device_names g @ [name]\<rparr>)
      | None \<Rightarrow>
          (let i = length (gr_device_map g) + 1
           in (i, g\<lparr>gr_device_map := gr_device_map g @ [(name, i)], gr_device_names := gr_device_names g @ [name]\<rparr>)))"

definition set_assigned_device_name :: "nat \<Rightarrow> string \<Rightarrow> graph_state \<Rightarrow> graph_state option" where
  "set_assigned_device_name p name g =
     (let (i, g') = InternDeviceName name g
      in map_option (\<lambda>n. put_node p (n\<lparr>no_device := i\<rparr>) g') (gr_node_objs g' p))"

definition assigned_device_name :: "nat \<Rightarrow> graph_state \<Rightarrow> string option" where
  "assigned_device_name p g = do { n \<leftarrow> gr_node_objs g p; load_at (gr_device_names g) (int (no_device n)) }"

definition NewName :: "string \<Rightarrow> graph_state \<Rightarrow> string \<times> graph_state" where
  "NewName pre g = (pre @ ''/_'' @ show_nat (gr_name_counter g), g\<lparr>gr_name_counter := gr_name_counter g + 1\<rparr>)"

text \<open>\<open>CopyNode\<close> of a node of the same graph; \<open>op_defs\<close> is the registry's \<open>LookUpOpDef\<close>.\<close>

definition CopyNode :: "(nat \<Rightarrow> nat) \<Rightarrow> (string \<Rightarrow> nat option) \<Rightarrow> nat \<Rightarrow> graph_state \<Rightarrow> (nat \<times> graph_state) option" where
  "CopyNode arena op_defs p g =
     do { n \<leftarrow> gr_node_objs g p; i \<leftarrow> no_props n; pr \<leftarrow> node_props_of n g;
          (c, g1) \<leftarrow> AllocateNode arena i (Some n) (no_class n = NC_FUNCTION_OP) (share_props i g);
          dev \<leftarrow> assigned_device_name p g1;
          g2 \<leftarrow> set_assigned_device_name c dev g1;
          d \<leftarrow> op_defs (np_op pr);
          if d \<noteq> np_op_def pr then map_option (Pair c) (mutate_props c (\<lambda>pr. pr\<lparr>np_op_def := d\<rparr>) g2) else Some (c, g2) }"

section \<open>Edges\<close>

definition is_control :: "edge_obj \<Rightarrow> bool" where
  "is_control eo = (eo_src_output eo = kControlSlot)"

definition take_edge :: "(nat \<Rightarrow> nat) \<Rightarrow> graph_state \<Rightarrow> nat \<times> graph_state" where
  "take_edge arena g =
     (if gr_free_edges g = [] then (arena (gr_allocated g), g\<lparr>gr_allocated := gr_allocated g + 1\<rparr>)
      else (last (gr_free_edges g), g\<lparr>gr_free_edges := butlast (gr_free_edges g)\<rparr>))"

definition insert_out :: "nat \<Rightarrow> nat \<Rightarrow> graph_state \<Rightarrow> graph_state option" where
  "insert_out p e g =
     do { n \<leftarrow> gr_node_objs g p; (new, s) \<leftarrow> es_insert e (no_out n);
          if new then Some (put_node p (n\<lparr>no_out := s\<rparr>) g) else None }"

definition insert_in :: "nat \<Rightarrow> nat \<Rightarrow> graph_state \<Rightarrow> graph_state option" where
  "insert_in p e g =
     do { n \<leftarrow> gr_node_objs g p; (new, s) \<leftarrow> es_insert e (no_in n);
          if new then Some (put_node p (n\<lparr>no_in := s\<rparr>) g) else None }"

definition erase_out :: "nat \<Rightarrow> nat \<Rightarrow> graph_state \<Rightarrow> graph_state option" where
  "erase_out p e g =
     do { n \<leftarrow> gr_node_objs g p; (k, s) \<leftarrow> es_erase e (no_out n);
          if k = 1 then Some (put_node p (n\<lparr>no_out := s\<rparr>) g) else None }"

definition erase_in :: "nat \<Rightarrow> nat \<Rightarrow> graph_state \<Rightarrow> graph_state option" where
  "erase_in p e g =
     do { n \<leftarrow> gr_node_objs g p; (k, s) \<leftarrow> es_erase e (no_in n);
          if k = 1 then Some (put_node p (n\<lparr>no_in := s\<rparr>) g) else None }"

definition AddEdge :: "(nat \<Rightarrow> nat) \<Rightarrow> nat \<Rightarrow> int \<Rightarrow> nat \<Rightarrow> int \<Rightarrow> graph_state \<Rightarrow> (nat \<times> graph_state) option" where
  "AddEdge arena source x dest y g =
     (let (e, g1) = take_edge arena g;
          g2 = put_edge e \<lparr>eo_id = int (length (gr_edges g1)), eo_src = source, eo_dst = dest, eo_src_output = x, eo_dst_input = y\<rparr> g1 in
      do { g3 \<leftarrow> insert_out source e g2;
           g4 \<leftarrow> insert_in dest e g3;
           Some (e, g4\<lparr>gr_edges := gr_edges g4 @ [e], gr_num_edges := gr_num_edges g4 + 1\<rparr>) })"

definition RecycleEdge :: "nat \<Rightarrow> graph_state \<Rightarrow> graph_state" where
  "RecycleEdge e g = g\<lparr>gr_free_edges := gr_free_edges g @ [e]\<rparr>"

text \<open>\<open>edges_[e->id_] = nullptr; RecycleEdge(e); --num_edges_;\<close>\<close>

definition forget_edge :: "nat \<Rightarrow> graph_state \<Rightarrow> graph_state option" where
  "forget_edge e g =
     do { eo \<leftarrow> gr_edge_objs g e;
          edges \<leftarrow> store_at (gr_edges g) (eo_id eo) 0;
          Some (RecycleEdge e (g\<lparr>gr_edges := edges, gr_num_edges := gr_num_edges g - 1\<rparr>)) }"

definition RemoveEdge :: "nat \<Rightarrow> graph_state \<Rightarrow> graph_state option" where
  "RemoveEdge e g =
     do { eo \<leftarrow> gr_edge_objs g e;
          g1 \<leftarrow> erase_out (eo_src eo) e g;
          g2 \<leftarrow> erase_in (eo_dst eo) e g1;
          e' \<leftarrow> load_at (gr_edges g2) (eo_id eo);
          if e = e' \<and> 0 < gr_num_edges g2 then forget_edge e g2 else None }"

definition remove_in_edge :: "graph_state \<Rightarrow> nat \<Rightarrow> graph_state option" where
  "remove_in_edge g e = do { eo \<leftarrow> gr_edge_objs g e; g1 \<leftarrow> erase_out (eo_src eo) e g; forget_edge e g1 }"

definition remove_out_edge :: "graph_state \<Rightarrow> nat \<Rightarrow> graph_state option" where
  "remove_out_edge g e = do { eo \<leftarrow> gr_edge_objs g e; g1 \<leftarrow> erase_in (eo_dst eo) e g; forget_edge e g1 }"

definition RemoveNode :: "nat \<Rightarrow> graph_state \<Rightarrow> graph_state option" where
  "RemoveNode p g =
     do { n \<leftarrow> gr_node_objs g p;
          g1 \<leftarrow> foldM remove_in_edge g (es_elems (no_in n));
          n1 \<leftarrow> gr_node_objs g1 p;
          let g2 = put_node p (n1\<lparr>no_in := es_clear (no_in n1)\<rparr>) g1;
          g3 \<leftarrow> foldM remove_out_edge g2 (es_elems (no_out n1));
          n3 \<leftarrow> gr_node_objs g3 p;
          ReleaseNode p (put_node p (n3\<lparr>no_out := es_clear (no_out n3)\<rparr>) g3) }"

text \<open>The null pointer when the edge exists.\<close>

fun control_edge_exists :: "nat \<Rightarrow> nat list \<Rightarrow> graph_state \<Rightarrow> bool option" where
  "control_edge_exists source [] g = Some False"
| "control_edge_exists source (e # es) g =
     do { eo \<leftarrow> gr_edge_objs g e;
          if is_control eo \<and> eo_src eo = source then Some True else control_edge_exists source es g }"

definition is_source_obj :: "node_obj \<Rightarrow> bool" where "is_source_obj n = (no_id n = int kSourceId)"
definition is_sink_obj :: "node_obj \<Rightarrow> bool" where "is_sink_obj n = (no_id n = int kSinkId)"

definition AddControlEdge :: "(nat \<Rightarrow> nat) \<Rightarrow> nat \<Rightarrow> nat \<Rightarrow> bool \<Rightarrow> graph_state \<Rightarrow> (nat \<times> graph_state) option" where
  "AddControlEdge arena source dest allow_duplicates g =
     do { sn \<leftarrow> gr_node_objs g source; dn \<leftarrow> gr_node_objs g dest;
          exists \<leftarrow> (if allow_duplicates then Some False else control_edge_exists source (es_elems (no_in dn)) g);
          if exists then Some (0, g)
          else do {
            g1 \<leftarrow> (if \<not> is_source_obj sn \<and> \<not> is_sink_obj dn \<and> \<not> allow_duplicates
                   then do { sname \<leftarrow> node_name source g; dp \<leftarrow> node_props_of dn g;
                             if (CHR ''^'' # sname) \<in> set (np_inputs dp) then Some g
                             else add_input dest (CHR ''^'' # sname) g }
                   else Some g);
            AddEdge arena source kControlSlot dest kControlSlot g1 } }"

definition RemoveControlEdge :: "nat \<Rightarrow> graph_state \<Rightarrow> graph_state option" where
  "RemoveControlEdge e g =
     do { eo \<leftarrow> gr_edge_objs g e; sn \<leftarrow> gr_node_objs g (eo_src eo); dn \<leftarrow> gr_node_objs g (eo_dst eo);
          g1 \<leftarrow> (if \<not> is_source_obj sn \<and> \<not> is_sink_obj dn
                 then do { sname \<leftarrow> node_name (eo_src eo) g;
                           mutate_props (eo_dst eo) (\<lambda>pr. pr\<lparr>np_inputs := remove1 (CHR ''^'' # sname) (np_inputs pr)\<rparr>) g }
                 else Some g);
          RemoveEdge e g1 }"

section \<open>Checked operations\<close>

text \<open>The \<open>id >= size\<close> test compares with the vector, the identity test reads it.\<close>

definition IsValidNode :: "nat \<Rightarrow> graph_state \<Rightarrow> status option" where
  "IsValidNode p g =
     (if p = 0 then Some (mk_status INVALID_ARGUMENT ''Node is null'')
      else do { n \<leftarrow> gr_node_objs g p;
        let i = no_id n;
        if i < 0 then Some (mk_status INVALID_ARGUMENT (''node id '' @ show_int i @ '' is less than zero''))
        else if length (gr_nodes g) \<le> nat i then
          Some (mk_status INVALID_ARGUMENT (''node id '' @ show_int i @ '' is >= than number of nodes in graph ''
            @ show_nat (length (gr_nodes g))))
        else if gr_nodes g ! nat i \<noteq> p then
          Some (mk_status INVALID_ARGUMENT (''Node with id '' @ show_int i
            @ '' is different from the passed in node. Does it belong to a different graph?''))
        else Some ok_status })"

definition bad_index :: "string \<Rightarrow> string \<Rightarrow> string \<Rightarrow> node_props \<Rightarrow> nat \<Rightarrow> int \<Rightarrow> status" where
  "bad_index op_name what which pr num i =
     mk_status OUT_OF_RANGE (''Node '' @ [CHR 0x27] @ np_name pr @ [CHR 0x27] @ '' (type: '' @ [CHR 0x27] @ op_name @ [CHR 0x27]
       @ '', num of '' @ what @ '': '' @ show_nat num @ '') does not have '' @ which @ show_int i)"

text \<open>\<open>op_name\<close> is the name of an op definition.\<close>

definition IsValidOutputTensor :: "(nat \<Rightarrow> string) \<Rightarrow> nat \<Rightarrow> int \<Rightarrow> graph_state \<Rightarrow> status option" where
  "IsValidOutputTensor op_name p i g =
     do { s \<leftarrow> IsValidNode p g;
          if \<not> status_ok s then Some s
          else do { n \<leftarrow> gr_node_objs g p; pr \<leftarrow> node_props_of n g;
            Some (if int (length (np_output_types pr)) \<le> i \<or> i < 0
                  then bad_index (op_name (np_op_def pr)) ''outputs'' ''output '' pr (length (np_output_types pr)) i
                  else ok_status) } }"

definition IsValidInputTensor :: "(nat \<Rightarrow> string) \<Rightarrow> nat \<Rightarrow> int \<Rightarrow> graph_state \<Rightarrow> status option" where
  "IsValidInputTensor op_name p i g =
     do { s \<leftarrow> IsValidNode p g;
          if \<not> status_ok s then Some s
          else do { n \<leftarrow> gr_node_objs g p; pr \<leftarrow> node_props_of n g;
            Some (if int (length (np_input_types pr)) \<le> i \<or> i < 0
                  then bad_index (op_name (np_op_def pr)) ''inputs'' ''input '' pr (length (np_input_types pr)) i
                  else ok_status) } }"

fun find_edge :: "int \<Rightarrow> nat list \<Rightarrow> graph_state \<Rightarrow> nat option option" where
  "find_edge i [] g = Some None"
| "find_edge i (e # es) g =
     do { eo \<leftarrow> gr_edge_objs g e; if eo_dst_input eo = i then Some (Some e) else find_edge i es g }"

definition FindEdge :: "nat \<Rightarrow> int \<Rightarrow> graph_state \<Rightarrow> nat option option" where
  "FindEdge dst i g = do { n \<leftarrow> gr_node_objs g dst; find_edge i (es_elems (no_in n)) g }"

definition UpdateEdge ::
  "(nat \<Rightarrow> nat) \<Rightarrow> (nat \<Rightarrow> string) \<Rightarrow> nat \<Rightarrow> int \<Rightarrow> nat \<Rightarrow> int \<Rightarrow> graph_state \<Rightarrow> (status \<times> graph_state) option" where
  "UpdateEdge arena op_name new_src new_src_index dst dst_index g =
     do { s1 \<leftarrow> IsValidOutputTensor op_name new_src new_src_index g;
          if \<not> status_ok s1 then Some (s1, g) else do {
          s2 \<leftarrow> IsValidInputTensor op_name dst dst_index g;
          if \<not> status_ok s2 then Some (s2, g) else do {
          found \<leftarrow> FindEdge dst dst_index g;
          case found of
            None \<Rightarrow> do { dname \<leftarrow> node_name dst g;
              Some (mk_status INVALID_ARGUMENT (''Couldn'' @ [CHR 0x27] @ ''t find edge to '' @ format_node_name_for_error dname), g) }
          | Some e \<Rightarrow> do {
              g1 \<leftarrow> RemoveEdge e g;
              (e', g2) \<leftarrow> AddEdge arena new_src new_src_index dst dst_index g1;
              g3 \<leftarrow> MaybeCopyOnWrite dst g2;
              sname \<leftarrow> node_name new_src g3;
              dn \<leftarrow> gr_node_objs g3 dst;
              dp \<leftarrow> node_props_of dn g3;
              inputs \<leftarrow> store_at (np_inputs dp) dst_index (sname @ '':'' @ show_int new_src_index);
              g4 \<leftarrow> set_props dst (\<lambda>pr. pr\<lparr>np_inputs := inputs\<rparr>) g3;
              Some (ok_status, g4) } } } }"

fun count_data_edges :: "nat list \<Rightarrow> graph_state \<Rightarrow> nat option" where
  "count_data_edges [] g = Some 0"
| "count_data_edges (e # es) g =
     do { eo \<leftarrow> gr_edge_objs g e; n \<leftarrow> count_data_edges es g; Some (if is_control eo then n else n + 1) }"

text \<open>\<open>debug\<close> is \<open>Node::DebugString\<close>.\<close>

definition AddWhileInputHack ::
  "(nat \<Rightarrow> nat) \<Rightarrow> (nat \<Rightarrow> string) \<Rightarrow> (node_obj \<Rightarrow> string) \<Rightarrow> nat \<Rightarrow> int \<Rightarrow> nat \<Rightarrow> graph_state \<Rightarrow> (status \<times> graph_state) option" where
  "AddWhileInputHack arena op_name debug new_src new_src_index dst g =
     do { dn \<leftarrow> gr_node_objs g dst;
          if no_class dn \<noteq> NC_WHILE then
            Some (mk_status INTERNAL (''dst argument to AddWhileEdgeHack should be a While op, got: '' @ debug dn), g)
          else do {
          s1 \<leftarrow> IsValidOutputTensor op_name new_src new_src_index g;
          if \<not> status_ok s1 then Some (s1, g) else do {
          k \<leftarrow> count_data_edges (es_elems (no_in dn)) g;
          s2 \<leftarrow> IsValidInputTensor op_name dst (int k) g;
          if \<not> status_ok s2 then Some (s2, g) else do {
          (e, g1) \<leftarrow> AddEdge arena new_src new_src_index dst (int k) g;
          sname \<leftarrow> node_name new_src g1;
          g2 \<leftarrow> add_input dst (sname @ '':'' @ show_int new_src_index) g1;
          Some (ok_status, g2) } } } }"

section \<open>Looking at inputs\<close>

definition input_edge :: "nat \<Rightarrow> int \<Rightarrow> graph_state \<Rightarrow> (status + nat) option" where
  "input_edge p idx g =
     do { n \<leftarrow> gr_node_objs g p; pr \<leftarrow> node_props_of n g;
          let num = length (np_input_types pr);
          if idx < 0 \<or> int num \<le> idx then
            Some (Inl (mk_status INVALID_ARGUMENT (''Invalid input_edge index: '' @ show_int idx @ '', Node '' @ np_name pr
              @ '' only has '' @ show_nat num @ '' inputs.'')))
          else do { found \<leftarrow> find_edge idx (es_elems (no_in n)) g;
            Some (case found of Some e \<Rightarrow> Inr e
              | None \<Rightarrow> Inl (mk_status NOT_FOUND (''Could not find input edge '' @ show_int idx @ '' for '' @ np_name pr))) } }"

text \<open>\<open>input_edges\<close>: the data edges by input number; 0 is a missing one.\<close>

fun collect_inputs :: "nat list \<Rightarrow> graph_state \<Rightarrow> nat list \<Rightarrow> (status + nat list) option" where
  "collect_inputs [] g acc = Some (Inr acc)"
| "collect_inputs (e # es) g acc =
     do { eo \<leftarrow> gr_edge_objs g e;
          if is_control eo then collect_inputs es g acc
          else if eo_dst_input eo < 0 \<or> int (length acc) \<le> eo_dst_input eo then
            Some (Inl (mk_status INTERNAL (''Invalid edge input number '' @ show_int (eo_dst_input eo))))
          else if acc ! nat (eo_dst_input eo) \<noteq> 0 then
            Some (Inl (mk_status INTERNAL (''Duplicate edge input number: '' @ show_int (eo_dst_input eo))))
          else collect_inputs es g (acc[nat (eo_dst_input eo) := e]) }"

definition input_edges :: "nat \<Rightarrow> graph_state \<Rightarrow> (status + nat list) option" where
  "input_edges p g =
     do { n \<leftarrow> gr_node_objs g p; pr \<leftarrow> node_props_of n g;
          r \<leftarrow> collect_inputs (es_elems (no_in n)) g (replicate (length (np_input_types pr)) 0);
          Some (case r of Inl s \<Rightarrow> Inl s
            | Inr edges \<Rightarrow> (case find_ptr edges 0 of
                Some i \<Rightarrow> Inl (mk_status INVALID_ARGUMENT (''Missing edge input number: '' @ show_nat i))
              | None \<Rightarrow> Inr edges)) }"

definition input_node :: "nat \<Rightarrow> int \<Rightarrow> graph_state \<Rightarrow> (status + nat) option" where
  "input_node p idx g =
     do { r \<leftarrow> input_edge p idx g;
          case r of Inl s \<Rightarrow> Some (Inl s) | Inr e \<Rightarrow> do { eo \<leftarrow> gr_edge_objs g e; Some (Inr (eo_src eo)) } }"

definition input_tensor :: "nat \<Rightarrow> int \<Rightarrow> graph_state \<Rightarrow> (status + nat \<times> int) option" where
  "input_tensor p idx g =
     do { r \<leftarrow> input_edge p idx g;
          case r of Inl s \<Rightarrow> Some (Inl s) | Inr e \<Rightarrow> do { eo \<leftarrow> gr_edge_objs g e; Some (Inr (eo_src eo, eo_src_output eo)) } }"

section \<open>The constructor, and what the executor sees\<close>

definition new_graph :: "(nat \<Rightarrow> nat) \<Rightarrow> (string \<times> string \<Rightarrow> status + node_props \<times> bool) \<Rightarrow> graph_state option" where
  "new_graph arena registry =
     do { (source, s1, g1) \<leftarrow> AddNode arena registry (''_SOURCE'', ''NoOp'') empty_graph;
          sn \<leftarrow> (if status_ok s1 then gr_node_objs g1 source else None);
          (sink, s2, g2) \<leftarrow> (if is_source_obj sn then AddNode arena registry (''_SINK'', ''NoOp'') g1 else None);
          kn \<leftarrow> (if status_ok s2 then gr_node_objs g2 sink else None);
          (e, g3) \<leftarrow> (if is_sink_obj kn then AddControlEdge arena source sink False g2 else None);
          Some g3 }"

text \<open>
  The graph as \<open>Graph_Model\<close> has it: the nodes by id, edges by the ids of their ends.
\<close>

definition view_edge :: "graph_state \<Rightarrow> nat \<Rightarrow> edge option" where
  "view_edge g e =
     do { eo \<leftarrow> gr_edge_objs g e; sn \<leftarrow> gr_node_objs g (eo_src eo); dn \<leftarrow> gr_node_objs g (eo_dst eo);
          Some \<lparr>e_src = nat (no_id sn), e_dst = nat (no_id dn), e_src_output = eo_src_output eo, e_dst_input = eo_dst_input eo\<rparr> }"

definition view_node :: "graph_state \<Rightarrow> nat \<Rightarrow> gnode option" where
  "view_node g p =
     do { n \<leftarrow> gr_node_objs g p; pr \<leftarrow> node_props_of n g;
          Some \<lparr>n_id = nat (no_id n), n_name = np_name pr, n_op = np_op pr, n_class = no_class n,
            n_in_edges = List.map_filter (view_edge g) (es_elems (no_in n)),
            n_out_edges = List.map_filter (view_edge g) (es_elems (no_out n)),
            n_input_types = np_input_types pr, n_output_types = np_output_types pr, n_attrs = np_attrs pr,
            n_allows_uninitialized_input = np_allows_uninitialized pr\<rparr> }"

definition view_graph :: "graph_state \<Rightarrow> graph" where
  "view_graph g = map (\<lambda>p. if p = 0 then None else view_node g p) (gr_nodes g)"

end
