(* ===== verification/Graph_Inv.thy ===== *)
theory Graph_Inv
  imports Graph_Ops
begin

text \<open>
  The invariant of a graph (core/graph/graph.cc): the vectors of nodes and edges, the objects,
  the free lists, the reference counts and the edge sets agree. \<open>core_ok\<close> is what does not
  depend on the edge sets, \<open>linked\<close> what ties the sets of a node to the edges; while an edge is
  put in or taken out only the second is broken.
\<close>

section \<open>Sets of edges\<close>

definition live_nodes :: "graph_state \<Rightarrow> nat set" where
  "live_nodes g = set (gr_nodes g) - {0}"

definition live_edges :: "graph_state \<Rightarrow> nat set" where
  "live_edges g = set (gr_edges g) - {0}"

definition edge_src :: "graph_state \<Rightarrow> nat \<Rightarrow> nat" where
  "edge_src g e = (case gr_edge_objs g e of Some eo \<Rightarrow> eo_src eo | None \<Rightarrow> 0)"

definition edge_dst :: "graph_state \<Rightarrow> nat \<Rightarrow> nat" where
  "edge_dst g e = (case gr_edge_objs g e of Some eo \<Rightarrow> eo_dst eo | None \<Rightarrow> 0)"

definition outs :: "graph_state \<Rightarrow> nat \<Rightarrow> nat set" where
  "outs g p = (case gr_node_objs g p of Some n \<Rightarrow> es_set (no_out n) | None \<Rightarrow> {})"

definition ins :: "graph_state \<Rightarrow> nat \<Rightarrow> nat set" where
  "ins g p = (case gr_node_objs g p of Some n \<Rightarrow> es_set (no_in n) | None \<Rightarrow> {})"

definition sets_ok :: "graph_state \<Rightarrow> nat \<Rightarrow> bool" where
  "sets_ok g p \<longleftrightarrow> (\<exists>n. gr_node_objs g p = Some n \<and> es_ok (no_in n) \<and> es_ok (no_out n))"

text \<open>What stays when only edge sets change.\<close>

definition strip :: "node_obj \<Rightarrow> node_obj" where
  "strip n = n\<lparr>no_in := new_edge_set, no_out := new_edge_set\<rparr>"

definition same_frame :: "graph_state \<Rightarrow> graph_state \<Rightarrow> bool" where
  "same_frame g g' \<longleftrightarrow> (\<forall>p. map_option strip (gr_node_objs g' p) = map_option strip (gr_node_objs g p))
     \<and> g'\<lparr>gr_node_objs := Map.empty\<rparr> = g\<lparr>gr_node_objs := Map.empty\<rparr>"

lemma same_frame_refl [simp]: "same_frame g g"
  by (simp add: same_frame_def)

lemma same_frame_trans: "same_frame a b \<Longrightarrow> same_frame b c \<Longrightarrow> same_frame a c"
  by (simp add: same_frame_def)

lemma same_frame_fields:
  assumes "same_frame g g'"
  shows "gr_nodes g' = gr_nodes g" "gr_num_nodes g' = gr_num_nodes g" "gr_edges g' = gr_edges g"
    "gr_num_edges g' = gr_num_edges g" "gr_free_nodes g' = gr_free_nodes g" "gr_free_edges g' = gr_free_edges g"
    "gr_edge_objs g' = gr_edge_objs g" "gr_props g' = gr_props g" "gr_allocated g' = gr_allocated g"
    "gr_name_counter g' = gr_name_counter g" "gr_device_names g' = gr_device_names g" "gr_device_map g' = gr_device_map g"
  using assms unfolding same_frame_def by (cases g; cases g'; simp)+

lemma same_frame_node:
  assumes "same_frame g g'" "gr_node_objs g p = Some n"
  obtains n' where "gr_node_objs g' p = Some n'" "no_id n' = no_id n" "no_cost_id n' = no_cost_id n" "no_class n' = no_class n"
    "no_props n' = no_props n" "no_device n' = no_device n" "no_while_ctx n' = no_while_ctx n"
proof -
  have "map_option strip (gr_node_objs g' p) = Some (strip n)" using assms by (simp add: same_frame_def)
  then obtain n' where n': "gr_node_objs g' p = Some n'" "strip n' = strip n" by auto
  have "no_id n' = no_id n \<and> no_cost_id n' = no_cost_id n \<and> no_class n' = no_class n \<and> no_props n' = no_props n
      \<and> no_device n' = no_device n \<and> no_while_ctx n' = no_while_ctx n"
    using n'(2) by (cases n; cases n') (simp add: strip_def)
  then show ?thesis using that n'(1) by blast
qed

lemma same_frame_sym: "same_frame g g' \<Longrightarrow> same_frame g' g"
  by (simp add: same_frame_def)

text \<open>Writing the edge set of a node.\<close>

lemma write_out:
  assumes "gr_node_objs g p = Some n" "g' = put_node p (n\<lparr>no_out := s\<rparr>) g"
  shows "same_frame g g'" "outs g' = (outs g)(p := es_set s)" "ins g' = ins g"
    "sets_ok g q \<Longrightarrow> es_ok s \<Longrightarrow> sets_ok g' q"
  using assms by (auto simp: same_frame_def put_node_def outs_def ins_def sets_ok_def strip_def fun_eq_iff)

lemma write_in:
  assumes "gr_node_objs g p = Some n" "g' = put_node p (n\<lparr>no_in := s\<rparr>) g"
  shows "same_frame g g'" "ins g' = (ins g)(p := es_set s)" "outs g' = outs g"
    "sets_ok g q \<Longrightarrow> es_ok s \<Longrightarrow> sets_ok g' q"
  using assms by (auto simp: same_frame_def put_node_def outs_def ins_def sets_ok_def strip_def fun_eq_iff)

text \<open>The four operations on the edge set of a node, with the laws of the sets.\<close>

definition sets_kept :: "graph_state \<Rightarrow> graph_state \<Rightarrow> bool" where
  "sets_kept g g' \<longleftrightarrow> same_frame g g' \<and> (\<forall>q. sets_ok g q \<longrightarrow> sets_ok g' q)"

lemma sets_kept_trans: "sets_kept a b \<Longrightarrow> sets_kept b c \<Longrightarrow> sets_kept a c"
  using same_frame_trans by (auto simp: sets_kept_def)

lemma insert_out_ok:
  assumes "sets_ok g p" "e \<noteq> 0" "e \<notin> outs g p" "card (outs g p) < max_entries"
  shows "\<exists>g'. insert_out p e g = Some g' \<and> sets_kept g g' \<and> outs g' = (outs g)(p := insert e (outs g p)) \<and> ins g' = ins g"
proof -
  obtain n where n: "gr_node_objs g p = Some n" "es_ok (no_out n)" using assms(1) by (auto simp: sets_ok_def)
  have o: "outs g p = es_set (no_out n)" by (simp add: outs_def n)
  obtain s where s: "es_insert e (no_out n) = Some (True, s)" "es_ok s" "es_set s = insert e (outs g p)"
    using edges.insert_checked [OF n(2) assms(2)] assms(3,4) unfolding o by blast
  show ?thesis
    using write_out [OF n(1) refl, where s = s] s n(1) by (simp add: insert_out_def sets_kept_def)
qed

lemma insert_in_ok:
  assumes "sets_ok g p" "e \<noteq> 0" "e \<notin> ins g p" "card (ins g p) < max_entries"
  shows "\<exists>g'. insert_in p e g = Some g' \<and> sets_kept g g' \<and> ins g' = (ins g)(p := insert e (ins g p)) \<and> outs g' = outs g"
proof -
  obtain n where n: "gr_node_objs g p = Some n" "es_ok (no_in n)" using assms(1) by (auto simp: sets_ok_def)
  have o: "ins g p = es_set (no_in n)" by (simp add: ins_def n)
  obtain s where s: "es_insert e (no_in n) = Some (True, s)" "es_ok s" "es_set s = insert e (ins g p)"
    using edges.insert_checked [OF n(2) assms(2)] assms(3,4) unfolding o by blast
  show ?thesis
    using write_in [OF n(1) refl, where s = s] s n(1) by (simp add: insert_in_def sets_kept_def)
qed

lemma erase_out_ok:
  assumes "sets_ok g p" "e \<noteq> 0" "e \<in> outs g p"
  shows "\<exists>g'. erase_out p e g = Some g' \<and> sets_kept g g' \<and> outs g' = (outs g)(p := outs g p - {e}) \<and> ins g' = ins g"
proof -
  obtain n where n: "gr_node_objs g p = Some n" "es_ok (no_out n)" using assms(1) by (auto simp: sets_ok_def)
  have o: "outs g p = es_set (no_out n)" by (simp add: outs_def n)
  obtain s where s: "es_erase e (no_out n) = Some (1, s)" "es_ok s" "es_set s = outs g p - {e}"
    using edges.erase_checked [OF n(2) assms(2)] assms(3) unfolding o by blast
  show ?thesis
    using write_out [OF n(1) refl, where s = s] s n(1) by (simp add: erase_out_def sets_kept_def)
qed

lemma erase_in_ok:
  assumes "sets_ok g p" "e \<noteq> 0" "e \<in> ins g p"
  shows "\<exists>g'. erase_in p e g = Some g' \<and> sets_kept g g' \<and> ins g' = (ins g)(p := ins g p - {e}) \<and> outs g' = outs g"
proof -
  obtain n where n: "gr_node_objs g p = Some n" "es_ok (no_in n)" using assms(1) by (auto simp: sets_ok_def)
  have o: "ins g p = es_set (no_in n)" by (simp add: ins_def n)
  obtain s where s: "es_erase e (no_in n) = Some (1, s)" "es_ok s" "es_set s = ins g p - {e}"
    using edges.erase_checked [OF n(2) assms(2)] assms(3) unfolding o by blast
  show ?thesis
    using write_in [OF n(1) refl, where s = s] s n(1) by (simp add: erase_in_def sets_kept_def)
qed

section \<open>The invariant\<close>

definition out_edges :: "graph_state \<Rightarrow> nat \<Rightarrow> nat set" where
  "out_edges g p = {e \<in> live_edges g. edge_src g e = p}"

definition in_edges :: "graph_state \<Rightarrow> nat \<Rightarrow> nat set" where
  "in_edges g p = {e \<in> live_edges g. edge_dst g e = p}"

definition nodes_ok :: "graph_state \<Rightarrow> bool" where
  "nodes_ok g \<longleftrightarrow>
     (\<forall>i<length (gr_nodes g). gr_nodes g ! i \<noteq> 0 \<longrightarrow>
        (\<exists>n. gr_node_objs g (gr_nodes g ! i) = Some n \<and> no_id n = int i))
   \<and> distinct (gr_free_nodes g) \<and> 0 \<notin> set (gr_free_nodes g) \<and> set (gr_free_nodes g) \<inter> live_nodes g = {}
   \<and> gr_num_nodes g = int (card (live_nodes g))"

definition edges_ok :: "graph_state \<Rightarrow> bool" where
  "edges_ok g \<longleftrightarrow>
     (\<forall>i<length (gr_edges g). gr_edges g ! i \<noteq> 0 \<longrightarrow>
        (\<exists>eo. gr_edge_objs g (gr_edges g ! i) = Some eo \<and> eo_id eo = int i
           \<and> eo_src eo \<in> live_nodes g \<and> eo_dst eo \<in> live_nodes g))
   \<and> distinct (gr_free_edges g) \<and> 0 \<notin> set (gr_free_edges g) \<and> set (gr_free_edges g) \<inter> live_edges g = {}
   \<and> gr_num_edges g = int (card (live_edges g))"

text \<open>Every live node has properties, and they count the live nodes that have them.\<close>

definition owners :: "graph_state \<Rightarrow> nat \<Rightarrow> nat set" where
  "owners g i = {p \<in> live_nodes g. \<exists>n. gr_node_objs g p = Some n \<and> no_props n = Some i}"

definition props_ok :: "graph_state \<Rightarrow> bool" where
  "props_ok g \<longleftrightarrow>
     (\<forall>p\<in>live_nodes g. \<exists>n i. gr_node_objs g p = Some n \<and> no_props n = Some i \<and> i < length (gr_props g))
   \<and> (\<forall>i<length (gr_props g). sp_count (gr_props g ! i) = card (owners g i))"

definition used_addresses :: "graph_state \<Rightarrow> nat set" where
  "used_addresses g = live_nodes g \<union> live_edges g \<union> set (gr_free_nodes g) \<union> set (gr_free_edges g)"

definition arena_ok :: "(nat \<Rightarrow> nat) \<Rightarrow> bool" where
  "arena_ok arena \<longleftrightarrow> inj arena \<and> 0 \<notin> range arena"

definition core_ok :: "(nat \<Rightarrow> nat) \<Rightarrow> graph_state \<Rightarrow> bool" where
  "core_ok arena g \<longleftrightarrow> nodes_ok g \<and> edges_ok g \<and> props_ok g \<and> used_addresses g \<subseteq> arena ` {..<gr_allocated g}"

definition free_sets_ok :: "graph_state \<Rightarrow> bool" where
  "free_sets_ok g \<longleftrightarrow> (\<forall>p\<in>set (gr_free_nodes g). sets_ok g p \<and> outs g p = {} \<and> ins g p = {})"

definition linked :: "graph_state \<Rightarrow> bool" where
  "linked g \<longleftrightarrow> free_sets_ok g \<and> (\<forall>p\<in>live_nodes g. sets_ok g p \<and> outs g p = out_edges g p \<and> ins g p = in_edges g p)"

definition graph_ok :: "(nat \<Rightarrow> nat) \<Rightarrow> graph_state \<Rightarrow> bool" where
  "graph_ok arena g \<longleftrightarrow> core_ok arena g \<and> linked g"

lemma frame_sets:
  assumes "same_frame g g'"
  shows "live_nodes g' = live_nodes g" "live_edges g' = live_edges g" "edge_src g' = edge_src g" "edge_dst g' = edge_dst g"
    "out_edges g' = out_edges g" "in_edges g' = in_edges g" "used_addresses g' = used_addresses g"
  using same_frame_fields [OF assms]
  by (simp_all add: live_nodes_def live_edges_def edge_src_def edge_dst_def out_edges_def in_edges_def used_addresses_def fun_eq_iff)

lemma owners_frame:
  assumes "same_frame g g'"
  shows "owners g' = owners g"
proof -
  have "(\<exists>n. gr_node_objs g' p = Some n \<and> no_props n = Some i) \<longleftrightarrow> (\<exists>n. gr_node_objs g p = Some n \<and> no_props n = Some i)" for p i
    using same_frame_node [OF assms] same_frame_node [OF same_frame_sym [OF assms]] by metis
  then show ?thesis by (simp add: owners_def fun_eq_iff frame_sets [OF assms])
qed

lemma core_ok_frame:
  assumes f: "same_frame g g'" and ok: "core_ok arena g"
  shows "core_ok arena g'"
proof -
  note fields = same_frame_fields [OF f] frame_sets [OF f] owners_frame [OF f]
  have n: "\<exists>n'. gr_node_objs g' p = Some n' \<and> no_id n' = i" if "\<exists>n. gr_node_objs g p = Some n \<and> no_id n = i" for p i
    using that same_frame_node [OF f] by metis
  have pr: "\<exists>n' i. gr_node_objs g' p = Some n' \<and> no_props n' = Some i \<and> i < length (gr_props g)"
    if "\<exists>n i. gr_node_objs g p = Some n \<and> no_props n = Some i \<and> i < length (gr_props g)" for p
    using that same_frame_node [OF f] by metis
  have "nodes_ok g'" using ok n unfolding core_ok_def nodes_ok_def fields by blast
  moreover have "edges_ok g'" using ok unfolding core_ok_def edges_ok_def fields by blast
  moreover have "props_ok g'" using ok pr unfolding core_ok_def props_ok_def fields by blast
  ultimately show ?thesis using ok unfolding core_ok_def fields by blast
qed

section \<open>Consequences\<close>

lemma live_node_index:
  assumes "p \<in> live_nodes g"
  obtains i where "i < length (gr_nodes g)" "gr_nodes g ! i = p" "p \<noteq> 0"
  using assms by (auto simp: live_nodes_def in_set_conv_nth)

lemma live_edge_index:
  assumes "e \<in> live_edges g"
  obtains i where "i < length (gr_edges g)" "gr_edges g ! i = e" "e \<noteq> 0"
  using assms by (auto simp: live_edges_def in_set_conv_nth)

lemma live_node:
  assumes "core_ok arena g" "p \<in> live_nodes g"
  obtains n i where "gr_node_objs g p = Some n" "no_id n = int i" "i < length (gr_nodes g)" "gr_nodes g ! i = p" "p \<noteq> 0"
proof -
  obtain i where i: "i < length (gr_nodes g)" "gr_nodes g ! i = p" "p \<noteq> 0" using live_node_index [OF assms(2)] by blast
  then show ?thesis using that assms(1) unfolding core_ok_def nodes_ok_def by blast
qed

lemma live_edge:
  assumes "core_ok arena g" "e \<in> live_edges g"
  obtains eo i where "gr_edge_objs g e = Some eo" "eo_id eo = int i" "i < length (gr_edges g)" "gr_edges g ! i = e" "e \<noteq> 0"
    "eo_src eo = edge_src g e" "eo_dst eo = edge_dst g e" "edge_src g e \<in> live_nodes g" "edge_dst g e \<in> live_nodes g"
proof -
  obtain i where i: "i < length (gr_edges g)" "gr_edges g ! i = e" "e \<noteq> 0" using live_edge_index [OF assms(2)] by blast
  then obtain eo where eo: "gr_edge_objs g e = Some eo" "eo_id eo = int i" "eo_src eo \<in> live_nodes g" "eo_dst eo \<in> live_nodes g"
    using assms(1) unfolding core_ok_def edges_ok_def by blast
  show ?thesis by (rule that [of eo i]) (use eo i in \<open>simp_all add: edge_src_def edge_dst_def\<close>)
qed

text \<open>Ids are positions, so no object is twice in a vector.\<close>

lemma node_index_unique:
  assumes "core_ok arena g" "i < length (gr_nodes g)" "j < length (gr_nodes g)" "gr_nodes g ! i = gr_nodes g ! j" "gr_nodes g ! i \<noteq> 0"
  shows "i = j"
proof -
  have all: "\<forall>i<length (gr_nodes g). gr_nodes g ! i \<noteq> 0 \<longrightarrow> (\<exists>n. gr_node_objs g (gr_nodes g ! i) = Some n \<and> no_id n = int i)"
    using assms(1) by (simp add: core_ok_def nodes_ok_def)
  then obtain n m where "gr_node_objs g (gr_nodes g ! i) = Some n" "no_id n = int i"
    "gr_node_objs g (gr_nodes g ! j) = Some m" "no_id m = int j"
    using assms(2-5) by metis
  then show ?thesis using assms(4) by simp
qed

lemma edge_index_unique:
  assumes "core_ok arena g" "i < length (gr_edges g)" "j < length (gr_edges g)" "gr_edges g ! i = gr_edges g ! j" "gr_edges g ! i \<noteq> 0"
  shows "i = j"
proof -
  have all: "\<forall>i<length (gr_edges g). gr_edges g ! i \<noteq> 0 \<longrightarrow> (\<exists>n. gr_edge_objs g (gr_edges g ! i) = Some n \<and> eo_id n = int i)"
    using assms(1) by (auto simp: core_ok_def edges_ok_def)
  then obtain n m where "gr_edge_objs g (gr_edges g ! i) = Some n" "eo_id n = int i"
    "gr_edge_objs g (gr_edges g ! j) = Some m" "eo_id m = int j"
    using assms(2-5) by metis
  then show ?thesis using assms(4) by simp
qed

lemma few_edges:
  assumes "core_ok arena g" "gr_allocated g < max_entries" "S \<subseteq> live_edges g"
  shows "card S < max_entries"
proof -
  have "S \<subseteq> arena ` {..<gr_allocated g}" using assms(1,3) by (auto simp: core_ok_def used_addresses_def)
  then have "card S \<le> card (arena ` {..<gr_allocated g})" by (intro card_mono) auto
  also have "\<dots> \<le> gr_allocated g" using card_image_le [of "{..<gr_allocated g}" arena] by simp
  finally show ?thesis using assms(2) by simp
qed

lemma sets_kept_linked:
  assumes "sets_kept g g'" "p \<in> live_nodes g" "sets_ok g p"
  shows "sets_ok g' p" "p \<in> live_nodes g'"
  using assms frame_sets(1) by (auto simp: sets_kept_def)

end
