(* ===== verification/Graph_Edges.thy ===== *)
theory Graph_Edges
  imports Graph_Inv
begin

text \<open>
  Adding and removing an edge (\<open>Graph::AddEdge\<close>, \<open>Graph::RemoveEdge\<close> of core/graph/graph.cc)
  keep the invariant, and no \<open>CHECK\<close> fails.
\<close>

lemma core_ok_fields:
  assumes ok: "core_ok arena g"
    and "gr_nodes g' = gr_nodes g" "gr_num_nodes g' = gr_num_nodes g" "gr_edges g' = gr_edges g"
      "gr_num_edges g' = gr_num_edges g" "gr_free_nodes g' = gr_free_nodes g" "gr_node_objs g' = gr_node_objs g"
      "gr_props g' = gr_props g"
    and edges: "\<And>e. e \<in> live_edges g \<Longrightarrow> gr_edge_objs g' e = gr_edge_objs g e"
    and free: "distinct (gr_free_edges g')" "set (gr_free_edges g') \<subseteq> set (gr_free_edges g)"
    and alloc: "gr_allocated g \<le> gr_allocated g'"
  shows "core_ok arena g'" "live_nodes g' = live_nodes g" "live_edges g' = live_edges g"
    "outs g' = outs g" "ins g' = ins g" "sets_ok g' = sets_ok g"
    "e \<in> live_edges g \<Longrightarrow> edge_src g' e = edge_src g e \<and> edge_dst g' e = edge_dst g e"
    "out_edges g' = out_edges g" "in_edges g' = in_edges g"
proof -
  show live: "live_nodes g' = live_nodes g" "live_edges g' = live_edges g"
    by (simp_all add: live_nodes_def live_edges_def assms)
  show "outs g' = outs g" "ins g' = ins g" "sets_ok g' = sets_ok g"
    by (simp_all add: outs_def ins_def sets_ok_def fun_eq_iff assms)
  show ends: "e \<in> live_edges g \<Longrightarrow> edge_src g' e = edge_src g e \<and> edge_dst g' e = edge_dst g e" for e
    by (simp add: edge_src_def edge_dst_def edges)
  then show "out_edges g' = out_edges g" "in_edges g' = in_edges g"
    by (auto simp: out_edges_def in_edges_def live fun_eq_iff)
  have "nodes_ok g'" using ok by (simp add: core_ok_def nodes_ok_def assms live)
  moreover have "edges_ok g'"
    unfolding edges_ok_def live assms(4,5)
  proof (intro conjI allI impI)
    fix i assume i: "i < length (gr_edges g)" "gr_edges g ! i \<noteq> 0"
    then have "gr_edges g ! i \<in> live_edges g" by (auto simp: live_edges_def)
    then show "\<exists>eo. gr_edge_objs g' (gr_edges g ! i) = Some eo \<and> eo_id eo = int i
        \<and> eo_src eo \<in> live_nodes g \<and> eo_dst eo \<in> live_nodes g"
      using ok i edges unfolding core_ok_def edges_ok_def by simp
  qed (use ok free in \<open>auto simp: core_ok_def edges_ok_def\<close>)
  moreover have "props_ok g'" using ok by (simp add: core_ok_def props_ok_def owners_def assms live)
  moreover have "used_addresses g' \<subseteq> arena ` {..<gr_allocated g'}"
  proof -
    have "used_addresses g' \<subseteq> used_addresses g"
      unfolding used_addresses_def live assms(6) using free(2) by blast
    also have "\<dots> \<subseteq> arena ` {..<gr_allocated g}" using ok by (simp add: core_ok_def)
    also have "\<dots> \<subseteq> arena ` {..<gr_allocated g'}" using alloc by (intro image_mono) auto
    finally show ?thesis .
  qed
  ultimately show "core_ok arena g'" by (simp add: core_ok_def)
qed

lemma take_edge_ok:
  assumes ok: "core_ok arena g" and ar: "arena_ok arena" and t: "take_edge arena g = (e, g1)"
  shows "core_ok arena g1" "e \<noteq> 0" "e \<notin> live_edges g" "e \<notin> set (gr_free_edges g1)" "e \<in> arena ` {..<gr_allocated g1}"
    "\<exists>free al. g1 = g\<lparr>gr_free_edges := free, gr_allocated := al\<rparr> \<and> distinct free \<and> set free \<subseteq> set (gr_free_edges g)
       \<and> gr_allocated g \<le> al"
proof -
  have used: "used_addresses g \<subseteq> arena ` {..<gr_allocated g}" and d: "distinct (gr_free_edges g)" "0 \<notin> set (gr_free_edges g)"
    "set (gr_free_edges g) \<inter> live_edges g = {}"
    using ok by (auto simp: core_ok_def edges_ok_def)
  have "(\<exists>free al. g1 = g\<lparr>gr_free_edges := free, gr_allocated := al\<rparr> \<and> distinct free \<and> set free \<subseteq> set (gr_free_edges g)
       \<and> gr_allocated g \<le> al) \<and> e \<noteq> 0 \<and> e \<notin> live_edges g \<and> e \<notin> set (gr_free_edges g1) \<and> e \<in> arena ` {..<gr_allocated g1}"
  proof (cases "gr_free_edges g = []")
    case True
    then have eg: "e = arena (gr_allocated g)" "g1 = g\<lparr>gr_allocated := gr_allocated g + 1\<rparr>" using t by (auto simp: take_edge_def)
    have "arena (gr_allocated g) \<notin> arena ` {..<gr_allocated g}" using ar by (auto simp: arena_ok_def inj_eq)
    then have "e \<notin> live_edges g" using used eg(1) by (auto simp: used_addresses_def)
    moreover have "e \<noteq> 0" using ar eg(1) by (metis arena_ok_def rangeI)
    ultimately show ?thesis using True eg
      by (auto intro!: exI [of _ "[]"] exI [of _ "gr_allocated g + 1"])
  next
    case False
    then have eg: "e = last (gr_free_edges g)" "g1 = g\<lparr>gr_free_edges := butlast (gr_free_edges g)\<rparr>" using t by (auto simp: take_edge_def)
    have "e \<in> set (gr_free_edges g)" using False eg(1) by simp
    moreover have "e \<notin> set (butlast (gr_free_edges g))"
      using d(1) False eg(1) by (metis append_butlast_last_id disjoint_insert(1) distinct_append list.set(2) list.simps(15))
    moreover have "distinct (butlast (gr_free_edges g))" using d(1) by (rule distinct_butlast)
    ultimately show ?thesis using d used eg
      by (auto simp: used_addresses_def dest: in_set_butlastD
          intro!: exI [of _ "butlast (gr_free_edges g)"] exI [of _ "gr_allocated g"])
  qed
  then obtain free al where r: "g1 = g\<lparr>gr_free_edges := free, gr_allocated := al\<rparr>" "distinct free"
    "set free \<subseteq> set (gr_free_edges g)" "gr_allocated g \<le> al"
    and e: "e \<noteq> 0" "e \<notin> live_edges g" "e \<notin> set (gr_free_edges g1)" "e \<in> arena ` {..<gr_allocated g1}" by blast
  show "core_ok arena g1" by (rule core_ok_fields(1) [OF ok]) (use r in auto)
  show "e \<noteq> 0" "e \<notin> live_edges g" "e \<notin> set (gr_free_edges g1)" "e \<in> arena ` {..<gr_allocated g1}" by fact+
  show "\<exists>free al. g1 = g\<lparr>gr_free_edges := free, gr_allocated := al\<rparr> \<and> distinct free \<and> set free \<subseteq> set (gr_free_edges g)
       \<and> gr_allocated g \<le> al" using r by blast
qed

text \<open>The last step of \<open>AddEdge\<close>.\<close>

lemma append_edge_ok:
  assumes ok: "core_ok arena g" and e: "e \<noteq> 0" "e \<notin> live_edges g" "e \<notin> set (gr_free_edges g)" "e \<in> arena ` {..<gr_allocated g}"
    and eo: "gr_edge_objs g e = Some eo" "eo_id eo = int (length (gr_edges g))" "eo_src eo \<in> live_nodes g" "eo_dst eo \<in> live_nodes g"
    and g': "g' = g\<lparr>gr_edges := gr_edges g @ [e], gr_num_edges := gr_num_edges g + 1\<rparr>"
  shows "core_ok arena g'" "live_edges g' = insert e (live_edges g)" "live_nodes g' = live_nodes g"
    "out_edges g' p = out_edges g p \<union> (if p = eo_src eo then {e} else {})"
    "in_edges g' p = in_edges g p \<union> (if p = eo_dst eo then {e} else {})"
proof -
  show le: "live_edges g' = insert e (live_edges g)" using e(1) by (auto simp: live_edges_def g')
  show ln: "live_nodes g' = live_nodes g" by (simp add: live_nodes_def g')
  have src: "edge_src g' = edge_src g" "edge_dst g' = edge_dst g" by (simp_all add: edge_src_def edge_dst_def g' fun_eq_iff)
  show "out_edges g' p = out_edges g p \<union> (if p = eo_src eo then {e} else {})"
    "in_edges g' p = in_edges g p \<union> (if p = eo_dst eo then {e} else {})"
    using eo(1) by (auto simp: out_edges_def in_edges_def le src) (auto simp: edge_src_def edge_dst_def)
  have fin: "finite (live_edges g)" by (simp add: live_edges_def)
  have "nodes_ok g'" using ok by (simp add: core_ok_def nodes_ok_def ln) (simp add: g')
  moreover have "edges_ok g'"
    unfolding edges_ok_def
  proof (intro conjI allI impI)
    fix i assume i: "i < length (gr_edges g')" "gr_edges g' ! i \<noteq> 0"
    show "\<exists>eo. gr_edge_objs g' (gr_edges g' ! i) = Some eo \<and> eo_id eo = int i \<and> eo_src eo \<in> live_nodes g' \<and> eo_dst eo \<in> live_nodes g'"
    proof (cases "i < length (gr_edges g)")
      case True
      then show ?thesis using ok i unfolding core_ok_def edges_ok_def ln by (simp add: g' nth_append)
    next
      case False
      then have "i = length (gr_edges g)" using i(1) by (simp add: g')
      then show ?thesis using eo ln by (simp add: g')
    qed
  next
    show "distinct (gr_free_edges g')" "0 \<notin> set (gr_free_edges g')" using ok by (auto simp: core_ok_def edges_ok_def g')
    show "set (gr_free_edges g') \<inter> live_edges g' = {}" using ok e(3) by (auto simp: core_ok_def edges_ok_def le) (auto simp: g')
    show "gr_num_edges g' = int (card (live_edges g'))" using ok e(2) fin by (simp add: core_ok_def edges_ok_def le) (simp add: g')
  qed
  moreover have "props_ok g'" using ok by (simp add: core_ok_def props_ok_def owners_def ln) (simp add: g')
  moreover have "used_addresses g' \<subseteq> arena ` {..<gr_allocated g'}"
    using ok e(4) by (simp add: core_ok_def used_addresses_def ln le) (simp add: g')
  ultimately show "core_ok arena g'" by (simp add: core_ok_def)
qed

lemma linkedD:
  assumes "linked g" "p \<in> live_nodes g"
  shows "sets_ok g p" "outs g p = out_edges g p" "ins g p = in_edges g p"
  using assms by (auto simp: linked_def)

lemma free_sets_keep:
  assumes "free_sets_ok g" "gr_free_nodes g' = gr_free_nodes g"
    "\<And>p. p \<in> set (gr_free_nodes g) \<Longrightarrow> sets_ok g' p \<and> outs g' p = outs g p \<and> ins g' p = ins g p"
  shows "free_sets_ok g'"
  using assms by (auto simp: free_sets_ok_def)

lemma free_not_live:
  assumes "core_ok arena g" "p \<in> set (gr_free_nodes g)"
  shows "p \<notin> live_nodes g"
  using assms by (auto simp: core_ok_def nodes_ok_def)

lemma AddEdge_ok:
  assumes ok: "graph_ok arena g" and ar: "arena_ok arena" and few: "gr_allocated g + 1 < max_entries"
    and s: "source \<in> live_nodes g" and d: "dest \<in> live_nodes g"
  shows "\<exists>e g'. AddEdge arena source x dest y g = Some (e, g') \<and> graph_ok arena g' \<and> e \<notin> live_edges g
    \<and> gr_edges g' = gr_edges g @ [e] \<and> e \<noteq> 0
    \<and> gr_edge_objs g' = (gr_edge_objs g)(e \<mapsto> \<lparr>eo_id = int (length (gr_edges g)), eo_src = source, eo_dst = dest,
         eo_src_output = x, eo_dst_input = y\<rparr>)
    \<and> (\<forall>p. map_option strip (gr_node_objs g' p) = map_option strip (gr_node_objs g p))
    \<and> gr_nodes g' = gr_nodes g \<and> gr_props g' = gr_props g \<and> gr_allocated g' \<le> gr_allocated g + 1
    \<and> gr_device_names g' = gr_device_names g \<and> gr_device_map g' = gr_device_map g \<and> gr_free_nodes g' = gr_free_nodes g"
proof -
  have core: "core_ok arena g" and link: "linked g" using ok by (auto simp: graph_ok_def)
  obtain e g1 where t: "take_edge arena g = (e, g1)" by (cases "take_edge arena g")
  note te = take_edge_ok [OF core ar t]
  obtain free al where g1: "g1 = g\<lparr>gr_free_edges := free, gr_allocated := al\<rparr>" "distinct free"
    "set free \<subseteq> set (gr_free_edges g)" "gr_allocated g \<le> al" using te(6) by blast
  have "gr_allocated g1 \<le> gr_allocated g + 1" using t by (auto simp: take_edge_def split: if_splits)
  then have al: "al \<le> gr_allocated g + 1" by (simp add: g1(1))
  let ?eo = "\<lparr>eo_id = int (length (gr_edges g)), eo_src = source, eo_dst = dest, eo_src_output = x, eo_dst_input = y\<rparr>"
  let ?g2 = "put_edge e ?eo g1"
  have c2: "core_ok arena ?g2" "live_nodes ?g2 = live_nodes g" "live_edges ?g2 = live_edges g" "outs ?g2 = outs g"
    "ins ?g2 = ins g" "sets_ok ?g2 = sets_ok g" "out_edges ?g2 = out_edges g" "in_edges ?g2 = in_edges g"
    by (rule core_ok_fields [OF core]; use te(3) g1 in \<open>auto simp: put_edge_def\<close>)+
  have out: "e \<notin> outs g source" "card (outs g source) < max_entries" "e \<notin> ins g dest" "card (ins g dest) < max_entries"
    using te(3) few_edges [OF core] few linkedD [OF link s] linkedD [OF link d]
    by (auto simp: out_edges_def in_edges_def)
  obtain g3 where g3: "insert_out source e ?g2 = Some g3" "sets_kept ?g2 g3"
    "outs g3 = (outs g)(source := insert e (outs g source))" "ins g3 = ins g"
    using insert_out_ok [of ?g2 source e] te(2) out linkedD(1) [OF link s] c2 by auto
  have "sets_ok g3 dest" using g3(2) linkedD(1) [OF link d] c2(6) by (simp add: sets_kept_def)
  then obtain g4 where g4: "insert_in dest e g3 = Some g4" "sets_kept g3 g4"
    "ins g4 = (ins g)(dest := insert e (ins g dest))" "outs g4 = (outs g)(source := insert e (outs g source))"
    using insert_in_ok [of g3 dest e] te(2) out g3 by auto
  have kept: "sets_kept ?g2 g4" using g3(2) g4(2) by (rule sets_kept_trans)
  then have fr: "same_frame ?g2 g4" by (simp add: sets_kept_def)
  note ff = same_frame_fields [OF fr] frame_sets [OF fr]
  have core4: "core_ok arena g4" using core_ok_frame [OF fr c2(1)] .
  let ?g5 = "g4\<lparr>gr_edges := gr_edges g4 @ [e], gr_num_edges := gr_num_edges g4 + 1\<rparr>"
  have e4: "e \<notin> live_edges g4" "e \<notin> set (gr_free_edges g4)" "e \<in> arena ` {..<gr_allocated g4}"
    "gr_edge_objs g4 e = Some ?eo" "gr_edges g4 = gr_edges g"
    using te c2 ff g1(1) by (simp_all add: put_edge_def)
  have eo4: "eo_id ?eo = int (length (gr_edges g4))" "eo_src ?eo \<in> live_nodes g4" "eo_dst ?eo \<in> live_nodes g4"
    using e4(5) s d ff c2 by simp_all
  note ap = append_edge_ok [OF core4 te(2) e4(1-4) eo4 refl]
  have ends: "out_edges ?g5 p = out_edges g p \<union> (if p = source then {e} else {})"
    "in_edges ?g5 p = in_edges g p \<union> (if p = dest then {e} else {})" for p
    using ap(4,5) [of p] ff c2 by simp_all
  have run: "AddEdge arena source x dest y g = Some (e, ?g5)"
    using t g3(1) g4(1) g1(1) by (simp add: AddEdge_def)
  have oi: "outs ?g5 = outs g4" "ins ?g5 = ins g4" "sets_ok ?g5 = sets_ok g4" "gr_free_nodes ?g5 = gr_free_nodes g"
    using ff g1(1) by (simp_all add: outs_def ins_def sets_ok_def fun_eq_iff put_edge_def)
  have "free_sets_ok ?g5"
  proof (rule free_sets_keep [of g])
    fix p assume p: "p \<in> set (gr_free_nodes g)"
    then have "p \<noteq> source" "p \<noteq> dest" using free_not_live [OF core p] s d by auto
    moreover have "sets_ok g p" using link p by (simp add: linked_def free_sets_ok_def)
    ultimately show "sets_ok ?g5 p \<and> outs ?g5 p = outs g p \<and> ins ?g5 p = ins g p"
      using kept c2(6) g4(3,4) by (simp add: oi sets_kept_def)
  qed (use link oi in \<open>auto simp: linked_def\<close>)
  moreover have "sets_ok ?g5 p \<and> outs ?g5 p = out_edges ?g5 p \<and> ins ?g5 p = in_edges ?g5 p" if "p \<in> live_nodes g" for p
    using linkedD [OF link that] kept c2(6) g4(3,4) ends by (auto simp: oi sets_kept_def)
  moreover have "live_nodes ?g5 = live_nodes g" using ff c2 by (simp add: live_nodes_def)
  ultimately have "linked ?g5" by (simp add: linked_def)
  moreover have "core_ok arena ?g5" using ap(1) .
  moreover have "map_option strip (gr_node_objs g4 p) = map_option strip (gr_node_objs g p)" for p
    using fr g1(1) by (simp add: same_frame_def put_edge_def)
  ultimately show ?thesis
    using run te(2,3) ff g1(1) al by (simp add: graph_ok_def put_edge_def)
qed

end
