(* ===== verification/Graph_Remove.thy ===== *)
theory Graph_Remove
  imports Graph_Edges
begin

text \<open>
  Removing edges and nodes (\<open>Graph::RemoveEdge\<close>, \<open>Graph::RemoveNode\<close> of core/graph/graph.cc).
\<close>

section \<open>What goes\<close>

definition dropped :: "nat set \<Rightarrow> graph_state \<Rightarrow> graph_state \<Rightarrow> bool" where
  "dropped D g g' \<longleftrightarrow> gr_edges g' = map (\<lambda>x. if x \<in> D then 0 else x) (gr_edges g)
     \<and> (\<forall>p. map_option strip (gr_node_objs g' p) = map_option strip (gr_node_objs g p))
     \<and> gr_nodes g' = gr_nodes g \<and> gr_free_nodes g' = gr_free_nodes g \<and> gr_num_nodes g' = gr_num_nodes g
     \<and> gr_props g' = gr_props g \<and> gr_edge_objs g' = gr_edge_objs g \<and> gr_allocated g' = gr_allocated g
     \<and> gr_name_counter g' = gr_name_counter g \<and> gr_device_names g' = gr_device_names g \<and> gr_device_map g' = gr_device_map g"

lemma dropped_fields:
  assumes "dropped D g g'"
  shows "gr_edges g' = map (\<lambda>x. if x \<in> D then 0 else x) (gr_edges g)" "gr_nodes g' = gr_nodes g"
    "gr_free_nodes g' = gr_free_nodes g" "gr_props g' = gr_props g" "gr_edge_objs g' = gr_edge_objs g"
    "gr_allocated g' = gr_allocated g" "gr_device_names g' = gr_device_names g" "gr_device_map g' = gr_device_map g"
    "live_nodes g' = live_nodes g" "live_edges g' = live_edges g - D" "edge_src g' = edge_src g" "edge_dst g' = edge_dst g"
    "out_edges g' p = out_edges g p - D" "in_edges g' p = in_edges g p - D"
proof -
  show "gr_edges g' = map (\<lambda>x. if x \<in> D then 0 else x) (gr_edges g)" "gr_nodes g' = gr_nodes g"
    "gr_free_nodes g' = gr_free_nodes g" "gr_props g' = gr_props g" "gr_edge_objs g' = gr_edge_objs g"
    "gr_allocated g' = gr_allocated g" "gr_device_names g' = gr_device_names g" "gr_device_map g' = gr_device_map g"
    using assms by (simp_all add: dropped_def)
  then show "live_nodes g' = live_nodes g" and le: "live_edges g' = live_edges g - D"
    and src: "edge_src g' = edge_src g" "edge_dst g' = edge_dst g"
    by (auto simp: live_nodes_def live_edges_def edge_src_def edge_dst_def fun_eq_iff split: if_splits)
  show "out_edges g' p = out_edges g p - D" "in_edges g' p = in_edges g p - D"
    by (auto simp: out_edges_def in_edges_def le src)
qed

lemma dropped_trans: "dropped D a b \<Longrightarrow> dropped D' b c \<Longrightarrow> dropped (D \<union> D') a c"
  unfolding dropped_def by (auto simp: o_def)

lemma dropped_frame: "same_frame g g' \<Longrightarrow> dropped {} g g'"
  using same_frame_fields [of g g'] by (simp add: dropped_def same_frame_def)

lemma forget_edge_ok:
  assumes ok: "core_ok arena g" and e: "e \<in> live_edges g"
  shows "\<exists>g'. forget_edge e g = Some g' \<and> core_ok arena g' \<and> dropped {e} g g' \<and> gr_node_objs g' = gr_node_objs g"
proof -
  obtain eo i where eo: "gr_edge_objs g e = Some eo" "eo_id eo = int i" "i < length (gr_edges g)" "gr_edges g ! i = e" "e \<noteq> 0"
    using live_edge [OF ok e] by blast
  let ?g = "RecycleEdge e (g\<lparr>gr_edges := (gr_edges g)[i := 0], gr_num_edges := gr_num_edges g - 1\<rparr>)"
  have run: "forget_edge e g = Some ?g" using eo by (simp add: forget_edge_def store_at_def)
  have "(gr_edges g)[i := 0] = map (\<lambda>x. if x \<in> {e} then 0 else x) (gr_edges g)"
  proof (rule nth_equalityI)
    fix j assume "j < length ((gr_edges g)[i := 0])"
    then show "(gr_edges g)[i := 0] ! j = map (\<lambda>x. if x \<in> {e} then 0 else x) (gr_edges g) ! j"
      using edge_index_unique [OF ok, of j i] eo by (cases "j = i") auto
  qed simp
  then have dr: "dropped {e} g ?g" by (simp add: dropped_def RecycleEdge_def)
  note df = dropped_fields [OF dr]
  have fin: "finite (live_edges g)" by (simp add: live_edges_def)
  have "nodes_ok ?g" using ok by (simp add: core_ok_def nodes_ok_def df) (simp add: RecycleEdge_def)
  moreover have "edges_ok ?g"
    unfolding edges_ok_def
  proof (intro conjI allI impI)
    fix j assume j: "j < length (gr_edges ?g)" "gr_edges ?g ! j \<noteq> 0"
    then have "j < length (gr_edges g)" "gr_edges g ! j \<noteq> 0" "gr_edges ?g ! j = gr_edges g ! j"
      by (auto simp: df(1) split: if_splits)
    then show "\<exists>eo. gr_edge_objs ?g (gr_edges ?g ! j) = Some eo \<and> eo_id eo = int j
        \<and> eo_src eo \<in> live_nodes ?g \<and> eo_dst eo \<in> live_nodes ?g"
      using ok unfolding core_ok_def edges_ok_def df by simp
  next
    have fr: "gr_free_edges ?g = gr_free_edges g @ [e]" by (simp add: RecycleEdge_def)
    have not: "e \<notin> set (gr_free_edges g)" using ok e by (auto simp: core_ok_def edges_ok_def)
    show "distinct (gr_free_edges ?g)" "0 \<notin> set (gr_free_edges ?g)" "set (gr_free_edges ?g) \<inter> live_edges ?g = {}"
      using ok not eo(5) unfolding fr df by (auto simp: core_ok_def edges_ok_def)
    have "card (live_edges g - {e}) = card (live_edges g) - 1" "0 < card (live_edges g)"
      using e fin by (auto simp: card_gt_0_iff)
    then show "gr_num_edges ?g = int (card (live_edges ?g))"
      using ok unfolding df by (simp add: core_ok_def edges_ok_def RecycleEdge_def)
  qed
  moreover have "props_ok ?g" using ok by (simp add: core_ok_def props_ok_def owners_def df) (simp add: RecycleEdge_def)
  moreover have "used_addresses ?g \<subseteq> arena ` {..<gr_allocated ?g}"
    using ok e unfolding core_ok_def used_addresses_def df by (auto simp: RecycleEdge_def)
  ultimately show ?thesis using run dr by (simp add: core_ok_def RecycleEdge_def)
qed

lemma same_objs_sets: "gr_node_objs g' = gr_node_objs g \<Longrightarrow> outs g' = outs g \<and> ins g' = ins g \<and> sets_ok g' = sets_ok g"
  by (simp add: outs_def ins_def sets_ok_def fun_eq_iff)

lemma free_sets_same:
  assumes "free_sets_ok g" "gr_free_nodes g' = gr_free_nodes g" "\<forall>q. sets_ok g q \<longrightarrow> sets_ok g' q"
    "\<And>q. outs g' q \<subseteq> outs g q" "\<And>q. ins g' q \<subseteq> ins g q"
  shows "free_sets_ok g'"
  unfolding free_sets_ok_def
proof
  fix p assume "p \<in> set (gr_free_nodes g')"
  then have "sets_ok g p" "outs g p = {}" "ins g p = {}" using assms(1,2) by (auto simp: free_sets_ok_def)
  then show "sets_ok g' p \<and> outs g' p = {} \<and> ins g' p = {}" using assms(3) assms(4,5) [of p] by simp
qed

section \<open>RemoveEdge\<close>

lemma RemoveEdge_ok:
  assumes ok: "graph_ok arena g" and e: "e \<in> live_edges g"
  shows "\<exists>g'. RemoveEdge e g = Some g' \<and> graph_ok arena g' \<and> dropped {e} g g'"
proof -
  have core: "core_ok arena g" and link: "linked g" using ok by (auto simp: graph_ok_def)
  obtain eo i where eo: "gr_edge_objs g e = Some eo" "eo_id eo = int i" "i < length (gr_edges g)" "gr_edges g ! i = e" "e \<noteq> 0"
    "eo_src eo = edge_src g e" "eo_dst eo = edge_dst g e" "edge_src g e \<in> live_nodes g" "edge_dst g e \<in> live_nodes g"
    using live_edge [OF core e] by blast
  let ?s = "edge_src g e" and ?d = "edge_dst g e"
  note ls = linkedD [OF link eo(8)] and ld = linkedD [OF link eo(9)]
  obtain g1 where g1: "erase_out ?s e g = Some g1" "sets_kept g g1" "outs g1 = (outs g)(?s := outs g ?s - {e})" "ins g1 = ins g"
    using erase_out_ok [OF ls(1) eo(5)] ls(2) e by (auto simp: out_edges_def)
  have d1: "sets_ok g1 ?d" using g1(2) ld(1) by (simp add: sets_kept_def)
  obtain g2 where g2: "erase_in ?d e g1 = Some g2" "sets_kept g1 g2" "ins g2 = (ins g)(?d := ins g ?d - {e})" "outs g2 = outs g1"
    using erase_in_ok [OF d1 eo(5)] ld(3) e g1(4) by (auto simp: in_edges_def)
  have kept: "sets_kept g g2" using g1(2) g2(2) by (rule sets_kept_trans)
  then have fr: "same_frame g g2" by (simp add: sets_kept_def)
  note ff = same_frame_fields [OF fr] frame_sets [OF fr]
  have core2: "core_ok arena g2" using core_ok_frame [OF fr core] .
  obtain g3 where g3: "forget_edge e g2 = Some g3" "core_ok arena g3" "dropped {e} g2 g3" "gr_node_objs g3 = gr_node_objs g2"
    using forget_edge_ok [OF core2, of e] e ff by auto
  have dr: "dropped {e} g g3" using dropped_trans [OF dropped_frame [OF fr] g3(3)] by simp
  note df = dropped_fields [OF dr]
  note os = same_objs_sets [OF g3(4)]
  have "0 < card (live_edges g)" using e by (auto simp: card_gt_0_iff live_edges_def)
  then have "0 < gr_num_edges g2" using core by (simp add: core_ok_def edges_ok_def ff)
  then have run: "RemoveEdge e g = Some g3"
    using eo(1-7) g1(1) g2(1) g3(1) ff by (simp add: RemoveEdge_def load_at_def)
  have "free_sets_ok g3"
    by (rule free_sets_same [of g]) (use link kept os g1 g2 df in \<open>auto simp: linked_def sets_kept_def\<close>)
  moreover have "sets_ok g3 q \<and> outs g3 q = out_edges g3 q \<and> ins g3 q = in_edges g3 q" if "q \<in> live_nodes g" for q
    using linkedD [OF link that] kept os g1(3) g2(3,4) by (auto simp: sets_kept_def df out_edges_def in_edges_def)
  ultimately have "linked g3" by (simp add: linked_def df)
  then show ?thesis using run g3(2) dr by (simp add: graph_ok_def)
qed

section \<open>RemoveNode\<close>

text \<open>
  While the edges of a node are taken out one of its own sets still has them all; \<open>linked\<close>
  holds but for that set.
\<close>

definition linked_but_in :: "nat \<Rightarrow> graph_state \<Rightarrow> bool" where
  "linked_but_in p g \<longleftrightarrow> free_sets_ok g
     \<and> (\<forall>q\<in>live_nodes g. sets_ok g q \<and> outs g q = out_edges g q \<and> (q \<noteq> p \<longrightarrow> ins g q = in_edges g q))"

definition linked_but_out :: "nat \<Rightarrow> graph_state \<Rightarrow> bool" where
  "linked_but_out p g \<longleftrightarrow> free_sets_ok g
     \<and> (\<forall>q\<in>live_nodes g. sets_ok g q \<and> (q \<noteq> p \<longrightarrow> outs g q = out_edges g q) \<and> ins g q = in_edges g q)"

lemma remove_in_step:
  assumes core: "core_ok arena g" and link: "linked_but_in p g" and e: "e \<in> in_edges g p"
  shows "\<exists>g'. remove_in_edge g e = Some g' \<and> core_ok arena g' \<and> linked_but_in p g' \<and> dropped {e} g g'"
proof -
  have el: "e \<in> live_edges g" "edge_dst g e = p" using e by (auto simp: in_edges_def)
  obtain eo where eo: "gr_edge_objs g e = Some eo" "e \<noteq> 0" "eo_src eo = edge_src g e" "edge_src g e \<in> live_nodes g"
    using live_edge [OF core el(1)] by metis
  let ?s = "edge_src g e"
  have ls: "sets_ok g ?s" "outs g ?s = out_edges g ?s" using link eo(4) by (auto simp: linked_but_in_def)
  obtain g1 where g1: "erase_out ?s e g = Some g1" "sets_kept g g1" "outs g1 = (outs g)(?s := outs g ?s - {e})" "ins g1 = ins g"
    using erase_out_ok [OF ls(1) eo(2)] ls(2) el by (auto simp: out_edges_def)
  have fr: "same_frame g g1" using g1(2) by (simp add: sets_kept_def)
  note ff = same_frame_fields [OF fr] frame_sets [OF fr]
  obtain g2 where g2: "forget_edge e g1 = Some g2" "core_ok arena g2" "dropped {e} g1 g2" "gr_node_objs g2 = gr_node_objs g1"
    using forget_edge_ok [OF core_ok_frame [OF fr core], of e] el(1) ff by auto
  have dr: "dropped {e} g g2" using dropped_trans [OF dropped_frame [OF fr] g2(3)] by simp
  note df = dropped_fields [OF dr]
  note os = same_objs_sets [OF g2(4)]
  have run: "remove_in_edge g e = Some g2" using eo(1,3) g1(1) g2(1) by (simp add: remove_in_edge_def)
  have "free_sets_ok g2"
    by (rule free_sets_same [of g]) (use link g1 os df in \<open>auto simp: linked_but_in_def sets_kept_def\<close>)
  moreover have "sets_ok g2 q \<and> outs g2 q = out_edges g2 q \<and> (q \<noteq> p \<longrightarrow> ins g2 q = in_edges g2 q)" if "q \<in> live_nodes g" for q
    using link that g1(2-4) os el(2) by (auto simp: linked_but_in_def sets_kept_def df out_edges_def in_edges_def)
  ultimately have "linked_but_in p g2" by (simp add: linked_but_in_def df)
  then show ?thesis using run g2(2) dr by blast
qed

lemma remove_out_step:
  assumes core: "core_ok arena g" and link: "linked_but_out p g" and e: "e \<in> out_edges g p"
  shows "\<exists>g'. remove_out_edge g e = Some g' \<and> core_ok arena g' \<and> linked_but_out p g' \<and> dropped {e} g g'"
proof -
  have el: "e \<in> live_edges g" "edge_src g e = p" using e by (auto simp: out_edges_def)
  obtain eo where eo: "gr_edge_objs g e = Some eo" "e \<noteq> 0" "eo_dst eo = edge_dst g e" "edge_dst g e \<in> live_nodes g"
    using live_edge [OF core el(1)] by metis
  let ?d = "edge_dst g e"
  have ld: "sets_ok g ?d" "ins g ?d = in_edges g ?d" using link eo(4) by (auto simp: linked_but_out_def)
  obtain g1 where g1: "erase_in ?d e g = Some g1" "sets_kept g g1" "ins g1 = (ins g)(?d := ins g ?d - {e})" "outs g1 = outs g"
    using erase_in_ok [OF ld(1) eo(2)] ld(2) el by (auto simp: in_edges_def)
  have fr: "same_frame g g1" using g1(2) by (simp add: sets_kept_def)
  note ff = same_frame_fields [OF fr] frame_sets [OF fr]
  obtain g2 where g2: "forget_edge e g1 = Some g2" "core_ok arena g2" "dropped {e} g1 g2" "gr_node_objs g2 = gr_node_objs g1"
    using forget_edge_ok [OF core_ok_frame [OF fr core], of e] el(1) ff by auto
  have dr: "dropped {e} g g2" using dropped_trans [OF dropped_frame [OF fr] g2(3)] by simp
  note df = dropped_fields [OF dr]
  note os = same_objs_sets [OF g2(4)]
  have run: "remove_out_edge g e = Some g2" using eo(1,3) g1(1) g2(1) by (simp add: remove_out_edge_def)
  have "free_sets_ok g2"
    by (rule free_sets_same [of g]) (use link g1 os df in \<open>auto simp: linked_but_out_def sets_kept_def\<close>)
  moreover have "sets_ok g2 q \<and> (q \<noteq> p \<longrightarrow> outs g2 q = out_edges g2 q) \<and> ins g2 q = in_edges g2 q" if "q \<in> live_nodes g" for q
    using link that g1(2-4) os el(2) by (auto simp: linked_but_out_def sets_kept_def df out_edges_def in_edges_def)
  ultimately have "linked_but_out p g2" by (simp add: linked_but_out_def df)
  then show ?thesis using run g2(2) dr by blast
qed

lemma remove_in_loop:
  assumes "core_ok arena g" "linked_but_in p g" "set es \<subseteq> in_edges g p" "distinct es"
  shows "\<exists>g'. foldM remove_in_edge g es = Some g' \<and> core_ok arena g' \<and> linked_but_in p g' \<and> dropped (set es) g g'"
  using assms
proof (induction es arbitrary: g)
  case Nil
  then show ?case by (simp add: dropped_def)
next
  case (Cons e es)
  then obtain g1 where g1: "remove_in_edge g e = Some g1" "core_ok arena g1" "linked_but_in p g1" "dropped {e} g g1"
    using remove_in_step [of arena g p e] by auto
  have "set es \<subseteq> in_edges g1 p" using Cons.prems(3,4) by (auto simp: dropped_fields [OF g1(4)])
  then obtain g2 where "foldM remove_in_edge g1 es = Some g2" "core_ok arena g2" "linked_but_in p g2" "dropped (set es) g1 g2"
    using Cons.IH [OF g1(2,3)] Cons.prems(4) by auto
  then show ?case using g1(1) dropped_trans [OF g1(4)] by fastforce
qed

lemma remove_out_loop:
  assumes "core_ok arena g" "linked_but_out p g" "set es \<subseteq> out_edges g p" "distinct es"
  shows "\<exists>g'. foldM remove_out_edge g es = Some g' \<and> core_ok arena g' \<and> linked_but_out p g' \<and> dropped (set es) g g'"
  using assms
proof (induction es arbitrary: g)
  case Nil
  then show ?case by (simp add: dropped_def)
next
  case (Cons e es)
  then obtain g1 where g1: "remove_out_edge g e = Some g1" "core_ok arena g1" "linked_but_out p g1" "dropped {e} g g1"
    using remove_out_step [of arena g p e] by auto
  have "set es \<subseteq> out_edges g1 p" using Cons.prems(3,4) by (auto simp: dropped_fields [OF g1(4)])
  then obtain g2 where "foldM remove_out_edge g1 es = Some g2" "core_ok arena g2" "linked_but_out p g2" "dropped (set es) g1 g2"
    using Cons.IH [OF g1(2,3)] Cons.prems(4) by auto
  then show ?case using g1(1) dropped_trans [OF g1(4)] by fastforce
qed

end
