(* ===== verification/Graph_Nodes.thy ===== *)
theory Graph_Nodes
  imports Graph_Remove
begin

text \<open>
  Nodes of a graph (core/graph/graph.cc): allocating, releasing and removing them, and the
  copy-on-write of their shared properties.
\<close>

section \<open>Releasing a node\<close>

definition props_of :: "graph_state \<Rightarrow> nat \<Rightarrow> node_props option" where
  "props_of g p = Option.bind (gr_node_objs g p) (\<lambda>n. node_props_of n g)"

lemma live_props:
  assumes "core_ok arena g" "p \<in> live_nodes g"
  obtains n i where "gr_node_objs g p = Some n" "no_props n = Some i" "i < length (gr_props g)"
    "node_props_of n g = Some (sp_props (gr_props g ! i))" "props_of g p = Some (sp_props (gr_props g ! i))"
    "sp_count (gr_props g ! i) = card (owners g i)" "p \<in> owners g i" "0 < sp_count (gr_props g ! i)"
proof -
  obtain n i where n: "gr_node_objs g p = Some n" "no_props n = Some i" "i < length (gr_props g)"
    and cnt: "sp_count (gr_props g ! i) = card (owners g i)"
    using assms by (auto simp: core_ok_def props_ok_def)
  have o: "p \<in> owners g i" using assms(2) n by (auto simp: owners_def)
  moreover have "finite (owners g i)" by (auto simp: owners_def live_nodes_def)
  ultimately have "0 < card (owners g i)" by (auto simp: card_gt_0_iff)
  then show ?thesis using that [OF n] n cnt o by (simp add: node_props_of_def props_of_def)
qed

lemma finite_owners [simp]: "finite (owners g i)"
  by (auto simp: owners_def live_nodes_def)

lemma drop_props_fields:
  "gr_nodes (drop_props i g) = gr_nodes g" "gr_num_nodes (drop_props i g) = gr_num_nodes g" "gr_edges (drop_props i g) = gr_edges g"
  "gr_num_edges (drop_props i g) = gr_num_edges g" "gr_free_nodes (drop_props i g) = gr_free_nodes g"
  "gr_free_edges (drop_props i g) = gr_free_edges g" "gr_node_objs (drop_props i g) = gr_node_objs g"
  "gr_edge_objs (drop_props i g) = gr_edge_objs g" "gr_allocated (drop_props i g) = gr_allocated g"
  "gr_device_names (drop_props i g) = gr_device_names g" "gr_device_map (drop_props i g) = gr_device_map g"
  "gr_props (drop_props i g) = (gr_props g)[i := (gr_props g ! i)\<lparr>sp_count := sp_count (gr_props g ! i) - 1\<rparr>]"
  by (simp_all add: drop_props_def)

lemma sp_props_update: "map sp_props (xs[i := (xs ! i)\<lparr>sp_count := c\<rparr>]) = map sp_props xs"
  by (cases "i < length xs") (auto simp: list_eq_iff_nth_eq nth_list_update)

lemma clear_node_index:
  assumes "core_ok arena g" "i < length (gr_nodes g)" "gr_nodes g ! i = p" "p \<noteq> 0"
  shows "(gr_nodes g)[i := 0] = map (\<lambda>x. if x = p then 0 else x) (gr_nodes g)"
proof (rule nth_equalityI)
  fix j assume "j < length ((gr_nodes g)[i := 0])"
  then show "(gr_nodes g)[i := 0] ! j = map (\<lambda>x. if x = p then 0 else x) (gr_nodes g) ! j"
    using node_index_unique [OF assms(1), of j i] assms by (cases "j = i") auto
qed simp

lemma sets_of_write:
  assumes "gr_node_objs g' = (gr_node_objs g)(p \<mapsto> n)" "no_in n = new_edge_set" "no_out n = new_edge_set"
  shows "outs g' = (outs g)(p := {})" "ins g' = (ins g)(p := {})" "sets_ok g q \<or> q = p \<Longrightarrow> sets_ok g' q"
  using assms by (auto simp: outs_def ins_def sets_ok_def fun_eq_iff)

lemma ReleaseNode_ok:
  assumes ok: "graph_ok arena g" and p: "p \<in> live_nodes g" and none: "out_edges g p = {}" "in_edges g p = {}"
  shows "\<exists>g'. ReleaseNode p g = Some g' \<and> graph_ok arena g'
    \<and> gr_nodes g' = map (\<lambda>x. if x = p then 0 else x) (gr_nodes g) \<and> gr_edges g' = gr_edges g
    \<and> gr_edge_objs g' = gr_edge_objs g \<and> (\<forall>q. q \<noteq> p \<longrightarrow> gr_node_objs g' q = gr_node_objs g q)
    \<and> map sp_props (gr_props g') = map sp_props (gr_props g) \<and> gr_allocated g' = gr_allocated g
    \<and> gr_device_names g' = gr_device_names g \<and> gr_device_map g' = gr_device_map g
    \<and> gr_free_nodes g' = gr_free_nodes g @ [p] \<and> map_option no_device (gr_node_objs g' p) = Some 0"
proof -
  have core: "core_ok arena g" and link: "linked g" using ok by (auto simp: graph_ok_def)
  obtain n k where n: "gr_node_objs g p = Some n" "no_id n = int k" "k < length (gr_nodes g)" "gr_nodes g ! k = p" "p \<noteq> 0"
    using live_node [OF core p] by blast
  obtain i where i: "no_props n = Some i" "i < length (gr_props g)" "sp_count (gr_props g ! i) = card (owners g i)"
    "p \<in> owners g i" "0 < sp_count (gr_props g ! i)"
    using live_props [OF core p] n(1) by (metis option.inject)
  let ?nodes = "map (\<lambda>x. if x = p then 0 else x) (gr_nodes g)"
  let ?g1 = "put_node p (ClearNodeObj n)
      (g\<lparr>gr_nodes := ?nodes, gr_free_nodes := gr_free_nodes g @ [p], gr_num_nodes := gr_num_nodes g - 1\<rparr>)"
  let ?g = "drop_props i ?g1"
  have run: "ReleaseNode p g = Some ?g"
    using n i(1) clear_node_index [OF core n(3-5)] by (simp add: ReleaseNode_def store_at_def drop_node_props_def)
  have objs: "gr_node_objs ?g = (gr_node_objs g)(p \<mapsto> ClearNodeObj n)" by (simp add: drop_props_fields put_node_def)
  have fields: "gr_nodes ?g = ?nodes" "gr_edges ?g = gr_edges g" "gr_edge_objs ?g = gr_edge_objs g"
    "gr_free_nodes ?g = gr_free_nodes g @ [p]" "gr_free_edges ?g = gr_free_edges g" "gr_num_edges ?g = gr_num_edges g"
    "gr_num_nodes ?g = gr_num_nodes g - 1" "gr_allocated ?g = gr_allocated g"
    "gr_props ?g = (gr_props g)[i := (gr_props g ! i)\<lparr>sp_count := sp_count (gr_props g ! i) - 1\<rparr>]"
    by (simp_all add: drop_props_fields put_node_def)
  have ln: "live_nodes ?g = live_nodes g - {p}" by (auto simp: live_nodes_def fields split: if_splits)
  have le: "live_edges ?g = live_edges g" "edge_src ?g = edge_src g" "edge_dst ?g = edge_dst g"
    by (simp_all add: live_edges_def edge_src_def edge_dst_def fields fun_eq_iff)
  have oe: "out_edges ?g = out_edges g" "in_edges ?g = in_edges g"
    by (simp_all add: out_edges_def in_edges_def le fun_eq_iff)
  have fin: "finite (live_nodes g)" by (simp add: live_nodes_def)
  have npf: "p \<notin> set (gr_free_nodes g)" using free_not_live [OF core] p by blast
  have "nodes_ok ?g"
    unfolding nodes_ok_def
  proof (intro conjI allI impI)
    fix j assume j: "j < length (gr_nodes ?g)" "gr_nodes ?g ! j \<noteq> 0"
    have jl: "j < length (gr_nodes g)" "gr_nodes g ! j \<noteq> 0" "gr_nodes ?g ! j = gr_nodes g ! j" "gr_nodes g ! j \<noteq> p"
      using j by (auto simp: fields split: if_splits)
    obtain m where "gr_node_objs g (gr_nodes g ! j) = Some m" "no_id m = int j"
      using core jl(1,2) unfolding core_ok_def nodes_ok_def by blast
    then show "\<exists>n. gr_node_objs ?g (gr_nodes ?g ! j) = Some n \<and> no_id n = int j"
      unfolding jl(3) objs using jl(4) by simp
  next
    show "distinct (gr_free_nodes ?g)" "0 \<notin> set (gr_free_nodes ?g)" "set (gr_free_nodes ?g) \<inter> live_nodes ?g = {}"
      using core npf n(5) unfolding fields(4) ln by (auto simp: core_ok_def nodes_ok_def)
    have "card (live_nodes g - {p}) = card (live_nodes g) - 1" "0 < card (live_nodes g)"
      using p fin by (auto simp: card_gt_0_iff)
    then show "gr_num_nodes ?g = int (card (live_nodes ?g))"
      using core unfolding ln fields(7) by (simp add: core_ok_def nodes_ok_def)
  qed
  moreover have "edges_ok ?g"
    unfolding edges_ok_def
  proof (intro conjI allI impI)
    fix j assume j: "j < length (gr_edges ?g)" "gr_edges ?g ! j \<noteq> 0"
    then have el: "gr_edges g ! j \<in> live_edges g" by (auto simp: live_edges_def fields)
    obtain eo where eo: "gr_edge_objs g (gr_edges g ! j) = Some eo" "eo_id eo = int j" "eo_src eo \<in> live_nodes g" "eo_dst eo \<in> live_nodes g"
      using core j by (auto simp: core_ok_def edges_ok_def fields)
    have "eo_src eo \<noteq> p" "eo_dst eo \<noteq> p"
      using none el eo(1) by (auto simp: out_edges_def in_edges_def edge_src_def edge_dst_def)
    then show "\<exists>eo. gr_edge_objs ?g (gr_edges ?g ! j) = Some eo \<and> eo_id eo = int j
        \<and> eo_src eo \<in> live_nodes ?g \<and> eo_dst eo \<in> live_nodes ?g"
      using eo by (simp add: fields ln)
  next
    show "distinct (gr_free_edges ?g)" "0 \<notin> set (gr_free_edges ?g)" "set (gr_free_edges ?g) \<inter> live_edges ?g = {}"
      "gr_num_edges ?g = int (card (live_edges ?g))"
      using core unfolding fields(5,6) le by (auto simp: core_ok_def edges_ok_def)
  qed
  moreover have "props_ok ?g"
    unfolding props_ok_def
  proof (intro conjI ballI allI impI)
    fix q assume "q \<in> live_nodes ?g"
    then show "\<exists>n j. gr_node_objs ?g q = Some n \<and> no_props n = Some j \<and> j < length (gr_props ?g)"
      using core by (auto simp: ln objs core_ok_def props_ok_def fields)
  next
    fix j assume j: "j < length (gr_props ?g)"
    have ow: "owners ?g j = (if j = i then owners g j - {p} else owners g j)"
      using n(1) i(1) by (auto simp: owners_def ln objs)
    have cnt: "\<forall>j<length (gr_props g). sp_count (gr_props g ! j) = card (owners g j)"
      using core by (simp add: core_ok_def props_ok_def)
    show "sp_count (gr_props ?g ! j) = card (owners ?g j)"
      using j cnt i(2,4) unfolding ow by (cases "j = i") (simp_all add: fields)
  qed
  moreover have "used_addresses ?g \<subseteq> arena ` {..<gr_allocated ?g}"
    using core p unfolding core_ok_def used_addresses_def le ln fields by auto
  ultimately have core': "core_ok arena ?g" by (simp add: core_ok_def)
  have "no_in (ClearNodeObj n) = new_edge_set" "no_out (ClearNodeObj n) = new_edge_set"
    by (simp_all add: ClearNodeObj_def es_clear_new)
  note sets = sets_of_write [OF objs this]
  have "free_sets_ok ?g"
    using link unfolding linked_def free_sets_ok_def fields(4) by (auto simp: sets(1,2) intro!: sets(3))
  moreover have "sets_ok ?g q \<and> outs ?g q = out_edges ?g q \<and> ins ?g q = in_edges ?g q" if "q \<in> live_nodes g" "q \<noteq> p" for q
    using linkedD [OF link that(1)] that(2) sets(3) by (auto simp: sets(1,2) oe)
  ultimately have "linked ?g" by (simp add: linked_def ln)
  then have "graph_ok arena ?g" using core' by (simp add: graph_ok_def)
  then show ?thesis using run by (simp add: drop_props_fields put_node_def sp_props_update ClearNodeObj_def)
qed

section \<open>RemoveNode\<close>

lemma RemoveNode_ok:
  assumes ok: "graph_ok arena g" and p: "p \<in> live_nodes g"
  shows "\<exists>g'. RemoveNode p g = Some g' \<and> graph_ok arena g'
    \<and> gr_nodes g' = map (\<lambda>x. if x = p then 0 else x) (gr_nodes g)
    \<and> gr_edges g' = map (\<lambda>e. if e \<in> in_edges g p \<union> out_edges g p then 0 else e) (gr_edges g)
    \<and> gr_edge_objs g' = gr_edge_objs g
    \<and> (\<forall>q. q \<noteq> p \<longrightarrow> map_option strip (gr_node_objs g' q) = map_option strip (gr_node_objs g q))
    \<and> map sp_props (gr_props g') = map sp_props (gr_props g) \<and> gr_allocated g' = gr_allocated g
    \<and> gr_device_names g' = gr_device_names g \<and> gr_device_map g' = gr_device_map g
    \<and> gr_free_nodes g' = gr_free_nodes g @ [p] \<and> map_option no_device (gr_node_objs g' p) = Some 0"
proof -
  have core: "core_ok arena g" and link: "linked g" using ok by (auto simp: graph_ok_def)
  obtain n where n: "gr_node_objs g p = Some n" using live_node [OF core p] by blast
  have nset: "es_ok (no_in n)" "es_set (no_in n) = in_edges g p"
    using linkedD [OF link p] n by (auto simp: sets_ok_def ins_def)
  have "linked_but_in p g" using link by (simp add: linked_def linked_but_in_def)
  then obtain g1 where g1: "foldM remove_in_edge g (es_elems (no_in n)) = Some g1" "core_ok arena g1" "linked_but_in p g1"
    "dropped (in_edges g p) g g1"
    using remove_in_loop [OF core, of p "es_elems (no_in n)"] es_elems_ok [OF nset(1)] nset(2) by auto
  note d1 = dropped_fields [OF g1(4)]
  have p1: "p \<in> live_nodes g1" using p d1(9) by simp
  obtain n1 where n1: "gr_node_objs g1 p = Some n1" using live_node [OF g1(2) p1] by blast
  let ?g2 = "put_node p (n1\<lparr>no_in := es_clear (no_in n1)\<rparr>) g1"
  note w2 = write_in [OF n1 refl, where s = "es_clear (no_in n1)"]
  note f2 = frame_sets [OF w2(1)]
  have core2: "core_ok arena ?g2" using core_ok_frame [OF w2(1) g1(2)] .
  have in1: "in_edges g1 p = {}" using d1(14) by simp
  have sets2: "\<forall>q. sets_ok g1 q \<longrightarrow> sets_ok ?g2 q" using w2(4) by (simp add: es_clear_new)
  have oi2: "outs ?g2 q = outs g1 q" "ins ?g2 q = (if q = p then {} else ins g1 q)" for q
    unfolding w2(2,3) by (simp_all add: es_clear_new)
  have lb1: "free_sets_ok g1" using g1(3) by (simp add: linked_but_in_def)
  have fs2: "free_sets_ok ?g2"
    by (rule free_sets_same [OF lb1 same_frame_fields(5) [OF w2(1)] sets2]) (unfold oi2, auto)
  have "linked ?g2"
    unfolding linked_def f2(1,5,6) oi2
  proof (intro conjI ballI fs2)
    fix q assume "q \<in> live_nodes g1"
    then show "sets_ok ?g2 q" "outs g1 q = out_edges g1 q" "(if q = p then {} else ins g1 q) = in_edges g1 q"
      using g1(3) sets2 in1 unfolding linked_but_in_def by auto
  qed
  then have lb2: "linked_but_out p ?g2" by (simp add: linked_def linked_but_out_def)
  have nset1: "es_ok (no_out n1)" "es_set (no_out n1) = out_edges g1 p"
    using g1(3) p1 n1 by (auto simp: linked_but_in_def sets_ok_def outs_def)
  obtain g3 where g3: "foldM remove_out_edge ?g2 (es_elems (no_out n1)) = Some g3" "core_ok arena g3" "linked_but_out p g3"
    "dropped (out_edges g1 p) ?g2 g3"
    using remove_out_loop [OF core2 lb2, of "es_elems (no_out n1)"] es_elems_ok [OF nset1(1)] nset1(2) f2(5) by auto
  note d3 = dropped_fields [OF g3(4)]
  have p3: "p \<in> live_nodes g3" using p1 d3(9) f2(1) by simp
  obtain n3 where n3: "gr_node_objs g3 p = Some n3" using live_node [OF g3(2) p3] by blast
  let ?g4 = "put_node p (n3\<lparr>no_out := es_clear (no_out n3)\<rparr>) g3"
  note w4 = write_out [OF n3 refl, where s = "es_clear (no_out n3)"]
  note f4 = frame_sets [OF w4(1)]
  have core4: "core_ok arena ?g4" using core_ok_frame [OF w4(1) g3(2)] .
  have out3: "out_edges g3 p = {}" "in_edges g3 p = {}" using d3(13,14) [of p] f2(5,6) in1 by simp_all
  have sets4: "\<forall>q. sets_ok g3 q \<longrightarrow> sets_ok ?g4 q" using w4(4) by (simp add: es_clear_new)
  have oi4: "ins ?g4 q = ins g3 q" "outs ?g4 q = (if q = p then {} else outs g3 q)" for q
    unfolding w4(2,3) by (simp_all add: es_clear_new)
  have lb3: "free_sets_ok g3" using g3(3) by (simp add: linked_but_out_def)
  have fs4: "free_sets_ok ?g4"
    by (rule free_sets_same [OF lb3 same_frame_fields(5) [OF w4(1)] sets4]) (unfold oi4, auto)
  have "linked ?g4"
    unfolding linked_def f4(1,5,6) oi4
  proof (intro conjI ballI fs4)
    fix q assume "q \<in> live_nodes g3"
    then show "sets_ok ?g4 q" "(if q = p then {} else outs g3 q) = out_edges g3 q" "ins g3 q = in_edges g3 q"
      using g3(3) sets4 out3 unfolding linked_but_out_def by auto
  qed
  then have ok4: "graph_ok arena ?g4" using core4 by (simp add: graph_ok_def)
  have D: "dropped (in_edges g p \<union> out_edges g1 p) g ?g4"
    using dropped_trans [OF g1(4) dropped_trans [OF dropped_frame [OF w2(1)] dropped_trans [OF g3(4) dropped_frame [OF w4(1)]]]]
    by simp
  have De: "in_edges g p \<union> out_edges g1 p = in_edges g p \<union> out_edges g p" using d1(13) by blast
  note d4 = dropped_fields [OF D [unfolded De]]
  obtain g' where g': "ReleaseNode p ?g4 = Some g'" "graph_ok arena g'"
    "gr_nodes g' = map (\<lambda>x. if x = p then 0 else x) (gr_nodes ?g4)" "gr_edges g' = gr_edges ?g4"
    "gr_edge_objs g' = gr_edge_objs ?g4" "\<forall>q. q \<noteq> p \<longrightarrow> gr_node_objs g' q = gr_node_objs ?g4 q"
    "map sp_props (gr_props g') = map sp_props (gr_props ?g4)" "gr_allocated g' = gr_allocated ?g4"
    "gr_device_names g' = gr_device_names ?g4" "gr_device_map g' = gr_device_map ?g4"
    "gr_free_nodes g' = gr_free_nodes ?g4 @ [p]" "map_option no_device (gr_node_objs g' p) = Some 0"
    using ReleaseNode_ok [OF ok4, of p] p3 out3 f4(1,5,6) by auto
  have run: "RemoveNode p g = Some g'"
    using n g1(1) n1 g3(1) n3 g'(1) by (simp add: RemoveNode_def Let_def)
  have strips: "map_option strip (gr_node_objs g' q) = map_option strip (gr_node_objs g q)" if "q \<noteq> p" for q
    using g'(6) that D by (simp add: dropped_def)
  show ?thesis
    by (rule exI [of _ g']) (use run g'(2) strips in \<open>simp add: g'(3-5,7-) d4\<close>)
qed

end
