(* ===== verification/Graph_Copy.thy ===== *)
theory Graph_Copy
  imports Graph_Nodes
begin

text \<open>
  New nodes (\<open>Graph::AllocateNode\<close>, \<open>AddNode\<close>, \<open>CopyNode\<close> of core/graph/graph.cc), and the
  copy-on-write of the properties that copies share (\<open>Node::MaybeCopyOnWrite\<close>).
\<close>

section \<open>Holding properties\<close>

text \<open>A function that has a \<open>shared_ptr\<close> to the properties \<open>i\<close> owns them beside the nodes.\<close>

definition props_held :: "nat \<Rightarrow> graph_state \<Rightarrow> bool" where
  "props_held i g \<longleftrightarrow> i < length (gr_props g)
     \<and> (\<forall>p\<in>live_nodes g. \<exists>n j. gr_node_objs g p = Some n \<and> no_props n = Some j \<and> j < length (gr_props g))
     \<and> (\<forall>j<length (gr_props g). sp_count (gr_props g ! j) = card (owners g j) + (if j = i then 1 else 0))"

definition core_held :: "(nat \<Rightarrow> nat) \<Rightarrow> nat \<Rightarrow> graph_state \<Rightarrow> bool" where
  "core_held arena i g \<longleftrightarrow> nodes_ok g \<and> edges_ok g \<and> props_held i g \<and> used_addresses g \<subseteq> arena ` {..<gr_allocated g}"

lemma same_but_props:
  assumes "g' = g\<lparr>gr_props := ps\<rparr>"
  shows "live_nodes g' = live_nodes g" "live_edges g' = live_edges g" "owners g' = owners g" "used_addresses g' = used_addresses g"
    "nodes_ok g' = nodes_ok g" "edges_ok g' = edges_ok g" "linked g' = linked g"
  using assms by (simp_all add: live_nodes_def live_edges_def owners_def used_addresses_def nodes_ok_def edges_ok_def linked_def
      free_sets_ok_def sets_ok_def outs_def ins_def out_edges_def in_edges_def edge_src_def edge_dst_def fun_eq_iff)

lemma make_props_held:
  assumes ok: "core_ok arena g" and m: "make_props pr g = (i, g')"
  shows "core_held arena i g'" "g' = g\<lparr>gr_props := gr_props g @ [\<lparr>sp_count = 1, sp_props = pr\<rparr>]\<rparr>" "i = length (gr_props g)"
    "linked g' = linked g"
proof -
  show g': "g' = g\<lparr>gr_props := gr_props g @ [\<lparr>sp_count = 1, sp_props = pr\<rparr>]\<rparr>" and i: "i = length (gr_props g)"
    using m by (auto simp: make_props_def)
  note same = same_but_props [OF g']
  show "linked g' = linked g" by (rule same)
  have each: "\<forall>p\<in>live_nodes g. \<exists>n j. gr_node_objs g p = Some n \<and> no_props n = Some j \<and> j < length (gr_props g)"
    and cnt: "\<forall>j<length (gr_props g). sp_count (gr_props g ! j) = card (owners g j)"
    using ok by (simp_all add: core_ok_def props_ok_def)
  have none: "owners g (length (gr_props g)) = {}" using each by (auto simp: owners_def)
  have "props_held i g'"
    unfolding props_held_def same
  proof (intro conjI ballI allI impI)
    fix p assume "p \<in> live_nodes g"
    then show "\<exists>n j. gr_node_objs g' p = Some n \<and> no_props n = Some j \<and> j < length (gr_props g')"
      using each by (auto simp: g' dest!: bspec intro: less_SucI)
  next
    fix j assume "j < length (gr_props g')"
    then show "sp_count (gr_props g' ! j) = card (owners g j) + (if j = i then 1 else 0)"
      using cnt none by (auto simp: g' i nth_append less_Suc_eq)
  qed (simp add: g' i)
  then show "core_held arena i g'" using ok same by (simp add: core_held_def core_ok_def) (simp add: g')
qed

lemma share_props_held:
  assumes ok: "core_ok arena g" and i: "i < length (gr_props g)"
  shows "core_held arena i (share_props i g)" "linked (share_props i g) = linked g"
    "\<exists>ps. share_props i g = g\<lparr>gr_props := ps\<rparr> \<and> map sp_props ps = map sp_props (gr_props g)"
proof -
  let ?ps = "(gr_props g)[i := (gr_props g ! i)\<lparr>sp_count := sp_count (gr_props g ! i) + 1\<rparr>]"
  have g': "share_props i g = g\<lparr>gr_props := ?ps\<rparr>" by (simp add: share_props_def)
  note same = same_but_props [OF g']
  show "linked (share_props i g) = linked g" by (rule same)
  show "\<exists>ps. share_props i g = g\<lparr>gr_props := ps\<rparr> \<and> map sp_props ps = map sp_props (gr_props g)"
    using g' sp_props_update by blast
  have "props_held i (share_props i g)"
    using ok i unfolding props_held_def same core_ok_def props_ok_def by (auto simp: g' nth_list_update)
  then show "core_held arena i (share_props i g)"
    using ok same by (simp add: core_held_def core_ok_def) (simp add: g')
qed

section \<open>AllocateNode\<close>

lemma take_node_ok:
  assumes used: "used_addresses g \<subseteq> arena ` {..<gr_allocated g}" and nodes: "nodes_ok g" and link: "linked g"
    and ar: "arena_ok arena" and t: "take_node arena g = (p, g1)"
  shows "p \<noteq> 0" "p \<notin> live_nodes g" "sets_ok g1 p" "outs g1 p = {}" "ins g1 p = {}"
    "\<exists>free al objs. g1 = g\<lparr>gr_free_nodes := free, gr_allocated := al, gr_node_objs := objs\<rparr> \<and> distinct free
       \<and> set free \<subseteq> set (gr_free_nodes g) - {p} \<and> gr_allocated g \<le> al \<and> al \<le> gr_allocated g + 1 \<and> p \<in> arena ` {..<al}
       \<and> (\<forall>q. q \<noteq> p \<longrightarrow> objs q = gr_node_objs g q)
       \<and> (objs p = Some new_node_obj \<or> p \<in> set (gr_free_nodes g) \<and> objs p = gr_node_objs g p)"
proof -
  have d: "distinct (gr_free_nodes g)" "0 \<notin> set (gr_free_nodes g)" "set (gr_free_nodes g) \<inter> live_nodes g = {}"
    using nodes by (auto simp: nodes_ok_def)
  have "(p \<noteq> 0 \<and> p \<notin> live_nodes g) \<and> (sets_ok g1 p \<and> outs g1 p = {} \<and> ins g1 p = {})
    \<and> (\<exists>free al objs. g1 = g\<lparr>gr_free_nodes := free, gr_allocated := al, gr_node_objs := objs\<rparr> \<and> distinct free
       \<and> set free \<subseteq> set (gr_free_nodes g) - {p} \<and> gr_allocated g \<le> al \<and> al \<le> gr_allocated g + 1 \<and> p \<in> arena ` {..<al}
       \<and> (\<forall>q. q \<noteq> p \<longrightarrow> objs q = gr_node_objs g q)
       \<and> (objs p = Some new_node_obj \<or> p \<in> set (gr_free_nodes g) \<and> objs p = gr_node_objs g p))"
  proof (cases "gr_free_nodes g = []")
    case True
    then have pg: "p = arena (gr_allocated g)" "g1 = put_node p new_node_obj (g\<lparr>gr_allocated := gr_allocated g + 1\<rparr>)"
      using t by (auto simp: take_node_def Let_def)
    have "arena (gr_allocated g) \<notin> arena ` {..<gr_allocated g}" using ar by (auto simp: arena_ok_def inj_eq)
    then have "p \<notin> live_nodes g" using used pg(1) by (auto simp: used_addresses_def)
    moreover have "p \<noteq> 0" using ar pg(1) by (metis arena_ok_def rangeI)
    moreover have "sets_ok g1 p \<and> outs g1 p = {} \<and> ins g1 p = {}"
      by (simp add: pg(2) sets_ok_def outs_def ins_def put_node_def new_node_obj_def)
    ultimately show ?thesis
      using True pg by (auto simp: put_node_def intro!: exI [of _ "[]"] exI [of _ "gr_allocated g + 1"] exI [of _ "(gr_node_objs g)(p \<mapsto> new_node_obj)"])
  next
    case False
    then have pg: "p = last (gr_free_nodes g)" "g1 = g\<lparr>gr_free_nodes := butlast (gr_free_nodes g)\<rparr>" using t by (auto simp: take_node_def)
    have pf: "p \<in> set (gr_free_nodes g)" using False pg(1) by simp
    have "p \<notin> set (butlast (gr_free_nodes g))"
      using d(1) False pg(1) by (metis append_butlast_last_id disjoint_insert(1) distinct_append list.set(2) list.simps(15))
    moreover have "sets_ok g1 p \<and> outs g1 p = {} \<and> ins g1 p = {}"
      using link pf by (simp add: linked_def free_sets_ok_def pg(2) sets_ok_def outs_def ins_def)
    moreover have "p \<in> arena ` {..<gr_allocated g}" using used pf by (auto simp: used_addresses_def)
    ultimately show ?thesis using d pf pg
      by (auto dest: in_set_butlastD intro: distinct_butlast
          intro!: exI [of _ "butlast (gr_free_nodes g)"] exI [of _ "gr_allocated g"] exI [of _ "gr_node_objs g"])
  qed
  then show "p \<noteq> 0" "p \<notin> live_nodes g" "sets_ok g1 p" "outs g1 p = {}" "ins g1 p = {}"
    "\<exists>free al objs. g1 = g\<lparr>gr_free_nodes := free, gr_allocated := al, gr_node_objs := objs\<rparr> \<and> distinct free
       \<and> set free \<subseteq> set (gr_free_nodes g) - {p} \<and> gr_allocated g \<le> al \<and> al \<le> gr_allocated g + 1 \<and> p \<in> arena ` {..<al}
       \<and> (\<forall>q. q \<noteq> p \<longrightarrow> objs q = gr_node_objs g q)
       \<and> (objs p = Some new_node_obj \<or> p \<in> set (gr_free_nodes g) \<and> objs p = gr_node_objs g p)" by blast+
qed

text \<open>The last step: the node is put at the end of the vector.\<close>

lemma append_node_ok:
  assumes core: "nodes_ok g" "edges_ok g" "props_held i g" and link: "linked g"
    and p: "p \<noteq> 0" "p \<notin> live_nodes g"
    and old: "\<forall>q. q \<noteq> p \<longrightarrow> gr_node_objs g' q = gr_node_objs g q"
    and n: "gr_node_objs g' p = Some n" "no_id n = int (length (gr_nodes g))" "no_props n = Some i"
    and sets: "sets_ok g' p" "outs g' p = {}" "ins g' p = {}"
    and f: "gr_nodes g' = gr_nodes g @ [p]" "gr_num_nodes g' = gr_num_nodes g + 1" "gr_edges g' = gr_edges g"
      "gr_num_edges g' = gr_num_edges g" "gr_free_edges g' = gr_free_edges g" "gr_edge_objs g' = gr_edge_objs g"
      "gr_props g' = gr_props g"
    and free: "distinct (gr_free_nodes g')" "set (gr_free_nodes g') \<subseteq> set (gr_free_nodes g) - {p}"
    and used: "used_addresses g \<subseteq> arena ` {..<gr_allocated g}" "gr_allocated g \<le> gr_allocated g'" "p \<in> arena ` {..<gr_allocated g'}"
  shows "graph_ok arena g'"
proof -
  have ln: "live_nodes g' = insert p (live_nodes g)" using p(1) by (auto simp: live_nodes_def f)
  have le: "live_edges g' = live_edges g" "edge_src g' = edge_src g" "edge_dst g' = edge_dst g" "out_edges g' = out_edges g" "in_edges g' = in_edges g"
    by (simp_all add: live_edges_def edge_src_def edge_dst_def out_edges_def in_edges_def f fun_eq_iff)
  have fin: "finite (live_nodes g)" by (simp add: live_nodes_def)
  have "nodes_ok g'"
    unfolding nodes_ok_def
  proof (intro conjI allI impI)
    fix j assume j: "j < length (gr_nodes g')" "gr_nodes g' ! j \<noteq> 0"
    show "\<exists>n. gr_node_objs g' (gr_nodes g' ! j) = Some n \<and> no_id n = int j"
    proof (cases "j < length (gr_nodes g)")
      case True
      then have "gr_nodes g ! j \<in> live_nodes g" "gr_nodes g' ! j = gr_nodes g ! j" "gr_nodes g ! j \<noteq> 0"
        using j by (auto simp: f nth_append live_nodes_def)
      then show ?thesis using core(1) True p(2) old unfolding nodes_ok_def by metis
    qed (use j n f(1) in \<open>auto simp: nth_append less_Suc_eq\<close>)
  next
    show "distinct (gr_free_nodes g')" "0 \<notin> set (gr_free_nodes g')" "set (gr_free_nodes g') \<inter> live_nodes g' = {}"
      using core(1) free unfolding ln nodes_ok_def by auto
    show "gr_num_nodes g' = int (card (live_nodes g'))"
      using core(1) p(2) fin unfolding ln f(2) by (simp add: nodes_ok_def)
  qed
  moreover have "edges_ok g'" using core(2) unfolding edges_ok_def le f ln by blast
  moreover have "props_ok g'"
    unfolding props_ok_def f(7)
  proof (intro conjI ballI allI impI)
    fix q assume "q \<in> live_nodes g'"
    then show "\<exists>m j. gr_node_objs g' q = Some m \<and> no_props m = Some j \<and> j < length (gr_props g)"
      using core(3) n old p(2) by (cases "q = p") (auto simp: ln props_held_def)
  next
    fix j assume j: "j < length (gr_props g)"
    have ow: "owners g' j = (if j = i then insert p (owners g j) else owners g j)"
      using n p(2) old by (auto simp: owners_def ln)
    have "p \<notin> owners g j" using p(2) by (simp add: owners_def)
    then show "sp_count (gr_props g ! j) = card (owners g' j)" using core(3) j unfolding ow by (cases "j = i") (auto simp: props_held_def)
  qed
  moreover have "used_addresses g' \<subseteq> arena ` {..<gr_allocated g'}"
  proof -
    have "arena ` {..<gr_allocated g} \<subseteq> arena ` {..<gr_allocated g'}" using used(2) by (intro image_mono) auto
    then have "used_addresses g \<subseteq> arena ` {..<gr_allocated g'}" using used(1) by blast
    then show ?thesis using used(3) free(2) unfolding used_addresses_def ln le f by blast
  qed
  moreover have "linked g'"
  proof -
    have same: "sets_ok g' q = sets_ok g q" "outs g' q = outs g q" "ins g' q = ins g q" if "q \<noteq> p" for q
      using old that by (simp_all add: sets_ok_def outs_def ins_def)
    have "free_sets_ok g'" using link free(2) same unfolding linked_def free_sets_ok_def by blast
    moreover have "out_edges g p = {}" "in_edges g p = {}"
      using core(2) p(2) by (auto simp: out_edges_def in_edges_def edges_ok_def live_edges_def in_set_conv_nth edge_src_def edge_dst_def)
    ultimately show ?thesis using link same sets unfolding linked_def ln le by (metis insertE)
  qed
  ultimately show ?thesis by (simp add: graph_ok_def core_ok_def)
qed

lemma AllocateNode_ok:
  assumes core: "core_held arena i g" and link: "linked g" and ar: "arena_ok arena"
  shows "\<exists>p n g'. AllocateNode arena i c fn g = Some (p, g') \<and> graph_ok arena g' \<and> p \<noteq> 0 \<and> p \<notin> live_nodes g
    \<and> gr_nodes g' = gr_nodes g @ [p] \<and> gr_node_objs g' p = Some n \<and> no_id n = int (length (gr_nodes g)) \<and> no_props n = Some i
    \<and> no_class n = (if fn then NC_FUNCTION_OP else get_node_class_for_op (np_op (sp_props (gr_props g ! i))))
    \<and> (\<forall>q. q \<noteq> p \<longrightarrow> gr_node_objs g' q = gr_node_objs g q) \<and> gr_edges g' = gr_edges g \<and> gr_edge_objs g' = gr_edge_objs g
    \<and> gr_props g' = gr_props g \<and> gr_allocated g' \<le> gr_allocated g + 1
    \<and> gr_device_names g' = gr_device_names g \<and> gr_device_map g' = gr_device_map g
    \<and> set (gr_free_nodes g') \<subseteq> set (gr_free_nodes g) - {p}
    \<and> (no_device n = 0 \<or> p \<in> set (gr_free_nodes g) \<and> (\<exists>m. gr_node_objs g p = Some m \<and> no_device m = no_device n))"
proof -
  have c: "nodes_ok g" "edges_ok g" "props_held i g" "used_addresses g \<subseteq> arena ` {..<gr_allocated g}"
    using core by (auto simp: core_held_def)
  obtain p g1 where t: "take_node arena g = (p, g1)" by (cases "take_node arena g")
  note tn = take_node_ok [OF c(4,1) link ar t]
  obtain free al objs where g1: "g1 = g\<lparr>gr_free_nodes := free, gr_allocated := al, gr_node_objs := objs\<rparr>" "distinct free"
    "set free \<subseteq> set (gr_free_nodes g) - {p}" "gr_allocated g \<le> al" "al \<le> gr_allocated g + 1" "p \<in> arena ` {..<al}"
    "\<forall>q. q \<noteq> p \<longrightarrow> objs q = gr_node_objs g q"
    "objs p = Some new_node_obj \<or> p \<in> set (gr_free_nodes g) \<and> objs p = gr_node_objs g p" using tn(6) by blast
  obtain m where m: "gr_node_objs g1 p = Some m" "es_ok (no_in m)" "es_ok (no_out m)" using tn(3) by (auto simp: sets_ok_def)
  have empty: "es_set (no_in m) = {}" "es_set (no_out m) = {}" using tn(4,5) m(1) by (simp_all add: outs_def ins_def)
  have i: "i < length (gr_props g)" using c(3) by (simp add: props_held_def)
  let ?cost = "case c of Some c \<Rightarrow> no_cost_id c | None \<Rightarrow> int (length (gr_nodes g))"
  let ?n = "InitializeNodeObj (int (length (gr_nodes g))) ?cost i (sp_props (gr_props g ! i)) fn m"
  let ?g = "(put_node p ?n g1)\<lparr>gr_nodes := gr_nodes g @ [p], gr_num_nodes := gr_num_nodes g + 1\<rparr>"
  have run: "AllocateNode arena i c fn g = Some (p, ?g)" using t m(1) i by (cases c) (simp_all add: AllocateNode_def g1(1) Let_def)
  have n: "gr_node_objs ?g p = Some ?n" "no_id ?n = int (length (gr_nodes g))" "no_props ?n = Some i"
    "no_class ?n = (if fn then NC_FUNCTION_OP else get_node_class_for_op (np_op (sp_props (gr_props g ! i))))"
    by (simp_all add: put_node_def InitializeNodeObj_def)
  have old: "\<forall>q. q \<noteq> p \<longrightarrow> gr_node_objs ?g q = gr_node_objs g q" using g1(7) by (simp add: put_node_def g1(1))
  have dev: "no_device ?n = 0 \<or> p \<in> set (gr_free_nodes g) \<and> (\<exists>m. gr_node_objs g p = Some m \<and> no_device m = no_device ?n)"
  proof -
    have "objs p = Some m" using m(1) by (simp add: g1(1))
    then show ?thesis using g1(8) by (auto simp: InitializeNodeObj_def new_node_obj_def intro!: exI [of _ m])
  qed
  have "graph_ok arena ?g"
    by (rule append_node_ok [OF c(1-3) link tn(1,2) old n(1-3)])
      (use g1 c(4) m empty in \<open>auto simp: put_node_def sets_ok_def outs_def ins_def InitializeNodeObj_def\<close>)
  then show ?thesis
    using run n old tn(1,2) g1(3,5) dev by (intro exI [of _ p] exI [of _ ?n] exI [of _ ?g]) (simp add: put_node_def g1(1))
qed

section \<open>Copy on write\<close>

lemma props_at:
  assumes "gr_node_objs g p = Some n" "no_props n = Some i" "i < length (gr_props g)"
  shows "props_of g p = Some (sp_props (gr_props g ! i))"
  using assms by (simp add: props_of_def node_props_of_def)

lemma no_props_update_sets:
  assumes "gr_node_objs g p = Some n" "gr_node_objs g' = (gr_node_objs g)(p \<mapsto> n\<lparr>no_props := x\<rparr>)"
  shows "outs g' = outs g" "ins g' = ins g" "sets_ok g' = sets_ok g"
  using assms by (auto simp: outs_def ins_def sets_ok_def fun_eq_iff)

lemma MaybeCopyOnWrite_ok:
  assumes ok: "graph_ok arena g" and p: "p \<in> live_nodes g"
  shows "\<exists>g' n' i. MaybeCopyOnWrite p g = Some g' \<and> graph_ok arena g' \<and> gr_node_objs g' p = Some n' \<and> no_props n' = Some i
    \<and> i < length (gr_props g') \<and> owners g' i = {p} \<and> (\<forall>q\<in>live_nodes g. props_of g' q = props_of g q)
    \<and> (\<exists>objs ps. g' = g\<lparr>gr_node_objs := objs, gr_props := ps\<rparr>
         \<and> (\<forall>q. map_option (no_props_update Map.empty) (objs q) = map_option (no_props_update Map.empty) (gr_node_objs g q)))"
proof -
  have core: "core_ok arena g" and link: "linked g" using ok by (auto simp: graph_ok_def)
  obtain n i where n: "gr_node_objs g p = Some n" "no_props n = Some i" "i < length (gr_props g)"
    "node_props_of n g = Some (sp_props (gr_props g ! i))" "sp_count (gr_props g ! i) = card (owners g i)" "p \<in> owners g i"
    using live_props [OF core p] by blast
  show ?thesis
  proof (cases "sp_count (gr_props g ! i) = 1")
    case True
    then have "owners g i = {p}" using n(5,6) by (metis card_1_singletonE singletonD)
    moreover have "MaybeCopyOnWrite p g = Some g" using n True by (simp add: MaybeCopyOnWrite_def)
    ultimately show ?thesis using n ok
      by (intro exI [of _ g] exI [of _ n] exI [of _ i]) (auto intro!: exI [of _ "gr_node_objs g"] exI [of _ "gr_props g"])
  next
    case False
    let ?k = "length (gr_props g)" and ?pr = "sp_props (gr_props g ! i)"
    let ?ps = "(gr_props g @ [\<lparr>sp_count = 1, sp_props = ?pr\<rparr>])
        [i := (gr_props g ! i)\<lparr>sp_count := sp_count (gr_props g ! i) - 1\<rparr>]"
    let ?n = "n\<lparr>no_props := Some ?k\<rparr>"
    define h where "h = g\<lparr>gr_node_objs := (gr_node_objs g)(p \<mapsto> ?n), gr_props := ?ps\<rparr>"
    have run: "MaybeCopyOnWrite p g = Some h"
      using n False by (simp add: h_def MaybeCopyOnWrite_def make_props_def put_node_def drop_props_def nth_append)
    have same: "live_nodes h = live_nodes g" "live_edges h = live_edges g" "out_edges h = out_edges g" "in_edges h = in_edges g"
      "used_addresses h = used_addresses g" "edges_ok h = edges_ok g" "gr_nodes h = gr_nodes g" "gr_free_nodes h = gr_free_nodes g"
      "gr_num_nodes h = gr_num_nodes g" "gr_allocated h = gr_allocated g"
      by (simp_all add: h_def live_nodes_def live_edges_def out_edges_def in_edges_def edge_src_def edge_dst_def used_addresses_def
          edges_ok_def fun_eq_iff)
    have objs: "gr_node_objs h = (gr_node_objs g)(p \<mapsto> ?n)" and ps: "gr_props h = ?ps" by (simp_all add: h_def)
    note sets = no_props_update_sets [OF n(1) objs]
    have each: "\<forall>q\<in>live_nodes g. \<exists>n j. gr_node_objs g q = Some n \<and> no_props n = Some j \<and> j < ?k"
      and cnt: "\<forall>j<?k. sp_count (gr_props g ! j) = card (owners g j)"
      using core by (simp_all add: core_ok_def props_ok_def)
    have none: "owners g ?k = {}" using each by (auto simp: owners_def)
    have ow: "owners h j = (if j = ?k then {p} else if j = i then owners g i - {p} else owners g j)" for j
      using n(1,2,3) p each unfolding owners_def same(1) objs by auto
    have "\<exists>m. gr_node_objs h q = Some m \<and> no_id m = x" if "\<exists>m. gr_node_objs g q = Some m \<and> no_id m = x" for q x
      using that n(1) by (auto simp: objs)
    then have "nodes_ok h" using core unfolding core_ok_def nodes_ok_def same by simp
    moreover have "props_ok h"
      unfolding props_ok_def same
    proof (intro conjI ballI allI impI)
      fix q assume "q \<in> live_nodes g"
      then show "\<exists>n j. gr_node_objs h q = Some n \<and> no_props n = Some j \<and> j < length (gr_props h)"
        using each unfolding objs ps by (cases "q = p") (auto dest!: bspec intro: less_SucI)
    next
      fix j assume "j < length (gr_props h)"
      then show "sp_count (gr_props h ! j) = card (owners h j)"
        using cnt n(3,5,6) unfolding ow ps by (cases "j = ?k"; cases "j = i") (simp_all add: nth_append nth_list_update)
    qed
    moreover have "linked h"
      using link unfolding linked_def free_sets_ok_def sets same by simp
    ultimately have "graph_ok arena h" using core by (simp add: graph_ok_def core_ok_def same)
    moreover have "\<forall>q\<in>live_nodes g. props_of h q = props_of g q"
    proof
      fix q assume q: "q \<in> live_nodes g"
      obtain m j where m: "gr_node_objs g q = Some m" "no_props m = Some j" "j < ?k" using each q by blast
      show "props_of h q = props_of g q"
        using m n(1,2,3) by (cases "q = p") (auto simp: objs ps props_of_def node_props_of_def nth_append nth_list_update)
    qed
    moreover have "gr_node_objs h p = Some ?n" "no_props ?n = Some ?k" "?k < length (gr_props h)" "owners h ?k = {p}"
      using ow by (simp_all add: objs ps)
    moreover have "\<forall>q. map_option (no_props_update Map.empty) (gr_node_objs h q) = map_option (no_props_update Map.empty) (gr_node_objs g q)"
      using n(1) by (simp add: objs)
    moreover have "h = g\<lparr>gr_node_objs := gr_node_objs h, gr_props := gr_props h\<rparr>" by (simp add: h_def)
    ultimately show ?thesis using run by blast
  qed
qed

lemma set_props_ok:
  assumes ok: "graph_ok arena g" and p: "gr_node_objs g p = Some n" "no_props n = Some i" "i < length (gr_props g)" "owners g i = {p}"
  shows "\<exists>ps. set_props p f g = Some (g\<lparr>gr_props := ps\<rparr>) \<and> graph_ok arena (g\<lparr>gr_props := ps\<rparr>)
    \<and> props_of (g\<lparr>gr_props := ps\<rparr>) p = map_option f (props_of g p)
    \<and> (\<forall>q\<in>live_nodes g. q \<noteq> p \<longrightarrow> props_of (g\<lparr>gr_props := ps\<rparr>) q = props_of g q)"
proof -
  let ?ps = "(gr_props g)[i := (gr_props g ! i)\<lparr>sp_props := f (sp_props (gr_props g ! i))\<rparr>]"
  let ?g = "g\<lparr>gr_props := ?ps\<rparr>"
  note same = same_but_props [where g = g and ps = ?ps, OF refl]
  have run: "set_props p f g = Some ?g" using p by (simp add: set_props_def node_props_of_def)
  have cnt: "sp_count (?ps ! j) = sp_count (gr_props g ! j)" if "j < length (gr_props g)" for j
    using p(3) by (simp add: nth_list_update)
  have "props_ok ?g" using ok cnt unfolding graph_ok_def core_ok_def props_ok_def same by simp
  then have "graph_ok arena ?g" using ok by (simp add: graph_ok_def core_ok_def same)
  moreover have "props_of ?g p = map_option f (props_of g p)" using p by (simp add: props_of_def node_props_of_def)
  moreover have "props_of ?g q = props_of g q" if "q \<in> live_nodes g" "q \<noteq> p" for q
  proof -
    have "q \<notin> owners g i" using p(4) that(2) by simp
    then show ?thesis using that(1) by (auto simp: owners_def props_of_def node_props_of_def nth_list_update
          split: option.splits Option.bind_splits)
  qed
  ultimately show ?thesis using run by blast
qed

text \<open>
  The law of copy on write: only the node's own properties change, whoever shared them before.
\<close>

lemma mutate_props_ok:
  assumes ok: "graph_ok arena g" and p: "p \<in> live_nodes g"
  shows "\<exists>g'. mutate_props p f g = Some g' \<and> graph_ok arena g'
    \<and> props_of g' p = map_option f (props_of g p) \<and> (\<forall>q\<in>live_nodes g. q \<noteq> p \<longrightarrow> props_of g' q = props_of g q)
    \<and> (\<exists>objs ps. g' = g\<lparr>gr_node_objs := objs, gr_props := ps\<rparr>
         \<and> (\<forall>q. map_option (no_props_update Map.empty) (objs q) = map_option (no_props_update Map.empty) (gr_node_objs g q)))"
proof -
  obtain g1 n i objs ps where g1: "MaybeCopyOnWrite p g = Some g1" "graph_ok arena g1" "gr_node_objs g1 p = Some n"
    "no_props n = Some i" "i < length (gr_props g1)" "owners g1 i = {p}" "\<forall>q\<in>live_nodes g. props_of g1 q = props_of g q"
    "g1 = g\<lparr>gr_node_objs := objs, gr_props := ps\<rparr>"
    "\<forall>q. map_option (no_props_update Map.empty) (objs q) = map_option (no_props_update Map.empty) (gr_node_objs g q)"
    using MaybeCopyOnWrite_ok [OF ok p] by blast
  obtain ps' where ps': "set_props p f g1 = Some (g1\<lparr>gr_props := ps'\<rparr>)" "graph_ok arena (g1\<lparr>gr_props := ps'\<rparr>)"
    "props_of (g1\<lparr>gr_props := ps'\<rparr>) p = map_option f (props_of g1 p)"
    "\<forall>q\<in>live_nodes g1. q \<noteq> p \<longrightarrow> props_of (g1\<lparr>gr_props := ps'\<rparr>) q = props_of g1 q"
    using set_props_ok [OF g1(2-6)] by blast
  have ln: "live_nodes g1 = live_nodes g" by (simp add: g1(8) live_nodes_def)
  show ?thesis
  proof (intro exI conjI)
    show "mutate_props p f g = Some (g1\<lparr>gr_props := ps'\<rparr>)" using g1(1) ps'(1) by (simp add: mutate_props_def)
    show "graph_ok arena (g1\<lparr>gr_props := ps'\<rparr>)" by fact
    show "props_of (g1\<lparr>gr_props := ps'\<rparr>) p = map_option f (props_of g p)" using ps'(3) g1(7) p by simp
    show "\<forall>q\<in>live_nodes g. q \<noteq> p \<longrightarrow> props_of (g1\<lparr>gr_props := ps'\<rparr>) q = props_of g q" using ps'(4) g1(7) ln by simp
    show "g1\<lparr>gr_props := ps'\<rparr> = g\<lparr>gr_node_objs := objs, gr_props := ps'\<rparr>" by (simp add: g1(8))
  qed (fact g1(9))
qed

end
