(* ===== verification/Graph_Spec.thy ===== *)
theory Graph_Spec
  imports Graph_Copy
begin

text \<open>
  What class \<open>Graph\<close> of core/graph/graph.cc promises its clients: nodes and edges by their
  ids, which are never used twice, each node with properties, a class and a device of its own.
  Addresses, free lists, edge sets, shared properties and the table of device names are gone.
\<close>

section \<open>The abstract graph\<close>

record anode =
  an_class :: node_class
  an_props :: node_props
  an_device :: string

type_synonym agraph = "anode option list \<times> (nat \<times> int \<times> nat \<times> int) option list"

definition alive :: "'a option list \<Rightarrow> nat \<Rightarrow> bool" where
  "alive xs i \<longleftrightarrow> i < length xs \<and> xs ! i \<noteq> None"

definition upd_at :: "nat \<Rightarrow> ('a \<Rightarrow> 'a) \<Rightarrow> 'a option list \<Rightarrow> 'a option list" where
  "upd_at i f xs = xs[i := map_option f (xs ! i)]"

definition forget :: "('a \<Rightarrow> bool) \<Rightarrow> 'a option list \<Rightarrow> 'a option list" where
  "forget P xs = map (\<lambda>x. case x of Some y \<Rightarrow> if P y then None else Some y | None \<Rightarrow> None) xs"

definition touches :: "nat \<Rightarrow> nat \<times> int \<times> nat \<times> int \<Rightarrow> bool" where
  "touches i e = (case e of (s, x, d, y) \<Rightarrow> s = i \<or> d = i)"

definition control_between :: "nat \<Rightarrow> nat \<Rightarrow> (nat \<times> int \<times> nat \<times> int) option \<Rightarrow> bool" where
  "control_between i j e = (case e of Some (s, x, d, y) \<Rightarrow> s = i \<and> x = kControlSlot \<and> d = j | None \<Rightarrow> False)"

definition caret :: "nat \<Rightarrow> anode option list \<Rightarrow> string" where
  "caret i ns = CHR ''^'' # np_name (an_props (the (ns ! i)))"

datatype graph_op =
    Add_node "status + node_props \<times> bool"
  | Copy_node nat
  | Remove_node nat
  | Set_name nat string
  | Clear_attr nat string
  | Set_device nat string
  | Add_edge nat int nat int
  | Remove_edge nat
  | Add_control_edge nat nat bool
  | Remove_control_edge nat

datatype graph_reply = Node_id nat | Edge_id nat | Failed status | Nothing | Crash

definition fresh_anode :: "node_props \<Rightarrow> bool \<Rightarrow> string \<Rightarrow> anode" where
  "fresh_anode pr fn dev = \<lparr>an_class = (if fn then NC_FUNCTION_OP else get_node_class_for_op (np_op pr)), an_props = pr, an_device = dev\<rparr>"

definition copy_anode :: "(string \<Rightarrow> nat option) \<Rightarrow> anode \<Rightarrow> anode" where
  "copy_anode op_defs a = fresh_anode ((an_props a)\<lparr>np_op_def := the (op_defs (np_op (an_props a)))\<rparr>)
     (an_class a = NC_FUNCTION_OP) (an_device a)"

definition upd_props :: "(node_props \<Rightarrow> node_props) \<Rightarrow> anode \<Rightarrow> anode" where
  "upd_props f a = a\<lparr>an_props := f (an_props a)\<rparr>"

definition note_control_input :: "nat \<Rightarrow> nat \<Rightarrow> bool \<Rightarrow> anode option list \<Rightarrow> anode option list" where
  "note_control_input s d dup ns =
     (if s \<noteq> kSourceId \<and> d \<noteq> kSinkId \<and> \<not> dup \<and> caret s ns \<notin> set (np_inputs (an_props (the (ns ! d))))
      then upd_at d (upd_props (\<lambda>pr. pr\<lparr>np_inputs := np_inputs pr @ [caret s ns]\<rparr>)) ns else ns)"

definition forget_control_input :: "nat \<Rightarrow> nat \<Rightarrow> anode option list \<Rightarrow> anode option list" where
  "forget_control_input s d ns =
     (if s \<noteq> kSourceId \<and> d \<noteq> kSinkId
      then upd_at d (upd_props (\<lambda>pr. pr\<lparr>np_inputs := remove1 (caret s ns) (np_inputs pr)\<rparr>)) ns else ns)"

definition agraph_step :: "(string \<Rightarrow> nat option) \<Rightarrow> agraph \<Rightarrow> graph_op \<Rightarrow> agraph \<times> graph_reply" where
  "agraph_step op_defs a x =
     (case a of (ns, es) \<Rightarrow>
       (case x of
          Add_node (Inl s) \<Rightarrow> ((ns, es), Failed s)
        | Add_node (Inr (pr, fn)) \<Rightarrow> ((ns @ [Some (fresh_anode pr fn [])], es), Node_id (length ns))
        | Copy_node i \<Rightarrow> ((ns @ [map_option (copy_anode op_defs) (ns ! i)], es), Node_id (length ns))
        | Remove_node i \<Rightarrow> ((ns[i := None], forget (touches i) es), Nothing)
        | Set_name i name \<Rightarrow> ((upd_at i (upd_props (\<lambda>pr. pr\<lparr>np_name := name\<rparr>)) ns, es), Nothing)
        | Clear_attr i name \<Rightarrow>
            ((upd_at i (upd_props (\<lambda>pr. pr\<lparr>np_attrs := filter (\<lambda>(k, v). k \<noteq> name) (np_attrs pr)\<rparr>)) ns, es), Nothing)
        | Set_device i name \<Rightarrow> ((upd_at i (an_device_update (\<lambda>_. name)) ns, es), Nothing)
        | Add_edge s x d y \<Rightarrow> ((ns, es @ [Some (s, x, d, y)]), Edge_id (length es))
        | Remove_edge k \<Rightarrow> ((ns, es[k := None]), Nothing)
        | Add_control_edge s d dup \<Rightarrow>
            (if \<not> dup \<and> (\<exists>e\<in>set es. control_between s d e) then ((ns, es), Nothing)
             else ((note_control_input s d dup ns, es @ [Some (s, kControlSlot, d, kControlSlot)]), Edge_id (length es)))
        | Remove_control_edge k \<Rightarrow>
            (case es ! k of Some (s, x, d, y) \<Rightarrow> ((forget_control_input s d ns, es[k := None]), Nothing)
             | None \<Rightarrow> ((ns, es), Crash))))"

text \<open>
  The ids are of nodes and edges there are, the registry knows the op of a copied node, and
  the \<open>int\<close>s and tables are not full.
\<close>

definition graph_pre :: "(string \<Rightarrow> nat option) \<Rightarrow> agraph \<Rightarrow> graph_op \<Rightarrow> bool" where
  "graph_pre op_defs a x =
     (case a of (ns, es) \<Rightarrow> length ns + length es + 1 < max_entries \<and>
       (case x of
          Add_node d \<Rightarrow> True
        | Copy_node i \<Rightarrow> alive ns i \<and> op_defs (np_op (an_props (the (ns ! i)))) \<noteq> None
        | Remove_node i \<Rightarrow> alive ns i
        | Set_name i name \<Rightarrow> alive ns i
        | Clear_attr i name \<Rightarrow> alive ns i
        | Set_device i name \<Rightarrow> alive ns i
        | Add_edge s x d y \<Rightarrow> alive ns s \<and> alive ns d
        | Remove_edge k \<Rightarrow> alive es k
        | Add_control_edge s d dup \<Rightarrow> alive ns s \<and> alive ns d
        | Remove_control_edge k \<Rightarrow> alive es k))"

section \<open>The code's graph through its ids\<close>

definition pid :: "graph_state \<Rightarrow> nat \<Rightarrow> nat" where
  "pid g p = (case gr_node_objs g p of Some n \<Rightarrow> nat (no_id n) | None \<Rightarrow> 0)"

text \<open>\<open>FindNodeId\<close>, \<open>FindEdgeId\<close>.\<close>

definition FindNodeId :: "nat \<Rightarrow> graph_state \<Rightarrow> nat" where
  "FindNodeId i g = gr_nodes g ! i"

definition FindEdgeId :: "nat \<Rightarrow> graph_state \<Rightarrow> nat" where
  "FindEdgeId i g = gr_edges g ! i"

definition graph_do ::
  "(nat \<Rightarrow> nat) \<Rightarrow> (string \<Rightarrow> nat option) \<Rightarrow> graph_op \<Rightarrow> graph_state \<Rightarrow> (graph_reply \<times> graph_state) option" where
  "graph_do arena op_defs x g =
     (case x of
        Add_node d \<Rightarrow> map_option (\<lambda>(p, s, g'). (if p = 0 then Failed s else Node_id (pid g' p), g')) (AddNode arena id d g)
      | Copy_node i \<Rightarrow> map_option (\<lambda>(p, g'). (Node_id (pid g' p), g')) (CopyNode arena op_defs (FindNodeId i g) g)
      | Remove_node i \<Rightarrow> map_option (Pair Nothing) (RemoveNode (FindNodeId i g) g)
      | Set_name i name \<Rightarrow> map_option (Pair Nothing) (set_name (FindNodeId i g) name g)
      | Clear_attr i name \<Rightarrow> map_option (Pair Nothing) (ClearAttr (FindNodeId i g) name g)
      | Set_device i name \<Rightarrow> map_option (Pair Nothing) (set_assigned_device_name (FindNodeId i g) name g)
      | Add_edge s x d y \<Rightarrow> do { (e, g') \<leftarrow> AddEdge arena (FindNodeId s g) x (FindNodeId d g) y g; eo \<leftarrow> gr_edge_objs g' e;
                                Some (Edge_id (nat (eo_id eo)), g') }
      | Remove_edge k \<Rightarrow> map_option (Pair Nothing) (RemoveEdge (FindEdgeId k g) g)
      | Add_control_edge s d dup \<Rightarrow>
          do { (e, g') \<leftarrow> AddControlEdge arena (FindNodeId s g) (FindNodeId d g) dup g;
               if e = 0 then Some (Nothing, g')
               else do { eo \<leftarrow> gr_edge_objs g' e; Some (Edge_id (nat (eo_id eo)), g') } }
      | Remove_control_edge k \<Rightarrow> map_option (Pair Nothing) (RemoveControlEdge (FindEdgeId k g) g))"

definition graph_step :: "(nat \<Rightarrow> nat) \<Rightarrow> (string \<Rightarrow> nat option) \<Rightarrow> graph_state \<Rightarrow> graph_op \<Rightarrow> graph_state \<times> graph_reply" where
  "graph_step arena op_defs g x = (case graph_do arena op_defs x g of Some (r, g') \<Rightarrow> (g', r) | None \<Rightarrow> (g, Crash))"

definition abs_node :: "graph_state \<Rightarrow> nat \<Rightarrow> anode option" where
  "abs_node g p = do { n \<leftarrow> gr_node_objs g p; pr \<leftarrow> props_of g p; dev \<leftarrow> load_at (gr_device_names g) (int (no_device n));
     Some \<lparr>an_class = no_class n, an_props = pr, an_device = dev\<rparr> }"

definition abs_edge :: "graph_state \<Rightarrow> nat \<Rightarrow> (nat \<times> int \<times> nat \<times> int) option" where
  "abs_edge g e = map_option (\<lambda>eo. (pid g (eo_src eo), eo_src_output eo, pid g (eo_dst eo), eo_dst_input eo)) (gr_edge_objs g e)"

definition abs_graph :: "graph_state \<Rightarrow> agraph" where
  "abs_graph g = (map (\<lambda>p. if p = 0 then None else abs_node g p) (gr_nodes g),
                  map (\<lambda>e. if e = 0 then None else abs_edge g e) (gr_edges g))"

text \<open>The table of device names, and the devices of nodes; a released node has none.\<close>

definition devices_ok :: "graph_state \<Rightarrow> bool" where
  "devices_ok g \<longleftrightarrow>
     (\<exists>ns. gr_device_names g = [] # ns \<and> distinct ns \<and> [] \<notin> set ns \<and> gr_device_map g = zip ns [1..<Suc (length ns)])
   \<and> (\<forall>p n. gr_node_objs g p = Some n \<longrightarrow> no_device n < length (gr_device_names g))
   \<and> (\<forall>p\<in>set (gr_free_nodes g). \<forall>n. gr_node_objs g p = Some n \<longrightarrow> no_device n = 0)"

definition graph_wf :: "(nat \<Rightarrow> nat) \<Rightarrow> graph_state \<Rightarrow> bool" where
  "graph_wf arena g \<longleftrightarrow> graph_ok arena g \<and> devices_ok g \<and> gr_allocated g \<le> length (gr_nodes g) + length (gr_edges g)"

section \<open>Ids and addresses\<close>

lemma pid_live:
  assumes "core_ok arena g" "p \<in> live_nodes g"
  shows "pid g p < length (gr_nodes g)" "gr_nodes g ! pid g p = p" "p \<noteq> 0"
proof -
  obtain n i where "gr_node_objs g p = Some n" "no_id n = int i" "i < length (gr_nodes g)" "gr_nodes g ! i = p" "p \<noteq> 0"
    using live_node [OF assms] by blast
  then show "pid g p < length (gr_nodes g)" "gr_nodes g ! pid g p = p" "p \<noteq> 0" by (simp_all add: pid_def)
qed

lemma pid_index:
  assumes "core_ok arena g" "i < length (gr_nodes g)" "gr_nodes g ! i \<noteq> 0"
  shows "pid g (gr_nodes g ! i) = i" "gr_nodes g ! i \<in> live_nodes g"
proof -
  show l: "gr_nodes g ! i \<in> live_nodes g" using assms(2,3) by (auto simp: live_nodes_def)
  show "pid g (gr_nodes g ! i) = i"
    using node_index_unique [OF assms(1) pid_live(1) [OF assms(1) l] assms(2)] pid_live [OF assms(1) l] by simp
qed

lemma strip_eq:
  assumes "strip n = strip m"
  shows "no_id n = no_id m" "no_class n = no_class m" "no_props n = no_props m" "no_device n = no_device m"
  using assms by (cases n; cases m; simp add: strip_def)+

lemma pid_strip:
  "map_option strip (gr_node_objs g' q) = map_option strip (gr_node_objs g q) \<Longrightarrow> pid g' q = pid g q"
  by (cases "gr_node_objs g q"; cases "gr_node_objs g' q") (auto simp: pid_def dest: strip_eq)

lemma lengths: "length (fst (abs_graph g)) = length (gr_nodes g)" "length (snd (abs_graph g)) = length (gr_edges g)"
  by (simp_all add: abs_graph_def)

text \<open>An abstract node is there exactly for a live one.\<close>

lemma abs_node_live:
  assumes wf: "graph_wf arena g" and p: "p \<in> live_nodes g"
  obtains n pr where "gr_node_objs g p = Some n" "props_of g p = Some pr"
    "abs_node g p = Some \<lparr>an_class = no_class n, an_props = pr, an_device = gr_device_names g ! no_device n\<rparr>"
    "no_device n < length (gr_device_names g)"
proof -
  have core: "core_ok arena g" and dev: "devices_ok g" using wf by (auto simp: graph_wf_def graph_ok_def)
  obtain n i where n: "gr_node_objs g p = Some n" "props_of g p = Some (sp_props (gr_props g ! i))"
    using live_props [OF core p] by metis
  have "no_device n < length (gr_device_names g)" using dev n(1) by (auto simp: devices_ok_def)
  then show ?thesis using that [OF n] n by (simp add: abs_node_def load_at_def)
qed

lemma alive_node:
  assumes wf: "graph_wf arena g" and a: "alive (fst (abs_graph g)) i"
  shows "FindNodeId i g \<in> live_nodes g" "pid g (FindNodeId i g) = i" "i < length (gr_nodes g)"
    "fst (abs_graph g) ! i = abs_node g (FindNodeId i g)"
proof -
  have core: "core_ok arena g" using wf by (auto simp: graph_wf_def graph_ok_def)
  have i: "i < length (gr_nodes g)" "gr_nodes g ! i \<noteq> 0"
    using a by (auto simp: alive_def abs_graph_def split: if_splits)
  show "FindNodeId i g \<in> live_nodes g" "pid g (FindNodeId i g) = i" "i < length (gr_nodes g)"
    using pid_index [OF core i] i(1) by (simp_all add: FindNodeId_def)
  show "fst (abs_graph g) ! i = abs_node g (FindNodeId i g)" using i by (simp add: abs_graph_def FindNodeId_def)
qed

lemma alive_edge:
  assumes wf: "graph_wf arena g" and a: "alive (snd (abs_graph g)) k"
  shows "FindEdgeId k g \<in> live_edges g" "k < length (gr_edges g)" "snd (abs_graph g) ! k = abs_edge g (FindEdgeId k g)"
  using a by (auto simp: alive_def abs_graph_def FindEdgeId_def live_edges_def split: if_splits)

end
