(* ===== verification/Graph_Sim.thy ===== *)
theory Graph_Sim
  imports Graph_Spec
begin

text \<open>
  Every operation of class \<open>Graph\<close> (core/graph/graph.cc) does on the ids what the abstract
  graph does, keeps the invariant and fails no \<open>CHECK\<close>.
\<close>

section \<open>What a change leaves\<close>

lemma props_of_eq:
  assumes "map_option no_props (gr_node_objs g' q) = map_option no_props (gr_node_objs g q)"
    "map sp_props (gr_props g') = map sp_props (gr_props g)"
  shows "props_of g' q = props_of g q"
proof -
  have len: "length (gr_props g') = length (gr_props g)" using arg_cong [OF assms(2), of length] by simp
  have nth: "i < length (gr_props g) \<Longrightarrow> sp_props (gr_props g' ! i) = sp_props (gr_props g ! i)" for i
    using arg_cong [OF assms(2), of "\<lambda>xs. xs ! i"] len by simp
  show ?thesis
    using assms(1) nth by (cases "gr_node_objs g q"; cases "gr_node_objs g' q")
      (auto simp: props_of_def node_props_of_def len split: Option.bind_splits)
qed

lemma abs_node_eq:
  assumes "map_option no_class (gr_node_objs g' q) = map_option no_class (gr_node_objs g q)"
    "map_option no_device (gr_node_objs g' q) = map_option no_device (gr_node_objs g q)"
    "props_of g' q = props_of g q" "gr_device_names g' = gr_device_names g"
  shows "abs_node g' q = abs_node g q"
  using assms by (cases "gr_node_objs g q"; cases "gr_node_objs g' q") (auto simp: abs_node_def)

lemma strip_same:
  assumes "map_option strip (gr_node_objs g' q) = map_option strip (gr_node_objs g q)"
  shows "map_option no_class (gr_node_objs g' q) = map_option no_class (gr_node_objs g q)"
    "map_option no_device (gr_node_objs g' q) = map_option no_device (gr_node_objs g q)"
    "map_option no_props (gr_node_objs g' q) = map_option no_props (gr_node_objs g q)"
  using assms by (cases "gr_node_objs g q"; cases "gr_node_objs g' q"; auto dest: strip_eq)+

lemma strip_abs:
  assumes "map_option strip (gr_node_objs g' q) = map_option strip (gr_node_objs g q)"
    "map sp_props (gr_props g') = map sp_props (gr_props g)" "gr_device_names g' = gr_device_names g"
  shows "abs_node g' q = abs_node g q" "pid g' q = pid g q"
  using abs_node_eq [OF strip_same(1,2) [OF assms(1)] props_of_eq [OF strip_same(3) [OF assms(1)] assms(2)] assms(3)]
    pid_strip [OF assms(1)] by simp_all

lemma devices_frame:
  assumes ok: "devices_ok g" and tab: "gr_device_names g' = gr_device_names g" "gr_device_map g' = gr_device_map g"
    and objs: "\<And>p n. gr_node_objs g' p = Some n \<Longrightarrow> no_device n = 0 \<or> (\<exists>m. gr_node_objs g p = Some m \<and> no_device m = no_device n)"
    and free: "\<And>p. p \<in> set (gr_free_nodes g') \<Longrightarrow> p \<in> set (gr_free_nodes g) \<or> map_option no_device (gr_node_objs g' p) = Some 0"
  shows "devices_ok g'"
proof -
  have ne: "0 < length (gr_device_names g)" using ok by (auto simp: devices_ok_def)
  have all: "\<forall>p n. gr_node_objs g p = Some n \<longrightarrow> no_device n < length (gr_device_names g)"
    "\<forall>p\<in>set (gr_free_nodes g). \<forall>n. gr_node_objs g p = Some n \<longrightarrow> no_device n = 0"
    using ok unfolding devices_ok_def by blast+
  have "no_device n < length (gr_device_names g)" if "gr_node_objs g' p = Some n" for p n
    using objs [OF that] all(1) ne by metis
  moreover have "no_device n = 0" if "p \<in> set (gr_free_nodes g')" "gr_node_objs g' p = Some n" for p n
    using free [OF that(1)] objs [OF that(2)] all(2) that(2) by auto
  ultimately show ?thesis using ok unfolding devices_ok_def tab by blast
qed

lemma strip_devices:
  assumes "map_option strip (gr_node_objs g' p) = map_option strip (gr_node_objs g p)" "gr_node_objs g' p = Some n"
  shows "no_device n = 0 \<or> (\<exists>m. gr_node_objs g p = Some m \<and> no_device m = no_device n)"
  using strip_same(2) [OF assms(1)] assms(2) by (cases "gr_node_objs g p") auto

text \<open>The edges seen through ids.\<close>

lemma edge_ends:
  assumes "core_ok arena g" "e \<in> live_edges g"
  shows "abs_edge g e = Some (pid g (edge_src g e), eo_src_output (the (gr_edge_objs g e)), pid g (edge_dst g e),
      eo_dst_input (the (gr_edge_objs g e)))"
proof -
  obtain eo where "gr_edge_objs g e = Some eo" "eo_src eo = edge_src g e" "eo_dst eo = edge_dst g e" using live_edge [OF assms] by metis
  then show ?thesis by (simp add: abs_edge_def)
qed

lemma abs_edge_eq:
  assumes core: "core_ok arena g" and e: "e \<in> live_edges g" and o: "gr_edge_objs g' e = gr_edge_objs g e"
    and ids: "\<And>q. q \<in> live_nodes g \<Longrightarrow> pid g' q = pid g q"
  shows "abs_edge g' e = abs_edge g e"
proof -
  obtain eo where "gr_edge_objs g e = Some eo" "eo_src eo \<in> live_nodes g" "eo_dst eo \<in> live_nodes g"
    using live_edge [OF core e] by metis
  then show ?thesis using o ids by (simp add: abs_edge_def)
qed

lemma edges_same:
  assumes core: "core_ok arena g" and f: "gr_edges g' = gr_edges g" "gr_edge_objs g' = gr_edge_objs g"
    and ids: "\<And>q. q \<in> live_nodes g \<Longrightarrow> pid g' q = pid g q"
  shows "snd (abs_graph g') = snd (abs_graph g)"
proof -
  have "abs_edge g' e = abs_edge g e" if "e \<in> set (gr_edges g)" "e \<noteq> 0" for e
    using abs_edge_eq [OF core _ _ ids] f(2) that by (simp add: live_edges_def)
  then show ?thesis by (simp add: abs_graph_def f)
qed

lemma nodes_same:
  assumes "gr_nodes g' = gr_nodes g" "\<And>q. q \<in> live_nodes g \<Longrightarrow> abs_node g' q = abs_node g q"
  shows "fst (abs_graph g') = fst (abs_graph g)"
  using assms by (simp add: abs_graph_def live_nodes_def)

lemma nodes_update:
  assumes core: "core_ok arena g" and p: "p \<in> live_nodes g" and f: "gr_nodes g' = gr_nodes g"
    and other: "\<And>q. q \<in> live_nodes g \<Longrightarrow> q \<noteq> p \<Longrightarrow> abs_node g' q = abs_node g q"
  shows "fst (abs_graph g') = (fst (abs_graph g))[pid g p := abs_node g' p]"
proof (rule nth_equalityI)
  fix i assume "i < length (fst (abs_graph g'))"
  then have i: "i < length (gr_nodes g)" by (simp add: abs_graph_def f)
  note l = pid_live [OF core p]
  show "fst (abs_graph g') ! i = (fst (abs_graph g))[pid g p := abs_node g' p] ! i"
  proof (cases "i = pid g p")
    case True
    then show ?thesis using l by (simp add: abs_graph_def f)
  next
    case False
    then have "gr_nodes g ! i \<noteq> p" using pid_index(1) [OF core i] l(3) by auto
    then show ?thesis using False i other [of "gr_nodes g ! i"] by (auto simp: abs_graph_def f live_nodes_def)
  qed
qed (simp add: abs_graph_def f)

section \<open>Adding and removing edges\<close>

lemma sim_AddEdge:
  assumes wf: "graph_wf arena g" and ar: "arena_ok arena" and room: "length (gr_nodes g) + length (gr_edges g) + 1 < max_entries"
    and s: "s \<in> live_nodes g" and d: "d \<in> live_nodes g"
  shows "\<exists>e g' eo. AddEdge arena s x d y g = Some (e, g') \<and> graph_wf arena g' \<and> e \<noteq> 0 \<and> gr_edge_objs g' e = Some eo
    \<and> eo_id eo = int (length (gr_edges g))
    \<and> abs_graph g' = (fst (abs_graph g), snd (abs_graph g) @ [Some (pid g s, x, pid g d, y)])
    \<and> (\<forall>q. abs_node g' q = abs_node g q \<and> pid g' q = pid g q) \<and> gr_nodes g' = gr_nodes g"
proof -
  have ok: "graph_ok arena g" and dev: "devices_ok g" and al: "gr_allocated g \<le> length (gr_nodes g) + length (gr_edges g)"
    using wf by (auto simp: graph_wf_def)
  have core: "core_ok arena g" using ok by (simp add: graph_ok_def)
  have few: "gr_allocated g + 1 < max_entries" using al room by simp
  let ?eo = "\<lparr>eo_id = int (length (gr_edges g)), eo_src = s, eo_dst = d, eo_src_output = x, eo_dst_input = y\<rparr>"
  obtain e g' where g': "AddEdge arena s x d y g = Some (e, g')" "graph_ok arena g'" "e \<notin> live_edges g"
    "gr_edges g' = gr_edges g @ [e]" "e \<noteq> 0" "gr_edge_objs g' = (gr_edge_objs g)(e \<mapsto> ?eo)"
    "\<forall>p. map_option strip (gr_node_objs g' p) = map_option strip (gr_node_objs g p)"
    "gr_nodes g' = gr_nodes g" "gr_props g' = gr_props g" "gr_allocated g' \<le> gr_allocated g + 1"
    "gr_device_names g' = gr_device_names g" "gr_device_map g' = gr_device_map g" "gr_free_nodes g' = gr_free_nodes g"
    using AddEdge_ok [OF ok ar few s d, of x y] by blast
  have same: "abs_node g' q = abs_node g q" "pid g' q = pid g q" for q
    using strip_abs [of g' q g] g'(7,9,11) by simp_all
  have "devices_ok g'"
    by (rule devices_frame [OF dev g'(11,12)]) (use strip_devices [OF g'(7) [rule_format]] in blast, simp add: g'(13))
  then have "graph_wf arena g'" using g'(2,4,8,10) al by (simp add: graph_wf_def)
  moreover have "fst (abs_graph g') = fst (abs_graph g)" by (rule nodes_same [OF g'(8) same(1)])
  moreover have "snd (abs_graph g') = snd (abs_graph g) @ [Some (pid g s, x, pid g d, y)]"
  proof -
    have "abs_edge g' f = abs_edge g f" if "f \<in> set (gr_edges g)" "f \<noteq> 0" for f
    proof -
      have "f \<in> live_edges g" "f \<noteq> e" using that g'(3) by (auto simp: live_edges_def)
      then show ?thesis using abs_edge_eq [OF core, of f g'] g'(6) same(2) by simp
    qed
    moreover have "abs_edge g' e = Some (pid g s, x, pid g d, y)" by (simp add: abs_edge_def g'(6) same(2))
    ultimately show ?thesis using g'(5) by (simp add: abs_graph_def g'(4))
  qed
  moreover have "gr_edge_objs g' e = Some ?eo" by (simp add: g'(6))
  ultimately show ?thesis
    using g'(1,5,8) same by (intro exI [of _ e] exI [of _ g'] exI [of _ ?eo]) (auto simp: prod_eq_iff)
qed

lemma dropped_abs:
  assumes core: "core_ok arena g" and dr: "dropped D g g'"
  shows "abs_node g' q = abs_node g q" "pid g' q = pid g q" "fst (abs_graph g') = fst (abs_graph g)"
    "devices_ok g \<Longrightarrow> devices_ok g'"
    "snd (abs_graph g') = map (\<lambda>e. if e = 0 \<or> e \<in> D then None else abs_edge g e) (gr_edges g)"
proof -
  note df = dropped_fields [OF dr]
  have strips: "map_option strip (gr_node_objs g' q) = map_option strip (gr_node_objs g q)" for q using dr by (simp add: dropped_def)
  show same: "abs_node g' q = abs_node g q" "pid g' q = pid g q" for q
    using strip_abs [OF strips] df(4,7) by simp_all
  show "fst (abs_graph g') = fst (abs_graph g)" by (rule nodes_same [OF df(2) same(1)])
  show "devices_ok g'" if "devices_ok g"
    by (rule devices_frame [OF that df(7,8)]) (use strip_devices [OF strips] df(3) in auto)
  have "abs_edge g' e = abs_edge g e" if "e \<in> set (gr_edges g)" "e \<noteq> 0" for e
    using abs_edge_eq [OF core, of e g'] that df(5) same(2) by (simp add: live_edges_def)
  then show "snd (abs_graph g') = map (\<lambda>e. if e = 0 \<or> e \<in> D then None else abs_edge g e) (gr_edges g)"
    by (auto simp: abs_graph_def df(1))
qed

lemma edges_update_None:
  assumes core: "core_ok arena g" and k: "k < length (gr_edges g)" "gr_edges g ! k = e" "e \<noteq> 0"
  shows "map (\<lambda>x. if x = 0 \<or> x \<in> {e} then None else abs_edge g x) (gr_edges g) = (snd (abs_graph g))[k := None]"
proof (rule nth_equalityI)
  fix i assume "i < length (map (\<lambda>x. if x = 0 \<or> x \<in> {e} then None else abs_edge g x) (gr_edges g))"
  then show "map (\<lambda>x. if x = 0 \<or> x \<in> {e} then None else abs_edge g x) (gr_edges g) ! i = (snd (abs_graph g))[k := None] ! i"
    using edge_index_unique [OF core, of i k] k by (cases "i = k") (auto simp: abs_graph_def)
qed (simp add: abs_graph_def)

lemma sim_RemoveEdge:
  assumes wf: "graph_wf arena g" and k: "k < length (gr_edges g)" "FindEdgeId k g \<in> live_edges g"
  shows "\<exists>g'. RemoveEdge (FindEdgeId k g) g = Some g' \<and> graph_wf arena g'
    \<and> abs_graph g' = (fst (abs_graph g), (snd (abs_graph g))[k := None])
    \<and> gr_nodes g' = gr_nodes g \<and> length (gr_edges g') = length (gr_edges g) \<and> (\<forall>q. pid g' q = pid g q)"
proof -
  have ok: "graph_ok arena g" and dev: "devices_ok g" and al: "gr_allocated g \<le> length (gr_nodes g) + length (gr_edges g)"
    using wf by (auto simp: graph_wf_def)
  have core: "core_ok arena g" using ok by (simp add: graph_ok_def)
  obtain g' where g': "RemoveEdge (FindEdgeId k g) g = Some g'" "graph_ok arena g'" "dropped {FindEdgeId k g} g g'"
    using RemoveEdge_ok [OF ok k(2)] by blast
  note da = dropped_abs [OF core g'(3)]
  have e: "gr_edges g ! k = FindEdgeId k g" "FindEdgeId k g \<noteq> 0" using k(2) by (auto simp: FindEdgeId_def live_edges_def)
  have "graph_wf arena g'" using g'(2) da(4) [OF dev] al dropped_fields(1,2,6) [OF g'(3)] by (simp add: graph_wf_def)
  moreover have "snd (abs_graph g') = (snd (abs_graph g))[k := None]" using edges_update_None [OF core k(1) e] da(5) by simp
  ultimately show ?thesis
    using g'(1) da(2,3) dropped_fields(1,2) [OF g'(3)] by (intro exI [of _ g']) (auto simp: prod_eq_iff)
qed

section \<open>Removing a node\<close>

lemma pid_inject:
  assumes "core_ok arena g" "p \<in> live_nodes g" "q \<in> live_nodes g" "pid g p = pid g q"
  shows "p = q"
  using pid_live(2) [OF assms(1,2)] pid_live(2) [OF assms(1,3)] assms(4) by metis

lemma sim_RemoveNode:
  assumes wf: "graph_wf arena g" and p: "p \<in> live_nodes g"
  shows "\<exists>g'. RemoveNode p g = Some g' \<and> graph_wf arena g'
    \<and> abs_graph g' = ((fst (abs_graph g))[pid g p := None], forget (touches (pid g p)) (snd (abs_graph g)))"
proof -
  have ok: "graph_ok arena g" and dev: "devices_ok g" and al: "gr_allocated g \<le> length (gr_nodes g) + length (gr_edges g)"
    using wf by (auto simp: graph_wf_def)
  have core: "core_ok arena g" using ok by (simp add: graph_ok_def)
  let ?D = "in_edges g p \<union> out_edges g p"
  obtain g' where g': "RemoveNode p g = Some g'" "graph_ok arena g'"
    "gr_nodes g' = map (\<lambda>x. if x = p then 0 else x) (gr_nodes g)"
    "gr_edges g' = map (\<lambda>e. if e \<in> ?D then 0 else e) (gr_edges g)" "gr_edge_objs g' = gr_edge_objs g"
    "\<forall>q. q \<noteq> p \<longrightarrow> map_option strip (gr_node_objs g' q) = map_option strip (gr_node_objs g q)"
    "map sp_props (gr_props g') = map sp_props (gr_props g)" "gr_allocated g' = gr_allocated g"
    "gr_device_names g' = gr_device_names g" "gr_device_map g' = gr_device_map g"
    "gr_free_nodes g' = gr_free_nodes g @ [p]" "map_option no_device (gr_node_objs g' p) = Some 0"
    using RemoveNode_ok [OF ok p] by blast
  have same: "abs_node g' q = abs_node g q" "pid g' q = pid g q" if "q \<noteq> p" for q
    using strip_abs [OF g'(6) [rule_format, OF that] g'(7,9)] by simp_all
  have "no_device n = 0 \<or> (\<exists>m. gr_node_objs g q = Some m \<and> no_device m = no_device n)" if "gr_node_objs g' q = Some n" for q n
    using that strip_devices [OF g'(6) [rule_format]] g'(12) by (cases "q = p") auto
  then have "devices_ok g'"
    by (rule devices_frame [OF dev g'(9,10)]) (use g'(11,12) in auto)
  then have wf': "graph_wf arena g'" using g'(2,3,4,8) al by (simp add: graph_wf_def)
  note l = pid_live [OF core p]
  have "fst (abs_graph g') = (fst (abs_graph g))[pid g p := None]"
  proof (rule nth_equalityI)
    fix i assume "i < length (fst (abs_graph g'))"
    then have i: "i < length (gr_nodes g)" by (simp add: abs_graph_def g'(3))
    show "fst (abs_graph g') ! i = (fst (abs_graph g))[pid g p := None] ! i"
    proof (cases "i = pid g p")
      case False
      then have "gr_nodes g ! i \<noteq> p" using pid_index(1) [OF core i] l(3) by auto
      then show ?thesis using False i same(1) by (simp add: abs_graph_def g'(3))
    qed (use l in \<open>simp add: abs_graph_def g'(3)\<close>)
  qed (simp add: abs_graph_def g'(3))
  moreover have "snd (abs_graph g') = forget (touches (pid g p)) (snd (abs_graph g))"
  proof -
    let ?L = "\<lambda>e. if (if e \<in> ?D then 0 else e) = 0 then None else abs_edge g' (if e \<in> ?D then 0 else e)"
      and ?R = "\<lambda>e. case if e = 0 then None else abs_edge g e of Some y \<Rightarrow> if touches (pid g p) y then None else Some y | None \<Rightarrow> None"
    have "?L e = ?R e" if e: "e \<in> set (gr_edges g)" for e
    proof (cases "e = 0")
      case False
      then have el: "e \<in> live_edges g" using e by (simp add: live_edges_def)
      have ends: "edge_src g e \<in> live_nodes g" "edge_dst g e \<in> live_nodes g" using live_edge [OF core el] by metis+
      note ae = edge_ends [OF core el]
      have "e \<in> ?D \<longleftrightarrow> edge_src g e = p \<or> edge_dst g e = p" using el by (auto simp: in_edges_def out_edges_def)
      also have "\<dots> \<longleftrightarrow> touches (pid g p) (the (abs_edge g e))"
        using pid_inject [OF core _ p] ends by (auto simp: ae touches_def)
      finally have D: "e \<in> ?D \<longleftrightarrow> touches (pid g p) (the (abs_edge g e))" .
      have "abs_edge g' e = abs_edge g e" if "e \<notin> ?D"
      proof -
        obtain eo where eo: "gr_edge_objs g e = Some eo" "eo_src eo = edge_src g e" "eo_dst eo = edge_dst g e" using live_edge [OF core el] by metis
        have "edge_src g e \<noteq> p" "edge_dst g e \<noteq> p" using that el by (auto simp: in_edges_def out_edges_def)
        then show ?thesis using eo same(2) by (simp add: abs_edge_def g'(5))
      qed
      then show ?thesis using D ae False by auto
    qed (use live_edge_index in \<open>auto simp: in_edges_def out_edges_def live_edges_def\<close>)
    then have "map ?L (gr_edges g) = map ?R (gr_edges g)" by (intro map_cong refl)
    then show ?thesis by (simp only: abs_graph_def forget_def g'(4) map_map o_def snd_conv)
  qed
  ultimately show ?thesis using g'(1) wf' by (intro exI [of _ g']) (auto simp: prod_eq_iff)
qed

section \<open>Changing properties\<close>

lemma no_props_same:
  fixes a b :: "node_obj option"
  assumes "map_option (no_props_update Map.empty) a = map_option (no_props_update Map.empty) b"
  shows "map_option no_id a = map_option no_id b" "map_option no_class a = map_option no_class b"
    "map_option no_device a = map_option no_device b" "map_option no_in a = map_option no_in b"
    "map_option no_out a = map_option no_out b"
proof -
  have eq: "no_id n = no_id m \<and> no_class n = no_class m \<and> no_device n = no_device m \<and> no_in n = no_in m \<and> no_out n = no_out m"
    if "n\<lparr>no_props := None\<rparr> = m\<lparr>no_props := None\<rparr>" for n m :: node_obj
    using that by (cases n; cases m) simp
  have "map_option no_id a = map_option no_id b \<and> map_option no_class a = map_option no_class b
    \<and> map_option no_device a = map_option no_device b \<and> map_option no_in a = map_option no_in b
    \<and> map_option no_out a = map_option no_out b"
  proof (cases a)
    case None
    then show ?thesis using assms by simp
  next
    case (Some n)
    then obtain m where m: "b = Some m" "m\<lparr>no_props := None\<rparr> = n\<lparr>no_props := None\<rparr>"
      using assms by (metis (no_types, lifting) map_option_eq_Some option.simps(9))
    show ?thesis using eq [OF m(2)] Some m(1) by simp
  qed
  then show "map_option no_id a = map_option no_id b" "map_option no_class a = map_option no_class b"
    "map_option no_device a = map_option no_device b" "map_option no_in a = map_option no_in b"
    "map_option no_out a = map_option no_out b" by blast+
qed

lemma sim_mutate:
  assumes wf: "graph_wf arena g" and p: "p \<in> live_nodes g"
  shows "\<exists>g'. mutate_props p f g = Some g' \<and> graph_wf arena g'
    \<and> abs_graph g' = (upd_at (pid g p) (upd_props f) (fst (abs_graph g)), snd (abs_graph g))
    \<and> gr_nodes g' = gr_nodes g \<and> gr_edges g' = gr_edges g \<and> gr_edge_objs g' = gr_edge_objs g
    \<and> (\<forall>q. map_option (no_props_update Map.empty) (gr_node_objs g' q) = map_option (no_props_update Map.empty) (gr_node_objs g q))
    \<and> (\<forall>q. pid g' q = pid g q)"
proof -
  have ok: "graph_ok arena g" and dev: "devices_ok g" and al: "gr_allocated g \<le> length (gr_nodes g) + length (gr_edges g)"
    using wf by (auto simp: graph_wf_def)
  have core: "core_ok arena g" using ok by (simp add: graph_ok_def)
  obtain g' objs ps where g': "mutate_props p f g = Some g'" "graph_ok arena g'" "props_of g' p = map_option f (props_of g p)"
    "\<forall>q\<in>live_nodes g. q \<noteq> p \<longrightarrow> props_of g' q = props_of g q" "g' = g\<lparr>gr_node_objs := objs, gr_props := ps\<rparr>"
    "\<forall>q. map_option (no_props_update Map.empty) (objs q) = map_option (no_props_update Map.empty) (gr_node_objs g q)"
    using mutate_props_ok [OF ok p, of f] by blast
  have fields: "gr_nodes g' = gr_nodes g" "gr_edges g' = gr_edges g" "gr_edge_objs g' = gr_edge_objs g" "gr_node_objs g' = objs"
    "gr_device_names g' = gr_device_names g" "gr_device_map g' = gr_device_map g" "gr_free_nodes g' = gr_free_nodes g"
    "gr_allocated g' = gr_allocated g"
    by (simp_all add: g'(5))
  have obj: "map_option no_id (gr_node_objs g' q) = map_option no_id (gr_node_objs g q)"
    "map_option no_class (gr_node_objs g' q) = map_option no_class (gr_node_objs g q)"
    "map_option no_device (gr_node_objs g' q) = map_option no_device (gr_node_objs g q)" for q
    using no_props_same(1-3) [OF g'(6) [rule_format, of q]] by (simp_all add: fields(4))
  have ids: "pid g' q = pid g q" for q
    using obj(1) [of q] by (cases "gr_node_objs g q"; cases "gr_node_objs g' q") (auto simp: pid_def)
  have other: "abs_node g' q = abs_node g q" if "q \<in> live_nodes g" "q \<noteq> p" for q
    using abs_node_eq [OF obj(2,3) _ fields(5)] g'(4) that by blast
  have "no_device n = 0 \<or> (\<exists>m. gr_node_objs g q = Some m \<and> no_device m = no_device n)" if "gr_node_objs g' q = Some n" for q n
    using obj(3) [of q] that by (cases "gr_node_objs g q") auto
  then have "devices_ok g'" by (rule devices_frame [OF dev fields(5,6)]) (simp_all add: fields)
  then have wf': "graph_wf arena g'" using g'(2) al by (simp add: graph_wf_def fields)
  obtain n pr where n: "gr_node_objs g p = Some n" "props_of g p = Some pr"
    "abs_node g p = Some \<lparr>an_class = no_class n, an_props = pr, an_device = gr_device_names g ! no_device n\<rparr>"
    "no_device n < length (gr_device_names g)"
    using abs_node_live [OF wf p] by blast
  have "abs_node g' p = map_option (upd_props f) (abs_node g p)"
    using obj(2,3) [of p] n g'(3) by (cases "gr_node_objs g' p") (auto simp: abs_node_def fields load_at_def upd_props_def)
  then have "fst (abs_graph g') = upd_at (pid g p) (upd_props f) (fst (abs_graph g))"
    using nodes_update [OF core p fields(1) other] pid_live [OF core p] by (simp add: upd_at_def abs_graph_def)
  moreover have "snd (abs_graph g') = snd (abs_graph g)" by (rule edges_same [OF core fields(2,3) ids])
  ultimately show ?thesis using g'(1,6) wf' ids fields by (intro exI [of _ g']) (auto simp: prod_eq_iff)
qed

end
