(* ===== verification/Graph_Sim_Nodes.thy ===== *)
theory Graph_Sim_Nodes
  imports Graph_Sim
begin

text \<open>
  New nodes, copies, devices and control edges of class \<open>Graph\<close> (core/graph/graph.cc), seen
  through their ids.
\<close>

section \<open>New nodes\<close>

lemma sim_AllocateNode:
  assumes wf: "graph_wf arena g" and ar: "arena_ok arena" and g1: "g1 = g\<lparr>gr_props := ps\<rparr>"
    and held: "core_held arena i g1" and keep: "\<And>q. q \<in> live_nodes g \<Longrightarrow> props_of g1 q = props_of g q"
  shows "\<exists>p g' n. AllocateNode arena i c fn g1 = Some (p, g') \<and> graph_wf arena g' \<and> p \<noteq> 0 \<and> p \<notin> live_nodes g
    \<and> gr_nodes g' = gr_nodes g @ [p] \<and> gr_node_objs g' p = Some n \<and> no_id n = int (length (gr_nodes g))
    \<and> gr_edges g' = gr_edges g \<and> gr_allocated g' \<le> gr_allocated g + 1
    \<and> (\<forall>q. q \<noteq> p \<longrightarrow> gr_node_objs g' q = gr_node_objs g q)
    \<and> gr_device_names g' = gr_device_names g
    \<and> abs_graph g' = (fst (abs_graph g) @ [Some (fresh_anode (sp_props (ps ! i)) fn [])], snd (abs_graph g))"
proof -
  have ok: "graph_ok arena g" and dev: "devices_ok g" and al: "gr_allocated g \<le> length (gr_nodes g) + length (gr_edges g)"
    using wf by (auto simp: graph_wf_def)
  have core: "core_ok arena g" and "linked g" using ok by (auto simp: graph_ok_def)
  then have link: "linked g1" using same_but_props(7) [OF g1] by simp
  have ln: "live_nodes g1 = live_nodes g" using same_but_props(1) [OF g1] .
  obtain p n g' where g': "AllocateNode arena i c fn g1 = Some (p, g')" "graph_ok arena g'" "p \<noteq> 0" "p \<notin> live_nodes g1"
    "gr_nodes g' = gr_nodes g1 @ [p]" "gr_node_objs g' p = Some n" "no_id n = int (length (gr_nodes g1))" "no_props n = Some i"
    "no_class n = (if fn then NC_FUNCTION_OP else get_node_class_for_op (np_op (sp_props (gr_props g1 ! i))))"
    "\<forall>q. q \<noteq> p \<longrightarrow> gr_node_objs g' q = gr_node_objs g1 q" "gr_edges g' = gr_edges g1" "gr_edge_objs g' = gr_edge_objs g1"
    "gr_props g' = gr_props g1" "gr_allocated g' \<le> gr_allocated g1 + 1" "gr_device_names g' = gr_device_names g1"
    "gr_device_map g' = gr_device_map g1" "set (gr_free_nodes g') \<subseteq> set (gr_free_nodes g1) - {p}"
    "no_device n = 0 \<or> p \<in> set (gr_free_nodes g1) \<and> (\<exists>m. gr_node_objs g1 p = Some m \<and> no_device m = no_device n)"
    using AllocateNode_ok [OF held link ar, of c fn] by blast
  have dev0: "no_device n = 0" using g'(18) dev by (auto simp: g1 devices_ok_def)
  have tab: "gr_device_names g' = gr_device_names g" "gr_device_map g' = gr_device_map g" using g'(15,16) by (simp_all add: g1)
  have old: "gr_node_objs g' q = gr_node_objs g q" if "q \<noteq> p" for q using g'(10) that by (simp add: g1)
  have "devices_ok g'"
  proof (rule devices_frame [OF dev tab])
    show "no_device m = 0 \<or> (\<exists>n. gr_node_objs g q = Some n \<and> no_device n = no_device m)" if "gr_node_objs g' q = Some m" for q m
      using that old g'(6) dev0 by (cases "q = p") auto
  qed (use g'(17) in \<open>auto simp: g1\<close>)
  then have wf': "graph_wf arena g'" using g'(2,5,11,14) al by (simp add: graph_wf_def g1)
  have i: "i < length ps" using held by (simp add: core_held_def props_held_def g1)
  have props: "props_of g' q = props_of g q" if q: "q \<in> live_nodes g" for q
  proof -
    have "q \<noteq> p" using q g'(4) ln by auto
    then have "props_of g' q = props_of g1 q" by (intro props_of_eq) (simp_all add: g'(10,13))
    then show ?thesis using keep [OF q] by simp
  qed
  have nodes: "abs_node g' q = abs_node g q" and ids: "pid g' q = pid g q" if q: "q \<in> live_nodes g" for q
  proof -
    have ne: "q \<noteq> p" using q g'(4) ln by auto
    show "abs_node g' q = abs_node g q" by (rule abs_node_eq) (use old [OF ne] props [OF q] tab in simp_all)
    show "pid g' q = pid g q" using old [OF ne] by (simp add: pid_def)
  qed
  have pp: "props_of g' p = Some (sp_props (ps ! i))" using props_at [OF g'(6,8)] i by (simp add: g'(13) g1)
  have "gr_device_names g ! 0 = []" "0 < length (gr_device_names g)" using dev by (auto simp: devices_ok_def)
  then have "abs_node g' p = Some (fresh_anode (sp_props (ps ! i)) fn [])"
    using g'(6,9) pp dev0 by (simp add: abs_node_def g1 load_at_def fresh_anode_def tab(1))
  then have "fst (abs_graph g') = fst (abs_graph g) @ [Some (fresh_anode (sp_props (ps ! i)) fn [])]"
    using nodes g'(3,5) by (auto simp: abs_graph_def g1 live_nodes_def)
  moreover have "snd (abs_graph g') = snd (abs_graph g)"
    by (rule edges_same [OF core]) (use g'(11,12) ids in \<open>auto simp: g1\<close>)
  ultimately show ?thesis
    using g'(1,3-7,11,14) wf' old tab ln by (intro exI [of _ p] exI [of _ g'] exI [of _ n]) (auto simp: prod_eq_iff g1)
qed

lemma sim_AddNode:
  assumes wf: "graph_wf arena g" and ar: "arena_ok arena" and d: "registry def = Inr (pr, fn)"
  shows "\<exists>p g' n. AddNode arena registry def g = Some (p, ok_status, g') \<and> graph_wf arena g' \<and> p \<noteq> 0
    \<and> gr_nodes g' = gr_nodes g @ [p] \<and> gr_node_objs g' p = Some n \<and> no_id n = int (length (gr_nodes g))
    \<and> gr_edges g' = gr_edges g \<and> (\<forall>q. q \<noteq> p \<longrightarrow> gr_node_objs g' q = gr_node_objs g q)
    \<and> abs_graph g' = (fst (abs_graph g) @ [Some (fresh_anode pr fn [])], snd (abs_graph g))"
proof -
  have core: "core_ok arena g" using wf by (simp add: graph_wf_def graph_ok_def)
  obtain i g1 where m: "make_props pr g = (i, g1)" by (cases "make_props pr g")
  note mp = make_props_held [OF core m]
  have keep: "props_of g1 q = props_of g q" if q: "q \<in> live_nodes g" for q
  proof -
    obtain n j where "gr_node_objs g q = Some n" "no_props n = Some j" "j < length (gr_props g)" using live_props [OF core q] by metis
    then show ?thesis by (simp add: props_of_def node_props_of_def mp(2) nth_append)
  qed
  have last: "sp_props ((gr_props g @ [\<lparr>sp_count = 1, sp_props = pr\<rparr>]) ! i) = pr" by (simp add: mp(3))
  obtain p g' n where r: "AllocateNode arena i None fn g1 = Some (p, g')" "graph_wf arena g'" "p \<noteq> 0"
    "gr_nodes g' = gr_nodes g @ [p]" "gr_node_objs g' p = Some n" "no_id n = int (length (gr_nodes g))" "gr_edges g' = gr_edges g"
    "\<forall>q. q \<noteq> p \<longrightarrow> gr_node_objs g' q = gr_node_objs g q"
    "abs_graph g' = (fst (abs_graph g) @ [Some (fresh_anode pr fn [])], snd (abs_graph g))"
    using sim_AllocateNode [OF wf ar mp(2,1) keep, of None fn] unfolding last by blast
  have "AddNode arena registry def g = Some (p, ok_status, g')" using d m r(1) by (simp add: AddNode_def)
  then show ?thesis using r by blast
qed

section \<open>Devices\<close>

definition table_ok :: "graph_state \<Rightarrow> bool" where
  "table_ok g \<longleftrightarrow>
     (\<exists>ns. gr_device_names g = [] # ns \<and> distinct ns \<and> [] \<notin> set ns \<and> gr_device_map g = zip ns [1..<Suc (length ns)])"

lemma zip_lookup:
  assumes "distinct ns"
  shows "map_of (zip ns [1..<Suc (length ns)]) x = Some i \<longleftrightarrow> 0 < i \<and> i \<le> length ns \<and> ns ! (i - 1) = x"
proof -
  have d: "distinct (map fst (zip ns [1..<Suc (length ns)]))" using assms by simp
  have "map_of (zip ns [1..<Suc (length ns)]) x = Some i \<longleftrightarrow> (x, i) \<in> set (zip ns [1..<Suc (length ns)])"
    using d by (rule map_of_eq_Some_iff)
  also have "\<dots> \<longleftrightarrow> (\<exists>k<length ns. ns ! k = x \<and> Suc k = i)" by (auto simp: set_zip simp del: upt_Suc)
  also have "\<dots> \<longleftrightarrow> 0 < i \<and> i \<le> length ns \<and> ns ! (i - 1) = x" by (cases i) auto
  finally show ?thesis .
qed

lemma zip_grow: "zip (ns @ [x]) [1..<Suc (length (ns @ [x]))] = zip ns [1..<Suc (length ns)] @ [(x, Suc (length ns))]"
proof -
  have "[1..<Suc (length (ns @ [x]))] = [1..<Suc (length ns)] @ [Suc (length ns)]" using upt_Suc_append [of 1 "Suc (length ns)"] by simp
  then show ?thesis by (simp del: upt_Suc)
qed

text \<open>The index of a name reads back the name; the indices given out before stay.\<close>

lemma InternDeviceName_ok:
  assumes tab: "table_ok g" and run: "InternDeviceName name g = (i, g')"
  shows "table_ok g'" "\<exists>m zs. g' = g\<lparr>gr_device_names := gr_device_names g @ zs, gr_device_map := m\<rparr>"
    "i < length (gr_device_names g')" "gr_device_names g' ! i = name"
proof -
  obtain ns where ns: "gr_device_names g = [] # ns" "distinct ns" "[] \<notin> set ns" "gr_device_map g = zip ns [1..<Suc (length ns)]"
    using tab by (auto simp: table_ok_def)
  have same: "\<exists>m zs. g = g\<lparr>gr_device_names := gr_device_names g @ zs, gr_device_map := m\<rparr>"
    by (rule exI [of _ "gr_device_map g"], rule exI [of _ "[]"]) simp
  have "table_ok g' \<and> (\<exists>m zs. g' = g\<lparr>gr_device_names := gr_device_names g @ zs, gr_device_map := m\<rparr>)
    \<and> i < length (gr_device_names g') \<and> gr_device_names g' ! i = name"
  proof (cases "name = []")
    case True
    then have "i = 0" "g' = g" using run by (auto simp: InternDeviceName_def)
    then show ?thesis using tab True same by (simp add: ns(1))
  next
    case ne: False
    show ?thesis
    proof (cases "map_of (gr_device_map g) name")
      case (Some k)
      then have k: "0 < k" "k \<le> length ns" "ns ! (k - 1) = name" using zip_lookup [OF ns(2)] by (auto simp: ns(4) simp del: upt_Suc)
      then have "i = k" "g' = g" using run ne Some by (auto simp: InternDeviceName_def)
      then show ?thesis using tab k same by (simp add: ns(1) nth_Cons')
    next
      case None
      then have new: "name \<notin> set ns"
        using map_of_zip_is_None [of ns "[1..<Suc (length ns)]"] by (simp add: ns(4) del: upt_Suc)
      let ?m = "gr_device_map g @ [(name, Suc (length ns))]"
      have len: "length (gr_device_map g) = length ns" by (simp add: ns(4) del: upt_Suc)
      have r: "i = Suc (length ns)" "g' = g\<lparr>gr_device_names := gr_device_names g @ [name], gr_device_map := ?m\<rparr>"
        using run ne None len by (auto simp: InternDeviceName_def)
      have "table_ok g'"
        unfolding table_ok_def
        by (rule exI [of _ "ns @ [name]"]) (use ns new ne zip_grow [of ns name] in \<open>simp add: r(2) del: upt_Suc\<close>)
      then show ?thesis using r by (auto simp: ns(1))
    qed
  qed
  then show "table_ok g'" "\<exists>m zs. g' = g\<lparr>gr_device_names := gr_device_names g @ zs, gr_device_map := m\<rparr>"
    "i < length (gr_device_names g')" "gr_device_names g' ! i = name" by blast+
qed

text \<open>The device of one node, and the table with it.\<close>

lemma device_write_ok:
  assumes ok: "graph_ok arena g" and n: "gr_node_objs g p = Some n"
    and g': "g' = g\<lparr>gr_node_objs := (gr_node_objs g)(p \<mapsto> n\<lparr>no_device := i\<rparr>), gr_device_names := d, gr_device_map := m\<rparr>"
  shows "graph_ok arena g'"
proof -
  have same: "live_nodes g' = live_nodes g" "live_edges g' = live_edges g" "out_edges g' = out_edges g" "in_edges g' = in_edges g"
    "used_addresses g' = used_addresses g" "edges_ok g' = edges_ok g" "gr_nodes g' = gr_nodes g" "gr_free_nodes g' = gr_free_nodes g"
    "gr_num_nodes g' = gr_num_nodes g" "gr_allocated g' = gr_allocated g" "gr_props g' = gr_props g"
    by (simp_all add: g' live_nodes_def live_edges_def out_edges_def in_edges_def edge_src_def edge_dst_def used_addresses_def
        edges_ok_def fun_eq_iff)
  have sets: "outs g' = outs g" "ins g' = ins g" "sets_ok g' = sets_ok g"
    using n by (auto simp: g' outs_def ins_def sets_ok_def fun_eq_iff)
  have ow: "owners g' = owners g" using n unfolding owners_def same fun_eq_iff by (auto simp: g')
  have ids: "\<exists>m. gr_node_objs g' q = Some m \<and> no_id m = x" if "\<exists>m. gr_node_objs g q = Some m \<and> no_id m = x" for q x
    using that n by (auto simp: g')
  have props: "\<exists>m j. gr_node_objs g' q = Some m \<and> no_props m = Some j \<and> j < x"
    if "\<exists>m j. gr_node_objs g q = Some m \<and> no_props m = Some j \<and> j < x" for q x
    using that n by (auto simp: g')
  have "nodes_ok g'" using ok ids unfolding graph_ok_def core_ok_def nodes_ok_def same by blast
  moreover have "props_ok g'" using ok props unfolding graph_ok_def core_ok_def props_ok_def same ow by blast
  moreover have "linked g'" using ok unfolding graph_ok_def linked_def free_sets_ok_def sets same by blast
  ultimately show ?thesis using ok unfolding graph_ok_def core_ok_def same by blast
qed

lemma sim_set_device:
  assumes wf: "graph_wf arena g" and p: "p \<in> live_nodes g"
  shows "\<exists>g'. set_assigned_device_name p name g = Some g' \<and> graph_wf arena g'
    \<and> abs_graph g' = (upd_at (pid g p) (an_device_update (\<lambda>_. name)) (fst (abs_graph g)), snd (abs_graph g))
    \<and> gr_nodes g' = gr_nodes g \<and> gr_edges g' = gr_edges g \<and> (\<forall>q. pid g' q = pid g q)"
proof -
  have ok: "graph_ok arena g" and dev: "devices_ok g" and al: "gr_allocated g \<le> length (gr_nodes g) + length (gr_edges g)"
    using wf by (auto simp: graph_wf_def)
  have core: "core_ok arena g" using ok by (simp add: graph_ok_def)
  have tab: "table_ok g" using dev by (simp add: devices_ok_def table_ok_def)
  obtain i g1 where run1: "InternDeviceName name g = (i, g1)" by (cases "InternDeviceName name g")
  note intern = InternDeviceName_ok [OF tab run1]
  obtain m zs where g1: "g1 = g\<lparr>gr_device_names := gr_device_names g @ zs, gr_device_map := m\<rparr>" using intern(2) by blast
  obtain n pr where n: "gr_node_objs g p = Some n" "props_of g p = Some pr"
    "abs_node g p = Some \<lparr>an_class = no_class n, an_props = pr, an_device = gr_device_names g ! no_device n\<rparr>"
    "no_device n < length (gr_device_names g)"
    using abs_node_live [OF wf p] by blast
  define h where "h = g\<lparr>gr_node_objs := (gr_node_objs g)(p \<mapsto> n\<lparr>no_device := i\<rparr>),
     gr_device_names := gr_device_names g @ zs, gr_device_map := m\<rparr>"
  have run: "set_assigned_device_name p name g = Some h"
    using run1 n(1) by (simp add: set_assigned_device_name_def g1 put_node_def h_def)
  have okh: "graph_ok arena h" by (rule device_write_ok [OF ok n(1) h_def])
  have objs: "gr_node_objs h q = (if q = p then Some (n\<lparr>no_device := i\<rparr>) else gr_node_objs g q)" for q by (simp add: h_def)
  have len: "i < length (gr_device_names g @ zs)" "(gr_device_names g @ zs) ! i = name" using intern(3,4) by (simp_all add: g1)
  have others: "\<forall>q x. gr_node_objs g q = Some x \<longrightarrow> no_device x < length (gr_device_names g)"
    "\<forall>q\<in>set (gr_free_nodes g). \<forall>x. gr_node_objs g q = Some x \<longrightarrow> no_device x = 0"
    using dev unfolding devices_ok_def by blast+
  have "p \<notin> set (gr_free_nodes g)" using free_not_live [OF core] p by blast
  then have "devices_ok h"
    using intern(1) others len(1) unfolding devices_ok_def table_ok_def objs by (auto simp: h_def g1 trans_less_add1)
  then have wfh: "graph_wf arena h" using okh al by (simp add: graph_wf_def h_def)
  have ids: "pid h q = pid g q" for q using n(1) by (simp add: pid_def objs)
  have props: "props_of h q = props_of g q" for q
    by (intro props_of_eq) (simp_all add: objs n(1), simp add: h_def)
  have other: "abs_node h q = abs_node g q" if q: "q \<in> live_nodes g" "q \<noteq> p" for q
  proof -
    obtain x where x: "gr_node_objs g q = Some x" "no_device x < length (gr_device_names g)" using abs_node_live [OF wf q(1)] by metis
    then show ?thesis using q(2) by (simp add: abs_node_def objs props) (simp add: h_def load_at_def nth_append)
  qed
  have "abs_node h p = map_option (an_device_update (\<lambda>_. name)) (abs_node g p)"
    using n(2,3) len by (simp add: abs_node_def objs props) (simp add: h_def load_at_def)
  moreover have "gr_nodes h = gr_nodes g" by (simp add: h_def)
  ultimately have "fst (abs_graph h) = upd_at (pid g p) (an_device_update (\<lambda>_. name)) (fst (abs_graph g))"
    using nodes_update [OF core p, of h] other pid_live [OF core p] by (simp add: upd_at_def abs_graph_def)
  moreover have "snd (abs_graph h) = snd (abs_graph g)"
    by (rule edges_same [OF core _ _ ids]) (simp_all add: h_def)
  ultimately show ?thesis using run wfh ids by (intro exI [of _ h]) (auto simp: prod_eq_iff h_def)
qed

section \<open>Copies\<close>

lemma upd_at_last: "upd_at (length ns) f (ns @ [x]) = ns @ [map_option f x]"
  by (simp add: upd_at_def)

lemma sim_CopyNode:
  assumes wf: "graph_wf arena g" and ar: "arena_ok arena" and p: "p \<in> live_nodes g"
    and a: "abs_node g p = Some a" and d: "op_defs (np_op (an_props a)) = Some d"
  shows "\<exists>c g'. CopyNode arena op_defs p g = Some (c, g') \<and> graph_wf arena g' \<and> pid g' c = length (gr_nodes g)
    \<and> abs_graph g' = (fst (abs_graph g) @ [Some (copy_anode op_defs a)], snd (abs_graph g))"
proof -
  have ok: "graph_ok arena g" using wf by (simp add: graph_wf_def)
  have core: "core_ok arena g" using ok by (simp add: graph_ok_def)
  obtain n i where n: "gr_node_objs g p = Some n" "no_props n = Some i" "i < length (gr_props g)"
    "node_props_of n g = Some (sp_props (gr_props g ! i))" "props_of g p = Some (sp_props (gr_props g ! i))"
    using live_props [OF core p] by metis
  let ?pr = "sp_props (gr_props g ! i)" and ?dev = "gr_device_names g ! no_device n" and ?fn = "no_class n = NC_FUNCTION_OP"
  have dl: "no_device n < length (gr_device_names g)" using abs_node_live [OF wf p] n(1) by (metis option.inject)
  have av: "a = \<lparr>an_class = no_class n, an_props = ?pr, an_device = ?dev\<rparr>"
    using a n dl by (simp add: abs_node_def load_at_def)
  obtain ps where ps: "share_props i g = g\<lparr>gr_props := ps\<rparr>" "map sp_props ps = map sp_props (gr_props g)"
    using share_props_held(3) [OF core n(3)] by blast
  have keep: "props_of (share_props i g) q = props_of g q" for q
    by (intro props_of_eq) (simp_all add: ps)
  have pri: "sp_props (ps ! i) = ?pr"
    using arg_cong [OF ps(2), of "\<lambda>xs. xs ! i"] arg_cong [OF ps(2), of length] n(3) by simp
  obtain c g1 m where g1: "AllocateNode arena i (Some n) ?fn (share_props i g) = Some (c, g1)" "graph_wf arena g1" "c \<noteq> 0"
    "c \<notin> live_nodes g" "gr_nodes g1 = gr_nodes g @ [c]" "gr_node_objs g1 c = Some m" "no_id m = int (length (gr_nodes g))"
    "gr_edges g1 = gr_edges g"
    "\<forall>q. q \<noteq> c \<longrightarrow> gr_node_objs g1 q = gr_node_objs g q" "gr_device_names g1 = gr_device_names g"
    "abs_graph g1 = (fst (abs_graph g) @ [Some (fresh_anode ?pr ?fn [])], snd (abs_graph g))"
    using sim_AllocateNode [OF wf ar ps(1) share_props_held(1) [OF core n(3)] keep, of "Some n" ?fn] unfolding pri by blast
  have c1: "c \<in> live_nodes g1" "pid g1 c = length (gr_nodes g)" using g1(3,5,6,7) by (auto simp: live_nodes_def pid_def)
  have "p \<noteq> c" using p g1(4) by auto
  then have dev: "assigned_device_name p g1 = Some ?dev" using g1(9,10) n(1) dl by (simp add: assigned_device_name_def load_at_def)
  obtain g2 where g2: "set_assigned_device_name c ?dev g1 = Some g2" "graph_wf arena g2"
    "abs_graph g2 = (upd_at (pid g1 c) (an_device_update (\<lambda>_. ?dev)) (fst (abs_graph g1)), snd (abs_graph g1))"
    "gr_nodes g2 = gr_nodes g1" "\<forall>q. pid g2 q = pid g1 q"
    using sim_set_device [OF g1(2) c1(1), of ?dev] by blast
  have len: "length (fst (abs_graph g)) = length (gr_nodes g)" by (rule lengths)
  have abs2: "abs_graph g2 = (fst (abs_graph g) @ [Some (fresh_anode ?pr ?fn ?dev)], snd (abs_graph g))"
    using g2(3) upd_at_last [of "fst (abs_graph g)"] by (simp add: c1(2) g1(11) len fresh_anode_def)
  have c2: "c \<in> live_nodes g2" using c1(1) g2(4) by (simp add: live_nodes_def)
  have prefix: "CopyNode arena op_defs p g =
      (if d \<noteq> np_op_def ?pr then map_option (Pair c) (mutate_props c (\<lambda>pr. pr\<lparr>np_op_def := d\<rparr>) g2) else Some (c, g2))"
    using n g1(1) dev g2(1) d by (simp add: CopyNode_def av)
  have ca: "copy_anode op_defs a = upd_props (\<lambda>pr. pr\<lparr>np_op_def := d\<rparr>) (fresh_anode ?pr ?fn ?dev)"
    using d by (simp add: copy_anode_def av fresh_anode_def upd_props_def)
  show ?thesis
  proof (cases "d = np_op_def ?pr")
    case True
    then have "copy_anode op_defs a = fresh_anode ?pr ?fn ?dev" unfolding ca by (simp add: upd_props_def fresh_anode_def)
    then show ?thesis using prefix True g2(2,5) abs2 c1(2) by (intro exI [of _ c] exI [of _ g2]) simp
  next
    case False
    obtain g3 where g3: "mutate_props c (\<lambda>pr. pr\<lparr>np_op_def := d\<rparr>) g2 = Some g3" "graph_wf arena g3"
      "abs_graph g3 = (upd_at (pid g2 c) (upd_props (\<lambda>pr. pr\<lparr>np_op_def := d\<rparr>)) (fst (abs_graph g2)), snd (abs_graph g2))"
      "\<forall>q. pid g3 q = pid g2 q"
      using sim_mutate [OF g2(2) c2, of "\<lambda>pr. pr\<lparr>np_op_def := d\<rparr>"] by blast
    have "pid g2 c = length (fst (abs_graph g))" using g2(5) c1(2) len by simp
    then have "abs_graph g3 = (fst (abs_graph g) @ [Some (copy_anode op_defs a)], snd (abs_graph g))"
      using g3(3) upd_at_last [of "fst (abs_graph g)"] by (simp add: abs2 ca)
    then show ?thesis using prefix False g3(1,2,4) g2(5) c1(2) by (intro exI [of _ c] exI [of _ g3]) simp
  qed
qed

end
