(* ===== verification/Graph_Sim_Control.thy ===== *)
theory Graph_Sim_Control
  imports Graph_Sim_Nodes
begin

text \<open>Control edges of class \<open>Graph\<close> (core/graph/graph.cc), seen through the ids.\<close>

lemma node_facts:
  assumes wf: "graph_wf arena g" and p: "p \<in> live_nodes g"
  obtains n pr where "gr_node_objs g p = Some n" "node_props_of n g = Some pr" "props_of g p = Some pr" "node_name p g = Some (np_name pr)"
    "no_id n = int (pid g p)" "is_source_obj n \<longleftrightarrow> pid g p = kSourceId" "is_sink_obj n \<longleftrightarrow> pid g p = kSinkId"
    "an_props (the (fst (abs_graph g) ! pid g p)) = pr" "es_ok (no_in n)" "set (es_elems (no_in n)) = in_edges g p"
proof -
  have core: "core_ok arena g" and link: "linked g" using wf by (auto simp: graph_wf_def graph_ok_def)
  obtain n k where n: "gr_node_objs g p = Some n" "no_id n = int k" using live_node [OF core p] by metis
  obtain i where i: "node_props_of n g = Some (sp_props (gr_props g ! i))" using live_props [OF core p] n(1) by (metis option.inject)
  let ?pr = "sp_props (gr_props g ! i)"
  have pid: "pid g p = k" by (simp add: pid_def n)
  have pr: "props_of g p = Some ?pr" "node_name p g = Some (np_name ?pr)" using n(1) i by (simp_all add: props_of_def node_name_def)
  have "an_props (the (abs_node g p)) = ?pr" by (rule abs_node_live [OF wf p]) (simp add: pr(1))
  have at: "fst (abs_graph g) ! pid g p = abs_node g p" using pid_live [OF core p] by (simp add: abs_graph_def)
  have es: "es_ok (no_in n)" "es_set (no_in n) = in_edges g p" using linkedD [OF link p] n(1) by (auto simp: sets_ok_def ins_def)
  have nid: "no_id n = int (pid g p)" "is_source_obj n \<longleftrightarrow> pid g p = kSourceId" "is_sink_obj n \<longleftrightarrow> pid g p = kSinkId"
    by (simp_all add: n(2) pid is_source_obj_def is_sink_obj_def)
  have an: "an_props (the (fst (abs_graph g) ! pid g p)) = ?pr" using \<open>an_props (the (abs_node g p)) = ?pr\<close> by (simp add: at)
  have ee: "set (es_elems (no_in n)) = in_edges g p" using es_elems_ok(2) [OF es(1)] es(2) by simp
  show ?thesis by (rule that [OF n(1) i pr nid an es(1) ee])
qed

lemma control_edge_exists_ok:
  assumes "core_ok arena g" "set es \<subseteq> live_edges g"
  shows "control_edge_exists p es g =
    Some (\<exists>e\<in>set es. eo_src_output (the (gr_edge_objs g e)) = kControlSlot \<and> edge_src g e = p)"
  using assms(2)
proof (induction es)
  case (Cons e es)
  obtain eo where eo: "gr_edge_objs g e = Some eo" "eo_src eo = edge_src g e" using live_edge [OF assms(1), of e] Cons.prems by auto
  then show ?case using Cons by (auto simp: is_control_def)
qed simp

lemma control_between_iff:
  assumes core: "core_ok arena g" and s: "s \<in> live_nodes g" and d: "d \<in> live_nodes g"
  shows "(\<exists>e\<in>in_edges g d. eo_src_output (the (gr_edge_objs g e)) = kControlSlot \<and> edge_src g e = s)
    \<longleftrightarrow> (\<exists>x\<in>set (snd (abs_graph g)). control_between (pid g s) (pid g d) x)"
proof -
  have "(\<exists>x\<in>set (snd (abs_graph g)). control_between (pid g s) (pid g d) x)
      \<longleftrightarrow> (\<exists>e\<in>live_edges g. control_between (pid g s) (pid g d) (abs_edge g e))"
    by (auto simp: abs_graph_def live_edges_def control_between_def)
  also have "\<dots> \<longleftrightarrow> (\<exists>e\<in>in_edges g d. eo_src_output (the (gr_edge_objs g e)) = kControlSlot \<and> edge_src g e = s)"
  proof -
    have "control_between (pid g s) (pid g d) (abs_edge g e)
        \<longleftrightarrow> edge_src g e = s \<and> edge_dst g e = d \<and> eo_src_output (the (gr_edge_objs g e)) = kControlSlot" if e: "e \<in> live_edges g" for e
    proof -
      have "edge_src g e \<in> live_nodes g" "edge_dst g e \<in> live_nodes g" using live_edge [OF core e] by metis+
      then show ?thesis using pid_inject [OF core _ s] pid_inject [OF core _ d] by (auto simp: edge_ends [OF core e] control_between_def)
    qed
    then show ?thesis by (auto simp: in_edges_def)
  qed
  finally show ?thesis ..
qed

lemma sim_AddControlEdge:
  assumes wf: "graph_wf arena g" and ar: "arena_ok arena" and room: "length (gr_nodes g) + length (gr_edges g) + 1 < max_entries"
    and s: "s \<in> live_nodes g" and d: "d \<in> live_nodes g"
  shows "if \<not> dup \<and> (\<exists>x\<in>set (snd (abs_graph g)). control_between (pid g s) (pid g d) x)
    then AddControlEdge arena s d dup g = Some (0, g)
    else \<exists>e g' eo. AddControlEdge arena s d dup g = Some (e, g') \<and> graph_wf arena g' \<and> e \<noteq> 0
      \<and> gr_edge_objs g' e = Some eo \<and> eo_id eo = int (length (gr_edges g))
      \<and> abs_graph g' = (note_control_input (pid g s) (pid g d) dup (fst (abs_graph g)),
           snd (abs_graph g) @ [Some (pid g s, kControlSlot, pid g d, kControlSlot)])"
proof -
  have core: "core_ok arena g" using wf by (simp add: graph_wf_def graph_ok_def)
  obtain sn sp where sn: "gr_node_objs g s = Some sn" "node_name s g = Some (np_name sp)" "is_source_obj sn \<longleftrightarrow> pid g s = kSourceId"
    "an_props (the (fst (abs_graph g) ! pid g s)) = sp"
    using node_facts [OF wf s] by metis
  obtain dn dp where dn: "gr_node_objs g d = Some dn" "node_props_of dn g = Some dp" "is_sink_obj dn \<longleftrightarrow> pid g d = kSinkId"
    "an_props (the (fst (abs_graph g) ! pid g d)) = dp" "set (es_elems (no_in dn)) = in_edges g d"
    using node_facts [OF wf d] by metis
  let ?ex = "\<exists>x\<in>set (snd (abs_graph g)). control_between (pid g s) (pid g d) x"
  have sub: "set (es_elems (no_in dn)) \<subseteq> live_edges g" by (auto simp: dn(5) in_edges_def)
  have ex: "control_edge_exists s (es_elems (no_in dn)) g = Some ?ex"
    using control_edge_exists_ok [OF core sub, of s] control_between_iff [OF core s d] by (simp add: dn(5))
  show ?thesis
  proof (cases "\<not> dup \<and> ?ex")
    case True
    then show ?thesis using sn(1) dn(1) ex by (simp add: AddControlEdge_def)
  next
    case False
    let ?add = "\<not> is_source_obj sn \<and> \<not> is_sink_obj dn \<and> \<not> dup \<and> CHR ''^'' # np_name sp \<notin> set (np_inputs dp)"
    let ?step = "if ?add then add_input d (CHR ''^'' # np_name sp) g else Some g"
    have "\<exists>g1. ?step = Some g1 \<and> graph_wf arena g1 \<and> gr_nodes g1 = gr_nodes g \<and> gr_edges g1 = gr_edges g
      \<and> (\<forall>q. pid g1 q = pid g q)
      \<and> abs_graph g1 = (note_control_input (pid g s) (pid g d) dup (fst (abs_graph g)), snd (abs_graph g))"
    proof (cases ?add)
      case True
      obtain g1 where "mutate_props d (\<lambda>pr. pr\<lparr>np_inputs := np_inputs pr @ [CHR ''^'' # np_name sp]\<rparr>) g = Some g1" "graph_wf arena g1"
        "abs_graph g1 = (upd_at (pid g d) (upd_props (\<lambda>pr. pr\<lparr>np_inputs := np_inputs pr @ [CHR ''^'' # np_name sp]\<rparr>)) (fst (abs_graph g)),
           snd (abs_graph g))"
        "gr_nodes g1 = gr_nodes g" "gr_edges g1 = gr_edges g" "\<forall>q. pid g1 q = pid g q"
        using sim_mutate [OF wf d, of "\<lambda>pr. pr\<lparr>np_inputs := np_inputs pr @ [CHR ''^'' # np_name sp]\<rparr>"] by blast
      then show ?thesis using True sn dn by (intro exI [of _ g1]) (simp add: add_input_def note_control_input_def caret_def)
    next
      case False
      then have "note_control_input (pid g s) (pid g d) dup (fst (abs_graph g)) = fst (abs_graph g)"
        using sn dn by (auto simp: note_control_input_def caret_def)
      then show ?thesis using False wf by (intro exI [of _ g]) (auto simp: prod_eq_iff)
    qed
    then obtain g1 where g1: "?step = Some g1" "graph_wf arena g1" "gr_nodes g1 = gr_nodes g" "gr_edges g1 = gr_edges g"
      "\<forall>q. pid g1 q = pid g q"
      "abs_graph g1 = (note_control_input (pid g s) (pid g d) dup (fst (abs_graph g)), snd (abs_graph g))" by blast
    have live1: "s \<in> live_nodes g1" "d \<in> live_nodes g1" using s d g1(3) by (simp_all add: live_nodes_def)
    have room1: "length (gr_nodes g1) + length (gr_edges g1) + 1 < max_entries" using room g1(3,4) by simp
    obtain e g' eo where g': "AddEdge arena s kControlSlot d kControlSlot g1 = Some (e, g')" "graph_wf arena g'" "e \<noteq> 0"
      "gr_edge_objs g' e = Some eo" "eo_id eo = int (length (gr_edges g1))"
      "abs_graph g' = (fst (abs_graph g1), snd (abs_graph g1) @ [Some (pid g1 s, kControlSlot, pid g1 d, kControlSlot)])"
      using sim_AddEdge [OF g1(2) ar room1 live1, of kControlSlot kControlSlot] by blast
    have "AddControlEdge arena s d dup g = Some (e, g')"
      using False ex sn(1,2) dn(1,2) g1(1) g'(1) by (auto simp: AddControlEdge_def split: if_splits)
    then show ?thesis using False g'(2-6) g1(4,5,6) by (intro if_not_P [THEN iffD2]) auto
  qed
qed

lemma sim_RemoveControlEdge:
  assumes wf: "graph_wf arena g" and k: "k < length (gr_edges g)" "FindEdgeId k g \<in> live_edges g"
    and e: "snd (abs_graph g) ! k = Some (i, x, j, y)"
  shows "\<exists>g'. RemoveControlEdge (FindEdgeId k g) g = Some g' \<and> graph_wf arena g'
    \<and> abs_graph g' = (forget_control_input i j (fst (abs_graph g)), (snd (abs_graph g))[k := None])"
proof -
  have core: "core_ok arena g" using wf by (simp add: graph_wf_def graph_ok_def)
  let ?e = "FindEdgeId k g"
  obtain eo where eo: "gr_edge_objs g ?e = Some eo" "eo_src eo = edge_src g ?e" "eo_dst eo = edge_dst g ?e"
    "edge_src g ?e \<in> live_nodes g" "edge_dst g ?e \<in> live_nodes g"
    using live_edge [OF core k(2)] by metis
  define s d where "s = edge_src g ?e" and "d = edge_dst g ?e"
  have live: "s \<in> live_nodes g" "d \<in> live_nodes g" using eo(4,5) by (simp_all add: s_def d_def)
  have ij: "i = pid g s" "j = pid g d"
    using e k edge_ends [OF core k(2)] by (auto simp: abs_graph_def FindEdgeId_def live_edges_def s_def d_def)
  obtain sn sp where sn: "gr_node_objs g s = Some sn" "node_name s g = Some (np_name sp)" "is_source_obj sn \<longleftrightarrow> pid g s = kSourceId"
    "an_props (the (fst (abs_graph g) ! pid g s)) = sp"
    using node_facts [OF wf live(1)] by metis
  obtain dn where dn: "gr_node_objs g d = Some dn" "is_sink_obj dn \<longleftrightarrow> pid g d = kSinkId" using node_facts [OF wf live(2)] by metis
  let ?f = "\<lambda>pr. pr\<lparr>np_inputs := remove1 (CHR ''^'' # np_name sp) (np_inputs pr)\<rparr>"
  let ?step = "if \<not> is_source_obj sn \<and> \<not> is_sink_obj dn then mutate_props d ?f g else Some g"
  have "\<exists>g1. ?step = Some g1 \<and> graph_wf arena g1 \<and> gr_edges g1 = gr_edges g
      \<and> abs_graph g1 = (forget_control_input i j (fst (abs_graph g)), snd (abs_graph g))"
  proof (cases "\<not> is_source_obj sn \<and> \<not> is_sink_obj dn")
    case True
    obtain g1 where "mutate_props d ?f g = Some g1" "graph_wf arena g1"
      "abs_graph g1 = (upd_at (pid g d) (upd_props ?f) (fst (abs_graph g)), snd (abs_graph g))" "gr_edges g1 = gr_edges g"
      using sim_mutate [OF wf live(2), of ?f] by blast
    then show ?thesis using True sn dn by (intro exI [of _ g1]) (simp add: forget_control_input_def caret_def ij)
  next
    case False
    then have "forget_control_input i j (fst (abs_graph g)) = fst (abs_graph g)" using sn dn by (auto simp: forget_control_input_def ij)
    then show ?thesis using False wf by (intro exI [of _ g]) (auto simp: prod_eq_iff)
  qed
  then obtain g1 where g1: "?step = Some g1" "graph_wf arena g1" "gr_edges g1 = gr_edges g"
    "abs_graph g1 = (forget_control_input i j (fst (abs_graph g)), snd (abs_graph g))" by blast
  have k1: "k < length (gr_edges g1)" "FindEdgeId k g1 = ?e" "FindEdgeId k g1 \<in> live_edges g1"
    using k g1(3) by (simp_all add: FindEdgeId_def live_edges_def)
  obtain g2 where g2: "RemoveEdge ?e g1 = Some g2" "graph_wf arena g2" "abs_graph g2 = (fst (abs_graph g1), (snd (abs_graph g1))[k := None])"
    using sim_RemoveEdge [OF g1(2) k1(1,3)] k1(2) by auto
  have "RemoveControlEdge ?e g = Some g2"
    using eo(1-3) sn(1,2) dn(1) g1(1) g2(1) by (auto simp: RemoveControlEdge_def s_def d_def split: if_splits)
  then show ?thesis using g2(2,3) g1(4) by (intro exI [of _ g2]) simp
qed

section \<open>Every operation\<close>

lemma graph_step_ok:
  assumes ar: "arena_ok arena" and wf: "graph_wf arena g" and pre: "graph_pre op_defs (abs_graph g) x"
  shows "(abs_graph (fst (graph_step arena op_defs g x)), snd (graph_step arena op_defs g x)) = agraph_step op_defs (abs_graph g) x
    \<and> graph_wf arena (fst (graph_step arena op_defs g x))"
proof -
  obtain ns es where a: "abs_graph g = (ns, es)" by (cases "abs_graph g")
  have room: "length (gr_nodes g) + length (gr_edges g) + 1 < max_entries" using pre lengths [of g] by (simp add: graph_pre_def a)
  have ln: "length ns = length (gr_nodes g)" and le: "length es = length (gr_edges g)" using lengths [of g] by (simp_all add: a)
  note an = alive_node [OF wf, unfolded a fst_conv] and ae = alive_edge [OF wf, unfolded a snd_conv]
  have stepI: "(abs_graph (fst (graph_step arena op_defs g x)), snd (graph_step arena op_defs g x)) = agraph_step op_defs (abs_graph g) x
      \<and> graph_wf arena (fst (graph_step arena op_defs g x))"
    if "graph_do arena op_defs x g = Some (r, g')" "graph_wf arena g'" "agraph_step op_defs (ns, es) x = (abs_graph g', r)" for r g'
    using that by (simp add: graph_step_def a)
  note sim_mut = sim_mutate [OF wf, unfolded a fst_conv snd_conv]
  show ?thesis
  proof (cases x)
    case (Add_node def)
    show ?thesis
    proof (cases def)
      case (Inl s)
      show ?thesis
        by (rule stepI [of "Failed s" g]) (simp_all add: Add_node Inl graph_do_def AddNode_def agraph_step_def a wf)
    next
      case (Inr b)
      then obtain pr fn where b: "def = Inr (pr, fn)" by (cases b) auto
      then have d: "id def = Inr (pr, fn)" by simp
      obtain p g' n where "AddNode arena id def g = Some (p, ok_status, g')" "graph_wf arena g'" "p \<noteq> 0"
        "gr_node_objs g' p = Some n" "no_id n = int (length (gr_nodes g))"
        "abs_graph g' = (ns @ [Some (fresh_anode pr fn [])], es)"
        using sim_AddNode [OF wf ar, where registry = id, OF d] unfolding a fst_conv snd_conv by blast
      then show ?thesis
        by (intro stepI [of "Node_id (length ns)" g']) (simp_all add: Add_node b graph_do_def agraph_step_def pid_def ln)
    qed
  next
    case (Copy_node i)
    then have al: "alive ns i" and od: "op_defs (np_op (an_props (the (ns ! i)))) \<noteq> None" using pre by (simp_all add: graph_pre_def a)
    obtain b where b: "ns ! i = Some b" "abs_node g (FindNodeId i g) = Some b" using al an(4) [OF al] by (auto simp: alive_def)
    then obtain d where "op_defs (np_op (an_props b)) = Some d" using od by auto
    then obtain c g' where "CopyNode arena op_defs (FindNodeId i g) g = Some (c, g')" "graph_wf arena g'" "pid g' c = length (gr_nodes g)"
      "abs_graph g' = (ns @ [Some (copy_anode op_defs b)], es)"
      using sim_CopyNode [OF wf ar an(1) [OF al] b(2)] unfolding a fst_conv snd_conv by blast
    then show ?thesis
      by (intro stepI [of "Node_id (length ns)" g']) (simp_all add: Copy_node graph_do_def agraph_step_def b ln)
  next
    case (Remove_node i)
    then have al: "alive ns i" using pre by (simp add: graph_pre_def a)
    obtain g' where "RemoveNode (FindNodeId i g) g = Some g'" "graph_wf arena g'" "abs_graph g' = (ns[i := None], forget (touches i) es)"
      using sim_RemoveNode [OF wf an(1) [OF al]] unfolding a fst_conv snd_conv an(2) [OF al] by blast
    then show ?thesis by (intro stepI [of Nothing g']) (simp_all add: Remove_node graph_do_def agraph_step_def)
  next
    case (Set_name i name)
    then have al: "alive ns i" using pre by (simp add: graph_pre_def a)
    obtain g' where "mutate_props (FindNodeId i g) (\<lambda>pr. pr\<lparr>np_name := name\<rparr>) g = Some g'" "graph_wf arena g'"
      "abs_graph g' = (upd_at i (upd_props (\<lambda>pr. pr\<lparr>np_name := name\<rparr>)) ns, es)"
      using sim_mut [OF an(1) [OF al], of "\<lambda>pr. pr\<lparr>np_name := name\<rparr>"] unfolding an(2) [OF al] by blast
    then show ?thesis by (intro stepI [of Nothing g']) (simp_all add: Set_name graph_do_def agraph_step_def set_name_def)
  next
    case (Clear_attr i name)
    then have al: "alive ns i" using pre by (simp add: graph_pre_def a)
    let ?f = "\<lambda>pr. pr\<lparr>np_attrs := filter (\<lambda>(k, v). k \<noteq> name) (np_attrs pr)\<rparr>"
    obtain g' where "mutate_props (FindNodeId i g) ?f g = Some g'" "graph_wf arena g'" "abs_graph g' = (upd_at i (upd_props ?f) ns, es)"
      using sim_mut [OF an(1) [OF al], of ?f] unfolding an(2) [OF al] by blast
    then show ?thesis by (intro stepI [of Nothing g']) (simp_all add: Clear_attr graph_do_def agraph_step_def ClearAttr_def)
  next
    case (Set_device i name)
    then have al: "alive ns i" using pre by (simp add: graph_pre_def a)
    obtain g' where "set_assigned_device_name (FindNodeId i g) name g = Some g'" "graph_wf arena g'"
      "abs_graph g' = (upd_at i (an_device_update (\<lambda>_. name)) ns, es)"
      using sim_set_device [OF wf an(1) [OF al], of name] unfolding a fst_conv snd_conv an(2) [OF al] by blast
    then show ?thesis by (intro stepI [of Nothing g']) (simp_all add: Set_device graph_do_def agraph_step_def)
  next
    case (Add_edge s o1 d o2)
    then have al: "alive ns s" "alive ns d" using pre by (simp_all add: graph_pre_def a)
    obtain e g' eo where "AddEdge arena (FindNodeId s g) o1 (FindNodeId d g) o2 g = Some (e, g')" "graph_wf arena g'"
      "gr_edge_objs g' e = Some eo" "eo_id eo = int (length (gr_edges g))" "abs_graph g' = (ns, es @ [Some (s, o1, d, o2)])"
      using sim_AddEdge [OF wf ar room an(1) [OF al(1)] an(1) [OF al(2)], of o1 o2] unfolding a fst_conv snd_conv an(2) [OF al(1)] an(2) [OF al(2)]
      by blast
    then show ?thesis by (intro stepI [of "Edge_id (length es)" g']) (simp_all add: Add_edge graph_do_def agraph_step_def le)
  next
    case (Remove_edge k)
    then have al: "alive es k" using pre by (simp add: graph_pre_def a)
    obtain g' where "RemoveEdge (FindEdgeId k g) g = Some g'" "graph_wf arena g'" "abs_graph g' = (ns, es[k := None])"
      using sim_RemoveEdge [OF wf ae(2,1) [OF al]] unfolding a fst_conv snd_conv by blast
    then show ?thesis by (intro stepI [of Nothing g']) (simp_all add: Remove_edge graph_do_def agraph_step_def)
  next
    case (Add_control_edge s d dup)
    then have al: "alive ns s" "alive ns d" using pre by (simp_all add: graph_pre_def a)
    note ac = sim_AddControlEdge [OF wf ar room an(1) [OF al(1)] an(1) [OF al(2)], of dup,
        unfolded a fst_conv snd_conv an(2) [OF al(1)] an(2) [OF al(2)]]
    show ?thesis
    proof (cases "\<not> dup \<and> (\<exists>x\<in>set es. control_between s d x)")
      case True
      then have "AddControlEdge arena (FindNodeId s g) (FindNodeId d g) dup g = Some (0, g)" using ac by simp
      then show ?thesis using True wf by (intro stepI [of Nothing g]) (simp_all add: Add_control_edge graph_do_def agraph_step_def a)
    next
      case False
      then obtain e g' eo where "AddControlEdge arena (FindNodeId s g) (FindNodeId d g) dup g = Some (e, g')" "graph_wf arena g'" "e \<noteq> 0"
        "gr_edge_objs g' e = Some eo" "eo_id eo = int (length (gr_edges g))"
        "abs_graph g' = (note_control_input s d dup ns, es @ [Some (s, kControlSlot, d, kControlSlot)])"
        using ac by (metis (no_types, lifting))
      then show ?thesis
        by (intro stepI [of "Edge_id (length es)" g']) (use False in \<open>simp_all add: Add_control_edge graph_do_def agraph_step_def le\<close>)
    qed
  next
    case (Remove_control_edge k)
    then have al: "alive es k" using pre by (simp add: graph_pre_def a)
    then obtain i y j z where e: "es ! k = Some (i, y, j, z)" by (auto simp: alive_def)
    obtain g' where "RemoveControlEdge (FindEdgeId k g) g = Some g'" "graph_wf arena g'"
      "abs_graph g' = (forget_control_input i j ns, es[k := None])"
      using sim_RemoveControlEdge [OF wf ae(2,1) [OF al], of i y j z] e unfolding a fst_conv snd_conv by blast
    then show ?thesis by (intro stepI [of Nothing g']) (simp_all add: Remove_control_edge graph_do_def agraph_step_def e)
  qed
qed

end
