(* ===== verification/Graph_Props.thy ===== *)
theory Graph_Props
  imports Graph_Sim_Control "HOL-Library.Multiset"
begin

text \<open>
  Class \<open>Graph\<close> (core/graph/graph.cc) from its constructor on: it does what the abstract graph
  of \<open>Graph_Spec\<close> does, and the graph that the executor sees is the abstract one.
\<close>

section \<open>Histories\<close>

interpretation graphs: simulation abs_graph "graph_step arena op_defs" "agraph_step op_defs"
  "\<lambda>g. arena_ok arena \<and> graph_wf arena g" "graph_pre op_defs" for arena op_defs
  by unfold_locales (use graph_step_ok in blast)+

definition first_graph :: "node_props \<times> bool \<Rightarrow> node_props \<times> bool \<Rightarrow> agraph" where
  "first_graph source sink =
     ([Some (fresh_anode (fst source) (snd source) []), Some (fresh_anode (fst sink) (snd sink) [])],
      [Some (kSourceId, kControlSlot, kSinkId, kControlSlot)])"

lemma empty_graph_wf: "graph_wf arena empty_graph" "abs_graph empty_graph = ([], [])"
  by (simp_all add: graph_wf_def graph_ok_def core_ok_def nodes_ok_def edges_ok_def props_ok_def used_addresses_def linked_def
      free_sets_ok_def devices_ok_def live_nodes_def live_edges_def empty_graph_def abs_graph_def)

lemma new_graph_ok:
  assumes ar: "arena_ok arena" and reg: "registry (''_SOURCE'', ''NoOp'') = Inr source" "registry (''_SINK'', ''NoOp'') = Inr sink"
  shows "\<exists>g. new_graph arena registry = Some g \<and> graph_wf arena g \<and> abs_graph g = first_graph source sink"
proof -
  obtain p0 f0 p1 f1 where pf: "source = (p0, f0)" "sink = (p1, f1)" by (cases source; cases sink)
  obtain s g1 sn where g1: "AddNode arena registry (''_SOURCE'', ''NoOp'') empty_graph = Some (s, ok_status, g1)" "graph_wf arena g1" "s \<noteq> 0"
    "gr_nodes g1 = gr_nodes empty_graph @ [s]" "gr_node_objs g1 s = Some sn" "no_id sn = int (length (gr_nodes empty_graph))"
    "gr_edges g1 = gr_edges empty_graph"
    "abs_graph g1 = (fst (abs_graph empty_graph) @ [Some (fresh_anode p0 f0 [])], snd (abs_graph empty_graph))"
    using sim_AddNode [OF empty_graph_wf(1) ar, of registry "(''_SOURCE'', ''NoOp'')" p0 f0] reg(1) pf by blast
  obtain t g2 kn where g2: "AddNode arena registry (''_SINK'', ''NoOp'') g1 = Some (t, ok_status, g2)" "graph_wf arena g2" "t \<noteq> 0"
    "gr_nodes g2 = gr_nodes g1 @ [t]" "gr_node_objs g2 t = Some kn" "no_id kn = int (length (gr_nodes g1))" "gr_edges g2 = gr_edges g1"
    "\<forall>q. q \<noteq> t \<longrightarrow> gr_node_objs g2 q = gr_node_objs g1 q"
    "abs_graph g2 = (fst (abs_graph g1) @ [Some (fresh_anode p1 f1 [])], snd (abs_graph g1))"
    using sim_AddNode [OF g1(2) ar, of registry "(''_SINK'', ''NoOp'')" p1 f1] reg(2) pf by blast
  have ids: "no_id sn = 0" "no_id kn = 1" using g1(4,6) g2(6) by (simp_all add: empty_graph_def)
  have live: "s \<in> live_nodes g2" "t \<in> live_nodes g2" using g1(3,4) g2(3,4) by (auto simp: live_nodes_def)
  have core: "core_ok arena g2" using g2(2) by (simp add: graph_wf_def graph_ok_def)
  have n2: "gr_nodes g2 = [s, t]" using g1(4) g2(4) by (simp add: empty_graph_def)
  have pid: "pid g2 s = 0" "pid g2 t = 1"
    using pid_index(1) [OF core, of 0] pid_index(1) [OF core, of 1] g1(3) g2(3) by (simp_all add: n2)
  have room: "length (gr_nodes g2) + length (gr_edges g2) + 1 < max_entries"
    using g1(7) g2(7) by (simp add: n2 empty_graph_def max_entries_def)
  have es: "snd (abs_graph g2) = []" "fst (abs_graph g2) = [Some (fresh_anode p0 f0 []), Some (fresh_anode p1 f1 [])]"
    using g1(8) g2(9) by (simp_all add: empty_graph_wf(2))
  obtain e g3 where g3: "AddControlEdge arena s t False g2 = Some (e, g3)" "graph_wf arena g3"
    "abs_graph g3 = (note_control_input (pid g2 s) (pid g2 t) False (fst (abs_graph g2)),
       snd (abs_graph g2) @ [Some (pid g2 s, kControlSlot, pid g2 t, kControlSlot)])"
    using sim_AddControlEdge [OF g2(2) ar room live, of False] by (auto simp: es(1))
  have "new_graph arena registry = Some g3"
    using g1(1,5) g2(1,5) g3(1) ids by (simp add: new_graph_def is_source_obj_def is_sink_obj_def kSourceId_def kSinkId_def status_ok_def)
  moreover have "abs_graph g3 = first_graph source sink"
    using g3(3) by (simp add: pid es pf first_graph_def note_control_input_def kSourceId_def kSinkId_def)
  ultimately show ?thesis using g3(2) by blast
qed

lemma no_crash: "graph_pre op_defs a x \<Longrightarrow> snd (agraph_step op_defs a x) \<noteq> Crash"
  by (cases a; cases x) (auto simp: graph_pre_def agraph_step_def alive_def split: sum.splits)

lemma no_crash_run:
  "run_ok (agraph_step op_defs) (graph_pre op_defs) a xs \<Longrightarrow> Crash \<notin> set (snd (run (agraph_step op_defs) a xs))"
proof (induction xs arbitrary: a)
  case (Cons x xs)
  obtain b r where s: "agraph_step op_defs a x = (b, r)" by (cases "agraph_step op_defs a x")
  have "r \<noteq> Crash" using no_crash [of op_defs a x] Cons.prems by (simp add: s)
  then show ?case using Cons.IH [of b] Cons.prems by (auto simp: s Let_def split: prod.splits)
qed simp

lemma graph_history:
  assumes ar: "arena_ok arena" and reg: "registry (''_SOURCE'', ''NoOp'') = Inr source" "registry (''_SINK'', ''NoOp'') = Inr sink"
    and ok: "run_ok (agraph_step op_defs) (graph_pre op_defs) (first_graph source sink) xs"
  obtains g0 g where "new_graph arena registry = Some g0" "run (graph_step arena op_defs) g0 xs =
      (g, snd (run (agraph_step op_defs) (first_graph source sink) xs))"
    "abs_graph g = fst (run (agraph_step op_defs) (first_graph source sink) xs)" "graph_wf arena g"
proof -
  obtain g0 where g0: "new_graph arena registry = Some g0" "graph_wf arena g0" "abs_graph g0 = first_graph source sink"
    using new_graph_ok [OF ar reg] by blast
  obtain g rs where g: "run (graph_step arena op_defs) g0 xs = (g, rs)" by (cases "run (graph_step arena op_defs) g0 xs")
  have "(abs_graph g, rs) = run (agraph_step op_defs) (first_graph source sink) xs \<and> arena_ok arena \<and> graph_wf arena g"
    using graphs.sim_run [of arena g0 op_defs xs] ar g0(2,3) ok g by simp
  then show ?thesis using that [OF g0(1)] g by (metis fst_conv snd_conv)
qed

text \<open>
  C5: A graph is what its operations made of it. From the constructor on, every history of
  operations on ids that exist fails no \<open>CHECK\<close>, gives the ids and errors that the abstract
  graph gives, and leaves the same nodes, properties, classes, devices and edges under the same
  ids: the reuse of node and edge objects, the sharing of properties between copies, the table
  of device names and the two forms of an edge set do not show.
\<close>

theorem graph_refines:
  assumes "arena_ok arena" "registry (''_SOURCE'', ''NoOp'') = Inr source" "registry (''_SINK'', ''NoOp'') = Inr sink"
    "run_ok (agraph_step op_defs) (graph_pre op_defs) (first_graph source sink) xs"
  shows "\<exists>g0 g rs. new_graph arena registry = Some g0 \<and> run (graph_step arena op_defs) g0 xs = (g, rs) \<and> Crash \<notin> set rs
    \<and> (abs_graph g, rs) = run (agraph_step op_defs) (first_graph source sink) xs"
proof -
  obtain g0 g where g: "new_graph arena registry = Some g0" "run (graph_step arena op_defs) g0 xs =
      (g, snd (run (agraph_step op_defs) (first_graph source sink) xs))"
    "abs_graph g = fst (run (agraph_step op_defs) (first_graph source sink) xs)"
    using graph_history [OF assms] by blast
  then show ?thesis using no_crash_run [OF assms(4)] by (metis prod.collapse)
qed

text \<open>
  A history with a copy: the name of the copy and the name of the original part, removed nodes
  leave their ids, and the object of the removed node is used again.
\<close>

definition sample_props :: "string \<Rightarrow> node_props" where
  "sample_props name = \<lparr>np_op_def = 7, np_name = name, np_op = ''NoOp'', np_inputs = [], np_input_types = [], np_output_types = [],
     np_attrs = [], np_allows_uninitialized = False\<rparr>"

definition sample_registry :: "string \<times> string \<Rightarrow> status + node_props \<times> bool" where
  "sample_registry def = Inr (sample_props (fst def), False)"

definition sample_ops :: "graph_op list" where
  "sample_ops = [Add_node (Inr (sample_props ''a'', False)), Copy_node 2, Set_name 3 ''b'', Add_control_edge 2 3 False,
     Add_control_edge 2 3 False, Remove_node 2, Add_node (Inr (sample_props ''c'', False)), Add_edge 0 (- 1) 4 (- 1)]"

lemma class_NoOp: "get_node_class_for_op ''NoOp'' = NC_OTHER"
  by (simp add: get_node_class_for_op_def kNodeClassTable_def ref_class_def)

lemma sample_replies:
  "snd (run (agraph_step (\<lambda>_. Some 7)) (first_graph (sample_props ''_SOURCE'', False) (sample_props ''_SINK'', False)) sample_ops)
    = [Node_id 2, Node_id 3, Nothing, Edge_id 1, Nothing, Nothing, Node_id 4, Edge_id 2]"
  "run_ok (agraph_step (\<lambda>_. Some 7)) (graph_pre (\<lambda>_. Some 7))
     (first_graph (sample_props ''_SOURCE'', False) (sample_props ''_SINK'', False)) sample_ops"
  by (simp_all add: sample_ops_def first_graph_def agraph_step_def graph_pre_def fresh_anode_def copy_anode_def sample_props_def
      upd_at_def upd_props_def alive_def note_control_input_def caret_def control_between_def forget_def touches_def max_entries_def
      kControlSlot_def kSourceId_def kSinkId_def class_NoOp)

lemma graph_refines_witness:
  "\<exists>g0 g. new_graph Suc sample_registry = Some g0 \<and> run (graph_step Suc (\<lambda>_. Some 7)) g0 sample_ops
     = (g, [Node_id 2, Node_id 3, Nothing, Edge_id 1, Nothing, Nothing, Node_id 4, Edge_id 2])"
proof -
  have ar: "arena_ok Suc" by (simp add: arena_ok_def)
  have reg: "sample_registry (''_SOURCE'', ''NoOp'') = Inr (sample_props ''_SOURCE'', False)"
    "sample_registry (''_SINK'', ''NoOp'') = Inr (sample_props ''_SINK'', False)" by (simp_all add: sample_registry_def)
  show ?thesis using graph_refines [OF ar reg sample_replies(2)] sample_replies(1) by (metis snd_conv)
qed

section \<open>What the executor sees\<close>

text \<open>The edges into and out of a node, in the form of \<open>Graph_Model\<close>.\<close>

definition as_edge :: "nat \<times> int \<times> nat \<times> int \<Rightarrow> edge" where
  "as_edge e = (case e of (s, x, d, y) \<Rightarrow> \<lparr>e_src = s, e_dst = d, e_src_output = x, e_dst_input = y\<rparr>)"

definition edges_of :: "agraph \<Rightarrow> edge list" where
  "edges_of a = map as_edge (List.map_filter id (snd a))"

definition shows_node :: "agraph \<Rightarrow> nat \<Rightarrow> gnode \<Rightarrow> bool" where
  "shows_node a i n \<longleftrightarrow> (\<exists>x. fst a ! i = Some x \<and> n_id n = i \<and> n_class n = an_class x \<and> n_name n = np_name (an_props x)
     \<and> n_op n = np_op (an_props x) \<and> n_input_types n = np_input_types (an_props x) \<and> n_output_types n = np_output_types (an_props x)
     \<and> n_attrs n = np_attrs (an_props x) \<and> n_allows_uninitialized_input n = np_allows_uninitialized (an_props x)
     \<and> mset (n_in_edges n) = mset (filter (\<lambda>e. e_dst e = i) (edges_of a))
     \<and> mset (n_out_edges n) = mset (filter (\<lambda>e. e_src e = i) (edges_of a)))"

lemma live_edges_distinct:
  assumes "core_ok arena g"
  shows "distinct (filter (\<lambda>e. e \<noteq> 0) (gr_edges g))"
proof -
  have "distinct (filter (\<lambda>e. e \<noteq> 0) xs)" if "\<And>i j. i < length xs \<Longrightarrow> j < length xs \<Longrightarrow> xs ! i = xs ! j \<Longrightarrow> xs ! i \<noteq> 0 \<Longrightarrow> i = j" for xs :: "nat list"
    using that
  proof (induction xs)
    case (Cons x xs)
    have "i = j" if "i < length xs" "j < length xs" "xs ! i = xs ! j" "xs ! i \<noteq> 0" for i j
      using Cons.prems [of "Suc i" "Suc j"] that by simp
    then have "distinct (filter (\<lambda>e. e \<noteq> 0) xs)" by (rule Cons.IH)
    moreover have "x \<notin> set xs" if "x \<noteq> 0"
    proof
      assume "x \<in> set xs"
      then obtain j where "j < length xs" "xs ! j = x" by (auto simp: in_set_conv_nth)
      then show False using Cons.prems [of 0 "Suc j"] that by simp
    qed
    ultimately show ?case by auto
  qed simp
  then show ?thesis using edge_index_unique [OF assms] by blast
qed

lemma view_edge_eq:
  assumes core: "core_ok arena g" and e: "e \<in> live_edges g"
  shows "view_edge g e = map_option as_edge (abs_edge g e)" "abs_edge g e \<noteq> None"
    "e_src (as_edge (the (abs_edge g e))) = pid g (edge_src g e)" "e_dst (as_edge (the (abs_edge g e))) = pid g (edge_dst g e)"
proof -
  obtain eo where eo: "gr_edge_objs g e = Some eo" "eo_src eo = edge_src g e" "eo_dst eo = edge_dst g e"
    "edge_src g e \<in> live_nodes g" "edge_dst g e \<in> live_nodes g"
    using live_edge [OF core e] by metis
  obtain sn where sn: "gr_node_objs g (edge_src g e) = Some sn" using live_node [OF core eo(4)] by metis
  obtain dn where dn: "gr_node_objs g (edge_dst g e) = Some dn" using live_node [OF core eo(5)] by metis
  show "view_edge g e = map_option as_edge (abs_edge g e)"
    using eo(1-3) sn dn by (simp add: view_edge_def abs_edge_def as_edge_def pid_def)
  show "abs_edge g e \<noteq> None" "e_src (as_edge (the (abs_edge g e))) = pid g (edge_src g e)"
    "e_dst (as_edge (the (abs_edge g e))) = pid g (edge_dst g e)" by (simp_all add: edge_ends [OF core e] as_edge_def)
qed

lemma edges_of_abs:
  assumes core: "core_ok arena g"
  shows "edges_of (abs_graph g) = map (\<lambda>e. as_edge (the (abs_edge g e))) (filter (\<lambda>e. e \<noteq> 0) (gr_edges g))"
proof -
  have "List.map_filter id (map (\<lambda>e. if e = 0 then None else abs_edge g e) xs) = map (\<lambda>e. the (abs_edge g e)) (filter (\<lambda>e. e \<noteq> 0) xs)"
    if "set xs \<subseteq> set (gr_edges g)" for xs
    using that
  proof (induction xs)
    case (Cons x xs)
    have "abs_edge g x \<noteq> None" if "x \<noteq> 0" using view_edge_eq(2) [OF core, of x] Cons.prems that by (simp add: live_edges_def)
    then show ?case using Cons by (auto simp: List.map_filter_def)
  qed (simp add: List.map_filter_def)
  then show ?thesis by (simp add: edges_of_def abs_graph_def)
qed

lemma edge_list_view:
  assumes core: "core_ok arena g" and es: "distinct es" "set es = {e \<in> live_edges g. P (as_edge (the (abs_edge g e)))}"
  shows "mset (List.map_filter (view_edge g) es) = mset (filter P (edges_of (abs_graph g)))"
proof -
  let ?f = "\<lambda>e. as_edge (the (abs_edge g e))"
  have "List.map_filter (view_edge g) xs = map ?f xs" if "set xs \<subseteq> live_edges g" for xs
    using that
  proof (induction xs)
    case (Cons x xs)
    then show ?case using view_edge_eq(1,2) [OF core, of x] by (auto simp: List.map_filter_def)
  qed (simp add: List.map_filter_def)
  then have l: "List.map_filter (view_edge g) es = map ?f es" using es(2) by blast
  have r: "filter P (edges_of (abs_graph g)) = map ?f (filter (\<lambda>e. P (?f e)) (filter (\<lambda>e. e \<noteq> 0) (gr_edges g)))"
    unfolding edges_of_abs [OF core] by (simp add: filter_map o_def)
  have m: "mset es = mset (filter (\<lambda>e. P (?f e)) (filter (\<lambda>e. e \<noteq> 0) (gr_edges g)))"
  proof -
    have "set es = set (filter (\<lambda>e. P (?f e)) (filter (\<lambda>e. e \<noteq> 0) (gr_edges g)))" by (auto simp: es(2) live_edges_def)
    moreover have "distinct (filter (\<lambda>e. P (?f e)) (filter (\<lambda>e. e \<noteq> 0) (gr_edges g)))"
      by (rule distinct_filter [OF live_edges_distinct [OF core]])
    ultimately show ?thesis using set_eq_iff_mset_eq_distinct [OF es(1)] by blast
  qed
  show ?thesis unfolding l r mset_map m ..
qed

lemma view_node_ok:
  assumes wf: "graph_wf arena g" and p: "p \<in> live_nodes g"
  shows "\<exists>n. view_node g p = Some n \<and> shows_node (abs_graph g) (pid g p) n"
proof -
  have core: "core_ok arena g" and link: "linked g" using wf by (auto simp: graph_wf_def graph_ok_def)
  obtain n pr where n: "gr_node_objs g p = Some n" "props_of g p = Some pr"
    "abs_node g p = Some \<lparr>an_class = no_class n, an_props = pr, an_device = gr_device_names g ! no_device n\<rparr>"
    "no_device n < length (gr_device_names g)"
    using abs_node_live [OF wf p] by blast
  have pr: "node_props_of n g = Some pr" using n(1,2) by (simp add: props_of_def)
  have at: "fst (abs_graph g) ! pid g p = abs_node g p" using pid_live [OF core p] by (simp add: abs_graph_def)
  have sets: "es_ok (no_in n)" "es_ok (no_out n)" "es_set (no_in n) = in_edges g p" "es_set (no_out n) = out_edges g p"
    using linkedD [OF link p] n(1) by (auto simp: sets_ok_def ins_def outs_def)
  have ends: "edge_src g e \<in> live_nodes g" "edge_dst g e \<in> live_nodes g" if "e \<in> live_edges g" for e
    using live_edge [OF core that] by metis+
  have "in_edges g p = {e \<in> live_edges g. e_dst (as_edge (the (abs_edge g e))) = pid g p}"
    using pid_inject [OF core _ p] ends(2) view_edge_eq(4) [OF core] by (auto simp: in_edges_def)
  then have i: "mset (List.map_filter (view_edge g) (es_elems (no_in n))) = mset (filter (\<lambda>e. e_dst e = pid g p) (edges_of (abs_graph g)))"
    by (intro edge_list_view [OF core]) (simp_all add: es_elems_ok [OF sets(1)] sets(3))
  have "out_edges g p = {e \<in> live_edges g. e_src (as_edge (the (abs_edge g e))) = pid g p}"
    using pid_inject [OF core _ p] ends(1) view_edge_eq(3) [OF core] by (auto simp: out_edges_def)
  then have o: "mset (List.map_filter (view_edge g) (es_elems (no_out n))) = mset (filter (\<lambda>e. e_src e = pid g p) (edges_of (abs_graph g)))"
    by (intro edge_list_view [OF core]) (simp_all add: es_elems_ok [OF sets(2)] sets(4))
  have "nat (no_id n) = pid g p" by (simp add: pid_def n(1))
  then show ?thesis using i o n(3) at by (simp add: view_node_def n(1) pr shows_node_def)
qed

lemma graph_nodes_distinct:
  assumes "\<And>i n. i < length v \<Longrightarrow> v ! i = Some n \<Longrightarrow> n_id n = i"
  shows "distinct (map n_id (graph_nodes v)) \<and> (\<forall>n\<in>set (graph_nodes v). n_id n < length v)"
  using assms
proof (induction v rule: rev_induct)
  case (snoc x v)
  have "n_id n = i" if "i < length v" "v ! i = Some n" for i n using snoc.prems [of i n] that by (simp add: nth_append)
  then have "distinct (map n_id (graph_nodes v)) \<and> (\<forall>n\<in>set (graph_nodes v). n_id n < length v)" by (rule snoc.IH)
  moreover have "n_id n = length v" if "x = Some n" for n using snoc.prems [of "length v" n] that by simp
  ultimately show ?case by (cases x) (auto simp: graph_nodes_def List.map_filter_def)
qed (simp add: graph_nodes_def List.map_filter_def)

text \<open>
  C6: The graph that an executor is given is the one that was built: after any history of
  operations the node at each index of \<open>nodes()\<close> has that index as its id, the properties and
  class the history gave it, and the iterations over its two edge sets visit exactly the edges
  that end and start at it; at the index of a removed node there is none.
\<close>

theorem executor_sees_graph:
  assumes "arena_ok arena" "registry (''_SOURCE'', ''NoOp'') = Inr source" "registry (''_SINK'', ''NoOp'') = Inr sink"
    "run_ok (agraph_step op_defs) (graph_pre op_defs) (first_graph source sink) xs"
    and "a = fst (run (agraph_step op_defs) (first_graph source sink) xs)"
  shows "\<exists>g0 g. new_graph arena registry = Some g0 \<and> g = fst (run (graph_step arena op_defs) g0 xs)
    \<and> num_node_ids (view_graph g) = length (fst a)
    \<and> (\<forall>i. graph_node (view_graph g) i = None \<longleftrightarrow> \<not> alive (fst a) i)
    \<and> (\<forall>n\<in>set (graph_nodes (view_graph g)). shows_node a (n_id n) n)
    \<and> distinct (map n_id (graph_nodes (view_graph g)))"
proof -
  obtain g0 g where g: "new_graph arena registry = Some g0" "run (graph_step arena op_defs) g0 xs =
      (g, snd (run (agraph_step op_defs) (first_graph source sink) xs))" "abs_graph g = a" "graph_wf arena g"
    using graph_history [OF assms(1-4)] assms(5) by blast
  have core: "core_ok arena g" using g(4) by (simp add: graph_wf_def graph_ok_def)
  have at: "\<exists>n. view_graph g ! i = Some n \<and> shows_node a i n \<and> n_id n = i" if i: "i < length (gr_nodes g)" "gr_nodes g ! i \<noteq> 0" for i
    using view_node_ok [OF g(4) pid_index(2) [OF core i]] i unfolding pid_index(1) [OF core i] g(3)
    by (auto simp: view_graph_def shows_node_def)
  have len: "length (view_graph g) = length (gr_nodes g)" "length (fst a) = length (gr_nodes g)"
    using lengths(1) [of g] by (simp_all add: view_graph_def g(3))
  have none: "view_graph g ! i = None \<and> fst a ! i = None" if "i < length (gr_nodes g)" "gr_nodes g ! i = 0" for i
    using that g(3) by (auto simp: view_graph_def abs_graph_def)
  have node: "graph_node (view_graph g) i = None \<longleftrightarrow> \<not> alive (fst a) i" for i
  proof (cases "i < length (gr_nodes g)")
    case True
    then show ?thesis using at [OF True] none [OF True] by (cases "gr_nodes g ! i = 0") (auto simp: graph_node_def alive_def len shows_node_def)
  qed (simp add: graph_node_def alive_def len)
  have members: "\<forall>n\<in>set (graph_nodes (view_graph g)). shows_node a (n_id n) n"
  proof
    fix n assume "n \<in> set (graph_nodes (view_graph g))"
    then obtain i where i: "i < length (gr_nodes g)" "view_graph g ! i = Some n" by (auto simp: graph_nodes_member len)
    then have "gr_nodes g ! i \<noteq> 0" using none [OF i(1)] by auto
    then show "shows_node a (n_id n) n" using at [OF i(1)] i(2) by auto
  qed
  have "n_id n = i" if "i < length (view_graph g)" "view_graph g ! i = Some n" for i n
    using that at [of i] none [of i] by (cases "gr_nodes g ! i = 0") (auto simp: len)
  then have "distinct (map n_id (graph_nodes (view_graph g)))" using graph_nodes_distinct by blast
  then show ?thesis using g(1,2) len node members by (intro exI [of _ g0] exI [of _ g]) (simp add: num_node_ids_def)
qed

lemma executor_sees_graph_witness:
  "\<exists>g0 g. new_graph Suc sample_registry = Some g0 \<and> g = fst (run (graph_step Suc (\<lambda>_. Some 7)) g0 sample_ops)
    \<and> num_node_ids (view_graph g) = 5 \<and> graph_node (view_graph g) 2 = None \<and> graph_node (view_graph g) 3 \<noteq> None"
proof -
  have ar: "arena_ok Suc" by (simp add: arena_ok_def)
  have reg: "sample_registry (''_SOURCE'', ''NoOp'') = Inr (sample_props ''_SOURCE'', False)"
    "sample_registry (''_SINK'', ''NoOp'') = Inr (sample_props ''_SINK'', False)" by (simp_all add: sample_registry_def)
  let ?a = "fst (run (agraph_step (\<lambda>_. Some 7)) (first_graph (sample_props ''_SOURCE'', False) (sample_props ''_SINK'', False)) sample_ops)"
  have "length (fst ?a) = 5" "\<not> alive (fst ?a) 2" "alive (fst ?a) 3"
    by (simp_all add: sample_ops_def first_graph_def agraph_step_def fresh_anode_def copy_anode_def sample_props_def
      upd_at_def upd_props_def alive_def note_control_input_def caret_def control_between_def forget_def touches_def
      kControlSlot_def kSourceId_def kSinkId_def class_NoOp)
  then show ?thesis using executor_sees_graph [OF ar reg sample_replies(2) refl] by metis
qed

end
