(* ===== verification/Graph_Update.thy ===== *)
theory Graph_Update
  imports Graph_Props
begin

text \<open>
  \<open>Graph::UpdateEdge\<close> (core/graph/graph.cc) on every branch: its checks, the search for the
  edge, the move of the edge, and the input of the node definition that it overwrites.
\<close>

section \<open>The specification\<close>

definition ends_at :: "nat \<Rightarrow> int \<Rightarrow> (nat \<times> int \<times> nat \<times> int) option \<Rightarrow> bool" where
  "ends_at i y e = (case e of Some (s, x, d, z) \<Rightarrow> d = i \<and> z = y | None \<Rightarrow> False)"

text \<open>
  The edge that is replaced: any one that ends at the input, for which \<open>pick\<close> stands; which of
  several it is depends on the hash table of the edges.
\<close>

definition picks :: "(nat \<times> int \<times> nat \<times> int) option list \<Rightarrow> nat \<Rightarrow> int \<Rightarrow> nat option \<Rightarrow> bool" where
  "picks es i y pick = (case pick of
     None \<Rightarrow> \<forall>k<length es. \<not> ends_at i y (es ! k)
   | Some k \<Rightarrow> k < length es \<and> ends_at i y (es ! k))"

text \<open>A pointer to a node object of the arena, in the graph, removed from it or of none; or null.\<close>

definition node_pointer :: "graph_state \<Rightarrow> nat \<Rightarrow> bool" where
  "node_pointer g p = (p = 0 \<or> gr_node_objs g p \<noteq> None)"

definition node_at :: "graph_state \<Rightarrow> nat \<Rightarrow> nat option" where
  "node_at g p = (if p \<in> live_nodes g then Some (pid g p) else None)"

definition tensor_name :: "string \<Rightarrow> int \<Rightarrow> string" where
  "tensor_name name x = name @ '':'' @ show_int x"

text \<open>
  The nodes are \<open>None\<close> when they are not of the graph. The result \<open>None\<close> is the access to an
  input that the node definition does not have.
\<close>

definition update_result :: "agraph \<Rightarrow> nat option \<Rightarrow> nat option \<Rightarrow> int \<Rightarrow> nat option \<Rightarrow> int \<Rightarrow> (agraph \<times> error_code) option" where
  "update_result a pick src x dst y =
     (case a of (ns, es) \<Rightarrow>
       case src of None \<Rightarrow> Some (a, INVALID_ARGUMENT)
     | Some s \<Rightarrow>
       let sp = an_props (the (ns ! s)) in
       if x < 0 \<or> int (length (np_output_types sp)) \<le> x then Some (a, OUT_OF_RANGE)
       else case dst of None \<Rightarrow> Some (a, INVALID_ARGUMENT)
     | Some d \<Rightarrow>
       let dp = an_props (the (ns ! d)) in
       if y < 0 \<or> int (length (np_input_types dp)) \<le> y then Some (a, OUT_OF_RANGE)
       else case pick of
         None \<Rightarrow> Some (a, INVALID_ARGUMENT)
       | Some k \<Rightarrow>
           if length (np_inputs dp) \<le> nat y then None
           else Some ((upd_at d (upd_props (\<lambda>pr. pr\<lparr>np_inputs := (np_inputs dp)[nat y := tensor_name (np_name sp) x]\<rparr>)) ns,
                       es[k := None] @ [Some (s, x, d, y)]), OK))"

section \<open>The checks\<close>

lemma IsValidNode_live:
  assumes "core_ok arena g" "p \<in> live_nodes g"
  shows "IsValidNode p g = Some ok_status"
proof -
  obtain n i where "gr_node_objs g p = Some n" "no_id n = int i" "i < length (gr_nodes g)" "gr_nodes g ! i = p" "p \<noteq> 0"
    using live_node [OF assms] by metis
  then show ?thesis by (simp add: IsValidNode_def)
qed

lemma IsValidNode_dead:
  assumes "node_pointer g p" "p \<notin> live_nodes g"
  shows "\<exists>s. IsValidNode p g = Some s \<and> \<not> status_ok s \<and> status_code s = INVALID_ARGUMENT"
proof (cases "p = 0")
  case False
  then obtain n where n: "gr_node_objs g p = Some n" using assms(1) by (auto simp: node_pointer_def)
  have "gr_nodes g ! nat (no_id n) \<noteq> p" if "nat (no_id n) < length (gr_nodes g)"
    using assms(2) False nth_mem [OF that] by (auto simp: live_nodes_def)
  then show ?thesis using False n by (auto simp: IsValidNode_def status_code_def status_ok_def mk_status_def Let_def not_le)
qed (auto simp: IsValidNode_def status_code_def status_ok_def mk_status_def)

lemma bad_index_code: "status_ok (bad_index a b c d e f) = False" "status_code (bad_index a b c d e f) = OUT_OF_RANGE"
  by (simp_all add: bad_index_def status_simps)

lemma ok_simps: "status_ok ok_status = True" "status_code ok_status = OK"
  by (simp_all add: status_simps)

lemma node_name_props: "node_name p g = map_option np_name (props_of g p)"
  by (cases "gr_node_objs g p") (auto simp: node_name_def props_of_def map_option_case split: option.splits)

lemma find_edge_ok:
  assumes "core_ok arena g" "set es \<subseteq> live_edges g"
  shows "find_edge y es g = Some (List.find (\<lambda>e. eo_dst_input (the (gr_edge_objs g e)) = y) es)"
  using assms(2)
proof (induction es)
  case (Cons e es)
  obtain eo where "gr_edge_objs g e = Some eo" using live_edge [OF assms(1), of e] Cons.prems by auto
  then show ?case using Cons by simp
qed simp

lemma FindEdge_ok:
  assumes wf: "graph_wf arena g" and d: "d \<in> live_nodes g"
  obtains pick where "picks (snd (abs_graph g)) (pid g d) y pick" "FindEdge d y g = Some (map_option (\<lambda>k. FindEdgeId k g) pick)"
    "\<And>k. pick = Some k \<Longrightarrow> k < length (gr_edges g) \<and> FindEdgeId k g \<in> live_edges g"
proof -
  have core: "core_ok arena g" using wf by (simp add: graph_wf_def graph_ok_def)
  let ?es = "snd (abs_graph g)" and ?i = "pid g d"
  obtain n where n: "gr_node_objs g d = Some n" "set (es_elems (no_in n)) = in_edges g d" using node_facts [OF wf d] by metis
  have sub: "set (es_elems (no_in n)) \<subseteq> live_edges g" by (auto simp: n(2) in_edges_def)
  have len: "length ?es = length (gr_edges g)" by (rule lengths)
  have at: "?es ! j = (if gr_edges g ! j = 0 then None else abs_edge g (gr_edges g ! j))" if "j < length (gr_edges g)" for j
    using that by (simp add: abs_graph_def)
  have ends: "ends_at ?i y (?es ! j) \<longleftrightarrow> gr_edges g ! j \<in> in_edges g d \<and> eo_dst_input (the (gr_edge_objs g (gr_edges g ! j))) = y"
    if j: "j < length (gr_edges g)" for j
  proof (cases "gr_edges g ! j = 0")
    case False
    then have el: "gr_edges g ! j \<in> live_edges g" using j by (auto simp: live_edges_def)
    have "edge_dst g (gr_edges g ! j) \<in> live_nodes g" using live_edge [OF core el] by metis
    then show ?thesis using pid_inject [OF core _ d] el at [OF j] False by (auto simp: ends_at_def edge_ends [OF core el] in_edges_def)
  qed (auto simp: at [OF j] ends_at_def in_edges_def live_edges_def)
  let ?hit = "\<lambda>e. eo_dst_input (the (gr_edge_objs g e)) = y"
  have run: "FindEdge d y g = Some (List.find ?hit (es_elems (no_in n)))" using n(1) find_edge_ok [OF core sub] by (simp add: FindEdge_def)
  show thesis
  proof (cases "List.find ?hit (es_elems (no_in n))")
    case None
    then have "\<forall>e\<in>in_edges g d. \<not> ?hit e" by (auto simp: find_None_iff n(2))
    then have "picks ?es ?i y None" using ends by (auto simp: picks_def len)
    then show ?thesis using that [of None] run None by simp
  next
    case (Some e)
    then have e: "e \<in> in_edges g d" "?hit e" by (auto simp: find_Some_iff n(2) [symmetric])
    obtain j where j: "j < length (gr_edges g)" "gr_edges g ! j = e" using e(1) live_edge_index by (metis (no_types, lifting) in_edges_def mem_Collect_eq)
    then have "picks ?es ?i y (Some j)" using ends e by (simp add: picks_def len)
    moreover have "FindEdgeId j g \<in> live_edges g" using e(1) j by (simp add: FindEdgeId_def in_edges_def)
    ultimately show ?thesis using that [of "Some j"] run Some j by (simp add: FindEdgeId_def)
  qed
qed

lemma IsValidOutputTensor_ok:
  assumes "graph_wf arena g" "p \<in> live_nodes g" "props_of g p = Some pr"
  shows "\<exists>s. IsValidOutputTensor op_name p x g = Some s
    \<and> status_code s = (if x < 0 \<or> int (length (np_output_types pr)) \<le> x then OUT_OF_RANGE else OK)
    \<and> status_ok s = (\<not> (x < 0 \<or> int (length (np_output_types pr)) \<le> x))"
proof -
  have core: "core_ok arena g" using assms(1) by (simp add: graph_wf_def graph_ok_def)
  obtain n where n: "gr_node_objs g p = Some n" "node_props_of n g = Some pr" using assms(3) by (auto simp: props_of_def bind_eq_Some_conv)
  show ?thesis using IsValidNode_live [OF core assms(2)] n
    by (auto simp: IsValidOutputTensor_def ok_simps bad_index_code)
qed

lemma IsValidInputTensor_ok:
  assumes "graph_wf arena g" "p \<in> live_nodes g" "props_of g p = Some pr"
  shows "\<exists>s. IsValidInputTensor op_name p x g = Some s
    \<and> status_code s = (if x < 0 \<or> int (length (np_input_types pr)) \<le> x then OUT_OF_RANGE else OK)
    \<and> status_ok s = (\<not> (x < 0 \<or> int (length (np_input_types pr)) \<le> x))"
proof -
  have core: "core_ok arena g" using assms(1) by (simp add: graph_wf_def graph_ok_def)
  obtain n where n: "gr_node_objs g p = Some n" "node_props_of n g = Some pr" using assms(3) by (auto simp: props_of_def bind_eq_Some_conv)
  show ?thesis using IsValidNode_live [OF core assms(2)] n
    by (auto simp: IsValidInputTensor_def ok_simps bad_index_code)
qed

lemma tensor_checks_dead:
  assumes "node_pointer g p" "p \<notin> live_nodes g"
  shows "\<exists>s. IsValidOutputTensor op_name p x g = Some s \<and> \<not> status_ok s \<and> status_code s = INVALID_ARGUMENT"
    "\<exists>s. IsValidInputTensor op_name p x g = Some s \<and> \<not> status_ok s \<and> status_code s = INVALID_ARGUMENT"
  using IsValidNode_dead [OF assms] by (auto simp: IsValidOutputTensor_def IsValidInputTensor_def)

section \<open>The move\<close>

text \<open>What \<open>UpdateEdge\<close> does to the node definition of the destination.\<close>

definition rewrite_input :: "nat \<Rightarrow> nat \<Rightarrow> int \<Rightarrow> int \<Rightarrow> graph_state \<Rightarrow> graph_state option" where
  "rewrite_input s d x y g =
     do { g3 \<leftarrow> MaybeCopyOnWrite d g;
          sname \<leftarrow> node_name s g3;
          dn \<leftarrow> gr_node_objs g3 d;
          dp \<leftarrow> node_props_of dn g3;
          inputs \<leftarrow> store_at (np_inputs dp) y (sname @ '':'' @ show_int x);
          set_props d (\<lambda>pr. pr\<lparr>np_inputs := inputs\<rparr>) g3 }"

lemma map_as_bind: "map_option f m = Option.bind m (\<lambda>x. Some (f x))"
  by (cases m) simp_all

lemma rewrite_input_ok:
  assumes wf: "graph_wf arena g" and s: "s \<in> live_nodes g" "props_of g s = Some sp" and d: "d \<in> live_nodes g" "props_of g d = Some dp" and y: "0 \<le> y"
  shows "if length (np_inputs dp) \<le> nat y then rewrite_input s d x y g = None
    else \<exists>g'. rewrite_input s d x y g = Some g' \<and> graph_wf arena g'
      \<and> abs_graph g' = (upd_at (pid g d) (upd_props (\<lambda>pr. pr\<lparr>np_inputs := (np_inputs dp)[nat y := tensor_name (np_name sp) x]\<rparr>))
           (fst (abs_graph g)), snd (abs_graph g))"
proof -
  have ok: "graph_ok arena g" using wf by (simp add: graph_wf_def)
  obtain g3 where g3: "MaybeCopyOnWrite d g = Some g3" "\<forall>q\<in>live_nodes g. props_of g3 q = props_of g q"
    using MaybeCopyOnWrite_ok [OF ok d(1)] by blast
  have p3: "props_of g3 s = Some sp" "props_of g3 d = Some dp" using g3(2) s d by simp_all
  then have name: "node_name s g3 = Some (np_name sp)" by (simp add: node_name_props)
  obtain dn where dn: "gr_node_objs g3 d = Some dn" "node_props_of dn g3 = Some dp" using p3(2) by (auto simp: props_of_def bind_eq_Some_conv)
  show ?thesis
  proof (cases "length (np_inputs dp) \<le> nat y")
    case True
    then show ?thesis using g3(1) name dn by (simp add: rewrite_input_def store_at_def)
  next
    case False
    let ?f = "\<lambda>pr. pr\<lparr>np_inputs := (np_inputs dp)[nat y := tensor_name (np_name sp) x]\<rparr>"
    have "rewrite_input s d x y g = set_props d ?f g3"
      using g3(1) name dn y False by (simp add: rewrite_input_def store_at_def tensor_name_def)
    then have "rewrite_input s d x y g = mutate_props d ?f g" using g3(1) by (simp add: mutate_props_def)
    moreover obtain g' where "mutate_props d ?f g = Some g'" "graph_wf arena g'"
      "abs_graph g' = (upd_at (pid g d) (upd_props ?f) (fst (abs_graph g)), snd (abs_graph g))"
      using sim_mutate [OF wf d(1), of ?f] by blast
    ultimately show ?thesis using False by simp
  qed
qed

lemma UpdateEdge_live:
  assumes wf: "graph_wf arena g" and ar: "arena_ok arena" and room: "length (gr_nodes g) + length (gr_edges g) + 1 < max_entries"
    and s: "s \<in> live_nodes g" and d: "d \<in> live_nodes g"
  shows "\<exists>pick. picks (snd (abs_graph g)) (pid g d) y pick \<and> map_option (\<lambda>(st, g'). (abs_graph g', status_code st)) (UpdateEdge arena op_name s x d y g)
    = update_result (abs_graph g) pick (Some (pid g s)) x (Some (pid g d)) y"
proof -
  obtain sp where sp: "props_of g s = Some sp" "an_props (the (fst (abs_graph g) ! pid g s)) = sp" "node_name s g = Some (np_name sp)"
    using node_facts [OF wf s] by metis
  obtain dp where dp: "props_of g d = Some dp" "an_props (the (fst (abs_graph g) ! pid g d)) = dp" "node_name d g = Some (np_name dp)"
    using node_facts [OF wf d] by metis
  obtain ns es where a: "abs_graph g = (ns, es)" by (cases "abs_graph g")
  obtain s1 where s1: "IsValidOutputTensor op_name s x g = Some s1"
    "status_code s1 = (if x < 0 \<or> int (length (np_output_types sp)) \<le> x then OUT_OF_RANGE else OK)"
    "status_ok s1 = (\<not> (x < 0 \<or> int (length (np_output_types sp)) \<le> x))" using IsValidOutputTensor_ok [OF wf s sp(1)] by blast
  obtain s2 where s2: "IsValidInputTensor op_name d y g = Some s2"
    "status_code s2 = (if y < 0 \<or> int (length (np_input_types dp)) \<le> y then OUT_OF_RANGE else OK)"
    "status_ok s2 = (\<not> (y < 0 \<or> int (length (np_input_types dp)) \<le> y))" using IsValidInputTensor_ok [OF wf d dp(1)] by blast
  obtain pick where fe: "picks (snd (abs_graph g)) (pid g d) y pick" "FindEdge d y g = Some (map_option (\<lambda>k. FindEdgeId k g) pick)"
    "\<And>k. pick = Some k \<Longrightarrow> k < length (gr_edges g) \<and> FindEdgeId k g \<in> live_edges g"
    using FindEdge_ok [OF wf d] by blast
  have ap: "an_props (the (ns ! pid g s)) = sp" "an_props (the (ns ! pid g d)) = dp" using sp(2) dp(2) by (simp_all add: a)
  have u1: "UpdateEdge arena op_name s x d y g = Some (s1, g)" if "\<not> status_ok s1" using that s1(1) by (simp add: UpdateEdge_def)
  have u2: "UpdateEdge arena op_name s x d y g = Some (s2, g)" if "status_ok s1" "\<not> status_ok s2"
    using that s1(1) s2(1) by (simp add: UpdateEdge_def)
  have "map_option (\<lambda>(st, g'). (abs_graph g', status_code st)) (UpdateEdge arena op_name s x d y g)
    = update_result (abs_graph g) pick (Some (pid g s)) x (Some (pid g d)) y"
  proof (cases "status_ok s1 \<and> status_ok s2")
    case False
    then show ?thesis
      using u1 u2 s1(2,3) s2(2,3) by (cases "status_ok s1") (auto simp: update_result_def a ap Let_def)
  next
    case True
    then have range: "\<not> (x < 0 \<or> int (length (np_output_types sp)) \<le> x)" "\<not> (y < 0 \<or> int (length (np_input_types dp)) \<le> y)"
      using s1(3) s2(3) by auto
    show ?thesis
    proof (cases pick)
      case None
      then have "FindEdge d y g = Some None" using fe(2) by simp
      then show ?thesis using True None range s1(1) s2(1) dp(3)
        by (simp add: UpdateEdge_def update_result_def a ap Let_def status_code_def mk_status_def)
    next
      case (Some k)
      have k: "k < length (gr_edges g)" "FindEdgeId k g \<in> live_edges g" "FindEdge d y g = Some (Some (FindEdgeId k g))"
        using fe(2,3) Some by simp_all
      obtain g1 where g1: "RemoveEdge (FindEdgeId k g) g = Some g1" "graph_wf arena g1" "abs_graph g1 = (ns, es[k := None])"
        "gr_nodes g1 = gr_nodes g" "length (gr_edges g1) = length (gr_edges g)" "\<forall>q. pid g1 q = pid g q"
        using sim_RemoveEdge [OF wf k(1,2)] unfolding a fst_conv snd_conv by blast
      have l1: "s \<in> live_nodes g1" "d \<in> live_nodes g1" using s d by (simp_all add: live_nodes_def g1(4))
      have room1: "length (gr_nodes g1) + length (gr_edges g1) + 1 < max_entries" using room g1(4,5) by simp
      obtain e g2 where g2: "AddEdge arena s x d y g1 = Some (e, g2)" "graph_wf arena g2"
        "abs_graph g2 = (ns, es[k := None] @ [Some (pid g s, x, pid g d, y)])" "\<forall>q. pid g2 q = pid g1 q" "gr_nodes g2 = gr_nodes g1"
        using sim_AddEdge [OF g1(2) ar room1 l1, of x y] unfolding g1(3) fst_conv snd_conv using g1(6) by auto
      have l2: "s \<in> live_nodes g2" "d \<in> live_nodes g2" using l1 by (simp_all add: live_nodes_def g2(5))
      have pid2: "pid g2 s = pid g s" "pid g2 d = pid g d" using g2(4) g1(6) by simp_all
      obtain sp2 where sp2: "props_of g2 s = Some sp2" "an_props (the (fst (abs_graph g2) ! pid g2 s)) = sp2" using node_facts [OF g2(2) l2(1)] by metis
      obtain dp2 where dp2: "props_of g2 d = Some dp2" "an_props (the (fst (abs_graph g2) ! pid g2 d)) = dp2" using node_facts [OF g2(2) l2(2)] by metis
      have "sp2 = sp" "dp2 = dp" using sp2(2) dp2(2) ap by (simp_all add: g2(3) pid2)
      then have p2: "props_of g2 s = Some sp" "props_of g2 d = Some dp" using sp2(1) dp2(1) by simp_all
      have y: "0 \<le> y" using range(2) by simp
      note rw = rewrite_input_ok [OF g2(2) l2(1) p2(1) l2(2) p2(2) y, of x]
      have "UpdateEdge arena op_name s x d y g = map_option (Pair ok_status) (rewrite_input s d x y g2)"
        using True s1(1) s2(1) k(3) g1(1) g2(1)
        by (simp add: UpdateEdge_def rewrite_input_def map_as_bind)
      then show ?thesis using rw range Some
        by (auto simp: update_result_def a ap Let_def g2(3) pid2 ok_simps split: if_splits)
    qed
  qed
then show ?thesis using fe(1) by blast
qed

lemma UpdateEdge_ok:
  assumes wf: "graph_wf arena g" and ar: "arena_ok arena" and room: "length (gr_nodes g) + length (gr_edges g) + 1 < max_entries"
    and s: "node_pointer g s" and d: "node_pointer g d"
  shows "\<exists>pick. (\<forall>i. node_at g d = Some i \<longrightarrow> picks (snd (abs_graph g)) i y pick)
    \<and> map_option (\<lambda>(st, g'). (abs_graph g', status_code st)) (UpdateEdge arena op_name s x d y g)
    = update_result (abs_graph g) pick (node_at g s) x (node_at g d) y"
proof -
  obtain ns es where a: "abs_graph g = (ns, es)" by (cases "abs_graph g")
  consider (both) "s \<in> live_nodes g" "d \<in> live_nodes g" | (no_src) "s \<notin> live_nodes g" | (no_dst) "s \<in> live_nodes g" "d \<notin> live_nodes g" by blast
  then show ?thesis
  proof cases
    case both
    then show ?thesis using UpdateEdge_live [OF wf ar room both, of y op_name x] by (simp add: node_at_def)
  next
    case no_src
    obtain pick where "\<forall>i. node_at g d = Some i \<longrightarrow> picks (snd (abs_graph g)) i y pick"
      using FindEdge_ok [OF wf] by (metis node_at_def option.distinct(1) option.inject)
    moreover obtain st where "IsValidOutputTensor op_name s x g = Some st" "\<not> status_ok st" "status_code st = INVALID_ARGUMENT"
      using tensor_checks_dead(1) [OF s no_src] by blast
    ultimately show ?thesis using no_src by (intro exI [of _ pick]) (simp add: UpdateEdge_def update_result_def node_at_def a)
  next
    case no_dst
    obtain sp where sp: "props_of g s = Some sp" "an_props (the (fst (abs_graph g) ! pid g s)) = sp" using node_facts [OF wf no_dst(1)] by metis
    obtain s1 where s1: "IsValidOutputTensor op_name s x g = Some s1"
      "status_code s1 = (if x < 0 \<or> int (length (np_output_types sp)) \<le> x then OUT_OF_RANGE else OK)"
      "status_ok s1 = (\<not> (x < 0 \<or> int (length (np_output_types sp)) \<le> x))" using IsValidOutputTensor_ok [OF wf no_dst(1) sp(1)] by blast
    obtain s2 where s2: "IsValidInputTensor op_name d y g = Some s2" "\<not> status_ok s2" "status_code s2 = INVALID_ARGUMENT"
      using tensor_checks_dead(2) [OF d no_dst(2)] by blast
    have ap: "an_props (the (ns ! pid g s)) = sp" using sp(2) by (simp add: a)
    have "node_at g d = None" using no_dst(2) by (simp add: node_at_def)
    then show ?thesis using no_dst s1 s2
      by (cases "status_ok s1") (auto simp: UpdateEdge_def update_result_def node_at_def a ap Let_def)
  qed
qed

text \<open>
  C7: \<open>UpdateEdge\<close> on every branch, for any pointers to node objects or null, in every state that
  operations lead to and that has room for one more entry. A source or destination that is null
  or not a node of the graph, and a missing edge, are an invalid argument, a source output or
  destination input that does not exist is out of range, in the order of the checks, and nothing
  changes. Otherwise an edge that ends at the input (one of them when there are several, which
  \<open>AddEdge\<close> does not exclude) is replaced by one with a new id, and that input in the node definition of
  the destination, and only there, is overwritten. When that node definition has no such
  input, which \<open>AddEdge\<close> does not see to either, the write is outside the array: that is
  the \<open>None\<close> of \<open>update_result\<close>.
\<close>

theorem update_edge_exact:
  assumes "arena_ok arena" "registry (''_SOURCE'', ''NoOp'') = Inr source" "registry (''_SINK'', ''NoOp'') = Inr sink"
    "run_ok (agraph_step op_defs) (graph_pre op_defs) (first_graph source sink) xs"
    and "fst (run (agraph_step op_defs) (first_graph source sink) xs) = (ns, es)" "length ns + length es + 1 < max_entries"
  shows "\<exists>g0 g. new_graph arena registry = Some g0 \<and> g = fst (run (graph_step arena op_defs) g0 xs) \<and> abs_graph g = (ns, es)
    \<and> (\<forall>i. alive ns i \<longrightarrow> node_pointer g (FindNodeId i g) \<and> node_at g (FindNodeId i g) = Some i)
    \<and> (\<forall>s d x y. node_pointer g s \<longrightarrow> node_pointer g d \<longrightarrow>
        (\<exists>pick. (\<forall>i. node_at g d = Some i \<longrightarrow> picks es i y pick)
          \<and> map_option (\<lambda>(st, g'). (abs_graph g', status_code st)) (UpdateEdge arena op_name s x d y g)
            = update_result (ns, es) pick (node_at g s) x (node_at g d) y))"
proof -
  obtain g0 g where g: "new_graph arena registry = Some g0" "run (graph_step arena op_defs) g0 xs =
      (g, snd (run (agraph_step op_defs) (first_graph source sink) xs))" "abs_graph g = (ns, es)" "graph_wf arena g"
    using graph_history [OF assms(1-4)] assms(5) by metis
  have core: "core_ok arena g" using g(4) by (simp add: graph_wf_def graph_ok_def)
  have room: "length (gr_nodes g) + length (gr_edges g) + 1 < max_entries" using assms(6) lengths [of g] by (simp add: g(3))
  have "node_pointer g (FindNodeId i g) \<and> node_at g (FindNodeId i g) = Some i" if "alive ns i" for i
  proof -
    note i = alive_node(1,2) [OF g(4), unfolded g(3) fst_conv, OF that]
    obtain n where "gr_node_objs g (FindNodeId i g) = Some n" using live_node [OF core i(1)] by metis
    then show ?thesis using i by (simp add: node_pointer_def node_at_def)
  qed
  moreover have "\<exists>pick. (\<forall>i. node_at g d = Some i \<longrightarrow> picks es i y pick)
      \<and> map_option (\<lambda>(st, g'). (abs_graph g', status_code st)) (UpdateEdge arena op_name s x d y g)
        = update_result (ns, es) pick (node_at g s) x (node_at g d) y"
    if "node_pointer g s" "node_pointer g d" for s d x y
    using UpdateEdge_ok [OF g(4) assms(1) room that, of y op_name x] by (simp add: g(3))
  ultimately show ?thesis using g(1-3) by (intro exI [of _ g0] exI [of _ g]) simp
qed

definition tensor_props :: "string \<Rightarrow> string list \<Rightarrow> node_props" where
  "tensor_props name inputs = (sample_props name)\<lparr>np_inputs := inputs, np_input_types := [1], np_output_types := [1]\<rparr>"

definition tensor_ops :: "graph_op list" where
  "tensor_ops = [Add_node (Inr (tensor_props ''a'' [], False)), Add_node (Inr (tensor_props ''b'' [''a''], False)),
     Add_edge 2 0 3 0, Add_edge 3 0 2 0]"

definition tensor_state :: agraph where
  "tensor_state = fst (run (agraph_step (\<lambda>_. None)) (first_graph (sample_props ''_SOURCE'', False) (sample_props ''_SINK'', False)) tensor_ops)"

lemma tensor_state_eq:
  "tensor_state = ([Some (fresh_anode (sample_props ''_SOURCE'') False []), Some (fresh_anode (sample_props ''_SINK'') False []),
      Some (fresh_anode (tensor_props ''a'' []) False []), Some (fresh_anode (tensor_props ''b'' [''a'']) False [])],
    [Some (0, - 1, 1, - 1), Some (2, 0, 3, 0), Some (3, 0, 2, 0)])"
  "run_ok (agraph_step (\<lambda>_. None)) (graph_pre (\<lambda>_. None)) (first_graph (sample_props ''_SOURCE'', False) (sample_props ''_SINK'', False)) tensor_ops"
  by (simp_all add: tensor_state_def tensor_ops_def first_graph_def agraph_step_def graph_pre_def alive_def max_entries_def
      kControlSlot_def kSourceId_def kSinkId_def)

lemma update_edge_exact_witness:
  "\<exists>g0 g. new_graph Suc sample_registry = Some g0 \<and> g = fst (run (graph_step Suc (\<lambda>_. None)) g0 tensor_ops)
    \<and> map_option (\<lambda>(st, g'). (snd (abs_graph g'), status_code st)) (UpdateEdge Suc (\<lambda>_. ''Op'') (FindNodeId 3 g) 0 (FindNodeId 3 g) 0 g)
        = Some ([Some (0, - 1, 1, - 1), None, Some (3, 0, 2, 0), Some (3, 0, 3, 0)], OK)
    \<and> UpdateEdge Suc (\<lambda>_. ''Op'') (FindNodeId 2 g) 0 (FindNodeId 2 g) 0 g = None
    \<and> map_option (\<lambda>(st, g'). status_code st) (UpdateEdge Suc (\<lambda>_. ''Op'') (FindNodeId 3 g) 0 0 0 g) = Some INVALID_ARGUMENT"
proof -
  have ar: "arena_ok Suc" by (simp add: arena_ok_def)
  have reg: "sample_registry (''_SOURCE'', ''NoOp'') = Inr (sample_props ''_SOURCE'', False)"
    "sample_registry (''_SINK'', ''NoOp'') = Inr (sample_props ''_SINK'', False)" by (simp_all add: sample_registry_def)
  let ?ns = "fst tensor_state" and ?es = "snd tensor_state"
  have st: "fst (run (agraph_step (\<lambda>_. None)) (first_graph (sample_props ''_SOURCE'', False) (sample_props ''_SINK'', False)) tensor_ops)
      = (?ns, ?es)" by (simp add: tensor_state_def)
  have room: "length ?ns + length ?es + 1 < max_entries" by (simp add: tensor_state_eq(1) max_entries_def)
  have nodes: "alive ?ns 2" "alive ?ns 3" by (simp_all add: tensor_state_eq(1) alive_def)
  obtain g0 g where g: "new_graph Suc sample_registry = Some g0" "g = fst (run (graph_step Suc (\<lambda>_. None)) g0 tensor_ops)"
    and at: "\<forall>i. alive ?ns i \<longrightarrow> node_pointer g (FindNodeId i g) \<and> node_at g (FindNodeId i g) = Some i"
    and u: "\<forall>s d x y. node_pointer g s \<longrightarrow> node_pointer g d \<longrightarrow> (\<exists>pick. (\<forall>i. node_at g d = Some i \<longrightarrow> picks ?es i y pick)
      \<and> map_option (\<lambda>(st, g'). (abs_graph g', status_code st)) (UpdateEdge Suc (\<lambda>_. ''Op'') s x d y g)
        = update_result (?ns, ?es) pick (node_at g s) x (node_at g d) y)"
    using update_edge_exact [OF ar reg tensor_state_eq(2) st room, of "\<lambda>_. ''Op''"] by blast
  note n2 = at [rule_format, OF nodes(1)] and n3 = at [rule_format, OF nodes(2)]
  have into: "pick = Some 1" if "picks ?es 3 0 pick" for pick
    using that by (auto simp: tensor_state_eq(1) picks_def ends_at_def less_Suc_eq split: option.splits)
  have into2: "pick = Some 2" if "picks ?es 2 0 pick" for pick
    using that by (auto simp: tensor_state_eq(1) picks_def ends_at_def less_Suc_eq split: option.splits)
  have proj: "map_option (\<lambda>(st, g'). (snd (abs_graph g'), status_code st)) m = map_option (\<lambda>(a, c). (snd a, c))
      (map_option (\<lambda>(st, g'). (abs_graph g', status_code st)) m)"
    "map_option (\<lambda>(st, g'). status_code st) m = map_option snd (map_option (\<lambda>(st, g'). (abs_graph g', status_code st)) m)"
    for m :: "(status \<times> graph_state) option"
    by (cases m; auto)+
  obtain pick where p: "picks ?es 3 0 pick" "map_option (\<lambda>(st, g'). (abs_graph g', status_code st))
      (UpdateEdge Suc (\<lambda>_. ''Op'') (FindNodeId 3 g) 0 (FindNodeId 3 g) 0 g) = update_result (?ns, ?es) pick (Some 3) 0 (Some 3) 0"
    using u n3 by fastforce
  obtain pick2 where q: "picks ?es 2 0 pick2" "map_option (\<lambda>(st, g'). (abs_graph g', status_code st))
      (UpdateEdge Suc (\<lambda>_. ''Op'') (FindNodeId 2 g) 0 (FindNodeId 2 g) 0 g) = update_result (?ns, ?es) pick2 (Some 2) 0 (Some 2) 0"
    using u n2 by fastforce
  have null: "node_pointer g 0" "node_at g 0 = None" by (simp_all add: node_pointer_def node_at_def live_nodes_def)
  obtain pick3 where v: "map_option (\<lambda>(st, g'). (abs_graph g', status_code st))
      (UpdateEdge Suc (\<lambda>_. ''Op'') (FindNodeId 3 g) 0 0 0 g) = update_result (?ns, ?es) pick3 (Some 3) 0 None 0"
    using u n3 null by fastforce
  note result = update_result_def tensor_state_eq(1) fresh_anode_def tensor_props_def sample_props_def
  have "update_result (?ns, ?es) pick2 (Some 2) 0 (Some 2) 0 = None" using into2 [OF q(1)] by (simp add: result)
  then have "UpdateEdge Suc (\<lambda>_. ''Op'') (FindNodeId 2 g) 0 (FindNodeId 2 g) 0 g = None" using q(2) by simp
  moreover have "map_option (\<lambda>(a, c). (snd a, c)) (update_result (?ns, ?es) pick (Some 3) 0 (Some 3) 0)
      = Some ([Some (0, - 1, 1, - 1), None, Some (3, 0, 2, 0), Some (3, 0, 3, 0)], OK)"
    using into [OF p(1)] by (simp add: result)
  moreover have "map_option snd (update_result (?ns, ?es) pick3 (Some 3) 0 None 0) = Some INVALID_ARGUMENT" by (simp add: result)
  ultimately show ?thesis using g unfolding proj p(2) [symmetric] v [symmetric] by blast
qed

end
