(* ===== verification/Graph_View.thy ===== *)
theory Graph_View
  imports Graph_Props
begin

text \<open>
  What the read-only algorithms over a graph rely on: the edge sets of its nodes hold the edges
  of one list, and the ends of an edge are nodes. The view of every graph built by operations
  of class \<open>Graph\<close> has it, with the edges of the abstract graph.
\<close>

definition linked_view :: "graph \<Rightarrow> edge list \<Rightarrow> bool" where
  "linked_view v es \<longleftrightarrow>
     (\<forall>i n. graph_node v i = Some n \<longrightarrow> n_id n = i \<and> mset (n_in_edges n) = mset (filter (\<lambda>e. e_dst e = i) es)
        \<and> mset (n_out_edges n) = mset (filter (\<lambda>e. e_src e = i) es))
   \<and> (\<forall>e\<in>set es. graph_node v (e_src e) \<noteq> None \<and> graph_node v (e_dst e) \<noteq> None)"

lemma linked_viewD:
  assumes "linked_view v es"
  shows "graph_node v i = Some n \<Longrightarrow> n_id n = i"
    "graph_node v i = Some n \<Longrightarrow> set (n_in_edges n) = {e \<in> set es. e_dst e = i}"
    "graph_node v i = Some n \<Longrightarrow> set (n_out_edges n) = {e \<in> set es. e_src e = i}"
    "graph_node v i = Some n \<Longrightarrow> mset (n_in_edges n) = mset (filter (\<lambda>e. e_dst e = i) es)"
    "graph_node v i = Some n \<Longrightarrow> mset (n_out_edges n) = mset (filter (\<lambda>e. e_src e = i) es)"
    "e \<in> set es \<Longrightarrow> graph_node v (e_src e) \<noteq> None" "e \<in> set es \<Longrightarrow> graph_node v (e_dst e) \<noteq> None"
proof -
  note l = assms [unfolded linked_view_def]
  show "graph_node v i = Some n \<Longrightarrow> n_id n = i"
    "graph_node v i = Some n \<Longrightarrow> mset (n_in_edges n) = mset (filter (\<lambda>e. e_dst e = i) es)"
    "graph_node v i = Some n \<Longrightarrow> mset (n_out_edges n) = mset (filter (\<lambda>e. e_src e = i) es)"
    "e \<in> set es \<Longrightarrow> graph_node v (e_src e) \<noteq> None" "e \<in> set es \<Longrightarrow> graph_node v (e_dst e) \<noteq> None" using l by blast+
  show "graph_node v i = Some n \<Longrightarrow> set (n_in_edges n) = {e \<in> set es. e_dst e = i}" using l by (metis mset_eq_setD set_filter)
  show "graph_node v i = Some n \<Longrightarrow> set (n_out_edges n) = {e \<in> set es. e_src e = i}" using l by (metis mset_eq_setD set_filter)
qed

lemma graph_nodes_at:
  assumes "linked_view v es" "n \<in> set (graph_nodes v)"
  shows "graph_node v (n_id n) = Some n"
proof -
  obtain i where i: "i < length v" "v ! i = Some n" using assms(2) by (auto simp: graph_nodes_member)
  then have "graph_node v i = Some n" by (simp add: graph_node_def)
  then show ?thesis using linked_viewD(1) [OF assms(1)] by blast
qed

lemma linked_ids_distinct:
  assumes "linked_view v es"
  shows "distinct (map n_id (graph_nodes v))"
proof -
  have "n_id n = i" if "i < length v" "v ! i = Some n" for i n
    using linked_viewD(1) [OF assms, of i n] that by (simp add: graph_node_def)
  then show ?thesis using graph_nodes_distinct [of v] by blast
qed

lemma view_linked:
  assumes wf: "graph_wf arena g"
  shows "linked_view (view_graph g) (edges_of (abs_graph g))" "graph_node (view_graph g) i \<noteq> None \<longleftrightarrow> alive (fst (abs_graph g)) i"
proof -
  have core: "core_ok arena g" using wf by (simp add: graph_wf_def graph_ok_def)
  have len: "length (view_graph g) = length (gr_nodes g)" by (simp add: view_graph_def)
  have node: "n_id n = i \<and> mset (n_in_edges n) = mset (filter (\<lambda>e. e_dst e = i) (edges_of (abs_graph g)))
      \<and> mset (n_out_edges n) = mset (filter (\<lambda>e. e_src e = i) (edges_of (abs_graph g)))"
    if "graph_node (view_graph g) i = Some n" for i n
  proof -
    have i: "i < length (gr_nodes g)" "gr_nodes g ! i \<noteq> 0" "view_node g (gr_nodes g ! i) = Some n"
      using that by (auto simp: graph_node_def view_graph_def split: if_splits)
    obtain m where m: "view_node g (gr_nodes g ! i) = Some m" "shows_node (abs_graph g) (pid g (gr_nodes g ! i)) m"
      using view_node_ok [OF wf pid_index(2) [OF core i(1,2)]] by blast
    then show ?thesis using pid_index(1) [OF core i(1,2)] i(3) by (auto simp: shows_node_def)
  qed
  have shown: "graph_node (view_graph g) (pid g p) \<noteq> None" if p: "p \<in> live_nodes g" for p
  proof -
    note i = pid_live [OF core p]
    obtain m where "view_node g p = Some m" using view_node_ok [OF wf p] by blast
    then show ?thesis using i len by (simp add: graph_node_def view_graph_def)
  qed
  have ends: "graph_node (view_graph g) (e_src e) \<noteq> None \<and> graph_node (view_graph g) (e_dst e) \<noteq> None"
    if "e \<in> set (edges_of (abs_graph g))" for e
  proof -
    have "e \<in> (\<lambda>a. as_edge (the (abs_edge g a))) ` live_edges g"
      using that unfolding edges_of_abs [OF core] by (auto simp: live_edges_def)
    then obtain a where a: "a \<in> live_edges g" "e = as_edge (the (abs_edge g a))" by blast
    have "edge_src g a \<in> live_nodes g" "edge_dst g a \<in> live_nodes g" using live_edge [OF core a(1)] by metis+
    then show ?thesis using view_edge_eq(3,4) [OF core a(1)] shown by (simp add: a(2))
  qed
  show "linked_view (view_graph g) (edges_of (abs_graph g))" using node ends by (simp add: linked_view_def)
  show "graph_node (view_graph g) i \<noteq> None \<longleftrightarrow> alive (fst (abs_graph g)) i"
  proof
    assume "alive (fst (abs_graph g)) i"
    then show "graph_node (view_graph g) i \<noteq> None" using alive_node [OF wf] shown by metis
  next
    assume "graph_node (view_graph g) i \<noteq> None"
    then have i: "i < length (gr_nodes g)" "gr_nodes g ! i \<noteq> 0" by (auto simp: graph_node_def view_graph_def split: if_splits)
    obtain n pr where "abs_node g (gr_nodes g ! i) = Some n" using abs_node_live [OF wf pid_index(2) [OF core i]] by blast
    then show "alive (fst (abs_graph g)) i" using i by (simp add: alive_def abs_graph_def)
  qed
qed

end
