(* ===== verification/Control_Flow.thy ===== *)
theory Control_Flow
  imports Node_Items Graph_View
begin

text \<open>
  The walk of \<open>BuildControlFlowInfo\<close> (core/common_runtime/executor.cc) over the graph of an
  executor ends: an iteration takes a node off the queue, and a node enters it at most once.
\<close>

definition ids_ok :: "graph \<Rightarrow> bool" where
  "ids_ok g \<longleftrightarrow> distinct (map n_id (graph_nodes g))
     \<and> (\<forall>n\<in>set (graph_nodes g). graph_node g (n_id n) = Some n
         \<and> (\<forall>e\<in>set (n_out_edges n). graph_node g (e_dst e) \<noteq> None))"

lemma ids_okD:
  assumes "ids_ok g"
  shows "distinct (map n_id (graph_nodes g))" "n \<in> set (graph_nodes g) \<Longrightarrow> graph_node g (n_id n) = Some n"
    "n \<in> set (graph_nodes g) \<Longrightarrow> e \<in> set (n_out_edges n) \<Longrightarrow> graph_node g (e_dst e) \<noteq> None"
  using assms by (auto simp: ids_ok_def)

lemma graph_node_range: "graph_node g i = Some n \<Longrightarrow> i < num_node_ids g \<and> n \<in> set (graph_nodes g)"
  by (auto simp: graph_nodes_member graph_node_def num_node_ids_def split: if_splits)

text \<open>What is in the queue or may still enter it.\<close>

definition walk_work :: "cf_walk \<Rightarrow> nat" where
  "walk_work w = length (cw_ready w) + length (filter Not (cw_visited w))"

lemma mark_visited:
  "i < length vs \<Longrightarrow> \<not> vs ! i \<Longrightarrow> Suc (length (filter Not (vs[i := True]))) = length (filter Not vs)"
proof (induction vs arbitrary: i)
  case (Cons v vs)
  then show ?case by (cases i) auto
qed simp

lemma visit_edge_work:
  assumes "e_dst e < length (cw_visited w)"
  shows "walk_work (cf_visit_edge p f w e) = walk_work w" "length (cw_visited (cf_visit_edge p f w e)) = length (cw_visited w)"
  using mark_visited [OF assms] by (auto simp: cf_visit_edge_def walk_work_def Let_def)

lemma visit_edges_work:
  assumes "\<forall>e\<in>set es. e_dst e < length (cw_visited w)"
  shows "walk_work (foldl (cf_visit_edge p f) w es) = walk_work w \<and> length (cw_visited (foldl (cf_visit_edge p f) w es)) = length (cw_visited w)"
  using assms by (induction es arbitrary: w) (auto simp: visit_edge_work)

text \<open>The iterations of the loop, and the only thing that stops one without a result.\<close>

inductive cf_reach :: "graph \<Rightarrow> cf_walk \<Rightarrow> cf_walk \<Rightarrow> bool" for g where
  here: "cf_reach g w w"
| there: "cw_ready w \<noteq> [] \<Longrightarrow> cf_step g w = Some (Inr w') \<Longrightarrow> cf_reach g w' u \<Longrightarrow> cf_reach g w u"

inductive_cases cf_reachE: "cf_reach g w u"

definition orphan_exit :: "graph \<Rightarrow> cf_walk \<Rightarrow> bool" where
  "orphan_exit g w \<longleftrightarrow> (case cw_ready w of [] \<Rightarrow> False
     | i # _ \<Rightarrow> (case graph_node g i of None \<Rightarrow> False | Some n \<Rightarrow> IsExit n \<and> \<not> IsEnter n \<and> cw_parent w ! i = None))"

definition walk_ok :: "graph \<Rightarrow> cf_walk \<Rightarrow> bool" where
  "walk_ok g w \<longleftrightarrow> length (cw_visited w) = num_node_ids g \<and> (\<forall>i\<in>set (cw_ready w). graph_node g i \<noteq> None)"

lemma orphan_exit_stops:
  assumes "walk_ok g w" "cw_ready w \<noteq> []"
  shows "cf_step g w = None \<longleftrightarrow> orphan_exit g w"
  using assms by (cases "cw_ready w")
    (auto simp: walk_ok_def cf_step_def cf_node_context_def orphan_exit_def split: option.splits sum.splits)

lemma visit_edges_ready:
  "set (cw_ready (foldl (cf_visit_edge p f) w es)) \<subseteq> set (cw_ready w) \<union> e_dst ` set es"
proof (induction es arbitrary: w)
  case (Cons e es)
  have "set (cw_ready (cf_visit_edge p f w e)) \<subseteq> insert (e_dst e) (set (cw_ready w))" by (auto simp: cf_visit_edge_def Let_def)
  then show ?case using Cons.IH [of "cf_visit_edge p f w e"] by auto
qed simp

lemma cf_step_work:
  assumes ids: "ids_ok g" and ok: "walk_ok g w" and w: "cw_ready w \<noteq> []" and s: "cf_step g w = Some (Inr w')"
  shows "Suc (walk_work w') = walk_work w" "walk_ok g w'"
proof -
  obtain i rest where r: "cw_ready w = i # rest" using w by (cases "cw_ready w") auto
  obtain p f n where n: "graph_node g i = Some n" "w' = foldl (cf_visit_edge p f) (w\<lparr>cw_ready := rest\<rparr>) (n_out_edges n)"
    using s by (auto simp: cf_step_def r split: option.splits sum.splits)
  have dst: "\<forall>e\<in>set (n_out_edges n). graph_node g (e_dst e) \<noteq> None" using ids_okD(3) [OF ids] graph_node_range [OF n(1)] by blast
  then have "\<forall>e\<in>set (n_out_edges n). e_dst e < length (cw_visited (w\<lparr>cw_ready := rest\<rparr>))"
    using ok graph_node_range by (fastforce simp: walk_ok_def)
  note work = visit_edges_work [OF this, of p f, folded n(2)]
  then show "Suc (walk_work w') = walk_work w" by (simp add: walk_work_def r)
  have "\<forall>j\<in>set (cw_ready w'). graph_node g j \<noteq> None"
    using visit_edges_ready [of p f "w\<lparr>cw_ready := rest\<rparr>" "n_out_edges n", folded n(2)] dst ok by (fastforce simp: walk_ok_def r)
  then show "walk_ok g w'" using work ok by (simp add: walk_ok_def)
qed

text \<open>
  Fuel for the work that is left is enough: the loop has no result exactly when an iteration
  takes an exit without a parent off the queue.
\<close>

lemma cf_loop_enough:
  assumes ids: "ids_ok g" and "walk_ok g w" "walk_work w \<le> fuel"
  shows "cf_loop fuel g w = None \<longleftrightarrow> (\<exists>u. cf_reach g w u \<and> orphan_exit g u)"
  using assms(2,3)
proof (induction fuel arbitrary: w)
  case 0
  then have "cw_ready w = []" by (simp add: walk_work_def)
  then show ?case by (auto simp: cf_loop.simps [of _ g w] orphan_exit_def elim: cf_reachE)
next
  case (Suc fuel)
  show ?case
  proof (cases "cw_ready w = []")
    case True
    then show ?thesis by (auto simp: cf_loop.simps [of _ g w] orphan_exit_def elim: cf_reachE)
  next
    case ready: False
    note stop = orphan_exit_stops [OF Suc.prems(1) ready] and unroll = cf_loop.simps [of "Suc fuel" g w]
    show ?thesis
    proof (cases "cf_step g w")
      case None
      then show ?thesis using ready stop cf_reach.here [of g w] by (auto simp: unroll)
    next
      case (Some r)
      have here: "\<not> orphan_exit g w" using Some stop by simp
      show ?thesis
      proof (cases r)
        case (Inl e)
        then show ?thesis using Some ready here by (auto simp: unroll elim: cf_reachE)
      next
        case (Inr w')
        note s = Some [unfolded Inr] and step = cf_step_work [OF ids Suc.prems(1) ready Some [unfolded Inr]]
        have "cf_loop fuel g w' = None \<longleftrightarrow> (\<exists>u. cf_reach g w' u \<and> orphan_exit g u)" using step Suc.prems(2) by (intro Suc.IH) simp_all
        moreover have "(\<exists>u. cf_reach g w u \<and> orphan_exit g u) \<longleftrightarrow> (\<exists>u. cf_reach g w' u \<and> orphan_exit g u)"
        proof
          assume "\<exists>u. cf_reach g w u \<and> orphan_exit g u"
          then obtain u where u: "cf_reach g w u" "orphan_exit g u" by blast
          from u(1) show "\<exists>u. cf_reach g w' u \<and> orphan_exit g u"
            by (rule cf_reachE) (use here s u(2) in auto)
        qed (use s ready cf_reach.there in blast)
        ultimately show ?thesis using s ready by (simp add: unroll)
      qed
    qed
  qed
qed

lemma cf_roots_work:
  assumes ids: "ids_ok g"
  shows "walk_ok g (cf_roots g)" "walk_work (cf_roots g) = num_node_ids g"
proof -
  let ?add = "\<lambda>w n. if n_in_edges n = []
        then w\<lparr>cw_visited := (cw_visited w)[n_id n := True], cw_unique := Node_Items.set_insert [] (cw_unique w), cw_ready := cw_ready w @ [n_id n]\<rparr>
        else w"
  have "walk_work (foldl ?add w ns) = walk_work w \<and> walk_ok g (foldl ?add w ns)"
    if "walk_ok g w" "distinct (map n_id ns)" "\<forall>n\<in>set ns. graph_node g (n_id n) \<noteq> None \<and> \<not> cw_visited w ! n_id n" for ns :: "gnode list" and w
    using that
  proof (induction ns arbitrary: w)
    case (Cons n ns)
    define u where "u = ?add w n"
    have len: "length (cw_visited w) = num_node_ids g" "n_id n < num_node_ids g" using Cons.prems graph_node_range by (auto simp: walk_ok_def)
    have one: "walk_work u = walk_work w" "walk_ok g u"
      using mark_visited [of "n_id n" "cw_visited w"] Cons.prems(1,3) len by (auto simp: u_def walk_work_def walk_ok_def)
    have "graph_node g (n_id m) \<noteq> None \<and> \<not> cw_visited u ! n_id m" if m: "m \<in> set ns" for m
    proof -
      have "n_id m \<noteq> n_id n" using Cons.prems(2) m by (metis distinct.simps(2) image_eqI list.set_map list.simps(9))
      then show ?thesis using Cons.prems(3) m by (auto simp: u_def)
    qed
    then have "\<forall>m\<in>set ns. graph_node g (n_id m) \<noteq> None \<and> \<not> cw_visited u ! n_id m" by blast
    then have "walk_work (foldl ?add u ns) = walk_work u \<and> walk_ok g (foldl ?add u ns)" using Cons.IH [OF one(2)] Cons.prems(2) by simp
    then show ?case by (simp add: u_def one(1) [unfolded u_def])
  qed simp
  note folded = this
  have "length (filter Not (replicate k False)) = k" for k by (induction k) auto
  moreover have "\<forall>n\<in>set (graph_nodes g). graph_node g (n_id n) \<noteq> None \<and> \<not> replicate (num_node_ids g) False ! n_id n"
    using ids_okD(2) [OF ids] graph_node_range by fastforce
  ultimately show "walk_ok g (cf_roots g)" "walk_work (cf_roots g) = num_node_ids g"
    using folded [OF _ ids_okD(1) [OF ids], of "\<lparr>cw_ready = [], cw_visited = replicate (num_node_ids g) False,
      cw_parent = replicate (num_node_ids g) None, cw_frame_names = replicate (num_node_ids g) [], cw_unique = []\<rparr>"]
    by (simp_all add: cf_roots_def walk_ok_def walk_work_def)
qed

lemma walk_result:
  assumes ids: "ids_ok g"
  shows "BuildControlFlowInfo g = None \<longleftrightarrow> (\<exists>w. cf_reach g (cf_roots g) w \<and> orphan_exit g w)"
proof -
  have "BuildControlFlowInfo g = None \<longleftrightarrow> cf_loop (num_node_ids g) g (cf_roots g) = None"
    by (auto simp: BuildControlFlowInfo_def split: option.splits sum.splits)
  then show ?thesis using cf_loop_enough [OF ids cf_roots_work(1) [OF ids]] cf_roots_work(2) [OF ids] by simp
qed

lemma linked_ids_ok:
  assumes "linked_view v es"
  shows "ids_ok v"
proof -
  have "graph_node v (e_dst e) \<noteq> None" if n: "n \<in> set (graph_nodes v)" and e: "e \<in> set (n_out_edges n)" for n e
  proof -
    have "e \<in> set es" using linked_viewD(3) [OF assms graph_nodes_at [OF assms n]] e by simp
    then show ?thesis by (rule linked_viewD(7) [OF assms])
  qed
  then show ?thesis using linked_ids_distinct [OF assms] graph_nodes_at [OF assms] by (simp add: ids_ok_def)
qed

text \<open>
  C30: The walk over a graph that was built by operations of class \<open>Graph\<close> ends, within one
  iteration per node id and whatever the edges: \<open>BuildControlFlowInfo\<close> has no result exactly when
  an iteration takes an exit off the queue that was reached without an enter, whose parent is null.
\<close>

theorem control_flow_walk_ends:
  assumes "arena_ok arena" "registry (''_SOURCE'', ''NoOp'') = Inr source" "registry (''_SINK'', ''NoOp'') = Inr sink"
    "run_ok (agraph_step op_defs) (graph_pre op_defs) (first_graph source sink) xs"
  shows "\<exists>g0 v. new_graph arena registry = Some g0 \<and> v = view_graph (fst (run (graph_step arena op_defs) g0 xs))
    \<and> (BuildControlFlowInfo v = None \<longleftrightarrow> (\<exists>w. cf_reach v (cf_roots v) w \<and> orphan_exit v w))"
proof -
  obtain g0 g where g: "new_graph arena registry = Some g0" "run (graph_step arena op_defs) g0 xs =
      (g, snd (run (agraph_step op_defs) (first_graph source sink) xs))" "graph_wf arena g"
    using graph_history [OF assms] by blast
  show ?thesis using walk_result [OF linked_ids_ok [OF view_linked(1) [OF g(3)]]] g(1,2) by (intro exI [of _ g0] exI [of _ "view_graph g"]) simp
qed

lemma control_flow_walk_ends_witness:
  "\<exists>g0 v. new_graph Suc sample_registry = Some g0 \<and> v = view_graph (fst (run (graph_step Suc (\<lambda>_. Some 7)) g0 sample_ops))
    \<and> (BuildControlFlowInfo v = None \<longleftrightarrow> (\<exists>w. cf_reach v (cf_roots v) w \<and> orphan_exit v w))"
proof -
  have ar: "arena_ok Suc" by (simp add: arena_ok_def)
  have reg: "sample_registry (''_SOURCE'', ''NoOp'') = Inr (sample_props ''_SOURCE'', False)"
    "sample_registry (''_SINK'', ''NoOp'') = Inr (sample_props ''_SINK'', False)" by (simp_all add: sample_registry_def)
  show ?thesis by (rule control_flow_walk_ends [OF ar reg sample_replies(2)])
qed

end
