(* ===== verification/Graph_Search.thy ===== *)
theory Graph_Search
  imports Graph_Model
begin

text \<open>
  The searches of core/graph/algorithm.cc over a graph: depth-first search along the edges and
  against them, with callbacks, and post-orders. A node is its id; \<open>work\<close> is the local struct
  \<open>Work\<close>, and the stack has its back first. That a search ends and what it visits is proved over
  the interface \<open>worklist\<close>, which the other loops over a graph share.
\<close>

section \<open>Loops over a list of work\<close>

locale worklist =
  fixes busy :: "'s \<Rightarrow> bool" and step :: "'s \<Rightarrow> 's option" and loop :: "'s \<Rightarrow> 's option"
    and inv :: "'s \<Rightarrow> bool" and todo :: "'s \<Rightarrow> nat \<times> nat"
  assumes unroll: "loop s = (if busy s then Option.bind (step s) loop else Some s)"
    and progress: "inv s \<Longrightarrow> busy s \<Longrightarrow> \<exists>s'. step s = Some s' \<and> inv s' \<and> (todo s', todo s) \<in> less_than <*lex*> less_than"
begin

lemma ends: "inv s \<Longrightarrow> \<exists>s'. loop s = Some s' \<and> inv s' \<and> \<not> busy s'"
proof (induction "todo s" arbitrary: s rule: wf_induct_rule [OF wf_lex_prod [OF wf_less_than wf_less_than]])
  case 1
  show ?case
  proof (cases "busy s")
    case True
    then obtain s' where s': "step s = Some s'" "inv s'" "(todo s', todo s) \<in> less_than <*lex*> less_than"
      using progress [OF 1(2)] by blast
    then show ?thesis using 1(1) [OF s'(3,2)] True unroll [of s] by simp
  next
    case False
    then show ?thesis using 1(2) unroll [of s] by simp
  qed
qed

end

section \<open>Depth-first search\<close>

text \<open>
  \<open>std::sort\<close> by a comparator. Of nodes that the comparator does not tell apart the library
  may give any order; this is one.
\<close>

fun insert_node :: "(nat \<Rightarrow> nat \<Rightarrow> bool) \<Rightarrow> nat \<Rightarrow> nat list \<Rightarrow> nat list" where
  "insert_node before x [] = [x]"
| "insert_node before x (y # ys) = (if before y x then y # insert_node before x ys else x # y # ys)"

definition sort_nodes :: "(nat \<Rightarrow> nat \<Rightarrow> bool) \<Rightarrow> nat list \<Rightarrow> nat list" where
  "sort_nodes before xs = foldr (insert_node before) xs []"

type_synonym work = "nat \<times> bool"

record 'a search =
  se_stack :: "work list"
  se_visited :: "bool list"
  se_user :: 'a

definition add_work :: "bool list \<Rightarrow> work list \<Rightarrow> nat \<Rightarrow> work list" where
  "add_work visited stack out = (if visited ! out then stack else (out, False) # stack)"

text \<open>
  One iteration; \<open>neighbours\<close> are the nodes it may push, in the order it looks at them. A null
  callback is \<open>None\<close>; the caller's variables are the last component of the state.
\<close>

definition search_step ::
  "(gnode \<Rightarrow> nat list) \<Rightarrow> (nat \<Rightarrow> 'a \<Rightarrow> 'a) option \<Rightarrow> (nat \<Rightarrow> 'a \<Rightarrow> 'a) option \<Rightarrow> graph \<Rightarrow> 'a search \<Rightarrow> 'a search option" where
  "search_step neighbours enter leave g s =
     (case se_stack s of
        [] \<Rightarrow> None
      | (i, True) # rest \<Rightarrow>
          (case leave of None \<Rightarrow> None | Some f \<Rightarrow> Some (s\<lparr>se_stack := rest, se_user := f i (se_user s)\<rparr>))
      | (i, False) # rest \<Rightarrow>
          (case graph_node g i of
             None \<Rightarrow> None
           | Some n \<Rightarrow>
               if se_visited s ! i then Some (s\<lparr>se_stack := rest\<rparr>)
               else let visited = (se_visited s)[i := True];
                        user = (case enter of None \<Rightarrow> se_user s | Some f \<Rightarrow> f i (se_user s));
                        stack = (if leave = None then rest else (i, True) # rest)
                    in Some (s\<lparr>se_stack := foldl (add_work visited) stack (neighbours n), se_visited := visited, se_user := user\<rparr>)))"

partial_function (option) search_loop ::
  "(gnode \<Rightarrow> nat list) \<Rightarrow> (nat \<Rightarrow> 'a \<Rightarrow> 'a) option \<Rightarrow> (nat \<Rightarrow> 'a \<Rightarrow> 'a) option \<Rightarrow> graph \<Rightarrow> 'a search \<Rightarrow> 'a search option" where
  "search_loop neighbours enter leave g s =
     (if se_stack s \<noteq> [] then Option.bind (search_step neighbours enter leave g s) (search_loop neighbours enter leave g) else Some s)"

declare search_loop.simps [code]

definition start_search :: "graph \<Rightarrow> nat list \<Rightarrow> 'a \<Rightarrow> 'a search" where
  "start_search g start user =
     \<lparr>se_stack = map (\<lambda>i. (i, False)) (rev start), se_visited = replicate (num_node_ids g) False, se_user = user\<rparr>"

definition ordered :: "(nat \<Rightarrow> nat \<Rightarrow> bool) option \<Rightarrow> nat list \<Rightarrow> nat list" where
  "ordered comparator xs = (case comparator of Some before \<Rightarrow> sort_nodes before xs | None \<Rightarrow> xs)"

definition out_neighbours :: "(nat \<Rightarrow> nat \<Rightarrow> bool) option \<Rightarrow> (edge \<Rightarrow> bool) option \<Rightarrow> gnode \<Rightarrow> nat list" where
  "out_neighbours comparator edge_filter n =
     ordered comparator (map e_dst (filter (\<lambda>e. case edge_filter of None \<Rightarrow> True | Some f \<Rightarrow> f e) (n_out_edges n)))"

definition in_neighbours :: "(nat \<Rightarrow> nat \<Rightarrow> bool) option \<Rightarrow> gnode \<Rightarrow> nat list" where
  "in_neighbours comparator n = ordered comparator (map e_src (n_in_edges n))"

definition DFSFrom ::
  "graph \<Rightarrow> nat list \<Rightarrow> (nat \<Rightarrow> 'a \<Rightarrow> 'a) option \<Rightarrow> (nat \<Rightarrow> 'a \<Rightarrow> 'a) option \<Rightarrow> (nat \<Rightarrow> nat \<Rightarrow> bool) option
     \<Rightarrow> (edge \<Rightarrow> bool) option \<Rightarrow> 'a \<Rightarrow> 'a option" where
  "DFSFrom g start enter leave comparator edge_filter user =
     map_option se_user (search_loop (out_neighbours comparator edge_filter) enter leave g (start_search g start user))"

definition DFS ::
  "graph \<Rightarrow> (nat \<Rightarrow> 'a \<Rightarrow> 'a) option \<Rightarrow> (nat \<Rightarrow> 'a \<Rightarrow> 'a) option \<Rightarrow> (nat \<Rightarrow> nat \<Rightarrow> bool) option
     \<Rightarrow> (edge \<Rightarrow> bool) option \<Rightarrow> 'a \<Rightarrow> 'a option" where
  "DFS g = DFSFrom g [kSourceId]"

definition ReverseDFSFrom ::
  "graph \<Rightarrow> nat list \<Rightarrow> (nat \<Rightarrow> 'a \<Rightarrow> 'a) option \<Rightarrow> (nat \<Rightarrow> 'a \<Rightarrow> 'a) option \<Rightarrow> (nat \<Rightarrow> nat \<Rightarrow> bool) option \<Rightarrow> 'a \<Rightarrow> 'a option" where
  "ReverseDFSFrom g start enter leave comparator user =
     map_option se_user (search_loop (in_neighbours comparator) enter leave g (start_search g start user))"

definition ReverseDFS ::
  "graph \<Rightarrow> (nat \<Rightarrow> 'a \<Rightarrow> 'a) option \<Rightarrow> (nat \<Rightarrow> 'a \<Rightarrow> 'a) option \<Rightarrow> (nat \<Rightarrow> nat \<Rightarrow> bool) option \<Rightarrow> 'a \<Rightarrow> 'a option" where
  "ReverseDFS g = ReverseDFSFrom g [kSinkId]"

definition push_order :: "nat \<Rightarrow> nat list \<Rightarrow> nat list" where
  "push_order n order = order @ [n]"

definition GetPostOrder :: "graph \<Rightarrow> (nat \<Rightarrow> nat \<Rightarrow> bool) option \<Rightarrow> (edge \<Rightarrow> bool) option \<Rightarrow> nat list option" where
  "GetPostOrder g comparator edge_filter = DFS g None (Some push_order) comparator edge_filter []"

definition GetReversePostOrder :: "graph \<Rightarrow> (nat \<Rightarrow> nat \<Rightarrow> bool) option \<Rightarrow> (edge \<Rightarrow> bool) option \<Rightarrow> nat list option" where
  "GetReversePostOrder g comparator edge_filter = map_option rev (GetPostOrder g comparator edge_filter)"

section \<open>What a search visits\<close>

definition arcs :: "(gnode \<Rightarrow> nat list) \<Rightarrow> graph \<Rightarrow> (nat \<times> nat) set" where
  "arcs neighbours g = {(u, w). \<exists>n. graph_node g u = Some n \<and> w \<in> set (neighbours n)}"

text \<open>The nodes of the stack above the marker of a node that has been entered.\<close>

definition on_top :: "nat \<Rightarrow> work list \<Rightarrow> work list" where
  "on_top u st = takeWhile (\<lambda>x. x \<noteq> (u, True)) st"

definition entered :: "work list \<Rightarrow> nat list" where
  "entered st = map fst (filter snd st)"

definition post_ordered :: "(nat \<times> nat) set \<Rightarrow> nat list \<Rightarrow> bool" where
  "post_ordered R order \<longleftrightarrow> (\<forall>xs u ys w. order = xs @ u # ys \<longrightarrow> (u, w) \<in> R \<longrightarrow> w \<in> set xs \<or> (w, u) \<in> R\<^sup>*)"

text \<open>
  The invariant: a node is visited when it is finished or its marker is on the stack; what is
  above a marker is reachable from its node, and holds the successors not yet visited.
\<close>

definition stack_ok :: "(nat \<times> nat) set \<Rightarrow> work list \<Rightarrow> (nat \<Rightarrow> bool) \<Rightarrow> bool" where
  "stack_ok R st vis \<longleftrightarrow>
     (\<forall>u\<in>set (entered st). (\<forall>x\<in>set (on_top u st). (u, fst x) \<in> R\<^sup>*) \<and> (\<forall>w. (u, w) \<in> R \<longrightarrow> vis w \<or> (w, False) \<in> set (on_top u st)))"

definition reached_ok :: "(nat \<times> nat) set \<Rightarrow> nat set \<Rightarrow> work list \<Rightarrow> (nat \<Rightarrow> bool) \<Rightarrow> nat list \<Rightarrow> bool" where
  "reached_ok R start st vis order \<longleftrightarrow>
     set order \<union> fst ` set st \<subseteq> R\<^sup>* `` start \<and> (\<forall>i\<in>start. vis i \<or> (i, False) \<in> set st)"

definition order_ok :: "(nat \<times> nat) set \<Rightarrow> (nat \<Rightarrow> bool) \<Rightarrow> nat list \<Rightarrow> bool" where
  "order_ok R vis order \<longleftrightarrow> post_ordered R order \<and> (\<forall>u\<in>set order. \<forall>w. (u, w) \<in> R \<longrightarrow> vis w)"

definition marks_ok :: "graph \<Rightarrow> work list \<Rightarrow> bool list \<Rightarrow> nat list \<Rightarrow> bool" where
  "marks_ok g st visited order \<longleftrightarrow> length visited = num_node_ids g \<and> (\<forall>x\<in>set st. graph_node g (fst x) \<noteq> None)
     \<and> distinct (order @ entered st) \<and> (\<forall>i. i < num_node_ids g \<longrightarrow> visited ! i = (i \<in> set order \<union> set (entered st)))"

definition search_ok :: "(gnode \<Rightarrow> nat list) \<Rightarrow> graph \<Rightarrow> nat set \<Rightarrow> nat list search \<Rightarrow> bool" where
  "search_ok nb g start s \<longleftrightarrow> (\<forall>(u, w)\<in>arcs nb g. graph_node g w \<noteq> None)
     \<and> marks_ok g (se_stack s) (se_visited s) (se_user s) \<and> order_ok (arcs nb g) ((!) (se_visited s)) (se_user s)
     \<and> stack_ok (arcs nb g) (se_stack s) ((!) (se_visited s))
     \<and> reached_ok (arcs nb g) start (se_stack s) ((!) (se_visited s)) (se_user s)"

lemma graph_node_lt: "graph_node g i = Some n \<Longrightarrow> i < num_node_ids g"
  by (simp add: graph_node_def num_node_ids_def split: if_splits)

lemma on_top_simps [simp]:
  "on_top u [] = []" "on_top u (x # st) = (if x = (u, True) then [] else x # on_top u st)"
  "\<forall>x\<in>set new. \<not> snd x \<Longrightarrow> on_top u (new @ st) = new @ on_top u st"
proof -
  have "takeWhile (\<lambda>x. x \<noteq> (u, True)) (new @ st) = new @ takeWhile (\<lambda>x. x \<noteq> (u, True)) st" if "\<forall>x\<in>set new. \<not> snd x"
    using that by (intro takeWhile_append2) auto
  then show "\<forall>x\<in>set new. \<not> snd x \<Longrightarrow> on_top u (new @ st) = new @ on_top u st" by (simp add: on_top_def)
qed (simp_all add: on_top_def)

lemma entered_simps [simp]:
  "entered [] = []" "entered (x # st) = (if snd x then fst x # entered st else entered st)"
  "\<forall>x\<in>set new. \<not> snd x \<Longrightarrow> entered (new @ st) = entered st"
  by (auto simp: entered_def filter_False)

lemma entered_in: "u \<in> set (entered st) \<longleftrightarrow> (u, True) \<in> set st"
  by (force simp: entered_def)

lemma foldl_add_work:
  "foldl (add_work visited) st ws = rev (map (\<lambda>w. (w, False)) (filter (\<lambda>w. \<not> visited ! w) ws)) @ st"
  by (induction ws arbitrary: st) (simp_all add: add_work_def)

lemma post_ordered_snoc:
  assumes "post_ordered R order" "\<And>w. (u, w) \<in> R \<Longrightarrow> w \<in> set order \<or> (w, u) \<in> R\<^sup>*"
  shows "post_ordered R (order @ [u])"
  unfolding post_ordered_def
proof (intro allI impI)
  fix xs v ys w assume eq: "order @ [u] = xs @ v # ys" and r: "(v, w) \<in> R"
  show "w \<in> set xs \<or> (w, v) \<in> R\<^sup>*"
  proof (cases ys rule: rev_cases)
    case Nil
    then show ?thesis using eq assms(2) r by auto
  next
    case (snoc zs z)
    then have "order = xs @ v # zs" using eq by simp
    then show ?thesis using assms(1) r by (auto simp: post_ordered_def)
  qed
qed

text \<open>A marker comes off the stack: all its successors have been visited.\<close>

lemma leave_ok:
  assumes st: "st = (i, True) # rest" and ok: "marks_ok g st visited order" "order_ok R ((!) visited) order"
    "stack_ok R st ((!) visited)" "reached_ok R start st ((!) visited) order" and alive: "\<forall>(u, w)\<in>R. w < num_node_ids g"
  shows "marks_ok g rest visited (order @ [i]) \<and> order_ok R ((!) visited) (order @ [i]) \<and> stack_ok R rest ((!) visited)
    \<and> reached_ok R start rest ((!) visited) (order @ [i])"
proof (intro conjI)
  have fresh: "i \<notin> set order" "i \<notin> set (entered rest)" using ok(1) by (auto simp: marks_ok_def st)
  show "marks_ok g rest visited (order @ [i])" using ok(1) by (auto simp: marks_ok_def st)
  have succ: "visited ! w" if "(i, w) \<in> R" for w using ok(3) that by (simp add: stack_ok_def st)
  have behind: "w \<in> set order \<or> (w, i) \<in> R\<^sup>*" if "(i, w) \<in> R" for w
  proof -
    have "w < num_node_ids g" using alive that by blast
    then have "w \<in> set order \<or> w = i \<or> w \<in> set (entered rest)" using ok(1) succ [OF that] by (auto simp: marks_ok_def st)
    moreover have "(w, i) \<in> R\<^sup>*" if w: "w \<in> set (entered rest)"
    proof -
      have "(i, True) \<in> set (on_top w st)" "w \<in> set (entered st)" using w fresh(2) by (auto simp: st)
      then show ?thesis using ok(3) by (force simp: stack_ok_def)
    qed
    ultimately show ?thesis by blast
  qed
  show "order_ok R ((!) visited) (order @ [i])"
    using ok(2) succ post_ordered_snoc [OF _ behind] by (simp add: order_ok_def)
  have "on_top u st = (i, True) # on_top u rest" if "u \<in> set (entered rest)" for u using that fresh(2) by (auto simp: st)
  then show "stack_ok R rest ((!) visited)" using ok(3) by (auto simp: stack_ok_def st)
  show "reached_ok R start rest ((!) visited) (order @ [i])" using ok(4) by (auto simp: reached_ok_def st)
qed

text \<open>A node that has been visited meanwhile is dropped.\<close>

lemma skip_ok:
  assumes st: "st = (i, False) # rest" and v: "visited ! i" and ok: "marks_ok g st visited order"
    "stack_ok R st ((!) visited)" "reached_ok R start st ((!) visited) order"
  shows "marks_ok g rest visited order \<and> stack_ok R rest ((!) visited) \<and> reached_ok R start rest ((!) visited) order"
  using v ok by (auto simp: marks_ok_def stack_ok_def reached_ok_def st)

text \<open>A node is entered: its marker and its successors go on the stack.\<close>

lemma enter_ok:
  assumes st: "st = (i, False) # rest" and v: "\<not> visited ! i" and i: "i < num_node_ids g"
    and ok: "marks_ok g st visited order" "order_ok R ((!) visited) order"
      "stack_ok R st ((!) visited)" "reached_ok R start st ((!) visited) order"
    and vis: "vis = visited[i := True]" and ws: "\<And>w. (i, w) \<in> R \<longleftrightarrow> w \<in> set ws" "\<And>w. w \<in> set ws \<Longrightarrow> graph_node g w \<noteq> None"
    and st': "st' = rev (map (\<lambda>w. (w, False)) (filter (\<lambda>w. \<not> vis ! w) ws)) @ (i, True) # rest"
  shows "marks_ok g st' vis order \<and> order_ok R ((!) vis) order \<and> stack_ok R st' ((!) vis) \<and> reached_ok R start st' ((!) vis) order"
proof (intro conjI)
  define new where "new = rev (map (\<lambda>w. (w, False)) (filter (\<lambda>w. \<not> vis ! w) ws))"
  have new: "\<forall>x\<in>set new. \<not> snd x" "\<And>w. (w, False) \<in> set new \<longleftrightarrow> w \<in> set ws \<and> \<not> vis ! w" "\<And>w b. (w, b) \<in> set new \<Longrightarrow> w \<in> set ws"
    by (auto simp: new_def)
  have st'': "st' = new @ (i, True) # rest" by (simp add: st' new_def)
  have len: "length visited = num_node_ids g" using ok(1) by (simp add: marks_ok_def)
  have mono: "vis ! w" if "visited ! w" for w using that by (cases "w = i") (simp_all add: vis len i)
  have visi: "vis ! i" by (simp add: vis len i)
  have fresh: "i \<notin> set order" "i \<notin> set (entered rest)" using ok(1) v i by (auto simp: marks_ok_def st)
  show "marks_ok g st' vis order"
    using ok(1) fresh ws(2) new(1,3) i by (auto simp: marks_ok_def st st'' vis nth_list_update)
  show "order_ok R ((!) vis) order" using ok(2) mono by (auto simp: order_ok_def)
  have reach: "(u, w) \<in> R\<^sup>*" if "(u, i) \<in> R\<^sup>*" "w \<in> set ws" for u w using that ws(1) by (meson rtrancl.rtrancl_into_rtrancl)
  show "stack_ok R st' ((!) vis)"
    unfolding stack_ok_def
  proof (intro ballI conjI allI impI)
    fix u x assume u: "u \<in> set (entered st')" and x: "x \<in> set (on_top u st')"
    show "(u, fst x) \<in> R\<^sup>*"
    proof (cases "u = i")
      case True
      then show ?thesis using x new reach [of i "fst x"] by (cases x) (auto simp: st'')
    next
      case False
      then have o: "u \<in> set (entered rest)" "set (on_top u st) \<subseteq> insert (i, False) (set (on_top u rest))"
        using u new(1) by (auto simp: st'' st)
      have up: "(u, fst y) \<in> R\<^sup>*" if "y \<in> set (on_top u st)" for y using ok(3) o(1) that by (auto simp: stack_ok_def st)
      have "(u, i) \<in> R\<^sup>*" using up [of "(i, False)"] by (simp add: st)
      then show ?thesis using x new reach [of u "fst x"] up [of x] False by (cases x) (auto simp: st'' st)
    qed
  next
    fix u w assume u: "u \<in> set (entered st')" and r: "(u, w) \<in> R"
    show "vis ! w \<or> (w, False) \<in> set (on_top u st')"
    proof (cases "u = i")
      case True
      then show ?thesis using r ws(1) new by (auto simp: st'')
    next
      case False
      then have "u \<in> set (entered rest)" using u new(1) by (simp add: st'')
      then have "visited ! w \<or> (w, False) \<in> set (on_top u st)" using ok(3) r by (auto simp: stack_ok_def st)
      then show ?thesis using mono visi False new(1) by (auto simp: st'' st)
    qed
  qed
  have "i \<in> R\<^sup>* `` start" using ok(4) by (auto simp: reached_ok_def st)
  then have "w \<in> R\<^sup>* `` start" if "w \<in> set ws" for w using reach that by blast
  then show "reached_ok R start st' ((!) vis) order"
  proof -
    assume ws: "\<And>w. w \<in> set ws \<Longrightarrow> w \<in> R\<^sup>* `` start"
    have "fst ` set new \<subseteq> set ws" using new(3) by force
    then have "set order \<union> fst ` set st' \<subseteq> R\<^sup>* `` start" using ok(4) ws by (auto simp: reached_ok_def st'' st)
    moreover have "vis ! j \<or> (j, False) \<in> set st'" if "j \<in> start" for j
      using ok(4) that mono visi by (auto simp: reached_ok_def st'' st)
    ultimately show ?thesis by (simp add: reached_ok_def)
  qed
qed

text \<open>The loop ends, whatever the graph, with an empty stack.\<close>

definition search_todo :: "nat list search \<Rightarrow> nat \<times> nat" where
  "search_todo s = (length (filter Not (se_visited s)), length (se_stack s))"

lemma unvisited_less:
  "i < length vs \<Longrightarrow> \<not> vs ! i \<Longrightarrow> length (filter Not (vs[i := True])) < length (filter Not vs)"
proof (induction vs arbitrary: i)
  case (Cons v vs)
  then show ?case by (cases i) auto
qed simp

lemma search_progress:
  assumes ok: "search_ok nb g start s" and busy: "se_stack s \<noteq> []"
  shows "\<exists>s'. search_step nb None (Some push_order) g s = Some s' \<and> search_ok nb g start s'
    \<and> (search_todo s', search_todo s) \<in> less_than <*lex*> less_than"
proof -
  obtain i b rest where st: "se_stack s = (i, b) # rest" using busy by (cases "se_stack s") auto
  have o: "\<forall>(u, w)\<in>arcs nb g. graph_node g w \<noteq> None" "marks_ok g (se_stack s) (se_visited s) (se_user s)"
    "order_ok (arcs nb g) ((!) (se_visited s)) (se_user s)" "stack_ok (arcs nb g) (se_stack s) ((!) (se_visited s))"
    "reached_ok (arcs nb g) start (se_stack s) ((!) (se_visited s)) (se_user s)" using ok by (simp_all add: search_ok_def)
  have alive: "\<forall>(u, w)\<in>arcs nb g. w < num_node_ids g" using o graph_node_lt by fastforce
  show ?thesis
  proof (cases b)
    case True
    then have top: "se_stack s = (i, True) # rest" by (simp add: st)
    define s' where "s' = s\<lparr>se_stack := rest, se_user := push_order i (se_user s)\<rparr>"
    have "search_step nb None (Some push_order) g s = Some s'" using True by (simp add: search_step_def st s'_def)
    moreover have "search_ok nb g start s'"
      using leave_ok [OF top o(2-5) alive] o(1) by (simp add: search_ok_def s'_def push_order_def)
    ultimately show ?thesis by (auto simp: search_todo_def s'_def st)
  next
    case False
    obtain n where n: "graph_node g i = Some n" using o by (auto simp: marks_ok_def st)
    have st: "se_stack s = (i, False) # rest" using st False by simp
    show ?thesis
    proof (cases "se_visited s ! i")
      case True
      define s' where "s' = s\<lparr>se_stack := rest\<rparr>"
      have "search_step nb None (Some push_order) g s = Some s'" using True by (simp add: search_step_def st n s'_def)
      moreover have "search_ok nb g start s'" using skip_ok [OF st True o(2,4,5)] o(1,3) by (simp add: search_ok_def s'_def)
      ultimately show ?thesis by (auto simp: search_todo_def s'_def st)
    next
      case v: False
      define vis where "vis = (se_visited s)[i := True]"
      define s' where "s' = s\<lparr>se_stack := foldl (add_work vis) ((i, True) # rest) (nb n), se_visited := vis\<rparr>"
      have step: "search_step nb None (Some push_order) g s = Some s'"
        using v by (simp add: search_step_def st n s'_def vis_def Let_def)
      have i: "i < num_node_ids g" by (rule graph_node_lt [OF n])
      have ws: "(i, w) \<in> arcs nb g \<longleftrightarrow> w \<in> set (nb n)" for w using n by (simp add: arcs_def)
      have ends: "graph_node g w \<noteq> None" if "w \<in> set (nb n)" for w using o ws [of w] that by blast
      have st': "se_stack s' = rev (map (\<lambda>w. (w, False)) (filter (\<lambda>w. \<not> vis ! w) (nb n))) @ (i, True) # rest"
        by (simp add: s'_def foldl_add_work)
      have "search_ok nb g start s'"
        using enter_ok [OF st v i o(2-5) vis_def ws ends st'] o(1) by (simp add: search_ok_def s'_def)
      moreover have "(search_todo s', search_todo s) \<in> less_than <*lex*> less_than"
        using unvisited_less [OF _ v] i o by (simp add: search_todo_def s'_def vis_def marks_ok_def)
      ultimately show ?thesis using step by blast
    qed
  qed
qed

interpretation searching: worklist "\<lambda>s. se_stack s \<noteq> []" "search_step nb None (Some push_order) g"
  "search_loop nb None (Some push_order) g" "search_ok nb g start" search_todo for nb g start
  by unfold_locales (rule search_loop.simps, rule search_progress)

lemma search_starts:
  assumes "\<forall>(u, w)\<in>arcs nb g. graph_node g w \<noteq> None" "\<forall>i\<in>set start. graph_node g i \<noteq> None"
  shows "search_ok nb g (set start) (start_search g start [])"
proof -
  have e: "entered (map (\<lambda>i. (i, False)) xs) = []" for xs by (induction xs) auto
  show ?thesis using assms
    by (auto simp: search_ok_def start_search_def marks_ok_def order_ok_def post_ordered_def stack_ok_def reached_ok_def e)
qed

lemma search_result:
  assumes "\<forall>(u, w)\<in>arcs nb g. graph_node g w \<noteq> None" "\<forall>i\<in>set start. graph_node g i \<noteq> None"
  shows "\<exists>order. map_option se_user (search_loop nb None (Some push_order) g (start_search g start [])) = Some order
    \<and> distinct order \<and> set order = (arcs nb g)\<^sup>* `` set start \<and> post_ordered (arcs nb g) order"
proof -
  obtain s where s: "search_loop nb None (Some push_order) g (start_search g start []) = Some s" "search_ok nb g (set start) s"
    "se_stack s = []" using searching.ends [OF search_starts [OF assms]] by blast
  note o = s(2) [unfolded search_ok_def s(3)]
  let ?R = "arcs nb g" and ?order = "se_user s"
  have vis: "se_visited s ! i \<longleftrightarrow> i \<in> set ?order" if "graph_node g i \<noteq> None" for i
  proof -
    have "i < num_node_ids g" using that graph_node_lt by fastforce
    then show ?thesis using o by (simp add: marks_ok_def)
  qed
  have start: "set start \<subseteq> set ?order" using o assms(2) vis by (auto simp: reached_ok_def)
  have closed: "w \<in> set ?order" if "u \<in> set ?order" "(u, w) \<in> ?R" for u w
  proof -
    have "se_visited s ! w" using o that by (auto simp: order_ok_def)
    moreover have "graph_node g w \<noteq> None" using assms(1) that(2) by blast
    ultimately show ?thesis using vis by blast
  qed
  have "w \<in> set ?order" if "(u, w) \<in> ?R\<^sup>*" "u \<in> set start" for u w
    using that by (induction rule: rtrancl_induct) (use start closed in blast)+
  then have "set ?order = ?R\<^sup>* `` set start" using o by (auto simp: reached_ok_def)
  then show ?thesis using s(1) o by (simp add: marks_ok_def order_ok_def)
qed

end
