(* ===== verification/Graph_Order.thy ===== *)
theory Graph_Order
  imports Graph_Search Graph_View
begin

text \<open>
  The post-order of \<open>GetPostOrder\<close> (core/graph/algorithm.cc) on every graph that operations of
  class \<open>Graph\<close> build: what is in it, and that on a graph without cycles it is a reverse
  topological order, as algorithm.h says.
\<close>

lemma insert_node_set: "set (insert_node before x ys) = insert x (set ys)"
  by (induction ys) auto

lemma ordered_set: "set (ordered comparator xs) = set xs"
proof -
  have "set (sort_nodes before xs) = set xs" for before by (induction xs) (auto simp: sort_nodes_def insert_node_set)
  then show ?thesis by (simp add: ordered_def split: option.splits)
qed

text \<open>The arcs between nodes that the edges of a graph make; a filter may leave edges out.\<close>

definition edge_arcs :: "(edge \<Rightarrow> bool) option \<Rightarrow> edge list \<Rightarrow> (nat \<times> nat) set" where
  "edge_arcs edge_filter es = set (map (\<lambda>e. (e_src e, e_dst e)) (filter (\<lambda>e. case edge_filter of None \<Rightarrow> True | Some f \<Rightarrow> f e) es))"

lemma out_arcs:
  assumes l: "linked_view v es"
  shows "arcs (out_neighbours comparator edge_filter) v = edge_arcs edge_filter es"
proof -
  have "w \<in> set (out_neighbours comparator edge_filter n) \<longleftrightarrow> (u, w) \<in> edge_arcs edge_filter es" if "graph_node v u = Some n" for u w n
    using linked_viewD(3) [OF l that] by (auto simp: out_neighbours_def ordered_set edge_arcs_def)
  moreover have "graph_node v u \<noteq> None" if "(u, w) \<in> edge_arcs edge_filter es" for u w
    using linked_viewD(6) [OF l] that by (auto simp: edge_arcs_def)
  ultimately have "(u, w) \<in> arcs (out_neighbours comparator edge_filter) v \<longleftrightarrow> (u, w) \<in> edge_arcs edge_filter es" for u w
    by (cases "graph_node v u") (fastforce simp: arcs_def)+
  then show ?thesis by auto
qed

lemma in_arcs:
  assumes l: "linked_view v es"
  shows "arcs (in_neighbours comparator) v = (edge_arcs None es)\<inverse>"
proof -
  have "w \<in> set (in_neighbours comparator n) \<longleftrightarrow> (w, u) \<in> edge_arcs None es" if "graph_node v u = Some n" for u w n
    using linked_viewD(2) [OF l that] by (auto simp: in_neighbours_def ordered_set edge_arcs_def)
  moreover have "graph_node v w \<noteq> None" if "(u, w) \<in> edge_arcs None es" for u w
    using linked_viewD(7) [OF l] that by (auto simp: edge_arcs_def)
  ultimately have "(w, u) \<in> arcs (in_neighbours comparator) v \<longleftrightarrow> (u, w) \<in> edge_arcs None es" for u w
    by (cases "graph_node v w") (fastforce simp: arcs_def)+
  then show ?thesis by auto
qed

lemma arcs_alive:
  assumes l: "linked_view v es"
  shows "\<forall>(u, w)\<in>edge_arcs edge_filter es. graph_node v w \<noteq> None" "\<forall>(u, w)\<in>(edge_arcs edge_filter es)\<inverse>. graph_node v w \<noteq> None"
  using linked_viewD(6,7) [OF l] by (auto simp: edge_arcs_def)

lemma reverse_topological:
  assumes "post_ordered R order" "acyclic R" "order = xs @ u # ys" "(u, w) \<in> R"
  shows "w \<in> set xs"
proof -
  have "w \<in> set xs \<or> (w, u) \<in> R\<^sup>*" using assms(1,3,4) by (auto simp: post_ordered_def)
  moreover have "(w, u) \<notin> R\<^sup>*" using assms(2,4) by (meson acyclic_def rtrancl_into_trancl2)
  ultimately show ?thesis by blast
qed

lemma DFSFrom_result:
  assumes "linked_view v es" "\<forall>i\<in>set start. graph_node v i \<noteq> None"
  shows "\<exists>order. DFSFrom v start None (Some push_order) comparator edge_filter [] = Some order \<and> distinct order
    \<and> set order = (edge_arcs edge_filter es)\<^sup>* `` set start \<and> post_ordered (edge_arcs edge_filter es) order"
  using search_result [of "out_neighbours comparator edge_filter" v start] assms arcs_alive(1) [OF assms(1), of edge_filter]
  by (simp add: DFSFrom_def out_arcs [OF assms(1)])

lemma ReverseDFSFrom_result:
  assumes "linked_view v es" "\<forall>i\<in>set start. graph_node v i \<noteq> None"
  shows "\<exists>order. ReverseDFSFrom v start None (Some push_order) comparator [] = Some order \<and> distinct order
    \<and> set order = ((edge_arcs None es)\<inverse>)\<^sup>* `` set start \<and> post_ordered ((edge_arcs None es)\<inverse>) order"
  using search_result [of "in_neighbours comparator" v start] assms arcs_alive(2) [OF assms(1), of None]
  by (simp add: ReverseDFSFrom_def in_arcs [OF assms(1)])

text \<open>
  C12: On every graph built by operations of class \<open>Graph\<close> that still has its source, with any
  comparator and edge filter, the search ends and the post-order lists each node that the
  source reaches exactly once; a node comes after all its successors but those that reach it,
  so that without a cycle the order is a reverse topological one.
\<close>

theorem post_order_exact:
  assumes "arena_ok arena" "registry (''_SOURCE'', ''NoOp'') = Inr source" "registry (''_SINK'', ''NoOp'') = Inr sink"
    "run_ok (agraph_step op_defs) (graph_pre op_defs) (first_graph source sink) xs"
    and "fst (run (agraph_step op_defs) (first_graph source sink) xs) = a" "alive (fst a) kSourceId"
    and "R = edge_arcs edge_filter (edges_of a)"
  shows "\<exists>g0 v order. new_graph arena registry = Some g0 \<and> v = view_graph (fst (run (graph_step arena op_defs) g0 xs))
    \<and> GetPostOrder v comparator edge_filter = Some order \<and> distinct order \<and> set order = R\<^sup>* `` {kSourceId}
    \<and> (\<forall>ps u qs w. order = ps @ u # qs \<longrightarrow> (u, w) \<in> R \<longrightarrow> w \<in> set ps \<or> (w, u) \<in> R\<^sup>*)
    \<and> (acyclic R \<longrightarrow> (\<forall>ps u qs w. order = ps @ u # qs \<longrightarrow> (u, w) \<in> R \<longrightarrow> w \<in> set ps))"
proof -
  obtain g0 g where g: "new_graph arena registry = Some g0" "run (graph_step arena op_defs) g0 xs =
      (g, snd (run (agraph_step op_defs) (first_graph source sink) xs))" "abs_graph g = a" "graph_wf arena g"
    using graph_history [OF assms(1-4)] assms(5) by metis
  note l = view_linked(1) [OF g(4), unfolded g(3)]
  have "graph_node (view_graph g) kSourceId \<noteq> None" using view_linked(2) [OF g(4)] assms(6) g(3) by simp
  then obtain order where o: "GetPostOrder (view_graph g) comparator edge_filter = Some order" "distinct order"
    "set order = R\<^sup>* `` {kSourceId}" "post_ordered R order"
    using DFSFrom_result [OF l, of "[kSourceId]" comparator edge_filter] assms(7) by (auto simp: GetPostOrder_def DFS_def)
  then show ?thesis using g(1,2) reverse_topological [OF o(4)] unfolding post_ordered_def
    by (intro exI [of _ g0] exI [of _ "view_graph g"] exI [of _ order]) simp
qed

lemma post_order_exact_witness:
  "\<exists>g0 v order. new_graph Suc sample_registry = Some g0 \<and> v = view_graph (fst (run (graph_step Suc (\<lambda>_. Some 7)) g0 sample_ops))
    \<and> GetPostOrder v None None = Some order \<and> distinct order \<and> set order = {0, 1, 4}"
proof -
  have ar: "arena_ok Suc" by (simp add: arena_ok_def)
  have reg: "sample_registry (''_SOURCE'', ''NoOp'') = Inr (sample_props ''_SOURCE'', False)"
    "sample_registry (''_SINK'', ''NoOp'') = Inr (sample_props ''_SINK'', False)" by (simp_all add: sample_registry_def)
  let ?a = "fst (run (agraph_step (\<lambda>_. Some 7)) (first_graph (sample_props ''_SOURCE'', False) (sample_props ''_SINK'', False)) sample_ops)"
  have a: "alive (fst ?a) kSourceId" "snd ?a = [Some (0, - 1, 1, - 1), None, Some (0, - 1, 4, - 1)]"
    by (simp_all add: sample_ops_def first_graph_def agraph_step_def fresh_anode_def copy_anode_def sample_props_def
      upd_at_def upd_props_def alive_def note_control_input_def caret_def control_between_def forget_def touches_def
      kControlSlot_def kSourceId_def kSinkId_def class_NoOp)
  have R: "edge_arcs None (edges_of ?a) = {(0, 1), (0, 4)}"
    by (simp add: edge_arcs_def edges_of_def a(2) as_edge_def List.map_filter_def)
  have "{(0, 1), (0, 4 :: nat)}\<^sup>* `` {0 :: nat} = {0, 1, 4}"
  proof
    have "w \<in> {0, 1, 4}" if "(u, w) \<in> {(0, 1), (0, 4 :: nat)}\<^sup>*" "u = (0 :: nat)" for u w
      using that by (induction rule: rtrancl_induct) auto
    then show "{(0, 1), (0, 4 :: nat)}\<^sup>* `` {0 :: nat} \<subseteq> {0, 1, 4}" by blast
  qed auto
  then show ?thesis using post_order_exact [OF ar reg sample_replies(2) refl a(1) refl, of None None] unfolding R
    by (metis kSourceId_def)
qed

end
