(* ===== verification/Graph_Cycles.thy ===== *)
theory Graph_Cycles
  imports Graph_Order
begin

text \<open>
  \<open>ValidateGraphHasNoCycle\<close> (core/graph/validate.cc): nodes are taken off in topological order,
  the data edges from a NextIteration to a Merge not counted; what is left over is on a cycle.
\<close>

section \<open>The code\<close>

definition from_next_iteration :: "graph \<Rightarrow> edge \<Rightarrow> bool" where
  "from_next_iteration g e = (\<not> is_control_edge e \<and> (case graph_node g (e_src e) of Some n \<Rightarrow> IsNextIteration n | None \<Rightarrow> False))"

definition initial_count :: "graph \<Rightarrow> gnode \<Rightarrow> int" where
  "initial_count g n = int (length (n_in_edges n))
     - (if IsMerge n then int (length (filter (from_next_iteration g) (n_in_edges n))) else 0)"

record drain =
  dr_ready :: "nat list"
  dr_pending :: "int list"
  dr_processed :: int

definition start_drain :: "graph \<Rightarrow> drain" where
  "start_drain g =
     (let pending = map (\<lambda>i. case graph_node g i of Some n \<Rightarrow> initial_count g n | None \<Rightarrow> 0) [0..<num_node_ids g]
      in \<lparr>dr_ready = rev (filter (\<lambda>i. graph_node g i \<noteq> None \<and> pending ! i = 0) [0..<num_node_ids g]),
          dr_pending = pending, dr_processed = 0\<rparr>)"

definition count_down :: "drain \<Rightarrow> edge \<Rightarrow> drain" where
  "count_down s e =
     (let j = e_dst e; c = dr_pending s ! j - 1
      in s\<lparr>dr_pending := (dr_pending s)[j := c], dr_ready := (if c = 0 then j # dr_ready s else dr_ready s)\<rparr>)"

definition drain_step :: "graph \<Rightarrow> drain \<Rightarrow> drain option" where
  "drain_step g s =
     (case dr_ready s of
        [] \<Rightarrow> None
      | i # rest \<Rightarrow>
          (case graph_node g i of
             None \<Rightarrow> None
           | Some n \<Rightarrow> Some (foldl count_down (s\<lparr>dr_ready := rest, dr_processed := dr_processed s + 1\<rparr>) (n_out_edges n))))"

partial_function (option) drain_loop :: "graph \<Rightarrow> drain \<Rightarrow> drain option" where
  "drain_loop g s = (if dr_ready s \<noteq> [] then Option.bind (drain_step g s) (drain_loop g) else Some s)"

declare drain_loop.simps [code]

text \<open>\<open>absl::StrJoin\<close> is not part of the repository: it is the parameter \<open>join\<close>.\<close>

definition ValidateGraphHasNoCycle :: "(string list \<Rightarrow> string \<Rightarrow> string) \<Rightarrow> graph \<Rightarrow> status option" where
  "ValidateGraphHasNoCycle join g =
     do { s \<leftarrow> drain_loop g (start_drain g);
          let left = int (length (graph_nodes g)) - dr_processed s;
          if 0 < left then do {
            names \<leftarrow> those (map (\<lambda>i. map_option n_name (graph_node g i))
                        (take 3 (filter (\<lambda>i. dr_pending s ! i \<noteq> 0) [0..<length (dr_pending s)])));
            Some (mk_status INVALID_ARGUMENT (''Graph is invalid, contains a cycle with '' @ show_int left
              @ '' nodes, including: '' @ join names '', '')) }
          else Some ok_status }"

section \<open>Counting edges\<close>

definition loop_edge :: "graph \<Rightarrow> edge \<Rightarrow> bool" where
  "loop_edge g e \<longleftrightarrow> from_next_iteration g e \<and> (case graph_node g (e_dst e) of Some n \<Rightarrow> IsMerge n | None \<Rightarrow> False)"

definition wanted :: "graph \<Rightarrow> edge list \<Rightarrow> nat \<Rightarrow> nat" where
  "wanted g es j = length (filter (\<lambda>e. e_dst e = j \<and> \<not> loop_edge g e) es)"

definition edges_from :: "edge list \<Rightarrow> nat set \<Rightarrow> nat \<Rightarrow> nat" where
  "edges_from es X j = length (filter (\<lambda>e. e_dst e = j \<and> e_src e \<in> X) es)"

lemma length_filter_diff: "int (length xs) - int (length (filter P xs)) = int (length (filter (\<lambda>x. \<not> P x) xs))"
  by (induction xs) auto

lemma length_filter_mset: "mset xs = mset ys \<Longrightarrow> length (filter P xs) = length (filter P ys)"
  by (metis mset_filter size_mset)

lemma initial_count_wanted:
  assumes l: "linked_view g es" and n: "graph_node g j = Some n"
  shows "initial_count g n = int (wanted g es j)"
proof -
  note m = linked_viewD(4) [OF l n]
  have len: "length (n_in_edges n) = length (filter (\<lambda>e. e_dst e = j) es)" using m by (metis size_mset)
  have "e_dst e = j" if "e \<in> set (n_in_edges n)" for e using linked_viewD(2) [OF l n] that by simp
  then have "filter (\<lambda>e. \<not> loop_edge g e) (n_in_edges n) = filter (\<lambda>e. \<not> (IsMerge n \<and> from_next_iteration g e)) (n_in_edges n)"
    using n by (intro filter_cong refl) (auto simp: loop_edge_def)
  moreover have "length (filter (\<lambda>e. \<not> loop_edge g e) (n_in_edges n)) = wanted g es j"
    using length_filter_mset [OF m, of "\<lambda>e. \<not> loop_edge g e"] by (simp add: wanted_def conj_commute)
  ultimately have w: "wanted g es j = length (filter (\<lambda>e. \<not> (IsMerge n \<and> from_next_iteration g e)) (n_in_edges n))" by simp
  show ?thesis unfolding initial_count_def w using length_filter_diff [of "n_in_edges n" "from_next_iteration g"] by simp
qed

lemma edges_from_insert:
  assumes l: "linked_view g es" and n: "graph_node g i = Some n" and i: "i \<notin> X"
  shows "edges_from es (insert i X) j = edges_from es X j + length (filter (\<lambda>e. e_dst e = j) (n_out_edges n))"
proof -
  have "length (filter (\<lambda>e. e_dst e = j) (n_out_edges n)) = length (filter (\<lambda>e. e_dst e = j \<and> e_src e = i) es)"
    using length_filter_mset [OF linked_viewD(5) [OF l n], of "\<lambda>e. e_dst e = j"] by (simp add: conj_commute)
  moreover have "edges_from xs (insert i X) j = edges_from xs X j + length (filter (\<lambda>e. e_dst e = j \<and> e_src e = i) xs)" for xs
    using i by (induction xs) (auto simp: edges_from_def)
  ultimately show ?thesis by simp
qed

lemma length_filter_mono: "(\<And>x. x \<in> set xs \<Longrightarrow> P x \<Longrightarrow> Q x) \<Longrightarrow> length (filter P xs) \<le> length (filter Q xs)"
  by (induction xs) (auto simp: le_Suc_eq)

lemma filter_all_in:
  assumes "length (filter P xs) \<le> length (filter Q xs)" "\<And>x. x \<in> set xs \<Longrightarrow> Q x \<Longrightarrow> P x" "x \<in> set xs" "P x"
  shows "Q x"
proof (rule ccontr)
  assume "\<not> Q x"
  then have "length (filter Q xs) < length (filter P xs)"
    using assms(2-4)
  proof (induction xs)
    case (Cons y ys)
    have "length (filter Q ys) \<le> length (filter P ys)" using Cons.prems(2) by (intro length_filter_mono) auto
    then show ?case using Cons by (auto simp: less_Suc_eq)
  qed simp
  then show False using assms(1) by simp
qed

section \<open>The loop\<close>

lemma count_down_all:
  assumes "\<forall>e\<in>set es. e_dst e < length (dr_pending s)" "s' = foldl count_down s es"
  shows "length (dr_pending s') = length (dr_pending s) \<and> dr_processed s' = dr_processed s
    \<and> (\<forall>j<length (dr_pending s). dr_pending s' ! j = dr_pending s ! j - int (length (filter (\<lambda>e. e_dst e = j) es)))
    \<and> (\<exists>new. dr_ready s' = new @ dr_ready s \<and> distinct new
        \<and> set new = {j. j < length (dr_pending s) \<and> 0 < dr_pending s ! j \<and> dr_pending s' ! j \<le> 0})"
  using assms
proof (induction es arbitrary: s)
  case (Cons e es)
  define t where "t = count_down s e"
  have len: "length (dr_pending t) = length (dr_pending s)" and p: "dr_processed t = dr_processed s" by (simp_all add: t_def count_down_def Let_def)
  have e: "e_dst e < length (dr_pending s)" using Cons.prems(1) by simp
  have pend: "dr_pending t ! j = dr_pending s ! j - (if e_dst e = j then 1 else 0)" if "j < length (dr_pending s)" for j
    using that by (auto simp: t_def count_down_def Let_def nth_list_update)
  have ready: "dr_ready t = (if dr_pending s ! e_dst e = 1 then [e_dst e] else []) @ dr_ready s" by (simp add: t_def count_down_def Let_def)
  have "\<forall>e\<in>set es. e_dst e < length (dr_pending t)" "s' = foldl count_down t es" using Cons.prems len by (simp_all add: t_def)
  note ih = Cons.IH [OF this, unfolded len p]
  obtain new where new: "dr_ready s' = new @ dr_ready t" "distinct new"
    "set new = {j. j < length (dr_pending s) \<and> 0 < dr_pending t ! j \<and> dr_pending s' ! j \<le> 0}" using ih by blast
  have all: "dr_pending s' ! j = dr_pending s ! j - int (length (filter (\<lambda>e. e_dst e = j) (e # es)))" if "j < length (dr_pending s)" for j
    using ih pend [OF that] that by auto
  have low: "dr_pending s' ! j \<le> dr_pending t ! j" if "j < length (dr_pending s)" for j using ih that by simp
  define new' where "new' = new @ (if dr_pending s ! e_dst e = 1 then [e_dst e] else [])"
  have "set new' = {j. j < length (dr_pending s) \<and> 0 < dr_pending s ! j \<and> dr_pending s' ! j \<le> 0}"
  proof (rule set_eqI)
    fix j
    show "j \<in> set new' \<longleftrightarrow> j \<in> {j. j < length (dr_pending s) \<and> 0 < dr_pending s ! j \<and> dr_pending s' ! j \<le> 0}"
      using e pend [of j] low [of j] by (auto simp: new'_def new(3) split: if_splits)
  qed
  moreover have "distinct new'" using new(2) pend [OF e] by (auto simp: new'_def new(3))
  moreover have "dr_ready s' = new' @ dr_ready s" by (simp add: new(1) ready new'_def)
  ultimately show ?case using ih all by (intro conjI exI [of _ new']) simp_all
qed auto
text \<open>
  The invariant: some nodes are processed, in an order; the count of a node is what it wanted less
  the edges from processed nodes, and the nodes whose count has run out are ready or processed.
\<close>

definition order_counts :: "graph \<Rightarrow> edge list \<Rightarrow> nat list \<Rightarrow> bool" where
  "order_counts g es order \<longleftrightarrow> (\<forall>ps j qs. order = ps @ j # qs \<longrightarrow> wanted g es j \<le> edges_from es (set ps) j)"

definition drained :: "graph \<Rightarrow> edge list \<Rightarrow> nat list \<Rightarrow> drain \<Rightarrow> bool" where
  "drained g es order s \<longleftrightarrow> length (dr_pending s) = num_node_ids g \<and> dr_processed s = int (length order)
     \<and> distinct (order @ dr_ready s) \<and> (\<forall>j\<in>set (order @ dr_ready s). graph_node g j \<noteq> None)
     \<and> (\<forall>j. graph_node g j \<noteq> None \<longrightarrow> dr_pending s ! j = int (wanted g es j) - int (edges_from es (set order) j)
          \<and> (j \<in> set (order @ dr_ready s) \<longleftrightarrow> dr_pending s ! j \<le> 0))
     \<and> (\<forall>j<num_node_ids g. graph_node g j = None \<longrightarrow> dr_pending s ! j = 0)
     \<and> order_counts g es order"

definition drain_ok :: "graph \<Rightarrow> edge list \<Rightarrow> drain \<Rightarrow> bool" where
  "drain_ok g es s \<longleftrightarrow> linked_view g es \<and> (\<exists>order. drained g es order s)"

definition drain_todo :: "graph \<Rightarrow> drain \<Rightarrow> nat \<times> nat" where
  "drain_todo g s = (nat (int (num_node_ids g) - dr_processed s), 0)"

lemma start_drained:
  assumes l: "linked_view g es"
  shows "drained g es [] (start_drain g)"
proof -
  have pend: "dr_pending (start_drain g) ! j = int (wanted g es j)" if "graph_node g j \<noteq> None" for j
    using that graph_node_lt initial_count_wanted [OF l] by (fastforce simp: start_drain_def Let_def)
  have ready: "set (dr_ready (start_drain g)) = {j. graph_node g j \<noteq> None \<and> dr_pending (start_drain g) ! j = 0}"
    using graph_node_lt by (fastforce simp: start_drain_def Let_def)
  have "distinct (dr_ready (start_drain g))" by (simp add: start_drain_def Let_def)
  then show ?thesis using pend ready
    by (auto simp: drained_def order_counts_def edges_from_def) (simp_all add: start_drain_def Let_def)
qed

lemma order_counts_snoc:
  assumes "order_counts g es order" "wanted g es i \<le> edges_from es (set order) i"
  shows "order_counts g es (order @ [i])"
  unfolding order_counts_def
proof (intro allI impI)
  fix ps j qs assume eq: "order @ [i] = ps @ j # qs"
  show "wanted g es j \<le> edges_from es (set ps) j"
  proof (cases qs rule: rev_cases)
    case Nil
    then show ?thesis using eq assms(2) by auto
  next
    case (snoc zs z)
    then have "order = ps @ j # zs" using eq by simp
    then show ?thesis using assms(1) by (auto simp: order_counts_def)
  qed
qed

lemma drain_progress:
  assumes ok: "drain_ok g es s" and busy: "dr_ready s \<noteq> []"
  shows "\<exists>s'. drain_step g s = Some s' \<and> drain_ok g es s' \<and> (drain_todo g s', drain_todo g s) \<in> less_than <*lex*> less_than"
proof -
  obtain order where l: "linked_view g es" and d: "drained g es order s" using ok by (auto simp: drain_ok_def)
  obtain i rest where r: "dr_ready s = i # rest" using busy by (cases "dr_ready s") auto
  obtain n where n: "graph_node g i = Some n" using d by (auto simp: drained_def r)
  define s' where "s' = foldl count_down (s\<lparr>dr_ready := rest, dr_processed := dr_processed s + 1\<rparr>) (n_out_edges n)"
  have len: "length (dr_pending s) = num_node_ids g" using d by (simp add: drained_def)
  have "e_dst e < num_node_ids g" if "e \<in> set (n_out_edges n)" for e
    using linked_viewD(3) [OF l n] linked_viewD(7) [OF l] graph_node_lt that by fastforce
  then have "\<forall>e\<in>set (n_out_edges n). e_dst e < length (dr_pending (s\<lparr>dr_ready := rest, dr_processed := dr_processed s + 1\<rparr>))"
    by (simp add: len)
  note all = count_down_all [OF this s'_def, simplified, unfolded len]
  obtain new where new: "dr_ready s' = new @ rest" "distinct new"
    "set new = {j. j < num_node_ids g \<and> 0 < dr_pending s ! j \<and> dr_pending s' ! j \<le> 0}" using all by blast
  have fresh: "i \<notin> set order" using d by (auto simp: drained_def r)
  have from_i: "edges_from es (set (order @ [i])) j = edges_from es (set order) j + length (filter (\<lambda>e. e_dst e = j) (n_out_edges n))" for j
    using edges_from_insert [OF l n fresh] by simp
  have alive: "j < num_node_ids g" if "graph_node g j \<noteq> None" for j using that graph_node_lt by fastforce
  have low: "dr_pending s' ! j \<le> dr_pending s ! j" if "j < num_node_ids g" for j using all that by simp
  have member: "j \<in> set (order @ i # rest) \<longleftrightarrow> dr_pending s ! j \<le> 0" if "graph_node g j \<noteq> None" for j
    using d that unfolding drained_def r by blast
  have all_alive: "graph_node g j \<noteq> None" if "j \<in> set (order @ i # rest)" for j using d that unfolding drained_def r by blast
  have "drained g es (order @ [i]) s'"
    unfolding drained_def
  proof (intro conjI allI impI ballI)
    show "length (dr_pending s') = num_node_ids g" "dr_processed s' = int (length (order @ [i]))"
      using all d by (simp_all add: drained_def)
    have "dr_pending s ! j \<le> 0" if "j \<in> set (order @ i # rest)" for j using member all_alive that by blast
    then have "set new \<inter> set (order @ i # rest) = {}" by (fastforce simp: new(3))
    moreover have "distinct (order @ i # rest)" using d by (simp add: drained_def r)
    ultimately show "distinct ((order @ [i]) @ dr_ready s')" using new(2) by (auto simp: new(1))
    have "graph_node g j \<noteq> None" if "j \<in> set new" for j
    proof
      assume "graph_node g j = None"
      then show False using d that unfolding drained_def new(3) by auto
    qed
    then show "graph_node g j \<noteq> None" if "j \<in> set ((order @ [i]) @ dr_ready s')" for j
      using that all_alive by (auto simp: new(1))
    show "order_counts g es (order @ [i])"
    proof (rule order_counts_snoc)
      show "order_counts g es order" using d by (simp add: drained_def)
      have "dr_pending s ! i \<le> 0" "dr_pending s ! i = int (wanted g es i) - int (edges_from es (set order) i)"
        using d n unfolding drained_def r by auto
      then show "wanted g es i \<le> edges_from es (set order) i" by simp
    qed
    show "dr_pending s' ! j = 0" if dead: "j < num_node_ids g" "graph_node g j = None" for j
    proof -
      have "e_dst e \<noteq> j" if "e \<in> set (n_out_edges n)" for e
        using linked_viewD(3) [OF l n] linked_viewD(7) [OF l, of e] that dead(2) by auto
      then have "filter (\<lambda>e. e_dst e = j) (n_out_edges n) = []" by (simp add: filter_empty_conv)
      moreover have "dr_pending s ! j = 0" using d dead unfolding drained_def by blast
      ultimately show ?thesis using all dead(1) by simp
    qed
    fix j assume j: "graph_node g j \<noteq> None"
    have "dr_pending s ! j = int (wanted g es j) - int (edges_from es (set order) j)" using d j unfolding drained_def by blast
    then show "dr_pending s' ! j = int (wanted g es j) - int (edges_from es (set (order @ [i])) j)"
      using all alive [OF j] unfolding from_i by simp
    show "j \<in> set ((order @ [i]) @ dr_ready s') \<longleftrightarrow> dr_pending s' ! j \<le> 0"
      using member [OF j] low [OF alive [OF j]] alive [OF j] by (auto simp: new(1,3))
  qed
  moreover have "drain_step g s = Some s'" by (simp add: drain_step_def r n s'_def)
  moreover have "length order < num_node_ids g"
  proof -
    have "set (order @ [i]) \<subseteq> {..<num_node_ids g}" using all_alive alive by auto
    then have "card (set (order @ [i])) \<le> num_node_ids g" by (metis card_lessThan card_mono finite_lessThan)
    moreover have "distinct (order @ [i])" using d by (simp add: drained_def r)
    ultimately show ?thesis by (metis distinct_card length_append_singleton Suc_le_eq)
  qed
  moreover have "dr_processed s' = int (length order) + 1" "dr_processed s = int (length order)" using all d by (simp_all add: drained_def)
  ultimately show ?thesis using l by (auto simp: drain_ok_def drain_todo_def)
qed

interpretation draining: worklist "\<lambda>s. dr_ready s \<noteq> []" "drain_step g" "drain_loop g" "drain_ok g es" "drain_todo g" for g es
  by unfold_locales (rule drain_loop.simps, rule drain_progress)

section \<open>What the answer means\<close>

definition forward_arcs :: "graph \<Rightarrow> edge list \<Rightarrow> (nat \<times> nat) set" where
  "forward_arcs g es = edge_arcs (Some (\<lambda>e. \<not> loop_edge g e)) es"

text \<open>Every loop closes: the NextIteration comes after the Merge it goes back to.\<close>

definition loops_close :: "graph \<Rightarrow> edge list \<Rightarrow> bool" where
  "loops_close g es \<longleftrightarrow> (\<forall>e\<in>set es. loop_edge g e \<longrightarrow> (e_dst e, e_src e) \<in> (forward_arcs g es)\<^sup>+)"

lemma forward_arc: "(u, w) \<in> forward_arcs g es \<longleftrightarrow> (\<exists>e\<in>set es. \<not> loop_edge g e \<and> e_src e = u \<and> e_dst e = w)"
  by (auto simp: forward_arcs_def edge_arcs_def)

lemma alive_ids: "linked_view g es \<Longrightarrow> {j. graph_node g j \<noteq> None} = set (map n_id (graph_nodes g))"
proof -
  assume l: "linked_view g es"
  have "j \<in> set (map n_id (graph_nodes g))" if "graph_node g j = Some n" for j n
  proof -
    have "n \<in> set (graph_nodes g)" using that by (auto simp: graph_nodes_member graph_node_def split: if_splits)
    then show ?thesis using linked_viewD(1) [OF l that] by force
  qed
  then show ?thesis using graph_nodes_at [OF l] by auto
qed

text \<open>When the loop ends, a node is left over if and only if one of its forward predecessors is, or worse.\<close>

lemma drain_ends:
  assumes l: "linked_view g es"
  obtains s order where "drain_loop g (start_drain g) = Some s" "drained g es order s" "dr_ready s = []"
    "int (length (graph_nodes g)) \<le> dr_processed s \<longleftrightarrow> (\<forall>j. graph_node g j \<noteq> None \<longrightarrow> j \<in> set order)"
proof -
  have "drain_ok g es (start_drain g)" using l start_drained [OF l] by (auto simp: drain_ok_def)
  then obtain s where s: "drain_loop g (start_drain g) = Some s" "drain_ok g es s" "dr_ready s = []"
    using draining.ends by blast
  then obtain order where d: "drained g es order s" by (auto simp: drain_ok_def)
  let ?A = "{j. graph_node g j \<noteq> None}"
  have card: "card ?A = length (graph_nodes g)" "finite ?A"
    unfolding alive_ids [OF l] using distinct_card [OF linked_ids_distinct [OF l]] by simp_all
  have order: "set order \<subseteq> ?A" "distinct order" "dr_processed s = int (length order)"
    using d unfolding drained_def by simp_all blast
  have "length (graph_nodes g) \<le> length order \<longleftrightarrow> ?A \<subseteq> set order"
    unfolding card(1) [symmetric] distinct_card [OF order(2), symmetric]
    using card_seteq [OF card(2) order(1)] card_mono [OF finite_set [of order], of ?A] by blast
  then have "int (length (graph_nodes g)) \<le> dr_processed s \<longleftrightarrow> (\<forall>j. graph_node g j \<noteq> None \<longrightarrow> j \<in> set order)"
    unfolding order(3) by (simp add: subset_iff)
  then show ?thesis by (rule that [OF s(1) d s(3)])
qed

lemma acyclic_drains:
  assumes l: "linked_view g es" and ac: "acyclic (forward_arcs g es)" and d: "drained g es order s" "dr_ready s = []"
    and j: "graph_node g j \<noteq> None"
  shows "j \<in> set order"
  using j
proof (induction j rule: wf_induct_rule [OF finite_acyclic_wf [OF _ ac]])
  case 1
  show ?case by (simp add: forward_arcs_def edge_arcs_def)
next
  case (2 j)
  have "e_src e \<in> set order" if "e \<in> set es" "e_dst e = j" "\<not> loop_edge g e" for e
    using 2(1) [of "e_src e"] linked_viewD(6) [OF l that(1)] that forward_arc by blast
  then have "wanted g es j \<le> edges_from es (set order) j"
    unfolding wanted_def edges_from_def by (intro length_filter_mono) auto
  moreover have "dr_pending s ! j = int (wanted g es j) - int (edges_from es (set order) j) \<and> (j \<in> set order \<longleftrightarrow> dr_pending s ! j \<le> 0)"
    using d 2(2) unfolding drained_def by auto
  ultimately show ?case by simp
qed

text \<open>With loops that close, a node is taken off only after all its forward predecessors.\<close>

lemma drained_in_order:
  assumes l: "linked_view g es" and cl: "loops_close g es" and d: "distinct order" "order_counts g es order"
    and eq: "order = ps @ j # qs" and arc: "(i, j) \<in> forward_arcs g es"
  shows "i \<in> set ps"
  using eq arc
proof (induction "length ps" arbitrary: ps j qs i rule: less_induct)
  case less
  have closed: "u \<in> set ps" if w: "w \<in> set ps" "(u, w) \<in> forward_arcs g es" for u w
  proof -
    obtain xs ys where ps: "ps = xs @ w # ys" using w(1) by (meson split_list)
    have "u \<in> set xs" using less(1) [of xs w "ys @ j # qs" u] less(2) w(2) by (simp add: ps)
    then show ?thesis by (simp add: ps)
  qed
  have up: "u \<in> set ps" if "(u, w) \<in> (forward_arcs g es)\<^sup>+" "w \<in> set ps" for u w
    using that by (induction rule: trancl_induct) (use closed in blast)+
  have new: "j \<notin> set ps" using d(1) less(2) by auto
  have fwd: "\<not> loop_edge g e" if "e \<in> set es" "e_dst e = j \<and> e_src e \<in> set ps" for e
    using cl up that new unfolding loops_close_def by blast
  have "wanted g es j \<le> edges_from es (set ps) j" using d(2) less(2) by (auto simp: order_counts_def)
  moreover obtain e where e: "e \<in> set es" "\<not> loop_edge g e" "e_src e = i" "e_dst e = j" using less(3) forward_arc by blast
  ultimately have "e_dst e = j \<and> e_src e \<in> set ps"
    using fwd filter_all_in [of "\<lambda>e. e_dst e = j \<and> \<not> loop_edge g e" es "\<lambda>e. e_dst e = j \<and> e_src e \<in> set ps" e]
    unfolding wanted_def edges_from_def by blast
  then show ?case using e by simp
qed

lemma drained_acyclic:
  assumes l: "linked_view g es" and cl: "loops_close g es" and d: "distinct order" "order_counts g es order"
    and all: "\<forall>j. graph_node g j \<noteq> None \<longrightarrow> j \<in> set order"
  shows "acyclic (forward_arcs g es)"
proof -
  define at where "at = (\<lambda>x. - int (length (takeWhile (\<lambda>y. y \<noteq> x) order)))"
  have first: "length (takeWhile (\<lambda>y. y \<noteq> u) (ps @ xs)) < length ps" if "u \<in> set ps" for u ps and xs :: "nat list"
    using that by (induction ps) auto
  have "at w < at u" if arc: "(u, w) \<in> forward_arcs g es" for u w
  proof -
    obtain e where "e \<in> set es" "e_dst e = w" using arc forward_arc by blast
    then have "w \<in> set order" using linked_viewD(7) [OF l] all by blast
    then obtain ps qs where o: "order = ps @ w # qs" by (meson split_list)
    have u: "u \<in> set ps" using drained_in_order [OF l cl d o arc] .
    have "takeWhile (\<lambda>y. y \<noteq> w) order = ps" using d(1) unfolding o by (subst takeWhile_append2) auto
    then show ?thesis using first [OF u, of "w # qs"] by (simp add: at_def o)
  qed
  then show ?thesis by (rule acyclicI_order)
qed

lemma those_Some: "\<forall>i\<in>set xs. f i \<noteq> None \<Longrightarrow> \<exists>ys. those (map f xs) = Some ys"
  by (induction xs) auto

lemma validate_result:
  assumes l: "linked_view g es"
  shows "\<exists>st. ValidateGraphHasNoCycle join g = Some st \<and> (acyclic (forward_arcs g es) \<longrightarrow> st = ok_status)
    \<and> (loops_close g es \<longrightarrow> status_ok st \<longrightarrow> acyclic (forward_arcs g es))"
proof -
  obtain s order where s: "drain_loop g (start_drain g) = Some s" "drained g es order s" "dr_ready s = []"
    "int (length (graph_nodes g)) \<le> dr_processed s \<longleftrightarrow> (\<forall>j. graph_node g j \<noteq> None \<longrightarrow> j \<in> set order)"
    using drain_ends [OF l] by blast
  let ?ids = "take 3 (filter (\<lambda>i. dr_pending s ! i \<noteq> 0) [0..<length (dr_pending s)])"
  have "graph_node g i \<noteq> None" if "i \<in> set ?ids" for i
  proof
    assume dead: "graph_node g i = None"
    have "i < num_node_ids g" "dr_pending s ! i \<noteq> 0" using s(2) that by (auto dest!: in_set_takeD simp: drained_def)
    then show False using s(2) dead unfolding drained_def by blast
  qed
  then obtain names where names: "those (map (\<lambda>i. map_option n_name (graph_node g i)) ?ids) = Some names"
    using those_Some [of ?ids "\<lambda>i. map_option n_name (graph_node g i)"] by fastforce
  have d: "distinct order" "order_counts g es order" using s(2) by (simp_all add: drained_def)
  show ?thesis
  proof (cases "\<forall>j. graph_node g j \<noteq> None \<longrightarrow> j \<in> set order")
    case True
    then have "ValidateGraphHasNoCycle join g = Some ok_status" using s(1,4) by (simp add: ValidateGraphHasNoCycle_def Let_def)
    then show ?thesis using drained_acyclic [OF l _ d True] by blast
  next
    case False
    then have "\<not> acyclic (forward_arcs g es)" using acyclic_drains [OF l _ s(2,3)] by blast
    moreover have "\<not> status_ok (mk_status INVALID_ARGUMENT msg)" for msg by (simp add: status_ok_def mk_status_def status_code_def)
    moreover have "dr_processed s < int (length (graph_nodes g))" using False s(4) not_le by blast
    ultimately show ?thesis using s(1) names by (simp add: ValidateGraphHasNoCycle_def Let_def)
  qed
qed

text \<open>
  C9: On every graph built by operations of class \<open>Graph\<close> the check ends with a status. It never
  refuses a graph without cycles: if the edges other than those from a NextIteration back to a
  Merge have none the status is ok. When each NextIteration comes after the Merge it goes back
  to, an ok status means that there is no other cycle.
\<close>

theorem no_cycle_exact:
  assumes "arena_ok arena" "registry (''_SOURCE'', ''NoOp'') = Inr source" "registry (''_SINK'', ''NoOp'') = Inr sink"
    "run_ok (agraph_step op_defs) (graph_pre op_defs) (first_graph source sink) xs"
    and "edges_of (fst (run (agraph_step op_defs) (first_graph source sink) xs)) = es"
  shows "\<exists>g0 v st. new_graph arena registry = Some g0 \<and> v = view_graph (fst (run (graph_step arena op_defs) g0 xs))
    \<and> ValidateGraphHasNoCycle join v = Some st \<and> (acyclic (forward_arcs v es) \<longrightarrow> st = ok_status)
    \<and> (loops_close v es \<longrightarrow> status_ok st \<longrightarrow> acyclic (forward_arcs v es))"
proof -
  obtain g0 g where g: "new_graph arena registry = Some g0" "run (graph_step arena op_defs) g0 xs =
      (g, snd (run (agraph_step op_defs) (first_graph source sink) xs))" "edges_of (abs_graph g) = es" "graph_wf arena g"
    using graph_history [OF assms(1-4)] assms(5) by metis
  obtain st where "ValidateGraphHasNoCycle join (view_graph g) = Some st" "acyclic (forward_arcs (view_graph g) es) \<longrightarrow> st = ok_status"
    "loops_close (view_graph g) es \<longrightarrow> status_ok st \<longrightarrow> acyclic (forward_arcs (view_graph g) es)"
    using validate_result [OF view_linked(1) [OF g(4), unfolded g(3)]] by blast
  then show ?thesis using g(1,2) by (intro exI [of _ g0] exI [of _ "view_graph g"] exI [of _ st]) simp
qed

lemma no_cycle_exact_witness:
  "\<exists>g0 v. new_graph Suc sample_registry = Some g0 \<and> v = view_graph (fst (run (graph_step Suc (\<lambda>_. Some 7)) g0 sample_ops))
    \<and> ValidateGraphHasNoCycle (\<lambda>xs sep. concat xs) v = Some ok_status"
proof -
  have ar: "arena_ok Suc" by (simp add: arena_ok_def)
  have reg: "sample_registry (''_SOURCE'', ''NoOp'') = Inr (sample_props ''_SOURCE'', False)"
    "sample_registry (''_SINK'', ''NoOp'') = Inr (sample_props ''_SINK'', False)" by (simp_all add: sample_registry_def)
  let ?es = "edges_of (fst (run (agraph_step (\<lambda>_. Some 7)) (first_graph (sample_props ''_SOURCE'', False) (sample_props ''_SINK'', False)) sample_ops))"
  have es: "map (\<lambda>e. (e_src e, e_dst e)) ?es = [(0, 1), (0, 4)]"
    by (simp add: sample_ops_def first_graph_def agraph_step_def fresh_anode_def copy_anode_def sample_props_def
      upd_at_def upd_props_def alive_def note_control_input_def caret_def control_between_def forget_def touches_def
      kControlSlot_def kSourceId_def kSinkId_def class_NoOp edges_of_def as_edge_def List.map_filter_def)
  have "forward_arcs v ?es \<subseteq> set (map (\<lambda>e. (e_src e, e_dst e)) ?es)" for v by (auto simp: forward_arcs_def edge_arcs_def)
  then have "forward_arcs v ?es \<subseteq> less_than" for v unfolding es by force
  then have "acyclic (forward_arcs v ?es)" for v by (rule acyclic_subset [OF wf_acyclic [OF wf_less_than]])
  then show ?thesis using no_cycle_exact [OF ar reg sample_replies(2) refl, of "\<lambda>xs sep. concat xs"] by metis
qed

section \<open>A cycle that is not seen\<close>

text \<open>
  A NextIteration that does not come after its Merge takes the place of a real input: the Merge
  is ready at once, and a cycle through it is drained with the rest.
\<close>

definition plain_node :: "nat \<Rightarrow> node_class \<Rightarrow> edge list \<Rightarrow> edge list \<Rightarrow> gnode option" where
  "plain_node i c es_in es_out = Some \<lparr>n_id = i, n_name = ''n'', n_op = ''op'', n_class = c, n_in_edges = es_in, n_out_edges = es_out,
     n_input_types = [], n_output_types = [], n_attrs = [], n_allows_uninitialized_input = False\<rparr>"

definition data_edge :: "nat \<Rightarrow> nat \<Rightarrow> int \<Rightarrow> edge" where
  "data_edge s d y = \<lparr>e_src = s, e_dst = d, e_src_output = 0, e_dst_input = y\<rparr>"

definition stray_graph :: graph where
  "stray_graph = [plain_node 0 NC_OTHER [] [data_edge 0 1 0], plain_node 1 NC_NEXT_ITERATION [data_edge 0 1 0] [data_edge 1 2 0],
     plain_node 2 NC_MERGE [data_edge 1 2 0, data_edge 3 2 1] [data_edge 2 3 0], plain_node 3 NC_OTHER [data_edge 2 3 0] [data_edge 3 2 1]]"

definition stray_edges :: "edge list" where
  "stray_edges = [data_edge 0 1 0, data_edge 1 2 0, data_edge 2 3 0, data_edge 3 2 1]"

lemma stray_cycle_accepted:
  "linked_view stray_graph stray_edges" "ValidateGraphHasNoCycle join stray_graph = Some ok_status"
  "\<not> acyclic (forward_arcs stray_graph stray_edges)"
proof -
  note defs = stray_graph_def stray_edges_def plain_node_def data_edge_def
  show "linked_view stray_graph stray_edges"
    by (auto simp: linked_view_def defs graph_node_def less_Suc_eq split: if_splits)
  have "(2, 3) \<in> forward_arcs stray_graph stray_edges" "(3, 2) \<in> forward_arcs stray_graph stray_edges"
    by (simp_all add: forward_arcs_def edge_arcs_def defs loop_edge_def from_next_iteration_def graph_node_def IsNextIteration_def)
  then show "\<not> acyclic (forward_arcs stray_graph stray_edges)" by (meson acyclic_def r_into_trancl' trancl.trancl_into_trancl)
  show "ValidateGraphHasNoCycle join stray_graph = Some ok_status"
    by (simp add: ValidateGraphHasNoCycle_def start_drain_def drain_loop.simps drain_step_def count_down_def defs initial_count_def
        from_next_iteration_def graph_node_def graph_nodes_def num_node_ids_def IsMerge_def IsNextIteration_def is_control_edge_def
        kControlSlot_def List.map_filter_def upt_conv_Cons Let_def)
qed

end
