(* ===== verification/Graph_Prune.thy ===== *)
theory Graph_Prune
  imports Graph_Order
begin

text \<open>
  \<open>PruneForReverseReachability\<close> and \<open>FixupSourceAndSinkEdges\<close> of core/graph/algorithm.cc: what they
  leave of a graph and what they add to it. The breadth-first search reads the graph through
  its view, the changes are those of class \<open>Graph\<close>.
\<close>

section \<open>The code\<close>

record reach =
  rc_visited :: "bool list"
  rc_queue :: "nat list"

definition visit_in :: "reach \<Rightarrow> nat \<Rightarrow> reach" where
  "visit_in s i = (if rc_visited s ! i then s
     else s\<lparr>rc_visited := (rc_visited s)[i := True], rc_queue := rc_queue s @ [i]\<rparr>)"

definition reach_step :: "graph \<Rightarrow> reach \<Rightarrow> reach option" where
  "reach_step g s =
     (case rc_queue s of
        [] \<Rightarrow> None
      | i # rest \<Rightarrow>
          (case graph_node g i of
             None \<Rightarrow> None
           | Some n \<Rightarrow> Some (foldl visit_in (s\<lparr>rc_queue := rest\<rparr>) (map e_src (n_in_edges n)))))"

partial_function (option) reach_loop :: "graph \<Rightarrow> reach \<Rightarrow> reach option" where
  "reach_loop g s = (if rc_queue s \<noteq> [] then Option.bind (reach_step g s) (reach_loop g) else Some s)"

declare reach_loop.simps [code]

definition start_reach :: "graph \<Rightarrow> nat list \<Rightarrow> reach" where
  "start_reach g start = \<lparr>rc_visited = foldl (\<lambda>vs i. vs[i := True]) (replicate (num_node_ids g) False) start, rc_queue = start\<rparr>"

text \<open>The pass over the ids, which removes what was not visited.\<close>

fun prune_pass :: "nat list \<Rightarrow> bool list \<Rightarrow> bool \<Rightarrow> graph_state \<Rightarrow> (bool \<times> graph_state) option" where
  "prune_pass [] visited any_removed g = Some (any_removed, g)"
| "prune_pass (i # is) visited any_removed g =
     (if visited ! i then prune_pass is visited any_removed g
      else let p = FindNodeId i g in
        if p = 0 then prune_pass is visited any_removed g
        else do { n \<leftarrow> gr_node_objs g p;
                  if is_source_obj n \<or> is_sink_obj n then prune_pass is visited any_removed g
                  else do { g' \<leftarrow> RemoveNode p g; prune_pass is visited True g' } })"

text \<open>The set of start nodes is unordered: \<open>start\<close> is any enumeration of it.\<close>

definition PruneForReverseReachability :: "nat list \<Rightarrow> graph_state \<Rightarrow> (bool \<times> graph_state) option" where
  "PruneForReverseReachability start g =
     do { s \<leftarrow> reach_loop (view_graph g) (start_reach (view_graph g) start);
          prune_pass [0..<length (rc_visited s)] (rc_visited s) False g }"

fun fixup_pass :: "(nat \<Rightarrow> nat) \<Rightarrow> nat list \<Rightarrow> bool \<Rightarrow> graph_state \<Rightarrow> (bool \<times> graph_state) option" where
  "fixup_pass arena [] changed g = Some (changed, g)"
| "fixup_pass arena (i # is) changed g =
     (let p = FindNodeId i g in
      if p = 0 then fixup_pass arena is changed g
      else do {
        n \<leftarrow> gr_node_objs g p;
        (c1, g1) \<leftarrow> (if \<not> is_source_obj n \<and> es_empty (no_in n)
                    then map_option (\<lambda>(e, g'). (True, g')) (AddControlEdge arena (FindNodeId kSourceId g) p True g)
                    else Some (changed, g));
        n1 \<leftarrow> gr_node_objs g1 p;
        (c2, g2) \<leftarrow> (if \<not> is_sink_obj n1 \<and> es_empty (no_out n1)
                    then map_option (\<lambda>(e, g'). (True, g')) (AddControlEdge arena p (FindNodeId kSinkId g1) True g1)
                    else Some (c1, g1));
        fixup_pass arena is c2 g2 })"

definition FixupSourceAndSinkEdges :: "(nat \<Rightarrow> nat) \<Rightarrow> graph_state \<Rightarrow> (bool \<times> graph_state) option" where
  "FixupSourceAndSinkEdges arena g = fixup_pass arena [0..<length (gr_nodes g)] False g"

section \<open>The search\<close>

definition reach_ok :: "graph \<Rightarrow> edge list \<Rightarrow> nat set \<Rightarrow> reach \<Rightarrow> bool" where
  "reach_ok g es start s \<longleftrightarrow> linked_view g es \<and> length (rc_visited s) = num_node_ids g
     \<and> (\<forall>i\<in>set (rc_queue s). graph_node g i \<noteq> None \<and> rc_visited s ! i) \<and> (\<forall>i\<in>start. i < num_node_ids g \<and> rc_visited s ! i)
     \<and> (\<forall>i<num_node_ids g. rc_visited s ! i \<longrightarrow> (\<exists>j\<in>start. (i, j) \<in> (edge_arcs None es)\<^sup>*)
          \<and> (i \<in> set (rc_queue s) \<or> (\<forall>u. (u, i) \<in> edge_arcs None es \<longrightarrow> rc_visited s ! u)))"

definition reach_todo :: "reach \<Rightarrow> nat \<times> nat" where
  "reach_todo s = (length (filter Not (rc_visited s)) + length (rc_queue s), 0)"

lemma unvisited_Suc:
  "i < length vs \<Longrightarrow> \<not> vs ! i \<Longrightarrow> Suc (length (filter Not (vs[i := True]))) = length (filter Not vs)"
proof (induction vs arbitrary: i)
  case (Cons v vs)
  then show ?case by (cases i) auto
qed simp

lemma visit_in_all:
  assumes "\<forall>i\<in>set ws. i < length (rc_visited s)" "s' = foldl visit_in s ws"
  shows "length (rc_visited s') = length (rc_visited s) \<and> reach_todo s' = reach_todo s
    \<and> (\<forall>i<length (rc_visited s). rc_visited s' ! i \<longleftrightarrow> rc_visited s ! i \<or> i \<in> set ws)
    \<and> set (rc_queue s') = set (rc_queue s) \<union> {i \<in> set ws. \<not> rc_visited s ! i}"
  using assms
proof (induction ws arbitrary: s)
  case (Cons w ws)
  define t where "t = visit_in s w"
  have w: "w < length (rc_visited s)" using Cons.prems(1) by simp
  have t: "length (rc_visited t) = length (rc_visited s)" "reach_todo t = reach_todo s"
    "\<And>i. i < length (rc_visited s) \<Longrightarrow> rc_visited t ! i \<longleftrightarrow> rc_visited s ! i \<or> i = w"
    "set (rc_queue t) = set (rc_queue s) \<union> {i. i = w \<and> \<not> rc_visited s ! i}"
    using unvisited_Suc [OF w] w by (auto simp: t_def visit_in_def reach_todo_def nth_list_update)
  have "\<forall>i\<in>set ws. i < length (rc_visited t)" "s' = foldl visit_in t ws" using Cons.prems t(1) by (simp_all add: t_def)
  note ih = Cons.IH [OF this]
  have "i < length (rc_visited s)" if "i \<in> set ws" for i using Cons.prems(1) that by simp
  then have "set (rc_queue s') = set (rc_queue s) \<union> {i \<in> set (w # ws). \<not> rc_visited s ! i}"
    using ih t(3) unfolding t(4) by auto
  then show ?case using ih t by auto
qed simp

lemma reach_progress:
  assumes ok: "reach_ok g es start s" and busy: "rc_queue s \<noteq> []"
  shows "\<exists>s'. reach_step g s = Some s' \<and> reach_ok g es start s' \<and> (reach_todo s', reach_todo s) \<in> less_than <*lex*> less_than"
proof -
  obtain i rest where q: "rc_queue s = i # rest" using busy by (cases "rc_queue s") auto
  have l: "linked_view g es" and len: "length (rc_visited s) = num_node_ids g" using ok by (simp_all add: reach_ok_def)
  obtain n where n: "graph_node g i = Some n" using ok by (auto simp: reach_ok_def q)
  define ws where "ws = map e_src (n_in_edges n)"
  define s' where "s' = foldl visit_in (s\<lparr>rc_queue := rest\<rparr>) ws"
  have ws: "u \<in> set ws \<longleftrightarrow> (u, i) \<in> edge_arcs None es" for u using linked_viewD(2) [OF l n] by (auto simp: ws_def edge_arcs_def)
  have alive: "graph_node g u \<noteq> None \<and> u < num_node_ids g" if "u \<in> set ws" for u
    using that linked_viewD(6) [OF l] graph_node_lt by (fastforce simp: ws edge_arcs_def)
  have "\<forall>u\<in>set ws. u < length (rc_visited (s\<lparr>rc_queue := rest\<rparr>))" using alive len by simp
  note all = visit_in_all [OF this s'_def, simplified, unfolded len]
  have i: "rc_visited s ! i" "i < num_node_ids g" using ok n graph_node_lt by (auto simp: reach_ok_def q)
  obtain j where j: "j \<in> start" "(i, j) \<in> (edge_arcs None es)\<^sup>*" using ok i unfolding reach_ok_def by blast
  have "reach_ok g es start s'"
    unfolding reach_ok_def
  proof (intro conjI l ballI allI impI)
    show "length (rc_visited s') = num_node_ids g" using all by simp
    fix u assume "u \<in> set (rc_queue s')"
    then show "graph_node g u \<noteq> None" "rc_visited s' ! u"
      using all alive ok graph_node_lt unfolding reach_ok_def q by fastforce+
  next
    fix u assume "u \<in> start"
    then show "u < num_node_ids g" "rc_visited s' ! u" using all ok unfolding reach_ok_def by blast+
  next
    fix u assume u: "u < num_node_ids g" "rc_visited s' ! u"
    show "\<exists>j\<in>start. (u, j) \<in> (edge_arcs None es)\<^sup>*"
      using u all ok ws j converse_rtrancl_into_rtrancl unfolding reach_ok_def by metis
    show "u \<in> set (rc_queue s') \<or> (\<forall>w. (w, u) \<in> edge_arcs None es \<longrightarrow> rc_visited s' ! w)"
    proof (cases "rc_visited s ! u")
      case False
      then show ?thesis using u all by blast
    next
      case True
      have "w < num_node_ids g" if "(w, u) \<in> edge_arcs None es" for w
        using that linked_viewD(6) [OF l] graph_node_lt by (fastforce simp: edge_arcs_def)
      moreover have "u \<in> set (i # rest) \<or> (\<forall>w. (w, u) \<in> edge_arcs None es \<longrightarrow> rc_visited s ! w)"
        using ok u(1) True unfolding reach_ok_def q by blast
      ultimately show ?thesis using all ws by auto
    qed
  qed
  moreover have "(reach_todo s', reach_todo s) \<in> less_than <*lex*> less_than" using all by (simp add: reach_todo_def q)
  moreover have "reach_step g s = Some s'" by (simp add: reach_step_def q n s'_def ws_def)
  ultimately show ?thesis by blast
qed

interpretation reaching: worklist "\<lambda>s. rc_queue s \<noteq> []" "reach_step g" "reach_loop g" "reach_ok g es start" reach_todo for g es start
  by unfold_locales (rule reach_loop.simps, rule reach_progress)

lemma reach_result:
  assumes l: "linked_view g es" and start: "\<forall>i\<in>set start. graph_node g i \<noteq> None"
  shows "\<exists>s. reach_loop g (start_reach g start) = Some s \<and> length (rc_visited s) = num_node_ids g
    \<and> (\<forall>i<num_node_ids g. rc_visited s ! i \<longleftrightarrow> (\<exists>j\<in>set start. (i, j) \<in> (edge_arcs None es)\<^sup>*))"
proof -
  have upd: "vs[a := True] ! i \<longleftrightarrow> vs ! i \<or> i = a" if "i < length vs" for vs :: "bool list" and a i
    using that by (cases "i = a") auto
  have mark: "length (foldl (\<lambda>vs i. vs[i := True]) vs xs) = length vs
      \<and> (\<forall>i<length vs. foldl (\<lambda>vs i. vs[i := True]) vs xs ! i \<longleftrightarrow> vs ! i \<or> i \<in> set xs)" for vs :: "bool list" and xs
    by (induction xs arbitrary: vs) (auto simp: upd)
  have lt: "i < num_node_ids g" if "i \<in> set start" for i using start graph_node_lt that by fastforce
  have "reach_ok g es (set start) (start_reach g start)"
    using l start mark [of "replicate (num_node_ids g) False" start] lt by (auto simp: reach_ok_def start_reach_def)
  then obtain s where s: "reach_loop g (start_reach g start) = Some s" "reach_ok g es (set start) s" "rc_queue s = []"
    using reaching.ends by blast
  have closed: "rc_visited s ! u" if "rc_visited s ! w" "w < num_node_ids g" "(u, w) \<in> edge_arcs None es" for u w
    using s(2,3) that by (simp add: reach_ok_def)
  have "rc_visited s ! i" if "(i, j) \<in> (edge_arcs None es)\<^sup>*" "j \<in> set start" for i j
    using that
  proof (induction rule: converse_rtrancl_induct)
    case base
    then show ?case using s(2) by (auto simp: reach_ok_def)
  next
    case (step u w)
    then have "w < num_node_ids g" using linked_viewD(7) [OF l] graph_node_lt by (fastforce simp: edge_arcs_def)
    then show ?case using closed step by blast
  qed
  then show ?thesis using s by (auto simp: reach_ok_def)
qed

section \<open>The removal\<close>

text \<open>The part of an abstract graph on the nodes with a property.\<close>

definition keep :: "(nat \<Rightarrow> bool) \<Rightarrow> agraph \<Rightarrow> agraph" where
  "keep P a = (map (\<lambda>i. if P i then fst a ! i else None) [0..<length (fst a)], forget (\<lambda>(s, x, d, y). \<not> (P s \<and> P d)) (snd a))"

definition ends_alive :: "agraph \<Rightarrow> bool" where
  "ends_alive a \<longleftrightarrow> (\<forall>s x d y. Some (s, x, d, y) \<in> set (snd a) \<longrightarrow> alive (fst a) s \<and> alive (fst a) d)"

lemma keep_cong:
  assumes "ends_alive a" "\<And>i. alive (fst a) i \<Longrightarrow> P i = Q i"
  shows "keep P a = keep Q a"
proof -
  have "(if P i then fst a ! i else None) = (if Q i then fst a ! i else None)" if "i < length (fst a)" for i
    using assms(2) [of i] that by (cases "fst a ! i") (auto simp: alive_def)
  moreover have "forget (\<lambda>(s, x, d, y). \<not> (P s \<and> P d)) (snd a) = forget (\<lambda>(s, x, d, y). \<not> (Q s \<and> Q d)) (snd a)"
    unfolding forget_def using assms by (intro map_cong refl) (auto simp: ends_alive_def split: option.splits)
  ultimately show ?thesis by (simp add: keep_def)
qed

lemma keep_all: "keep (\<lambda>i. True) a = a"
proof -
  have "forget (\<lambda>(s, x, d, y). False) es = es" for es :: "(nat \<times> int \<times> nat \<times> int) option list"
    by (induction es) (auto simp: forget_def split: option.splits)
  moreover have "map (\<lambda>i. fst a ! i) [0..<length (fst a)] = fst a" by (rule map_nth)
  ultimately show ?thesis by (cases a) (simp add: keep_def)
qed

lemma keep_keep: "keep P (keep Q a) = keep (\<lambda>i. P i \<and> Q i) a"
proof -
  have "forget (\<lambda>(s, x, d, y). \<not> (P s \<and> P d)) (forget (\<lambda>(s, x, d, y). \<not> (Q s \<and> Q d)) es)
      = forget (\<lambda>(s, x, d, y). \<not> ((P s \<and> Q s) \<and> (P d \<and> Q d))) es" for es :: "(nat \<times> int \<times> nat \<times> int) option list"
    by (induction es) (auto simp: forget_def split: option.splits)
  then show ?thesis by (auto simp: keep_def)
qed

lemma keep_alive: "alive (fst (keep P a)) i \<longleftrightarrow> P i \<and> alive (fst a) i"
  by (cases "i < length (fst a)") (simp_all add: keep_def alive_def)

lemma remove_is_keep: "(ns[i := None], forget (touches i) es) = keep (\<lambda>j. j \<noteq> i) (ns, es)"
proof -
  have "forget (touches i) es = forget (\<lambda>(s, x, d, y). \<not> (s \<noteq> i \<and> d \<noteq> i)) es"
    unfolding forget_def by (intro map_cong refl) (auto simp: touches_def split: option.splits)
  moreover have "ns[i := None] = map (\<lambda>j. if j \<noteq> i then ns ! j else None) [0..<length ns]"
    by (rule nth_equalityI) (auto simp: nth_list_update)
  ultimately show ?thesis by (simp add: keep_def)
qed

lemma wf_ends_alive:
  assumes wf: "graph_wf arena g"
  shows "ends_alive (abs_graph g)"
  unfolding ends_alive_def
proof (intro allI impI)
  fix s x d y assume "Some (s, x, d, y) \<in> set (snd (abs_graph g))"
  then have "as_edge (s, x, d, y) \<in> set (edges_of (abs_graph g))" by (force simp: edges_of_def List.map_filter_def)
  then show "alive (fst (abs_graph g)) s \<and> alive (fst (abs_graph g)) d"
    using linked_viewD(6,7) [OF view_linked(1) [OF wf]] view_linked(2) [OF wf] by (force simp: as_edge_def)
qed

lemma FindNodeId_null:
  assumes "graph_wf arena g" "i < length (gr_nodes g)"
  shows "FindNodeId i g = 0 \<longleftrightarrow> \<not> alive (fst (abs_graph g)) i"
proof
  assume "FindNodeId i g = 0"
  then show "\<not> alive (fst (abs_graph g)) i" by (simp add: FindNodeId_def alive_def abs_graph_def assms(2))
next
  assume dead: "\<not> alive (fst (abs_graph g)) i"
  show "FindNodeId i g = 0"
  proof (rule ccontr)
    assume "FindNodeId i g \<noteq> 0"
    then have "FindNodeId i g \<in> live_nodes g" using assms(2) by (auto simp: FindNodeId_def live_nodes_def)
    then obtain n where "abs_node g (FindNodeId i g) = Some n" using abs_node_live [OF assms(1)] by metis
    then show False using dead assms(2) \<open>FindNodeId i g \<noteq> 0\<close> by (simp add: FindNodeId_def alive_def abs_graph_def)
  qed
qed

definition condemned :: "bool list \<Rightarrow> nat \<Rightarrow> bool" where
  "condemned visited i \<longleftrightarrow> \<not> visited ! i \<and> i \<noteq> kSourceId \<and> i \<noteq> kSinkId"

lemma prune_pass_ok:
  assumes "graph_wf arena g" "\<forall>i\<in>set is. i < length (gr_nodes g)"
  shows "\<exists>any' g'. prune_pass is visited any_removed g = Some (any', g') \<and> graph_wf arena g'
    \<and> abs_graph g' = keep (\<lambda>i. i \<notin> set is \<or> \<not> condemned visited i) (abs_graph g)
    \<and> (any' \<longleftrightarrow> any_removed \<or> (\<exists>i\<in>set is. alive (fst (abs_graph g)) i \<and> condemned visited i))"
  using assms
proof (induction "is" arbitrary: g any_removed)
  case Nil
  then show ?case by (simp add: keep_all)
next
  case (Cons i "is")
  let ?a = "abs_graph g"
  have i: "i < length (gr_nodes g)" using Cons.prems(2) by simp
  note null = FindNodeId_null [OF Cons.prems(1) i]
  show ?case
  proof (cases "alive (fst ?a) i \<and> condemned visited i")
    case False
    have "prune_pass (i # is) visited any_removed g = prune_pass is visited any_removed g"
    proof (cases "alive (fst ?a) i")
      case True
      note p = alive_node(1,2) [OF Cons.prems(1) True]
      obtain n where n: "gr_node_objs g (FindNodeId i g) = Some n" "is_source_obj n \<longleftrightarrow> i = kSourceId" "is_sink_obj n \<longleftrightarrow> i = kSinkId"
        using node_facts [OF Cons.prems(1) p(1)] p(2) by metis
      then show ?thesis using False True by (auto simp: condemned_def Let_def)
    qed (simp add: null Let_def)
    moreover have "keep (\<lambda>j. j \<notin> set (i # is) \<or> \<not> condemned visited j) ?a = keep (\<lambda>j. j \<notin> set is \<or> \<not> condemned visited j) ?a"
      using False by (intro keep_cong wf_ends_alive [OF Cons.prems(1)]) auto
    ultimately show ?thesis using Cons.IH [OF Cons.prems(1), of any_removed] Cons.prems(2) False by auto
  next
    case True
    note p = alive_node(1,2) [OF Cons.prems(1) conjunct1 [OF True]]
    obtain n where n: "gr_node_objs g (FindNodeId i g) = Some n" "is_source_obj n \<longleftrightarrow> i = kSourceId" "is_sink_obj n \<longleftrightarrow> i = kSinkId"
      using node_facts [OF Cons.prems(1) p(1)] p(2) by metis
    obtain g1 where g1: "RemoveNode (FindNodeId i g) g = Some g1" "graph_wf arena g1"
      "abs_graph g1 = ((fst ?a)[i := None], forget (touches i) (snd ?a))"
      using sim_RemoveNode [OF Cons.prems(1) p(1)] unfolding p(2) by blast
    have a1: "abs_graph g1 = keep (\<lambda>j. j \<noteq> i) ?a" using g1(3) remove_is_keep [of "fst ?a" i "snd ?a"] by simp
    have "length (gr_nodes g1) = length (gr_nodes g)" using lengths(1) [of g1] lengths(1) [of g] by (simp add: g1(3))
    then have lt: "\<forall>j\<in>set is. j < length (gr_nodes g1)" using Cons.prems(2) by simp
    obtain any' g' where g': "prune_pass is visited True g1 = Some (any', g')" "graph_wf arena g'"
      "abs_graph g' = keep (\<lambda>j. j \<notin> set is \<or> \<not> condemned visited j) (abs_graph g1)" "any'"
      using Cons.IH [OF g1(2) lt, of True] by blast
    have "prune_pass (i # is) visited any_removed g = Some (any', g')"
      using True n g1(1) g'(1) null by (auto simp: condemned_def Let_def)
    moreover have "abs_graph g' = keep (\<lambda>j. j \<notin> set (i # is) \<or> \<not> condemned visited j) ?a"
      unfolding g'(3) a1 keep_keep using True by (intro keep_cong wf_ends_alive [OF Cons.prems(1)]) auto
    ultimately show ?thesis using g'(2,4) True by auto
  qed
qed

text \<open>
  C10: On every graph built by operations of class \<open>Graph\<close>, pruning for a set of nodes leaves the
  source, the sink, the nodes from which one of the set is reachable, and the edges between
  them, with their ids and properties; it says whether a node was removed.
\<close>

theorem prune_exact:
  assumes "arena_ok arena" "registry (''_SOURCE'', ''NoOp'') = Inr source" "registry (''_SINK'', ''NoOp'') = Inr sink"
    "run_ok (agraph_step op_defs) (graph_pre op_defs) (first_graph source sink) xs"
    and "fst (run (agraph_step op_defs) (first_graph source sink) xs) = a" "\<forall>i\<in>set start. alive (fst a) i"
    and "K = (\<lambda>i. i = kSourceId \<or> i = kSinkId \<or> (\<exists>j\<in>set start. (i, j) \<in> (edge_arcs None (edges_of a))\<^sup>*))"
  shows "\<exists>g0 g removed g'. new_graph arena registry = Some g0 \<and> g = fst (run (graph_step arena op_defs) g0 xs)
    \<and> PruneForReverseReachability start g = Some (removed, g') \<and> abs_graph g' = keep K a
    \<and> (removed \<longleftrightarrow> (\<exists>i. alive (fst a) i \<and> \<not> K i))"
proof -
  obtain g0 g where g: "new_graph arena registry = Some g0" "run (graph_step arena op_defs) g0 xs =
      (g, snd (run (agraph_step op_defs) (first_graph source sink) xs))" "abs_graph g = a" "graph_wf arena g"
    using graph_history [OF assms(1-4)] assms(5) by metis
  have n: "num_node_ids (view_graph g) = length (gr_nodes g)" by (simp add: num_node_ids_def view_graph_def)
  have "\<forall>i\<in>set start. graph_node (view_graph g) i \<noteq> None" using assms(6) view_linked(2) [OF g(4)] g(3) by simp
  then obtain s where s: "reach_loop (view_graph g) (start_reach (view_graph g) start) = Some s" "length (rc_visited s) = length (gr_nodes g)"
    "\<forall>i<length (gr_nodes g). rc_visited s ! i \<longleftrightarrow> (\<exists>j\<in>set start. (i, j) \<in> (edge_arcs None (edges_of a))\<^sup>*)"
    using reach_result [OF view_linked(1) [OF g(4)], of start] unfolding n g(3) by blast
  have K: "K i \<longleftrightarrow> i \<notin> set [0..<length (gr_nodes g)] \<or> \<not> condemned (rc_visited s) i" "i \<in> set [0..<length (gr_nodes g)]"
    if "alive (fst a) i" for i
    using that s(3) lengths(1) [of g] by (auto simp: assms(7) condemned_def alive_def g(3))
  obtain removed g' where g': "prune_pass [0..<length (gr_nodes g)] (rc_visited s) False g = Some (removed, g')"
    "abs_graph g' = keep (\<lambda>i. i \<notin> set [0..<length (gr_nodes g)] \<or> \<not> condemned (rc_visited s) i) a"
    "removed \<longleftrightarrow> (\<exists>i\<in>set [0..<length (gr_nodes g)]. alive (fst a) i \<and> condemned (rc_visited s) i)"
    using prune_pass_ok [OF g(4), of "[0..<length (gr_nodes g)]" "rc_visited s" False] unfolding g(3) by auto
  have "abs_graph g' = keep K a" unfolding g'(2) using K(1) wf_ends_alive [OF g(4)] g(3) by (intro keep_cong) auto
  moreover have "removed \<longleftrightarrow> (\<exists>i. alive (fst a) i \<and> \<not> K i)" unfolding g'(3) using K by blast
  ultimately show ?thesis using g(1,2) s(1,2) g'(1)
    by (intro exI [of _ g0] exI [of _ g] exI [of _ removed] exI [of _ g']) (simp add: PruneForReverseReachability_def)
qed

lemma prune_exact_witness:
  "\<exists>g0 g g'. new_graph Suc sample_registry = Some g0 \<and> g = fst (run (graph_step Suc (\<lambda>_. Some 7)) g0 sample_ops)
    \<and> PruneForReverseReachability [4] g = Some (True, g') \<and> map (\<lambda>n. n \<noteq> None) (fst (abs_graph g')) = [True, True, False, False, True]"
proof -
  have ar: "arena_ok Suc" by (simp add: arena_ok_def)
  have reg: "sample_registry (''_SOURCE'', ''NoOp'') = Inr (sample_props ''_SOURCE'', False)"
    "sample_registry (''_SINK'', ''NoOp'') = Inr (sample_props ''_SINK'', False)" by (simp_all add: sample_registry_def)
  define a where "a = fst (run (agraph_step (\<lambda>_. Some 7)) (first_graph (sample_props ''_SOURCE'', False) (sample_props ''_SINK'', False)) sample_ops)"
  let ?K = "\<lambda>i. i = kSourceId \<or> i = kSinkId \<or> (\<exists>j\<in>set [4]. (i, j) \<in> (edge_arcs None (edges_of a))\<^sup>*)"
  have m: "map (\<lambda>n. n \<noteq> None) (fst a) = [True, True, False, True, True]" and es: "snd a = [Some (0, - 1, 1, - 1), None, Some (0, - 1, 4, - 1)]"
    by (simp_all add: a_def sample_ops_def first_graph_def agraph_step_def fresh_anode_def copy_anode_def sample_props_def
      upd_at_def upd_props_def alive_def note_control_input_def caret_def control_between_def forget_def touches_def
      kControlSlot_def kSourceId_def kSinkId_def class_NoOp)
  have len: "length (fst a) = 5" using arg_cong [OF m, of length] by simp
  have at: "fst a ! i \<noteq> None \<longleftrightarrow> [True, True, False, True, True] ! i" if "i < 5" for i
    using arg_cong [OF m, of "\<lambda>l. l ! i"] that len by simp
  have R: "edge_arcs None (edges_of a) = {(0, 1), (0, 4)}" by (simp add: edge_arcs_def edges_of_def es as_edge_def List.map_filter_def)
  have "(3, 4) \<notin> {(0, 1), (0, 4 :: nat)}\<^sup>*" by (auto elim: converse_rtranclE)
  then have not3: "\<not> ?K 3" by (simp add: R kSourceId_def kSinkId_def)
  have start: "\<forall>i\<in>set [4]. alive (fst a) i" using at [of 4] by (simp add: alive_def len)
  obtain g0 g removed g' where g: "new_graph Suc sample_registry = Some g0" "g = fst (run (graph_step Suc (\<lambda>_. Some 7)) g0 sample_ops)"
    "PruneForReverseReachability [4] g = Some (removed, g')" "abs_graph g' = keep ?K a" "removed \<longleftrightarrow> (\<exists>i. alive (fst a) i \<and> \<not> ?K i)"
    using prune_exact [OF ar reg sample_replies(2) a_def [symmetric] start refl] by blast
  have five: "[0..<5] = [0, 1, 2, 3, 4 :: nat]" by (simp add: upt_conv_Cons)
  have "map (\<lambda>n. n \<noteq> None) (fst (abs_graph g')) = [True, True, False, False, True]"
    unfolding g(4) keep_def fst_conv len five using not3 at [of 0] at [of 1] at [of 2] at [of 4] by (simp add: kSourceId_def kSinkId_def)
  moreover have "removed" unfolding g(5) using not3 at [of 3] len by (intro exI [of _ 3] conjI) (simp_all add: alive_def)
  ultimately show ?thesis using g(1-3) by (intro exI [of _ g0] exI [of _ g] exI [of _ g'] conjI) simp_all
qed

end
