(* ===== verification/Graph_Fixup.thy ===== *)
theory Graph_Fixup
  imports Graph_Prune
begin

text \<open>
  \<open>FixupSourceAndSinkEdges\<close> of core/graph/algorithm.cc (the code is in \<open>Graph_Prune\<close>): the control
  edges it adds are exactly those that nodes without an input or an output lack.
\<close>

type_synonym aedge = "(nat \<times> int \<times> nat \<times> int) option"

definition has_in :: "aedge list \<Rightarrow> nat \<Rightarrow> bool" where
  "has_in es i \<longleftrightarrow> (\<exists>s x y. Some (s, x, i, y) \<in> set es)"

definition has_out :: "aedge list \<Rightarrow> nat \<Rightarrow> bool" where
  "has_out es i \<longleftrightarrow> (\<exists>x d y. Some (i, x, d, y) \<in> set es)"

definition from_source :: "nat \<Rightarrow> aedge" where
  "from_source i = Some (kSourceId, kControlSlot, i, kControlSlot)"

definition to_sink :: "nat \<Rightarrow> aedge" where
  "to_sink i = Some (i, kControlSlot, kSinkId, kControlSlot)"

text \<open>One node of the pass on the edges: the edge from the source, then the edge to the sink.\<close>

definition fix_in :: "nat \<Rightarrow> aedge list \<Rightarrow> aedge list" where
  "fix_in i es = (if i \<noteq> kSourceId \<and> \<not> has_in es i then es @ [from_source i] else es)"

definition fix_out :: "nat \<Rightarrow> aedge list \<Rightarrow> aedge list" where
  "fix_out i es = (if i \<noteq> kSinkId \<and> \<not> has_out es i then es @ [to_sink i] else es)"

definition fix_node :: "anode option list \<Rightarrow> aedge list \<Rightarrow> nat \<Rightarrow> aedge list" where
  "fix_node ns es i = (if alive ns i then fix_out i (fix_in i es) else es)"

section \<open>The edges that are added\<close>

definition lacking :: "anode option list \<Rightarrow> aedge list \<Rightarrow> aedge \<Rightarrow> bool" where
  "lacking ns es e \<longleftrightarrow> (\<exists>i. alive ns i \<and> (i \<noteq> kSourceId \<and> \<not> has_in es i \<and> e = from_source i \<or> i \<noteq> kSinkId \<and> \<not> has_out es i \<and> e = to_sink i))"

lemma has_append: "has_in (es @ fs) i \<longleftrightarrow> has_in es i \<or> has_in fs i" "has_out (es @ fs) i \<longleftrightarrow> has_out es i \<or> has_out fs i"
  by (auto simp: has_in_def has_out_def)

lemma has_new:
  "has_in [from_source i] i" "has_out [to_sink i] i"
  "\<not> has_in es i \<Longrightarrow> from_source i \<notin> set es" "\<not> has_out es i \<Longrightarrow> to_sink i \<notin> set es"
  by (auto simp: has_in_def has_out_def from_source_def to_sink_def)

text \<open>What the pass has done after some nodes.\<close>

definition fixed_up :: "anode option list \<Rightarrow> aedge list \<Rightarrow> nat set \<Rightarrow> aedge list \<Rightarrow> bool" where
  "fixed_up ns es I es' \<longleftrightarrow>
     (\<exists>new. es' = es @ new \<and> distinct new \<and> set new \<inter> set es = {} \<and> (\<forall>e\<in>set new. lacking ns es e))
   \<and> (\<forall>i\<in>I. alive ns i \<longrightarrow> (i \<noteq> kSourceId \<longrightarrow> has_in es' i) \<and> (i \<noteq> kSinkId \<longrightarrow> has_out es' i))"

lemma fixed_up_add:
  assumes "fixed_up ns es I es'" "e \<notin> set es'" "lacking ns es e"
  shows "fixed_up ns es I (es' @ [e])"
proof -
  obtain new where new: "es' = es @ new" "distinct new" "set new \<inter> set es = {}" "\<forall>e\<in>set new. lacking ns es e"
    using assms(1) by (auto simp: fixed_up_def)
  have "es' @ [e] = es @ (new @ [e]) \<and> distinct (new @ [e]) \<and> set (new @ [e]) \<inter> set es = {} \<and> (\<forall>e\<in>set (new @ [e]). lacking ns es e)"
    using new assms(2,3) by auto
  then show ?thesis using assms(1) unfolding fixed_up_def has_append by blast
qed

lemma fixed_up_node:
  assumes f: "fixed_up ns es I es'"
  shows "fixed_up ns es (insert i I) (fix_node ns es' i)"
proof (cases "alive ns i")
  case True
  have 1: "fixed_up ns es I (fix_in i es')"
  proof (cases "i \<noteq> kSourceId \<and> \<not> has_in es' i")
    case lack: True
    obtain fs where fs: "es' = es @ fs" using f by (auto simp: fixed_up_def)
    then have "\<not> has_in es i" using lack by (simp add: has_append)
    then have "lacking ns es (from_source i)" using True lack by (auto simp: lacking_def)
    then show ?thesis using lack fixed_up_add [OF f has_new(3)] by (simp add: fix_in_def)
  qed (use f in \<open>auto simp: fix_in_def\<close>)
  have 2: "fixed_up ns es I (fix_out i (fix_in i es'))"
  proof (cases "i \<noteq> kSinkId \<and> \<not> has_out (fix_in i es') i")
    case lack: True
    obtain fs where fs: "fix_in i es' = es @ fs" using 1 by (auto simp: fixed_up_def)
    then have "\<not> has_out es i" using lack by (simp add: has_append)
    then have "lacking ns es (to_sink i)" using True lack by (auto simp: lacking_def)
    then show ?thesis using lack fixed_up_add [OF 1 has_new(4)] by (simp add: fix_out_def)
  qed (use 1 in \<open>auto simp: fix_out_def\<close>)
  have "i \<noteq> kSourceId \<longrightarrow> has_in (fix_out i (fix_in i es')) i" "i \<noteq> kSinkId \<longrightarrow> has_out (fix_out i (fix_in i es')) i"
    by (auto simp: fix_in_def fix_out_def has_append has_new)
  then show ?thesis using 2 True unfolding fixed_up_def fix_node_def by auto
next
  case False
  then show ?thesis using f by (simp add: fixed_up_def fix_node_def)
qed

lemma fixed_up_nodes: "fixed_up ns es I es' \<Longrightarrow> fixed_up ns es (I \<union> set xs) (foldl (fix_node ns) es' xs)"
proof (induction xs arbitrary: es' I)
  case (Cons i xs)
  show ?case using Cons.IH [OF fixed_up_node [OF Cons.prems, of i]] by simp
qed simp

lemma fix_all: "fixed_up ns es (set xs) (foldl (fix_node ns) es xs)"
  using fixed_up_nodes [of ns es "{}" es xs] by (simp add: fixed_up_def)

section \<open>The code\<close>

lemma edges_of_has:
  "has_in es i \<longleftrightarrow> (\<exists>e\<in>set (edges_of (ns, es)). e_dst e = i)" "has_out es i \<longleftrightarrow> (\<exists>e\<in>set (edges_of (ns, es)). e_src e = i)"
proof -
  have s: "set (edges_of (ns, es)) = as_edge ` {e. Some e \<in> set es}" by (force simp: edges_of_def List.map_filter_def)
  show "has_in es i \<longleftrightarrow> (\<exists>e\<in>set (edges_of (ns, es)). e_dst e = i)" unfolding s by (force simp: has_in_def as_edge_def)
  show "has_out es i \<longleftrightarrow> (\<exists>e\<in>set (edges_of (ns, es)). e_src e = i)" unfolding s by (force simp: has_out_def as_edge_def)
qed

lemma no_edges:
  assumes wf: "graph_wf arena g" and p: "p \<in> live_nodes g" and n: "gr_node_objs g p = Some n"
  shows "es_empty (no_in n) \<longleftrightarrow> \<not> has_in (snd (abs_graph g)) (pid g p)" "es_empty (no_out n) \<longleftrightarrow> \<not> has_out (snd (abs_graph g)) (pid g p)"
proof -
  have core: "core_ok arena g" and link: "linked g" using wf by (auto simp: graph_wf_def graph_ok_def)
  have ok: "es_ok (no_in n)" "es_ok (no_out n)" "es_set (no_in n) = in_edges g p" "es_set (no_out n) = out_edges g p"
    using link p n by (auto simp: linked_def sets_ok_def ins_def outs_def)
  have es: "set (edges_of (abs_graph g)) = (\<lambda>e. as_edge (the (abs_edge g e))) ` live_edges g"
    unfolding edges_of_abs [OF core] by (auto simp: live_edges_def)
  have inj: "pid g q = pid g p \<longleftrightarrow> q = p" if "q \<in> live_nodes g" for q using pid_live(2) [OF core] that p by metis
  have ends: "edge_src g e \<in> live_nodes g \<and> edge_dst g e \<in> live_nodes g" if "e \<in> live_edges g" for e using live_edge [OF core that] by metis
  have "has_in (snd (abs_graph g)) (pid g p) \<longleftrightarrow> in_edges g p \<noteq> {}"
    unfolding edges_of_has(1) [where ns = "fst (abs_graph g)"] prod.collapse es
    using view_edge_eq(4) [OF core] inj ends by (auto simp: in_edges_def)
  moreover have "has_out (snd (abs_graph g)) (pid g p) \<longleftrightarrow> out_edges g p \<noteq> {}"
    unfolding edges_of_has(2) [where ns = "fst (abs_graph g)"] prod.collapse es
    using view_edge_eq(3) [OF core] inj ends by (auto simp: out_edges_def)
  ultimately show "es_empty (no_in n) \<longleftrightarrow> \<not> has_in (snd (abs_graph g)) (pid g p)" "es_empty (no_out n) \<longleftrightarrow> \<not> has_out (snd (abs_graph g)) (pid g p)"
    using es_elems_ok(3,4) [OF ok(1)] es_elems_ok(3,4) [OF ok(2)] unfolding ok(3,4) by (auto simp: es_empty_def)
qed

lemma add_plain_control:
  assumes wf: "graph_wf arena g" and ar: "arena_ok arena" and room: "length (gr_nodes g) + length (gr_edges g) + 1 < max_entries"
    and s: "alive (fst (abs_graph g)) s" and d: "alive (fst (abs_graph g)) d"
  shows "\<exists>e g'. AddControlEdge arena (FindNodeId s g) (FindNodeId d g) True g = Some (e, g') \<and> graph_wf arena g' \<and> gr_nodes g' = gr_nodes g
    \<and> abs_graph g' = (fst (abs_graph g), snd (abs_graph g) @ [Some (s, kControlSlot, d, kControlSlot)])"
proof -
  note s = alive_node(1,2) [OF wf s] and d = alive_node(1,2) [OF wf d]
  obtain sn dn where "gr_node_objs g (FindNodeId s g) = Some sn" "gr_node_objs g (FindNodeId d g) = Some dn"
    using node_facts [OF wf s(1)] node_facts [OF wf d(1)] by metis
  then have "AddControlEdge arena (FindNodeId s g) (FindNodeId d g) True g = AddEdge arena (FindNodeId s g) kControlSlot (FindNodeId d g) kControlSlot g"
    by (simp add: AddControlEdge_def)
  then show ?thesis using sim_AddEdge [OF wf ar room s(1) d(1), of kControlSlot kControlSlot] unfolding s(2) d(2) by auto
qed

lemma fix_length:
  "length (fix_in i es) = length es + (if i \<noteq> kSourceId \<and> \<not> has_in es i then 1 else 0)"
  "length (fix_out i es) = length es + (if i \<noteq> kSinkId \<and> \<not> has_out es i then 1 else 0)"
  "length es \<le> length (foldl (fix_node ns) es xs)"
proof -
  show one: "length (fix_in i es) = length es + (if i \<noteq> kSourceId \<and> \<not> has_in es i then 1 else 0)" for i es by (simp add: fix_in_def)
  show two: "length (fix_out i es) = length es + (if i \<noteq> kSinkId \<and> \<not> has_out es i then 1 else 0)" for i es by (simp add: fix_out_def)
  have "length es \<le> length (fix_node ns es i)" for es i using one [of i es] two [of i "fix_in i es"] by (simp add: fix_node_def)
  then show "length es \<le> length (foldl (fix_node ns) es xs)" by (induction xs arbitrary: es) (auto intro: le_trans)
qed

lemma fixup_pass_ok:
  assumes "graph_wf arena g" and ar: "arena_ok arena" and "abs_graph g = (ns, es)" "\<forall>i\<in>set is. i < length ns"
    and ends: "alive ns kSourceId" "alive ns kSinkId" and "length ns + length es + 2 * length is + 1 < max_entries"
  shows "\<exists>changed' g'. fixup_pass arena is changed g = Some (changed', g') \<and> graph_wf arena g'
    \<and> abs_graph g' = (ns, foldl (fix_node ns) es is) \<and> (changed' \<longleftrightarrow> changed \<or> length es < length (foldl (fix_node ns) es is))"
  using assms(1,3,4,7)
proof (induction "is" arbitrary: g es changed)
  case (Cons i "is")
  note wf = Cons.prems(1) and a = Cons.prems(2)
  have len: "length (gr_nodes g) = length ns" "length (gr_edges g) = length es" using lengths [of g] by (simp_all add: a)
  have i: "i < length (gr_nodes g)" using Cons.prems(3) len by simp
  note null = FindNodeId_null [OF wf i, unfolded a fst_conv]
  show ?case
  proof (cases "alive ns i")
    case False
    then show ?thesis using Cons.IH [OF wf a, of changed] Cons.prems(3,4) null by (simp add: fix_node_def)
  next
    case True
    define p where "p = FindNodeId i g"
    note al = alive_node [OF wf, unfolded a fst_conv]
    have p: "p \<in> live_nodes g" "pid g p = i" using al(1,2) [OF True] by (simp_all add: p_def)
    obtain n where n: "gr_node_objs g p = Some n" "is_source_obj n \<longleftrightarrow> i = kSourceId" using node_facts [OF wf p(1)] p(2) by metis
    have empty: "es_empty (no_in n) \<longleftrightarrow> \<not> has_in es i" using no_edges(1) [OF wf p(1) n(1)] by (simp add: a p(2))
    let ?lack = "i \<noteq> kSourceId \<and> \<not> has_in es i"
    obtain g1 where g1: "(if \<not> is_source_obj n \<and> es_empty (no_in n)
          then map_option (\<lambda>(e, g'). (True, g')) (AddControlEdge arena (FindNodeId kSourceId g) p True g) else Some (changed, g))
        = Some (changed \<or> ?lack, g1)" "graph_wf arena g1" "abs_graph g1 = (ns, fix_in i es)" "gr_nodes g1 = gr_nodes g"
    proof (cases ?lack)
      case l: True
      have room: "length (gr_nodes g) + length (gr_edges g) + 1 < max_entries" using Cons.prems(4) len by simp
      have al2: "alive (fst (abs_graph g)) kSourceId" "alive (fst (abs_graph g)) i" using ends True by (simp_all add: a)
      obtain e g' where "AddControlEdge arena (FindNodeId kSourceId g) p True g = Some (e, g')" "graph_wf arena g'"
        "abs_graph g' = (ns, es @ [from_source i])" "gr_nodes g' = gr_nodes g"
        using add_plain_control [OF wf ar room al2] by (auto simp: a p_def from_source_def)
      then show ?thesis using that [of g'] l n(2) empty by (simp add: fix_in_def)
    next
      case False
      then show ?thesis using that [of g] n(2) empty wf a by (auto simp: fix_in_def)
    qed
    have len1: "length (gr_nodes g1) = length ns" "length (gr_edges g1) = length (fix_in i es)" using lengths [of g1] by (simp_all add: g1(3))
    have same: "FindNodeId i g1 = p" by (simp add: FindNodeId_def g1(4) p_def)
    have p1: "p \<in> live_nodes g1" "pid g1 p = i" using alive_node(1,2) [OF g1(2), of i] True by (simp_all add: g1(3) same)
    obtain n1 where n1: "gr_node_objs g1 p = Some n1" "is_sink_obj n1 \<longleftrightarrow> i = kSinkId" using node_facts [OF g1(2) p1(1)] p1(2) by metis
    have empty1: "es_empty (no_out n1) \<longleftrightarrow> \<not> has_out (fix_in i es) i" using no_edges(2) [OF g1(2) p1(1) n1(1)] by (simp add: g1(3) p1(2))
    let ?lack1 = "i \<noteq> kSinkId \<and> \<not> has_out (fix_in i es) i"
    obtain g2 where g2: "(if \<not> is_sink_obj n1 \<and> es_empty (no_out n1)
          then map_option (\<lambda>(e, g'). (True, g')) (AddControlEdge arena p (FindNodeId kSinkId g1) True g1) else Some (changed \<or> ?lack, g1))
        = Some (changed \<or> ?lack \<or> ?lack1, g2)" "graph_wf arena g2" "abs_graph g2 = (ns, fix_node ns es i)"
    proof (cases ?lack1)
      case l: True
      have room: "length (gr_nodes g1) + length (gr_edges g1) + 1 < max_entries" using Cons.prems(4) len1 fix_length(1) [of i es] by simp
      have al2: "alive (fst (abs_graph g1)) i" "alive (fst (abs_graph g1)) kSinkId" using ends True by (simp_all add: g1(3))
      obtain e g' where "AddControlEdge arena p (FindNodeId kSinkId g1) True g1 = Some (e, g')" "graph_wf arena g'"
        "abs_graph g' = (ns, fix_in i es @ [to_sink i])"
        using add_plain_control [OF g1(2) ar room al2] by (auto simp: g1(3) same to_sink_def)
      then show ?thesis using that [of g'] l n1(2) empty1 True by (simp add: fix_node_def fix_out_def)
    next
      case False
      then show ?thesis using that [of g1] n1(2) empty1 g1(2,3) True by (auto simp: fix_node_def fix_out_def)
    qed
    have fixn: "length (fix_node ns es i) = length es + (if ?lack then 1 else 0) + (if ?lack1 then 1 else 0)"
      using True fix_length(1) [of i es] fix_length(2) [of i "fix_in i es"] by (simp add: fix_node_def)
    then have room2: "length ns + length (fix_node ns es i) + 2 * length is + 1 < max_entries" using Cons.prems(4) by (simp split: if_splits)
    obtain changed' g' where g': "fixup_pass arena is (changed \<or> ?lack \<or> ?lack1) g2 = Some (changed', g')" "graph_wf arena g'"
      "abs_graph g' = (ns, foldl (fix_node ns) (fix_node ns es i) is)"
      "changed' \<longleftrightarrow> (changed \<or> ?lack \<or> ?lack1) \<or> length (fix_node ns es i) < length (foldl (fix_node ns) (fix_node ns es i) is)"
      using Cons.IH [OF g2(2,3) _ room2, of "changed \<or> ?lack \<or> ?lack1"] Cons.prems(3) by auto
    have "fixup_pass arena (i # is) changed g = Some (changed', g')"
    proof -
      have p0: "(p = 0) = False" using null True by (simp add: p_def)
      show ?thesis
        by (simp only: fixup_pass.simps Let_def p_def [symmetric] p0 if_False n(1) Option.bind.simps prod.case g1(1) n1(1) g2(1) g'(1))
    qed
    moreover have "changed' \<longleftrightarrow> changed \<or> length es < length (foldl (fix_node ns) es (i # is))"
      using g'(4) fixn fix_length(3) [of "fix_node ns es i" ns "is"] by (auto split: if_splits)
    ultimately show ?thesis using g'(2,3) by simp
  qed
qed simp

text \<open>
  C11: On every graph built by operations of class \<open>Graph\<close> that still has its source and sink, the
  fix-up leaves the nodes and edges there are and adds, once each, only control edges from the
  source to nodes that had no input and to the sink from nodes that had no output; then every
  node but the source has an input and every node but the sink an output. It says whether it
  added an edge.
\<close>

theorem fixup_exact:
  assumes "arena_ok arena" "registry (''_SOURCE'', ''NoOp'') = Inr source" "registry (''_SINK'', ''NoOp'') = Inr sink"
    "run_ok (agraph_step op_defs) (graph_pre op_defs) (first_graph source sink) xs"
    and "fst (run (agraph_step op_defs) (first_graph source sink) xs) = (ns, es)" "alive ns kSourceId" "alive ns kSinkId"
    and "3 * length ns + length es + 1 < max_entries"
  shows "\<exists>g0 g changed g' new. new_graph arena registry = Some g0 \<and> g = fst (run (graph_step arena op_defs) g0 xs)
    \<and> FixupSourceAndSinkEdges arena g = Some (changed, g') \<and> abs_graph g' = (ns, es @ new) \<and> (changed \<longleftrightarrow> new \<noteq> [])
    \<and> distinct new \<and> (\<forall>e\<in>set new. lacking ns es e)
    \<and> (\<forall>i. alive ns i \<longrightarrow> (i \<noteq> kSourceId \<longrightarrow> has_in (es @ new) i) \<and> (i \<noteq> kSinkId \<longrightarrow> has_out (es @ new) i))"
proof -
  obtain g0 g where g: "new_graph arena registry = Some g0" "run (graph_step arena op_defs) g0 xs =
      (g, snd (run (agraph_step op_defs) (first_graph source sink) xs))" "abs_graph g = (ns, es)" "graph_wf arena g"
    using graph_history [OF assms(1-4)] assms(5) by metis
  have len: "length (gr_nodes g) = length ns" using lengths [of g] by (simp add: g(3))
  let ?es = "foldl (fix_node ns) es [0..<length ns]"
  have fu: "fixed_up ns es (set [0..<length ns]) ?es" by (rule fix_all)
  obtain new where new: "?es = es @ new" "distinct new" "\<forall>e\<in>set new. lacking ns es e" using fu by (auto simp: fixed_up_def)
  have room: "length ns + length es + 2 * length [0..<length ns] + 1 < max_entries" using assms(8) by simp
  have lt: "\<forall>i\<in>set [0..<length ns]. i < length ns" by simp
  obtain changed g' where g': "fixup_pass arena [0..<length ns] False g = Some (changed, g')" "abs_graph g' = (ns, es @ new)"
    "changed \<longleftrightarrow> length es < length (es @ new)"
    using fixup_pass_ok [OF g(4) assms(1) g(3) lt assms(6,7) room, of False] unfolding new(1) by blast
  have "\<forall>i. alive ns i \<longrightarrow> (i \<noteq> kSourceId \<longrightarrow> has_in (es @ new) i) \<and> (i \<noteq> kSinkId \<longrightarrow> has_out (es @ new) i)"
    using fu unfolding new(1) fixed_up_def by (auto simp: alive_def)
  then show ?thesis using g(1,2) g' new(2,3)
    by (intro exI [of _ g0] exI [of _ g] exI [of _ changed] exI [of _ g'] exI [of _ new]) (simp add: FixupSourceAndSinkEdges_def len)
qed

lemma fixup_exact_witness:
  "\<exists>g0 g g' new. new_graph Suc sample_registry = Some g0 \<and> g = fst (run (graph_step Suc (\<lambda>_. Some 7)) g0 sample_ops)
    \<and> FixupSourceAndSinkEdges Suc g = Some (True, g') \<and> set new = {from_source 3, to_sink 3, to_sink 4}
    \<and> snd (abs_graph g') = [Some (0, - 1, 1, - 1), None, Some (0, - 1, 4, - 1)] @ new"
proof -
  have ar: "arena_ok Suc" by (simp add: arena_ok_def)
  have reg: "sample_registry (''_SOURCE'', ''NoOp'') = Inr (sample_props ''_SOURCE'', False)"
    "sample_registry (''_SINK'', ''NoOp'') = Inr (sample_props ''_SINK'', False)" by (simp_all add: sample_registry_def)
  define a where "a = fst (run (agraph_step (\<lambda>_. Some 7)) (first_graph (sample_props ''_SOURCE'', False) (sample_props ''_SINK'', False)) sample_ops)"
  have m: "map (\<lambda>n. n \<noteq> None) (fst a) = [True, True, False, True, True]" and es: "snd a = [Some (0, - 1, 1, - 1), None, Some (0, - 1, 4, - 1)]"
    by (simp_all add: a_def sample_ops_def first_graph_def agraph_step_def fresh_anode_def copy_anode_def sample_props_def
      upd_at_def upd_props_def alive_def note_control_input_def caret_def control_between_def forget_def touches_def
      kControlSlot_def kSourceId_def kSinkId_def class_NoOp)
  obtain ns where ns: "a = (ns, [Some (0, - 1, 1, - 1), None, Some (0, - 1, 4, - 1)])" using es by (cases a) auto
  have len: "length ns = 5" using arg_cong [OF m, of length] by (simp add: ns)
  have al: "alive ns i \<longleftrightarrow> i < 5 \<and> [True, True, False, True, True] ! i" for i
    using arg_cong [OF m, of "\<lambda>l. l ! i"] len by (cases "i < 5") (simp_all add: alive_def ns)
  have ends: "alive ns kSourceId" "alive ns kSinkId" by (simp_all add: al kSourceId_def kSinkId_def)
  let ?es = "[Some (0, - 1, 1, - 1), None, Some (0, - 1, 4, - 1)] :: aedge list"
  have room: "3 * length ns + length ?es + 1 < max_entries" by (simp add: len max_entries_def)
  obtain g0 g changed g' new where f: "new_graph Suc sample_registry = Some g0" "g = fst (run (graph_step Suc (\<lambda>_. Some 7)) g0 sample_ops)"
    "FixupSourceAndSinkEdges Suc g = Some (changed, g')" "abs_graph g' = (ns, ?es @ new)" "changed \<longleftrightarrow> new \<noteq> []" "\<forall>e\<in>set new. lacking ns ?es e"
    "\<forall>i. alive ns i \<longrightarrow> (i \<noteq> kSourceId \<longrightarrow> has_in (?es @ new) i) \<and> (i \<noteq> kSinkId \<longrightarrow> has_out (?es @ new) i)"
    using fixup_exact [OF ar reg sample_replies(2) a_def [symmetric, unfolded ns] ends room] by blast
  have some: "has_in ?es i \<longleftrightarrow> i = 1 \<or> i = 4" "has_out ?es i \<longleftrightarrow> i = 0" for i by (auto simp: has_in_def has_out_def)
  have five: "i = 0 \<or> i = 1 \<or> i = 3 \<or> i = 4" if "alive ns i" for i
  proof -
    have "i < 5" "i \<noteq> 2" using that al [of i] by auto
    then show ?thesis by linarith
  qed
  have lack: "e = from_source 3 \<or> e = to_sink 3 \<or> e = to_sink 4" if "lacking ns ?es e" for e
    using that five unfolding lacking_def some by (fastforce simp: kSourceId_def kSinkId_def)
  have "has_in (?es @ new) 3" "has_out (?es @ new) 3" "has_out (?es @ new) 4"
    using f(7) [rule_format, of 3] f(7) [rule_format, of 4] by (simp_all add: al kSourceId_def kSinkId_def)
  moreover have "\<not> has_in ?es 3" "\<not> has_out ?es 3" "\<not> has_out ?es 4" unfolding some by simp_all
  ultimately have h: "has_in new 3" "has_out new 3" "has_out new 4" unfolding has_append by blast+
  have only: "e = from_source 3 \<or> e = to_sink 3 \<or> e = to_sink 4" if "e \<in> set new" for e using f(6) lack that by blast
  obtain s x y where "Some (s, x, 3, y) \<in> set new" using h(1) by (auto simp: has_in_def)
  moreover have "Some (s, x, 3, y) = from_source 3" using only [OF calculation] by (auto simp: to_sink_def kSinkId_def)
  ultimately have n1: "from_source 3 \<in> set new" by simp
  obtain x d y where "Some (3, x, d, y) \<in> set new" using h(2) by (auto simp: has_out_def)
  moreover have "Some (3, x, d, y) = to_sink 3" using only [OF calculation] by (auto simp: from_source_def to_sink_def kSourceId_def)
  ultimately have n2: "to_sink 3 \<in> set new" by simp
  obtain x d y where "Some (4, x, d, y) \<in> set new" using h(3) by (auto simp: has_out_def)
  moreover have "Some (4, x, d, y) = to_sink 4" using only [OF calculation] by (auto simp: from_source_def to_sink_def kSourceId_def)
  ultimately have n3: "to_sink 4 \<in> set new" by simp
  from n1 n2 n3 have "set new = {from_source 3, to_sink 3, to_sink 4}" "changed" using f(5) only by auto
  then show ?thesis using f(1-4) by (intro exI [of _ g0] exI [of _ g] exI [of _ g'] exI [of _ new]) simp
qed

end
