(* ===== verification/Loop_Frames.thy ===== *)
theory Loop_Frames
  imports Graph_Order
begin

text \<open>
  \<open>BuildControlFlowInfo\<close> and \<open>ValidateControlFlowInfo\<close> of core/graph/control_flow.cc, which give
  each node the frame of the loop it runs in, and refuse graphs whose edges do not agree on it.
\<close>

section \<open>The code\<close>

text \<open>\<open>ControlFlowInfo\<close>: the Enter node of the frame, that of the frame around it, and the name.\<close>

record node_frame =
  nf_frame :: "nat option"
  nf_parent :: "nat option"
  nf_name :: string

record frame_walk =
  fw_info :: "node_frame list"
  fw_parents :: "nat option list"
  fw_ready :: "nat list"

definition no_frame :: node_frame where
  "no_frame = \<lparr>nf_frame = None, nf_parent = None, nf_name = []\<rparr>"

definition show_node :: "graph \<Rightarrow> nat \<Rightarrow> string option" where
  "show_node g i = map_option (\<lambda>n. format_node_name_for_error (n_name n)) (graph_node g i)"

definition quote_char :: string where "quote_char = [CHR 0x27]"

text \<open>\<open>None\<close> is a null dereference in the message.\<close>

definition different_frames :: "graph \<Rightarrow> nat \<Rightarrow> gnode \<Rightarrow> string \<Rightarrow> nat option \<Rightarrow> string \<Rightarrow> status option" where
  "different_frames g cur out name other other_name =
     do { q \<leftarrow> other; c \<leftarrow> show_node g cur; o' \<leftarrow> show_node g q;
          Some (mk_status INVALID_ARGUMENT (format_node_name_for_error (n_name out) @ '' has inputs from different frames. The input ''
            @ c @ '' is in frame '' @ quote_char @ name @ quote_char @ ''. The input '' @ o' @ '' is in frame ''
            @ quote_char @ other_name @ quote_char @ ''.'')) }"

text \<open>The frame in which the outputs of a node are.\<close>

definition output_frame :: "node_frame list \<Rightarrow> gnode \<Rightarrow> node_frame option" where
  "output_frame info n =
     (let cur = info ! n_id n
      in if IsExit n then map_option (\<lambda>p. info ! p) (nf_parent cur) else Some cur)"

text \<open>The body of the loop over the out edges of a node, for the node \<open>out\<close> at the end of an edge.\<close>

definition visit_out :: "graph \<Rightarrow> nat \<Rightarrow> node_frame \<Rightarrow> frame_walk \<Rightarrow> gnode \<Rightarrow> (status + frame_walk) option" where
  "visit_out g cur cf w out =
     (let i = n_id out; out_info = fw_info w ! i; is_visited = (fw_parents w ! i \<noteq> None)
      in if \<not> IsOp out then Some (Inr w)
         else let w1 = (if is_visited then w else w\<lparr>fw_parents := (fw_parents w)[i := Some cur], fw_ready := fw_ready w @ [i]\<rparr>)
              in if IsEnter out then
                   (if is_visited then do {
                      q \<leftarrow> nf_parent out_info;
                      let parent_name = nf_name (fw_info w ! q);
                      if parent_name \<noteq> nf_name cf
                      then map_option Inl (different_frames g cur out (nf_name cf) (fw_parents w ! i) parent_name)
                      else Some (Inr w1) }
                    else (case get_attr_string out ''frame_name'' of
                            Inl s \<Rightarrow> Some (Inl s)
                          | Inr name \<Rightarrow>
                              if name = [] then Some (Inl (mk_status INVALID_ARGUMENT
                                (''The Enter '' @ format_node_name_for_error (n_name out) @ '' must have a frame name.'')))
                              else Some (Inr (w1\<lparr>fw_info := (fw_info w)[i := \<lparr>nf_frame = Some i, nf_parent = nf_frame cf, nf_name = name\<rparr>]\<rparr>))))
                 else if is_visited then
                   (if nf_name out_info \<noteq> nf_name cf
                    then map_option Inl (different_frames g cur out (nf_name cf) (fw_parents w ! i) (nf_name out_info))
                    else Some (Inr w1))
                 else Some (Inr (w1\<lparr>fw_info := (fw_info w)[i := cf]\<rparr>)))"

fun visit_outs :: "graph \<Rightarrow> nat \<Rightarrow> node_frame \<Rightarrow> frame_walk \<Rightarrow> edge list \<Rightarrow> (status + frame_walk) option" where
  "visit_outs g cur cf w [] = Some (Inr w)"
| "visit_outs g cur cf w (e # es) =
     do { out \<leftarrow> graph_node g (e_dst e);
          r \<leftarrow> visit_out g cur cf w out;
          case r of Inl s \<Rightarrow> Some (Inl s) | Inr w' \<Rightarrow> visit_outs g cur cf w' es }"

definition frames_step :: "graph \<Rightarrow> status + frame_walk \<Rightarrow> (status + frame_walk) option" where
  "frames_step g r =
     (case r of
        Inl s \<Rightarrow> None
      | Inr w \<Rightarrow>
          (case fw_ready w of
             [] \<Rightarrow> None
           | i # rest \<Rightarrow> do { n \<leftarrow> graph_node g i; cf \<leftarrow> output_frame (fw_info w) n;
                              visit_outs g i cf (w\<lparr>fw_ready := rest\<rparr>) (n_out_edges n) }))"

definition frames_busy :: "status + frame_walk \<Rightarrow> bool" where
  "frames_busy r = (case r of Inl s \<Rightarrow> False | Inr w \<Rightarrow> fw_ready w \<noteq> [])"

partial_function (option) frames_loop :: "graph \<Rightarrow> status + frame_walk \<Rightarrow> (status + frame_walk) option" where
  "frames_loop g r = (if frames_busy r then Option.bind (frames_step g r) (frames_loop g) else Some r)"

declare frames_loop.simps [code]

definition start_frames :: "graph \<Rightarrow> frame_walk" where
  "start_frames g =
     \<lparr>fw_info = (replicate (num_node_ids g) no_frame)[kSourceId := \<lparr>nf_frame = Some kSourceId, nf_parent = Some kSourceId, nf_name = []\<rparr>],
      fw_parents = replicate (num_node_ids g) None, fw_ready = [kSourceId]\<rparr>"

text \<open>
  The struct \<open>Frame\<close> of the validation; a pointer to a frame is its key. \<open>absl::StrContains\<close> is
  not part of the repository: it is the parameter \<open>contains\<close>.
\<close>

record loop_frame =
  lp_name :: string
  lp_parent :: "string option"
  lp_cond :: "nat option"

definition frame_at :: "(string \<rightharpoonup> loop_frame) \<Rightarrow> string \<Rightarrow> loop_frame" where
  "frame_at fs k = (case fs k of Some f \<Rightarrow> f | None \<Rightarrow> \<lparr>lp_name = [], lp_parent = None, lp_cond = None\<rparr>)"

definition internal_bug :: string where
  "internal_bug = ''. This is an internal bug, please file a bug report with instructions on how to reproduce the error.''"

definition set_parent :: "gnode \<Rightarrow> string \<Rightarrow> string \<Rightarrow> (string \<rightharpoonup> loop_frame) \<Rightarrow> status + (string \<rightharpoonup> loop_frame)" where
  "set_parent n k pk fs =
     (let f = frame_at fs k; fs1 = fs(k \<mapsto> f); fs2 = fs1(pk \<mapsto> frame_at fs1 pk)
      in case lp_parent f of
           None \<Rightarrow> Inr (fs2(k \<mapsto> (frame_at fs2 k)\<lparr>lp_parent := Some pk, lp_name := k\<rparr>))
         | Some q \<Rightarrow>
             if q \<noteq> pk then Inl (mk_status INTERNAL (''Invalid loop structure: Mismatched parent frames for \"'' @ k @ ''\": \"''
               @ lp_name (frame_at fs2 pk) @ ''\" vs \"'' @ lp_name (frame_at fs2 q) @ ''\". The node giving this error: ''
               @ format_node_name_for_error (n_name n) @ internal_bug))
             else Inr fs2)"

definition set_loop_cond ::
  "(string \<Rightarrow> string \<Rightarrow> bool) \<Rightarrow> graph \<Rightarrow> gnode \<Rightarrow> string \<Rightarrow> (string \<rightharpoonup> loop_frame) \<Rightarrow> (status + (string \<rightharpoonup> loop_frame)) option" where
  "set_loop_cond contains g n k fs =
     (let f = frame_at fs k; fs' = fs(k \<mapsto> f\<lparr>lp_cond := Some (n_id n)\<rparr>)
      in case lp_cond f of
           None \<Rightarrow> Some (Inr fs')
         | Some c \<Rightarrow> do {
             m \<leftarrow> graph_node g c;
             if \<not> contains (n_name m) ''LoopCounter'' \<and> \<not> contains (n_name n) ''LoopCounter''
             then Some (Inl (mk_status INVALID_ARGUMENT (''Invalid loop structure: Loop \"'' @ k @ ''\" has more than one LoopCond node: ''
               @ format_node_name_for_error (n_name n) @ '' and '' @ format_node_name_for_error (n_name m) @ internal_bug)))
             else Some (Inr fs') })"

definition validate_node ::
  "(string \<Rightarrow> string \<Rightarrow> bool) \<Rightarrow> graph \<Rightarrow> node_frame list \<Rightarrow> (string \<rightharpoonup> loop_frame) \<Rightarrow> gnode \<Rightarrow> (status + (string \<rightharpoonup> loop_frame)) option" where
  "validate_node contains g info fs n =
     (let cf = info ! n_id n
      in if nf_frame cf = None then Some (Inr fs)
         else case nf_parent cf of
           None \<Rightarrow> Some (Inr fs)
         | Some p \<Rightarrow>
             (case set_parent n (nf_name cf) (nf_name (info ! p)) fs of
                Inl s \<Rightarrow> Some (Inl s)
              | Inr fs' \<Rightarrow> if IsLoopCond n then set_loop_cond contains g n (nf_name cf) fs' else Some (Inr fs')))"

fun validate_nodes ::
  "(string \<Rightarrow> string \<Rightarrow> bool) \<Rightarrow> graph \<Rightarrow> node_frame list \<Rightarrow> (string \<rightharpoonup> loop_frame) \<Rightarrow> gnode list \<Rightarrow> status option" where
  "validate_nodes contains g info fs [] = Some ok_status"
| "validate_nodes contains g info fs (n # ns) =
     do { r \<leftarrow> validate_node contains g info fs n;
          case r of Inl s \<Rightarrow> Some s | Inr fs' \<Rightarrow> validate_nodes contains g info fs' ns }"

definition op_nodes :: "graph \<Rightarrow> gnode list" where
  "op_nodes g = filter IsOp (graph_nodes g)"

definition ValidateControlFlowInfo :: "(string \<Rightarrow> string \<Rightarrow> bool) \<Rightarrow> graph \<Rightarrow> node_frame list \<Rightarrow> status option" where
  "ValidateControlFlowInfo contains g info = validate_nodes contains g info Map.empty (op_nodes g)"

text \<open>The result is an error, or the info of the nodes and the names of the unreachable ones.\<close>

definition BuildFrameInfo ::
  "(string \<Rightarrow> string \<Rightarrow> bool) \<Rightarrow> graph \<Rightarrow> (status + node_frame list \<times> string list) option" where
  "BuildFrameInfo contains g =
     do { r \<leftarrow> frames_loop g (Inr (start_frames g));
          case r of
            Inl s \<Rightarrow> Some (Inl s)
          | Inr w \<Rightarrow> do {
              let unreachable = map n_name (filter (\<lambda>n. fw_parents w ! n_id n = None) (op_nodes g));
              s \<leftarrow> ValidateControlFlowInfo contains g (fw_info w);
              Some (if status_ok s then Inr (fw_info w, unreachable) else Inl s) } }"

section \<open>What the walk keeps\<close>

definition op_arcs :: "edge list \<Rightarrow> (nat \<times> nat) set" where
  "op_arcs es = edge_arcs (Some (\<lambda>e. 1 < e_dst e)) es"

definition known :: "frame_walk \<Rightarrow> nat \<Rightarrow> bool" where
  "known w i \<longleftrightarrow> i = kSourceId \<or> fw_parents w ! i \<noteq> None"

text \<open>The frame of a node is that of an Enter node, or the source, and has its name.\<close>

definition frame_ok :: "graph \<Rightarrow> frame_walk \<Rightarrow> node_frame \<Rightarrow> bool" where
  "frame_ok g w cf \<longleftrightarrow> (\<exists>f p. nf_frame cf = Some f \<and> nf_parent cf = Some p \<and> f < num_node_ids g \<and> p < num_node_ids g
     \<and> known w f \<and> known w p \<and> nf_name (fw_info w ! f) = nf_name cf)"

definition framed :: "graph \<Rightarrow> (nat \<times> nat) set \<Rightarrow> frame_walk \<Rightarrow> bool" where
  "framed g R w \<longleftrightarrow> length (fw_info w) = num_node_ids g \<and> length (fw_parents w) = num_node_ids g \<and> graph_node g kSourceId \<noteq> None
     \<and> (\<forall>i\<in>set (fw_ready w). graph_node g i \<noteq> None \<and> known w i)
     \<and> (\<forall>i<num_node_ids g. \<forall>q. fw_parents w ! i = Some q \<longrightarrow>
          graph_node g i \<noteq> None \<and> graph_node g q \<noteq> None \<and> (kSourceId, i) \<in> R\<^sup>+ \<and> 1 < i)
     \<and> (\<forall>i<num_node_ids g. if known w i then frame_ok g w (fw_info w ! i) else fw_info w ! i = no_frame)"

definition stays :: "graph \<Rightarrow> frame_walk \<Rightarrow> frame_walk \<Rightarrow> bool" where
  "stays g w w' \<longleftrightarrow> (\<forall>i<num_node_ids g. known w i \<longrightarrow> known w' i \<and> fw_info w' ! i = fw_info w ! i)"

text \<open>An edge stays in a frame, enters one from the frame around it, or leaves one.\<close>

definition edge_agrees :: "graph \<Rightarrow> node_frame list \<Rightarrow> nat \<Rightarrow> nat \<Rightarrow> bool" where
  "edge_agrees g info u v =
     (case (graph_node g u, graph_node g v) of
        (Some n, Some m) \<Rightarrow>
          (case output_frame info n of
             None \<Rightarrow> False
           | Some cf \<Rightarrow> nf_name (if IsEnter m then info ! the (nf_parent (info ! v)) else info ! v) = nf_name cf)
      | _ \<Rightarrow> False)"

definition unseen :: "frame_walk \<Rightarrow> nat" where
  "unseen w = length (filter (\<lambda>p. p = None) (fw_parents w)) + length (fw_ready w)"

lemma stays_refl: "stays g w w" and stays_trans: "stays g a b \<Longrightarrow> stays g b c \<Longrightarrow> stays g a c"
  by (auto simp: stays_def)

lemma frame_ok_stays: "stays g w w' \<Longrightarrow> frame_ok g w cf \<Longrightarrow> frame_ok g w' cf"
  unfolding frame_ok_def stays_def by fastforce

lemma output_frame_ok:
  assumes fr: "framed g R w" and n: "graph_node g u = Some n" "n_id n = u" "known w u"
  shows "\<exists>cf. output_frame (fw_info w) n = Some cf \<and> frame_ok g w cf \<and> (\<forall>w'. stays g w w' \<longrightarrow> output_frame (fw_info w') n = Some cf)"
proof -
  have u: "u < num_node_ids g" by (rule graph_node_lt [OF n(1)])
  then have ok: "frame_ok g w (fw_info w ! u)" using fr n(3) by (auto simp: framed_def)
  then obtain p where p: "nf_parent (fw_info w ! u) = Some p" "p < num_node_ids g" "known w p" by (auto simp: frame_ok_def)
  have "frame_ok g w (fw_info w ! p)" using fr p(2,3) by (auto simp: framed_def)
  then show ?thesis using ok p u n(2,3) by (auto simp: output_frame_def Let_def stays_def)
qed

lemma edge_agrees_stays:
  assumes fr: "framed g R w" and l: "linked_view g es" and st: "stays g w w'" and k: "known w u" "known w v"
    and a: "edge_agrees g (fw_info w) u v"
  shows "edge_agrees g (fw_info w') u v"
proof -
  obtain n m where n: "graph_node g u = Some n" "graph_node g v = Some m" using a by (auto simp: edge_agrees_def split: option.splits)
  obtain cf where cf: "output_frame (fw_info w) n = Some cf" "output_frame (fw_info w') n = Some cf"
    using output_frame_ok [OF fr n(1) linked_viewD(1) [OF l n(1)] k(1)] st by blast
  have v: "v < num_node_ids g" by (rule graph_node_lt [OF n(2)])
  then have "frame_ok g w (fw_info w ! v)" using fr k(2) by (auto simp: framed_def)
  then obtain p where "nf_parent (fw_info w ! v) = Some p" "p < num_node_ids g" "known w p" by (auto simp: frame_ok_def)
  then have "fw_info w' ! v = fw_info w ! v" "fw_info w' ! the (nf_parent (fw_info w ! v)) = fw_info w ! the (nf_parent (fw_info w ! v))"
    using st v k(2) by (auto simp: stays_def)
  then show ?thesis using a cf n by (auto simp: edge_agrees_def)
qed

text \<open>A node that is seen for the first time.\<close>

lemma unseen_less:
  "i < length ps \<Longrightarrow> ps ! i = None \<Longrightarrow> Suc (length (filter (\<lambda>p. p = None) (ps[i := Some q]))) = length (filter (\<lambda>p. p = None) ps)"
proof (induction ps arbitrary: i)
  case (Cons p ps)
  then show ?case by (cases i) auto
qed simp

definition visit_done :: "graph \<Rightarrow> (nat \<times> nat) set \<Rightarrow> frame_walk \<Rightarrow> frame_walk \<Rightarrow> bool" where
  "visit_done g R w w' \<longleftrightarrow> framed g R w' \<and> stays g w w' \<and> unseen w' = unseen w
     \<and> (\<forall>i<num_node_ids g. known w' i \<longrightarrow> known w i \<or> i \<in> set (fw_ready w')) \<and> set (fw_ready w) \<subseteq> set (fw_ready w')"

lemma visit_done_refl: "framed g R w \<Longrightarrow> visit_done g R w w"
  by (simp add: visit_done_def stays_refl)

lemma visit_done_trans: "visit_done g R a b \<Longrightarrow> visit_done g R b c \<Longrightarrow> visit_done g R a c"
  unfolding visit_done_def using stays_trans by fastforce

lemma first_visit:
  assumes fr: "framed g R w" and u: "graph_node g u \<noteq> None" "known w u" and v: "graph_node g v \<noteq> None" "1 < v" "fw_parents w ! v = None"
    and r: "(u, v) \<in> R" and new: "nf_frame x = Some f" "nf_parent x = Some p" "f < num_node_ids g" "p < num_node_ids g"
      "known w f \<and> nf_name (fw_info w ! f) = nf_name x \<or> f = v" "known w p"
    and w': "w' = w\<lparr>fw_parents := (fw_parents w)[v := Some u], fw_ready := fw_ready w @ [v], fw_info := (fw_info w)[v := x]\<rparr>"
  shows "visit_done g R w w' \<and> known w' v \<and> fw_info w' ! v = x"
proof -
  have lv: "v < num_node_ids g" "v < length (fw_info w)" "v < length (fw_parents w)" using v(1) graph_node_lt fr by (auto simp: framed_def)
  have kn: "known w' i \<longleftrightarrow> known w i \<or> i = v" for i using lv v(2) by (cases "i = v") (auto simp: known_def w' kSourceId_def)
  have unk: "\<not> known w v" using v(2,3) by (simp add: known_def kSourceId_def)
  have info: "fw_info w' ! i = (if i = v then x else fw_info w ! i)" for i using lv by (simp add: w')
  have st: "stays g w w'" using kn info unk by (auto simp: stays_def)
  have reach: "(kSourceId, v) \<in> R\<^sup>+"
  proof (cases "u = kSourceId")
    case False
    then obtain q where "fw_parents w ! u = Some q" "u < num_node_ids g" using u graph_node_lt by (auto simp: known_def)
    then have "(kSourceId, u) \<in> R\<^sup>+" using fr by (auto simp: framed_def)
    then show ?thesis using r by (rule trancl_into_trancl)
  qed (use r in blast)
  have x: "frame_ok g w' x"
    using new kn info unfolding frame_ok_def by auto
  have fr_rest: "if known w' i then frame_ok g w' (fw_info w' ! i) else fw_info w' ! i = no_frame" if "i < num_node_ids g" for i
  proof (cases "i = v")
    case False
    have "if known w i then frame_ok g w (fw_info w ! i) else fw_info w ! i = no_frame" using fr that unfolding framed_def by blast
    then show ?thesis using False frame_ok_stays [OF st] kn info by auto
  qed (use x kn info in simp)
  have par: "graph_node g i \<noteq> None \<and> graph_node g q \<noteq> None \<and> (kSourceId, i) \<in> R\<^sup>+ \<and> 1 < i"
    if "i < num_node_ids g" "fw_parents w' ! i = Some q" for i q
  proof (cases "i = v")
    case True
    then show ?thesis using that(2) u(1) v reach lv by (simp add: w')
  next
    case False
    then show ?thesis using that fr unfolding framed_def w' by simp
  qed
  have "framed g R w'"
    unfolding framed_def
  proof (intro conjI)
    show "\<forall>i<num_node_ids g. \<forall>q. fw_parents w' ! i = Some q \<longrightarrow> graph_node g i \<noteq> None \<and> graph_node g q \<noteq> None \<and> (kSourceId, i) \<in> R\<^sup>+ \<and> 1 < i"
      using par by blast
    show "\<forall>i<num_node_ids g. if known w' i then frame_ok g w' (fw_info w' ! i) else fw_info w' ! i = no_frame" using fr_rest by blast
    have "known w i \<and> graph_node g i \<noteq> None" if "i \<in> set (fw_ready w)" for i using fr that by (auto simp: framed_def)
    then show "\<forall>i\<in>set (fw_ready w'). graph_node g i \<noteq> None \<and> known w' i" using v(1) unfolding kn by (auto simp: w')
  qed (use fr in \<open>auto simp: framed_def w'\<close>)
  then have "visit_done g R w w'"
    using st kn unseen_less [OF lv(3) v(3), of u] by (auto simp: visit_done_def unseen_def w')
  then show ?thesis using kn info by simp
qed

lemma different_frames_Some:
  "graph_node g u \<noteq> None \<Longrightarrow> graph_node g q \<noteq> None \<Longrightarrow> different_frames g u m name (Some q) other \<noteq> None"
  by (auto simp: different_frames_def show_node_def)

text \<open>One edge: no null pointer is met, and without an error its ends agree.\<close>

lemma visit_out_ok:
  assumes l: "linked_view g es" and fr: "framed g R w" and n: "graph_node g u = Some n" "known w u"
    and cf: "output_frame (fw_info w) n = Some cf" and m: "graph_node g v = Some m" and r: "1 < v \<Longrightarrow> (u, v) \<in> R"
  shows "\<exists>res. visit_out g u cf w m = Some res
    \<and> (\<forall>w'. res = Inr w' \<longrightarrow> visit_done g R w w' \<and> (1 < v \<longrightarrow> known w' v \<and> edge_agrees g (fw_info w') u v))"
proof -
  note idm = linked_viewD(1) [OF l m] and idn = linked_viewD(1) [OF l n(1)]
  have op: "IsOp m \<longleftrightarrow> 1 < v" by (simp add: IsOp_def idm)
  have out: "frame_ok g w cf" "\<And>w'. stays g w w' \<Longrightarrow> output_frame (fw_info w') n = Some cf"
    using output_frame_ok [OF fr n(1) idn n(2)] cf by auto
  obtain f p where f: "nf_frame cf = Some f" "nf_parent cf = Some p" "f < num_node_ids g" "p < num_node_ids g" "known w f" "known w p"
    "nf_name (fw_info w ! f) = nf_name cf" using out(1) by (auto simp: frame_ok_def)
  have u: "graph_node g u \<noteq> None" using n(1) by simp
  have v: "v < num_node_ids g" "graph_node g v \<noteq> None" using graph_node_lt [OF m] m by simp_all
  show ?thesis
  proof (cases "1 < v")
    case False
    then show ?thesis using visit_done_refl [OF fr] by (simp add: visit_out_def Let_def op)
  next
    case op_v: True
    show ?thesis
    proof (cases "fw_parents w ! v")
      case (Some q)
      have q: "graph_node g q \<noteq> None" using fr Some v(1) unfolding framed_def by blast
      have kv: "known w v" by (simp add: known_def Some)
      then have "frame_ok g w (fw_info w ! v)" using fr v(1) by (auto simp: framed_def)
      then obtain pv where pv: "nf_parent (fw_info w ! v) = Some pv" by (auto simp: frame_ok_def)
      define other where "other = nf_name (if IsEnter m then fw_info w ! pv else fw_info w ! v)"
      obtain z where z: "different_frames g u m (nf_name cf) (Some q) other = Some z" using different_frames_Some [OF u q] by fastforce
      have ag: "edge_agrees g (fw_info w) u v" if "other = nf_name cf"
        using that cf pv by (cases "IsEnter m") (simp_all add: edge_agrees_def n(1) m other_def)
      have "visit_out g u cf w m = Some (if other \<noteq> nf_name cf then Inl z else Inr w)"
        using z pv op_v by (cases "IsEnter m") (simp_all add: visit_out_def Let_def idm op Some other_def)
      then show ?thesis using visit_done_refl [OF fr] kv ag by (cases "other = nf_name cf") simp_all
    next
      case None
      note first = first_visit [OF fr u n(2) v(2) op_v None r [OF op_v]]
      have agreed: "visit_done g R w w' \<and> (1 < v \<longrightarrow> known w' v \<and> edge_agrees g (fw_info w') u v)"
        if d: "visit_done g R w w' \<and> known w' v \<and> fw_info w' ! v = x" and x: "nf_name (if IsEnter m then fw_info w' ! the (nf_parent x) else x) = nf_name cf" for w' x
      proof -
        have "output_frame (fw_info w') n = Some cf" using out(2) d by (simp add: visit_done_def)
        then have "edge_agrees g (fw_info w') u v" using x d by (cases "IsEnter m") (simp_all add: edge_agrees_def n(1) m)
        then show ?thesis using d by blast
      qed
      show ?thesis
      proof (cases "IsEnter m")
        case True
        show ?thesis
        proof (cases "get_attr_string m ''frame_name''")
          case (Inr name)
          define x where "x = \<lparr>nf_frame = Some v, nf_parent = nf_frame cf, nf_name = name\<rparr>"
          define w' where "w' = w\<lparr>fw_parents := (fw_parents w)[v := Some u], fw_ready := fw_ready w @ [v], fw_info := (fw_info w)[v := x]\<rparr>"
          have d: "visit_done g R w w' \<and> known w' v \<and> fw_info w' ! v = x"
            by (rule first [of x v f]) (simp_all add: x_def f v(1) w'_def)
          then have "fw_info w' ! f = fw_info w ! f" using f(3,5) by (auto simp: visit_done_def stays_def)
          then have "nf_name (if IsEnter m then fw_info w' ! the (nf_parent x) else x) = nf_name cf" using True f by (simp add: x_def)
          note ag = agreed [OF d this]
          have "visit_out g u cf w m = Some (if name = [] then Inl (mk_status INVALID_ARGUMENT
              (''The Enter '' @ format_node_name_for_error (n_name m) @ '' must have a frame name.'')) else Inr w')"
            using True Inr op_v None by (simp add: visit_out_def Let_def idm op x_def w'_def)
          then show ?thesis using ag by (cases "name = []") simp_all
        qed (use op_v in \<open>simp add: visit_out_def Let_def idm op None True\<close>)
      next
        case False
        define w' where "w' = w\<lparr>fw_parents := (fw_parents w)[v := Some u], fw_ready := fw_ready w @ [v], fw_info := (fw_info w)[v := cf]\<rparr>"
        have d: "visit_done g R w w' \<and> known w' v \<and> fw_info w' ! v = cf"
          by (rule first [of cf f p]) (simp_all add: f w'_def)
        have "visit_out g u cf w m = Some (Inr w')" using False op_v None by (simp add: visit_out_def Let_def idm op w'_def)
        then show ?thesis using agreed [OF d] False by simp
      qed
    qed
  qed
qed

lemma visit_outs_ok:
  assumes l: "linked_view g all" and n: "graph_node g u = Some n"
    and "framed g R w" "known w u" "output_frame (fw_info w) n = Some cf"
    and "\<forall>e\<in>set es. graph_node g (e_dst e) \<noteq> None \<and> (1 < e_dst e \<longrightarrow> (u, e_dst e) \<in> R)"
  shows "\<exists>res. visit_outs g u cf w es = Some res \<and> (\<forall>w'. res = Inr w' \<longrightarrow> visit_done g R w w'
    \<and> (\<forall>e\<in>set es. 1 < e_dst e \<longrightarrow> known w' (e_dst e) \<and> edge_agrees g (fw_info w') u (e_dst e)))"
  using assms(3-6)
proof (induction es arbitrary: w)
  case Nil
  then show ?case using visit_done_refl by simp
next
  case (Cons e es)
  obtain m where m: "graph_node g (e_dst e) = Some m" using Cons.prems(4) by auto
  obtain res where res: "visit_out g u cf w m = Some res" "\<And>w'. res = Inr w' \<Longrightarrow> visit_done g R w w'
      \<and> (1 < e_dst e \<longrightarrow> known w' (e_dst e) \<and> edge_agrees g (fw_info w') u (e_dst e))"
    using visit_out_ok [OF l Cons.prems(1) n Cons.prems(2,3) m] Cons.prems(4) by auto
  show ?case
  proof (cases res)
    case (Inl s)
    then show ?thesis using m res(1) by simp
  next
    case (Inr w1)
    note first = res(2) [OF Inr]
    have fr1: "framed g R w1" "stays g w w1" using first by (simp_all add: visit_done_def)
    have u: "u < num_node_ids g" by (rule graph_node_lt [OF n])
    have k1: "known w1 u" using fr1(2) Cons.prems(2) u by (simp add: stays_def)
    have cf1: "output_frame (fw_info w1) n = Some cf"
      using output_frame_ok [OF Cons.prems(1) n linked_viewD(1) [OF l n] Cons.prems(2)] Cons.prems(3) fr1(2) by auto
    obtain res2 where res2: "visit_outs g u cf w1 es = Some res2" "\<And>w'. res2 = Inr w' \<Longrightarrow> visit_done g R w1 w'
        \<and> (\<forall>e\<in>set es. 1 < e_dst e \<longrightarrow> known w' (e_dst e) \<and> edge_agrees g (fw_info w') u (e_dst e))"
      using Cons.IH [OF fr1(1) k1 cf1] Cons.prems(4) by auto
    have "known w' (e_dst e) \<and> edge_agrees g (fw_info w') u (e_dst e)" if w': "res2 = Inr w'" "1 < e_dst e" for w'
    proof -
      have st: "stays g w1 w'" using res2(2) [OF w'(1)] by (simp add: visit_done_def)
      have "known w1 (e_dst e)" "edge_agrees g (fw_info w1) u (e_dst e)" using first w'(2) by simp_all
      then show ?thesis using edge_agrees_stays [OF fr1(1) l st k1] st graph_node_lt [OF m] by (auto simp: stays_def)
    qed
    then show ?thesis using m res(1) res2 visit_done_trans first by (auto simp: Inr)
  qed
qed

section \<open>The loop\<close>

definition frames_ok :: "graph \<Rightarrow> edge list \<Rightarrow> status + frame_walk \<Rightarrow> bool" where
  "frames_ok g es r \<longleftrightarrow> linked_view g es \<and> (case r of Inl s \<Rightarrow> True
     | Inr w \<Rightarrow> framed g (op_arcs es) w \<and> (\<forall>u<num_node_ids g. known w u \<longrightarrow> u \<notin> set (fw_ready w) \<longrightarrow>
         (\<forall>v. (u, v) \<in> op_arcs es \<longrightarrow> known w v \<and> edge_agrees g (fw_info w) u v)))"

definition frames_todo :: "status + frame_walk \<Rightarrow> nat \<times> nat" where
  "frames_todo r = (case r of Inl s \<Rightarrow> (0, 0) | Inr w \<Rightarrow> (Suc (unseen w), 0))"

lemma op_arc: "(u, v) \<in> op_arcs es \<longleftrightarrow> (\<exists>e\<in>set es. 1 < e_dst e \<and> e_src e = u \<and> e_dst e = v)"
  by (auto simp: op_arcs_def edge_arcs_def)

lemma frames_progress:
  assumes ok: "frames_ok g es r" and busy: "frames_busy r"
  shows "\<exists>r'. frames_step g r = Some r' \<and> frames_ok g es r' \<and> (frames_todo r', frames_todo r) \<in> less_than <*lex*> less_than"
proof -
  obtain w where r: "r = Inr w" using busy by (cases r) (auto simp: frames_busy_def)
  obtain u rest where q: "fw_ready w = u # rest" using busy by (cases "fw_ready w") (auto simp: frames_busy_def r)
  have l: "linked_view g es" and fr: "framed g (op_arcs es) w" using ok by (simp_all add: frames_ok_def r)
  have old: "known w v \<and> edge_agrees g (fw_info w) i v" if "i < num_node_ids g" "known w i" "i \<notin> set (fw_ready w)" "(i, v) \<in> op_arcs es" for i v
    using ok that by (simp add: frames_ok_def r)
  obtain n where n: "graph_node g u = Some n" "known w u" using fr by (auto simp: framed_def q)
  obtain cf where cf: "output_frame (fw_info w) n = Some cf" using output_frame_ok [OF fr n(1) linked_viewD(1) [OF l n(1)] n(2)] by blast
  define w0 where "w0 = w\<lparr>fw_ready := rest\<rparr>"
  have kn0: "known w0 = known w" and info0: "fw_info w0 = fw_info w" by (simp_all add: w0_def known_def fun_eq_iff)
  have "frame_ok g w0 = frame_ok g w" by (simp add: frame_ok_def kn0 info0 fun_eq_iff)
  then have fr0: "framed g (op_arcs es) w0" using fr unfolding framed_def kn0 by (simp add: w0_def q)
  have outs: "e \<in> set (n_out_edges n) \<longleftrightarrow> e \<in> set es \<and> e_src e = u" for e using linked_viewD(3) [OF l n(1)] by auto
  have es: "\<forall>e\<in>set (n_out_edges n). graph_node g (e_dst e) \<noteq> None \<and> (1 < e_dst e \<longrightarrow> (u, e_dst e) \<in> op_arcs es)"
    using linked_viewD(7) [OF l] outs op_arc by blast
  have k0: "known w0 u" "output_frame (fw_info w0) n = Some cf" using n(2) cf by (simp_all add: kn0 info0)
  obtain res where res: "visit_outs g u cf w0 (n_out_edges n) = Some res" "\<And>w'. res = Inr w' \<Longrightarrow> visit_done g (op_arcs es) w0 w'
      \<and> (\<forall>e\<in>set (n_out_edges n). 1 < e_dst e \<longrightarrow> known w' (e_dst e) \<and> edge_agrees g (fw_info w') u (e_dst e))"
    using visit_outs_ok [OF l n(1) fr0 k0 es] by blast
  have step: "frames_step g r = Some res" using n(1) cf res(1) by (simp add: frames_step_def r q w0_def)
  show ?thesis
  proof (cases res)
    case (Inl s)
    then show ?thesis using step l by (simp add: frames_ok_def frames_todo_def r)
  next
    case (Inr w')
    note d = res(2) [OF Inr]
    have d': "framed g (op_arcs es) w'" "stays g w0 w'" "unseen w' = unseen w0" "set rest \<subseteq> set (fw_ready w')"
      "\<And>i. i < num_node_ids g \<Longrightarrow> known w' i \<Longrightarrow> known w i \<or> i \<in> set (fw_ready w')"
      using d unfolding visit_done_def kn0 by (auto simp: w0_def)
    have "known w' v \<and> edge_agrees g (fw_info w') i v"
      if i: "i < num_node_ids g" "known w' i" "i \<notin> set (fw_ready w')" "(i, v) \<in> op_arcs es" for i v
    proof (cases "i = u")
      case True
      obtain e where "e \<in> set es" "1 < e_dst e" "e_src e = u" "e_dst e = v" using i(4) True op_arc by blast
      then show ?thesis using d outs True by blast
    next
      case False
      then have "known w i" "i \<notin> set (fw_ready w)" using d'(4,5) i by (auto simp: q)
      then have a: "known w0 i" "known w0 v" "edge_agrees g (fw_info w0) i v" using old i(1,4) by (simp_all add: kn0 info0)
      have "v < num_node_ids g" using i(4) linked_viewD(7) [OF l] graph_node_lt unfolding op_arc by fastforce
      then show ?thesis using edge_agrees_stays [OF fr0 l d'(2) a] d'(2) a(2) by (simp add: stays_def)
    qed
    then have "frames_ok g es res" using l d'(1) by (simp add: frames_ok_def Inr)
    moreover have "unseen w0 < unseen w" by (simp add: unseen_def w0_def q)
    ultimately show ?thesis using step d'(3) by (simp add: frames_todo_def r Inr)
  qed
qed

interpretation framing: worklist frames_busy "frames_step g" "frames_loop g" "frames_ok g es" frames_todo for g es
  by unfold_locales (rule frames_loop.simps, rule frames_progress)

lemma start_framed:
  assumes l: "linked_view g es" and s: "graph_node g kSourceId \<noteq> None"
  shows "frames_ok g es (Inr (start_frames g))"
proof -
  have n: "0 < num_node_ids g" using s graph_node_lt by (fastforce simp: kSourceId_def)
  have kn: "known (start_frames g) i \<longleftrightarrow> i = kSourceId" if "i < num_node_ids g" for i
    using that by (simp add: known_def start_frames_def)
  have info: "fw_info (start_frames g) ! i = (if i = kSourceId then \<lparr>nf_frame = Some kSourceId, nf_parent = Some kSourceId, nf_name = []\<rparr> else no_frame)"
    if "i < num_node_ids g" for i using that by (simp add: start_frames_def nth_list_update)
  have "framed g (op_arcs es) (start_frames g)"
    unfolding framed_def
  proof (intro conjI)
    show "\<forall>i<num_node_ids g. if known (start_frames g) i then frame_ok g (start_frames g) (fw_info (start_frames g) ! i)
        else fw_info (start_frames g) ! i = no_frame"
      using n kn info by (auto simp: frame_ok_def kSourceId_def)
    show "\<forall>i\<in>set (fw_ready (start_frames g)). graph_node g i \<noteq> None \<and> known (start_frames g) i"
      using s by (simp add: start_frames_def known_def)
  qed (use s in \<open>simp_all add: start_frames_def\<close>)
  then show ?thesis using l kn by (auto simp: frames_ok_def) (simp_all add: start_frames_def)
qed

lemma frames_result:
  assumes l: "linked_view g es" and s: "graph_node g kSourceId \<noteq> None"
  shows "\<exists>r. frames_loop g (Inr (start_frames g)) = Some r \<and> (\<forall>w. r = Inr w \<longrightarrow> framed g (op_arcs es) w
    \<and> (\<forall>i<num_node_ids g. known w i \<longleftrightarrow> (kSourceId, i) \<in> (op_arcs es)\<^sup>*)
    \<and> (\<forall>u v. (kSourceId, u) \<in> (op_arcs es)\<^sup>* \<longrightarrow> (u, v) \<in> op_arcs es \<longrightarrow> edge_agrees g (fw_info w) u v))"
proof -
  obtain r where r: "frames_loop g (Inr (start_frames g)) = Some r" "frames_ok g es r" "\<not> frames_busy r"
    using framing.ends [OF start_framed [OF assms]] by blast
  have "framed g (op_arcs es) w \<and> (\<forall>i<num_node_ids g. known w i \<longleftrightarrow> (kSourceId, i) \<in> (op_arcs es)\<^sup>*)
    \<and> (\<forall>u v. (kSourceId, u) \<in> (op_arcs es)\<^sup>* \<longrightarrow> (u, v) \<in> op_arcs es \<longrightarrow> edge_agrees g (fw_info w) u v)" if w: "r = Inr w" for w
  proof -
    have fr: "framed g (op_arcs es) w" and closed: "\<And>u v. u < num_node_ids g \<Longrightarrow> known w u \<Longrightarrow> (u, v) \<in> op_arcs es \<Longrightarrow> known w v \<and> edge_agrees g (fw_info w) u v"
      using r(2,3) by (auto simp: frames_ok_def frames_busy_def w)
    have alive: "u < num_node_ids g \<and> v < num_node_ids g" if "(u, v) \<in> op_arcs es" for u v
      using that linked_viewD(6,7) [OF l] graph_node_lt unfolding op_arc by fastforce
    have reach: "known w i" if "(kSourceId, i) \<in> (op_arcs es)\<^sup>*" for i
      using that
    proof (induction rule: rtrancl_induct)
      case (step u v)
      then show ?case using closed alive by blast
    qed (simp add: known_def)
    have behind: "(kSourceId, i) \<in> (op_arcs es)\<^sup>*" if k: "known w i" "i < num_node_ids g" for i
    proof (cases "i = kSourceId")
      case False
      then obtain q where "fw_parents w ! i = Some q" using k(1) by (auto simp: known_def)
      then have "(kSourceId, i) \<in> (op_arcs es)\<^sup>+" using fr k(2) unfolding framed_def by blast
      then show ?thesis by (rule trancl_into_rtrancl)
    qed simp
    show ?thesis using fr reach behind closed alive by blast
  qed
  then show ?thesis using r(1) by blast
qed

section \<open>What the validation accepts\<close>

text \<open>The parents that have been noted for the frames.\<close>

definition parents_noted :: "node_frame list \<Rightarrow> gnode list \<Rightarrow> (string \<rightharpoonup> loop_frame) \<Rightarrow> bool" where
  "parents_noted info ns fs \<longleftrightarrow> (\<forall>n\<in>set ns. \<forall>p. nf_frame (info ! n_id n) \<noteq> None \<longrightarrow> nf_parent (info ! n_id n) = Some p \<longrightarrow>
     lp_parent (frame_at fs (nf_name (info ! n_id n))) = Some (nf_name (info ! p)))"

definition conds_alive :: "graph \<Rightarrow> (string \<rightharpoonup> loop_frame) \<Rightarrow> bool" where
  "conds_alive g fs \<longleftrightarrow> (\<forall>k c. lp_cond (frame_at fs k) = Some c \<longrightarrow> graph_node g c \<noteq> None)"

lemma frame_at_upd: "frame_at (fs(k \<mapsto> f)) j = (if j = k then f else frame_at fs j)"
  by (simp add: frame_at_def)

lemma set_parent_ok:
  assumes "set_parent n k pk fs = Inr fs'"
  shows "lp_parent (frame_at fs' k) = Some pk" "lp_parent (frame_at fs j) = Some q \<Longrightarrow> lp_parent (frame_at fs' j) = Some q"
    "lp_cond (frame_at fs' j) = lp_cond (frame_at fs j)"
proof -
  consider "lp_parent (frame_at fs k) = None" | "lp_parent (frame_at fs k) = Some pk"
    using assms by (auto simp: set_parent_def Let_def split: option.splits if_splits)
  then show "lp_parent (frame_at fs' k) = Some pk" "lp_parent (frame_at fs j) = Some q \<Longrightarrow> lp_parent (frame_at fs' j) = Some q"
    "lp_cond (frame_at fs' j) = lp_cond (frame_at fs j)"
    using assms by (cases; auto simp: set_parent_def Let_def frame_at_upd split: if_splits)+
qed

lemma set_loop_cond_ok:
  assumes "conds_alive g fs" "graph_node g (n_id n) \<noteq> None"
  shows "\<exists>r. set_loop_cond contains g n k fs = Some r \<and> (\<forall>fs'. r = Inr fs' \<longrightarrow> conds_alive g fs'
    \<and> (\<forall>j. lp_parent (frame_at fs' j) = lp_parent (frame_at fs j)))"
proof (cases "lp_cond (frame_at fs k)")
  case None
  then show ?thesis using assms by (auto simp: set_loop_cond_def Let_def conds_alive_def frame_at_upd)
next
  case (Some c)
  then obtain m where "graph_node g c = Some m" using assms(1) by (auto simp: conds_alive_def)
  then show ?thesis using Some assms by (auto simp: set_loop_cond_def Let_def conds_alive_def frame_at_upd)
qed

lemma validate_node_ok:
  assumes "conds_alive g fs" "graph_node g (n_id n) \<noteq> None" "parents_noted info ns fs"
  shows "\<exists>r. validate_node contains g info fs n = Some r \<and> (\<forall>fs'. r = Inr fs' \<longrightarrow> conds_alive g fs' \<and> parents_noted info (n # ns) fs')"
proof (cases "nf_frame (info ! n_id n) = None \<or> nf_parent (info ! n_id n) = None")
  case True
  then show ?thesis using assms by (auto simp: validate_node_def Let_def parents_noted_def)
next
  case False
  then obtain p f where p: "nf_parent (info ! n_id n) = Some p" "nf_frame (info ! n_id n) = Some f" by auto
  let ?k = "nf_name (info ! n_id n)" and ?pk = "nf_name (info ! p)"
  show ?thesis
  proof (cases "set_parent n ?k ?pk fs")
    case (Inl s)
    then show ?thesis using p by (simp add: validate_node_def Let_def)
  next
    case (Inr fs1)
    note sp = set_parent_ok [OF Inr]
    have ca: "conds_alive g fs1" using assms(1) by (simp add: conds_alive_def sp(3))
    have pn: "parents_noted info (n # ns) fs1" using assms(3) sp(1,2) p by (auto simp: parents_noted_def)
    obtain r where r: "set_loop_cond contains g n ?k fs1 = Some r" "\<And>fs'. r = Inr fs' \<Longrightarrow> conds_alive g fs'
        \<and> (\<forall>j. lp_parent (frame_at fs' j) = lp_parent (frame_at fs1 j))"
      using set_loop_cond_ok [OF ca assms(2)] by blast
    have "parents_noted info (n # ns) fs'" if "r = Inr fs'" for fs' using pn r(2) [OF that] by (simp add: parents_noted_def)
    then show ?thesis using p Inr ca pn r by (cases "IsLoopCond n") (auto simp: validate_node_def Let_def)
  qed
qed

lemma validate_node_error:
  assumes "validate_node contains g info fs n = Some (Inl s)"
  shows "\<not> status_ok s"
proof -
  have "\<not> status_ok (mk_status INTERNAL m)" "\<not> status_ok (mk_status INVALID_ARGUMENT m)" for m
    by (simp_all add: status_ok_def mk_status_def)
  then show ?thesis using assms
    by (auto simp: validate_node_def set_parent_def set_loop_cond_def Let_def split: if_splits option.splits sum.splits bind_splits)
qed

lemma validate_nodes_ok:
  assumes "conds_alive g fs" "\<forall>n\<in>set ns. graph_node g (n_id n) \<noteq> None" "parents_noted info done_ns fs"
  shows "\<exists>s. validate_nodes contains g info fs ns = Some s \<and> (status_ok s \<longrightarrow> (\<exists>fs'. parents_noted info (rev ns @ done_ns) fs'))"
  using assms
proof (induction ns arbitrary: fs done_ns)
  case Nil
  then show ?case by auto
next
  case (Cons n ns)
  obtain r where r: "validate_node contains g info fs n = Some r" "\<And>fs'. r = Inr fs' \<Longrightarrow> conds_alive g fs' \<and> parents_noted info (n # done_ns) fs'"
    using validate_node_ok [OF Cons.prems(1) _ Cons.prems(3), of n contains] Cons.prems(2) unfolding list.set_map by (metis list.set_intros(1))
  show ?case
  proof (cases r)
    case (Inl s)
    have "\<not> status_ok s" using validate_node_error r(1) Inl by simp
    then show ?thesis using r(1) Inl by simp
  next
    case (Inr fs')
    then show ?thesis using r Cons.IH [of fs' "n # done_ns"] Cons.prems(2) by simp
  qed
qed

lemma ValidateControlFlowInfo_ok:
  assumes l: "linked_view g es"
  shows "\<exists>s. ValidateControlFlowInfo contains g info = Some s \<and> (status_ok s \<longrightarrow> (\<exists>around. \<forall>i n f p.
    graph_node g i = Some n \<longrightarrow> 1 < i \<longrightarrow> nf_frame (info ! i) = Some f \<longrightarrow> nf_parent (info ! i) = Some p \<longrightarrow>
      around (nf_name (info ! i)) = nf_name (info ! p)))"
proof -
  have "\<forall>n\<in>set (op_nodes g). graph_node g (n_id n) \<noteq> None" using graph_nodes_at [OF l] by (simp add: op_nodes_def)
  moreover have "conds_alive g Map.empty" "parents_noted info [] Map.empty" by (simp_all add: conds_alive_def parents_noted_def frame_at_def)
  ultimately obtain s where s: "ValidateControlFlowInfo contains g info = Some s"
    "status_ok s \<longrightarrow> (\<exists>fs. parents_noted info (rev (op_nodes g) @ []) fs)"
    using validate_nodes_ok unfolding ValidateControlFlowInfo_def by blast
  have "\<exists>around. \<forall>i n f p. graph_node g i = Some n \<longrightarrow> 1 < i \<longrightarrow> nf_frame (info ! i) = Some f \<longrightarrow> nf_parent (info ! i) = Some p \<longrightarrow>
      around (nf_name (info ! i)) = nf_name (info ! p)" if ok: "status_ok s"
  proof -
    obtain fs where fs: "parents_noted info (rev (op_nodes g) @ []) fs" using s(2) ok by blast
    have "the (lp_parent (frame_at fs (nf_name (info ! i)))) = nf_name (info ! p)"
      if i: "graph_node g i = Some n" "1 < i" "nf_frame (info ! i) = Some f" "nf_parent (info ! i) = Some p" for i n f p
    proof -
      have id: "n_id n = i" by (rule linked_viewD(1) [OF l i(1)])
      have "n \<in> set (graph_nodes g)" using i(1) by (auto simp: graph_nodes_member graph_node_def split: if_splits)
      then have "n \<in> set (rev (op_nodes g) @ [])" using i(2) by (simp add: op_nodes_def IsOp_def id)
      then show ?thesis using fs i(3,4) id unfolding parents_noted_def by force
    qed
    then show ?thesis by (intro exI [of _ "\<lambda>k. the (lp_parent (frame_at fs k))"]) blast
  qed
  then show ?thesis using s(1) by blast
qed

text \<open>
  C8: On every graph built by operations of class \<open>Graph\<close> that still has its source, the walk and
  the validation end and meet no null pointer. When there is no error, exactly the nodes that
  the source reaches have a frame, every edge between them stays in its frame, enters a frame
  from the one around it, or leaves it, and the frames of one name lie in frames of one name.
\<close>

theorem loop_frames_agree:
  assumes "arena_ok arena" "registry (''_SOURCE'', ''NoOp'') = Inr source" "registry (''_SINK'', ''NoOp'') = Inr sink"
    "run_ok (agraph_step op_defs) (graph_pre op_defs) (first_graph source sink) xs"
    and "fst (run (agraph_step op_defs) (first_graph source sink) xs) = a" "alive (fst a) kSourceId"
    and "R = op_arcs (edges_of a)"
  shows "\<exists>g0 v r. new_graph arena registry = Some g0 \<and> v = view_graph (fst (run (graph_step arena op_defs) g0 xs))
    \<and> BuildFrameInfo contains v = Some r \<and> (\<forall>info unreachable. r = Inr (info, unreachable) \<longrightarrow>
        (\<forall>i. alive (fst a) i \<longrightarrow> (nf_frame (info ! i) \<noteq> None \<longleftrightarrow> (kSourceId, i) \<in> R\<^sup>*))
      \<and> (\<forall>i w. (kSourceId, i) \<in> R\<^sup>* \<longrightarrow> (i, w) \<in> R \<longrightarrow> edge_agrees v info i w)
      \<and> (\<exists>around. \<forall>i p. alive (fst a) i \<longrightarrow> 1 < i \<longrightarrow> (kSourceId, i) \<in> R\<^sup>* \<longrightarrow> nf_parent (info ! i) = Some p \<longrightarrow>
           around (nf_name (info ! i)) = nf_name (info ! p)))"
proof -
  obtain g0 g where g: "new_graph arena registry = Some g0" "run (graph_step arena op_defs) g0 xs =
      (g, snd (run (agraph_step op_defs) (first_graph source sink) xs))" "abs_graph g = a" "graph_wf arena g"
    using graph_history [OF assms(1-4)] assms(5) by metis
  define v where "v = view_graph g"
  note l = view_linked(1) [OF g(4), unfolded g(3), folded v_def] and al = view_linked(2) [OF g(4), unfolded g(3), folded v_def]
  have s: "graph_node v kSourceId \<noteq> None" using al assms(6) by simp
  obtain r where r: "frames_loop v (Inr (start_frames v)) = Some r" "\<And>w. r = Inr w \<Longrightarrow> framed v R w
      \<and> (\<forall>i<num_node_ids v. known w i \<longleftrightarrow> (kSourceId, i) \<in> R\<^sup>*)
      \<and> (\<forall>u x. (kSourceId, u) \<in> R\<^sup>* \<longrightarrow> (u, x) \<in> R \<longrightarrow> edge_agrees v (fw_info w) u x)"
    using frames_result [OF l s] assms(7) by blast
  show ?thesis
  proof (cases r)
    case (Inl e)
    then show ?thesis using g(1,2) r(1) by (intro exI [of _ g0] exI [of _ v] exI [of _ "Inl e"]) (simp add: BuildFrameInfo_def v_def)
  next
    case (Inr w)
    note w = r(2) [OF Inr]
    define un where "un = map n_name (filter (\<lambda>n. fw_parents w ! n_id n = None) (op_nodes v))"
    obtain st where st: "ValidateControlFlowInfo contains v (fw_info w) = Some st" "status_ok st \<longrightarrow> (\<exists>around. \<forall>i n f p.
        graph_node v i = Some n \<longrightarrow> 1 < i \<longrightarrow> nf_frame (fw_info w ! i) = Some f \<longrightarrow> nf_parent (fw_info w ! i) = Some p \<longrightarrow>
          around (nf_name (fw_info w ! i)) = nf_name (fw_info w ! p))"
      using ValidateControlFlowInfo_ok [OF l] by blast
    have res: "BuildFrameInfo contains v = Some (if status_ok st then Inr (fw_info w, un) else Inl st)"
      using r(1) st(1) by (simp add: BuildFrameInfo_def Inr un_def Let_def)
    have frame: "nf_frame (fw_info w ! i) \<noteq> None \<longleftrightarrow> (kSourceId, i) \<in> R\<^sup>*" if "alive (fst a) i" for i
    proof -
      have i: "i < num_node_ids v" using al that graph_node_lt by fastforce
      have "if known w i then frame_ok v w (fw_info w ! i) else fw_info w ! i = no_frame" using w i unfolding framed_def by blast
      then have "nf_frame (fw_info w ! i) \<noteq> None \<longleftrightarrow> known w i" by (auto simp: frame_ok_def no_frame_def split: if_splits)
      then show ?thesis using w i by blast
    qed
    have around: "\<exists>around. \<forall>i p. alive (fst a) i \<longrightarrow> 1 < i \<longrightarrow> (kSourceId, i) \<in> R\<^sup>* \<longrightarrow> nf_parent (fw_info w ! i) = Some p \<longrightarrow>
           around (nf_name (fw_info w ! i)) = nf_name (fw_info w ! p)" if "status_ok st"
      using st(2) that frame al by (meson not_None_eq)
    show ?thesis
    proof (cases "status_ok st")
      case True
      then show ?thesis using g(1,2) res w frame around
        by (intro exI [of _ g0] exI [of _ v] exI [of _ "Inr (fw_info w, un)"]) (simp add: v_def)
    next
      case False
      then show ?thesis using g(1,2) res by (intro exI [of _ g0] exI [of _ v] exI [of _ "Inl st"]) (simp add: v_def)
    qed
  qed
qed

lemma loop_frames_agree_witness:
  "\<exists>g0 v r. new_graph Suc sample_registry = Some g0 \<and> v = view_graph (fst (run (graph_step Suc (\<lambda>_. Some 7)) g0 sample_ops))
    \<and> BuildFrameInfo (\<lambda>_ _. False) v = Some r
    \<and> (case r of Inl s \<Rightarrow> True | Inr (info, unreachable) \<Rightarrow> nf_frame (info ! 4) \<noteq> None \<and> nf_frame (info ! 3) = None)"
proof -
  have ar: "arena_ok Suc" by (simp add: arena_ok_def)
  have reg: "sample_registry (''_SOURCE'', ''NoOp'') = Inr (sample_props ''_SOURCE'', False)"
    "sample_registry (''_SINK'', ''NoOp'') = Inr (sample_props ''_SINK'', False)" by (simp_all add: sample_registry_def)
  define a where "a = fst (run (agraph_step (\<lambda>_. Some 7)) (first_graph (sample_props ''_SOURCE'', False) (sample_props ''_SINK'', False)) sample_ops)"
  have al: "alive (fst a) kSourceId" "alive (fst a) 3" "alive (fst a) 4" and es: "snd a = [Some (0, - 1, 1, - 1), None, Some (0, - 1, 4, - 1)]"
    by (simp_all add: a_def sample_ops_def first_graph_def agraph_step_def fresh_anode_def copy_anode_def sample_props_def
      upd_at_def upd_props_def alive_def note_control_input_def caret_def control_between_def forget_def touches_def
      kControlSlot_def kSourceId_def kSinkId_def class_NoOp)
  have R: "op_arcs (edges_of a) = {(0, 4)}" by (simp add: op_arcs_def edge_arcs_def edges_of_def es as_edge_def List.map_filter_def)
  have reach: "(kSourceId, 4) \<in> {(0, 4 :: nat)}\<^sup>*" "(kSourceId, 3) \<notin> {(0, 4 :: nat)}\<^sup>*"
    by (auto simp: kSourceId_def elim: rtranclE)
  show ?thesis
    using loop_frames_agree [OF ar reg sample_replies(2) a_def [symmetric] al(1) refl, of "\<lambda>_ _. False", unfolded R]
  proof (elim exE conjE, goal_cases)
    case (1 g0 v r)
    have "nf_frame (info ! 4) \<noteq> None" "nf_frame (info ! 3) = None" if "r = Inr (info, un)" for info un
      using 1(4) that al(2,3) reach by auto
    then have "case r of Inl s \<Rightarrow> True | Inr (info, unreachable) \<Rightarrow> nf_frame (info ! 4) \<noteq> None \<and> nf_frame (info ! 3) = None"
      by (cases r) auto
    then show ?case using 1(1-3) by (intro exI [of _ g0] exI [of _ v] exI [of _ r]) simp
  qed
qed

end
