(* ===== verification/Tensor_Names.thy ===== *)
theory Tensor_Names
  imports Graph_Model Device_Name_Props
begin

text \<open>
  core/graph/tensor_id.cc and tensor_id.h: the names of tensors, \<open>node\<close>, \<open>node:index\<close> and, for a
  control edge, \<open>^node\<close>; \<open>TensorId\<close> and \<open>SafeTensorId\<close> are both pairs here.
\<close>

section \<open>The code\<close>

type_synonym tensor_id = "string \<times> int"

definition IsTensorIdControl :: "tensor_id \<Rightarrow> bool" where
  "IsTensorIdControl t = (snd t = kControlSlot)"

definition tensor_id_string :: "tensor_id \<Rightarrow> string" where
  "tensor_id_string t = (if snd t = kControlSlot then ''^'' @ fst t else fst t @ '':'' @ show_int (snd t))"

text \<open>
  The loop goes backwards from the end; its position, the index and the power of ten are the
  state. For the empty name the pointer is before the base, which the tests below treat like
  a pointer to the base.
\<close>

fun scan_digits :: "string \<Rightarrow> nat \<Rightarrow> 32 word \<Rightarrow> 32 word \<Rightarrow> nat \<times> 32 word \<times> 32 word" where
  "scan_digits name 0 index mul = (0, index, mul)"
| "scan_digits name (Suc p) index mul =
     (if is_digit (name ! Suc p) then scan_digits name p (index + of_nat (ascii (name ! Suc p) - 48) * mul) (mul * 10)
      else (Suc p, index, mul))"

text \<open>
  \<open>absl::StartsWith\<close> is not part of the repository: it is the parameter \<open>starts\<close>. The name is a piece of memory and \<open>after\<close> what follows it: the name of a control edge is made
  from a pointer alone, so it ends at the next null character and not at the end of the piece.
  The index is unsigned and becomes an \<open>int\<close>.
\<close>

definition ParseTensorName :: "(string \<Rightarrow> string \<Rightarrow> bool) \<Rightarrow> string \<Rightarrow> string \<Rightarrow> tensor_id" where
  "ParseTensorName starts after name =
     (let (p, index, mul) = scan_digits name (length name - 1) 0 1
      in if 0 < p \<and> name ! p = CHR '':'' \<and> 1 < mul then (take p name, sint index)
         else if starts name ''^'' then (takeWhile (\<lambda>c. c \<noteq> CHR 0x00) (drop 1 (name @ after)), kControlSlot)
         else (name, 0))"

section \<open>Names read back\<close>

lemma dec_val_snoc: "dec_val v (ds @ [d]) = dec_val v ds * 10 + (ascii d - 48)"
  by (induction ds arbitrary: v) simp_all

lemma scan_digits_run:
  assumes "list_all is_digit ds" "\<not> is_digit c"
  shows "scan_digits (pre @ c # ds @ rest) (length pre + length ds) index mul
    = (length pre, index + mul * of_nat (dec_val 0 ds), mul * 10 ^ length ds)"
  using assms(1)
proof (induction ds arbitrary: rest index mul rule: rev_induct)
  case Nil
  then show ?case using assms(2) by (cases "length pre") (simp_all add: nth_append)
next
  case (snoc d ds)
  have at: "(pre @ c # ds @ d # rest) ! Suc (length pre + length ds) = d" by (simp add: nth_append)
  have "scan_digits (pre @ c # (ds @ [d]) @ rest) (length pre + length (ds @ [d])) index mul
      = scan_digits (pre @ c # ds @ d # rest) (length pre + length ds) (index + of_nat (ascii d - 48) * mul) (mul * 10)"
    using snoc.prems at by simp
  also have "\<dots> = (length pre, index + of_nat (ascii d - 48) * mul + mul * 10 * of_nat (dec_val 0 ds), mul * 10 * 10 ^ length ds)"
    using snoc.IH [of "d # rest"] snoc.prems by simp
  finally show ?case by (simp add: dec_val_snoc algebra_simps)
qed

lemma scan_digits_stop: "fst (scan_digits name p index mul) \<le> p"
  by (induction p arbitrary: index mul) (auto intro: le_SucI)

lemma show_nat_length: "n < 10 ^ k \<Longrightarrow> 0 < k \<Longrightarrow> length (show_nat n) \<le> k"
proof (induction k arbitrary: n)
  case (Suc k)
  show ?case
  proof (cases "n < 10")
    case False
    then have "0 < k" using Suc.prems(1) by (cases k) simp_all
    moreover have "n div 10 < 10 ^ k" using Suc.prems(1) by (simp add: less_mult_imp_div_less mult.commute)
    ultimately show ?thesis using Suc.IH [of "n div 10"] False by (simp add: show_nat.simps [of n])
  qed (simp add: show_nat.simps [of n])
qed simp

text \<open>The power of ten is above 1 for every number of digits that an index below 2^31 can have.\<close>

lemma power_of_ten:
  assumes "0 < k" "k \<le> 10"
  shows "1 < (10 :: 32 word) ^ k"
proof -
  have "k = 1 \<or> k = 2 \<or> k = 3 \<or> k = 4 \<or> k = 5 \<or> k = 6 \<or> k = 7 \<or> k = 8 \<or> k = 9 \<or> k = 10" using assms by presburger
  then show ?thesis by (elim disjE) (simp_all add: word_less_nat_alt)
qed

text \<open>
  C38: A tensor name reads back: printing the id of a tensor or of a control edge and parsing the
  text gives the id, for every node name without a colon and every index an \<open>int\<close> can hold
  that is not negative.
\<close>

theorem tensor_name_roundtrip:
  assumes "starts_spec starts" "node \<noteq> []" "CHR '':'' \<notin> set node" "CHR 0x00 \<notin> set node" "after = CHR 0x00 # behind"
    "index = kControlSlot \<or> 0 \<le> index \<and> index < 2 ^ 31"
  shows "ParseTensorName starts after (tensor_id_string (node, index)) = (node, index)"
proof (cases "index = kControlSlot")
  case True
  define name where "name = CHR ''^'' # node"
  obtain p i m where scan: "scan_digits name (length name - 1) 0 1 = (p, i, m)" by (cases "scan_digits name (length name - 1) 0 1")
  have "p < length name" using scan_digits_stop [of name "length name - 1" 0 1] scan by (simp add: name_def)
  then have "name ! p \<in> set name" by simp
  then have "name ! p \<noteq> CHR '':''" using assms(3) by (auto simp: name_def)
  moreover have "takeWhile (\<lambda>c. c \<noteq> CHR 0x00) (node @ after) = node"
  proof -
    have "takeWhile (\<lambda>c. c \<noteq> CHR 0x00) after = []" using assms(5) by simp
    moreover have "takeWhile (\<lambda>c. c \<noteq> CHR 0x00) (node @ after) = node @ takeWhile (\<lambda>c. c \<noteq> CHR 0x00) after"
      using assms(4) by (intro takeWhile_append2) auto
    ultimately show ?thesis by simp
  qed
  ultimately show ?thesis using True scan assms(1) by (simp add: ParseTensorName_def tensor_id_string_def name_def starts_spec_def)
next
  case False
  then have index: "0 \<le> index" "index < 2 ^ 31" using assms(6) by auto
  define ds where "ds = show_nat (nat index)"
  have ds: "ds \<noteq> []" "list_all is_digit ds" "dec_val 0 ds = nat index" using show_nat_digits [of "nat index"] by (simp_all add: ds_def)
  have "nat index < 10 ^ 10" using index by simp
  then have len: "length ds \<le> 10" using show_nat_length [of "nat index" 10] by (simp add: ds_def)
  have "\<not> is_digit (CHR '':'')" by (simp add: is_digit_def ascii_def)
  then have scan: "scan_digits (node @ CHR '':'' # ds) (length node + length ds) 0 1 = (length node, of_nat (nat index), 10 ^ length ds)"
    using scan_digits_run [OF ds(2), of "CHR '':''" node "[]" 0 1] ds(3) by simp
  have "sint (of_nat (nat index) :: 32 word) = index"
    using index by (simp add: signed_of_int signed_take_bit_int_eq_self_iff)
  moreover have "tensor_id_string (node, index) = node @ CHR '':'' # ds" using False index(1) by (simp add: tensor_id_string_def show_int_def ds_def)
  moreover have "1 < (10 :: 32 word) ^ length ds" using power_of_ten [of "length ds"] ds(1) len by simp
  ultimately show ?thesis using scan assms(2) by (simp add: ParseTensorName_def nth_append)
qed

lemma tensor_name_roundtrip_witness:
  "tensor_id_string (''a/b'', 17) = ''a/b:17'' \<and> ParseTensorName (\<lambda>s p. prefix p s) [CHR 0x00] (tensor_id_string (''a/b'', 17)) = (''a/b'', 17)
    \<and> ParseTensorName (\<lambda>s p. prefix p s) [CHR 0x00] (tensor_id_string (''a/b'', kControlSlot)) = (''a/b'', kControlSlot)"
  using tensor_name_roundtrip [of "\<lambda>s p. prefix p s" "''a/b''" "[CHR 0x00]" "[]" 17] tensor_name_roundtrip [of "\<lambda>s p. prefix p s" "''a/b''" "[CHR 0x00]" "[]" kControlSlot]
  by (simp add: starts_spec_def tensor_id_string_def kControlSlot_def show_int_def show_nat.simps digit_char_def char_of_def bit_iff_odd)

text \<open>
  What does not read back: an index of 2^32 - 1 is taken for a control edge, a number of 32
  digits for no index at all, and a control name runs past the end of its piece.
\<close>

lemma big_index_is_control: "ParseTensorName starts after ''a:4294967295'' = (''a'', kControlSlot)"
proof -
  have "list_all is_digit ''4294967295''" "\<not> is_digit (CHR '':'')" by (simp_all add: is_digit_def ascii_def)
  from scan_digits_run [OF this, of "''a''" "[]" 0 1]
  have "scan_digits ''a:4294967295'' (length ''a:4294967295'' - 1) 0 1 = (1, - 1, 10 ^ 10)"
    by (simp del: scan_digits.simps add: ascii_def)
  then show ?thesis using power_of_ten [of 10] by (simp add: ParseTensorName_def kControlSlot_def)
qed

lemma control_name_overruns:
  assumes "starts_spec starts" "CHR 0x00 \<notin> set text" "after = text @ CHR 0x00 # behind"
  shows "ParseTensorName starts after ''^a'' = (''a'' @ text, kControlSlot)"
proof -
  have "takeWhile (\<lambda>c. c \<noteq> CHR 0x00) after = text" using assms(2,3) by (subst assms(3), subst takeWhile_append2) auto
  then show ?thesis using assms(1) by (simp add: ParseTensorName_def is_digit_def ascii_def starts_spec_def)
qed

end
