(* ===== verification/Spec2Isabelle.thy ===== *)
theory Spec2Isabelle
  imports Status_Model Pending_Counts Graph_Model Node_Items Frames Samples Activation Frame_Props
    Ready_Queue Malleability Data_Types Executor Scheduling_Props Process_Props Executor_Props
    Device_Names Device_Name_Props Sharding Sharding_Props
    Cancel_Manager Cancel_Manager_Props Rendezvous Rendezvous_Props
    BFC_Alloc BFC_History BFC_Samples BFC_Props
    Alloc_Attrs Schedule_Client
    Flat_Props Edge_Sets Graph_Update Control_Flow Graph_Cycles Graph_Fixup Loop_Frames Tensor_Names
begin

text \<open>
  A model of the runtime of this TensorFlow fork: the dataflow executor with its malleable
  (elastic) threads, and the parts of the runtime it stands on. Paths are below
  src/tensorflow.

  \<^bold>\<open>The program\<close>. A step of a graph is run by an \<open>ExecutorState\<close>
  (core/common_runtime/executor.cc). \<open>ExecutorImpl::Initialize\<close> turns the graph into compact
  node items and frames, with the counts a fresh iteration of a loop starts from. A node runs
  when its pending count reaches zero; \<open>Process\<close> takes a ready node, prepares its inputs, runs
  the kernel, distributes the outputs (\<open>PropagateOutputs\<close>, \<open>ActivateNodes\<close>), counts the work
  left (\<open>NodeDone\<close>) and schedules what became ready (\<open>ScheduleReady\<close>), on its own thread or on
  the inter-op pool. What the fork adds is malleability: a signal asks for fewer or more active
  threads, and \<open>ScheduleReady\<close> and \<open>Process\<close> honour the request when a counter reaches a
  threshold read from the environment. The graph is built and changed by class \<open>Graph\<close>, whose
  edge sets are the hash tables of core/lib/gtl, and is searched, pruned and checked before it is
  run. Around the executor stand the error values (\<open>Status\<close>), the
  cancellation of a step (\<open>CancellationManager\<close>), the exchange of tensors (\<open>Rendezvous\<close>), names of
  devices, the sharding of a kernel's work over a pool, and the memory the tensors live in
  (\<open>BFCAllocator\<close>).

  \<^bold>\<open>Theories and code\<close>.
  \<^item> \<open>Prelude\<close>: the collections of facts, lemmas on lists and options, and the interfaces
    \<open>invariant_system\<close> (an invariant of a transition system), \<open>fifo\<close>, \<open>first_error\<close>,
    \<open>simulation\<close>; each is interpreted on the model's own operations where those are defined.
  \<^item> \<open>Status_Model\<close>: \<open>Status\<close>, \<open>StatusGroup\<close> and the log sink (core/platform/status.cc).
  \<^item> \<open>Pending_Counts\<close>: \<open>PendingCounts\<close> (core/common_runtime/pending_counts.h), with the bit-fields
    as words of their width.
  \<^item> \<open>Graph_Model\<close>, \<open>Node_Items\<close>: nodes, edges and attributes (core/graph/graph.cc,
    core/framework/node_def_util.cc), \<open>GraphView\<close> and \<open>ExecutorImpl::Initialize\<close>.
    \<open>Alloc_Attrs\<close>: \<open>InferAllocAttr\<close>, the attributes of outputs.
  \<^item> \<open>Flat_Rep\<close> (the model), \<open>Flat_Probing\<close>, \<open>Flat_Ops\<close>, \<open>Flat_Resize\<close>, \<open>Flat_Props\<close>: the hash tables
    \<open>FlatRep\<close>, \<open>FlatMap\<close> and \<open>FlatSet\<close> (core/lib/gtl/flatrep.h, flatmap.h, flatset.h), with the
    markers of their entries. \<open>Edge_Sets\<close>: \<open>EdgeSet\<close> (core/graph/edgeset.h, edgeset.cc), inline or a table.
  \<^item> \<open>Graph_Ops\<close>: class \<open>Graph\<close> (core/graph/graph.cc) on addresses: the pools of node and edge objects,
    properties that copies share until one is changed, the table of device names. \<open>Graph_Inv\<close>,
    \<open>Graph_Edges\<close>, \<open>Graph_Remove\<close>, \<open>Graph_Nodes\<close>, \<open>Graph_Copy\<close>: its invariant and that every operation
    keeps it. \<open>Graph_Spec\<close>: the abstract graph of nodes and edges under their ids. \<open>Graph_Sim\<close>,
    \<open>Graph_Sim_Nodes\<close>, \<open>Graph_Sim_Control\<close>, \<open>Graph_Props\<close>, \<open>Graph_Update\<close>: that the first does what the
    second does. \<open>Graph_View\<close>: what a reader of the graph sees.
  \<^item> \<open>Graph_Search\<close>, \<open>Graph_Order\<close>: the depth-first searches and post-orders of core/graph/algorithm.cc;
    \<open>Graph_Prune\<close>, \<open>Graph_Fixup\<close>: its pruning and the edges of source and sink. \<open>Graph_Cycles\<close>:
    \<open>ValidateGraphHasNoCycle\<close> (core/graph/validate.cc). \<open>Loop_Frames\<close>: core/graph/control_flow.cc.
    \<open>Tensor_Names\<close>: core/graph/tensor_id.cc.
    \<open>Control_Flow\<close>: the walk of \<open>ExecutorImpl::BuildControlFlowInfo\<close>, whose model is in \<open>Node_Items\<close>.
  \<^item> \<open>Frames\<close>, \<open>Activation\<close>, \<open>Frame_Props\<close>: \<open>IterationState\<close> and \<open>FrameState\<close> of the executor,
    the readiness rule of \<open>ActivateNodes\<close>, the ring of iterations. \<open>Samples\<close> holds concrete inputs.
  \<^item> \<open>Ready_Queue\<close>, \<open>Malleability\<close>: \<open>TaggedNodeReadyQueue\<close>; the signal handlers, thresholds and
    counters.
  \<^item> \<open>Executor\<close>: \<open>PrepareInputs\<close>, \<open>ProcessOutputs\<close>, \<open>PropagateOutputs\<close>, child frames, \<open>NodeDone\<close>,
    \<open>ScheduleReady\<close>, \<open>Process\<close>, \<open>ScheduleFinish\<close>, \<open>Finish\<close>; \<open>Scheduling_Props\<close>, \<open>Process_Props\<close> and
    \<open>Executor_Props\<close> hold what is proved of them.
  \<^item> \<open>Data_Types\<close>: core/framework/types.cc. \<open>Device_Names\<close>, \<open>Device_Name_Props\<close>:
    core/util/device_name_utils.cc.
  \<^item> \<open>Sharding\<close>, \<open>Sharding_Props\<close>: core/platform/threadpool.cc, blocking_counter.h and
    core/util/work_sharder.cc.
  \<^item> \<open>Cancel_Manager\<close>, \<open>Cancel_Manager_Props\<close>: core/framework/cancellation.cc.
  \<^item> \<open>Rendezvous\<close>, \<open>Rendezvous_Props\<close>: core/framework/rendezvous.cc and local_rendezvous.cc.
  \<^item> \<open>BFC_Allocator\<close> (the model), \<open>BFC_Geometry\<close> (how chunks lie in regions), \<open>BFC_Invariant\<close>,
    \<open>BFC_Coalesce\<close>, \<open>BFC_Blocks\<close>, \<open>BFC_Regions\<close>, \<open>BFC_Times\<close> (that each operation keeps the
    invariant), \<open>BFC_Alloc\<close>, \<open>BFC_History\<close>, \<open>BFC_Samples\<close>, \<open>BFC_Props\<close>:
    core/common_runtime/bfc_allocator.cc and allocator_retry.cc.
  \<^item> \<open>Schedule_Client\<close>: core/distributed_runtime/rpc/grpc_schedule_client_impl.cc.

  The interfaces are locales, each interpreted on the code's own operations: those of the prelude,
  \<open>pointer_set\<close> (what a graph asks of an edge set; \<open>Edge_Sets\<close> provides it) and \<open>worklist\<close> (a
  loop over a list of work whose iterations keep an invariant and make a measure smaller; the
  depth-first search, the search of the pruning, the check for cycles and the walk over loop
  frames are its instances).

  A C++ class is a record with the names of its members (prefixed), a method is a function that
  returns the new state. A null or dangling dereference, a failed \<open>CHECK\<close> and an abort are the
  value \<open>None\<close>; a \<open>Status\<close> that is not ok is a value of its own. Code that runs under one lock is
  one step; \<open>NodeDone\<close>, which records the status, counts and calls \<open>ScheduleReady\<close> in separate
  critical sections, is one step too, and so is the callback that a rendezvous calls after it has
  released its lock. Where the code releases a lock, or an object is shared by threads without one, the
  component has a step relation and its properties hold in every interleaving
  (\<open>machine_step\<close>, \<open>cm_step\<close>, \<open>shard_step\<close>). Kernels, the pools of the patched Eigen,
  devices and the sub-allocator are parameters.

  \<^bold>\<open>What the lemmas show\<close>. The step: in every interleaving the number of outstanding operations is
  the work that is left, no ready node is lost or run twice, the step finishes exactly once and
  reports the first error. Frames: a node becomes ready exactly at the arrival that completes its
  rule, or, a merge, at a dead Enter after its control inputs, the ring of iterations is never overrun, finished iterations are cleaned up without null
  dereferences. Elasticity: which requests of a signal are honoured, and which are lost, from any
  counter and pending signal that a step may find, since the code sets neither.
  Sharding: every index is processed once and the caller neither returns early nor hangs.
  Cancellation and rendezvous: callbacks run exactly once; tensors are matched in order per hash of a key, with
  cancellations and aborts. Memory, without garbage collection and for requests of every size
  whose rounding does not wrap: blocks in use never overlap, the accounts are exact, the choice of a chunk is the best fit and
  (both without time stamps) coalescing is complete. Graphs: a hash table is a finite map and an edge set a set, whatever the
  collisions and the deletions; a graph is what its operations made of it, reuse and sharing do
  not show, and the executor reads exactly that graph; the searches end, post-orders are reverse
  topological, pruning keeps exactly what reaches its targets, the fix-up connects what is left,
  the check for cycles is exact on graphs whose loops close, and the edges of an accepted graph
  agree on the frames of its loops. Names and keys parse back; statuses, counts and handles behave as
  their comments say. The remaining properties show where the code does not do what it should.

  \<^bold>\<open>Bounds and fuel\<close>. \<open>cleanup_loop\<close> and \<open>CleanupFramesIterations\<close> take as fuel the number of
  iterations and of frames; \<open>frame_cleanup_total\<close> and \<open>parent_recursion_ends\<close> show that this is
  enough. \<open>cf_loop\<close> takes the number of node ids, and \<open>cf_loop_enough\<close> shows that it has no result
  only where the code would dereference a null pointer. \<open>process_loop\<close> has its fuel as an argument, because a kernel may produce work forever;
  its properties hold for every fuel that gives a result. The lists of children of a cancellation
  manager have no cycle, so the number of managers is enough for \<open>take_children\<close>. The two loops
  of \<open>Extend\<close>, the walk over the chunks of a region and the retries of \<open>AllocatorRetry\<close> are
  \<open>partial_function\<close>s: that they end is proved where it holds (\<open>grow_region_ok\<close>,
  \<open>backpedal_loop_ends\<close>, \<open>retry_returns\<close>); \<open>bfc_alloc_refines\<close> says when alone a request may not
  return, and \<open>small_request_hangs\<close> that it then does not. The probe loops of the hash tables and the loops
  over a graph are \<open>partial_function\<close>s too; their results are proved to exist. \<open>max_entries\<close>
  (1717986918) is the number of entries beyond which the size of a table overflows; the histories
  of a graph stay below it. The addresses of an arena are a parameter, required to be new and
  not null (\<open>arena_ok\<close>).

  \<^bold>\<open>Not modelled\<close>. The pool the malleability acts on (a patched Eigen, not in the repository); the
  contents of tensors and the computation of kernels; statistics, tracing and the memory maps
  written to logs; garbage collection of regions is modelled but its histories have no
  property. Of graphs: the function library, versions, while contexts, the attributes added through
  \<open>AddAttr\<close>, and reading and writing \<open>GraphDef\<close> messages. Outside the components above: partitioning,
  placement,
  grappler, sessions, the distributed runtime and its transport, the kernels and operations, the
  compilers (XLA, MLIR, TensorRT), stream executor, Lite, the language bindings, and the Python
  scheduler of the fork, which is another program in another language that talks to this one by
  signals and by the environment.
\<close>

end
